(* ===== verification/Prelude.thy ===== *)
theory Prelude
  imports Main "HOL-Library.Word"
begin

text \<open>
  Shared vocabulary of the development: machine words at their source width, the
  result type that turns every failed \<open>RT_ASSERT\<close>, \<open>abort()\<close>, \<open>FatalError\<close> and
  access outside an object into a value, little-endian byte images of words (the
  machine is x86-64, so \<open>memcpy\<close> of an integer is its little-endian image), and the
  list and word lemmas that more than one component uses.

  Assertions are live in this program: \<^verbatim>\<open>src/runtimejs.h\<close> defines
  \<open>RT_ASSERT(x)\<close> as \<open>assert(x)\<close> and no build file defines \<open>NDEBUG\<close>; a failed
  assertion ends in \<open>BootServices::FatalError\<close>, which stops the machine.
\<close>

unbundle bit_operations_syntax

type_synonym u8 = "8 word"
type_synonym u16 = "16 word"
type_synonym u32 = "32 word"
type_synonym u64 = "64 word"

section \<open>Results\<close>

datatype rt_error =
    AssertFailed string   \<comment> \<open>\<open>RT_ASSERT\<close> or \<open>libassert\<close> with a false argument\<close>
  | FatalError string     \<comment> \<open>\<open>BootServices::FatalError\<close>\<close>
  | Aborted string        \<comment> \<open>\<open>abort()\<close> after a printed message\<close>
  | OutOfBounds string    \<comment> \<open>a read or write outside the object, which C++ leaves undefined\<close>
  | SystemHang            \<comment> \<open>\<open>Cpu::HangSystem()\<close>\<close>
  | OutOfFuel             \<comment> \<open>the bound of a model recursion; shown not to be reached\<close>

type_synonym 'a res = "rt_error + 'a"

definition res_bind :: "'a res \<Rightarrow> ('a \<Rightarrow> 'b res) \<Rightarrow> 'b res" where
  "res_bind m f = (case m of Inl e \<Rightarrow> Inl e | Inr x \<Rightarrow> f x)"

definition rt_assert :: "bool \<Rightarrow> string \<Rightarrow> unit res" where
  "rt_assert c msg = (if c then Inr () else Inl (AssertFailed msg))"

lemma res_bind_simps [simp]:
  "res_bind (Inl e) f = Inl e"
  "res_bind (Inr x) f = f x"
  "res_bind m Inr = m"
  by (simp_all add: res_bind_def split: sum.split)

lemma res_bind_Inr_iff:
  "res_bind m f = Inr y \<longleftrightarrow> (\<exists>x. m = Inr x \<and> f x = Inr y)"
  by (cases m) auto

lemma res_bind_Inl_iff:
  "res_bind m f = Inl e \<longleftrightarrow> m = Inl e \<or> (\<exists>x. m = Inr x \<and> f x = Inl e)"
  by (cases m) auto

lemma res_bind_assoc: "res_bind (res_bind m f) g = res_bind m (\<lambda>x. res_bind (f x) g)"
  by (cases m) auto

lemma rt_assert_simps [simp]:
  "rt_assert True msg = Inr ()"
  "rt_assert False msg = Inl (AssertFailed msg)"
  by (simp_all add: rt_assert_def)

lemma rt_assert_Inr_iff [simp]: "rt_assert c msg = Inr u \<longleftrightarrow> c"
  by (simp add: rt_assert_def)

lemma rt_assert_Inl_iff [simp]:
  "rt_assert c msg = Inl e \<longleftrightarrow> \<not> c \<and> e = AssertFailed msg"
  by (auto simp: rt_assert_def)

lemmas res_iffs = res_bind_Inr_iff res_bind_Inl_iff

section \<open>Constants of \<open>constants.h\<close>\<close>

definition KiB :: u64 where "KiB = 1024"
definition MiB :: u64 where "MiB = 1024 * 1024"
definition GiB :: u64 where "GiB = 1024 * 1024 * 1024"

lemma size_units [simp]: "KiB = 0x400" "MiB = 0x100000" "GiB = 0x40000000"
  by (simp_all add: KiB_def MiB_def GiB_def)

section \<open>Byte images of words\<close>

primrec le_bytes :: "nat \<Rightarrow> 'a::len word \<Rightarrow> u8 list" where
  "le_bytes 0 w = []"
| "le_bytes (Suc n) w = ucast w # le_bytes n (drop_bit 8 w)"

primrec le_word :: "u8 list \<Rightarrow> 'a::len word" where
  "le_word [] = 0"
| "le_word (b # bs) = ucast b OR push_bit 8 (le_word bs)"

lemma length_le_bytes [simp]: "length (le_bytes n w) = n"
  by (induction n arbitrary: w) auto

lemma le_word_le_bytes_take: "le_word (le_bytes n w) = take_bit (8 * n) w"
proof (induction n arbitrary: w)
  case 0
  then show ?case by simp
next
  case (Suc n)
  show ?case
  proof (rule bit_word_eqI)
    fix k assume "k < LENGTH('a)"
    then show "bit (le_word (le_bytes (Suc n) w) :: 'a word) k = bit (take_bit (8 * Suc n) w) k"
      by (auto simp: Suc.IH bit_or_iff bit_push_bit_iff bit_take_bit_iff bit_drop_bit_eq
          bit_ucast_iff dest: bit_imp_le_length)
  qed
qed

lemma le_word_le_bytes [simp]:
  "LENGTH('a) \<le> 8 * n \<Longrightarrow> le_word (le_bytes n w) = (w :: 'a::len word)"
  by (simp add: le_word_le_bytes_take take_bit_word_eq_self)

section \<open>Word counters\<close>

lemma unat_add_no_wrap:
  "unat (a :: 'a::len word) + unat b < 2 ^ LENGTH('a) \<Longrightarrow> unat (a + b) = unat a + unat b"
  by (simp add: unat_word_ariths)

lemma unat_plus_one_less:
  assumes "i < (n :: 'a::len word)"
  shows "unat (i + 1) = Suc (unat i)"
proof -
  have "unat i < unat n" using assms by (simp add: word_less_nat_alt)
  moreover have "unat n < 2 ^ LENGTH('a)" by (rule unsigned_less)
  moreover have "unat (1 :: 'a word) = 1" by simp
  ultimately have "unat i + unat (1 :: 'a word) < 2 ^ LENGTH('a)" by linarith
  then show ?thesis by (simp add: unat_add_no_wrap)
qed

lemma unat_of_nat_small: "n < 2 ^ LENGTH('a) \<Longrightarrow> unat (of_nat n :: 'a::len word) = n"
  by (simp add: unat_of_nat take_bit_nat_eq_self)

lemma unat_ucast_up:
  assumes "LENGTH('a) \<le> LENGTH('b)"
  shows "unat (ucast (w :: 'a::len word) :: 'b::len word) = unat w"
proof -
  have "unat w < 2 ^ LENGTH('b)"
    using unsigned_less [of w, where ?'a = nat] assms
    by (meson less_le_trans one_le_numeral power_increasing)
  then show ?thesis by (simp add: unsigned_ucast_eq take_bit_nat_eq_self)
qed

lemma of_nat_small_eq_0: "n < 2 ^ LENGTH('a) \<Longrightarrow> (of_nat n :: 'a::len word) = 0 \<longleftrightarrow> n = 0"
  using unat_of_nat_small [of n, where 'a = 'a] by (auto simp del: of_nat_0 simp: unat_eq_zero [symmetric])

lemma unat_mask_and: "unat (w AND mask n :: 'a::len word) = unat w mod 2 ^ n"
  by (metis take_bit_eq_mask take_bit_eq_mod unsigned_take_bit_eq)

end
