(* ===== verification/Utils.thy ===== *)
theory Utils
  imports Prelude
begin

text \<open>
  \<^verbatim>\<open>src/src/kernel/utils.h\<close>: alignment, big-endian reads, integer printing,
  \<open>Memset16\<close>, \<open>Nullable\<close>, \<open>Range\<close>, \<open>MemoryZone\<close> and \<open>MemoryBlock\<close>. Pointers into a
  buffer are a byte list and a position; a read past its end is \<open>OutOfBounds\<close>.
\<close>

section \<open>Alignment and safe integers\<close>

definition Align :: "u64 \<Rightarrow> u64 \<Rightarrow> u64 res" where
  "Align value alignment =
     res_bind (rt_assert (alignment \<noteq> 0) ''alignment'') (\<lambda>_.
       Inr (if value mod alignment \<noteq> 0
            then value + (alignment - value mod alignment) else value))"

definition AlignPtr :: "u64 \<Rightarrow> u64 \<Rightarrow> u64 res" where
  "AlignPtr ptr alignment = Align ptr alignment"

definition IsSafeDouble :: "u64 \<Rightarrow> bool" where
  "IsSafeDouble value \<longleftrightarrow> value = (value AND 0x1fffffffffffff)"

section \<open>Byte reads\<close>

definition byte_at :: "u8 list \<Rightarrow> nat \<Rightarrow> u8 res" where
  "byte_at p i = (if i < length p then Inr (p ! i) else Inl (OutOfBounds ''byte read''))"

definition ReadUint32BE :: "u8 list \<Rightarrow> nat \<Rightarrow> u32 res" where
  "ReadUint32BE p pos =
     res_bind (byte_at p (pos + 3)) (\<lambda>b3. res_bind (byte_at p (pos + 2)) (\<lambda>b2.
     res_bind (byte_at p (pos + 1)) (\<lambda>b1. res_bind (byte_at p pos) (\<lambda>b0.
       Inr (ucast b3 OR push_bit 8 (ucast b2) OR push_bit 16 (ucast b1) OR push_bit 24 (ucast b0))))))"

definition ReadUint16BE :: "u8 list \<Rightarrow> nat \<Rightarrow> u16 res" where
  "ReadUint16BE p pos =
     res_bind (byte_at p (pos + 1)) (\<lambda>b1. res_bind (byte_at p pos) (\<lambda>b0.
       Inr (ucast b1 OR push_bit 8 (ucast b0))))"

section \<open>\<open>ToString\<close>\<close>

definition digit_char :: "nat \<Rightarrow> char" where
  "digit_char i = (if i < 10 then char_of (i + 48) else char_of (i + 97 - 10))"

text \<open>
  The loop \<open>while (v || tp == tmp)\<close> writes the digits of \<open>v\<close>, least significant first,
  into \<open>tmp\<close>; it runs at least once. \<open>tmp\<close> grows to the right, so it is the list of
  what was written.
\<close>

function to_string_loop :: "nat \<Rightarrow> nat \<Rightarrow> string \<Rightarrow> string" where
  "to_string_loop radix v tmp =
     (if 2 \<le> radix \<and> (v \<noteq> 0 \<or> tmp = [])
      then to_string_loop radix (v div radix) (tmp @ [digit_char (v mod radix)])
      else tmp)"
  by pat_completeness auto
termination
proof (relation "measure (\<lambda>(radix, v, tmp). 2 * v + (if tmp = [] then 1 else 0))", simp)
  fix radix v :: nat and tmp :: string
  assume *: "2 \<le> radix \<and> (v \<noteq> 0 \<or> tmp = [])"
  show "((radix, v div radix, tmp @ [digit_char (v mod radix)]), radix, v, tmp)
    \<in> measure (\<lambda>(radix, v, tmp). 2 * v + (if tmp = [] then 1 else 0))"
  proof (cases "v = 0")
    case False
    then have "v div radix < v" using * by (intro div_less_dividend) auto
    then show ?thesis by simp
  qed (use * in simp)
qed

declare to_string_loop.simps [simp del]

text \<open>
  \<open>ToString<int64_t>(value, sp, radix)\<close>: the text written at \<open>sp\<close>, without its
  terminating zero byte. A negative value in a radix other than 10 prints its
  two's complement image. \<open>-value\<close> of the least \<open>int64_t\<close> overflows in C++.
\<close>

definition ToString :: "int \<Rightarrow> int \<Rightarrow> string res" where
  "ToString value radix0 =
     (let radix = (if radix0 < 2 \<or> 36 < radix0 then 10 else nat radix0);
          sign = (radix = 10 \<and> value < 0)
      in if sign \<and> value = - (2 ^ 63) then Inl (OutOfBounds ''-value overflows'')
         else let v = (if sign then nat (- value) else nat (value mod 2 ^ 64));
                  tmp = to_string_loop radix v []
              in Inr ((if sign then ''-'' else []) @ rev tmp))"

section \<open>\<open>Memset16\<close>\<close>

text \<open>\<open>dst\<close> is the buffer as bytes from \<open>dst\<close> on; each step stores \<open>val\<close> in two of them.\<close>

fun Memset16 :: "u8 list \<Rightarrow> u16 \<Rightarrow> nat \<Rightarrow> u8 list res" where
  "Memset16 dst val 0 = Inr dst"
| "Memset16 (b0 # b1 # dst) val (Suc n) =
     res_bind (Memset16 dst val n) (\<lambda>r. Inr (le_bytes 2 val @ r))"
| "Memset16 _ val (Suc n) = Inl (OutOfBounds ''Memset16'')"

section \<open>Small value classes\<close>

record MemoryZone =
  mz_ptr :: u64
  mz_size :: u64

definition mz_empty :: "MemoryZone \<Rightarrow> bool" where
  "mz_empty z \<longleftrightarrow> mz_ptr z = 0 \<and> mz_size z = 0"

record 'a Nullable =
  nl_value :: 'a
  nl_empty :: bool

definition nl_get :: "'a Nullable \<Rightarrow> 'a res" where
  "nl_get n = res_bind (rt_assert (\<not> nl_empty n) ''!empty_'') (\<lambda>_. Inr (nl_value n))"

record 'a Range =
  rg_begin :: 'a
  rg_end :: 'a

definition mk_Range :: "'a::linorder \<Rightarrow> 'a \<Rightarrow> 'a Range res" where
  "mk_Range b e = res_bind (rt_assert (b \<le> e) ''begin_ <= end_'')
     (\<lambda>_. Inr \<lparr>rg_begin = b, rg_end = e\<rparr>)"

definition IsOverlaps :: "'a::linorder Range \<Rightarrow> 'a Range \<Rightarrow> bool" where
  "IsOverlaps r other \<longleftrightarrow> rg_begin r \<le> rg_end other \<and> rg_begin other \<le> rg_end r"

definition IsSubrangeOf :: "'a::linorder Range \<Rightarrow> 'a Range \<Rightarrow> bool" where
  "IsSubrangeOf r other \<longleftrightarrow> rg_begin other \<le> rg_begin r \<and> rg_end r \<le> rg_end other"

definition Contains :: "'a::linorder Range \<Rightarrow> 'a \<Rightarrow> bool" where
  "Contains r value \<longleftrightarrow> rg_begin r \<le> value \<and> value \<le> rg_end r"

record 'a MemoryBlock =
  mb_base :: u64
  mb_size :: 'a

section \<open>Correctness\<close>

subsection \<open>Alignment\<close>

lemma Align_spec:
  assumes "a \<noteq> 0" "unat v + unat a \<le> 2 ^ 64"
  obtains r where "Align v a = Inr r" "unat a dvd unat r" "unat v \<le> unat r"
    "unat r < unat v + unat a"
proof (cases "v mod a = 0")
  case True
  have "Align v a = Inr v" using assms True by (simp add: Align_def)
  moreover have "unat a dvd unat v"
    using True by (metis mod_eq_0_iff_dvd unat_eq_zero unat_mod)
  ultimately show thesis using assms(1) that by (simp add: unat_gt_0)
next
  case False
  let ?m = "unat v mod unat a"
  have a: "0 < unat a" using assms(1) by (simp add: unat_gt_0)
  have m: "unat (v mod a) = ?m" by (simp add: unat_mod)
  have m0: "0 < ?m" using False m by (metis neq0_conv unat_eq_zero)
  have ma: "?m < unat a" using a by simp
  have d: "unat (a - v mod a) = unat a - ?m"
    using m ma by (simp add: unat_sub word_le_nat_alt)
  have s: "unat (v + (a - v mod a)) = unat v + (unat a - ?m)"
  proof -
    have "unat v + (unat a - ?m) < 2 ^ 64" using assms(2) m0 ma by linarith
    then show ?thesis using d by (subst unat_add_no_wrap) simp_all
  qed
  have e: "unat v + (unat a - ?m) = (unat v div unat a + 1) * unat a"
  proof -
    have "unat v = unat v div unat a * unat a + ?m" by simp
    then show ?thesis using ma unfolding add_mult_distrib by linarith
  qed
  have "Align v a = Inr (v + (a - v mod a))" using assms(1) False by (simp add: Align_def)
  then show thesis
    using that s e m0 ma by (metis add_diff_cancel_left' add_less_cancel_left diff_less
        dvd_triv_right le_add1 a)
qed

lemma IsSafeDouble_iff: "IsSafeDouble v \<longleftrightarrow> unat v < 2 ^ 53"
proof -
  have "(0x1fffffffffffff :: u64) = mask 53" by (simp add: mask_eq_exp_minus_1)
  then have "IsSafeDouble v \<longleftrightarrow> unat v = unat v mod 2 ^ 53"
    by (metis IsSafeDouble_def unat_mask_and word_unat_eq_iff)
  then show ?thesis by (metis mod_less mod_less_divisor zero_less_numeral zero_less_power)
qed

subsection \<open>\<open>ToString\<close>\<close>

definition digit_val :: "char \<Rightarrow> nat" where
  "digit_val c = (let k = of_char c in if k < 58 then k - 48 else k + 10 - 97)"

primrec lsb_value :: "nat \<Rightarrow> string \<Rightarrow> nat" where
  "lsb_value radix [] = 0"
| "lsb_value radix (c # cs) = digit_val c + radix * lsb_value radix cs"

lemma digit_val_char [simp]: "d < 36 \<Longrightarrow> digit_val (digit_char d) = d"
  by (auto simp: digit_val_def digit_char_def Let_def)

lemma lsb_value_append:
  "lsb_value radix (xs @ ys) = lsb_value radix xs + radix ^ length xs * lsb_value radix ys"
  by (induction xs) (auto simp: algebra_simps)

lemma to_string_loop_value:
  assumes "2 \<le> radix" "radix \<le> 36"
  shows "lsb_value radix (to_string_loop radix v tmp) = lsb_value radix tmp + radix ^ length tmp * v"
  using assms
proof (induction radix v tmp rule: to_string_loop.induct)
  case (1 radix v tmp)
  show ?case
  proof (cases "v \<noteq> 0 \<or> tmp = []")
    case True
    have "v mod radix < radix" using "1.prems" by simp
    then have "v mod radix < 36" using "1.prems" by linarith
    moreover have "radix ^ n * (v mod radix) + radix * (radix ^ n * (v div radix)) = radix ^ n * v" for n
      by (metis add_mult_distrib2 mod_mult_div_eq mult.left_commute)
    ultimately show ?thesis
      using "1" True by (subst to_string_loop.simps)
        (simp add: lsb_value_append mult.assoc)
  next
    case False
    then show ?thesis by (subst to_string_loop.simps) simp
  qed
qed

lemma to_string_loop_length:
  assumes "2 \<le> radix" "v < radix ^ k" "tmp \<noteq> []"
  shows "length (to_string_loop radix v tmp) \<le> length tmp + k"
  using assms
proof (induction k arbitrary: v tmp)
  case 0
  then show ?case by (subst to_string_loop.simps) simp
next
  case (Suc k)
  have "v div radix < radix ^ k"
    using Suc.prems by (simp add: less_mult_imp_div_less mult.commute)
  then have "length (to_string_loop radix (v div radix) (tmp @ [digit_char (v mod radix)]))
    \<le> length (tmp @ [digit_char (v mod radix)]) + k"
    using Suc.prems by (intro Suc.IH) auto
  then show ?case by (subst to_string_loop.simps) simp
qed

lemma to_string_loop_nonempty: "tmp \<noteq> [] \<Longrightarrow> to_string_loop radix v tmp \<noteq> []"
proof (induction radix v tmp rule: to_string_loop.induct)
  case (1 radix v tmp)
  then show ?case by (subst to_string_loop.simps) simp
qed

subsection \<open>Properties\<close>

text \<open>
  \<open>Utils::ToString\<close> for every \<open>int64_t\<close> except the least one: the text is a sign (only in
  radix 10, only for negative values) followed by the digits, most significant first. Their
  value is the magnitude in radix 10. In every other radix it is the value modulo 2^64: the value
  itself if it is not negative, and its two's complement if it is. The digits fit the
  66-byte buffer \<open>tmp\<close>.
\<close>

theorem ToString_value:
  assumes "2 \<le> radix" "radix \<le> 36" "- (2 ^ 63) < value" "value < 2 ^ 63"
  shows "\<exists>digits. ToString value radix = Inr ((if radix = 10 \<and> value < 0 then ''-'' else []) @ digits) \<and>
    int (lsb_value (nat radix) (rev digits)) = (if radix = 10 then \<bar>value\<bar> else value mod 2 ^ 64) \<and>
    1 \<le> length digits \<and> length digits \<le> 65"
proof -
  define v where "v = (if radix = 10 \<and> value < 0 then nat (- value) else nat (value mod 2 ^ 64))"
  let ?tmp = "to_string_loop (nat radix) v []"
  have r: "2 \<le> nat radix" "nat radix \<le> 36" using assms(1,2) by auto
  have s: "ToString value radix = Inr ((if radix = 10 \<and> value < 0 then ''-'' else []) @ rev ?tmp)"
    using assms by (auto simp: ToString_def v_def Let_def)
  have val: "lsb_value (nat radix) ?tmp = v"
    using to_string_loop_value [OF r, of v "[]"] by simp
  have m: "0 \<le> value \<Longrightarrow> value mod 2 ^ 64 = value" using assms(4) by (intro mod_pos_pos_trivial) auto
  have v_val: "int v = (if radix = 10 then \<bar>value\<bar> else value mod 2 ^ 64)"
    using m by (auto simp: v_def)
  have "int v < 2 ^ 64"
    unfolding v_val using assms(3,4) pos_mod_bound [of "2 ^ 64" "value"] by auto
  then have "int v < int (2 ^ 64)" by simp
  then have "v < 2 ^ 64" by (simp only: of_nat_less_iff)
  moreover have "(2::nat) ^ 64 \<le> nat radix ^ 64" using r(1) by (rule power_mono) simp
  moreover have "v div nat radix \<le> v" by (rule div_le_dividend)
  ultimately have lt: "v div nat radix < nat radix ^ 64" by linarith
  have step: "?tmp = to_string_loop (nat radix) (v div nat radix) [digit_char (v mod nat radix)]"
    using r(1) by (subst to_string_loop.simps) simp
  have "length ?tmp \<le> 65"
    unfolding step using to_string_loop_length [OF r(1) lt, of "[digit_char (v mod nat radix)]"] by simp
  moreover have "?tmp \<noteq> []"
    unfolding step by (rule to_string_loop_nonempty) simp
  ultimately show ?thesis using s val v_val by (auto simp: Suc_le_eq)
qed

theorem ToString_value_witness:
  "\<exists>digits. ToString (- 255) 16 = Inr digits \<and>
     int (lsb_value 16 (rev digits)) = 2 ^ 64 - 255 \<and> length digits \<le> 65"
  using ToString_value [of 16 "- 255"] by auto

text \<open>
  \<open>Utils::Align\<close> rounds up: when \<open>value + alignment\<close> does not exceed 2^64, the result is the
  least multiple of \<open>alignment\<close> that is not below \<open>value\<close>.
\<close>

theorem Align_least_multiple:
  assumes "a \<noteq> 0" "unat v + unat a \<le> 2 ^ 64"
  shows "\<exists>r. Align v a = Inr r \<and> unat a dvd unat r \<and> unat v \<le> unat r \<and>
    (\<forall>m. unat a dvd m \<and> unat v \<le> m \<longrightarrow> unat r \<le> m)"
proof -
  obtain r where r: "Align v a = Inr r" "unat a dvd unat r" "unat v \<le> unat r" "unat r < unat v + unat a"
    by (rule Align_spec [OF assms])
  have "unat r \<le> m" if d: "unat a dvd m" and le: "unat v \<le> m" for m
  proof -
    obtain j where "unat r = unat a * j" using r(2) by (elim dvdE)
    moreover obtain k where "m = unat a * k" using d by (elim dvdE)
    ultimately have jk: "unat r = unat a * j" "m = unat a * k" by blast+
    then have "unat a * j < unat a * Suc k" using r(4) le by simp
    then have "j \<le> k" by (metis less_Suc_eq_le mult_less_cancel1)
    then show ?thesis using jk by simp
  qed
  then show ?thesis using r by blast
qed

theorem Align_least_multiple_witness:
  "\<exists>r. Align 0x100001 0x1000 = Inr r \<and> unat r \<le> 0x101000"
proof -
  obtain r where "Align 0x100001 0x1000 = Inr r"
    "\<forall>m. unat (0x1000 :: u64) dvd m \<and> unat (0x100001 :: u64) \<le> m \<longrightarrow> unat r \<le> m"
    using Align_least_multiple [of "0x1000" "0x100001"] by auto
  moreover have "unat (0x1000 :: u64) dvd 0x101000" by simp
  ultimately show ?thesis by auto
qed

end
