(* ===== verification/PhysMem.thy ===== *)
theory PhysMem
  imports Utils
begin

text \<open>
  Physical memory, \<^verbatim>\<open>src/src/kernel/mem-manager.h\<close> and \<^verbatim>\<open>mem-manager.cc\<close>:
  \<open>PagesStack\<close> (a descending stack of page numbers in a fixed memory area) and
  \<open>PhysicalAllocator\<close> (one stack for pages below 4 GiB, one for the others, a status
  byte per page, and the counters). The pointers of \<open>PagesStack\<close> are \<open>uint64_t*\<close> into
  one array, so they are indices in units of eight bytes; \<open>location_overflow_\<close> is
  index 0. \<open>pages_status_\<close> has \<open>kPagesStatusSize\<close> bytes; an access outside them would
  hit the page tables that follow and is \<open>OutOfBounds\<close> here.

  The lemmas show that each stack is a bounded list (push drops what does not fit), that
  the allocator hands out only free pages and never the same page twice before it is
  freed, and that the 32-bit stack never overflows.
\<close>

section \<open>\<open>PagesStack\<close>\<close>

record PagesStack =
  location_overflow :: nat
  ps_location :: nat
  current_location :: nat
  ps_cells :: "nat \<Rightarrow> u64"

definition ps_push :: "PagesStack \<Rightarrow> u64 \<Rightarrow> PagesStack" where
  "ps_push s pageid =
     (if current_location s = location_overflow s then s
      else s\<lparr>ps_cells := (ps_cells s)(current_location s := pageid),
             current_location := current_location s - 1\<rparr>)"

definition ps_pop :: "PagesStack \<Rightarrow> u64 \<times> PagesStack" where
  "ps_pop s =
     (if current_location s = ps_location s then (0, s)
      else let c = current_location s + 1 in (ps_cells s c, s\<lparr>current_location := c\<rparr>))"

text \<open>
  The constructor: \<open>cells\<close> is the memory of the area before, \<open>nbytes\<close> its size in bytes.
\<close>

definition mk_PagesStack :: "u64 \<Rightarrow> nat \<Rightarrow> (nat \<Rightarrow> u64) \<Rightarrow> PagesStack res" where
  "mk_PagesStack location nbytes cells =
     res_bind (rt_assert (location \<noteq> 0) ''location'') (\<lambda>_.
     res_bind (rt_assert (nbytes \<noteq> 0) ''size'') (\<lambda>_.
       Inr (ps_push \<lparr>location_overflow = 0, ps_location = nbytes div 8 - 1,
                     current_location = nbytes div 8 - 1, ps_cells = cells\<rparr> 0)))"

section \<open>\<open>PhysicalAllocator\<close>\<close>

definition kPageSizeBytes :: u64 where "kPageSizeBytes = 2 * MiB"
definition kAllocStartAddress :: u64 where "kAllocStartAddress = 32 * MiB"
definition kPageDirectoryStart :: u64 where "kPageDirectoryStart = 26 * MiB"
definition kStackStartAddress :: u64 where "kStackStartAddress = 22 * MiB"
definition kPagesStatusStartAddress :: u64 where "kPagesStatusStartAddress = 24 * MiB"
definition kPagesStatusSize :: u64 where "kPagesStatusSize = 2 * MiB"

lemma phys_constants [simp]:
  "kPageSizeBytes = 0x200000" "kAllocStartAddress = 0x2000000"
  "kPageDirectoryStart = 0x1A00000" "kStackStartAddress = 0x1600000"
  "kPagesStatusStartAddress = 0x1800000" "kPagesStatusSize = 0x200000"
  by (simp_all add: kPageSizeBytes_def kAllocStartAddress_def kPageDirectoryStart_def
      kStackStartAddress_def kPagesStatusStartAddress_def kPagesStatusSize_def)

record PhysicalAllocator =
  stack_32 :: PagesStack
  stack_64 :: PagesStack
  pages_status :: "u64 \<Rightarrow> bool"
  available_phys_memory :: u64
  used_phys_memory :: u64

definition last_32bit :: u64 where
  "last_32bit = 0xffffffff div kPageSizeBytes"

definition status_in_bounds :: "u64 \<Rightarrow> bool" where
  "status_in_bounds pageid \<longleftrightarrow> pageid < kPagesStatusSize"

definition push_page :: "PhysicalAllocator \<Rightarrow> u64 \<Rightarrow> PhysicalAllocator" where
  "push_page pa pageid =
     (if pageid \<le> last_32bit then pa\<lparr>stack_32 := ps_push (stack_32 pa) pageid\<rparr>
      else pa\<lparr>stack_64 := ps_push (stack_64 pa) pageid\<rparr>)"

definition pmm_free :: "PhysicalAllocator \<Rightarrow> u64 \<Rightarrow> PhysicalAllocator res" where
  "pmm_free pa addr =
     (if addr = 0 then Inr pa
      else let pageid = addr div kPageSizeBytes in
        if \<not> status_in_bounds pageid then Inl (OutOfBounds ''pages_status_'')
        else if \<not> pages_status pa pageid then Inl (AssertFailed ''Double free.'')
        else let pa1 = pa\<lparr>pages_status := (pages_status pa)(pageid := False)\<rparr>;
                 pa2 = push_page pa1 pageid
             in Inr (pa2\<lparr>used_phys_memory := used_phys_memory pa2 - kPageSizeBytes\<rparr>))"

definition mark_used :: "PhysicalAllocator \<Rightarrow> u64 \<Rightarrow> (u64 \<times> PhysicalAllocator) res" where
  "mark_used pa pageid =
     (if \<not> status_in_bounds pageid then Inl (OutOfBounds ''pages_status_'')
      else Inr (pageid * kPageSizeBytes,
                pa\<lparr>pages_status := (pages_status pa)(pageid := True),
                   used_phys_memory := used_phys_memory pa + kPageSizeBytes\<rparr>))"

definition pmm_alloc32 :: "PhysicalAllocator \<Rightarrow> (u64 \<times> PhysicalAllocator) res" where
  "pmm_alloc32 pa =
     (let (pageid, s) = ps_pop (stack_32 pa); pa1 = pa\<lparr>stack_32 := s\<rparr> in
      if pageid = 0 then Inl (AssertFailed ''No more physical pages to allocate (32 bit).'')
      else mark_used pa1 pageid)"

definition pmm_alloc :: "PhysicalAllocator \<Rightarrow> (u64 \<times> PhysicalAllocator) res" where
  "pmm_alloc pa =
     (let (pageid64, s64) = ps_pop (stack_64 pa); pa1 = pa\<lparr>stack_64 := s64\<rparr>;
          (pageid, pa2) = (if pageid64 = 0
                           then let (p32, s32) = ps_pop (stack_32 pa1) in (p32, pa1\<lparr>stack_32 := s32\<rparr>)
                           else (pageid64, pa1))
      in if pageid = 0 then Inl (AssertFailed ''No more physical pages to allocate.'')
         else mark_used pa2 pageid)"

definition PageAligned :: "u64 \<Rightarrow> u64" where
  "PageAligned ptr = ptr AND NOT 0x1FFFFF"

definition page_directory_zone :: "MemoryZone res" where
  "page_directory_zone =
     res_bind (rt_assert (kAllocStartAddress \<noteq> 0) ''kAllocStartAddress'') (\<lambda>_.
     res_bind (rt_assert (kPageDirectoryStart \<noteq> 0) ''kPageDirectoryStart'') (\<lambda>_.
     res_bind (rt_assert (kAllocStartAddress - kPageDirectoryStart \<ge> 1 * MiB) ''zone size'') (\<lambda>_.
       Inr \<lparr>mz_ptr = kPageDirectoryStart, mz_size = kAllocStartAddress - kPageDirectoryStart\<rparr>)))"

definition identity_mapped_region_size :: u64 where
  "identity_mapped_region_size = kAllocStartAddress"

subsection \<open>\<open>_insert_pages_range\<close>\<close>

definition insert_page :: "PhysicalAllocator \<Rightarrow> u64 \<Rightarrow> PhysicalAllocator res" where
  "insert_page pa i =
     (if \<not> status_in_bounds i then Inl (OutOfBounds ''pages_status_'')
      else if \<not> pages_status pa i then Inr pa
      else let pa1 = push_page (pa\<lparr>pages_status := (pages_status pa)(i := False)\<rparr>) i
           in Inr (pa1\<lparr>available_phys_memory := available_phys_memory pa1 + kPageSizeBytes\<rparr>))"

function insert_pages_loop :: "PhysicalAllocator \<Rightarrow> u64 \<Rightarrow> u64 \<Rightarrow> PhysicalAllocator res" where
  "insert_pages_loop pa i last_page =
     (if i < last_page
      then res_bind (insert_page pa i) (\<lambda>pa'. insert_pages_loop pa' (i + 1) last_page)
      else Inr pa)"
  by pat_completeness auto
termination
proof (relation "measure (\<lambda>(pa, i, n). unat n - unat i)", simp)
  fix pa i n pa'
  assume "i < (n :: u64)"
  then have "unat (i + 1) = Suc (unat i)" and "unat i < unat n"
    by (simp_all add: unat_plus_one_less word_less_nat_alt [symmetric])
  then show "((pa', i + 1, n), pa, i, n) \<in> measure (\<lambda>(pa, i, n). unat n - unat i)"
    by simp
qed

declare insert_pages_loop.simps [simp del]

definition insert_pages_range :: "PhysicalAllocator \<Rightarrow> u64 \<Rightarrow> u64 \<Rightarrow> PhysicalAllocator res" where
  "insert_pages_range pa start end =
     (let first_page = start div kPageSizeBytes; last_page = end div kPageSizeBytes in
      if first_page \<ge> last_page then Inr pa
      else insert_pages_loop pa first_page last_page)"

section \<open>The stack is a bounded list\<close>

definition ps_wf :: "PagesStack \<Rightarrow> bool" where
  "ps_wf s \<longleftrightarrow> location_overflow s = 0 \<and> current_location s \<le> ps_location s"

definition ps_list :: "PagesStack \<Rightarrow> u64 list" where
  "ps_list s = map (ps_cells s) [Suc (current_location s)..<Suc (ps_location s)]"

definition ps_full :: "PagesStack \<Rightarrow> bool" where
  "ps_full s \<longleftrightarrow> current_location s = location_overflow s"

lemma ps_push_wf [simp]: "ps_wf s \<Longrightarrow> ps_wf (ps_push s x)"
  by (auto simp: ps_wf_def ps_push_def)

lemma ps_pop_wf [simp]: "ps_wf s \<Longrightarrow> ps_wf (snd (ps_pop s))"
  by (auto simp: ps_wf_def ps_pop_def Let_def)

lemma ps_push_list:
  assumes "ps_wf s"
  shows "ps_list (ps_push s x) = (if ps_full s then ps_list s else x # ps_list s)"
proof (cases "ps_full s")
  case True
  then show ?thesis by (simp add: ps_push_def ps_full_def)
next
  case False
  then have c: "0 < current_location s" "current_location s \<le> ps_location s"
    using assms by (auto simp: ps_full_def ps_wf_def)
  have "[current_location s..<Suc (ps_location s)]
    = current_location s # [Suc (current_location s)..<Suc (ps_location s)]"
    using c(2) by (intro upt_conv_Cons) simp
  then show ?thesis
    using False c(1) by (simp add: ps_list_def ps_push_def ps_full_def del: upt_Suc)
qed

lemma ps_pop_list:
  assumes "ps_wf s"
  shows "ps_pop s = (case ps_list s of [] \<Rightarrow> (0, s) | x # _ \<Rightarrow> (x, snd (ps_pop s)))"
    and "ps_list (snd (ps_pop s)) = tl (ps_list s)"
proof -
  show "ps_pop s = (case ps_list s of [] \<Rightarrow> (0, s) | x # _ \<Rightarrow> (x, snd (ps_pop s)))"
    using assms by (auto simp: ps_pop_def ps_list_def ps_wf_def upt_conv_Cons Let_def simp del: upt_Suc)
  show "ps_list (snd (ps_pop s)) = tl (ps_list s)"
    using assms by (auto simp: ps_pop_def ps_list_def ps_wf_def map_tl [symmetric] Let_def
        tl_upt simp del: upt_Suc)
qed

lemma length_ps_list: "ps_wf s \<Longrightarrow> length (ps_list s) = ps_location s - current_location s"
  by (simp add: ps_list_def del: upt_Suc)

lemma ps_frame [simp]:
  "ps_location (ps_push s x) = ps_location s"
  "ps_location (snd (ps_pop s)) = ps_location s"
  by (simp_all add: ps_push_def ps_pop_def Let_def)

lemma ps_full_length: "ps_wf s \<Longrightarrow> ps_full s \<longleftrightarrow> length (ps_list s) = ps_location s"
  using length_ps_list [of s] by (auto simp: ps_full_def ps_wf_def)

text \<open>
  The guard page number 0 that the constructor pushes lies at the bottom until it is
  popped; everything above it is a page.
\<close>

definition guarded :: "u64 list \<Rightarrow> bool" where
  "guarded xs \<longleftrightarrow> 0 \<notin> set (butlast xs)"

definition ps_pages :: "PagesStack \<Rightarrow> u64 set" where
  "ps_pages s = set (ps_list s) - {0}"

lemma guarded_Cons: "x \<noteq> 0 \<Longrightarrow> guarded (x # xs) \<longleftrightarrow> guarded xs"
  by (auto simp: guarded_def)

lemma guarded_tl: "guarded xs \<Longrightarrow> guarded (tl xs)"
  by (cases xs) (auto simp: guarded_def split: if_splits)

section \<open>The allocator invariant\<close>

definition pa_pages :: "PhysicalAllocator \<Rightarrow> u64 set" where
  "pa_pages pa = ps_pages (stack_32 pa) \<union> ps_pages (stack_64 pa)"

definition stack_inv :: "PagesStack \<Rightarrow> bool" where
  "stack_inv s \<longleftrightarrow> ps_wf s \<and> ps_location s = 131071 \<and> guarded (ps_list s) \<and> distinct (ps_list s)"

definition pa_inv :: "PhysicalAllocator \<Rightarrow> bool" where
  "pa_inv pa \<longleftrightarrow> stack_inv (stack_32 pa) \<and> stack_inv (stack_64 pa) \<and>
     (\<forall>p \<in> ps_pages (stack_32 pa). 16 \<le> p \<and> p \<le> 2047 \<and> \<not> pages_status pa p) \<and>
     (\<forall>p \<in> ps_pages (stack_64 pa). 2047 < p \<and> p < 0x200000 \<and> \<not> pages_status pa p)"

lemma last_32bit_val [simp]: "last_32bit = 2047"
  by (simp add: last_32bit_def)

lemma status_in_bounds_iff [simp]: "status_in_bounds p \<longleftrightarrow> p < 0x200000"
  by (simp add: status_in_bounds_def)

lemma stack_inv_push:
  assumes "stack_inv s" "x \<noteq> 0" "x \<notin> ps_pages s"
  shows "stack_inv (ps_push s x)"
    and "ps_pages (ps_push s x) = (if ps_full s then ps_pages s else insert x (ps_pages s))"
  using assms by (auto simp: stack_inv_def ps_push_list ps_pages_def guarded_Cons)

lemma stack_inv_pop_Nil:
  assumes "stack_inv s" "fst (ps_pop s) = 0"
  shows "ps_pages s = {}" and "stack_inv (snd (ps_pop s))" and "ps_pages (snd (ps_pop s)) = {}"
proof -
  have wf: "ps_wf s" and g: "guarded (ps_list s)" using assms(1) by (auto simp: stack_inv_def)
  have l: "ps_list s = [] \<or> ps_list s = [0]"
  proof (cases "ps_list s")
    case (Cons x xs)
    then have "x = 0" using ps_pop_list(1) [OF wf] assms(2) by (metis fst_conv list.simps(5))
    then show ?thesis using Cons g by (auto simp: guarded_def split: if_splits)
  qed simp
  then show "ps_pages s = {}" by (auto simp: ps_pages_def)
  have "ps_list (snd (ps_pop s)) = []" using l ps_pop_list(2) [OF wf] by auto
  then show "ps_pages (snd (ps_pop s)) = {}" "stack_inv (snd (ps_pop s))"
    using assms(1) by (auto simp: ps_pages_def stack_inv_def guarded_def)
qed

lemma stack_inv_pop_Cons:
  assumes "stack_inv s" "ps_pop s = (x, s')" "x \<noteq> 0"
  shows "stack_inv s'" "x \<in> ps_pages s" "ps_pages s' = ps_pages s - {x}"
proof -
  have wf: "ps_wf s" using assms(1) by (auto simp: stack_inv_def)
  obtain xs where l: "ps_list s = x # xs" and l': "ps_list s' = xs"
    using ps_pop_list [OF wf] assms(2,3) by (cases "ps_list s") auto
  have s': "s' = snd (ps_pop s)" using assms(2) by simp
  show "stack_inv s'" using assms(1) l l' guarded_tl [of "ps_list s"] s'
    by (auto simp: stack_inv_def)
  show "x \<in> ps_pages s" "ps_pages s' = ps_pages s - {x}"
    using assms(1,3) l l' by (auto simp: ps_pages_def stack_inv_def)
qed

text \<open>\<open>push_page\<close> puts a busy page back and keeps everything else.\<close>

lemma push_page_frame [simp]:
  "pages_status (push_page pa p) = pages_status pa"
  "used_phys_memory (push_page pa p) = used_phys_memory pa"
  "available_phys_memory (push_page pa p) = available_phys_memory pa"
  by (simp_all add: push_page_def)

lemma release_page:
  assumes "pa_inv pa" "pages_status pa p" "16 \<le> p" "p < 0x200000"
  defines "pa' \<equiv> push_page (pa\<lparr>pages_status := (pages_status pa)(p := False)\<rparr>) p"
  shows "pa_inv pa'" and "pa_pages pa' \<subseteq> insert p (pa_pages pa)"
    and "pa_pages pa \<subseteq> pa_pages pa'"
proof -
  have p0: "p \<noteq> 0" using assms(3) by auto
  have n: "p \<notin> ps_pages (stack_32 pa)" "p \<notin> ps_pages (stack_64 pa)"
    using assms(1,2) by (auto simp: pa_inv_def)
  have s: "stack_inv (stack_32 pa)" "stack_inv (stack_64 pa)" using assms(1) by (auto simp: pa_inv_def)
  note push = stack_inv_push [OF s(1) p0 n(1)] stack_inv_push [OF s(2) p0 n(2)]
  show "pa_inv pa'"
    using assms(1,3,4) push unfolding pa'_def pa_inv_def
    by (auto simp: push_page_def split: if_splits)
  show "pa_pages pa' \<subseteq> insert p (pa_pages pa)" "pa_pages pa \<subseteq> pa_pages pa'"
    using push unfolding pa'_def pa_pages_def by (auto simp: push_page_def)
qed

lemma stack_32_not_full:
  assumes "pa_inv pa"
  shows "\<not> ps_full (stack_32 pa)"
proof
  let ?xs = "ps_list (stack_32 pa)"
  assume "ps_full (stack_32 pa)"
  then have len: "length ?xs = 131071"
    using assms ps_full_length [of "stack_32 pa"] by (auto simp: pa_inv_def stack_inv_def)
  have sub: "unat ` set ?xs \<subseteq> {0..2047}"
    using assms by (force simp: pa_inv_def ps_pages_def word_le_nat_alt)
  have "inj_on unat (set ?xs)" by (auto simp: inj_on_def word_unat_eq_iff)
  then have "card (unat ` set ?xs) = length ?xs"
    using assms by (auto simp: card_image distinct_card pa_inv_def stack_inv_def)
  moreover have "card (unat ` set ?xs) \<le> card {0..2047::nat}"
    by (rule card_mono [OF _ sub]) simp
  ultimately show False using len by simp
qed

section \<open>Allocation and release\<close>

lemma mark_used_bounds:
  "p < 0x200000 \<Longrightarrow> mark_used pa p = Inr (p * 0x200000,
     pa\<lparr>pages_status := (pages_status pa)(p := True),
        used_phys_memory := used_phys_memory pa + 0x200000\<rparr>)"
  by (simp add: mark_used_def)

lemma page_in_range:
  assumes "pa_inv pa" "p \<in> pa_pages pa"
  shows "16 \<le> p" "p < 0x200000" "\<not> pages_status pa p"
proof -
  have "2047 < p \<Longrightarrow> 16 \<le> p" by (auto simp: word_less_nat_alt word_le_nat_alt)
  moreover have "p \<le> 2047 \<Longrightarrow> p < 0x200000" by (auto simp: word_less_nat_alt word_le_nat_alt)
  ultimately show "16 \<le> p" "p < 0x200000" "\<not> pages_status pa p"
    using assms by (auto simp: pa_inv_def pa_pages_def)
qed

lemma take_page:
  assumes "pa_inv pa" "stack_inv s32" "stack_inv s64" "p \<in> pa_pages pa"
    and "ps_pages s32 \<subseteq> ps_pages (stack_32 pa) - {p}" "ps_pages s64 \<subseteq> ps_pages (stack_64 pa) - {p}"
    and "pages_status pa' = (pages_status pa)(p := True)" "stack_32 pa' = s32" "stack_64 pa' = s64"
  shows "pa_inv pa'"
  using assms unfolding pa_inv_def by (fastforce simp: subset_iff)

lemma stacks_disjoint:
  "pa_inv pa \<Longrightarrow> ps_pages (stack_32 pa) \<inter> ps_pages (stack_64 pa) = {}"
  by (auto simp: pa_inv_def disjoint_iff dest!: bspec)

lemma pmm_alloc32_ok:
  assumes "pa_inv pa"
  shows "(\<exists>p pa'. pmm_alloc32 pa = Inr (p * 0x200000, pa') \<and> p \<in> ps_pages (stack_32 pa) \<and>
            pa_inv pa' \<and> pa_pages pa' = pa_pages pa - {p} \<and>
            pages_status pa' = (pages_status pa)(p := True) \<and>
            used_phys_memory pa' = used_phys_memory pa + 0x200000) \<or>
         (pmm_alloc32 pa = Inl (AssertFailed ''No more physical pages to allocate (32 bit).'') \<and>
            ps_pages (stack_32 pa) = {})"
proof -
  obtain x s where pop: "ps_pop (stack_32 pa) = (x, s)" by force
  have s32: "stack_inv (stack_32 pa)" and s64: "stack_inv (stack_64 pa)"
    using assms by (auto simp: pa_inv_def)
  show ?thesis
  proof (cases "x = 0")
    case True
    then show ?thesis
      using stack_inv_pop_Nil(1) [OF s32] pop by (simp add: pmm_alloc32_def)
  next
    case False
    note pc = stack_inv_pop_Cons [OF s32 pop False]
    have in_pages: "x \<in> pa_pages pa" using pc(2) by (simp add: pa_pages_def)
    let ?pa' = "pa\<lparr>stack_32 := s, pages_status := (pages_status pa)(x := True),
                   used_phys_memory := used_phys_memory pa + 0x200000\<rparr>"
    have "pmm_alloc32 pa = Inr (x * 0x200000, ?pa')"
      using False pop page_in_range(2) [OF assms in_pages] by (simp add: pmm_alloc32_def mark_used_bounds)
    moreover have "pa_inv ?pa'"
      using stacks_disjoint [OF assms] pc by (intro take_page [OF assms pc(1) s64 in_pages]) auto
    moreover have "pa_pages ?pa' = pa_pages pa - {x}"
      using stacks_disjoint [OF assms] pc by (auto simp: pa_pages_def)
    ultimately show ?thesis using pc(2) by auto
  qed
qed

lemma pmm_alloc_ok:
  assumes "pa_inv pa"
  shows "(\<exists>p pa'. pmm_alloc pa = Inr (p * 0x200000, pa') \<and> p \<in> pa_pages pa \<and>
            pa_inv pa' \<and> pa_pages pa' = pa_pages pa - {p} \<and>
            pages_status pa' = (pages_status pa)(p := True) \<and>
            used_phys_memory pa' = used_phys_memory pa + 0x200000) \<or>
         (pmm_alloc pa = Inl (AssertFailed ''No more physical pages to allocate.'') \<and> pa_pages pa = {})"
proof -
  obtain x s where pop: "ps_pop (stack_64 pa) = (x, s)" by force
  obtain y t where pop32: "ps_pop (stack_32 pa) = (y, t)" by force
  have s32: "stack_inv (stack_32 pa)" and s64: "stack_inv (stack_64 pa)"
    using assms by (auto simp: pa_inv_def)
  consider (high) "x \<noteq> 0" | (low) "x = 0" "y \<noteq> 0" | (none) "x = 0" "y = 0" by blast
  then show ?thesis
  proof cases
    case high
    note pc = stack_inv_pop_Cons [OF s64 pop high]
    have in_pages: "x \<in> pa_pages pa" using pc(2) by (simp add: pa_pages_def)
    let ?pa' = "pa\<lparr>stack_64 := s, pages_status := (pages_status pa)(x := True),
                   used_phys_memory := used_phys_memory pa + 0x200000\<rparr>"
    have "pmm_alloc pa = Inr (x * 0x200000, ?pa')"
      using high pop page_in_range(2) [OF assms in_pages] by (simp add: pmm_alloc_def mark_used_bounds)
    moreover have "pa_inv ?pa'"
      using stacks_disjoint [OF assms] pc by (intro take_page [OF assms s32 pc(1) in_pages]) auto
    moreover have "pa_pages ?pa' = pa_pages pa - {x}"
      using stacks_disjoint [OF assms] pc by (auto simp: pa_pages_def)
    ultimately show ?thesis using in_pages by auto
  next
    case low
    note pc = stack_inv_pop_Cons [OF s32 pop32 low(2)]
    have e: "stack_inv s" "ps_pages s = {}" "ps_pages (stack_64 pa) = {}"
      using stack_inv_pop_Nil [OF s64] pop low(1) by auto
    have in_pages: "y \<in> pa_pages pa" using pc(2) by (simp add: pa_pages_def)
    let ?pa' = "pa\<lparr>stack_64 := s, stack_32 := t, pages_status := (pages_status pa)(y := True),
                   used_phys_memory := used_phys_memory pa + 0x200000\<rparr>"
    have "pmm_alloc pa = Inr (y * 0x200000, ?pa')"
      using low pop pop32 page_in_range(2) [OF assms in_pages]
      by (simp add: pmm_alloc_def mark_used_bounds)
    moreover have "pa_inv ?pa'"
      using e pc by (intro take_page [OF assms pc(1) e(1) in_pages]) auto
    moreover have "pa_pages ?pa' = pa_pages pa - {y}"
      using e pc by (auto simp: pa_pages_def)
    ultimately show ?thesis using in_pages by auto
  next
    case none
    have "ps_pages (stack_64 pa) = {}" "ps_pages (stack_32 pa) = {}"
      using stack_inv_pop_Nil(1) [OF s64] stack_inv_pop_Nil(1) [OF s32] pop pop32 none by auto
    then show ?thesis using none pop pop32 by (simp add: pmm_alloc_def pa_pages_def)
  qed
qed

lemma page_addr_inj:
  assumes "p < 0x200000" "q < (0x200000 :: u64)" "p * 0x200000 = q * 0x200000"
  shows "p = q"
proof -
  have "unat (p * 0x200000) = unat p * 0x200000" "unat (q * 0x200000) = unat q * 0x200000"
    using assms(1,2) by (simp_all add: unat_word_ariths word_less_nat_alt)
  then show ?thesis using assms(3) by (simp add: word_unat_eq_iff)
qed

lemma page_addr_div:
  assumes "p < (0x200000 :: u64)"
  shows "p * 0x200000 div 0x200000 = p"
proof -
  have "unat (p * 0x200000) = unat p * 0x200000"
    using assms by (simp add: unat_word_ariths word_less_nat_alt)
  then show ?thesis by (simp add: word_unat_eq_iff unat_div)
qed

lemma page_addr_nonzero: "16 \<le> p \<Longrightarrow> p < (0x200000 :: u64) \<Longrightarrow> p * 0x200000 \<noteq> 0"
  using page_addr_inj [of p 0] by (auto simp: word_le_nat_alt)

lemma pmm_free_ok:
  assumes "pa_inv pa" "pages_status pa p" "16 \<le> p" "p < 0x200000"
  shows "\<exists>pa'. pmm_free pa (p * 0x200000) = Inr pa' \<and> pa_inv pa' \<and>
           pa_pages pa \<subseteq> pa_pages pa' \<and> pa_pages pa' \<subseteq> insert p (pa_pages pa) \<and>
           pages_status pa' = (pages_status pa)(p := False) \<and>
           used_phys_memory pa' = used_phys_memory pa - 0x200000"
proof -
  let ?pa1 = "push_page (pa\<lparr>pages_status := (pages_status pa)(p := False)\<rparr>) p"
  have "pmm_free pa (p * 0x200000)
    = Inr (?pa1\<lparr>used_phys_memory := used_phys_memory pa - 0x200000\<rparr>)"
    using assms page_addr_nonzero [OF assms(3,4)] by (simp add: pmm_free_def page_addr_div Let_def)
  moreover have "pa_inv (?pa1\<lparr>used_phys_memory := used_phys_memory pa - 0x200000\<rparr>) \<longleftrightarrow> pa_inv ?pa1"
    by (simp add: pa_inv_def)
  ultimately show ?thesis
    using release_page [OF assms] by (auto simp: pa_pages_def)
qed

section \<open>The interface of a page provider\<close>

text \<open>
  What a client of the physical allocator relies on. \<open>avail\<close> is what can still be
  handed out, \<open>busy\<close> what may be given back; \<open>usage\<close> is the byte counter.
\<close>

datatype 'p page_op = Take | Give 'p

primrec client_run :: "('s \<Rightarrow> ('p \<times> 's) res) \<Rightarrow> ('s \<Rightarrow> 'p \<Rightarrow> 's res) \<Rightarrow>
    'p page_op list \<Rightarrow> 's \<times> 'p set \<Rightarrow> ('s \<times> 'p set) res" where
  "client_run takep givep [] sH = Inr sH"
| "client_run takep givep (op # ops) sH =
     (case op of
        Take \<Rightarrow> res_bind (takep (fst sH)) (\<lambda>(p, s'). client_run takep givep ops (s', insert p (snd sH)))
      | Give p \<Rightarrow> (if p \<in> snd sH
          then res_bind (givep (fst sH) p) (\<lambda>s'. client_run takep givep ops (s', snd sH - {p}))
          else Inl (AssertFailed ''the client does not hold this page'')))"

locale page_provider =
  fixes inv :: "'s \<Rightarrow> bool" and avail :: "'s \<Rightarrow> 'p set" and busy :: "'s \<Rightarrow> 'p \<Rightarrow> bool"
    and usage :: "'s \<Rightarrow> u64" and takep :: "'s \<Rightarrow> ('p \<times> 's) res" and givep :: "'s \<Rightarrow> 'p \<Rightarrow> 's res"
    and unit_size :: u64
  assumes take_page_law: "inv s \<Longrightarrow> takep s = Inr (p, s') \<Longrightarrow>
      inv s' \<and> p \<in> avail s \<and> \<not> busy s p \<and> busy s' = (busy s)(p := True) \<and>
      usage s' = usage s + unit_size"
    and give_page_law: "inv s \<Longrightarrow> busy s p \<Longrightarrow> givep s p = Inr s' \<Longrightarrow>
      inv s' \<and> busy s' = (busy s)(p := False) \<and> usage s' = usage s - unit_size"
begin

lemma take_not_held:
  assumes "inv s" "\<forall>q \<in> H. busy s q" "takep s = Inr (p, s')"
  shows "p \<notin> H"
  using assms take_page_law by blast

lemma run_keeps:
  assumes "inv s" "finite H" "\<forall>q \<in> H. busy s q" "client_run takep givep ops (s, H) = Inr (s', H')"
  shows "inv s' \<and> finite H' \<and> (\<forall>q \<in> H'. busy s' q) \<and>
    usage s' = usage s + of_nat (card H') * unit_size - of_nat (card H) * unit_size"
  using assms
proof (induction ops arbitrary: s H)
  case Nil
  then show ?case by simp
next
  case (Cons op ops)
  show ?case
  proof (cases op)
    case Take
    then obtain p t where t: "takep s = Inr (p, t)"
      and r: "client_run takep givep ops (t, insert p H) = Inr (s', H')"
      using Cons.prems(4) by (auto simp: res_bind_Inr_iff)
    have l: "inv t" "p \<notin> H" "busy t = (busy s)(p := True)" "usage t = usage s + unit_size"
      using take_page_law [OF Cons.prems(1) t] take_not_held [OF Cons.prems(1,3) t] by auto
    have "inv s' \<and> finite H' \<and> (\<forall>q \<in> H'. busy s' q) \<and>
      usage s' = usage t + of_nat (card H') * unit_size - of_nat (card (insert p H)) * unit_size"
      using Cons.prems(2,3) l by (intro Cons.IH [OF l(1) _ _ r]) auto
    then show ?thesis using l Cons.prems(2) by (simp add: algebra_simps)
  next
    case (Give p)
    then obtain t where p: "p \<in> H" and t: "givep s p = Inr t"
      and r: "client_run takep givep ops (t, H - {p}) = Inr (s', H')"
      using Cons.prems(4) by (auto simp: res_bind_Inr_iff split: if_splits)
    have l: "inv t" "busy t = (busy s)(p := False)" "usage t = usage s - unit_size"
      using give_page_law [OF Cons.prems(1) _ t] p Cons.prems(3) by auto
    have "inv s' \<and> finite H' \<and> (\<forall>q \<in> H'. busy s' q) \<and>
      usage s' = usage t + of_nat (card H') * unit_size - of_nat (card (H - {p})) * unit_size"
      using Cons.prems(2,3) l by (intro Cons.IH [OF l(1) _ _ r]) auto
    moreover have "card H = Suc (card (H - {p}))"
      using card_Suc_Diff1 [OF Cons.prems(2) p] by simp
    ultimately show ?thesis using l by (simp add: algebra_simps)
  qed
qed

end

definition pa_avail :: "PhysicalAllocator \<Rightarrow> u64 set" where
  "pa_avail pa = (\<lambda>p. p * kPageSizeBytes) ` pa_pages pa"

definition pa_busy :: "PhysicalAllocator \<Rightarrow> u64 \<Rightarrow> bool" where
  "pa_busy pa addr \<longleftrightarrow> (\<exists>p. addr = p * kPageSizeBytes \<and> 16 \<le> p \<and> p < kPagesStatusSize \<and> pages_status pa p)"

lemma pa_busy_page:
  "16 \<le> p \<Longrightarrow> p < 0x200000 \<Longrightarrow> pa_busy pa (p * 0x200000) \<longleftrightarrow> pages_status pa p"
  by (auto simp: pa_busy_def dest: page_addr_inj)

lemma pa_busy_update:
  assumes "16 \<le> p" "p < 0x200000" "pages_status pa' = (pages_status pa)(p := b)"
  shows "pa_busy pa' = (pa_busy pa)(p * 0x200000 := b)"
proof
  fix a
  show "pa_busy pa' a = ((pa_busy pa)(p * 0x200000 := b)) a"
  proof (cases "a = p * 0x200000")
    case True
    then show ?thesis using assms by (simp add: pa_busy_page)
  next
    case False
    then have "a = q * 0x200000 \<Longrightarrow> pages_status pa' q = pages_status pa q" for q
      using assms(3) by auto
    then show ?thesis using False by (auto simp: pa_busy_def)
  qed
qed

lemma alloc_law:
  assumes "pa_inv pa" "a = p * 0x200000" "p \<in> pa_pages pa" "pa_inv pa'"
    and "pages_status pa' = (pages_status pa)(p := True)" "used_phys_memory pa' = used_phys_memory pa + 0x200000"
  shows "pa_inv pa' \<and> a \<in> pa_avail pa \<and> \<not> pa_busy pa a \<and> pa_busy pa' = (pa_busy pa)(a := True) \<and>
    used_phys_memory pa' = used_phys_memory pa + kPageSizeBytes"
proof -
  note r = page_in_range [OF assms(1,3)]
  have "\<not> pa_busy pa a" using r assms(2) by (simp add: pa_busy_page)
  moreover have "a \<in> pa_avail pa" using assms(2,3) by (simp add: pa_avail_def)
  moreover have "pa_busy pa' = (pa_busy pa)(a := True)"
    using pa_busy_update [OF r(1,2) assms(5)] assms(2) by simp
  ultimately show ?thesis using assms(4,6) by simp
qed

lemma free_law:
  assumes "pa_inv pa" "pa_busy pa a" "pmm_free pa a = Inr pa'"
  shows "pa_inv pa' \<and> pa_busy pa' = (pa_busy pa)(a := False) \<and>
    used_phys_memory pa' = used_phys_memory pa - kPageSizeBytes"
proof -
  obtain p where p: "a = p * 0x200000" "16 \<le> p" "p < 0x200000" "pages_status pa p"
    using assms(2) by (auto simp: pa_busy_def)
  show ?thesis
    using pmm_free_ok [OF assms(1) p(4,2,3)] assms(3) p(1)
      pa_busy_update [OF p(2,3), of pa' pa False] by auto
qed

interpretation any_page: page_provider pa_inv pa_avail pa_busy used_phys_memory
  pmm_alloc pmm_free kPageSizeBytes
proof unfold_locales
  fix pa a pa'
  assume "pa_inv pa" and "pmm_alloc pa = Inr (a, pa')"
  then show "pa_inv pa' \<and> a \<in> pa_avail pa \<and> \<not> pa_busy pa a \<and> pa_busy pa' = (pa_busy pa)(a := True) \<and>
    used_phys_memory pa' = used_phys_memory pa + kPageSizeBytes"
    using pmm_alloc_ok [of pa] alloc_law [of pa a _ pa'] by auto
qed (rule free_law)

interpretation low_page: page_provider pa_inv pa_avail pa_busy used_phys_memory
  pmm_alloc32 pmm_free kPageSizeBytes
proof unfold_locales
  fix pa a pa'
  assume "pa_inv pa" and "pmm_alloc32 pa = Inr (a, pa')"
  then show "pa_inv pa' \<and> a \<in> pa_avail pa \<and> \<not> pa_busy pa a \<and> pa_busy pa' = (pa_busy pa)(a := True) \<and>
    used_phys_memory pa' = used_phys_memory pa + kPageSizeBytes"
    using pmm_alloc32_ok [of pa] alloc_law [of pa a _ pa'] by (auto simp: pa_pages_def)
qed (rule free_law)

section \<open>Properties\<close>

text \<open>A concrete state: two free pages, 16 and 17, on the 32-bit stack.\<close>

definition sample_pa :: PhysicalAllocator where
  "sample_pa =
    \<lparr>stack_32 = \<lparr>location_overflow = 0, ps_location = 131071, current_location = 131068,
                 ps_cells = (\<lambda>i. if i = 131070 then 16 else if i = 131069 then 17 else 0)\<rparr>,
     stack_64 = \<lparr>location_overflow = 0, ps_location = 131071, current_location = 131070, ps_cells = (\<lambda>_. 0)\<rparr>,
     pages_status = (\<lambda>p. p \<noteq> 16 \<and> p \<noteq> 17), available_phys_memory = 4 * MiB, used_phys_memory = 0\<rparr>"

lemma sample_pa_lists:
  "ps_list (stack_32 sample_pa) = [17, 16, 0]" "ps_list (stack_64 sample_pa) = [0]"
  by (simp_all add: sample_pa_def ps_list_def)

lemma sample_pa_inv: "pa_inv sample_pa"
  unfolding pa_inv_def stack_inv_def ps_pages_def sample_pa_lists
  by (auto simp: sample_pa_def ps_wf_def guarded_def)

text \<open>
  C1. Exclusive ownership of physical pages. After any sequence of \<open>alloc\<close> and \<open>free\<close> calls
  in which the client frees only pages it holds, the next \<open>alloc\<close> returns a page that the
  client does not hold, and \<open>physical_memory_used\<close> has grown by exactly 2 MiB per held page.
\<close>

theorem phys_exclusive:
  assumes "pa_inv pa" "client_run pmm_alloc pmm_free ops (pa, {}) = Inr (pa1, H)"
    and "pmm_alloc pa1 = Inr (a, pa2)"
  shows "a \<notin> H \<and> pa_inv pa2 \<and>
    used_phys_memory pa2 = used_phys_memory pa + of_nat (card (insert a H)) * kPageSizeBytes"
proof -
  have k: "pa_inv pa1" "finite H" "\<forall>q \<in> H. pa_busy pa1 q"
    "used_phys_memory pa1 = used_phys_memory pa + of_nat (card H) * kPageSizeBytes"
    using any_page.run_keeps [OF assms(1) _ _ assms(2)] by auto
  have "a \<notin> H" using any_page.take_not_held [OF k(1,3) assms(3)] .
  then show ?thesis
    using any_page.take_page_law [OF k(1) assms(3)] k(2,4) by (simp add: algebra_simps)
qed

theorem phys_exclusive_witness:
  "\<exists>pa1 H a pa2. client_run pmm_alloc pmm_free [Take, Give 0x2200000, Take] (sample_pa, {}) = Inr (pa1, H) \<and>
     pmm_alloc pa1 = Inr (a, pa2) \<and> a \<notin> H \<and> used_phys_memory pa2 = 4 * MiB"
proof -
  obtain pa1 H a pa2 where r: "client_run pmm_alloc pmm_free [Take, Give 0x2200000, Take] (sample_pa, {}) = Inr (pa1, H)"
    "H = {0x2200000}" "pmm_alloc pa1 = Inr (a, pa2)" "a = 0x2000000"
    by (simp add: sample_pa_def pmm_alloc_def pmm_free_def ps_pop_def ps_push_def mark_used_def
        push_page_def Let_def)
  then show ?thesis using phys_exclusive [OF sample_pa_inv r(1,3)]
    by (auto simp: sample_pa_def)
qed

text \<open>
  C28. \<open>alloc\<close> is complete: it returns a page exactly when one of the two stacks still has one,
  the page comes off the stacks, and with none left it stops at its assertion.
\<close>

theorem phys_alloc_complete:
  assumes "pa_inv pa"
  shows "if pa_pages pa = {}
    then pmm_alloc pa = Inl (AssertFailed ''No more physical pages to allocate.'')
    else \<exists>p pa'. pmm_alloc pa = Inr (p * kPageSizeBytes, pa') \<and> p \<in> pa_pages pa \<and> pa_inv pa' \<and>
           pa_pages pa' = pa_pages pa - {p}"
  using pmm_alloc_ok [OF assms] by auto

theorem phys_alloc_complete_witness:
  "\<exists>p pa'. pmm_alloc sample_pa = Inr (p * kPageSizeBytes, pa') \<and> p \<in> {16, 17} \<and>
     pa_pages pa' = {16, 17} - {p}"
proof -
  have "pa_pages sample_pa = {16, 17}"
    by (auto simp: pa_pages_def ps_pages_def sample_pa_lists)
  then show ?thesis using phys_alloc_complete [OF sample_pa_inv] by auto
qed

text \<open>
  Freeing a busy page below 4 GiB never loses it: the 32-bit stack cannot be full, so the
  page is on the stack afterwards, and the next \<open>alloc32\<close> returns that very page.
\<close>

theorem phys_free_low_recovers:
  assumes "pa_inv pa" "pages_status pa p" "16 \<le> p" "p \<le> 2047"
  shows "\<exists>pa1 pa2. pmm_free pa (p * kPageSizeBytes) = Inr pa1 \<and> pa_inv pa1 \<and>
    pa_pages pa1 = insert p (pa_pages pa) \<and> pmm_alloc32 pa1 = Inr (p * kPageSizeBytes, pa2) \<and>
    pa_pages pa2 = pa_pages pa \<and> pages_status pa2 = pages_status pa"
proof -
  have p: "p < 0x200000" "p \<noteq> 0" using assms(3,4) by (auto simp: word_less_nat_alt word_le_nat_alt)
  have n: "p \<notin> ps_pages (stack_32 pa)" "p \<notin> pa_pages pa" and wf: "stack_inv (stack_32 pa)"
    using assms(1,2) by (auto simp: pa_inv_def pa_pages_def)
  define pa1 where "pa1 = (push_page (pa\<lparr>pages_status := (pages_status pa)(p := False)\<rparr>) p)
      \<lparr>used_phys_memory := used_phys_memory pa - 0x200000\<rparr>"
  have f: "pmm_free pa (p * 0x200000) = Inr pa1"
    using assms p page_addr_nonzero [OF assms(3) p(1)]
    by (simp add: pmm_free_def page_addr_div pa1_def Let_def)
  have s32: "stack_32 pa1 = ps_push (stack_32 pa) p" "stack_64 pa1 = stack_64 pa"
    "pages_status pa1 = (pages_status pa)(p := False)"
    using assms(4) by (auto simp: pa1_def push_page_def)
  have inv1: "pa_inv pa1" using pmm_free_ok [OF assms(1-3) p(1)] f by auto
  have pages1: "pa_pages pa1 = insert p (pa_pages pa)"
    using stack_inv_push(2) [OF wf p(2) n(1)] stack_32_not_full [OF assms(1)] s32
    by (simp add: pa_pages_def)
  have "fst (ps_pop (stack_32 pa1)) = p"
    using s32(1) stack_32_not_full [OF assms(1)] wf
    by (auto simp: ps_pop_def ps_push_def ps_full_def stack_inv_def ps_wf_def Let_def)
  then have "\<exists>pa2. pmm_alloc32 pa1 = Inr (p * 0x200000, pa2) \<and>
      pages_status pa2 = (pages_status pa1)(p := True)"
    using p by (auto simp: pmm_alloc32_def mark_used_bounds split: prod.splits)
  then obtain pa2 where a: "pmm_alloc32 pa1 = Inr (p * 0x200000, pa2)"
    "pages_status pa2 = (pages_status pa1)(p := True)" by blast
  have "pa_pages pa2 = pa_pages pa1 - {p}"
    using pmm_alloc32_ok [OF inv1] a(1) page_in_range(2) [OF inv1] p(1)
    by (auto dest: page_addr_inj simp: pa_pages_def)
  moreover have "pages_status pa2 = pages_status pa" using a(2) s32(3) assms(2) by (simp add: fun_upd_idem_iff)
  ultimately show ?thesis using f inv1 pages1 a(1) n(2) by auto
qed

theorem phys_free_low_recovers_witness:
  "\<exists>pa1 pa2. pmm_free sample_pa 0x2400000 = Inr pa1 \<and> pmm_alloc32 pa1 = Inr (0x2400000, pa2) \<and>
     pa_pages pa2 = {16, 17}"
proof -
  have "pa_pages sample_pa = {16, 17}"
    by (auto simp: pa_pages_def ps_pages_def sample_pa_lists)
  then show ?thesis
    using phys_free_low_recovers [OF sample_pa_inv, of 18] by (auto simp: sample_pa_def)
qed

text \<open>
  \<open>free\<close> of any address inside a page that is on a stack stops at the double-free
  assertion, so a page is never on the stacks twice.
\<close>

theorem phys_double_free_detected:
  assumes "pa_inv pa" "p \<in> pa_pages pa" "a div kPageSizeBytes = p"
  shows "pmm_free pa a = Inl (AssertFailed ''Double free.'')"
proof -
  note r = page_in_range [OF assms(1,2)]
  have "a \<noteq> 0" using r(1) assms(3) by auto
  then show ?thesis using r assms(3) by (simp add: pmm_free_def Let_def)
qed

theorem phys_double_free_detected_witness:
  "pmm_free sample_pa 0x2000123 = Inl (AssertFailed ''Double free.'')"
  by (rule phys_double_free_detected [OF sample_pa_inv, of 16])
    (simp_all add: pa_pages_def ps_pages_def sample_pa_lists)

end
