(* ===== verification/Multiboot.thy ===== *)
theory Multiboot
  imports PhysMem
begin

text \<open>
  The boot loader's memory map, \<^verbatim>\<open>src/src/kernel/multiboot.cc\<close>, and the constructor of
  \<open>PhysicalAllocator\<close> (\<^verbatim>\<open>mem-manager.cc\<close>) that consumes it. Memory is a function from
  64-bit addresses to bytes. \<open>NextAvailableMemory\<close> recurses over bytes that nothing
  bounds, so it and the constructor's loop are partial functions: not returning is
  \<open>None\<close>. The lemmas show that on a well-formed map both return, that the enumerator
  yields exactly the available zones in order, and that the constructor puts exactly
  the 2 MiB pages that lie inside available zones at or above 32 MiB on the stacks.
\<close>

section \<open>Model\<close>

type_synonym phys_mem = "u64 \<Rightarrow> u8"

definition mem_read :: "phys_mem \<Rightarrow> u64 \<Rightarrow> nat \<Rightarrow> 'a::len word" where
  "mem_read mem a n = le_word (map (\<lambda>i. mem (a + of_nat i)) [0..<n])"

record MultibootMemoryMapEnumerator =
  mmap_start :: u32
  mmap_current :: u32
  mmap_len :: u32

definition offset_mmap_len :: u64 where "offset_mmap_len = 44"
definition offset_mmap_addr :: u64 where "offset_mmap_addr = 48"

definition mk_MultibootMemoryMapEnumerator ::
    "phys_mem \<Rightarrow> u64 \<Rightarrow> MultibootMemoryMapEnumerator res" where
  "mk_MultibootMemoryMapEnumerator mem base_addr =
     (let mmap_len = mem_read mem (base_addr + offset_mmap_len) 4 :: u32;
          mmap_addr = mem_read mem (base_addr + offset_mmap_addr) 4 :: u32 in
      if mmap_addr = 0 \<or> mmap_len = 0 then Inl (FatalError ''Invalid memory map provided.'')
      else res_bind (rt_assert (mmap_addr \<noteq> 0) ''mmap_addr'') (\<lambda>_.
           res_bind (rt_assert (mmap_len \<noteq> 0) ''mmap_len'') (\<lambda>_.
             Inr \<lparr>mmap_start = mmap_addr, mmap_current = mmap_addr, mmap_len = mmap_len\<rparr>)))"

record MultibootMemoryMapEntry =
  me_size :: u32
  me_base_addr :: u64
  me_length :: u64
  me_type :: u32

definition read_entry :: "phys_mem \<Rightarrow> u32 \<Rightarrow> MultibootMemoryMapEntry" where
  "read_entry mem cur = \<lparr>me_size = mem_read mem (ucast cur) 4,
     me_base_addr = mem_read mem (ucast cur + 4) 8,
     me_length = mem_read mem (ucast cur + 12) 8,
     me_type = mem_read mem (ucast cur + 20) 4\<rparr>"

partial_function (option) NextAvailableMemory ::
    "phys_mem \<Rightarrow> MultibootMemoryMapEnumerator \<Rightarrow> (MemoryZone \<times> MultibootMemoryMapEnumerator) res option" where
  "NextAvailableMemory mem e =
     (if mmap_current e \<ge> mmap_start e + mmap_len e
      then Some (Inr (\<lparr>mz_ptr = 0, mz_size = 0\<rparr>, e))
      else if mmap_current e = 0 then Some (Inl (AssertFailed ''entry''))
      else let entry = read_entry mem (mmap_current e) in
        if me_size entry = 0 then Some (Inl (AssertFailed ''size''))
        else let e' = e\<lparr>mmap_current := ucast (ucast (mmap_current e) + (ucast (me_size entry) + 4 :: u64))\<rparr> in
          if me_type entry \<noteq> 1 then NextAvailableMemory mem e'
          else Some (Inr (\<lparr>mz_ptr = me_base_addr entry, mz_size = me_length entry\<rparr>, e')))"

text \<open>One round of the constructor's loop body after \<open>zone\<close> was found non-empty.\<close>

definition insert_zone :: "PhysicalAllocator \<Rightarrow> MemoryZone \<Rightarrow> PhysicalAllocator res" where
  "insert_zone pa zone =
     res_bind (AlignPtr (mz_ptr zone) kPageSizeBytes) (\<lambda>start0.
       let end = PageAligned (mz_ptr zone + mz_size zone);
           start = (if start0 < kAllocStartAddress then kAllocStartAddress else start0)
       in if start \<ge> end then Inr pa else insert_pages_range pa start end)"

partial_function (option) insert_zones ::
    "phys_mem \<Rightarrow> MultibootMemoryMapEnumerator \<Rightarrow> PhysicalAllocator \<Rightarrow> PhysicalAllocator res option" where
  "insert_zones mem e pa =
     Option.bind (NextAvailableMemory mem e) (\<lambda>r. case r of
         Inl err \<Rightarrow> Some (Inl err)
       | Inr (zone, e') \<Rightarrow>
           if mz_empty zone then Some (Inr pa)
           else (case insert_zone pa zone of
                   Inl err \<Rightarrow> Some (Inl err)
                 | Inr pa' \<Rightarrow> insert_zones mem e' pa'))"

definition empty_PhysicalAllocator :: "(nat \<Rightarrow> u64) \<Rightarrow> (nat \<Rightarrow> u64) \<Rightarrow> PhysicalAllocator res" where
  "empty_PhysicalAllocator cells32 cells64 =
     res_bind (mk_PagesStack kStackStartAddress (unat MiB) cells32) (\<lambda>s32.
     res_bind (mk_PagesStack (kStackStartAddress + MiB) (unat MiB) cells64) (\<lambda>s64.
       Inr \<lparr>stack_32 = s32, stack_64 = s64, pages_status = (\<lambda>_. True),
            available_phys_memory = 0, used_phys_memory = 0\<rparr>))"

definition check_available :: "PhysicalAllocator \<Rightarrow> PhysicalAllocator res" where
  "check_available pa = (if available_phys_memory pa < 94 * MiB
     then Inl (Aborted ''System requires at least 128 MiB or memory.'') else Inr pa)"

definition mk_PhysicalAllocator ::
    "phys_mem \<Rightarrow> u64 \<Rightarrow> (nat \<Rightarrow> u64) \<Rightarrow> (nat \<Rightarrow> u64) \<Rightarrow> PhysicalAllocator res option" where
  "mk_PhysicalAllocator mem multiboot_base cells32 cells64 =
     (case empty_PhysicalAllocator cells32 cells64 of Inl err \<Rightarrow> Some (Inl err)
      | Inr pa \<Rightarrow> (case mk_MultibootMemoryMapEnumerator mem multiboot_base of Inl err \<Rightarrow> Some (Inl err)
      | Inr e \<Rightarrow> Option.bind (insert_zones mem e pa) (\<lambda>r. Some (res_bind r check_available))))"

section \<open>Inserting pages\<close>

text \<open>
  While the constructor runs, a page is free exactly when it is on a stack. All pages
  are below 131072 (256 GiB), which is what a stack of 131071 cells can always hold.
\<close>

definition pa_boot :: "PhysicalAllocator \<Rightarrow> bool" where
  "pa_boot pa \<longleftrightarrow> pa_inv pa \<and> (\<forall>p. 16 \<le> p \<and> p < 131072 \<longrightarrow> pages_status pa p = (p \<notin> pa_pages pa)) \<and>
     (\<forall>p \<in> pa_pages pa. p < 131072) \<and>
     available_phys_memory pa = of_nat (card (pa_pages pa)) * 0x200000"

lemma finite_pa_pages [simp]: "finite (pa_pages pa)"
  by (simp add: pa_pages_def ps_pages_def)

lemma stack_64_not_full:
  assumes "pa_inv pa" "\<forall>p \<in> pa_pages pa. p < 131072"
  shows "\<not> ps_full (stack_64 pa)"
proof
  let ?xs = "ps_list (stack_64 pa)"
  assume "ps_full (stack_64 pa)"
  then have len: "length ?xs = 131071"
    using assms ps_full_length [of "stack_64 pa"] by (auto simp: pa_inv_def stack_inv_def)
  have "2047 < x \<and> x < 131072" if "x \<in> set ?xs" "x \<noteq> 0" for x
  proof -
    have "x \<in> ps_pages (stack_64 pa)" using that by (simp add: ps_pages_def)
    then show ?thesis using assms by (simp add: pa_inv_def pa_pages_def)
  qed
  then have sub: "unat ` set ?xs \<subseteq> insert 0 {2048..<131072}"
    by (fastforce simp: word_less_nat_alt)
  have "inj_on unat (set ?xs)" by (auto simp: inj_on_def word_unat_eq_iff)
  then have "card (unat ` set ?xs) = length ?xs"
    using assms by (auto simp: card_image distinct_card pa_inv_def stack_inv_def)
  moreover have "card (unat ` set ?xs) \<le> card (insert 0 {2048..<131072::nat})"
    by (rule card_mono [OF _ sub]) simp
  ultimately show False using len by simp
qed

lemma push_page_pages:
  assumes "pa_inv pa" "\<forall>p \<in> pa_pages pa. p < 131072" "pages_status pa p" "16 \<le> p"
  shows "pa_pages (push_page (pa\<lparr>pages_status := st\<rparr>) p) = insert p (pa_pages pa)"
proof -
  have p0: "p \<noteq> 0" using assms(4) by auto
  have n: "p \<notin> ps_pages (stack_32 pa)" "p \<notin> ps_pages (stack_64 pa)"
    using assms(1,3) by (auto simp: pa_inv_def)
  have s: "stack_inv (stack_32 pa)" "stack_inv (stack_64 pa)" using assms(1) by (auto simp: pa_inv_def)
  show ?thesis
    using stack_inv_push(2) [OF s(1) p0 n(1)] stack_inv_push(2) [OF s(2) p0 n(2)]
      stack_32_not_full [OF assms(1)] stack_64_not_full [OF assms(1,2)]
    by (auto simp: pa_pages_def push_page_def)
qed

lemma insert_page_boot:
  assumes "pa_boot pa" "16 \<le> i" "i < 131072"
  shows "\<exists>pa'. insert_page pa i = Inr pa' \<and> pa_boot pa' \<and> pa_pages pa' = insert i (pa_pages pa) \<and>
    used_phys_memory pa' = used_phys_memory pa"
proof (cases "pages_status pa i")
  case False
  then have "i \<in> pa_pages pa" using assms by (auto simp: pa_boot_def)
  moreover have "i < 0x200000" using assms(3) by (auto simp: word_less_nat_alt)
  ultimately show ?thesis using assms(1) False by (auto simp: insert_page_def insert_absorb)
next
  case True
  have inv: "pa_inv pa" and lim: "\<forall>p \<in> pa_pages pa. p < 131072"
    and st: "\<And>p. 16 \<le> p \<Longrightarrow> p < 131072 \<Longrightarrow> pages_status pa p = (p \<notin> pa_pages pa)"
    and av: "available_phys_memory pa = of_nat (card (pa_pages pa)) * 0x200000"
    using assms(1) by (auto simp: pa_boot_def)
  have i: "i < 0x200000" using assms(3) by (auto simp: word_less_nat_alt)
  let ?pa1 = "push_page (pa\<lparr>pages_status := (pages_status pa)(i := False)\<rparr>) i"
  let ?pa2 = "?pa1\<lparr>available_phys_memory := available_phys_memory pa + 0x200000\<rparr>"
  have r: "insert_page pa i = Inr ?pa2" using True i by (simp add: insert_page_def Let_def)
  have pg: "pa_pages ?pa2 = insert i (pa_pages pa)"
    using push_page_pages [OF inv lim True assms(2)] by (simp add: pa_pages_def)
  have inv2: "pa_inv ?pa2"
    using release_page(1) [OF inv True assms(2) i] by (simp add: pa_inv_def)
  have "i \<notin> pa_pages pa" using st assms(2,3) True by simp
  then have "pa_boot ?pa2"
    unfolding pa_boot_def pg using inv2 lim assms(3) st av by (auto simp: algebra_simps)
  then show ?thesis using r pg by auto
qed

lemma insert_pages_loop_boot:
  assumes "pa_boot pa" "16 \<le> i" "n \<le> 131072"
  shows "\<exists>pa'. insert_pages_loop pa i n = Inr pa' \<and> pa_boot pa' \<and>
    pa_pages pa' = pa_pages pa \<union> {i..<n} \<and> used_phys_memory pa' = used_phys_memory pa"
  using assms
proof (induction pa i n rule: insert_pages_loop.induct)
  case (1 pa i n)
  show ?case
  proof (cases "i < n")
    case False
    then show ?thesis using "1.prems" by (subst insert_pages_loop.simps) simp
  next
    case True
    have lt: "i < 131072" using True "1.prems"(3) by simp
    obtain pa1 where p1: "insert_page pa i = Inr pa1" "pa_boot pa1"
      "pa_pages pa1 = insert i (pa_pages pa)" "used_phys_memory pa1 = used_phys_memory pa"
      using insert_page_boot [OF "1.prems"(1,2) lt] by blast
    have u: "unat (i + 1) = Suc (unat i)" using True by (rule unat_plus_one_less)
    have "16 \<le> i + 1" using "1.prems"(2) u by (simp add: word_le_nat_alt)
    then obtain pa2 where p2: "insert_pages_loop pa1 (i + 1) n = Inr pa2" "pa_boot pa2"
      "pa_pages pa2 = pa_pages pa1 \<union> {i + 1..<n}" "used_phys_memory pa2 = used_phys_memory pa1"
      using "1.IH" [OF True p1(2) _ "1.prems"(3)] by auto
    have "insert i {i + 1..<n} = {i..<n}"
      using True u by (auto simp: word_le_nat_alt word_less_nat_alt word_unat_eq_iff)
    then show ?thesis
      using True p1 p2 by (subst insert_pages_loop.simps) auto
  qed
qed

text \<open>The pages a zone contributes: those that lie wholly in it, from 32 MiB on.\<close>

definition zone_pages :: "MemoryZone \<Rightarrow> u64 set" where
  "zone_pages z = {p. 16 \<le> p \<and> unat (mz_ptr z) \<le> unat p * 2 ^ 21 \<and>
     (unat p + 1) * 2 ^ 21 \<le> unat (mz_ptr z) + unat (mz_size z)}"

definition zone_below :: "nat \<Rightarrow> MemoryZone \<Rightarrow> bool" where
  "zone_below n z \<longleftrightarrow> unat (mz_ptr z) + unat (mz_size z) \<le> n"

lemma unat_PageAligned: "unat (PageAligned e) = unat e div 2 ^ 21 * 2 ^ 21"
proof -
  have "PageAligned e = push_bit 21 (drop_bit 21 e)"
  proof (rule bit_word_eqI)
    fix n assume "n < LENGTH(64)"
    have m: "(0x1FFFFF :: u64) = mask 21" by (simp add: mask_eq_exp_minus_1)
    show "bit (PageAligned e) n = bit (push_bit 21 (drop_bit 21 e)) n"
      using \<open>n < LENGTH(64)\<close> unfolding PageAligned_def m
      by (auto simp: bit_and_iff bit_not_iff bit_mask_iff bit_push_bit_iff bit_drop_bit_eq)
  qed
  moreover have "unat (push_bit 21 (drop_bit 21 e)) = unat e div 2 ^ 21 * 2 ^ 21"
  proof -
    have "unat e div 2 ^ 21 * 2 ^ 21 \<le> unat e" by (rule div_times_less_eq_dividend)
    then have "unat e div 2 ^ 21 * 2 ^ 21 < 2 ^ 64"
      using unsigned_less [of e, where 'a = nat] by simp
    then show ?thesis
      by (simp add: push_bit_eq_mult drop_bit_eq_div unat_word_ariths unat_div mult.commute)
  qed
  ultimately show ?thesis by simp
qed

lemma multiple_ge:
  assumes "P dvd (s :: nat)" "b \<le> s" "s < b + P"
  shows "s \<le> x * P \<longleftrightarrow> b \<le> x * P"
proof
  assume "b \<le> x * P"
  then have "s < Suc x * P" using assms(3) by simp
  moreover obtain j where j: "s = j * P" using assms(1) by (metis dvd_def mult.commute)
  ultimately have "j < Suc x" by (metis mult_less_cancel2)
  then show "s \<le> x * P" using j by simp
qed (use assms(2) in simp)

lemma insert_zone_boot:
  assumes "pa_boot pa" "zone_below (2 ^ 38) z"
  shows "\<exists>pa'. insert_zone pa z = Inr pa' \<and> pa_boot pa' \<and>
    pa_pages pa' = pa_pages pa \<union> zone_pages z \<and> used_phys_memory pa' = used_phys_memory pa"
proof -
  let ?P = "2 ^ 21 :: nat" and ?b = "unat (mz_ptr z)" and ?e = "mz_ptr z + mz_size z"
  have lim: "?b + unat (mz_size z) \<le> 2 ^ 38" using assms(2) by (simp add: zone_below_def)
  have e: "unat ?e = ?b + unat (mz_size z)" using lim by (intro unat_add_no_wrap) simp
  obtain st0 where st0: "Align (mz_ptr z) 0x200000 = Inr st0" "?P dvd unat st0"
    "?b \<le> unat st0" "unat st0 < ?b + ?P"
    by (rule Align_spec [of "0x200000" "mz_ptr z"]) (use lim in auto)
  define st where "st = (if st0 < 0x2000000 then 0x2000000 else st0)"
  have st: "?P dvd unat st" "unat st = max (2 ^ 25) (unat st0)"
    using st0(2) by (auto simp: st_def word_less_nat_alt)
  have r: "insert_zone pa z = (if st \<ge> PageAligned ?e then Inr pa
    else insert_pages_range pa st (PageAligned ?e))"
    using st0(1) by (simp add: insert_zone_def AlignPtr_def st_def Let_def)
  define i n where "i = st div 0x200000" and "n = PageAligned ?e div 0x200000"
  have i: "unat i = unat st div ?P" and n: "unat n = unat ?e div ?P"
    by (simp_all add: i_def n_def unat_div unat_PageAligned)
  obtain k where k: "unat st = k * ?P" "unat i = k" using st(1) i by fastforce
  have n_lim: "n \<le> 131072"
    using n e lim by (simp add: word_le_nat_alt)
  have low: "x \<in> {i..<n} \<longleftrightarrow> x \<in> zone_pages z" for x
  proof -
    have "k \<le> unat x \<longleftrightarrow> k * ?P \<le> unat x * ?P" by simp
    also have "\<dots> \<longleftrightarrow> 2 ^ 25 \<le> unat x * ?P \<and> unat st0 \<le> unat x * ?P" 
      unfolding k(1) [symmetric] st(2) by simp
    also have "unat st0 \<le> unat x * ?P \<longleftrightarrow> ?b \<le> unat x * ?P" using multiple_ge [OF st0(2-4)] .
    finally have "k \<le> unat x \<longleftrightarrow> 16 \<le> unat x \<and> ?b \<le> unat x * ?P" by auto
    moreover have "unat x < unat ?e div ?P \<longleftrightarrow> (unat x + 1) * ?P \<le> unat ?e"
      by (metis Suc_eq_plus1 Suc_le_eq less_eq_div_iff_mult_less_eq zero_less_numeral zero_less_power)
    ultimately show ?thesis
      using k(2) n e by (simp add: zone_pages_def word_le_nat_alt word_less_nat_alt)
  qed
  have pages: "{i..<n} = zone_pages z" using low by blast
  have "insert_zone pa z = (if i < n then insert_pages_loop pa i n else Inr pa)"
  proof (cases "st \<ge> PageAligned ?e")
    case True
    then have "n \<le> i" using k by (simp add: i_def n_def word_le_nat_alt unat_div div_le_mono)
    then show ?thesis using True by (auto simp: r)
  qed (auto simp: r insert_pages_range_def i_def n_def Let_def)
  moreover have "16 \<le> i" using k st(2) by (simp add: word_le_nat_alt)
  ultimately show ?thesis
    using insert_pages_loop_boot [OF assms(1) _ n_lim, of i] assms(1) pages by (cases "i < n") auto
qed

section \<open>The enumerator on a well-formed map\<close>

text \<open>
  \<open>mmap_at mem a stop xs\<close>: from \<open>a\<close> up to \<open>stop\<close> memory holds exactly the entries \<open>xs\<close>,
  each of a non-zero size that stays below \<open>stop\<close>.
\<close>

fun mmap_at :: "phys_mem \<Rightarrow> u32 \<Rightarrow> u32 \<Rightarrow> MultibootMemoryMapEntry list \<Rightarrow> bool" where
  "mmap_at mem a stop [] \<longleftrightarrow> a = stop"
| "mmap_at mem a stop (x # xs) \<longleftrightarrow> a \<noteq> 0 \<and> read_entry mem a = x \<and> me_size x \<noteq> 0 \<and>
     unat a + unat (me_size x) + 4 \<le> unat stop \<and> mmap_at mem (a + me_size x + 4) stop xs"

definition entry_zone :: "MultibootMemoryMapEntry \<Rightarrow> MemoryZone" where
  "entry_zone x = \<lparr>mz_ptr = me_base_addr x, mz_size = me_length x\<rparr>"

definition map_zones :: "MultibootMemoryMapEntry list \<Rightarrow> MemoryZone list" where
  "map_zones xs = takeWhile (\<lambda>z. \<not> mz_empty z) (map entry_zone (filter (\<lambda>x. me_type x = 1) xs))"

lemma step_current: "ucast (ucast (c :: u32) + (ucast (s :: u32) + 4 :: u64)) = c + s + 4"
  by transfer (simp add: take_bit_eq_mod mod_simps add.assoc, metis mod_add_left_eq mod_add_right_eq)

lemma mmap_at_Cons_less:
  assumes "mmap_at mem a stop (x # xs)"
  shows "a < stop"
  using assms by (auto simp: word_less_nat_alt)

lemma NextAvailableMemory_spec:
  assumes "mmap_at mem (mmap_current e) (mmap_start e + mmap_len e) xs"
  shows "case dropWhile (\<lambda>x. me_type x \<noteq> 1) xs of
      [] \<Rightarrow> (\<exists>e'. NextAvailableMemory mem e = Some (Inr (\<lparr>mz_ptr = 0, mz_size = 0\<rparr>, e')))
    | x # ys \<Rightarrow> (\<exists>c. NextAvailableMemory mem e = Some (Inr (entry_zone x, e\<lparr>mmap_current := c\<rparr>)) \<and>
                     mmap_at mem c (mmap_start e + mmap_len e) ys)"
  using assms
proof (induction xs arbitrary: e)
  case Nil
  then show ?case by (subst NextAvailableMemory.simps) simp
next
  case (Cons x xs)
  let ?e' = "e\<lparr>mmap_current := mmap_current e + me_size x + 4\<rparr>"
  have lt: "\<not> mmap_start e + mmap_len e \<le> mmap_current e"
    using mmap_at_Cons_less [OF Cons.prems] by simp
  have n: "NextAvailableMemory mem e = (if me_type x \<noteq> 1 then NextAvailableMemory mem ?e'
      else Some (Inr (entry_zone x, ?e')))"
    using Cons.prems lt by (subst NextAvailableMemory.simps)
      (auto simp: Let_def entry_zone_def step_current)
  have "mmap_at mem (mmap_current ?e') (mmap_start ?e' + mmap_len ?e') xs"
    using Cons.prems by simp
  note ih = Cons.IH [OF this]
  show ?case
  proof (cases "me_type x = 1")
    case True
    then show ?thesis using n Cons.prems by auto
  next
    case False
    then show ?thesis using n ih by (auto split: list.splits simp del: dropWhile_eq_Nil_conv)
  qed
qed

fun fold_zones :: "PhysicalAllocator \<Rightarrow> MemoryZone list \<Rightarrow> PhysicalAllocator res" where
  "fold_zones pa [] = Inr pa"
| "fold_zones pa (z # zs) = res_bind (insert_zone pa z) (\<lambda>pa'. fold_zones pa' zs)"

lemma filter_dropWhile_not:
  "filter P xs = (case dropWhile (\<lambda>x. \<not> P x) xs of [] \<Rightarrow> [] | x # ys \<Rightarrow> x # filter P ys)"
  by (induction xs) auto

lemma dropWhile_Cons_P: "dropWhile P xs = x # ys \<Longrightarrow> \<not> P x \<and> length ys < length xs"
  by (induction xs) (auto split: if_splits)

lemma insert_zones_eq:
  assumes "mmap_at mem (mmap_current e) (mmap_start e + mmap_len e) xs"
  shows "insert_zones mem e pa = Some (fold_zones pa (map_zones xs))"
  using assms
proof (induction xs arbitrary: e pa rule: length_induct)
  case (1 xs)
  note next_spec = NextAvailableMemory_spec [OF "1.prems"]
  show ?case
  proof (cases "dropWhile (\<lambda>x. me_type x \<noteq> 1) xs")
    case Nil
    then obtain e' where "NextAvailableMemory mem e = Some (Inr (\<lparr>mz_ptr = 0, mz_size = 0\<rparr>, e'))"
      using next_spec unfolding Nil by auto
    moreover have "filter (\<lambda>x. me_type x = 1) xs = []"
      by (subst filter_dropWhile_not) (simp only: Nil list.simps)
    ultimately show ?thesis
      by (subst insert_zones.simps) (simp add: mz_empty_def map_zones_def)
  next
    case (Cons x ys)
    then obtain c where c: "NextAvailableMemory mem e = Some (Inr (entry_zone x, e\<lparr>mmap_current := c\<rparr>))"
      "mmap_at mem c (mmap_start e + mmap_len e) ys" using next_spec by auto
    have "insert_zones mem (e\<lparr>mmap_current := c\<rparr>) pa' = Some (fold_zones pa' (map_zones ys))" for pa'
      using "1.IH" dropWhile_Cons_P [OF Cons] c(2) by simp
    then show ?thesis
      using Cons c(1) filter_dropWhile_not [of "\<lambda>x. me_type x = 1" xs]
      by (subst insert_zones.simps) (auto simp: map_zones_def split: sum.splits)
  qed
qed

lemma fold_zones_boot:
  assumes "pa_boot pa" "\<forall>z \<in> set zs. zone_below (2 ^ 38) z"
  shows "\<exists>pa'. fold_zones pa zs = Inr pa' \<and> pa_boot pa' \<and>
    pa_pages pa' = pa_pages pa \<union> (\<Union>z \<in> set zs. zone_pages z) \<and> used_phys_memory pa' = used_phys_memory pa"
  using assms
proof (induction zs arbitrary: pa)
  case (Cons z zs)
  obtain pa1 where "insert_zone pa z = Inr pa1" "pa_boot pa1"
    "pa_pages pa1 = pa_pages pa \<union> zone_pages z" "used_phys_memory pa1 = used_phys_memory pa"
    using insert_zone_boot [OF Cons.prems(1), of z] Cons.prems(2) by (metis list.set_intros(1))
  then show ?case using Cons.IH [of pa1] Cons.prems(2) by auto
qed simp

section \<open>The constructor\<close>

lemma mk_PagesStack_list:
  assumes "location \<noteq> 0"
  shows "\<exists>s. mk_PagesStack location 0x100000 cells = Inr s \<and> stack_inv s \<and> ps_pages s = {}"
  using assms by (auto simp: mk_PagesStack_def stack_inv_def ps_push_def ps_wf_def ps_list_def
      ps_pages_def guarded_def)

lemma empty_PhysicalAllocator_boot:
  "\<exists>pa. empty_PhysicalAllocator cells32 cells64 = Inr pa \<and> pa_boot pa \<and> pa_pages pa = {} \<and>
     used_phys_memory pa = 0"
proof -
  obtain s32 s64 where s: "mk_PagesStack 0x1600000 0x100000 cells32 = Inr s32" "stack_inv s32" "ps_pages s32 = {}"
    "mk_PagesStack 0x1700000 0x100000 cells64 = Inr s64" "stack_inv s64" "ps_pages s64 = {}"
    using mk_PagesStack_list [of "0x1600000" cells32] mk_PagesStack_list [of "0x1700000" cells64] by auto
  then show ?thesis
    by (simp add: empty_PhysicalAllocator_def pa_boot_def pa_inv_def pa_pages_def)
qed

definition boot_map :: "phys_mem \<Rightarrow> u64 \<Rightarrow> MultibootMemoryMapEntry list \<Rightarrow> bool" where
  "boot_map mem base xs \<longleftrightarrow>
     (let l = mem_read mem (base + 44) 4; a = mem_read mem (base + 48) 4 :: u32
      in l \<noteq> 0 \<and> a \<noteq> 0 \<and> mmap_at mem a (a + l) xs)"

lemma mk_PhysicalAllocator_boot:
  assumes "boot_map mem base xs" "\<forall>z \<in> set (map_zones xs). zone_below (2 ^ 38) z"
  shows "\<exists>pa. mk_PhysicalAllocator mem base cells32 cells64 = Some (check_available pa) \<and> pa_boot pa \<and>
    pa_pages pa = (\<Union>z \<in> set (map_zones xs). zone_pages z) \<and> used_phys_memory pa = 0"
proof -
  obtain pa0 where pa0: "empty_PhysicalAllocator cells32 cells64 = Inr pa0" "pa_boot pa0" "pa_pages pa0 = {}"
    "used_phys_memory pa0 = 0" using empty_PhysicalAllocator_boot by blast
  obtain pa where pa: "fold_zones pa0 (map_zones xs) = Inr pa" "pa_boot pa"
    "pa_pages pa = (\<Union>z \<in> set (map_zones xs). zone_pages z)" "used_phys_memory pa = 0"
    using fold_zones_boot [OF pa0(2) assms(2)] pa0(3,4) by auto
  let ?l = "mem_read mem (base + 44) 4" and ?a = "mem_read mem (base + 48) 4"
  let ?e = "\<lparr>mmap_start = ?a, mmap_current = ?a, mmap_len = ?l\<rparr>"
  have "insert_zones mem ?e pa0 = Some (Inr pa)"
    using assms(1) pa(1) by (subst insert_zones_eq) (auto simp: boot_map_def Let_def)
  then have "mk_PhysicalAllocator mem base cells32 cells64 = Some (check_available pa)"
    using assms(1) pa0(1)
    by (simp add: mk_PhysicalAllocator_def mk_MultibootMemoryMapEnumerator_def boot_map_def
        offset_mmap_len_def offset_mmap_addr_def Let_def)
  then show ?thesis using pa by blast
qed

section \<open>Properties\<close>

lemma card_zone_pages_bound:
  assumes "pa_boot pa"
  shows "card (pa_pages pa) \<le> 131072"
proof -
  have "unat ` pa_pages pa \<subseteq> {..<131072}" using assms by (auto simp: pa_boot_def word_less_nat_alt)
  then have "card (unat ` pa_pages pa) \<le> card {..<131072::nat}" by (intro card_mono) auto
  moreover have "inj_on unat (pa_pages pa)" by (auto simp: inj_on_def word_unat_eq_iff)
  ultimately show ?thesis by (simp add: card_image)
qed

text \<open>
  C6. The constructor of the physical allocator returns on every well-formed memory map whose
  zones end by 256 GiB: it leaves on the stacks exactly the 2 MiB pages that lie wholly
  inside an available zone at or above 32 MiB (so kernel, page tables and allocator data
  are never handed out), reports their number of bytes, and stops only when that is below
  94 MiB.
\<close>

theorem boot_pages_exact:
  assumes "boot_map mem base xs" "\<forall>z \<in> set (map_zones xs). zone_below (2 ^ 38) z"
  shows "\<exists>pa. mk_PhysicalAllocator mem base cells32 cells64 =
      Some (if card (\<Union>z \<in> set (map_zones xs). zone_pages z) * 2 < 94
            then Inl (Aborted ''System requires at least 128 MiB or memory.'') else Inr pa) \<and>
    pa_inv pa \<and> pa_pages pa = (\<Union>z \<in> set (map_zones xs). zone_pages z) \<and>
    unat (available_phys_memory pa) = card (pa_pages pa) * 2 ^ 21 \<and> used_phys_memory pa = 0"
proof -
  obtain pa where pa: "mk_PhysicalAllocator mem base cells32 cells64 = Some (check_available pa)"
    "pa_boot pa" "pa_pages pa = (\<Union>z \<in> set (map_zones xs). zone_pages z)" "used_phys_memory pa = 0"
    using mk_PhysicalAllocator_boot [OF assms] by blast
  let ?n = "card (pa_pages pa)"
  have n: "?n \<le> 131072" using card_zone_pages_bound [OF pa(2)] .
  have av: "available_phys_memory pa = of_nat (?n * 2 ^ 21)"
    using pa(2) by (simp add: pa_boot_def)
  have u: "unat (available_phys_memory pa) = ?n * 2 ^ 21"
    unfolding av unat_of_nat using n by (simp add: take_bit_nat_eq_self)
  then have "available_phys_memory pa < 94 * MiB \<longleftrightarrow> ?n * 2 < 94"
    by (simp add: word_less_nat_alt)
  then show ?thesis using pa u by (auto simp: check_available_def pa_boot_def)
qed

text \<open>A concrete map: the header at \<open>0x1000\<close>, one available entry of 127 MiB from 1 MiB at \<open>0x2000\<close>.\<close>

definition sample_mem :: phys_mem where
  "sample_mem a = (if a = 0x102C then 24 else if a = 0x1031 then 0x20
     else if a = 0x2000 then 20 else if a = 0x2006 then 0x10
     else if a = 0x200E then 0xF0 else if a = 0x200F then 7
     else if a = 0x2014 then 1 else 0)"

definition sample_entry :: MultibootMemoryMapEntry where
  "sample_entry = \<lparr>me_size = 20, me_base_addr = 0x100000, me_length = 0x7F00000, me_type = 1\<rparr>"

lemma sample_boot_map: "boot_map sample_mem 0x1000 [sample_entry]"
  by (simp add: boot_map_def mem_read_def sample_mem_def read_entry_def sample_entry_def upt_rec)

theorem boot_pages_exact_witness:
  "\<exists>pa. mk_PhysicalAllocator sample_mem 0x1000 (\<lambda>_. 0) (\<lambda>_. 0) = Some (Inr pa) \<and>
     16 \<in> pa_pages pa \<and> 63 \<in> pa_pages pa \<and> 64 \<notin> pa_pages pa"
proof -
  have z: "set (map_zones [sample_entry]) = {entry_zone sample_entry}"
    by (simp add: map_zones_def sample_entry_def entry_zone_def mz_empty_def)
  have b: "zone_below (2 ^ 38) (entry_zone sample_entry)"
    by (simp add: zone_below_def entry_zone_def sample_entry_def)
  have zp: "zone_pages (entry_zone sample_entry) = {16..63}"
    by (auto simp: zone_pages_def entry_zone_def sample_entry_def word_le_nat_alt)
  have "set (map of_nat [16..<64]) \<subseteq> {16..63::u64}"
    by (auto simp: word_le_nat_alt unat_of_nat)
  moreover have "card (set (map of_nat [16..<64] :: u64 list)) = 48"
    by (subst distinct_card) code_simp+
  ultimately have "48 \<le> card {16..63::u64}" by (metis card_mono finite)
  then show ?thesis
    using boot_pages_exact [OF sample_boot_map, of "\<lambda>_. 0" "\<lambda>_. 0"] z b zp
    by auto
qed

text \<open>
  The enumerator trusts the map's size field: at an entry that is not available memory and
  whose size field is \<open>0xFFFFFFFC\<close>, \<open>mmap_current_ += size + 4\<close> wraps to where it was and
  \<open>NextAvailableMemory\<close> never returns.
\<close>

theorem enumerator_diverges:
  assumes "mmap_current e < mmap_start e + mmap_len e" "mmap_current e \<noteq> 0"
    and "me_size (read_entry mem (mmap_current e)) = 0xFFFFFFFC"
    and "me_type (read_entry mem (mmap_current e)) \<noteq> 1"
  shows "NextAvailableMemory mem e = None"
proof (rule ccontr)
  let ?stuck = "\<lambda>e. mmap_current e < mmap_start e + mmap_len e \<and> mmap_current e \<noteq> 0 \<and>
    me_size (read_entry mem (mmap_current e)) = 0xFFFFFFFC \<and> me_type (read_entry mem (mmap_current e)) \<noteq> 1"
  assume "NextAvailableMemory mem e \<noteq> None"
  then obtain y where y: "NextAvailableMemory mem e = Some y" by blast
  have "mm = mem \<longrightarrow> \<not> ?stuck e'" if "NextAvailableMemory mm e' = Some y'" for mm e' y'
    using that
  proof (rule NextAvailableMemory.raw_induct [rotated])
    fix f mm e y
    assume hyp: "\<And>mm e y. f mm e = Some y \<Longrightarrow> mm = mem \<longrightarrow> \<not> ?stuck e"
      and body: "(if mmap_start e + mmap_len e \<le> mmap_current e
          then Some (Inr (\<lparr>mz_ptr = 0, mz_size = 0\<rparr>, e))
          else if mmap_current e = 0 then Some (Inl (AssertFailed ''entry''))
          else let entry = read_entry mm (mmap_current e) in
            if me_size entry = 0 then Some (Inl (AssertFailed ''size''))
            else let e' = e\<lparr>mmap_current := ucast (ucast (mmap_current e) + (ucast (me_size entry) + 4 :: u64))\<rparr> in
              if me_type entry \<noteq> 1 then f mm e'
              else Some (Inr (\<lparr>mz_ptr = me_base_addr entry, mz_size = me_length entry\<rparr>, e'))) = Some y"
    show "mm = mem \<longrightarrow> \<not> ?stuck e"
    proof (intro impI notI)
      assume mm: "mm = mem" and st: "?stuck e"
      have "e\<lparr>mmap_current := ucast (ucast (mmap_current e) + (ucast (0xFFFFFFFC :: u32) + 4 :: u64))\<rparr> = e"
        by (simp only: step_current) simp
      moreover have "\<not> mmap_start e + mmap_len e \<le> mmap_current e" using st by (metis not_le)
      ultimately have "f mem e = Some y"
        using body mm st by (simp only: Let_def if_False if_True not_False_eq_True) simp
      then show False using hyp st by auto
    qed
  qed
  then show False using y assms by blast
qed

definition stuck_mem :: phys_mem where
  "stuck_mem a = (if a = 0x2000 then 0xFC else if 0x2000 < a \<and> a < 0x2004 then 0xFF else 0)"

theorem enumerator_diverges_witness:
  "NextAvailableMemory stuck_mem \<lparr>mmap_start = 0x2000, mmap_current = 0x2000, mmap_len = 24\<rparr> = None"
  by (rule enumerator_diverges)
    (simp_all add: stuck_mem_def read_entry_def mem_read_def upt_rec)

end
