(* ===== verification/Crc32.thy ===== *)
theory Crc32
  imports Utils
begin

text \<open>
  \<^verbatim>\<open>src/src/kernel/crc32.cc\<close>: the table-driven CRC-32 that guards the files of the initrd. The
  reference is the bit-by-bit division by the reflected polynomial \<open>0xEDB88320\<close>; the lemmas show
  that the table computes it and that a change of one byte always changes the checksum.
\<close>

section \<open>Model\<close>

definition crc32_table :: "u32 list" where
  "crc32_table =
    [0x00000000, 0x77073096, 0xee0e612c, 0x990951ba,
     0x076dc419, 0x706af48f, 0xe963a535, 0x9e6495a3,
     0x0edb8832, 0x79dcb8a4, 0xe0d5e91e, 0x97d2d988,
     0x09b64c2b, 0x7eb17cbd, 0xe7b82d07, 0x90bf1d91,
     0x1db71064, 0x6ab020f2, 0xf3b97148, 0x84be41de,
     0x1adad47d, 0x6ddde4eb, 0xf4d4b551, 0x83d385c7,
     0x136c9856, 0x646ba8c0, 0xfd62f97a, 0x8a65c9ec,
     0x14015c4f, 0x63066cd9, 0xfa0f3d63, 0x8d080df5,
     0x3b6e20c8, 0x4c69105e, 0xd56041e4, 0xa2677172,
     0x3c03e4d1, 0x4b04d447, 0xd20d85fd, 0xa50ab56b,
     0x35b5a8fa, 0x42b2986c, 0xdbbbc9d6, 0xacbcf940,
     0x32d86ce3, 0x45df5c75, 0xdcd60dcf, 0xabd13d59,
     0x26d930ac, 0x51de003a, 0xc8d75180, 0xbfd06116,
     0x21b4f4b5, 0x56b3c423, 0xcfba9599, 0xb8bda50f,
     0x2802b89e, 0x5f058808, 0xc60cd9b2, 0xb10be924,
     0x2f6f7c87, 0x58684c11, 0xc1611dab, 0xb6662d3d,
     0x76dc4190, 0x01db7106, 0x98d220bc, 0xefd5102a,
     0x71b18589, 0x06b6b51f, 0x9fbfe4a5, 0xe8b8d433,
     0x7807c9a2, 0x0f00f934, 0x9609a88e, 0xe10e9818,
     0x7f6a0dbb, 0x086d3d2d, 0x91646c97, 0xe6635c01,
     0x6b6b51f4, 0x1c6c6162, 0x856530d8, 0xf262004e,
     0x6c0695ed, 0x1b01a57b, 0x8208f4c1, 0xf50fc457,
     0x65b0d9c6, 0x12b7e950, 0x8bbeb8ea, 0xfcb9887c,
     0x62dd1ddf, 0x15da2d49, 0x8cd37cf3, 0xfbd44c65,
     0x4db26158, 0x3ab551ce, 0xa3bc0074, 0xd4bb30e2,
     0x4adfa541, 0x3dd895d7, 0xa4d1c46d, 0xd3d6f4fb,
     0x4369e96a, 0x346ed9fc, 0xad678846, 0xda60b8d0,
     0x44042d73, 0x33031de5, 0xaa0a4c5f, 0xdd0d7cc9,
     0x5005713c, 0x270241aa, 0xbe0b1010, 0xc90c2086,
     0x5768b525, 0x206f85b3, 0xb966d409, 0xce61e49f,
     0x5edef90e, 0x29d9c998, 0xb0d09822, 0xc7d7a8b4,
     0x59b33d17, 0x2eb40d81, 0xb7bd5c3b, 0xc0ba6cad,
     0xedb88320, 0x9abfb3b6, 0x03b6e20c, 0x74b1d29a,
     0xead54739, 0x9dd277af, 0x04db2615, 0x73dc1683,
     0xe3630b12, 0x94643b84, 0x0d6d6a3e, 0x7a6a5aa8,
     0xe40ecf0b, 0x9309ff9d, 0x0a00ae27, 0x7d079eb1,
     0xf00f9344, 0x8708a3d2, 0x1e01f268, 0x6906c2fe,
     0xf762575d, 0x806567cb, 0x196c3671, 0x6e6b06e7,
     0xfed41b76, 0x89d32be0, 0x10da7a5a, 0x67dd4acc,
     0xf9b9df6f, 0x8ebeeff9, 0x17b7be43, 0x60b08ed5,
     0xd6d6a3e8, 0xa1d1937e, 0x38d8c2c4, 0x4fdff252,
     0xd1bb67f1, 0xa6bc5767, 0x3fb506dd, 0x48b2364b,
     0xd80d2bda, 0xaf0a1b4c, 0x36034af6, 0x41047a60,
     0xdf60efc3, 0xa867df55, 0x316e8eef, 0x4669be79,
     0xcb61b38c, 0xbc66831a, 0x256fd2a0, 0x5268e236,
     0xcc0c7795, 0xbb0b4703, 0x220216b9, 0x5505262f,
     0xc5ba3bbe, 0xb2bd0b28, 0x2bb45a92, 0x5cb36a04,
     0xc2d7ffa7, 0xb5d0cf31, 0x2cd99e8b, 0x5bdeae1d,
     0x9b64c2b0, 0xec63f226, 0x756aa39c, 0x026d930a,
     0x9c0906a9, 0xeb0e363f, 0x72076785, 0x05005713,
     0x95bf4a82, 0xe2b87a14, 0x7bb12bae, 0x0cb61b38,
     0x92d28e9b, 0xe5d5be0d, 0x7cdcefb7, 0x0bdbdf21,
     0x86d3d2d4, 0xf1d4e242, 0x68ddb3f8, 0x1fda836e,
     0x81be16cd, 0xf6b9265b, 0x6fb077e1, 0x18b74777,
     0x88085ae6, 0xff0f6a70, 0x66063bca, 0x11010b5c,
     0x8f659eff, 0xf862ae69, 0x616bffd3, 0x166ccf45,
     0xa00ae278, 0xd70dd2ee, 0x4e048354, 0x3903b3c2,
     0xa7672661, 0xd06016f7, 0x4969474d, 0x3e6e77db,
     0xaed16a4a, 0xd9d65adc, 0x40df0b66, 0x37d83bf0,
     0xa9bcae53, 0xdebb9ec5, 0x47b2cf7f, 0x30b5ffe9,
     0xbdbdf21c, 0xcabac28a, 0x53b39330, 0x24b4a3a6,
     0xbad03605, 0xcdd70693, 0x54de5729, 0x23d967bf,
     0xb3667a2e, 0xc4614ab8, 0x5d681b02, 0x2a6f2b94,
     0xb40bbe37, 0xc30c8ea1, 0x5a05df1b, 0x2d02ef8d]"

definition crc32_step :: "u32 \<Rightarrow> u8 \<Rightarrow> u32" where
  "crc32_step r b = drop_bit 8 r XOR crc32_table ! unat ((r XOR ucast b) AND 0xff)"

definition CRC32_Compute :: "u8 list \<Rightarrow> u32" where
  "CRC32_Compute s = NOT (fold (\<lambda>b r. crc32_step r b) s (- 1))"

section \<open>The reference\<close>

definition crc_bit :: "u32 \<Rightarrow> u32" where
  "crc_bit r = (if bit r 0 then drop_bit 1 r XOR 0xEDB88320 else drop_bit 1 r)"

definition crc_bits :: "nat \<Rightarrow> u32 \<Rightarrow> u32" where
  "crc_bits n r = (crc_bit ^^ n) r"

definition crc_reference :: "u8 list \<Rightarrow> u32" where
  "crc_reference s = NOT (fold (\<lambda>b r. crc_bits 8 (r XOR ucast b)) s (- 1))"

section \<open>The table\<close>

lemma crc_bit_xor: "crc_bit (x XOR y) = crc_bit x XOR crc_bit y"
  by (rule bit_word_eqI) (auto simp: crc_bit_def bit_xor_iff bit_drop_bit_eq simp del: bit_numeral_iff)

lemma xor_cancel_right: "(x :: u32) XOR z = y XOR z \<longleftrightarrow> x = y"
proof
  assume "x XOR z = y XOR z"
  then have "(x XOR z) XOR z = (y XOR z) XOR z" by simp
  then show "x = y" by (simp add: xor.assoc)
qed simp

lemma crc_bits_xor: "crc_bits n (x XOR y) = crc_bits n x XOR crc_bits n y"
  unfolding crc_bits_def by (induction n) (simp_all add: crc_bit_xor)

text \<open>
  The reference is linear, so the table is known from its eight entries at powers of two: each
  half of a table is the other half with one of them xor-ed in.
\<close>

definition tab :: "nat \<Rightarrow> u32 list" where
  "tab k = map (\<lambda>i. crc_bits 8 (of_nat i)) [0..<2 ^ k]"

lemma tab_0: "tab 0 = [0]"
proof -
  have "crc_bits n 0 = 0" for n unfolding crc_bits_def by (induction n) (simp_all add: crc_bit_def)
  then show ?thesis by (simp add: tab_def)
qed

lemma of_nat_xor:
  assumes "i < 2 ^ k" "k < 32"
  shows "(of_nat (i + 2 ^ k) :: u32) = of_nat i XOR 2 ^ k"
proof -
  have "(of_nat i :: u32) AND 2 ^ k = 0"
  proof (rule bit_word_eqI)
    fix n assume "n < LENGTH(32)"
    have "\<not> bit i k" using assms(1) by (metis bit_take_bit_iff less_irrefl take_bit_nat_eq_self)
    then show "bit ((of_nat i :: u32) AND 2 ^ k) n = bit 0 n"
      by (auto simp: bit_and_iff bit_exp_iff bit_of_nat_iff)
  qed
  then show ?thesis by (simp add: disjunctive_add_eq_xor)
qed

lemma tab_Suc:
  assumes "k < 32" "crc_bits 8 (2 ^ k) = c"
  shows "tab (Suc k) = tab k @ map (\<lambda>e. e XOR c) (tab k)"
proof -
  have "[0..<2 ^ Suc k] = [0..<2 ^ k] @ map (\<lambda>i. i + 2 ^ k) [0..<2 ^ k]"
    by (simp add: map_add_upt upt_add_eq_append [of 0 "2 ^ k" "2 ^ k", simplified] mult_2)
  then show ?thesis
    using assms by (simp add: tab_def of_nat_xor crc_bits_xor del: of_nat_add)
qed

lemma crc_bits_8: "crc_bits 8 r = crc_bit (crc_bit (crc_bit (crc_bit (crc_bit (crc_bit (crc_bit (crc_bit r)))))))"
  by (simp add: crc_bits_def eval_nat_numeral)

lemma crc_basis:
  "crc_bits 8 (2 ^ 0) = 0x77073096"
  "crc_bits 8 (2 ^ 1) = 0xEE0E612C"
  "crc_bits 8 (2 ^ 2) = 0x076DC419"
  "crc_bits 8 (2 ^ 3) = 0x0EDB8832"
  "crc_bits 8 (2 ^ 4) = 0x1DB71064"
  "crc_bits 8 (2 ^ 5) = 0x3B6E20C8"
  "crc_bits 8 (2 ^ 6) = 0x76DC4190"
  "crc_bits 8 (2 ^ 7) = 0xEDB88320"
  by (simp_all add: crc_bits_8 crc_bit_def)

lemma crc32_table_entries: "crc32_table = tab 8"
proof -
  note t0 = tab_0
  have t1: "tab 1 = tab 0 @ map (\<lambda>e. e XOR 0x77073096) (tab 0)" using tab_Suc [of 0, OF _ crc_basis(1)] by (simp add: eval_nat_numeral)
  have t2: "tab 2 = tab 1 @ map (\<lambda>e. e XOR 0xEE0E612C) (tab 1)" using tab_Suc [of 1, OF _ crc_basis(2)] by (simp add: eval_nat_numeral)
  have t3: "tab 3 = tab 2 @ map (\<lambda>e. e XOR 0x076DC419) (tab 2)" using tab_Suc [of 2, OF _ crc_basis(3)] by (simp add: eval_nat_numeral)
  have t4: "tab 4 = tab 3 @ map (\<lambda>e. e XOR 0x0EDB8832) (tab 3)" using tab_Suc [of 3, OF _ crc_basis(4)] by (simp add: eval_nat_numeral)
  have t5: "tab 5 = tab 4 @ map (\<lambda>e. e XOR 0x1DB71064) (tab 4)" using tab_Suc [of 4, OF _ crc_basis(5)] by (simp add: eval_nat_numeral)
  have t6: "tab 6 = tab 5 @ map (\<lambda>e. e XOR 0x3B6E20C8) (tab 5)" using tab_Suc [of 5, OF _ crc_basis(6)] by (simp add: eval_nat_numeral)
  have t7: "tab 7 = tab 6 @ map (\<lambda>e. e XOR 0x76DC4190) (tab 6)" using tab_Suc [of 6, OF _ crc_basis(7)] by (simp add: eval_nat_numeral)
  have t8: "tab 8 = tab 7 @ map (\<lambda>e. e XOR 0xEDB88320) (tab 7)" using tab_Suc [of 7, OF _ crc_basis(8)] by (simp add: eval_nat_numeral)
  show ?thesis
    unfolding crc32_table_def t8 t7 t6 t5 t4 t3 t2 t1 t0 by simp
qed

lemma crc32_table_nth:
  assumes "unat w < 256"
  shows "crc32_table ! unat w = crc_bits 8 w"
proof -
  have "crc32_table ! unat w = crc_bits 8 (of_nat (unat w))"
    unfolding crc32_table_entries tab_def using assms by (subst nth_map) simp_all
  then show ?thesis by simp
qed

lemma crc_bits_high:
  assumes "\<forall>i < n. \<not> bit r i"
  shows "crc_bits n r = drop_bit n r"
  using assms
proof (induction n)
  case (Suc n)
  then have "crc_bits n r = drop_bit n r" by simp
  moreover have "\<not> bit (drop_bit n r) 0" using Suc.prems by (simp add: bit_drop_bit_eq)
  ultimately show ?case unfolding crc_bits_def by (simp add: crc_bit_def)
qed (simp add: crc_bits_def)

lemma low_byte: "unat (r AND 0xff :: u32) < 256"
proof -
  have m: "(0xff :: u32) = mask 8" by (simp add: mask_eq_exp_minus_1)
  show ?thesis unfolding m unat_mask_and by simp
qed

lemma crc32_step_bits: "crc32_step r b = crc_bits 8 (r XOR ucast b)"
proof -
  let ?x = "r XOR ucast b" and ?hi = "(r XOR ucast b) AND NOT (mask 8)"
  have m: "(0xff :: u32) = mask 8" by (simp add: mask_eq_exp_minus_1)
  have split: "?x = (?x AND mask 8) XOR ?hi"
    by (rule bit_word_eqI) (auto simp: bit_and_iff bit_xor_iff bit_not_iff bit_mask_iff)
  have "crc_bits 8 ?hi = drop_bit 8 ?hi"
    by (rule crc_bits_high) (auto simp: bit_and_iff bit_not_iff bit_mask_iff)
  also have "\<dots> = drop_bit 8 r"
    by (rule bit_word_eqI)
      (auto simp: bit_drop_bit_eq bit_and_iff bit_xor_iff bit_not_iff bit_mask_iff bit_ucast_iff
        dest: bit_imp_le_length)
  finally have "crc_bits 8 ?x = crc_bits 8 (?x AND mask 8) XOR drop_bit 8 r"
    by (subst split) (simp add: crc_bits_xor)
  then show ?thesis
    unfolding crc32_step_def using crc32_table_nth [OF low_byte, of ?x] by (simp add: m xor.commute)
qed

section \<open>Properties\<close>

text \<open>
  C37. The 256-entry table is right: on every input \<open>CRC32::Compute\<close> equals the bit-by-bit CRC-32 with
  the reflected polynomial \<open>0xEDB88320\<close>.
\<close>

theorem crc32_table_equivalent: "CRC32_Compute s = crc_reference s"
  by (simp add: CRC32_Compute_def crc_reference_def crc32_step_bits)

lemma crc_bit_inj: "crc_bit x = crc_bit y \<Longrightarrow> x = y"
proof -
  assume eq: "crc_bit x = crc_bit y"
  define d where "d = x XOR y"
  have z: "crc_bit d = 0" using eq by (simp add: d_def crc_bit_xor)
  have "\<not> bit d 0"
  proof
    assume b: "bit d 0"
    then have "bit (crc_bit d) 31 \<longleftrightarrow> \<not> bit (drop_bit 1 d) 31"
      by (simp add: crc_bit_def bit_xor_iff)
    moreover have "\<not> bit (drop_bit 1 d) 31" by (auto simp: bit_drop_bit_eq dest: bit_imp_le_length)
    ultimately show False using z by simp
  qed
  then have e: "drop_bit 1 d = 0" using z by (simp add: crc_bit_def)
  have "d = 0"
  proof (rule bit_word_eqI)
    fix n assume "n < LENGTH(32)"
    show "bit d n = bit 0 n"
    proof (cases n)
      case (Suc k)
      then have "bit d n = bit (drop_bit 1 d) k" by (simp add: bit_drop_bit_eq)
      then show ?thesis using e by simp
    qed (use \<open>\<not> bit d 0\<close> in simp)
  qed
  then have "x XOR y = y XOR y" by (simp add: d_def)
  then show "x = y" by (simp only: xor_cancel_right)
qed

lemma crc_bits_inj: "crc_bits n x = crc_bits n y \<Longrightarrow> x = y"
  unfolding crc_bits_def by (induction n) (auto dest: crc_bit_inj)

lemma crc32_step_inj_state: "crc32_step r b = crc32_step r' b \<Longrightarrow> r = r'"
  unfolding crc32_step_bits by (drule crc_bits_inj) (simp only: xor_cancel_right)

lemma inj_byte: "(ucast (b :: u8) :: u32) = ucast b' \<Longrightarrow> b = b'"
proof -
  assume e: "(ucast b :: u32) = ucast b'"
  have "unat (ucast w :: u32) = unat w" for w :: u8
    unfolding unsigned_ucast_eq unsigned_take_bit_eq
    using unsigned_less [of w, where 'a = nat] by (simp add: take_bit_nat_eq_self)
  then show "b = b'" using e by (metis word_unat_eq_iff)
qed

lemma crc32_step_inj_byte:
  assumes "crc32_step r b = crc32_step r b'"
  shows "b = b'"
proof -
  have "r XOR ucast b = r XOR ucast b'" using assms unfolding crc32_step_bits by (rule crc_bits_inj)
  then have "(ucast b :: u32) XOR r = ucast b' XOR r" by (simp only: xor.commute [of r])
  then have "(ucast b :: u32) = ucast b'" by (simp only: xor_cancel_right)
  then show ?thesis using inj_byte by blast
qed

lemma crc_fold_inj: "fold (\<lambda>b r. crc32_step r b) s r = fold (\<lambda>b r. crc32_step r b) s r' \<Longrightarrow> r = r'"
  by (induction s arbitrary: r r') (auto dest!: crc32_step_inj_state)

lemma crc32_byte_changes:
  assumes "a \<noteq> b"
  shows "CRC32_Compute (xs @ a # ys) \<noteq> CRC32_Compute (xs @ b # ys)"
proof
  assume "CRC32_Compute (xs @ a # ys) = CRC32_Compute (xs @ b # ys)"
  then have "crc32_step (fold (\<lambda>b r. crc32_step r b) xs (- 1)) a = crc32_step (fold (\<lambda>b r. crc32_step r b) xs (- 1)) b"
    unfolding CRC32_Compute_def by (auto dest!: crc_fold_inj)
  then show False using crc32_step_inj_byte assms by blast
qed

text \<open>
  The checksum detects every change of a single byte: two files of the same length that differ in
  exactly one byte have different CRCs.
\<close>

theorem crc32_detects_byte_change:
  assumes "a \<noteq> b"
  shows "CRC32_Compute (xs @ a # ys) \<noteq> CRC32_Compute (xs @ b # ys)"
  using assms by (rule crc32_byte_changes)

theorem crc32_detects_byte_change_witness:
  "CRC32_Compute [1, 2, 3] \<noteq> CRC32_Compute [1, 7, 3]"
  using crc32_detects_byte_change [of 2 7 "[1]" "[3]"] by simp

end
