(* ===== verification/HuffTable.thy ===== *)
theory HuffTable
  imports Prelude "HOL-Library.Sublist"
begin

text \<open>
  The Huffman tables of the inflater \<^verbatim>\<open>src/deps/miniz/tinfl.c\<close>, with which \<^verbatim>\<open>src/src/kernel/initrd.cc\<close>
  unpacks the ramdisk. A table of code lengths becomes a table of 1024 entries for the codes of at most
  10 bits and an array of 576 tree entries for the longer ones; an entry is negative for an
  inner node, whose pair of children it names. The model keeps the numbers of the source: \<open>look_up\<close> and
  \<open>tree\<close> are functions from indices, with the array bounds of \<open>m_tree\<close> checked at every access (the
  indices of \<open>m_look_up\<close> are below 1024 by construction).

  The specification is the canonical code of RFC 1951. The lemmas show that for every complete
  code of at most 288 symbols, and for a code with a single symbol, construction succeeds within the
  576 entries, and that a look-up finds the symbol whose code word the bits start with.
\<close>

section \<open>Construction\<close>

datatype tinfl_status = BAD_PARAM | ADLER32_MISMATCH | FAILED | DONE | NEEDS_MORE_INPUT | HAS_MORE_OUTPUT

text \<open>A computation ends with a status of \<open>tinfl_decompress\<close>, with a fault, or goes on with a value.\<close>

datatype tinfl_exit = Exit tinfl_status | Fault string

type_synonym 'a inf = "tinfl_exit + 'a"

definition inf_bind :: "'a inf \<Rightarrow> ('a \<Rightarrow> 'b inf) \<Rightarrow> 'b inf" where
  "inf_bind m f = (case m of Inl e \<Rightarrow> Inl e | Inr x \<Rightarrow> f x)"

lemma inf_bind_simps [simp]:
  "inf_bind (Inl e) f = Inl e"
  "inf_bind (Inr x) f = f x"
  by (simp_all add: inf_bind_def)

record tinfl_huff_table =
  look_up :: "nat \<Rightarrow> int"
  tree :: "nat \<Rightarrow> int"

definition tree_size :: nat where "tree_size = 288 * 2"

text \<open>\<open>total_syms\<close> and \<open>next_code\<close> before the symbols are entered.\<close>

definition total_syms :: "nat list \<Rightarrow> nat \<Rightarrow> nat" where
  "total_syms sizes l = length (filter (\<lambda>x. x = l) sizes)"

fun next_code :: "nat list \<Rightarrow> nat \<Rightarrow> nat" where
  "next_code sizes 0 = 0"
| "next_code sizes (Suc 0) = 0"
| "next_code sizes (Suc (Suc i)) = (next_code sizes (Suc i) + total_syms sizes (Suc i)) * 2"

definition used_syms :: "nat list \<Rightarrow> nat" where
  "used_syms sizes = sum_list (map (total_syms sizes) [1..<16])"

fun reverse_code :: "nat \<Rightarrow> nat \<Rightarrow> nat \<Rightarrow> nat" where
  "reverse_code 0 cur_code rev_code = rev_code"
| "reverse_code (Suc l) cur_code rev_code = reverse_code l (cur_code div 2) (rev_code * 2 + cur_code mod 2)"

function fill_look :: "int \<Rightarrow> nat \<Rightarrow> nat \<Rightarrow> (nat \<Rightarrow> int) \<Rightarrow> nat \<Rightarrow> int" where
  "fill_look k code_size rev_code look =
     (if rev_code < 1024 then fill_look k code_size (rev_code + 2 ^ code_size) (look(rev_code := k)) else look)"
  by pat_completeness auto
termination
  by (relation "measure (\<lambda>(k, s, r, look). 1024 - r)") (auto simp: diff_less_mono2)

declare fill_look.simps [simp del]

record build_state =
  bt_next_code :: "nat \<Rightarrow> nat"
  bt_tree_next :: int
  bt_look :: "nat \<Rightarrow> int"
  bt_tree :: "nat \<Rightarrow> int"

definition tree_index :: "int \<Rightarrow> nat inf" where
  "tree_index tree_cur =
     (let i = - tree_cur - 1 in if 0 \<le> i \<and> i < int tree_size then Inr (nat i) else Inl (Fault ''m_tree''))"

text \<open>The loop over \<open>j\<close>, which makes \<open>code_size - 11\<close> steps down the tree.\<close>

primrec tree_descend :: "nat \<Rightarrow> nat \<Rightarrow> int \<Rightarrow> int \<Rightarrow> (nat \<Rightarrow> int) \<Rightarrow> (nat \<times> int \<times> int \<times> (nat \<Rightarrow> int)) inf" where
  "tree_descend 0 rev_code tree_cur tree_next t = Inr (rev_code, tree_cur, tree_next, t)"
| "tree_descend (Suc j) rev_code tree_cur tree_next t =
     (let r = rev_code div 2; c = tree_cur - int (r mod 2) in
      inf_bind (tree_index c) (\<lambda>i.
        if t i = 0 then tree_descend j r tree_next (tree_next - 2) (t(i := tree_next))
        else tree_descend j r (t i) tree_next t))"

definition insert_symbol :: "nat \<Rightarrow> nat \<Rightarrow> build_state \<Rightarrow> build_state inf" where
  "insert_symbol sym_index code_size b =
     (if code_size = 0 then Inr b
      else
        let cur_code = bt_next_code b code_size;
            rev_code = reverse_code code_size cur_code 0;
            b1 = b\<lparr>bt_next_code := (bt_next_code b)(code_size := cur_code + 1)\<rparr> in
        if code_size \<le> 10
        then Inr (b1\<lparr>bt_look := fill_look (int (code_size * 512 + sym_index)) code_size rev_code (bt_look b)\<rparr>)
        else
          let i = rev_code mod 1024; fresh = (bt_look b i = 0);
              tree_cur = (if fresh then bt_tree_next b else bt_look b i);
              look = (if fresh then (bt_look b)(i := bt_tree_next b) else bt_look b);
              tree_next = (if fresh then bt_tree_next b - 2 else bt_tree_next b) in
          inf_bind (tree_descend (code_size - 11) (rev_code div 2 ^ 9) tree_cur tree_next (bt_tree b)) (\<lambda>(r, cur, tn, t).
          inf_bind (tree_index (cur - int (r div 2 mod 2))) (\<lambda>j.
            Inr (b1\<lparr>bt_look := look, bt_tree_next := tn, bt_tree := t(j := int sym_index)\<rparr>))))"

primrec insert_symbols :: "nat \<Rightarrow> nat list \<Rightarrow> build_state \<Rightarrow> build_state inf" where
  "insert_symbols sym_index [] b = Inr b"
| "insert_symbols sym_index (s # ss) b =
     inf_bind (insert_symbol sym_index s b) (insert_symbols (Suc sym_index) ss)"

definition build_table :: "nat list \<Rightarrow> tinfl_huff_table inf" where
  "build_table sizes =
     (if next_code sizes 16 \<noteq> 65536 \<and> used_syms sizes > 1 then Inl (Exit FAILED)
      else inf_bind (insert_symbols 0 sizes
             \<lparr>bt_next_code = next_code sizes, bt_tree_next = - 1, bt_look = (\<lambda>_. 0), bt_tree = (\<lambda>_. 0)\<rparr>) (\<lambda>b.
        Inr \<lparr>look_up = bt_look b, tree = bt_tree b\<rparr>))"

section \<open>Look-up\<close>

text \<open>
  The loop \<open>do { temp = m_tree[~temp + ((bit_buf >> code_len++) & 1)]; } while (temp < 0)\<close>; a shift by 64 or
  more is undefined.
\<close>

function tree_walk :: "(nat \<Rightarrow> int) \<Rightarrow> int \<Rightarrow> u64 \<Rightarrow> nat \<Rightarrow> (nat \<times> nat) inf" where
  "tree_walk t temp bit_buf code_len =
     (if code_len \<ge> 64 then Inl (Fault ''bit_buf >> code_len'')
      else inf_bind (tree_index (temp - of_bool (bit bit_buf code_len))) (\<lambda>i.
        if t i < 0 then tree_walk t (t i) bit_buf (Suc code_len) else Inr (nat (t i), Suc code_len)))"
  by pat_completeness auto
termination
  by (relation "measure (\<lambda>(t, temp, b, cl). 64 - cl)") auto

declare tree_walk.simps [simp del]

text \<open>Symbol and code length for the bits in the buffer.\<close>

definition huff_look :: "tinfl_huff_table \<Rightarrow> u64 \<Rightarrow> (nat \<times> nat) inf" where
  "huff_look tbl bit_buf =
     (let temp = look_up tbl (unat (bit_buf AND 1023)) in
      if temp \<ge> 0 then Inr (nat temp mod 512, nat temp div 512)
      else tree_walk (tree tbl) temp bit_buf 10)"

section \<open>The canonical code\<close>

definition lsb_bits :: "nat \<Rightarrow> nat \<Rightarrow> bool list" where
  "lsb_bits n v = map (bit v) [0..<n]"

definition bits_num :: "bool list \<Rightarrow> nat" where
  "bits_num bs = horner_sum of_bool 2 bs"

text \<open>The code word of symbol \<open>s\<close>, first bit first, and the conditions on the lengths of a valid code.\<close>

definition code_num :: "nat list \<Rightarrow> nat \<Rightarrow> nat" where
  "code_num sizes s = next_code sizes (sizes ! s) + length (filter (\<lambda>x. x = sizes ! s) (take s sizes))"

definition code_bits :: "nat list \<Rightarrow> nat \<Rightarrow> bool list" where
  "code_bits sizes s = rev (lsb_bits (sizes ! s) (code_num sizes s))"

definition coded :: "nat list \<Rightarrow> nat \<Rightarrow> bool" where
  "coded sizes s \<longleftrightarrow> s < length sizes \<and> sizes ! s > 0"

definition sizes_ok :: "nat list \<Rightarrow> bool" where
  "sizes_ok sizes \<longleftrightarrow> length sizes \<le> 288 \<and> (\<forall>x \<in> set sizes. x \<le> 15) \<and>
     (next_code sizes 16 = 65536 \<or> used_syms sizes \<le> 1)"

subsection \<open>Numbers and bits\<close>

lemma length_lsb_bits [simp]: "length (lsb_bits n v) = n"
  by (simp add: lsb_bits_def)

lemma nth_lsb_bits [simp]: "i < n \<Longrightarrow> lsb_bits n v ! i = bit v i"
  by (simp add: lsb_bits_def)

lemma bit_bits_num: "bit (bits_num bs) i \<longleftrightarrow> i < length bs \<and> bs ! i"
  by (simp add: bits_num_def bit_horner_sum_bit_iff)

lemma bits_num_less: "bits_num bs < 2 ^ length bs"
  by (simp add: bits_num_def horner_sum_of_bool_2_less)

lemma bits_num_lsb_bits [simp]: "bits_num (lsb_bits n v) = take_bit n v"
  by (simp add: bits_num_def lsb_bits_def horner_sum_bit_eq_take_bit)

lemma lsb_bits_num [simp]: "lsb_bits (length bs) (bits_num bs) = bs"
  by (rule nth_equalityI) (simp_all add: bit_bits_num)

lemma bits_num_inj: "length bs = length cs \<Longrightarrow> bits_num bs = bits_num cs \<Longrightarrow> bs = cs"
  by (metis lsb_bits_num)

lemma bits_num_mod: "bits_num bs mod 2 ^ n = bits_num (take n bs)"
  by (intro bit_eqI) (auto simp: bit_bits_num bit_take_bit_iff simp flip: take_bit_eq_mod)

lemma bits_num_div: "bits_num bs div 2 ^ n = bits_num (drop n bs)"
  by (intro bit_eqI) (auto simp: bit_bits_num bit_drop_bit_eq add.commute less_diff_conv simp flip: drop_bit_eq_div)

lemma bits_num_Cons: "bits_num (b # bs) = of_bool b + 2 * bits_num bs"
  by (simp add: bits_num_def)

lemma reverse_code_bits:
  "reverse_code l c r = r * 2 ^ l + bits_num (rev (lsb_bits l c))"
proof (induction l arbitrary: c r)
  case 0
  show ?case by (simp add: lsb_bits_def bits_num_def)
next
  case (Suc l)
  have "lsb_bits (Suc l) c = odd c # lsb_bits l (c div 2)"
    by (rule nth_equalityI) (auto simp: nth_Cons bit_0 bit_Suc split: nat.splits)
  moreover have "bits_num (xs @ [b]) = bits_num xs + of_bool b * 2 ^ length xs" for xs b
    by (induction xs) (simp_all add: bits_num_def)
  ultimately show ?case by (simp add: Suc.IH algebra_simps mod_2_eq_odd)
qed

subsection \<open>The canonical code is a prefix code\<close>

text \<open>\<open>code_end l\<close>: one more than the greatest code word of length \<open>l\<close>.\<close>

definition code_end :: "nat list \<Rightarrow> nat \<Rightarrow> nat" where
  "code_end sizes l = next_code sizes l + total_syms sizes l"

lemma next_code_end: "0 < l \<Longrightarrow> next_code sizes (Suc l) = 2 * code_end sizes l"
  by (cases l) (simp_all add: code_end_def)

lemma next_code_foldl: "next_code sizes (Suc l) = foldl (\<lambda>c i. (c + total_syms sizes i) * 2) 0 [1..<Suc l]"
proof (induction l)
  case (Suc l)
  then show ?case using next_code_end [of "Suc l" sizes] by (simp add: code_end_def)
qed simp

lemma code_end_Suc: "0 < l \<Longrightarrow> code_end sizes (Suc l) = 2 * code_end sizes l + total_syms sizes (Suc l)"
  using next_code_end [of l sizes] by (simp add: code_end_def)

lemma code_end_mono: "0 < l \<Longrightarrow> code_end sizes l * 2 ^ k \<le> code_end sizes (l + k)"
  by (induction k) (auto simp: code_end_Suc algebra_simps)

lemma next_code_later: "0 < l \<Longrightarrow> code_end sizes l * 2 ^ Suc k \<le> next_code sizes (l + Suc k)"
  using code_end_mono [of l sizes k] next_code_end [of "l + k" sizes] by simp

lemma sum_total_syms:
  assumes "distinct ls"
  shows "sum_list (map (total_syms sizes) ls) \<le> length sizes"
proof (induction sizes)
  case (Cons x xs)
  let ?b = "\<lambda>ls. sum_list (map (\<lambda>l. of_bool (x = l)) ls) :: nat"
  have "sum_list (map (total_syms (x # xs)) ls) = sum_list (map (total_syms xs) ls) + ?b ls"
    by (induction ls) (simp_all add: total_syms_def)
  moreover have "x \<notin> set ls \<Longrightarrow> ?b ls = 0" for ls by (induction ls) simp_all
  then have "?b ls \<le> 1" using assms by (induction ls) auto
  ultimately show ?case using Cons by simp
qed (simp add: total_syms_def sum_list_eq_0_iff)

lemma code_end_used: "0 < l \<Longrightarrow> code_end sizes l \<le> 2 ^ (l - 1) * sum_list (map (total_syms sizes) [1..<Suc l])"
proof (induction l)
  case (Suc l)
  show ?case
  proof (cases "l = 0")
    case False
    then have "code_end sizes (Suc l) \<le> 2 * (2 ^ (l - 1) * sum_list (map (total_syms sizes) [1..<Suc l])) + total_syms sizes (Suc l)"
      using Suc.IH by (simp add: code_end_Suc)
    also have "2 * (2 ^ (l - 1) * S) = (2 ^ l * S :: nat)" for S using False by (cases l) simp_all
    also have "2 ^ l * S + T \<le> 2 ^ l * (S + T)" for S T :: nat by (simp add: add_mult_distrib2)
    finally show ?thesis by simp
  qed (simp add: code_end_def)
qed simp

lemma code_end_le:
  assumes "sizes_ok sizes" "0 < l" "l \<le> 15"
  shows "code_end sizes l \<le> 2 ^ l"
proof (cases "next_code sizes 16 = 65536")
  case True
  then have "code_end sizes 15 = 2 ^ 15" using next_code_end [of 15 sizes] by simp
  then have "code_end sizes l * 2 ^ (15 - l) \<le> 2 ^ l * 2 ^ (15 - l)"
    using code_end_mono [of l sizes "15 - l"] assms(2,3) by (simp flip: power_add)
  then show ?thesis by simp
next
  case False
  then have "used_syms sizes \<le> 1" using assms(1) by (simp add: sizes_ok_def)
  moreover have "[1..<16] = [1..<Suc l] @ [Suc l..<16]" using upt_add_eq_append [of 1 "Suc l" "15 - l"] assms(3) by simp
  ultimately have "sum_list (map (total_syms sizes) [1..<Suc l]) \<le> 1" by (simp add: used_syms_def del: upt_Suc)
  then have "2 ^ (l - 1) * sum_list (map (total_syms sizes) [1..<Suc l]) \<le> 2 ^ (l - 1) * 1" by (rule mult_le_mono2)
  with code_end_used [OF assms(2), of sizes] have "code_end sizes l \<le> 2 ^ (l - 1)" by linarith
  also have "\<dots> \<le> 2 ^ l" by (rule power_increasing) simp_all
  finally show ?thesis .
qed

lemma code_num_less_end: "coded sizes s \<Longrightarrow> code_num sizes s < code_end sizes (sizes ! s)"
proof -
  assume c: "coded sizes s"
  then have "sizes = take s sizes @ sizes ! s # drop (Suc s) sizes" by (simp add: coded_def id_take_nth_drop)
  then have "total_syms sizes (sizes ! s) = length (filter (\<lambda>x. x = sizes ! s) (take s sizes @ sizes ! s # drop (Suc s) sizes))"
    by (simp add: total_syms_def)
  then show ?thesis by (simp add: code_num_def code_end_def)
qed

lemma coded_size: "sizes_ok sizes \<Longrightarrow> coded sizes s \<Longrightarrow> 0 < sizes ! s \<and> sizes ! s \<le> 15"
  by (simp add: sizes_ok_def coded_def)

lemma code_num_less: "sizes_ok sizes \<Longrightarrow> coded sizes s \<Longrightarrow> code_num sizes s < 2 ^ (sizes ! s)"
  using code_num_less_end code_end_le coded_size by (meson less_le_trans)

lemma length_code_bits [simp]: "length (code_bits sizes s) = sizes ! s"
  by (simp add: code_bits_def)

lemma take_code_bits:
  assumes "d \<le> sizes ! s"
  shows "take d (code_bits sizes s) = rev (lsb_bits d (code_num sizes s div 2 ^ (sizes ! s - d)))"
proof -
  have "drop k (lsb_bits n v) = lsb_bits (n - k) (v div 2 ^ k)" for k n v
    by (rule nth_equalityI) (simp_all add: bit_drop_bit_eq add.commute flip: drop_bit_eq_div)
  with assms show ?thesis by (simp add: code_bits_def take_rev)
qed

lemma msb_take_code_bits:
  assumes "sizes_ok sizes" "coded sizes s" "d \<le> sizes ! s"
  shows "bits_num (rev (take d (code_bits sizes s))) = code_num sizes s div 2 ^ (sizes ! s - d)"
proof -
  have "code_num sizes s < 2 ^ d * 2 ^ (sizes ! s - d)" using code_num_less [OF assms(1,2)] assms(3) by (simp flip: power_add)
  then have "code_num sizes s div 2 ^ (sizes ! s - d) < 2 ^ d" by (simp add: div_less_iff_less_mult)
  then show ?thesis using assms(3) by (simp add: take_code_bits take_bit_nat_eq_self)
qed

text \<open>A prefix shorter than the code word exceeds every code word of its length.\<close>

lemma inner_prefix_range:
  assumes "sizes_ok sizes" "coded sizes s" "0 < d" "d < sizes ! s"
  shows "code_end sizes d \<le> bits_num (rev (take d (code_bits sizes s)))"
    and "bits_num (rev (take d (code_bits sizes s))) < 2 ^ d"
proof -
  obtain k where k: "sizes ! s = d + Suc k" using assms(4) less_iff_Suc_add by auto
  have "code_end sizes d * 2 ^ Suc k \<le> code_num sizes s"
    using next_code_later [OF assms(3), of sizes k] k by (simp add: code_num_def)
  then show "code_end sizes d \<le> bits_num (rev (take d (code_bits sizes s)))"
    using msb_take_code_bits [OF assms(1,2), of d] k by (simp add: less_eq_div_iff_mult_less_eq)
  show "bits_num (rev (take d (code_bits sizes s))) < 2 ^ d"
    using bits_num_less [of "rev (take d (code_bits sizes s))"] assms(4) by simp
qed

lemma code_num_inj:
  assumes "coded sizes s" "coded sizes t" "sizes ! s = sizes ! t" "code_num sizes s = code_num sizes t"
  shows "s = t"
proof (rule ccontr)
  assume "s \<noteq> t"
  have count_less: "length (filter (\<lambda>x. x = sizes ! u) (take u sizes)) < length (filter (\<lambda>x. x = sizes ! u) (take v sizes))"
    if "u < v" "v < length sizes" for u v
  proof -
    have "take v sizes = take u sizes @ sizes ! u # drop (Suc u) (take v sizes)"
      using id_take_nth_drop [of u "take v sizes"] that by (simp add: min_def)
    from arg_cong [OF this, of "\<lambda>xs. length (filter (\<lambda>x. x = sizes ! u) xs)"] show ?thesis by simp
  qed
  from \<open>s \<noteq> t\<close> consider "s < t" | "t < s" by linarith
  then show False
    using count_less [of s t] count_less [of t s] assms by cases (auto simp: code_num_def coded_def)
qed

lemma prefix_free:
  assumes "sizes_ok sizes" "coded sizes s" "coded sizes t" "prefix (code_bits sizes s) (code_bits sizes t)"
  shows "s = t"
proof -
  let ?l = "sizes ! s"
  have l: "0 < ?l" "?l \<le> sizes ! t" using assms(2) prefix_length_le [OF assms(4)] by (simp_all add: coded_def)
  have eq: "take ?l (code_bits sizes t) = code_bits sizes s" using assms(4) by (auto simp: prefix_def)
  have c: "code_num sizes s = bits_num (rev (take ?l (code_bits sizes t)))"
    using msb_take_code_bits [OF assms(1,2), of ?l] eq by simp
  show ?thesis
  proof (cases "?l = sizes ! t")
    case True
    with c msb_take_code_bits [OF assms(1,3), of ?l] assms(2,3) show ?thesis by (auto intro: code_num_inj)
  next
    case False
    with l have "code_end sizes ?l \<le> code_num sizes s" using inner_prefix_range(1) [OF assms(1,3) l(1)] c by simp
    with code_num_less_end [OF assms(2)] show ?thesis by simp
  qed
qed

subsection \<open>The inner nodes fit the tree\<close>

definition inner_nodes :: "nat list \<Rightarrow> bool list set" where
  "inner_nodes sizes = {p. 10 \<le> length p \<and> (\<exists>s. coded sizes s \<and> strict_prefix p (code_bits sizes s))}"

lemma inner_nodes_at:
  assumes "sizes_ok sizes" "0 < d"
  shows "finite {p \<in> inner_nodes sizes. length p = d} \<and> card {p \<in> inner_nodes sizes. length p = d} \<le> 2 ^ d - code_end sizes d"
proof -
  let ?P = "{p \<in> inner_nodes sizes. length p = d}" and ?f = "\<lambda>p. bits_num (rev p)"
  have inj: "inj_on ?f ?P" by (auto simp: inj_on_def dest!: bits_num_inj [rotated])
  have sub: "?f ` ?P \<subseteq> {code_end sizes d..<2 ^ d}"
  proof
    fix v assume "v \<in> ?f ` ?P"
    then obtain p s where p: "v = ?f p" "length p = d" "coded sizes s" "strict_prefix p (code_bits sizes s)"
      by (auto simp: inner_nodes_def)
    then have "p = take d (code_bits sizes s)" "d < sizes ! s"
      using prefix_length_less [OF p(4)] by (auto simp: strict_prefix_def prefix_def)
    with inner_prefix_range [OF assms(1) p(3) assms(2)] p(1) show "v \<in> {code_end sizes d..<2 ^ d}" by simp
  qed
  from inj sub have "card ?P \<le> card {code_end sizes d..<2 ^ d}" using card_inj_on_le by blast
  moreover have "finite ?P" using inj_on_finite [OF inj sub] by simp
  ultimately show ?thesis by simp
qed

lemma inner_nodes_short:
  assumes "sizes_ok sizes"
  shows "inner_nodes sizes = (\<Union>d \<in> {10..14}. {p \<in> inner_nodes sizes. length p = d})"
proof -
  have "10 \<le> length p \<and> length p \<le> 14" if "p \<in> inner_nodes sizes" for p
    using that coded_size [OF assms] prefix_length_less by (fastforce simp: inner_nodes_def)
  then show ?thesis by auto
qed

lemma finite_inner_nodes: "sizes_ok sizes \<Longrightarrow> finite (inner_nodes sizes)"
  by (subst inner_nodes_short) (auto intro: inner_nodes_at [THEN conjunct1])

lemma used_syms_unique:
  assumes "sizes_ok sizes" "used_syms sizes \<le> 1" "coded sizes s" "coded sizes t"
  shows "s = t"
proof (rule ccontr)
  assume ne: "s \<noteq> t"
  have "card {i. i < length sizes \<and> sizes ! i = l} = total_syms sizes l" for l
    by (simp add: total_syms_def length_filter_conv_card)
  then have "sum (\<lambda>l. card {i. i < length sizes \<and> sizes ! i = l}) {1..<16} \<le> 1"
    using assms(2) by (simp add: used_syms_def sum_list_distinct_conv_sum_set del: upt_Suc)
  moreover have "card (\<Union>l \<in> {1..<16}. {i. i < length sizes \<and> sizes ! i = l}) \<le> sum (\<lambda>l. card {i. i < length sizes \<and> sizes ! i = l}) {1..<16}"
    by (rule card_UN_le) simp
  moreover have "{s, t} \<subseteq> (\<Union>l \<in> {1..<16}. {i. i < length sizes \<and> sizes ! i = l})"
    using assms(3,4) coded_size [OF assms(1)] by (fastforce simp: coded_def)
  then have "card {s, t} \<le> card (\<Union>l \<in> {1..<16}. {i. i < length sizes \<and> sizes ! i = l})" by (rule card_mono [rotated]) simp
  ultimately show False using ne by simp
qed

lemma card_inner_nodes:
  assumes "sizes_ok sizes"
  shows "card (inner_nodes sizes) \<le> 288"
proof (cases "next_code sizes 16 = 65536")
  case True
  let ?e = "code_end sizes" and ?t = "total_syms sizes"
  have "card (inner_nodes sizes) = card (\<Union>d \<in> {10..14}. {p \<in> inner_nodes sizes. length p = d})"
    using inner_nodes_short [OF assms] by simp
  also have "\<dots> \<le> sum (\<lambda>d. card {p \<in> inner_nodes sizes. length p = d}) {10..14}" by (rule card_UN_le) simp
  also have "\<dots> \<le> sum (\<lambda>d. 2 ^ d - ?e d) {10..14}"
    by (rule sum_mono) (use inner_nodes_at [OF assms] in auto)
  also have "{10..14 :: nat} = {10, 11, 12, 13, 14}" by auto
  finally have "card (inner_nodes sizes) \<le> (2 ^ 10 - ?e 10) + (2 ^ 11 - ?e 11) + (2 ^ 12 - ?e 12) + (2 ^ 13 - ?e 13) + (2 ^ 14 - ?e 14)"
    by simp
  moreover have "?e 11 = 2 * ?e 10 + ?t 11" "?e 12 = 2 * ?e 11 + ?t 12" "?e 13 = 2 * ?e 12 + ?t 13"
    "?e 14 = 2 * ?e 13 + ?t 14" "?e 15 = 2 * ?e 14 + ?t 15"
    using code_end_Suc [of 10 sizes] code_end_Suc [of 11 sizes] code_end_Suc [of 12 sizes] code_end_Suc [of 13 sizes]
      code_end_Suc [of 14 sizes] by (simp_all only: Suc_numeral semiring_norm)
  moreover have "?e 15 = 2 ^ 15" using True next_code_end [of 15 sizes] by simp
  moreover have "?t 11 + ?t 12 + ?t 13 + ?t 14 + ?t 15 \<le> 288"
    using sum_total_syms [of "[11, 12, 13, 14, 15]" sizes] assms by (simp add: sizes_ok_def)
  ultimately show ?thesis by simp
next
  case False
  then have used: "used_syms sizes \<le> 1" using assms by (simp add: sizes_ok_def)
  show ?thesis
  proof (cases "inner_nodes sizes = {}")
    case False
    then obtain s where s: "coded sizes s" by (auto simp: inner_nodes_def)
    have "inner_nodes sizes \<subseteq> (\<lambda>d. take d (code_bits sizes s)) ` {..<16}"
    proof
      fix p assume "p \<in> inner_nodes sizes"
      then obtain t where "coded sizes t" "strict_prefix p (code_bits sizes t)" by (auto simp: inner_nodes_def)
      then have sp: "strict_prefix p (code_bits sizes s)" using used_syms_unique [OF assms used s] by blast
      then have "p = take (length p) (code_bits sizes s)" by (auto simp: strict_prefix_def prefix_def)
      moreover have "length p < 16" using prefix_length_less [OF sp] coded_size [OF assms s] by simp
      ultimately show "p \<in> (\<lambda>d. take d (code_bits sizes s)) ` {..<16}" by blast
    qed
    then have "card (inner_nodes sizes) \<le> card ((\<lambda>d. take d (code_bits sizes s)) ` {..<16})" by (rule card_mono [rotated]) simp
    also have "\<dots> \<le> 16" using card_image_le [of "{..<16 :: nat}"] by force
    finally show ?thesis by simp
  qed simp
qed

subsection \<open>The invariant of the construction\<close>

text \<open>
  \<open>S\<close> is the set of symbols entered so far, \<open>P\<close> the set of inner nodes made so far, named by the bits
  that lead to them, and \<open>\<nu>\<close> numbers them in the order of their creation: node \<open>p\<close> owns the
  entries \<open>2 \<nu> p\<close> and \<open>2 \<nu> p + 1\<close> of the tree.
\<close>

definition node_ref :: "nat \<Rightarrow> int" where
  "node_ref n = - int (2 * n + 1)"

definition nodes_wf :: "bool list set \<Rightarrow> (bool list \<Rightarrow> nat) \<Rightarrow> int \<Rightarrow> bool" where
  "nodes_wf P \<nu> tn \<longleftrightarrow> finite P \<and> inj_on \<nu> P \<and> \<nu> ` P = {..<card P} \<and> tn = node_ref (card P) \<and>
     (\<forall>p \<in> P. 10 \<le> length p) \<and> (\<forall>p b. p @ [b] \<in> P \<longrightarrow> 10 \<le> length p \<longrightarrow> p \<in> P)"

definition look_wf :: "nat list \<Rightarrow> nat set \<Rightarrow> bool list set \<Rightarrow> (bool list \<Rightarrow> nat) \<Rightarrow> (nat \<Rightarrow> int) \<Rightarrow> bool" where
  "look_wf sizes S P \<nu> look \<longleftrightarrow> (\<forall>p. length p = 10 \<longrightarrow>
     (p \<in> P \<longrightarrow> look (bits_num p) = node_ref (\<nu> p)) \<and>
     (p \<notin> P \<longrightarrow> (\<forall>t \<in> S. prefix (code_bits sizes t) p \<longrightarrow> look (bits_num p) = int (sizes ! t * 512 + t)) \<and>
        ((\<forall>t \<in> S. \<not> prefix (code_bits sizes t) p) \<longrightarrow> look (bits_num p) = 0)))"

definition tree_wf :: "nat list \<Rightarrow> nat set \<Rightarrow> bool list set \<Rightarrow> (bool list \<Rightarrow> nat) \<Rightarrow> (nat \<Rightarrow> int) \<Rightarrow> bool" where
  "tree_wf sizes S P \<nu> t \<longleftrightarrow> (\<forall>p \<in> P. \<forall>b.
     (p @ [b] \<in> P \<longrightarrow> t (2 * \<nu> p + of_bool b) = node_ref (\<nu> (p @ [b]))) \<and>
     (p @ [b] \<notin> P \<longrightarrow> (\<forall>s \<in> S. code_bits sizes s = p @ [b] \<longrightarrow> t (2 * \<nu> p + of_bool b) = int s) \<and>
        ((\<forall>s \<in> S. code_bits sizes s \<noteq> p @ [b]) \<longrightarrow> t (2 * \<nu> p + of_bool b) = 0))) \<and>
     (\<forall>i \<ge> 2 * card P. t i = 0)"

definition inner_closed :: "nat list \<Rightarrow> nat set \<Rightarrow> bool list set \<Rightarrow> bool" where
  "inner_closed sizes S P \<longleftrightarrow> (\<forall>s \<in> S. \<forall>p. 10 \<le> length p \<longrightarrow> strict_prefix p (code_bits sizes s) \<longrightarrow> p \<in> P)"

definition table_wf :: "nat list \<Rightarrow> nat set \<Rightarrow> bool list set \<Rightarrow> (bool list \<Rightarrow> nat) \<Rightarrow> (nat \<Rightarrow> int) \<Rightarrow> (nat \<Rightarrow> int) \<Rightarrow> int \<Rightarrow> bool" where
  "table_wf sizes S P \<nu> look t tn \<longleftrightarrow> nodes_wf P \<nu> tn \<and> look_wf sizes S P \<nu> look \<and> tree_wf sizes S P \<nu> t \<and>
     inner_closed sizes S P"

lemma node_ref_simps [simp]: "node_ref m = node_ref n \<longleftrightarrow> m = n" "node_ref n < 0" "node_ref n \<noteq> 0" "\<not> 0 \<le> node_ref n"
  "node_ref n - 2 = node_ref (Suc n)"
  by (auto simp: node_ref_def)

lemma tree_index_node: "2 * n + 1 < tree_size \<Longrightarrow> tree_index (node_ref n - of_bool b) = Inr (2 * n + of_bool b)"
  by (auto simp: tree_index_def node_ref_def)

lemma nodes_wf_insert:
  assumes "nodes_wf P \<nu> tn" "p \<notin> P" "10 \<le> length p" "length p = 10 \<or> butlast p \<in> P"
  shows "nodes_wf (insert p P) (\<nu>(p := card P)) (tn - 2)"
proof -
  have img: "(\<nu>(p := card P)) ` P = {..<card P}" using assms(1,2) by (auto simp: nodes_wf_def)
  then have "(\<nu>(p := card P)) ` insert p P = {..<Suc (card P)}" by (auto simp: lessThan_Suc)
  moreover have "inj_on (\<nu>(p := card P)) P" using assms(1,2) by (auto simp: nodes_wf_def inj_on_def)
  then have "inj_on (\<nu>(p := card P)) (insert p P)" using img assms(2) by (simp only: inj_on_insert) simp
  moreover have "q \<in> insert p P" if "q @ [b] \<in> insert p P" "10 \<le> length q" for q b
    using that assms by (auto simp: nodes_wf_def)
  ultimately show ?thesis using assms by (auto simp: nodes_wf_def)
qed

lemma node_number_less: "nodes_wf P \<nu> tn \<Longrightarrow> p \<in> P \<Longrightarrow> \<nu> p < card P"
  by (auto simp: nodes_wf_def)

lemma add_root:
  assumes wf: "table_wf sizes S P \<nu> look t tn" and p: "length p = 10" "p \<notin> P" "look (bits_num p) = 0"
    and "\<forall>s \<in> S. coded sizes s"
  shows "table_wf sizes S (insert p P) (\<nu>(p := card P)) (look(bits_num p := tn)) t (tn - 2)"
proof -
  have n: "nodes_wf P \<nu> tn" and l: "look_wf sizes S P \<nu> look" and t: "tree_wf sizes S P \<nu> t" and c: "inner_closed sizes S P"
    using wf by (auto simp: table_wf_def)
  have lens: "\<forall>q \<in> P. 10 \<le> length q" and tn: "tn = node_ref (card P)" "finite P" using n by (auto simp: nodes_wf_def)
  have child: "p @ [b] \<notin> P" "\<forall>s \<in> S. code_bits sizes s \<noteq> p @ [b]" for b
    using n p c by (auto simp: nodes_wf_def inner_closed_def strict_prefix_def)
  have parent: "q @ [b] \<noteq> p" if "q \<in> P" for q b using lens that p(1) by fastforce
  have "look_wf sizes S (insert p P) (\<nu>(p := card P)) (look(bits_num p := tn))"
    using l p tn by (auto simp: look_wf_def dest: bits_num_inj [rotated])
  moreover have "tree_wf sizes S (insert p P) (\<nu>(p := card P)) t"
    using t child parent p(2) tn unfolding tree_wf_def by auto
  ultimately show ?thesis using nodes_wf_insert [OF n p(2)] p(1) c by (auto simp: table_wf_def inner_closed_def)
qed

lemma add_child:
  assumes wf: "table_wf sizes S P \<nu> look t tn" and q: "q \<in> P" "q @ [b] \<notin> P" "\<forall>s \<in> S. code_bits sizes s \<noteq> q @ [b]"
  shows "table_wf sizes S (insert (q @ [b]) P) (\<nu>(q @ [b] := card P)) look (t(2 * \<nu> q + of_bool b := tn)) (tn - 2)"
proof -
  let ?p = "q @ [b]"
  have n: "nodes_wf P \<nu> tn" and l: "look_wf sizes S P \<nu> look" and t: "tree_wf sizes S P \<nu> t" and c: "inner_closed sizes S P"
    using wf by (auto simp: table_wf_def)
  have lens: "\<forall>q \<in> P. 10 \<le> length q" and tn: "tn = node_ref (card P)" "finite P" using n by (auto simp: nodes_wf_def)
  have lq: "10 \<le> length q" using lens q(1) by simp
  have child: "?p @ [d] \<notin> P" "\<forall>s \<in> S. code_bits sizes s \<noteq> ?p @ [d]" for d
  proof -
    have "?p @ [d] \<in> P \<Longrightarrow> ?p \<in> P" using n lq unfolding nodes_wf_def by (metis le_SucI length_append_singleton)
    with q(2) show "?p @ [d] \<notin> P" by blast
    show "\<forall>s \<in> S. code_bits sizes s \<noteq> ?p @ [d]"
    proof (intro ballI notI)
      fix s assume "s \<in> S" "code_bits sizes s = ?p @ [d]"
      then have "strict_prefix ?p (code_bits sizes s)" by (auto simp: strict_prefix_def)
      with \<open>s \<in> S\<close> c lq have "?p \<in> P" by (auto simp: inner_closed_def)
      with q(2) show False by simp
    qed
  qed
  have index: "2 * \<nu> r + of_bool d = 2 * \<nu> q + of_bool b \<longleftrightarrow> r = q \<and> d = b" if "r \<in> P" for r d
  proof -
    have "2 * \<nu> r + of_bool d = 2 * \<nu> q + of_bool b \<longleftrightarrow> \<nu> r = \<nu> q \<and> d = b" by (cases d; cases b) (simp_all, presburger+)
    then show ?thesis using n q(1) that by (auto simp: nodes_wf_def inj_on_def)
  qed
  have small: "2 * \<nu> q + of_bool b < 2 * card P" using node_number_less [OF n q(1)] by (cases b) simp_all
  have "look_wf sizes S (insert ?p P) (\<nu>(?p := card P)) look"
    using l lq unfolding look_wf_def by auto
  moreover have "tree_wf sizes S (insert ?p P) (\<nu>(?p := card P)) (t(2 * \<nu> q + of_bool b := tn))"
    using t child index small q(1,2) tn unfolding tree_wf_def by (auto simp: fun_upd_def)
  ultimately show ?thesis using nodes_wf_insert [OF n q(2)] q(1) lq c by (auto simp: table_wf_def inner_closed_def)
qed

lemma add_leaf:
  assumes wf: "table_wf sizes S P \<nu> look t tn" and q: "q \<in> P" "code_bits sizes s = q @ [b]" "q @ [b] \<notin> P"
    and "\<forall>u \<in> S. code_bits sizes u \<noteq> q @ [b]" "\<forall>p. 10 \<le> length p \<longrightarrow> strict_prefix p (q @ [b]) \<longrightarrow> p \<in> P"
  shows "table_wf sizes (insert s S) P \<nu> look (t(2 * \<nu> q + of_bool b := int s)) tn"
proof -
  have n: "nodes_wf P \<nu> tn" and l: "look_wf sizes S P \<nu> look" and t: "tree_wf sizes S P \<nu> t" and c: "inner_closed sizes S P"
    using wf by (auto simp: table_wf_def)
  have lq: "10 \<le> length q" using n q(1) by (auto simp: nodes_wf_def)
  have index: "2 * \<nu> r + of_bool d = 2 * \<nu> q + of_bool b \<longleftrightarrow> r = q \<and> d = b" if "r \<in> P" for r d
  proof -
    have "2 * \<nu> r + of_bool d = 2 * \<nu> q + of_bool b \<longleftrightarrow> \<nu> r = \<nu> q \<and> d = b" by (cases d; cases b) (simp_all, presburger+)
    then show ?thesis using n q(1) that by (auto simp: nodes_wf_def inj_on_def)
  qed
  have small: "2 * \<nu> q + of_bool b < 2 * card P" using node_number_less [OF n q(1)] by (cases b) simp_all
  have "\<not> prefix (code_bits sizes s) p" if "length p = 10" for p
    using that lq q(2) prefix_length_le by fastforce
  with l have "look_wf sizes (insert s S) P \<nu> look" unfolding look_wf_def by auto
  moreover have "tree_wf sizes (insert s S) P \<nu> (t(2 * \<nu> q + of_bool b := int s))"
    using t index small q assms(5) unfolding tree_wf_def by (auto simp: fun_upd_def)
  ultimately show ?thesis using n c assms(6) q(2) by (auto simp: table_wf_def inner_closed_def)
qed

lemma fill_look_at:
  assumes "i < 1024" "0 < k"
  shows "fill_look v k r look i = (if r \<le> i \<and> i mod 2 ^ k = r mod 2 ^ k then v else look i)"
  using assms
proof (induction v k r look rule: fill_look.induct)
  case (1 v k r look)
  have step: "r + 2 ^ k \<le> i \<longleftrightarrow> r < i" if "i mod 2 ^ k = r mod 2 ^ k"
  proof
    assume "r < i"
    moreover have "2 ^ k dvd i - r" using that \<open>r < i\<close> by (simp add: mod_eq_dvd_iff_nat)
    ultimately show "r + 2 ^ k \<le> i" using dvd_imp_le [of "2 ^ k" "i - r"] by simp
  next
    assume "r + 2 ^ k \<le> i"
    moreover have "0 < (2 :: nat) ^ k" by simp
    ultimately show "r < i" by linarith
  qed
  show ?case
  proof (cases "r < 1024")
    case True
    with 1 step show ?thesis by (subst fill_look.simps) (auto simp: fun_upd_def)
  next
    case False
    with 1(2) show ?thesis by (subst fill_look.simps) auto
  qed
qed

lemma fill_look_code:
  assumes "length p = 10" "length c \<le> 10" "0 < length c"
  shows "fill_look v (length c) (bits_num c) look (bits_num p) = (if prefix c p then v else look (bits_num p))"
proof -
  have less: "bits_num p < 1024" "bits_num c < 2 ^ length c" using bits_num_less [of p] assms(1) bits_num_less by simp_all
  have "prefix c p \<longleftrightarrow> take (length c) p = c" by (metis prefix_def take_is_prefix append_eq_conv_conj)
  also have "\<dots> \<longleftrightarrow> bits_num p mod 2 ^ length c = bits_num c"
    using assms(1,2) bits_num_inj [of "take (length c) p" c] by (auto simp: bits_num_mod)
  also have "\<dots> \<longleftrightarrow> bits_num c \<le> bits_num p \<and> bits_num p mod 2 ^ length c = bits_num c mod 2 ^ length c"
    using less(2) by (metis mod_less mod_less_eq_dividend)
  finally show ?thesis using fill_look_at [OF less(1) assms(3)] by simp
qed

lemma add_short:
  assumes wf: "table_wf sizes S P \<nu> look t tn" and "coded sizes s" "sizes ! s \<le> 10" "sizes_ok sizes"
    and "P \<subseteq> inner_nodes sizes" "\<forall>u \<in> S. coded sizes u \<and> u \<noteq> s"
  shows "table_wf sizes (insert s S) P \<nu>
     (fill_look (int (sizes ! s * 512 + s)) (sizes ! s) (bits_num (code_bits sizes s)) look) t tn"
proof -
  have n: "nodes_wf P \<nu> tn" and l: "look_wf sizes S P \<nu> look" and t: "tree_wf sizes S P \<nu> t" and c: "inner_closed sizes S P"
    using wf by (auto simp: table_wf_def)
  have out: "\<not> prefix (code_bits sizes s) p" if "p \<in> P" for p
  proof
    assume pre: "prefix (code_bits sizes s) p"
    from that assms(5) obtain u where u: "coded sizes u" "strict_prefix p (code_bits sizes u)" by (auto simp: inner_nodes_def)
    then have "strict_prefix (code_bits sizes s) (code_bits sizes u)" using pre by (meson prefix_order.le_less_trans)
    with prefix_free [OF assms(4,2) u(1)] show False by (auto simp: strict_prefix_def)
  qed
  have uniq: "\<not> prefix (code_bits sizes u) p" if "u \<in> S" "prefix (code_bits sizes s) p" for u p
  proof
    assume "prefix (code_bits sizes u) p"
    then have "prefix (code_bits sizes u) (code_bits sizes s) \<or> prefix (code_bits sizes s) (code_bits sizes u)"
      using that(2) prefix_same_cases by blast
    with prefix_free [OF assms(4)] assms(2,6) that(1) show False by blast
  qed
  have len: "length (code_bits sizes s) = sizes ! s" "0 < sizes ! s" using assms(2) by (simp_all add: coded_def)
  note at = fill_look_code [of _ "code_bits sizes s", unfolded len(1), OF _ assms(3) len(2)]
  have "look_wf sizes (insert s S) P \<nu> (fill_look (int (sizes ! s * 512 + s)) (sizes ! s) (bits_num (code_bits sizes s)) look)"
    unfolding look_wf_def
  proof (intro allI impI)
    fix p :: "bool list" assume p: "length p = 10"
    have lp: "(p \<in> P \<longrightarrow> look (bits_num p) = node_ref (\<nu> p)) \<and>
     (p \<notin> P \<longrightarrow> (\<forall>t \<in> S. prefix (code_bits sizes t) p \<longrightarrow> look (bits_num p) = int (sizes ! t * 512 + t)) \<and>
        ((\<forall>t \<in> S. \<not> prefix (code_bits sizes t) p) \<longrightarrow> look (bits_num p) = 0))"
      using l p unfolding look_wf_def by blast
    show "(p \<in> P \<longrightarrow> fill_look (int (sizes ! s * 512 + s)) (sizes ! s) (bits_num (code_bits sizes s)) look (bits_num p) = node_ref (\<nu> p)) \<and>
     (p \<notin> P \<longrightarrow> (\<forall>t \<in> insert s S. prefix (code_bits sizes t) p \<longrightarrow>
          fill_look (int (sizes ! s * 512 + s)) (sizes ! s) (bits_num (code_bits sizes s)) look (bits_num p) = int (sizes ! t * 512 + t)) \<and>
        ((\<forall>t \<in> insert s S. \<not> prefix (code_bits sizes t) p) \<longrightarrow>
          fill_look (int (sizes ! s * 512 + s)) (sizes ! s) (bits_num (code_bits sizes s)) look (bits_num p) = 0))"
      using lp out [of p] uniq [of _ p] by (cases "prefix (code_bits sizes s) p") (auto simp: at [OF p])
  qed
  moreover have short: "code_bits sizes s \<noteq> p @ [b]" if "p \<in> P" for p b
  proof
    assume "code_bits sizes s = p @ [b]"
    from arg_cong [OF this, of length] have "sizes ! s = Suc (length p)" by simp
    moreover have "10 \<le> length p" using n that by (auto simp: nodes_wf_def)
    ultimately show False using assms(3) by simp
  qed
  then have "tree_wf sizes (insert s S) P \<nu> t" using t unfolding tree_wf_def by auto
  moreover have "\<not> strict_prefix p (code_bits sizes s)" if "10 \<le> length p" for p
    using that assms(3) prefix_length_less by fastforce
  then have "inner_closed sizes (insert s S) P" using c by (auto simp: inner_closed_def)
  ultimately show ?thesis using n by (auto simp: table_wf_def)
qed

lemma take_Suc_snoc: "d < length c \<Longrightarrow> take (Suc d) c = take d c @ [c ! d]"
  by (rule take_Suc_conv_app_nth)

lemma inner_node_take:
  assumes "coded sizes s" "10 \<le> d" "d < sizes ! s"
  shows "take d (code_bits sizes s) \<in> inner_nodes sizes"
proof -
  have "length (take d (code_bits sizes s)) = d" using assms(3) by simp
  moreover have "strict_prefix (take d (code_bits sizes s)) (code_bits sizes s)"
    using assms(3) by (simp add: strict_prefix_def take_is_prefix)
  ultimately show ?thesis using assms unfolding inner_nodes_def by auto
qed

lemma tree_descend_ok:
  assumes "sizes_ok sizes" "coded sizes s" "\<forall>u \<in> S. coded sizes u \<and> u \<noteq> s"
  defines "c \<equiv> code_bits sizes s"
  assumes "table_wf sizes S P \<nu> look t tn" "P \<subseteq> inner_nodes sizes" "take d c \<in> P" "10 \<le> d" "d + j < length c"
    and "r = bits_num (drop (d - 1) c)"
  shows "\<exists>P' \<nu>' t' tn'. tree_descend j r (node_ref (\<nu> (take d c))) tn t =
      Inr (bits_num (drop (d + j - 1) c), node_ref (\<nu>' (take (d + j) c)), tn', t') \<and>
    table_wf sizes S P' \<nu>' look t' tn' \<and> P \<subseteq> P' \<and> P' \<subseteq> inner_nodes sizes \<and> (\<forall>e. d \<le> e \<and> e \<le> d + j \<longrightarrow> take e c \<in> P')"
  using assms(5-10)
proof (induction j arbitrary: P \<nu> t tn d r)
  case 0
  then have "\<forall>e. d \<le> e \<and> e \<le> d + 0 \<longrightarrow> take e c \<in> P" by (metis add_0_right le_antisym)
  with 0 show ?case by (intro exI [of _ P] exI [of _ \<nu>] exI [of _ t] exI [of _ tn]) simp
next
  case (Suc j)
  let ?q = "take d c" and ?b = "c ! d"
  have d: "d < length c" using Suc.prems(5) by simp
  have nwf: "nodes_wf P \<nu> tn" and twf: "tree_wf sizes S P \<nu> t" using Suc.prems(1) by (auto simp: table_wf_def)
  have r2: "r div 2 = bits_num (drop d c)"
    using bits_num_div [of "drop (d - 1) c" 1] Suc.prems(4,6) by simp
  have bit: "int (r div 2 mod 2) = of_bool ?b"
  proof -
    have "drop d c = ?b # drop (Suc d) c" using d by (simp add: Cons_nth_drop_Suc)
    then show ?thesis by (simp add: r2 bits_num_Cons)
  qed
  have card: "card P \<le> 288" using card_mono [OF finite_inner_nodes [OF assms(1)] Suc.prems(2)] card_inner_nodes [OF assms(1)] by simp
  have idx: "tree_index (node_ref (\<nu> ?q) - int (r div 2 mod 2)) = Inr (2 * \<nu> ?q + of_bool ?b)"
    using tree_index_node [of "\<nu> ?q" ?b] node_number_less [OF nwf Suc.prems(3)] card bit by (simp add: tree_size_def)
  have next_in: "take (Suc d) c \<in> inner_nodes sizes"
    using inner_node_take [OF assms(2), of "Suc d"] Suc.prems(4,5) by (simp add: c_def)
  have snoc: "take (Suc d) c = ?q @ [?b]" using d by (rule take_Suc_snoc)
  have no_leaf: "\<forall>u \<in> S. code_bits sizes u \<noteq> ?q @ [?b]"
  proof (intro ballI notI)
    fix u assume "u \<in> S" "code_bits sizes u = ?q @ [?b]"
    then have "prefix (code_bits sizes u) (code_bits sizes s)" by (metis c_def snoc take_is_prefix)
    with prefix_free [OF assms(1)] assms(2,3) \<open>u \<in> S\<close> show False by blast
  qed
  show ?case
  proof (cases "take (Suc d) c \<in> P")
    case True
    then have tv: "t (2 * \<nu> ?q + of_bool ?b) = node_ref (\<nu> (take (Suc d) c))"
      using twf Suc.prems(3) snoc unfolding tree_wf_def by auto
    from Suc.IH [OF Suc.prems(1,2) True] Suc.prems(4,5) r2 obtain P' \<nu>' t' tn' where
      IH: "tree_descend j (r div 2) (node_ref (\<nu> (take (Suc d) c))) tn t =
        Inr (bits_num (drop (d + j) c), node_ref (\<nu>' (take (Suc d + j) c)), tn', t')"
      "table_wf sizes S P' \<nu>' look t' tn'" "P \<subseteq> P'" "P' \<subseteq> inner_nodes sizes"
      "\<forall>e. Suc d \<le> e \<and> e \<le> Suc d + j \<longrightarrow> take e c \<in> P'" by (auto simp: )
    have "\<forall>e. d \<le> e \<and> e \<le> d + Suc j \<longrightarrow> take e c \<in> P'"
      using IH(3,5) Suc.prems(3) by (metis add_Suc_right add_Suc le_neq_implies_less not_less_eq_eq subsetD not_le)
    moreover have "tree_descend (Suc j) r (node_ref (\<nu> ?q)) tn t = tree_descend j (r div 2) (node_ref (\<nu> (take (Suc d) c))) tn t"
      by (simp add: idx tv Let_def)
    ultimately show ?thesis using IH by auto
  next
    case False
    then have tv: "t (2 * \<nu> ?q + of_bool ?b) = 0"
      using twf Suc.prems(3) no_leaf snoc unfolding tree_wf_def by auto
    let ?P = "insert (take (Suc d) c) P" and ?\<nu> = "\<nu>(take (Suc d) c := card P)" and ?t = "t(2 * \<nu> ?q + of_bool ?b := tn)"
    have wf: "table_wf sizes S ?P ?\<nu> look ?t (tn - 2)"
      using add_child [OF Suc.prems(1,3)] False no_leaf by (simp add: snoc)
    have tn: "node_ref (card P) = tn" using nwf by (simp add: nodes_wf_def)
    have pre: "?P \<subseteq> inner_nodes sizes" "take (Suc d) c \<in> ?P" "10 \<le> Suc d" "Suc d + j < length c"
      "r div 2 = bits_num (drop (Suc d - 1) c)" using Suc.prems(2,4,5) next_in r2 by simp_all
    from Suc.IH [OF wf pre] obtain P' \<nu>' t' tn' where
      IH: "tree_descend j (r div 2) (node_ref (?\<nu> (take (Suc d) c))) (tn - 2) ?t =
        Inr (bits_num (drop (Suc d + j - 1) c), node_ref (\<nu>' (take (Suc d + j) c)), tn', t')"
      "table_wf sizes S P' \<nu>' look t' tn'" "?P \<subseteq> P'" "P' \<subseteq> inner_nodes sizes"
      "\<forall>e. Suc d \<le> e \<and> e \<le> Suc d + j \<longrightarrow> take e c \<in> P'" by blast
    have "\<forall>e. d \<le> e \<and> e \<le> d + Suc j \<longrightarrow> take e c \<in> P'"
      using IH(3,5) Suc.prems(3) by (metis add_Suc_right add_Suc insert_subset le_neq_implies_less not_less_eq_eq subsetD not_le)
    moreover have "tree_descend (Suc j) r (node_ref (\<nu> ?q)) tn t = tree_descend j (r div 2) (node_ref (?\<nu> (take (Suc d) c))) (tn - 2) ?t"
      by (simp add: idx tv tn Let_def)
    ultimately show ?thesis using IH by auto
  qed
qed

text \<open>The counters of the codes: \<open>next_code\<close> has advanced by the symbols before \<open>s\<close>.\<close>

definition counters_ok :: "nat list \<Rightarrow> nat \<Rightarrow> (nat \<Rightarrow> nat) \<Rightarrow> bool" where
  "counters_ok sizes s nc \<longleftrightarrow> (\<forall>l > 0. nc l = next_code sizes l + length (filter (\<lambda>x. x = l) (take s sizes)))"

definition built :: "nat list \<Rightarrow> nat \<Rightarrow> build_state \<Rightarrow> bool" where
  "built sizes s b \<longleftrightarrow> counters_ok sizes s (bt_next_code b) \<and>
     (\<exists>P \<nu>. P \<subseteq> inner_nodes sizes \<and> table_wf sizes {t. t < s \<and> coded sizes t} P \<nu> (bt_look b) (bt_tree b) (bt_tree_next b))"

lemma builtI:
  assumes "counters_ok sizes s nc" "P \<subseteq> inner_nodes sizes" "table_wf sizes S P \<nu> look t tn" "{t. t < s \<and> coded sizes t} = S"
  shows "built sizes s (b\<lparr>bt_next_code := nc, bt_look := look, bt_tree_next := tn, bt_tree := t\<rparr>)"
  using assms by (auto simp: built_def)

lemma insert_symbol_ok:
  assumes "sizes_ok sizes" "s < length sizes" "built sizes s b"
  shows "\<exists>b'. insert_symbol s (sizes ! s) b = Inr b' \<and> built sizes (Suc s) b'"
proof (cases "sizes ! s = 0")
  case True
  then have "{t. t < Suc s \<and> coded sizes t} = {t. t < s \<and> coded sizes t}" by (auto simp: coded_def less_Suc_eq)
  moreover have "counters_ok sizes (Suc s) (bt_next_code b)"
    using assms(2,3) True by (simp add: built_def counters_ok_def take_Suc_conv_app_nth)
  ultimately show ?thesis using True assms(3) by (auto simp: insert_symbol_def built_def)
next
  case False
  let ?S = "{t. t < s \<and> coded sizes t}" and ?c = "code_bits sizes s"
  have cs: "coded sizes s" using False assms(2) by (simp add: coded_def)
  have set: "{t. t < Suc s \<and> coded sizes t} = insert s ?S" using cs by (auto simp: less_Suc_eq)
  have S: "\<forall>u \<in> ?S. coded sizes u \<and> u \<noteq> s" by auto
  from assms(3) obtain P \<nu> where P: "P \<subseteq> inner_nodes sizes"
    "table_wf sizes ?S P \<nu> (bt_look b) (bt_tree b) (bt_tree_next b)" by (auto simp: built_def)
  let ?l = "sizes ! s" and ?nc = "bt_next_code b"
  have nc: "?nc ?l = code_num sizes s" using assms(3) False by (simp add: built_def counters_ok_def code_num_def)
  have nc': "counters_ok sizes (Suc s) (?nc(?l := ?nc ?l + 1))"
    using assms(2,3) by (auto simp: built_def counters_ok_def take_Suc_conv_app_nth)
  have rev: "reverse_code ?l (?nc ?l) 0 = bits_num ?c" by (simp add: reverse_code_bits nc code_bits_def)
  show ?thesis
  proof (cases "?l \<le> 10")
    case True
    have "table_wf sizes (insert s ?S) P \<nu> (fill_look (int (?l * 512 + s)) ?l (bits_num ?c) (bt_look b)) (bt_tree b) (bt_tree_next b)"
      by (rule add_short [OF P(2) cs True assms(1) P(1) S])
    with False True P(1) nc' show ?thesis unfolding insert_symbol_def built_def set by (auto simp: Let_def rev)
  next
    case long: False
    let ?p = "take 10 ?c" and ?tn = "bt_tree_next b"
    have lc: "10 < length ?c" using long by simp
    have i: "bits_num ?c mod 1024 = bits_num ?p" using bits_num_mod [of ?c 10] by simp
    have lp: "length ?p = 10" using lc by simp
    have pin: "?p \<in> inner_nodes sizes" using inner_node_take [OF cs, of 10] long by simp
    have nwf: "nodes_wf P \<nu> ?tn" and lwf: "look_wf sizes ?S P \<nu> (bt_look b)" using P(2) by (auto simp: table_wf_def)
    have nopre: "\<forall>u \<in> ?S. \<not> prefix (code_bits sizes u) ?p"
      using prefix_free [OF assms(1) _ cs] S by (meson prefix_order.trans take_is_prefix)
    have root: "bt_look b (bits_num ?p) = (if ?p \<in> P then node_ref (\<nu> ?p) else 0)"
      using lwf lp nopre unfolding look_wf_def by auto
    let ?P = "insert ?p P" and ?\<nu> = "if ?p \<in> P then \<nu> else \<nu>(?p := card P)"
    let ?look = "if ?p \<in> P then bt_look b else (bt_look b)(bits_num ?p := ?tn)" and ?tn' = "if ?p \<in> P then ?tn else ?tn - 2"
    have wf: "table_wf sizes ?S ?P ?\<nu> ?look (bt_tree b) ?tn'"
      using P(2) add_root [OF P(2) lp] root by (auto simp: insert_absorb)
    have cur: "node_ref (?\<nu> ?p) = (if ?p \<in> P then bt_look b (bits_num ?p) else ?tn)"
      using root nwf by (auto simp: nodes_wf_def)
    have sub: "?P \<subseteq> inner_nodes sizes" using P(1) pin by simp
    have r9: "bits_num ?c div 2 ^ 9 = bits_num (drop (10 - 1) ?c)" using bits_num_div [of ?c 9] by simp
    have steps: "10 + (?l - 11) < length ?c" using long by simp
    obtain P' \<nu>' t' tn' where d: "tree_descend (?l - 11) (bits_num ?c div 2 ^ 9) (node_ref (?\<nu> ?p)) ?tn' (bt_tree b) =
        Inr (bits_num (drop (10 + (?l - 11) - 1) ?c), node_ref (\<nu>' (take (10 + (?l - 11)) ?c)), tn', t')"
      "table_wf sizes ?S P' \<nu>' ?look t' tn'" "?P \<subseteq> P'" "P' \<subseteq> inner_nodes sizes"
      "\<forall>e. 10 \<le> e \<and> e \<le> 10 + (?l - 11) \<longrightarrow> take e ?c \<in> P'"
      using tree_descend_ok [OF assms(1) cs S wf sub insertI1 order.refl steps r9] by blast
    let ?q = "take (?l - 1) ?c" and ?b = "?c ! (?l - 1)"
    have ends: "10 + (?l - 11) = ?l - 1" using long by simp
    have qb: "?c = ?q @ [?b]" using take_Suc_snoc [of "?l - 1" ?c] long by simp
    have q: "?q \<in> P'" using d(5) ends long by auto
    have "drop (?l - 1) ?c = [?b]" using Cons_nth_drop_Suc [of "?l - 1" ?c] long by simp
    then have bit: "int (bits_num (drop (?l - 1 - 1) ?c) div 2 mod 2) = of_bool ?b"
    proof -
      have "drop 1 (drop (?l - 1 - 1) ?c) = drop (?l - 1) ?c" using long by (simp add: Suc_diff_Suc)
      then have "bits_num (drop (?l - 1 - 1) ?c) div 2 = bits_num [?b]"
        using bits_num_div [of "drop (?l - 1 - 1) ?c" 1] \<open>drop (?l - 1) ?c = [?b]\<close> by simp
      then show ?thesis by (simp add: bits_num_def)
    qed
    have nwf': "nodes_wf P' \<nu>' tn'" using d(2) by (simp add: table_wf_def)
    have card: "card P' \<le> 288" using card_mono [OF finite_inner_nodes [OF assms(1)] d(4)] card_inner_nodes [OF assms(1)] by simp
    have idx: "tree_index (node_ref (\<nu>' ?q) - of_bool ?b) = Inr (2 * \<nu>' ?q + of_bool ?b)"
      using node_number_less [OF nwf' q] card by (intro tree_index_node) (simp add: tree_size_def)
    have notin: "?q @ [?b] \<notin> P'"
    proof
      assume "?q @ [?b] \<in> P'"
      with d(4) qb obtain u where "coded sizes u" "strict_prefix ?c (code_bits sizes u)" by (auto simp: inner_nodes_def)
      with prefix_free [OF assms(1) cs] show False by (auto simp: strict_prefix_def)
    qed
    have "\<forall>u \<in> ?S. code_bits sizes u \<noteq> ?q @ [?b]"
      using prefix_free [OF assms(1) _ cs] S qb by (metis prefix_order.refl)
    moreover have "\<forall>p. 10 \<le> length p \<longrightarrow> strict_prefix p (?q @ [?b]) \<longrightarrow> p \<in> P'"
    proof (intro allI impI)
      fix p assume p: "10 \<le> length p" "strict_prefix p (?q @ [?b])"
      have sp: "strict_prefix p ?c" using p(2) by (simp only: qb [symmetric])
      then have "p = take (length p) ?c" by (auto simp: strict_prefix_def prefix_def)
      moreover have "length p \<le> 10 + (?l - 11)" using prefix_length_less [OF sp] ends by simp
      ultimately show "p \<in> P'" using d(5) p(1) by metis
    qed
    ultimately have wf': "table_wf sizes (insert s ?S) P' \<nu>' ?look (t'(2 * \<nu>' ?q + of_bool ?b := int s)) tn'"
      by (intro add_leaf [OF d(2) q qb notin])
    let ?b' = "b\<lparr>bt_next_code := ?nc(?l := ?nc ?l + 1), bt_look := ?look, bt_tree_next := tn',
        bt_tree := t'(2 * \<nu>' ?q + of_bool ?b := int s)\<rparr>"
    have "built sizes (Suc s) ?b'" by (rule builtI [OF nc' d(4) wf' set])
    moreover have "insert_symbol s ?l b = Inr ?b'"
      using False long d(1) root cur idx bit ends
      by (auto simp: insert_symbol_def Let_def rev i)
    ultimately show ?thesis by blast
  qed
qed

lemma insert_symbols_ok:
  assumes "sizes_ok sizes" "s \<le> length sizes" "built sizes s b"
  shows "\<exists>b'. insert_symbols s (drop s sizes) b = Inr b' \<and> built sizes (length sizes) b'"
  using assms(2,3)
proof (induction "length sizes - s" arbitrary: s b)
  case 0
  then show ?case by simp
next
  case (Suc n)
  then have s: "s < length sizes" by simp
  obtain b' where b': "insert_symbol s (sizes ! s) b = Inr b'" "built sizes (Suc s) b'"
    using insert_symbol_ok [OF assms(1) s Suc.prems(2)] by blast
  have "drop s sizes = sizes ! s # drop (Suc s) sizes" using s by (simp add: Cons_nth_drop_Suc)
  with b' Suc.hyps(1) [of "Suc s" b'] Suc.hyps(2) s show ?case by simp
qed

definition decodes :: "nat list \<Rightarrow> tinfl_huff_table \<Rightarrow> bool" where
  "decodes sizes tbl \<longleftrightarrow> (\<exists>P \<nu> tn. P \<subseteq> inner_nodes sizes \<and> table_wf sizes {t. coded sizes t} P \<nu> (look_up tbl) (tree tbl) tn)"

theorem build_table_ok:
  assumes "sizes_ok sizes"
  shows "\<exists>tbl. build_table sizes = Inr tbl \<and> decodes sizes tbl"
proof -
  let ?b = "\<lparr>bt_next_code = next_code sizes, bt_tree_next = - 1, bt_look = (\<lambda>_. 0), bt_tree = (\<lambda>_. 0)\<rparr> :: build_state"
  have "built sizes 0 ?b"
    unfolding built_def
    by (intro conjI exI [of _ "{}"])
      (simp_all add: counters_ok_def table_wf_def nodes_wf_def look_wf_def tree_wf_def inner_closed_def node_ref_def)
  from insert_symbols_ok [OF assms _ this] obtain b where b: "insert_symbols 0 sizes ?b = Inr b" "built sizes (length sizes) b"
    by auto
  have "{t. t < length sizes \<and> coded sizes t} = {t. coded sizes t}" by (auto simp: coded_def)
  with b assms show ?thesis by (auto simp: build_table_def built_def decodes_def sizes_ok_def)
qed

section \<open>Decoding\<close>

definition starts_with :: "u64 \<Rightarrow> bool list \<Rightarrow> bool" where
  "starts_with w bs \<longleftrightarrow> (\<forall>i < length bs. bit w i = bs ! i)"

lemma look_index: "unat (w AND 1023 :: u64) = bits_num (map (bit w) [0..<10])"
proof -
  have "(1023 :: u64) = mask 10" by (simp add: mask_eq_exp_minus_1)
  then have "w AND 1023 = take_bit 10 w" by (simp add: take_bit_eq_mask)
  then show ?thesis by (intro bit_eqI) (auto simp: bit_bits_num bit_unsigned_iff bit_take_bit_iff)
qed

lemma tree_step:
  assumes wf: "table_wf sizes {t. coded sizes t} P \<nu> look t tn" and "P \<subseteq> inner_nodes sizes" "sizes_ok sizes" "coded sizes s"
    and "d < sizes ! s" "10 \<le> d" "take d (code_bits sizes s) \<in> P" "b = code_bits sizes s ! d"
  shows "\<exists>i. tree_index (node_ref (\<nu> (take d (code_bits sizes s))) - of_bool b) = Inr i \<and>
    (if Suc d < sizes ! s
     then take (Suc d) (code_bits sizes s) \<in> P \<and> t i = node_ref (\<nu> (take (Suc d) (code_bits sizes s)))
     else t i = int s)"
proof -
  let ?c = "code_bits sizes s" and ?i = "2 * \<nu> (take d (code_bits sizes s)) + of_bool (code_bits sizes s ! d)"
  have nwf: "nodes_wf P \<nu> tn" and twf: "tree_wf sizes {t. coded sizes t} P \<nu> t" and cl: "inner_closed sizes {t. coded sizes t} P"
    using wf by (auto simp: table_wf_def)
  have card: "card P \<le> 288" using card_mono [OF finite_inner_nodes [OF assms(3)] assms(2)] card_inner_nodes [OF assms(3)] by simp
  have idx: "tree_index (node_ref (\<nu> (take d ?c)) - of_bool b) = Inr ?i"
    using node_number_less [OF nwf assms(7)] card unfolding assms(8) by (intro tree_index_node) (simp add: tree_size_def)
  have snoc: "take (Suc d) ?c = take d ?c @ [?c ! d]" using assms(5) by (intro take_Suc_snoc) simp
  show ?thesis
  proof (cases "Suc d < sizes ! s")
    case True
    then have "take (Suc d) ?c \<in> P"
      using cl assms(4,6) by (auto simp: inner_closed_def strict_prefix_def take_is_prefix)
    moreover from this have "t ?i = node_ref (\<nu> (take (Suc d) ?c))"
      using twf assms(7) snoc unfolding tree_wf_def by auto
    ultimately show ?thesis using True idx by auto
  next
    case False
    then have c: "?c = take d ?c @ [?c ! d]" using snoc assms(5) by simp
    have "take d ?c @ [?c ! d] \<notin> P"
    proof
      assume "take d ?c @ [?c ! d] \<in> P"
      with c assms(2) obtain u where "coded sizes u" "strict_prefix ?c (code_bits sizes u)" by (auto simp: inner_nodes_def)
      with prefix_free [OF assms(3,4)] show False by (auto simp: strict_prefix_def)
    qed
    then have "t ?i = int s" using twf assms(7) c assms(4) unfolding tree_wf_def by auto
    then show ?thesis using False idx by auto
  qed
qed

lemma tree_walk_leaf:
  assumes wf: "table_wf sizes {t. coded sizes t} P \<nu> look t tn" and "P \<subseteq> inner_nodes sizes" "sizes_ok sizes" "coded sizes s"
    and "starts_with w (code_bits sizes s)" "10 \<le> d" "d < sizes ! s" "take d (code_bits sizes s) \<in> P"
  shows "tree_walk t (node_ref (\<nu> (take d (code_bits sizes s)))) w d = Inr (s, sizes ! s)"
  using assms(6-8)
proof (induction "sizes ! s - d" arbitrary: d)
  case (Suc n)
  have "bit w d = code_bits sizes s ! d" using assms(5) Suc.prems(2) by (simp add: starts_with_def)
  note step = tree_step [OF assms(1-4) Suc.prems(2,1,3) this]
  have d64: "d < 64" using Suc.prems(2) coded_size [OF assms(3,4)] by simp
  show ?case
  proof (cases "Suc d < sizes ! s")
    case True
    with step Suc.hyps(1) [of "Suc d"] Suc.hyps(2) Suc.prems(1) d64 show ?thesis
      by (subst tree_walk.simps) auto
  next
    case False
    then have "sizes ! s = Suc d" using Suc.prems(2) by simp
    with step d64 show ?thesis by (subst tree_walk.simps) auto
  qed
qed simp

text \<open>The entry for a short code word, and for the first ten bits of a long one.\<close>

lemma look_short:
  assumes wf: "table_wf sizes {t. coded sizes t} P \<nu> look t tn" and "P \<subseteq> inner_nodes sizes" "sizes_ok sizes" "coded sizes s"
    and "starts_with w (code_bits sizes s)" "sizes ! s \<le> 10"
  shows "look (unat (w AND 1023)) = int (sizes ! s * 512 + s)"
proof -
  let ?p = "map (bit w) [0..<10]" and ?c = "code_bits sizes s"
  have lwf: "look_wf sizes {t. coded sizes t} P \<nu> look" using wf by (auto simp: table_wf_def)
  have "take (length ?c) ?p = ?c" using assms(5,6) by (intro nth_equalityI) (auto simp: starts_with_def)
  then have pre: "prefix ?c ?p" by (metis take_is_prefix)
  have "?p \<notin> P"
  proof
    assume "?p \<in> P"
    with assms(2) obtain u where u: "coded sizes u" "strict_prefix ?p (code_bits sizes u)" by (auto simp: inner_nodes_def)
    then have "strict_prefix ?c (code_bits sizes u)" using pre by (meson prefix_order.le_less_trans)
    with prefix_free [OF assms(3,4) u(1)] show False by (auto simp: strict_prefix_def)
  qed
  then show ?thesis using lwf pre assms(4) unfolding look_wf_def look_index by auto
qed

lemma look_long:
  assumes wf: "table_wf sizes {t. coded sizes t} P \<nu> look t tn" and "coded sizes s"
    and "starts_with w (take 10 (code_bits sizes s))" "\<not> sizes ! s \<le> 10"
  shows "look (unat (w AND 1023)) = node_ref (\<nu> (take 10 (code_bits sizes s)))" "take 10 (code_bits sizes s) \<in> P"
proof -
  let ?p = "map (bit w) [0..<10]" and ?c = "code_bits sizes s"
  have lwf: "look_wf sizes {t. coded sizes t} P \<nu> look" and cl: "inner_closed sizes {t. coded sizes t} P"
    using wf by (auto simp: table_wf_def)
  have p: "take 10 ?c = ?p" using assms(3,4) by (intro nth_equalityI) (auto simp: starts_with_def)
  show P: "take 10 ?c \<in> P"
    using cl assms(2,4) by (auto simp: inner_closed_def strict_prefix_def take_is_prefix)
  show "look (unat (w AND 1023)) = node_ref (\<nu> (take 10 ?c))"
    using lwf P p unfolding look_wf_def look_index by auto
qed

text \<open>A look-up finds the symbol whose code word the bit buffer starts with.\<close>

theorem huff_look_code:
  assumes "decodes sizes tbl" "sizes_ok sizes" "coded sizes s" "starts_with w (code_bits sizes s)"
  shows "huff_look tbl w = Inr (s, sizes ! s)"
proof -
  obtain P \<nu> tn where wf: "table_wf sizes {t. coded sizes t} P \<nu> (look_up tbl) (tree tbl) tn" "P \<subseteq> inner_nodes sizes"
    using assms(1) by (auto simp: decodes_def)
  show ?thesis
  proof (cases "sizes ! s \<le> 10")
    case True
    moreover have "s < 512" using assms(2,3) by (auto simp: sizes_ok_def coded_def)
    ultimately show ?thesis using look_short [OF wf assms(2-4)]
      by (simp add: huff_look_def Let_def nat_add_distrib nat_mult_distrib)
  next
    case False
    have "starts_with w (take 10 (code_bits sizes s))" using assms(4) by (simp add: starts_with_def)
    from look_long [OF wf(1) assms(3) this False] tree_walk_leaf [OF wf assms(2-4), of 10] False
    show ?thesis by (simp add: huff_look_def Let_def)
  qed
qed

text \<open>Conversely, a direct entry with a code length names a code word that the index starts with.\<close>

lemma look_up_entry:
  assumes "decodes sizes tbl" "sizes_ok sizes" "look_up tbl (unat (w AND 1023)) = temp" "0 \<le> temp" "nat temp div 512 = l" "0 < l"
  shows "\<exists>s. coded sizes s \<and> sizes ! s = l \<and> l \<le> 10 \<and> starts_with w (code_bits sizes s)"
proof -
  obtain P \<nu> tn where wf: "table_wf sizes {t. coded sizes t} P \<nu> (look_up tbl) (tree tbl) tn" "P \<subseteq> inner_nodes sizes"
    using assms(1) by (auto simp: decodes_def)
  let ?p = "map (bit w) [0..<10]"
  have lwf: "look_wf sizes {t. coded sizes t} P \<nu> (look_up tbl)" using wf(1) by (auto simp: table_wf_def)
  have temp: "look_up tbl (bits_num ?p) = temp" using assms(3) by (simp add: look_index)
  have len: "length ?p = 10" and "temp \<noteq> 0" using assms(5,6) by auto
  moreover have "?p \<notin> P"
  proof
    assume "?p \<in> P"
    with lwf len temp have "temp = node_ref (\<nu> ?p)" unfolding look_wf_def by blast
    with assms(4) show False by simp
  qed
  ultimately obtain s where s: "coded sizes s" "prefix (code_bits sizes s) ?p" "temp = int (sizes ! s * 512 + s)"
    using lwf temp unfolding look_wf_def by (metis mem_Collect_eq)
  moreover have "s < 512" using assms(2) s(1) by (auto simp: sizes_ok_def coded_def)
  ultimately have "sizes ! s = l" using assms(5) by (simp add: nat_add_distrib nat_mult_distrib)
  moreover have "sizes ! s \<le> 10" using prefix_length_le [OF s(2)] by simp
  moreover have "starts_with w (code_bits sizes s)"
  proof -
    obtain zs where zs: "?p = code_bits sizes s @ zs" using s(2) by (auto simp: prefix_def)
    have "bit w i = ?p ! i" if "i < sizes ! s" for i using that \<open>sizes ! s \<le> 10\<close> by simp
    then show ?thesis by (simp add: starts_with_def zs nth_append del: upt_rec_numeral)
  qed
  ultimately show ?thesis using s(1) by blast
qed

section \<open>Properties\<close>

text \<open>
  C17. The Huffman tables decode the canonical code: for every valid list of code lengths and every symbol that has
  a code word, the table that \<open>tinfl_decompress\<close> builds (within the 576 entries of \<open>m_tree\<close>) yields the symbol and
  the length of its code word for every bit buffer that starts with the code word.
\<close>

theorem huffman_table_decodes:
  assumes "sizes_ok sizes" "coded sizes s" "starts_with w (code_bits sizes s)"
  shows "inf_bind (build_table sizes) (\<lambda>tbl. huff_look tbl w) = Inr (s, sizes ! s)"
  using build_table_ok [OF assms(1)] huff_look_code [OF _ assms] by auto

theorem huffman_table_decodes_witness:
  "code_bits [2, 1, 0, 2] 3 = [True, True] \<and>
   inf_bind (build_table [2, 1, 0, 2]) (\<lambda>tbl. huff_look tbl 0xF7) = Inr (3, 2)"
proof -
  have "next_code [2, 1, 0, 2] 16 = 65536"
    using next_code_foldl [of "[2, 1, 0, 2]" 15] by (simp add: upt_rec total_syms_def)
  then have "sizes_ok [2, 1, 0, 2]" by (simp add: sizes_ok_def)
  moreover have c: "code_bits [2, 1, 0, 2] 3 = [True, True]" by code_simp
  moreover have "starts_with 0xF7 (code_bits [2, 1, 0, 2] 3)" unfolding c by (simp add: starts_with_def less_Suc_eq numeral_2_eq_2)
  ultimately show ?thesis using huffman_table_decodes [of "[2, 1, 0, 2]" 3 "0xF7"] by (simp add: coded_def)
qed

end
