(* ===== verification/Inflate.thy ===== *)
theory Inflate
  imports HuffTable
begin

text \<open>
  The inflater of \<^verbatim>\<open>src/deps/miniz/tinfl.c\<close> as the kernel calls it: \<open>tinfl_decompress_mem_to_mem\<close> with
  the flags for a zlib stream and an output buffer that does not wrap, which \<^verbatim>\<open>src/src/kernel/initrd.cc\<close> applies
  to the ramdisk. There is no further input after the buffer, so the coroutine is never resumed: where the
  macros return \<open>HAS_MORE_OUTPUT\<close> or a failure the call ends, and past the end of the input zero bytes are
  read. On this target the bit buffer has 64 bits and unaligned stores are not used.

  The state holds the input that is left, the bit buffer with the number of its valid bits (a 32-bit
  counter, whose wrap-around is written out), and the whole output buffer with the position in it. Reads
  and writes outside the output buffer are faults.

  The theory \<open>Deflate\<close> states the format and shows that every stream of it is decoded to its contents.
\<close>

section \<open>Bits\<close>

record inflater =
  in_rest :: "u8 list"
  num_bits :: nat
  bit_buf :: u64
  out_buf :: "u8 list"
  out_cur :: nat

definition sub32 :: "nat \<Rightarrow> nat \<Rightarrow> nat" where
  "sub32 a b = (a + 2 ^ 32 - b) mod 2 ^ 32"

definition get_byte :: "inflater \<Rightarrow> u8 \<times> inflater" where
  "get_byte st = (case in_rest st of [] \<Rightarrow> (0, st) | c # cs \<Rightarrow> (c, st\<lparr>in_rest := cs\<rparr>))"

definition load_byte :: "inflater \<Rightarrow> inflater" where
  "load_byte st = (case get_byte st of (c, s) \<Rightarrow>
     s\<lparr>bit_buf := bit_buf s OR push_bit (num_bits s) (ucast c), num_bits := num_bits s + 8\<rparr>)"

function need_bits :: "nat \<Rightarrow> inflater \<Rightarrow> inflater" where
  "need_bits n st = (let s = load_byte st in if num_bits s < n then need_bits n s else s)"
  by pat_completeness auto
termination
  by (relation "measure (\<lambda>(n, st). n - num_bits st)")
    (auto simp: load_byte_def get_byte_def Let_def split: list.splits prod.splits)

declare need_bits.simps [simp del]

definition drop_bits :: "nat \<Rightarrow> inflater \<Rightarrow> inflater" where
  "drop_bits n st = st\<lparr>bit_buf := drop_bit n (bit_buf st), num_bits := sub32 (num_bits st) n\<rparr>"

definition skip_bits :: "nat \<Rightarrow> inflater \<Rightarrow> inflater" where
  "skip_bits n st = drop_bits n (if num_bits st < n then need_bits n st else st)"

definition get_bits :: "nat \<Rightarrow> inflater \<Rightarrow> nat \<times> inflater" where
  "get_bits n st = (let s = (if num_bits st < n then need_bits n st else st) in
     (unat (bit_buf s AND (push_bit n 1 - 1)), drop_bits n s))"

section \<open>Symbols\<close>

function fill_walk :: "(nat \<Rightarrow> int) \<Rightarrow> int \<Rightarrow> u64 \<Rightarrow> nat \<Rightarrow> nat \<Rightarrow> int inf" where
  "fill_walk t temp buf code_len nb =
     inf_bind (tree_index (temp - of_bool (bit buf code_len))) (\<lambda>i.
       if t i < 0 \<and> nb \<ge> code_len + 2 then fill_walk t (t i) buf (Suc code_len) nb else Inr (t i))"
  by pat_completeness auto
termination
  by (relation "measure (\<lambda>(t, temp, b, cl, nb). nb - cl)") auto

declare fill_walk.simps [simp del]

text \<open>\<open>TINFL_HUFF_BITBUF_FILL\<close>: one byte at a time, until a code word is complete or 15 bits are there.\<close>

function huff_fill :: "tinfl_huff_table \<Rightarrow> inflater \<Rightarrow> inflater inf" where
  "huff_fill tbl st =
     (let temp = look_up tbl (unat (bit_buf st AND 1023));
          more = (let s = load_byte st in if num_bits s < 15 then huff_fill tbl s else Inr s) in
      if temp \<ge> 0 then
        if nat temp div 512 > 0 \<and> num_bits st \<ge> nat temp div 512 then Inr st else more
      else if num_bits st > 10 then
        inf_bind (fill_walk (tree tbl) temp (bit_buf st) 10 (num_bits st)) (\<lambda>temp'. if temp' \<ge> 0 then Inr st else more)
      else more)"
  by pat_completeness auto
termination
  by (relation "measure (\<lambda>(tbl, st). 15 - num_bits st)")
    (auto simp: load_byte_def get_byte_def Let_def split: list.splits prod.splits)

declare huff_fill.simps [simp del]

definition load_bytes :: "nat \<Rightarrow> inflater \<Rightarrow> inflater" where
  "load_bytes n = load_byte ^^ n"

definition huff_decode :: "tinfl_huff_table \<Rightarrow> inflater \<Rightarrow> (nat \<times> inflater) inf" where
  "huff_decode tbl st =
     inf_bind (if num_bits st < 15 then if length (in_rest st) < 2 then huff_fill tbl st else Inr (load_bytes 2 st)
               else Inr st) (\<lambda>s.
     inf_bind (huff_look tbl (bit_buf s)) (\<lambda>(sym, code_len). Inr (sym, drop_bits code_len s)))"

section \<open>Output\<close>

definition put_byte :: "u8 \<Rightarrow> inflater \<Rightarrow> inflater inf" where
  "put_byte c st =
     (if out_cur st < length (out_buf st)
      then Inr (st\<lparr>out_buf := (out_buf st)[out_cur st := c], out_cur := Suc (out_cur st)\<rparr>)
      else Inl (Fault ''pOut_buf_cur''))"

definition copy_byte :: "nat \<Rightarrow> inflater \<Rightarrow> inflater inf" where
  "copy_byte src st =
     (if src < length (out_buf st) \<and> out_cur st < length (out_buf st) then put_byte (out_buf st ! src) st
      else Inl (Fault ''pOut_buf_cur[0] = pSrc[0]''))"

primrec copy_slow :: "nat \<Rightarrow> nat \<Rightarrow> inflater \<Rightarrow> inflater inf" where
  "copy_slow 0 dist st = Inr st"
| "copy_slow (Suc counter) dist st =
     (if out_cur st \<ge> length (out_buf st) then Inl (Exit HAS_MORE_OUTPUT)
      else inf_bind (copy_byte (out_cur st - dist) st) (copy_slow counter dist))"

text \<open>The loop that copies three bytes at a time; it copies three bytes before it looks at the counter.\<close>

function copy3 :: "int \<Rightarrow> nat \<Rightarrow> inflater \<Rightarrow> inflater inf" where
  "copy3 counter src st =
     inf_bind (copy_byte src st) (\<lambda>s1. inf_bind (copy_byte (src + 1) s1) (\<lambda>s2. inf_bind (copy_byte (src + 2) s2) (\<lambda>s3.
       if counter - 3 > 2 then copy3 (counter - 3) (src + 3) s3
       else if counter - 3 > 0 then
         inf_bind (copy_byte (src + 3) s3) (\<lambda>s4. if counter - 3 > 1 then copy_byte (src + 4) s4 else Inr s4)
       else Inr s3)))"
  by pat_completeness auto
termination
  by (relation "measure (\<lambda>(c, src, st). nat c)") auto

declare copy3.simps [simp del]

definition copy_match :: "nat \<Rightarrow> nat \<Rightarrow> inflater \<Rightarrow> inflater inf" where
  "copy_match dist counter st =
     (if dist > out_cur st then Inl (Exit FAILED)
      else let src = out_cur st - dist in
        if max (out_cur st) src + counter > length (out_buf st) then copy_slow counter dist st
        else copy3 (int counter) src st)"

section \<open>Blocks\<close>

definition s_length_base :: "nat list" where
  "s_length_base = [3,4,5,6,7,8,9,10,11,13,15,17,19,23,27,31,35,43,51,59,67,83,99,115,131,163,195,227,258,0,0]"

definition s_length_extra :: "nat list" where
  "s_length_extra = [0,0,0,0,0,0,0,0,1,1,1,1,2,2,2,2,3,3,3,3,4,4,4,4,5,5,5,5,0,0,0]"

definition s_dist_base :: "nat list" where
  "s_dist_base = [1,2,3,4,5,7,9,13,17,25,33,49,65,97,129,193,257,385,513,769,1025,1537,2049,3073,4097,6145,8193,12289,16385,24577,0,0]"

definition s_dist_extra :: "nat list" where
  "s_dist_extra = [0,0,0,0,1,1,2,2,3,3,4,4,5,5,6,6,7,7,8,8,9,9,10,10,11,11,12,12,13,13,0,0]"

definition s_length_dezigzag :: "nat list" where
  "s_length_dezigzag = [16,17,18,0,8,7,9,6,10,5,11,4,12,3,13,2,14,1,15]"

text \<open>The inner loop: literals until a symbol from 256 on, one by one near the ends of the buffers, else two at a time.\<close>

primrec literals :: "nat \<Rightarrow> tinfl_huff_table \<Rightarrow> inflater \<Rightarrow> (nat \<times> inflater) inf" where
  "literals 0 lt st = Inl (Fault ''fuel'')"
| "literals (Suc fuel) lt st =
     (if length (in_rest st) < 4 \<or> length (out_buf st) - out_cur st < 2 then
        inf_bind (huff_decode lt st) (\<lambda>(counter, s).
          if counter \<ge> 256 then Inr (counter, s)
          else if out_cur s \<ge> length (out_buf s) then Inl (Exit HAS_MORE_OUTPUT)
          else inf_bind (put_byte (of_nat counter) s) (literals fuel lt))
      else
        let s0 = (if num_bits st < 30 then load_bytes 4 st else st) in
        inf_bind (huff_look lt (bit_buf s0)) (\<lambda>(sym, code_len).
          let s1 = drop_bits code_len s0 in
          if bit sym 8 then Inr (sym, s1)
          else inf_bind (huff_look lt (bit_buf s1)) (\<lambda>(sym2, code_len2).
            let s2 = drop_bits code_len2 s1 in
            inf_bind (put_byte (of_nat sym) s2) (\<lambda>s3.
              if bit sym2 8 then Inr (sym2, s3)
              else inf_bind (put_byte (of_nat sym2) s3) (literals fuel lt)))))"

definition do_match :: "tinfl_huff_table \<Rightarrow> nat \<Rightarrow> inflater \<Rightarrow> inflater inf" where
  "do_match dt counter st =
     (if counter - 257 \<ge> 31 then Inl (Fault ''s_length_base'')
      else
        let (extra, s1) = (if s_length_extra ! (counter - 257) > 0 then get_bits (s_length_extra ! (counter - 257)) st else (0, st));
            len = s_length_base ! (counter - 257) + extra in
        inf_bind (huff_decode dt s1) (\<lambda>(d, s2).
          if d \<ge> 32 then Inl (Fault ''s_dist_base'')
          else
            let (dextra, s3) = (if s_dist_extra ! d > 0 then get_bits (s_dist_extra ! d) s2 else (0, s2)) in
            copy_match (s_dist_base ! d + dextra) len s3))"

primrec codes :: "nat \<Rightarrow> tinfl_huff_table \<Rightarrow> tinfl_huff_table \<Rightarrow> inflater \<Rightarrow> inflater inf" where
  "codes 0 lt dt st = Inl (Fault ''fuel'')"
| "codes (Suc fuel) lt dt st =
     inf_bind (literals (Suc (length (out_buf st))) lt st) (\<lambda>(counter, s).
       if counter mod 512 = 256 then Inr s
       else inf_bind (do_match dt (counter mod 512) s) (codes fuel lt dt))"

text \<open>Stored blocks. A byte comes from the bit buffer while it holds bits.\<close>

definition raw_byte :: "inflater \<Rightarrow> nat \<times> inflater" where
  "raw_byte st = (if num_bits st \<noteq> 0 then get_bits 8 st else case get_byte st of (c, s) \<Rightarrow> (unat c, s))"

fun stored_bits :: "nat \<Rightarrow> inflater \<Rightarrow> (nat \<times> inflater) inf" where
  "stored_bits 0 st = Inr (0, st)"
| "stored_bits (Suc counter) st =
     (if num_bits st = 0 then Inr (Suc counter, st)
      else case get_bits 8 st of (d, s) \<Rightarrow>
        if out_cur s \<ge> length (out_buf s) then Inl (Exit HAS_MORE_OUTPUT)
        else inf_bind (put_byte (of_nat d) s) (stored_bits counter))"

definition mem_copy :: "nat \<Rightarrow> inflater \<Rightarrow> inflater" where
  "mem_copy n st = st\<lparr>in_rest := drop n (in_rest st), out_cur := out_cur st + n,
     out_buf := take (out_cur st) (out_buf st) @ take n (in_rest st) @ drop (out_cur st + n) (out_buf st)\<rparr>"

function stored_raw :: "nat \<Rightarrow> inflater \<Rightarrow> inflater inf" where
  "stored_raw counter st =
     (if counter = 0 then Inr st
      else if out_cur st \<ge> length (out_buf st) then Inl (Exit HAS_MORE_OUTPUT)
      else if in_rest st = [] then Inl (Exit FAILED)
      else let n = min (min (length (out_buf st) - out_cur st) (length (in_rest st))) counter in
        stored_raw (counter - n) (mem_copy n st))"
  by pat_completeness auto
termination
  by (relation "measure (\<lambda>(c, st). c)") auto

declare stored_raw.simps [simp del]

definition stored_block :: "inflater \<Rightarrow> inflater inf" where
  "stored_block st =
     (let s0 = skip_bits (num_bits st mod 8) st;
          (h0, s1) = raw_byte s0; (h1, s2) = raw_byte s1; (h2, s3) = raw_byte s2; (h3, s4) = raw_byte s3;
          counter = h0 + h1 * 256 in
      if counter \<noteq> 0xFFFF - (h2 + h3 * 256) then Inl (Exit FAILED)
      else inf_bind (stored_bits counter s4) (\<lambda>(c, s). stored_raw c s))"

text \<open>Dynamic blocks: the code lengths, first those of the code for code lengths.\<close>

primrec read_cl_sizes :: "nat list \<Rightarrow> nat list \<Rightarrow> inflater \<Rightarrow> nat list \<times> inflater" where
  "read_cl_sizes [] sizes st = (sizes, st)"
| "read_cl_sizes (i # is) sizes st = (case get_bits 3 st of (s, st') \<Rightarrow> read_cl_sizes is (sizes[i := s]) st')"

definition rep_extra :: "nat \<Rightarrow> nat" where
  "rep_extra d = [2, 3, 7] ! (d - 16)"

definition rep_base :: "nat \<Rightarrow> nat" where
  "rep_base d = [3, 3, 11] ! (d - 16)"

lemma rep_base_pos: "\<not> 2 < d - 16 \<Longrightarrow> 0 < rep_base d"
  by (auto simp: rep_base_def not_less le_Suc_eq numeral_2_eq_2)

function read_lens :: "tinfl_huff_table \<Rightarrow> nat \<Rightarrow> nat list \<Rightarrow> inflater \<Rightarrow> (nat list \<times> inflater) inf" where
  "read_lens tbl n_total lens st =
     (if length lens \<ge> n_total then Inr (lens, st)
      else inf_bind (huff_decode tbl st) (\<lambda>(d, s1).
        if d < 16 then read_lens tbl n_total (lens @ [d]) s1
        else if d = 16 \<and> lens = [] then Inl (Exit FAILED)
        else if d - 16 > 2 then Inl (Fault ''num_extra'')
        else case get_bits (rep_extra d) s1 of (e, s2) \<Rightarrow>
          let n = e + rep_base d in
          if length lens + n > 288 + 32 + 137 then Inl (Fault ''m_len_codes'')
          else read_lens tbl n_total (lens @ replicate n (if d = 16 then last lens else 0)) s2))"
  by pat_completeness auto
termination
  by (relation "measure (\<lambda>(tbl, n_total, lens, st). n_total - length lens)")
    (auto simp: Let_def dest!: rep_base_pos)

declare read_lens.simps [simp del]

definition fixed_sizes :: "nat list" where
  "fixed_sizes = replicate 144 8 @ replicate 112 9 @ replicate 24 7 @ replicate 8 8"

definition huff_block :: "nat list \<Rightarrow> nat list \<Rightarrow> inflater \<Rightarrow> inflater inf" where
  "huff_block sizes0 sizes1 st =
     inf_bind (build_table sizes1) (\<lambda>dt. inf_bind (build_table sizes0) (\<lambda>lt.
       codes (Suc (length (out_buf st))) lt dt st))"

definition dynamic_block :: "inflater \<Rightarrow> inflater inf" where
  "dynamic_block st =
     (let (n0, s1) = get_bits 5 st; (n1, s2) = get_bits 5 s1; (n2, s3) = get_bits 4 s2;
          (cl, s4) = read_cl_sizes (take (n2 + 4) s_length_dezigzag) (replicate 19 0) s3 in
      inf_bind (build_table cl) (\<lambda>ct.
      inf_bind (read_lens ct (n0 + 257 + (n1 + 1)) [] s4) (\<lambda>(lens, s5).
        if length lens \<noteq> n0 + 257 + (n1 + 1) then Inl (Exit FAILED)
        else huff_block (take (n0 + 257) lens) (drop (n0 + 257) lens) s5)))"

definition one_block :: "inflater \<Rightarrow> (bool \<times> inflater) inf" where
  "one_block st =
     (case get_bits 3 st of (hdr, s) \<Rightarrow>
        inf_bind (if hdr div 2 = 0 then stored_block s
                  else if hdr div 2 = 3 then Inl (Exit FAILED)
                  else if hdr div 2 = 1 then huff_block fixed_sizes (replicate 32 5) s
                  else dynamic_block s) (\<lambda>s'. Inr (odd hdr, s')))"

primrec blocks :: "nat \<Rightarrow> inflater \<Rightarrow> inflater inf" where
  "blocks 0 st = Inl (Fault ''fuel'')"
| "blocks (Suc fuel) st = inf_bind (one_block st) (\<lambda>(fin, s). if fin then Inr s else blocks fuel s)"

section \<open>The zlib stream\<close>

primrec adler_block :: "u8 list \<Rightarrow> u32 \<times> u32 \<Rightarrow> u32 \<times> u32" where
  "adler_block [] s = s"
| "adler_block (c # cs) s = adler_block cs (fst s + ucast c, snd s + (fst s + ucast c))"

text \<open>The first block takes the length modulo 5552, every later one 5552 bytes.\<close>

function adler_loop :: "u8 list \<Rightarrow> nat \<Rightarrow> u32 \<times> u32 \<Rightarrow> u32 \<times> u32" where
  "adler_loop ptr block_len s =
     (if ptr = [] then s
      else case adler_block (take block_len ptr) s of (s1, s2) \<Rightarrow>
        adler_loop (drop block_len ptr) 5552 (s1 mod 65521, s2 mod 65521))"
  by pat_completeness auto
termination
  by (relation "measures [\<lambda>(p, b, s). length p, \<lambda>(p, b, s). if b = 0 then 1 else 0]") auto

declare adler_loop.simps [simp del]

definition adler_of :: "u8 list \<Rightarrow> u32 \<Rightarrow> u32" where
  "adler_of bs check =
     (case adler_loop bs (length bs mod 5552) (check AND 0xffff, drop_bit 16 check) of (s1, s2) \<Rightarrow> push_bit 16 s2 + s1)"

definition zlib_header_bad :: "u8 \<Rightarrow> u8 \<Rightarrow> bool" where
  "zlib_header_bad zhdr0 zhdr1 \<longleftrightarrow>
     (unat zhdr0 * 256 + unat zhdr1) mod 31 \<noteq> 0 \<or> zhdr1 AND 32 \<noteq> 0 \<or> zhdr0 AND 15 \<noteq> 8"

primrec read_adler :: "nat \<Rightarrow> u32 \<Rightarrow> inflater \<Rightarrow> u32 \<times> inflater" where
  "read_adler 0 z st = (z, st)"
| "read_adler (Suc n) z st = (case raw_byte st of (b, s) \<Rightarrow> read_adler n (push_bit 8 z OR of_nat b) s)"

definition tinfl_decompress :: "u8 list \<Rightarrow> u8 list \<Rightarrow> (tinfl_status \<times> inflater) inf" where
  "tinfl_decompress out src =
     (let st = \<lparr>in_rest = src, num_bits = 0, bit_buf = 0, out_buf = out, out_cur = 0\<rparr>;
          (zhdr0, s1) = get_byte st; (zhdr1, s2) = get_byte s1 in
      if zlib_header_bad zhdr0 zhdr1 then Inl (Exit FAILED)
      else inf_bind (blocks (8 * length src + 8) s2) (\<lambda>s3.
        let s4 = skip_bits (num_bits s3 mod 8) s3; (z_adler32, s5) = read_adler 4 1 s4 in
        if adler_of (take (out_cur s5) (out_buf s5)) 1 \<noteq> z_adler32 then Inr (ADLER32_MISMATCH, s5)
        else Inr (DONE, s5)))"

text \<open>The size that is returned and the buffer; \<open>None\<close> is \<open>TINFL_DECOMPRESS_MEM_TO_MEM_FAILED\<close>.\<close>

definition tinfl_decompress_mem_to_mem :: "u8 list \<Rightarrow> u8 list \<Rightarrow> (nat \<times> u8 list) option res" where
  "tinfl_decompress_mem_to_mem out src =
     (case tinfl_decompress out src of
        Inl (Fault e) \<Rightarrow> Inl (OutOfBounds e)
      | Inl (Exit _) \<Rightarrow> Inr None
      | Inr (status, s) \<Rightarrow> if status = DONE then Inr (Some (out_cur s, out_buf s)) else Inr None)"

end
