(* ===== verification/Deflate.thy ===== *)
theory Deflate
  imports Inflate
begin

text \<open>
  The deflate format (RFC 1951) and the decoding of its blocks. The format is given as an encoder: literals and
  matches (\<open>lz_token\<close>), blocks of them with the fixed or with transmitted codes, stored blocks, and the bits of
  each. \<open>at_bits cap st off bs out\<close> relates a state of the inflater to the bits that are still to be read and to
  the bytes that have been written; for every step of the inflater there is a lemma that it consumes the
  bits of one construct and appends its contents. The fast and the slow paths (symbols looked up two
  at a time or one at a time, matches copied by three bytes or byte by byte, stored bytes taken from the bit
  buffer or copied) meet the same lemmas.
\<close>

section \<open>The bits that are left\<close>

definition byte_bits :: "u8 \<Rightarrow> bool list" where
  "byte_bits b = map (bit b) [0..<8]"

definition bytes_bits :: "u8 list \<Rightarrow> bool list" where
  "bytes_bits bs = concat (map byte_bits bs)"

definition bits_left :: "inflater \<Rightarrow> bool list" where
  "bits_left st = map (bit (bit_buf st)) [0..<num_bits st] @ bytes_bits (in_rest st)"

text \<open>
  The state stands \<open>off\<close> bits into the input, the bits that follow start with \<open>bs\<close>, and \<open>out\<close> has been written
  to a buffer of \<open>cap\<close> bytes.
\<close>

definition buffered :: "inflater \<Rightarrow> bool" where
  "buffered st \<longleftrightarrow> num_bits st \<le> 61 \<and> (\<forall>i \<ge> num_bits st. \<not> bit (bit_buf st) i)"

definition at_bits :: "nat \<Rightarrow> inflater \<Rightarrow> nat \<Rightarrow> bool list \<Rightarrow> u8 list \<Rightarrow> bool" where
  "at_bits cap st off bs out \<longleftrightarrow> buffered st \<and> prefix bs (bits_left st) \<and> (off + num_bits st) mod 8 = 0 \<and>
     length (out_buf st) = cap \<and> out_cur st = length out \<and> prefix out (out_buf st)"

lemma length_byte_bits [simp]: "length (byte_bits b) = 8"
  by (simp add: byte_bits_def)

lemma bytes_bits_simps [simp]:
  "bytes_bits [] = []"
  "bytes_bits (b # bs) = byte_bits b @ bytes_bits bs"
  "bytes_bits (bs @ cs) = bytes_bits bs @ bytes_bits cs"
  by (simp_all add: bytes_bits_def)

lemma length_bytes_bits [simp]: "length (bytes_bits bs) = 8 * length bs"
  by (induction bs) simp_all

lemma readyD:
  assumes "at_bits cap st off bs out"
  shows "buffered st" "prefix bs (bits_left st)" "(off + num_bits st) mod 8 = 0" "length (out_buf st) = cap"
    "out_cur st = length out" "prefix out (out_buf st)" "length out \<le> cap"
  using assms prefix_length_le [of out "out_buf st"] by (auto simp: at_bits_def)

subsection \<open>Loading\<close>

lemma load_byte_bits:
  assumes "num_bits st \<le> 53" "\<forall>i \<ge> num_bits st. \<not> bit (bit_buf st) i"
  defines "c \<equiv> fst (get_byte st)"
  shows "bit (bit_buf (load_byte st)) i \<longleftrightarrow> bit (bit_buf st) i \<or> num_bits st \<le> i \<and> i < num_bits st + 8 \<and> bit c (i - num_bits st)"
proof (cases "i < 64")
  case True
  have "i < num_bits st + 8" if "bit c (i - num_bits st)" using bit_imp_le_length [OF that] by simp
  with True show ?thesis
    by (auto simp: load_byte_def c_def get_byte_def bit_or_iff bit_push_bit_iff bit_ucast_iff split: list.splits)
next
  case False
  then show ?thesis using assms(1) bit_imp_le_length [of "bit_buf (load_byte st)" i] bit_imp_le_length [of "bit_buf st" i] by auto
qed

lemma load_byte_state [simp]:
  "num_bits (load_byte st) = num_bits st + 8" "in_rest (load_byte st) = tl (in_rest st)"
  "out_buf (load_byte st) = out_buf st" "out_cur (load_byte st) = out_cur st"
  by (auto simp: load_byte_def get_byte_def split: list.splits)

lemma load_byte_buffered:
  assumes "buffered st" "num_bits st \<le> 53"
  shows "buffered (load_byte st)"
  using assms load_byte_bits [of st] by (auto simp: buffered_def)

lemma load_byte_stream:
  assumes "buffered st" "num_bits st \<le> 53"
  shows "prefix (bits_left st) (bits_left (load_byte st))"
proof -
  have b: "map (bit (bit_buf (load_byte st))) [0..<num_bits st + 8]
      = map (bit (bit_buf st)) [0..<num_bits st] @ byte_bits (fst (get_byte st))"
  proof (rule nth_equalityI)
    fix i assume "i < length (map (bit (bit_buf (load_byte st))) [0..<num_bits st + 8])"
    then show "map (bit (bit_buf (load_byte st))) [0..<num_bits st + 8] ! i
        = (map (bit (bit_buf st)) [0..<num_bits st] @ byte_bits (fst (get_byte st))) ! i"
      using assms by (auto simp: load_byte_bits buffered_def nth_append byte_bits_def)
  qed simp
  show ?thesis
  proof (cases "in_rest st")
    case Nil
    then show ?thesis using b by (simp add: bits_left_def del: upt_conv_Cons)
  next
    case (Cons c cs)
    then show ?thesis using b by (simp add: bits_left_def get_byte_def)
  qed
qed

lemma load_byte_ready:
  assumes "at_bits cap st off bs out" "num_bits st \<le> 53"
  shows "at_bits cap (load_byte st) off bs out"
proof -
  have "prefix bs (bits_left (load_byte st))"
    using readyD(1,2) [OF assms(1)] load_byte_stream [OF _ assms(2)] by (meson prefix_order.trans)
  then show ?thesis
    using assms load_byte_buffered [of st] by (simp add: at_bits_def flip: add.assoc)
qed

lemma load_bytes_ready:
  "at_bits cap st off bs out \<Longrightarrow> num_bits st + 8 * n \<le> 61 \<Longrightarrow>
   at_bits cap (load_bytes n st) off bs out \<and> num_bits (load_bytes n st) = num_bits st + 8 * n"
proof (induction n)
  case (Suc n)
  then show ?case using load_byte_ready [of cap "load_bytes n st" off bs out] by (simp add: load_bytes_def)
qed (simp add: load_bytes_def)

lemma need_bits_ready:
  "at_bits cap st off bs out \<Longrightarrow> num_bits st < n \<Longrightarrow> n \<le> 16 \<Longrightarrow>
   at_bits cap (need_bits n st) off bs out \<and> n \<le> num_bits (need_bits n st)"
proof (induction n st rule: need_bits.induct)
  case (1 n st)
  have r: "at_bits cap (load_byte st) off bs out" using 1 by (intro load_byte_ready) simp_all
  show ?case
    by (subst (1 2) need_bits.simps) (use 1 r in \<open>auto simp: Let_def not_less\<close>)
qed

subsection \<open>Consuming\<close>

lemma ready_starts_with:
  assumes "at_bits cap st off (bs @ cs) out" "length bs \<le> num_bits st"
  shows "starts_with (bit_buf st) bs"
  unfolding starts_with_def
proof (intro allI impI)
  fix i assume i: "i < length bs"
  obtain zs where "bits_left st = bs @ zs" using readyD(2) [OF assms(1)] by (auto simp: prefix_def)
  then have "bits_left st ! i = bs ! i" using i by (simp add: nth_append)
  then show "bit (bit_buf st) i = bs ! i" using i assms(2) by (simp add: bits_left_def nth_append)
qed

lemma sub32_le:
  assumes "n \<le> m" "m < 2 ^ 32"
  shows "sub32 m n = m - n"
proof -
  have "m + 2 ^ 32 - n = m - n + 2 ^ 32" using assms(1) by simp
  then show ?thesis using assms(2) by (simp only: sub32_def mod_add_self2) simp
qed

lemma drop_bits_ready:
  assumes "at_bits cap st off (bs @ cs) out" "length bs = n" "n \<le> num_bits st"
  shows "at_bits cap (drop_bits n st) (off + n) cs out"
proof -
  note r = readyD [OF assms(1)]
  have nb: "num_bits (drop_bits n st) = num_bits st - n"
    using assms(3) r(1) by (simp add: drop_bits_def sub32_le buffered_def)
  have "bits_left (drop_bits n st) = drop n (bits_left st)"
  proof -
    have "map (bit (bit_buf (drop_bits n st))) [0..<num_bits st - n] = drop n (map (bit (bit_buf st)) [0..<num_bits st])"
      by (rule nth_equalityI) (simp_all add: drop_bits_def bit_drop_bit_eq add.commute)
    with assms(3) show ?thesis unfolding bits_left_def nb by (simp add: drop_bits_def)
  qed
  then have "prefix cs (bits_left (drop_bits n st))" using r(2) assms(2) by (auto simp: prefix_def)
  moreover have "buffered (drop_bits n st)"
    using r(1) assms(3) unfolding buffered_def nb by (auto simp: drop_bits_def bit_drop_bit_eq)
  moreover have "(off + n + num_bits (drop_bits n st)) mod 8 = 0" using r(3) assms(3) nb by simp
  ultimately show ?thesis using r by (simp add: at_bits_def drop_bits_def)
qed

lemma get_bits_ready:
  assumes "at_bits cap st off (bs @ cs) out" "length bs = n" "n \<le> 16"
  shows "\<exists>st'. get_bits n st = (bits_num bs, st') \<and> at_bits cap st' (off + n) cs out"
proof -
  define s where "s = (if num_bits st < n then need_bits n st else st)"
  have s: "at_bits cap s off (bs @ cs) out" "n \<le> num_bits s"
    using assms need_bits_ready [of cap st off "bs @ cs" out n] by (auto simp: s_def)
  have "bit_buf s AND (push_bit n 1 - 1) = take_bit n (bit_buf s)"
    by (simp add: take_bit_eq_mask mask_eq_exp_minus_1 push_bit_eq_mult)
  moreover have "unat (take_bit n (bit_buf s)) = bits_num bs"
  proof (rule bit_eqI)
    fix i
    show "bit (unat (take_bit n (bit_buf s))) i \<longleftrightarrow> bit (bits_num bs) i"
      using ready_starts_with [OF s(1)] s(2) assms(2,3)
      by (auto simp: bit_unsigned_iff bit_take_bit_iff bit_bits_num starts_with_def)
  qed
  ultimately have "get_bits n st = (bits_num bs, drop_bits n s)"
    by (simp add: get_bits_def s_def Let_def)
  then show ?thesis using drop_bits_ready [OF s(1) assms(2) s(2)] by blast
qed

lemma get_bits_num:
  assumes "at_bits cap st off (lsb_bits n v @ cs) out" "v < 2 ^ n" "n \<le> 16"
  shows "\<exists>st'. get_bits n st = (v, st') \<and> at_bits cap st' (off + n) cs out"
  using get_bits_ready [OF assms(1) _ assms(3)] assms(2) by (simp add: take_bit_nat_eq_self)

lemma skip_bits_ready:
  assumes "at_bits cap st off (bs @ cs) out" "length bs = n" "n \<le> 16"
  shows "at_bits cap (skip_bits n st) (off + n) cs out"
proof -
  define s where "s = (if num_bits st < n then need_bits n st else st)"
  have s: "at_bits cap s off (bs @ cs) out" "n \<le> num_bits s"
    using assms need_bits_ready [of cap st off "bs @ cs" out n] by (auto simp: s_def)
  show ?thesis using drop_bits_ready [OF s(1) assms(2) s(2)] by (simp add: skip_bits_def s_def)
qed

section \<open>Symbols\<close>

text \<open>
  \<open>fill_walk\<close> goes down the tree as far as there are bits. It ends at a symbol only if the code word is in
  the buffer.
\<close>

lemma fill_walk_prefix:
  assumes wf: "table_wf sizes {t. coded sizes t} P \<nu> look t tn" and "P \<subseteq> inner_nodes sizes" "sizes_ok sizes" "coded sizes s"
    and "\<And>i. i < sizes ! s \<Longrightarrow> i < nb \<Longrightarrow> bit w i = code_bits sizes s ! i"
    and "10 \<le> d" "d < sizes ! s" "d < nb" "take d (code_bits sizes s) \<in> P"
  shows "\<exists>temp. fill_walk t (node_ref (\<nu> (take d (code_bits sizes s)))) w d nb = Inr temp \<and> (0 \<le> temp \<longrightarrow> sizes ! s \<le> nb)"
  using assms(6-9)
proof (induction "sizes ! s - d" arbitrary: d)
  case (Suc n)
  note step = tree_step [OF assms(1-4) Suc.prems(2,1,4) assms(5) [OF Suc.prems(2,3)]]
  show ?case
  proof (cases "Suc d < sizes ! s")
    case True
    show ?thesis
    proof (cases "d + 2 \<le> nb")
      case nb: True
      from step True nb Suc.hyps(1) [of "Suc d"] Suc.hyps(2) Suc.prems(1) show ?thesis
        by (subst fill_walk.simps) auto
    next
      case False
      with step True show ?thesis by (subst fill_walk.simps) (auto simp: not_le [symmetric])
    qed
  next
    case False
    with step Suc.prems(3) show ?thesis by (subst fill_walk.simps) auto
  qed
qed simp

lemma bit_stream: "i < num_bits st \<Longrightarrow> bit (bit_buf st) i = bits_left st ! i"
  by (simp add: bits_left_def nth_append)

lemma ready_bit:
  assumes "at_bits cap st off (bs @ cs) out" "i < length bs" "i < num_bits st"
  shows "bit (bit_buf st) i = bs ! i"
  using readyD(2) [OF assms(1)] assms(2,3) by (auto simp: bit_stream prefix_def nth_append)

text \<open>Both tests of \<open>TINFL_HUFF_BITBUF_FILL\<close> succeed only when the code word is in the buffer.\<close>

lemma direct_entry_fits:
  assumes "decodes sizes tbl" "sizes_ok sizes" "coded sizes s" "at_bits cap st off (code_bits sizes s @ cs) out"
    and temp: "look_up tbl (unat (bit_buf st AND 1023)) = temp" "0 \<le> temp" "0 < nat temp div 512" "nat temp div 512 \<le> num_bits st"
  shows "sizes ! s \<le> num_bits st"
proof -
  obtain u where u: "coded sizes u" "sizes ! u = nat temp div 512" "starts_with (bit_buf st) (code_bits sizes u)"
    using look_up_entry [OF assms(1,2) temp(1,2) refl temp(3)] by blast
  have "num_bits st \<le> length (bits_left st)" by (simp add: bits_left_def)
  then have "take (sizes ! u) (bits_left st) = code_bits sizes u"
    using u temp(4) by (intro nth_equalityI) (auto simp: starts_with_def bit_stream)
  then have "prefix (code_bits sizes u) (bits_left st)" by (metis take_is_prefix)
  moreover have "prefix (code_bits sizes s) (bits_left st)" using readyD(2) [OF assms(4)] by (rule append_prefixD)
  ultimately have "prefix (code_bits sizes u) (code_bits sizes s) \<or> prefix (code_bits sizes s) (code_bits sizes u)"
    by (meson prefix_same_cases)
  then have "u = s" using prefix_free [OF assms(2,3) u(1)] prefix_free [OF assms(2) u(1) assms(3)] by auto
  then show ?thesis using u(2) temp(4) by simp
qed

lemma tree_entry_fits:
  assumes "decodes sizes tbl" "sizes_ok sizes" "coded sizes s" "at_bits cap st off (code_bits sizes s @ cs) out"
    and temp: "look_up tbl (unat (bit_buf st AND 1023)) = temp" "\<not> 0 \<le> temp" "10 < num_bits st"
  shows "\<exists>temp'. fill_walk (tree tbl) temp (bit_buf st) 10 (num_bits st) = Inr temp' \<and> (0 \<le> temp' \<longrightarrow> sizes ! s \<le> num_bits st)"
proof -
  obtain P \<nu> tn where wf: "table_wf sizes {t. coded sizes t} P \<nu> (look_up tbl) (tree tbl) tn" "P \<subseteq> inner_nodes sizes"
    using assms(1) by (auto simp: decodes_def)
  have bitc: "bit (bit_buf st) i = code_bits sizes s ! i" if "i < sizes ! s" "i < num_bits st" for i
    using ready_bit [OF assms(4)] that by simp
  have long: "\<not> sizes ! s \<le> 10"
  proof
    assume short: "sizes ! s \<le> 10"
    then have "starts_with (bit_buf st) (code_bits sizes s)" using temp(3) bitc by (simp add: starts_with_def)
    from look_short [OF wf assms(2,3) this short] temp(1,2) show False by simp
  qed
  moreover have "starts_with (bit_buf st) (take 10 (code_bits sizes s))"
    using temp(3) bitc long by (simp add: starts_with_def)
  ultimately have n: "temp = node_ref (\<nu> (take 10 (code_bits sizes s)))" "take 10 (code_bits sizes s) \<in> P"
    using look_long [OF wf(1) assms(3)] temp(1) by simp_all
  show ?thesis unfolding n(1) by (rule fill_walk_prefix [OF wf assms(2,3)]) (use n long temp(3) bitc in auto)
qed

lemma huff_fill_ready:
  assumes "decodes sizes tbl" "sizes_ok sizes" "coded sizes s"
  shows "at_bits cap st off (code_bits sizes s @ cs) out \<Longrightarrow> num_bits st < 15 \<Longrightarrow>
    \<exists>st'. huff_fill tbl st = Inr st' \<and> at_bits cap st' off (code_bits sizes s @ cs) out \<and> sizes ! s \<le> num_bits st'"
proof (induction "15 - num_bits st" arbitrary: st rule: less_induct)
  case less
  define more where "more = (if num_bits (load_byte st) < 15 then huff_fill tbl (load_byte st) else Inr (load_byte st))"
  define temp where "temp = look_up tbl (unat (bit_buf st AND 1023))"
  have eq: "huff_fill tbl st =
     (if temp \<ge> 0 then if nat temp div 512 > 0 \<and> num_bits st \<ge> nat temp div 512 then Inr st else more
      else if num_bits st > 10 then
        inf_bind (fill_walk (tree tbl) temp (bit_buf st) 10 (num_bits st)) (\<lambda>temp'. if temp' \<ge> 0 then Inr st else more)
      else more)"
    unfolding temp_def more_def by (subst huff_fill.simps) (simp only: Let_def)
  have "at_bits cap (load_byte st) off (code_bits sizes s @ cs) out" using less.prems by (intro load_byte_ready) simp_all
  moreover have "sizes ! s \<le> 15" using coded_size [OF assms(2,3)] by simp
  ultimately have more: "\<exists>st'. more = Inr st' \<and> at_bits cap st' off (code_bits sizes s @ cs) out \<and> sizes ! s \<le> num_bits st'"
    using less.hyps [of "load_byte st"] less.prems(2) by (auto simp: more_def)
  show ?case
  proof (cases "0 \<le> temp")
    case True
    then show ?thesis using direct_entry_fits [OF assms less.prems(1) temp_def [symmetric]] eq more less.prems(1) by auto
  next
    case False
    then show ?thesis using tree_entry_fits [OF assms less.prems(1) temp_def [symmetric]] eq more less.prems(1)
      by (cases "num_bits st > 10") auto
  qed
qed

theorem huff_decode_ready:
  assumes "decodes sizes tbl" "sizes_ok sizes" "coded sizes s" "at_bits cap st off (code_bits sizes s @ cs) out"
  shows "\<exists>st'. huff_decode tbl st = Inr (s, st') \<and> at_bits cap st' (off + sizes ! s) cs out"
proof -
  have "\<exists>s1. (if num_bits st < 15 then if length (in_rest st) < 2 then huff_fill tbl st else Inr (load_bytes 2 st) else Inr st) = Inr s1
      \<and> at_bits cap s1 off (code_bits sizes s @ cs) out \<and> sizes ! s \<le> num_bits s1"
    using coded_size [OF assms(2,3)] assms(4) huff_fill_ready [OF assms(1-4)] load_bytes_ready [OF assms(4), of 2]
    by auto
  then obtain s1 where s1: "huff_decode tbl st = inf_bind (huff_look tbl (bit_buf s1)) (\<lambda>(sym, code_len). Inr (sym, drop_bits code_len s1))"
    "at_bits cap s1 off (code_bits sizes s @ cs) out" "sizes ! s \<le> num_bits s1"
    by (auto simp: huff_decode_def)
  moreover have "huff_look tbl (bit_buf s1) = Inr (s, sizes ! s)"
    using huff_look_code [OF assms(1-3)] ready_starts_with [OF s1(2)] s1(3) by simp
  ultimately show ?thesis using drop_bits_ready [OF s1(2)] by simp
qed

section \<open>Output\<close>

lemma put_byte_ready:
  assumes "at_bits cap st off bs out" "length out < cap"
  shows "\<exists>st'. put_byte c st = Inr st' \<and> at_bits cap st' off bs (out @ [c])"
proof -
  note r = readyD [OF assms(1)]
  obtain zs where zs: "out_buf st = out @ zs" using r(6) by (auto simp: prefix_def)
  then obtain z zs' where "out_buf st = out @ z # zs'" using assms(2) r(4) by (cases zs) auto
  then show ?thesis using r assms(2) by (auto simp: put_byte_def at_bits_def buffered_def bits_left_def)
qed

text \<open>A match repeats, byte by byte, what stands \<open>dist\<close> bytes back.\<close>

primrec lz_copy :: "nat \<Rightarrow> nat \<Rightarrow> u8 list \<Rightarrow> u8 list" where
  "lz_copy dist 0 out = out"
| "lz_copy dist (Suc n) out = lz_copy dist n (out @ [out ! (length out - dist)])"

lemma length_lz_copy [simp]: "length (lz_copy dist n out) = length out + n"
  by (induction n arbitrary: out) simp_all

lemma prefix_lz_copy: "prefix out (lz_copy dist n out)"
proof (induction n arbitrary: out)
  case (Suc n)
  then show ?case by (metis append_prefixD lz_copy.simps(2))
qed simp

lemma copy_byte_ready:
  assumes "at_bits cap st off bs out" "length out < cap" "src = length out - dist" "0 < dist" "dist \<le> length out"
  shows "\<exists>st'. copy_byte src st = Inr st' \<and> at_bits cap st' off bs (out @ [out ! src])"
proof -
  note r = readyD [OF assms(1)]
  have src: "src < length out" using assms(3-5) by simp
  obtain zs where zs: "out_buf st = out @ zs" using r(6) by (auto simp: prefix_def)
  then have "copy_byte src st = put_byte (out ! src) st" using src r assms(2) by (simp add: copy_byte_def nth_append)
  then show ?thesis using put_byte_ready [OF assms(1,2)] by simp
qed

lemma copy_slow_ready:
  assumes "0 < dist"
  shows "at_bits cap st off bs out \<Longrightarrow> length out + n \<le> cap \<Longrightarrow> dist \<le> length out \<Longrightarrow>
    \<exists>st'. copy_slow n dist st = Inr st' \<and> at_bits cap st' off bs (lz_copy dist n out)"
proof (induction n arbitrary: st out)
  case (Suc n)
  obtain s1 where s1: "copy_byte (length out - dist) st = Inr s1" "at_bits cap s1 off bs (out @ [out ! (length out - dist)])"
    using copy_byte_ready [OF Suc.prems(1) _ refl assms Suc.prems(3)] Suc.prems(2) by auto
  then show ?case using Suc.IH [OF s1(2)] Suc.prems readyD [OF Suc.prems(1)] by simp
qed simp

lemma lz_copy_snoc: "lz_copy dist (Suc k) out = lz_copy dist k out @ [lz_copy dist k out ! (length out + k - dist)]"
proof (induction k arbitrary: out)
  case (Suc k)
  show ?case using Suc [of "out @ [out ! (length out - dist)]"] by (simp del: append_assoc)
qed simp

lemma lz_copy_add: "lz_copy dist (m + n) out = lz_copy dist n (lz_copy dist m out)"
  by (induction m arbitrary: out) simp_all

lemma copy_byte_lz:
  assumes "at_bits cap st off bs (lz_copy dist k out)" "length out + k < cap" "0 < dist" "dist \<le> length out"
  shows "\<exists>st'. copy_byte (length out - dist + k) st = Inr st' \<and> at_bits cap st' off bs (lz_copy dist (Suc k) out)"
  using copy_byte_ready [OF assms(1) _ _ assms(3), of "length out - dist + k"] assms(2,4) unfolding lz_copy_snoc by simp

lemma copy3_ready:
  assumes "0 < dist"
  shows "at_bits cap st off bs out \<Longrightarrow> length out + n \<le> cap \<Longrightarrow> dist \<le> length out \<Longrightarrow> 3 \<le> n \<Longrightarrow>
    \<exists>st'. copy3 (int n) (length out - dist) st = Inr st' \<and> at_bits cap st' off bs (lz_copy dist n out)"
proof (induction n arbitrary: st out rule: less_induct)
  case (less n)
  let ?src = "length out - dist"
  note step = copy_byte_lz [OF _ _ assms less.prems(3)]
  obtain s1 where s1: "copy_byte ?src st = Inr s1" "at_bits cap s1 off bs (lz_copy dist (Suc 0) out)"
    using step [of cap st off bs 0] less.prems by auto
  obtain s2 where s2: "copy_byte (?src + 1) s1 = Inr s2" "at_bits cap s2 off bs (lz_copy dist (Suc 1) out)"
    using step [of cap s1 off bs 1] s1(2) less.prems by auto
  obtain s3 where s3: "copy_byte (?src + 2) s2 = Inr s3" "at_bits cap s3 off bs (lz_copy dist (Suc 2) out)"
    using step [of cap s2 off bs 2] s2(2) less.prems by (auto simp: numeral_2_eq_2)
  have eq: "copy3 (int n) ?src st =
      (if 2 < int n - 3 then copy3 (int n - 3) (?src + 3) s3
       else if 0 < int n - 3 then
         inf_bind (copy_byte (?src + 3) s3) (\<lambda>s4. if 1 < int n - 3 then copy_byte (?src + 4) s4 else Inr s4)
       else Inr s3)"
    by (subst copy3.simps) (simp only: s1 s2 s3 inf_bind_simps)
  have r3: "at_bits cap s3 off bs (lz_copy dist 3 out)" using s3(2) by (simp add: numeral_3_eq_3)
  consider "n = 3" | "n = 4" | "n = 5" | "n \<ge> 6" using less.prems(4) by linarith
  then show ?case
  proof cases
    case 4
    have "lz_copy dist n out = lz_copy dist (n - 3) (lz_copy dist 3 out)" using lz_copy_add [of dist 3 "n - 3" out] 4 by simp
    moreover have "int n - 3 = int (n - 3)" using 4 by simp
    moreover have "?src + 3 = length (lz_copy dist 3 out) - dist" using less.prems(3) by simp
    ultimately show ?thesis using eq less.IH [OF _ r3, of "n - 3"] less.prems 4 by simp
  next
    case 3
    obtain s4 where s4: "copy_byte (?src + 3) s3 = Inr s4" "at_bits cap s4 off bs (lz_copy dist (Suc 3) out)"
      using step [of cap s3 off bs 3] r3 less.prems 3 by auto
    then show ?thesis using step [of cap s4 off bs 4] less.prems 3 eq by simp
  next
    case 2
    then show ?thesis using eq step [of cap s3 off bs 3] r3 less.prems by auto
  qed (use eq r3 in simp)
qed

theorem copy_match_ready:
  assumes "at_bits cap st off bs out" "length out + n \<le> cap" "0 < dist" "dist \<le> length out" "3 \<le> n"
  shows "\<exists>st'. copy_match dist n st = Inr st' \<and> at_bits cap st' off bs (lz_copy dist n out)"
  using copy_slow_ready [OF assms(3,1,2,4)] copy3_ready [OF assms(3,1,2,4,5)] readyD [OF assms(1)] assms(4)
  by (simp add: copy_match_def Let_def)

section \<open>Literals\<close>

lemma huff_look_ready:
  assumes "decodes sizes tbl" "sizes_ok sizes" "coded sizes s" "at_bits cap st off (code_bits sizes s @ cs) out" "15 \<le> num_bits st"
  shows "huff_look tbl (bit_buf st) = Inr (s, sizes ! s)" "at_bits cap (drop_bits (sizes ! s) st) (off + sizes ! s) cs out"
    "num_bits st \<le> num_bits (drop_bits (sizes ! s) st) + 15"
proof -
  have sz: "sizes ! s \<le> 15" using coded_size [OF assms(2,3)] by simp
  show "huff_look tbl (bit_buf st) = Inr (s, sizes ! s)"
    using huff_look_code [OF assms(1-3)] ready_starts_with [OF assms(4)] sz assms(5) by simp
  show "at_bits cap (drop_bits (sizes ! s) st) (off + sizes ! s) cs out"
    using drop_bits_ready [OF assms(4)] sz assms(5) by simp
  show "num_bits st \<le> num_bits (drop_bits (sizes ! s) st) + 15"
    using readyD(1) [OF assms(4)] sz assms(5) by (simp add: drop_bits_def sub32_le buffered_def)
qed

lemma bit8_iff: "s < 512 \<Longrightarrow> bit (s :: nat) 8 \<longleftrightarrow> 256 \<le> s"
proof -
  assume "s < 512"
  moreover have "s div 256 = (if 256 \<le> s then 1 else 0)" using calculation by (simp add: div_nat_eqI)
  ultimately show ?thesis by (auto simp: bit_iff_odd)
qed

definition lits_bits :: "nat list \<Rightarrow> u8 list \<Rightarrow> bool list" where
  "lits_bits lsz ls = concat (map (\<lambda>c. code_bits lsz (unat c)) ls)"

lemma lits_bits_simps [simp]:
  "lits_bits lsz [] = []"
  "lits_bits lsz (c # ls) = code_bits lsz (unat c) @ lits_bits lsz ls"
  by (simp_all add: lits_bits_def)

text \<open>
  One round of the loop. It ends at a symbol from 256 on (\<open>ended\<close>), possibly after a literal, or
  goes on after one or two literals (\<open>advanced\<close>).
\<close>

definition ended :: "nat \<Rightarrow> nat list \<Rightarrow> nat \<Rightarrow> nat \<Rightarrow> u8 list \<Rightarrow> bool list \<Rightarrow> u8 list \<Rightarrow> (nat \<times> inflater) inf \<Rightarrow> bool" where
  "ended cap lsz s off ls cs out r \<longleftrightarrow>
     (\<exists>st'. r = Inr (s, st') \<and> at_bits cap st' (off + length (lits_bits lsz ls) + lsz ! s) cs (out @ ls))"

definition advanced :: "nat \<Rightarrow> nat list \<Rightarrow> nat \<Rightarrow> u8 list \<Rightarrow> bool list \<Rightarrow> u8 list \<Rightarrow> (inflater \<Rightarrow> bool) \<Rightarrow> bool" where
  "advanced cap lsz off ls cs out P \<longleftrightarrow>
     (\<exists>st' ls1 ls2. ls = ls1 @ ls2 \<and> ls1 \<noteq> [] \<and> P st' \<and> at_bits cap st' (off + length (lits_bits lsz ls1)) (lits_bits lsz ls2 @ cs) (out @ ls1))"

lemma literal_bits: "\<not> bit (unat (c :: u8)) 8" "\<not> 256 \<le> unat c"
  using bit8_iff [of "unat c"] unsigned_less [of c, where ?'a = nat] by auto

lemma literals_slow:
  assumes "decodes lsz lt" "sizes_ok lsz" "coded lsz s" "256 \<le> s" "\<forall>c \<in> set ls. coded lsz (unat c)" "length out + length ls \<le> cap"
    and st: "at_bits cap st off (lits_bits lsz ls @ code_bits lsz s @ cs) out"
    and slow: "length (in_rest st) < 4 \<or> length (out_buf st) - out_cur st < 2"
  shows "ended cap lsz s off ls cs out (literals (Suc fuel) lt st) \<or>
    advanced cap lsz off ls (code_bits lsz s @ cs) out (\<lambda>st'. literals (Suc fuel) lt st = literals fuel lt st')"
proof (cases ls)
  case Nil
  then show ?thesis using huff_decode_ready [OF assms(1-3), of cap st off cs out] st slow assms(4) by (auto simp: ended_def)
next
  case (Cons a ls')
  obtain s1 where s1: "huff_decode lt st = Inr (unat a, s1)"
      "at_bits cap s1 (off + lsz ! unat a) (lits_bits lsz ls' @ code_bits lsz s @ cs) out"
    using huff_decode_ready [OF assms(1,2), of "unat a" cap st off "lits_bits lsz ls' @ code_bits lsz s @ cs" out] st assms(5) Cons by auto
  obtain s2 where s2: "put_byte a s1 = Inr s2"
      "at_bits cap s2 (off + lsz ! unat a) (lits_bits lsz ls' @ code_bits lsz s @ cs) (out @ [a])"
    using put_byte_ready [OF s1(2)] assms(6) Cons by auto
  have "literals (Suc fuel) lt st = literals fuel lt s2"
    using s1(1) s2(1) slow literal_bits readyD(4,5) [OF s1(2)] assms(6) Cons by simp
  then have "advanced cap lsz off ls (code_bits lsz s @ cs) out (\<lambda>st'. literals (Suc fuel) lt st = literals fuel lt st')"
    unfolding advanced_def using s2(2) Cons by (intro exI [of _ s2] exI [of _ "[a]"] exI [of _ ls']) simp
  then show ?thesis ..
qed

lemma literals_fast:
  assumes "decodes lsz lt" "sizes_ok lsz" "coded lsz s" "256 \<le> s" "\<forall>c \<in> set ls. coded lsz (unat c)" "length out + length ls \<le> cap"
    and st: "at_bits cap st off (lits_bits lsz ls @ code_bits lsz s @ cs) out"
    and fast: "\<not> (length (in_rest st) < 4 \<or> length (out_buf st) - out_cur st < 2)"
  shows "ended cap lsz s off ls cs out (literals (Suc fuel) lt st) \<or>
    advanced cap lsz off ls (code_bits lsz s @ cs) out (\<lambda>st'. literals (Suc fuel) lt st = literals fuel lt st')"
proof -
  note look = huff_look_ready [OF assms(1,2)]
  have s: "bit s 8" using bit8_iff [of s] assms(2-4) by (auto simp: sizes_ok_def coded_def)
  define s0 where "s0 = (if num_bits st < 30 then load_bytes 4 st else st)"
  have s0: "at_bits cap s0 off (lits_bits lsz ls @ code_bits lsz s @ cs) out" "30 \<le> num_bits s0"
    using load_bytes_ready [OF st, of 4] st by (auto simp: s0_def)
  have eq: "literals (Suc fuel) lt st = inf_bind (huff_look lt (bit_buf s0)) (\<lambda>(sym, code_len).
      let s1 = drop_bits code_len s0 in
      if bit sym 8 then Inr (sym, s1)
      else inf_bind (huff_look lt (bit_buf s1)) (\<lambda>(sym2, code_len2).
        let s2 = drop_bits code_len2 s1 in
        inf_bind (put_byte (of_nat sym) s2) (\<lambda>s3.
          if bit sym2 8 then Inr (sym2, s3) else inf_bind (put_byte (of_nat sym2) s3) (literals fuel lt))))"
    using fast by (simp add: s0_def Let_def)
  show ?thesis
  proof (cases ls)
    case Nil
    then show ?thesis using look [OF assms(3), of cap s0 off cs out] s0 eq s by (simp add: ended_def)
  next
    case (Cons a ls')
    have a: "coded lsz (unat a)" "length out < cap" using assms(5,6) Cons by auto
    define s1 where "s1 = drop_bits (lsz ! unat a) s0"
    have s1: "huff_look lt (bit_buf s0) = Inr (unat a, lsz ! unat a)" "15 \<le> num_bits s1"
        "at_bits cap s1 (off + lsz ! unat a) (lits_bits lsz ls' @ code_bits lsz s @ cs) out"
      using look [OF a(1), of cap s0 off "lits_bits lsz ls' @ code_bits lsz s @ cs" out] s0 Cons by (auto simp: s1_def)
    show ?thesis
    proof (cases ls')
      case Nil
      define s2 where "s2 = drop_bits (lsz ! s) s1"
      have s2: "huff_look lt (bit_buf s1) = Inr (s, lsz ! s)" "at_bits cap s2 (off + lsz ! unat a + lsz ! s) cs out"
        using look [OF assms(3) _ s1(2), of cap "off + lsz ! unat a" cs out] s1(3) Nil by (auto simp: s2_def)
      then show ?thesis using put_byte_ready [OF s2(2) a(2), of a] eq s1(1) literal_bits s Cons Nil
        by (auto simp: Let_def s1_def s2_def ended_def)
    next
      case (Cons b ls'')
      define s2 where "s2 = drop_bits (lsz ! unat b) s1"
      let ?bs = "lits_bits lsz ls'' @ code_bits lsz s @ cs" and ?off = "off + lsz ! unat a + lsz ! unat b"
      have s2: "huff_look lt (bit_buf s1) = Inr (unat b, lsz ! unat b)" "at_bits cap s2 ?off ?bs out"
        using look [of "unat b" cap s1 "off + lsz ! unat a" ?bs out] s1(2,3) assms(5) \<open>ls = _\<close> Cons by (auto simp: s2_def)
      obtain s3 where s3: "put_byte a s2 = Inr s3" "at_bits cap s3 ?off ?bs (out @ [a])"
        using put_byte_ready [OF s2(2) a(2)] by blast
      obtain s4 where s4: "put_byte b s3 = Inr s4" "at_bits cap s4 ?off ?bs (out @ [a, b])"
        using put_byte_ready [OF s3(2)] assms(6) \<open>ls = _\<close> Cons by auto
      have "literals (Suc fuel) lt st = literals fuel lt s4"
        using eq s1(1) s2(1) s3(1) s4(1) literal_bits by (simp add: Let_def s1_def s2_def)
      then have "advanced cap lsz off ls (code_bits lsz s @ cs) out (\<lambda>st'. literals (Suc fuel) lt st = literals fuel lt st')"
        unfolding advanced_def using s4(2) \<open>ls = _\<close> Cons
        by (intro exI [of _ s4] exI [of _ "[a, b]"] exI [of _ ls'']) (simp add: add.assoc)
      then show ?thesis ..
    qed
  qed
qed

lemma literals_ready:
  assumes "decodes lsz lt" "sizes_ok lsz" "coded lsz s" "256 \<le> s"
  shows "at_bits cap st off (lits_bits lsz ls @ code_bits lsz s @ cs) out \<Longrightarrow> (\<forall>c \<in> set ls. coded lsz (unat c)) \<Longrightarrow>
    length out + length ls \<le> cap \<Longrightarrow> length ls < fuel \<Longrightarrow> ended cap lsz s off ls cs out (literals fuel lt st)"
proof (induction fuel arbitrary: ls st off out)
  case (Suc fuel)
  from literals_slow [OF assms Suc.prems(2,3,1)] literals_fast [OF assms Suc.prems(2,3,1)]
  have "ended cap lsz s off ls cs out (literals (Suc fuel) lt st) \<or>
    advanced cap lsz off ls (code_bits lsz s @ cs) out (\<lambda>st'. literals (Suc fuel) lt st = literals fuel lt st')" by blast
  then show ?case
  proof
    assume "advanced cap lsz off ls (code_bits lsz s @ cs) out (\<lambda>st'. literals (Suc fuel) lt st = literals fuel lt st')"
    then obtain st' ls1 ls2 where adv: "ls = ls1 @ ls2" "ls1 \<noteq> []" "literals (Suc fuel) lt st = literals fuel lt st'"
      "at_bits cap st' (off + length (lits_bits lsz ls1)) (lits_bits lsz ls2 @ code_bits lsz s @ cs) (out @ ls1)"
      by (auto simp: advanced_def)
    have "ended cap lsz s (off + length (lits_bits lsz ls1)) ls2 cs (out @ ls1) (literals fuel lt st')"
      by (rule Suc.IH [OF adv(4)]) (use Suc.prems adv(1,2) in \<open>auto simp: Suc_le_eq simp flip: length_greater_0_conv\<close>)
    then show ?thesis using adv(1,3) by (auto simp: ended_def lits_bits_def add.assoc simp del: literals.simps)
  qed
qed simp

declare literals.simps [simp del]

section \<open>Literals and matches\<close>

text \<open>
  The lengths and distances of RFC 1951, 3.2.5: symbol \<open>257 + k\<close> with its extra bits stands for a length, a
  distance symbol with its extra bits for a distance.
\<close>

definition len_extra :: "nat \<Rightarrow> nat" where
  "len_extra k = (if k < 8 \<or> k = 28 then 0 else k div 4 - 1)"

definition len_base :: "nat \<Rightarrow> nat" where
  "len_base k = (if k = 28 then 258 else if k < 8 then 3 + k else 3 + (4 + k mod 4) * 2 ^ (k div 4 - 1))"

definition dist_extra :: "nat \<Rightarrow> nat" where
  "dist_extra d = (if d < 4 then 0 else d div 2 - 1)"

definition dist_base :: "nat \<Rightarrow> nat" where
  "dist_base d = (if d < 4 then d + 1 else 1 + (2 + d mod 2) * 2 ^ (d div 2 - 1))"

datatype lz_token = Literal u8 | Match (len_sym: nat) (len_bits: nat) (dist_sym: nat) (dist_bits: nat)

fun token_ok :: "nat list \<Rightarrow> nat list \<Rightarrow> u8 list \<Rightarrow> lz_token \<Rightarrow> bool" where
  "token_ok lsz dsz out (Literal c) \<longleftrightarrow> coded lsz (unat c)"
| "token_ok lsz dsz out (Match k e d f) \<longleftrightarrow>
     k < 29 \<and> coded lsz (257 + k) \<and> e < 2 ^ len_extra k \<and> d < 30 \<and> coded dsz d \<and> f < 2 ^ dist_extra d \<and>
     dist_base d + f \<le> length out"

fun token_bits :: "nat list \<Rightarrow> nat list \<Rightarrow> lz_token \<Rightarrow> bool list" where
  "token_bits lsz dsz (Literal c) = code_bits lsz (unat c)"
| "token_bits lsz dsz (Match k e d f) =
     code_bits lsz (257 + k) @ lsb_bits (len_extra k) e @ code_bits dsz d @ lsb_bits (dist_extra d) f"

fun token_out :: "u8 list \<Rightarrow> lz_token \<Rightarrow> u8 list" where
  "token_out out (Literal c) = out @ [c]"
| "token_out out (Match k e d f) = lz_copy (dist_base d + f) (len_base k + e) out"

primrec tokens_ok :: "nat list \<Rightarrow> nat list \<Rightarrow> u8 list \<Rightarrow> lz_token list \<Rightarrow> bool" where
  "tokens_ok lsz dsz out [] \<longleftrightarrow> True"
| "tokens_ok lsz dsz out (t # ts) \<longleftrightarrow> token_ok lsz dsz out t \<and> tokens_ok lsz dsz (token_out out t) ts"

definition tokens_bits :: "nat list \<Rightarrow> nat list \<Rightarrow> lz_token list \<Rightarrow> bool list" where
  "tokens_bits lsz dsz ts = concat (map (token_bits lsz dsz) ts)"

definition tokens_out :: "u8 list \<Rightarrow> lz_token list \<Rightarrow> u8 list" where
  "tokens_out out ts = foldl token_out out ts"

subsection \<open>The tables of the source\<close>

lemma tables_by_formula:
  "take 29 s_length_base = map len_base [0..<29]" "take 29 s_length_extra = map len_extra [0..<29]"
  "take 30 s_dist_base = map dist_base [0..<30]" "take 30 s_dist_extra = map dist_extra [0..<30]"
  by (simp_all add: s_length_base_def s_length_extra_def s_dist_base_def s_dist_extra_def
      len_base_def len_extra_def dist_base_def dist_extra_def upt_rec)

lemma nth_table: "take n xs = map f [0..<n] \<Longrightarrow> k < n \<Longrightarrow> xs ! k = f k"
  by (metis add_0 diff_zero length_upt nth_map_upt nth_take)

lemmas source_tables = tables_by_formula [THEN nth_table]

lemma extra_bounds: "k < 29 \<Longrightarrow> len_extra k \<le> 5" "d < 30 \<Longrightarrow> dist_extra d \<le> 13"
  by (auto simp: len_extra_def dist_extra_def)

lemma len_base_ge: "k < 29 \<Longrightarrow> 3 \<le> len_base k"
  by (simp add: len_base_def)

lemma dist_base_pos: "0 < dist_base d"
  by (simp add: dist_base_def)

subsection \<open>Matches\<close>

lemma get_extra_ready:
  assumes "at_bits cap st off (lsb_bits n v @ cs) out" "v < 2 ^ n" "n \<le> 16"
  shows "\<exists>st'. (if n > 0 then get_bits n st else (0, st)) = (v, st') \<and> at_bits cap st' (off + n) cs out"
  using get_bits_num [OF assms] assms by (cases "n = 0") (auto simp: lsb_bits_def)

theorem do_match_ready:
  assumes "decodes dsz dt" "sizes_ok dsz" "token_ok lsz dsz out (Match k e d f)" "length (token_out out (Match k e d f)) \<le> cap"
    and "at_bits cap st off (lsb_bits (len_extra k) e @ code_bits dsz d @ lsb_bits (dist_extra d) f @ cs) out"
  shows "\<exists>st'. do_match dt (257 + k) st = Inr st' \<and>
    at_bits cap st' (off + len_extra k + dsz ! d + dist_extra d) cs (token_out out (Match k e d f))"
proof -
  have k: "k < 29" "e < 2 ^ len_extra k" "d < 30" "coded dsz d" "f < 2 ^ dist_extra d" "dist_base d + f \<le> length out"
    using assms(3) by auto
  obtain s1 where s1: "(if len_extra k > 0 then get_bits (len_extra k) st else (0, st)) = (e, s1)"
    "at_bits cap s1 (off + len_extra k) (code_bits dsz d @ lsb_bits (dist_extra d) f @ cs) out"
    using get_extra_ready [OF assms(5) k(2)] extra_bounds(1) [OF k(1)] by auto
  obtain s2 where s2: "huff_decode dt s1 = Inr (d, s2)"
    "at_bits cap s2 (off + len_extra k + dsz ! d) (lsb_bits (dist_extra d) f @ cs) out"
    using huff_decode_ready [OF assms(1,2) k(4) s1(2)] by blast
  obtain s3 where s3: "(if dist_extra d > 0 then get_bits (dist_extra d) s2 else (0, s2)) = (f, s3)"
    "at_bits cap s3 (off + len_extra k + dsz ! d + dist_extra d) cs out"
    using get_extra_ready [OF s2(2) k(5)] extra_bounds(2) [OF k(3)] by auto
  have "do_match dt (257 + k) st = copy_match (dist_base d + f) (len_base k + e) s3"
    using k by (simp add: do_match_def source_tables s1(1) s2(1) s3(1) cong: if_cong split del: if_split)
  moreover have "length out + (len_base k + e) \<le> cap" using assms(4) by simp
  ultimately show ?thesis
    using copy_match_ready [OF s3(2), of "len_base k + e" "dist_base d + f"] k(6) dist_base_pos [of d] len_base_ge [OF k(1)]
    by simp
qed

text \<open>
  The length symbols 286 and 287 do not occur in valid streams, but the fixed code has code words for them and they
  are not rejected. Their length is 0, and the loop that copies three bytes before it looks at the length
  writes past the end of the output buffer when less than three bytes are left.
\<close>

lemma copy_byte_full:
  assumes "at_bits cap st off bs out" "length out = cap" "src < cap"
  shows "copy_byte src st = Inl (Fault ''pOut_buf_cur[0] = pSrc[0]'')"
  using readyD [OF assms(1)] assms(2,3) by (simp add: copy_byte_def)

lemma copy_match_zero:
  assumes "at_bits cap st off bs out" "0 < dist" "dist \<le> length out" "cap < length out + 3"
  shows "copy_match dist 0 st = Inl (Fault ''pOut_buf_cur[0] = pSrc[0]'')"
proof -
  note r = readyD [OF assms(1)] and step = copy_byte_lz [OF _ _ assms(2,3)]
  let ?src = "length out - dist"
  have eq: "copy_match dist 0 st = copy3 0 ?src st" using r assms(3) by (simp add: copy_match_def Let_def)
  have full: "copy_byte (?src + k) s = Inl (Fault ''pOut_buf_cur[0] = pSrc[0]'')"
    if "at_bits cap s off bs (lz_copy dist k out)" "length out + k = cap" for s k
    using copy_byte_full [OF that(1)] that(2) assms(2,3) by simp
  consider "cap = length out" | "cap = length out + 1" | "cap = length out + 2" using r(7) assms(4) by linarith
  then show ?thesis
  proof cases
    case 1
    then show ?thesis using full [of st 0] assms(1) eq by (subst (asm) copy3.simps) simp
  next
    case 2
    obtain s1 where s1: "copy_byte ?src st = Inr s1" "at_bits cap s1 off bs (lz_copy dist (Suc 0) out)"
      using step [of cap st off bs 0] assms(1) 2 by auto
    then show ?thesis using full [of s1 1] 2 eq by (subst (asm) copy3.simps) simp
  next
    case 3
    obtain s1 where s1: "copy_byte ?src st = Inr s1" "at_bits cap s1 off bs (lz_copy dist (Suc 0) out)"
      using step [of cap st off bs 0] assms(1) 3 by auto
    obtain s2 where s2: "copy_byte (?src + 1) s1 = Inr s2" "at_bits cap s2 off bs (lz_copy dist (Suc 1) out)"
      using step [of cap s1 off bs 1] s1(2) 3 by auto
    then show ?thesis using full [of s2 2] s1(1) 3 eq by (subst (asm) copy3.simps) (simp add: numeral_2_eq_2)
  qed
qed

lemma reserved_length_overruns:
  assumes "decodes dsz dt" "sizes_ok dsz" "coded dsz d" "d < 30" "f < 2 ^ dist_extra d" "dist_base d + f \<le> length out"
    and "at_bits cap st off (code_bits dsz d @ lsb_bits (dist_extra d) f @ cs) out" "cap < length out + 3" "ls \<in> {286, 287}"
  shows "do_match dt ls st = Inl (Fault ''pOut_buf_cur[0] = pSrc[0]'')"
proof -
  obtain s2 where s2: "huff_decode dt st = Inr (d, s2)" "at_bits cap s2 (off + dsz ! d) (lsb_bits (dist_extra d) f @ cs) out"
    using huff_decode_ready [OF assms(1-3,7)] by blast
  obtain s3 where s3: "(if dist_extra d > 0 then get_bits (dist_extra d) s2 else (0, s2)) = (f, s3)"
    "at_bits cap s3 (off + dsz ! d + dist_extra d) cs out"
    using get_extra_ready [OF s2(2) assms(5)] extra_bounds(2) [OF assms(4)] by auto
  have "s_length_base ! (ls - 257) = 0" "s_length_extra ! (ls - 257) = 0" "ls - 257 < 31"
    using assms(9) by (auto simp: s_length_base_def s_length_extra_def)
  then have "do_match dt ls st = copy_match (dist_base d + f) 0 s3"
    using assms(4) by (simp add: do_match_def source_tables s2(1) s3(1) cong: if_cong split del: if_split)
  then show ?thesis using copy_match_zero [OF s3(2)] dist_base_pos [of d] assms(6,8) by simp
qed

subsection \<open>The codes of a block\<close>

lemma length_token_out: "length out \<le> length (token_out out t)"
  by (cases t) simp_all

lemma length_tokens_out: "length out \<le> length (tokens_out out ts)"
proof (induction ts arbitrary: out)
  case (Cons t ts)
  then show ?case using length_token_out [of out t] by (auto simp: tokens_out_def intro: order_trans)
qed (simp add: tokens_out_def)

lemma tokens_simps:
  "tokens_bits lsz dsz [] = []" "tokens_out out [] = out"
  "tokens_bits lsz dsz (t # ts) = token_bits lsz dsz t @ tokens_bits lsz dsz ts"
  "tokens_out out (t # ts) = tokens_out (token_out out t) ts"
  by (simp_all add: tokens_bits_def tokens_out_def)

lemma literal_run:
  "tokens_bits lsz dsz (map Literal ls @ ts) = lits_bits lsz ls @ tokens_bits lsz dsz ts"
  "tokens_out out (map Literal ls @ ts) = tokens_out (out @ ls) ts"
  "tokens_ok lsz dsz out (map Literal ls @ ts) \<longleftrightarrow> (\<forall>c \<in> set ls. coded lsz (unat c)) \<and> tokens_ok lsz dsz (out @ ls) ts"
  by (induction ls arbitrary: out) (simp_all add: tokens_simps)

lemmas literal_only = literal_run(1,2) [where ts = "[]", unfolded append_Nil2 tokens_simps]

lemma split_run: "\<exists>ls rest. ts = map Literal ls @ rest \<and> (rest = [] \<or> (\<exists>k e d f r. rest = Match k e d f # r))"
proof (induction ts)
  case Nil
  have "[] = map Literal [] @ []" by simp
  then show ?case by blast
next
  case (Cons t ts)
  show ?case
  proof (cases t)
    case (Literal c)
    obtain ls rest where "ts = map Literal ls @ rest" and r: "rest = [] \<or> (\<exists>k e d f r. rest = Match k e d f # r)"
      using Cons by blast
    then have "t # ts = map Literal (c # ls) @ rest" using Literal by simp
    with r show ?thesis by blast
  next
    case (Match k e d f)
    then have "t # ts = map Literal [] @ Match k e d f # ts" by simp
    then show ?thesis by blast
  qed
qed

theorem codes_ready:
  assumes "decodes lsz lt" "sizes_ok lsz" "coded lsz 256" "decodes dsz dt" "sizes_ok dsz"
  shows "at_bits cap st off (tokens_bits lsz dsz ts @ code_bits lsz 256 @ cs) out \<Longrightarrow> tokens_ok lsz dsz out ts \<Longrightarrow>
    length (tokens_out out ts) \<le> cap \<Longrightarrow> cap < fuel + length out \<Longrightarrow>
    \<exists>st'. codes fuel lt dt st = Inr st' \<and>
      at_bits cap st' (off + length (tokens_bits lsz dsz ts) + lsz ! 256) cs (tokens_out out ts)"
proof (induction fuel arbitrary: ts st off out)
  case 0
  then show ?case using length_tokens_out [of out ts] by simp
next
  case (Suc fuel)
  obtain ls rest where ts: "ts = map Literal ls @ rest" "rest = [] \<or> (\<exists>k e d f r. rest = Match k e d f # r)"
    using split_run [of ts] by (elim exE conjE)
  have lits: "\<forall>c \<in> set ls. coded lsz (unat c)" "tokens_ok lsz dsz (out @ ls) rest" "length (tokens_out (out @ ls) rest) \<le> cap"
    using Suc.prems(2,3) ts(1) by (simp_all add: literal_run)
  have fit: "length out + length ls \<le> cap" "length ls < Suc cap" using lits(3) length_tokens_out [of "out @ ls" rest] by simp_all
  note run = literals_ready [OF assms(1,2), where fuel = "Suc cap", OF _ _ _ lits(1) fit]
  note cap = readyD(4) [OF Suc.prems(1)]
  from ts(2) show ?case
  proof (elim disjE exE)
    assume "rest = []"
    then have r: "at_bits cap st off (lits_bits lsz ls @ code_bits lsz 256 @ cs) out" using Suc.prems(1) ts by (simp add: literal_only)
    show ?thesis using run [OF assms(3) _ r] cap ts \<open>rest = []\<close> by (auto simp: literal_only ended_def)
  next
    fix k e d f r assume rest: "rest = Match k e d f # r"
    let ?bs = "lsb_bits (len_extra k) e @ code_bits dsz d @ lsb_bits (dist_extra d) f @ tokens_bits lsz dsz r @ code_bits lsz 256 @ cs"
    have tok: "token_ok lsz dsz (out @ ls) (Match k e d f)" using lits(2) rest by simp
    then have k: "k < 29" "coded lsz (257 + k)" by auto
    have r: "at_bits cap st off (lits_bits lsz ls @ code_bits lsz (257 + k) @ ?bs) out"
      using Suc.prems(1) ts rest by (simp add: literal_run tokens_simps)
    obtain s1 where s1: "literals (Suc cap) lt st = Inr (257 + k, s1)"
      "at_bits cap s1 (off + length (lits_bits lsz ls) + lsz ! (257 + k)) ?bs (out @ ls)"
      using run [OF k(2) _ r] by (auto simp: ended_def)
    have len: "length (tokens_out (token_out (out @ ls) (Match k e d f)) r) \<le> cap"
      using lits(3) rest by (simp add: tokens_simps)
    then have "length (token_out (out @ ls) (Match k e d f)) \<le> cap"
      using length_tokens_out [of "token_out (out @ ls) (Match k e d f)" r] by linarith
    from do_match_ready [OF assms(4,5) tok this s1(2)] obtain s2 where s2: "do_match dt (257 + k) s1 = Inr s2"
      "at_bits cap s2 (off + length (lits_bits lsz ls) + lsz ! (257 + k) + len_extra k + dsz ! d + dist_extra d)
         (tokens_bits lsz dsz r @ code_bits lsz 256 @ cs) (token_out (out @ ls) (Match k e d f))" by blast
    have "tokens_ok lsz dsz (token_out (out @ ls) (Match k e d f)) r" using lits(2) rest by simp
    from Suc.IH [OF s2(2) this len] obtain s3 where "codes fuel lt dt s2 = Inr s3"
      "at_bits cap s3 (off + length (lits_bits lsz ls) + lsz ! (257 + k) + len_extra k + dsz ! d + dist_extra d +
         length (tokens_bits lsz dsz r) + lsz ! 256) cs (tokens_out out ts)"
      using Suc.prems(4) len_base_ge [OF k(1)] ts rest by (auto simp: literal_run tokens_simps)
    then show ?thesis using s1(1) s2(1) cap k(1) ts rest
      by (simp add: literal_run tokens_simps add.assoc add.left_commute add.commute)
  qed
qed

section \<open>Stored blocks\<close>

lemma bits_num_byte_bits [simp]: "bits_num (byte_bits b) = unat b"
proof (rule bit_eqI)
  fix n
  show "bit (bits_num (byte_bits b)) n \<longleftrightarrow> bit (unat b) n"
    using bit_imp_le_length [of b n] by (auto simp: bit_bits_num byte_bits_def bit_unsigned_iff)
qed

lemma byte_bits_inj: "byte_bits b = byte_bits c \<longleftrightarrow> b = c"
  by (metis bits_num_byte_bits unsigned_word_eqI)

lemma prefix_bytes_bits:
  "prefix (bytes_bits ds @ cs) (bytes_bits xs) \<Longrightarrow> \<exists>ys. xs = ds @ ys \<and> prefix cs (bytes_bits ys)"
proof (induction ds arbitrary: xs)
  case (Cons d ds)
  have "0 < length xs" using prefix_length_le [OF Cons.prems] by (simp del: length_greater_0_conv)
  then obtain x xs' where xs: "xs = x # xs'" by (cases xs) auto
  from Cons.prems obtain zs where "byte_bits x @ bytes_bits xs' = byte_bits d @ bytes_bits ds @ cs @ zs"
    by (auto simp: prefix_def xs)
  then have "byte_bits x = byte_bits d" "bytes_bits xs' = bytes_bits ds @ cs @ zs" by (simp_all add: append_eq_append_conv)
  then show ?case using Cons.IH [of xs'] xs by (auto simp: byte_bits_inj prefix_def)
qed simp

lemma aligned:
  assumes "at_bits cap st off bs out" "off mod 8 = 0"
  shows "num_bits st mod 8 = 0"
  using readyD(3) [OF assms(1)] assms(2) by presburger

lemma raw_byte_ready:
  assumes "at_bits cap st off (byte_bits b @ cs) out" "off mod 8 = 0"
  shows "\<exists>st'. raw_byte st = (unat b, st') \<and> at_bits cap st' (off + 8) cs out"
proof (cases "num_bits st = 0")
  case True
  note r = readyD [OF assms(1)]
  from r(2) True have "prefix (bytes_bits [b] @ cs) (bytes_bits (in_rest st))" by (simp add: bits_left_def)
  from prefix_bytes_bits [OF this] obtain ys where ys: "in_rest st = b # ys" "prefix cs (bytes_bits ys)" by auto
  have "at_bits cap (st\<lparr>in_rest := ys\<rparr>) (off + 8) cs out"
    using r ys(2) True by (auto simp: at_bits_def buffered_def bits_left_def)
  then show ?thesis using ys True by (simp add: raw_byte_def get_byte_def)
next
  case False
  then show ?thesis using get_bits_ready [OF assms(1), of 8] by (simp add: raw_byte_def)
qed

lemma stored_ready:
  "at_bits cap st off (bytes_bits ds @ cs) out \<Longrightarrow> off mod 8 = 0 \<Longrightarrow> length out + length ds \<le> cap \<Longrightarrow>
   \<exists>st'. inf_bind (stored_bits (length ds) st) (\<lambda>(c, s). stored_raw c s) = Inr st' \<and>
     at_bits cap st' (off + 8 * length ds) cs (out @ ds)"
proof (induction ds arbitrary: st off out)
  case Nil
  then show ?case by (simp add: stored_raw.simps)
next
  case (Cons d ds)
  note r = readyD [OF Cons.prems(1)]
  show ?case
  proof (cases "num_bits st = 0")
    case True
    let ?n = "Suc (length ds)" and ?s = "mem_copy (Suc (length ds)) st"
    obtain ys where ys: "in_rest st = (d # ds) @ ys" "prefix cs (bytes_bits ys)"
      using r(2) True prefix_bytes_bits [of "d # ds" cs "in_rest st"] by (auto simp: bits_left_def)
    obtain zs where "out_buf st = out @ zs" using r(6) by (auto simp: prefix_def)
    then have "at_bits cap ?s (off + 8 * ?n) cs (out @ d # ds)"
      using r ys True Cons.prems(2,3) by (auto simp: at_bits_def buffered_def bits_left_def mem_copy_def)
    moreover have "stored_raw ?n st = stored_raw 0 ?s"
      using r ys Cons.prems(3) by (subst stored_raw.simps) (simp add: Let_def)
    ultimately show ?thesis using True by (simp add: stored_raw.simps)
  next
    case False
    obtain s1 where s1: "get_bits 8 st = (unat d, s1)" "at_bits cap s1 (off + 8) (bytes_bits ds @ cs) out"
      using get_bits_ready [of cap st off "byte_bits d" "bytes_bits ds @ cs" out 8] Cons.prems(1) by auto
    obtain s2 where s2: "put_byte d s1 = Inr s2" "at_bits cap s2 (off + 8) (bytes_bits ds @ cs) (out @ [d])"
      using put_byte_ready [OF s1(2)] Cons.prems(3) by auto
    show ?thesis using Cons.IH [OF s2(2)] Cons.prems(2,3) False s1 s2(1) readyD(4,5) [OF s1(2)]
      by (simp add: add.assoc)
  qed
qed

lemma bit_byte_of_nat: "i < 8 \<Longrightarrow> bit (of_nat n :: u8) i = bit n i"
  by (simp add: bit_of_nat_iff)

lemma pad_length:
  assumes "(off + nb) mod 8 = 0" "(off + p) mod 8 = 0" "p < (8 :: nat)"
  shows "nb mod 8 = p"
proof -
  have "int 8 dvd int (off + nb) - int (off + p)" using assms(1,2) by (intro dvd_diff) (simp_all only: int_dvd_int_iff mod_0_imp_dvd)
  then have "int nb mod 8 = int p mod 8" by (simp add: mod_eq_dvd_iff)
  then have "int (nb mod 8) = int (p mod 8)" by (simp add: zmod_int)
  then show ?thesis using assms(3) by (simp del: zmod_int of_nat_mod)
qed

lemma lsb_bits_16: "n < 65536 \<Longrightarrow> lsb_bits 16 n = byte_bits (of_nat n) @ byte_bits (of_nat (n div 256))"
proof (rule nth_equalityI)
  fix i assume "i < length (lsb_bits 16 n)"
  moreover have "bit (n div 256) j = bit n (j + 8)" for j
    using bit_drop_bit_eq [of 8 n] by (simp add: drop_bit_eq_div add.commute)
  ultimately show "lsb_bits 16 n ! i = (byte_bits (of_nat n) @ byte_bits (of_nat (n div 256))) ! i"
    by (simp add: byte_bits_def nth_append bit_byte_of_nat)
qed simp

lemma unat_half: "n < 65536 \<Longrightarrow> unat (of_nat n :: u8) + unat (of_nat (n div 256) :: u8) * 256 = n"
  by (simp add: unat_of_nat take_bit_eq_mod)

definition stored_bits_of :: "bool list \<Rightarrow> u8 list \<Rightarrow> bool list" where
  "stored_bits_of pad ds = pad @ lsb_bits 16 (length ds) @ lsb_bits 16 (65535 - length ds) @ bytes_bits ds"

theorem stored_block_ready:
  assumes "at_bits cap st off (stored_bits_of pad ds @ cs) out" "length pad < 8" "(off + length pad) mod 8 = 0"
    "length ds < 65536" "length out + length ds \<le> cap"
  shows "\<exists>st'. stored_block st = Inr st' \<and> at_bits cap st' (off + length (stored_bits_of pad ds)) cs (out @ ds)"
proof -
  let ?n = "length ds" and ?off = "off + length pad"
  have "num_bits st mod 8 = length pad" using pad_length [OF readyD(3) [OF assms(1)] assms(3,2)] .
  then have skip: "skip_bits (num_bits st mod 8) st = skip_bits (length pad) st" (is "_ = ?s0") by simp
  have s0: "at_bits cap ?s0 ?off (byte_bits (of_nat ?n) @ byte_bits (of_nat (?n div 256)) @
      byte_bits (of_nat (65535 - ?n)) @ byte_bits (of_nat ((65535 - ?n) div 256)) @ bytes_bits ds @ cs) out"
    by (rule skip_bits_ready [OF _ refl]) (use assms in \<open>simp_all add: stored_bits_of_def lsb_bits_16 del: of_nat_diff\<close>)
  obtain s1 where s1: "raw_byte ?s0 = (unat (of_nat ?n :: u8), s1)" "at_bits cap s1 (?off + 8) (byte_bits (of_nat (?n div 256)) @
      byte_bits (of_nat (65535 - ?n)) @ byte_bits (of_nat ((65535 - ?n) div 256)) @ bytes_bits ds @ cs) out"
    using raw_byte_ready [OF s0 assms(3)] by blast
  obtain s2 where s2: "raw_byte s1 = (unat (of_nat (?n div 256) :: u8), s2)" "at_bits cap s2 (?off + 8 + 8)
      (byte_bits (of_nat (65535 - ?n)) @ byte_bits (of_nat ((65535 - ?n) div 256)) @ bytes_bits ds @ cs) out"
    using raw_byte_ready [OF s1(2)] assms(3) by auto
  obtain s3 where s3: "raw_byte s2 = (unat (of_nat (65535 - ?n) :: u8), s3)" "at_bits cap s3 (?off + 8 + 8 + 8)
      (byte_bits (of_nat ((65535 - ?n) div 256)) @ bytes_bits ds @ cs) out"
    using raw_byte_ready [OF s2(2)] assms(3) by auto
  obtain s4 where s4: "raw_byte s3 = (unat (of_nat ((65535 - ?n) div 256) :: u8), s4)"
      "at_bits cap s4 (?off + 8 + 8 + 8 + 8) (bytes_bits ds @ cs) out"
    using raw_byte_ready [OF s3(2)] assms(3) by auto
  have "stored_block st = inf_bind (stored_bits ?n s4) (\<lambda>(c, s). stored_raw c s)"
    using assms(4) s1(1) s2(1) s3(1) s4(1) by (simp add: stored_block_def skip unat_half del: of_nat_diff)
  moreover have "off + length (stored_bits_of pad ds) = ?off + 8 + 8 + 8 + 8 + 8 * ?n" by (simp add: stored_bits_of_def)
  moreover have "(?off + 8 + 8 + 8 + 8) mod 8 = 0" using assms(3) by (simp only: mod_add_self2)
  ultimately show ?thesis using stored_ready [OF s4(2) _ assms(5)] by (simp add: ac_simps)
qed

section \<open>Code lengths\<close>

text \<open>
  The code lengths of a dynamic block (RFC 1951, 3.2.7). First the lengths of the code for code lengths, three
  bits each in the order \<open>cl_order\<close>; then, in this code, the lengths of the two codes with repetitions.
\<close>

definition cl_order :: "nat list" where
  "cl_order = [16, 17, 18, 0, 8] @ concat (map (\<lambda>i. [7 - i, 9 + i]) [0..<7])"

definition cl_sizes :: "nat list \<Rightarrow> nat list" where
  "cl_sizes cls = map (\<lambda>s. case map_of (zip cl_order cls) s of None \<Rightarrow> 0 | Some l \<Rightarrow> l) [0..<19]"

definition cls_bits :: "nat list \<Rightarrow> bool list" where
  "cls_bits cls = concat (map (lsb_bits 3) cls)"

datatype code_length = Len nat | CopyPrevious nat | Zeros nat | ZerosLong nat

fun cl_ok :: "nat list \<Rightarrow> code_length \<Rightarrow> bool" where
  "cl_ok lens (Len l) \<longleftrightarrow> l \<le> 15"
| "cl_ok lens (CopyPrevious n) \<longleftrightarrow> lens \<noteq> [] \<and> 3 \<le> n \<and> n \<le> 6"
| "cl_ok lens (Zeros n) \<longleftrightarrow> 3 \<le> n \<and> n \<le> 10"
| "cl_ok lens (ZerosLong n) \<longleftrightarrow> 11 \<le> n \<and> n \<le> 138"

fun cl_sym :: "code_length \<Rightarrow> nat" where
  "cl_sym (Len l) = l" | "cl_sym (CopyPrevious n) = 16" | "cl_sym (Zeros n) = 17" | "cl_sym (ZerosLong n) = 18"

fun cl_extra :: "code_length \<Rightarrow> bool list" where
  "cl_extra (Len l) = []"
| "cl_extra (CopyPrevious n) = lsb_bits 2 (n - 3)"
| "cl_extra (Zeros n) = lsb_bits 3 (n - 3)"
| "cl_extra (ZerosLong n) = lsb_bits 7 (n - 11)"

fun cl_out :: "nat list \<Rightarrow> code_length \<Rightarrow> nat list" where
  "cl_out lens (Len l) = lens @ [l]"
| "cl_out lens (CopyPrevious n) = lens @ replicate n (last lens)"
| "cl_out lens (Zeros n) = lens @ replicate n 0"
| "cl_out lens (ZerosLong n) = lens @ replicate n 0"

definition cl_bits :: "nat list \<Rightarrow> code_length \<Rightarrow> bool list" where
  "cl_bits csz c = code_bits csz (cl_sym c) @ cl_extra c"

primrec lens_ok :: "nat list \<Rightarrow> nat list \<Rightarrow> code_length list \<Rightarrow> bool" where
  "lens_ok csz lens [] \<longleftrightarrow> True"
| "lens_ok csz lens (c # rs) \<longleftrightarrow> cl_ok lens c \<and> coded csz (cl_sym c) \<and> lens_ok csz (cl_out lens c) rs"

definition lens_bits :: "nat list \<Rightarrow> code_length list \<Rightarrow> bool list" where
  "lens_bits csz rs = concat (map (cl_bits csz) rs)"

definition lens_out :: "nat list \<Rightarrow> code_length list \<Rightarrow> nat list" where
  "lens_out lens rs = foldl cl_out lens rs"

lemma lens_simps [simp]:
  "lens_bits csz [] = []" "lens_out lens [] = lens"
  "lens_bits csz (c # rs) = cl_bits csz c @ lens_bits csz rs" "lens_out lens (c # rs) = lens_out (cl_out lens c) rs"
  by (simp_all add: lens_bits_def lens_out_def)

lemma cl_order_source: "s_length_dezigzag = cl_order"
  by (simp add: s_length_dezigzag_def cl_order_def upt_rec)

lemma cl_order_distinct: "distinct cl_order" "length cl_order = 19"
  unfolding cl_order_source [symmetric] s_length_dezigzag_def by simp_all

lemma read_cl_sizes_ready:
  "at_bits cap st off (cls_bits cls @ cs) out \<Longrightarrow> length is = length cls \<Longrightarrow> (\<forall>l \<in> set cls. l < 8) \<Longrightarrow> distinct is \<Longrightarrow>
   \<exists>st'. read_cl_sizes is sizes st =
       (map (\<lambda>s. case map_of (zip is cls) s of None \<Rightarrow> sizes ! s | Some l \<Rightarrow> l) [0..<length sizes], st') \<and>
     at_bits cap st' (off + length (cls_bits cls)) cs out"
proof (induction cls arbitrary: "is" sizes st off)
  case Nil
  then show ?case by (simp add: cls_bits_def map_nth)
next
  case (Cons l cls)
  obtain i js where i: "is = i # js" using Cons.prems(2) by (cases "is") auto
  obtain s1 where s1: "get_bits 3 st = (l, s1)" "at_bits cap s1 (off + 3) (cls_bits cls @ cs) out"
    using get_bits_num [of cap st off 3 l "cls_bits cls @ cs" out] Cons.prems(1,3) by (auto simp: cls_bits_def)
  have *: "(case map_of (zip js cls) s of None \<Rightarrow> sizes[i := l] ! s | Some l \<Rightarrow> l) =
      (case map_of (zip is (l # cls)) s of None \<Rightarrow> sizes ! s | Some l \<Rightarrow> l)" if "s < length sizes" for s
  proof (cases "s = i")
    case True
    then have "map_of (zip js cls) s = None" using Cons.prems(4) i by (auto simp: map_of_eq_None_iff dest: set_zip_leftD)
    then show ?thesis using True i that by simp
  next
    case False
    then have "sizes[i := l] ! s = sizes ! s" by simp
    with False show ?thesis using i by (cases "map_of (zip js cls) s") simp_all
  qed
  show ?case using Cons.IH [OF s1(2), of js "sizes[i := l]"] Cons.prems i s1(1) *
    by (auto simp: cls_bits_def add.assoc cong: map_cong)
qed

corollary read_cl_sizes_order:
  assumes "at_bits cap st off (cls_bits cls @ cs) out" "length cls \<le> 19" "\<forall>l \<in> set cls. l < 8"
  shows "\<exists>st'. read_cl_sizes (take (length cls) s_length_dezigzag) (replicate 19 0) st = (cl_sizes cls, st') \<and>
    at_bits cap st' (off + length (cls_bits cls)) cs out"
proof -
  have "zip (take (length cls) cl_order) cls = zip cl_order cls"
    using take_zip [of "length cls" cl_order cls] by simp
  moreover have "length (take (length cls) cl_order) = length cls" using assms(2) cl_order_distinct(2) by simp
  moreover have "map (\<lambda>s. case map_of (zip cl_order cls) s of None \<Rightarrow> replicate 19 0 ! s | Some l \<Rightarrow> l) [0..<19] = cl_sizes cls"
    by (auto simp: cl_sizes_def split: option.split)
  ultimately show ?thesis
    using read_cl_sizes_ready [OF assms(1) _ assms(3), of "take (length cls) cl_order" "replicate 19 0"] cl_order_distinct(1)
    by (simp add: cl_order_source)
qed

lemma length_cl_out: "cl_ok lens c \<Longrightarrow> length lens < length (cl_out lens c)"
  by (cases c) auto

lemma length_lens_out: "lens_ok csz lens rs \<Longrightarrow> length lens \<le> length (lens_out lens rs)"
proof (induction rs arbitrary: lens)
  case (Cons c rs)
  then show ?case using length_cl_out [of lens c] by fastforce
qed simp

lemma cl_repeat:
  assumes "cl_ok lens c" "\<not> cl_sym c < 16"
  shows "\<exists>e. cl_extra c = lsb_bits (rep_extra (cl_sym c)) e \<and> e < 2 ^ rep_extra (cl_sym c) \<and>
    cl_out lens c = lens @ replicate (e + rep_base (cl_sym c)) (if cl_sym c = 16 then last lens else 0) \<and>
    cl_sym c \<le> 18 \<and> (cl_sym c = 16 \<longrightarrow> lens \<noteq> []) \<and> rep_extra (cl_sym c) \<le> 16"
proof (cases c)
  case (CopyPrevious n)
  then show ?thesis using assms by (intro exI [of _ "n - 3"]) (auto simp: rep_extra_def rep_base_def)
next
  case (Zeros n)
  then show ?thesis using assms by (intro exI [of _ "n - 3"]) (auto simp: rep_extra_def rep_base_def)
next
  case (ZerosLong n)
  then show ?thesis using assms by (intro exI [of _ "n - 11"]) (auto simp: rep_extra_def rep_base_def)
qed (use assms in auto)

text \<open>One round of the loop that reads the code lengths.\<close>

lemma read_lens_step:
  assumes "decodes csz ct" "sizes_ok csz" "cl_ok lens c" "coded csz (cl_sym c)" "length (cl_out lens c) \<le> n" "n \<le> 320"
    "at_bits cap st off (cl_bits csz c @ cs) out"
  shows "\<exists>st'. read_lens ct n lens st = read_lens ct n (cl_out lens c) st' \<and> at_bits cap st' (off + length (cl_bits csz c)) cs out"
proof -
  obtain s1 where s1: "huff_decode ct st = Inr (cl_sym c, s1)" "at_bits cap s1 (off + csz ! cl_sym c) (cl_extra c @ cs) out"
    using huff_decode_ready [OF assms(1,2,4), of cap st off "cl_extra c @ cs" out] assms(7) by (auto simp: cl_bits_def)
  have lt: "\<not> n \<le> length lens" using length_cl_out [OF assms(3)] assms(5) by simp
  have read: "read_lens ct n lens st =
     (if cl_sym c < 16 then read_lens ct n (lens @ [cl_sym c]) s1
      else if cl_sym c = 16 \<and> lens = [] then Inl (Exit FAILED)
      else if cl_sym c - 16 > 2 then Inl (Fault ''num_extra'')
      else case get_bits (rep_extra (cl_sym c)) s1 of (e, s2) \<Rightarrow>
        let k = e + rep_base (cl_sym c) in
        if length lens + k > 288 + 32 + 137 then Inl (Fault ''m_len_codes'')
        else read_lens ct n (lens @ replicate k (if cl_sym c = 16 then last lens else 0)) s2)"
    by (subst read_lens.simps) (simp only: lt s1(1) if_False inf_bind_simps prod.case)
  have len: "off + length (cl_bits csz c) = off + csz ! cl_sym c + length (cl_extra c)" by (simp add: cl_bits_def)
  show ?thesis
  proof (cases "cl_sym c < 16")
    case True
    then show ?thesis using read s1(2) len by (cases c) auto
  next
    case False
    then obtain e where e: "cl_extra c = lsb_bits (rep_extra (cl_sym c)) e" "e < 2 ^ rep_extra (cl_sym c)"
      "cl_out lens c = lens @ replicate (e + rep_base (cl_sym c)) (if cl_sym c = 16 then last lens else 0)"
      "cl_sym c \<le> 18" "cl_sym c = 16 \<Longrightarrow> lens \<noteq> []" "rep_extra (cl_sym c) \<le> 16"
      using cl_repeat [OF assms(3)] by blast
    obtain s2 where "get_bits (rep_extra (cl_sym c)) s1 = (e, s2)"
      "at_bits cap s2 (off + csz ! cl_sym c + rep_extra (cl_sym c)) cs out"
      using get_bits_num [OF s1(2) [unfolded e(1)] e(2,6)] by blast
    moreover have "length lens + (e + rep_base (cl_sym c)) \<le> 457" using assms(5,6) e(3) by simp
    ultimately show ?thesis using False read len e by (auto simp: Let_def add.assoc)
  qed
qed

lemma read_lens_ready:
  assumes "decodes csz ct" "sizes_ok csz" "n \<le> 320"
  shows "at_bits cap st off (lens_bits csz rs @ cs) out \<Longrightarrow> lens_ok csz lens rs \<Longrightarrow> length (lens_out lens rs) = n \<Longrightarrow>
    \<exists>st'. read_lens ct n lens st = Inr (lens_out lens rs, st') \<and> at_bits cap st' (off + length (lens_bits csz rs)) cs out"
proof (induction rs arbitrary: lens st off)
  case Nil
  then show ?case by (subst read_lens.simps) simp
next
  case (Cons c rs)
  have ok: "cl_ok lens c" "coded csz (cl_sym c)" "lens_ok csz (cl_out lens c) rs" using Cons.prems(2) by auto
  have "length (cl_out lens c) \<le> n" using length_lens_out [OF ok(3)] Cons.prems(3) by simp
  then obtain s1 where s1: "read_lens ct n lens st = read_lens ct n (cl_out lens c) s1"
    "at_bits cap s1 (off + length (cl_bits csz c)) (lens_bits csz rs @ cs) out"
    using read_lens_step [OF assms(1,2) ok(1,2) _ assms(3), of cap st off "lens_bits csz rs @ cs" out] Cons.prems(1) by auto
  show ?case using Cons.IH [OF s1(2) ok(3)] s1(1) Cons.prems(3) by (auto simp: add.assoc)
qed

section \<open>Blocks\<close>

datatype block =
    Stored "bool list" "u8 list"
  | Fixed "lz_token list"
  | Dynamic nat nat "nat list" "code_length list" "lz_token list"

text \<open>
  \<open>Stored pad ds\<close>: the bits up to the next byte and the bytes. \<open>Dynamic hlit hdist cls rs ts\<close>: the numbers of
  codes less 257 and less 1, the lengths of the code for code lengths, the code lengths, the contents.
\<close>

definition codes_ok :: "nat list \<Rightarrow> nat list \<Rightarrow> u8 list \<Rightarrow> lz_token list \<Rightarrow> bool" where
  "codes_ok lsz dsz out ts \<longleftrightarrow> sizes_ok lsz \<and> sizes_ok dsz \<and> coded lsz 256 \<and> tokens_ok lsz dsz out ts"

definition codes_bits :: "nat list \<Rightarrow> nat list \<Rightarrow> lz_token list \<Rightarrow> bool list" where
  "codes_bits lsz dsz ts = tokens_bits lsz dsz ts @ code_bits lsz 256"

definition fixed_lit :: "nat list" where
  "fixed_lit = map (\<lambda>s. if s < 144 then 8 else if s < 256 then 9 else if s < 280 then 7 else 8) [0..<288]"

definition fixed_dist :: "nat list" where
  "fixed_dist = replicate 32 5"

fun block_ok :: "nat \<Rightarrow> u8 list \<Rightarrow> block \<Rightarrow> bool" where
  "block_ok off out (Stored pad ds) \<longleftrightarrow> length pad < 8 \<and> (off + length pad) mod 8 = 0 \<and> length ds < 65536"
| "block_ok off out (Fixed ts) \<longleftrightarrow> codes_ok fixed_lit fixed_dist out ts"
| "block_ok off out (Dynamic hlit hdist cls rs ts) \<longleftrightarrow>
     hlit < 32 \<and> hdist < 32 \<and> 4 \<le> length cls \<and> length cls \<le> 19 \<and> (\<forall>l \<in> set cls. l < 8) \<and>
     sizes_ok (cl_sizes cls) \<and> lens_ok (cl_sizes cls) [] rs \<and> length (lens_out [] rs) = hlit + 257 + (hdist + 1) \<and>
     codes_ok (take (hlit + 257) (lens_out [] rs)) (drop (hlit + 257) (lens_out [] rs)) out ts"

fun block_type :: "block \<Rightarrow> nat" where
  "block_type (Stored pad ds) = 0" | "block_type (Fixed ts) = 1" | "block_type (Dynamic hlit hdist cls rs ts) = 2"

fun block_bits :: "block \<Rightarrow> bool list" where
  "block_bits (Stored pad ds) = stored_bits_of pad ds"
| "block_bits (Fixed ts) = codes_bits fixed_lit fixed_dist ts"
| "block_bits (Dynamic hlit hdist cls rs ts) =
     lsb_bits 5 hlit @ lsb_bits 5 hdist @ lsb_bits 4 (length cls - 4) @ cls_bits cls @ lens_bits (cl_sizes cls) rs @
     codes_bits (take (hlit + 257) (lens_out [] rs)) (drop (hlit + 257) (lens_out [] rs)) ts"

fun block_out :: "u8 list \<Rightarrow> block \<Rightarrow> u8 list" where
  "block_out out (Stored pad ds) = out @ ds"
| "block_out out (Fixed ts) = tokens_out out ts"
| "block_out out (Dynamic hlit hdist cls rs ts) = tokens_out out ts"

lemma huff_block_ready:
  assumes "at_bits cap st off (codes_bits lsz dsz ts @ cs) out" "codes_ok lsz dsz out ts" "length (tokens_out out ts) \<le> cap"
  shows "\<exists>st'. huff_block lsz dsz st = Inr st' \<and> at_bits cap st' (off + length (codes_bits lsz dsz ts)) cs (tokens_out out ts)"
proof -
  have ok: "sizes_ok lsz" "sizes_ok dsz" "coded lsz 256" "tokens_ok lsz dsz out ts" using assms(2) by (auto simp: codes_ok_def)
  obtain lt where lt: "build_table lsz = Inr lt" "decodes lsz lt" using build_table_ok [OF ok(1)] by blast
  obtain dt where dt: "build_table dsz = Inr dt" "decodes dsz dt" using build_table_ok [OF ok(2)] by blast
  show ?thesis
    using codes_ready [OF lt(2) ok(1,3) dt(2) ok(2) _ ok(4) assms(3), of st off cs "Suc cap"] assms(1) readyD(4) [OF assms(1)] lt(1) dt(1)
    by (simp add: huff_block_def codes_bits_def add.assoc)
qed

lemma fixed_sizes_lit: "fixed_sizes = fixed_lit"
proof (rule nth_equalityI)
  fix i assume "i < length fixed_sizes"
  then show "fixed_sizes ! i = fixed_lit ! i" by (auto simp: fixed_sizes_def fixed_lit_def nth_append)
qed (simp add: fixed_sizes_def fixed_lit_def)

text \<open>The fixed codes are valid codes, with the code words of RFC 1951, 3.2.6.\<close>

lemma fixed_total: "total_syms fixed_lit l = (if l = 7 then 24 else if l = 8 then 152 else if l = 9 then 112 else 0)"
  by (simp add: total_syms_def fixed_sizes_def flip: fixed_sizes_lit)

lemma fixed_next_code:
  "next_code fixed_lit 7 = 0" "next_code fixed_lit 8 = 48" "next_code fixed_lit 9 = 400" "next_code fixed_lit 16 = 65536"
  using next_code_foldl [of fixed_lit 6] next_code_foldl [of fixed_lit 7] next_code_foldl [of fixed_lit 8]
    next_code_foldl [of fixed_lit 15]
  by (simp_all add: fixed_total upt_rec)

lemma fixed_lit_ok: "sizes_ok fixed_lit"
  by (auto simp: sizes_ok_def fixed_next_code) (auto simp: fixed_lit_def)

lemma fixed_dist_ok: "sizes_ok fixed_dist"
proof -
  have "total_syms fixed_dist l = (if l = 5 then 32 else 0)" for l by (simp add: total_syms_def fixed_dist_def)
  then have "next_code fixed_dist 16 = 65536" using next_code_foldl [of fixed_dist 15] by (simp add: upt_rec)
  then show ?thesis by (simp add: sizes_ok_def fixed_dist_def)
qed

lemma fixed_code_num:
  assumes "s < 288"
  shows "code_num fixed_lit s = (if s < 144 then 48 + s else if s < 256 then 400 + (s - 144) else if s < 280 then s - 256 else 192 + (s - 280))"
proof -
  have "fixed_lit ! s = (if s < 144 then 8 else if s < 256 then 9 else if s < 280 then 7 else 8)" using assms by (simp add: fixed_lit_def)
  moreover have "length (filter (\<lambda>x. x = l) (take s fixed_lit)) =
      (if l = 8 then min s 144 + (s - 280) else if l = 9 then min (s - 144) 112 else if l = 7 then min (s - 256) 24 else 0)" for l
    using assms by (simp add: fixed_sizes_def flip: fixed_sizes_lit)
  ultimately show ?thesis unfolding code_num_def by (simp add: fixed_next_code)
qed

lemma fixed_code_bits:
  "s < 144 \<Longrightarrow> code_bits fixed_lit s = rev (lsb_bits 8 (48 + s))"
  "256 \<le> s \<Longrightarrow> s < 280 \<Longrightarrow> code_bits fixed_lit s = rev (lsb_bits 7 (s - 256))"
  by (auto simp: code_bits_def fixed_code_num) (simp_all add: fixed_lit_def)

lemma fixed_coded: "s < 288 \<Longrightarrow> coded fixed_lit s"
  by (auto simp: coded_def fixed_lit_def)

lemma fixed_dist_code: "d < 32 \<Longrightarrow> code_bits fixed_dist d = rev (lsb_bits 5 d)" "d < 32 \<Longrightarrow> coded fixed_dist d"
proof -
  assume d: "d < 32"
  have "next_code fixed_dist 5 = 0" using next_code_foldl [of fixed_dist 4] by (simp add: upt_rec total_syms_def fixed_dist_def)
  then have "code_num fixed_dist d = d" using d by (simp add: code_num_def fixed_dist_def)
  then show "code_bits fixed_dist d = rev (lsb_bits 5 d)" using d by (simp add: code_bits_def) (simp add: fixed_dist_def)
  show "coded fixed_dist d" using d by (simp add: coded_def fixed_dist_def)
qed

lemma dynamic_block_ready:
  assumes "at_bits cap st off (block_bits (Dynamic hlit hdist cls rs ts) @ cs) out"
    "block_ok off out (Dynamic hlit hdist cls rs ts)" "length (tokens_out out ts) \<le> cap"
  shows "\<exists>st'. dynamic_block st = Inr st' \<and>
    at_bits cap st' (off + length (block_bits (Dynamic hlit hdist cls rs ts))) cs (tokens_out out ts)"
proof -
  let ?csz = "cl_sizes cls" and ?lens = "lens_out [] rs"
  let ?cb = "codes_bits (take (hlit + 257) ?lens) (drop (hlit + 257) ?lens) ts"
  have ok: "hlit < 32" "hdist < 32" "4 \<le> length cls" "length cls \<le> 19" "\<forall>l \<in> set cls. l < 8" "sizes_ok ?csz" "lens_ok ?csz [] rs"
    "length ?lens = hlit + 257 + (hdist + 1)" "codes_ok (take (hlit + 257) ?lens) (drop (hlit + 257) ?lens) out ts"
    using assms(2) by simp_all
  obtain s1 where s1: "get_bits 5 st = (hlit, s1)"
    "at_bits cap s1 (off + 5) (lsb_bits 5 hdist @ lsb_bits 4 (length cls - 4) @ cls_bits cls @ lens_bits ?csz rs @ ?cb @ cs) out"
    using get_bits_num [of cap st off 5 hlit _ out] assms(1) ok(1) by auto
  obtain s2 where s2: "get_bits 5 s1 = (hdist, s2)"
    "at_bits cap s2 (off + 5 + 5) (lsb_bits 4 (length cls - 4) @ cls_bits cls @ lens_bits ?csz rs @ ?cb @ cs) out"
    using get_bits_num [OF s1(2)] ok(2) by auto
  have n: "length cls - 4 < 2 ^ 4" using ok(3,4) by (simp add: less_diff_conv2)
  obtain s3 where s3: "get_bits 4 s2 = (length cls - 4, s3)"
    "at_bits cap s3 (off + 5 + 5 + 4) (cls_bits cls @ lens_bits ?csz rs @ ?cb @ cs) out"
    using get_bits_num [OF s2(2) n] by auto
  obtain s4 where s4: "read_cl_sizes (take (length cls) s_length_dezigzag) (replicate 19 0) s3 = (?csz, s4)"
    "at_bits cap s4 (off + 5 + 5 + 4 + length (cls_bits cls)) (lens_bits ?csz rs @ ?cb @ cs) out"
    using read_cl_sizes_order [OF s3(2) ok(4,5)] by blast
  obtain ct where ct: "build_table ?csz = Inr ct" "decodes ?csz ct" using build_table_ok [OF ok(6)] by blast
  obtain s5 where s5: "read_lens ct (hlit + 257 + (hdist + 1)) [] s4 = Inr (?lens, s5)"
    "at_bits cap s5 (off + 5 + 5 + 4 + length (cls_bits cls) + length (lens_bits ?csz rs)) (?cb @ cs) out"
    using read_lens_ready [OF ct(2) ok(6) _ s4(2) ok(7,8)] ok(1,2) by auto
  have "dynamic_block st = huff_block (take (hlit + 257) ?lens) (drop (hlit + 257) ?lens) s5"
    using s1(1) s2(1) s3(1) s4(1) ct(1) s5(1) ok(3,8) by (simp add: dynamic_block_def)
  then show ?thesis using huff_block_ready [OF s5(2) ok(9) assms(3)] by (simp add: add.assoc)
qed

subsection \<open>A list of blocks\<close>

definition header_bits :: "bool \<Rightarrow> block \<Rightarrow> bool list" where
  "header_bits final b = final # lsb_bits 2 (block_type b)"

primrec stream_bits :: "block list \<Rightarrow> bool list" where
  "stream_bits [] = []"
| "stream_bits (b # bs) = header_bits (bs = []) b @ block_bits b @ stream_bits bs"

primrec stream_ok :: "nat \<Rightarrow> u8 list \<Rightarrow> block list \<Rightarrow> bool" where
  "stream_ok off out [] \<longleftrightarrow> True"
| "stream_ok off out (b # bs) \<longleftrightarrow> block_ok (off + 3) out b \<and> stream_ok (off + 3 + length (block_bits b)) (block_out out b) bs"

definition stream_out :: "u8 list \<Rightarrow> block list \<Rightarrow> u8 list" where
  "stream_out out bs = foldl block_out out bs"

lemma length_header_bits [simp]: "length (header_bits final b) = 3"
  by (simp add: header_bits_def)

lemma header_value: "bits_num (header_bits final b) = of_bool final + 2 * block_type b"
  by (cases b) (simp_all add: header_bits_def bits_num_Cons take_bit_nat_eq_self)

lemma length_block_out: "length out \<le> length (block_out out b)"
  by (cases b) (simp_all add: length_tokens_out)

lemma length_stream_out: "length out \<le> length (stream_out out bs)"
proof (induction bs arbitrary: out)
  case (Cons b bs)
  then show ?case using length_block_out [of out b] by (auto simp: stream_out_def intro: order_trans)
qed (simp add: stream_out_def)

theorem one_block_ready:
  assumes "at_bits cap st off (header_bits final b @ block_bits b @ cs) out" "block_ok (off + 3) out b" "length (block_out out b) \<le> cap"
  shows "\<exists>st'. one_block st = Inr (final, st') \<and> at_bits cap st' (off + 3 + length (block_bits b)) cs (block_out out b)"
proof -
  obtain s1 where s1: "get_bits 3 st = (of_bool final + 2 * block_type b, s1)" "at_bits cap s1 (off + 3) (block_bits b @ cs) out"
    using get_bits_ready [OF assms(1), of 3] by (auto simp: header_value)
  have "odd (of_bool final + 2 * block_type b) = final" "(of_bool final + 2 * block_type b) div 2 = block_type b" by (cases final; simp)+
  then have eq: "one_block st = inf_bind (if block_type b = 0 then stored_block s1 else if block_type b = 3 then Inl (Exit FAILED)
      else if block_type b = 1 then huff_block fixed_sizes (replicate 32 5) s1 else dynamic_block s1) (\<lambda>s'. Inr (final, s'))"
    by (simp add: one_block_def s1(1))
  show ?thesis
  proof (cases b)
    case (Stored pad ds)
    then show ?thesis using eq stored_block_ready [of cap s1 "off + 3" pad ds cs out] s1(2) assms(2,3) by auto
  next
    case (Fixed ts)
    then show ?thesis using eq huff_block_ready [of cap s1 "off + 3" fixed_lit fixed_dist ts cs out] s1(2) assms(2,3)
      by (auto simp: fixed_sizes_lit fixed_dist_def)
  next
    case (Dynamic hlit hdist cls rs ts)
    then show ?thesis using eq dynamic_block_ready [of cap s1 "off + 3" hlit hdist cls rs ts cs out] s1(2) assms(2,3)
      by (auto simp del: block_bits.simps block_ok.simps)
  qed
qed

theorem blocks_ready:
  "at_bits cap st off (stream_bits bs @ cs) out \<Longrightarrow> stream_ok off out bs \<Longrightarrow> length (stream_out out bs) \<le> cap \<Longrightarrow>
   bs \<noteq> [] \<Longrightarrow> length bs \<le> fuel \<Longrightarrow>
   \<exists>st'. blocks fuel st = Inr st' \<and> at_bits cap st' (off + length (stream_bits bs)) cs (stream_out out bs)"
proof (induction bs arbitrary: fuel st off out)
  case (Cons b bs)
  obtain n where n: "fuel = Suc n" using Cons.prems(5) by (cases fuel) auto
  have "length (block_out out b) \<le> cap"
    using Cons.prems(3) length_stream_out [of "block_out out b" bs] by (simp add: stream_out_def)
  then obtain s1 where s1: "one_block st = Inr (bs = [], s1)"
    "at_bits cap s1 (off + 3 + length (block_bits b)) (stream_bits bs @ cs) (block_out out b)"
    using one_block_ready [of cap st off "bs = []" b "stream_bits bs @ cs" out] Cons.prems(1,2) by auto
  show ?case
  proof (cases "bs = []")
    case True
    then show ?thesis using s1 n by (simp add: stream_out_def add.assoc)
  next
    case False
    then show ?thesis using Cons.IH [OF s1(2), of n] Cons.prems s1(1) n by (simp add: stream_out_def add.assoc)
  qed
qed simp

lemma length_stream_bits: "3 * length bs \<le> length (stream_bits bs)"
  by (induction bs) simp_all

end
