(* ===== verification/Zlib.thy ===== *)
theory Zlib
  imports Deflate
begin

text \<open>
  The zlib format (RFC 1950) around the blocks: a header of two bytes and the Adler-32 checksum of the contents
  after them. The checksum loop of \<open>tinfl_decompress\<close> adds up to 5552 bytes before it reduces the sums modulo
  65521; it is shown equal to the definition of the RFC, without overflow of its 32-bit sums. The main
  result is that \<open>tinfl_decompress_mem_to_mem\<close> unpacks every stream of the format whose contents fit into
  the output buffer.
\<close>

section \<open>The checksum\<close>

definition adler_step :: "nat \<times> nat \<Rightarrow> u8 \<Rightarrow> nat \<times> nat" where
  "adler_step s c = ((fst s + unat c) mod 65521, (snd s + fst s + unat c) mod 65521)"

definition adler32 :: "u8 list \<Rightarrow> nat" where
  "adler32 bs = (let (a, b) = foldl adler_step (1, 0) bs in b * 65536 + a)"

primrec sums :: "u8 list \<Rightarrow> nat \<times> nat \<Rightarrow> nat \<times> nat" where
  "sums [] s = s"
| "sums (c # cs) s = sums cs (fst s + unat c, snd s + fst s + unat c)"

lemma adler_block_sums:
  assumes "2 * unat b + 2 * length cs * unat a + 255 * length cs * (length cs + 1) < 2 ^ 33" "unat a + 255 * length cs < 2 ^ 32"
  shows "map_prod unat unat (adler_block cs (a, b)) = sums cs (unat a, unat b)"
  using assms
proof (induction cs arbitrary: a b)
  case (Cons c cs)
  have c: "unat (ucast c :: u32) = unat c" "unat c \<le> 255"
    using unsigned_less [of c, where ?'a = nat] by (simp_all add: unat_ucast_up)
  have a: "unat (a + ucast c) = unat a + unat c"
    using Cons.prems(2) c by (subst unat_add_no_wrap) simp_all
  have le: "2 * (unat b + unat a + unat c) + 2 * length cs * (unat a + unat c) + 255 * length cs * (length cs + 1)
      \<le> 2 * unat b + 2 * length (c # cs) * unat a + 255 * length (c # cs) * (length (c # cs) + 1)"
    using c(2) by (simp add: algebra_simps) (intro add_mono mult_le_mono2; simp)
  have b: "unat (b + (a + ucast c)) = unat b + unat a + unat c"
    using le Cons.prems(1) a by (subst unat_add_no_wrap) simp_all
  have "map_prod unat unat (adler_block cs (a + ucast c, b + (a + ucast c))) = sums cs (unat (a + ucast c), unat (b + (a + ucast c)))"
    by (rule Cons.IH) (use le Cons.prems a b c in simp_all)
  then show ?case by (simp add: a b add.assoc)
qed simp

lemma sums_mod:
  "map_prod (\<lambda>x. x mod 65521) (\<lambda>x. x mod 65521) (sums cs (a, b)) = foldl adler_step (a mod 65521, b mod 65521) cs"
proof (induction cs arbitrary: a b)
  case (Cons c cs)
  have "adler_step (a mod 65521, b mod 65521) c = ((a + unat c) mod 65521, (b + a + unat c) mod 65521)"
    using mod_add_eq [of b 65521 a] mod_add_left_eq [of "b mod 65521 + a mod 65521" 65521 "unat c"] mod_add_left_eq [of "b + a" 65521 "unat c"]
    by (simp add: adler_step_def mod_add_left_eq)
  then show ?case using Cons by simp
qed simp

lemma adler_loop_ok:
  "unat (fst s) < 65521 \<Longrightarrow> unat (snd s) < 65521 \<Longrightarrow> block_len \<le> 5552 \<Longrightarrow>
   map_prod unat unat (adler_loop ptr block_len s) = foldl adler_step (map_prod unat unat s) ptr"
proof (induction ptr block_len s rule: adler_loop.induct)
  case (1 ptr block_len s)
  show ?case
  proof (cases "ptr = []")
    case True
    then show ?thesis by (simp add: adler_loop.simps)
  next
    case False
    obtain a b where s: "s = (a, b)" by (cases s)
    let ?cs = "take block_len ptr"
    have n: "length ?cs \<le> 5552" using "1.prems"(3) by simp
    obtain s1 s2 where ab: "adler_block ?cs s = (s1, s2)" by (cases "adler_block ?cs s")
    have "length ?cs * unat a \<le> 5552 * 65520" "length ?cs * (length ?cs + 1) \<le> 5552 * 5553"
      using n "1.prems"(1) s by (intro mult_le_mono; simp)+
    then have "map_prod unat unat (adler_block ?cs (a, b)) = sums ?cs (unat a, unat b)"
      using "1.prems" n s by (intro adler_block_sums) (simp_all add: algebra_simps)
    then have "map_prod (\<lambda>x. x mod 65521) (\<lambda>x. x mod 65521) (unat s1, unat s2) = foldl adler_step (unat a, unat b) ?cs"
      using sums_mod [of ?cs "unat a" "unat b"] ab s "1.prems" by simp
    then have eq: "map_prod unat unat (s1 mod 65521, s2 mod 65521) = foldl adler_step (map_prod unat unat s) ?cs"
      by (simp add: unat_mod s)
    have "unat (s1 mod 65521) < 65521" "unat (s2 mod 65521) < 65521" by (simp_all add: unat_mod)
    then have "map_prod unat unat (adler_loop (drop block_len ptr) 5552 (s1 mod 65521, s2 mod 65521))
        = foldl adler_step (foldl adler_step (map_prod unat unat s) ?cs) (drop block_len ptr)"
      using "1.IH" [OF False ab [symmetric]] eq by simp
    then show ?thesis using False ab by (subst adler_loop.simps) (simp flip: foldl_append)
  qed
qed

lemma foldl_adler_less:
  "fst s < 65521 \<Longrightarrow> snd s < 65521 \<Longrightarrow> fst (foldl adler_step s bs) < 65521 \<and> snd (foldl adler_step s bs) < 65521"
  by (induction bs arbitrary: s) (simp_all add: adler_step_def)

lemma adler32_less: "adler32 bs < 2 ^ 32"
  using foldl_adler_less [of "(1, 0)" bs] by (auto simp: adler32_def split: prod.splits)

text \<open>The checksum of the decompressor is Adler-32.\<close>

theorem adler_of_adler32: "adler_of bs 1 = of_nat (adler32 bs)"
proof -
  obtain s1 s2 where s: "adler_loop bs (length bs mod 5552) (1, 0) = (s1, s2)" by (cases "adler_loop bs (length bs mod 5552) (1, 0)")
  have "map_prod unat unat (s1, s2) = foldl adler_step (1, 0) bs"
    using adler_loop_ok [of "(1, 0)" "length bs mod 5552" bs] s mod_less_divisor [of 5552 "length bs"] by simp
  then have f: "foldl adler_step (1, 0) bs = (unat s1, unat s2)" by simp
  have "adler_of bs 1 = push_bit 16 s2 + s1" by (simp add: adler_of_def s)
  also have "\<dots> = of_nat (unat s2 * 65536 + unat s1)" by (simp add: push_bit_eq_mult mult.commute)
  finally show ?thesis by (simp add: adler32_def f [unfolded One_nat_def])
qed

definition be_bytes :: "nat \<Rightarrow> u8 list" where
  "be_bytes v = [of_nat (v div 2 ^ 24), of_nat (v div 2 ^ 16), of_nat (v div 2 ^ 8), of_nat v]"

lemma length_be_bytes: "length (be_bytes v) = 4"
  by (simp add: be_bytes_def)

lemma read_adler_ready:
  "at_bits cap st off (bytes_bits ds @ cs) out \<Longrightarrow> off mod 8 = 0 \<Longrightarrow>
   \<exists>st'. read_adler (length ds) z st = (foldl (\<lambda>z d. push_bit 8 z OR ucast d) z ds, st') \<and>
     at_bits cap st' (off + 8 * length ds) cs out"
proof (induction ds arbitrary: st off z)
  case (Cons d ds)
  obtain s1 where s1: "raw_byte st = (unat d, s1)" "at_bits cap s1 (off + 8) (bytes_bits ds @ cs) out"
    using raw_byte_ready [of cap st off d "bytes_bits ds @ cs" out] Cons.prems by auto
  show ?case using Cons.IH [OF s1(2), of "push_bit 8 z OR ucast d"] Cons.prems(2) s1(1) by (simp add: add.assoc)
qed simp

lemma be_bytes_word:
  assumes "v < 2 ^ 32"
  shows "foldl (\<lambda>z d. push_bit 8 z OR ucast d) (z :: u32) (be_bytes v) = of_nat v"
proof (rule bit_word_eqI)
  fix i assume "i < LENGTH(32)"
  have d: "bit (v div 2 ^ n) j = bit v (n + j)" for n j by (simp add: bit_drop_bit_eq flip: drop_bit_eq_div)
  have d': "bit (v div 16777216) j = bit v (24 + j)" "bit (v div 65536) j = bit v (16 + j)" "bit (v div 256) j = bit v (8 + j)" for j
    using d [of 24 j] d [of 16 j] d [of 8 j] by simp_all
  show "bit (foldl (\<lambda>z d. push_bit 8 z OR ucast d) (z :: u32) (be_bytes v)) i = bit (of_nat v :: u32) i"
    using \<open>i < LENGTH(32)\<close>
    by (cases "i < 8"; cases "i < 16"; cases "i < 24")
      (auto simp: be_bytes_def bit_or_iff bit_push_bit_iff bit_ucast_iff bit_of_nat_iff d')
qed

section \<open>Streams\<close>

definition zlib_header :: "u8 \<Rightarrow> u8 \<Rightarrow> bool" where
  "zlib_header cmf flg \<longleftrightarrow> unat cmf mod 16 = 8 \<and> \<not> bit flg 5 \<and> (unat cmf * 256 + unat flg) mod 31 = 0"

definition zlib_bits :: "block list \<Rightarrow> bool list \<Rightarrow> bool list" where
  "zlib_bits bs pad = stream_bits bs @ pad @ bytes_bits (be_bytes (adler32 (stream_out [] bs)))"

text \<open>
  The bytes \<open>src\<close> start with a zlib stream of the blocks \<open>bs\<close>: the header, the blocks, the bits up to the next
  byte and the checksum of the contents. Bytes may follow.
\<close>

definition zlib_stream :: "block list \<Rightarrow> bool list \<Rightarrow> u8 list \<Rightarrow> bool" where
  "zlib_stream bs pad src \<longleftrightarrow> 2 \<le> length src \<and> zlib_header (src ! 0) (src ! 1) \<and> bs \<noteq> [] \<and> stream_ok 0 [] bs \<and>
     length pad < 8 \<and> (length (stream_bits bs) + length pad) mod 8 = 0 \<and> prefix (zlib_bits bs pad) (bytes_bits (drop 2 src))"

lemma zlib_header_ok: "zlib_header cmf flg \<Longrightarrow> \<not> zlib_header_bad cmf flg"
proof -
  assume h: "zlib_header cmf flg"
  have "flg AND 32 = 0"
  proof (rule bit_word_eqI)
    fix n
    have *: "(32 :: u8) = 2 ^ 5" by simp
    show "bit (flg AND 32) n = bit (0 :: u8) n"
      using h unfolding * bit_and_iff bit_exp_iff zlib_header_def by auto
  qed
  moreover have "cmf AND 15 = 8"
  proof -
    have "(15 :: u8) = mask 4" by (simp add: mask_eq_exp_minus_1)
    then have "unat (cmf AND 15) = unat cmf mod 2 ^ 4" by (simp only: unat_mask_and)
    then have "unat (cmf AND 15) = unat (8 :: u8)" using h by (simp add: zlib_header_def)
    then show ?thesis by (simp only: unsigned_word_eqI)
  qed
  ultimately show ?thesis using h by (simp add: zlib_header_bad_def zlib_header_def)
qed

theorem tinfl_decompress_stream:
  assumes "zlib_stream bs pad src" "length (stream_out [] bs) \<le> length out"
  shows "\<exists>st. tinfl_decompress out src = Inr (DONE, st) \<and> out_cur st = length (stream_out [] bs) \<and>
    length (out_buf st) = length out \<and> prefix (stream_out [] bs) (out_buf st)"
proof -
  let ?sum = "bytes_bits (be_bytes (adler32 (stream_out [] bs)))" and ?n = "length (stream_bits bs)"
  obtain cmf flg rest where src: "src = cmf # flg # rest"
    using assms(1) by (cases src rule: remdups_adj.cases) (auto simp: zlib_stream_def)
  have z: "zlib_header cmf flg" "bs \<noteq> []" "stream_ok 0 [] bs" "length pad < 8" "(?n + length pad) mod 8 = 0"
    "prefix (stream_bits bs @ pad @ ?sum) (bytes_bits rest)"
    using assms(1) by (simp_all add: zlib_stream_def zlib_bits_def src)
  let ?st = "\<lparr>in_rest = rest, num_bits = 0, bit_buf = 0, out_buf = out, out_cur = 0\<rparr> :: inflater"
  have st: "at_bits (length out) ?st 0 (stream_bits bs @ pad @ ?sum @ []) []"
    using z(6) by (simp add: at_bits_def buffered_def bits_left_def)
  have "?n \<le> 8 * length rest" using prefix_length_le [OF z(6)] by simp
  then have "length bs \<le> 8 * length src + 8" using length_stream_bits [of bs] src by simp
  from blocks_ready [OF st z(3) assms(2) z(2) this] obtain s3 where s3: "blocks (8 * length src + 8) ?st = Inr s3"
    "at_bits (length out) s3 ?n (pad @ ?sum @ []) (stream_out [] bs)" by auto
  have "num_bits s3 mod 8 = length pad" using pad_length [OF readyD(3) [OF s3(2)] z(5,4)] .
  then have s4: "at_bits (length out) (skip_bits (num_bits s3 mod 8) s3) (?n + length pad) (?sum @ []) (stream_out [] bs)" (is "at_bits _ ?s4 _ _ _")
    using skip_bits_ready [OF s3(2) refl] z(4) by simp
  obtain s5 where s5: "read_adler 4 1 ?s4 = (of_nat (adler32 (stream_out [] bs)), s5)"
    "at_bits (length out) s5 (?n + length pad + 8 * 4) [] (stream_out [] bs)"
    using read_adler_ready [OF s4 z(5), of 1, unfolded length_be_bytes be_bytes_word [OF adler32_less]] by blast
  note r = readyD [OF s5(2)]
  have "take (length (stream_out [] bs)) (out_buf s5) = stream_out [] bs" using r(6) by (auto simp: prefix_def)
  then have "tinfl_decompress out src = Inr (DONE, s5)"
    using zlib_header_ok [OF z(1)] s3(1) s5(1) r(5)
    by (simp add: tinfl_decompress_def get_byte_def src Let_def adler_of_adler32)
  then show ?thesis using r by blast
qed

lemma zlib_stream_append: "zlib_stream bs pad src \<Longrightarrow> zlib_stream bs pad (src @ xs)"
  by (auto simp: zlib_stream_def nth_append prefix_def)

lemma inflated_prefix:
  assumes "zlib_stream bs pad src" "length (stream_out [] bs) \<le> length out"
  shows "\<exists>rest. tinfl_decompress_mem_to_mem out src = Inr (Some (length (stream_out [] bs), stream_out [] bs @ rest)) \<and>
    length (stream_out [] bs @ rest) = length out"
  using tinfl_decompress_stream [OF assms] by (auto simp: tinfl_decompress_mem_to_mem_def prefix_def)

text \<open>The stream of one stored block.\<close>

definition zlib_stored :: "u8 list \<Rightarrow> u8 list" where
  "zlib_stored ds = [0x78, 0x01, 0x01, of_nat (length ds), of_nat (length ds div 256), of_nat (65535 - length ds),
     of_nat ((65535 - length ds) div 256)] @ ds @ be_bytes (adler32 ds)"

lemma zlib_stored_stream:
  assumes "length ds < 65536"
  shows "zlib_stream [Stored (replicate 5 False) ds] [] (zlib_stored ds)" "stream_out [] [Stored (replicate 5 False) ds] = ds"
proof -
  have b: "byte_bits 0x01 = [True, False, False] @ replicate 5 False" by code_simp
  have h: "header_bits True (Stored (replicate 5 False) ds) = [True, False, False]" by (simp add: header_bits_def lsb_bits_def upt_rec)
  show out: "stream_out [] [Stored (replicate 5 False) ds] = ds" by (simp add: stream_out_def)
  let ?body = "[0x01, of_nat (length ds), of_nat (length ds div 256), of_nat (65535 - length ds),
     of_nat ((65535 - length ds) div 256)] @ ds"
  have src: "zlib_stored ds = 0x78 # 0x01 # ?body @ be_bytes (adler32 ds)" by (simp add: zlib_stored_def)
  have bits: "stream_bits [Stored (replicate 5 False) ds] = bytes_bits ?body"
    using assms by (simp add: h stored_bits_of_def lsb_bits_16 b del: of_nat_diff)
  have "length (stream_bits [Stored (replicate 5 False) ds]) = 8 * (5 + length ds)" unfolding bits length_bytes_bits by simp
  moreover have "zlib_header 0x78 0x01" by (simp add: zlib_header_def)
  moreover have "zlib_bits [Stored (replicate 5 False) ds] [] = bytes_bits (drop 2 (zlib_stored ds))"
    unfolding zlib_bits_def bits out src by simp
  ultimately show "zlib_stream [Stored (replicate 5 False) ds] [] (zlib_stored ds)"
    using assms unfolding zlib_stream_def by (simp add: src)
qed

section \<open>Properties\<close>

text \<open>
  C5. Every zlib stream is unpacked: if the input starts with the header, any sequence of stored, fixed and
  dynamic blocks of literals and matches, and the Adler-32 checksum of their contents, and the contents fit into the
  output buffer, \<open>tinfl_decompress_mem_to_mem\<close> returns their number and leaves exactly the contents at the start of the
  buffer.
\<close>

theorem inflate_roundtrip:
  assumes "zlib_stream bs pad src" "length (stream_out [] bs) \<le> length out"
  shows "\<exists>rest. tinfl_decompress_mem_to_mem out src = Inr (Some (length (stream_out [] bs), stream_out [] bs @ rest)) \<and>
    length (stream_out [] bs @ rest) = length out"
  by (rule inflated_prefix [OF assms])

definition sample_blocks :: "block list" where
  "sample_blocks = [Fixed [Literal 0x61, Literal 0x61, Match 5 0 0 0]]"

definition sample_stream :: "u8 list" where
  "sample_stream = [0x78, 0xda, 0x4b, 0x4c, 0x84, 0x01, 0x00, 0x14, 0xe1, 0x03, 0xcb]"

lemma sample_out: "stream_out [] sample_blocks = [0x61, 0x61, 0x61, 0x61, 0x61, 0x61, 0x61, 0x61, 0x61, 0x61]"
  by code_simp

lemma sample_zlib: "zlib_stream sample_blocks [False, False] sample_stream"
proof -
  have ok: "stream_ok 0 [] sample_blocks"
    by (simp add: sample_blocks_def codes_ok_def fixed_lit_ok fixed_dist_ok fixed_coded fixed_dist_code
        len_extra_def dist_extra_def dist_base_def)
  have bits: "stream_bits sample_blocks @ [False, False] = bytes_bits [0x4b, 0x4c, 0x84, 0x01, 0x00]"
    by (simp add: sample_blocks_def header_bits_def codes_bits_def tokens_simps fixed_code_bits fixed_dist_code
        len_extra_def dist_extra_def) code_simp
  have "adler32 [0x61, 0x61, 0x61, 0x61, 0x61, 0x61, 0x61, 0x61, 0x61, 0x61] = 0x14e103cb"
    by (simp add: adler32_def adler_step_def)
  moreover have "be_bytes 0x14e103cb = [0x14, 0xe1, 0x03, 0xcb]" by (simp add: be_bytes_def)
  ultimately have "zlib_bits sample_blocks [False, False] = bytes_bits [0x4b, 0x4c, 0x84, 0x01, 0x00] @ bytes_bits [0x14, 0xe1, 0x03, 0xcb]"
    unfolding zlib_bits_def append_assoc [symmetric] bits sample_out by simp
  moreover have "length (stream_bits sample_blocks) = 38" using arg_cong [OF bits, of length] by simp
  moreover have "zlib_header 0x78 0xda" by (simp add: zlib_header_def)
  ultimately show ?thesis unfolding zlib_stream_def using ok by (simp add: sample_stream_def) (simp add: sample_blocks_def)
qed

theorem inflate_roundtrip_witness:
  "zlib_stream sample_blocks [False, False] sample_stream \<and>
   tinfl_decompress_mem_to_mem (replicate 10 0) sample_stream =
     Inr (Some (10, [0x61, 0x61, 0x61, 0x61, 0x61, 0x61, 0x61, 0x61, 0x61, 0x61]))"
  using inflate_roundtrip [OF sample_zlib, of "replicate 10 0"] sample_zlib by (simp add: sample_out)

text \<open>
  The checksum that \<open>tinfl_decompress\<close> computes over the output, in blocks of 5552 bytes with 32-bit sums, is the
  Adler-32 checksum of RFC 1950.
\<close>

theorem adler_checksum: "adler_of bs 1 = of_nat (adler32 bs)"
  by (rule adler_of_adler32)

end
