(* ===== verification/Initrd.thy ===== *)
theory Initrd
  imports Crc32 Zlib
begin

text \<open>
  The initial ramdisk, \<^verbatim>\<open>src/src/kernel/initrd.h\<close> and \<^verbatim>\<open>initrd.cc\<close>: \<open>PackageReader\<close> finds the archive
  header in a memory area, inflates the archive and walks its entries; \<open>Initrd::Init\<close> checks each
  file's CRC and collects the files. The archive is inflated by \<open>tinfl_decompress_mem_to_mem\<close> of theory \<open>Inflate\<close>.
  The block that \<open>malloc\<close> returns (its bytes, or nothing), the memory behind the area and the
  kernel's version number are parameters: the length that is passed for the compressed data is the length
  of the area less 20 bytes, wherever in the area they start, so that it reaches into the memory
  behind. A pointer into the inflated buffer is the bytes from there
  on; \<open>None\<close> is the null pointer. A read past the end of a buffer is \<open>OutOfBounds\<close>.

  The lemmas show that a well-formed archive, a zlib stream of index names and entries, is read back entry by
  entry (files and links, in order), that a file whose bytes were changed is not accepted, and that reading always ends.
\<close>

section \<open>\<open>PackageReader\<close>\<close>

record package_env =
  malloc_block :: "u32 \<Rightarrow> u8 list option"
  behind_area :: "u8 list"
  version_number :: u32

definition PACKAGE_MAGIC :: u32 where "PACKAGE_MAGIC = 0xCAFECAFE"

definition FILE_DEFAULT :: u32 where "FILE_DEFAULT = 0xAA"
definition FILE_LINK :: u32 where "FILE_LINK = 0xBB"

record PackageFile =
  pf_is_link :: bool
  pf_name :: "u8 list option"
  pf_buf :: "u8 list option"
  pf_len :: u32
  pf_content :: u32

definition PackageFile_default :: PackageFile where
  "PackageFile_default = \<lparr>pf_is_link = False, pf_name = None, pf_buf = None, pf_len = 0, pf_content = 0\<rparr>"

definition pf_empty :: "PackageFile \<Rightarrow> bool" where
  "pf_empty f \<longleftrightarrow> pf_buf f = None \<and> \<not> pf_is_link f"

record PackageReader =
  next_ptr :: "u8 list option"
  files_left :: u32
  pr_runtime_index_name :: "u8 list option"
  pr_app_index_name :: "u8 list option"

definition pr_empty :: PackageReader where
  "pr_empty = \<lparr>next_ptr = None, files_left = 0, pr_runtime_index_name = Some [], pr_app_index_name = Some []\<rparr>"

definition deref :: "u8 list option \<Rightarrow> u8 list res" where
  "deref p = (case p of None \<Rightarrow> Inl (OutOfBounds ''null pointer'') | Some bs \<Rightarrow> Inr bs)"

text \<open>The C string at a pointer.\<close>

definition c_string :: "u8 list \<Rightarrow> u8 list" where
  "c_string bs = takeWhile (\<lambda>b. b \<noteq> 0) bs"

definition pr_ReadUint32 :: "PackageReader \<Rightarrow> (u32 \<times> PackageReader) res" where
  "pr_ReadUint32 r = res_bind (deref (next_ptr r)) (\<lambda>p. res_bind (ReadUint32BE p 0) (\<lambda>v.
     Inr (v, r\<lparr>next_ptr := Some (drop 4 p)\<rparr>)))"

definition pr_ReadString :: "PackageReader \<Rightarrow> (u8 list option \<times> PackageReader) res" where
  "pr_ReadString r = res_bind (deref (next_ptr r)) (\<lambda>p. res_bind (ReadUint16BE p 0) (\<lambda>len.
     let str = drop 2 p in
     res_bind (byte_at str (unat len)) (\<lambda>b.
       if b \<noteq> 0 then Inr (None, r)
       else Inr (Some (c_string str), r\<lparr>next_ptr := Some (drop (unat len + 3) p)\<rparr>))))"

definition pr_Finish :: "PackageReader \<Rightarrow> PackageFile \<times> PackageReader" where
  "pr_Finish r = (PackageFile_default, r\<lparr>next_ptr := None, files_left := 0\<rparr>)"

definition pr_Next :: "PackageReader \<Rightarrow> (PackageFile \<times> PackageReader) res" where
  "pr_Next r =
     (if files_left r = 0 \<or> next_ptr r = None then Inr (pr_Finish r)
      else res_bind (pr_ReadUint32 r) (\<lambda>(type, r1).
        if type \<noteq> FILE_DEFAULT \<and> type \<noteq> FILE_LINK then Inr (pr_Finish r1)
        else res_bind (pr_ReadUint32 r1) (\<lambda>(len, r2).
        res_bind (pr_ReadString r2) (\<lambda>(name, r3).
        res_bind (pr_ReadUint32 r3) (\<lambda>(content, r4).
          if type = FILE_LINK
          then Inr (\<lparr>pf_is_link = True, pf_name = name, pf_buf = None, pf_len = len, pf_content = content\<rparr>,
                    r4\<lparr>files_left := files_left r4 - 1\<rparr>)
          else res_bind (deref (next_ptr r4)) (\<lambda>p.
            Inr (\<lparr>pf_is_link = False, pf_name = name, pf_buf = Some p, pf_len = len, pf_content = content\<rparr>,
                 r4\<lparr>next_ptr := Some (drop (unat len) p), files_left := files_left r4 - 1\<rparr>)))))))"

text \<open>
  The body of the search loop once the magic number was read: \<open>pos\<close> is the offset after it.
  \<open>None\<close> means \<open>continue\<close>.
\<close>

definition open_package :: "package_env \<Rightarrow> u8 list \<Rightarrow> nat \<Rightarrow> PackageReader option res" where
  "open_package env buf pos =
     res_bind (byte_at buf pos) (\<lambda>p0. if p0 \<noteq> 0x50 then Inr None else
     res_bind (byte_at buf (pos + 1)) (\<lambda>p1. if p1 \<noteq> 0x43 then Inr None else
     res_bind (byte_at buf (pos + 2)) (\<lambda>p2. if p2 \<noteq> 0x4B then Inr None else
     res_bind (byte_at buf (pos + 3)) (\<lambda>p3. if p3 \<noteq> 0x47 then Inr None else
     res_bind (ReadUint32BE buf (pos + 4)) (\<lambda>old_count.
     if old_count \<noteq> 0 then Inr (Some pr_empty)
     else res_bind (ReadUint32BE buf (pos + 8)) (\<lambda>kernelVer.
     if kernelVer \<noteq> version_number env then Inr (Some pr_empty)
     else res_bind (ReadUint32BE buf (pos + 12)) (\<lambda>count.
     res_bind (ReadUint32BE buf (pos + 16)) (\<lambda>inflated_size.
     case malloc_block env inflated_size of
       None \<Rightarrow> Inr (Some (pr_empty\<lparr>files_left := count\<rparr>))
     | Some ptr \<Rightarrow>
         res_bind (tinfl_decompress_mem_to_mem ptr (take (length buf - 20) (drop (pos + 20) buf @ behind_area env))) (\<lambda>dec_result.
         case dec_result of
           None \<Rightarrow> Inr (Some (pr_empty\<lparr>files_left := count\<rparr>))
         | Some (n, data) \<Rightarrow>
             res_bind (pr_ReadString (pr_empty\<lparr>next_ptr := Some data, files_left := count\<rparr>)) (\<lambda>(rt_name, r1).
             res_bind (pr_ReadString r1) (\<lambda>(app_name, r2).
               Inr (Some (r2\<lparr>pr_runtime_index_name := rt_name, pr_app_index_name := app_name\<rparr>)))))))))))))"

function find_package :: "package_env \<Rightarrow> u8 list \<Rightarrow> nat \<Rightarrow> PackageReader res" where
  "find_package env buf pos =
     (if pos < length buf
      then res_bind (ReadUint32BE buf pos) (\<lambda>value.
        if value \<noteq> PACKAGE_MAGIC then find_package env buf (pos + 4)
        else res_bind (open_package env buf (pos + 4)) (\<lambda>r. case r of
            None \<Rightarrow> find_package env buf (pos + 4) | Some rd \<Rightarrow> Inr rd))
      else Inr pr_empty)"
  by pat_completeness auto
termination by (relation "measure (\<lambda>(env, buf, pos). length buf - pos)") auto

declare find_package.simps [simp del]

text \<open>\<open>start\<close> is the address of the area; the search begins at the next multiple of four.\<close>

definition mk_PackageReader :: "package_env \<Rightarrow> u64 \<Rightarrow> u8 list \<Rightarrow> PackageReader res" where
  "mk_PackageReader env start buf =
     res_bind (rt_assert (start \<noteq> 0) ''start'') (\<lambda>_.
     res_bind (rt_assert (length buf > 0) ''len > 0'') (\<lambda>_.
     res_bind (AlignPtr start 4) (\<lambda>pos. find_package env buf (unat (pos - start)))))"

section \<open>\<open>Initrd\<close>\<close>

record InitrdFile =
  if_name :: "u8 list"
  if_size :: u64
  if_data :: "u8 list"
  if_is_empty :: bool

definition InitrdFile_default :: InitrdFile where
  "InitrdFile_default = \<lparr>if_name = map (\<lambda>c. of_nat (of_char c)) ''<invalid_file>'', if_size = 0, if_data = [], if_is_empty = True\<rparr>"

definition mk_InitrdFile :: "u8 list option \<Rightarrow> u64 \<Rightarrow> u8 list \<Rightarrow> InitrdFile res" where
  "mk_InitrdFile name sz data = (case name of None \<Rightarrow> Inl (AssertFailed ''name'')
     | Some n \<Rightarrow> Inr \<lparr>if_name = n, if_size = sz, if_data = data, if_is_empty = False\<rparr>)"

record Initrd =
  files :: "InitrdFile list"
  runtime_index_name :: "u8 list option"
  app_index_name :: "u8 list option"

definition mk_Initrd :: Initrd where
  "mk_Initrd = \<lparr>files = [], runtime_index_name = Some [], app_index_name = Some []\<rparr>"

text \<open>One round of the loop: the file to add, or nothing when the loop breaks.\<close>

definition accept_file :: "InitrdFile list \<Rightarrow> PackageFile \<Rightarrow> InitrdFile option res" where
  "accept_file fs f =
     (if pf_is_link f then
        if unat (pf_content f) \<ge> length fs then Inr None
        else let t = fs ! unat (pf_content f) in
          res_bind (mk_InitrdFile (pf_name f) (if_size t) (if_data t)) (\<lambda>x. Inr (Some x))
      else res_bind (deref (pf_buf f)) (\<lambda>p.
        if length p < unat (pf_len f) then Inl (OutOfBounds ''CRC32::Compute'')
        else let body = take (unat (pf_len f)) p in
          if pf_content f \<noteq> CRC32_Compute body then Inr None
          else res_bind (mk_InitrdFile (pf_name f) (ucast (pf_len f)) body) (\<lambda>x. Inr (Some x))))"

lemma pr_ReadUint32_keeps:
  "pr_ReadUint32 r = Inr (v, r') \<Longrightarrow> files_left r' = files_left r"
  by (auto simp: pr_ReadUint32_def res_iffs)

lemma pr_ReadString_keeps:
  "pr_ReadString r = Inr (v, r') \<Longrightarrow> files_left r' = files_left r"
  by (auto simp: pr_ReadString_def res_iffs Let_def split: if_splits)

lemma pr_Next_decreases:
  assumes "pr_Next r = Inr (f, r')" "\<not> pf_empty f"
  shows "unat (files_left r') < unat (files_left r)"
proof -
  have nz: "files_left r \<noteq> 0"
    using assms by (auto simp: pr_Next_def pr_Finish_def PackageFile_default_def pf_empty_def)
  have "files_left r' = files_left r - 1"
    using assms
    by (auto simp: pr_Next_def pr_Finish_def PackageFile_default_def pf_empty_def res_iffs
        dest!: pr_ReadUint32_keeps pr_ReadString_keeps split: if_splits)
  then show ?thesis using nz by (simp add: unat_minus_one unat_gt_0)
qed

function init_files :: "PackageReader \<Rightarrow> InitrdFile list \<Rightarrow> InitrdFile list res" where
  "init_files r fs =
     (case pr_Next r of Inl e \<Rightarrow> Inl e
      | Inr (f, r') \<Rightarrow>
          if pf_empty f then Inr fs
          else case accept_file fs f of Inl e \<Rightarrow> Inl e
            | Inr None \<Rightarrow> Inr fs
            | Inr (Some x) \<Rightarrow> init_files r' (fs @ [x]))"
  by pat_completeness auto
termination
  by (relation "measure (\<lambda>(r, fs). unat (files_left r))") (auto intro: pr_Next_decreases)

declare init_files.simps [simp del]

definition Initrd_Init :: "package_env \<Rightarrow> u64 \<Rightarrow> u8 list \<Rightarrow> Initrd \<Rightarrow> Initrd res" where
  "Initrd_Init env start buf rd =
     res_bind (rt_assert (start \<noteq> 0) ''buf'') (\<lambda>_.
     res_bind (rt_assert (length buf > 0) ''len > 0'') (\<lambda>_.
     res_bind (mk_PackageReader env start buf) (\<lambda>reader.
     res_bind (init_files reader (files rd)) (\<lambda>fs.
       Inr \<lparr>files = fs, runtime_index_name = pr_runtime_index_name reader,
            app_index_name = pr_app_index_name reader\<rparr>))))"

definition GetByIndex :: "Initrd \<Rightarrow> nat \<Rightarrow> InitrdFile res" where
  "GetByIndex rd i = res_bind (rt_assert (i < length (files rd)) ''index < files_.size()'') (\<lambda>_. Inr (files rd ! i))"

fun initrd_find :: "InitrdFile list \<Rightarrow> u8 list \<Rightarrow> InitrdFile" where
  "initrd_find [] filename = InitrdFile_default"
| "initrd_find (f # fs) filename = (if filename = if_name f then f else initrd_find fs filename)"

definition Initrd_Get :: "Initrd \<Rightarrow> u8 list \<Rightarrow> InitrdFile" where
  "Initrd_Get rd filename = initrd_find (files rd) filename"

section \<open>The archive format\<close>

definition be16 :: "u16 \<Rightarrow> u8 list" where
  "be16 w = [ucast (drop_bit 8 w), ucast w]"

definition be32 :: "u32 \<Rightarrow> u8 list" where
  "be32 w = [ucast (drop_bit 24 w), ucast (drop_bit 16 w), ucast (drop_bit 8 w), ucast w]"

definition name_bytes :: "u8 list \<Rightarrow> u8 list" where
  "name_bytes n = be16 (of_nat (length n)) @ n @ [0]"

datatype entry = EFile "u8 list" "u8 list" | ELink "u8 list" u32

fun entry_bytes :: "entry \<Rightarrow> u8 list" where
  "entry_bytes (EFile n d) = be32 FILE_DEFAULT @ be32 (of_nat (length d)) @ name_bytes n @ be32 (CRC32_Compute d) @ d"
| "entry_bytes (ELink n i) = be32 FILE_LINK @ be32 0 @ name_bytes n @ be32 i"

definition name_ok :: "u8 list \<Rightarrow> bool" where
  "name_ok n \<longleftrightarrow> length n < 2 ^ 16 \<and> 0 \<notin> set n"

text \<open>Links refer to an earlier entry.\<close>

fun entries_ok :: "nat \<Rightarrow> entry list \<Rightarrow> bool" where
  "entries_ok k [] = True"
| "entries_ok k (EFile n d # es) = (name_ok n \<and> length d < 2 ^ 32 \<and> entries_ok (Suc k) es)"
| "entries_ok k (ELink n i # es) = (name_ok n \<and> unat i < k \<and> entries_ok (Suc k) es)"

text \<open>The files an archive stands for.\<close>

fun expand :: "InitrdFile list \<Rightarrow> entry list \<Rightarrow> InitrdFile list" where
  "expand fs [] = fs"
| "expand fs (EFile n d # es) =
     expand (fs @ [\<lparr>if_name = n, if_size = of_nat (length d), if_data = d, if_is_empty = False\<rparr>]) es"
| "expand fs (ELink n i # es) =
     expand (fs @ [\<lparr>if_name = n, if_size = if_size (fs ! unat i), if_data = if_data (fs ! unat i), if_is_empty = False\<rparr>]) es"

lemma length_be [simp]: "length (be16 h) = 2" "length (be32 w) = 4"
  by (simp_all add: be16_def be32_def)

lemma be16_value: "ucast (ucast w :: u8) OR push_bit 8 (ucast (ucast (drop_bit 8 w) :: u8)) = (w :: u16)"
proof (rule bit_word_eqI)
  fix n assume n: "n < LENGTH(16)"
  show "bit (ucast (ucast w :: u8) OR push_bit 8 (ucast (ucast (drop_bit 8 w) :: u8)) :: u16) n = bit w n"
    using n by (cases "n < 8") (auto simp: bit_or_iff bit_push_bit_iff bit_ucast_iff bit_drop_bit_eq)
qed

lemma be32_value:
  "ucast (ucast w :: u8) OR push_bit 8 (ucast (ucast (drop_bit 8 w) :: u8)) OR
   push_bit 16 (ucast (ucast (drop_bit 16 w) :: u8)) OR push_bit 24 (ucast (ucast (drop_bit 24 w) :: u8)) = (w :: u32)"
proof (rule bit_word_eqI)
  fix n assume n: "n < LENGTH(32)"
  consider "n < 8" | "8 \<le> n" "n < 16" | "16 \<le> n" "n < 24" | "24 \<le> n" by linarith
  then show "bit (ucast (ucast w :: u8) OR push_bit 8 (ucast (ucast (drop_bit 8 w) :: u8)) OR
   push_bit 16 (ucast (ucast (drop_bit 16 w) :: u8)) OR push_bit 24 (ucast (ucast (drop_bit 24 w) :: u8)) :: u32) n = bit w n"
    using n by cases (auto simp: bit_or_iff bit_push_bit_iff bit_ucast_iff bit_drop_bit_eq)
qed

lemma ReadUint32BE_be32: "length pre = k \<Longrightarrow> ReadUint32BE (pre @ be32 w @ rest) k = Inr w"
  using be32_value [of w] by (auto simp: ReadUint32BE_def byte_at_def be32_def nth_append or.assoc)

lemma ReadUint16BE_be16: "ReadUint16BE (be16 h @ rest) 0 = Inr h"
  using be16_value [of h] by (simp add: ReadUint16BE_def byte_at_def be16_def)

lemma pr_ReadUint32_be32:
  "next_ptr r = Some (be32 w @ rest) \<Longrightarrow> pr_ReadUint32 r = Inr (w, r\<lparr>next_ptr := Some rest\<rparr>)"
  using ReadUint32BE_be32 [of "[]" 0 w rest] by (simp add: pr_ReadUint32_def deref_def)

lemma c_string_name: "0 \<notin> set n \<Longrightarrow> c_string (n @ 0 # rest) = n"
  unfolding c_string_def by (subst takeWhile_append2) auto

lemma pr_ReadString_name:
  assumes "next_ptr r = Some (name_bytes n @ rest)" "name_ok n"
  shows "pr_ReadString r = Inr (Some n, r\<lparr>next_ptr := Some rest\<rparr>)"
proof -
  let ?h = "of_nat (length n) :: u16"
  have u: "unat ?h = length n" by (rule unat_of_nat_small) (use assms(2) in \<open>simp add: name_ok_def\<close>)
  have d: "drop 2 (be16 ?h @ n @ 0 # rest) = n @ 0 # rest" by (simp add: be16_def)
  have "drop (length n + 3) (be16 ?h @ n @ 0 # rest) = rest" by (simp add: be16_def numeral_3_eq_3)
  then show ?thesis
    using assms u d ReadUint16BE_be16 [of ?h "n @ 0 # rest"] c_string_name [of n rest]
    by (simp add: pr_ReadString_def deref_def name_bytes_def byte_at_def name_ok_def Let_def)
qed

lemma pr_Next_file:
  assumes "next_ptr r = Some (entry_bytes (EFile n d) @ rest)" "files_left r \<noteq> 0" "name_ok n"
  shows "pr_Next r = Inr (\<lparr>pf_is_link = False, pf_name = Some n, pf_buf = Some (d @ rest),
      pf_len = of_nat (length d), pf_content = CRC32_Compute d\<rparr>,
    r\<lparr>next_ptr := Some (drop (unat (of_nat (length d) :: u32)) (d @ rest)), files_left := files_left r - 1\<rparr>)"
  using assms by (simp add: pr_Next_def pr_ReadUint32_be32 pr_ReadString_name FILE_DEFAULT_def FILE_LINK_def deref_def)

lemma pr_Next_link:
  assumes "next_ptr r = Some (entry_bytes (ELink n i) @ rest)" "files_left r \<noteq> 0" "name_ok n"
  shows "pr_Next r = Inr (\<lparr>pf_is_link = True, pf_name = Some n, pf_buf = None, pf_len = 0, pf_content = i\<rparr>,
    r\<lparr>next_ptr := Some rest, files_left := files_left r - 1\<rparr>)"
  using assms by (simp add: pr_Next_def pr_ReadUint32_be32 pr_ReadString_name FILE_DEFAULT_def FILE_LINK_def deref_def)

lemma init_files_expand:
  assumes "entries_ok (length fs) es" "next_ptr r = Some (concat (map entry_bytes es) @ rest)"
    and "files_left r = of_nat (length es)" "length es < 2 ^ 32"
  shows "init_files r fs = Inr (expand fs es)"
  using assms
proof (induction es arbitrary: r fs)
  case Nil
  then show ?case
    by (subst init_files.simps) (simp add: pr_Next_def pr_Finish_def pf_empty_def PackageFile_default_def)
next
  case (Cons e es)
  have "unat (of_nat (length (e # es)) :: u32) = Suc (length es)"
    by (subst unat_of_nat_small) (use Cons.prems(4) in simp_all)
  then have nz: "files_left r \<noteq> 0" unfolding Cons.prems(3) by auto
  have left: "files_left r - 1 = of_nat (length es)" unfolding Cons.prems(3) by simp
  show ?case
  proof (cases e)
    case (EFile n d)
    have ok: "name_ok n" "length d < 2 ^ 32" "entries_ok (Suc (length fs)) es" using Cons.prems(1) EFile by auto
    have u: "unat (of_nat (length d) :: u32) = length d" by (rule unat_of_nat_small) (use ok(2) in simp)
    have sz: "(ucast (of_nat (length d) :: u32) :: u64) = of_nat (length d)"
      using ok(2) u by (simp add: word_unat_eq_iff unsigned_ucast_eq unat_of_nat_small take_bit_nat_eq_self)
    have at: "next_ptr r = Some (entry_bytes (EFile n d) @ concat (map entry_bytes es) @ rest)"
      using Cons.prems(2) EFile by simp
    show ?thesis
      using Cons.IH [of "fs @ [\<lparr>if_name = n, if_size = of_nat (length d), if_data = d, if_is_empty = False\<rparr>]"] ok u sz left EFile
        Cons.prems(4)
      by (subst init_files.simps)
        (simp add: pr_Next_file [OF at nz ok(1)] pf_empty_def accept_file_def deref_def mk_InitrdFile_def)
  next
    case (ELink n i)
    have ok: "name_ok n" "unat i < length fs" "entries_ok (Suc (length fs)) es" using Cons.prems(1) ELink by auto
    have at: "next_ptr r = Some (entry_bytes (ELink n i) @ concat (map entry_bytes es) @ rest)"
      using Cons.prems(2) ELink by simp
    show ?thesis
      using Cons.IH [of "fs @ [\<lparr>if_name = n, if_size = if_size (fs ! unat i), if_data = if_data (fs ! unat i), if_is_empty = False\<rparr>]"]
        ok left ELink Cons.prems(4)
      by (subst init_files.simps)
        (simp add: pr_Next_link [OF at nz ok(1)] pf_empty_def accept_file_def mk_InitrdFile_def Let_def)
  qed
qed

section \<open>Properties\<close>

definition package_image :: "u32 \<Rightarrow> u32 \<Rightarrow> u32 \<Rightarrow> u8 list \<Rightarrow> u8 list" where
  "package_image ver count sz z =
     be32 PACKAGE_MAGIC @ [0x50, 0x43, 0x4B, 0x47] @ be32 0 @ be32 ver @ be32 count @ be32 sz @ z"

lemma open_package_image:
  assumes "version_number env = ver" "malloc_block env sz = Some ptr"
    and "tinfl_decompress_mem_to_mem ptr (z @ take 4 (behind_area env)) = Inr (Some (n, name_bytes rt @ name_bytes app @ body))"
    and "name_ok rt" "name_ok app"
  shows "open_package env (package_image ver count sz z) 4 =
    Inr (Some \<lparr>next_ptr = Some body, files_left = count, pr_runtime_index_name = Some rt, pr_app_index_name = Some app\<rparr>)"
proof -
  let ?buf = "package_image ver count sz z" and ?P = "be32 PACKAGE_MAGIC @ [0x50, 0x43, 0x4B, 0x47]"
  have len: "length ?buf = length z + 24" by (simp add: package_image_def)
  have b: "byte_at ?buf 4 = Inr 0x50" "byte_at ?buf 5 = Inr 0x43" "byte_at ?buf 6 = Inr 0x4B" "byte_at ?buf 7 = Inr 0x47"
    using len by (simp_all add: byte_at_def package_image_def nth_append)
  have r: "ReadUint32BE ?buf 8 = Inr 0" "ReadUint32BE ?buf 12 = Inr ver" "ReadUint32BE ?buf 16 = Inr count"
    "ReadUint32BE ?buf 20 = Inr sz"
    using ReadUint32BE_be32 [of ?P 8 0 "be32 ver @ be32 count @ be32 sz @ z"]
      ReadUint32BE_be32 [of "?P @ be32 0" 12 ver "be32 count @ be32 sz @ z"]
      ReadUint32BE_be32 [of "?P @ be32 0 @ be32 ver" 16 count "be32 sz @ z"]
      ReadUint32BE_be32 [of "?P @ be32 0 @ be32 ver @ be32 count" 20 sz z]
    by (simp_all add: package_image_def)
  have d: "drop 24 ?buf = z" by (simp add: package_image_def)
  show ?thesis
    using assms b r d len by (simp add: open_package_def pr_ReadString_name pr_empty_def add.commute)
qed

lemma Initrd_Init_image:
  assumes "entries_ok 0 es" "length es < 2 ^ 32" "name_ok rt" "name_ok app"
    and "start \<noteq> 0" "start mod 4 = 0" "version_number env = ver" "malloc_block env sz = Some ptr" "length ptr = unat sz"
    and "zlib_stream bs pad z" "stream_out [] bs = name_bytes rt @ name_bytes app @ concat (map entry_bytes es)"
    and "length (stream_out [] bs) \<le> unat sz"
  shows "Initrd_Init env start (package_image ver (of_nat (length es)) sz z) mk_Initrd =
    Inr \<lparr>files = expand [] es, runtime_index_name = Some rt, app_index_name = Some app\<rparr>"
proof -
  let ?buf = "package_image ver (of_nat (length es)) sz z"
  obtain rest n where inflated: "tinfl_decompress_mem_to_mem ptr (z @ take 4 (behind_area env)) =
      Inr (Some (n, name_bytes rt @ name_bytes app @ concat (map entry_bytes es) @ rest))"
    using inflated_prefix [OF zlib_stream_append [OF assms(10)], of ptr "take 4 (behind_area env)"] assms(9,11,12) by auto
  let ?r = "\<lparr>next_ptr = Some (concat (map entry_bytes es) @ rest), files_left = of_nat (length es),
    pr_runtime_index_name = Some rt, pr_app_index_name = Some app\<rparr>"
  have "ReadUint32BE ?buf 0 = Inr PACKAGE_MAGIC"
    using ReadUint32BE_be32 [of "[]" 0 PACKAGE_MAGIC] by (simp add: package_image_def)
  moreover have "0 < length ?buf" by (simp add: package_image_def)
  moreover have "open_package env ?buf 4 = Inr (Some ?r)"
    by (rule open_package_image) (use assms inflated in simp_all)
  ultimately have f: "find_package env ?buf 0 = Inr ?r" by (subst find_package.simps) simp
  have "mk_PackageReader env start ?buf = Inr ?r"
    using f assms(5,6) \<open>0 < length ?buf\<close> by (simp add: mk_PackageReader_def AlignPtr_def Align_def)
  moreover have "init_files ?r [] = Inr (expand [] es)"
    by (rule init_files_expand) (use assms(1,2) in simp_all)
  ultimately show ?thesis
    using assms(5) \<open>0 < length ?buf\<close> by (simp add: Initrd_Init_def mk_Initrd_def)
qed

lemma initrd_find_find:
  "initrd_find fs n = (case find (\<lambda>f. if_name f = n) fs of None \<Rightarrow> InitrdFile_default | Some f \<Rightarrow> f)"
  by (induction fs) auto

text \<open>
  C16. A well-formed archive is read back: for any list of files and of links to earlier entries, if the
  archive's header stands at the start of the (four-byte aligned) area and is followed by a zlib stream (any
  sequence of stored, fixed and dynamic blocks) whose contents are
  the two index names and the entries, \<open>Initrd::Init\<close> ends with exactly those files in order, links
  sharing the contents of what they refer to, and \<open>Get\<close> finds the first file of a name.
\<close>

theorem initrd_roundtrip:
  assumes "entries_ok 0 es" "length es < 2 ^ 32" "name_ok rt" "name_ok app"
    and "start \<noteq> 0" "start mod 4 = 0" "version_number env = ver" "malloc_block env sz = Some ptr" "length ptr = unat sz"
    and "zlib_stream bs pad z" "stream_out [] bs = name_bytes rt @ name_bytes app @ concat (map entry_bytes es)"
    and "length (stream_out [] bs) \<le> unat sz"
  shows "\<exists>rd. Initrd_Init env start (package_image ver (of_nat (length es)) sz z) mk_Initrd = Inr rd \<and>
    files rd = expand [] es \<and> runtime_index_name rd = Some rt \<and> app_index_name rd = Some app \<and>
    (\<forall>n. Initrd_Get rd n = (case find (\<lambda>f. if_name f = n) (expand [] es) of None \<Rightarrow> InitrdFile_default | Some f \<Rightarrow> f))"
  using Initrd_Init_image [OF assms] by (simp add: Initrd_Get_def initrd_find_find)

definition sample_entries :: "entry list" where
  "sample_entries = [EFile [0x2F, 0x61] [1, 2, 3], ELink [0x2F, 0x62] 0]"

definition sample_contents :: "u8 list" where
  "sample_contents = name_bytes [0x72] @ name_bytes [0x61] @ concat (map entry_bytes sample_entries)"

definition sample_env :: package_env where
  "sample_env = \<lparr>malloc_block = (\<lambda>sz. Some (replicate (unat sz) 0)), behind_area = [], version_number = 2\<rparr>"

theorem initrd_roundtrip_witness:
  "\<exists>rd. Initrd_Init sample_env 0x1000 (package_image 2 2 64 (zlib_stored sample_contents)) mk_Initrd = Inr rd \<and>
     if_data (Initrd_Get rd [0x2F, 0x62]) = [1, 2, 3] \<and> length (files rd) = 2"
proof -
  have len: "length sample_contents \<le> 64" by (simp add: sample_contents_def sample_entries_def name_bytes_def)
  note z = zlib_stored_stream [of sample_contents]
  have "\<exists>rd. Initrd_Init sample_env 0x1000 (package_image 2 (of_nat (length sample_entries)) 64 (zlib_stored sample_contents)) mk_Initrd = Inr rd \<and>
      files rd = expand [] sample_entries \<and> runtime_index_name rd = Some [0x72] \<and> app_index_name rd = Some [0x61] \<and>
      (\<forall>n. Initrd_Get rd n = (case find (\<lambda>f. if_name f = n) (expand [] sample_entries) of None \<Rightarrow> InitrdFile_default | Some f \<Rightarrow> f))"
  proof (rule initrd_roundtrip)
    show "zlib_stream [Stored (replicate 5 False) sample_contents] [] (zlib_stored sample_contents)" using z(1) len by simp
    show "stream_out [] [Stored (replicate 5 False) sample_contents] =
        name_bytes [0x72] @ name_bytes [0x61] @ concat (map entry_bytes sample_entries)"
      using z(2) len by (simp add: sample_contents_def)
    show "length (stream_out [] [Stored (replicate 5 False) sample_contents]) \<le> unat (64 :: u32)" using z(2) len by simp
    show "malloc_block sample_env 64 = Some (replicate 64 0)" by (simp add: sample_env_def)
  qed (simp_all add: sample_entries_def name_ok_def sample_env_def)
  then show ?thesis by (auto simp: sample_entries_def)
qed

text \<open>
  C40. A corrupted file is not accepted: if the stored checksum belongs to contents that differ from
  the stored contents in one byte, \<open>Initrd::Init\<close> stops at that file, keeping the files before it.
\<close>

theorem initrd_rejects_corruption:
  assumes "pf_is_link f = False" "pf_buf f = Some (xs @ b # ys @ rest)" "a \<noteq> b"
    and "unat (pf_len f) = length (xs @ b # ys)" "pf_content f = CRC32_Compute (xs @ a # ys)"
    and "pr_Next r = Inr (f, r')"
  shows "init_files r fs = Inr fs"
proof -
  have "pf_content f \<noteq> CRC32_Compute (xs @ b # ys)"
    unfolding assms(5) using crc32_byte_changes [OF assms(3)] by simp
  then have "accept_file fs f = Inr None" using assms(1,2,4) by (simp add: accept_file_def deref_def)
  then show ?thesis using assms(1,2,6) by (subst init_files.simps) (simp add: pf_empty_def)
qed

definition sample_corrupt :: PackageReader where
  "sample_corrupt = pr_empty\<lparr>next_ptr := Some (be32 FILE_DEFAULT @ be32 2 @ name_bytes [0x61] @ be32 (CRC32_Compute [7, 8]) @ [7, 9]),
     files_left := 1\<rparr>"

theorem initrd_rejects_corruption_witness: "init_files sample_corrupt [InitrdFile_default] = Inr [InitrdFile_default]"
proof -
  let ?f = "\<lparr>pf_is_link = False, pf_name = Some [0x61], pf_buf = Some [7, 9], pf_len = 2, pf_content = CRC32_Compute [7, 8]\<rparr>"
  have "pr_Next sample_corrupt = Inr (?f, sample_corrupt\<lparr>next_ptr := Some [], files_left := 0\<rparr>)"
    by (simp add: sample_corrupt_def pr_Next_def pr_ReadUint32_be32 pr_ReadString_name name_ok_def FILE_DEFAULT_def FILE_LINK_def deref_def)
  then show ?thesis
    using initrd_rejects_corruption [of ?f "[7]" 9 "[]" "[]" 8 sample_corrupt] by simp
qed

end
