(* ===== verification/Pools.thy ===== *)
theory Pools
  imports Utils "HOL-Library.AList"
begin

text \<open>
  The small containers of a thread: \<open>IndexedPool\<close> and \<open>UniquePersistentIndexedPool\<close>
  (\<^verbatim>\<open>src/src/kernel/v8utils.h\<close>), \<open>LocalStorage\<close> (\<^verbatim>\<open>local-storage.h\<close>), \<open>RuntimeStateStack\<close>
  (\<^verbatim>\<open>runtime-state.h\<close>) and \<open>AllocationTracker\<close> (\<^verbatim>\<open>allocation-tracker.h\<close>).

  A pool element knows whether it is empty (\<open>emp\<close>, its \<open>IsEmpty()\<close>) and what is left of it once
  it was moved from (\<open>mvd\<close>). A \<open>UniquePersistent\<close> handle is an option. Pools hold fewer than
  \<open>2 ^ 32\<close> elements, so the 32-bit loop counter of \<open>Push\<close> does not wrap.

  The locale \<open>indexed_pool\<close> is the contract the clients of the pools rely on: an index handed out by
  \<open>Push\<close> keeps referring to the pushed value until it is taken. Both pools are interpretations of it.
\<close>

section \<open>\<open>IndexedPool\<close>\<close>

fun first_empty :: "('a \<Rightarrow> bool) \<Rightarrow> 'a list \<Rightarrow> nat \<Rightarrow> nat option" where
  "first_empty emp [] i = None"
| "first_empty emp (x # xs) i = (if emp x then Some i else first_empty emp xs (Suc i))"

definition pool_Push :: "('a \<Rightarrow> bool) \<Rightarrow> 'a \<Rightarrow> 'a list \<Rightarrow> u32 \<times> 'a list" where
  "pool_Push emp v data = (case first_empty emp data 0 of
     Some i \<Rightarrow> (of_nat i, data[i := v])
   | None \<Rightarrow> (of_nat (length data), data @ [v]))"

definition pool_Get :: "u32 \<Rightarrow> 'a list \<Rightarrow> 'a res" where
  "pool_Get index data = res_bind (rt_assert (unat index < length data) ''index < data_.size()'') (\<lambda>_.
     Inr (data ! unat index))"

definition pool_Take :: "('a \<Rightarrow> 'a) \<Rightarrow> u32 \<Rightarrow> 'a list \<Rightarrow> ('a \<times> 'a list) res" where
  "pool_Take mvd index data = res_bind (rt_assert (unat index < length data) ''index < data_.size()'') (\<lambda>_.
     Inr (data ! unat index, data[unat index := mvd (data ! unat index)]))"

definition pool_Clear :: "'a list \<Rightarrow> 'a list" where
  "pool_Clear data = []"

section \<open>\<open>UniquePersistentIndexedPool\<close>\<close>

definition up_Push :: "'v option \<Rightarrow> 'v option list \<Rightarrow> u32 \<times> 'v option list" where
  "up_Push v data = (case first_empty (\<lambda>x. x = None) data 0 of
     Some i \<Rightarrow> (of_nat i, data[i := v])
   | None \<Rightarrow> (of_nat (length data), data @ [v]))"

definition up_Take :: "u32 \<Rightarrow> 'v option list \<Rightarrow> ('v option \<times> 'v option list) res" where
  "up_Take index data = res_bind (rt_assert (unat index < length data) ''index < data_.size()'') (\<lambda>_.
     Inr (data ! unat index, data[unat index := None]))"

fun up_find :: "'v \<Rightarrow> 'v option list \<Rightarrow> nat \<Rightarrow> u32 Nullable" where
  "up_find v [] i = \<lparr>nl_value = 0, nl_empty = True\<rparr>"
| "up_find v (x # xs) i = (if x = None then up_find v xs (Suc i)
     else if x = Some v then \<lparr>nl_value = of_nat i, nl_empty = False\<rparr> else up_find v xs (Suc i))"

definition up_Find :: "'v \<Rightarrow> 'v option list \<Rightarrow> u32 Nullable" where
  "up_Find v data = up_find v data 0"

definition up_GetLocal :: "u32 \<Rightarrow> 'v option list \<Rightarrow> 'v option res" where
  "up_GetLocal index data = res_bind (rt_assert (unat index < length data) ''index < data_.size()'') (\<lambda>_.
     Inr (data ! unat index))"

section \<open>\<open>LocalStorage\<close>\<close>

definition kMaxSlots :: nat where "kMaxSlots = 16"

record LocalStorage =
  storage :: "u64 list"
  ls_next_index :: u64

definition mk_LocalStorage :: LocalStorage where
  "mk_LocalStorage = \<lparr>storage = replicate kMaxSlots 0, ls_next_index = 1\<rparr>"

definition ls_Get :: "LocalStorage \<Rightarrow> u64 \<Rightarrow> u64 res" where
  "ls_Get ls keyid = res_bind (rt_assert (unat keyid < kMaxSlots) ''keyid < kMaxSlots'') (\<lambda>_.
     Inr (storage ls ! unat keyid))"

definition ls_Set :: "LocalStorage \<Rightarrow> u64 \<Rightarrow> u64 \<Rightarrow> LocalStorage res" where
  "ls_Set ls keyid v = res_bind (rt_assert (unat keyid < kMaxSlots) ''keyid < kMaxSlots'') (\<lambda>_.
     Inr (ls\<lparr>storage := (storage ls)[unat keyid := v]\<rparr>))"

definition ls_wf :: "LocalStorage \<Rightarrow> bool" where
  "ls_wf ls \<longleftrightarrow> length (storage ls) = kMaxSlots"

lemma ls_wf_mk [simp]: "ls_wf mk_LocalStorage"
  by (simp add: ls_wf_def mk_LocalStorage_def)

lemma ls_Set_wf: "ls_Set ls k v = Inr ls' \<Longrightarrow> ls_wf ls \<Longrightarrow> ls_wf ls'"
  by (auto simp: ls_Set_def ls_wf_def res_iffs)

lemma ls_Get_Set:
  "ls_wf ls \<Longrightarrow> ls_Set ls k v = Inr ls' \<Longrightarrow> unat j < kMaxSlots \<Longrightarrow>
     ls_Get ls' j = (if j = k then Inr v else ls_Get ls j)"
  by (auto simp: ls_Set_def ls_Get_def ls_wf_def res_iffs nth_list_update dest: word_unat_eq_iff [THEN iffD2])

section \<open>\<open>RuntimeStateStack\<close>\<close>

datatype RuntimeState = INIT | EVENT_LOOP | HALT | JAVASCRIPT | NATIVE_CALL | TRANSPORT_SERIALIZER
  | TRANSPORT_DESERIALIZER | RPC_CALL | HANDLE_CALL | ALLOCATOR | CALL_ON_BACKGROUND
  | PROMISE_NATIVE_API | PIPE_CREATE | PIPE_PUSH | PIPE_PULL | LAST

fun RuntimeStateToString :: "RuntimeState \<Rightarrow> string res" where
  "RuntimeStateToString INIT = Inr ''INIT''"
| "RuntimeStateToString EVENT_LOOP = Inr ''EVENT_LOOP''"
| "RuntimeStateToString HALT = Inr ''HALT''"
| "RuntimeStateToString JAVASCRIPT = Inr ''JAVASCRIPT''"
| "RuntimeStateToString NATIVE_CALL = Inr ''NATIVE_CALL''"
| "RuntimeStateToString TRANSPORT_SERIALIZER = Inr ''TRANSPORT_SERIALIZER''"
| "RuntimeStateToString TRANSPORT_DESERIALIZER = Inr ''TRANSPORT_DESERIALIZER''"
| "RuntimeStateToString RPC_CALL = Inr ''RPC_CALL''"
| "RuntimeStateToString HANDLE_CALL = Inr ''HANDLE_CALL''"
| "RuntimeStateToString ALLOCATOR = Inr ''ALLOCATOR''"
| "RuntimeStateToString CALL_ON_BACKGROUND = Inr ''CALL_ON_BACKGROUND''"
| "RuntimeStateToString PROMISE_NATIVE_API = Inr ''PROMISE_NATIVE_API''"
| "RuntimeStateToString PIPE_CREATE = Inr ''PIPE_CREATE''"
| "RuntimeStateToString PIPE_PUSH = Inr ''PIPE_PUSH''"
| "RuntimeStateToString PIPE_PULL = Inr ''PIPE_PULL''"
| "RuntimeStateToString LAST = Inl (AssertFailed ''(uint32_t)state < (uint32_t)RuntimeState::LAST'')"

definition kMaxDepth :: nat where "kMaxDepth = 16"

record RuntimeStateStack =
  rs_stack :: "RuntimeState list"
  rs_size :: u8

definition rs_Push :: "RuntimeState \<Rightarrow> RuntimeStateStack \<Rightarrow> RuntimeStateStack res" where
  "rs_Push st s = res_bind (rt_assert (unat (rs_size s) < kMaxDepth) ''size_ < kMaxDepth'') (\<lambda>_.
     Inr (s\<lparr>rs_stack := (rs_stack s)[unat (rs_size s) := st], rs_size := rs_size s + 1\<rparr>))"

definition rs_Pop :: "RuntimeStateStack \<Rightarrow> RuntimeStateStack res" where
  "rs_Pop s = res_bind (rt_assert (rs_size s > 0) ''size_ > 0'') (\<lambda>_. Inr (s\<lparr>rs_size := rs_size s - 1\<rparr>))"

definition rs_current :: "RuntimeStateStack \<Rightarrow> RuntimeState res" where
  "rs_current s = res_bind (rt_assert (rs_size s > 0) ''size_ > 0'') (\<lambda>_.
     Inr (rs_stack s ! unat (rs_size s - 1)))"

text \<open>\<open>RuntimeStateScope\<close>: the constructor pushes, the destructor pops.\<close>

definition state_scope :: "RuntimeState \<Rightarrow> (RuntimeStateStack \<Rightarrow> RuntimeStateStack res) \<Rightarrow>
  RuntimeStateStack \<Rightarrow> RuntimeStateStack res" where
  "state_scope st body s = res_bind (rs_Push st s) (\<lambda>s1. res_bind (body s1) rs_Pop)"

section \<open>\<open>AllocationTracker\<close>\<close>

record AllocationTracker =
  nested :: bool
  tracked :: "(u64 \<times> bool) list"

definition RegisterAlloc :: "u64 \<Rightarrow> AllocationTracker \<Rightarrow> AllocationTracker" where
  "RegisterAlloc ptr t = (if nested t then t
     else t\<lparr>nested := False, tracked := AList.update ptr True (tracked t)\<rparr>)"

definition UnregisterAlloc :: "u64 \<Rightarrow> AllocationTracker \<Rightarrow> AllocationTracker" where
  "UnregisterAlloc ptr t = (if nested t then t
     else if map_of (tracked t) ptr \<noteq> None then t\<lparr>nested := False, tracked := AList.delete ptr (tracked t)\<rparr>
     else t\<lparr>nested := False\<rparr>)"

definition unfreed_allocations_count :: "AllocationTracker \<Rightarrow> nat \<times> AllocationTracker" where
  "unfreed_allocations_count t = (length (tracked t), t\<lparr>nested := False\<rparr>)"

section \<open>Lemmas\<close>

lemma first_empty_Some:
  "first_empty emp xs k = Some i \<Longrightarrow> k \<le> i \<and> i - k < length xs \<and> emp (xs ! (i - k))"
proof (induction xs arbitrary: k)
  case (Cons x xs)
  show ?case
  proof (cases "emp x")
    case False
    then have "Suc k \<le> i \<and> i - Suc k < length xs \<and> emp (xs ! (i - Suc k))" using Cons by simp
    moreover from this have "i - k = Suc (i - Suc k)" by linarith
    ultimately show ?thesis by simp
  qed (use Cons.prems in simp)
qed simp

lemma first_empty_None: "first_empty emp xs k = None \<longleftrightarrow> (\<forall>x \<in> set xs. \<not> emp x)"
  by (induction xs arbitrary: k) auto

text \<open>The live elements of a pool.\<close>

definition pool_look :: "('a \<Rightarrow> bool) \<Rightarrow> 'a list \<Rightarrow> u32 \<rightharpoonup> 'a" where
  "pool_look emp data i = (if unat i < length data \<and> \<not> emp (data ! unat i) then Some (data ! unat i) else None)"

definition pool_room :: "'a list \<Rightarrow> bool" where
  "pool_room data \<longleftrightarrow> length data < 2 ^ 32 - 1"

lemma up_pool: "up_Push v data = pool_Push (\<lambda>x. x = None) v data" "up_Take i data = pool_Take (\<lambda>_. None) i data"
  by (simp_all add: up_Push_def pool_Push_def up_Take_def pool_Take_def)

lemma pool_Push_slot:
  assumes "pool_room data" "pool_Push emp v data = (i, data')"
  obtains "unat i < length data" "emp (data ! unat i)" "data' = data[unat i := v]"
  | "unat i = length data" "\<forall>x \<in> set data. \<not> emp x" "data' = data @ [v]"
proof (cases "first_empty emp data 0")
  case None
  then have "unat i = length data" using assms
    by (auto simp: pool_Push_def pool_room_def intro!: unat_of_nat_small)
  moreover have "data' = data @ [v]" using None assms(2) by (simp add: pool_Push_def)
  moreover have "\<forall>x \<in> set data. \<not> emp x" using None by (simp add: first_empty_None)
  ultimately show ?thesis using that(2) by blast
next
  case (Some k)
  have k: "k < length data" "emp (data ! k)" using first_empty_Some [OF Some] by auto
  then have "unat i = k" using assms Some
    by (auto simp: pool_Push_def pool_room_def intro!: unat_of_nat_small)
  then show ?thesis using k Some assms that(1) by (auto simp: pool_Push_def)
qed

lemma pool_Push_free: "pool_room data \<Longrightarrow> pool_Push emp v data = (i, data') \<Longrightarrow> pool_look emp data i = None"
  by (erule (1) pool_Push_slot) (auto simp: pool_look_def)

lemma unat_neq: "i \<noteq> j \<Longrightarrow> unat (i :: 'a::len word) \<noteq> unat j"
  by (simp add: word_unat_eq_iff)

lemma pool_Push_look:
  assumes "pool_room data" "pool_Push emp v data = (i, data')" "\<not> emp v"
  shows "pool_look emp data' = (pool_look emp data)(i \<mapsto> v)"
proof
  fix j
  show "pool_look emp data' j = ((pool_look emp data)(i \<mapsto> v)) j"
    by (rule pool_Push_slot [OF assms(1,2)]; cases "j = i")
      (use assms(3) in \<open>auto simp: pool_look_def nth_append nth_list_update dest: unat_neq\<close>)
qed

lemma pool_Take_look:
  assumes "pool_Take mvd i data = Inr (v, data')" "\<And>x. emp (mvd x)"
  shows "pool_look emp data' = (pool_look emp data)(i := None) \<and>
    (pool_look emp data i = Some w \<longrightarrow> v = w)"
proof -
  have d: "data' = data[unat i := mvd (data ! unat i)]" "v = data ! unat i" "unat i < length data"
    using assms(1) by (auto simp: pool_Take_def res_iffs)
  have "pool_look emp data' j = ((pool_look emp data)(i := None)) j" for j
    by (cases "j = i") (use d assms(2) in \<open>auto simp: pool_look_def dest: unat_neq\<close>)
  then show ?thesis using d by (auto simp: pool_look_def)
qed

lemma pool_Take_live: "pool_look emp data i = Some w \<Longrightarrow> \<exists>data'. pool_Take mvd i data = Inr (w, data')"
  by (auto simp: pool_look_def pool_Take_def split: if_splits)

lemma pool_Take_length: "pool_Take mvd i data = Inr (v, data') \<Longrightarrow> length data' = length data"
  by (auto simp: pool_Take_def res_iffs)

section \<open>The contract of a pool\<close>

datatype 'v pool_op = PPush 'v | PTake u32

locale indexed_pool =
  fixes push :: "'v \<Rightarrow> 's \<Rightarrow> u32 \<times> 's" and takep :: "u32 \<Rightarrow> 's \<Rightarrow> ('v \<times> 's) res"
    and look :: "'s \<Rightarrow> u32 \<rightharpoonup> 'v" and room :: "'s \<Rightarrow> bool" and full :: "'v \<Rightarrow> bool"
  assumes push_law: "room s \<Longrightarrow> push v s = (i, s') \<Longrightarrow> full v \<Longrightarrow> look s i = None \<and> look s' = (look s)(i \<mapsto> v)"
    and take_law: "takep i s = Inr (v, s') \<Longrightarrow> look s' = (look s)(i := None) \<and> (\<forall>w. look s i = Some w \<longrightarrow> v = w)"
    and take_total: "look s i = Some w \<Longrightarrow> \<exists>s'. takep i s = Inr (w, s')"
begin

primrec run :: "'v pool_op list \<Rightarrow> 's \<Rightarrow> 's option" where
  "run [] s = Some s"
| "run (p # ps) s = (case p of
     PPush v \<Rightarrow> if room s \<and> full v then run ps (snd (push v s)) else None
   | PTake i \<Rightarrow> (case takep i s of Inl e \<Rightarrow> None | Inr (v, s') \<Rightarrow> run ps s'))"

lemma run_keeps: "run ps s = Some s' \<Longrightarrow> look s i = Some v \<Longrightarrow> PTake i \<notin> set ps \<Longrightarrow> look s' i = Some v"
proof (induction ps arbitrary: s)
  case (Cons p ps)
  show ?case
  proof (cases p)
    case (PPush w)
    obtain j t where jt: "push w s = (j, t)" by fastforce
    then have "look s j = None \<and> look t = (look s)(j \<mapsto> w)"
      using Cons.prems PPush push_law [of s w j t] by (auto split: if_splits)
    then have "look t i = Some v" using Cons.prems(2) by auto
    then show ?thesis using Cons PPush jt by (auto split: if_splits)
  next
    case (PTake j)
    then obtain w t where jt: "takep j s = Inr (w, t)" "run ps t = Some s'"
      using Cons.prems by (auto split: sum.splits)
    then have "look t i = Some v" using take_law [of j s w t] Cons.prems PTake by auto
    then show ?thesis using Cons jt by auto
  qed
qed simp

theorem handle_stable:
  assumes "room s" "full v" "push v s = (i, s1)" "run ps s1 = Some s2" "PTake i \<notin> set ps"
  shows "\<exists>s3. takep i s2 = Inr (v, s3) \<and> look s3 i = None"
proof -
  have "look s1 i = Some v" using push_law [OF assms(1,3,2)] by simp
  then have "look s2 i = Some v" using run_keeps assms(4,5) by blast
  then obtain s3 where "takep i s2 = Inr (v, s3)" using take_total by blast
  then show ?thesis using take_law by fastforce
qed

end

interpretation up: indexed_pool up_Push up_Take "pool_look (\<lambda>x. x = None)" pool_room "\<lambda>v. v \<noteq> None"
proof unfold_locales
  fix s s' :: "'a option list" and v i
  assume a: "pool_room s" "up_Push v s = (i, s')" "v \<noteq> None"
  note p = a(2) [unfolded up_pool]
  show "pool_look (\<lambda>x. x = None) s i = None \<and> pool_look (\<lambda>x. x = None) s' = (pool_look (\<lambda>x. x = None) s)(i \<mapsto> v)"
    using pool_Push_free [OF a(1) p] pool_Push_look [OF a(1) p a(3)] by simp
next
  fix s s' :: "'a option list" and v i
  assume "up_Take i s = Inr (v, s')"
  note t = this [unfolded up_pool]
  show "pool_look (\<lambda>x. x = None) s' = (pool_look (\<lambda>x. x = None) s)(i := None) \<and>
      (\<forall>w. pool_look (\<lambda>x. x = None) s i = Some w \<longrightarrow> v = w)"
    using pool_Take_look [OF t, of "\<lambda>x. x = None"] by simp
qed (simp add: up_pool pool_Take_live)

end
