(* ===== verification/Transport.thy ===== *)
theory Transport
  imports Utils
begin

text \<open>
  Values moved between isolates: \<^verbatim>\<open>src/src/kernel/transport.h\<close>, \<^verbatim>\<open>transport.cc\<close> and the function
  exports of \<^verbatim>\<open>thread.h\<close>/\<^verbatim>\<open>thread.cc\<close>. \<open>ByteStream\<close> is its bytes. A JavaScript value is the tree
  V8 shows to the serializer: a number is the class of the first predicate that accepts it
  (\<open>IsInt32\<close>, \<open>IsUint32\<close>, \<open>IsNumber\<close>; a double is its 64-bit image), an object is its own
  properties in order, an array buffer is the identity of a buffer object whose backing
  store and length are in the state, since moving a value detaches its buffers. The address
  of a new \<open>ExternalFunction\<close> comes from \<open>new\<close>, a parameter.

  The lemmas show that whatever is moved without error and without functions is unpacked to
  the same value, with exactly its bytes consumed; that the recursion of the reader is
  bounded by the stream; and what happens with functions and after errors.
\<close>

section \<open>\<open>ByteStream\<close> and \<open>ByteStreamReader\<close>\<close>

type_synonym byte_stream = "u8 list"

definition AppendValue :: "byte_stream \<Rightarrow> nat \<Rightarrow> 'a::len word \<Rightarrow> byte_stream" where
  "AppendValue st sz v = st @ le_bytes sz v"

definition AppendBuffer :: "byte_stream \<Rightarrow> u32 \<Rightarrow> byte_stream" where
  "AppendBuffer st n = st @ replicate (unat n) 0"

record ByteStreamReader =
  rd_data :: "u8 list"
  rd_pos :: nat

definition ReadBuffer :: "ByteStreamReader \<Rightarrow> nat \<Rightarrow> (u8 list \<times> ByteStreamReader) res" where
  "ReadBuffer r n =
     res_bind (rt_assert (rd_pos r + n \<le> length (rd_data r)) ''pos_ + len <= size'') (\<lambda>_.
       Inr (take n (drop (rd_pos r) (rd_data r)), r\<lparr>rd_pos := rd_pos r + n\<rparr>))"

definition ReadValue :: "ByteStreamReader \<Rightarrow> nat \<Rightarrow> ('a::len word \<times> ByteStreamReader) res" where
  "ReadValue r sz = res_bind (ReadBuffer r sz) (\<lambda>(bs, r'). Inr (le_word bs, r'))"

section \<open>Function exports\<close>

record FunctionExports =
  fe_data :: "(nat \<times> u64) list"
  fe_export_id :: u64

definition fe_Add :: "FunctionExports \<Rightarrow> nat \<Rightarrow> (u32 \<times> u64) \<times> FunctionExports" where
  "fe_Add fe fn =
     (let index = of_nat (length (fe_data fe)); export_id = fe_export_id fe + 1 in
      ((index, export_id), \<lparr>fe_data = fe_data fe @ [(fn, export_id)], fe_export_id = export_id\<rparr>))"

definition fe_Get :: "FunctionExports \<Rightarrow> u32 \<Rightarrow> u64 \<Rightarrow> nat option res" where
  "fe_Get fe index export_id =
     res_bind (rt_assert (unat index < length (fe_data fe)) ''index < data_.size()'') (\<lambda>_.
       let (fn, eid) = fe_data fe ! unat index in
       Inr (if eid \<noteq> export_id then None else Some fn))"

section \<open>Values\<close>

datatype view_kind = VUint8 | VUint8Clamped | VUint16 | VUint32 | VInt8 | VInt16 | VInt32 | VDataView | VOther

datatype native_ref =
    NFunction u64            \<comment> \<open>a wrapped \<open>ExternalFunction\<close>\<close>
  | NObject "u64 option"     \<comment> \<open>another wrapped object and what its \<open>Clone()\<close> returns\<close>

datatype jsval =
    JUndefined | JNull | JBool bool
  | JArrayBuffer nat
  | JView view_kind nat u64 u64
  | JInt32 u32 | JUint32 u32 | JDouble u64
  | JString "u16 list"
  | JArray "jsval list"
  | JFunction nat
  | JError "u16 list option"
  | JNative native_ref
  | JObject "(jsval \<times> jsval) list"
  | JOther

datatype SerializeError = NONE | MAX_STACK | INVALID_TYPE | EMPTY_BUFFER | TYPEDARRAY_VIEW | NOT_CLONABLE

datatype data_type =
    T_UNDEFINED | T_NUL | T_STRING_16 | T_STRING_UTF8 | T_INT32 | T_UINT32 | T_DOUBLE | T_BOOL_TRUE | T_BOOL_FALSE
  | T_ARRAYBUFFER | T_TYPEDARRAY view_kind
  | T_ARRAY | T_EMPTY_ARRAY | T_HASHMAP | T_FUNCTION | T_NATIVE_OBJECT | T_ERROR_OBJ

fun type_code :: "data_type \<Rightarrow> u8" where
  "type_code T_UNDEFINED = 0" | "type_code T_NUL = 1" | "type_code T_STRING_16 = 2"
| "type_code T_STRING_UTF8 = 3" | "type_code T_INT32 = 4" | "type_code T_UINT32 = 5"
| "type_code T_DOUBLE = 6" | "type_code T_BOOL_TRUE = 7" | "type_code T_BOOL_FALSE = 8"
| "type_code T_ARRAYBUFFER = 9" | "type_code (T_TYPEDARRAY VUint8) = 10"
| "type_code (T_TYPEDARRAY VUint8Clamped) = 11" | "type_code (T_TYPEDARRAY VUint16) = 12"
| "type_code (T_TYPEDARRAY VUint32) = 13" | "type_code (T_TYPEDARRAY VInt8) = 14"
| "type_code (T_TYPEDARRAY VInt16) = 15" | "type_code (T_TYPEDARRAY VInt32) = 16"
| "type_code (T_TYPEDARRAY VDataView) = 17" | "type_code (T_TYPEDARRAY VOther) = 255"
| "type_code T_ARRAY = 18" | "type_code T_EMPTY_ARRAY = 19" | "type_code T_HASHMAP = 20"
| "type_code T_FUNCTION = 21" | "type_code T_NATIVE_OBJECT = 22" | "type_code T_ERROR_OBJ = 23"

text \<open>The exporting side: the stream, the buffer objects (address and length), the thread's exports.\<close>

record transport =
  stream :: byte_stream
  buffers :: "nat \<Rightarrow> u64 \<times> u64"
  exports :: FunctionExports
  thread_refs :: u64

definition AppendType :: "data_type \<Rightarrow> transport \<Rightarrow> transport" where
  "AppendType t s = s\<lparr>stream := AppendValue (stream s) 1 (type_code t)\<rparr>"

definition Append :: "nat \<Rightarrow> 'a::len word \<Rightarrow> transport \<Rightarrow> transport" where
  "Append sz v s = s\<lparr>stream := AppendValue (stream s) sz v\<rparr>"

definition Clear :: "transport \<Rightarrow> transport" where
  "Clear s = s\<lparr>stream := []\<rparr>"

definition SetUndefined :: "transport \<Rightarrow> transport" where
  "SetUndefined s = AppendType T_UNDEFINED (Clear s)"

definition SetArray :: "u32 \<Rightarrow> transport \<Rightarrow> transport" where
  "SetArray n s = Append 4 n (AppendType T_ARRAY (Clear s))"

text \<open>
  \<open>Write\<close> puts the characters at the start of the space just appended; the space is zero and
  one character longer, which terminates the text.
\<close>

definition overwrite :: "u8 list \<Rightarrow> nat \<Rightarrow> u8 list \<Rightarrow> u8 list" where
  "overwrite st pos bs = take pos st @ bs @ drop (pos + length bs) st"

definition AppendString :: "u16 list \<Rightarrow> transport \<Rightarrow> transport" where
  "AppendString cs s =
     (let s1 = Append 4 (of_nat (length cs) :: u32) (AppendType T_STRING_16 s);
          place = length (stream s1);
          s2 = s1\<lparr>stream := AppendBuffer (stream s1) (of_nat ((length cs + 1) * 2))\<rparr>
      in s2\<lparr>stream := overwrite (stream s2) place (concat (map (le_bytes 2) cs))\<rparr>)"

definition AppendUtf8 :: "u8 list \<Rightarrow> transport \<Rightarrow> transport" where
  "AppendUtf8 buf s =
     (let s1 = Append 4 (of_nat (length buf) :: u32) (AppendType T_STRING_UTF8 s);
          place = length (stream s1);
          s2 = s1\<lparr>stream := AppendBuffer (stream s1) (of_nat (length buf + 1))\<rparr>
      in s2\<lparr>stream := overwrite (stream s2) place (buf @ [0])\<rparr>)"

definition SetString :: "u8 list \<Rightarrow> transport \<Rightarrow> transport" where
  "SetString buf s = AppendUtf8 buf (Clear s)"

definition SetEvalData :: "u8 list \<Rightarrow> u8 list \<Rightarrow> transport \<Rightarrow> transport" where
  "SetEvalData buf filename s =
     AppendUtf8 filename (AppendUtf8 buf (Append 4 (2 :: u32) (AppendType T_ARRAY (Clear s))))"

definition Neuter :: "nat \<Rightarrow> transport \<Rightarrow> transport" where
  "Neuter b s = s\<lparr>buffers := (buffers s)(b := (0, 0))\<rparr>"

definition AddExport :: "(u32 \<times> u64 \<Rightarrow> u64) \<Rightarrow> nat \<Rightarrow> transport \<Rightarrow> u64 \<times> transport" where
  "AddExport new fn s =
     (let (efn, fe) = fe_Add (exports s) fn in
      (new efn, s\<lparr>exports := fe, thread_refs := thread_refs s + 1\<rparr>))"

definition kMaxStackSize :: nat where "kMaxStackSize = 128"

definition no_message :: "u16 list" where
  "no_message = map (\<lambda>c. of_nat (of_char c)) ''<no error message>''"

section \<open>\<open>SerializeValue\<close>\<close>

function (sequential) SerializeValue :: "(u32 \<times> u64 \<Rightarrow> u64) \<Rightarrow> nat \<Rightarrow> jsval \<Rightarrow> transport \<Rightarrow> SerializeError \<times> transport"
and serialize_elements :: "(u32 \<times> u64 \<Rightarrow> u64) \<Rightarrow> nat \<Rightarrow> jsval list \<Rightarrow> transport \<Rightarrow> SerializeError \<times> transport"
and serialize_properties ::
  "(u32 \<times> u64 \<Rightarrow> u64) \<Rightarrow> nat \<Rightarrow> (jsval \<times> jsval) list \<Rightarrow> transport \<Rightarrow> SerializeError \<times> transport" where
  "SerializeValue new level v s =
     (if level > kMaxStackSize then (MAX_STACK, s) else case v of
        JUndefined \<Rightarrow> (NONE, AppendType T_UNDEFINED s)
      | JNull \<Rightarrow> (NONE, AppendType T_NUL s)
      | JBool b \<Rightarrow> (NONE, AppendType (if b then T_BOOL_TRUE else T_BOOL_FALSE) s)
      | JArrayBuffer b \<Rightarrow>
          let s1 = AppendType T_ARRAYBUFFER s; (data, len) = buffers s1 b in
          if len = 0 then (EMPTY_BUFFER, s1)
          else (NONE, Neuter b (Append 8 len (Append 8 data s1)))
      | JView kind b byte_offset byte_length \<Rightarrow>
          let (data, len) = buffers s b in
          if len = 0 then (EMPTY_BUFFER, s)
          else if kind = VOther then (TYPEDARRAY_VIEW, s)
          else (NONE, Neuter b (Append 8 byte_length (Append 8 byte_offset
                 (Append 8 len (Append 8 data (AppendType (T_TYPEDARRAY kind) s))))))
      | JInt32 i \<Rightarrow> (NONE, Append 4 i (AppendType T_INT32 s))
      | JUint32 i \<Rightarrow> (NONE, Append 4 i (AppendType T_UINT32 s))
      | JDouble d \<Rightarrow> (NONE, Append 8 d (AppendType T_DOUBLE s))
      | JString cs \<Rightarrow> (NONE, AppendString cs s)
      | JArray vs \<Rightarrow> serialize_elements new (level + 1) vs
            (Append 4 (of_nat (length vs) :: u32) (AppendType T_ARRAY s))
      | JFunction fn \<Rightarrow> let (efn, s1) = AddExport new fn s in (NONE, Append 8 efn (AppendType T_FUNCTION s1))
      | JError msg \<Rightarrow>
          (NONE, AppendString (case msg of None \<Rightarrow> no_message | Some m \<Rightarrow> m) (AppendType T_ERROR_OBJ s))
      | JNative (NFunction efn) \<Rightarrow> (NONE, Append 8 efn (AppendType T_FUNCTION s))
      | JNative (NObject (Some clone)) \<Rightarrow> (NONE, Append 8 clone (AppendType T_NATIVE_OBJECT s))
      | JNative (NObject None) \<Rightarrow> (NOT_CLONABLE, s)
      | JObject kvs \<Rightarrow> serialize_properties new (level + 1) kvs
            (Append 4 (of_nat (length kvs) :: u32) (AppendType T_HASHMAP s))
      | JOther \<Rightarrow> (INVALID_TYPE, s))"
| "serialize_elements new level [] s = (NONE, s)"
| "serialize_elements new level (v # vs) s =
     (let (err, s1) = SerializeValue new level v s in
      if err \<noteq> NONE then (err, s1) else serialize_elements new level vs s1)"
| "serialize_properties new level [] s = (NONE, s)"
| "serialize_properties new level (kv # kvs) s =
     (let (err, s1) = SerializeValue new level (fst kv) s in
      if err \<noteq> NONE then (err, s1)
      else let (err2, s2) = SerializeValue new level (snd kv) s1 in
        if err2 \<noteq> NONE then (err2, s2) else serialize_properties new level kvs s2)"
  by pat_completeness auto
termination
  by (relation "measure (\<lambda>x. case x of Inl (new, level, v, s) \<Rightarrow> 2 * size v
      | Inr (Inl (new, level, vs, s)) \<Rightarrow> 2 * size_list size vs + 1
      | Inr (Inr (new, level, kvs, s)) \<Rightarrow> 2 * size_list (\<lambda>x. Suc (size (fst x) + size (snd x))) kvs + 1)")
    (auto simp: size_prod_simp)

declare SerializeValue.simps [simp del]

definition MoveValue :: "(u32 \<times> u64 \<Rightarrow> u64) \<Rightarrow> jsval \<Rightarrow> transport \<Rightarrow> SerializeError \<times> transport" where
  "MoveValue new v s =
     (let (err, s1) = SerializeValue new 1 v (Clear s) in
      (err, if err \<noteq> NONE then SetUndefined s1 else s1))"

definition PushArrayElement :: "(u32 \<times> u64 \<Rightarrow> u64) \<Rightarrow> jsval \<Rightarrow> transport \<Rightarrow> SerializeError \<times> transport" where
  "PushArrayElement new v s =
     (let (err, s1) = SerializeValue new 1 v s in
      (err, if err \<noteq> NONE then SetUndefined s1 else s1))"

definition MoveArgs :: "(u32 \<times> u64 \<Rightarrow> u64) \<Rightarrow> jsval list \<Rightarrow> transport \<Rightarrow> SerializeError \<times> transport" where
  "MoveArgs new args s =
     (let s0 = Clear s; len = of_nat (length args) :: u32 in
      if len = 0 then (NONE, AppendType T_EMPTY_ARRAY s0)
      else let (err, s1) = serialize_elements new 1 args (Append 4 len (AppendType T_ARRAY s0)) in
        (err, if err \<noteq> NONE then SetUndefined s1 else s1))"

text \<open>\<open>ThrowError\<close>: the message thrown into JavaScript, if any.\<close>

fun ThrowError :: "SerializeError \<Rightarrow> string option" where
  "ThrowError NONE = None"
| "ThrowError MAX_STACK = Some ''Maximum call stack size exceeded when transferring data''"
| "ThrowError INVALID_TYPE = Some ''Unable to transfer data''"
| "ThrowError EMPTY_BUFFER = Some ''ArrayBuffer is empty or have already been transferred''"
| "ThrowError TYPEDARRAY_VIEW = Some ''Unknown typed array cannot be transferred''"
| "ThrowError NOT_CLONABLE = Some ''Native object is not clonable''"

section \<open>\<open>UnpackValue\<close>\<close>

datatype outval =
    UUndefined | UNull | UBool bool
  | UInt32 u32 | UUint32 u32 | UDouble u64
  | UString16 "u16 list" | UStringUtf8 "u8 list"
  | UArrayBuffer u64 u64
  | UView view_kind u64 u64 u64 u64   \<comment> \<open>buffer, its length, byte offset, elements\<close>
  | UArray "outval list"
  | UObject "(outval \<times> outval) list"
  | UNative u64
  | UError outval

text \<open>
  What the reader uses of V8. \<open>ArrayBuffer::New\<close> checks that a buffer with a length has a backing
  store. The typed arrays (not \<open>DataView\<close>) check that the offset is a multiple of the element
  size and that the number of elements is a \<open>Smi\<close>. A failed check aborts the process. V8's own
  allocation failures are not modelled, and \<open>UError\<close> stands for the error made from the text of the value
  below it: the serializer writes a string there, whose text is the string itself.
\<close>

definition check :: "bool \<Rightarrow> string \<Rightarrow> unit res" where
  "check c msg = (if c then Inr () else Inl (Aborted msg))"

definition ArrayBuffer_New :: "u64 \<Rightarrow> u64 \<Rightarrow> (u64 \<times> u64) res" where
  "ArrayBuffer_New data byte_length =
     res_bind (check (byte_length = 0 \<or> data \<noteq> 0) ''byte_length == 0 || data != NULL'') (\<lambda>_. Inr (data, byte_length))"

definition view_fits :: "view_kind \<Rightarrow> nat \<Rightarrow> u64 \<Rightarrow> u64 \<Rightarrow> bool" where
  "view_fits kind shift byte_offset n \<longleftrightarrow> kind = VDataView \<or> (n \<le> 0x7FFFFFFF \<and> byte_offset mod 2 ^ shift = 0)"

definition read_view :: "view_kind \<Rightarrow> nat \<Rightarrow> ByteStreamReader \<Rightarrow> (outval \<times> ByteStreamReader) res" where
  "read_view kind shift r =
     res_bind (ReadValue r 8) (\<lambda>(buf, r1). res_bind (ReadValue r1 8) (\<lambda>(len, r2).
     res_bind (ReadValue r2 8) (\<lambda>(byte_offset, r3). res_bind (ReadValue r3 8) (\<lambda>(byte_length, r4).
     res_bind (ArrayBuffer_New buf len) (\<lambda>(data, n).
     res_bind (check (view_fits kind shift byte_offset (drop_bit shift byte_length)) ''TYPED_ARRAY_NEW'') (\<lambda>_.
       Inr (UView kind data n byte_offset (drop_bit shift byte_length), r4)))))))"

text \<open>
  \<open>NewFromUtf8\<close> and \<open>NewFromTwoByte\<close> take the length as an \<open>int\<close>: a length above \<open>kMaxLength\<close> gives no
  string, and \<open>ToLocalChecked\<close> aborts; a negative length means that V8 looks for the terminating
  zero itself. \<open>data\<close> is what the stream holds from the string's position on; without a zero
  in it, V8 reads past the end of the stream.
\<close>

definition String_kMaxLength :: nat where "String_kMaxLength = 2 ^ 28 - 16"

definition NEW_STRING :: "'c::zero list \<Rightarrow> u32 \<Rightarrow> 'c list res" where
  "NEW_STRING data len =
     (if len = 0 then Inr []
      else if sint len > int String_kMaxLength then Inl (Aborted ''ToLocalChecked'')
      else if sint len < 0 then
        if 0 \<in> set data then
          let cs = takeWhile (\<lambda>c. c \<noteq> 0) data in
          res_bind (check (length cs \<le> String_kMaxLength) ''ToHandleChecked'') (\<lambda>_. Inr cs)
        else Inl (OutOfBounds ''StringLength'')
      else Inr (take (unat len) data))"

fun u16s :: "u8 list \<Rightarrow> u16 list" where
  "u16s (a # b # bs) = le_word [a, b] # u16s bs"
| "u16s _ = []"

definition read_utf8 :: "ByteStreamReader \<Rightarrow> (outval \<times> ByteStreamReader) res" where
  "read_utf8 r =
     res_bind (ReadValue r 4) (\<lambda>(len :: u32, r). res_bind (ReadBuffer r (unat (len + 1))) (\<lambda>(_, r').
     res_bind (NEW_STRING (drop (rd_pos r) (rd_data r)) len) (\<lambda>cs. Inr (UStringUtf8 cs, r'))))"

definition read_string16 :: "ByteStreamReader \<Rightarrow> (outval \<times> ByteStreamReader) res" where
  "read_string16 r =
     res_bind (ReadValue r 4) (\<lambda>(len :: u32, r).
     res_bind (ReadBuffer r (unat (ucast (ucast (len + 1) * 2 :: u64) :: u32))) (\<lambda>(_, r').
     res_bind (NEW_STRING (u16s (drop (rd_pos r) (rd_data r))) len) (\<lambda>cs. Inr (UString16 cs, r'))))"

text \<open>
  The first argument bounds the nesting of calls; \<open>Unpack\<close> gives one more than the stream has
  bytes, which is never used up because every call reads a type byte first.
\<close>

fun UnpackValue :: "nat \<Rightarrow> ByteStreamReader \<Rightarrow> (outval \<times> ByteStreamReader) res"
and unpack_elements :: "nat \<Rightarrow> nat \<Rightarrow> ByteStreamReader \<Rightarrow> (outval list \<times> ByteStreamReader) res"
and unpack_properties :: "nat \<Rightarrow> nat \<Rightarrow> ByteStreamReader \<Rightarrow> ((outval \<times> outval) list \<times> ByteStreamReader) res" where
  "UnpackValue 0 r = Inl OutOfFuel"
| "UnpackValue (Suc fuel) r =
     res_bind (ReadValue r 1) (\<lambda>(t :: u8, r).
     if t = type_code T_UNDEFINED \<or> t = type_code T_FUNCTION then Inr (UUndefined, r)
     else if t = type_code T_NUL then Inr (UNull, r)
     else if t = type_code T_STRING_UTF8 then read_utf8 r
     else if t = type_code T_STRING_16 then read_string16 r
     else if t = type_code T_INT32 then res_bind (ReadValue r 4) (\<lambda>(i, r). Inr (UInt32 i, r))
     else if t = type_code T_UINT32 then res_bind (ReadValue r 4) (\<lambda>(i, r). Inr (UUint32 i, r))
     else if t = type_code T_DOUBLE then res_bind (ReadValue r 8) (\<lambda>(d, r). Inr (UDouble d, r))
     else if t = type_code T_BOOL_TRUE then Inr (UBool True, r)
     else if t = type_code T_BOOL_FALSE then Inr (UBool False, r)
     else if t = type_code T_ARRAYBUFFER then
       res_bind (ReadValue r 8) (\<lambda>(buf, r). res_bind (ReadValue r 8) (\<lambda>(len, r).
       res_bind (ArrayBuffer_New buf len) (\<lambda>(data, n). Inr (UArrayBuffer data n, r))))
     else if t = type_code (T_TYPEDARRAY VUint8) then read_view VUint8 0 r
     else if t = type_code (T_TYPEDARRAY VUint8Clamped) then read_view VUint8Clamped 0 r
     else if t = type_code (T_TYPEDARRAY VUint16) then read_view VUint16 1 r
     else if t = type_code (T_TYPEDARRAY VUint32) then read_view VUint32 2 r
     else if t = type_code (T_TYPEDARRAY VInt8) then read_view VInt8 0 r
     else if t = type_code (T_TYPEDARRAY VInt16) then read_view VInt16 1 r
     else if t = type_code (T_TYPEDARRAY VInt32) then read_view VInt32 2 r
     else if t = type_code (T_TYPEDARRAY VDataView) then read_view VDataView 0 r
     else if t = type_code T_EMPTY_ARRAY then Inr (UArray [], r)
     else if t = type_code T_ARRAY then
       res_bind (ReadValue r 4) (\<lambda>(len :: u32, r).
       res_bind (unpack_elements fuel (unat len) r) (\<lambda>(vs, r). Inr (UArray vs, r)))
     else if t = type_code T_HASHMAP then
       res_bind (ReadValue r 4) (\<lambda>(len :: u32, r).
       res_bind (unpack_properties fuel (unat len) r) (\<lambda>(kvs, r). Inr (UObject kvs, r)))
     else if t = type_code T_NATIVE_OBJECT then
       res_bind (ReadValue r 8) (\<lambda>(baseptr, r).
       res_bind (rt_assert (baseptr \<noteq> 0) ''baseptr'') (\<lambda>_. Inr (UNative baseptr, r)))
     else if t = type_code T_ERROR_OBJ then res_bind (UnpackValue fuel r) (\<lambda>(v, r). Inr (UError v, r))
     else Inl (AssertFailed ''unknown data type''))"
| "unpack_elements fuel 0 r = Inr ([], r)"
| "unpack_elements fuel (Suc n) r =
     res_bind (UnpackValue fuel r) (\<lambda>(v, r). res_bind (unpack_elements fuel n r) (\<lambda>(vs, r). Inr (v # vs, r)))"
| "unpack_properties fuel 0 r = Inr ([], r)"
| "unpack_properties fuel (Suc n) r =
     res_bind (UnpackValue fuel r) (\<lambda>(k, r). res_bind (UnpackValue fuel r) (\<lambda>(v, r).
     res_bind (unpack_properties fuel n r) (\<lambda>(kvs, r). Inr ((k, v) # kvs, r))))"

declare UnpackValue.simps(2) [simp del]

definition Unpack :: "byte_stream \<Rightarrow> outval res" where
  "Unpack st =
     res_bind (rt_assert (st \<noteq> []) ''!stream_.empty()'') (\<lambda>_.
     res_bind (UnpackValue (length st + 1) \<lparr>rd_data = st, rd_pos = 0\<rparr>) (\<lambda>(v, r). Inr v))"

section \<open>The reader's recursion is bounded by the stream\<close>

definition left :: "ByteStreamReader \<Rightarrow> nat" where
  "left r = length (rd_data r) - rd_pos r"

text \<open>
  A stream has a wrapped string at \<open>p\<close> when there stand the type of a string and a length that is
  negative as an \<open>int\<close>.
\<close>

definition wrapped_string :: "u8 list \<Rightarrow> nat \<Rightarrow> bool" where
  "wrapped_string st p \<longleftrightarrow> p + 5 \<le> length st \<and> st ! p \<in> {type_code T_STRING_UTF8, type_code T_STRING_16} \<and>
     sint (le_word (take 4 (drop (p + 1) st)) :: u32) < 0"

text \<open>
  \<open>good r m\<close>: \<open>m\<close> does not exhaust the bound, leaves the bytes of the stream only if there is a
  wrapped string in them, and only moves the position of \<open>r\<close> forward.
\<close>

definition good :: "ByteStreamReader \<Rightarrow> ('x \<times> ByteStreamReader) res \<Rightarrow> bool" where
  "good r m \<longleftrightarrow> m \<noteq> Inl OutOfFuel \<and> (\<forall>e. m = Inl (OutOfBounds e) \<longrightarrow> (\<exists>p. wrapped_string (rd_data r) p)) \<and>
     (\<forall>x r'. m = Inr (x, r') \<longrightarrow> rd_data r' = rd_data r \<and> rd_pos r \<le> rd_pos r')"

lemma goodI:
  assumes "m \<noteq> Inl OutOfFuel" "\<And>e. m = Inl (OutOfBounds e) \<Longrightarrow> \<exists>p. wrapped_string (rd_data r) p"
    "\<And>x r'. m = Inr (x, r') \<Longrightarrow> rd_data r' = rd_data r \<and> rd_pos r \<le> rd_pos r'"
  shows "good r m"
  using assms unfolding good_def by blast

lemma goodD:
  assumes "good r m"
  shows "m \<noteq> Inl OutOfFuel" "m = Inr (x, r') \<Longrightarrow> rd_data r' = rd_data r" "m = Inr (x, r') \<Longrightarrow> rd_pos r \<le> rd_pos r'"
    "m = Inl (OutOfBounds e) \<Longrightarrow> \<exists>p. wrapped_string (rd_data r) p"
  using assms unfolding good_def by blast+

lemma good_return [simp, intro]:
  "good r (Inr (x, r))" "good r (Inl (AssertFailed m))" "good r (Inl (Aborted m))"
  by (auto intro: goodI)

lemma good_bind:
  assumes "good r m" "\<And>x r'. m = Inr (x, r') \<Longrightarrow> left r' \<le> left r \<Longrightarrow> good r' (f (x, r'))"
  shows "good r (res_bind m f)"
proof (cases m)
  case (Inl e)
  then show ?thesis using goodD(1,4) [OF assms(1)] by (auto intro: goodI)
next
  case (Inr y)
  obtain x r' where y: "y = (x, r')" by force
  note r' = goodD(2,3) [OF assms(1) Inr [unfolded y]]
  have g: "good r' (f (x, r'))" using assms(2) [OF Inr [unfolded y]] r' by (simp add: left_def)
  have e: "res_bind m f = f (x, r')" using Inr y by simp
  show ?thesis
    unfolding e by (rule goodI) (use goodD [OF g] r' in \<open>metis order_trans\<close>)+
qed

lemma good_assert: "good r m \<Longrightarrow> good r (res_bind (rt_assert c msg) (\<lambda>_. m))"
  by (cases c) simp_all

lemma good_check: "good r m \<Longrightarrow> good r (res_bind (check c msg) (\<lambda>_. m))"
  by (cases c) (simp_all add: check_def)

lemma good_buffer:
  "(\<And>p n. good r (f (p, n))) \<Longrightarrow> good r (res_bind (ArrayBuffer_New p n) f)"
  unfolding ArrayBuffer_New_def check_def by simp

lemma good_if: "good r a \<Longrightarrow> good r b \<Longrightarrow> good r (if c then a else b)"
  by simp

lemma good_ReadBuffer [simp]: "good r (ReadBuffer r n)"
  by (cases "rd_pos r + n \<le> length (rd_data r)") (auto simp: ReadBuffer_def intro: goodI)

lemma good_ReadValue [simp]: "good r (ReadValue r n)"
  unfolding ReadValue_def by (rule good_bind) simp_all

lemma good_read_view [simp]: "good r (read_view k sh r)"
  unfolding read_view_def
  by (intro good_bind; simp?) (intro good_bind good_buffer good_check; simp add: good_buffer good_check)+

lemma NEW_STRING_errors:
  assumes "NEW_STRING data len = Inl e"
  shows "(\<exists>m. e = Aborted m) \<or> (sint len < 0 \<and> e = OutOfBounds ''StringLength'')"
  using assms by (auto simp: NEW_STRING_def check_def Let_def split: if_splits)

lemma ReadValue_bytes:
  assumes "ReadValue r n = Inr (w, r')"
  shows "rd_pos r + n \<le> length (rd_data r)" "w = le_word (take n (drop (rd_pos r) (rd_data r)))"
    "r' = r\<lparr>rd_pos := rd_pos r + n\<rparr>"
  using assms by (auto simp: ReadValue_def ReadBuffer_def res_iffs)

lemma good_string:
  assumes t: "ReadValue r0 1 = Inr (t, r)" "t = type_code T_STRING_UTF8 \<or> t = type_code T_STRING_16"
  shows "good r (res_bind (ReadValue r 4) (\<lambda>(len :: u32, r). res_bind (ReadBuffer r (n_of len)) (\<lambda>(_, r').
     res_bind (NEW_STRING (rest_of r) len) (\<lambda>cs. Inr (mk cs, r')))))"
proof (rule good_bind [OF good_ReadValue], unfold prod.case, goal_cases)
  case (1 len r1)
  note a = ReadValue_bytes [OF t(1)] and l = ReadValue_bytes [OF "1"(1)]
  have bound: "rd_pos r0 + 5 \<le> length (rd_data r0)" using l(1) a(3) by simp
  have "drop (rd_pos r0) (rd_data r0) = rd_data r0 ! rd_pos r0 # drop (Suc (rd_pos r0)) (rd_data r0)"
    using bound by (simp add: Cons_nth_drop_Suc)
  then have "t = rd_data r0 ! rd_pos r0" using a(2) by simp
  then have w: "sint len < 0 \<Longrightarrow> wrapped_string (rd_data r1) (rd_pos r0)"
    using t(2) l a(3) bound by (auto simp: wrapped_string_def)
  show ?case
  proof (rule good_bind [OF good_ReadBuffer], unfold prod.case, goal_cases)
    case (1 b r2)
    have r2: "rd_data r2 = rd_data r1" using goodD(2) [OF good_ReadBuffer "1"(1)] .
    show ?case
    proof (cases "NEW_STRING (rest_of r1) len")
      case (Inl e)
      then consider m where "e = Aborted m" | "sint len < 0" "e = OutOfBounds ''StringLength''"
        using NEW_STRING_errors by blast
      then show ?thesis
      proof cases
        case 2
        then show ?thesis using Inl w [folded r2] by (auto simp: good_def)
      qed (use Inl in simp)
    qed (auto intro: goodI)
  qed
qed

lemma good_strings:
  assumes "ReadValue r0 1 = Inr (t, r)"
  shows "t = type_code T_STRING_UTF8 \<Longrightarrow> good r (read_utf8 r)" "t = type_code T_STRING_16 \<Longrightarrow> good r (read_string16 r)"
  unfolding read_utf8_def read_string16_def by (rule good_string [OF assms], simp)+

lemma unpack_elements_good:
  assumes "\<And>r. left r < fuel \<Longrightarrow> good r (UnpackValue fuel r)" "left r < fuel"
  shows "good r (unpack_elements fuel n r)"
  using assms(2)
proof (induction n arbitrary: r)
  case (Suc n)
  then show ?case by (auto intro!: good_bind assms(1))
qed simp

lemma unpack_properties_good:
  assumes "\<And>r. left r < fuel \<Longrightarrow> good r (UnpackValue fuel r)" "left r < fuel"
  shows "good r (unpack_properties fuel n r)"
  using assms(2)
proof (induction n arbitrary: r)
  case (Suc n)
  then show ?case by (auto intro!: good_bind assms(1))
qed simp

lemma UnpackValue_good: "left r < fuel \<Longrightarrow> good r (UnpackValue fuel r)"
proof (induction fuel arbitrary: r)
  case (Suc fuel)
  have step: "left r' < fuel" if "ReadValue r 1 = Inr (t, r')" for t :: u8 and r'
    using that Suc.prems by (auto simp: ReadValue_def ReadBuffer_def res_iffs left_def)
  note sub = Suc.IH unpack_elements_good [OF Suc.IH] unpack_properties_good [OF Suc.IH]
  show ?case
    unfolding UnpackValue.simps
  proof (rule good_bind [OF good_ReadValue], unfold prod.case, goal_cases)
    case (1 t r1)
    note lt = step [OF "1"(1)] and strings = good_strings [OF "1"(1)]
    show ?case
      using lt strings by (auto intro!: good_bind good_assert good_buffer sub)
  qed
qed simp

section \<open>Reading what was appended\<close>

definition rd_at :: "ByteStreamReader \<Rightarrow> u8 list \<Rightarrow> bool" where
  "rd_at r xs \<longleftrightarrow> rd_pos r \<le> length (rd_data r) \<and> drop (rd_pos r) (rd_data r) = xs"

definition adv :: "ByteStreamReader \<Rightarrow> nat \<Rightarrow> ByteStreamReader" where
  "adv r n = r\<lparr>rd_pos := rd_pos r + n\<rparr>"

lemma adv_adv [simp]: "adv (adv r m) n = adv r (m + n)" "adv r 0 = r"
  by (simp_all add: adv_def add.assoc)

lemma rd_at_adv: "rd_at r (bs @ rest) \<Longrightarrow> n = length bs \<Longrightarrow> rd_at (adv r n) rest"
proof -
  assume a: "rd_at r (bs @ rest)" and n: "n = length bs"
  have "length (rd_data r) - rd_pos r = length bs + length rest"
    using a by (metis length_append length_drop rd_at_def)
  moreover have "drop (length bs) (drop (rd_pos r) (rd_data r)) = rest" using a by (simp add: rd_at_def)
  moreover have "rd_pos r \<le> length (rd_data r)" using a by (simp add: rd_at_def)
  ultimately show ?thesis using n by (simp add: rd_at_def adv_def add.commute)
qed

lemma ReadBuffer_at: "rd_at r (bs @ rest) \<Longrightarrow> n = length bs \<Longrightarrow> ReadBuffer r n = Inr (bs, adv r n)"
proof -
  assume a: "rd_at r (bs @ rest)" and n: "n = length bs"
  have "length (rd_data r) - rd_pos r = length bs + length rest"
    using a by (metis length_append length_drop rd_at_def)
  moreover have "rd_pos r \<le> length (rd_data r)" using a by (simp add: rd_at_def)
  ultimately have "rd_pos r + length bs \<le> length (rd_data r)" by linarith
  then show ?thesis using a n by (simp add: ReadBuffer_def rd_at_def adv_def)
qed

lemma ReadValue_at:
  "rd_at r (le_bytes n w @ rest) \<Longrightarrow> LENGTH('a) \<le> 8 * n \<Longrightarrow>
    ReadValue r n = Inr (w :: 'a::len word, adv r n)"
  by (simp add: ReadValue_def ReadBuffer_at [of r "le_bytes n w" rest])

text \<open>\<open>unpacks bs v\<close>: a reader at the bytes \<open>bs\<close> produces \<open>v\<close> and consumes exactly them.\<close>

definition unpacks :: "u8 list \<Rightarrow> outval \<Rightarrow> bool" where
  "unpacks bs v \<longleftrightarrow> (\<forall>fuel r rest. length bs < fuel \<longrightarrow> rd_at r (bs @ rest) \<longrightarrow>
     UnpackValue fuel r = Inr (v, adv r (length bs)))"

lemma unpacksI:
  assumes "\<And>fuel r rest. length bs \<le> fuel \<Longrightarrow> rd_at r (bs @ rest) \<Longrightarrow>
    UnpackValue (Suc fuel) r = Inr (v, adv r (length bs))"
  shows "unpacks bs v"
  unfolding unpacks_def
proof (intro allI impI)
  fix fuel r rest assume "length bs < fuel" "rd_at r (bs @ rest)"
  then show "UnpackValue fuel r = Inr (v, adv r (length bs))"
    using assms [of "fuel - 1" r rest] by (cases fuel) auto
qed

lemma rd_at_append: "rd_at r ((as @ bs) @ rest) \<longleftrightarrow> rd_at r (as @ bs @ rest)"
  by simp

lemma type_byte:
  assumes "rd_at r ((t # bs) @ rest)"
  shows "ReadValue r 1 = Inr (t :: u8, adv r (Suc 0))" "rd_at (adv r (Suc 0)) (bs @ rest)"
proof -
  have e: "(t # bs) @ rest = le_bytes 1 t @ bs @ rest" by simp
  have "ReadValue r 1 = Inr (t :: u8, adv r 1)"
    by (rule ReadValue_at) (use assms e in simp_all)
  then show "ReadValue r 1 = Inr (t :: u8, adv r (Suc 0))" by simp
  show "rd_at (adv r (Suc 0)) (bs @ rest)" by (rule rd_at_adv [of r "[t]"]) (use assms in simp_all)
qed

lemma read_word:
  assumes "rd_at r ((le_bytes n w @ bs) @ rest)" "LENGTH('a) \<le> 8 * n"
  shows "ReadValue r n = Inr (w :: 'a::len word, adv r n)" "rd_at (adv r n) (bs @ rest)"
  using ReadValue_at [of r n w "bs @ rest"] rd_at_adv [of r "le_bytes n w" "bs @ rest" n] assms by simp_all

lemma unpacks_simple:
  "unpacks [type_code T_UNDEFINED] UUndefined" "unpacks [type_code T_NUL] UNull"
  "unpacks [type_code T_BOOL_TRUE] (UBool True)" "unpacks [type_code T_BOOL_FALSE] (UBool False)"
  "unpacks [type_code T_EMPTY_ARRAY] (UArray [])"
  by (rule unpacksI, unfold UnpackValue.simps, subst type_byte(1), assumption, simp)+

lemma payload:
  assumes "rd_at r ((t # le_bytes n w) @ rest)" "LENGTH('a) \<le> 8 * n"
  shows "ReadValue r 1 = Inr (t :: u8, adv r (Suc 0))"
    "ReadValue (adv r (Suc 0)) n = Inr (w :: 'a::len word, adv r (Suc n))"
  using type_byte [OF assms(1)] read_word(1) [of "adv r (Suc 0)" n w "[]" rest] assms(2) by simp_all

lemma unpacks_word:
  "unpacks (type_code T_INT32 # le_bytes 4 i) (UInt32 i)"
  "unpacks (type_code T_UINT32 # le_bytes 4 i) (UUint32 i)"
  "unpacks (type_code T_DOUBLE # le_bytes 8 d) (UDouble d)"
  "c \<noteq> 0 \<Longrightarrow> unpacks (type_code T_NATIVE_OBJECT # le_bytes 8 c) (UNative c)"
  by (rule unpacksI, frule payload(2), simp, drule payload(1), simp, simp add: UnpackValue.simps)+

lemma unpacks_buffer:
  assumes "p \<noteq> 0"
  shows "unpacks (type_code T_ARRAYBUFFER # le_bytes 8 p @ le_bytes 8 n) (UArrayBuffer p n)"
proof (rule unpacksI)
  fix fuel r rest
  assume "rd_at r ((type_code T_ARRAYBUFFER # le_bytes 8 p @ le_bytes 8 n) @ rest)"
  note t = type_byte [OF this]
  have p: "ReadValue (adv r (Suc 0)) 8 = Inr (p, adv r 9)" "rd_at (adv r 9) (le_bytes 8 n @ rest)"
    using read_word [OF t(2)] by simp_all
  have n: "ReadValue (adv r 9) 8 = Inr (n, adv r 17)"
    using read_word(1) [of "adv r 9" 8 n "[]"] p(2) by simp
  show "UnpackValue (Suc fuel) r = Inr (UArrayBuffer p n,
    adv r (length (type_code T_ARRAYBUFFER # le_bytes 8 p @ le_bytes 8 n)))"
    unfolding UnpackValue.simps t(1) using assms by (simp add: p n ArrayBuffer_New_def check_def)
qed

fun view_shift :: "view_kind \<Rightarrow> nat" where
  "view_shift VUint16 = 1" | "view_shift VInt16 = 1" | "view_shift VUint32 = 2" | "view_shift VInt32 = 2"
| "view_shift _ = 0"

lemma unpacks_view:
  assumes "k \<noteq> VOther" "p \<noteq> 0" "view_fits k (view_shift k) off (drop_bit (view_shift k) len)"
  shows "unpacks (type_code (T_TYPEDARRAY k) # le_bytes 8 p @ le_bytes 8 n @ le_bytes 8 off @ le_bytes 8 len)
    (UView k p n off (drop_bit (view_shift k) len))"
proof (rule unpacksI)
  fix fuel r rest
  assume "rd_at r ((type_code (T_TYPEDARRAY k) # le_bytes 8 p @ le_bytes 8 n @ le_bytes 8 off @ le_bytes 8 len) @ rest)"
  note t = type_byte [OF this]
  have p: "ReadValue (adv r (Suc 0)) 8 = Inr (p, adv r 9)" "rd_at (adv r 9) ((le_bytes 8 n @ le_bytes 8 off @ le_bytes 8 len) @ rest)"
    using read_word [OF t(2)] by simp_all
  have n: "ReadValue (adv r 9) 8 = Inr (n, adv r 17)" "rd_at (adv r 17) ((le_bytes 8 off @ le_bytes 8 len) @ rest)"
    using read_word [OF p(2)] by simp_all
  have off: "ReadValue (adv r 17) 8 = Inr (off, adv r 25)" "rd_at (adv r 25) (le_bytes 8 len @ rest)"
    using read_word [OF n(2)] by simp_all
  have len: "ReadValue (adv r 25) 8 = Inr (len, adv r 33)"
    using read_word(1) [of "adv r 25" 8 len "[]"] off(2) by simp
  have v: "read_view k (view_shift k) (adv r (Suc 0)) = Inr (UView k p n off (drop_bit (view_shift k) len), adv r 33)"
    using assms(2,3) by (simp add: read_view_def p n off len ArrayBuffer_New_def check_def)
  show "UnpackValue (Suc fuel) r = Inr (UView k p n off (drop_bit (view_shift k) len),
    adv r (length (type_code (T_TYPEDARRAY k) # le_bytes 8 p @ le_bytes 8 n @ le_bytes 8 off @ le_bytes 8 len)))"
    unfolding UnpackValue.simps t(1) using assms(1) v by (cases k) simp_all
qed

subsection \<open>Strings, arrays and objects\<close>

definition string_bytes :: "u16 list \<Rightarrow> u8 list" where
  "string_bytes cs = type_code T_STRING_16 # le_bytes 4 (of_nat (length cs) :: u32) @
     concat (map (le_bytes 2) cs) @ [0, 0]"

lemma length_concat_bytes [simp]: "length (concat (map (le_bytes 2) cs)) = 2 * length cs"
  by (induction cs) auto

lemma le_word_2: "le_word [ucast c, ucast (drop_bit 8 c)] = (c :: u16)"
  using le_word_le_bytes [of 2 c] by (simp add: numeral_2_eq_2)

lemma u16s_bytes: "u16s (concat (map (le_bytes 2) cs) @ bs) = cs @ u16s bs"
proof (induction cs)
  case (Cons c cs)
  then show ?case using le_word_2 [of c] by (simp add: numeral_2_eq_2)
qed simp

lemma NEW_STRING_length:
  assumes "length cs \<le> String_kMaxLength"
  shows "NEW_STRING (cs @ rest) (of_nat (length cs)) = Inr cs"
proof -
  have n: "unat (of_nat (length cs) :: u32) = length cs"
    by (rule unat_of_nat_small) (use assms in \<open>simp add: String_kMaxLength_def\<close>)
  have "sint (of_nat (length cs) :: u32) = int (length cs)"
    using assms by (simp add: String_kMaxLength_def signed_of_nat signed_take_bit_int_eq_self)
  moreover have "of_nat (length cs) = (0 :: u32) \<longleftrightarrow> cs = []" using n by (metis length_0_conv unat_0 unat_eq_zero)
  ultimately show ?thesis using assms n by (simp add: NEW_STRING_def)
qed

lemma unpacks_string:
  assumes "length cs \<le> String_kMaxLength"
  shows "unpacks (string_bytes cs) (UString16 cs)"
proof (rule unpacksI)
  fix fuel r rest
  let ?n = "length cs" and ?b = "concat (map (le_bytes 2) cs) @ [0, 0]"
  assume "rd_at r (string_bytes cs @ rest)"
  then have at: "rd_at r ((type_code T_STRING_16 # le_bytes 4 (of_nat ?n :: u32) @ ?b) @ rest)"
    by (simp add: string_bytes_def)
  note t = type_byte [OF at]
  have small: "?n < 2 ^ 28" using assms by (simp add: String_kMaxLength_def)
  have l: "ReadValue (adv r (Suc 0)) 4 = Inr (of_nat ?n :: u32, adv r 5)" "rd_at (adv r 5) (?b @ rest)"
    using read_word [OF t(2)] by simp_all
  have n1: "of_nat ?n + 1 = (of_nat (?n + 1) :: u32)" by simp
  have u1: "unat (of_nat (?n + 1) :: u32) = ?n + 1" by (rule unat_of_nat_small) (use small in simp)
  have "unat (ucast (of_nat (?n + 1) :: u32) :: u64) = ?n + 1"
    using u1 small by (simp add: unsigned_ucast_eq take_bit_nat_eq_self)
  then have "unat (ucast (of_nat (?n + 1) :: u32) * 2 :: u64) = (?n + 1) * 2"
    using small by (simp add: unat_word_ariths)
  then have sz: "unat (ucast (ucast (of_nat ?n + 1 :: u32) * 2 :: u64) :: u32) = length ?b"
    unfolding n1 using small by (simp add: unsigned_ucast_eq unsigned_take_bit_eq take_bit_nat_eq_self)
  note b = ReadBuffer_at [OF l(2) sz]
  have d: "u16s (drop (rd_pos (adv r 5)) (rd_data (adv r 5))) = cs @ u16s ([0, 0] @ rest)"
    using l(2) u16s_bytes [of cs "[0, 0] @ rest"] by (simp add: rd_at_def)
  have "read_string16 (adv r (Suc 0)) = Inr (UString16 cs, adv r (length (string_bytes cs)))"
    unfolding read_string16_def l(1) res_bind_simps prod.case b d NEW_STRING_length [OF assms]
    by (simp add: string_bytes_def sz [simplified])
  then show "UnpackValue (Suc fuel) r = Inr (UString16 cs, adv r (length (string_bytes cs)))"
    unfolding UnpackValue.simps t(1) by simp
qed

definition unpacks_list :: "u8 list \<Rightarrow> outval list \<Rightarrow> bool" where
  "unpacks_list bs vs \<longleftrightarrow> (\<forall>fuel r rest. length bs < fuel \<longrightarrow> rd_at r (bs @ rest) \<longrightarrow>
     unpack_elements fuel (length vs) r = Inr (vs, adv r (length bs)))"

definition unpacks_props :: "u8 list \<Rightarrow> (outval \<times> outval) list \<Rightarrow> bool" where
  "unpacks_props bs kvs \<longleftrightarrow> (\<forall>fuel r rest. length bs < fuel \<longrightarrow> rd_at r (bs @ rest) \<longrightarrow>
     unpack_properties fuel (length kvs) r = Inr (kvs, adv r (length bs)))"

lemma unpacksD:
  "unpacks bs v \<Longrightarrow> length bs < fuel \<Longrightarrow> rd_at r (bs @ rest) \<Longrightarrow> UnpackValue fuel r = Inr (v, adv r (length bs))"
  "unpacks_list bs vs \<Longrightarrow> length bs < fuel \<Longrightarrow> rd_at r (bs @ rest) \<Longrightarrow>
     unpack_elements fuel (length vs) r = Inr (vs, adv r (length bs))"
  "unpacks_props bs kvs \<Longrightarrow> length bs < fuel \<Longrightarrow> rd_at r (bs @ rest) \<Longrightarrow>
     unpack_properties fuel (length kvs) r = Inr (kvs, adv r (length bs))"
  unfolding unpacks_def unpacks_list_def unpacks_props_def by blast+

lemma unpacks_list_Nil: "unpacks_list [] []" "unpacks_props [] []"
  by (simp_all add: unpacks_list_def unpacks_props_def)

lemma unpacks_list_Cons:
  assumes "unpacks b v" "unpacks_list bs vs"
  shows "unpacks_list (b @ bs) (v # vs)"
  unfolding unpacks_list_def
proof (intro allI impI)
  fix fuel r rest
  assume f: "length (b @ bs) < fuel" and at: "rd_at r ((b @ bs) @ rest)"
  have 1: "UnpackValue fuel r = Inr (v, adv r (length b))"
    using unpacksD(1) [OF assms(1), of fuel r "bs @ rest"] f at by simp
  have "rd_at (adv r (length b)) (bs @ rest)" using rd_at_adv [of r b "bs @ rest"] at by simp
  then have 2: "unpack_elements fuel (length vs) (adv r (length b)) = Inr (vs, adv r (length b + length bs))"
    using unpacksD(2) [OF assms(2), of fuel "adv r (length b)" rest] f by simp
  show "unpack_elements fuel (length (v # vs)) r = Inr (v # vs, adv r (length (b @ bs)))"
    by (simp add: 1 2)
qed

lemma unpacks_props_Cons:
  assumes "unpacks a k" "unpacks b v" "unpacks_props bs kvs"
  shows "unpacks_props (a @ b @ bs) ((k, v) # kvs)"
  unfolding unpacks_props_def
proof (intro allI impI)
  fix fuel r rest
  assume f: "length (a @ b @ bs) < fuel" and at: "rd_at r ((a @ b @ bs) @ rest)"
  have 1: "UnpackValue fuel r = Inr (k, adv r (length a))" 
    using unpacksD(1) [OF assms(1), of fuel r "b @ bs @ rest"] f at by simp
  have at2: "rd_at (adv r (length a)) (b @ bs @ rest)" using rd_at_adv [of r a "b @ bs @ rest"] at by simp
  then have 2: "UnpackValue fuel (adv r (length a)) = Inr (v, adv r (length a + length b))"
    using unpacksD(1) [OF assms(2), of fuel "adv r (length a)" "bs @ rest"] f by simp
  have "rd_at (adv r (length a + length b)) (bs @ rest)" using rd_at_adv [OF at2, of "length b"] by simp
  then have 3: "unpack_properties fuel (length kvs) (adv r (length a + length b))
      = Inr (kvs, adv r (length a + length b + length bs))"
    using unpacksD(3) [OF assms(3), of fuel "adv r (length a + length b)" rest] f by (simp add: add.assoc)
  show "unpack_properties fuel (length ((k, v) # kvs)) r = Inr ((k, v) # kvs, adv r (length (a @ b @ bs)))"
    by (simp add: 1 2 3 add.assoc)
qed

lemma unpacks_array:
  assumes "unpacks_list bs vs" "length vs < 2 ^ 32"
  shows "unpacks (type_code T_ARRAY # le_bytes 4 (of_nat (length vs) :: u32) @ bs) (UArray vs)"
proof (rule unpacksI)
  fix fuel r rest
  assume f: "length (type_code T_ARRAY # le_bytes 4 (of_nat (length vs) :: u32) @ bs) \<le> fuel"
    and at: "rd_at r ((type_code T_ARRAY # le_bytes 4 (of_nat (length vs) :: u32) @ bs) @ rest)"
  note t = type_byte [OF at]
  have l: "ReadValue (adv r (Suc 0)) 4 = Inr (of_nat (length vs) :: u32, adv r 5)" "rd_at (adv r 5) (bs @ rest)"
    using read_word [OF t(2)] by simp_all
  have n: "unat (of_nat (length vs) :: u32) = length vs" by (rule unat_of_nat_small) (use assms(2) in simp)
  have e: "unpack_elements fuel (length vs) (adv r 5) = Inr (vs, adv r (5 + length bs))"
    using unpacksD(2) [OF assms(1) _ l(2), of fuel] f by simp
  show "UnpackValue (Suc fuel) r = Inr (UArray vs,
      adv r (length (type_code T_ARRAY # le_bytes 4 (of_nat (length vs) :: u32) @ bs)))"
    unfolding UnpackValue.simps t(1) by (simp add: l(1) n e)
qed

lemma unpacks_object:
  assumes "unpacks_props bs kvs" "length kvs < 2 ^ 32"
  shows "unpacks (type_code T_HASHMAP # le_bytes 4 (of_nat (length kvs) :: u32) @ bs) (UObject kvs)"
proof (rule unpacksI)
  fix fuel r rest
  assume f: "length (type_code T_HASHMAP # le_bytes 4 (of_nat (length kvs) :: u32) @ bs) \<le> fuel"
    and at: "rd_at r ((type_code T_HASHMAP # le_bytes 4 (of_nat (length kvs) :: u32) @ bs) @ rest)"
  note t = type_byte [OF at]
  have l: "ReadValue (adv r (Suc 0)) 4 = Inr (of_nat (length kvs) :: u32, adv r 5)" "rd_at (adv r 5) (bs @ rest)"
    using read_word [OF t(2)] by simp_all
  have n: "unat (of_nat (length kvs) :: u32) = length kvs" by (rule unat_of_nat_small) (use assms(2) in simp)
  have e: "unpack_properties fuel (length kvs) (adv r 5) = Inr (kvs, adv r (5 + length bs))"
    using unpacksD(3) [OF assms(1) _ l(2), of fuel] f by simp
  show "UnpackValue (Suc fuel) r = Inr (UObject kvs,
      adv r (length (type_code T_HASHMAP # le_bytes 4 (of_nat (length kvs) :: u32) @ bs)))"
    unfolding UnpackValue.simps t(1) by (simp add: l(1) n e)
qed

lemma unpacks_error:
  assumes "unpacks bs v"
  shows "unpacks (type_code T_ERROR_OBJ # bs) (UError v)"
proof (rule unpacksI)
  fix fuel r rest
  assume f: "length (type_code T_ERROR_OBJ # bs) \<le> fuel" and at: "rd_at r ((type_code T_ERROR_OBJ # bs) @ rest)"
  note t = type_byte [OF at]
  have e: "UnpackValue fuel (adv r (Suc 0)) = Inr (v, adv r (Suc (length bs)))"
    using unpacksD(1) [OF assms _ t(2), of fuel] f by simp
  show "UnpackValue (Suc fuel) r = Inr (UError v, adv r (length (type_code T_ERROR_OBJ # bs)))"
    unfolding UnpackValue.simps t(1) by (simp add: e)
qed

section \<open>Round trip\<close>

text \<open>What the receiving isolate should get for a value, given the buffers before the move.\<close>

primrec image :: "(nat \<Rightarrow> u64 \<times> u64) \<Rightarrow> jsval \<Rightarrow> outval" where
  "image B JUndefined = UUndefined"
| "image B JNull = UNull"
| "image B (JBool b) = UBool b"
| "image B (JArrayBuffer b) = UArrayBuffer (fst (B b)) (snd (B b))"
| "image B (JView k b off len) = UView k (fst (B b)) (snd (B b)) off (drop_bit (view_shift k) len)"
| "image B (JInt32 i) = UInt32 i"
| "image B (JUint32 i) = UUint32 i"
| "image B (JDouble d) = UDouble d"
| "image B (JString cs) = UString16 cs"
| "image B (JArray vs) = UArray (map (image B) vs)"
| "image B (JFunction fn) = UUndefined"
| "image B (JError m) = UError (UString16 (case m of None \<Rightarrow> no_message | Some cs \<Rightarrow> cs))"
| "image B (JNative n) = (case n of NObject (Some c) \<Rightarrow> UNative c | _ \<Rightarrow> UUndefined)"
| "image B (JObject kvs) = UObject (map (map_prod (image B) (image B)) kvs)"
| "image B JOther = UUndefined"

text \<open>
  Values without functions, within the sizes V8 allows: no string has more than \<open>kMaxLength\<close>
  characters, and a typed array is aligned and has at most \<open>Smi::kMaxValue\<close> elements.
\<close>

primrec plain :: "jsval \<Rightarrow> bool" where
  "plain JUndefined = True"
| "plain JNull = True"
| "plain (JBool b) = True"
| "plain (JArrayBuffer b) = True"
| "plain (JView k b off len) = view_fits k (view_shift k) off (drop_bit (view_shift k) len)"
| "plain (JInt32 i) = True"
| "plain (JUint32 i) = True"
| "plain (JDouble d) = True"
| "plain (JString cs) = (length cs \<le> String_kMaxLength)"
| "plain (JArray vs) = (length vs < 2 ^ 32 \<and> (\<forall>b \<in> set (map plain vs). b))"
| "plain (JFunction fn) = False"
| "plain (JError m) = (case m of None \<Rightarrow> True | Some cs \<Rightarrow> length cs \<le> String_kMaxLength)"
| "plain (JNative n) = (case n of NObject (Some c) \<Rightarrow> c \<noteq> 0 | _ \<Rightarrow> False)"
| "plain (JObject kvs) = (length kvs < 2 ^ 32 \<and> (\<forall>ab \<in> set (map (map_prod plain plain) kvs). fst ab \<and> snd ab))"
| "plain JOther = True"

lemma stream_Append [simp]:
  "stream (AppendType t s) = stream s @ [type_code t]" "stream (Append n w s) = stream s @ le_bytes n w"
  "stream (Neuter b s) = stream s"
  "buffers (AppendType t s) = buffers s" "buffers (Append n w s) = buffers s"
  "buffers (Neuter b s) = (buffers s)(b := (0, 0))"
  "exports (AppendType t s) = exports s" "exports (Append n w s) = exports s" "exports (Neuter b s) = exports s"
  by (simp_all add: AppendType_def Append_def Neuter_def AppendValue_def)

lemma stream_AppendString:
  assumes "length cs \<le> String_kMaxLength"
  shows "stream (AppendString cs s) = stream s @ string_bytes cs" "buffers (AppendString cs s) = buffers s"
proof -
  have "unat (of_nat ((length cs + 1) * 2) :: u32) = (length cs + 1) * 2"
    by (rule unat_of_nat_small) (use assms in \<open>simp add: String_kMaxLength_def\<close>)
  then have "AppendBuffer st (of_nat ((length cs + 1) * 2)) = st @ replicate (2 * length cs) 0 @ [0, 0]" for st
    unfolding AppendBuffer_def by (simp add: replicate_append_same replicate_app_Cons_same mult.commute)
  then show "stream (AppendString cs s) = stream s @ string_bytes cs"
    by (simp add: AppendString_def overwrite_def string_bytes_def Let_def del: of_nat_mult of_nat_add)
  show "buffers (AppendString cs s) = buffers s" by (simp add: AppendString_def Let_def)
qed

lemma length_no_message: "length no_message = 18"
  by (simp add: no_message_def)

text \<open>\<open>live B0 s\<close>: a buffer that still has contents has the contents it had at the start.\<close>

definition live :: "(nat \<Rightarrow> u64 \<times> u64) \<Rightarrow> transport \<Rightarrow> bool" where
  "live B0 s \<longleftrightarrow> (\<forall>b. snd (buffers s b) \<noteq> 0 \<longrightarrow> buffers s b = B0 b)"

text \<open>An array buffer with a length has a backing store: V8 checks it for every buffer it makes.\<close>

definition backed :: "(nat \<Rightarrow> u64 \<times> u64) \<Rightarrow> bool" where
  "backed B \<longleftrightarrow> (\<forall>b. snd (B b) \<noteq> 0 \<longrightarrow> fst (B b) \<noteq> 0)"

definition appended :: "(nat \<Rightarrow> u64 \<times> u64) \<Rightarrow> transport \<Rightarrow> transport \<Rightarrow> (u8 list \<Rightarrow> bool) \<Rightarrow> bool" where
  "appended B0 s s' Q \<longleftrightarrow> (\<exists>bs. stream s' = stream s @ bs \<and> live B0 s' \<and> Q bs)"

lemma live_Neuter: "live B0 s \<Longrightarrow> live B0 (Neuter b s)"
  by (simp add: live_def)

lemma SerializeValue_appends:
  assumes backed: "backed B0"
  shows "SerializeValue new level v s = (NONE, s') \<Longrightarrow> plain v \<Longrightarrow> live B0 s \<Longrightarrow>
     appended B0 s s' (\<lambda>bs. unpacks bs (image B0 v))"
  "serialize_elements new level vs s = (NONE, s') \<Longrightarrow> list_all plain vs \<Longrightarrow> live B0 s \<Longrightarrow>
     appended B0 s s' (\<lambda>bs. unpacks_list bs (map (image B0) vs))"
  "serialize_properties new level kvs s = (NONE, s') \<Longrightarrow> list_all (\<lambda>kv. plain (fst kv) \<and> plain (snd kv)) kvs \<Longrightarrow> live B0 s \<Longrightarrow>
     appended B0 s s' (\<lambda>bs. unpacks_props bs (map (map_prod (image B0) (image B0)) kvs))"
proof (induction new level v s and new level vs s and new level kvs s arbitrary: s' and s' and s'
    rule: SerializeValue_serialize_elements_serialize_properties.induct)
  case (1 new level v s)
  have lvl: "\<not> level > kMaxStackSize" using "1.prems"(1) by (auto simp: SerializeValue.simps [of _ level])
  note run = "1.prems"(1) [unfolded SerializeValue.simps if_not_P [OF lvl]]
  have live: "live B0 (AppendType t s)" "live B0 (Append n w (AppendType t s))" for t n and w :: u32
    using "1.prems"(3) by (simp_all add: live_def)
  show ?case
  proof (cases v)
    case (JArray vs)
    let ?s1 = "Append 4 (of_nat (length vs) :: u32) (AppendType T_ARRAY s)"
    have "appended B0 ?s1 s' (\<lambda>bs. unpacks_list bs (map (image B0) vs))"
      by (rule "1.IH"(1) [OF lvl JArray]) (use run JArray "1.prems"(2) live in \<open>simp_all add: list_all_iff\<close>)
    then obtain bs where bs: "stream s' = stream ?s1 @ bs" "live B0 s'" "unpacks_list bs (map (image B0) vs)"
      by (auto simp: appended_def)
    have "unpacks (type_code T_ARRAY # le_bytes 4 (of_nat (length vs) :: u32) @ bs) (UArray (map (image B0) vs))"
      using unpacks_array [OF bs(3)] "1.prems"(2) JArray by simp
    then show ?thesis using bs(1,2) JArray by (auto simp: appended_def)
  next
    case (JObject kvs)
    let ?s1 = "Append 4 (of_nat (length kvs) :: u32) (AppendType T_HASHMAP s)"
    have "appended B0 ?s1 s' (\<lambda>bs. unpacks_props bs (map (map_prod (image B0) (image B0)) kvs))"
      by (rule "1.IH"(2) [OF lvl JObject]) (use run JObject "1.prems"(2) live in \<open>auto simp: list_all_iff\<close>)
    then obtain bs where bs: "stream s' = stream ?s1 @ bs" "live B0 s'"
      "unpacks_props bs (map (map_prod (image B0) (image B0)) kvs)" by (auto simp: appended_def)
    have "unpacks (type_code T_HASHMAP # le_bytes 4 (of_nat (length kvs) :: u32) @ bs)
        (UObject (map (map_prod (image B0) (image B0)) kvs))"
      using unpacks_object [OF bs(3)] "1.prems"(2) JObject by simp
    then show ?thesis using bs(1,2) JObject by (auto simp: appended_def)
  next
    case (JString cs)
    then show ?thesis using run "1.prems"(2,3) unpacks_string [of cs]
      by (auto simp: appended_def stream_AppendString live_def)
  next
    case (JError m)
    let ?cs = "case m of None \<Rightarrow> no_message | Some cs \<Rightarrow> cs"
    have l: "length ?cs \<le> String_kMaxLength"
      using "1.prems"(2) JError by (auto simp: length_no_message String_kMaxLength_def split: option.splits)
    then show ?thesis using run JError "1.prems"(3) unpacks_error [OF unpacks_string [OF l]]
      by (auto simp: appended_def stream_AppendString [OF l] live_def)
  next
    case (JArrayBuffer b)
    then have len: "snd (buffers s b) \<noteq> 0" using run by (auto simp: Let_def split: prod.splits if_splits)
    have p: "buffers s b = B0 b" "fst (B0 b) \<noteq> 0"
      using len "1.prems"(3) backed unfolding live_def backed_def by metis+
    obtain d n where B: "B0 b = (d, n)" by force
    have "s' = Neuter b (Append 8 n (Append 8 d (AppendType T_ARRAYBUFFER s)))"
      using run JArrayBuffer p(1) B len by simp
    then show ?thesis using JArrayBuffer "1.prems"(3) unpacks_buffer [of d n] p(2) B
      by (simp add: appended_def live_def)
  next
    case (JView k b off bytes)
    then have len: "snd (buffers s b) \<noteq> 0" "k \<noteq> VOther" using run by (auto simp: Let_def split: prod.splits if_splits)
    have p: "buffers s b = B0 b" "fst (B0 b) \<noteq> 0"
      using len "1.prems"(3) backed unfolding live_def backed_def by metis+
    obtain d n where B: "B0 b = (d, n)" by force
    have "s' = Neuter b (Append 8 bytes (Append 8 off (Append 8 n (Append 8 d (AppendType (T_TYPEDARRAY k) s)))))"
      using run JView p(1) B len by simp
    then show ?thesis using JView "1.prems"(2,3) unpacks_view [OF len(2), of d off bytes n] p(2) B
      by (simp add: appended_def live_def)
  next
    case (JNative n)
    then show ?thesis using run "1.prems"(2,3) unpacks_word(4)
      by (auto simp: appended_def live_def split: native_ref.splits option.splits)
  qed (use run "1.prems"(2,3) unpacks_simple unpacks_word(1-3) in \<open>auto simp: appended_def live_def\<close>)
next
  case (2 new level s)
  then show ?case by (auto simp: appended_def unpacks_list_Nil)
next
  case (3 new level v vs s)
  obtain s1 where s1: "SerializeValue new level v s = (NONE, s1)" "serialize_elements new level vs s1 = (NONE, s')"
    using "3.prems"(1) by (auto split: prod.splits if_splits)
  obtain b where b: "stream s1 = stream s @ b" "live B0 s1" "unpacks b (image B0 v)"
    using "3.IH"(1) [OF s1(1)] "3.prems"(2,3) by (auto simp: appended_def)
  obtain bs where bs: "stream s' = stream s1 @ bs" "live B0 s'" "unpacks_list bs (map (image B0) vs)"
    using "3.IH"(2) [OF s1(1) [symmetric] refl _ s1(2)] "3.prems"(2) b(2) by (auto simp: appended_def)
  show ?case using b bs unpacks_list_Cons [OF b(3) bs(3)] by (auto simp: appended_def)
next
  case (4 new level s)
  then show ?case by (auto simp: appended_def unpacks_list_Nil)
next
  case (5 new level kv kvs s)
  obtain s1 s2 where s1: "SerializeValue new level (fst kv) s = (NONE, s1)"
    and s2: "SerializeValue new level (snd kv) s1 = (NONE, s2)" and s3: "serialize_properties new level kvs s2 = (NONE, s')"
    using "5.prems"(1) by (auto split: prod.splits if_splits)
  obtain a where a: "stream s1 = stream s @ a" "live B0 s1" "unpacks a (image B0 (fst kv))"
    using "5.IH"(1) [OF s1] "5.prems"(2,3) by (auto simp: appended_def)
  obtain b where b: "stream s2 = stream s1 @ b" "live B0 s2" "unpacks b (image B0 (snd kv))"
    using "5.IH"(2) [OF s1 [symmetric] refl _ s2] "5.prems"(2) a(2) by (auto simp: appended_def)
  obtain bs where bs: "stream s' = stream s2 @ bs" "live B0 s'"
    "unpacks_props bs (map (map_prod (image B0) (image B0)) kvs)"
    using "5.IH"(3) [OF s1 [symmetric] refl _ s2 [symmetric] refl _ s3] "5.prems"(2) b(2) by (auto simp: appended_def)
  show ?case using a b bs unpacks_props_Cons [OF a(3) b(3) bs(3)] by (cases kv) (auto simp: appended_def)
qed

lemma unknown_type:
  assumes "ReadValue r 1 = Inr (t :: u8, r')" "24 \<le> unat t"
  shows "UnpackValue (Suc n) r = Inl (AssertFailed ''unknown data type'')"
proof -
  have "t \<noteq> 0" "t \<noteq> 1" "t \<noteq> 2" "t \<noteq> 3" "t \<noteq> 4" "t \<noteq> 5" "t \<noteq> 6" "t \<noteq> 7"
    "t \<noteq> 8" "t \<noteq> 9" "t \<noteq> 10" "t \<noteq> 11" "t \<noteq> 12" "t \<noteq> 13" "t \<noteq> 14" "t \<noteq> 15"
    "t \<noteq> 16" "t \<noteq> 17" "t \<noteq> 18" "t \<noteq> 19" "t \<noteq> 20" "t \<noteq> 21" "t \<noteq> 22" "t \<noteq> 23"
    using assms(2) by auto
  then show ?thesis unfolding UnpackValue.simps assms(1) by simp
qed

section \<open>Properties\<close>

text \<open>
  C10. Values survive the move between isolates: if \<open>MoveValue\<close> reports no error for a value without
  functions, \<open>Unpack\<close> of the stream returns that value (its detached buffers at the addresses and
  lengths they had). What is assumed of the value are V8's own invariants: \<open>plain\<close> (string and
  typed array sizes) and \<open>backed\<close> (no buffer with a length is without a backing store).
\<close>

theorem MoveValue_Unpack:
  assumes "MoveValue new v s = (NONE, s')" "plain v" "backed (buffers s)"
  shows "Unpack (stream s') = Inr (image (buffers s) v)"
proof -
  have run: "SerializeValue new 1 v (Clear s) = (NONE, s')"
    using assms(1) by (auto simp: MoveValue_def split: prod.splits if_splits)
  have "live (buffers s) (Clear s)" by (simp add: live_def Clear_def)
  then obtain bs where bs: "stream s' = bs" "unpacks bs (image (buffers s) v)"
    using SerializeValue_appends(1) [OF assms(3) run assms(2)] by (auto simp: appended_def Clear_def)
  have "UnpackValue (Suc (length bs)) \<lparr>rd_data = bs, rd_pos = 0\<rparr> =
      Inr (image (buffers s) v, adv \<lparr>rd_data = bs, rd_pos = 0\<rparr> (length bs))"
    using unpacksD(1) [OF bs(2), of "Suc (length bs)" _ "[]"] by (simp add: rd_at_def)
  moreover have "bs \<noteq> []"
  proof
    assume "bs = []"
    then have "UnpackValue 1 \<lparr>rd_data = [], rd_pos = 0\<rparr> = Inr (image (buffers s) v, \<lparr>rd_data = [], rd_pos = 0\<rparr>)"
      using unpacksD(1) [OF bs(2), of 1 "\<lparr>rd_data = [], rd_pos = 0\<rparr>" "[]"] by (simp add: rd_at_def)
    then show False by (simp add: UnpackValue.simps ReadValue_def ReadBuffer_def)
  qed
  ultimately show ?thesis using bs(1) by (simp add: Unpack_def)
qed

definition sample_transport :: transport where
  "sample_transport = \<lparr>stream = [9, 9], buffers = (\<lambda>b. if b = 0 then (0x10000, 64) else (0, 0)),
     exports = \<lparr>fe_data = [], fe_export_id = 0\<rparr>, thread_refs = 0\<rparr>"

definition sample_value :: jsval where
  "sample_value = JObject [(JString [0x61], JArray [JInt32 5, JView VUint16 0 2 10]), (JString [0x62], JNull)]"

theorem MoveValue_Unpack_witness:
  "\<exists>s'. MoveValue (\<lambda>_. 0) sample_value sample_transport = (NONE, s') \<and>
     Unpack (stream s') = Inr (UObject [(UString16 [0x61], UArray [UInt32 5, UView VUint16 0x10000 64 2 5]),
                                        (UString16 [0x62], UNull)])"
proof -
  obtain s' where r: "MoveValue (\<lambda>_. 0) sample_value sample_transport = (NONE, s')"
    by (simp add: MoveValue_def sample_value_def sample_transport_def SerializeValue.simps kMaxStackSize_def
        Clear_def AppendType_def Append_def AppendValue_def Let_def AppendString_def)
  show ?thesis
    using MoveValue_Unpack [OF r] r
    by (simp add: sample_value_def sample_transport_def backed_def view_fits_def String_kMaxLength_def)
qed


text \<open>
  The other side of it: a \<open>STRING_UTF8\<close> of length \<open>0xFFFFFFFF\<close> passes the reader's only check, because
  \<open>len + 1\<close> is 0, and V8 is told to find the length itself; with no zero byte after it, it reads past
  the end of the stream.
\<close>

lemma utf8_overread:
  assumes "0 \<notin> set rest"
  shows "Unpack (type_code T_STRING_UTF8 # le_bytes 4 (0xFFFFFFFF :: u32) @ rest) = Inl (OutOfBounds ''StringLength'')"
proof -
  let ?st = "type_code T_STRING_UTF8 # le_bytes 4 (0xFFFFFFFF :: u32) @ rest"
  define r where "r = \<lparr>rd_data = ?st, rd_pos = 0\<rparr>"
  have "rd_at r (?st @ [])" by (simp add: rd_at_def r_def)
  note t = type_byte [OF this]
  have l: "ReadValue (adv r (Suc 0)) 4 = Inr (0xFFFFFFFF :: u32, adv r 5)" "rd_at (adv r 5) ([] @ rest)"
    using read_word [OF t(2)] by simp_all
  have b: "ReadBuffer (adv r 5) (unat (0xFFFFFFFF + 1 :: u32)) = Inr ([], adv r 5)"
    using ReadBuffer_at [OF l(2), of 0] by simp
  have d: "drop (rd_pos (adv r 5)) (rd_data (adv r 5)) = rest" using l(2) by (simp add: rd_at_def)
  have "NEW_STRING rest (0xFFFFFFFF :: u32) = Inl (OutOfBounds ''StringLength'')"
    using assms by (simp add: NEW_STRING_def String_kMaxLength_def)
  then have "read_utf8 (adv r (Suc 0)) = Inl (OutOfBounds ''StringLength'')"
    unfolding read_utf8_def l(1) res_bind_simps prod.case b d by simp
  then have "UnpackValue (Suc n) r = Inl (OutOfBounds ''StringLength'')" for n
    unfolding UnpackValue.simps t(1) by simp
  from this [of "length ?st"] show ?thesis by (simp add: Unpack_def r_def)
qed


text \<open>
  Functions break the stream. Serializing a function appends a type byte and an eight-byte
  pointer, but the reader skips only the type byte and goes on with the pointer's bytes. Shown
  for the arguments \<open>[function, int32]\<close>: the receiving thread stops at \<open>unknown data type\<close> when the
  lowest byte of the pointer is not a type (24 or more).
\<close>

theorem function_desyncs_stream:
  assumes "24 \<le> unat (ucast (new (of_nat (length (fe_data (exports s))), fe_export_id (exports s) + 1)) :: u8)"
  shows "\<exists>s'. MoveArgs new [JFunction f, JInt32 i] s = (NONE, s') \<and>
    Unpack (stream s') = Inl (AssertFailed ''unknown data type'')"
proof -
  define p where "p = new (of_nat (length (fe_data (exports s))), fe_export_id (exports s) + 1)"
  let ?v2 = "ucast p # le_bytes 7 (drop_bit 8 p) @ type_code T_INT32 # le_bytes 4 i"
  let ?st = "type_code T_ARRAY # le_bytes 4 (2 :: u32) @ type_code T_FUNCTION # ?v2"
  have b8: "le_bytes 8 p = ucast p # le_bytes 7 (drop_bit 8 p)" by (simp add: eval_nat_numeral)
  obtain s' where s': "MoveArgs new [JFunction f, JInt32 i] s = (NONE, s')" "stream s' = ?st"
    by (auto simp: MoveArgs_def SerializeValue.simps kMaxStackSize_def AddExport_def fe_Add_def Clear_def
        AppendType_def Append_def AppendValue_def p_def b8 [unfolded p_def] Let_def)
  define r where "r = \<lparr>rd_data = ?st, rd_pos = 0\<rparr>"
  have "rd_at r (?st @ [])" by (simp add: rd_at_def r_def)
  note t = type_byte [OF this]
  have l: "ReadValue (adv r (Suc 0)) 4 = Inr (2 :: u32, adv r 5)" "rd_at (adv r 5) ((type_code T_FUNCTION # ?v2) @ [])"
    using read_word [OF t(2)] by simp_all
  note f = type_byte [OF l(2)]
  have g: "ReadValue (adv r 6) 1 = Inr (ucast p :: u8, adv r 7)"
    using type_byte(1) [OF f(2)] by simp
  have 1: "UnpackValue (Suc n) (adv r 5) = Inr (UUndefined, adv r 6)" for n
    unfolding UnpackValue.simps f(1) by simp
  have 2: "UnpackValue (Suc n) (adv r 6) = Inl (AssertFailed ''unknown data type'')" for n
    using unknown_type [OF g] assms by (simp add: p_def)
  have len: "unat (2 :: u32) = Suc (Suc 0)" by simp
  have 3: "unpack_elements (Suc n) (unat (2 :: u32)) (adv r 5) = Inl (AssertFailed ''unknown data type'')" for n
    unfolding len by (simp add: 1 2)
  have "UnpackValue (Suc (Suc n)) r = Inl (AssertFailed ''unknown data type'')" for n
    unfolding UnpackValue.simps(2) [of "Suc n"] t(1) res_bind_simps prod.case l(1) 3 by simp
  from this [of 18] show ?thesis using s' by (simp add: Unpack_def r_def)
qed

theorem function_desyncs_stream_witness:
  "\<exists>s'. MoveArgs (\<lambda>_. 0x8000000040) [JFunction 0, JInt32 5] sample_transport = (NONE, s') \<and>
     Unpack (stream s') = Inl (AssertFailed ''unknown data type'')"
  by (rule function_desyncs_stream) (simp add: sample_transport_def)

text \<open>
  A failed move still detaches: when the first element of an array is an array buffer with contents and a
  later element cannot be transferred, whatever the error, the receiver gets \<open>undefined\<close>, but the
  buffer is already neutered and its address is gone from the stream.
\<close>

lemma neutered_stays:
  "SerializeValue new level v s = (err, s') \<Longrightarrow> buffers s b = (0, 0) \<Longrightarrow> buffers s' b = (0, 0)"
  "serialize_elements new level vs s = (err, s') \<Longrightarrow> buffers s b = (0, 0) \<Longrightarrow> buffers s' b = (0, 0)"
  "serialize_properties new level kvs s = (err, s') \<Longrightarrow> buffers s b = (0, 0) \<Longrightarrow> buffers s' b = (0, 0)"
proof (induction new level v s and new level vs s and new level kvs s arbitrary: err s' and err s' and err s'
    rule: SerializeValue_serialize_elements_serialize_properties.induct)
  case (1 new level v s)
  have str: "buffers (AppendString cs s) = buffers s" for cs s by (simp add: AppendString_def Let_def)
  have exp: "AddExport new fn s = (efn, s1) \<Longrightarrow> buffers s1 = buffers s" for fn efn s1
    by (auto simp: AddExport_def split: prod.splits)
  show ?case
    using 1 by (cases v)
      (auto simp: SerializeValue.simps [of new level] Let_def str dest: exp
        split: if_splits prod.splits native_ref.splits option.splits)
next
  case (3 new level v vs s)
  then show ?case by (auto split: prod.splits if_splits)
next
  case (5 new level kv kvs s)
  then show ?case by (auto split: prod.splits if_splits)
qed simp_all

lemma failed_move_loses_buffer:
  assumes "MoveValue new (JArray (JArrayBuffer b # vs)) s = (err, s')" "err \<noteq> NONE" "snd (buffers s b) \<noteq> 0"
  shows "stream s' = [type_code T_UNDEFINED] \<and> buffers s' b = (0, 0)"
proof -
  let ?s1 = "Append 4 (of_nat (length (JArrayBuffer b # vs)) :: u32) (AppendType T_ARRAY (Clear s))"
  have "SerializeValue new 1 (JArray (JArrayBuffer b # vs)) (Clear s) = serialize_elements new 2 (JArrayBuffer b # vs) ?s1"
    unfolding SerializeValue.simps [of _ 1] by (simp add: kMaxStackSize_def numeral_2_eq_2 del: serialize_elements.simps)
  then obtain s2 where run: "serialize_elements new 2 (JArrayBuffer b # vs) ?s1 = (err, s2)" and s': "s' = SetUndefined s2"
    using assms(1,2) unfolding MoveValue_def by (auto split: prod.splits simp del: serialize_elements.simps)
  obtain s3 where "SerializeValue new 2 (JArrayBuffer b) ?s1 = (NONE, s3)" "buffers s3 b = (0, 0)"
    using assms(3) by (cases "buffers s b") (simp add: SerializeValue.simps [of _ 2] kMaxStackSize_def Clear_def Let_def)
  then have "buffers s2 b = (0, 0)"
    using run neutered_stays(2) [of new 2 vs s3 err s2 b] by (auto split: prod.splits)
  then show ?thesis by (simp add: s' SetUndefined_def Clear_def)
qed

text \<open>
  Exported functions keep their identity: after \<open>Add\<close>, \<open>Get\<close> with the returned index and id finds
  that function, every earlier export is still found, and any other id gives nothing.
\<close>

theorem exports_get_add:
  assumes "fe_Add fe fn = ((i, e), fe')" "length (fe_data fe) < 2 ^ 32"
  shows "fe_Get fe' i e = Inr (Some fn) \<and> (\<forall>e'. e' \<noteq> e \<longrightarrow> fe_Get fe' i e' = Inr None) \<and>
    (\<forall>j e'. unat j < length (fe_data fe) \<longrightarrow> fe_Get fe' j e' = fe_Get fe j e')"
proof -
  have "unat (of_nat (length (fe_data fe)) :: u32) = length (fe_data fe)"
    by (rule unat_of_nat_small) (use assms(2) in simp)
  then show ?thesis
    using assms(1) by (auto simp: fe_Add_def fe_Get_def Let_def nth_append split: prod.splits)
qed

theorem exports_get_add_witness:
  "fe_Get (snd (fe_Add \<lparr>fe_data = [(7, 1)], fe_export_id = 1\<rparr> 9)) 1 2 = Inr (Some 9)"
  using exports_get_add [of "\<lparr>fe_data = [(7, 1)], fe_export_id = 1\<rparr>" 9] by (simp add: fe_Add_def)

end
