(* ===== verification/EngineModel.thy ===== *)
theory EngineModel
  imports Pools Transport "HOL-Library.Sublist"
begin

text \<open>
  Thread messages and their queues, \<^verbatim>\<open>src/src/kernel/engine.h\<close> and \<^verbatim>\<open>engine.cc\<close>: \<open>ThreadMessage\<close>,
  \<open>EngineThread\<close> with its message vector, and \<open>Engine::Threads\<close>. An \<open>EngineThread*\<close> or a
  \<open>Thread*\<close> is the index of the object. The vector's capacity is kept, since
  \<open>PushMessageIRQ\<close> drops a message rather than allocate; it grows as the vector of
  \<^verbatim>\<open>src/deps/libcxx\<close> does. Spin locks and interrupt masking make each operation atomic, so an
  interleaving of threads and interrupts is a list of operations.

  The lemmas show that messages are neither lost, duplicated nor reordered, and when an interrupt
  message can be dropped.
\<close>

section \<open>Messages\<close>

datatype MessageType = EMPTY | EVALUATE | TIMEOUT_EVENT | IRQ_RAISE | SET_IMMEDIATE | FUNCTION_CALL
  | FUNCTION_RETURN_RESOLVE | FUNCTION_RETURN_REJECT

text \<open>\<open>msg_ptr\<close> is the exported function a call refers to: its index and export id.\<close>

record ThreadMessage =
  msg_type :: MessageType
  msg_sender :: "nat option"
  msg_data :: byte_stream
  msg_ptr :: "(u32 \<times> u64) option"
  recv_index :: u64
  recv_index2 :: u64
  recv_index3 :: u64
  reusable :: bool

definition mk_ThreadMessage :: "MessageType \<Rightarrow> nat option \<Rightarrow> byte_stream \<Rightarrow> (u32 \<times> u64) option \<Rightarrow> u64 \<Rightarrow> ThreadMessage" where
  "mk_ThreadMessage type sender data ptr index =
     \<lparr>msg_type = type, msg_sender = sender, msg_data = data, msg_ptr = ptr, recv_index = index,
      recv_index2 = 0, recv_index3 = 0, reusable = False\<rparr>"

definition MakeReusable :: "ThreadMessage \<Rightarrow> ThreadMessage" where
  "MakeReusable m = m\<lparr>reusable := True\<rparr>"

definition message_sender :: "ThreadMessage \<Rightarrow> nat res" where
  "message_sender m = (case msg_sender m of None \<Rightarrow> Inl (AssertFailed ''!sender_.empty()'') | Some t \<Rightarrow> Inr t)"

text \<open>The destructor of a message.\<close>

definition delete_message :: "ThreadMessage \<Rightarrow> unit res" where
  "delete_message m = rt_assert (\<not> reusable m) ''!reusable_''"

section \<open>\<open>EngineThread\<close>\<close>

datatype ThreadType = DEFAULT | IDLE | TERMINATED

datatype Status = SEmpty | SNotStarted | SRunning | SPaused

record EngineThread =
  et_status :: Status
  et_thread :: "nat option"
  messages :: "ThreadMessage option list"
  msg_capacity :: nat
  et_type :: ThreadType

definition mk_EngineThread :: "ThreadType \<Rightarrow> EngineThread" where
  "mk_EngineThread type = \<lparr>et_status = SEmpty, et_thread = None, messages = [], msg_capacity = 0, et_type = type\<rparr>"

text \<open>\<open>vector::push_back\<close>: a full vector at least doubles.\<close>

definition vec_push :: "ThreadMessage option \<Rightarrow> EngineThread \<Rightarrow> EngineThread" where
  "vec_push m e = e\<lparr>messages := messages e @ [m],
     msg_capacity := (if length (messages e) < msg_capacity e then msg_capacity e
       else max (2 * msg_capacity e) (length (messages e) + 1))\<rparr>"

definition TakeMessages :: "EngineThread \<Rightarrow> ThreadMessage option list \<times> EngineThread" where
  "TakeMessages e = (if messages e = [] then ([], e)
     else (messages e, e\<lparr>messages := [], msg_capacity := 128\<rparr>))"

fun find_result :: "u32 \<Rightarrow> ThreadMessage option list \<Rightarrow> nat \<Rightarrow> (nat \<times> ThreadMessage) option" where
  "find_result promise_id [] i = None"
| "find_result promise_id (None # ms) i = find_result promise_id ms (Suc i)"
| "find_result promise_id (Some m # ms) i =
     (if (msg_type m = FUNCTION_RETURN_RESOLVE \<or> msg_type m = FUNCTION_RETURN_REJECT) \<and>
         recv_index m = ucast promise_id
      then Some (i, m) else find_result promise_id ms (Suc i))"

definition TakePromiseResultMessage :: "u32 \<Rightarrow> EngineThread \<Rightarrow> (ThreadMessage option \<times> EngineThread) res" where
  "TakePromiseResultMessage promise_id e = (case find_result promise_id (messages e) 0 of
     None \<Rightarrow> Inr (None, e)
   | Some (i, m) \<Rightarrow> res_bind (rt_assert (\<not> reusable m) ''!message->reusable()'') (\<lambda>_.
       Inr (Some m, e\<lparr>messages := (messages e)[i := None]\<rparr>)))"

definition PushMessage :: "ThreadMessage \<Rightarrow> EngineThread \<Rightarrow> EngineThread" where
  "PushMessage m e = vec_push (Some m) e"

definition PushMessageIRQ :: "ThreadMessage \<Rightarrow> EngineThread \<Rightarrow> EngineThread" where
  "PushMessageIRQ m e = (if length (messages e) < msg_capacity e then vec_push (Some m) e else e)"

definition engine_thread :: "EngineThread \<Rightarrow> nat res" where
  "engine_thread e = (case et_thread e of None \<Rightarrow> Inl (AssertFailed ''thread_'') | Some t \<Rightarrow> Inr t)"

section \<open>\<open>Engine::Threads\<close>\<close>

datatype EngineType = DISABLED | EXECUTION | SERVICE

record Engine =
  eng_type :: EngineType
  eng_init :: bool
  eng_local_storage :: LocalStorage
  eng_threads :: "nat list"
  new_threads :: "nat list"

definition mk_Engine :: "EngineType \<Rightarrow> Engine" where
  "mk_Engine type = \<lparr>eng_type = type, eng_init = False, eng_local_storage = mk_LocalStorage, eng_threads = [], new_threads = []\<rparr>"

text \<open>The new \<open>EngineThread\<close> object is the next one of the object store \<open>es\<close>.\<close>

definition threads_Create :: "ThreadType \<Rightarrow> Engine \<Rightarrow> EngineThread list \<Rightarrow> nat \<times> Engine \<times> EngineThread list" where
  "threads_Create type g es = (let t = length es in
     (t, g\<lparr>eng_threads := eng_threads g @ [t], new_threads := new_threads g @ [t]\<rparr>, es @ [mk_EngineThread type]))"

definition TakeNewThreads :: "Engine \<Rightarrow> nat list \<times> Engine" where
  "TakeNewThreads g = (if eng_threads g = [] then ([], g) else (new_threads g, g\<lparr>new_threads := []\<rparr>))"

section \<open>The message queue as a channel\<close>

text \<open>An interleaving of the operations of senders, interrupt handlers and the owner.\<close>

datatype mq_op = MPush ThreadMessage | MPushIRQ ThreadMessage | MTake

text \<open>The batches taken, the messages accepted, and the final queue.\<close>

fun mq_run :: "mq_op list \<Rightarrow> EngineThread \<Rightarrow> ThreadMessage option list list \<times> ThreadMessage list \<times> EngineThread" where
  "mq_run [] e = ([], [], e)"
| "mq_run (MPush m # ops) e = (case mq_run ops (PushMessage m e) of (bs, acc, e') \<Rightarrow> (bs, m # acc, e'))"
| "mq_run (MPushIRQ m # ops) e = (case mq_run ops (PushMessageIRQ m e) of (bs, acc, e') \<Rightarrow>
     (bs, if length (messages e) < msg_capacity e then m # acc else acc, e'))"
| "mq_run (MTake # ops) e = (case TakeMessages e of (b, e1) \<Rightarrow> case mq_run ops e1 of (bs, acc, e') \<Rightarrow> (b # bs, acc, e'))"

fun sent :: "mq_op list \<Rightarrow> ThreadMessage list" where
  "sent [] = []"
| "sent (MPush m # ops) = m # sent ops"
| "sent (MPushIRQ m # ops) = m # sent ops"
| "sent (MTake # ops) = sent ops"

fun sent_thread :: "mq_op list \<Rightarrow> ThreadMessage list" where
  "sent_thread [] = []"
| "sent_thread (MPush m # ops) = m # sent_thread ops"
| "sent_thread (MPushIRQ m # ops) = sent_thread ops"
| "sent_thread (MTake # ops) = sent_thread ops"

text \<open>With \<open>n\<close> messages waiting, no more than 128 ever wait.\<close>

fun within_burst :: "nat \<Rightarrow> mq_op list \<Rightarrow> bool" where
  "within_burst n [] \<longleftrightarrow> True"
| "within_burst n (MPush m # ops) \<longleftrightarrow> n < 128 \<and> within_burst (Suc n) ops"
| "within_burst n (MPushIRQ m # ops) \<longleftrightarrow> n < 128 \<and> within_burst (Suc n) ops"
| "within_burst n (MTake # ops) \<longleftrightarrow> within_burst 0 ops"

lemma mq_run_fifo:
  "mq_run ops e = (bs, acc, e') \<Longrightarrow> concat bs @ messages e' = messages e @ map Some acc"
proof (induction ops e arbitrary: bs acc rule: mq_run.induct)
  case (3 m ops e)
  then show ?case by (auto simp: PushMessageIRQ_def vec_push_def split: prod.splits if_splits)
qed (auto simp: PushMessage_def vec_push_def TakeMessages_def split: prod.splits if_splits)

lemma mq_run_accepted:
  "mq_run ops e = (bs, acc, e') \<Longrightarrow> subseq (sent_thread ops) acc \<and> subseq acc (sent ops)"
  by (induction ops e arbitrary: bs acc rule: mq_run.induct) (auto split: prod.splits if_splits)

lemma mq_run_no_drop:
  "mq_run ops e = (bs, acc, e') \<Longrightarrow> within_burst (length (messages e)) ops \<Longrightarrow> 128 \<le> msg_capacity e \<Longrightarrow> acc = sent ops"
proof (induction ops e arbitrary: bs acc rule: mq_run.induct)
  case (4 ops e)
  then show ?case by (cases "messages e = []") (auto simp: TakeMessages_def split: prod.splits)
qed (auto simp: PushMessage_def PushMessageIRQ_def vec_push_def split: prod.splits if_splits)

text \<open>
  C33. The message queue of a thread is a reliable FIFO channel. Whatever the interleaving of
  senders, interrupt handlers and the owner, the batches taken followed by what is still queued
  are what was queued at first followed by the accepted messages, in order; every message
  of \<open>PushMessage\<close> is accepted, only interrupt messages can be dropped, and none is dropped as long as the queue
  has its capacity of 128 and never holds more than 128 messages.
\<close>

theorem message_channel:
  assumes "mq_run ops e = (bs, acc, e')"
  shows "concat bs @ messages e' = messages e @ map Some acc \<and>
    subseq (sent_thread ops) acc \<and> subseq acc (sent ops) \<and>
    (within_burst (length (messages e)) ops \<and> 128 \<le> msg_capacity e \<longrightarrow> acc = sent ops)"
  using mq_run_fifo [OF assms] mq_run_accepted [OF assms] mq_run_no_drop [OF assms] by blast

definition sample_message :: "MessageType \<Rightarrow> u64 \<Rightarrow> ThreadMessage" where
  "sample_message type i = mk_ThreadMessage type None [] None i"

definition sample_ops :: "mq_op list" where
  "sample_ops = [MPush (sample_message EVALUATE 0), MTake, MPushIRQ (sample_message IRQ_RAISE 1), MPush (sample_message TIMEOUT_EVENT 2), MTake]"

theorem message_channel_witness:
  "\<exists>bs acc e'. mq_run sample_ops ((mk_EngineThread DEFAULT)\<lparr>msg_capacity := 128\<rparr>) = (bs, acc, e') \<and>
     concat bs @ messages e' = map Some acc \<and> length acc = 3"
proof -
  obtain bs acc e' where r: "mq_run sample_ops ((mk_EngineThread DEFAULT)\<lparr>msg_capacity := 128\<rparr>) = (bs, acc, e')"
    by (metis prod_cases3)
  have "within_burst 0 sample_ops" by (simp add: sample_ops_def)
  then show ?thesis using r message_channel [OF r] by (auto simp: mk_EngineThread_def sample_ops_def)
qed

end
