(* ===== verification/AddressSpace.thy ===== *)
theory AddressSpace
  imports PhysMem
begin

text \<open>
  Page tables: \<^verbatim>\<open>src/src/kernel/x64/address-space-x64.h\<close> and \<^verbatim>\<open>.cc\<close>, with
  \<open>PageTableAllocator\<close> of \<^verbatim>\<open>mem-manager.h\<close>. The tables live in physical memory, so the
  model keeps the memory of the table zone as a function from the byte address of an
  eight-byte entry to its value; a \<open>PageTable*\<close> is the address of the table. The
  specification is a partial map from (PML4, PDP, PD) index triples to physical page
  addresses; \<open>MapPage\<close> and \<open>VirtualToPhysical\<close> are shown to refine update and lookup on it.
\<close>

section \<open>Entries\<close>

definition flag :: "u64 \<Rightarrow> nat \<Rightarrow> bool" where
  "flag entry n \<longleftrightarrow> entry AND push_bit n 1 \<noteq> 0"

definition shl_bool :: "bool \<Rightarrow> nat \<Rightarrow> u64" where
  "shl_bool b n = push_bit n (of_bool b)"

record CR3Entry =
  cr3_IsWriteThrough :: bool
  cr3_IsNotCachable :: bool
  cr3_PageDirectory :: u64

definition CR3Entry_default :: CR3Entry where
  "CR3Entry_default = \<lparr>cr3_IsWriteThrough = False, cr3_IsNotCachable = False, cr3_PageDirectory = 0\<rparr>"

definition CR3Entry_decode :: "u64 \<Rightarrow> CR3Entry" where
  "CR3Entry_decode entry = \<lparr>cr3_IsWriteThrough = flag entry 3, cr3_IsNotCachable = flag entry 4,
     cr3_PageDirectory = entry AND 0xFFFFFFFFFF000\<rparr>"

definition CR3Entry_Encode :: "CR3Entry \<Rightarrow> u64 res" where
  "CR3Entry_Encode e = res_bind (rt_assert (cr3_PageDirectory e AND 0xFFF = 0) ''PageDirectory'') (\<lambda>_.
     Inr (shl_bool (cr3_IsWriteThrough e) 3 OR shl_bool (cr3_IsNotCachable e) 4 OR cr3_PageDirectory e))"

record PML4PDPEntry =
  IsPresent :: bool
  IsWriteable :: bool
  IsUserEnabled :: bool
  IsWriteThrough :: bool
  IsNotCachable :: bool
  IsAccessed :: bool
  IsNoExecute :: bool
  PageDirectory :: u64

definition PML4PDPEntry_default :: PML4PDPEntry where
  "PML4PDPEntry_default = \<lparr>IsPresent = False, IsWriteable = False, IsUserEnabled = False,
     IsWriteThrough = False, IsNotCachable = False, IsAccessed = False, IsNoExecute = False,
     PageDirectory = 0\<rparr>"

definition PML4PDPEntry_decode :: "u64 \<Rightarrow> PML4PDPEntry" where
  "PML4PDPEntry_decode entry = \<lparr>IsPresent = flag entry 0, IsWriteable = flag entry 1,
     IsUserEnabled = flag entry 2, IsWriteThrough = flag entry 3, IsNotCachable = flag entry 4,
     IsAccessed = flag entry 5, IsNoExecute = flag entry 63,
     PageDirectory = entry AND 0xFFFFFFFFFF000\<rparr>"

definition PML4PDPEntry_Encode :: "PML4PDPEntry \<Rightarrow> u64 res" where
  "PML4PDPEntry_Encode e = res_bind (rt_assert (PageDirectory e AND 0xFFF = 0) ''PageDirectory'') (\<lambda>_.
     Inr (shl_bool (IsPresent e) 0 OR shl_bool (IsWriteable e) 1 OR shl_bool (IsUserEnabled e) 2 OR
          shl_bool (IsWriteThrough e) 3 OR shl_bool (IsNotCachable e) 4 OR shl_bool (IsAccessed e) 5 OR
          shl_bool (IsNoExecute e) 63 OR PageDirectory e))"

record PDEntry =
  pd_IsPresent :: bool
  pd_IsWriteable :: bool
  pd_IsUserEnabled :: bool
  pd_IsWriteThrough :: bool
  pd_IsNotCachable :: bool
  pd_IsAccessed :: bool
  pd_IsDirty :: bool
  pd_IsPageSize :: bool
  pd_IsGlobal :: bool
  pd_IsNoExecute :: bool
  PageAddress :: u64

definition PDEntry_default :: PDEntry where
  "PDEntry_default = \<lparr>pd_IsPresent = False, pd_IsWriteable = False, pd_IsUserEnabled = False,
     pd_IsWriteThrough = False, pd_IsNotCachable = False, pd_IsAccessed = False, pd_IsDirty = False,
     pd_IsPageSize = False, pd_IsGlobal = False, pd_IsNoExecute = False, PageAddress = 0\<rparr>"

definition PDEntry_decode :: "u64 \<Rightarrow> PDEntry" where
  "PDEntry_decode entry = \<lparr>pd_IsPresent = flag entry 0, pd_IsWriteable = flag entry 1,
     pd_IsUserEnabled = flag entry 2, pd_IsWriteThrough = flag entry 3, pd_IsNotCachable = flag entry 4,
     pd_IsAccessed = flag entry 5, pd_IsDirty = flag entry 6, pd_IsPageSize = flag entry 7,
     pd_IsGlobal = flag entry 8, pd_IsNoExecute = flag entry 63,
     PageAddress = entry AND 0xFFFFFFFE00000\<rparr>"

definition PDEntry_Encode :: "PDEntry \<Rightarrow> u64 res" where
  "PDEntry_Encode e = res_bind (rt_assert (PageAddress e AND 0x1FFFFF = 0) ''PageAddress'') (\<lambda>_.
     Inr (shl_bool (pd_IsPresent e) 0 OR shl_bool (pd_IsWriteable e) 1 OR shl_bool (pd_IsUserEnabled e) 2 OR
          shl_bool (pd_IsWriteThrough e) 3 OR shl_bool (pd_IsNotCachable e) 4 OR shl_bool (pd_IsAccessed e) 5 OR
          shl_bool (pd_IsDirty e) 6 OR shl_bool (pd_IsPageSize e) 7 OR shl_bool (pd_IsGlobal e) 8 OR
          shl_bool (pd_IsNoExecute e) 63 OR PageAddress e))"

section \<open>Tables and their allocator\<close>

type_synonym table_mem = "u64 \<Rightarrow> u64"

definition SetEntry :: "table_mem \<Rightarrow> u64 \<Rightarrow> u32 \<Rightarrow> u64 res \<Rightarrow> table_mem res" where
  "SetEntry tm table index encoded =
     res_bind (rt_assert (index < 512) ''index < 512'') (\<lambda>_.
     res_bind encoded (\<lambda>w. Inr (tm(table + 8 * ucast index := w))))"

definition GetEntry :: "(u64 \<Rightarrow> 'e) \<Rightarrow> table_mem \<Rightarrow> u64 \<Rightarrow> u32 \<Rightarrow> 'e res" where
  "GetEntry decode tm table index =
     res_bind (rt_assert (index < 512) ''index < 512'') (\<lambda>_. Inr (decode (tm (table + 8 * ucast index))))"

record PageTableAllocator =
  pt_zone :: MemoryZone
  tables_taken :: u32

definition zero_table :: "table_mem \<Rightarrow> u64 \<Rightarrow> table_mem" where
  "zero_table tm a = (\<lambda>x. if x - a < 4 * KiB then 0 else tm x)"

definition AllocTable :: "PageTableAllocator \<Rightarrow> table_mem \<Rightarrow> (u64 \<times> PageTableAllocator \<times> table_mem) res" where
  "AllocTable ta tm =
     (let addr = mz_ptr (pt_zone ta) + ucast (tables_taken ta * 4) * KiB in
      res_bind (rt_assert (addr - mz_ptr (pt_zone ta) < mz_size (pt_zone ta)) ''page_directory_zone_'') (\<lambda>_.
        Inr (addr, ta\<lparr>tables_taken := tables_taken ta + 1\<rparr>, zero_table tm addr)))"

section \<open>Virtual addresses\<close>

definition page_offset :: "u64 \<Rightarrow> u32" where
  "page_offset v = ucast (v AND 0x1FFFFF)"

definition pd_offset :: "u64 \<Rightarrow> u32 res" where
  "pd_offset v = (let offset = ucast (drop_bit 21 v AND 0x1FF) in
     res_bind (rt_assert (offset < 512) ''offset < 512'') (\<lambda>_. Inr offset))"

definition pdp_offset :: "u64 \<Rightarrow> u32 res" where
  "pdp_offset v = (let offset = ucast (drop_bit 30 v AND 0x1FF) in
     res_bind (rt_assert (offset < 512) ''offset < 512'') (\<lambda>_. Inr offset))"

definition pml4_offset :: "u64 \<Rightarrow> u32 res" where
  "pml4_offset v = (let offset = ucast (drop_bit 39 v AND 0x1FF) in
     res_bind (rt_assert (offset < 512) ''offset < 512'') (\<lambda>_. Inr offset))"

section \<open>\<open>AddressSpaceX64\<close>\<close>

text \<open>
  \<open>invalidated\<close> lists the addresses given to \<open>invlpg\<close>, \<open>cpu_cr3\<close> is the control register.
\<close>

record AddressSpaceX64 =
  table_allocator :: PageTableAllocator
  cr3 :: CR3Entry
  pml4_table :: u64
  tmem :: table_mem
  invalidated :: "u64 list"
  cpu_cr3 :: u64

definition mk_AddressSpaceX64 :: "PageTableAllocator \<Rightarrow> table_mem \<Rightarrow> AddressSpaceX64 res" where
  "mk_AddressSpaceX64 ta tm =
     res_bind (AllocTable ta tm) (\<lambda>(addr, ta', tm').
     res_bind (rt_assert (addr \<noteq> 0) ''pml4_table_'') (\<lambda>_.
       Inr \<lparr>table_allocator = ta', cr3 = CR3Entry_default, pml4_table = addr, tmem = tm',
            invalidated = [], cpu_cr3 = 0\<rparr>))"

definition VirtualToPhysical :: "AddressSpaceX64 \<Rightarrow> u64 \<Rightarrow> u64 res" where
  "VirtualToPhysical s vaddr =
     (let pml4_tbl = cr3_PageDirectory (cr3 s) in
      res_bind (rt_assert (pml4_tbl \<noteq> 0) ''cr3_.PageDirectory'') (\<lambda>_.
      res_bind (pml4_offset vaddr) (\<lambda>i4.
      res_bind (GetEntry PML4PDPEntry_decode (tmem s) pml4_tbl i4) (\<lambda>pml4.
      if \<not> IsPresent pml4 then Inr 0
      else res_bind (rt_assert (PageDirectory pml4 \<noteq> 0) ''pml4.PageDirectory'') (\<lambda>_.
      res_bind (pdp_offset vaddr) (\<lambda>i3.
      res_bind (GetEntry PML4PDPEntry_decode (tmem s) (PageDirectory pml4) i3) (\<lambda>pdp.
      if \<not> IsPresent pdp then Inr 0
      else res_bind (rt_assert (PageDirectory pdp \<noteq> 0) ''pdp.PageDirectory'') (\<lambda>_.
      res_bind (pd_offset vaddr) (\<lambda>i2.
      res_bind (GetEntry PDEntry_decode (tmem s) (PageDirectory pdp) i2) (\<lambda>pd.
      if \<not> pd_IsPresent pd then Inr 0
      else Inr (PageAddress pd + ucast (page_offset vaddr))))))))))))"

text \<open>
  \<open>MapPage\<close> in three parts, as the code has them: the walk that fills \<open>create_*\<close> and the
  table pointers (null as 0), or returns early; the entries created; the invalidation.
\<close>

datatype map_walk = Done | Walk (create_pde: bool) (create_pdpe: bool) (create_pml4e: bool)
    (pdp_table: u64) (pd_table: u64)

definition MapPage_walk :: "AddressSpaceX64 \<Rightarrow> u64 \<Rightarrow> u64 \<Rightarrow> map_walk res" where
  "MapPage_walk s vaddr physaddr =
     (let pml4_tbl = cr3_PageDirectory (cr3 s) in
      res_bind (rt_assert (pml4_tbl \<noteq> 0) ''cr3_.PageDirectory'') (\<lambda>_.
      res_bind (pml4_offset vaddr) (\<lambda>i4.
      res_bind (GetEntry PML4PDPEntry_decode (tmem s) pml4_tbl i4) (\<lambda>pml4.
      if \<not> IsPresent pml4 then Inr (Walk True True True 0 0)
      else res_bind (rt_assert (PageDirectory pml4 \<noteq> 0) ''pml4.PageDirectory'') (\<lambda>_.
      res_bind (pdp_offset vaddr) (\<lambda>i3.
      res_bind (GetEntry PML4PDPEntry_decode (tmem s) (PageDirectory pml4) i3) (\<lambda>pdp.
      if \<not> IsPresent pdp then Inr (Walk True True False (PageDirectory pml4) 0)
      else res_bind (rt_assert (PageDirectory pdp \<noteq> 0) ''pdp.PageDirectory'') (\<lambda>_.
      res_bind (pd_offset vaddr) (\<lambda>i2.
      res_bind (GetEntry PDEntry_decode (tmem s) (PageDirectory pdp) i2) (\<lambda>pd.
      if \<not> pd_IsPresent pd then Inr (Walk True False False (PageDirectory pml4) (PageDirectory pdp))
      else if physaddr = PageAddress pd then Inr Done
      else Inr (Walk False False False (PageDirectory pml4) (PageDirectory pdp))))))))))))"

definition ensure_table :: "u64 \<Rightarrow> string \<Rightarrow> AddressSpaceX64 \<Rightarrow> (u64 \<times> AddressSpaceX64) res" where
  "ensure_table tbl what s =
     (if tbl = 0
      then res_bind (AllocTable (table_allocator s) (tmem s)) (\<lambda>(a, ta, tm).
           res_bind (rt_assert (a \<noteq> 0) what) (\<lambda>_. Inr (a, s\<lparr>table_allocator := ta, tmem := tm\<rparr>)))
      else Inr (tbl, s))"

definition put_entry :: "AddressSpaceX64 \<Rightarrow> u64 \<Rightarrow> u32 res \<Rightarrow> u64 res \<Rightarrow> AddressSpaceX64 res" where
  "put_entry s tbl idx encoded =
     res_bind idx (\<lambda>i. res_bind (SetEntry (tmem s) tbl i encoded) (\<lambda>tm. Inr (s\<lparr>tmem := tm\<rparr>)))"

definition create_pd_entry ::
    "AddressSpaceX64 \<Rightarrow> u64 \<Rightarrow> u64 \<Rightarrow> bool \<Rightarrow> u64 \<Rightarrow> (u64 \<times> AddressSpaceX64) res" where
  "create_pd_entry s vaddr physaddr writethrough pd_tbl =
     res_bind (ensure_table pd_tbl ''pd_table'' s) (\<lambda>(t, s1).
     res_bind (put_entry s1 t (pd_offset vaddr)
       (PDEntry_Encode (PDEntry_default\<lparr>pd_IsPresent := True, pd_IsWriteable := True,
          pd_IsWriteThrough := writethrough, pd_IsPageSize := True, pd_IsGlobal := False,
          PageAddress := physaddr\<rparr>))) (\<lambda>s2. Inr (t, s2)))"

definition table_entry :: "u64 \<Rightarrow> PML4PDPEntry" where
  "table_entry t = PML4PDPEntry_default\<lparr>IsPresent := True, IsWriteable := True, IsWriteThrough := False,
     PageDirectory := t\<rparr>"

definition create_pdp_entry :: "AddressSpaceX64 \<Rightarrow> u64 \<Rightarrow> u64 \<Rightarrow> u64 \<Rightarrow> (u64 \<times> AddressSpaceX64) res" where
  "create_pdp_entry s vaddr pd_tbl pdp_tbl =
     res_bind (rt_assert (pd_tbl \<noteq> 0) ''pd_table'') (\<lambda>_.
     res_bind (ensure_table pdp_tbl ''pdp_table'' s) (\<lambda>(t, s1).
     res_bind (put_entry s1 t (pdp_offset vaddr) (PML4PDPEntry_Encode (table_entry pd_tbl)))
       (\<lambda>s2. Inr (t, s2))))"

definition create_pml4_entry :: "AddressSpaceX64 \<Rightarrow> u64 \<Rightarrow> u64 \<Rightarrow> AddressSpaceX64 res" where
  "create_pml4_entry s vaddr pdp_tbl =
     res_bind (rt_assert (pdp_tbl \<noteq> 0) ''pdp_table'') (\<lambda>_.
       put_entry s (cr3_PageDirectory (cr3 s)) (pml4_offset vaddr) (PML4PDPEntry_Encode (table_entry pdp_tbl)))"

definition MapPage :: "AddressSpaceX64 \<Rightarrow> u64 \<Rightarrow> u64 \<Rightarrow> bool \<Rightarrow> bool \<Rightarrow> AddressSpaceX64 res" where
  "MapPage s vaddr physaddr0 invalidate writethrough =
     (let physaddr = PageAligned physaddr0 in
      res_bind (MapPage_walk s vaddr physaddr) (\<lambda>w. case w of Done \<Rightarrow> Inr s
      | Walk c_pde c_pdpe c_pml4e pdp_tbl pd_tbl \<Rightarrow>
          res_bind (if c_pde then create_pd_entry s vaddr physaddr writethrough pd_tbl else Inr (pd_tbl, s)) (\<lambda>(pd_t, s1).
          res_bind (if c_pdpe then create_pdp_entry s1 vaddr pd_t pdp_tbl else Inr (pdp_tbl, s1)) (\<lambda>(pdp_t, s2).
          res_bind (if c_pml4e then create_pml4_entry s2 vaddr pdp_t else Inr s2) (\<lambda>s3.
          Inr (if invalidate then s3\<lparr>invalidated := vaddr # invalidated s3\<rparr> else s3))))))"

primrec map_identity :: "AddressSpaceX64 \<Rightarrow> u64 \<Rightarrow> nat \<Rightarrow> AddressSpaceX64 res" where
  "map_identity s pagesize 0 = Inr s"
| "map_identity s pagesize (Suc n) =
     res_bind (map_identity s pagesize n) (\<lambda>s'.
       MapPage s' (pagesize * of_nat n) (pagesize * of_nat n) False True)"

definition Configure :: "AddressSpaceX64 \<Rightarrow> AddressSpaceX64 res" where
  "Configure s =
     (let s1 = s\<lparr>cr3 := (cr3 s)\<lparr>cr3_IsWriteThrough := False, cr3_PageDirectory := pml4_table s\<rparr>\<rparr>;
          identity_region = identity_mapped_region_size; pagesize = kPageSizeBytes;
          pages = identity_region div pagesize in
      res_bind (rt_assert (identity_region \<noteq> 0) ''identity_region'') (\<lambda>_.
      res_bind (rt_assert (pagesize > 0) ''pagesize > 0'') (\<lambda>_.
      res_bind (rt_assert (pages > 0) ''pages > 0'') (\<lambda>_.
        map_identity s1 pagesize (unat pages)))))"

definition Install :: "AddressSpaceX64 \<Rightarrow> AddressSpaceX64 res" where
  "Install s = res_bind (CR3Entry_Encode (cr3 s)) (\<lambda>w. Inr (s\<lparr>cpu_cr3 := w\<rparr>))"

definition current_cr3 :: "AddressSpaceX64 \<Rightarrow> CR3Entry res" where
  "current_cr3 s = res_bind (rt_assert (cpu_cr3 s \<noteq> 0) ''cr3value'') (\<lambda>_. Inr (CR3Entry_decode (cpu_cr3 s)))"

section \<open>Encoding and decoding entries\<close>

lemma flag_bit [simp]: "n < 64 \<Longrightarrow> flag w n \<longleftrightarrow> bit w n"
  by (auto simp: flag_def and_exp_eq_0_iff_not_bit push_bit_of_1)

lemma bit_shl_bool: "bit (shl_bool b n) m \<longleftrightarrow> b \<and> m = n \<and> n < 64"
  by (auto simp: shl_bool_def bit_push_bit_iff bit_1_iff)

lemma aligned_bits:
  assumes "w AND mask k = (0 :: u64)" "n < k"
  shows "\<not> bit w n"
proof
  assume "bit w n"
  moreover from this have "n < 64" by (auto dest: bit_imp_le_length)
  ultimately have "bit (w AND mask k) n" using assms(2) by (simp add: bit_and_iff bit_mask_iff)
  then show False using assms(1) by simp
qed

lemma high_bits:
  assumes "w < 2 ^ k" "k \<le> n"
  shows "\<not> bit (w :: u64) n"
proof (cases "k < 64")
  case True
  then have "take_bit k w = w" using assms(1) by (metis less_mask_eq take_bit_eq_mask)
  then have "bit w n \<longleftrightarrow> bit (take_bit k w) n" by simp
  then show ?thesis using assms(2) by (simp add: bit_take_bit_iff)
next
  case False
  then show ?thesis using assms(2) by (auto dest: bit_imp_le_length)
qed

lemma entry_masks:
  "(0xFFF :: u64) = mask 12" "(0xFFFFFFFFFF000 :: u64) = push_bit 12 (mask 40)"
  "(0x1FFFFF :: u64) = mask 21" "(0xFFFFFFFE00000 :: u64) = push_bit 21 (mask 31)"
  by (simp_all add: mask_eq_exp_minus_1 push_bit_eq_mult)

text \<open>An aligned address below 2^52, or-ed with flags below its alignment or above bit 51.\<close>

lemma or_flags_mask:
  assumes "t AND mask a = 0" "t < 2 ^ 52" "a + b = 52"
    and "\<And>n. bit f n \<Longrightarrow> n < a \<or> 52 \<le> n"
  shows "(f OR t) AND push_bit a (mask b) = (t :: u64)"
proof (rule bit_word_eqI)
  fix n assume n: "n < LENGTH(64)"
  have "bit t n \<Longrightarrow> a \<le> n \<and> n < 52"
    using aligned_bits [OF assms(1), of n] high_bits [OF assms(2), of n] by (meson not_le)
  then show "bit ((f OR t) AND push_bit a (mask b)) n = bit t n"
    using n assms(3) assms(4) [of n]
    by (auto simp: bit_and_iff bit_or_iff bit_push_bit_iff bit_mask_iff)
qed

definition table_addr :: "u64 \<Rightarrow> bool" where
  "table_addr t \<longleftrightarrow> t AND 0xFFF = 0 \<and> t < 2 ^ 52"

definition page_addr :: "u64 \<Rightarrow> bool" where
  "page_addr p \<longleftrightarrow> p AND 0x1FFFFF = 0 \<and> p < 2 ^ 52"

lemma PML4PDPEntry_roundtrip:
  assumes "table_addr (PageDirectory e)"
  shows "\<exists>w. PML4PDPEntry_Encode e = Inr w \<and> PML4PDPEntry_decode w = e"
proof -
  let ?t = "PageDirectory e"
  let ?f = "shl_bool (IsPresent e) 0 OR shl_bool (IsWriteable e) 1 OR shl_bool (IsUserEnabled e) 2 OR
    shl_bool (IsWriteThrough e) 3 OR shl_bool (IsNotCachable e) 4 OR shl_bool (IsAccessed e) 5 OR
    shl_bool (IsNoExecute e) 63"
  have al: "?t AND mask 12 = 0" and lt: "?t < 2 ^ 52"
    using assms by (auto simp: table_addr_def entry_masks)
  have t: "n < 12 \<Longrightarrow> \<not> bit ?t n" "\<not> bit ?t 63" for n
    using aligned_bits [OF al] high_bits [OF lt, of 63] by auto
  have dir: "(?f OR ?t) AND 0xFFFFFFFFFF000 = ?t"
    unfolding entry_masks by (rule or_flags_mask [OF al lt]) (auto simp: bit_or_iff bit_shl_bool)
  have "PML4PDPEntry_decode (?f OR ?t) = e"
    unfolding PML4PDPEntry_decode_def dir by (simp add: bit_or_iff bit_shl_bool t)
  then show ?thesis
    using assms by (simp add: PML4PDPEntry_Encode_def table_addr_def or.assoc)
qed

lemma PDEntry_roundtrip:
  assumes "page_addr (PageAddress e)"
  shows "\<exists>w. PDEntry_Encode e = Inr w \<and> PDEntry_decode w = e"
proof -
  let ?t = "PageAddress e"
  let ?f = "shl_bool (pd_IsPresent e) 0 OR shl_bool (pd_IsWriteable e) 1 OR shl_bool (pd_IsUserEnabled e) 2 OR
    shl_bool (pd_IsWriteThrough e) 3 OR shl_bool (pd_IsNotCachable e) 4 OR shl_bool (pd_IsAccessed e) 5 OR
    shl_bool (pd_IsDirty e) 6 OR shl_bool (pd_IsPageSize e) 7 OR shl_bool (pd_IsGlobal e) 8 OR
    shl_bool (pd_IsNoExecute e) 63"
  have al: "?t AND mask 21 = 0" and lt: "?t < 2 ^ 52"
    using assms by (auto simp: page_addr_def entry_masks)
  have t: "n < 21 \<Longrightarrow> \<not> bit ?t n" "\<not> bit ?t 63" for n
    using aligned_bits [OF al] high_bits [OF lt, of 63] by auto
  have dir: "(?f OR ?t) AND 0xFFFFFFFE00000 = ?t"
    unfolding entry_masks by (rule or_flags_mask [OF al lt]) (auto simp: bit_or_iff bit_shl_bool)
  have "PDEntry_decode (?f OR ?t) = e"
    unfolding PDEntry_decode_def dir by (simp add: bit_or_iff bit_shl_bool t)
  then show ?thesis
    using assms by (simp add: PDEntry_Encode_def page_addr_def or.assoc)
qed

lemma CR3Entry_roundtrip:
  assumes "table_addr (cr3_PageDirectory e)"
  shows "\<exists>w. CR3Entry_Encode e = Inr w \<and> CR3Entry_decode w = e"
proof -
  let ?t = "cr3_PageDirectory e"
  let ?f = "shl_bool (cr3_IsWriteThrough e) 3 OR shl_bool (cr3_IsNotCachable e) 4"
  have al: "?t AND mask 12 = 0" and lt: "?t < 2 ^ 52"
    using assms by (auto simp: table_addr_def entry_masks)
  have dir: "(?f OR ?t) AND 0xFFFFFFFFFF000 = ?t"
    unfolding entry_masks by (rule or_flags_mask [OF al lt]) (auto simp: bit_or_iff bit_shl_bool)
  have "CR3Entry_decode (?f OR ?t) = e"
    unfolding CR3Entry_decode_def dir by (simp add: bit_or_iff bit_shl_bool aligned_bits [OF al])
  then show ?thesis
    using assms by (simp add: CR3Entry_Encode_def table_addr_def or.assoc)
qed

lemma zero_not_present [simp]: "\<not> IsPresent (PML4PDPEntry_decode 0)" "\<not> pd_IsPresent (PDEntry_decode 0)"
  by (simp_all add: PML4PDPEntry_decode_def PDEntry_decode_def)

section \<open>Cells of the table zone\<close>

text \<open>Table \<open>k\<close> of the zone and its entry \<open>i\<close>; the zone has room for 1536 tables.\<close>

definition tbl :: "nat \<Rightarrow> u64" where
  "tbl k = 0x1A00000 + of_nat (4096 * k)"

definition cell :: "nat \<Rightarrow> nat \<Rightarrow> u64" where
  "cell k i = 0x1A00000 + of_nat (4096 * k + 8 * i)"

lemma unat_cell: "k < 1536 \<Longrightarrow> i < 512 \<Longrightarrow> unat (cell k i) = 0x1A00000 + 4096 * k + 8 * i"
  unfolding cell_def by (subst unat_add_no_wrap) (simp_all add: unat_of_nat_small del: of_nat_add of_nat_mult)

lemma unat_tbl: "k < 1536 \<Longrightarrow> unat (tbl k) = 0x1A00000 + 4096 * k"
  unfolding tbl_def by (subst unat_add_no_wrap) (simp_all add: unat_of_nat_small del: of_nat_mult)

lemma cell_inj:
  assumes "k < 1536" "i < 512" "k' < 1536" "i' < 512"
  shows "cell k i = cell k' i' \<longleftrightarrow> k = k' \<and> i = i'"
proof
  assume "cell k i = cell k' i'"
  then have "4096 * k + 8 * i = 4096 * k' + 8 * i'"
    using unat_cell [OF assms(1,2)] unat_cell [OF assms(3,4)] by simp
  moreover from this have "k = k'" using assms by (cases k k' rule: linorder_cases) linarith+
  ultimately show "k = k' \<and> i = i'" by simp
qed simp

lemma tbl_inj: "k < 1536 \<Longrightarrow> k' < 1536 \<Longrightarrow> tbl k = tbl k' \<longleftrightarrow> k = k'"
  using unat_tbl [of k] unat_tbl [of k'] by (auto simp: word_unat_eq_iff)

lemma tbl_nonzero [simp]: "k < 1536 \<Longrightarrow> tbl k \<noteq> 0"
  using unat_tbl [of k] by (auto simp: word_unat_eq_iff)

lemma tbl_table_addr: "k < 1536 \<Longrightarrow> table_addr (tbl k)"
proof -
  assume k: "k < 1536"
  have "unat (tbl k AND mask 12) = 0" unfolding unat_mask_and unat_tbl [OF k] by simp
  moreover have "tbl k < 2 ^ 52" using unat_tbl [OF k] k by (simp add: word_less_nat_alt)
  ultimately show ?thesis by (simp add: table_addr_def entry_masks word_unat_eq_iff)
qed

lemma tbl_entry: "i < 512 \<Longrightarrow> tbl k + 8 * ucast (of_nat i :: u32) = cell k i"
proof -
  assume "i < 512"
  then have "ucast (of_nat i :: u32) = (of_nat i :: u64)"
    by (simp add: word_unat_eq_iff unat_of_nat take_bit_nat_eq_self unsigned_ucast_eq)
  then show ?thesis by (simp add: tbl_def cell_def)
qed

lemma zero_table_cell:
  assumes "k < 1536" "i < 512" "n < 1536"
  shows "zero_table tm (tbl n) (cell k i) = (if k = n then 0 else tm (cell k i))"
proof -
  have "cell k i - tbl n < 4096 \<longleftrightarrow> k = n"
    using unat_cell [OF assms(1,2)] unat_tbl [OF assms(3)] assms
    by (auto simp: word_less_nat_alt unat_sub_if' word_le_nat_alt)
  then show ?thesis by (simp add: zero_table_def)
qed

definition table_zone :: MemoryZone where
  "table_zone = \<lparr>mz_ptr = 0x1A00000, mz_size = 0x600000\<rparr>"

lemma AllocTable_ok:
  assumes "pt_zone ta = table_zone" "tables_taken ta = of_nat n" "n < 1536"
  shows "AllocTable ta tm = Inr (tbl n, ta\<lparr>tables_taken := of_nat (Suc n)\<rparr>, zero_table tm (tbl n))"
proof -
  have "unat (of_nat n * 4 :: u32) = 4 * n"
    using assms(3) by (simp add: unat_word_ariths unat_of_nat take_bit_nat_eq_self)
  then have a: "ucast (of_nat n * 4 :: u32) * KiB = (of_nat (4096 * n) :: u64)"
    using assms(3) by (simp add: word_unat_eq_iff unat_word_ariths unat_of_nat take_bit_nat_eq_self unsigned_ucast_eq)
  have "of_nat (4096 * n) < (0x600000 :: u64)"
    using assms(3) by (simp add: word_less_nat_alt unat_of_nat take_bit_nat_eq_self del: of_nat_mult)
  then show ?thesis
    using assms(1,2) by (simp add: AllocTable_def a table_zone_def tbl_def Let_def add.commute del: size_units of_nat_mult)
qed

lemma AllocTable_full:
  assumes "pt_zone ta = table_zone" "tables_taken ta = 1536"
  shows "AllocTable ta tm = Inl (AssertFailed ''page_directory_zone_'')"
  using assms by (simp add: AllocTable_def table_zone_def Let_def)

section \<open>Indices of a virtual address\<close>

definition idx4 :: "u64 \<Rightarrow> nat" where "idx4 v = unat v div 2 ^ 39 mod 512"
definition idx3 :: "u64 \<Rightarrow> nat" where "idx3 v = unat v div 2 ^ 30 mod 512"
definition idx2 :: "u64 \<Rightarrow> nat" where "idx2 v = unat v div 2 ^ 21 mod 512"

lemma idx_less [simp]: "idx4 v < 512" "idx3 v < 512" "idx2 v < 512"
  by (simp_all add: idx4_def idx3_def idx2_def)

lemma offset_index:
  "(ucast (drop_bit k (v :: u64) AND 0x1FF) :: u32) = of_nat (unat v div 2 ^ k mod 512)"
proof -
  have m: "(0x1FF :: u64) = mask 9" by (simp add: mask_eq_exp_minus_1)
  have "unat (drop_bit k v AND 0x1FF) = unat v div 2 ^ k mod 512"
    unfolding m unat_mask_and unat_drop_bit_eq by (simp add: drop_bit_eq_div)
  then show ?thesis
    by (simp add: word_unat_eq_iff unsigned_ucast_eq unat_of_nat take_bit_nat_eq_self)
qed

lemma of_nat_512: "i < 512 \<Longrightarrow> (of_nat i :: u32) < 512"
  by (simp add: word_less_nat_alt unat_of_nat take_bit_nat_eq_self)

lemma offsets:
  "pml4_offset v = Inr (of_nat (idx4 v))" "pdp_offset v = Inr (of_nat (idx3 v))"
  "pd_offset v = Inr (of_nat (idx2 v))"
  unfolding pml4_offset_def pdp_offset_def pd_offset_def offset_index Let_def
  using of_nat_512 idx_less [of v] by (simp_all add: idx4_def idx3_def idx2_def)

lemma GetEntry_cell: "i < 512 \<Longrightarrow> GetEntry dec tm (tbl k) (of_nat i) = Inr (dec (tm (cell k i)))"
  by (simp add: GetEntry_def of_nat_512 tbl_entry)

lemma SetEntry_cell: "i < 512 \<Longrightarrow> SetEntry tm (tbl k) (of_nat i) (Inr w) = Inr (tm(cell k i := w))"
  by (simp add: SetEntry_def of_nat_512 tbl_entry)

section \<open>The specification: a partial map\<close>

type_synonym vpage = "nat \<times> nat \<times> nat"

definition vpage :: "u64 \<Rightarrow> vpage" where
  "vpage v = (idx4 v, idx3 v, idx2 v)"

definition as_map :: "AddressSpaceX64 \<Rightarrow> vpage \<rightharpoonup> u64" where
  "as_map s = (\<lambda>(i, j, l).
     if \<not> (i < 512 \<and> j < 512 \<and> l < 512) then None
     else let e4 = PML4PDPEntry_decode (tmem s (cr3_PageDirectory (cr3 s) + 8 * of_nat i)) in
     if \<not> IsPresent e4 then None
     else let e3 = PML4PDPEntry_decode (tmem s (PageDirectory e4 + 8 * of_nat j)) in
       if \<not> IsPresent e3 then None
       else let e2 = PDEntry_decode (tmem s (PageDirectory e3 + 8 * of_nat l)) in
         if pd_IsPresent e2 then Some (PageAddress e2) else None)"

text \<open>
  The tables form a tree: \<open>P i\<close> is the number of the PDP table below PML4 entry \<open>i\<close>, \<open>D (i, j)\<close>
  that of the PD table below its entry \<open>j\<close>; all are taken, and no two are the same table. The
  entries are those the code writes: the \<open>Accessed\<close> bit, which a processor sets in them and the
  code never reads, is taken to be clear.
\<close>

definition ent :: "AddressSpaceX64 \<Rightarrow> nat \<Rightarrow> nat \<Rightarrow> u64" where
  "ent s k i = tmem s (cell k i)"

definition link :: "u64 \<Rightarrow> nat option \<Rightarrow> nat \<Rightarrow> bool" where
  "link w t n \<longleftrightarrow> (case t of None \<Rightarrow> \<not> IsPresent (PML4PDPEntry_decode w)
     | Some k \<Rightarrow> 0 < k \<and> k < n \<and> PML4PDPEntry_decode w = table_entry (tbl k))"

definition tree :: "(nat \<Rightarrow> nat \<Rightarrow> u64) \<Rightarrow> nat \<Rightarrow> (nat \<rightharpoonup> nat) \<Rightarrow> (nat \<times> nat \<rightharpoonup> nat) \<Rightarrow> bool" where
  "tree en n P D \<longleftrightarrow> (\<forall>i<512. link (en 0 i) (P i) n) \<and>
     (\<forall>i k. P i = Some k \<longrightarrow> i < 512 \<and> (\<forall>j<512. link (en k j) (D (i, j)) n)) \<and>
     (\<forall>i j d. D (i, j) = Some d \<longrightarrow> j < 512 \<and> P i \<noteq> None) \<and>
     inj_on P (dom P) \<and> inj_on D (dom D) \<and> ran P \<inter> ran D = {}"

definition as_frame :: "AddressSpaceX64 \<Rightarrow> nat \<Rightarrow> bool" where
  "as_frame s n \<longleftrightarrow> 0 < n \<and> n \<le> 1536 \<and> pt_zone (table_allocator s) = table_zone \<and>
     tables_taken (table_allocator s) = of_nat n \<and> pml4_table s = tbl 0 \<and> cr3_PageDirectory (cr3 s) = tbl 0"

definition as_inv :: "AddressSpaceX64 \<Rightarrow> nat \<Rightarrow> bool" where
  "as_inv s n \<longleftrightarrow> as_frame s n \<and> (\<exists>P D. tree (ent s) n P D)"

lemma tbl_entry_nat: "tbl k + 8 * of_nat i = cell k i"
  by (simp add: tbl_def cell_def)

lemma table_entry_simps [simp]: "IsPresent (table_entry t)" "PageDirectory (table_entry t) = t"
  by (simp_all add: table_entry_def)

lemma treeI:
  assumes "\<And>i. i < 512 \<Longrightarrow> link (en 0 i) (P i) n"
    and "\<And>i k. P i = Some k \<Longrightarrow> i < 512"
    and "\<And>i k j. P i = Some k \<Longrightarrow> j < 512 \<Longrightarrow> link (en k j) (D (i, j)) n"
    and "\<And>i j d. D (i, j) = Some d \<Longrightarrow> j < 512 \<and> P i \<noteq> None"
    and "inj_on P (dom P)" "inj_on D (dom D)" "ran P \<inter> ran D = {}"
  shows "tree en n P D"
  using assms unfolding tree_def by blast

lemma treeD:
  assumes "tree en n P D"
  shows "i < 512 \<Longrightarrow> link (en 0 i) (P i) n"
    and "P i = Some k \<Longrightarrow> i < 512"
    and "P i = Some k \<Longrightarrow> j < 512 \<Longrightarrow> link (en k j) (D (i, j)) n"
    and "D (i, j) = Some d \<Longrightarrow> j < 512 \<and> P i \<noteq> None"
    and "inj_on P (dom P)" "inj_on D (dom D)" "ran P \<inter> ran D = {}"
  using assms unfolding tree_def by blast+

lemma tree_P:
  assumes "tree en n P D" "P i = Some k"
  shows "i < 512" "0 < k" "k < n" "PML4PDPEntry_decode (en 0 i) = table_entry (tbl k)"
proof -
  have i: "i < 512" using assms by (auto simp: tree_def)
  then have "link (en 0 i) (P i) n" using assms(1) by (auto simp: tree_def)
  then show "i < 512" "0 < k" "k < n" "PML4PDPEntry_decode (en 0 i) = table_entry (tbl k)"
    using assms(2) i by (auto simp: link_def)
qed

lemma tree_D:
  assumes "tree en n P D" "D (i, j) = Some d"
  shows "\<exists>k. P i = Some k \<and> PML4PDPEntry_decode (en k j) = table_entry (tbl d)" "j < 512" "0 < d" "d < n"
proof -
  have j: "j < 512" and "P i \<noteq> None" using assms unfolding tree_def by blast+
  then obtain k where k: "P i = Some k" by blast
  then have "link (en k j) (D (i, j)) n" using assms(1) j by (auto simp: tree_def)
  then show "\<exists>k. P i = Some k \<and> PML4PDPEntry_decode (en k j) = table_entry (tbl d)" "j < 512" "0 < d" "d < n"
    using assms(2) j k by (auto simp: link_def)
qed

definition page_of :: "u64 \<Rightarrow> u64 option" where
  "page_of w = (let e = PDEntry_decode w in if pd_IsPresent e then Some (PageAddress e) else None)"

lemma as_map_tree:
  assumes "as_frame s n" "tree (ent s) n P D" "i < 512" "j < 512" "l < 512"
  shows "as_map s (i, j, l) = (case D (i, j) of None \<Rightarrow> None | Some d \<Rightarrow> page_of (ent s d l))"
proof -
  have c: "cr3_PageDirectory (cr3 s) = tbl 0" using assms(1) by (simp add: as_frame_def)
  have e0: "link (ent s 0 i) (P i) n" using assms by (auto simp: tree_def)
  show ?thesis
  proof (cases "P i")
    case None
    then have "D (i, j) = None" using assms(2) by (cases "D (i, j)") (auto dest: tree_D(1))
    then show ?thesis using e0 None c assms(3-5) by (simp add: as_map_def link_def tbl_entry_nat ent_def)
  next
    case (Some k)
    then have e1: "link (ent s k j) (D (i, j)) n" using assms by (auto simp: tree_def)
    show ?thesis
      using e0 e1 Some c assms(3-5)
      by (auto simp: as_map_def link_def tbl_entry_nat ent_def page_of_def Let_def split: option.splits)
  qed
qed

section \<open>\<open>VirtualToPhysical\<close> is lookup\<close>

lemma VirtualToPhysical_spec:
  assumes "as_inv s n"
  shows "VirtualToPhysical s v =
    Inr (case as_map s (vpage v) of None \<Rightarrow> 0 | Some a \<Rightarrow> a + ucast (page_offset v))"
proof -
  obtain P D where t: "tree (ent s) n P D" and f: "as_frame s n" using assms by (auto simp: as_inv_def)
  have n: "n \<le> 1536" and c: "cr3_PageDirectory (cr3 s) = tbl 0" using f by (auto simp: as_frame_def)
  have e0: "link (ent s 0 (idx4 v)) (P (idx4 v)) n" using t by (auto simp: tree_def)
  note m = as_map_tree [OF f t, of "idx4 v" "idx3 v" "idx2 v"]
  show ?thesis
  proof (cases "P (idx4 v)")
    case None
    then have "D (idx4 v, idx3 v) = None" using t by (cases "D (idx4 v, idx3 v)") (auto dest: tree_D(1))
    then show ?thesis
      using e0 None c m by (simp add: VirtualToPhysical_def offsets GetEntry_cell vpage_def link_def ent_def)
  next
    case (Some k)
    then have e1: "link (ent s k (idx3 v)) (D (idx4 v, idx3 v)) n" using t by (auto simp: tree_def)
    have k: "k < 1536" using tree_P(3) [OF t Some] n by simp
    show ?thesis
    proof (cases "D (idx4 v, idx3 v)")
      case None
      then show ?thesis using e0 e1 Some c m k
        by (simp add: VirtualToPhysical_def offsets GetEntry_cell vpage_def link_def ent_def)
    next
      case (Some d)
      have "d < 1536" using tree_D(4) [OF t Some] n by simp
      then show ?thesis using e0 e1 \<open>P (idx4 v) = Some k\<close> Some c m k
        by (simp add: VirtualToPhysical_def offsets GetEntry_cell vpage_def link_def ent_def page_of_def Let_def)
    qed
  qed
qed

section \<open>\<open>MapPage\<close> is update\<close>

lemma MapPage_walk_spec:
  assumes "as_frame s n" "tree (ent s) n P D"
  shows "MapPage_walk s v p = Inr (case P (idx4 v) of None \<Rightarrow> Walk True True True 0 0
    | Some k \<Rightarrow> (case D (idx4 v, idx3 v) of None \<Rightarrow> Walk True True False (tbl k) 0
    | Some d \<Rightarrow> (case page_of (ent s d (idx2 v)) of None \<Rightarrow> Walk True False False (tbl k) (tbl d)
    | Some a \<Rightarrow> if p = a then Done else Walk False False False (tbl k) (tbl d))))"
proof -
  have n: "n \<le> 1536" and c: "cr3_PageDirectory (cr3 s) = tbl 0" using assms(1) by (auto simp: as_frame_def)
  have e0: "link (ent s 0 (idx4 v)) (P (idx4 v)) n" using assms(2) by (auto simp: tree_def)
  show ?thesis
  proof (cases "P (idx4 v)")
    case None
    then show ?thesis
      using e0 c by (simp add: MapPage_walk_def offsets GetEntry_cell link_def ent_def)
  next
    case (Some k)
    then have e1: "link (ent s k (idx3 v)) (D (idx4 v, idx3 v)) n" using assms(2) by (auto simp: tree_def)
    have k: "k < 1536" using tree_P(3) [OF assms(2) Some] n by simp
    show ?thesis
    proof (cases "D (idx4 v, idx3 v)")
      case None
      then show ?thesis using e0 e1 Some c k
        by (simp add: MapPage_walk_def offsets GetEntry_cell link_def ent_def)
    next
      case (Some d)
      have "d < 1536" using tree_D(4) [OF assms(2) Some] n by simp
      then show ?thesis using e0 e1 \<open>P (idx4 v) = Some k\<close> Some c k
        by (simp add: MapPage_walk_def offsets GetEntry_cell link_def ent_def page_of_def Let_def)
    qed
  qed
qed

text \<open>Effects of the steps on the entries.\<close>

definition new_pd :: "bool \<Rightarrow> u64 \<Rightarrow> PDEntry" where
  "new_pd wt p = PDEntry_default\<lparr>pd_IsPresent := True, pd_IsWriteable := True,
     pd_IsWriteThrough := wt, pd_IsPageSize := True, pd_IsGlobal := False, PageAddress := p\<rparr>"

lemma ent_upd:
  assumes "k < 1536" "i < 512" "k' < 1536" "i' < 512"
  shows "ent (s\<lparr>tmem := (tmem s)(cell k i := w)\<rparr>) k' i' = (if k' = k \<and> i' = i then w else ent s k' i')"
  using cell_inj [OF assms(3,4,1,2)] by (auto simp: ent_def)

definition agree :: "(nat \<Rightarrow> nat \<Rightarrow> u64) \<Rightarrow> (nat \<Rightarrow> nat \<Rightarrow> u64) \<Rightarrow> bool" where
  "agree e e' \<longleftrightarrow> (\<forall>k<1536. \<forall>i<512. e k i = e' k i)"

definition upd2 :: "(nat \<Rightarrow> nat \<Rightarrow> u64) \<Rightarrow> nat \<Rightarrow> nat \<Rightarrow> u64 \<Rightarrow> nat \<Rightarrow> nat \<Rightarrow> u64" where
  "upd2 e k i w = e(k := (e k)(i := w))"

definition same_but_tables :: "AddressSpaceX64 \<Rightarrow> AddressSpaceX64 \<Rightarrow> bool" where
  "same_but_tables s s' \<longleftrightarrow> cr3 s' = cr3 s \<and> pml4_table s' = pml4_table s \<and> cpu_cr3 s' = cpu_cr3 s \<and>
     invalidated s' = invalidated s"

lemma put_entry_ok:
  assumes "k < 1536" "i < 512" "agree (ent s) e"
  shows "\<exists>s'. put_entry s (tbl k) (Inr (of_nat i)) (Inr w) = Inr s' \<and> agree (ent s') (upd2 e k i w) \<and>
    table_allocator s' = table_allocator s \<and> same_but_tables s s'"
  using assms by (simp add: put_entry_def SetEntry_cell agree_def upd2_def same_but_tables_def ent_upd)

lemma ensure_table_new:
  assumes "pt_zone (table_allocator s) = table_zone" "tables_taken (table_allocator s) = of_nat n" "n < 1536"
    and "agree (ent s) e"
  shows "\<exists>s'. ensure_table 0 what s = Inr (tbl n, s') \<and> agree (ent s') (e(n := (\<lambda>_. 0))) \<and>
    table_allocator s' = (table_allocator s)\<lparr>tables_taken := of_nat (Suc n)\<rparr> \<and> same_but_tables s s'"
  using assms by (auto simp: ensure_table_def AllocTable_ok agree_def same_but_tables_def ent_def zero_table_cell)

lemma ensure_table_old: "t \<noteq> 0 \<Longrightarrow> ensure_table t what s = Inr (t, s)"
  by (simp add: ensure_table_def)

lemma tree_cong:
  assumes "agree e e'" "n \<le> 1536" "tree e' n P D"
  shows "tree e n P D"
proof (rule treeI)
  show "link (e 0 i) (P i) n" if "i < 512" for i
    using treeD(1) [OF assms(3) that] assms(1) that by (simp add: agree_def)
  show "link (e k j) (D (i, j)) n" if "P i = Some k" "j < 512" for i k j
    using treeD(3) [OF assms(3) that] tree_P(3) [OF assms(3) that(1)] assms(1,2) that(2)
    by (simp add: agree_def)
qed (use treeD [OF assms(3)] in blast)+

lemma link_mono: "link w t n \<Longrightarrow> n \<le> m \<Longrightarrow> link w t m"
  by (auto simp: link_def split: option.splits)

lemma tree_below:
  assumes "tree e n P D"
  shows "0 \<notin> ran P" "0 \<notin> ran D" "k \<in> ran P \<Longrightarrow> k < n" "k \<in> ran D \<Longrightarrow> k < n"
  using tree_P [OF assms] tree_D [OF assms] by (fastforce simp: ran_def)+

text \<open>Growing the tree: a page in a PD table, a PD table below a PDP table, a PDP table.\<close>

lemma tree_disj: "tree e n P D \<Longrightarrow> D (i, j) = Some d \<Longrightarrow> P x \<noteq> Some d"
  using treeD(7) [of e n P D] by (auto simp: ran_def)

lemma tree_set_page:
  assumes "tree e n P D" "D (i, j) = Some d"
  shows "tree (upd2 e d l w) n P D"
proof (rule treeI)
  show "link (upd2 e d l w 0 x) (P x) n" if "x < 512" for x
    using treeD(1) [OF assms(1) that] tree_D(3) [OF assms] by (simp add: upd2_def)
  show "link (upd2 e d l w k y) (D (x, y)) n" if "P x = Some k" "y < 512" for x k y
    using treeD(3) [OF assms(1) that] tree_disj [OF assms, of x] that(1) by (auto simp: upd2_def)
qed (use treeD [OF assms(1)] in blast)+

text \<open>Table \<open>t\<close> is not in the tree of \<open>n\<close> tables and is below the new bound \<open>m\<close>.\<close>

definition fresh :: "nat \<Rightarrow> nat \<Rightarrow> nat \<Rightarrow> (nat \<rightharpoonup> nat) \<Rightarrow> (nat \<times> nat \<rightharpoonup> nat) \<Rightarrow> bool" where
  "fresh t n m P D \<longleftrightarrow> 0 < t \<and> t < m \<and> n \<le> m \<and> t \<notin> ran P \<and> t \<notin> ran D"

lemma fresh_new: "tree e n P D \<Longrightarrow> 0 < t \<Longrightarrow> n \<le> t \<Longrightarrow> t < m \<Longrightarrow> fresh t n m P D"
  using tree_below(3,4) [of e n P D t] by (auto simp: fresh_def)

lemma tree_add_pd:
  assumes "tree e n P D" "P i = Some k" "D (i, j) = None" "j < 512"
    and "PML4PDPEntry_decode w = table_entry (tbl t)" "fresh t n m P D"
  shows "tree (upd2 (e(t := f)) k j w) m P (D((i, j) \<mapsto> t))"
proof -
  note fr = assms(6) [unfolded fresh_def]
  have kn: "0 < k" "k < n" "k \<noteq> t" "0 < t" "t < m" using tree_P(2,3) [OF assms(1,2)] assms(2) fr by (auto simp: ran_def)
  have inP: "P x = Some k' \<Longrightarrow> k' \<noteq> t" for x k' using fr by (auto simp: ran_def)
  have eqk: "P x = Some k \<Longrightarrow> x = i" for x
    using treeD(5) [OF assms(1)] assms(2) by (metis domI inj_onD)
  show ?thesis
  proof (rule treeI)
    show "link (upd2 (e(t := f)) k j w 0 x) (P x) m" if "x < 512" for x
      using link_mono [OF treeD(1) [OF assms(1) that]] kn fr by (simp add: upd2_def)
    show "link (upd2 (e(t := f)) k j w k' y) ((D((i, j) \<mapsto> t)) (x, y)) m"
      if "P x = Some k'" "y < 512" for x k' y
    proof (cases "x = i \<and> y = j")
      case True
      then show ?thesis using that(1) assms(2,5) kn by (auto simp: upd2_def link_def)
    next
      case False
      then have "\<not> (k' = k \<and> y = j)" using eqk that(1) by blast
      then have "upd2 (e(t := f)) k j w k' y = e k' y" using inP [OF that(1)] kn by (auto simp: upd2_def)
      moreover have "(D((i, j) \<mapsto> t)) (x, y) = D (x, y)" using False by auto
      ultimately show ?thesis using link_mono [OF treeD(3) [OF assms(1) that]] fr by simp
    qed
    show "y < 512 \<and> P x \<noteq> None" if "(D((i, j) \<mapsto> t)) (x, y) = Some d" for x y d
      using that treeD(4) [OF assms(1), of x y d] assms(2,4) by (auto split: if_splits)
    show "inj_on (D((i, j) \<mapsto> t)) (dom (D((i, j) \<mapsto> t)))"
      using treeD(6) [OF assms(1)] fr by (auto simp: inj_on_def ran_def)
    show "ran P \<inter> ran (D((i, j) \<mapsto> t)) = {}"
      using treeD(7) [OF assms(1)] assms(3) fr by simp
  qed (use treeD [OF assms(1)] in \<open>blast+\<close>)
qed

lemma tree_add_pdp:
  assumes "tree e n P D" "P i = None" "i < 512" "fresh t n m P D"
    and "PML4PDPEntry_decode w = table_entry (tbl t)"
    and "\<And>j. j < 512 \<Longrightarrow> \<not> IsPresent (PML4PDPEntry_decode (f j))"
  shows "tree (upd2 (e(t := f)) 0 i w) m (P(i \<mapsto> t)) D"
proof -
  note fr = assms(4) [unfolded fresh_def]
  have Di: "D (i, y) = None" for y
    using treeD(4) [OF assms(1), of i y] assms(2) by (cases "D (i, y)") auto
  have inP: "P x = Some k' \<Longrightarrow> 0 < k' \<and> k' \<noteq> t" for x k'
    using tree_P(2) [OF assms(1)] fr by (auto simp: ran_def)
  show ?thesis
  proof (rule treeI)
    show "link (upd2 (e(t := f)) 0 i w 0 x) ((P(i \<mapsto> t)) x) m" if "x < 512" for x
      using link_mono [OF treeD(1) [OF assms(1) that]] fr assms(5) by (auto simp: upd2_def link_def)
    show "x < 512" if "(P(i \<mapsto> t)) x = Some k" for x k
      using that assms(3) treeD(2) [OF assms(1)] by (auto split: if_splits)
    show "link (upd2 (e(t := f)) 0 i w k y) (D (x, y)) m"
      if "(P(i \<mapsto> t)) x = Some k" "y < 512" for x k y
    proof (cases "x = i")
      case True
      then show ?thesis using that fr assms(6) Di by (auto simp: upd2_def link_def)
    next
      case False
      then have p: "P x = Some k" using that(1) by simp
      then have "upd2 (e(t := f)) 0 i w k y = e k y" using inP [OF p] by (simp add: upd2_def)
      then show ?thesis using link_mono [OF treeD(3) [OF assms(1) p that(2)]] fr by simp
    qed
    show "y < 512 \<and> (P(i \<mapsto> t)) x \<noteq> None" if "D (x, y) = Some d" for x y d
      using treeD(4) [OF assms(1) that] by simp
    show "inj_on (P(i \<mapsto> t)) (dom (P(i \<mapsto> t)))"
      using treeD(5) [OF assms(1)] fr by (auto simp: inj_on_def ran_def)
    show "ran (P(i \<mapsto> t)) \<inter> ran D = {}"
      using treeD(7) [OF assms(1)] assms(2) fr by simp
  qed (use treeD [OF assms(1)] in \<open>blast+\<close>)
qed

lemma as_map_agree:
  assumes "as_frame s n" "agree (ent s) e" "tree e n P D"
  shows "as_map s (i, j, l) = (if i < 512 \<and> j < 512 \<and> l < 512
    then case D (i, j) of None \<Rightarrow> None | Some d \<Rightarrow> page_of (e d l) else None)"
proof (cases "i < 512 \<and> j < 512 \<and> l < 512")
  case True
  have n: "n \<le> 1536" using assms(1) by (simp add: as_frame_def)
  have "ent s d l = e d l" if "D (i, j) = Some d" for d
    using tree_D(4) [OF assms(3) that] n assms(2) True by (simp add: agree_def)
  then show ?thesis
    using True as_map_tree [OF assms(1) tree_cong [OF assms(2) n assms(3)], of i j l]
    by (auto split: option.splits)
qed (auto simp: as_map_def)

lemma as_frame_same:
  assumes "as_frame s n" "same_but_tables s s'" "n \<le> m" "m \<le> 1536"
    and "table_allocator s' = (table_allocator s)\<lparr>tables_taken := of_nat m\<rparr>"
  shows "as_frame s' m"
  using assms by (auto simp: as_frame_def same_but_tables_def)

lemma same_trans: "same_but_tables a b \<Longrightarrow> same_but_tables b c \<Longrightarrow> same_but_tables a c"
  by (simp add: same_but_tables_def)

lemma page_of_new:
  assumes "page_addr p"
  shows "\<exists>w. PDEntry_Encode (new_pd wt p) = Inr w \<and> page_of w = Some p"
proof -
  obtain w where "PDEntry_Encode (new_pd wt p) = Inr w" "PDEntry_decode w = new_pd wt p"
    using PDEntry_roundtrip [of "new_pd wt p"] assms by (auto simp: new_pd_def)
  then show ?thesis by (auto simp: page_of_def new_pd_def)
qed

lemma link_word:
  assumes "k < 1536"
  shows "\<exists>w. PML4PDPEntry_Encode (table_entry (tbl k)) = Inr w \<and> PML4PDPEntry_decode w = table_entry (tbl k)"
  using PML4PDPEntry_roundtrip [of "table_entry (tbl k)"] tbl_table_addr [OF assms] by simp

lemma create_pd_entry_old:
  assumes "d < 1536" "agree (ent s) e" "PDEntry_Encode (new_pd wt p) = Inr w"
  shows "\<exists>s'. create_pd_entry s v p wt (tbl d) = Inr (tbl d, s') \<and> agree (ent s') (upd2 e d (idx2 v) w) \<and>
    table_allocator s' = table_allocator s \<and> same_but_tables s s'"
  using put_entry_ok [OF assms(1) idx_less(3) assms(2), of v w] assms(1,3)
  by (auto simp: create_pd_entry_def ensure_table_old offsets new_pd_def)

lemma create_pd_entry_new:
  assumes "pt_zone (table_allocator s) = table_zone" "tables_taken (table_allocator s) = of_nat n" "n < 1536"
    and "agree (ent s) e" "PDEntry_Encode (new_pd wt p) = Inr w"
  shows "\<exists>s'. create_pd_entry s v p wt 0 = Inr (tbl n, s') \<and> agree (ent s') (e(n := (\<lambda>_. 0)(idx2 v := w))) \<and>
    table_allocator s' = (table_allocator s)\<lparr>tables_taken := of_nat (Suc n)\<rparr> \<and> same_but_tables s s'"
proof -
  obtain s1 where s1: "ensure_table 0 ''pd_table'' s = Inr (tbl n, s1)" "agree (ent s1) (e(n := (\<lambda>_. 0)))"
    "table_allocator s1 = (table_allocator s)\<lparr>tables_taken := of_nat (Suc n)\<rparr>" "same_but_tables s s1"
    using ensure_table_new [OF assms(1-4)] by blast
  have "upd2 (e(n := (\<lambda>_. 0))) n (idx2 v) w = e(n := (\<lambda>_. 0)(idx2 v := w))" by (simp add: upd2_def)
  then show ?thesis
    using put_entry_ok [OF assms(3) idx_less(3) s1(2), of v w] s1 assms(5)
    by (auto simp: create_pd_entry_def offsets new_pd_def dest: same_trans)
qed

lemma create_pdp_entry_old:
  assumes "k < 1536" "t < 1536" "agree (ent s) e" "PML4PDPEntry_Encode (table_entry (tbl t)) = Inr w"
  shows "\<exists>s'. create_pdp_entry s v (tbl t) (tbl k) = Inr (tbl k, s') \<and> agree (ent s') (upd2 e k (idx3 v) w) \<and>
    table_allocator s' = table_allocator s \<and> same_but_tables s s'"
  using put_entry_ok [OF assms(1) idx_less(2) assms(3), of v w] assms(1,2,4)
  by (auto simp: create_pdp_entry_def ensure_table_old offsets)

lemma create_pdp_entry_new:
  assumes "pt_zone (table_allocator s) = table_zone" "tables_taken (table_allocator s) = of_nat n" "n < 1536"
    and "t < 1536" "agree (ent s) e" "PML4PDPEntry_Encode (table_entry (tbl t)) = Inr w"
  shows "\<exists>s'. create_pdp_entry s v (tbl t) 0 = Inr (tbl n, s') \<and> agree (ent s') (e(n := (\<lambda>_. 0)(idx3 v := w))) \<and>
    table_allocator s' = (table_allocator s)\<lparr>tables_taken := of_nat (Suc n)\<rparr> \<and> same_but_tables s s'"
proof -
  obtain s1 where s1: "ensure_table 0 ''pdp_table'' s = Inr (tbl n, s1)" "agree (ent s1) (e(n := (\<lambda>_. 0)))"
    "table_allocator s1 = (table_allocator s)\<lparr>tables_taken := of_nat (Suc n)\<rparr>" "same_but_tables s s1"
    using ensure_table_new [OF assms(1-3,5)] by blast
  have "upd2 (e(n := (\<lambda>_. 0))) n (idx3 v) w = e(n := (\<lambda>_. 0)(idx3 v := w))" by (simp add: upd2_def)
  then show ?thesis
    using put_entry_ok [OF assms(3) idx_less(2) s1(2), of v w] s1 assms(4,6)
    by (auto simp: create_pdp_entry_def offsets dest: same_trans)
qed

lemma create_pml4_entry_ok:
  assumes "cr3_PageDirectory (cr3 s) = tbl 0" "t < 1536" "agree (ent s) e"
    and "PML4PDPEntry_Encode (table_entry (tbl t)) = Inr w"
  shows "\<exists>s'. create_pml4_entry s v (tbl t) = Inr s' \<and> agree (ent s') (upd2 e 0 (idx4 v) w) \<and>
    table_allocator s' = table_allocator s \<and> same_but_tables s s'"
  using put_entry_ok [of 0 "idx4 v" s e w] assms by (auto simp: create_pml4_entry_def offsets)

text \<open>What a state after \<open>MapPage\<close> of a page not mapped yet looks like.\<close>

definition mapped :: "AddressSpaceX64 \<Rightarrow> nat \<Rightarrow> AddressSpaceX64 \<Rightarrow> nat \<Rightarrow> vpage \<Rightarrow> u64 \<Rightarrow> bool" where
  "mapped s n s' m key p \<longleftrightarrow> as_inv s' m \<and> n \<le> m \<and> m \<le> n + 2 \<and> same_but_tables s s' \<and>
     as_map s' = (as_map s)(key \<mapsto> p)"

lemma mappedI:
  assumes "as_frame s n" "tree (ent s) n P D" "same_but_tables s s'" "n \<le> m" "m \<le> n + 2" "m \<le> 1536"
    and "table_allocator s' = (table_allocator s)\<lparr>tables_taken := of_nat m\<rparr>"
    and "agree (ent s') e'" "tree e' m P' D'"
    and "\<And>i j l. i < 512 \<Longrightarrow> j < 512 \<Longrightarrow> l < 512 \<Longrightarrow>
      (case D' (i, j) of None \<Rightarrow> None | Some d \<Rightarrow> page_of (e' d l)) =
      (if (i, j, l) = vpage v then Some p else case D (i, j) of None \<Rightarrow> None | Some d \<Rightarrow> page_of (ent s d l))"
  shows "mapped s n s' m (vpage v) p"
proof -
  have f: "as_frame s' m" using as_frame_same [OF assms(1,3,4,6,7)] .
  have "as_inv s' m" using f tree_cong [OF assms(8,6,9)] by (auto simp: as_inv_def)
  moreover have "as_map s' key = ((as_map s)(vpage v \<mapsto> p)) key" for key
  proof -
    obtain i j l where k: "key = (i, j, l)" by (metis prod_cases3)
    have "agree (ent s) (ent s)" by (simp add: agree_def)
    note m = as_map_agree [OF f assms(8,9), of i j l] as_map_agree [OF assms(1) this assms(2), of i j l]
    show ?thesis
    proof (cases "i < 512 \<and> j < 512 \<and> l < 512")
      case True
      then show ?thesis using m assms(10) [of i j l] k by simp
    next
      case False
      then have "(i, j, l) \<noteq> vpage v" by (auto simp: vpage_def)
      then show ?thesis using m False k by auto
    qed
  qed
  ultimately show ?thesis using assms(3-5) by (auto simp: mapped_def)
qed

lemma page_of_0 [simp]: "page_of 0 = None"
  by (simp add: page_of_def)

lemma frame_alloc:
  assumes "as_frame s n" "same_but_tables s s'"
    and "table_allocator s' = (table_allocator s)\<lparr>tables_taken := of_nat m\<rparr>"
  shows "pt_zone (table_allocator s') = table_zone" "tables_taken (table_allocator s') = of_nat m"
    "cr3_PageDirectory (cr3 s') = tbl 0"
  using assms by (auto simp: as_frame_def same_but_tables_def)

lemma MapPage_pd:
  assumes "as_frame s n" "tree (ent s) n P D" "page_addr p" "D (idx4 v, idx3 v) = Some d"
    and "page_of (ent s d (idx2 v)) = None"
  shows "\<exists>s'. create_pd_entry s v p wt (tbl d) = Inr (tbl d, s') \<and> mapped s n s' n (vpage v) p"
proof -
  obtain w where w: "PDEntry_Encode (new_pd wt p) = Inr w" "page_of w = Some p"
    using page_of_new [OF assms(3)] by blast
  have d: "d < 1536" "n \<le> 1536" using tree_D(4) [OF assms(2,4)] assms(1) by (auto simp: as_frame_def)
  have ag: "agree (ent s) (ent s)" by (simp add: agree_def)
  obtain s' where s': "create_pd_entry s v p wt (tbl d) = Inr (tbl d, s')"
    "agree (ent s') (upd2 (ent s) d (idx2 v) w)" "table_allocator s' = table_allocator s" "same_but_tables s s'"
    using create_pd_entry_old [OF d(1) ag w(1)] by blast
  have key: "D (i, j) = Some d \<Longrightarrow> i = idx4 v \<and> j = idx3 v" for i j
    using treeD(6) [OF assms(2)] assms(4) by (metis Pair_inject domI inj_onD)
  let ?e = "upd2 (ent s) d (idx2 v) w"
  have pages: "(case D (i, j) of None \<Rightarrow> None | Some d \<Rightarrow> page_of (?e d l)) =
    (if (i, j, l) = vpage v then Some p else case D (i, j) of None \<Rightarrow> None | Some d \<Rightarrow> page_of (ent s d l))" for i j l
  proof (cases "(i, j) = (idx4 v, idx3 v)")
    case True
    then show ?thesis using assms(4) w(2) by (simp add: upd2_def vpage_def)
  next
    case False
    then have "D (i, j) \<noteq> Some d" "(i, j, l) \<noteq> vpage v" using key [of i j] by (auto simp: vpage_def)
    then show ?thesis by (cases "D (i, j)") (simp_all add: upd2_def)
  qed
  have "table_allocator s' = (table_allocator s)\<lparr>tables_taken := of_nat n\<rparr>"
    using s'(3) assms(1) by (simp add: as_frame_def)
  then have "mapped s n s' n (vpage v) p"
    by (intro mappedI [OF assms(1,2) s'(4) _ _ d(2) _ s'(2) tree_set_page [OF assms(2,4)] pages]) simp_all
  then show ?thesis using s'(1) by blast
qed

lemma MapPage_pdp:
  assumes "as_frame s n" "tree (ent s) n P D" "page_addr p" "P (idx4 v) = Some k" "D (idx4 v, idx3 v) = None"
    and "n + 1 \<le> 1536"
  shows "\<exists>s1 s2. create_pd_entry s v p wt 0 = Inr (tbl n, s1) \<and>
    create_pdp_entry s1 v (tbl n) (tbl k) = Inr (tbl k, s2) \<and> mapped s n s2 (Suc n) (vpage v) p"
proof -
  obtain w where w: "PDEntry_Encode (new_pd wt p) = Inr w" "page_of w = Some p"
    using page_of_new [OF assms(3)] by blast
  have n: "n < 1536" "0 < n" using assms(1,6) by (auto simp: as_frame_def)
  obtain w3 where w3: "PML4PDPEntry_Encode (table_entry (tbl n)) = Inr w3"
    "PML4PDPEntry_decode w3 = table_entry (tbl n)" using link_word [OF n(1)] by blast
  have k: "k < 1536" "k < n" using tree_P(3) [OF assms(2,4)] n by auto
  have ag: "agree (ent s) (ent s)" by (simp add: agree_def)
  have al: "pt_zone (table_allocator s) = table_zone" "tables_taken (table_allocator s) = of_nat n"
    using assms(1) by (auto simp: as_frame_def)
  let ?f = "(\<lambda>_. 0)(idx2 v := w)"
  obtain s1 where s1: "create_pd_entry s v p wt 0 = Inr (tbl n, s1)" "agree (ent s1) ((ent s)(n := ?f))"
    "table_allocator s1 = (table_allocator s)\<lparr>tables_taken := of_nat (Suc n)\<rparr>" "same_but_tables s s1"
    using create_pd_entry_new [OF al n(1) ag w(1)] by blast
  obtain s2 where s2: "create_pdp_entry s1 v (tbl n) (tbl k) = Inr (tbl k, s2)"
    "agree (ent s2) (upd2 ((ent s)(n := ?f)) k (idx3 v) w3)" "table_allocator s2 = table_allocator s1"
    "same_but_tables s1 s2"
    using create_pdp_entry_old [OF k(1) n(1) s1(2) w3(1)] by blast
  note tr = tree_add_pd [OF assms(2,4,5) idx_less(2) w3(2) fresh_new [OF assms(2) n(2)], of "Suc n" ?f]
  have Dk: "D (i, j) = Some d \<Longrightarrow> d \<noteq> k \<and> d < n" for i j d
    using tree_disj [OF assms(2), of i j d "idx4 v"] assms(4) tree_D(4) [OF assms(2), of i j d] by auto
  let ?e = "upd2 ((ent s)(n := ?f)) k (idx3 v) w3"
  have pages: "(case (D((idx4 v, idx3 v) \<mapsto> n)) (i, j) of None \<Rightarrow> None | Some d \<Rightarrow> page_of (?e d l)) =
    (if (i, j, l) = vpage v then Some p else case D (i, j) of None \<Rightarrow> None | Some d \<Rightarrow> page_of (ent s d l))" for i j l
  proof (cases "(i, j) = (idx4 v, idx3 v)")
    case True
    then show ?thesis using assms(5) w(2) k(2) by (simp add: upd2_def vpage_def)
  next
    case False
    then show ?thesis using Dk [of i j] by (auto simp: upd2_def vpage_def split: option.split)
  qed
  have "mapped s n s2 (Suc n) (vpage v) p"
    by (rule mappedI [OF assms(1,2) same_trans [OF s1(4) s2(4)] _ _ _ _ s2(2) tr pages])
      (use assms(6) s1(3) s2(3) in simp_all)
  then show ?thesis using s1(1) s2(1) by blast
qed

lemma MapPage_pml4:
  assumes "as_frame s n" "tree (ent s) n P D" "page_addr p" "P (idx4 v) = None" "n + 2 \<le> 1536"
  shows "\<exists>s1 s2 s3. create_pd_entry s v p wt 0 = Inr (tbl n, s1) \<and>
    create_pdp_entry s1 v (tbl n) 0 = Inr (tbl (Suc n), s2) \<and>
    create_pml4_entry s2 v (tbl (Suc n)) = Inr s3 \<and> mapped s n s3 (n + 2) (vpage v) p"
proof -
  obtain w where w: "PDEntry_Encode (new_pd wt p) = Inr w" "page_of w = Some p"
    using page_of_new [OF assms(3)] by blast
  have n: "n < 1536" "Suc n < 1536" "0 < n" using assms(1,5) by (auto simp: as_frame_def)
  obtain w3 where w3: "PML4PDPEntry_Encode (table_entry (tbl n)) = Inr w3"
    "PML4PDPEntry_decode w3 = table_entry (tbl n)" using link_word [OF n(1)] by blast
  obtain w4 where w4: "PML4PDPEntry_Encode (table_entry (tbl (Suc n))) = Inr w4"
    "PML4PDPEntry_decode w4 = table_entry (tbl (Suc n))" using link_word [OF n(2)] by blast
  have ag: "agree (ent s) (ent s)" by (simp add: agree_def)
  have al: "pt_zone (table_allocator s) = table_zone" "tables_taken (table_allocator s) = of_nat n"
    using assms(1) by (auto simp: as_frame_def)
  let ?f = "(\<lambda>_. 0)(idx2 v := w)" and ?g = "(\<lambda>_. 0)(idx3 v := w3)"
  obtain s1 where s1: "create_pd_entry s v p wt 0 = Inr (tbl n, s1)" "agree (ent s1) ((ent s)(n := ?f))"
    "table_allocator s1 = (table_allocator s)\<lparr>tables_taken := of_nat (Suc n)\<rparr>" "same_but_tables s s1"
    using create_pd_entry_new [OF al n(1) ag w(1)] by blast
  note al1 = frame_alloc [OF assms(1) s1(4,3)]
  obtain s2 where s2: "create_pdp_entry s1 v (tbl n) 0 = Inr (tbl (Suc n), s2)"
    "agree (ent s2) ((ent s)(n := ?f, Suc n := ?g))"
    "table_allocator s2 = (table_allocator s1)\<lparr>tables_taken := of_nat (Suc (Suc n))\<rparr>" "same_but_tables s1 s2"
    using create_pdp_entry_new [OF al1(1,2) n(2,1) s1(2) w3(1)] by blast
  have c: "cr3_PageDirectory (cr3 s2) = tbl 0" using al1(3) s2(4) by (simp add: same_but_tables_def)
  obtain s3 where s3: "create_pml4_entry s2 v (tbl (Suc n)) = Inr s3"
    "agree (ent s3) (upd2 ((ent s)(n := ?f, Suc n := ?g)) 0 (idx4 v) w4)"
    "table_allocator s3 = table_allocator s2" "same_but_tables s2 s3"
    using create_pml4_entry_ok [OF c n(2) s2(2) w4(1)] by blast
  have Di: "D (idx4 v, y) = None" for y
    using treeD(4) [OF assms(2), of "idx4 v" y] assms(4) by (cases "D (idx4 v, y)") auto
  let ?e1 = "upd2 ((ent s)(Suc n := (\<lambda>_. 0))) 0 (idx4 v) w4" and ?P = "P(idx4 v \<mapsto> Suc n)"
  have t1: "tree ?e1 (n + 2) ?P D"
    by (rule tree_add_pdp [OF assms(2,4) idx_less(1) fresh_new [OF assms(2)] w4(2)]) simp_all
  have fr: "fresh n (n + 2) (n + 2) ?P D"
    using fresh_new [OF assms(2) n(3), of "n + 2"] assms(4) by (simp add: fresh_def)
  have t2: "tree (upd2 (?e1(n := ?f)) (Suc n) (idx3 v) w3) (n + 2) ?P (D((idx4 v, idx3 v) \<mapsto> n))"
    by (rule tree_add_pd [OF t1 _ Di idx_less(2) w3(2) fr]) simp
  have "upd2 (?e1(n := ?f)) (Suc n) (idx3 v) w3 = upd2 ((ent s)(n := ?f, Suc n := ?g)) 0 (idx4 v) w4"
    using n(3) by (auto simp: upd2_def fun_eq_iff)
  note tr = t2 [unfolded this]
  let ?e = "upd2 ((ent s)(n := ?f, Suc n := ?g)) 0 (idx4 v) w4"
  have Dk: "D (i, j) = Some d \<Longrightarrow> 0 < d \<and> d < n" for i j d using tree_D(3,4) [OF assms(2)] by blast
  have pages: "(case (D((idx4 v, idx3 v) \<mapsto> n)) (i, j) of None \<Rightarrow> None | Some d \<Rightarrow> page_of (?e d l)) =
    (if (i, j, l) = vpage v then Some p else case D (i, j) of None \<Rightarrow> None | Some d \<Rightarrow> page_of (ent s d l))" for i j l
  proof (cases "(i, j) = (idx4 v, idx3 v)")
    case True
    then show ?thesis using Di w(2) n(3) by (simp add: upd2_def vpage_def)
  next
    case False
    then show ?thesis using Dk [of i j] by (auto simp: upd2_def vpage_def split: option.split)
  qed
  have "mapped s n s3 (n + 2) (vpage v) p"
    by (rule mappedI [OF assms(1,2) same_trans [OF same_trans [OF s1(4) s2(4)] s3(4)] _ _ _ _ s3(2) tr pages])
      (use assms(5) s1(3) s2(3) s3(3) in simp_all)
  then show ?thesis using s1(1) s2(1) s3(1) by blast
qed

lemma page_addr_PageAligned:
  assumes "p < 2 ^ 52"
  shows "page_addr (PageAligned p)"
proof -
  have "PageAligned p AND mask 21 = 0"
    by (rule bit_word_eqI)
      (auto simp: PageAligned_def entry_masks bit_and_iff bit_not_iff bit_mask_iff simp del: bit_numeral_iff)
  moreover have "PageAligned p \<le> p" unfolding PageAligned_def by (rule word_and_le2)
  ultimately show ?thesis using assms by (simp add: page_addr_def entry_masks)
qed

lemma invalidated_frame:
  "as_inv (s\<lparr>invalidated := x\<rparr>) n = as_inv s n" "as_map (s\<lparr>invalidated := x\<rparr>) = as_map s"
  by (simp_all add: as_inv_def as_frame_def ent_def [abs_def] as_map_def fun_eq_iff Let_def)

lemma MapPage_spec:
  assumes "as_inv s n" "p < 2 ^ 52" "n + 2 \<le> 1536"
  shows "\<exists>s' m. MapPage s v p inval wt = Inr s' \<and> as_inv s' m \<and> n \<le> m \<and> m \<le> n + 2 \<and>
    cr3 s' = cr3 s \<and> cpu_cr3 s' = cpu_cr3 s \<and>
    as_map s' = (if as_map s (vpage v) = None then (as_map s)(vpage v \<mapsto> PageAligned p) else as_map s)"
proof -
  obtain P D where t: "tree (ent s) n P D" and f: "as_frame s n" using assms(1) by (auto simp: as_inv_def)
  note walk = MapPage_walk_spec [OF f t, of v "PageAligned p"]
  have pa: "page_addr (PageAligned p)" using page_addr_PageAligned [OF assms(2)] .
  have ag: "agree (ent s) (ent s)" by (simp add: agree_def)
  note m = as_map_agree [OF f ag t, of "idx4 v" "idx3 v" "idx2 v"]
  have fin: ?thesis if "MapPage s v p inval wt = Inr (if inval then s'\<lparr>invalidated := v # invalidated s'\<rparr> else s')"
    "mapped s n s' k (vpage v) (PageAligned p)" "as_map s (vpage v) = None" for s' k
    using that by (auto simp: mapped_def same_but_tables_def invalidated_frame)
  show ?thesis
  proof (cases "P (idx4 v)")
    case None
    then have "D (idx4 v, idx3 v) = None" using t by (cases "D (idx4 v, idx3 v)") (auto dest: tree_D(1))
    then have no: "as_map s (vpage v) = None" using m by (simp add: vpage_def)
    obtain s1 s2 s3 where st: "create_pd_entry s v (PageAligned p) wt 0 = Inr (tbl n, s1)"
      "create_pdp_entry s1 v (tbl n) 0 = Inr (tbl (Suc n), s2)"
      "create_pml4_entry s2 v (tbl (Suc n)) = Inr s3" "mapped s n s3 (n + 2) (vpage v) (PageAligned p)"
      using MapPage_pml4 [OF f t pa None assms(3)] by blast
    show ?thesis by (rule fin [OF _ st(4) no]) (simp add: MapPage_def walk None st)
  next
    case (Some k)
    show ?thesis
    proof (cases "D (idx4 v, idx3 v)")
      case None
      then have no: "as_map s (vpage v) = None" using m by (simp add: vpage_def)
      have n1: "n + 1 \<le> 1536" using assms(3) by simp
      obtain s1 s2 where st: "create_pd_entry s v (PageAligned p) wt 0 = Inr (tbl n, s1)"
        "create_pdp_entry s1 v (tbl n) (tbl k) = Inr (tbl k, s2)" "mapped s n s2 (Suc n) (vpage v) (PageAligned p)"
        using MapPage_pdp [OF f t pa Some None n1] by blast
      show ?thesis by (rule fin [OF _ st(3) no]) (simp add: MapPage_def walk Some None st)
    next
      case (Some d)
      note PD = \<open>P (idx4 v) = Some k\<close> Some
      show ?thesis
      proof (cases "page_of (ent s d (idx2 v))")
        case None
        then have no: "as_map s (vpage v) = None" using m PD by (simp add: vpage_def)
        obtain s1 where st: "create_pd_entry s v (PageAligned p) wt (tbl d) = Inr (tbl d, s1)"
          "mapped s n s1 n (vpage v) (PageAligned p)" using MapPage_pd [OF f t pa PD(2) None] by blast
        show ?thesis by (rule fin [OF _ st(2) no]) (simp add: MapPage_def walk PD None st)
      next
        case (Some a)
        then have yes: "as_map s (vpage v) \<noteq> None" using m PD by (simp add: vpage_def)
        have "\<exists>x. MapPage s v p inval wt = Inr (s\<lparr>invalidated := x\<rparr>)"
          by (cases "PageAligned p = a"; cases inval)
            (auto simp: MapPage_def walk PD Some Let_def intro: exI [of _ "invalidated s"])
        then show ?thesis using assms(1) yes by (auto simp: invalidated_frame intro!: exI [of _ n])
      qed
    qed
  qed
qed

section \<open>The interface of an address space\<close>

text \<open>
  What a client of the address space relies on: \<open>vmap\<close> is the map it implements, \<open>taken s\<close> the
  number of tables in use, and one mapping takes at most two tables.
\<close>

primrec map_all :: "('s \<Rightarrow> u64 \<Rightarrow> u64 \<Rightarrow> 's res) \<Rightarrow> 's \<Rightarrow> (u64 \<times> u64) list \<Rightarrow> 's res" where
  "map_all map1 s [] = Inr s"
| "map_all map1 s (vp # vps) = res_bind (map1 s (fst vp) (snd vp)) (\<lambda>s'. map_all map1 s' vps)"

lemma map_all_append: "map_all f s (xs @ ys) = res_bind (map_all f s xs) (\<lambda>s'. map_all f s' ys)"
  by (induction xs arbitrary: s) (simp_all add: res_bind_assoc)

locale address_space =
  fixes inv :: "'s \<Rightarrow> nat \<Rightarrow> bool" and vmap :: "'s \<Rightarrow> vpage \<rightharpoonup> u64"
    and map1 :: "'s \<Rightarrow> u64 \<Rightarrow> u64 \<Rightarrow> 's res" and root :: "'s \<Rightarrow> CR3Entry" and capacity :: nat
  assumes map1_law: "inv s n \<Longrightarrow> p < 2 ^ 52 \<Longrightarrow> n + 2 \<le> capacity \<Longrightarrow>
      \<exists>s' m. map1 s v p = Inr s' \<and> inv s' m \<and> m \<le> n + 2 \<and> root s' = root s \<and>
        vmap s' = (if vmap s (vpage v) = None then (vmap s)(vpage v \<mapsto> PageAligned p) else vmap s)"
begin

lemma map_all_ok:
  assumes "inv s n" "\<forall>vp \<in> set vps. snd vp < 2 ^ 52" "n + 2 * length vps \<le> capacity"
  shows "\<exists>s' m. map_all map1 s vps = Inr s' \<and> inv s' m \<and> m \<le> n + 2 * length vps \<and> root s' = root s \<and>
    vmap s' = map_of (map (\<lambda>(v, p). (vpage v, PageAligned p)) vps) ++ vmap s"
  using assms
proof (induction vps arbitrary: s n)
  case (Cons vp vps)
  obtain v p where vp: "vp = (v, p)" by force
  obtain s1 m1 where s1: "map1 s v p = Inr s1" "inv s1 m1" "m1 \<le> n + 2" "root s1 = root s"
    "vmap s1 = (if vmap s (vpage v) = None then (vmap s)(vpage v \<mapsto> PageAligned p) else vmap s)"
    using map1_law [OF Cons.prems(1), of p v] Cons.prems(2,3) vp by auto
  obtain s2 m2 where s2: "map_all map1 s1 vps = Inr s2" "inv s2 m2" "m2 \<le> m1 + 2 * length vps" "root s2 = root s1"
    "vmap s2 = map_of (map (\<lambda>(v, p). (vpage v, PageAligned p)) vps) ++ vmap s1"
    using Cons.IH [OF s1(2)] Cons.prems(2,3) s1(3) by force
  have "vmap s2 = map_of (map (\<lambda>(v, p). (vpage v, PageAligned p)) (vp # vps)) ++ vmap s"
    unfolding s2(5) s1(5) vp by (auto simp: fun_eq_iff map_add_def split: option.splits)
  moreover have "m2 \<le> n + 2 * length (vp # vps)" using s1(3) s2(3) by simp
  moreover have "map_all map1 s (vp # vps) = Inr s2" using s1(1) s2(1) vp by simp
  ultimately show ?case using s1(4) s2(2,4) by metis
qed auto

end

interpretation x64: address_space as_inv as_map "\<lambda>s v p. MapPage s v p inval wt" cr3 1536 for inval wt
  by unfold_locales (use MapPage_spec in blast)

section \<open>Boot: the identity map\<close>

lemma map_identity_all:
  "map_identity s pagesize n =
   map_all (\<lambda>s v p. MapPage s v p False True) s (map (\<lambda>k. (pagesize * of_nat k, pagesize * of_nat k)) [0..<n])"
proof (induction n)
  case (Suc n)
  then show ?case by (simp add: map_all_append)
qed simp

lemma idx_low:
  assumes "unat v < 2 ^ 30"
  shows "vpage v = (0, 0, unat v div 2 ^ 21)"
  using assms by (simp add: vpage_def idx4_def idx3_def idx2_def less_mult_imp_div_less)

lemma unat_identity: "k < 16 \<Longrightarrow> unat (0x200000 * of_nat k :: u64) = 0x200000 * k"
  by (simp add: unat_word_ariths unat_of_nat_small)

lemma PageAligned_identity: "k < 16 \<Longrightarrow> PageAligned (0x200000 * of_nat k) = 0x200000 * of_nat k"
proof -
  assume k: "k < 16"
  have "0x200000 * of_nat k = (push_bit 21 (of_nat k) :: u64)" by (simp add: push_bit_eq_mult mult.commute)
  then show ?thesis
    unfolding PageAligned_def entry_masks
    by (auto intro!: bit_word_eqI simp: bit_and_iff bit_not_iff bit_mask_iff bit_push_bit_iff
        simp del: bit_numeral_iff push_bit_of_nat)
qed

lemma boot_tree:
  assumes "\<And>i. i < 512 \<Longrightarrow> en 0 i = 0" "0 < n"
  shows "tree en n (\<lambda>_. None) (\<lambda>_. None)"
  by (rule treeI) (use assms in \<open>auto simp: link_def\<close>)

lemma identity_map_of:
  "map_of (map (\<lambda>(v, p). (vpage v, PageAligned p)) (map (\<lambda>k. (0x200000 * of_nat k, 0x200000 * of_nat k)) [0..<16]))
     (0, 0, l) = (if l < 16 then Some (0x200000 * of_nat l) else None)"
proof -
  have e: "map (\<lambda>(v, p). (vpage v, PageAligned p)) (map (\<lambda>k. (0x200000 * of_nat k, 0x200000 * of_nat k)) [0..<16])
    = map (\<lambda>k. ((0, 0, k), 0x200000 * of_nat k)) [0..<16]"
  proof (simp only: map_map, rule map_cong [OF refl])
    fix k assume "k \<in> set [0..<16::nat]"
    then have k: "k < 16" by simp
    have "vpage (0x200000 * of_nat k) = (0, 0, k)"
      using idx_low [of "0x200000 * of_nat k"] unat_identity [OF k] k by simp
    then show "((\<lambda>(v, p). (vpage v, PageAligned p)) \<circ> (\<lambda>k. (0x200000 * of_nat k, 0x200000 * of_nat k))) k
      = ((0, 0, k), 0x200000 * of_nat k)"
      using PageAligned_identity [OF k] by simp
  qed
  have "map_of (map (\<lambda>k. ((0 :: nat, 0 :: nat, k), f k)) ks) (0, 0, l) = (if l \<in> set ks then Some (f l) else None)"
    for f :: "nat \<Rightarrow> u64" and ks by (induction ks) auto
  then show ?thesis unfolding e by simp
qed

lemma Configure_ok:
  assumes "pt_zone ta = table_zone" "tables_taken ta = 0"
  shows "\<exists>s0 s n. mk_AddressSpaceX64 ta tm = Inr s0 \<and> Configure s0 = Inr s \<and> as_inv s n \<and> n \<le> 33 \<and>
    cr3_PageDirectory (cr3 s) = tbl 0 \<and>
    as_map s = map_of (map (\<lambda>(v, p). (vpage v, PageAligned p)) (map (\<lambda>k. (0x200000 * of_nat k, 0x200000 * of_nat k)) [0..<16]))"
proof -
  define s0 where "s0 = \<lparr>table_allocator = ta\<lparr>tables_taken := 1\<rparr>, cr3 = CR3Entry_default,
    pml4_table = tbl 0, tmem = zero_table tm (tbl 0), invalidated = [], cpu_cr3 = 0\<rparr>"
  have mk: "mk_AddressSpaceX64 ta tm = Inr s0"
    using AllocTable_ok [of ta 0] assms by (simp add: mk_AddressSpaceX64_def s0_def)
  define s1 where "s1 = s0\<lparr>cr3 := (cr3 s0)\<lparr>cr3_IsWriteThrough := False, cr3_PageDirectory := tbl 0\<rparr>\<rparr>"
  let ?vps = "map (\<lambda>k. (0x200000 * of_nat k, 0x200000 * of_nat k)) [0..<16] :: (u64 \<times> u64) list"
  have conf: "Configure s0 = map_all (\<lambda>s v p. MapPage s v p False True) s1 ?vps"
    by (simp add: Configure_def identity_mapped_region_size_def map_identity_all s1_def s0_def del: upt_rec_numeral)
  have z: "ent s1 0 i = 0" if "i < 512" for i
    using zero_table_cell [of 0 i 0 tm] that by (simp add: ent_def s1_def s0_def)
  have f: "as_frame s1 1" using assms by (simp add: as_frame_def s1_def s0_def)
  have inv: "as_inv s1 1" using f boot_tree [of "ent s1" 1] z by (auto simp: as_inv_def)
  have "as_map s1 (i, j, l) = None" for i j l
  proof -
    have "agree (ent s1) (ent s1)" by (simp add: agree_def)
    from as_map_agree [OF f this boot_tree, of i j l] show ?thesis using z by simp
  qed
  then have emp: "as_map s1 = Map.empty" by (auto simp: fun_eq_iff)
  have small: "\<forall>vp \<in> set ?vps. snd vp < 2 ^ 52"
    by (auto simp: word_less_nat_alt unat_identity simp del: upt_rec_numeral)
  obtain s m where s: "map_all (\<lambda>s v p. MapPage s v p False True) s1 ?vps = Inr s" "as_inv s m"
    "m \<le> 1 + 2 * length ?vps" "cr3 s = cr3 s1"
    "as_map s = map_of (map (\<lambda>(v, p). (vpage v, PageAligned p)) ?vps) ++ as_map s1"
    using x64.map_all_ok [where inval = False and wt = True, OF inv small] by (auto simp del: upt_rec_numeral)
  have m: "m \<le> 33" using s(3) by (simp del: upt_rec_numeral)
  show ?thesis
    using mk conf s(1,2,4,5) m emp by (auto simp: s1_def simp del: upt_rec_numeral)
qed

section \<open>Properties\<close>

definition boot_tables :: PageTableAllocator where
  "boot_tables = \<lparr>pt_zone = table_zone, tables_taken = 0\<rparr>"

lemma page_split: "unat v = unat v div 2 ^ 21 * 2 ^ 21 + unat (ucast (page_offset v) :: u64)"
proof -
  have m: "(0x1FFFFF :: u64) = mask 21" by (simp add: mask_eq_exp_minus_1)
  define x where "x = v AND 0x1FFFFF"
  have x: "unat x = unat v mod 2 ^ 21" unfolding x_def m unat_mask_and ..
  have "unat (ucast x :: u32) = unat x"
    unfolding unsigned_ucast_eq unsigned_take_bit_eq by (rule take_bit_nat_eq_self) (simp add: x)
  then have "unat (ucast (page_offset v) :: u64) = unat x"
    unfolding page_offset_def x_def [symmetric] by (simp add: unsigned_ucast_eq unsigned_take_bit_eq)
  then show ?thesis using x by simp
qed

text \<open>
  C3. The page tables implement a map. On every address space whose tables form a tree,
  \<open>MapPage\<close> succeeds while two tables are left, keeps the tree, and changes the translation of
  exactly one 2 MiB page: \<open>VirtualToPhysical\<close> of any address afterwards is what it was before,
  except that an address of a page that had no mapping now translates into the given
  frame; a page that was mapped keeps its old frame.
\<close>

theorem MapPage_refines_map:
  assumes "as_inv s n" "p < 2 ^ 52" "n + 2 \<le> 1536"
  shows "\<exists>s' m. MapPage s v p inval wt = Inr s' \<and> as_inv s' m \<and> m \<le> n + 2 \<and>
    (\<forall>u. VirtualToPhysical s' u = (if vpage u = vpage v \<and> as_map s (vpage v) = None
       then Inr (PageAligned p + ucast (page_offset u)) else VirtualToPhysical s u))"
proof -
  obtain s' m where s': "MapPage s v p inval wt = Inr s'" "as_inv s' m" "m \<le> n + 2"
    "as_map s' = (if as_map s (vpage v) = None then (as_map s)(vpage v \<mapsto> PageAligned p) else as_map s)"
    using MapPage_spec [OF assms] by blast
  have "VirtualToPhysical s' u = (if vpage u = vpage v \<and> as_map s (vpage v) = None
       then Inr (PageAligned p + ucast (page_offset u)) else VirtualToPhysical s u)" for u
    using VirtualToPhysical_spec [OF s'(2), of u] VirtualToPhysical_spec [OF assms(1), of u] s'(4) by auto
  then show ?thesis using s' by blast
qed

theorem MapPage_refines_map_witness:
  "\<exists>s0 s s'. mk_AddressSpaceX64 boot_tables (\<lambda>_. 7) = Inr s0 \<and> Configure s0 = Inr s \<and>
     MapPage s 0x4000000012 0x2400000 True False = Inr s' \<and>
     VirtualToPhysical s' 0x4000000345 = Inr 0x2400345"
proof -
  obtain s0 s n where s: "mk_AddressSpaceX64 boot_tables (\<lambda>_. 7) = Inr s0" "Configure s0 = Inr s" "as_inv s n" "n \<le> 33"
    "as_map s = map_of (map (\<lambda>(v, p). (vpage v, PageAligned p)) (map (\<lambda>k. (0x200000 * of_nat k, 0x200000 * of_nat k)) [0..<16]))"
    using Configure_ok [of boot_tables "\<lambda>_. 7"] by (auto simp: boot_tables_def simp del: upt_rec_numeral)
  have key: "vpage 0x4000000012 = (0, 256, 0)" "vpage 0x4000000345 = (0, 256, 0)"
    by (simp_all add: vpage_def idx4_def idx3_def idx2_def)
  have none: "as_map s (0, 256, 0) = None"
    unfolding s(5) map_of_eq_None_iff
    by (auto simp: vpage_def idx3_def unat_identity simp del: upt_rec_numeral)
  obtain s' where "MapPage s 0x4000000012 0x2400000 True False = Inr s'"
    "VirtualToPhysical s' 0x4000000345 = Inr (PageAligned 0x2400000 + ucast (page_offset 0x4000000345))"
    using MapPage_refines_map [OF s(3), of "0x2400000" "0x4000000012" True False] s(4) key none by auto
  moreover have "PageAligned 0x2400000 + ucast (page_offset 0x4000000345) = 0x2400345"
    by (simp add: PageAligned_def page_offset_def)
  ultimately show ?thesis using s(1,2) by auto
qed

text \<open>
  C25. After \<open>Configure\<close>, whatever memory held before, the first 32 MiB are mapped to themselves and
  nothing else below 2^48 is mapped.
\<close>

theorem Configure_identity:
  assumes "pt_zone ta = table_zone" "tables_taken ta = 0"
  shows "\<exists>s0 s n. mk_AddressSpaceX64 ta tm = Inr s0 \<and> Configure s0 = Inr s \<and> as_inv s n \<and> n \<le> 33 \<and>
    (\<forall>v. unat v < 2 ^ 48 \<longrightarrow> VirtualToPhysical s v = Inr (if unat v < 2 ^ 25 then v else 0))"
proof -
  obtain s0 s n where s: "mk_AddressSpaceX64 ta tm = Inr s0" "Configure s0 = Inr s" "as_inv s n" "n \<le> 33"
    "as_map s = map_of (map (\<lambda>(v, p). (vpage v, PageAligned p)) (map (\<lambda>k. (0x200000 * of_nat k, 0x200000 * of_nat k)) [0..<16]))"
    using Configure_ok [OF assms, of tm] by blast
  have "VirtualToPhysical s v = Inr (if unat v < 2 ^ 25 then v else 0)" if lim: "unat v < 2 ^ 48" for v
  proof (cases "unat v < 2 ^ 25")
    case True
    let ?k = "unat v div 2 ^ 21"
    have k: "?k < 16" using True by (simp add: less_mult_imp_div_less)
    have "as_map s (vpage v) = Some (0x200000 * of_nat ?k)"
      using idx_low [of v] True k identity_map_of [of ?k] by (simp add: s(5) del: upt_rec_numeral)
    moreover have "0x200000 * of_nat ?k + ucast (page_offset v) = v"
    proof -
      have "unat (0x200000 * of_nat ?k :: u64) + unat (ucast (page_offset v) :: u64) = unat v"
        using page_split [of v] unat_identity [OF k] by simp
      then show ?thesis
        using unat_add_no_wrap [of "0x200000 * of_nat ?k :: u64" "ucast (page_offset v)"] True
        by (simp add: word_unat_eq_iff)
    qed
    ultimately show ?thesis using VirtualToPhysical_spec [OF s(3), of v] True by simp
  next
    case False
    have "vpage v \<noteq> (0, 0, k)" if "k < 16" for k
    proof
      assume "vpage v = (0, 0, k)"
      then have "unat v div 2 ^ 39 mod 512 = 0" "unat v div 2 ^ 30 mod 512 = 0" "unat v div 2 ^ 21 mod 512 = k"
        by (auto simp: vpage_def idx4_def idx3_def idx2_def)
      then show False using False lim that by simp
    qed
    then have "as_map s (vpage v) = None"
      unfolding s(5) map_of_eq_None_iff using idx_low unat_identity
      by (auto simp del: upt_rec_numeral) blast
    then show ?thesis using VirtualToPhysical_spec [OF s(3), of v] False by simp
  qed
  then show ?thesis using s(1-4) by blast
qed

theorem Configure_identity_witness:
  "\<exists>s0 s. mk_AddressSpaceX64 boot_tables (\<lambda>_. 0xFFFFFFFFFFFFFFFF) = Inr s0 \<and> Configure s0 = Inr s \<and>
     VirtualToPhysical s 0x1A00123 = Inr 0x1A00123 \<and> VirtualToPhysical s 0x2000000 = Inr 0"
  using Configure_identity [of boot_tables "\<lambda>_. 0xFFFFFFFFFFFFFFFF"] by (fastforce simp: boot_tables_def)

text \<open>
  Page table entries survive their 64-bit form: for a 4 KiB-aligned table (2 MiB-aligned page)
  address below 2^52, decoding what \<open>Encode\<close> wrote gives every flag and the address back.
\<close>

theorem entries_roundtrip:
  "(table_addr (PageDirectory e) \<longrightarrow> (\<exists>w. PML4PDPEntry_Encode e = Inr w \<and> PML4PDPEntry_decode w = e)) \<and>
   (page_addr (PageAddress d) \<longrightarrow> (\<exists>w. PDEntry_Encode d = Inr w \<and> PDEntry_decode w = d)) \<and>
   (table_addr (cr3_PageDirectory c) \<longrightarrow> (\<exists>w. CR3Entry_Encode c = Inr w \<and> CR3Entry_decode w = c))"
  using PML4PDPEntry_roundtrip PDEntry_roundtrip CR3Entry_roundtrip by blast

theorem entries_roundtrip_witness:
  "(\<exists>w. PML4PDPEntry_Encode (table_entry 0x1A01000) = Inr w \<and> PML4PDPEntry_decode w = table_entry 0x1A01000) \<and>
   (\<exists>w. PDEntry_Encode (new_pd True 0x2400000) = Inr w \<and> PDEntry_decode w = new_pd True 0x2400000)"
  using entries_roundtrip [of "table_entry 0x1A01000" "new_pd True 0x2400000" CR3Entry_default]
  by (simp add: table_addr_def page_addr_def new_pd_def)

end
