(* ===== verification/MemManager.thy ===== *)
theory MemManager
  imports AddressSpace Multiboot
begin

text \<open>
  \<open>VirtualAllocator\<close>, \<open>MallocAllocator\<close> and \<open>MemManager\<close> of \<^verbatim>\<open>src/src/kernel/mem-manager.h\<close> and
  \<^verbatim>\<open>mem-manager.cc\<close>. The heap allocator itself is dlmalloc, a third-party library: its entry
  points are the record \<open>dl_ops\<close>, an argument of the definitions that call them, over an
  opaque heap state. A store to a virtual address that is not mapped raises a page fault;
  \<open>touch\<close> is such an access, and it calls \<open>PageFault\<close> as the interrupt handler does. The
  allocator locks only order calls of several processors (see the lock model) and do not
  appear here.

  The lemmas show that demand paging gives every virtual page above 4 GiB a physical page
  of its own, that the lower 4 GiB stay identity mapped, and that stacks do not overlap.
\<close>

section \<open>\<open>VirtualAllocator\<close>\<close>

definition kSpacesBase :: u64 where "kSpacesBase = 256 * GiB"
definition kSpaceSize :: u64 where "kSpaceSize = 256 * GiB"
definition kStacks :: u64 where "kStacks = 128 * GiB"

record VirtualStack =
  vs_top :: u64
  vs_len :: u64

record VirtualAllocator =
  stack_alloc_next :: u64

definition mk_VirtualAllocator :: VirtualAllocator where
  "mk_VirtualAllocator = \<lparr>stack_alloc_next = kStacks\<rparr>"

definition GetCpuSpace :: "u32 \<Rightarrow> u64" where
  "GetCpuSpace cpuid = kSpacesBase + kSpaceSize * ucast (cpuid + 1)"

definition GetSharedSpace :: u64 where
  "GetSharedSpace = kSpacesBase + kSpaceSize"

definition GetSpaceSize :: u64 where
  "GetSpaceSize = kSpaceSize"

section \<open>\<open>MallocAllocator\<close>\<close>

record 'h dl_ops =
  create_mspace_with_base :: "u64 \<Rightarrow> u64 \<Rightarrow> bool \<Rightarrow> 'h \<Rightarrow> u64 \<times> 'h"
  mspace_track_large_chunks :: "u64 \<Rightarrow> bool \<Rightarrow> 'h \<Rightarrow> 'h"
  mspace_malloc :: "u64 \<Rightarrow> u64 \<Rightarrow> 'h \<Rightarrow> u64 \<times> 'h"
  mspace_memalign :: "u64 \<Rightarrow> u64 \<Rightarrow> u64 \<Rightarrow> 'h \<Rightarrow> u64 \<times> 'h"
  mspace_calloc :: "u64 \<Rightarrow> u64 \<Rightarrow> u64 \<Rightarrow> 'h \<Rightarrow> u64 \<times> 'h"
  mspace_realloc :: "u64 \<Rightarrow> u64 \<Rightarrow> u64 \<Rightarrow> 'h \<Rightarrow> u64 \<times> 'h"
  mspace_free :: "u64 \<Rightarrow> u64 \<Rightarrow> 'h \<Rightarrow> 'h"

record 'h MallocAllocator =
  default_mspace :: u64
  heap :: 'h

definition ma_Alloc :: "'h dl_ops \<Rightarrow> 'h MallocAllocator \<Rightarrow> u64 \<Rightarrow> u64 \<times> 'h MallocAllocator" where
  "ma_Alloc dl ma nbytes = (let (r, h) = mspace_malloc dl (default_mspace ma) nbytes (heap ma) in (r, ma\<lparr>heap := h\<rparr>))"

definition ma_AllocAligned ::
    "'h dl_ops \<Rightarrow> 'h MallocAllocator \<Rightarrow> u64 \<Rightarrow> u64 \<Rightarrow> u64 \<times> 'h MallocAllocator" where
  "ma_AllocAligned dl ma alignment nbytes =
     (let (r, h) = mspace_memalign dl (default_mspace ma) alignment nbytes (heap ma) in (r, ma\<lparr>heap := h\<rparr>))"

definition ma_Calloc :: "'h dl_ops \<Rightarrow> 'h MallocAllocator \<Rightarrow> u64 \<Rightarrow> u64 \<Rightarrow> u64 \<times> 'h MallocAllocator" where
  "ma_Calloc dl ma elements element_size =
     (let (r, h) = mspace_calloc dl (default_mspace ma) elements element_size (heap ma) in (r, ma\<lparr>heap := h\<rparr>))"

definition ma_Realloc :: "'h dl_ops \<Rightarrow> 'h MallocAllocator \<Rightarrow> u64 \<Rightarrow> u64 \<Rightarrow> u64 \<times> 'h MallocAllocator" where
  "ma_Realloc dl ma ptr new_size =
     (let (r, h) = mspace_realloc dl (default_mspace ma) ptr new_size (heap ma) in (r, ma\<lparr>heap := h\<rparr>))"

definition ma_Free :: "'h dl_ops \<Rightarrow> 'h MallocAllocator \<Rightarrow> u64 \<Rightarrow> 'h MallocAllocator" where
  "ma_Free dl ma ptr = ma\<lparr>heap := mspace_free dl (default_mspace ma) ptr (heap ma)\<rparr>"

definition ma_InitCpu :: "'h MallocAllocator \<Rightarrow> 'h MallocAllocator" where
  "ma_InitCpu ma = ma"

definition ma_InitOnce :: "'h dl_ops \<Rightarrow> u32 \<Rightarrow> 'h MallocAllocator \<Rightarrow> 'h MallocAllocator res" where
  "ma_InitOnce dl cpuid ma =
     res_bind (rt_assert (cpuid = 0) ''0 == cpuid'') (\<lambda>_.
     let s = GetSharedSpace; cap = GetSpaceSize in
     res_bind (rt_assert (s \<noteq> 0) ''s'') (\<lambda>_.
     res_bind (rt_assert (cap \<ge> 1 * GiB) ''cap >= 1 GiB'') (\<lambda>_.
     res_bind (rt_assert (default_mspace ma = 0) ''nullptr == default_mspace_'') (\<lambda>_.
     let (msp, h) = create_mspace_with_base dl s cap False (heap ma);
         h' = mspace_track_large_chunks dl msp True h in
     res_bind (rt_assert (msp \<noteq> 0) ''nullptr != default_mspace_'') (\<lambda>_.
       Inr (ma\<lparr>default_mspace := msp, heap := h'\<rparr>))))))"

section \<open>\<open>MemManager\<close>\<close>

record 'h MemManager =
  pmm :: PhysicalAllocator
  vmm :: VirtualAllocator
  mallocator :: "'h MallocAllocator"
  addr_space :: AddressSpaceX64
  malloc_available :: bool

definition mk_PageTableAllocator :: "PageTableAllocator res" where
  "mk_PageTableAllocator = res_bind page_directory_zone (\<lambda>z. Inr \<lparr>pt_zone = z, tables_taken = 0\<rparr>)"

definition mk_MemManager :: "PhysicalAllocator \<Rightarrow> table_mem \<Rightarrow> 'h \<Rightarrow> 'h MemManager res" where
  "mk_MemManager pa tm h =
     res_bind mk_PageTableAllocator (\<lambda>ta. res_bind (mk_AddressSpaceX64 ta tm) (\<lambda>as.
       Inr \<lparr>pmm = pa, vmm = mk_VirtualAllocator, mallocator = \<lparr>default_mspace = 0, heap = h\<rparr>,
            addr_space = as, malloc_available = False\<rparr>))"

definition InitSubsystems :: "'h dl_ops \<Rightarrow> u32 \<Rightarrow> 'h MemManager \<Rightarrow> 'h MemManager res" where
  "InitSubsystems dl cpuid mm =
     (if cpuid = 0 then
        res_bind (rt_assert (\<not> malloc_available mm) ''!malloc_available_'') (\<lambda>_.
        res_bind (Configure (addr_space mm)) (\<lambda>as1.
        res_bind (Install as1) (\<lambda>as2.
        res_bind (ma_InitOnce dl cpuid (ma_InitCpu (mallocator mm))) (\<lambda>ma.
          Inr (mm\<lparr>addr_space := as2, mallocator := ma, malloc_available := True\<rparr>)))))
      else res_bind (Install (addr_space mm)) (\<lambda>as.
          Inr (mm\<lparr>addr_space := as, mallocator := ma_InitCpu (mallocator mm)\<rparr>)))"

definition PageFault :: "'h MemManager \<Rightarrow> u64 \<Rightarrow> u64 \<Rightarrow> 'h MemManager res" where
  "PageFault mm fa error_code =
     res_bind
       (if fa < 4 * GiB then Inr (fa, True, mm)
        else if fa < 512 * 256 * GiB
        then res_bind (pmm_alloc (pmm mm)) (\<lambda>(a, pa). Inr (a, False, mm\<lparr>pmm := pa\<rparr>))
        else Inl (FatalError ''Invalid Faulting address''))
       (\<lambda>(phys_mem, writethrough, mm1).
     res_bind (rt_assert (phys_mem \<noteq> 0) ''phys_mem'') (\<lambda>_.
     res_bind (MapPage (addr_space mm1) fa phys_mem True writethrough) (\<lambda>as.
       Inr (mm1\<lparr>addr_space := as\<rparr>))))"

definition AllocPage32 :: "'h MemManager \<Rightarrow> (u64 \<times> 'h MemManager) res" where
  "AllocPage32 mm = res_bind (pmm_alloc32 (pmm mm)) (\<lambda>(a, pa). Inr (a, mm\<lparr>pmm := pa\<rparr>))"

definition VirtualToPhysicalAddress :: "'h MemManager \<Rightarrow> u64 \<Rightarrow> u64 res" where
  "VirtualToPhysicalAddress mm v = VirtualToPhysical (addr_space mm) v"

text \<open>A store by kernel code: the processor faults when no present entry maps the page.\<close>

definition touch :: "'h MemManager \<Rightarrow> u64 \<Rightarrow> 'h MemManager res" where
  "touch mm v = (if as_map (addr_space mm) (vpage v) = None then PageFault mm v 2 else Inr mm)"

definition AllocStack :: "'h MemManager \<Rightarrow> (VirtualStack \<times> 'h MemManager) res" where
  "AllocStack mm =
     (let top = stack_alloc_next (vmm mm); page_size = kPageSizeBytes;
          mm1 = mm\<lparr>vmm := (vmm mm)\<lparr>stack_alloc_next := top + 2 * page_size\<rparr>\<rparr> in
      res_bind (touch mm1 top) (\<lambda>mm2. Inr (\<lparr>vs_top = top, vs_len = page_size\<rparr>, mm2)))"

text \<open>The C entry points; \<open>None\<close> is \<open>GLOBAL_mem_manager()\<close> before it is set.\<close>

definition with_malloc ::
    "'h MemManager option \<Rightarrow> ('h MallocAllocator \<Rightarrow> 'r \<times> 'h MallocAllocator) \<Rightarrow> ('r \<times> 'h MemManager) res" where
  "with_malloc g f = (case g of None \<Rightarrow> Inl (AssertFailed ''nullptr != GLOBAL_mem_manager()'')
     | Some mm \<Rightarrow> res_bind (rt_assert (malloc_available mm) ''CanMalloc()'') (\<lambda>_.
         let (r, ma) = f (mallocator mm) in Inr (r, mm\<lparr>mallocator := ma\<rparr>)))"

definition c_malloc :: "'h dl_ops \<Rightarrow> 'h MemManager option \<Rightarrow> u64 \<Rightarrow> (u64 \<times> 'h MemManager) res" where
  "c_malloc dl g nbytes = with_malloc g (\<lambda>ma. ma_Alloc dl ma nbytes)"

definition c_memalign :: "'h dl_ops \<Rightarrow> 'h MemManager option \<Rightarrow> u64 \<Rightarrow> u64 \<Rightarrow> (u64 \<times> 'h MemManager) res" where
  "c_memalign dl g alignment nbytes = with_malloc g (\<lambda>ma. ma_AllocAligned dl ma alignment nbytes)"

definition c_calloc :: "'h dl_ops \<Rightarrow> 'h MemManager option \<Rightarrow> u64 \<Rightarrow> u64 \<Rightarrow> (u64 \<times> 'h MemManager) res" where
  "c_calloc dl g elements element_size = with_malloc g (\<lambda>ma. ma_Calloc dl ma elements element_size)"

definition c_realloc :: "'h dl_ops \<Rightarrow> 'h MemManager option \<Rightarrow> u64 \<Rightarrow> u64 \<Rightarrow> (u64 \<times> 'h MemManager) res" where
  "c_realloc dl g ptr nbytes = with_malloc g (\<lambda>ma. ma_Realloc dl ma ptr nbytes)"

definition c_free :: "'h dl_ops \<Rightarrow> 'h MemManager option \<Rightarrow> u64 \<Rightarrow> (unit \<times> 'h MemManager) res" where
  "c_free dl g ptr = with_malloc g (\<lambda>ma. ((), ma_Free dl ma ptr))"

section \<open>Demand paging\<close>

text \<open>
  A virtual page is low when it lies in the first 4 GiB. \<open>mm_inv\<close>: low pages are mapped to
  themselves; a high page is mapped to a page the physical allocator has handed out, and to no
  other high page's.
\<close>

definition low_key :: "vpage \<Rightarrow> bool" where
  "low_key = (\<lambda>(i, j, l). i = 0 \<and> j < 4)"

definition identity_frame :: "vpage \<Rightarrow> u64" where
  "identity_frame = (\<lambda>(i, j, l). of_nat (j * 2 ^ 30 + l * 2 ^ 21))"

definition frames_ok :: "PhysicalAllocator \<Rightarrow> (vpage \<rightharpoonup> u64) \<Rightarrow> bool" where
  "frames_ok pa m \<longleftrightarrow>
     (\<forall>k a. m k = Some a \<longrightarrow> (if low_key k then a = identity_frame k else pa_busy pa a)) \<and>
     (\<forall>k k' a. m k = Some a \<and> m k' = Some a \<and> \<not> low_key k \<and> \<not> low_key k' \<longrightarrow> k = k')"

lemma frames_okD:
  assumes "frames_ok pa m" "m k = Some a"
  shows "low_key k \<Longrightarrow> a = identity_frame k" "\<not> low_key k \<Longrightarrow> pa_busy pa a"
    "\<not> low_key k \<Longrightarrow> m k' = Some a \<Longrightarrow> \<not> low_key k' \<Longrightarrow> k = k'"
  using assms unfolding frames_ok_def by metis+

lemma frames_okI:
  assumes "\<And>k a. m k = Some a \<Longrightarrow> low_key k \<Longrightarrow> a = identity_frame k"
    and "\<And>k a. m k = Some a \<Longrightarrow> \<not> low_key k \<Longrightarrow> pa_busy pa a"
    and "\<And>k k' a. m k = Some a \<Longrightarrow> m k' = Some a \<Longrightarrow> \<not> low_key k \<Longrightarrow> \<not> low_key k' \<Longrightarrow> k = k'"
  shows "frames_ok pa m"
  using assms unfolding frames_ok_def by metis

definition mm_inv :: "'h MemManager \<Rightarrow> nat \<Rightarrow> bool" where
  "mm_inv mm n \<longleftrightarrow> pa_inv (pmm mm) \<and> as_inv (addr_space mm) n \<and>
     frames_ok (pmm mm) (as_map (addr_space mm))"

lemma low_key_vpage:
  assumes "unat v < 2 ^ 47"
  shows "low_key (vpage v) \<longleftrightarrow> unat v < 2 ^ 32"
proof -
  have "unat v div 2 ^ 39 mod 512 = unat v div 2 ^ 39" using assms by (simp add: less_mult_imp_div_less)
  then show ?thesis
    using assms by (auto simp: low_key_def vpage_def idx4_def idx3_def)
qed

lemma busy_page_shape:
  assumes "pa_busy pa a"
  shows "PageAligned a = a" "a < 2 ^ 52" "a \<noteq> 0"
proof -
  obtain p where p: "a = p * 0x200000" "16 \<le> p" "p < 0x200000" using assms by (auto simp: pa_busy_def)
  have u: "unat a = unat p * 0x200000" "unat p < 0x200000" "16 \<le> unat p"
    using p by (simp_all add: unat_word_ariths word_less_nat_alt word_le_nat_alt)
  then show "a < 2 ^ 52" by (simp add: word_less_nat_alt)
  show "a \<noteq> 0" using u by auto
  show "PageAligned a = a" using u unat_PageAligned [of a] by (simp add: word_unat_eq_iff)
qed

lemma PageAligned_low:
  assumes "unat v < 2 ^ 32"
  shows "PageAligned v = identity_frame (vpage v)"
proof -
  let ?x = "unat v div 2 ^ 30 mod 512 * 2 ^ 30 + unat v div 2 ^ 21 mod 512 * 2 ^ 21"
  have q: "unat v div 2 ^ 30 mod 512 = unat v div 2 ^ 21 div 512"
    using assms by (simp add: div_mult2_eq [symmetric])
  have "y * 2097152 = y div 512 * 1073741824 + y mod 512 * 2097152" for y :: nat
    using div_mult_mod_eq [of y 512] by linarith
  from this [of "unat v div 2 ^ 21"] have "unat v div 2 ^ 21 * 2 ^ 21 = ?x" unfolding q by simp
  moreover have "unat (of_nat ?x :: u64) = ?x" by (rule unat_of_nat_small) (use assms in simp)
  ultimately have "unat (PageAligned v) = unat (of_nat ?x :: u64)" unfolding unat_PageAligned by metis
  then show ?thesis by (simp only: identity_frame_def vpage_def idx3_def idx2_def prod.case word_unat_eq_iff)
qed

lemma PageFault_low:
  assumes "mm_inv mm n" "unat fa < 2 ^ 32" "fa \<noteq> 0" "n + 2 \<le> 1536"
  shows "\<exists>mm' m. PageFault mm fa ec = Inr mm' \<and> mm_inv mm' m \<and> m \<le> n + 2 \<and> pmm mm' = pmm mm \<and>
    vmm mm' = vmm mm \<and> as_map (addr_space mm') (vpage fa) = Some (identity_frame (vpage fa))"
proof -
  have lt: "fa < 4 * GiB" "fa < 2 ^ 52" using assms(2) by (auto simp: word_less_nat_alt)
  have inv: "as_inv (addr_space mm) n" "pa_inv (pmm mm)" "frames_ok (pmm mm) (as_map (addr_space mm))"
    using assms(1) by (auto simp: mm_inv_def)
  obtain s' m where s': "MapPage (addr_space mm) fa fa True True = Inr s'" "as_inv s' m" "m \<le> n + 2"
    "as_map s' = (if as_map (addr_space mm) (vpage fa) = None
       then (as_map (addr_space mm))(vpage fa \<mapsto> PageAligned fa) else as_map (addr_space mm))"
    using MapPage_spec [OF inv(1) lt(2) assms(4), of fa True True] by blast
  have low: "low_key (vpage fa)" using low_key_vpage [of fa] assms(2) by simp
  note ok = frames_okD [OF inv(3)] and al = PageAligned_low [OF assms(2)]
  have "frames_ok (pmm mm) (as_map s')"
  proof (rule frames_okI)
    fix k a assume "as_map s' k = Some a" "low_key k"
    then show "a = identity_frame k" using ok(1) [of k a] al by (auto simp: s'(4) split: if_splits)
  next
    fix k a assume "as_map s' k = Some a" "\<not> low_key k"
    then show "pa_busy (pmm mm) a" using ok(2) [of k a] low by (auto simp: s'(4) split: if_splits)
  next
    fix k k' a assume "as_map s' k = Some a" "as_map s' k' = Some a" "\<not> low_key k" "\<not> low_key k'"
    then show "k = k'" using ok(3) [of k a k'] low by (auto simp: s'(4) split: if_splits)
  qed
  moreover have "as_map s' (vpage fa) = Some (identity_frame (vpage fa))"
    using ok(1) [of "vpage fa"] low al by (auto simp: s'(4))
  ultimately show ?thesis
    using s' lt(1) assms(3) inv(2) by (auto simp: PageFault_def mm_inv_def)
qed

lemma frames_ok_add:
  assumes "frames_ok pa m" "m k = None" "\<not> low_key k" "\<not> pa_busy pa a" "pa_busy pa' = (pa_busy pa)(a := True)"
  shows "frames_ok pa' (m(k \<mapsto> a))"
proof -
  note ok = frames_okD [OF assms(1)]
  have old: "m k' = Some b \<Longrightarrow> \<not> low_key k' \<Longrightarrow> b \<noteq> a" for k' b using ok(2) assms(4) by blast
  show ?thesis
  proof (rule frames_okI)
    fix x b assume "(m(k \<mapsto> a)) x = Some b" "low_key x"
    then show "b = identity_frame x" using ok(1) [of x b] assms(3) by (auto split: if_splits)
  next
    fix x b assume "(m(k \<mapsto> a)) x = Some b" "\<not> low_key x"
    then show "pa_busy pa' b" using ok(2) [of x b] assms(5) by (auto split: if_splits)
  next
    fix x y b assume "(m(k \<mapsto> a)) x = Some b" "(m(k \<mapsto> a)) y = Some b" "\<not> low_key x" "\<not> low_key y"
    then show "x = y" using ok(3) [of x b y] old [of x b] old [of y b] by (auto split: if_splits)
  qed
qed

lemma PageFault_high:
  assumes "mm_inv mm n" "2 ^ 32 \<le> unat fa" "unat fa < 2 ^ 47" "n + 2 \<le> 1536"
    and "pa_pages (pmm mm) \<noteq> {}" "as_map (addr_space mm) (vpage fa) = None"
  shows "\<exists>mm' m a. PageFault mm fa ec = Inr mm' \<and> mm_inv mm' m \<and> m \<le> n + 2 \<and> vmm mm' = vmm mm \<and>
    a \<in> pa_avail (pmm mm) \<and> \<not> pa_busy (pmm mm) a \<and> pa_busy (pmm mm') = (pa_busy (pmm mm))(a := True) \<and>
    card (pa_pages (pmm mm')) = card (pa_pages (pmm mm)) - 1 \<and>
    as_map (addr_space mm') = (as_map (addr_space mm))(vpage fa \<mapsto> a)"
proof -
  have ge: "\<not> fa < 4 * GiB" and lt: "fa < 512 * 256 * GiB" using assms(2,3) by (auto simp: word_less_nat_alt)
  have inv: "as_inv (addr_space mm) n" "pa_inv (pmm mm)" "frames_ok (pmm mm) (as_map (addr_space mm))"
    using assms(1) by (auto simp: mm_inv_def)
  obtain p pa where al: "pmm_alloc (pmm mm) = Inr (p * 0x200000, pa)" "p \<in> pa_pages (pmm mm)"
    "pa_pages pa = pa_pages (pmm mm) - {p}"
    using pmm_alloc_ok [OF inv(2)] assms(5) by auto
  let ?a = "p * 0x200000"
  have law: "pa_inv pa" "?a \<in> pa_avail (pmm mm)" "\<not> pa_busy (pmm mm) ?a" "pa_busy pa = (pa_busy (pmm mm))(?a := True)"
    using any_page.take_page_law [OF inv(2) al(1)] by auto
  have a: "PageAligned ?a = ?a" "?a < 2 ^ 52" "?a \<noteq> 0" using busy_page_shape [of pa ?a] law(4) by auto
  obtain s' m where s': "MapPage (addr_space mm) fa ?a True False = Inr s'" "as_inv s' m" "m \<le> n + 2"
    "as_map s' = (as_map (addr_space mm))(vpage fa \<mapsto> ?a)"
    using MapPage_spec [OF inv(1) a(2) assms(4), of fa True False] assms(6) a(1) by auto
  have "\<not> low_key (vpage fa)" using low_key_vpage [OF assms(3)] assms(2) by simp
  then have "frames_ok pa (as_map s')"
    unfolding s'(4) using frames_ok_add [OF inv(3) assms(6) _ law(3,4)] by blast
  moreover have "PageFault mm fa ec = Inr (mm\<lparr>pmm := pa, addr_space := s'\<rparr>)"
    using ge lt al(1) a(3) s'(1) by (simp add: PageFault_def)
  ultimately show ?thesis
    using law s'(2-4) al(2,3) by (auto simp: mm_inv_def card_Diff_singleton)
qed

text \<open>
  What demand paging may change: the pages in \<open>K\<close> that were not mapped are mapped, those above 4 GiB to frames that nobody had;
  every other page stays as it is.
\<close>

definition paged_in :: "vpage set \<Rightarrow> 'h MemManager \<Rightarrow> 'h MemManager \<Rightarrow> bool" where
  "paged_in K mm mm' \<longleftrightarrow>
     (\<forall>k. as_map (addr_space mm) k \<noteq> None \<or> k \<notin> K \<longrightarrow> as_map (addr_space mm') k = as_map (addr_space mm) k) \<and>
     (\<forall>k \<in> K. as_map (addr_space mm') k \<noteq> None) \<and> (\<forall>a. pa_busy (pmm mm) a \<longrightarrow> pa_busy (pmm mm') a) \<and>
     (\<forall>k a. as_map (addr_space mm') k = Some a \<longrightarrow> as_map (addr_space mm) k = None \<longrightarrow> \<not> low_key k \<longrightarrow> \<not> pa_busy (pmm mm) a)"

lemma paged_in_same: "as_map (addr_space mm) k \<noteq> None \<Longrightarrow> paged_in {k} mm mm"
  by (auto simp: paged_in_def)

lemma paged_in_trans:
  assumes "paged_in K mm mm1" "paged_in K' mm1 mm2"
  shows "paged_in (K \<union> K') mm mm2"
proof -
  let ?m = "as_map (addr_space mm)" and ?m1 = "as_map (addr_space mm1)" and ?m2 = "as_map (addr_space mm2)"
  have 1: "\<And>k. ?m k \<noteq> None \<or> k \<notin> K \<Longrightarrow> ?m1 k = ?m k" "\<And>k. k \<in> K \<Longrightarrow> ?m1 k \<noteq> None" "\<And>a. pa_busy (pmm mm) a \<Longrightarrow> pa_busy (pmm mm1) a"
      "\<And>k a. ?m1 k = Some a \<Longrightarrow> ?m k = None \<Longrightarrow> \<not> low_key k \<Longrightarrow> \<not> pa_busy (pmm mm) a"
    and 2: "\<And>k. ?m1 k \<noteq> None \<or> k \<notin> K' \<Longrightarrow> ?m2 k = ?m1 k" "\<And>k. k \<in> K' \<Longrightarrow> ?m2 k \<noteq> None" "\<And>a. pa_busy (pmm mm1) a \<Longrightarrow> pa_busy (pmm mm2) a"
      "\<And>k a. ?m2 k = Some a \<Longrightarrow> ?m1 k = None \<Longrightarrow> \<not> low_key k \<Longrightarrow> \<not> pa_busy (pmm mm1) a"
    using assms unfolding paged_in_def by blast+
  have "?m2 k = ?m k" if "?m k \<noteq> None \<or> k \<notin> K \<union> K'" for k using 1(1) [of k] 2(1) [of k] that by auto
  moreover have "?m2 k \<noteq> None" if "k \<in> K \<union> K'" for k using 1(2) [of k] 2(1,2) [of k] that by auto
  moreover have "\<not> pa_busy (pmm mm) a" if "?m2 k = Some a" "?m k = None" "\<not> low_key k" for k a
    using 1(4) [of k a] 1(3) [of a] 2(1) [of k] 2(4) [of k a] that by (cases "?m1 k") auto
  ultimately show ?thesis using 1(3) 2(3) unfolding paged_in_def by blast
qed

lemma touch_ok:
  assumes "mm_inv mm n" "unat v < 2 ^ 47" "v \<noteq> 0" "n + 2 \<le> 1536" "pa_pages (pmm mm) \<noteq> {}"
  shows "\<exists>mm' m. touch mm v = Inr mm' \<and> mm_inv mm' m \<and> m \<le> n + 2 \<and> vmm mm' = vmm mm \<and>
    card (pa_pages (pmm mm)) - 1 \<le> card (pa_pages (pmm mm')) \<and> paged_in {vpage v} mm mm'"
proof (cases "as_map (addr_space mm) (vpage v)")
  case (Some a)
  then show ?thesis using assms(1) paged_in_same [of mm "vpage v"] by (auto simp: touch_def intro!: exI [of _ n])
next
  case None
  show ?thesis
  proof (cases "unat v < 2 ^ 32")
    case True
    then have lt: "v < 4 * GiB" "v < 2 ^ 52" by (auto simp: word_less_nat_alt)
    have inv: "as_inv (addr_space mm) n" using assms(1) by (simp add: mm_inv_def)
    obtain s' m where s': "MapPage (addr_space mm) v v True True = Inr s'"
      "as_map s' = (as_map (addr_space mm))(vpage v \<mapsto> PageAligned v)"
      using MapPage_spec [OF inv lt(2) assms(4), of v True True] None by auto
    obtain mm' m where p: "PageFault mm v 2 = Inr mm'" "mm_inv mm' m" "m \<le> n + 2" "pmm mm' = pmm mm" "vmm mm' = vmm mm"
      "as_map (addr_space mm') (vpage v) = Some (identity_frame (vpage v))"
      using PageFault_low [OF assms(1) True assms(3,4)] by blast
    have "addr_space mm' = s'" using p(1) lt(1) assms(3) s'(1) by (auto simp: PageFault_def)
    moreover have "low_key (vpage v)" using low_key_vpage [OF assms(2)] True by simp
    ultimately have "paged_in {vpage v} mm mm'" using p(4,6) s'(2) None by (auto simp: paged_in_def split: if_splits)
    then show ?thesis using p None by (auto simp: touch_def)
  next
    case False
    then obtain mm' m a where p: "PageFault mm v 2 = Inr mm'" "mm_inv mm' m" "m \<le> n + 2" "vmm mm' = vmm mm"
      "card (pa_pages (pmm mm')) = card (pa_pages (pmm mm)) - 1" "\<not> pa_busy (pmm mm) a" "pa_busy (pmm mm') = (pa_busy (pmm mm))(a := True)"
      "as_map (addr_space mm') = (as_map (addr_space mm))(vpage v \<mapsto> a)"
      using PageFault_high [OF assms(1) _ assms(2,4,5) None, of 2] by auto
    then have "paged_in {vpage v} mm mm'" using None by (auto simp: paged_in_def split: if_splits)
    then show ?thesis using None p by (auto simp: touch_def)
  qed
qed

primrec touch_all :: "'h MemManager \<Rightarrow> u64 list \<Rightarrow> 'h MemManager res" where
  "touch_all mm [] = Inr mm"
| "touch_all mm (v # vs) = res_bind (touch mm v) (\<lambda>mm'. touch_all mm' vs)"

lemma touch_all_ok:
  assumes "mm_inv mm n" "\<forall>v \<in> set vs. unat v < 2 ^ 47 \<and> v \<noteq> 0" "n + 2 * length vs \<le> 1536"
    and "length vs \<le> card (pa_pages (pmm mm))"
  shows "\<exists>mm' m. touch_all mm vs = Inr mm' \<and> mm_inv mm' m \<and> paged_in (vpage ` set vs) mm mm'"
  using assms
proof (induction vs arbitrary: mm n)
  case (Cons v vs)
  have ne: "pa_pages (pmm mm) \<noteq> {}" using Cons.prems(4) by auto
  obtain mm1 m1 where t: "touch mm v = Inr mm1" "mm_inv mm1 m1" "m1 \<le> n + 2"
    "card (pa_pages (pmm mm)) - 1 \<le> card (pa_pages (pmm mm1))" "paged_in {vpage v} mm mm1"
    using touch_ok [OF Cons.prems(1) _ _ _ ne, of v] Cons.prems(2,3) by auto
  obtain mm2 m2 where r: "touch_all mm1 vs = Inr mm2" "mm_inv mm2 m2" "paged_in (vpage ` set vs) mm1 mm2"
    using Cons.IH [OF t(2)] Cons.prems(2-4) t(3,4) by fastforce
  have "paged_in (vpage ` set (v # vs)) mm mm2" using paged_in_trans [OF t(5) r(3)] by simp
  then show ?case using t(1) r(1,2) by auto
qed (auto simp: paged_in_def)

section \<open>Stacks\<close>

lemma vpage_eq_iff:
  assumes "unat u < 2 ^ 48" "unat v < 2 ^ 48"
  shows "vpage u = vpage v \<longleftrightarrow> unat u div 2 ^ 21 = unat v div 2 ^ 21"
proof
  have dec: "unat w div 2 ^ 21 = idx4 w * 2 ^ 18 + idx3 w * 2 ^ 9 + idx2 w" if w: "unat w < 2 ^ 48" for w
  proof -
    have 1: "idx4 w = unat w div 2 ^ 21 div 2 ^ 18" "idx3 w = unat w div 2 ^ 21 div 2 ^ 9 mod 512"
      using w by (simp_all add: idx4_def idx3_def div_mult2_eq [symmetric] less_mult_imp_div_less)
    have "y = y div 262144 * 262144 + y div 512 mod 512 * 512 + y mod 512" for y :: nat
    proof -
      have "y div 262144 = y div 512 div 512" by (simp add: div_mult2_eq [symmetric])
      then show ?thesis
        using div_mult_mod_eq [of y 512] div_mult_mod_eq [of "y div 512" 512] by linarith
    qed
    from this [of "unat w div 2 ^ 21"] show ?thesis unfolding 1 idx2_def by simp
  qed
  show "vpage u = vpage v \<Longrightarrow> unat u div 2 ^ 21 = unat v div 2 ^ 21"
    using dec [OF assms(1)] dec [OF assms(2)] by (simp add: vpage_def)
  show "unat u div 2 ^ 21 = unat v div 2 ^ 21 \<Longrightarrow> vpage u = vpage v"
  proof -
    assume e: "unat u div 2 ^ 21 = unat v div 2 ^ 21"
    have "idx4 w = unat w div 2 ^ 21 div 2 ^ 18 mod 512" "idx3 w = unat w div 2 ^ 21 div 2 ^ 9 mod 512" for w
      by (simp_all add: idx4_def idx3_def div_mult2_eq [symmetric])
    then show ?thesis using e by (simp add: vpage_def idx2_def)
  qed
qed

definition stack_addr :: "nat \<Rightarrow> u64" where
  "stack_addr k = of_nat (2 ^ 37 + k * 2 ^ 21)"

lemma unat_stack_addr: "k < 2 ^ 16 \<Longrightarrow> unat (stack_addr k) = 2 ^ 37 + k * 2 ^ 21"
  unfolding stack_addr_def by (rule unat_of_nat_small) simp

lemma stack_vpage_inj:
  assumes "j < 2 ^ 16" "k < 2 ^ 16"
  shows "vpage (stack_addr j) = vpage (stack_addr k) \<longleftrightarrow> j = k"
  using vpage_eq_iff [of "stack_addr j" "stack_addr k"] unat_stack_addr [OF assms(1)] unat_stack_addr [OF assms(2)]
    assms by simp

primrec alloc_stacks :: "nat \<Rightarrow> 'h MemManager \<Rightarrow> (VirtualStack list \<times> 'h MemManager) res" where
  "alloc_stacks 0 mm = Inr ([], mm)"
| "alloc_stacks (Suc n) mm = res_bind (AllocStack mm) (\<lambda>(st, mm1).
     res_bind (alloc_stacks n mm1) (\<lambda>(sts, mm2). Inr (st # sts, mm2)))"

lemma alloc_stacks_ok:
  assumes "mm_inv mm t" "stack_alloc_next (vmm mm) = stack_addr (2 * k)" "2 * (k + n) < 2 ^ 16"
    and "\<forall>j. 2 * k \<le> j \<and> j < 2 ^ 16 \<longrightarrow> as_map (addr_space mm) (vpage (stack_addr j)) = None"
    and "t + 2 * n \<le> 1536" "n \<le> card (pa_pages (pmm mm))"
  shows "\<exists>sts mm' t'. alloc_stacks n mm = Inr (sts, mm') \<and> mm_inv mm' t' \<and>
    sts = map (\<lambda>i. \<lparr>vs_top = stack_addr (2 * (k + i)), vs_len = kPageSizeBytes\<rparr>) [0..<n] \<and>
    (\<forall>j. 2 * k \<le> j \<and> j < 2 ^ 16 \<longrightarrow>
       (as_map (addr_space mm') (vpage (stack_addr j)) \<noteq> None \<longleftrightarrow> even j \<and> j < 2 * (k + n))) \<and>
    (\<forall>j < 2 * k. as_map (addr_space mm') (vpage (stack_addr j)) = as_map (addr_space mm) (vpage (stack_addr j)))"
  using assms
proof (induction n arbitrary: mm t k)
  case (Suc n)
  let ?top = "stack_addr (2 * k)" and ?m = "as_map (addr_space mm)"
  let ?mm1 = "mm\<lparr>vmm := (vmm mm)\<lparr>stack_alloc_next := ?top + 0x400000\<rparr>\<rparr>"
  have k: "2 * k < 2 ^ 16" and top: "unat ?top = 2 ^ 37 + 2 * k * 2 ^ 21"
    using Suc.prems(3) unat_stack_addr [of "2 * k"] by auto
  have inv1: "mm_inv ?mm1 t" using Suc.prems(1) by (simp add: mm_inv_def)
  have none: "as_map (addr_space ?mm1) (vpage ?top) = None" using Suc.prems(4) k by simp
  have ne: "pa_pages (pmm ?mm1) \<noteq> {}" using Suc.prems(6) by auto
  obtain mm1 t1 a where p: "PageFault ?mm1 ?top 2 = Inr mm1" "mm_inv mm1 t1" "t1 \<le> t + 2" "vmm mm1 = vmm ?mm1"
    "card (pa_pages (pmm mm1)) = card (pa_pages (pmm mm)) - 1" "as_map (addr_space mm1) = ?m(vpage ?top \<mapsto> a)"
    using PageFault_high [OF inv1 _ _ _ ne none, of 2] top k Suc.prems(5) by auto
  have st: "AllocStack mm = Inr (\<lparr>vs_top = ?top, vs_len = kPageSizeBytes\<rparr>, mm1)"
    using p(1) none Suc.prems(2) by (simp add: AllocStack_def touch_def Let_def)
  have "stack_addr (2 * Suc k) = ?top + 0x400000" by (simp add: stack_addr_def algebra_simps)
  then have nx: "stack_alloc_next (vmm mm1) = stack_addr (2 * Suc k)" using p(4) by simp
  have inj: "vpage (stack_addr j) = vpage ?top \<longleftrightarrow> j = 2 * k" if "j < 2 ^ 16" for j
    using stack_vpage_inj [OF that k] .
  have c: "\<forall>j. 2 * Suc k \<le> j \<and> j < 2 ^ 16 \<longrightarrow> as_map (addr_space mm1) (vpage (stack_addr j)) = None"
    using Suc.prems(4) inj p(6) by auto
  obtain sts mm' t' where r: "alloc_stacks n mm1 = Inr (sts, mm')" "mm_inv mm' t'"
    "sts = map (\<lambda>i. \<lparr>vs_top = stack_addr (2 * (Suc k + i)), vs_len = kPageSizeBytes\<rparr>) [0..<n]"
    "\<forall>j. 2 * Suc k \<le> j \<and> j < 2 ^ 16 \<longrightarrow>
       (as_map (addr_space mm') (vpage (stack_addr j)) \<noteq> None \<longleftrightarrow> even j \<and> j < 2 * (Suc k + n))"
    "\<forall>j < 2 * Suc k. as_map (addr_space mm') (vpage (stack_addr j)) = as_map (addr_space mm1) (vpage (stack_addr j))"
    using Suc.IH [OF p(2) nx _ c] Suc.prems(3,5,6) p(3,5) by fastforce
  have "sts = map (\<lambda>i. \<lparr>vs_top = stack_addr (2 * (k + i)), vs_len = kPageSizeBytes\<rparr>) [Suc 0..<Suc n]"
    unfolding r(3) map_Suc_upt [symmetric] by simp
  then have "\<lparr>vs_top = ?top, vs_len = kPageSizeBytes\<rparr> # sts
    = map (\<lambda>i. \<lparr>vs_top = stack_addr (2 * (k + i)), vs_len = kPageSizeBytes\<rparr>) [0..<Suc n]"
    by (simp add: upt_conv_Cons del: upt_Suc)
  moreover have "as_map (addr_space mm') (vpage (stack_addr j)) \<noteq> None \<longleftrightarrow> even j \<and> j < 2 * (k + Suc n)"
    if j: "2 * k \<le> j" "j < 2 ^ 16" for j
  proof (cases "2 * Suc k \<le> j")
    case True
    then show ?thesis using r(4) j(2) by simp
  next
    case False
    then have "j = 2 * k \<or> j = 2 * k + 1" using j(1) by arith
    then show ?thesis
      using r(5) p(6) Suc.prems(4) j inj [OF j(2)] False by (elim disjE) auto
  qed
  moreover have "as_map (addr_space mm') (vpage (stack_addr j)) = ?m (vpage (stack_addr j))" if "j < 2 * k" for j
    using r(5) p(6) inj [of j] that k by simp
  ultimately show ?case using st r(1,2) by auto
qed (auto simp: not_less)

section \<open>Initialisation\<close>

lemma mk_PageTableAllocator_eq: "mk_PageTableAllocator = Inr boot_tables"
  by (simp add: mk_PageTableAllocator_def page_directory_zone_def boot_tables_def table_zone_def)

lemma boot_frames_ok:
  "frames_ok pa (map_of (map (\<lambda>(v, p). (vpage v, PageAligned p)) (map (\<lambda>k. (0x200000 * of_nat k, 0x200000 * of_nat k)) [0..<16])))"
proof -
  let ?m = "map_of (map (\<lambda>(v, p). (vpage v, PageAligned p)) (map (\<lambda>k. (0x200000 * of_nat k, 0x200000 * of_nat k)) [0..<16]))"
  have all: "\<exists>v. k = vpage v \<and> a = PageAligned v \<and> unat v < 2 ^ 25" if "?m k = Some a" for k a
    using map_of_SomeD [OF that] unat_identity by (auto simp del: upt_rec_numeral)
  have low: "low_key k \<and> a = identity_frame k" if h: "?m k = Some a" for k a
  proof -
    obtain v where v: "k = vpage v" "a = PageAligned v" "unat v < 2 ^ 25" using all [OF h] by blast
    then show ?thesis using low_key_vpage [of v] PageAligned_low [of v] by simp
  qed
  show ?thesis by (rule frames_okI) (use low in blast)+
qed

lemma boot_map_high:
  assumes "2 ^ 37 \<le> unat v" "unat v < 2 ^ 38"
  shows "map_of (map (\<lambda>(v, p). (vpage v, PageAligned p)) (map (\<lambda>k. (0x200000 * of_nat k, 0x200000 * of_nat k)) [0..<16]))
    (vpage v) = None"
proof -
  have "vpage v \<noteq> vpage (0x200000 * of_nat k)" if "k < 16" for k
  proof -
    have "unat v div 2 ^ 21 \<ge> 2 ^ 16" using div_le_mono [OF assms(1), of "2 ^ 21"] by simp
    then show ?thesis using vpage_eq_iff [of v "0x200000 * of_nat k"] unat_identity [OF that] assms(2) that by simp
  qed
  then show ?thesis unfolding map_of_eq_None_iff by (auto simp del: upt_rec_numeral) blast
qed

lemma InitSubsystems_boot:
  assumes "pa_inv pa" "\<forall>h. fst (create_mspace_with_base dl GetSharedSpace GetSpaceSize False h) \<noteq> 0"
  shows "\<exists>mm0 mm n. mk_MemManager pa tm h = Inr mm0 \<and> InitSubsystems dl 0 mm0 = Inr mm \<and>
    mm_inv mm n \<and> n \<le> 33 \<and> pmm mm = pa \<and> vmm mm = mk_VirtualAllocator \<and> malloc_available mm \<and>
    default_mspace (mallocator mm) \<noteq> 0 \<and>
    (\<forall>v. 2 ^ 37 \<le> unat v \<and> unat v < 2 ^ 38 \<longrightarrow> as_map (addr_space mm) (vpage v) = None)"
proof -
  obtain s0 s n where s: "mk_AddressSpaceX64 boot_tables tm = Inr s0" "Configure s0 = Inr s" "as_inv s n" "n \<le> 33"
    "cr3_PageDirectory (cr3 s) = tbl 0"
    "as_map s = map_of (map (\<lambda>(v, p). (vpage v, PageAligned p)) (map (\<lambda>k. (0x200000 * of_nat k, 0x200000 * of_nat k)) [0..<16]))"
    using Configure_ok [of boot_tables tm] by (auto simp: boot_tables_def simp del: upt_rec_numeral)
  obtain w where "CR3Entry_Encode (cr3 s) = Inr w"
    using CR3Entry_roundtrip [of "cr3 s"] tbl_table_addr [of 0] s(5) by auto
  then have inst: "Install s = Inr (s\<lparr>cpu_cr3 := w\<rparr>)" by (simp add: Install_def)
  have fr: "as_inv (s\<lparr>cpu_cr3 := w\<rparr>) n" "as_map (s\<lparr>cpu_cr3 := w\<rparr>) = as_map s"
    using s(3) by (simp_all add: as_inv_def as_frame_def ent_def [abs_def] as_map_def fun_eq_iff Let_def)
  obtain msp h' where cr: "create_mspace_with_base dl GetSharedSpace GetSpaceSize False h = (msp, h')" "msp \<noteq> 0"
    using assms(2) by (metis prod.exhaust_sel)
  define mm0 where "mm0 = \<lparr>pmm = pa, vmm = mk_VirtualAllocator, mallocator = \<lparr>default_mspace = 0, heap = h\<rparr>,
            addr_space = s0, malloc_available = False\<rparr>"
  have "mk_MemManager pa tm h = Inr mm0"
    using s(1) by (simp add: mk_MemManager_def mk_PageTableAllocator_eq mm0_def)
  moreover have "InitSubsystems dl 0 mm0 = Inr (mm0\<lparr>addr_space := s\<lparr>cpu_cr3 := w\<rparr>,
      mallocator := \<lparr>default_mspace = msp, heap = mspace_track_large_chunks dl msp True h'\<rparr>, malloc_available := True\<rparr>)"
    using s(2) inst cr
    by (simp add: InitSubsystems_def ma_InitOnce_def ma_InitCpu_def mm0_def GetSharedSpace_def GetSpaceSize_def
        kSpacesBase_def kSpaceSize_def)
  moreover have "frames_ok pa (as_map (s\<lparr>cpu_cr3 := w\<rparr>))" unfolding fr(2) s(6) by (rule boot_frames_ok)
  ultimately show ?thesis
    using fr s(4,6) assms(1) cr(2) boot_map_high by (auto simp: mm_inv_def mm0_def simp del: upt_rec_numeral)
qed

section \<open>Properties\<close>

text \<open>A heap library for the witnesses: one space at its base, every request refused.\<close>

definition sample_dl :: "unit dl_ops" where
  "sample_dl = \<lparr>create_mspace_with_base = (\<lambda>b c l h. (b, h)), mspace_track_large_chunks = (\<lambda>m e h. h),
     mspace_malloc = (\<lambda>m n h. (0, h)), mspace_memalign = (\<lambda>m a n h. (0, h)), mspace_calloc = (\<lambda>m a n h. (0, h)),
     mspace_realloc = (\<lambda>m p n h. (0, h)), mspace_free = (\<lambda>m p h. h)\<rparr>"

lemma sample_dl_creates:
  "\<forall>h. fst (create_mspace_with_base sample_dl GetSharedSpace GetSpaceSize False h) \<noteq> 0"
  by (simp add: sample_dl_def GetSharedSpace_def kSpacesBase_def kSpaceSize_def)

lemma frame_offset_inj:
  assumes "PageAligned a = a" "PageAligned (a + ucast (page_offset v)) = PageAligned (b + ucast (page_offset u))"
    and "PageAligned b = b"
  shows "a = b"
proof -
  have "PageAligned (c + ucast (page_offset w)) = c" if c: "PageAligned c = c" for c w
  proof -
    let ?o = "ucast (page_offset w) :: u64"
    have o: "unat ?o < 2 ^ 21" using page_split [of w] by (metis add_diff_cancel_left' minus_div_mult_eq_mod mod_less_divisor zero_less_numeral zero_less_power)
    have d: "unat c = unat c div 2 ^ 21 * 2 ^ 21" using unat_PageAligned [of c] c by simp
    have "unat c < 2 ^ 64" using unsigned_less [of c, where 'a = nat] by simp
    then have "unat c div 2 ^ 21 < 2 ^ 43" by (simp add: less_mult_imp_div_less)
    then have "unat c div 2 ^ 21 * 2 ^ 21 + unat ?o < 2 ^ 64" using o by simp
    then have "unat (c + ?o) = unat c div 2 ^ 21 * 2 ^ 21 + unat ?o" using d by (simp add: unat_add_no_wrap)
    then have "unat (c + ?o) div 2 ^ 21 = unat c div 2 ^ 21" using o by simp
    then show ?thesis using unat_PageAligned [of "c + ?o"] d by (simp add: word_unat_eq_iff)
  qed
  then show ?thesis using assms by metis
qed

text \<open>
  C9. Demand paging gives private memory. From any state in which low pages are identity mapped
  and high pages have handed-out frames of their own, kernel code may touch any sequence of
  addresses (not null, below 2^47) for which frames and tables are left. Every access succeeds; afterwards each touched address translates,
  and below 4 GiB to itself. A page that was mapped before, or that no touched address lies in, translates as before.
  A page above 4 GiB that is newly mapped gets a frame that had not been handed out to anyone. Among all pages above 4 GiB, touched
  or not, no two have the same frame. (The first 4 GiB are a window onto all physical memory there, and so show frames of other pages.)
\<close>

theorem demand_paging_private:
  assumes "mm_inv mm n" "\<forall>v \<in> set vs. unat v < 2 ^ 47 \<and> v \<noteq> 0" "n + 2 * length vs \<le> 1536"
    and "length vs \<le> card (pa_pages (pmm mm))"
  shows "\<exists>mm' m. touch_all mm vs = Inr mm' \<and> mm_inv mm' m \<and>
    (\<forall>v \<in> set vs. \<exists>p. VirtualToPhysicalAddress mm' v = Inr p \<and> p \<noteq> 0 \<and> (unat v < 2 ^ 32 \<longrightarrow> p = v)) \<and>
    (\<forall>u. as_map (addr_space mm) (vpage u) \<noteq> None \<or> vpage u \<notin> vpage ` set vs \<longrightarrow> VirtualToPhysicalAddress mm' u = VirtualToPhysicalAddress mm u) \<and>
    (\<forall>k a. as_map (addr_space mm') k = Some a \<and> as_map (addr_space mm) k = None \<and> \<not> low_key k \<longrightarrow> \<not> pa_busy (pmm mm) a \<and> pa_busy (pmm mm') a) \<and>
    (\<forall>u v p q. 2 ^ 32 \<le> unat u \<and> unat u < 2 ^ 47 \<and> 2 ^ 32 \<le> unat v \<and> unat v < 2 ^ 47 \<and> p \<noteq> 0 \<and> q \<noteq> 0 \<and>
       VirtualToPhysicalAddress mm' u = Inr p \<and> VirtualToPhysicalAddress mm' v = Inr q \<and> PageAligned p = PageAligned q \<longrightarrow> vpage u = vpage v)"
proof -
  obtain mm' m where t: "touch_all mm vs = Inr mm'" "mm_inv mm' m" "paged_in (vpage ` set vs) mm mm'"
    using touch_all_ok [OF assms] by blast
  let ?m = "as_map (addr_space mm')"
  have inv: "as_inv (addr_space mm) n" "as_inv (addr_space mm') m" "frames_ok (pmm mm') ?m" using assms(1) t(2) by (auto simp: mm_inv_def)
  note ok = frames_okD [OF inv(3)] and V = VirtualToPhysical_spec [OF inv(1)] VirtualToPhysical_spec [OF inv(2)]
  have low: "a + ucast (page_offset v) = v" if v: "unat v < 2 ^ 32" "?m (vpage v) = Some a" for v a
  proof -
    have "a = PageAligned v"
      using ok(1) [OF v(2)] low_key_vpage [of v] PageAligned_low [of v] v(1) by simp
    moreover have "unat (PageAligned v) + unat (ucast (page_offset v) :: u64) = unat v"
      using page_split [of v] unat_PageAligned [of v] by simp
    ultimately have "unat (a + ucast (page_offset v)) = unat v"
      using unat_add_no_wrap [of "PageAligned v" "ucast (page_offset v)"] v(1) by simp
    then show ?thesis by (simp only: word_unat_eq_iff)
  qed
  have high: "\<not> low_key (vpage v) \<and> PageAligned a = a \<and> pa_busy (pmm mm') a \<and> a + ucast (page_offset v) \<noteq> 0"
    if v: "2 ^ 32 \<le> unat v" "unat v < 2 ^ 47" "?m (vpage v) = Some a" for v a
  proof -
    have nl: "\<not> low_key (vpage v)" using low_key_vpage [OF v(2)] v(1) by simp
    note b = busy_page_shape [OF ok(2) [OF v(3) nl]]
    have "page_offset 0 = 0" by (simp add: page_offset_def)
    then have "a + ucast (page_offset v) \<noteq> 0" using frame_offset_inj [OF b(1), of v 0 0] b(3) by (auto simp: PageAligned_def)
    then show ?thesis using nl b(1) ok(2) [OF v(3) nl] by blast
  qed
  have all: "\<exists>p. VirtualToPhysicalAddress mm' v = Inr p \<and> p \<noteq> 0 \<and> (unat v < 2 ^ 32 \<longrightarrow> p = v)" if v: "v \<in> set vs" for v
  proof -
    obtain a where a: "?m (vpage v) = Some a" using t(3) v unfolding paged_in_def by blast
    then show ?thesis using V(2) [of v] low [OF _ a] high [OF _ _ a] assms(2) v by (cases "unat v < 2 ^ 32") (auto simp: VirtualToPhysicalAddress_def)
  qed
  have same: "VirtualToPhysicalAddress mm' u = VirtualToPhysicalAddress mm u"
    if "as_map (addr_space mm) (vpage u) \<noteq> None \<or> vpage u \<notin> vpage ` set vs" for u
  proof -
    have "?m (vpage u) = as_map (addr_space mm) (vpage u)" using t(3) that unfolding paged_in_def by blast
    then show ?thesis using V [of u] by (simp add: VirtualToPhysicalAddress_def)
  qed
  have new: "\<not> pa_busy (pmm mm) a \<and> pa_busy (pmm mm') a"
    if "?m k = Some a" "as_map (addr_space mm) k = None" "\<not> low_key k" for k a
    using t(3) that ok(2) [OF that(1,3)] unfolding paged_in_def by blast
  have own: "vpage u = vpage v"
    if uv: "2 ^ 32 \<le> unat u" "unat u < 2 ^ 47" "2 ^ 32 \<le> unat v" "unat v < 2 ^ 47" "p \<noteq> 0" "q \<noteq> 0"
      "VirtualToPhysicalAddress mm' u = Inr p" "VirtualToPhysicalAddress mm' v = Inr q" "PageAligned p = PageAligned q" for u v p q
  proof -
    obtain a b where a: "?m (vpage u) = Some a" "p = a + ucast (page_offset u)" and b: "?m (vpage v) = Some b" "q = b + ucast (page_offset v)"
      using uv(5-8) V(2) [of u] V(2) [of v] by (auto simp: VirtualToPhysicalAddress_def split: option.splits)
    note ha = high [OF uv(1,2) a(1)] and hb = high [OF uv(3,4) b(1)]
    have "a = b" using frame_offset_inj [of a u b v] ha hb uv(9) a(2) b(2) by simp
    then show ?thesis using ok(3) [OF a(1), of "vpage v"] ha hb b(1) by blast
  qed
  show ?thesis
  proof (intro exI [of _ mm'] exI [of _ m] conjI ballI allI impI)
    fix u v p q assume "2 ^ 32 \<le> unat u \<and> unat u < 2 ^ 47 \<and> 2 ^ 32 \<le> unat v \<and> unat v < 2 ^ 47 \<and> p \<noteq> 0 \<and> q \<noteq> 0 \<and>
       VirtualToPhysicalAddress mm' u = Inr p \<and> VirtualToPhysicalAddress mm' v = Inr q \<and> PageAligned p = PageAligned q"
    then show "vpage u = vpage v" by (elim conjE) (rule own [of u v p q])
  qed (use t(1,2) all same new in blast)+
qed

theorem demand_paging_private_witness:
  "\<exists>mm0 mm mm' a b. mk_MemManager sample_pa (\<lambda>_. 0) () = Inr mm0 \<and> InitSubsystems sample_dl 0 mm0 = Inr mm \<and>
     touch_all mm [0x2000000000, 0x2000200000] = Inr mm' \<and>
     VirtualToPhysicalAddress mm' 0x2000000000 = Inr a \<and> VirtualToPhysicalAddress mm' 0x2000200000 = Inr b \<and>
     PageAligned a \<noteq> PageAligned b"
proof -
  obtain mm0 and mm :: "unit MemManager" and n where s: "mk_MemManager sample_pa (\<lambda>_. 0) () = Inr mm0"
    "InitSubsystems sample_dl 0 mm0 = Inr mm" "mm_inv mm n" "n \<le> 33" "pmm mm = sample_pa"
    using InitSubsystems_boot [OF sample_pa_inv sample_dl_creates] by blast
  have "pa_pages sample_pa = {16, 17}" by (auto simp: pa_pages_def ps_pages_def sample_pa_lists)
  then have c: "card (pa_pages (pmm mm)) = 2" using s(5) by simp
  let ?u = "0x2000000000 :: u64" and ?v = "0x2000200000 :: u64"
  have ne: "vpage ?u \<noteq> vpage ?v" by (simp add: vpage_def idx4_def idx3_def idx2_def)
  have "\<forall>v \<in> set [?u, ?v]. unat v < 2 ^ 47 \<and> v \<noteq> 0" "n + 2 * length [?u, ?v] \<le> 1536" "length [?u, ?v] \<le> card (pa_pages (pmm mm))"
    using s(4) c by simp_all
  from demand_paging_private [OF s(3) this] obtain mm' where t: "touch_all mm [?u, ?v] = Inr mm'"
    and a: "\<forall>v \<in> set [?u, ?v]. \<exists>p. VirtualToPhysicalAddress mm' v = Inr p \<and> p \<noteq> 0 \<and> (unat v < 2 ^ 32 \<longrightarrow> p = v)"
    and o: "\<forall>u v p q. 2 ^ 32 \<le> unat u \<and> unat u < 2 ^ 47 \<and> 2 ^ 32 \<le> unat v \<and> unat v < 2 ^ 47 \<and> p \<noteq> 0 \<and> q \<noteq> 0 \<and>
       VirtualToPhysicalAddress mm' u = Inr p \<and> VirtualToPhysicalAddress mm' v = Inr q \<and> PageAligned p = PageAligned q \<longrightarrow> vpage u = vpage v"
    by (elim exE conjE) (rule that)
  obtain p q where p: "VirtualToPhysicalAddress mm' ?u = Inr p" "p \<noteq> 0" and q: "VirtualToPhysicalAddress mm' ?v = Inr q" "q \<noteq> 0"
    using a by auto
  have "PageAligned p \<noteq> PageAligned q" using o [rule_format, of ?u ?v p q] ne p q by auto
  then show ?thesis using s(1,2) t p(1) q(1) by blast
qed



text \<open>
  C24. Kernel stacks are separate and guarded: allocating \<open>n\<close> stacks (frames and tables permitting)
  returns \<open>n\<close> mapped pages of 2 MiB, 4 MiB apart from 128 GiB on, and the page above each stays
  unmapped.
\<close>

theorem stacks_guarded:
  assumes "mm_inv mm t" "vmm mm = mk_VirtualAllocator" "t + 2 * n \<le> 1536" "n \<le> card (pa_pages (pmm mm))"
    and "\<forall>v. 2 ^ 37 \<le> unat v \<and> unat v < 2 ^ 38 \<longrightarrow> as_map (addr_space mm) (vpage v) = None"
  shows "\<exists>sts mm' t'. alloc_stacks n mm = Inr (sts, mm') \<and> mm_inv mm' t' \<and> length sts = n \<and>
    (\<forall>i < n. unat (vs_top (sts ! i)) = 2 ^ 37 + i * 2 ^ 22 \<and> vs_len (sts ! i) = kPageSizeBytes \<and>
       as_map (addr_space mm') (vpage (vs_top (sts ! i))) \<noteq> None \<and>
       as_map (addr_space mm') (vpage (vs_top (sts ! i) + kPageSizeBytes)) = None)"
proof -
  have n: "2 * n < 2 ^ 16" using assms(3) by simp
  have k: "stack_alloc_next (vmm mm) = stack_addr (2 * 0)"
    using assms(2) by (simp add: mk_VirtualAllocator_def kStacks_def stack_addr_def)
  have free: "\<forall>j. 2 * 0 \<le> j \<and> j < 2 ^ 16 \<longrightarrow> as_map (addr_space mm) (vpage (stack_addr j)) = None"
    using assms(5) unat_stack_addr by simp
  obtain sts mm' t' where r: "alloc_stacks n mm = Inr (sts, mm')" "mm_inv mm' t'"
    "sts = map (\<lambda>i. \<lparr>vs_top = stack_addr (2 * (0 + i)), vs_len = kPageSizeBytes\<rparr>) [0..<n]"
    "\<forall>j. 2 * 0 \<le> j \<and> j < 2 ^ 16 \<longrightarrow>
       (as_map (addr_space mm') (vpage (stack_addr j)) \<noteq> None \<longleftrightarrow> even j \<and> j < 2 * (0 + n))"
    using alloc_stacks_ok [OF assms(1) k _ free assms(3,4)] n by auto
  have "stack_addr (2 * i) + 0x200000 = stack_addr (Suc (2 * i))" for i
    by (simp add: stack_addr_def algebra_simps)
  moreover have "as_map (addr_space mm') (vpage (stack_addr (Suc (2 * i)))) = None" if "i < n" for i
    using r(4) [rule_format, of "Suc (2 * i)"] that n by auto
  ultimately show ?thesis
    using r n unat_stack_addr by (intro exI [of _ sts] exI [of _ mm'] exI [of _ t']) auto
qed

theorem stacks_guarded_witness:
  "\<exists>mm0 mm sts mm'. mk_MemManager sample_pa (\<lambda>_. 0) () = Inr mm0 \<and> InitSubsystems sample_dl 0 mm0 = Inr mm \<and>
     alloc_stacks 2 mm = Inr (sts, mm') \<and> unat (vs_top (sts ! 1)) = 2 ^ 37 + 2 ^ 22"
proof -
  obtain mm0 and mm :: "unit MemManager" and n where s: "mk_MemManager sample_pa (\<lambda>_. 0) () = Inr mm0"
    "InitSubsystems sample_dl 0 mm0 = Inr mm" "mm_inv mm n" "n \<le> 33" "pmm mm = sample_pa" "vmm mm = mk_VirtualAllocator"
    "\<forall>v. 2 ^ 37 \<le> unat v \<and> unat v < 2 ^ 38 \<longrightarrow> as_map (addr_space mm) (vpage v) = None"
    using InitSubsystems_boot [OF sample_pa_inv sample_dl_creates] by blast
  have "pa_pages sample_pa = {16, 17}" by (auto simp: pa_pages_def ps_pages_def sample_pa_lists)
  then have c: "card (pa_pages (pmm mm)) = 2" using s(5) by simp
  show ?thesis using stacks_guarded [OF s(3,6) _ _ s(7), of 2] s(1,2,4) c by fastforce
qed

end
