(* ===== verification/ThreadModel.thy ===== *)
theory ThreadModel
  imports EngineModel MemManager
begin

text \<open>
  \<open>Thread\<close> and \<open>TimeoutData\<close> of \<^verbatim>\<open>src/src/kernel/thread.h\<close> and \<^verbatim>\<open>thread.cc\<close>: the state of a thread and its
  operations on timers, object handles, promises and its reference count. A JavaScript value that
  V8 holds for the kernel is its handle, a number; an empty handle is \<open>None\<close>. The V8 isolate, the
  template cache and the context of a thread are present or not.

  The lemmas show what each operation does to the tables of live timers, handles and promises, and
  that the reference count is their number plus the references that are never given back.
\<close>

section \<open>\<open>TimeoutData\<close>\<close>

record TimeoutData =
  td_cb :: "nat option"
  td_args_array :: "nat option"
  td_delay :: u32
  td_cleared :: bool
  td_has_args :: bool
  td_autoreset :: bool

definition mk_TimeoutData :: "nat option \<Rightarrow> u32 \<Rightarrow> bool \<Rightarrow> TimeoutData res" where
  "mk_TimeoutData cb delay_ms is_autoreset = res_bind (rt_assert (cb \<noteq> None) ''!cb_.IsEmpty()'') (\<lambda>_.
     Inr \<lparr>td_cb = cb, td_args_array = None, td_delay = delay_ms, td_cleared = False, td_has_args = False,
          td_autoreset = is_autoreset\<rparr>)"

definition mk_TimeoutData_args :: "nat option \<Rightarrow> nat option \<Rightarrow> u32 \<Rightarrow> bool \<Rightarrow> TimeoutData res" where
  "mk_TimeoutData_args cb args_array delay_ms is_autoreset =
     res_bind (rt_assert (cb \<noteq> None) ''!cb_.IsEmpty()'') (\<lambda>_.
     res_bind (rt_assert (args_array \<noteq> None) ''!args_array_.IsEmpty()'') (\<lambda>_.
       Inr \<lparr>td_cb = cb, td_args_array = args_array, td_delay = delay_ms, td_cleared = False, td_has_args = True,
            td_autoreset = is_autoreset\<rparr>))"

text \<open>What moving from the object leaves: the handles are taken, the rest is copied.\<close>

definition td_moved :: "TimeoutData \<Rightarrow> TimeoutData" where
  "td_moved d = d\<lparr>td_cb := None, td_args_array := None\<rparr>"

definition td_IsEmpty :: "TimeoutData \<Rightarrow> bool" where
  "td_IsEmpty d \<longleftrightarrow> td_cb d = None"

definition td_GetCallback :: "TimeoutData \<Rightarrow> nat res" where
  "td_GetCallback d = (case td_cb d of None \<Rightarrow> Inl (AssertFailed ''!cb_.IsEmpty()'') | Some f \<Rightarrow> Inr f)"

definition td_TakeArgsArray :: "TimeoutData \<Rightarrow> (nat option \<times> TimeoutData) res" where
  "td_TakeArgsArray d = res_bind (rt_assert (td_args_array d \<noteq> None) ''!args_array_.IsEmpty()'') (\<lambda>_.
     Inr (td_args_array d, d\<lparr>td_args_array := None\<rparr>))"

definition td_SetCleared :: "TimeoutData \<Rightarrow> TimeoutData" where
  "td_SetCleared d = d\<lparr>td_cleared := True\<rparr>"

section \<open>\<open>Thread\<close>\<close>

record Thread =
  th_type :: ThreadType
  th_iv8 :: bool
  th_tpl_cache :: bool
  th_local_storage :: LocalStorage
  th_context :: bool
  th_args :: "nat option"
  th_exit_value :: "nat option"
  th_call_wrapper :: "nat option"
  th_stack :: VirtualStack
  th_priority :: u32
  th_ethread :: nat
  th_exports :: FunctionExports
  th_ref_count :: u64
  th_terminate :: bool
  th_runtime :: u64
  th_ev_count :: u64
  th_filename :: outval
  th_timeout_data :: "TimeoutData list"
  th_object_handles :: "nat option list"
  th_promises :: "nat option list"

definition mk_Thread :: "nat \<Rightarrow> EngineThread \<Rightarrow> VirtualStack \<Rightarrow> Thread" where
  "mk_Thread ethread e stack = \<lparr>th_type = et_type e, th_iv8 = False, th_tpl_cache = False,
     th_local_storage = mk_LocalStorage, th_context = False, th_args = None, th_exit_value = None,
     th_call_wrapper = None, th_stack = stack, th_priority = 1, th_ethread = ethread,
     th_exports = \<lparr>fe_data = [], fe_export_id = 0\<rparr>, th_ref_count = 0, th_terminate = False,
     th_runtime = 0, th_ev_count = 0, th_filename = UStringUtf8 [], th_timeout_data = [],
     th_object_handles = [], th_promises = []\<rparr>"

definition Ref :: "Thread \<Rightarrow> Thread" where
  "Ref t = t\<lparr>th_ref_count := th_ref_count t + 1\<rparr>"

definition Unref :: "Thread \<Rightarrow> Thread" where
  "Unref t = t\<lparr>th_ref_count := th_ref_count t - 1\<rparr>"

definition GetStackBottom :: "Thread \<Rightarrow> u64 res" where
  "GetStackBottom t = (let top = vs_top (th_stack t); len = vs_len (th_stack t) in
     res_bind (rt_assert (top \<noteq> 0) ''stack_.top()'') (\<lambda>_.
     res_bind (rt_assert (len \<noteq> 0) ''stack_.len()'') (\<lambda>_.
     res_bind (rt_assert ((top mod 2) * MiB = 0) ''stack_.top() % 2 * MiB == 0'') (\<lambda>_.
     res_bind (rt_assert ((len mod 2) * MiB = 0) ''stack_.len() % 2 * MiB == 0'') (\<lambda>_.
     let stack_pos = top + len - 256 - 8 in
     res_bind (rt_assert (stack_pos \<noteq> 0) ''stack_pos'') (\<lambda>_. Inr stack_pos))))))"

definition SetExitValue :: "nat \<Rightarrow> Thread \<Rightarrow> Thread" where
  "SetExitValue v t = t\<lparr>th_exit_value := Some v\<rparr>"

definition th_AddExport :: "nat \<Rightarrow> Thread \<Rightarrow> (u32 \<times> u64) \<times> Thread" where
  "th_AddExport fn t = (let t1 = Ref t in
     case fe_Add (th_exports t1) fn of (efn, fe) \<Rightarrow> (efn, t1\<lparr>th_exports := fe\<rparr>))"

definition PutObject :: "nat option \<Rightarrow> Thread \<Rightarrow> u32 \<times> Thread" where
  "PutObject v t = (let t1 = Ref t in
     case up_Push v (th_object_handles t1) of (i, p) \<Rightarrow> (i, t1\<lparr>th_object_handles := p\<rparr>))"

definition GetObject :: "u32 \<Rightarrow> Thread \<Rightarrow> nat option res" where
  "GetObject index t = up_GetLocal index (th_object_handles t)"

definition TakeObject :: "u32 \<Rightarrow> Thread \<Rightarrow> (nat option \<times> Thread) res" where
  "TakeObject index t = res_bind (up_Take index (th_object_handles t)) (\<lambda>(v, p).
     Inr (v, t\<lparr>th_object_handles := p\<rparr>))"

definition AddTimeoutData :: "TimeoutData \<Rightarrow> Thread \<Rightarrow> u32 \<times> Thread" where
  "AddTimeoutData d t = (let t1 = Ref t in
     case pool_Push td_IsEmpty d (th_timeout_data t1) of (i, p) \<Rightarrow> (i, t1\<lparr>th_timeout_data := p\<rparr>))"

definition FlagTimeoutCleared :: "u32 \<Rightarrow> Thread \<Rightarrow> bool \<times> Thread" where
  "FlagTimeoutCleared index t =
     (if unat index \<ge> length (th_timeout_data t) then (False, t)
      else let d = th_timeout_data t ! unat index in
        if td_IsEmpty d then (False, t)
        else (True, t\<lparr>th_timeout_data := (th_timeout_data t)[unat index := td_SetCleared d]\<rparr>))"

definition TakeTimeoutData :: "u32 \<Rightarrow> Thread \<Rightarrow> (TimeoutData \<times> Thread) res" where
  "TakeTimeoutData index t = (let t1 = Unref t in
     res_bind (pool_Take td_moved index (th_timeout_data t1)) (\<lambda>(d, p). Inr (d, t1\<lparr>th_timeout_data := p\<rparr>)))"

definition AddPromise :: "nat option \<Rightarrow> Thread \<Rightarrow> u32 \<times> Thread" where
  "AddPromise r t = (let t1 = Ref t in
     case up_Push r (th_promises t1) of (i, p) \<Rightarrow> (i, t1\<lparr>th_promises := p\<rparr>))"

definition FindPromise :: "nat \<Rightarrow> Thread \<Rightarrow> u32 Nullable" where
  "FindPromise r t = up_Find r (th_promises t)"

definition TakePromise :: "u32 \<Rightarrow> Thread \<Rightarrow> (nat option \<times> Thread) res" where
  "TakePromise index t = (let t1 = Unref t in
     res_bind (up_Take index (th_promises t1)) (\<lambda>(r, p). Inr (r, t1\<lparr>th_promises := p\<rparr>)))"

definition AddPriority :: "u64 \<Rightarrow> Thread \<Rightarrow> Thread" where
  "AddPriority count t = t\<lparr>th_priority := th_priority t + ucast count\<rparr>"

definition ResetPriority :: "Thread \<Rightarrow> Thread" where
  "ResetPriority t = t\<lparr>th_priority := 1\<rparr>"

definition SetTerminateFlag :: "Thread \<Rightarrow> Thread" where
  "SetTerminateFlag t = t\<lparr>th_terminate := True\<rparr>"

definition SetCallWrapper :: "nat \<Rightarrow> Thread \<Rightarrow> Thread res" where
  "SetCallWrapper fn t = res_bind (rt_assert (th_call_wrapper t = None) ''call_wrapper_.IsEmpty()'') (\<lambda>_.
     Inr (t\<lparr>th_call_wrapper := Some fn\<rparr>))"

definition SetUp :: "Thread \<Rightarrow> Thread res" where
  "SetUp t = (if th_type t = IDLE then Inr t
     else res_bind (rt_assert (\<not> th_iv8 t) ''nullptr == iv8_'') (\<lambda>_.
       res_bind (rt_assert (\<not> th_tpl_cache t) ''nullptr == tpl_cache_'') (\<lambda>_.
         Inr (t\<lparr>th_iv8 := True, th_tpl_cache := True\<rparr>))))"

text \<open>
  \<open>TearDown\<close>: the assertion \<open>!"main isolate exited"\<close> is false for every thread, so the cleanup after
  it is never reached; it is kept here as the code has it.
\<close>

definition TearDown :: "nat \<Rightarrow> nat option \<Rightarrow> Thread \<Rightarrow> Thread res" where
  "TearDown this current t =
     res_bind (rt_assert (th_type t = DEFAULT) ''ThreadType::DEFAULT == type_'') (\<lambda>_.
     res_bind (rt_assert (th_iv8 t) ''iv8_'') (\<lambda>_.
     res_bind (rt_assert (th_tpl_cache t) ''tpl_cache_'') (\<lambda>_.
     res_bind (rt_assert False ''main isolate exited'') (\<lambda>_.
     res_bind (rt_assert (current = Some this) ''this == thread_mgr_->current_thread()'') (\<lambda>_.
       Inr (t\<lparr>th_timeout_data := [], th_object_handles := [], th_promises := [], th_context := False,
              th_args := None, th_exit_value := None, th_call_wrapper := None, th_tpl_cache := False,
              th_iv8 := False, th_type := TERMINATED\<rparr>))))))"

record ThreadInfo =
  ti_filename :: outval
  ti_runtime :: u64
  ti_ev_count :: u64

definition GetInfo :: "Thread \<Rightarrow> ThreadInfo" where
  "GetInfo t = \<lparr>ti_filename = th_filename t, ti_runtime = th_runtime t, ti_ev_count = th_ev_count t\<rparr>"

section \<open>Live timers, handles and promises\<close>

abbreviation timers :: "Thread \<Rightarrow> u32 \<rightharpoonup> TimeoutData" where
  "timers t \<equiv> pool_look td_IsEmpty (th_timeout_data t)"

abbreviation handles :: "Thread \<Rightarrow> u32 \<rightharpoonup> nat option" where
  "handles t \<equiv> pool_look (\<lambda>x. x = None) (th_object_handles t)"

abbreviation promises :: "Thread \<Rightarrow> u32 \<rightharpoonup> nat option" where
  "promises t \<equiv> pool_look (\<lambda>x. x = None) (th_promises t)"

lemma td_moved_empty [simp]: "td_IsEmpty (td_moved d)"
  by (simp add: td_IsEmpty_def td_moved_def)

interpretation timeouts: indexed_pool "pool_Push td_IsEmpty" "pool_Take td_moved" "pool_look td_IsEmpty" pool_room "\<lambda>d. \<not> td_IsEmpty d"
proof unfold_locales
  fix s s' v i
  assume a: "pool_room s" "pool_Push td_IsEmpty v s = (i, s')" "\<not> td_IsEmpty v"
  show "pool_look td_IsEmpty s i = None \<and> pool_look td_IsEmpty s' = (pool_look td_IsEmpty s)(i \<mapsto> v)"
    using pool_Push_free [OF a(1,2)] pool_Push_look [OF a] by simp
next
  fix s s' v i
  assume "pool_Take td_moved i s = Inr (v, s')"
  from pool_Take_look [OF this, of td_IsEmpty]
  show "pool_look td_IsEmpty s' = (pool_look td_IsEmpty s)(i := None) \<and> (\<forall>w. pool_look td_IsEmpty s i = Some w \<longrightarrow> v = w)"
    by simp
qed (rule pool_Take_live)

lemma FlagTimeoutCleared_timers:
  assumes "FlagTimeoutCleared i t = (b, t')"
  shows "b \<longleftrightarrow> timers t i \<noteq> None"
    and "timers t' = (case timers t i of None \<Rightarrow> timers t | Some d \<Rightarrow> (timers t)(i \<mapsto> td_SetCleared d))"
    and "length (th_timeout_data t') = length (th_timeout_data t)" "th_ethread t' = th_ethread t"
proof -
  have n: "td_IsEmpty (td_SetCleared d) = td_IsEmpty d" for d by (simp add: td_IsEmpty_def td_SetCleared_def)
  show "b \<longleftrightarrow> timers t i \<noteq> None"
    "length (th_timeout_data t') = length (th_timeout_data t)" "th_ethread t' = th_ethread t"
    using assms by (auto simp: FlagTimeoutCleared_def pool_look_def Let_def split: if_splits)
  show "timers t' = (case timers t i of None \<Rightarrow> timers t | Some d \<Rightarrow> (timers t)(i \<mapsto> td_SetCleared d))"
  proof
    fix j
    show "timers t' j = (case timers t i of None \<Rightarrow> timers t | Some d \<Rightarrow> (timers t)(i \<mapsto> td_SetCleared d)) j"
      using assms by (cases "j = i")
        (auto simp: FlagTimeoutCleared_def pool_look_def Let_def n split: if_splits dest: unat_neq)
  qed
qed

section \<open>The reference count\<close>

datatype thread_op = OpAddTimeout TimeoutData | OpTakeTimeout u32 | OpPutObject nat | OpTakeObject u32
  | OpAddPromise nat | OpTakePromise u32 | OpAddExport nat

text \<open>
  A sequence of operations in which only live timers and promises are taken and the tables have
  room, as the event loop guarantees.
\<close>

fun thread_run :: "thread_op list \<Rightarrow> Thread \<Rightarrow> Thread option" where
  "thread_run [] t = Some t"
| "thread_run (OpAddTimeout d # ops) t =
     (if pool_room (th_timeout_data t) \<and> \<not> td_IsEmpty d then thread_run ops (snd (AddTimeoutData d t)) else None)"
| "thread_run (OpTakeTimeout i # ops) t =
     (if timers t i = None then None else case TakeTimeoutData i t of Inl e \<Rightarrow> None | Inr (d, t') \<Rightarrow> thread_run ops t')"
| "thread_run (OpPutObject v # ops) t =
     (if pool_room (th_object_handles t) then thread_run ops (snd (PutObject (Some v) t)) else None)"
| "thread_run (OpTakeObject i # ops) t = (case TakeObject i t of Inl e \<Rightarrow> None | Inr (d, t') \<Rightarrow> thread_run ops t')"
| "thread_run (OpAddPromise r # ops) t =
     (if pool_room (th_promises t) then thread_run ops (snd (AddPromise (Some r) t)) else None)"
| "thread_run (OpTakePromise i # ops) t =
     (if promises t i = None then None else case TakePromise i t of Inl e \<Rightarrow> None | Inr (d, t') \<Rightarrow> thread_run ops t')"
| "thread_run (OpAddExport f # ops) t = thread_run ops (snd (th_AddExport f t))"

definition live_count :: "('a \<Rightarrow> bool) \<Rightarrow> 'a list \<Rightarrow> nat" where
  "live_count emp xs = length (filter (\<lambda>x. \<not> emp x) xs)"

definition references :: "Thread \<Rightarrow> nat" where
  "references t = live_count td_IsEmpty (th_timeout_data t) + live_count (\<lambda>x. x = None) (th_promises t) +
     length (fe_data (th_exports t))"

fun puts :: "thread_op list \<Rightarrow> nat" where
  "puts [] = 0"
| "puts (OpPutObject v # ops) = Suc (puts ops)"
| "puts (_ # ops) = puts ops"

lemma live_count_update:
  "i < length xs \<Longrightarrow> live_count emp (xs[i := v]) + (if emp (xs ! i) then 0 else 1) = live_count emp xs + (if emp v then 0 else 1)"
proof (induction xs arbitrary: i)
  case (Cons x xs)
  show ?case
  proof (cases i)
    case (Suc j)
    then show ?thesis using Cons.IH [of j] Cons.prems by (simp add: live_count_def split: if_splits)
  qed (simp add: live_count_def)
qed simp

lemma live_count_push:
  assumes "pool_room xs" "pool_Push emp v xs = (i, ys)" "\<not> emp v"
  shows "live_count emp ys = Suc (live_count emp xs)"
  using assms(1,2)
proof (rule pool_Push_slot)
  assume "unat i < length xs" "emp (xs ! unat i)" "ys = xs[unat i := v]"
  then show ?thesis using live_count_update [of "unat i" xs emp v] assms(3) by simp
qed (use assms(3) in \<open>simp add: live_count_def\<close>)

lemma live_count_take:
  assumes "pool_Take mvd i xs = Inr (v, ys)" "pool_look emp xs i \<noteq> None" "\<And>x. emp (mvd x)"
  shows "Suc (live_count emp ys) = live_count emp xs"
  using assms live_count_update [of "unat i" xs emp "mvd (xs ! unat i)"]
  by (auto simp: pool_Take_def pool_look_def res_iffs split: if_splits)

lemma thread_run_refs:
  "thread_run ops t = Some t' \<Longrightarrow> th_ref_count t = of_nat (references t + k) \<Longrightarrow>
     th_ref_count t' = of_nat (references t' + puts ops + k)"
proof (induction ops t arbitrary: k rule: thread_run.induct)
  case (2 d ops t)
  obtain i p where p: "pool_Push td_IsEmpty d (th_timeout_data t) = (i, p)" by fastforce
  let ?t = "snd (AddTimeoutData d t)"
  have "references ?t = Suc (references t)" "th_ref_count ?t = th_ref_count t + 1"
    using 2 p live_count_push [OF _ p] by (auto simp: AddTimeoutData_def references_def Ref_def split: if_splits)
  then show ?case using 2 by (auto split: if_splits)
next
  case (3 i ops t)
  then obtain d t1 where t: "TakeTimeoutData i t = Inr (d, t1)" "thread_run ops t1 = Some t'" "timers t i \<noteq> None"
    by (auto split: if_splits sum.splits)
  then have "Suc (references t1) = references t" "th_ref_count t1 = th_ref_count t - 1"
    using live_count_take [of td_moved i "th_timeout_data t" _ _ td_IsEmpty]
    by (auto simp: TakeTimeoutData_def references_def Unref_def res_iffs Let_def)
  then have "th_ref_count t1 = of_nat (references t1 + k)" using "3.prems"(2) by (simp flip: \<open>Suc (references t1) = references t\<close>)
  then show ?case using "3.IH" [OF t(3) t(1) refl t(2)] by simp
next
  case (4 v ops t)
  obtain i p where p: "up_Push (Some v) (th_object_handles t) = (i, p)" by fastforce
  let ?t = "snd (PutObject (Some v) t)"
  have "references ?t = references t" "th_ref_count ?t = th_ref_count t + 1"
    using p by (auto simp: PutObject_def references_def Ref_def)
  then have "th_ref_count ?t = of_nat (references ?t + Suc k)" using 4(3) by simp
  from 4(1) [OF _ _ this] show ?case using 4(2) by (auto split: if_splits)
next
  case (5 i ops t)
  then obtain d t1 where t: "TakeObject i t = Inr (d, t1)" "thread_run ops t1 = Some t'" by (auto split: sum.splits)
  then have "references t1 = references t" "th_ref_count t1 = th_ref_count t"
    by (auto simp: TakeObject_def references_def res_iffs)
  then show ?case using 5 t by auto
next
  case (6 r ops t)
  obtain i p where p: "up_Push (Some r) (th_promises t) = (i, p)" by fastforce
  let ?t = "snd (AddPromise (Some r) t)"
  have "references ?t = Suc (references t)" "th_ref_count ?t = th_ref_count t + 1"
    using 6 p live_count_push [OF _ p [unfolded up_pool]]
    by (auto simp: AddPromise_def references_def Ref_def split: if_splits)
  then show ?case using 6 by (auto split: if_splits)
next
  case (7 i ops t)
  then obtain d t1 where t: "TakePromise i t = Inr (d, t1)" "thread_run ops t1 = Some t'" "promises t i \<noteq> None"
    by (auto split: if_splits sum.splits)
  then have "Suc (references t1) = references t" "th_ref_count t1 = th_ref_count t - 1"
    using live_count_take [of "\<lambda>_. None" i "th_promises t" _ _ "\<lambda>x. x = None"]
    by (auto simp: TakePromise_def references_def Unref_def up_pool res_iffs Let_def)
  then have "th_ref_count t1 = of_nat (references t1 + k)" using "7.prems"(2) by (simp flip: \<open>Suc (references t1) = references t\<close>)
  then show ?case using "7.IH" [OF t(3) t(1) refl t(2)] by simp
next
  case (8 f ops t)
  let ?t = "snd (th_AddExport f t)"
  have "references ?t = Suc (references t)" "th_ref_count ?t = th_ref_count t + 1"
    by (auto simp: th_AddExport_def references_def Ref_def fe_Add_def Let_def)
  then show ?case using 8 by auto
qed simp

text \<open>
  C34. The reference count of a thread. After any sequence of operations on a new thread it is the
  number of live timers, pending promises and exported functions, plus one for every
  object handle ever put: \<open>TakeObject\<close> does not give the reference back. So a thread with a pending
  timer is kept alive, and one that used \<open>setImmediate\<close> once never gets back to zero.
\<close>

theorem reference_count:
  assumes "thread_run ops (mk_Thread n e stk) = Some t"
  shows "th_ref_count t = of_nat (references t + puts ops)"
  using thread_run_refs [OF assms, of 0] by (simp add: mk_Thread_def references_def live_count_def)

definition sample_thread :: Thread where
  "sample_thread = mk_Thread 0 (mk_EngineThread DEFAULT) \<lparr>vs_top = 0x2000000000, vs_len = 0x200000\<rparr>"

definition sample_timer :: TimeoutData where
  "sample_timer = \<lparr>td_cb = Some 7, td_args_array = None, td_delay = 10, td_cleared = False, td_has_args = False, td_autoreset = False\<rparr>"

theorem reference_count_witness:
  "\<exists>t. thread_run [OpAddTimeout sample_timer, OpPutObject 3, OpTakeObject 0, OpTakeTimeout 0] sample_thread = Some t \<and>
     references t = 0 \<and> th_ref_count t = 1"
proof -
  let ?ops = "[OpAddTimeout sample_timer, OpPutObject 3, OpTakeObject 0, OpTakeTimeout 0]"
  have "thread_run ?ops sample_thread \<noteq> None"
    by (simp add: sample_thread_def mk_Thread_def sample_timer_def td_IsEmpty_def pool_room_def AddTimeoutData_def PutObject_def
        TakeObject_def TakeTimeoutData_def Ref_def Unref_def pool_Push_def up_Push_def up_Take_def pool_Take_def pool_look_def Let_def)
  then obtain t where t: "thread_run ?ops sample_thread = Some t" by blast
  have "references t = 0"
    using t by (auto simp: sample_thread_def mk_Thread_def sample_timer_def td_IsEmpty_def td_moved_def pool_room_def
        AddTimeoutData_def PutObject_def TakeObject_def TakeTimeoutData_def Ref_def Unref_def pool_Push_def up_Push_def
        up_Take_def pool_Take_def pool_look_def Let_def references_def live_count_def)
  then show ?thesis using t reference_count [of ?ops 0 "mk_EngineThread DEFAULT" _ t] by (simp add: sample_thread_def)
qed

end
