(* ===== verification/Timeouts.thy ===== *)
theory Timeouts
  imports Prelude "HOL-Library.Multiset"
begin

text \<open>
  \<open>Timeouts<T>\<close> of \<^verbatim>\<open>src/src/kernel/timeouts.h\<close>: a \<open>std::priority_queue\<close> over a vector with a comparer
  that puts the earliest time on top. The queue is modelled down to the array heap: \<open>push_heap\<close>
  and \<open>pop_heap\<close> are the ones of the standard library the kernel is built with
  (\<^verbatim>\<open>src/deps/libcxx/include/algorithm\<close>), loops with a hole included, since ties are
  delivered in the order this heap happens to give.

  The locale \<open>timer_queue\<close> is the contract the scheduler relies on, \<open>heap_queue\<close> its instance: no
  timeout is lost, duplicated or delivered early, and the earliest is taken first.
\<close>

section \<open>The queue\<close>

record 'a TimeoutItem =
  ti_item :: 'a
  ti_time :: u64

definition TimeoutItemComparer :: "'a TimeoutItem \<Rightarrow> 'a TimeoutItem \<Rightarrow> bool" where
  "TimeoutItemComparer lhs rhs \<longleftrightarrow> ti_time lhs > ti_time rhs"

function sift_up_loop :: "'a TimeoutItem list \<Rightarrow> nat \<Rightarrow> nat \<Rightarrow> 'a TimeoutItem \<Rightarrow> 'a TimeoutItem list" where
  "sift_up_loop v lst len t =
     (let v1 = v[lst := v ! len] in
      if len = 0 then v1[len := t]
      else let len1 = (len - 1) div 2 in
        if TimeoutItemComparer (v1 ! len1) t then sift_up_loop v1 len len1 t else v1[len := t])"
  by pat_completeness auto
termination by (relation "measure (\<lambda>(v, lst, len, t). len)") auto

definition push_heap :: "'a TimeoutItem list \<Rightarrow> 'a TimeoutItem list" where
  "push_heap v =
     (if length v > 1 then
        let lst = length v - 1; len = (length v - 2) div 2 in
        if TimeoutItemComparer (v ! len) (v ! lst) then sift_up_loop v lst len (v ! lst) else v
      else v)"

definition larger_child :: "'a TimeoutItem list \<Rightarrow> nat \<Rightarrow> nat \<Rightarrow> nat" where
  "larger_child v len child =
     (if child + 1 < len \<and> TimeoutItemComparer (v ! child) (v ! (child + 1)) then child + 1 else child)"

function sift_down_loop ::
  "'a TimeoutItem list \<Rightarrow> nat \<Rightarrow> nat \<Rightarrow> nat \<Rightarrow> 'a TimeoutItem \<Rightarrow> 'a TimeoutItem list" where
  "sift_down_loop v len start child tp =
     (let v1 = v[start := v ! child] in
      if len < 2 \<or> (len - 2) div 2 < child then v1[child := tp]
      else let child1 = larger_child v1 len (2 * child + 1) in
        if \<not> TimeoutItemComparer (v1 ! child1) tp then sift_down_loop v1 len child child1 tp
        else v1[child := tp])"
  by pat_completeness auto
termination
  by (relation "measure (\<lambda>(v, len, start, child, tp). len - child)")
    (auto simp: larger_child_def not_less)

definition sift_down :: "'a TimeoutItem list \<Rightarrow> nat \<Rightarrow> nat \<Rightarrow> 'a TimeoutItem list" where
  "sift_down v len start =
     (if len < 2 \<or> (len - 2) div 2 < start then v
      else let child = larger_child v len (2 * start + 1) in
        if TimeoutItemComparer (v ! child) (v ! start) then v
        else sift_down_loop v len start child (v ! start))"

definition pop_heap :: "'a TimeoutItem list \<Rightarrow> 'a TimeoutItem list" where
  "pop_heap v =
     (if length v > 1 then
        let lst = length v - 1 in sift_down (v[0 := v ! lst, lst := v ! 0]) lst 0
      else v)"

text \<open>\<open>Timeouts\<close> itself; taking from an empty queue is undefined in the code.\<close>

definition to_Set :: "'a \<Rightarrow> u64 \<Rightarrow> 'a TimeoutItem list \<Rightarrow> 'a TimeoutItem list" where
  "to_Set item when_ticks q = push_heap (q @ [\<lparr>ti_item = item, ti_time = when_ticks\<rparr>])"

definition to_Elapsed :: "u64 \<Rightarrow> 'a TimeoutItem list \<Rightarrow> bool" where
  "to_Elapsed ticks_now q \<longleftrightarrow> q \<noteq> [] \<and> ticks_now \<ge> ti_time (q ! 0)"

definition to_Take :: "'a TimeoutItem list \<Rightarrow> ('a \<times> 'a TimeoutItem list) res" where
  "to_Take q = (if q = [] then Inl (OutOfBounds ''queue_.top()'')
     else Inr (ti_item (q ! 0), butlast (pop_heap q)))"

declare sift_up_loop.simps [simp del] sift_down_loop.simps [simp del]

section \<open>The heap invariant\<close>

definition par :: "nat \<Rightarrow> nat" where "par i = (i - 1) div 2"

definition heap_upto :: "'a TimeoutItem list \<Rightarrow> nat \<Rightarrow> bool" where
  "heap_upto v n \<longleftrightarrow> (\<forall>i < n. 0 < i \<longrightarrow> ti_time (v ! par i) \<le> ti_time (v ! i))"

lemma par_less: "0 < i \<Longrightarrow> par i < i"
  by (auto simp: par_def)

lemma par_eq: "0 < i \<Longrightarrow> par i = j \<longleftrightarrow> i = 2 * j + 1 \<or> i = 2 * j + 2"
  by (auto simp: par_def)

lemma mset_swap_hole:
  assumes "i < length v" "j < length v" "i \<noteq> j"
  shows "mset (v[i := v ! j, j := t]) = mset (v[i := t])"
proof -
  have "v[i := v ! j, j := t] = (v[i := t])[i := v[i := t] ! j, j := v[i := t] ! i]"
    using assms by (simp add: list_update_swap)
  then show ?thesis using assms mset_swap [of j "v[i := t]" i] by (simp add: list_update_swap)
qed

text \<open>
  One level of \<open>sift_up\<close>: \<open>v[lst := t]\<close> is a heap but for \<open>lst\<close>, whose children are not below its
  parent; moving the parent down makes the parent's place the only fault.
\<close>

definition up_fault :: "'a TimeoutItem list \<Rightarrow> nat \<Rightarrow> 'a TimeoutItem \<Rightarrow> bool" where
  "up_fault v h t \<longleftrightarrow> h < length v \<and>
     (\<forall>i < length v. 0 < i \<longrightarrow> i \<noteq> h \<longrightarrow> ti_time (v[h := t] ! par i) \<le> ti_time (v[h := t] ! i)) \<and>
     (\<forall>i < length v. 0 < i \<longrightarrow> par i = h \<longrightarrow> 0 < h \<longrightarrow> ti_time (v ! par h) \<le> ti_time (v ! i))"

lemma up_faultD:
  assumes "up_fault v h t"
  shows "h < length v"
    and "i < length v \<Longrightarrow> 0 < i \<Longrightarrow> i \<noteq> h \<Longrightarrow> par i \<noteq> h \<Longrightarrow> ti_time (v ! par i) \<le> ti_time (v ! i)"
    and "i < length v \<Longrightarrow> 0 < i \<Longrightarrow> par i = h \<Longrightarrow> ti_time t \<le> ti_time (v ! i)"
    and "i < length v \<Longrightarrow> 0 < i \<Longrightarrow> par i = h \<Longrightarrow> 0 < h \<Longrightarrow> ti_time (v ! par h) \<le> ti_time (v ! i)"
proof -
  show h: "h < length v" using assms by (simp add: up_fault_def)
  show "i < length v \<Longrightarrow> 0 < i \<Longrightarrow> i \<noteq> h \<Longrightarrow> par i \<noteq> h \<Longrightarrow> ti_time (v ! par i) \<le> ti_time (v ! i)"
    using assms unfolding up_fault_def by (metis nth_list_update_neq)
  show "i < length v \<Longrightarrow> 0 < i \<Longrightarrow> par i = h \<Longrightarrow> ti_time t \<le> ti_time (v ! i)"
    using assms h par_less [of i] unfolding up_fault_def by (metis nth_list_update_neq nth_list_update_eq less_irrefl)
  show "i < length v \<Longrightarrow> 0 < i \<Longrightarrow> par i = h \<Longrightarrow> 0 < h \<Longrightarrow> ti_time (v ! par h) \<le> ti_time (v ! i)"
    using assms by (simp add: up_fault_def)
qed

lemma up_faultI:
  assumes "h < length v"
    and "\<And>i. i < length v \<Longrightarrow> 0 < i \<Longrightarrow> i \<noteq> h \<Longrightarrow> par i \<noteq> h \<Longrightarrow> ti_time (v ! par i) \<le> ti_time (v ! i)"
    and "\<And>i. i < length v \<Longrightarrow> 0 < i \<Longrightarrow> par i = h \<Longrightarrow> ti_time t \<le> ti_time (v ! i)"
    and "\<And>i. i < length v \<Longrightarrow> 0 < i \<Longrightarrow> par i = h \<Longrightarrow> 0 < h \<Longrightarrow> ti_time (v ! par h) \<le> ti_time (v ! i)"
  shows "up_fault v h t"
  unfolding up_fault_def using assms by (auto simp: nth_list_update)

lemma up_fault_step:
  assumes "up_fault v h t" "0 < h" "ti_time t < ti_time (v ! par h)"
  shows "up_fault (v[h := v ! par h]) (par h) t"
proof -
  let ?p = "par h" and ?v = "v[h := v ! par h]"
  note F = up_faultD [OF assms(1)]
  have p: "?p < h" using assms(2) by (rule par_less)
  have pp: "0 < ?p \<Longrightarrow> par ?p < ?p" by (rule par_less)
  have up: "0 < ?p \<Longrightarrow> ti_time (v ! par ?p) \<le> ti_time (v ! ?p)" using F(2) [of ?p] F(1) p pp by simp
  show ?thesis
  proof (rule up_faultI)
    show "?p < length ?v" using F(1) p by simp
  next
    fix i assume i: "i < length ?v" "0 < i" "i \<noteq> ?p" "par i \<noteq> ?p"
    then have "i \<noteq> h" by auto
    then show "ti_time (?v ! par i) \<le> ti_time (?v ! i)"
      using i F(2) [of i] F(4) [of i] F(1) assms(2) by (cases "par i = h") auto
  next
    fix i assume i: "i < length ?v" "0 < i" "par i = ?p"
    then show "ti_time t \<le> ti_time (?v ! i)"
      using assms(3) F(2) [of i] F(1) p by (cases "i = h") auto
  next
    fix i assume i: "i < length ?v" "0 < i" "par i = ?p" "0 < ?p"
    then show "ti_time (?v ! par ?p) \<le> ti_time (?v ! i)"
      using up pp p F(1) F(2) [of i] by (cases "i = h") auto
  qed
qed

lemma up_fault_done:
  assumes "up_fault v h t" "0 < h \<Longrightarrow> ti_time (v ! par h) \<le> ti_time t"
  shows "heap_upto (v[h := t]) (length v)"
proof -
  note F = up_faultD [OF assms(1)]
  have "ti_time (v[h := t] ! par i) \<le> ti_time (v[h := t] ! i)" if "i < length v" "0 < i" for i
    using that assms(2) F(1) F(2) [of i] F(3) [of i] par_less [of i] by (cases "i = h"; cases "par i = h") auto
  then show ?thesis by (simp add: heap_upto_def)
qed

lemma sift_up_loop_ok:
  assumes "up_fault v h t" "0 < h" "ti_time t < ti_time (v ! par h)"
  shows "heap_upto (sift_up_loop v h (par h) t) (length v) \<and>
    mset (sift_up_loop v h (par h) t) = mset (v[h := t]) \<and> length (sift_up_loop v h (par h) t) = length v"
  using assms
proof (induction "par h" arbitrary: v h rule: less_induct)
  case less
  let ?p = "par h" and ?v = "v[h := v ! par h]"
  have hl: "h < length v" by (rule up_faultD(1) [OF less.prems(1)])
  have p: "?p < h" using less.prems(2) by (rule par_less)
  have F: "up_fault ?v ?p t" by (rule up_fault_step) (use less.prems in auto)
  have M: "mset (?v[?p := t]) = mset (v[h := t])" by (rule mset_swap_hole) (use hl p in auto)
  show ?case
  proof (cases "0 < ?p \<and> ti_time t < ti_time (?v ! par ?p)")
    case True
    then have "sift_up_loop v h ?p t = sift_up_loop ?v ?p (par ?p) t"
      by (subst sift_up_loop.simps) (auto simp: Let_def TimeoutItemComparer_def par_def)
    then show ?thesis using less.hyps [OF par_less F] True M by auto
  next
    case False
    then have "sift_up_loop v h ?p t = ?v[?p := t]"
      by (subst sift_up_loop.simps) (auto simp: Let_def TimeoutItemComparer_def par_def)
    moreover have "heap_upto (?v[?p := t]) (length ?v)"
      by (rule up_fault_done [OF F]) (use False in auto)
    ultimately show ?thesis using M by simp
  qed
qed

lemma push_heap_ok:
  assumes "heap_upto q (length q)"
  shows "heap_upto (push_heap (q @ [x])) (Suc (length q)) \<and> mset (push_heap (q @ [x])) = add_mset x (mset q)"
proof (cases "q = []")
  case False
  let ?v = "q @ [x]" and ?h = "length q"
  have h: "0 < ?h" using False by simp
  have F: "up_fault ?v ?h x"
  proof (rule up_faultI)
    fix i assume i: "i < length ?v" "0 < i" "i \<noteq> ?h" "par i \<noteq> ?h"
    then have "i < length q" "par i < length q" using par_less [of i] by auto
    then show "ti_time (?v ! par i) \<le> ti_time (?v ! i)"
      using assms i by (simp add: heap_upto_def nth_append)
  next
    fix i assume "i < length ?v" "0 < i" "par i = ?h"
    then have False using par_less [of i] by simp
    then show "ti_time x \<le> ti_time (?v ! i)" "0 < ?h \<Longrightarrow> ti_time (?v ! par ?h) \<le> ti_time (?v ! i)" by simp_all
  qed simp
  have p: "(length ?v - 2) div 2 = par ?h" using h by (simp add: par_def)
  show ?thesis
  proof (cases "ti_time x < ti_time (?v ! par ?h)")
    case True
    then have "push_heap ?v = sift_up_loop ?v ?h (par ?h) x"
      using h p by (simp add: push_heap_def TimeoutItemComparer_def Let_def)
    then show ?thesis using sift_up_loop_ok [OF F h True] by simp
  next
    case False
    then have "push_heap ?v = ?v" using h p by (simp add: push_heap_def TimeoutItemComparer_def Let_def)
    moreover have "heap_upto (?v[?h := x]) (length ?v)" by (rule up_fault_done [OF F]) (use False in auto)
    ultimately show ?thesis by simp
  qed
qed (simp add: push_heap_def heap_upto_def)

text \<open>
  One level of \<open>sift_down\<close>: \<open>v[h := t]\<close> is a heap up to \<open>n\<close> but for the children of \<open>h\<close>; \<open>c\<close> is its
  earliest child and not below the parent of \<open>h\<close>.
\<close>

definition down_fault :: "'a TimeoutItem list \<Rightarrow> nat \<Rightarrow> nat \<Rightarrow> nat \<Rightarrow> bool" where
  "down_fault v n h c \<longleftrightarrow> n \<le> length v \<and> c < n \<and> 0 < c \<and> par c = h \<and>
     (\<forall>i < n. 0 < i \<longrightarrow> i \<noteq> h \<longrightarrow> par i \<noteq> h \<longrightarrow> ti_time (v ! par i) \<le> ti_time (v ! i)) \<and>
     (\<forall>i < n. 0 < i \<longrightarrow> par i = h \<longrightarrow> ti_time (v ! c) \<le> ti_time (v ! i)) \<and>
     (0 < h \<longrightarrow> ti_time (v ! par h) \<le> ti_time (v ! c))"

lemma down_faultD:
  assumes "down_fault v n h c"
  shows "n \<le> length v" "c < n" "0 < c" "par c = h" "h < c"
    and "i < n \<Longrightarrow> 0 < i \<Longrightarrow> i \<noteq> h \<Longrightarrow> par i \<noteq> h \<Longrightarrow> ti_time (v ! par i) \<le> ti_time (v ! i)"
    and "i < n \<Longrightarrow> 0 < i \<Longrightarrow> par i = h \<Longrightarrow> ti_time (v ! c) \<le> ti_time (v ! i)"
    and "0 < h \<Longrightarrow> ti_time (v ! par h) \<le> ti_time (v ! c)"
  using assms par_less [of c] unfolding down_fault_def by auto

lemma larger_child_min:
  assumes "2 * h + 1 < n"
  shows "larger_child v n (2 * h + 1) < n" "0 < larger_child v n (2 * h + 1)" "par (larger_child v n (2 * h + 1)) = h"
    and "\<And>i. i < n \<Longrightarrow> 0 < i \<Longrightarrow> par i = h \<Longrightarrow> ti_time (v ! larger_child v n (2 * h + 1)) \<le> ti_time (v ! i)"
  using assms by (auto simp: larger_child_def TimeoutItemComparer_def par_eq not_less)

text \<open>Where moving \<open>t\<close> to the place of \<open>c\<close> leaves the order between other places.\<close>

lemma down_fault_moved:
  assumes "down_fault v n h c" "ti_time (v ! c) \<le> ti_time t" "i < n" "0 < i" "par i \<noteq> c"
  shows "ti_time (v[h := v ! c, c := t] ! par i) \<le> ti_time (v[h := v ! c, c := t] ! i)"
proof -
  note F = down_faultD [OF assms(1)]
  have len: "h < length v" "c < length v" using F(1,2,5) by auto
  consider "i = h" | "i \<noteq> h" "par i = h" "i = c" | "i \<noteq> h" "par i = h" "i \<noteq> c" | "i \<noteq> h" "par i \<noteq> h" by blast
  then show ?thesis
  proof cases
    case 1
    then show ?thesis using F(5,8) assms(4) par_less [of h] len by simp
  next
    case 4
    then have "i \<noteq> c" using F(4) by auto
    then show ?thesis using 4 F(6) [of i] assms(3-5) len by simp
  qed (use F(5) F(7) [of i] assms len in auto)
qed

lemma down_fault_step:
  fixes t :: "'a TimeoutItem" and v :: "'a TimeoutItem list"
  assumes "down_fault v n h c" "ti_time (v ! c) \<le> ti_time t" "2 * c + 1 < n"
  defines "v1 \<equiv> v[h := v ! c]" and "d \<equiv> larger_child (v[h := v ! c]) n (2 * c + 1)"
  shows "down_fault v1 n c d"
proof -
  note F = down_faultD [OF assms(1)]
  have len: "h < length v" "c < length v" using F(1,2,5) by auto
  have hc: "h \<noteq> c" using F(5) by simp
  note C = larger_child_min [OF assms(3), where v = "v[h := v ! c]", folded d_def, folded v1_def]
  have ch: "d \<noteq> h" using C(2,3) F(5) par_less [of d] by auto
  have dle: "ti_time (v ! c) \<le> ti_time (v1 ! d)"
    using F(6) [of d] C(1-3) ch hc unfolding v1_def by (metis nth_list_update_neq)
  show ?thesis
    unfolding down_fault_def
  proof (intro conjI allI impI)
    fix i assume i: "i < n" "0 < i" "i \<noteq> c" "par i \<noteq> c"
    have "v1 ! par i = v[h := v ! c, c := t] ! par i" "v1 ! i = v[h := v ! c, c := t] ! i"
      using i unfolding v1_def by (simp_all del: list_update_swap)
    then show "ti_time (v1 ! par i) \<le> ti_time (v1 ! i)" using down_fault_moved [OF assms(1,2) i(1,2,4)] by simp
  next
    show "ti_time (v1 ! par c) \<le> ti_time (v1 ! d)" using dle F(4) len unfolding v1_def by simp
  qed (use F(1) C v1_def in auto)
qed

lemma no_child: "(n < 2 \<or> (n - 2) div 2 < c) \<Longrightarrow> i < n \<Longrightarrow> 0 < i \<Longrightarrow> par i \<noteq> c"
  by (auto simp: par_def)

lemma sift_down_loop_ok:
  assumes "down_fault v n h c" "ti_time (v ! c) \<le> ti_time t"
  shows "heap_upto (sift_down_loop v n h c t) n \<and> mset (sift_down_loop v n h c t) = mset (v[h := t]) \<and>
    (\<forall>i \<ge> n. sift_down_loop v n h c t ! i = v ! i) \<and> length (sift_down_loop v n h c t) = length v"
  using assms
proof (induction "n - c" arbitrary: v h c rule: less_induct)
  case less
  let ?v = "v[h := v ! c]" let ?d = "larger_child ?v n (2 * c + 1)"
  note F = down_faultD [OF less.prems(1)]
  have hc: "h < length v" "c < length v" "h \<noteq> c" using F(1,2,5) by auto
  have M: "mset (?v[c := t]) = mset (v[h := t])" by (rule mset_swap_hole) (use hc in auto)
  have stop: "heap_upto (?v[c := t]) n" if cs: "\<And>i. i < n \<Longrightarrow> 0 < i \<Longrightarrow> par i = c \<Longrightarrow> ti_time t \<le> ti_time (?v ! i)"
    unfolding heap_upto_def
  proof (intro allI impI)
    fix i assume i: "i < n" "0 < i"
    show "ti_time (?v[c := t] ! par i) \<le> ti_time (?v[c := t] ! i)"
      using down_fault_moved [OF less.prems i] cs [OF i] hc par_less [OF i(2)] by (cases "par i = c") auto
  qed
  have out: "?v[c := t] ! i = v ! i" if "i \<ge> n" for i using that F(2,5) by simp
  show ?case
  proof (cases "n < 2 \<or> (n - 2) div 2 < c")
    case True
    then have "sift_down_loop v n h c t = ?v[c := t]" by (subst sift_down_loop.simps) simp
    then show ?thesis using stop no_child [OF True] M out by simp
  next
    case False
    then have c: "2 * c + 1 < n" by linarith
    note C = larger_child_min [OF c, where v = ?v]
    show ?thesis
    proof (cases "ti_time (?v ! ?d) \<le> ti_time t")
      case True
      have eq: "sift_down_loop v n h c t = sift_down_loop ?v n c ?d t"
        using False True by (subst sift_down_loop.simps) (simp add: Let_def TimeoutItemComparer_def not_less)
      have "c < ?d" using C(2,3) par_less [of ?d] by simp
      then have m: "n - ?d < n - c" using C(1) by linarith
      show ?thesis
        using less.hyps [OF m down_fault_step [OF less.prems c] True] eq M F(2,5) by (auto simp: nth_list_update)
    next
      case nle: False
      have "sift_down_loop v n h c t = ?v[c := t]"
        using False nle by (subst sift_down_loop.simps) (simp add: Let_def TimeoutItemComparer_def not_less)
      then show ?thesis using stop C(4) nle M out by force
    qed
  qed
qed

lemma sift_down_ok:
  assumes "n \<le> length v" "\<And>i. i < n \<Longrightarrow> 0 < i \<Longrightarrow> par i \<noteq> 0 \<Longrightarrow> ti_time (v ! par i) \<le> ti_time (v ! i)"
  shows "heap_upto (sift_down v n 0) n \<and> mset (sift_down v n 0) = mset v \<and>
    (\<forall>i \<ge> n. sift_down v n 0 ! i = v ! i) \<and> length (sift_down v n 0) = length v"
proof (cases "n < 2")
  case True
  then have "heap_upto v n" using assms by (auto simp: heap_upto_def)
  then show ?thesis using True by (simp add: sift_down_def)
next
  case False
  let ?c = "larger_child v n (2 * 0 + 1)"
  have z: "2 * 0 + 1 < n" using False by simp
  note C = larger_child_min [OF z, where v = v]
  have F: "down_fault v n 0 ?c" using C assms unfolding down_fault_def by auto
  show ?thesis
  proof (cases "ti_time (v ! ?c) \<le> ti_time (v ! 0)")
    case True
    then have "sift_down v n 0 = sift_down_loop v n 0 ?c (v ! 0)"
      using False True by (auto simp add: sift_down_def TimeoutItemComparer_def Let_def not_less)
    then show ?thesis using sift_down_loop_ok [OF F True] by simp
  next
    case nle: False
    then have "sift_down v n 0 = v" using False by (simp add: sift_down_def TimeoutItemComparer_def Let_def not_less)
    moreover have "ti_time (v ! par i) \<le> ti_time (v ! i)" if i: "i < n" "0 < i" for i
      using C(4) [OF i] nle assms(2) [OF i] by (cases "par i = 0") auto
    ultimately show ?thesis by (simp add: heap_upto_def)
  qed
qed

lemma heap_head_min: "heap_upto q n \<Longrightarrow> i < n \<Longrightarrow> ti_time (q ! 0) \<le> ti_time (q ! i)"
proof (induction i rule: less_induct)
  case (less i)
  show ?case
  proof (cases "i = 0")
    case False
    then have "ti_time (q ! 0) \<le> ti_time (q ! par i)" using less par_less [of i] by simp
    also have "\<dots> \<le> ti_time (q ! i)" using False less.prems by (simp add: heap_upto_def)
    finally show ?thesis .
  qed simp
qed

lemma heap_upto_butlast:
  assumes "heap_upto w n" "n = length w - 1"
  shows "heap_upto (butlast w) n"
  unfolding heap_upto_def
proof (intro allI impI)
  fix i assume i: "i < n" "0 < i"
  then have "par i < n" using par_less [of i] by simp
  then show "ti_time (butlast w ! par i) \<le> ti_time (butlast w ! i)"
    using assms i by (simp add: heap_upto_def nth_butlast)
qed

lemma pop_heap_ok:
  assumes "heap_upto q (length q)" "q \<noteq> []"
  shows "heap_upto (butlast (pop_heap q)) (length q - 1) \<and> length (pop_heap q) = length q \<and>
    add_mset (q ! 0) (mset (butlast (pop_heap q))) = mset q"
proof (cases "length q > 1")
  case True
  let ?n = "length q - 1" let ?v = "q[0 := q ! ?n, ?n := q ! 0]" let ?w = "sift_down ?v ?n 0"
  have v: "ti_time (?v ! par i) \<le> ti_time (?v ! i)" if "i < ?n" "0 < i" "par i \<noteq> 0" for i
    using assms(1) that par_less [of i] by (simp add: heap_upto_def)
  have S: "heap_upto ?w ?n" "mset ?w = mset ?v" "?w ! ?n = ?v ! ?n" "length ?w = length q"
    using sift_down_ok [of ?n ?v] v by auto
  have m: "mset ?v = mset q" using True assms(2) mset_swap [of ?n q 0] by (simp add: list_update_swap)
  have ne: "?w \<noteq> []" using S(4) assms(2) by auto
  have l: "last ?w = q ! 0" using S(3,4) True last_conv_nth [OF ne] by simp
  from ne have "mset ?w = add_mset (q ! 0) (mset (butlast ?w))"
    by (metis l append_butlast_last_id mset_append mset.simps(1) mset.simps(2) union_mset_add_mset_right add.right_neutral)
  moreover have "heap_upto (butlast ?w) ?n"
    by (rule heap_upto_butlast) (use S(1,4) in simp_all)
  ultimately show ?thesis using True S(2,4) m by (simp add: pop_heap_def Let_def)
next
  case False
  then obtain x where "q = [x]" using assms(2) by (cases q) auto
  then show ?thesis by (simp add: pop_heap_def heap_upto_def)
qed

section \<open>The contract of a timer queue\<close>

text \<open>The loop of a client that takes everything that has elapsed.\<close>

primrec drain :: "(u64 \<Rightarrow> 'q \<Rightarrow> bool) \<Rightarrow> ('q \<Rightarrow> ('a \<times> 'q) res) \<Rightarrow> nat \<Rightarrow> u64 \<Rightarrow> 'q \<Rightarrow> ('a list \<times> 'q) res" where
  "drain elapsed takeq 0 now q = (if elapsed now q then Inl OutOfFuel else Inr ([], q))"
| "drain elapsed takeq (Suc n) now q = (if elapsed now q
     then res_bind (takeq q) (\<lambda>(x, q'). res_bind (drain elapsed takeq n now q') (\<lambda>(xs, r). Inr (x # xs, r)))
     else Inr ([], q))"

locale timer_queue =
  fixes inv :: "'q \<Rightarrow> bool" and items :: "'q \<Rightarrow> ('a \<times> u64) multiset"
    and put :: "'a \<Rightarrow> u64 \<Rightarrow> 'q \<Rightarrow> 'q" and elapsed :: "u64 \<Rightarrow> 'q \<Rightarrow> bool" and takeq :: "'q \<Rightarrow> ('a \<times> 'q) res"
  assumes put_law: "inv q \<Longrightarrow> inv (put x w q) \<and> items (put x w q) = add_mset (x, w) (items q)"
    and elapsed_law: "inv q \<Longrightarrow> elapsed now q \<longleftrightarrow> (\<exists>(x, w) \<in># items q. w \<le> now)"
    and take_law: "inv q \<Longrightarrow> items q \<noteq> {#} \<Longrightarrow> \<exists>x w q'. takeq q = Inr (x, q') \<and> inv q' \<and>
      items q = add_mset (x, w) (items q') \<and> (\<forall>(y, u) \<in># items q. w \<le> u)"
begin

lemma drain_ok:
  assumes "inv q" "n \<ge> size (items q)"
  shows "\<exists>xs q'. drain elapsed takeq n now q = Inr (map fst xs, q') \<and> inv q' \<and> items q = mset xs + items q' \<and>
    sorted (map snd xs) \<and> (\<forall>(x, w) \<in> set xs. w \<le> now) \<and> (\<forall>(x, w) \<in># items q'. now < w)"
  using assms
proof (induction n arbitrary: q)
  case 0
  then have "\<not> elapsed now q" using elapsed_law [of q now] by simp
  then show ?case using 0 by (intro exI [of _ "[]"] exI [of _ q]) simp
next
  case (Suc n)
  show ?case
  proof (cases "elapsed now q")
    case True
    then have ne: "items q \<noteq> {#}" using elapsed_law [OF Suc.prems(1), of now] by auto
    obtain x w q1 where t: "takeq q = Inr (x, q1)" "inv q1" "items q = add_mset (x, w) (items q1)"
        "\<forall>(y, u) \<in># items q. w \<le> u"
      using take_law [OF Suc.prems(1) ne] by blast
    have wn: "w \<le> now" using True elapsed_law [OF Suc.prems(1), of now] t(4) by fastforce
    have "size (items q1) \<le> n" using Suc.prems(2) t(3) by simp
    from Suc.IH [OF t(2) this]
    obtain xs q' where r: "drain elapsed takeq n now q1 = Inr (map fst xs, q')" "inv q'" "items q1 = mset xs + items q'"
        "sorted (map snd xs)" "\<forall>(x, w) \<in> set xs. w \<le> now" "\<forall>(x, w) \<in># items q'. now < w"
      by blast
    have "\<forall>u \<in> set (map snd xs). w \<le> u" using t(3,4) r(3) by fastforce
    then show ?thesis using True t r wn
      by (intro exI [of _ "(x, w) # xs"] exI [of _ q']) simp
  next
    case False
    then have "\<forall>(x, w) \<in># items q. now < w" using elapsed_law [OF Suc.prems(1), of now] by fastforce
    then show ?thesis using False Suc.prems(1) by (intro exI [of _ "[]"] exI [of _ q]) simp
  qed
qed

end

definition to_inv :: "'a TimeoutItem list \<Rightarrow> bool" where
  "to_inv q \<longleftrightarrow> heap_upto q (length q)"

definition to_items :: "'a TimeoutItem list \<Rightarrow> ('a \<times> u64) multiset" where
  "to_items q = image_mset (\<lambda>t. (ti_item t, ti_time t)) (mset q)"

lemma to_items_head: "to_inv q \<Longrightarrow> (y, u) \<in># to_items q \<Longrightarrow> ti_time (q ! 0) \<le> u"
  using heap_head_min [of q "length q"] by (auto simp: to_inv_def to_items_def in_set_conv_nth)

interpretation heap_queue: timer_queue to_inv to_items to_Set to_Elapsed to_Take
proof unfold_locales
  fix q :: "'a TimeoutItem list" and x w
  assume "to_inv q"
  then have P: "heap_upto (to_Set x w q) (Suc (length q))"
      "mset (to_Set x w q) = add_mset \<lparr>ti_item = x, ti_time = w\<rparr> (mset q)"
    using push_heap_ok by (auto simp: to_inv_def to_Set_def)
  from P(2) have "length (to_Set x w q) = Suc (length q)" by (metis size_add_mset size_mset)
  then show "to_inv (to_Set x w q) \<and> to_items (to_Set x w q) = add_mset (x, w) (to_items q)"
    using P by (simp add: to_inv_def to_items_def)
next
  fix q :: "'a TimeoutItem list" and now
  assume i: "to_inv q"
  show "to_Elapsed now q = (\<exists>(x, w) \<in># to_items q. w \<le> now)"
  proof
    assume "to_Elapsed now q"
    then show "\<exists>(x, w) \<in># to_items q. w \<le> now"
      by (auto simp: to_Elapsed_def to_items_def intro!: bexI [of _ "q ! 0"])
  next
    assume "\<exists>(x, w) \<in># to_items q. w \<le> now"
    then obtain x w where "(x, w) \<in># to_items q" "w \<le> now" by blast
    then show "to_Elapsed now q"
      using to_items_head [OF i] by (auto simp: to_Elapsed_def to_items_def intro: order_trans)
  qed
next
  fix q :: "'a TimeoutItem list"
  assume i: "to_inv q" and "to_items q \<noteq> {#}"
  then have ne: "q \<noteq> []" by (auto simp: to_items_def)
  let ?r = "butlast (pop_heap q)"
  have P: "heap_upto ?r (length q - 1)" "length (pop_heap q) = length q" "mset q = add_mset (q ! 0) (mset ?r)"
    using pop_heap_ok [of q] i ne by (auto simp: to_inv_def)
  have "to_inv ?r" using P(1,2) by (simp add: to_inv_def)
  moreover have "to_items q = add_mset (ti_item (q ! 0), ti_time (q ! 0)) (to_items ?r)"
    using P(3) by (simp add: to_items_def)
  ultimately show "\<exists>x w q'. to_Take q = Inr (x, q') \<and> to_inv q' \<and> to_items q = add_mset (x, w) (to_items q') \<and>
      (\<forall>(y, u) \<in># to_items q. w \<le> u)"
    using ne to_items_head [OF i] by (intro exI [of _ "ti_item (q ! 0)"] exI [of _ "ti_time (q ! 0)"] exI [of _ ?r])
      (auto simp: to_Take_def)
qed

end
