(* ===== verification/Scheduler.thy ===== *)
theory Scheduler
  imports ThreadModel Timeouts
begin

text \<open>
  \<open>ThreadManager\<close> of \<^verbatim>\<open>src/src/kernel/thread-manager.h\<close> and \<^verbatim>\<open>thread-manager.cc\<close>: creation of threads, the choice
  of the next thread, the timeouts of all threads and preemption. Thread objects and engine threads
  live in the object stores of a \<open>world\<close>; a pointer is an index. Reading the clock
  (\<open>BootTimeMicroseconds\<close>) is an argument, the tasks V8 runs at a preemption are a parameter, and
  the switch of stacks (\<open>preemptStart\<close>, \<open>enterFirstThread\<close>) is the pair of threads it is called with.

  The lemmas show that the scheduler is fair among threads of equal priority and prefers a higher
  priority, that only the terminated current thread leaves the list, and that the
  timeouts that have elapsed, and only those, reach their threads, the earliest first.
\<close>

section \<open>State\<close>

record ThreadData =
  sd_thread :: nat
  sd_priority :: u64

definition mk_ThreadData :: "nat \<Rightarrow> ThreadData" where
  "mk_ThreadData t = \<lparr>sd_thread = t, sd_priority = 1\<rparr>"

definition sd_AddPriority :: "u64 \<Rightarrow> ThreadData \<Rightarrow> ThreadData" where
  "sd_AddPriority n d = d\<lparr>sd_priority := sd_priority d + n\<rparr>"

definition sd_ResetPriority :: "ThreadData \<Rightarrow> ThreadData" where
  "sd_ResetPriority d = d\<lparr>sd_priority := 1\<rparr>"

definition sd_SetPriority :: "u64 \<Rightarrow> ThreadData \<Rightarrow> ThreadData" where
  "sd_SetPriority v d = d\<lparr>sd_priority := v\<rparr>"

record ThreadTimeout =
  tt_thread :: nat
  tt_index :: u32

record ThreadManager =
  current_thread :: "nat option"
  current_thread_index :: u64
  tm_threads :: "ThreadData list"
  is_preempt_enabled :: bool
  ticks_counter :: u64
  tm_timeouts :: "ThreadTimeout TimeoutItem list"
  ev_done_total :: u64
  ev_done_checkpoint :: u64

text \<open>The constructor leaves \<open>is_preempt_enabled_\<close> uninitialised; nothing reads it before it is set.\<close>

definition mk_ThreadManager :: "bool \<Rightarrow> ThreadManager" where
  "mk_ThreadManager b = \<lparr>current_thread = None, current_thread_index = 0, tm_threads = [], is_preempt_enabled = b,
     ticks_counter = 1, tm_timeouts = [], ev_done_total = 0, ev_done_checkpoint = 0\<rparr>"

text \<open>
  One engine with its object stores. \<open>w_has_tm\<close> says whether \<open>thread_mgr_\<close> is set, \<open>w_bindings\<close> are the
  handlers bound to each interrupt number.
\<close>

record 'h world =
  w_threads :: "Thread list"
  w_ethreads :: "EngineThread list"
  w_engine :: Engine
  w_has_tm :: bool
  w_tm :: ThreadManager
  w_mm :: "'h MemManager"
  w_bindings :: "(nat \<times> ThreadMessage) list list"

definition upd_thread :: "nat \<Rightarrow> (Thread \<Rightarrow> Thread) \<Rightarrow> 'h world \<Rightarrow> 'h world" where
  "upd_thread t f w = w\<lparr>w_threads := (w_threads w)[t := f (w_threads w ! t)]\<rparr>"

definition upd_ethread :: "nat \<Rightarrow> (EngineThread \<Rightarrow> EngineThread) \<Rightarrow> 'h world \<Rightarrow> 'h world" where
  "upd_ethread e f w = w\<lparr>w_ethreads := (w_ethreads w)[e := f (w_ethreads w ! e)]\<rparr>"

section \<open>Threads\<close>

definition ThreadInit :: "Thread \<Rightarrow> u64 res" where
  "ThreadInit t = res_bind (GetStackBottom t) (\<lambda>sp. res_bind (rt_assert (sp \<noteq> 0) ''t->GetStackBottom()'') (\<lambda>_. Inr sp))"

definition CreateThread :: "nat \<Rightarrow> 'h world \<Rightarrow> (nat \<times> 'h world) res" where
  "CreateThread ethread w =
     res_bind (AllocStack (w_mm w)) (\<lambda>(stack, mm).
     let t = mk_Thread ethread (w_ethreads w ! ethread) stack; a = length (w_threads w) in
     res_bind (ThreadInit t) (\<lambda>_.
       Inr (a, w\<lparr>w_mm := mm, w_threads := w_threads w @ [t],
                 w_tm := (w_tm w)\<lparr>tm_threads := tm_threads (w_tm w) @ [mk_ThreadData a]\<rparr>\<rparr>)))"

primrec create_threads :: "nat list \<Rightarrow> 'h world \<Rightarrow> 'h world res" where
  "create_threads [] w = Inr w"
| "create_threads (e # es) w = res_bind (CreateThread e w) (\<lambda>(t, w1).
     create_threads es (upd_ethread e (\<lambda>x. x\<lparr>et_thread := Some t\<rparr>) w1))"

definition ProcessNewThreads :: "'h world \<Rightarrow> 'h world res" where
  "ProcessNewThreads w = (case TakeNewThreads (w_engine w) of (ts, g) \<Rightarrow>
     if ts = [] then Inr (w\<lparr>w_engine := g\<rparr>) else create_threads ts (w\<lparr>w_engine := g\<rparr>))"

definition has_threads :: "ThreadManager \<Rightarrow> bool" where
  "has_threads tm \<longleftrightarrow> length (tm_threads tm) > 0"

definition tm_Run :: "'h world \<Rightarrow> (nat \<times> 'h world) res" where
  "tm_Run w = res_bind (ProcessNewThreads w) (\<lambda>w1.
     res_bind (rt_assert (has_threads (w_tm w1)) ''has_threads()'') (\<lambda>_.
       let t = sd_thread (tm_threads (w_tm w1) ! 0) in
       Inr (t, w1\<lparr>w_tm := (w_tm w1)\<lparr>current_thread_index := 0, current_thread := Some t\<rparr>\<rparr>)))"

section \<open>\<open>SwitchToNextThread\<close>\<close>

text \<open>The first loop: \<open>swap(*it, back())\<close> and \<open>pop_back()\<close> for a dead thread, the iterator stays.\<close>

function reap :: "(nat \<Rightarrow> bool) \<Rightarrow> nat \<Rightarrow> ThreadData list \<Rightarrow> ThreadData list" where
  "reap dead i ts =
     (if i < length ts then
        if dead (sd_thread (ts ! i)) then reap dead i (butlast (ts[i := last ts]))
        else reap dead (i + 1) ts
      else ts)"
  by pat_completeness auto
termination by (relation "measure (\<lambda>(dead, i, ts). length ts - i)") auto

declare reap.simps [simp del]

record scan =
  sc_max :: u32
  sc_min :: u32
  sc_max_index :: nat
  sc_min_index :: nat

definition scan_start :: scan where
  "scan_start = \<lparr>sc_max = 0, sc_min = 0xFFFFFFFF, sc_max_index = 0, sc_min_index = 0\<rparr>"

definition scan_one :: "nat \<Rightarrow> u32 \<Rightarrow> scan \<Rightarrow> scan" where
  "scan_one i p s =
     (let s1 = (if p > sc_max s then s\<lparr>sc_max := p, sc_max_index := i\<rparr> else s) in
      if p < sc_min s1 then s1\<lparr>sc_min := p, sc_min_index := i\<rparr> else s1)"

fun scan_threads :: "(nat \<Rightarrow> Thread) \<Rightarrow> nat \<Rightarrow> ThreadData list \<Rightarrow> scan \<Rightarrow> scan \<times> ThreadData list" where
  "scan_threads th i [] s = (s, [])"
| "scan_threads th i (d # ds) s =
     (if th_type (th (sd_thread d)) = TERMINATED
      then (case scan_threads th (Suc i) ds s of (s', ds') \<Rightarrow> (s', d # ds'))
      else let p = th_priority (th (sd_thread d)) in
        case scan_threads th (Suc i) ds (scan_one i p s) of (s', ds') \<Rightarrow> (s', sd_SetPriority (ucast p) d # ds'))"

definition next_index :: "scan \<Rightarrow> nat \<Rightarrow> u64 \<Rightarrow> u64" where
  "next_index s n i =
     (if sc_max s \<noteq> sc_min s then of_nat (sc_max_index s)
      else let j = i + 1 in if unat j \<ge> n then 0 else j)"

definition SwitchToNextThread :: "'h world \<Rightarrow> (nat \<times> 'h world) res" where
  "SwitchToNextThread w =
     (let tm = w_tm w; th = (\<lambda>a. w_threads w ! a);
          ts1 = reap (\<lambda>a. th_type (th a) = TERMINATED \<and> current_thread tm = Some a) 0 (tm_threads tm) in
      res_bind (rt_assert (length ts1 > 0) ''threads_.size() > 0'') (\<lambda>_.
      case scan_threads th 0 ts1 scan_start of (s, ts2) \<Rightarrow>
      let i = next_index s (length ts2) (current_thread_index tm) in
      res_bind (rt_assert (unat i < length ts2) ''current_thread_index_ < threads_.size()'') (\<lambda>_.
      let t = sd_thread (ts2 ! unat i) in
      Inr (t, upd_thread t ResetPriority
        (w\<lparr>w_tm := tm\<lparr>tm_threads := ts2, current_thread_index := i, current_thread := Some t\<rparr>\<rparr>)))))"

section \<open>Timeouts and preemption\<close>

definition TimerInterruptNotify :: "ThreadManager \<Rightarrow> ThreadManager" where
  "TimerInterruptNotify tm = tm\<lparr>ticks_counter := ticks_counter tm + 1\<rparr>"

definition SetTimeout :: "u64 \<Rightarrow> nat \<Rightarrow> u32 \<Rightarrow> u64 \<Rightarrow> 'h world \<Rightarrow> 'h world" where
  "SetTimeout time_now thread timeout_id timeout_ms w =
     (let when = time_now + timeout_ms * 1000 in
      w\<lparr>w_tm := (w_tm w)\<lparr>tm_timeouts := to_Set \<lparr>tt_thread = thread, tt_index = timeout_id\<rparr> when (tm_timeouts (w_tm w))\<rparr>\<rparr>)"

definition timeout_message :: "u32 \<Rightarrow> ThreadMessage" where
  "timeout_message timeout_id = mk_ThreadMessage TIMEOUT_EVENT None [] None (ucast timeout_id)"

definition push_timeout :: "ThreadTimeout \<Rightarrow> 'h world \<Rightarrow> 'h world" where
  "push_timeout t w = upd_ethread (th_ethread (w_threads w ! tt_thread t)) (PushMessage (timeout_message (tt_index t))) w"

lemma length_sift_down_loop: "length (sift_down_loop v len start child tp) = length v"
proof (induction v len start child tp rule: sift_down_loop.induct)
  case (1 v len start child tp)
  then show ?case by (subst sift_down_loop.simps) (auto simp: Let_def)
qed

lemma length_pop_heap [simp]: "length (pop_heap q) = length q"
  by (auto simp: pop_heap_def sift_down_def Let_def length_sift_down_loop)

lemma to_Take_shorter: "to_Take q = Inr (t, q') \<Longrightarrow> length q' < length q"
  by (auto simp: to_Take_def split: if_splits)

lemma push_timeout_tm [simp]: "w_tm (push_timeout t w) = w_tm w" "w_threads (push_timeout t w) = w_threads w"
  by (simp_all add: push_timeout_def upd_ethread_def)

function process_timeouts :: "u64 \<Rightarrow> 'h world \<Rightarrow> 'h world res" where
  "process_timeouts ticks_now w =
     (if to_Elapsed ticks_now (tm_timeouts (w_tm w)) then
        case to_Take (tm_timeouts (w_tm w)) of Inl e \<Rightarrow> Inl e
        | Inr (t, q) \<Rightarrow> process_timeouts ticks_now (push_timeout t (w\<lparr>w_tm := (w_tm w)\<lparr>tm_timeouts := q\<rparr>\<rparr>))
      else Inr w)"
  by pat_completeness auto
termination
  by (relation "measure (\<lambda>(now, w). length (tm_timeouts (w_tm w)))") (auto dest: to_Take_shorter)

declare process_timeouts.simps [simp del]

definition ProcessTimeouts :: "u64 \<Rightarrow> 'h world \<Rightarrow> 'h world res" where
  "ProcessTimeouts boot_time w = process_timeouts boot_time w"

definition SubmitEvWork :: "u64 \<Rightarrow> ThreadManager \<Rightarrow> ThreadManager" where
  "SubmitEvWork ev_count tm = tm\<lparr>ev_done_total := ev_done_total tm + ev_count\<rparr>"

definition SetEvCheckpoint :: "ThreadManager \<Rightarrow> ThreadManager" where
  "SetEvCheckpoint tm = tm\<lparr>ev_done_checkpoint := ev_done_total tm\<rparr>"

definition CanHalt :: "ThreadManager \<Rightarrow> bool" where
  "CanHalt tm \<longleftrightarrow> ev_done_checkpoint tm = ev_done_total tm"

definition PreemptEnable :: "ThreadManager \<Rightarrow> ThreadManager" where
  "PreemptEnable tm = tm\<lparr>is_preempt_enabled := True\<rparr>"

definition PreemptDisable :: "ThreadManager \<Rightarrow> ThreadManager" where
  "PreemptDisable tm = tm\<lparr>is_preempt_enabled := False\<rparr>"

definition tm_List :: "'h world \<Rightarrow> ThreadInfo list" where
  "tm_List w = map (\<lambda>d. GetInfo (w_threads w ! sd_thread d)) (tm_threads (w_tm w))"

text \<open>The result says which stacks are switched, if any.\<close>

definition Preempt :: "('h world \<Rightarrow> 'h world) \<Rightarrow> u64 \<Rightarrow> 'h world \<Rightarrow> ((nat option \<times> nat) option \<times> 'h world) res" where
  "Preempt v8_tasks boot_time w =
     (let curr = current_thread (w_tm w) in
      res_bind (SwitchToNextThread w) (\<lambda>(new, w1).
      res_bind (ProcessNewThreads w1) (\<lambda>w2.
      res_bind (ProcessTimeouts boot_time w2) (\<lambda>w3.
        Inr (if curr = Some new then None else Some (curr, new), v8_tasks w3)))))"

section \<open>Thread local storage\<close>

definition ThreadLocalSet :: "u64 \<Rightarrow> u64 \<Rightarrow> 'h world \<Rightarrow> 'h world res" where
  "ThreadLocalSet index v w =
     (if \<not> w_has_tm w then res_bind (ls_Set (eng_local_storage (w_engine w)) index v) (\<lambda>s.
        Inr (w\<lparr>w_engine := (w_engine w)\<lparr>eng_local_storage := s\<rparr>\<rparr>))
      else case current_thread (w_tm w) of None \<Rightarrow> Inl (OutOfBounds ''current_thread()'')
        | Some t \<Rightarrow> res_bind (ls_Set (th_local_storage (w_threads w ! t)) index v) (\<lambda>s.
            Inr (upd_thread t (\<lambda>x. x\<lparr>th_local_storage := s\<rparr>) w)))"

definition ThreadLocalGet :: "u64 \<Rightarrow> 'h world \<Rightarrow> u64 res" where
  "ThreadLocalGet index w =
     (if \<not> w_has_tm w then ls_Get (eng_local_storage (w_engine w)) index
      else case current_thread (w_tm w) of None \<Rightarrow> Inl (OutOfBounds ''current_thread()'')
        | Some t \<Rightarrow> ls_Get (th_local_storage (w_threads w ! t)) index)"

text \<open>\<open>KeyStorage\<close> (\<^verbatim>\<open>keystorage.h\<close>); the world is absent as long as \<open>GLOBAL_engines()\<close> is null.\<close>

record KeyStorage =
  ks_next_index :: u64
  no_platform_storage :: LocalStorage

definition mk_KeyStorage :: KeyStorage where
  "mk_KeyStorage = \<lparr>ks_next_index = 1, no_platform_storage = mk_LocalStorage\<rparr>"

definition NewKey :: "KeyStorage \<Rightarrow> u64 \<times> KeyStorage" where
  "NewKey ks = (ks_next_index ks, ks\<lparr>ks_next_index := ks_next_index ks + 1\<rparr>)"

definition ks_Set :: "u64 \<Rightarrow> u64 \<Rightarrow> KeyStorage \<Rightarrow> 'h world option \<Rightarrow> (KeyStorage \<times> 'h world option) res" where
  "ks_Set index v ks g = res_bind (rt_assert (index > 0) ''index > 0'') (\<lambda>_. case g of
     None \<Rightarrow> res_bind (ls_Set (no_platform_storage ks) (index - 1) v) (\<lambda>s. Inr (ks\<lparr>no_platform_storage := s\<rparr>, g))
   | Some w \<Rightarrow> res_bind (ThreadLocalSet (index - 1) v w) (\<lambda>w'. Inr (ks, Some w')))"

definition ks_Get :: "u64 \<Rightarrow> KeyStorage \<Rightarrow> 'h world option \<Rightarrow> u64 res" where
  "ks_Get index ks g = res_bind (rt_assert (index > 0) ''index > 0'') (\<lambda>_. case g of
     None \<Rightarrow> ls_Get (no_platform_storage ks) (index - 1)
   | Some w \<Rightarrow> ThreadLocalGet (index - 1) w)"

definition DeleteKey :: "u64 \<Rightarrow> KeyStorage \<Rightarrow> 'h world option \<Rightarrow> (KeyStorage \<times> 'h world option) res" where
  "DeleteKey index ks g = res_bind (rt_assert (index > 0) ''index > 0'') (\<lambda>_. ks_Set index 0 ks g)"

section \<open>The choice of the next thread\<close>

lemma reap_mset:
  "mset (reap dead i ts) = mset (take i ts) + filter_mset (\<lambda>d. \<not> dead (sd_thread d)) (mset (drop i ts))"
proof (induction dead i ts rule: reap.induct)
  case (1 dead i ts)
  show ?case
  proof (cases "i < length ts")
    case False
    then show ?thesis by (subst reap.simps) simp
  next
    case i: True
    then have d: "drop i ts = ts ! i # drop (Suc i) ts" by (simp add: Cons_nth_drop_Suc)
    show ?thesis
    proof (cases "dead (sd_thread (ts ! i))")
      case False
      then have "mset (reap dead i ts) = mset (reap dead (i + 1) ts)" using i by (subst reap.simps) simp
      then show ?thesis using 1(2) [OF i False] d i False by (simp add: take_Suc_conv_app_nth)
    next
      case True
      let ?us = "butlast (ts[i := last ts])"
      have tk: "take i ?us = take i ts" using i by (auto simp: butlast_conv_take min_def)
      have "mset (drop i ?us) = mset (drop (Suc i) ts)"
      proof (cases "Suc i = length ts")
        case l: True
        then show ?thesis by simp
      next
        case nl: False
        then have n: "Suc i < length ts" using i by simp
        have "drop i ?us = last ts # drop (Suc i) (butlast ts)"
        proof -
          have "i \<noteq> length ts - 1" using n by simp
          then have us: "?us = (butlast ts)[i := last ts]" by (simp add: butlast_list_update)
          have "i < length ?us" using n by simp
          then have "drop i ?us = ?us ! i # drop (Suc i) ?us" by (simp add: Cons_nth_drop_Suc)
          then show ?thesis using n unfolding us by simp
        qed
        moreover have "drop (Suc i) ts = drop (Suc i) (butlast ts) @ [last ts]"
        proof -
          have "ts = butlast ts @ [last ts]" using i by (metis append_butlast_last_id length_0_conv not_less_zero)
          then have "drop (Suc i) ts = drop (Suc i) (butlast ts @ [last ts])" by simp
          then show ?thesis using n by simp
        qed
        ultimately show ?thesis by simp
      qed
      moreover have "mset (reap dead i ts) = mset (reap dead i ?us)" using i True by (subst reap.simps) simp
      ultimately show ?thesis using 1(1) [OF i True] tk d True by simp
    qed
  qed
qed

lemma reap_none: "\<forall>d \<in> set ts. \<not> dead (sd_thread d) \<Longrightarrow> reap dead i ts = ts"
proof (induction dead i ts rule: reap.induct)
  case (1 dead i ts)
  then show ?case by (subst reap.simps) auto
qed

lemma scan_threads_list:
  "scan_threads th i ds s = (s', ds') \<Longrightarrow> map sd_thread ds' = map sd_thread ds"
  by (induction th i ds s arbitrary: s' ds' rule: scan_threads.induct) (auto split: if_splits prod.splits simp: Let_def sd_SetPriority_def)

text \<open>The index of the maximum is that of a live entry of this priority.\<close>

definition picked :: "(nat \<Rightarrow> Thread) \<Rightarrow> nat \<Rightarrow> ThreadData list \<Rightarrow> scan \<Rightarrow> bool" where
  "picked th i ds s \<longleftrightarrow> (\<exists>k < length ds. sc_max_index s = i + k \<and> th_type (th (sd_thread (ds ! k))) \<noteq> TERMINATED \<and>
        th_priority (th (sd_thread (ds ! k))) = sc_max s)"

lemma picked_Cons: "picked th (Suc i) ds s \<Longrightarrow> picked th i (d # ds) s"
  unfolding picked_def by (metis Suc_less_eq add_Suc_shift length_Cons nth_Cons_Suc)

lemma picked_head: "th_type (th (sd_thread d)) \<noteq> TERMINATED \<Longrightarrow> sc_max_index s = i \<Longrightarrow>
    sc_max s = th_priority (th (sd_thread d)) \<Longrightarrow> picked th i (d # ds) s"
  unfolding picked_def by (rule exI [of _ 0]) simp

lemma scan_threads_max:
  assumes "scan_threads th i ds s = (s', ds')"
  shows "sc_max s \<le> sc_max s' \<and> sc_min s' \<le> sc_min s \<and>
    (\<forall>d \<in> set ds. th_type (th (sd_thread d)) \<noteq> TERMINATED \<longrightarrow>
       th_priority (th (sd_thread d)) \<le> sc_max s' \<and> sc_min s' \<le> th_priority (th (sd_thread d))) \<and>
    (sc_max s' = sc_max s \<and> sc_max_index s' = sc_max_index s \<or>
     picked th i ds s')"
  using assms
proof (induction th i ds s arbitrary: s' ds' rule: scan_threads.induct)
  case (2 th i d ds s)
  show ?case
  proof (cases "th_type (th (sd_thread d)) = TERMINATED")
    case True
    then obtain us where r: "scan_threads th (Suc i) ds s = (s', us)" using "2.prems" by (auto split: prod.splits)
    from "2.IH"(1) [OF True r] True show ?thesis by (auto intro: picked_Cons)
  next
    case False
    let ?p = "th_priority (th (sd_thread d))"
    obtain us where r: "scan_threads th (Suc i) ds (scan_one i ?p s) = (s', us)"
      using False "2.prems" by (auto simp: Let_def split: prod.splits)
    have o: "sc_max (scan_one i ?p s) = max ?p (sc_max s)" "sc_min (scan_one i ?p s) = min ?p (sc_min s)"
      "sc_max_index (scan_one i ?p s) = (if ?p > sc_max s then i else sc_max_index s)"
      by (auto simp: scan_one_def Let_def max_def min_def)
    note ih = "2.IH"(2) [OF False refl r]
    have "?p \<le> sc_max s' \<and> sc_max s \<le> sc_max s' \<and> sc_min s' \<le> ?p \<and> sc_min s' \<le> sc_min s" using ih o by auto
    moreover have "sc_max s' = sc_max s \<and> sc_max_index s' = sc_max_index s \<or>
picked th i (d # ds) s'"
      using ih
    proof (elim conjE disjE)
      assume "sc_max s' = sc_max (scan_one i ?p s)" "sc_max_index s' = sc_max_index (scan_one i ?p s)"
      then show ?thesis using o picked_head [of th d s' i ds] False by (cases "?p > sc_max s") (auto simp: max_def)
    qed (rule disjI2 [OF picked_Cons])
    ultimately show ?thesis using ih by auto
  qed
qed simp

lemma scan_same:
  assumes "\<forall>d \<in> set ds. th_type (th (sd_thread d)) \<noteq> TERMINATED \<and> th_priority (th (sd_thread d)) = p"
    and "sc_max s = p" "sc_min s = p"
  shows "fst (scan_threads th i ds s) = s"
  using assms by (induction th i ds s rule: scan_threads.induct) (auto simp: scan_one_def Let_def split: prod.splits)

abbreviation alive :: "'h world \<Rightarrow> nat \<Rightarrow> bool" where
  "alive w a \<equiv> th_type (w_threads w ! a) \<noteq> TERMINATED"

abbreviation prio :: "'h world \<Rightarrow> nat \<Rightarrow> u32" where
  "prio w a \<equiv> th_priority (w_threads w ! a)"

definition reaped :: "'h world \<Rightarrow> ThreadData list" where
  "reaped w = reap (\<lambda>a. th_type (w_threads w ! a) = TERMINATED \<and> current_thread (w_tm w) = Some a) 0 (tm_threads (w_tm w))"

lemma reaped_mset:
  "mset (map sd_thread (reaped w)) =
     filter_mset (\<lambda>a. alive w a \<or> current_thread (w_tm w) \<noteq> Some a) (mset (map sd_thread (tm_threads (w_tm w))))"
  unfolding reaped_def mset_map reap_mset by (simp add: filter_mset_image_mset comp_def)

lemma reaped_alive: "d \<in> set (tm_threads (w_tm w)) \<Longrightarrow> alive w (sd_thread d) \<Longrightarrow> d \<in> set (reaped w)"
proof -
  assume "d \<in> set (tm_threads (w_tm w))" "alive w (sd_thread d)"
  then have "d \<in># mset (reaped w)" unfolding reaped_def reap_mset by simp
  then show ?thesis by simp
qed

lemma SwitchToNextThread_by:
  assumes "scan_threads (\<lambda>a. w_threads w ! a) 0 (reaped w) scan_start = (s, ts)" "reaped w \<noteq> []"
    and "unat (next_index s (length ts) (current_thread_index (w_tm w))) = i" "i < length ts"
  shows "SwitchToNextThread w = Inr (sd_thread (ts ! i), upd_thread (sd_thread (ts ! i)) ResetPriority
    (w\<lparr>w_tm := (w_tm w)\<lparr>tm_threads := ts, current_thread_index := next_index s (length ts) (current_thread_index (w_tm w)),
       current_thread := Some (sd_thread (ts ! i))\<rparr>\<rparr>))"
  using assms by (simp add: SwitchToNextThread_def Let_def reaped_def)

text \<open>
  Priorities. If two live threads differ in priority, the next thread is a live thread of the
  highest priority; its priority is reset and no other thread object changes. The list of threads
  loses exactly the current thread when it has terminated.
\<close>

theorem switch_highest_priority:
  assumes "d \<in> set (tm_threads (w_tm w))" "e \<in> set (tm_threads (w_tm w))" "alive w (sd_thread d)" "alive w (sd_thread e)"
    and "prio w (sd_thread d) < prio w (sd_thread e)" "length (tm_threads (w_tm w)) < 2 ^ 64"
    and "\<forall>x \<in> set (tm_threads (w_tm w)). sd_thread x < length (w_threads w)"
  shows "\<exists>t w'. SwitchToNextThread w = Inr (t, w') \<and> t \<in> sd_thread ` set (tm_threads (w_tm w)) \<and> alive w t \<and>
    (\<forall>x \<in> set (tm_threads (w_tm w)). alive w (sd_thread x) \<longrightarrow> prio w (sd_thread x) \<le> prio w t) \<and>
    current_thread (w_tm w') = Some t \<and> w_threads w' = (w_threads w)[t := (w_threads w ! t)\<lparr>th_priority := 1\<rparr>] \<and>
    mset (map sd_thread (tm_threads (w_tm w'))) =
      filter_mset (\<lambda>a. alive w a \<or> current_thread (w_tm w) \<noteq> Some a) (mset (map sd_thread (tm_threads (w_tm w))))"
proof -
  obtain s ts where sc: "scan_threads (\<lambda>a. w_threads w ! a) 0 (reaped w) scan_start = (s, ts)" by fastforce
  note M = scan_threads_max [OF sc]
  have in_r: "d \<in> set (reaped w)" "e \<in> set (reaped w)" using assms reaped_alive by auto
  then have ne: "reaped w \<noteq> []" by auto
  have "sc_min s \<le> prio w (sd_thread d)" "prio w (sd_thread e) \<le> sc_max s" using M in_r assms(3,4) by auto
  then have mm: "sc_min s < sc_max s" using assms(5) by simp
  then have "sc_max s > sc_max scan_start" by (auto simp: scan_start_def intro: le_less_trans [OF word_zero_le])
  then have "picked (\<lambda>a. w_threads w ! a) 0 (reaped w) s" using M by auto
  then obtain k where k: "k < length (reaped w)" "sc_max_index s = k" "alive w (sd_thread (reaped w ! k))"
      "prio w (sd_thread (reaped w ! k)) = sc_max s"
    by (auto simp: picked_def)
  have ts: "map sd_thread ts = map sd_thread (reaped w)" by (rule scan_threads_list [OF sc])
  then have lts: "length ts = length (reaped w)" by (metis length_map)
  have sub: "mset (reaped w) \<subseteq># mset (tm_threads (w_tm w))" unfolding reaped_def reap_mset by simp
  then have "length (reaped w) < 2 ^ 64" using assms(6) by (metis le_less_trans size_mset size_mset_mono)
  then have "unat (of_nat k :: u64) = k" by (intro unat_of_nat_small) (use k(1) in simp)
  then have i: "unat (next_index s (length ts) (current_thread_index (w_tm w))) = k"
    using mm k(2) by (auto simp: next_index_def)
  let ?t = "sd_thread (ts ! k)"
  have t: "?t = sd_thread (reaped w ! k)" using ts k(1) lts by (metis nth_map)
  have "reaped w ! k \<in> set (tm_threads (w_tm w))" using sub k(1) by (metis mset_subset_eqD nth_mem set_mset_mset)
  moreover have "\<forall>x \<in> set (tm_threads (w_tm w)). alive w (sd_thread x) \<longrightarrow> prio w (sd_thread x) \<le> prio w ?t"
    using M reaped_alive [of _ w] k(4) unfolding t by auto
  ultimately show ?thesis
    using SwitchToNextThread_by [OF sc ne i] k(1,3) lts reaped_mset [of w] ts t
    by (auto simp: upd_thread_def ResetPriority_def simp del: mset_map)
qed

definition sample_world :: "u32 list \<Rightarrow> unit world" where
  "sample_world ps = \<lparr>w_threads = map (\<lambda>p. sample_thread\<lparr>th_priority := p\<rparr>) ps, w_ethreads = [(mk_EngineThread DEFAULT)\<lparr>msg_capacity := 128\<rparr>],
     w_engine = mk_Engine EXECUTION, w_has_tm = True,
     w_tm = (mk_ThreadManager False)\<lparr>tm_threads := map mk_ThreadData [0..<length ps], current_thread := Some 0\<rparr>,
     w_mm = \<lparr>pmm = sample_pa, vmm = mk_VirtualAllocator, mallocator = \<lparr>default_mspace = 0, heap = ()\<rparr>,
       addr_space = \<lparr>table_allocator = boot_tables, cr3 = CR3Entry_default, pml4_table = 0x2000000, tmem = (\<lambda>_. 0), invalidated = [], cpu_cr3 = 0\<rparr>, malloc_available = True\<rparr>, w_bindings = replicate 225 []\<rparr>"

theorem switch_highest_priority_witness:
  "\<exists>w'. SwitchToNextThread (sample_world [1, 5, 3]) = Inr (1, w') \<and> prio w' 1 = 1"
proof -
  let ?w = "sample_world [1, 5, 3]"
  have ts: "set (tm_threads (w_tm ?w)) = {mk_ThreadData 0, mk_ThreadData 1, mk_ThreadData 2}"
    by (simp add: sample_world_def mk_ThreadManager_def numeral_3_eq_3 numeral_2_eq_2 insert_commute del: upt_rec_numeral)
  have "\<exists>t w'. SwitchToNextThread ?w = Inr (t, w') \<and> t \<in> sd_thread ` set (tm_threads (w_tm ?w)) \<and> alive ?w t \<and>
    (\<forall>x \<in> set (tm_threads (w_tm ?w)). alive ?w (sd_thread x) \<longrightarrow> prio ?w (sd_thread x) \<le> prio ?w t) \<and>
    current_thread (w_tm w') = Some t \<and> w_threads w' = (w_threads ?w)[t := (w_threads ?w ! t)\<lparr>th_priority := 1\<rparr>] \<and>
    mset (map sd_thread (tm_threads (w_tm w'))) =
      filter_mset (\<lambda>a. alive ?w a \<or> current_thread (w_tm ?w) \<noteq> Some a) (mset (map sd_thread (tm_threads (w_tm ?w))))"
    by (rule switch_highest_priority [of "mk_ThreadData 0" _ "mk_ThreadData 1"])
      (simp_all add: ts, simp_all add: sample_world_def mk_ThreadData_def sample_thread_def mk_Thread_def mk_EngineThread_def mk_ThreadManager_def)
  then show ?thesis unfolding ts by (auto simp: sample_world_def mk_ThreadData_def word_le_nat_alt)
qed

section \<open>Fairness\<close>

text \<open>All threads are live and have the priority every thread has unless it was raised.\<close>

definition ready :: "'h world \<Rightarrow> bool" where
  "ready w \<longleftrightarrow> tm_threads (w_tm w) \<noteq> [] \<and> length (tm_threads (w_tm w)) < 2 ^ 64 \<and>
     (\<forall>d \<in> set (tm_threads (w_tm w)). sd_thread d < length (w_threads w) \<and> alive w (sd_thread d) \<and> prio w (sd_thread d) = 1) \<and>
     unat (current_thread_index (w_tm w)) < length (tm_threads (w_tm w))"

lemma ResetPriority_same: "th_priority t = 1 \<Longrightarrow> ResetPriority t = t"
  by (cases t) (simp add: ResetPriority_def)

lemma switch_round_robin:
  assumes "ready w"
  shows "\<exists>w'. SwitchToNextThread w =
      Inr (sd_thread (tm_threads (w_tm w) ! (Suc (unat (current_thread_index (w_tm w))) mod length (tm_threads (w_tm w)))), w') \<and>
    ready w' \<and> map sd_thread (tm_threads (w_tm w')) = map sd_thread (tm_threads (w_tm w)) \<and>
    unat (current_thread_index (w_tm w')) = Suc (unat (current_thread_index (w_tm w))) mod length (tm_threads (w_tm w))"
proof -
  let ?ts = "tm_threads (w_tm w)" and ?i = "current_thread_index (w_tm w)" and ?th = "\<lambda>a. w_threads w ! a"
  note R = assms [unfolded ready_def]
  have r: "reaped w = ?ts" unfolding reaped_def by (rule reap_none) (use R in auto)
  obtain d ds where dds: "?ts = d # ds" using R by (cases ?ts) auto
  obtain s ts where sc: "scan_threads ?th 0 (reaped w) scan_start = (s, ts)" by fastforce
  let ?s1 = "\<lparr>sc_max = 1, sc_min = 1, sc_max_index = 0, sc_min_index = 0\<rparr> :: scan"
  have o: "scan_one 0 1 scan_start = ?s1" by (simp add: scan_one_def scan_start_def)
  have "fst (scan_threads ?th (Suc 0) ds ?s1) = ?s1" by (rule scan_same [where p = 1]) (use R dds in auto)
  then have s: "s = ?s1" using sc R unfolding r dds by (auto simp: o Let_def split: prod.splits)
  have ts: "map sd_thread ts = map sd_thread ?ts" using scan_threads_list [OF sc] r by simp
  then have lts: "length ts = length ?ts" by (metis length_map)
  have "unat ?i + unat (1 :: u64) < 2 ^ LENGTH(64)" using R by simp
  then have "unat (?i + 1) = Suc (unat ?i)" by (subst unat_add_no_wrap) simp_all
  then have i: "unat (next_index s (length ts) ?i) = Suc (unat ?i) mod length ?ts"
    using R lts by (cases "Suc (unat ?i) = length ?ts") (auto simp: next_index_def s Let_def)
  let ?j = "Suc (unat ?i) mod length ?ts"
  have j: "?j < length ts" using R lts by simp
  have t: "sd_thread (ts ! ?j) = sd_thread (?ts ! ?j)" using ts j lts by (metis nth_map)
  let ?t = "sd_thread (?ts ! ?j)"
  have "?ts ! ?j \<in> set ?ts" using j lts by simp
  then have "prio w ?t = 1" using R by blast
  then have same: "(w_threads w)[?t := ResetPriority (w_threads w ! ?t)] = w_threads w"
    by (simp add: ResetPriority_same)
  let ?w = "upd_thread ?t ResetPriority
    (w\<lparr>w_tm := (w_tm w)\<lparr>tm_threads := ts, current_thread_index := next_index s (length ts) ?i, current_thread := Some ?t\<rparr>\<rparr>)"
  have sw: "SwitchToNextThread w = Inr (?t, ?w)"
    using SwitchToNextThread_by [OF sc _ i j] r R t by simp
  have thr: "sd_thread ` set ts = sd_thread ` set ?ts" using ts by (metis list.set_map)
  have "ready ?w"
    unfolding ready_def
  proof (intro conjI ballI)
    fix x assume "x \<in> set (tm_threads (w_tm ?w))"
    then obtain y where "y \<in> set ?ts" "sd_thread x = sd_thread y" using thr by (auto simp: upd_thread_def)
    then show "sd_thread x < length (w_threads ?w)" "alive ?w (sd_thread x)" "prio ?w (sd_thread x) = 1"
      using R same by (auto simp: upd_thread_def)
  qed (use R lts i j in \<open>auto simp: upd_thread_def\<close>)
  then show ?thesis using sw ts i by (auto simp: upd_thread_def)
qed

text \<open>Switching \<open>n\<close> times; \<open>work k\<close> is what happens before the \<open>k\<close>-th switch.\<close>

primrec switches :: "(nat \<Rightarrow> 'h world \<Rightarrow> 'h world) \<Rightarrow> nat \<Rightarrow> 'h world \<Rightarrow> (nat list \<times> 'h world) res" where
  "switches work 0 w = Inr ([], w)"
| "switches work (Suc n) w = res_bind (SwitchToNextThread (work n w)) (\<lambda>(t, w1).
     res_bind (switches work n w1) (\<lambda>(ts, w2). Inr (t # ts, w2)))"

definition keeps_schedule :: "('h world \<Rightarrow> 'h world) \<Rightarrow> bool" where
  "keeps_schedule f \<longleftrightarrow> (\<forall>w. ready w \<longrightarrow> ready (f w) \<and>
     map sd_thread (tm_threads (w_tm (f w))) = map sd_thread (tm_threads (w_tm w)) \<and>
     current_thread_index (w_tm (f w)) = current_thread_index (w_tm w))"

lemma switches_round_robin:
  assumes "\<And>k. keeps_schedule (work k)" "ready w"
  shows "\<exists>w'. switches work n w = Inr (map (\<lambda>k. map sd_thread (tm_threads (w_tm w)) !
      ((unat (current_thread_index (w_tm w)) + Suc k) mod length (tm_threads (w_tm w)))) [0..<n], w')"
  using assms(2)
proof (induction n arbitrary: w)
  case (Suc n)
  let ?v = "work n w" and ?n = "length (tm_threads (w_tm w))" and ?i = "unat (current_thread_index (w_tm w))"
    and ?ts = "map sd_thread (tm_threads (w_tm w))"
  have v: "ready ?v" "map sd_thread (tm_threads (w_tm ?v)) = ?ts" "current_thread_index (w_tm ?v) = current_thread_index (w_tm w)"
    using assms(1) [of n] Suc.prems by (auto simp: keeps_schedule_def)
  then have lv: "length (tm_threads (w_tm ?v)) = ?n" by (metis length_map)
  obtain w1 where w1: "SwitchToNextThread ?v = Inr (sd_thread (tm_threads (w_tm ?v) ! (Suc ?i mod ?n)), w1)" "ready w1"
      "map sd_thread (tm_threads (w_tm w1)) = ?ts" "unat (current_thread_index (w_tm w1)) = Suc ?i mod ?n"
    using switch_round_robin [OF v(1)] v(2,3) lv by auto
  then have l1: "length (tm_threads (w_tm w1)) = ?n" by (metis length_map)
  have "?n > 0" using Suc.prems by (simp add: ready_def)
  then have "Suc ?i mod ?n < length (tm_threads (w_tm ?v))" using lv by simp
  then have t: "sd_thread (tm_threads (w_tm ?v) ! (Suc ?i mod ?n)) = ?ts ! (Suc ?i mod ?n)" using v(2) by (metis nth_map)
  have m: "(Suc ?i mod ?n + Suc k) mod ?n = (?i + Suc (Suc k)) mod ?n" for k
    by (metis add_Suc_right add_Suc mod_add_left_eq)
  obtain w2 where "switches work n w1 = Inr (map (\<lambda>k. ?ts ! ((Suc ?i mod ?n + Suc k) mod ?n)) [0..<n], w2)"
    using Suc.IH [OF w1(2)] w1(3,4) l1 by auto
  moreover have "map (\<lambda>k. ?ts ! ((?i + Suc k) mod ?n)) [0..<Suc n] =
      ?ts ! (Suc ?i mod ?n) # map (\<lambda>k. ?ts ! ((?i + Suc (Suc k)) mod ?n)) [0..<n]"
    by (simp only: upt_conv_Cons [OF zero_less_Suc] map_Suc_upt [symmetric] list.map map_map comp_def) simp
  ultimately show ?case using w1(1) t m by simp
qed simp

lemma rotation_of_indices: "xs \<noteq> [] \<Longrightarrow> map (\<lambda>k. xs ! ((i + Suc k) mod length xs)) [0..<length xs] = rotate (Suc i) xs"
  by (rule nth_equalityI) (auto simp: nth_rotate add.commute simp del: rotate_Suc)

text \<open>
  C22. Fairness. As long as no thread terminates or changes its priority, in any \<open>n\<close> consecutive switches among \<open>n\<close>
  threads every thread is chosen exactly once, in the order of the list, whatever the threads do
  in between.
\<close>

theorem round_robin_fair:
  assumes "\<And>k. keeps_schedule (work k)" "ready w"
  shows "\<exists>w'. switches work (length (tm_threads (w_tm w))) w =
    Inr (rotate (Suc (unat (current_thread_index (w_tm w)))) (map sd_thread (tm_threads (w_tm w))), w')"
proof -
  have "map sd_thread (tm_threads (w_tm w)) \<noteq> []" using assms(2) by (simp add: ready_def)
  from rotation_of_indices [OF this] show ?thesis
    using switches_round_robin [OF assms, where n = "length (tm_threads (w_tm w))"] by simp
qed

theorem round_robin_fair_witness:
  "\<exists>w'. switches (\<lambda>_ w. w) 3 (sample_world [1, 1, 1]) = Inr ([1, 2, 0], w')"
proof -
  have "ready (sample_world [1, 1, 1])"
    by (auto simp: ready_def sample_world_def mk_ThreadData_def sample_thread_def mk_Thread_def mk_EngineThread_def
        mk_ThreadManager_def nth_Cons' split: if_splits)
  moreover have "keeps_schedule (\<lambda>w. w)" by (simp add: keeps_schedule_def)
  ultimately have "\<exists>w'. switches (\<lambda>_ w. w) (length (tm_threads (w_tm (sample_world [1, 1, 1])))) (sample_world [1, 1, 1]) =
    Inr (rotate (Suc (unat (current_thread_index (w_tm (sample_world [1, 1, 1]))))) (map sd_thread (tm_threads (w_tm (sample_world [1, 1, 1])))), w')"
    by (intro round_robin_fair)
  then show ?thesis by (simp add: sample_world_def mk_ThreadManager_def mk_ThreadData_def numeral_3_eq_3 numeral_2_eq_2)
qed

section \<open>Delivery of timeouts\<close>

definition with_timeouts :: "ThreadTimeout TimeoutItem list \<Rightarrow> 'h world \<Rightarrow> 'h world" where
  "with_timeouts q w = w\<lparr>w_tm := (w_tm w)\<lparr>tm_timeouts := q\<rparr>\<rparr>"

lemma push_timeout_with: "push_timeout t (with_timeouts q w) = with_timeouts q (push_timeout t w)"
  by (simp add: push_timeout_def with_timeouts_def upd_ethread_def)

lemma fold_push_with: "fold push_timeout ts (with_timeouts q w) = with_timeouts q (fold push_timeout ts w)"
  by (induction ts arbitrary: w) (simp_all add: push_timeout_with)

lemma fold_push_frame:
  "w_tm (fold push_timeout ts w) = w_tm w \<and> w_threads (fold push_timeout ts w) = w_threads w \<and>
   length (w_ethreads (fold push_timeout ts w)) = length (w_ethreads w)"
  by (induction ts arbitrary: w) (simp_all add: push_timeout_def upd_ethread_def)

lemma process_timeouts_drain:
  assumes "drain to_Elapsed to_Take n now (tm_timeouts (w_tm w)) = Inr (ts, q)"
  shows "process_timeouts now w = Inr (with_timeouts q (fold push_timeout ts w))"
  using assms
proof (induction n arbitrary: w ts)
  case 0
  then show ?case by (subst process_timeouts.simps) (auto simp: with_timeouts_def split: if_splits)
next
  case (Suc n)
  show ?case
  proof (cases "to_Elapsed now (tm_timeouts (w_tm w))")
    case False
    then show ?thesis using Suc.prems by (subst process_timeouts.simps) (auto simp: with_timeouts_def)
  next
    case True
    then obtain t q1 us where t: "to_Take (tm_timeouts (w_tm w)) = Inr (t, q1)" "drain to_Elapsed to_Take n now q1 = Inr (us, q)" "ts = t # us"
      using Suc.prems by (auto simp: res_iffs)
    let ?w = "push_timeout t (with_timeouts q1 w)"
    have "process_timeouts now w = process_timeouts now ?w"
      using True t(1) by (subst process_timeouts.simps) (simp add: with_timeouts_def)
    also have "\<dots> = Inr (with_timeouts q (fold push_timeout us ?w))"
      by (rule Suc.IH) (simp add: t(2) with_timeouts_def)
    also have "with_timeouts q (fold push_timeout us ?w) = with_timeouts q (fold push_timeout ts w)"
      using t(3) by (simp add: push_timeout_with fold_push_with) (simp add: with_timeouts_def)
    finally show ?thesis .
  qed
qed

text \<open>The timeouts of the threads whose messages go to engine thread \<open>e\<close>.\<close>

definition timeouts_for :: "'h world \<Rightarrow> nat \<Rightarrow> ThreadTimeout list \<Rightarrow> ThreadTimeout list" where
  "timeouts_for w e ts = filter (\<lambda>t. th_ethread (w_threads w ! tt_thread t) = e) ts"

lemma fold_push_messages:
  assumes "e < length (w_ethreads w)"
  shows "messages (w_ethreads (fold push_timeout ts w) ! e) =
    messages (w_ethreads w ! e) @ map (\<lambda>t. Some (timeout_message (tt_index t))) (timeouts_for w e ts)"
  using assms
proof (induction ts arbitrary: w)
  case (Cons t ts)
  have "timeouts_for (push_timeout t w) e ts = timeouts_for w e ts" by (simp add: timeouts_for_def)
  moreover have "messages (w_ethreads (push_timeout t w) ! e) =
      messages (w_ethreads w ! e) @ (if th_ethread (w_threads w ! tt_thread t) = e then [Some (timeout_message (tt_index t))] else [])"
    using Cons.prems by (simp add: push_timeout_def upd_ethread_def PushMessage_def vec_push_def nth_list_update)
  moreover have "e < length (w_ethreads (push_timeout t w))" using Cons.prems by (simp add: push_timeout_def upd_ethread_def)
  ultimately show ?case using Cons.IH [of "push_timeout t w"] by (simp add: timeouts_for_def)
qed (simp add: timeouts_for_def)

lemma process_timeouts_exact:
  assumes "to_inv (tm_timeouts (w_tm w))"
  shows "\<exists>ts w'. process_timeouts now w = Inr w' \<and> to_inv (tm_timeouts (w_tm w')) \<and>
    to_items (tm_timeouts (w_tm w)) = mset ts + to_items (tm_timeouts (w_tm w')) \<and>
    sorted (map snd ts) \<and> (\<forall>(t, due) \<in> set ts. due \<le> now) \<and> (\<forall>(t, due) \<in># to_items (tm_timeouts (w_tm w')). now < due) \<and>
    w' = with_timeouts (tm_timeouts (w_tm w')) (fold push_timeout (map fst ts) w)"
proof -
  let ?q = "tm_timeouts (w_tm w)"
  obtain xs q where d: "drain to_Elapsed to_Take (size (to_items ?q)) now ?q = Inr (map fst xs, q)" "to_inv q"
      "to_items ?q = mset xs + to_items q" "sorted (map snd xs)" "\<forall>(x, w) \<in> set xs. w \<le> now" "\<forall>(x, w) \<in># to_items q. now < w"
    using heap_queue.drain_ok [OF assms order_refl] by blast
  let ?w = "with_timeouts q (fold push_timeout (map fst xs) w)"
  have "tm_timeouts (w_tm ?w) = q" by (simp add: with_timeouts_def)
  then show ?thesis
    using process_timeouts_drain [OF d(1)] d(2-) by (intro exI [of _ xs] exI [of _ ?w]) (simp add: with_timeouts_def)
qed

text \<open>
  C19. Timers fire exactly once, in order and never early. \<open>ProcessTimeouts\<close> always returns;
  the timeouts it removes are those that are due, the ones that stay are all in the
  future, and each removed timeout becomes one message in the queue of its thread, after what was there,
  in the order of their times.
\<close>

theorem timeouts_delivered:
  assumes "to_inv (tm_timeouts (w_tm w))"
  shows "\<exists>ts w'. ProcessTimeouts now w = Inr w' \<and> to_inv (tm_timeouts (w_tm w')) \<and>
    to_items (tm_timeouts (w_tm w)) = mset ts + to_items (tm_timeouts (w_tm w')) \<and>
    sorted (map snd ts) \<and> (\<forall>(t, due) \<in> set ts. due \<le> now) \<and> (\<forall>(t, due) \<in># to_items (tm_timeouts (w_tm w')). now < due) \<and>
    (\<forall>e < length (w_ethreads w). messages (w_ethreads w' ! e) = messages (w_ethreads w ! e) @
       map (\<lambda>t. Some (timeout_message (tt_index t))) (timeouts_for w e (map fst ts)))"
proof -
  obtain ts w' where r: "process_timeouts now w = Inr w'" "to_inv (tm_timeouts (w_tm w'))"
      "to_items (tm_timeouts (w_tm w)) = mset ts + to_items (tm_timeouts (w_tm w'))" "sorted (map snd ts)"
      "\<forall>(t, due) \<in> set ts. due \<le> now" "\<forall>(t, due) \<in># to_items (tm_timeouts (w_tm w')). now < due"
      "w' = with_timeouts (tm_timeouts (w_tm w')) (fold push_timeout (map fst ts) w)"
    using process_timeouts_exact [OF assms] by blast
  have "w_ethreads w' = w_ethreads (fold push_timeout (map fst ts) w)" by (subst r(7)) (simp add: with_timeouts_def)
  then show ?thesis using r(1-6) fold_push_messages [of _ w "map fst ts"]
    by (intro exI [of _ ts] exI [of _ w']) (simp add: ProcessTimeouts_def)
qed

definition sample_timeouts :: "unit world" where
  "sample_timeouts = SetTimeout 100 0 7 1 (SetTimeout 100 0 8 2 (SetTimeout 100 0 9 9 (sample_world [1])))"

theorem timeouts_delivered_witness:
  "\<exists>w'. ProcessTimeouts 2500 sample_timeouts = Inr w' \<and>
     messages (w_ethreads w' ! 0) = [Some (timeout_message 7), Some (timeout_message 8)]"
proof -
  let ?t = "\<lambda>i. \<lparr>tt_thread = 0, tt_index = i\<rparr>"
  have e: "to_inv []" "to_items [] = {#}" by (simp_all add: to_inv_def heap_upto_def to_items_def)
  note p1 = heap_queue.put_law [OF e(1), of "?t 9" 9100]
  note p2 = heap_queue.put_law [OF conjunct1 [OF p1], of "?t 8" 2100]
  note p3 = heap_queue.put_law [OF conjunct1 [OF p2], of "?t 7" 1100]
  have q: "to_inv (tm_timeouts (w_tm sample_timeouts))" "to_items (tm_timeouts (w_tm sample_timeouts)) = {#(?t 7, 1100), (?t 8, 2100), (?t 9, 9100)#}"
    using p1 p2 p3 e(2) by (simp_all add: sample_timeouts_def SetTimeout_def sample_world_def mk_ThreadManager_def)
  obtain ts w' where r: "ProcessTimeouts 2500 sample_timeouts = Inr w'"
      "{#(?t 7, 1100), (?t 8, 2100), (?t 9, 9100)#} = mset ts + to_items (tm_timeouts (w_tm w'))" "sorted (map snd ts)"
      "\<forall>(t, due) \<in> set ts. due \<le> 2500" "\<forall>(t, due) \<in># to_items (tm_timeouts (w_tm w')). 2500 < due"
      "\<forall>e < length (w_ethreads sample_timeouts). messages (w_ethreads w' ! e) = messages (w_ethreads sample_timeouts ! e) @
       map (\<lambda>t. Some (timeout_message (tt_index t))) (timeouts_for sample_timeouts e (map fst ts))"
    using timeouts_delivered [OF q(1), of 2500] unfolding q(2) by blast
  let ?due = "\<lambda>x :: ThreadTimeout \<times> u64. snd x \<le> 2500"
  have "filter_mset ?due (mset ts) = mset ts" using r(4) by (auto simp: filter_mset_eq_conv)
  moreover have "filter_mset ?due (to_items (tm_timeouts (w_tm w'))) = {#}" using r(5) by (auto simp: not_le)
  ultimately have "mset ts = filter_mset ?due {#(?t 7, 1100), (?t 8, 2100), (?t 9, 9100)#}" unfolding r(2) by simp
  then have m: "mset ts = {#(?t 7, 1100), (?t 8, 2100)#}" by (simp add: word_le_nat_alt)
  then have "length ts = 2" by (metis size_mset size_add_mset size_empty numeral_2_eq_2)
  then obtain x y where "ts = [x, y]" by (auto simp: numeral_2_eq_2 length_Suc_conv)
  then have "ts = [(?t 7, 1100), (?t 8, 2100)]" using m r(3) by (auto simp: add_eq_conv_ex word_le_nat_alt)
  then show ?thesis using r(1,6)
    by (simp add: timeouts_for_def sample_timeouts_def SetTimeout_def sample_world_def sample_thread_def mk_Thread_def mk_EngineThread_def)
qed

section \<open>Thread local keys\<close>

abbreviation on_thread :: "nat \<Rightarrow> 'h world \<Rightarrow> 'h world" where
  "on_thread t w \<equiv> w\<lparr>w_tm := (w_tm w)\<lparr>current_thread := Some t\<rparr>\<rparr>"

lemma unat_pred_eq: "0 < j \<Longrightarrow> 0 < k \<Longrightarrow> j - 1 = (k - 1 :: u64) \<longleftrightarrow> j = k"
  by auto

text \<open>
  Thread local keys. A value stored under a key while thread \<open>a\<close> runs is read back under
  that key on thread \<open>a\<close>, and no other key of \<open>a\<close> and no key of any other thread changes.
\<close>

theorem key_isolation:
  assumes "w_has_tm w" "a < length (w_threads w)" "ls_wf (th_local_storage (w_threads w ! a))"
    and "ks_Set k v ks (Some (on_thread a w)) = Inr (ks', Some w')"
    and "0 < j" "unat (j - 1) < kMaxSlots"
  shows "ks_Get j ks' (Some (on_thread b w')) =
    (if b = a \<and> j = k then Inr v else ks_Get j ks (Some (on_thread b w)))"
proof -
  obtain s where s: "ls_Set (th_local_storage (w_threads w ! a)) (k - 1) v = Inr s" "0 < k"
      "w' = upd_thread a (\<lambda>x. x\<lparr>th_local_storage := s\<rparr>) (on_thread a w)"
    using assms(1,4) by (auto simp: ks_Set_def ThreadLocalSet_def res_iffs)
  have "ls_Get s (j - 1) = (if j - 1 = k - 1 then Inr v else ls_Get (th_local_storage (w_threads w ! a)) (j - 1))"
    by (rule ls_Get_Set [OF assms(3) s(1) assms(6)])
  then show ?thesis
    using s assms(1,2,5) unat_pred_eq [OF assms(5) s(2)]
    by (auto simp: ks_Get_def ThreadLocalGet_def upd_thread_def nth_list_update)
qed

theorem key_isolation_witness:
  "\<exists>ks' w'. ks_Set 3 77 mk_KeyStorage (Some (on_thread 1 (sample_world [1, 1]))) = Inr (ks', Some w') \<and>
     ks_Get 3 ks' (Some (on_thread 1 w')) = Inr 77 \<and> ks_Get 3 ks' (Some (on_thread 0 w')) = Inr 0"
proof -
  let ?w = "sample_world [1, 1]"
  have th: "th_local_storage (w_threads ?w ! i) = mk_LocalStorage" if "i < 2" for i
    using that by (cases i) (auto simp: sample_world_def sample_thread_def mk_Thread_def)
  obtain s where s: "ls_Set mk_LocalStorage 2 77 = Inr s" by (auto simp: ls_Set_def kMaxSlots_def)
  obtain w' where w': "ks_Set 3 77 mk_KeyStorage (Some (on_thread 1 ?w)) = Inr (mk_KeyStorage, Some w')"
    using s th [of 1] by (auto simp: ks_Set_def ThreadLocalSet_def sample_world_def)
  have "ks_Get 3 mk_KeyStorage (Some (on_thread b w')) =
      (if b = 1 \<and> (3::u64) = 3 then Inr 77 else ks_Get 3 mk_KeyStorage (Some (on_thread b ?w)))" for b
    by (rule key_isolation [OF _ _ _ w']) (simp_all add: th, simp_all add: sample_world_def kMaxSlots_def)
  moreover have "ks_Get 3 mk_KeyStorage (Some (on_thread 0 ?w)) = Inr 0"
    using th [of 0] by (simp add: ks_Get_def ThreadLocalGet_def sample_world_def ls_Get_def mk_LocalStorage_def kMaxSlots_def)
  ultimately show ?thesis using w' by simp
qed

end
