(* ===== verification/EventLoop.thy ===== *)
theory EventLoop
  imports Scheduler
begin

text \<open>
  The event loop: interrupt dispatch (\<^verbatim>\<open>src/src/kernel/irq-dispatcher.h\<close>, \<^verbatim>\<open>irq-dispatcher.cc\<close>), the native
  calls of \<^verbatim>\<open>native-object.cc\<close> that change the state of a thread (timers, \<open>setImmediate\<close>, interrupt
  handlers), and \<open>Thread::Run\<close> of \<^verbatim>\<open>thread.cc\<close>, which takes the messages of a thread and handles
  each. V8 is a parameter: for every entry into JavaScript it gives the list of native calls that
  JavaScript makes there, each with the clock the kernel reads in it; nothing is assumed of it.

  The central invariant is that every live timer of a thread has exactly one token, which is either in
  the timeout queue or a message on its way; it is kept by every step of the loop. So a timeout
  message always finds its timer, and a timer is never lost or delivered twice.
\<close>

section \<open>Interrupt dispatch\<close>

definition kIrqCount :: nat where "kIrqCount = 225"

definition mk_IRQBinding :: "nat \<Rightarrow> u64 \<Rightarrow> nat \<times> ThreadMessage" where
  "mk_IRQBinding thread index = (thread, MakeReusable (mk_ThreadMessage IRQ_RAISE None [] None index))"

definition IRQBinding_Raise :: "nat \<times> ThreadMessage \<Rightarrow> 'h world \<Rightarrow> 'h world res" where
  "IRQBinding_Raise b w = res_bind (rt_assert (reusable (snd b)) ''reusable_msg_->reusable()'') (\<lambda>_.
     Inr (upd_ethread (fst b) (PushMessageIRQ (snd b)) w))"

definition irq_Bind :: "u8 \<Rightarrow> nat \<Rightarrow> u64 \<Rightarrow> 'h world \<Rightarrow> 'h world res" where
  "irq_Bind number thread index w = res_bind (rt_assert (unat number < kIrqCount) ''number < kIrqCount'') (\<lambda>_.
     Inr (w\<lparr>w_bindings := (w_bindings w)[unat number := (w_bindings w ! unat number) @ [mk_IRQBinding thread index]]\<rparr>))"

primrec raise_all :: "(nat \<times> ThreadMessage) list \<Rightarrow> 'h world \<Rightarrow> 'h world res" where
  "raise_all [] w = Inr w"
| "raise_all (b # bs) w = res_bind (IRQBinding_Raise b w) (raise_all bs)"

definition irq_Raise :: "u32 \<Rightarrow> u8 \<Rightarrow> 'h world \<Rightarrow> 'h world res" where
  "irq_Raise cpu number w = res_bind (rt_assert (cpu = 0) ''0 == Cpu::id()'') (\<lambda>_.
     res_bind (rt_assert (unat number < kIrqCount) ''number < kIrqCount'') (\<lambda>_.
       raise_all (w_bindings w ! unat number) w))"

section \<open>Native calls\<close>

definition SetTimer :: "u64 \<Rightarrow> nat \<Rightarrow> nat \<Rightarrow> u32 \<Rightarrow> bool \<Rightarrow> 'h world \<Rightarrow> (u32 \<times> 'h world) res" where
  "SetTimer now th cb delay autoreset w =
     res_bind (mk_TimeoutData (Some cb) delay autoreset) (\<lambda>d.
       case AddTimeoutData d (w_threads w ! th) of (index, t) \<Rightarrow>
         Inr (index, SetTimeout now th index (ucast delay) (upd_thread th (\<lambda>_. t) w)))"

definition ClearTimer :: "nat \<Rightarrow> u32 \<Rightarrow> 'h world \<Rightarrow> bool \<times> 'h world" where
  "ClearTimer th index w = (case FlagTimeoutCleared index (w_threads w ! th) of (b, t) \<Rightarrow> (b, upd_thread th (\<lambda>_. t) w))"

definition SetImmediate :: "nat \<Rightarrow> nat \<Rightarrow> 'h world \<Rightarrow> 'h world" where
  "SetImmediate th fn w = (case PutObject (Some fn) (w_threads w ! th) of (index, t) \<Rightarrow>
     upd_ethread (th_ethread t) (PushMessage (mk_ThreadMessage SET_IMMEDIATE None [] None (ucast index)))
       (upd_thread th (\<lambda>_. t) w))"

definition IrqOn :: "nat \<Rightarrow> u8 \<Rightarrow> nat \<Rightarrow> 'h world \<Rightarrow> 'h world res" where
  "IrqOn th irq_number fn w = (case PutObject (Some fn) (w_threads w ! th) of (index, t) \<Rightarrow>
     irq_Bind irq_number (th_ethread t) (ucast index) (upd_thread th (\<lambda>_. t) w))"

text \<open>\<open>Interrupt\<close> is no call: an interrupt may arrive at any moment while JavaScript runs.\<close>

datatype native_call = NSetTimeout nat u32 | NSetInterval nat u32 | NClearTimer u32 | NSetImmediate nat | NIrqOn u8 nat
  | Interrupt u8

fun exec_native :: "nat \<Rightarrow> u64 \<times> native_call \<Rightarrow> 'h world \<Rightarrow> 'h world res" where
  "exec_native th (now, NSetTimeout cb delay) w = res_bind (SetTimer now th cb delay False w) (\<lambda>(i, w'). Inr w')"
| "exec_native th (now, NSetInterval cb delay) w = res_bind (SetTimer now th cb delay True w) (\<lambda>(i, w'). Inr w')"
| "exec_native th (now, NClearTimer index) w = Inr (snd (ClearTimer th index w))"
| "exec_native th (now, NSetImmediate fn) w = Inr (SetImmediate th fn w)"
| "exec_native th (now, NIrqOn number fn) w = IrqOn th number fn w"
| "exec_native th (now, Interrupt number) w = irq_Raise 0 number w"

primrec run_natives :: "nat \<Rightarrow> (u64 \<times> native_call) list \<Rightarrow> 'h world \<Rightarrow> 'h world res" where
  "run_natives th [] w = Inr w"
| "run_natives th (c # cs) w = res_bind (exec_native th c w) (run_natives th cs)"

section \<open>\<open>Thread::Run\<close>\<close>

datatype js_entry = RunScript outval outval | CallFunction nat | CallWrapper nat "nat option" nat outval u64
  | ResolvePromise nat outval | RejectPromise nat outval

type_synonym 'h js = "js_entry \<Rightarrow> 'h world \<Rightarrow> (u64 \<times> native_call) list"

definition run_js :: "'h js \<Rightarrow> nat \<Rightarrow> js_entry \<Rightarrow> 'h world \<Rightarrow> 'h world res" where
  "run_js js th entry w = run_natives th (js entry w) w"

definition arr_get :: "outval list \<Rightarrow> nat \<Rightarrow> outval" where
  "arr_get es i = (if i < length es then es ! i else UUndefined)"

fun is_js_string :: "outval \<Rightarrow> bool" where
  "is_js_string (UString16 s) = True"
| "is_js_string (UStringUtf8 s) = True"
| "is_js_string _ = False"

definition empty_string :: "outval \<Rightarrow> bool" where
  "empty_string s \<longleftrightarrow> s = UString16 [] \<or> s = UStringUtf8 []"

definition handle_evaluate :: "'h js \<Rightarrow> nat \<Rightarrow> ThreadMessage \<Rightarrow> 'h world \<Rightarrow> 'h world res" where
  "handle_evaluate js th m w = res_bind (Unpack (msg_data m)) (\<lambda>unpacked. case unpacked of
     UArray es \<Rightarrow>
       res_bind (rt_assert (is_js_string (arr_get es 0)) ''code->IsString()'') (\<lambda>_.
       res_bind (rt_assert (is_js_string (arr_get es 1)) ''filename->IsString()'') (\<lambda>_.
       let w1 = upd_thread th (\<lambda>t. if empty_string (th_filename t) then t\<lparr>th_filename := arr_get es 1\<rparr> else t) w in
       run_js js th (RunScript (arr_get es 0) (arr_get es 1)) w1))
   | _ \<Rightarrow> Inl (AssertFailed ''unpacked->IsArray()''))"

definition handle_call :: "'h js \<Rightarrow> nat \<Rightarrow> ThreadMessage \<Rightarrow> 'h world \<Rightarrow> 'h world res" where
  "handle_call js th m w = res_bind (Unpack (msg_data m)) (\<lambda>unpacked.
     case msg_ptr m of None \<Rightarrow> Inl (AssertFailed ''efn'')
     | Some (index, export_id) \<Rightarrow> res_bind (fe_Get (th_exports (w_threads w ! th)) index export_id) (\<lambda>fnval.
       case th_call_wrapper (w_threads w ! th) of None \<Rightarrow> Inl (AssertFailed ''!call_wrapper_.IsEmpty()'')
       | Some wrapper \<Rightarrow> res_bind (message_sender m) (\<lambda>sender.
           run_js js th (CallWrapper wrapper fnval sender unpacked (recv_index m)) w)))"

definition handle_result :: "'h js \<Rightarrow> (nat \<Rightarrow> outval \<Rightarrow> js_entry) \<Rightarrow> nat \<Rightarrow> ThreadMessage \<Rightarrow> 'h world \<Rightarrow> 'h world res" where
  "handle_result js entry th m w = res_bind (Unpack (msg_data m)) (\<lambda>unpacked.
     res_bind (TakePromise (ucast (recv_index m)) (w_threads w ! th)) (\<lambda>(r, t).
       case r of None \<Rightarrow> Inl (OutOfBounds ''empty resolver'')
       | Some resolver \<Rightarrow> run_js js th (entry resolver unpacked) (upd_thread th (\<lambda>_. t) w)))"

text \<open>
  The timer part of \<open>TIMEOUT_EVENT\<close>: the callback to call, if the timer was not cleared, after an interval
  has been armed again.
\<close>

definition fire_timeout :: "u64 \<Rightarrow> nat \<Rightarrow> u64 \<Rightarrow> 'h world \<Rightarrow> (nat option \<times> 'h world) res" where
  "fire_timeout now th index w =
     res_bind (rt_assert (index < 0xFFFFFFFF) ''recv_index < std::numeric_limits<uint32_t>::max()'') (\<lambda>_.
     res_bind (TakeTimeoutData (ucast index) (w_threads w ! th)) (\<lambda>(d, t).
       let w1 = upd_thread th (\<lambda>_. t) w in
       if td_cleared d then Inr (None, w1)
       else res_bind (td_GetCallback d) (\<lambda>fn.
         if td_autoreset d
         then case AddTimeoutData d t of (i, t') \<Rightarrow>
           Inr (Some fn, SetTimeout now th i (ucast (td_delay d)) (upd_thread th (\<lambda>_. t') w1))
         else Inr (Some fn, w1))))"

definition handle_timeout :: "'h js \<Rightarrow> u64 \<Rightarrow> nat \<Rightarrow> ThreadMessage \<Rightarrow> 'h world \<Rightarrow> 'h world res" where
  "handle_timeout js now th m w = res_bind (fire_timeout now th (recv_index m) w) (\<lambda>(cb, w1).
     case cb of None \<Rightarrow> Inr w1 | Some fn \<Rightarrow> run_js js th (CallFunction fn) w1)"

definition handle_irq :: "'h js \<Rightarrow> nat \<Rightarrow> ThreadMessage \<Rightarrow> 'h world \<Rightarrow> 'h world res" where
  "handle_irq js th m w = res_bind (GetObject (ucast (recv_index m)) (w_threads w ! th)) (\<lambda>fnv.
     case fnv of None \<Rightarrow> Inl (OutOfBounds ''empty handle'') | Some fn \<Rightarrow> run_js js th (CallFunction fn) w)"

definition handle_immediate :: "'h js \<Rightarrow> nat \<Rightarrow> ThreadMessage \<Rightarrow> 'h world \<Rightarrow> 'h world res" where
  "handle_immediate js th m w = res_bind (TakeObject (ucast (recv_index m)) (w_threads w ! th)) (\<lambda>(fnv, t).
     case fnv of None \<Rightarrow> Inl (OutOfBounds ''empty handle'')
     | Some fn \<Rightarrow> run_js js th (CallFunction fn) (upd_thread th (\<lambda>_. t) w))"

fun handle_message :: "'h js \<Rightarrow> u64 \<Rightarrow> nat \<Rightarrow> ThreadMessage \<Rightarrow> 'h world \<Rightarrow> 'h world res" where
  "handle_message js now th m w = (case msg_type m of
     EVALUATE \<Rightarrow> handle_evaluate js th m w
   | FUNCTION_CALL \<Rightarrow> handle_call js th m w
   | FUNCTION_RETURN_RESOLVE \<Rightarrow> handle_result js ResolvePromise th m w
   | FUNCTION_RETURN_REJECT \<Rightarrow> handle_result js RejectPromise th m w
   | TIMEOUT_EVENT \<Rightarrow> handle_timeout js now th m w
   | IRQ_RAISE \<Rightarrow> handle_irq js th m w
   | SET_IMMEDIATE \<Rightarrow> handle_immediate js th m w
   | EMPTY \<Rightarrow> Inr w)"

text \<open>The loop over the messages; \<open>clk k\<close> is the clock while the \<open>k\<close>-th entry is handled.\<close>

fun process_messages :: "'h js \<Rightarrow> (nat \<Rightarrow> u64) \<Rightarrow> nat \<Rightarrow> ThreadMessage option list \<Rightarrow> u64 \<Rightarrow> 'h world \<Rightarrow> (u64 \<times> 'h world) res" where
  "process_messages js clk th [] ev_count w = Inr (ev_count, w)"
| "process_messages js clk th (None # ms) ev_count w = process_messages js clk th ms ev_count w"
| "process_messages js clk th (Some m # ms) ev_count w =
     res_bind (handle_message js (clk (length ms)) th m w) (\<lambda>w1.
     res_bind (if reusable m then Inr () else delete_message m) (\<lambda>_.
       process_messages js clk th ms (ev_count + 1) w1))"

definition finish_run :: "u64 \<Rightarrow> u64 \<Rightarrow> u64 \<Rightarrow> Thread \<Rightarrow> bool \<times> Thread" where
  "finish_run time_now time_now_end ev_count t =
     (let t1 = (if ev_count > 0 then t\<lparr>th_ev_count := th_ev_count t + ev_count\<rparr> else t);
          t2 = (if time_now_end < time_now then t1 else t1\<lparr>th_runtime := th_runtime t1 + (time_now_end - time_now)\<rparr>) in
      if th_ref_count t2 = 0 \<or> th_terminate t2 then (False, t2\<lparr>th_terminate := True\<rparr>) else (True, t2))"

definition thread_Run :: "'h js \<Rightarrow> u64 \<Rightarrow> u64 \<Rightarrow> (nat \<Rightarrow> u64) \<Rightarrow> nat \<Rightarrow> 'h world \<Rightarrow> (bool \<times> 'h world) res" where
  "thread_Run js time_now time_now_end clk th w =
     (let t = w_threads w ! th in
      res_bind (rt_assert (th_type t \<noteq> TERMINATED) ''ThreadType::TERMINATED != type_'') (\<lambda>_.
      if th_type t = IDLE then Inr (True, w\<lparr>w_tm := SetEvCheckpoint (w_tm w)\<rparr>)
      else res_bind (rt_assert (th_iv8 t) ''iv8_'') (\<lambda>_.
      res_bind (rt_assert (th_tpl_cache t) ''tpl_cache_'') (\<lambda>_.
      case TakeMessages (w_ethreads w ! th_ethread t) of (ms, e) \<Rightarrow>
      let w1 = upd_ethread (th_ethread t) (\<lambda>_. e) w in
      if ms = [] then Inr (True, w1)
      else res_bind (process_messages js clk th ms 0 (upd_thread th (\<lambda>t. t\<lparr>th_context := True\<rparr>) w1)) (\<lambda>(ev_count, w2).
        let w3 = (if ev_count > 0 then w2\<lparr>w_tm := SubmitEvWork ev_count (w_tm w2)\<rparr> else w2) in
        case finish_run time_now time_now_end ev_count (w_threads w3 ! th) of (again, t') \<Rightarrow>
          Inr (again, upd_thread th (\<lambda>_. t') w3))))))"

section \<open>Timer tokens\<close>

definition is_timeout :: "ThreadMessage option \<Rightarrow> bool" where
  "is_timeout m = (case m of None \<Rightarrow> False | Some x \<Rightarrow> msg_type x = TIMEOUT_EVENT)"

definition token :: "ThreadMessage option \<Rightarrow> u32" where
  "token m = (case m of None \<Rightarrow> 0 | Some x \<Rightarrow> ucast (recv_index x))"

definition msg_tokens :: "ThreadMessage option list \<Rightarrow> u32 multiset" where
  "msg_tokens ms = mset (map token (filter is_timeout ms))"

definition queue_tokens :: "nat \<Rightarrow> ThreadTimeout TimeoutItem list \<Rightarrow> u32 multiset" where
  "queue_tokens a q = image_mset (\<lambda>x. tt_index (fst x)) (filter_mset (\<lambda>x. tt_thread (fst x) = a) (to_items q))"

text \<open>The index in a timeout message was a 32-bit index of a pool.\<close>

definition msgs_ok :: "ThreadMessage option list \<Rightarrow> bool" where
  "msgs_ok ms \<longleftrightarrow> (\<forall>m. Some m \<in> set ms \<longrightarrow> msg_type m = TIMEOUT_EVENT \<longrightarrow> recv_index m = ucast (ucast (recv_index m) :: u32))"

abbreviation live :: "'h world \<Rightarrow> nat \<Rightarrow> u32 set" where
  "live w a \<equiv> dom (timers (w_threads w ! a))"

abbreviation queue_of :: "'h world \<Rightarrow> nat \<Rightarrow> ThreadMessage option list" where
  "queue_of w a \<equiv> messages (w_ethreads w ! th_ethread (w_threads w ! a))"

text \<open>\<open>E a\<close> are the tokens of thread \<open>a\<close> in a batch of messages that is being handled.\<close>

definition timer_inv :: "(nat \<Rightarrow> u32 multiset) \<Rightarrow> 'h world \<Rightarrow> bool" where
  "timer_inv E w \<longleftrightarrow> to_inv (tm_timeouts (w_tm w)) \<and>
     (\<forall>a < length (w_threads w). th_ethread (w_threads w ! a) < length (w_ethreads w)) \<and>
     inj_on (\<lambda>a. th_ethread (w_threads w ! a)) {..<length (w_threads w)} \<and>
     (\<forall>a < length (w_threads w).
        queue_tokens a (tm_timeouts (w_tm w)) + msg_tokens (queue_of w a) + E a = mset_set (live w a)) \<and>
     (\<forall>e \<in> set (w_ethreads w). msgs_ok (messages e)) \<and>
     (\<forall>bs \<in> set (w_bindings w). \<forall>b \<in> set bs. msg_type (snd b) = IRQ_RAISE) \<and>
     (\<forall>x \<in># to_items (tm_timeouts (w_tm w)). tt_thread (fst x) < length (w_threads w)) \<and>
     length (w_bindings w) = kIrqCount"

text \<open>The tables of timers stay below \<open>2 ^ 32 - 1\<close> entries; they never shrink.\<close>

definition rooms :: "'h world \<Rightarrow> bool" where
  "rooms w \<longleftrightarrow> (\<forall>a < length (w_threads w). pool_room (th_timeout_data (w_threads w ! a)))"

definition grows :: "'h world \<Rightarrow> 'h world \<Rightarrow> bool" where
  "grows w w' \<longleftrightarrow> length (w_threads w') = length (w_threads w) \<and>
     (\<forall>a < length (w_threads w). length (th_timeout_data (w_threads w ! a)) \<le> length (th_timeout_data (w_threads w' ! a)))"

lemma grows_refl [simp]: "grows w w"
  by (simp add: grows_def)

lemma grows_trans: "grows u v \<Longrightarrow> grows v w \<Longrightarrow> grows u w"
  unfolding grows_def by (metis order_trans)

lemma rooms_grows: "grows w w' \<Longrightarrow> rooms w' \<Longrightarrow> rooms w"
  unfolding grows_def rooms_def pool_room_def by (metis le_less_trans)

lemma finite_live: "finite (live w a)"
proof -
  have "live w a \<subseteq> of_nat ` {..<length (th_timeout_data (w_threads w ! a))}"
  proof
    fix x assume "x \<in> live w a"
    then have "unat x < length (th_timeout_data (w_threads w ! a))" by (auto simp: pool_look_def split: if_splits)
    moreover have "x = of_nat (unat x)" by simp
    ultimately show "x \<in> of_nat ` {..<length (th_timeout_data (w_threads w ! a))}" by blast
  qed
  then show ?thesis by (rule finite_subset) simp
qed

lemma timer_invD:
  assumes "timer_inv E w"
  shows "to_inv (tm_timeouts (w_tm w))"
    and "a < length (w_threads w) \<Longrightarrow> th_ethread (w_threads w ! a) < length (w_ethreads w)"
    and "a < length (w_threads w) \<Longrightarrow> b < length (w_threads w) \<Longrightarrow> th_ethread (w_threads w ! a) = th_ethread (w_threads w ! b) \<Longrightarrow> a = b"
    and "a < length (w_threads w) \<Longrightarrow> queue_tokens a (tm_timeouts (w_tm w)) + msg_tokens (queue_of w a) + E a = mset_set (live w a)"
    and "e \<in> set (w_ethreads w) \<Longrightarrow> msgs_ok (messages e)"
    and "bs \<in> set (w_bindings w) \<Longrightarrow> x \<in> set bs \<Longrightarrow> msg_type (snd x) = IRQ_RAISE"
    and "y \<in># to_items (tm_timeouts (w_tm w)) \<Longrightarrow> tt_thread (fst y) < length (w_threads w)"
    and "length (w_bindings w) = kIrqCount"
  using assms unfolding timer_inv_def inj_on_def by blast+

lemma timer_invI:
  assumes "to_inv (tm_timeouts (w_tm w))"
    and "\<And>a. a < length (w_threads w) \<Longrightarrow> th_ethread (w_threads w ! a) < length (w_ethreads w)"
    and "\<And>a b. a < length (w_threads w) \<Longrightarrow> b < length (w_threads w) \<Longrightarrow> th_ethread (w_threads w ! a) = th_ethread (w_threads w ! b) \<Longrightarrow> a = b"
    and "\<And>a. a < length (w_threads w) \<Longrightarrow> queue_tokens a (tm_timeouts (w_tm w)) + msg_tokens (queue_of w a) + E a = mset_set (live w a)"
    and "\<And>e. e \<in> set (w_ethreads w) \<Longrightarrow> msgs_ok (messages e)"
    and "\<And>bs b. bs \<in> set (w_bindings w) \<Longrightarrow> b \<in> set bs \<Longrightarrow> msg_type (snd b) = IRQ_RAISE"
    and "\<And>x. x \<in># to_items (tm_timeouts (w_tm w)) \<Longrightarrow> tt_thread (fst x) < length (w_threads w)"
    and "length (w_bindings w) = kIrqCount"
  shows "timer_inv E w"
  using assms unfolding timer_inv_def inj_on_def by blast

lemma msg_tokens_append [simp]: "msg_tokens (xs @ ys) = msg_tokens xs + msg_tokens ys"
  by (simp add: msg_tokens_def)

lemma msg_tokens_simps [simp]:
  "msg_tokens [] = {#}" "msg_tokens (None # ms) = msg_tokens ms"
  "msg_tokens (Some m # ms) = (if msg_type m = TIMEOUT_EVENT then add_mset (ucast (recv_index m)) (msg_tokens ms) else msg_tokens ms)"
  by (simp_all add: msg_tokens_def is_timeout_def token_def)

lemma msgs_ok_append [simp]: "msgs_ok (xs @ ys) \<longleftrightarrow> msgs_ok xs \<and> msgs_ok ys"
  by (auto simp: msgs_ok_def)

subsection \<open>Steps that leave the timers alone\<close>

text \<open>A change of thread \<open>a\<close> that keeps its timers and its engine thread.\<close>

lemma timer_inv_upd_thread:
  assumes "timer_inv E w" "\<And>t. t = w_threads w ! a \<Longrightarrow> th_ethread (f t) = th_ethread t"
    and "\<And>t. t = w_threads w ! a \<Longrightarrow> dom (timers (f t)) = dom (timers t)"
  shows "timer_inv E (upd_thread a f w)"
proof -
  have e: "th_ethread (w_threads (upd_thread a f w) ! b) = th_ethread (w_threads w ! b)" for b
    using assms(2) by (cases "a < length (w_threads w)") (auto simp: upd_thread_def nth_list_update list_update_beyond not_less)
  have l: "live (upd_thread a f w) b = live w b" for b
    using assms(3) by (cases "a < length (w_threads w)") (auto simp: upd_thread_def nth_list_update list_update_beyond not_less)
  note I = timer_invD [OF assms(1)]
  show ?thesis
    by (rule timer_invI) (use I e l in \<open>auto simp: upd_thread_def\<close>)
qed

lemma upd_thread_grows:
  "(\<And>t. t = w_threads w ! a \<Longrightarrow> length (th_timeout_data t) \<le> length (th_timeout_data (f t))) \<Longrightarrow> grows w (upd_thread a f w)"
  by (cases "a < length (w_threads w)") (auto simp: grows_def upd_thread_def nth_list_update list_update_beyond not_less)

text \<open>A message that is no timeout.\<close>

lemma timer_inv_upd_ethread:
  assumes "timer_inv E w" "\<And>x. messages (f x) = messages x \<or> (\<exists>m. messages (f x) = messages x @ [Some m] \<and> msg_type m \<noteq> TIMEOUT_EVENT)"
  shows "timer_inv E (upd_ethread e f w)"
proof -
  have m: "msg_tokens (messages (f x)) = msg_tokens (messages x)" for x using assms(2) [of x] by auto
  have ok: "msgs_ok (messages x) \<Longrightarrow> msgs_ok (messages (f x))" for x
    using assms(2) [of x] by (auto simp: msgs_ok_def)
  note I = timer_invD [OF assms(1)]
  have q: "msg_tokens (queue_of (upd_ethread e f w) a) = msg_tokens (queue_of w a)" for a
    using m by (cases "e < length (w_ethreads w)") (auto simp: upd_ethread_def nth_list_update list_update_beyond not_less)
  show ?thesis
  proof (rule timer_invI)
    fix x assume "x \<in> set (w_ethreads (upd_ethread e f w))"
    then show "msgs_ok (messages x)"
      using I(5) ok set_update_subset_insert [of "w_ethreads w" e "f (w_ethreads w ! e)"]
      by (cases "e < length (w_ethreads w)") (auto simp: upd_ethread_def list_update_beyond not_less)
  qed (use I q in \<open>auto simp: upd_ethread_def\<close>)
qed

lemma upd_ethread_grows [simp]: "grows w (upd_ethread e f w)"
  by (simp add: grows_def upd_ethread_def)

lemma PutObject_keeps:
  "PutObject v t = (i, t') \<Longrightarrow> th_ethread t' = th_ethread t \<and> th_timeout_data t' = th_timeout_data t"
  by (auto simp: PutObject_def Ref_def Let_def split: prod.splits)

lemma SetImmediate_inv:
  assumes "timer_inv E w"
  shows "timer_inv E (SetImmediate a fn w) \<and> grows w (SetImmediate a fn w)"
proof -
  obtain i t where p: "PutObject (Some fn) (w_threads w ! a) = (i, t)" by fastforce
  note k = PutObject_keeps [OF p]
  have "timer_inv E (upd_thread a (\<lambda>_. t) w)" by (rule timer_inv_upd_thread [OF assms]) (use k in auto)
  then have "timer_inv E (SetImmediate a fn w)"
    unfolding SetImmediate_def p by (auto intro!: timer_inv_upd_ethread simp: PushMessage_def vec_push_def mk_ThreadMessage_def)
  moreover have "grows w (upd_thread a (\<lambda>_. t) w)" by (rule upd_thread_grows) (use k in auto)
  ultimately show ?thesis unfolding SetImmediate_def p by (auto intro: grows_trans)
qed

lemma IrqOn_inv:
  assumes "timer_inv E w" "IrqOn a n fn w = Inr w'"
  shows "timer_inv E w' \<and> grows w w'"
proof -
  obtain i t where p: "PutObject (Some fn) (w_threads w ! a) = (i, t)" by fastforce
  note k = PutObject_keeps [OF p]
  let ?w = "upd_thread a (\<lambda>_. t) w"
  have i: "timer_inv E ?w" by (rule timer_inv_upd_thread [OF assms(1)]) (use k in auto)
  have g: "grows w ?w" by (rule upd_thread_grows) (use k in auto)
  have w': "w' = ?w\<lparr>w_bindings := (w_bindings ?w)[unat n := (w_bindings ?w ! unat n) @ [mk_IRQBinding (th_ethread t) (ucast i)]]\<rparr>"
    and n: "unat n < kIrqCount"
    using assms(2) unfolding IrqOn_def p by (auto simp: irq_Bind_def res_iffs)
  note I = timer_invD [OF i]
  have "timer_inv E w'"
  proof (rule timer_invI)
    fix bs b assume a: "bs \<in> set (w_bindings w')" "b \<in> set bs"
    then have "bs \<in> set (w_bindings ?w) \<or> unat n < length (w_bindings ?w) \<and> bs = (w_bindings ?w ! unat n) @ [mk_IRQBinding (th_ethread t) (ucast i)]"
      unfolding w' by (cases "unat n < length (w_bindings ?w)") (auto simp: list_update_beyond not_less dest: set_update_subset_insert [THEN subsetD])
    then show "msg_type (snd b) = IRQ_RAISE"
    proof (elim disjE conjE)
      assume "unat n < length (w_bindings ?w)" "bs = (w_bindings ?w ! unat n) @ [mk_IRQBinding (th_ethread t) (ucast i)]"
      then show ?thesis using a(2) I(6) [OF nth_mem, of "unat n" b]
        by (auto simp: mk_IRQBinding_def MakeReusable_def mk_ThreadMessage_def)
    qed (use a(2) I(6) in blast)
  qed (use I in \<open>auto simp: w'\<close>)
  moreover have "grows ?w w'" by (simp add: w' grows_def)
  ultimately show ?thesis using g by (blast intro: grows_trans)
qed

lemma raise_all_inv:
  "raise_all bs w = Inr w' \<Longrightarrow> timer_inv E w \<Longrightarrow> (\<forall>b \<in> set bs. msg_type (snd b) = IRQ_RAISE) \<Longrightarrow> timer_inv E w'"
proof (induction bs arbitrary: w)
  case (Cons b bs)
  then have "timer_inv E (upd_ethread (fst b) (PushMessageIRQ (snd b)) w)"
    by (intro timer_inv_upd_ethread) (auto simp: PushMessageIRQ_def vec_push_def)
  then show ?case using Cons by (auto simp: IRQBinding_Raise_def res_iffs)
qed simp

lemma raise_all_grows: "raise_all bs w = Inr w' \<Longrightarrow> grows w w'"
  by (induction bs arbitrary: w) (auto simp: IRQBinding_Raise_def res_iffs intro: grows_trans [OF upd_ethread_grows])

lemma irq_Raise_grows: "irq_Raise cpu n w = Inr w' \<Longrightarrow> grows w w'"
  by (auto simp: irq_Raise_def res_iffs dest: raise_all_grows)

lemma irq_Raise_inv:
  assumes "irq_Raise cpu n w = Inr w'" "timer_inv E w"
  shows "timer_inv E w'"
proof -
  have r: "raise_all (w_bindings w ! unat n) w = Inr w'" "unat n < kIrqCount"
    using assms(1) by (auto simp: irq_Raise_def res_iffs)
  then have "w_bindings w ! unat n \<in> set (w_bindings w)" using timer_invD(8) [OF assms(2)] by simp
  then show ?thesis using raise_all_inv [OF r(1) assms(2)] timer_invD(6) [OF assms(2)] by blast
qed

subsection \<open>Arming and disarming a timer\<close>

lemma queue_tokens_SetTimeout:
  assumes "to_inv (tm_timeouts (w_tm w))"
  shows "to_inv (tm_timeouts (w_tm (SetTimeout now a i ms w)))"
    and "queue_tokens b (tm_timeouts (w_tm (SetTimeout now a i ms w))) =
      queue_tokens b (tm_timeouts (w_tm w)) + (if b = a then {#i#} else {#})"
    and "x \<in># to_items (tm_timeouts (w_tm (SetTimeout now a i ms w))) \<Longrightarrow> x \<in># to_items (tm_timeouts (w_tm w)) \<or> tt_thread (fst x) = a"
  using heap_queue.put_law [OF assms, of "\<lparr>tt_thread = a, tt_index = i\<rparr>" "now + ms * 1000"]
  by (auto simp: SetTimeout_def queue_tokens_def)

lemma SetTimeout_keeps [simp]:
  "w_threads (SetTimeout now a i ms w) = w_threads w" "w_ethreads (SetTimeout now a i ms w) = w_ethreads w"
  "w_bindings (SetTimeout now a i ms w) = w_bindings w"
  by (simp_all add: SetTimeout_def)

lemma AddTimeoutData_timers:
  assumes "AddTimeoutData d t = (i, t')" "pool_room (th_timeout_data t)" "\<not> td_IsEmpty d"
  shows "timers t i = None" "timers t' = (timers t)(i \<mapsto> d)" "th_ethread t' = th_ethread t"
    "length (th_timeout_data t) \<le> length (th_timeout_data t')"
proof -
  obtain p where p: "pool_Push td_IsEmpty d (th_timeout_data t) = (i, p)" "t' = (Ref t)\<lparr>th_timeout_data := p\<rparr>"
    using assms(1) by (auto simp: AddTimeoutData_def Ref_def Let_def split: prod.splits)
  from timeouts.push_law [OF assms(2) p(1) assms(3)] p(2)
  show "timers t i = None" "timers t' = (timers t)(i \<mapsto> d)" "th_ethread t' = th_ethread t" by (auto simp: Ref_def)
  show "length (th_timeout_data t) \<le> length (th_timeout_data t')"
    using p by (auto simp: pool_Push_def split: option.splits)
qed

lemma TakeTimeoutData_timers:
  assumes "TakeTimeoutData i t = Inr (d, t')"
  shows "timers t' = (timers t)(i := None)" "timers t i = Some x \<Longrightarrow> d = x" "th_ethread t' = th_ethread t"
    "length (th_timeout_data t') = length (th_timeout_data t)"
proof -
  obtain p where p: "pool_Take td_moved i (th_timeout_data t) = Inr (d, p)" "t' = (Unref t)\<lparr>th_timeout_data := p\<rparr>"
    using assms by (auto simp: TakeTimeoutData_def Unref_def Let_def res_iffs)
  from timeouts.take_law [OF p(1)] p(2)
  show "timers t' = (timers t)(i := None)" "timers t i = Some x \<Longrightarrow> d = x" "th_ethread t' = th_ethread t" by (auto simp: Unref_def)
  show "length (th_timeout_data t') = length (th_timeout_data t)" using p pool_Take_length [OF p(1)] by simp
qed

lemma timer_inv_arm:
  assumes "timer_inv E w" "a < length (w_threads w)" "AddTimeoutData d (w_threads w ! a) = (i, t)" "\<not> td_IsEmpty d"
    and "pool_room (th_timeout_data (w_threads w ! a))"
  shows "timer_inv E (SetTimeout now a i ms (upd_thread a (\<lambda>_. t) w))"
proof -
  let ?v = "upd_thread a (\<lambda>_. t) w" let ?w = "SetTimeout now a i ms ?v"
  note I = timer_invD [OF assms(1)]
  note A = AddTimeoutData_timers [OF assms(3,5,4)]
  have tm: "w_tm ?v = w_tm w" by (simp add: upd_thread_def)
  note Q = queue_tokens_SetTimeout [where w = ?v and now = now and a = a and i = i and ms = ms, unfolded tm, OF I(1)]
  have th: "w_threads ?v = (w_threads w)[a := t]" by (simp add: upd_thread_def)
  have et: "th_ethread (w_threads ?w ! b) = th_ethread (w_threads w ! b)" for b
    using A(3) assms(2) by (simp add: th nth_list_update)
  show ?thesis
  proof (rule timer_invI)
    fix b assume b: "b < length (w_threads ?w)"
    then have b': "b < length (w_threads w)" by (simp add: th)
    have l: "live ?w b = (if b = a then insert i (live w b) else live w b)"
      using A(2) assms(2) by (auto simp: th nth_list_update)
    have ni: "b = a \<Longrightarrow> i \<notin> live w b" using A(1) by auto
    have q: "queue_of ?w b = queue_of w b" by (simp only: et) (simp add: upd_thread_def)
    show "queue_tokens b (tm_timeouts (w_tm ?w)) + msg_tokens (queue_of ?w b) + E b = mset_set (live ?w b)"
      unfolding Q(2) q l using I(4) [OF b'] ni finite_live [of w b] by (auto simp: ac_simps)
  next
    fix b assume "b < length (w_threads ?w)"
    then show "th_ethread (w_threads ?w ! b) < length (w_ethreads ?w)"
      unfolding et using I(2) by (simp add: upd_thread_def)
  next
    fix b c assume "b < length (w_threads ?w)" "c < length (w_threads ?w)" "th_ethread (w_threads ?w ! b) = th_ethread (w_threads ?w ! c)"
    then show "b = c" unfolding et using I(3) by (simp add: th)
  next
    fix x assume "x \<in># to_items (tm_timeouts (w_tm ?w))"
    then show "tt_thread (fst x) < length (w_threads ?w)" using Q(3) [of x] I(7) [of x] assms(2) by (auto simp: upd_thread_def)
  qed (use I Q(1) in \<open>auto simp: upd_thread_def\<close>)
qed

lemma timer_inv_disarm:
  assumes "timer_inv E w" "a < length (w_threads w)" "i \<in># E a"
  shows "\<exists>d t. TakeTimeoutData i (w_threads w ! a) = Inr (d, t) \<and> timers (w_threads w ! a) i = Some d \<and>
    timer_inv (E(a := E a - {#i#})) (upd_thread a (\<lambda>_. t) w)"
proof -
  note I = timer_invD [OF assms(1)]
  have "i \<in># mset_set (live w a)" unfolding I(4) [OF assms(2), symmetric] using assms(3) by simp
  then have "i \<in> live w a" using finite_live by simp
  then obtain d where d: "timers (w_threads w ! a) i = Some d" by auto
  then obtain p where "pool_Take td_moved i (th_timeout_data (w_threads w ! a)) = Inr (d, p)"
    using timeouts.take_total by blast
  then obtain t where t: "TakeTimeoutData i (w_threads w ! a) = Inr (d, t)" by (auto simp: TakeTimeoutData_def Unref_def Let_def)
  note T = TakeTimeoutData_timers [OF t]
  let ?w = "upd_thread a (\<lambda>_. t) w" and ?E = "E(a := E a - {#i#})"
  have th: "w_threads ?w = (w_threads w)[a := t]" by (simp add: upd_thread_def)
  have et: "th_ethread (w_threads ?w ! b) = th_ethread (w_threads w ! b)" for b
    using T(3) assms(2) by (simp add: th nth_list_update)
  have "timer_inv ?E ?w"
  proof (rule timer_invI)
    fix b assume b: "b < length (w_threads ?w)"
    then have b': "b < length (w_threads w)" by (simp add: th)
    have l: "live ?w b = (if b = a then live w b - {i} else live w b)"
      using T(1) assms(2) by (auto simp: th nth_list_update)
    have q: "queue_of ?w b = queue_of w b" by (simp only: et) (simp add: upd_thread_def)
    have tm: "w_tm ?w = w_tm w" by (simp add: upd_thread_def)
    show "queue_tokens b (tm_timeouts (w_tm ?w)) + msg_tokens (queue_of ?w b) + ?E b = mset_set (live ?w b)"
    proof (cases "b = a")
      case True
      have "mset_set (live w a - {i}) = mset_set (live w a) - {#i#}"
        using \<open>i \<in> live w a\<close> finite_live [of w a] by (simp add: mset_set_Diff)
      then show ?thesis unfolding q l tm I(4) [OF assms(2), symmetric] using True assms(3) by simp
    qed (use I(4) [OF b'] q l tm in simp)
  next
    fix b assume "b < length (w_threads ?w)"
    then show "th_ethread (w_threads ?w ! b) < length (w_ethreads ?w)"
      unfolding et using I(2) by (simp add: upd_thread_def)
  next
    fix b c assume "b < length (w_threads ?w)" "c < length (w_threads ?w)" "th_ethread (w_threads ?w ! b) = th_ethread (w_threads ?w ! c)"
    then show "b = c" unfolding et using I(3) by (simp add: th)
  qed (use I in \<open>auto simp: upd_thread_def\<close>)
  then show ?thesis using t d by blast
qed

subsection \<open>Native calls\<close>

lemma SetTimeout_grows [simp]: "grows w (SetTimeout now a i ms v) \<longleftrightarrow> grows w v"
  by (simp add: grows_def)

lemma AddTimeoutData_length: "AddTimeoutData d t = (i, t') \<Longrightarrow> length (th_timeout_data t) \<le> length (th_timeout_data t')"
  by (auto simp: AddTimeoutData_def Ref_def Let_def pool_Push_def split: prod.splits option.splits)

lemma mk_TimeoutData_Inr:
  "mk_TimeoutData (Some cb) delay b = Inr d \<Longrightarrow> \<not> td_IsEmpty d"
  by (auto simp: mk_TimeoutData_def td_IsEmpty_def)

lemma SetTimer_split:
  assumes "SetTimer now a cb delay b w = Inr (i, w')"
  obtains d t where "AddTimeoutData d (w_threads w ! a) = (i, t)" "\<not> td_IsEmpty d"
    "w' = SetTimeout now a i (ucast delay) (upd_thread a (\<lambda>_. t) w)"
proof -
  obtain d where d: "mk_TimeoutData (Some cb) delay b = Inr d"
    using assms by (auto simp: SetTimer_def res_iffs)
  obtain j t where "AddTimeoutData d (w_threads w ! a) = (j, t)" by fastforce
  then show ?thesis using assms d mk_TimeoutData_Inr [OF d] that by (auto simp: SetTimer_def)
qed

lemma SetTimer_inv:
  assumes "timer_inv E w" "a < length (w_threads w)" "SetTimer now a cb delay b w = Inr (i, w')"
  shows "grows w w' \<and> (rooms w' \<longrightarrow> timer_inv E w')"
  using assms(3)
proof (rule SetTimer_split)
  fix d t
  assume s: "AddTimeoutData d (w_threads w ! a) = (i, t)" "\<not> td_IsEmpty d"
    "w' = SetTimeout now a i (ucast delay) (upd_thread a (\<lambda>_. t) w)"
  have g: "grows w w'" unfolding s(3) SetTimeout_grows by (rule upd_thread_grows) (use AddTimeoutData_length [OF s(1)] in simp)
  show ?thesis
  proof (intro conjI impI g)
    assume "rooms w'"
    then have "rooms w" by (rule rooms_grows [OF g])
    then show "timer_inv E w'" unfolding s(3) using assms(1,2) s(1,2) by (intro timer_inv_arm) (auto simp: rooms_def)
  qed
qed

lemma ClearTimer_inv:
  assumes "timer_inv E w"
  shows "grows w (snd (ClearTimer a i w)) \<and> timer_inv E (snd (ClearTimer a i w))"
proof -
  obtain b t where f: "FlagTimeoutCleared i (w_threads w ! a) = (b, t)" by fastforce
  note F = FlagTimeoutCleared_timers [OF f]
  have "dom (timers t) = dom (timers (w_threads w ! a))" unfolding F(2) by (auto split: option.splits)
  then have "timer_inv E (upd_thread a (\<lambda>_. t) w)" by (intro timer_inv_upd_thread [OF assms]) (use F(4) in auto)
  moreover have "grows w (upd_thread a (\<lambda>_. t) w)" by (rule upd_thread_grows) (use F(3) in simp)
  ultimately show ?thesis by (simp add: ClearTimer_def f)
qed

lemma exec_native_grows:
  assumes "exec_native a c w = Inr w'"
  shows "grows w w'"
proof -
  obtain now n where c: "c = (now, n)" by fastforce
  have timer: "grows w v" if h: "SetTimer now a cb delay b w = Inr (i, v)" for cb delay b i v
    using h by (rule SetTimer_split) (auto intro!: upd_thread_grows dest: AddTimeoutData_length)
  let ?t = "\<lambda>fn. snd (PutObject (Some fn) (w_threads w ! a))"
  have put: "grows w (upd_thread a (\<lambda>_. ?t fn) w)" for fn
    by (rule upd_thread_grows) (use PutObject_keeps [OF surjective_pairing] in simp)
  show ?thesis
  proof (cases n)
    case (NClearTimer j)
    obtain b u where f: "FlagTimeoutCleared j (w_threads w ! a) = (b, u)" by fastforce
    have "grows w (upd_thread a (\<lambda>_. u) w)" by (rule upd_thread_grows) (use FlagTimeoutCleared_timers(3) [OF f] in simp)
    then show ?thesis using assms c NClearTimer f by (simp add: ClearTimer_def)
  next
    case (NSetImmediate fn)
    then show ?thesis using assms c put [of fn] by (auto simp: SetImmediate_def case_prod_unfold intro: grows_trans)
  next
    case (NIrqOn number fn)
    then show ?thesis using assms c put [of fn] by (auto simp: IrqOn_def irq_Bind_def case_prod_unfold res_iffs grows_def)
  qed (use assms c timer in \<open>auto simp: res_iffs dest: irq_Raise_grows\<close>)
qed

lemma exec_native_inv:
  assumes "timer_inv E w" "a < length (w_threads w)" "exec_native a c w = Inr w'"
  shows "grows w w' \<and> (rooms w' \<longrightarrow> timer_inv E w')"
proof -
  obtain now n where c: "c = (now, n)" by fastforce
  show ?thesis
  proof (cases n)
    case (NSetTimeout cb delay)
    then show ?thesis using assms c SetTimer_inv [OF assms(1,2)] by (auto simp: res_iffs)
  next
    case (NSetInterval cb delay)
    then show ?thesis using assms c SetTimer_inv [OF assms(1,2)] by (auto simp: res_iffs)
  next
    case (NClearTimer i)
    then show ?thesis using assms c ClearTimer_inv [OF assms(1)] by auto
  next
    case (NSetImmediate fn)
    then show ?thesis using assms c SetImmediate_inv [OF assms(1)] by auto
  next
    case (NIrqOn number fn)
    then show ?thesis using assms c IrqOn_inv [OF assms(1)] by auto
  next
    case (Interrupt number)
    then show ?thesis using assms c irq_Raise_inv irq_Raise_grows by fastforce
  qed
qed

lemma run_natives_grows: "run_natives a cs w = Inr w' \<Longrightarrow> grows w w'"
  by (induction cs arbitrary: w) (auto simp: res_iffs dest: exec_native_grows intro: grows_trans)

lemma grows_threads: "grows w w' \<Longrightarrow> length (w_threads w') = length (w_threads w)"
  by (simp add: grows_def)

lemma run_natives_inv:
  assumes "timer_inv E w" "a < length (w_threads w)" "run_natives a cs w = Inr w'" "rooms w'"
  shows "timer_inv E w'"
  using assms
proof (induction cs arbitrary: w)
  case (Cons c cs)
  then obtain w1 where w1: "exec_native a c w = Inr w1" "run_natives a cs w1 = Inr w'" by (auto simp: res_iffs)
  have "rooms w1" by (rule rooms_grows [OF run_natives_grows [OF w1(2)] Cons.prems(4)])
  then have "timer_inv E w1" using exec_native_inv [OF Cons.prems(1,2) w1(1)] by simp
  moreover have "a < length (w_threads w1)" using grows_threads [OF exec_native_grows [OF w1(1)]] Cons.prems(2) by simp
  ultimately show ?case using Cons.IH w1(2) Cons.prems(4) by blast
qed simp

lemma run_js_inv:
  "timer_inv E w \<Longrightarrow> a < length (w_threads w) \<Longrightarrow> run_js js a c w = Inr w' \<Longrightarrow> rooms w' \<Longrightarrow> timer_inv E w'"
  "run_js js a c w = Inr w' \<Longrightarrow> grows w w'"
  unfolding run_js_def by (rule run_natives_inv) (auto dest: run_natives_grows)

subsection \<open>Messages\<close>

lemma fire_timeout_ok:
  assumes "timer_inv E w" "a < length (w_threads w)" "i \<in># E a" "rooms w"
  shows "\<exists>d w1. timers (w_threads w ! a) i = Some d \<and>
    fire_timeout now a (ucast i) w = Inr (if td_cleared d then None else td_cb d, w1) \<and>
    timer_inv (E(a := E a - {#i#})) w1"
proof -
  obtain d t where t: "TakeTimeoutData i (w_threads w ! a) = Inr (d, t)" "timers (w_threads w ! a) i = Some d"
      "timer_inv (E(a := E a - {#i#})) (upd_thread a (\<lambda>_. t) w)"
    using timer_inv_disarm [OF assms(1-3)] by blast
  let ?w = "upd_thread a (\<lambda>_. t) w" and ?E = "E(a := E a - {#i#})"
  note T = TakeTimeoutData_timers [OF t(1)]
  have room: "pool_room (th_timeout_data (w_threads w ! a))" using assms(2,4) by (simp add: rooms_def)
  have "unat i < length (th_timeout_data (w_threads w ! a))" "\<not> td_IsEmpty d"
    using t(2) by (auto simp: pool_look_def split: if_splits)
  then have small: "(ucast i :: u64) < 0xFFFFFFFF" and ne: "td_cb d \<noteq> None"
    using room by (auto simp: pool_room_def word_less_nat_alt unsigned_ucast_eq take_bit_nat_eq_self td_IsEmpty_def)
  have u: "ucast (ucast i :: u64) = i" by (rule bit_word_eqI) (simp add: bit_ucast_iff)
  show ?thesis
  proof (cases "td_cleared d \<or> \<not> td_autoreset d")
    case True
    then show ?thesis using t small ne u
      by (intro exI [of _ d] exI [of _ ?w]) (auto simp: fire_timeout_def td_GetCallback_def Let_def split: option.splits)
  next
    case False
    obtain j t' where j: "AddTimeoutData d t = (j, t')" by fastforce
    let ?v = "SetTimeout now a j (ucast (td_delay d)) (upd_thread a (\<lambda>_. t') ?w)"
    have at: "w_threads ?w ! a = t" using assms(2) by (simp add: upd_thread_def)
    have "timer_inv ?E ?v"
      by (rule timer_inv_arm [OF t(3), where d = d]) (use at j assms(2) T(4) room ne in \<open>auto simp: upd_thread_def pool_room_def td_IsEmpty_def\<close>)
    then show ?thesis using t small ne u j False
      by (intro exI [of _ d] exI [of _ ?v]) (auto simp: fire_timeout_def td_GetCallback_def Let_def split: option.splits)
  qed
qed

lemma fire_timeout_grows:
  assumes "fire_timeout now a index w = Inr (cb, w')"
  shows "grows w w'"
proof -
  obtain d t where t: "TakeTimeoutData (ucast index) (w_threads w ! a) = Inr (d, t)" using assms by (auto simp: fire_timeout_def res_iffs)
  have g: "grows w (upd_thread a (\<lambda>_. t) w)" by (rule upd_thread_grows) (use TakeTimeoutData_timers(4) [OF t] in simp)
  obtain j t' where j: "AddTimeoutData d t = (j, t')" by fastforce
  have "upd_thread a (\<lambda>_. t') (upd_thread a (\<lambda>_. t) w) = upd_thread a (\<lambda>_. t') w" by (simp add: upd_thread_def)
  moreover have "grows w (upd_thread a (\<lambda>_. t') w)"
    by (rule upd_thread_grows) (use AddTimeoutData_length [OF j] TakeTimeoutData_timers(4) [OF t] in simp)
  ultimately have "grows w (upd_thread a (\<lambda>_. t') (upd_thread a (\<lambda>_. t) w))" by simp
  then show ?thesis using assms t j g by (auto simp: fire_timeout_def res_iffs Let_def split: if_splits)
qed

text \<open>Handling a message that is no timeout is a change of the thread that keeps its timers, then JavaScript.\<close>

lemma handle_other:
  assumes "handle_message js now a m w = Inr w'" "msg_type m \<noteq> TIMEOUT_EVENT"
  shows "\<exists>f. (\<forall>t. t = w_threads w ! a \<longrightarrow> th_ethread (f t) = th_ethread t \<and> th_timeout_data (f t) = th_timeout_data t) \<and>
    (w' = upd_thread a f w \<or> (\<exists>c. run_js js a c (upd_thread a f w) = Inr w'))"
proof (cases "msg_type m")
  case EVALUATE
  then obtain u where "Unpack (msg_data m) = Inr u" using assms(1) by (auto simp: handle_evaluate_def res_iffs)
  then obtain es where "run_js js a (RunScript (arr_get es 0) (arr_get es 1))
        (upd_thread a (\<lambda>t. if empty_string (th_filename t) then t\<lparr>th_filename := arr_get es 1\<rparr> else t) w) = Inr w'"
    using assms(1) EVALUATE by (cases u) (auto simp: handle_evaluate_def res_iffs Let_def)
  then show ?thesis by (intro exI [of _ "\<lambda>t. if empty_string (th_filename t) then t\<lparr>th_filename := arr_get es 1\<rparr> else t"]) auto
next
  case FUNCTION_CALL
  then obtain c where "run_js js a c w = Inr w'"
    using assms(1) by (auto simp: handle_call_def res_iffs split: option.splits)
  then show ?thesis by (intro exI [of _ "\<lambda>t. t"]) (auto simp: upd_thread_def)
next
  case IRQ_RAISE
  then obtain c where "run_js js a c w = Inr w'"
    using assms(1) by (auto simp: handle_irq_def res_iffs split: option.splits)
  then show ?thesis by (intro exI [of _ "\<lambda>t. t"]) (auto simp: upd_thread_def)
next
  case SET_IMMEDIATE
  then obtain v t c where "TakeObject (ucast (recv_index m)) (w_threads w ! a) = Inr (v, t)" "run_js js a c (upd_thread a (\<lambda>_. t) w) = Inr w'"
    using assms(1) by (auto simp: handle_immediate_def res_iffs split: option.splits)
  then show ?thesis by (intro exI [of _ "\<lambda>_. t"]) (auto simp: TakeObject_def res_iffs)
next
  case FUNCTION_RETURN_RESOLVE
  then obtain r t c where "TakePromise (ucast (recv_index m)) (w_threads w ! a) = Inr (r, t)" "run_js js a c (upd_thread a (\<lambda>_. t) w) = Inr w'"
    using assms(1) by (auto simp: handle_result_def res_iffs split: option.splits)
  then show ?thesis by (intro exI [of _ "\<lambda>_. t"]) (auto simp: TakePromise_def Unref_def Let_def res_iffs)
next
  case FUNCTION_RETURN_REJECT
  then obtain r t c where "TakePromise (ucast (recv_index m)) (w_threads w ! a) = Inr (r, t)" "run_js js a c (upd_thread a (\<lambda>_. t) w) = Inr w'"
    using assms(1) by (auto simp: handle_result_def res_iffs split: option.splits)
  then show ?thesis by (intro exI [of _ "\<lambda>_. t"]) (auto simp: TakePromise_def Unref_def Let_def res_iffs)
next
  case EMPTY
  then show ?thesis using assms(1) by (intro exI [of _ "\<lambda>t. t"]) (auto simp: upd_thread_def)
qed (use assms(2) in simp)

lemma handle_timeout_split:
  assumes "handle_message js now a m w = Inr w'" "msg_type m = TIMEOUT_EVENT"
  obtains cb w1 where "fire_timeout now a (recv_index m) w = Inr (cb, w1)" "w' = w1 \<or> (\<exists>c. run_js js a c w1 = Inr w')"
  using assms by (auto simp: handle_timeout_def res_iffs split: option.splits)

lemma handle_message_grows:
  assumes "handle_message js now a m w = Inr w'"
  shows "grows w w'"
proof (cases "msg_type m = TIMEOUT_EVENT")
  case True
  from assms True show ?thesis
    by (rule handle_timeout_split) (auto dest: fire_timeout_grows run_js_inv(2) intro: grows_trans)
next
  case False
  obtain f where f: "\<forall>t. t = w_threads w ! a \<longrightarrow> th_ethread (f t) = th_ethread t \<and> th_timeout_data (f t) = th_timeout_data t"
      "w' = upd_thread a f w \<or> (\<exists>c. run_js js a c (upd_thread a f w) = Inr w')"
    using handle_other [OF assms False] by blast
  have "grows w (upd_thread a f w)" by (rule upd_thread_grows) (use f(1) in auto)
  then show ?thesis using f(2) by (auto dest: run_js_inv(2) intro: grows_trans)
qed

text \<open>The tokens of thread \<open>a\<close> in a batch.\<close>

abbreviation batch :: "nat \<Rightarrow> ThreadMessage option list \<Rightarrow> nat \<Rightarrow> u32 multiset" where
  "batch a ms \<equiv> (\<lambda>_. {#})(a := msg_tokens ms)"

lemma handle_message_inv:
  assumes "timer_inv (batch a (Some m # ms)) w" "a < length (w_threads w)" "handle_message js now a m w = Inr w'"
    and "msgs_ok [Some m]" "rooms w'"
  shows "timer_inv (batch a ms) w'"
proof (cases "msg_type m = TIMEOUT_EVENT")
  case True
  have rw: "rooms w" by (rule rooms_grows [OF handle_message_grows [OF assms(3)] assms(5)])
  let ?i = "ucast (recv_index m) :: u32"
  have in_E: "?i \<in># batch a (Some m # ms) a" and E: "(batch a (Some m # ms))(a := batch a (Some m # ms) a - {#?i#}) = batch a ms"
    and idx: "recv_index m = ucast ?i"
    using True assms(4) by (auto simp: msgs_ok_def)
  obtain d :: TimeoutData and w1 where f: "fire_timeout now a (recv_index m) w = Inr (if td_cleared d then None else td_cb d, w1)" "timer_inv (batch a ms) w1"
    using fire_timeout_ok [OF assms(1,2) in_E rw, of now, folded idx] unfolding E by (elim exE conjE) (rule that)
  have "length (w_threads w1) = length (w_threads w)" by (rule grows_threads [OF fire_timeout_grows [OF f(1)]])
  then show ?thesis using assms(2,5) f run_js_inv(1) [OF f(2)]
    by (auto intro: handle_timeout_split [OF assms(3) True])
next
  case False
  obtain f where f: "\<forall>t. t = w_threads w ! a \<longrightarrow> th_ethread (f t) = th_ethread t \<and> th_timeout_data (f t) = th_timeout_data t"
      "w' = upd_thread a f w \<or> (\<exists>c. run_js js a c (upd_thread a f w) = Inr w')"
    using handle_other [OF assms(3) False] by blast
  have "timer_inv (batch a (Some m # ms)) (upd_thread a f w)" by (rule timer_inv_upd_thread [OF assms(1)]) (use f(1) in auto)
  moreover have "a < length (w_threads (upd_thread a f w))" using assms(2) by (simp add: upd_thread_def)
  ultimately show ?thesis using f(2) False assms(5) run_js_inv(1) by fastforce
qed

lemma process_messages_grows: "process_messages js clk a ms n w = Inr (k, w') \<Longrightarrow> grows w w'"
proof (induction js clk a ms n w rule: process_messages.induct)
  case (3 js clk th m ms ev w)
  then obtain w1 where w1: "handle_message js (clk (length ms)) th m w = Inr w1" "process_messages js clk th ms (ev + 1) w1 = Inr (k, w')"
    by (auto simp: res_iffs simp del: handle_message.simps)
  then show ?case using 3 handle_message_grows [OF w1(1)] by (auto intro: grows_trans)
qed auto

lemma process_messages_inv:
  assumes "process_messages js clk a ms n w = Inr (k, w')" "timer_inv (batch a ms) w" "a < length (w_threads w)" "msgs_ok ms" "rooms w'"
  shows "timer_inv (\<lambda>_. {#}) w'"
  using assms
proof (induction js clk a ms n w rule: process_messages.induct)
  case (1 js clk th ev w)
  have "batch th [] = (\<lambda>_. {#})" by auto
  then show ?case using 1 by simp
next
  case (2 js clk th ms ev w)
  have "batch th (None # ms) = batch th ms" by (rule ext) simp
  then show ?case using 2 by (simp add: msgs_ok_def)
next
  case (3 js clk th m ms ev w)
  then obtain w1 where w1: "handle_message js (clk (length ms)) th m w = Inr w1" "process_messages js clk th ms (ev + 1) w1 = Inr (k, w')"
    by (auto simp: res_iffs simp del: handle_message.simps)
  have ok: "msgs_ok [Some m]" "msgs_ok ms" using "3.prems"(4) by (auto simp: msgs_ok_def)
  have r1: "rooms w1" by (rule rooms_grows [OF process_messages_grows [OF w1(2)] "3.prems"(5)])
  have i1: "timer_inv (batch th ms) w1" by (rule handle_message_inv [OF "3.prems"(2,3) w1(1) ok(1) r1])
  have n1: "th < length (w_threads w1)" using grows_threads [OF handle_message_grows [OF w1(1)]] "3.prems"(3) by simp
  from "3.IH" [OF w1(2) i1 n1 ok(2) "3.prems"(5)] show ?case .
qed

text \<open>Taking the messages of a thread moves their tokens to the batch.\<close>

lemma timer_inv_take:
  assumes "timer_inv (\<lambda>_. {#}) w" "a < length (w_threads w)" "messages e = []"
  shows "timer_inv (batch a (queue_of w a)) (upd_ethread (th_ethread (w_threads w ! a)) (\<lambda>_. e) w)"
proof -
  let ?n = "th_ethread (w_threads w ! a)" let ?w = "upd_ethread ?n (\<lambda>_. e) w"
  note I = timer_invD [OF assms(1)]
  have q: "queue_of ?w b = (if b = a then [] else queue_of w b)" if "b < length (w_threads w)" for b
    using I(2) [OF assms(2)] I(3) [OF that assms(2)] assms(3) by (auto simp: upd_ethread_def nth_list_update)
  show ?thesis
  proof (rule timer_invI)
    fix b assume b: "b < length (w_threads ?w)"
    then have b': "b < length (w_threads w)" by (simp add: upd_ethread_def)
    show "queue_tokens b (tm_timeouts (w_tm ?w)) + msg_tokens (queue_of ?w b) + batch a (queue_of w a) b = mset_set (live ?w b)"
      unfolding q [OF b'] using I(4) [OF b'] by (auto simp: upd_ethread_def)
  next
    fix x assume "x \<in> set (w_ethreads ?w)"
    then show "msgs_ok (messages x)"
      using I(5) assms(3) set_update_subset_insert [of "w_ethreads w" ?n e] by (auto simp: upd_ethread_def msgs_ok_def)
  qed (use I in \<open>auto simp: upd_ethread_def\<close>)
qed

lemma timer_inv_tm:
  "tm_timeouts x = tm_timeouts (w_tm w) \<Longrightarrow> timer_inv E (w\<lparr>w_tm := x\<rparr>) = timer_inv E w"
  by (simp add: timer_inv_def)

lemma grows_tm [simp]: "grows w (w\<lparr>w_tm := x\<rparr>)" "grows (w\<lparr>w_tm := x\<rparr>) v \<longleftrightarrow> grows w v"
  by (simp_all add: grows_def)

lemma rooms_tm [simp]: "rooms (w\<lparr>w_tm := x\<rparr>) = rooms w"
  by (simp add: rooms_def)

lemma finish_run_keeps:
  "finish_run t0 t1 n t = (b, t') \<Longrightarrow> th_ethread t' = th_ethread t \<and> th_timeout_data t' = th_timeout_data t"
  by (auto simp: finish_run_def Let_def split: if_splits)

lemma thread_Run_inv:
  assumes "timer_inv (\<lambda>_. {#}) w" "a < length (w_threads w)" "thread_Run js t0 t1 clk a w = Inr (b, w')" "rooms w'"
  shows "timer_inv (\<lambda>_. {#}) w'"
proof (cases "th_type (w_threads w ! a) = IDLE")
  case True
  then show ?thesis using assms(1,3) by (auto simp: thread_Run_def res_iffs timer_inv_tm SetEvCheckpoint_def Let_def)
next
  case nidle: False
  let ?t = "w_threads w ! a" let ?e = "w_ethreads w ! th_ethread ?t"
  obtain ms e where tk: "TakeMessages ?e = (ms, e)" by fastforce
  let ?w1 = "upd_ethread (th_ethread ?t) (\<lambda>_. e) w"
  show ?thesis
  proof (cases "ms = []")
    case True
    then have "e = ?e" using tk by (auto simp: TakeMessages_def split: if_splits)
    then have "?w1 = w" by (simp add: upd_ethread_def)
    then show ?thesis using assms(1,3) nidle tk True by (auto simp: thread_Run_def res_iffs Let_def)
  next
    case False
    then have ms: "ms = messages ?e" "messages e = []" using tk by (auto simp: TakeMessages_def split: if_splits)
    let ?w2 = "upd_thread a (\<lambda>t. t\<lparr>th_context := True\<rparr>) ?w1"
    obtain ev w2 t' where r: "process_messages js clk a ms 0 ?w2 = Inr (ev, w2)"
        "finish_run t0 t1 ev (w_threads w2 ! a) = (b, t')"
        "w' = upd_thread a (\<lambda>_. t') (if ev > 0 then w2\<lparr>w_tm := SubmitEvWork ev (w_tm w2)\<rparr> else w2)"
      using assms(3) nidle tk False by (fastforce simp: thread_Run_def res_iffs Let_def case_prod_unfold prod_eq_iff split: if_splits)
    let ?w3 = "if ev > 0 then w2\<lparr>w_tm := SubmitEvWork ev (w_tm w2)\<rparr> else w2"
    note k = finish_run_keeps [OF r(2)]
    have w3: "w_threads ?w3 = w_threads w2" by simp
    have g: "grows ?w3 w'" unfolding r(3) by (rule upd_thread_grows) (use k w3 in simp)
    have "rooms ?w3" by (rule rooms_grows [OF g assms(4)])
    then have r2: "rooms w2" by (simp split: if_splits)
    have "timer_inv (batch a ms) ?w1" unfolding ms(1) by (rule timer_inv_take [OF assms(1,2) ms(2)])
    then have i: "timer_inv (batch a ms) ?w2" by (rule timer_inv_upd_thread) auto
    have "?e \<in> set (w_ethreads w)" using timer_invD(2) [OF assms(1,2)] by simp
    then have "msgs_ok ms" unfolding ms(1) by (rule timer_invD(5) [OF assms(1)])
    then have "timer_inv (\<lambda>_. {#}) w2"
      by (intro process_messages_inv [OF r(1) i _ _ r2]) (use assms(2) in \<open>simp_all add: upd_thread_def upd_ethread_def\<close>)
    then have "timer_inv (\<lambda>_. {#}) ?w3" by (simp add: timer_inv_tm SubmitEvWork_def)
    then show ?thesis unfolding r(3) by (rule timer_inv_upd_thread) (use k w3 in auto)
  qed
qed

subsection \<open>Timeouts and switches\<close>

lemma ucast_index [simp]: "ucast (ucast (i :: u32) :: u64) = i"
  by (rule bit_word_eqI) (simp add: bit_ucast_iff)

lemma timer_inv_deliver:
  assumes "timer_inv E w" "items = add_mset (t, due) (to_items q)" "to_items (tm_timeouts (w_tm w)) = items" "to_inv q"
  shows "timer_inv E (push_timeout t (w\<lparr>w_tm := (w_tm w)\<lparr>tm_timeouts := q\<rparr>\<rparr>))"
proof -
  let ?v = "w\<lparr>w_tm := (w_tm w)\<lparr>tm_timeouts := q\<rparr>\<rparr>" let ?w = "push_timeout t ?v" let ?a = "tt_thread t"
  note I = timer_invD [OF assms(1)]
  have a: "?a < length (w_threads w)" using I(7) [of "(t, due)"] assms(2,3) by simp
  let ?n = "th_ethread (w_threads w ! ?a)"
  have n: "?n < length (w_ethreads w)" by (rule I(2) [OF a])
  have e: "w_ethreads ?w = (w_ethreads w)[?n := PushMessage (timeout_message (tt_index t)) (w_ethreads w ! ?n)]"
    by (simp add: push_timeout_def upd_ethread_def)
  have m: "messages (PushMessage x y) = messages y @ [Some x]" for x y by (simp add: PushMessage_def vec_push_def)
  have q: "msg_tokens (queue_of ?w b) = msg_tokens (queue_of w b) + (if b = ?a then {#tt_index t#} else {#})"
    if "b < length (w_threads w)" for b
    using I(3) [OF that a] n by (auto simp: e m nth_list_update timeout_message_def mk_ThreadMessage_def)
  have k: "queue_tokens b (tm_timeouts (w_tm w)) = queue_tokens b q + (if b = ?a then {#tt_index t#} else {#})" for b
    unfolding queue_tokens_def assms(2,3) by simp
  show ?thesis
  proof (rule timer_invI)
    fix b assume "b < length (w_threads ?w)"
    then have b: "b < length (w_threads w)" by simp
    show "queue_tokens b (tm_timeouts (w_tm ?w)) + msg_tokens (queue_of ?w b) + E b = mset_set (live ?w b)"
      unfolding q [OF b] using I(4) [OF b] k [of b] by (simp add: ac_simps)
  next
    fix x assume "x \<in> set (w_ethreads ?w)"
    then have "x \<in> set (w_ethreads w) \<or> x = PushMessage (timeout_message (tt_index t)) (w_ethreads w ! ?n)"
      unfolding e using set_update_subset_insert by fastforce
    then show "msgs_ok (messages x)"
      using I(5) I(5) [OF nth_mem [OF n]] by (auto simp: m) (simp add: msgs_ok_def timeout_message_def mk_ThreadMessage_def)
  next
    fix x assume "x \<in># to_items (tm_timeouts (w_tm ?w))"
    then show "tt_thread (fst x) < length (w_threads ?w)" using I(7) [of x] assms(2,3) by simp
  qed (use I assms(4) in \<open>auto simp: push_timeout_def upd_ethread_def\<close>)
qed

lemma process_timeouts_inv: "process_timeouts now w = Inr w' \<Longrightarrow> timer_inv E w \<Longrightarrow> timer_inv E w'"
proof (induction now w rule: process_timeouts.induct)
  case (1 now w)
  let ?q = "tm_timeouts (w_tm w)"
  show ?case
  proof (cases "to_Elapsed now ?q")
    case True
    have i: "to_inv ?q" by (rule timer_invD(1) [OF "1.prems"(2)])
    then have "to_items ?q \<noteq> {#}" using True heap_queue.elapsed_law [OF i, of now] by auto
    then obtain t due q where t: "to_Take ?q = Inr (t, q)" "to_inv q" "to_items ?q = add_mset (t, due) (to_items q)"
      using heap_queue.take_law [OF i] by blast
    let ?w = "push_timeout t (w\<lparr>w_tm := (w_tm w)\<lparr>tm_timeouts := q\<rparr>\<rparr>)"
    have "process_timeouts now ?w = Inr w'" using "1.prems"(1) True t(1) by (subst (asm) process_timeouts.simps) simp
    moreover have "timer_inv E ?w" by (rule timer_inv_deliver [OF "1.prems"(2) refl t(3,2)])
    ultimately show ?thesis using "1.IH" [OF True t(1) refl] by blast
  next
    case False
    then show ?thesis using "1.prems" by (subst (asm) process_timeouts.simps) simp
  qed
qed

lemma SwitchToNextThread_inv:
  assumes "SwitchToNextThread w = Inr (t, w')" "timer_inv E w"
  shows "timer_inv E w'"
proof -
  obtain tm where w': "w' = upd_thread t ResetPriority (w\<lparr>w_tm := tm\<rparr>)" "tm_timeouts tm = tm_timeouts (w_tm w)"
    using assms(1) by (auto simp: SwitchToNextThread_def Let_def res_iffs split: prod.splits)
  have "timer_inv E (w\<lparr>w_tm := tm\<rparr>)" using assms(2) w'(2) by (simp add: timer_inv_tm)
  then show ?thesis unfolding w'(1) by (rule timer_inv_upd_thread) (auto simp: ResetPriority_def)
qed

section \<open>The loop as a transition system\<close>

inductive loop_step :: "'h js \<Rightarrow> 'h world \<Rightarrow> 'h world \<Rightarrow> bool" for js where
  run_thread: "a < length (w_threads w) \<Longrightarrow> thread_Run js t0 t1 clk a w = Inr (again, w') \<Longrightarrow> rooms w' \<Longrightarrow> loop_step js w w'"
| deliver_timeouts: "ProcessTimeouts now w = Inr w' \<Longrightarrow> loop_step js w w'"
| switch_thread: "SwitchToNextThread w = Inr (t, w') \<Longrightarrow> loop_step js w w'"
| interrupt: "irq_Raise 0 n w = Inr w' \<Longrightarrow> loop_step js w w'"
| post_message: "msg_type m \<noteq> TIMEOUT_EVENT \<Longrightarrow> loop_step js w (upd_ethread e (PushMessage m) w)"

lemma loop_step_inv: "loop_step js w w' \<Longrightarrow> timer_inv (\<lambda>_. {#}) w \<Longrightarrow> timer_inv (\<lambda>_. {#}) w'"
proof (induction rule: loop_step.induct)
  case (run_thread a w t0 t1 clk again w')
  then show ?case by (blast intro: thread_Run_inv)
next
  case (deliver_timeouts now w w')
  then show ?case by (auto simp: ProcessTimeouts_def dest: process_timeouts_inv)
next
  case (switch_thread w t w')
  then show ?case by (blast intro: SwitchToNextThread_inv)
next
  case (interrupt n w w')
  then show ?case by (blast intro: irq_Raise_inv)
next
  case (post_message m w e)
  then show ?case by (intro timer_inv_upd_ethread) (auto simp: PushMessage_def vec_push_def)
qed

lemma loop_steps_inv: "(loop_step js)\<^sup>*\<^sup>* w w' \<Longrightarrow> timer_inv (\<lambda>_. {#}) w \<Longrightarrow> timer_inv (\<lambda>_. {#}) w'"
  by (induction rule: rtranclp_induct) (auto dest: loop_step_inv)

section \<open>Properties\<close>

lemma timer_inv_start: "timer_inv (\<lambda>_. {#}) (sample_world [1])"
proof -
  have "th_ethread (w_threads (sample_world [1]) ! 0) = 0" "messages (w_ethreads (sample_world [1]) ! 0) = []"
    "live (sample_world [1]) 0 = {}" "tm_timeouts (w_tm (sample_world [1])) = []"
    by (simp_all add: sample_world_def sample_thread_def mk_Thread_def mk_EngineThread_def mk_ThreadManager_def pool_look_def dom_def)
  then show ?thesis
    by (intro timer_invI)
      (auto simp: sample_world_def kIrqCount_def to_inv_def heap_upto_def queue_tokens_def to_items_def mk_EngineThread_def msgs_ok_def)
qed

text \<open>
  C12. Every timer has exactly one token. In every state the event loop reaches, whatever JavaScript
  does and however interrupts, switches and messages interleave, the live timers of
  each thread are exactly the indices that are either in the timeout queue or in a timeout message
  of that thread, each once.
\<close>

theorem timer_tokens:
  assumes "timer_inv (\<lambda>_. {#}) w0" "(loop_step js)\<^sup>*\<^sup>* w0 w" "a < length (w_threads w)"
  shows "queue_tokens a (tm_timeouts (w_tm w)) + msg_tokens (queue_of w a) = mset_set (live w a)"
  using timer_invD(4) [OF loop_steps_inv [OF assms(2,1)] assms(3)] by simp

theorem timer_tokens_witness:
  "\<exists>w. (loop_step (\<lambda>_ _. []))\<^sup>*\<^sup>* (sample_world [1]) w \<and>
     queue_tokens 0 (tm_timeouts (w_tm w)) + msg_tokens (queue_of w 0) = mset_set (live w 0)"
proof -
  let ?w = "upd_ethread 0 (PushMessage (sample_message EVALUATE 0)) (sample_world [1])"
  have s: "(loop_step (\<lambda>_ _. []))\<^sup>*\<^sup>* (sample_world [1]) ?w"
    by (rule r_into_rtranclp, rule post_message) (simp add: sample_message_def mk_ThreadMessage_def)
  moreover have "queue_tokens 0 (tm_timeouts (w_tm ?w)) + msg_tokens (queue_of ?w 0) = mset_set (live ?w 0)"
    by (rule timer_tokens [OF timer_inv_start s]) (simp add: upd_ethread_def sample_world_def)
  ultimately show ?thesis by blast
qed

text \<open>
  C14. A timeout message always finds its timer. For every timeout message waiting in a reachable state,
  once the thread has taken its messages, firing it passes every assertion: the timer is live, and its
  callback is called unless the timer was cleared.
\<close>

theorem timeout_finds_timer:
  assumes "timer_inv (\<lambda>_. {#}) w0" "(loop_step js)\<^sup>*\<^sup>* w0 w" "a < length (w_threads w)" "rooms w"
    and "Some m \<in> set (queue_of w a)" "msg_type m = TIMEOUT_EVENT"
    and "w1 = upd_ethread (th_ethread (w_threads w ! a)) (\<lambda>e. snd (TakeMessages e)) w"
  shows "\<exists>d w2. timers (w_threads w ! a) (ucast (recv_index m)) = Some d \<and>
    fire_timeout now a (recv_index m) w1 = Inr (if td_cleared d then None else td_cb d, w2)"
proof -
  let ?i = "ucast (recv_index m) :: u32" let ?e = "w_ethreads w ! th_ethread (w_threads w ! a)"
  note I = loop_steps_inv [OF assms(2,1)]
  have w1: "w1 = upd_ethread (th_ethread (w_threads w ! a)) (\<lambda>_. snd (TakeMessages ?e)) w"
    unfolding assms(7) by (simp add: upd_ethread_def)
  have i1: "timer_inv (batch a (queue_of w a)) w1"
    unfolding w1 by (rule timer_inv_take [OF I assms(3)]) (simp add: TakeMessages_def)
  have th: "w_threads w1 = w_threads w" by (simp add: w1 upd_ethread_def)
  have "?i \<in># batch a (queue_of w a) a"
    using assms(5,6) by (auto simp: msg_tokens_def is_timeout_def token_def intro!: image_eqI [of _ _ "Some m"])
  moreover have "?e \<in> set (w_ethreads w)" using timer_invD(2) [OF I assms(3)] by simp
  then have "recv_index m = ucast ?i" using timer_invD(5) [OF I] assms(5,6) by (auto simp: msgs_ok_def)
  moreover have "rooms w1" using assms(4) by (simp add: rooms_def th)
  ultimately show ?thesis using fire_timeout_ok [OF i1, of a ?i now] assms(3) unfolding th by metis
qed

definition sample_armed :: "unit world" where
  "sample_armed = SetTimeout 100 0 0 1 (upd_thread 0 (\<lambda>_. snd (AddTimeoutData sample_timer (w_threads (sample_world [1]) ! 0))) (sample_world [1]))"

lemma sample_armed_inv: "timer_inv (\<lambda>_. {#}) sample_armed"
  unfolding sample_armed_def
  by (rule timer_inv_arm [OF timer_inv_start, where d = sample_timer])
    (simp_all add: sample_world_def sample_thread_def mk_Thread_def AddTimeoutData_def Ref_def pool_Push_def pool_room_def sample_timer_def td_IsEmpty_def)

lemma sample_armed_items: "to_items (tm_timeouts (w_tm sample_armed)) = {#(\<lparr>tt_thread = 0, tt_index = 0\<rparr>, 1100)#}"
  using heap_queue.put_law [of "[]" "\<lparr>tt_thread = 0, tt_index = 0\<rparr>" 1100]
  by (simp add: sample_armed_def SetTimeout_def upd_thread_def sample_world_def mk_ThreadManager_def to_inv_def heap_upto_def to_items_def [of "[]"])

lemma sample_armed_thread: "th_timeout_data (w_threads sample_armed ! 0) = [sample_timer]" "length (w_threads sample_armed) = 1"
  "th_ethread (w_threads sample_armed ! 0) = 0" "length (w_ethreads sample_armed) = 1" "queue_of sample_armed 0 = []"
  by (simp_all add: sample_armed_def upd_thread_def sample_world_def sample_thread_def mk_Thread_def AddTimeoutData_def Ref_def
      pool_Push_def mk_EngineThread_def)

lemma sample_armed_delivered:
  "\<exists>w. ProcessTimeouts 5000 sample_armed = Inr w \<and> queue_of w 0 = [Some (timeout_message 0)] \<and> w_threads w = w_threads sample_armed"
proof -
  obtain ts w where r: "process_timeouts 5000 sample_armed = Inr w"
      "to_items (tm_timeouts (w_tm sample_armed)) = mset ts + to_items (tm_timeouts (w_tm w))"
      "\<forall>(t, due) \<in># to_items (tm_timeouts (w_tm w)). 5000 < due"
      "w = with_timeouts (tm_timeouts (w_tm w)) (fold push_timeout (map fst ts) sample_armed)"
    using process_timeouts_exact [OF timer_invD(1) [OF sample_armed_inv], of 5000] by blast
  have "to_items (tm_timeouts (w_tm w)) = {#}"
  proof (rule ccontr)
    assume "to_items (tm_timeouts (w_tm w)) \<noteq> {#}"
    then obtain x where x: "x \<in># to_items (tm_timeouts (w_tm w))" by (meson multiset_nonemptyE)
    then have "x \<in># to_items (tm_timeouts (w_tm sample_armed))" unfolding r(2) by simp
    then show False using x r(3) unfolding sample_armed_items by (auto simp: word_less_nat_alt)
  qed
  then have ts: "ts = [(\<lparr>tt_thread = 0, tt_index = 0\<rparr>, 1100)]" using r(2) unfolding sample_armed_items
    by (metis add.right_neutral mset_single_iff_right)
  have f: "w_ethreads w = w_ethreads (fold push_timeout (map fst ts) sample_armed)" "w_threads w = w_threads sample_armed"
    using fold_push_frame [of "map fst ts" sample_armed] by (subst r(4), simp add: with_timeouts_def)+
  show ?thesis using r(1) f fold_push_messages [of 0 sample_armed "map fst ts"] sample_armed_thread
    by (simp add: ProcessTimeouts_def ts timeouts_for_def)
qed

theorem timeout_finds_timer_witness:
  "\<exists>w w2. (loop_step (\<lambda>_ _. []))\<^sup>*\<^sup>* sample_armed w \<and>
     fire_timeout 6000 0 0 (upd_ethread 0 (\<lambda>e. snd (TakeMessages e)) w) = Inr (Some 7, w2)"
proof -
  obtain w where w: "ProcessTimeouts 5000 sample_armed = Inr w" "queue_of w 0 = [Some (timeout_message 0)]" "w_threads w = w_threads sample_armed"
    using sample_armed_delivered by blast
  have s: "(loop_step (\<lambda>_ _. []))\<^sup>*\<^sup>* sample_armed w" by (rule r_into_rtranclp, rule deliver_timeouts [OF w(1)])
  have "rooms w" using sample_armed_thread by (simp add: rooms_def w(3) pool_room_def)
  from timeout_finds_timer [OF sample_armed_inv s _ this _ _ refl, of 0 "timeout_message 0" 6000] w(2,3) sample_armed_thread s
  have "fire_timeout 6000 0 0 (upd_ethread 0 (\<lambda>e. snd (TakeMessages e)) w) \<in> range (\<lambda>w2. Inr (Some 7, w2))"
    by (auto simp: timeout_message_def mk_ThreadMessage_def pool_look_def sample_timer_def td_IsEmpty_def)
  then show ?thesis using s by blast
qed

lemma first_empty_le:
  "first_empty emp xs k = Some i \<Longrightarrow> j < length xs \<Longrightarrow> emp (xs ! j) \<Longrightarrow> i \<le> k + j"
proof (induction xs arbitrary: k j)
  case (Cons x xs)
  show ?case
  proof (cases "emp x")
    case False
    then obtain j' where "j = Suc j'" using Cons.prems(3) by (cases j) auto
    then show ?thesis using Cons.IH [of "Suc k" j'] Cons.prems False by simp
  qed (use Cons.prems in simp)
qed simp

text \<open>
  An interval changes its identifier. When an interval fires while an entry below its own is free,
  it is armed again under the lower index: the identifier JavaScript got from \<open>setInterval\<close> no longer denotes
  a timer, so clearing it has no effect.
\<close>

theorem interval_changes_id:
  assumes "a < length (w_threads w)" "timers (w_threads w ! a) i = Some d" "td_autoreset d" "\<not> td_cleared d"
    and "timers (w_threads w ! a) j = None" "j < i" "pool_room (th_timeout_data (w_threads w ! a))"
  shows "\<exists>w1 k cb. fire_timeout now a (ucast i) w = Inr (Some cb, w1) \<and> k < i \<and> timers (w_threads w1 ! a) k = Some d \<and>
    timers (w_threads w1 ! a) i = None \<and> fst (ClearTimer a i w1) = False"
proof -
  let ?data = "th_timeout_data (w_threads w ! a)"
  have i: "unat i < length ?data" "\<not> td_IsEmpty d" "?data ! unat i = d" using assms(2) by (auto simp: pool_look_def split: if_splits)
  then obtain cb where cb: "td_cb d = Some cb" by (auto simp: td_IsEmpty_def)
  obtain p where "pool_Take td_moved i ?data = Inr (d, p)" using timeouts.take_total [OF assms(2)] by blast
  then obtain t where t: "TakeTimeoutData i (w_threads w ! a) = Inr (d, t)" by (auto simp: TakeTimeoutData_def Unref_def Let_def)
  note T = TakeTimeoutData_timers [OF t]
  have data: "th_timeout_data t = ?data[unat i := td_moved d]"
    using t i by (auto simp: TakeTimeoutData_def Unref_def Let_def pool_Take_def res_iffs)
  have ji: "unat j < unat i" using assms(6) by (simp add: word_less_nat_alt)
  then have je: "td_IsEmpty (th_timeout_data t ! unat j)" "unat j < length (th_timeout_data t)"
    using assms(5) i(1) by (auto simp: data pool_look_def split: if_splits)
  obtain k t' where k: "AddTimeoutData d t = (k, t')" by fastforce
  have room: "pool_room (th_timeout_data t)" using assms(7) T(4) by (simp add: pool_room_def)
  note A = AddTimeoutData_timers [OF k room i(2)]
  obtain n where n: "first_empty td_IsEmpty (th_timeout_data t) 0 = Some n"
    using je first_empty_None [of td_IsEmpty "th_timeout_data t" 0] by fastforce
  have "n \<le> unat j" using first_empty_le [OF n je(2,1)] by simp
  moreover have "k = of_nat n" using k n by (auto simp: AddTimeoutData_def Ref_def Let_def pool_Push_def)
  moreover have "n < 2 ^ 32" using \<open>n \<le> unat j\<close> unsigned_less [of j, where ?'a = nat] by simp
  ultimately have ki: "k < i" using ji by (simp add: word_less_nat_alt unat_of_nat_small)
  have small: "(ucast i :: u64) < 0xFFFFFFFF"
    using i(1) assms(7) by (simp add: pool_room_def word_less_nat_alt unsigned_ucast_eq take_bit_nat_eq_self)
  let ?w1 = "SetTimeout now a k (ucast (td_delay d)) (upd_thread a (\<lambda>_. t') (upd_thread a (\<lambda>_. t) w))"
  have f: "fire_timeout now a (ucast i) w = Inr (Some cb, ?w1)"
    using t k small cb assms(3,4) by (simp add: fire_timeout_def td_GetCallback_def)
  have w1: "w_threads ?w1 ! a = t'" using assms(1) by (simp add: upd_thread_def)
  have none: "timers (w_threads ?w1 ! a) i = None" using A(2) T(1) ki w1 by simp
  obtain b u where c: "FlagTimeoutCleared i t' = (b, u)" by fastforce
  then have "fst (ClearTimer a i ?w1) = False" using FlagTimeoutCleared_timers(1) [OF c] none w1 by (simp add: ClearTimer_def)
  then show ?thesis using f ki A(2) w1 none by auto
qed

definition sample_interval :: "unit world" where
  "sample_interval = upd_thread 0 (\<lambda>t. t\<lparr>th_timeout_data := [td_moved sample_timer, sample_timer\<lparr>td_autoreset := True\<rparr>]\<rparr>) (sample_world [1])"

theorem interval_changes_id_witness:
  "\<exists>w1. fire_timeout 100 0 1 sample_interval = Inr (Some 7, w1) \<and> fst (ClearTimer 0 1 w1) = False"
proof -
  have d: "th_timeout_data (w_threads sample_interval ! 0) = [td_moved sample_timer, sample_timer\<lparr>td_autoreset := True\<rparr>]" "length (w_threads sample_interval) = 1"
    by (simp_all add: sample_interval_def upd_thread_def sample_world_def)
  have "\<exists>w1 k cb. fire_timeout 100 0 (ucast (1 :: u32)) sample_interval = Inr (Some cb, w1) \<and> k < (1 :: u32) \<and>
      timers (w_threads w1 ! 0) k = Some (sample_timer\<lparr>td_autoreset := True\<rparr>) \<and>
      timers (w_threads w1 ! 0) 1 = None \<and> fst (ClearTimer 0 1 w1) = False"
    by (rule interval_changes_id [where j = 0])
      (simp_all add: d pool_look_def pool_room_def td_IsEmpty_def sample_timer_def td_moved_def)
  moreover have "fire_timeout 100 0 1 sample_interval = Inr (Some cb, w1) \<Longrightarrow> cb = 7" for cb w1
    by (auto simp: fire_timeout_def TakeTimeoutData_def Unref_def pool_Take_def td_GetCallback_def d sample_timer_def Let_def res_iffs
        split: if_splits prod.splits option.splits)
  ultimately show ?thesis by fastforce
qed

text \<open>
  C38. \<open>setTimeout\<close> takes effect: after a timer was set, \<open>ProcessTimeouts\<close> at any
  later moment that is not before its time puts its message into the queue of the thread, and the timer waits there with its callback.
\<close>

theorem set_timeout_fires:
  assumes "timer_inv (\<lambda>_. {#}) w" "rooms w" "a < length (w_threads w)"
    and "SetTimer now a cb delay False w = Inr (i, w1)" "now + ucast delay * 1000 \<le> later"
  shows "\<exists>w2 d. ProcessTimeouts later w1 = Inr w2 \<and> Some (timeout_message i) \<in> set (queue_of w2 a) \<and>
    timers (w_threads w2 ! a) i = Some d \<and> td_cb d = Some cb \<and> \<not> td_cleared d"
proof -
  obtain d t where s: "mk_TimeoutData (Some cb) delay False = Inr d" "AddTimeoutData d (w_threads w ! a) = (i, t)"
      "w1 = SetTimeout now a i (ucast delay) (upd_thread a (\<lambda>_. t) w)"
    using assms(4) by (auto simp: SetTimer_def res_iffs case_prod_unfold prod_eq_iff)
  have d: "td_cb d = Some cb" "\<not> td_cleared d" "\<not> td_IsEmpty d" using s(1) by (auto simp: mk_TimeoutData_def td_IsEmpty_def)
  have room: "pool_room (th_timeout_data (w_threads w ! a))" using assms(2,3) by (simp add: rooms_def)
  note A = AddTimeoutData_timers [OF s(2) room d(3)]
  have i1: "timer_inv (\<lambda>_. {#}) w1" unfolding s(3) by (rule timer_inv_arm [OF assms(1,3) s(2) d(3) room])
  let ?t = "\<lparr>tt_thread = a, tt_index = i\<rparr>" let ?due = "now + ucast delay * 1000 :: u64"
  have in1: "(?t, ?due) \<in># to_items (tm_timeouts (w_tm w1))"
    using heap_queue.put_law [OF timer_invD(1) [OF assms(1)], of ?t ?due] by (simp add: s(3) SetTimeout_def upd_thread_def)
  obtain ts w2 where r: "process_timeouts later w1 = Inr w2"
      "to_items (tm_timeouts (w_tm w1)) = mset ts + to_items (tm_timeouts (w_tm w2))"
      "\<forall>(t, due) \<in># to_items (tm_timeouts (w_tm w2)). later < due"
      "w2 = with_timeouts (tm_timeouts (w_tm w2)) (fold push_timeout (map fst ts) w1)"
    using process_timeouts_exact [OF timer_invD(1) [OF i1], of later] by blast
  have "(?t, ?due) \<in> set ts" using in1 r(2,3) assms(5) by force
  then have tin: "?t \<in> set (map fst ts)" by force
  have f: "w_ethreads w2 = w_ethreads (fold push_timeout (map fst ts) w1)" "w_threads w2 = w_threads w1"
    using fold_push_frame [of "map fst ts" w1] by (subst r(4), simp add: with_timeouts_def)+
  have th: "w_threads w1 ! a = t" using assms(3) by (simp add: s(3) upd_thread_def)
  have "th_ethread t < length (w_ethreads w1)"
    using timer_invD(2) [OF i1, of a] assms(3) th by (simp add: s(3) upd_thread_def)
  from fold_push_messages [OF this, of "map fst ts"] tin
  have "Some (timeout_message i) \<in> set (queue_of w2 a)"
    unfolding f th by (auto simp: timeouts_for_def th intro!: image_eqI [of _ _ ?t])
  then show ?thesis using r(1) f th A(2) d by (auto simp: ProcessTimeouts_def)
qed

theorem set_timeout_fires_witness:
  "\<exists>i w1 w2. SetTimer 100 0 7 5 False (sample_world [1]) = Inr (i, w1) \<and> ProcessTimeouts 5100 w1 = Inr w2 \<and>
     Some (timeout_message i) \<in> set (queue_of w2 0)"
proof -
  obtain i w1 where s: "SetTimer 100 0 7 5 False (sample_world [1]) = Inr (i, w1)"
    by (auto simp: SetTimer_def mk_TimeoutData_def case_prod_unfold)
  have "rooms (sample_world [1])" "0 < length (w_threads (sample_world [1]))"
    by (simp_all add: rooms_def sample_world_def sample_thread_def mk_Thread_def pool_room_def)
  from set_timeout_fires [OF timer_inv_start this s, of 5100] s show ?thesis by auto
qed

end
