(* ===== verification/Interrupts.thy ===== *)
theory Interrupts
  imports Multiboot
begin

text \<open>
  Interrupt set-up: the port accesses and the interrupt descriptor table of
  \<^verbatim>\<open>x64/irqs-x64.cc\<close>, the local APIC (\<^verbatim>\<open>x64/local-apic-x64.h\<close> and \<^verbatim>\<open>.cc\<close>) and the I/O APIC
  (\<^verbatim>\<open>x64/ioapic-x64.h\<close> and \<^verbatim>\<open>.cc\<close>). The table lives in memory, a function from addresses to
  bytes. Ports and device registers are driven by writes, so the operations return the
  sequence of writes they make; what they read from a device is an argument. The
  addresses of the assembly gates are a parameter.
\<close>

section \<open>Port and register accesses\<close>

datatype io_op = OutB u16 u8 | OutW u16 u16 | OutDW u16 u32

primrec write_bytes :: "phys_mem \<Rightarrow> u64 \<Rightarrow> u8 list \<Rightarrow> phys_mem" where
  "write_bytes mem a [] = mem"
| "write_bytes mem a (b # bs) = write_bytes (mem(a := b)) (a + 1) bs"

lemma write_bytes_at:
  assumes "unat base + length bs < 2 ^ 64"
  shows "write_bytes mem base bs a =
    (if unat base \<le> unat a \<and> unat a < unat base + length bs then bs ! (unat a - unat base) else mem a)"
  using assms
proof (induction bs arbitrary: mem base)
  case (Cons b bs)
  have next': "unat (base + 1) = Suc (unat base)" using Cons.prems by (subst unat_add_no_wrap) auto
  have "write_bytes mem base (b # bs) a =
    (if Suc (unat base) \<le> unat a \<and> unat a < Suc (unat base) + length bs
     then bs ! (unat a - Suc (unat base)) else (mem(base := b)) a)"
    using Cons next' by simp
  moreover have "a = base \<longleftrightarrow> unat a = unat base" by (simp add: word_unat_eq_iff)
  ultimately show ?case by (auto simp: nth_Cons' Suc_le_eq)
qed auto

section \<open>The interrupt descriptor table\<close>

datatype gate =
    GateException string   \<comment> \<open>\<open>int_gate_exception_<name>\<close>\<close>
  | GateTimer              \<comment> \<open>\<open>int_gate_irq_timer\<close>\<close>
  | GateIrq u8             \<comment> \<open>\<open>_irq_gate_<vector>\<close>\<close>
  | GateSpurious           \<comment> \<open>\<open>int_gate_irq_spurious\<close>\<close>

definition kIDTTableBase :: u64 where "kIDTTableBase = 0"
definition kCodeSelector :: u8 where "kCodeSelector = 8"

definition gate_bytes :: "u64 \<Rightarrow> u8 \<Rightarrow> u8 list" where
  "gate_bytes func type =
     [ucast (func AND 0x00000000000000FF),
      ucast (drop_bit 8 (func AND 0x000000000000FF00)),
      kCodeSelector, 0, 0, type,
      ucast (drop_bit 16 (func AND 0x0000000000FF0000)),
      ucast (drop_bit 24 (func AND 0x00000000FF000000)),
      ucast (drop_bit 32 (func AND 0x000000FF00000000)),
      ucast (drop_bit 40 (func AND 0x0000FF0000000000)),
      ucast (drop_bit 48 (func AND 0x00FF000000000000)),
      ucast (drop_bit 56 (func AND 0xFF00000000000000)),
      0, 0, 0, 0]"

definition InstallGate :: "u8 \<Rightarrow> u64 \<Rightarrow> u8 \<Rightarrow> phys_mem \<Rightarrow> phys_mem" where
  "InstallGate vector func type mem = write_bytes mem (kIDTTableBase + ucast vector * 16) (gate_bytes func type)"

definition DisableNMI :: "u8 \<Rightarrow> io_op list" where
  "DisableNMI nmi_port = [OutB 0x70 (nmi_port OR 0x80)]"

definition EnableNMI :: "u8 \<Rightarrow> io_op list" where
  "EnableNMI nmi_port = [OutB 0x70 (nmi_port AND 0x7F)]"

definition remap_pic :: "io_op list" where
  "remap_pic =
     [OutB 0x20 0x11, OutB 0xA0 0x11, OutB 0x21 0x20, OutB 0xA1 0x28, OutB 0x21 0x04, OutB 0xA1 0x02,
      OutB 0x21 0x01, OutB 0xA1 0x01, OutB 0x21 0xFF, OutB 0xA1 0xFF]"

definition exception_gates :: "gate list" where
  "exception_gates = map GateException
     [''DE'', ''DB'', ''NMI'', ''BP'', ''OF'', ''BR'', ''UD'', ''NM'', ''DF'', ''other'', ''TS'', ''NP'',
      ''SS'', ''GP'', ''PF'', ''other'', ''MF'', ''AC'', ''MC'', ''XF'', ''other'', ''other'', ''other'',
      ''other'', ''other'', ''other'', ''other'', ''other'', ''other'', ''other'', ''SX'', ''other'']"

definition idt_gates :: "gate list" where
  "idt_gates = exception_gates @ [GateTimer, GateIrq 0x21, GateTimer] @
     map (\<lambda>v. GateIrq (of_nat v)) [0x23..<0xff] @ [GateSpurious]"

definition install_gates :: "(gate \<Rightarrow> u64) \<Rightarrow> (nat \<times> gate) list \<Rightarrow> phys_mem \<Rightarrow> phys_mem" where
  "install_gates addr gs mem = fold (\<lambda>(v, g). InstallGate (of_nat v) (addr g) 0x8e) gs mem"

definition irqs_SetUp :: "(gate \<Rightarrow> u64) \<Rightarrow> u8 \<Rightarrow> phys_mem \<Rightarrow> io_op list \<times> phys_mem" where
  "irqs_SetUp addr nmi_port mem =
     (DisableNMI nmi_port @ remap_pic, install_gates addr (enumerate 0 idt_gates) mem)"

text \<open>What the processor reads from the descriptor of a vector (a 64-bit interrupt gate).\<close>

definition idt_slot :: "phys_mem \<Rightarrow> u8 \<Rightarrow> u8 list" where
  "idt_slot mem v = map (\<lambda>i. mem (ucast v * 16 + of_nat i)) [0..<16]"

definition gate_offset :: "u8 list \<Rightarrow> u64" where
  "gate_offset d = le_word [d ! 0, d ! 1, d ! 6, d ! 7, d ! 8, d ! 9, d ! 10, d ! 11]"

definition gate_selector :: "u8 list \<Rightarrow> u16" where
  "gate_selector d = le_word [d ! 2, d ! 3]"

lemma byte_of_masked:
  "m = push_bit k 0xFF \<Longrightarrow> (ucast (drop_bit k (w AND m :: u64)) :: u8) = ucast (drop_bit k w)"
proof (rule bit_word_eqI)
  fix n assume "m = push_bit k 0xFF" "n < LENGTH(8)"
  moreover have "bit (0xFF :: u64) n" if "n < 8"
  proof -
    have "(0xFF :: u64) = mask 8" by (simp add: mask_eq_exp_minus_1)
    with that show ?thesis by (simp only: bit_mask_iff) simp
  qed
  ultimately show "bit (ucast (drop_bit k (w AND m :: u64)) :: u8) n = bit (ucast (drop_bit k w) :: u8) n"
    by (auto simp: bit_ucast_iff bit_drop_bit_eq bit_and_iff bit_push_bit_iff dest: bit_imp_le_length)
qed

lemma gate_bytes_decode:
  "gate_offset (gate_bytes func type) = func" "gate_selector (gate_bytes func type) = 8"
  "gate_bytes func type ! 5 = type" "gate_bytes func type ! 4 = 0" "length (gate_bytes func type) = 16"
proof -
  have "gate_bytes func type ! 0 = ucast func" "gate_bytes func type ! 1 = ucast (drop_bit 8 func)"
    "gate_bytes func type ! 6 = ucast (drop_bit 16 func)" "gate_bytes func type ! 7 = ucast (drop_bit 24 func)"
    "gate_bytes func type ! 8 = ucast (drop_bit 32 func)" "gate_bytes func type ! 9 = ucast (drop_bit 40 func)"
    "gate_bytes func type ! 10 = ucast (drop_bit 48 func)" "gate_bytes func type ! 11 = ucast (drop_bit 56 func)"
    unfolding gate_bytes_def using byte_of_masked [of "0xFF" 0 func] byte_of_masked [of "0xFF00" 8 func]
      byte_of_masked [of "0xFF0000" 16 func] byte_of_masked [of "0xFF000000" 24 func]
      byte_of_masked [of "0xFF00000000" 32 func] byte_of_masked [of "0xFF0000000000" 40 func]
      byte_of_masked [of "0xFF000000000000" 48 func] byte_of_masked [of "0xFF00000000000000" 56 func]
    by (simp_all add: push_bit_eq_mult)
  then have "[gate_bytes func type ! 0, gate_bytes func type ! 1, gate_bytes func type ! 6, gate_bytes func type ! 7,
     gate_bytes func type ! 8, gate_bytes func type ! 9, gate_bytes func type ! 10, gate_bytes func type ! 11] = le_bytes 8 func"
    by (simp add: numeral_eq_Suc)
  then show "gate_offset (gate_bytes func type) = func" by (simp add: gate_offset_def)
qed (simp_all add: gate_bytes_def gate_selector_def kCodeSelector_def)

lemma slot_base: "unat (ucast v * 16 :: u64) = unat (v :: u8) * 16"
proof -
  have v: "unat v < 256" using unsigned_less [of v, where ?'a = nat] by simp
  have "unat (ucast v :: u64) = unat v" by (simp add: unat_ucast_up)
  with v show ?thesis by (simp add: unat_word_ariths)
qed

lemma InstallGate_at:
  "InstallGate v f t mem a =
     (if unat a div 16 = unat v then gate_bytes f t ! (unat a mod 16) else mem a)"
proof -
  have v: "unat v < 256" using unsigned_less [of v, where ?'a = nat] by simp
  have range: "unat v * 16 \<le> unat a \<and> unat a < unat v * 16 + 16 \<longleftrightarrow> unat a div 16 = unat v" by auto
  have off: "unat a div 16 = unat v \<Longrightarrow> unat a - unat v * 16 = unat a mod 16"
    by (metis minus_div_mult_eq_mod mult.commute)
  have "unat (ucast v * 16 :: u64) + length (gate_bytes f t) < 2 ^ 64"
    using v by (simp add: slot_base gate_bytes_decode)
  from write_bytes_at [OF this, of mem a] range off show ?thesis
    unfolding InstallGate_def by (simp add: kIDTTableBase_def slot_base gate_bytes_decode)
qed

lemma idt_slot_eq:
  assumes "\<And>a. unat a div 16 = unat v \<Longrightarrow> mem a = d ! (unat a mod 16)" "length d = 16"
  shows "idt_slot mem v = d"
proof (rule nth_equalityI)
  fix i assume "i < length (idt_slot mem v)"
  then have i: "i < 16" by (simp add: idt_slot_def)
  have v: "unat v < 256" using unsigned_less [of v, where ?'a = nat] by simp
  have "unat (of_nat i :: u64) = i" using i by (intro unat_of_nat_small) simp
  then have "unat (ucast v * 16 + of_nat i :: u64) = unat v * 16 + i"
    using i v by (subst unat_add_no_wrap) (auto simp: slot_base)
  with assms(1) [of "ucast v * 16 + of_nat i"] i show "idt_slot mem v ! i = d ! i"
    by (simp add: idt_slot_def)
qed (simp add: idt_slot_def assms)

lemma install_gates_at:
  "distinct (map fst gs) \<Longrightarrow> \<forall>(v, g) \<in> set gs. v < 256 \<Longrightarrow>
   install_gates addr gs mem a = (case map_of gs (unat a div 16) of
     Some g \<Rightarrow> gate_bytes (addr g) 0x8e ! (unat a mod 16) | None \<Rightarrow> mem a)"
proof (induction gs arbitrary: mem)
  case (Cons vg gs)
  obtain v g where vg: "vg = (v, g)" by (cases vg)
  have "unat (of_nat v :: u8) = v" using Cons.prems vg by (intro unat_of_nat_small) simp
  moreover have "map_of gs v = None" using Cons.prems(1) vg by (simp add: map_of_eq_None_iff)
  ultimately show ?case
    using Cons vg by (auto simp: install_gates_def InstallGate_at split: option.split)
qed (simp add: install_gates_def)

lemma length_idt_gates: "length idt_gates = 256"
  by (simp add: idt_gates_def exception_gates_def)

lemma idt_gates_irq:
  assumes "35 \<le> n" "n < 255"
  shows "idt_gates ! n = GateIrq (of_nat n)"
proof -
  have e: "length exception_gates = 32" by (simp add: exception_gates_def)
  obtain k where k: "n = 35 + k" "k < 220" using assms that [of "n - 35"] by simp
  then show ?thesis
    unfolding idt_gates_def by (simp add: nth_append e nth_Cons' del: upt_rec_numeral)
qed

lemma map_of_enumerate: "v < length xs \<Longrightarrow> map_of (enumerate 0 xs) v = Some (xs ! v)"
  by (intro map_of_is_SomeI) (auto simp: in_set_enumerate_eq)

text \<open>
  C15. \<open>IrqsArch::SetUp\<close>: after it, each of the 256 vectors has a present interrupt gate with the
  kernel's code selector whose target is the routine the source names for the vector; memory
  beyond the 4 KiB of the table is untouched; and both interrupt controllers end up masked.
\<close>

theorem idt_complete:
  "idt_slot (snd (irqs_SetUp addr nmi_port mem)) v = gate_bytes (addr (idt_gates ! unat v)) 0x8e \<and>
   gate_offset (idt_slot (snd (irqs_SetUp addr nmi_port mem)) v) = addr (idt_gates ! unat v) \<and>
   gate_selector (idt_slot (snd (irqs_SetUp addr nmi_port mem)) v) = 8 \<and>
   idt_slot (snd (irqs_SetUp addr nmi_port mem)) v ! 5 = 0x8e \<and>
   (unat a \<ge> 4096 \<longrightarrow> snd (irqs_SetUp addr nmi_port mem) a = mem a) \<and>
   (unat v \<ge> 0x23 \<and> unat v < 0xff \<longrightarrow> idt_gates ! unat v = GateIrq v) \<and>
   drop 9 (fst (irqs_SetUp addr nmi_port mem)) = [OutB 0x21 0xFF, OutB 0xA1 0xFF]"
proof -
  let ?m = "snd (irqs_SetUp addr nmi_port mem)"
  have v: "unat v < 256" using unsigned_less [of v, where ?'a = nat] by simp
  have at: "?m a = (case map_of (enumerate 0 idt_gates) (unat a div 16) of
     Some g \<Rightarrow> gate_bytes (addr g) 0x8e ! (unat a mod 16) | None \<Rightarrow> mem a)" for a
    by (simp add: irqs_SetUp_def install_gates_at in_set_enumerate_eq length_idt_gates
        case_prod_unfold)
  have slot: "idt_slot ?m v = gate_bytes (addr (idt_gates ! unat v)) 0x8e"
    using v by (intro idt_slot_eq) (simp_all add: at map_of_enumerate length_idt_gates gate_bytes_decode)
  have out: "?m a = mem a" if "unat a \<ge> 4096" for a
  proof -
    have "map_of (enumerate 0 idt_gates) (unat a div 16) = None"
      using that by (auto simp: map_of_eq_None_iff in_set_enumerate_eq length_idt_gates)
    then show ?thesis by (simp add: at)
  qed
  have irq: "idt_gates ! unat v = GateIrq v" if "unat v \<ge> 0x23" "unat v < 0xff"
    using idt_gates_irq [of "unat v"] that by simp
  have "drop 9 (fst (irqs_SetUp addr nmi_port mem)) = [OutB 0x21 0xFF, OutB 0xA1 0xFF]"
    by (simp add: irqs_SetUp_def DisableNMI_def remap_pic_def)
  with slot out irq show ?thesis by (simp add: gate_bytes_decode)
qed

theorem idt_complete_witness:
  "gate_offset (idt_slot (snd (irqs_SetUp (\<lambda>_. 0xABCDEF) 0 (\<lambda>_. 0))) 0x80) = 0xABCDEF \<and>
   idt_gates ! 0x80 = GateIrq 0x80 \<and> snd (irqs_SetUp (\<lambda>_. 0xABCDEF) 0 (\<lambda>_. 0)) 4096 = 0"
  using idt_complete [where addr = "\<lambda>_. 0xABCDEF" and nmi_port = 0 and mem = "\<lambda>_. 0" and v = "0x80" and a = 4096]
  by (simp add: gate_bytes_decode)

section \<open>The local APIC\<close>

datatype LocalApicRegister = AR_ID | AR_VERSION | AR_TASK_PRIORITY | AR_ARBITRATION_PRIORITY
  | AR_PROCESSOR_PRIORITY | AR_EOI | AR_RRD | AR_LOGICAL_DESTINATION | AR_DESTINATION_FORMAT
  | AR_SPURIOUS_INTERRUPT_VECTOR | AR_ISR | AR_TMR | AR_IRR | AR_ERROR_STATUS
  | AR_INTERRUPT_COMMAND_LO | AR_INTERRUPT_COMMAND_HI | AR_TIMER | AR_THERMAL | AR_PERF
  | AR_LINT0 | AR_LINT1 | AR_ERROR | AR_TIMER_INITIAL_COUNT | AR_TIMER_CURRENT_COUNT
  | AR_TIMER_DIVIDE_CONFIG

fun apic_offset :: "LocalApicRegister \<Rightarrow> u32" where
  "apic_offset AR_ID = 0x20" | "apic_offset AR_VERSION = 0x30"
| "apic_offset AR_TASK_PRIORITY = 0x80" | "apic_offset AR_ARBITRATION_PRIORITY = 0x90"
| "apic_offset AR_PROCESSOR_PRIORITY = 0xa0" | "apic_offset AR_EOI = 0xb0" | "apic_offset AR_RRD = 0xc0"
| "apic_offset AR_LOGICAL_DESTINATION = 0xd0" | "apic_offset AR_DESTINATION_FORMAT = 0xe0"
| "apic_offset AR_SPURIOUS_INTERRUPT_VECTOR = 0xf0" | "apic_offset AR_ISR = 0x100"
| "apic_offset AR_TMR = 0x180" | "apic_offset AR_IRR = 0x200" | "apic_offset AR_ERROR_STATUS = 0x280"
| "apic_offset AR_INTERRUPT_COMMAND_LO = 0x300" | "apic_offset AR_INTERRUPT_COMMAND_HI = 0x310"
| "apic_offset AR_TIMER = 0x320" | "apic_offset AR_THERMAL = 0x330" | "apic_offset AR_PERF = 0x340"
| "apic_offset AR_LINT0 = 0x350" | "apic_offset AR_LINT1 = 0x360" | "apic_offset AR_ERROR = 0x370"
| "apic_offset AR_TIMER_INITIAL_COUNT = 0x380" | "apic_offset AR_TIMER_CURRENT_COUNT = 0x390"
| "apic_offset AR_TIMER_DIVIDE_CONFIG = 0x3e0"

datatype DeliveryMode = FIXED | LOWEST_PRIORITY | SMI | NMI | INIT | STARTUP
datatype DestinationMode = PHYSICAL | LOGICAL
datatype DestinationShorthand = SH_NONE | SH_SELF | SH_ALL | SH_ALL_EXCEPT_SELF

fun delivery_code :: "DeliveryMode \<Rightarrow> u32" where
  "delivery_code FIXED = 0" | "delivery_code LOWEST_PRIORITY = 1" | "delivery_code SMI = 2"
| "delivery_code NMI = 4" | "delivery_code INIT = 5" | "delivery_code STARTUP = 6"

fun destination_code :: "DestinationMode \<Rightarrow> u32" where
  "destination_code PHYSICAL = 0" | "destination_code LOGICAL = 1"

fun shorthand_code :: "DestinationShorthand \<Rightarrow> u32" where
  "shorthand_code SH_NONE = 0" | "shorthand_code SH_SELF = 1" | "shorthand_code SH_ALL = 2"
| "shorthand_code SH_ALL_EXCEPT_SELF = 3"

record LocalApicInterruptCommand =
  ic_hi :: u32
  ic_lo :: u32

definition mk_InterruptCommand ::
    "u8 \<Rightarrow> DeliveryMode \<Rightarrow> DestinationMode \<Rightarrow> bool \<Rightarrow> bool \<Rightarrow> DestinationShorthand \<Rightarrow> u8 \<Rightarrow> LocalApicInterruptCommand" where
  "mk_InterruptCommand vector_num dmode destmode is_no_deassert trigger_mode dshort dest =
     \<lparr>ic_hi = push_bit 24 (ucast dest),
      ic_lo = ucast vector_num OR push_bit 8 (delivery_code dmode) OR push_bit 11 (destination_code destmode) OR
        push_bit 14 (of_bool is_no_deassert) OR push_bit 15 (of_bool trigger_mode) OR push_bit 18 (shorthand_code dshort)\<rparr>"

text \<open>Accesses of the processor set-up, in order: register and MSR writes, page mappings.\<close>

datatype hw_op = ApicWrite LocalApicRegister u32 | SetMSR u32 u32 u32 | MapDevicePage u64

definition InterruptCommand :: "LocalApicInterruptCommand \<Rightarrow> hw_op list" where
  "InterruptCommand c = [ApicWrite AR_INTERRUPT_COMMAND_HI (ic_hi c), ApicWrite AR_INTERRUPT_COMMAND_LO (ic_lo c)]"

definition SendApicInit :: "u8 \<Rightarrow> hw_op list" where
  "SendApicInit apicid = InterruptCommand (mk_InterruptCommand 0 INIT PHYSICAL True False SH_NONE apicid)"

definition SendApicStartup :: "u8 \<Rightarrow> u8 \<Rightarrow> hw_op list" where
  "SendApicStartup apicid vector_num =
     InterruptCommand (mk_InterruptCommand vector_num STARTUP PHYSICAL True False SH_NONE apicid)"

definition apic_EOI :: "hw_op list" where
  "apic_EOI = [ApicWrite AR_EOI 0]"

record LocalApicX64 =
  local_apic_address :: u64
  bus_freq :: u32

definition mk_LocalApicX64 :: "u64 \<Rightarrow> LocalApicX64 res" where
  "mk_LocalApicX64 a = res_bind (rt_assert (a \<noteq> 0) ''local_apic_base'') (\<lambda>_.
     Inr \<lparr>local_apic_address = a, bus_freq = 0\<rparr>)"

definition kApicBaseMSR :: u32 where "kApicBaseMSR = 0x1b"
definition kApicBaseMSREnable :: u32 where "kApicBaseMSREnable = 0x800"

definition CpuSetAPICBase :: "u64 \<Rightarrow> hw_op list" where
  "CpuSetAPICBase apic =
     (let edx = ucast (drop_bit 32 apic AND 0x0f); eax = ucast (apic AND 0xfffff100) OR kApicBaseMSREnable
      in [SetMSR kApicBaseMSR eax edx])"

definition CpuGetAPICBase :: "u32 \<Rightarrow> u32 \<Rightarrow> u64" where
  "CpuGetAPICBase lo hi = ucast (lo AND 0xfffff100) OR push_bit 32 (ucast (hi AND 0x0f))"

text \<open>The busy wait of the calibration over the readings \<open>clock\<close> of the boot time.\<close>

partial_function (option) calibration_wait :: "(nat \<Rightarrow> u64) \<Rightarrow> u64 \<Rightarrow> nat \<Rightarrow> nat option" where
  "calibration_wait clock start k =
     (if clock k - start < 10000 then calibration_wait clock start (Suc k) else Some k)"

definition apic_mask_ops :: "hw_op list" where
  "apic_mask_ops =
     [ApicWrite AR_TASK_PRIORITY 0, ApicWrite AR_LINT0 0x10000, ApicWrite AR_LINT1 0x10000,
      ApicWrite AR_TIMER 0x10000, ApicWrite AR_PERF 0x400, ApicWrite AR_DESTINATION_FORMAT 0xffffffff,
      ApicWrite AR_LOGICAL_DESTINATION 1, ApicWrite AR_SPURIOUS_INTERRUPT_VECTOR 0x1ff]"

definition timer_vector :: u8 where "timer_vector = 32"

definition calibrate :: "u16 \<Rightarrow> (nat \<Rightarrow> u64) \<Rightarrow> u32 \<Rightarrow> (hw_op list \<times> u32) res option" where
  "calibrate cpu clock curr_count =
     (if cpu \<noteq> 0 then Some (Inl (AssertFailed ''0 == Cpu::id()''))
      else case calibration_wait clock (clock 0) 1 of
        None \<Rightarrow> None
      | Some _ \<Rightarrow> Some (Inr
          ([ApicWrite AR_TIMER (ucast timer_vector), ApicWrite AR_TIMER_DIVIDE_CONFIG 3,
            ApicWrite AR_TIMER_INITIAL_COUNT 0xffffffff, ApicWrite AR_TIMER 0x10000],
           ((0xFFFFFFFF - curr_count) + 1) * 16 * 100)))"

definition timer_init_count :: "u32 \<Rightarrow> u32" where
  "timer_init_count freq =
     (let init_count = freq div 32 div 16 in if init_count < 0x1000 then 0x1000 else init_count)"

definition start_timer :: "u32 \<Rightarrow> hw_op list" where
  "start_timer freq =
     [ApicWrite AR_TIMER_INITIAL_COUNT (timer_init_count freq),
      ApicWrite AR_TIMER (ucast timer_vector OR 0x20000), ApicWrite AR_TIMER_DIVIDE_CONFIG 3]"

definition apic_InitCpu ::
    "u16 \<Rightarrow> u32 \<times> u32 \<Rightarrow> (nat \<Rightarrow> u64) \<Rightarrow> u32 \<Rightarrow> LocalApicX64 \<Rightarrow> (hw_op list \<times> LocalApicX64) res option" where
  "apic_InitCpu cpu msr clock curr_count la =
     (let setup = [MapDevicePage (local_apic_address la)] @
            CpuSetAPICBase (CpuGetAPICBase (fst msr) (snd msr)) @ apic_mask_ops in
      case (if bus_freq la = 0 then calibrate cpu clock curr_count else Some (Inr ([], bus_freq la))) of
        None \<Rightarrow> None
      | Some r \<Rightarrow> Some (res_bind r (\<lambda>(ops, freq).
          res_bind (rt_assert (freq \<noteq> 0) ''bus_freq_'') (\<lambda>_.
            Inr (setup @ ops @ start_timer freq @ apic_EOI, la\<lparr>bus_freq := freq\<rparr>)))))"

lemma calibration_wait_returns:
  assumes "clock n - start \<ge> 10000" "k \<le> n"
  shows "\<exists>m. calibration_wait clock start k = Some m \<and> clock m - start \<ge> 10000"
  using assms(2)
proof (induction "n - k" arbitrary: k)
  case 0
  then have "k = n" by simp
  with assms(1) show ?case by (subst calibration_wait.simps) (auto simp: not_less)
next
  case (Suc d)
  show ?case
  proof (cases "clock k - start < 10000")
    case True
    with Suc.hyps(1) [of "Suc k"] Suc show ?thesis by (subst calibration_wait.simps) auto
  next
    case False
    then show ?thesis by (subst calibration_wait.simps) (auto simp: not_less)
  qed
qed

lemma msr_fields_kept:
  fixes lo hi M H E :: u32
  assumes "M AND E = 0"
  defines "base \<equiv> ucast (lo AND M) OR push_bit 32 (ucast (hi AND H)) :: u64"
  shows "ucast ((ucast (base AND ucast M) OR E) AND M) OR
    push_bit 32 (ucast (ucast (drop_bit 32 base AND ucast H) AND H)) = base"
proof (rule bit_word_eqI)
  fix n assume "n < LENGTH(64)"
  have "\<not> (bit M n \<and> bit E n)" using assms(1) by (metis bit_0_eq bit_and_iff bot_apply bot_bool_def)
  then show "bit (ucast ((ucast (base AND ucast M) OR E) AND M) OR
      push_bit 32 (ucast (ucast (drop_bit 32 base AND ucast H) AND H)) :: u64) n = bit base n"
    unfolding base_def
    by (auto simp: bit_ucast_iff bit_or_iff bit_and_iff bit_push_bit_iff bit_drop_bit_eq
        dest: bit_imp_le_length)
qed

lemma apic_base_kept:
  assumes "CpuSetAPICBase (CpuGetAPICBase lo hi) = [SetMSR m eax edx]"
  shows "CpuGetAPICBase eax edx = CpuGetAPICBase lo hi" "eax AND 0x800 = 0x800"
proof -
  have e: "eax = ucast (CpuGetAPICBase lo hi AND 0xfffff100) OR 0x800"
    "edx = ucast (drop_bit 32 (CpuGetAPICBase lo hi) AND 0x0f)"
    using assms by (simp_all add: CpuSetAPICBase_def kApicBaseMSREnable_def Let_def)
  show "eax AND 0x800 = 0x800" unfolding e by (rule bit_word_eqI) (auto simp: bit_and_iff bit_or_iff)
  have mask: "(ucast (0xfffff100 :: u32) :: u64) = 0xfffff100" "(ucast (0x0f :: u32) :: u64) = 0x0f" by simp_all
  show "CpuGetAPICBase eax edx = CpuGetAPICBase lo hi"
    unfolding e CpuGetAPICBase_def mask [symmetric] by (rule msr_fields_kept) simp
qed

lemma timer_init_count_bounds:
  "0x1000 \<le> unat (timer_init_count f)" "unat (timer_init_count f) < 2 ^ 23"
  "unat f \<ge> 0x200000 \<Longrightarrow> unat (timer_init_count f) * 512 \<le> unat f \<and> unat f < (unat (timer_init_count f) + 1) * 512"
proof -
  have f: "unat f < 2 ^ 32" using unsigned_less [of f, where ?'a = nat] by simp
  have d: "unat (f div 32 div 16) = unat f div 512" by (simp add: unat_div div_mult2_eq [symmetric])
  have c: "unat (timer_init_count f) = (if unat f div 512 < 0x1000 then 0x1000 else unat f div 512)"
    unfolding timer_init_count_def Let_def using d by (simp add: word_less_nat_alt)
  show "0x1000 \<le> unat (timer_init_count f)" "unat (timer_init_count f) < 2 ^ 23"
    "unat f \<ge> 0x200000 \<Longrightarrow> unat (timer_init_count f) * 512 \<le> unat f \<and> unat f < (unat (timer_init_count f) + 1) * 512"
    using f by (simp_all add: c) linarith+
qed

text \<open>
  \<open>LocalApicX64::InitCpu\<close> on the boot processor: as soon as the boot clock has advanced by
  10 ms the calibration ends, and when it measured a bus frequency the processor's APIC
  base is unchanged and enabled, and the last writes start the periodic timer on vector 32
  with a count of at least \<open>0x1000\<close> that fits 23 bits; from 2 MHz on that count is the bus
  frequency divided by 512, so that the timer fires 32 times a second.
\<close>

theorem apic_timer_started:
  assumes "bus_freq la = 0" "clock n - clock 0 \<ge> 10000" "0 < n"
    and freq: "freq = ((0xFFFFFFFF - curr_count) + 1) * 16 * 100" "freq \<noteq> 0"
  shows "\<exists>ops la' eax edx. apic_InitCpu 0 (lo, hi) clock curr_count la = Some (Inr (ops, la')) \<and>
    bus_freq la' = freq \<and> ops ! 1 = SetMSR 0x1b eax edx \<and> CpuGetAPICBase eax edx = CpuGetAPICBase lo hi \<and>
    eax AND 0x800 = 0x800 \<and>
    drop (length ops - 4) ops = [ApicWrite AR_TIMER_INITIAL_COUNT (timer_init_count freq),
      ApicWrite AR_TIMER 0x20020, ApicWrite AR_TIMER_DIVIDE_CONFIG 3, ApicWrite AR_EOI 0] \<and>
    0x1000 \<le> unat (timer_init_count freq) \<and> unat (timer_init_count freq) < 2 ^ 23 \<and>
    (unat freq \<ge> 0x200000 \<longrightarrow> unat (timer_init_count freq) = unat freq div 512)"
proof -
  obtain m where m: "calibration_wait clock (clock 0) 1 = Some m"
    using calibration_wait_returns [of clock n "clock 0" 1] assms(2,3) by auto
  obtain eax edx where set: "CpuSetAPICBase (CpuGetAPICBase lo hi) = [SetMSR 0x1b eax edx]"
    by (simp add: CpuSetAPICBase_def kApicBaseMSR_def Let_def)
  have div: "unat (timer_init_count freq) = unat freq div 512" if "unat freq \<ge> 0x200000"
    using timer_init_count_bounds(3) [OF that] by (auto intro!: div_nat_eqI [symmetric])
  have run: "apic_InitCpu 0 (lo, hi) clock curr_count la = Some (Inr
      ([MapDevicePage (local_apic_address la), SetMSR 0x1b eax edx] @ apic_mask_ops @
       [ApicWrite AR_TIMER (ucast timer_vector), ApicWrite AR_TIMER_DIVIDE_CONFIG 3,
        ApicWrite AR_TIMER_INITIAL_COUNT 0xffffffff, ApicWrite AR_TIMER 0x10000] @ start_timer freq @ apic_EOI,
       la\<lparr>bus_freq := freq\<rparr>))"
    using assms m set by (simp add: apic_InitCpu_def calibrate_def)
  show ?thesis unfolding run
    using apic_base_kept [OF set] div timer_init_count_bounds(1,2) [of freq]
    by (auto simp: apic_mask_ops_def start_timer_def apic_EOI_def timer_vector_def)
qed

theorem apic_timer_started_witness:
  "\<exists>ops la' eax edx. apic_InitCpu 0 (0xfee00900, 0) (\<lambda>k. if k = 0 then 5 else 10005) 0xFFFF0000 \<lparr>local_apic_address = 0xfee00000, bus_freq = 0\<rparr>
     = Some (Inr (ops, la')) \<and> bus_freq la' = 104857600 \<and> ops ! 1 = SetMSR 0x1b eax edx \<and> unat (timer_init_count 104857600) = 204800"
  using apic_timer_started [where la = "\<lparr>local_apic_address = 0xfee00000, bus_freq = 0\<rparr>"
      and clock = "\<lambda>k. if k = 0 then 5 else 10005" and n = 1 and curr_count = "0xFFFF0000" and freq = 104857600
      and lo = "0xfee00900" and hi = 0]
  by auto

section \<open>The I/O APIC\<close>

datatype IoApicRegister = IR_ID | IR_VER | IR_ARB | IR_REDTBL

fun ioapic_reg :: "IoApicRegister \<Rightarrow> u32" where
  "ioapic_reg IR_ID = 0" | "ioapic_reg IR_VER = 1" | "ioapic_reg IR_ARB = 2" | "ioapic_reg IR_REDTBL = 0x10"

datatype ioapic_op = IoRegSel u32 | IoWin u32   \<comment> \<open>writes to \<open>IOREGSEL\<close> and \<open>IOWIN\<close>\<close>

record IoApicX64 =
  io_id :: u32
  io_address :: u64
  interrupt_base :: u32

definition mk_IoApicX64 :: "u32 \<Rightarrow> u64 \<Rightarrow> u32 \<Rightarrow> IoApicX64 res" where
  "mk_IoApicX64 ident address base = res_bind (rt_assert (address \<noteq> 0) ''address'') (\<lambda>_.
     Inr \<lparr>io_id = ident, io_address = address, interrupt_base = base\<rparr>)"

definition io_Write :: "IoApicRegister \<Rightarrow> u8 \<Rightarrow> u32 \<Rightarrow> ioapic_op list" where
  "io_Write reg reg_offset val = [IoRegSel (ioapic_reg reg + ucast reg_offset), IoWin val]"

definition io_SetEntry :: "u8 \<Rightarrow> u64 \<Rightarrow> ioapic_op list" where
  "io_SetEntry index data =
     io_Write IR_REDTBL (index * 2) (ucast data) @ io_Write IR_REDTBL (index * 2 + 1) (ucast (drop_bit 32 data))"

definition EnableIrq :: "u32 \<Rightarrow> u32 \<Rightarrow> IoApicX64 \<Rightarrow> ioapic_op list" where
  "EnableIrq first_irq_offset irq io = io_SetEntry (ucast irq) (ucast (first_irq_offset + irq + interrupt_base io))"

definition init_entry :: "IoApicX64 \<Rightarrow> u32 \<Rightarrow> ioapic_op list" where
  "init_entry io i =
     (if interrupt_base io = 0 \<and> i = 0 then io_SetEntry (ucast i) (ucast (0x10000 OR (32 + i)))
      else EnableIrq 32 i io)"

text \<open>\<open>id_val\<close> and \<open>ver_val\<close> are what the registers \<open>ID\<close> and \<open>VER\<close> read as.\<close>

definition ioapic_Init :: "u32 \<Rightarrow> u32 \<Rightarrow> IoApicX64 \<Rightarrow> ioapic_op list res" where
  "ioapic_Init id_val ver_val io =
     res_bind (rt_assert (io_address io \<noteq> 0) ''address_'') (\<lambda>_.
       let id_reg = drop_bit 24 id_val AND 0xF;
           patch = (if id_reg \<noteq> io_id io then io_Write IR_ID 0 (push_bit 24 (io_id io)) else []);
           max_value = drop_bit 16 ver_val AND 0xFF in
       res_bind (rt_assert (max_value \<noteq> 0) ''max_value'') (\<lambda>_.
         Inr ([IoRegSel (ioapic_reg IR_ID)] @ patch @ [IoRegSel (ioapic_reg IR_VER)] @
              concat (map (\<lambda>i. init_entry io (of_nat i)) [0..<unat (max_value + 1)]))))"

text \<open>The register file after a sequence of accesses: a write to the window goes to the selected register.\<close>

fun ioapic_run :: "ioapic_op list \<Rightarrow> u32 \<times> (u32 \<Rightarrow> u32) \<Rightarrow> u32 \<times> (u32 \<Rightarrow> u32)" where
  "ioapic_run [] d = d"
| "ioapic_run (IoRegSel r # ops) (sel, regs) = ioapic_run ops (r, regs)"
| "ioapic_run (IoWin v # ops) (sel, regs) = ioapic_run ops (sel, regs(sel := v))"

lemma ioapic_run_append: "ioapic_run (xs @ ys) d = ioapic_run ys (ioapic_run xs d)"
  by (induction xs d rule: ioapic_run.induct) auto

text \<open>The entry that the source intends for input \<open>i\<close>.\<close>

definition redirection :: "IoApicX64 \<Rightarrow> nat \<Rightarrow> u32" where
  "redirection io i =
     (if interrupt_base io = 0 \<and> i = 0 then 0x10020 else of_nat (32 + i + unat (interrupt_base io)))"

lemma entry_register:
  assumes "i < 120"
  shows "(0x10 :: u32) + ucast (ucast (of_nat i :: u32) * 2 :: u8) = of_nat (0x10 + 2 * i)"
    "(0x10 :: u32) + ucast (ucast (of_nat i :: u32) * 2 + 1 :: u8) = of_nat (0x11 + 2 * i)"
proof -
  have i: "(ucast (of_nat i :: u32) :: u8) = of_nat i"
    using assms by (simp add: word_unat_eq_iff unsigned_ucast_eq unat_of_nat take_bit_nat_eq_self)
  have u: "unat (of_nat (2 * i) :: u8) = 2 * i" "unat (of_nat (2 * i + 1) :: u8) = 2 * i + 1"
    using assms by (intro unat_of_nat_small; simp)+
  have "(ucast (of_nat k :: u8) :: u32) = of_nat k" if "unat (of_nat k :: u8) = k" for k
    using that by (metis of_nat_unat)
  with u have "(ucast (of_nat (2 * i) :: u8) :: u32) = of_nat (2 * i)"
    "(ucast (of_nat (2 * i + 1) :: u8) :: u32) = of_nat (2 * i + 1)" by blast+
  with i show "(0x10 :: u32) + ucast (ucast (of_nat i :: u32) * 2 :: u8) = of_nat (0x10 + 2 * i)"
    "(0x10 :: u32) + ucast (ucast (of_nat i :: u32) * 2 + 1 :: u8) = of_nat (0x11 + 2 * i)"
    by (simp_all add: mult.commute add.commute)
qed

lemma run_init_entry:
  assumes "i < 120"
  shows "snd (ioapic_run (init_entry io (of_nat i)) d) =
    (snd d)(of_nat (0x10 + 2 * i) := redirection io i, of_nat (0x11 + 2 * i) := 0)"
proof -
  obtain sel regs where d: "d = (sel, regs)" by (cases d)
  have set: "snd (ioapic_run (io_SetEntry (ucast (of_nat i :: u32)) (ucast (w :: u32))) d) =
      (snd d)(of_nat (0x10 + 2 * i) := w, of_nat (0x11 + 2 * i) := 0)" for w
  proof -
    have "(ucast (drop_bit 32 (ucast w :: u64)) :: u32) = 0" "(ucast (ucast w :: u64) :: u32) = w"
      by (rule bit_word_eqI, auto simp: bit_ucast_iff bit_drop_bit_eq dest: bit_imp_le_length)+
    then show ?thesis
      unfolding io_SetEntry_def io_Write_def d using entry_register [OF assms] by simp
  qed
  have "(of_nat i :: u32) = 0 \<longleftrightarrow> i = 0"
    using assms by (intro of_nat_small_eq_0) simp
  then show ?thesis
    using set [of "0x10020"]
    by (cases "interrupt_base io = 0 \<and> i = 0")
      (auto simp: init_entry_def EnableIrq_def set redirection_def)
qed

lemma run_init_entries:
  assumes "n \<le> 120" "r < 256"
  shows "snd (ioapic_run (concat (map (\<lambda>i. init_entry io (of_nat i)) [0..<n])) d) (of_nat r) =
    (if 0x10 \<le> r \<and> r < 0x10 + 2 * n
     then (if even r then redirection io ((r - 0x10) div 2) else 0) else snd d (of_nat r))"
  using assms(1)
proof (induction n)
  case (Suc n)
  let ?regs = "snd (ioapic_run (concat (map (\<lambda>i. init_entry io (of_nat i)) [0..<n])) d)"
  have u: "unat (of_nat k :: u32) = k" if "k < 256" for k using that by (intro unat_of_nat_small) simp
  then have eq: "(of_nat r :: u32) = of_nat k \<longleftrightarrow> r = k" if "k < 256" for k using that assms(2) by metis
  have "snd (ioapic_run (concat (map (\<lambda>i. init_entry io (of_nat i)) [0..<Suc n])) d) (of_nat r) =
      (if r = 0x11 + 2 * n then 0 else if r = 0x10 + 2 * n then redirection io n else ?regs (of_nat r))"
    using Suc.prems eq [of "0x10 + 2 * n"] eq [of "0x11 + 2 * n"]
    by (simp add: ioapic_run_append run_init_entry del: of_nat_add of_nat_mult of_nat_Suc of_nat_numeral)
  moreover have "\<not> r < 0x10 + 2 * n \<Longrightarrow> r < 0x10 + 2 * Suc n \<Longrightarrow> r = 0x10 + 2 * n \<or> r = 0x11 + 2 * n" by auto
  ultimately show ?case using Suc by auto
qed auto

text \<open>
  C30. \<open>IoApicX64::Init\<close> on a controller with at most 120 inputs whose interrupts fit the vector
  space: afterwards input \<open>i\<close> is delivered, fixed and unmasked, to processor 0 on vector
  \<open>32 + i + interrupt_base_\<close>, except that input 0 of the first controller (the timer) is
  masked; no other register than \<open>ID\<close> and the table changes.
\<close>

theorem ioapic_routes:
  assumes "io_address io \<noteq> 0" "max_value = unat (drop_bit 16 ver_val AND 0xFF)" "0 < max_value" "max_value < 120"
    and "32 + max_value + unat (interrupt_base io) < 256"
  shows "\<exists>ops. ioapic_Init id_val ver_val io = Inr ops \<and>
    (\<forall>i \<le> max_value. snd (ioapic_run ops d) (of_nat (0x11 + 2 * i)) = 0 \<and>
       (if interrupt_base io = 0 \<and> i = 0 then snd (ioapic_run ops d) 0x10 = 0x10020
        else unat (snd (ioapic_run ops d) (of_nat (0x10 + 2 * i))) = 32 + i + unat (interrupt_base io))) \<and>
    (\<forall>r < 256. 0 < r \<longrightarrow> (r < 0x10 \<or> 0x11 + 2 * max_value < r) \<longrightarrow>
       snd (ioapic_run ops d) (of_nat r) = snd d (of_nat r))"
proof -
  let ?mv = "drop_bit 16 ver_val AND 0xFF :: u32"
  let ?es = "concat (map (\<lambda>i. init_entry io (of_nat i)) [0..<Suc max_value])"
  define pre where "pre = [IoRegSel 0] @ (if drop_bit 24 id_val AND 0xF \<noteq> io_id io
    then io_Write IR_ID 0 (push_bit 24 (io_id io)) else []) @ [IoRegSel 1]"
  have "unat (?mv + 1) = Suc max_value" using assms(2,4) by (subst unat_add_no_wrap) auto
  moreover have "?mv \<noteq> 0" using assms(2,3) by (metis less_irrefl unat_0)
  ultimately have run: "ioapic_Init id_val ver_val io = Inr (pre @ ?es)"
    using assms(1) by (simp add: ioapic_Init_def pre_def Let_def)
  have pre: "snd (ioapic_run pre d) (of_nat r) = snd d (of_nat r)" if "0 < r" "r < 256" for r
  proof -
    have "(of_nat r :: u32) \<noteq> 0" using that by (subst of_nat_small_eq_0) auto
    then show ?thesis by (cases d) (simp add: pre_def io_Write_def)
  qed
  have at: "snd (ioapic_run (pre @ ?es) d) (of_nat r) = (if 0x10 \<le> r \<and> r < 0x12 + 2 * max_value
     then (if even r then redirection io ((r - 0x10) div 2) else 0) else snd d (of_nat r))" if "0 < r" "r < 256" for r
    using run_init_entries [of "Suc max_value" r io "ioapic_run pre d"] that assms(4) pre
    by (simp add: ioapic_run_append del: upt_Suc)
  have red: "unat (redirection io i) = 32 + i + unat (interrupt_base io)"
    if "i \<le> max_value" "\<not> (interrupt_base io = 0 \<and> i = 0)" for i
    using that assms(5) by (auto simp: redirection_def intro!: unat_of_nat_small simp del: of_nat_add)
  show ?thesis
  proof (intro exI [where x = "pre @ ?es"] conjI allI impI)
    show "ioapic_Init id_val ver_val io = Inr (pre @ ?es)" by (fact run)
  next
    fix i assume i: "i \<le> max_value"
    show "snd (ioapic_run (pre @ ?es) d) (of_nat (0x11 + 2 * i)) = 0"
      using at [of "0x11 + 2 * i"] i assms(4) by (simp del: upt_Suc of_nat_add of_nat_mult)
    show "if interrupt_base io = 0 \<and> i = 0 then snd (ioapic_run (pre @ ?es) d) 0x10 = 0x10020
        else unat (snd (ioapic_run (pre @ ?es) d) (of_nat (0x10 + 2 * i))) = 32 + i + unat (interrupt_base io)"
      using at [of "0x10 + 2 * i"] red [OF i] i assms(4)
      by (auto simp: redirection_def simp del: upt_Suc of_nat_add of_nat_mult)
  next
    fix r :: nat assume "r < 256" "0 < r" "r < 0x10 \<or> 0x11 + 2 * max_value < r"
    then show "snd (ioapic_run (pre @ ?es) d) (of_nat r) = snd d (of_nat r)"
      using at [of r] by (auto simp del: upt_Suc)
  qed
qed

theorem ioapic_routes_witness:
  "\<exists>ops. ioapic_Init 0 0x170011 \<lparr>io_id = 0, io_address = 0xfec00000, interrupt_base = 0\<rparr> = Inr ops \<and>
     snd (ioapic_run ops (0, \<lambda>_. 0x10000)) 0x10 = 0x10020 \<and>
     unat (snd (ioapic_run ops (0, \<lambda>_. 0x10000)) (of_nat (0x10 + 2 * 4))) = 36"
proof -
  let ?io = "\<lparr>io_id = 0, io_address = 0xfec00000, interrupt_base = 0\<rparr> :: IoApicX64"
  have "23 = unat (drop_bit 16 0x170011 AND 0xFF :: u32)" by simp
  from ioapic_routes [where io = ?io and id_val = 0 and d = "(0, \<lambda>_. 0x10000)", OF _ this] obtain ops where
    init: "ioapic_Init 0 0x170011 ?io = Inr ops" and
    rts: "\<forall>i \<le> 23. snd (ioapic_run ops (0, \<lambda>_. 0x10000)) (of_nat (0x11 + 2 * i)) = 0 \<and>
       (if interrupt_base ?io = 0 \<and> i = 0 then snd (ioapic_run ops (0, \<lambda>_. 0x10000)) 0x10 = 0x10020
        else unat (snd (ioapic_run ops (0, \<lambda>_. 0x10000)) (of_nat (0x10 + 2 * i))) = 32 + i + unat (interrupt_base ?io))"
    by auto
  show ?thesis using init rts [rule_format, of 0] rts [rule_format, of 4] by simp
qed

end
