(* ===== verification/Acpi.thy ===== *)
theory Acpi
  imports Interrupts
begin

text \<open>
  Discovery of the machine at boot: the ACPI tables of \<^verbatim>\<open>x64/acpi-x64.cc\<close> (RSDP, RSDT, MADT, HPET)
  and the event timer of \<^verbatim>\<open>x64/hpet-x64.cc\<close> from which all times of the kernel come. Memory is a
  function from addresses to bytes. The loops over tables trust length fields that nothing
  checks, so they are partial functions; the lemmas show that they return on well-formed
  tables, what they find there, and that an entry of length zero makes the MADT loop endless.
\<close>

section \<open>The event timer\<close>

record HpetX64 =
  hpet_address :: u64
  hpet_frequency :: u64
  us_div :: u64

definition kCounterOffset :: u64 where "kCounterOffset = 0xf0"
definition kConfigurationEnable :: u64 where "kConfigurationEnable = 1"

definition mk_HpetX64 :: "phys_mem \<Rightarrow> u64 \<Rightarrow> (phys_mem \<times> HpetX64) res" where
  "mk_HpetX64 mem address =
     res_bind (rt_assert (address \<noteq> 0) ''registers_'') (\<lambda>_.
     let period = mem_read mem (address + 4) 4 :: u32 in
     res_bind (rt_assert (0 \<noteq> period) ''0 != period'') (\<lambda>_.
     res_bind (rt_assert (period \<le> 0x05F5E100) ''period <= 0x05F5E100'') (\<lambda>_.
     let frequency = 1000000000000000 div ucast period :: u64 in
     res_bind (rt_assert (frequency \<ge> 1000000) ''frequency_ >= 1000000'') (\<lambda>_.
     let us = frequency div 1000000 in
     res_bind (rt_assert (us > 0) ''us_div_ > 0'') (\<lambda>_.
     let mem1 = write_bytes mem (address + kCounterOffset) (le_bytes 8 (0 :: u64));
         mem2 = write_bytes mem1 (address + 16)
           (le_bytes 8 (mem_read mem1 (address + 16) 8 OR kConfigurationEnable :: u64))
     in Inr (mem2, \<lparr>hpet_address = address, hpet_frequency = frequency, us_div = us\<rparr>))))))"

definition ReadMicroseconds :: "u64 \<Rightarrow> HpetX64 \<Rightarrow> u64" where
  "ReadMicroseconds counter h = counter div us_div h"

definition hpet_timer_config :: "u8 \<Rightarrow> HpetX64 \<Rightarrow> u64" where
  "hpet_timer_config timer_index h = hpet_address h + 0x100 + 32 * ucast timer_index"

lemma mk_HpetX64_div:
  assumes "mk_HpetX64 mem a = Inr (mem', h)"
  defines "P \<equiv> unat (mem_read mem (a + 4) 4 :: u32)"
  shows "0 < P" "P \<le> 10 ^ 8" "unat (us_div h) = 10 ^ 9 div P"
proof -
  let ?p = "mem_read mem (a + 4) 4 :: u32"
  have p: "?p \<noteq> 0" "?p \<le> 0x05F5E100" and d: "us_div h = 1000000000000000 div ucast ?p div 1000000"
    using assms(1) by (auto simp: mk_HpetX64_def Let_def res_bind_Inr_iff)
  show P: "0 < P" "P \<le> 10 ^ 8" using p by (auto simp: P_def word_le_nat_alt unat_gt_0)
  have "unat (ucast ?p :: u64) = P" by (simp add: P_def unat_ucast_up)
  then have "unat (us_div h) = 10 ^ 15 div P div 10 ^ 6" by (simp add: d unat_div)
  also have "\<dots> = 10 ^ 9 * 10 ^ 6 div (P * 10 ^ 6)" by (simp add: div_mult2_eq [symmetric])
  also have "\<dots> = 10 ^ 9 div P" by (rule div_mult_mult2) simp
  finally show "unat (us_div h) = 10 ^ 9 div P" .
qed

lemma counter_time_bounds:
  fixes c P D :: nat
  assumes "0 < P" "P \<le> 10 ^ 8" "D = 10 ^ 9 div P"
  shows "c * P div 10 ^ 9 \<le> c div D" "10 * (c div D) * 10 ^ 9 \<le> 11 * (c * P)" "10 \<le> D"
proof -
  show D: "10 \<le> D" using assms div_le_mono2 [of P "10 ^ 8" "10 ^ 9"] by simp
  have lo: "P * D \<le> 10 ^ 9" using assms(3) by simp
  have hi: "10 ^ 9 \<le> P * D + P"
    unfolding assms(3) using mult_div_mod_eq [of P "10 ^ 9"] mod_less_divisor [OF assms(1), of "10 ^ 9"] by linarith
  have "c * P div 10 ^ 9 \<le> c * P div (P * D)" using lo D assms(1) by (intro div_le_mono2) auto
  also have "\<dots> = c div D" using assms(1) by (simp add: mult.commute [of c])
  finally show "c * P div 10 ^ 9 \<le> c div D" .
  define u where "u = c div D"
  have uD: "u * D \<le> c" by (simp add: u_def)
  moreover have "u * 10 \<le> u * D" using D by (rule mult_left_mono) simp
  ultimately have u10: "10 * u \<le> c" by linarith
  have "10 * u * 10 ^ 9 \<le> 10 * u * (P * D + P)" using hi by (intro mult_left_mono) auto
  also have "\<dots> = 10 * P * (u * D) + P * (10 * u)" by (simp add: algebra_simps)
  also have "\<dots> \<le> 10 * P * c + P * c" using uD u10 by (intro add_mono mult_left_mono) auto
  finally show "10 * (c div D) * 10 ^ 9 \<le> 11 * (c * P)" by (simp add: u_def algebra_simps)
qed

text \<open>
  C36. The clock of the kernel. A HPET whose constructor returns has a period of at most 100 ns,
  its divisor is \<open>10^9\<close> divided by the period in femtoseconds and at least 10, and the
  microseconds that \<open>ReadMicroseconds\<close> reports never lie below the elapsed time and at most
  a tenth above it; they do not decrease with the counter.
\<close>

theorem hpet_time_bounds:
  assumes "mk_HpetX64 mem a = Inr (mem', h)"
  defines "P \<equiv> unat (mem_read mem (a + 4) 4 :: u32)"
  shows "unat (us_div h) = 10 ^ 9 div P \<and> 10 \<le> unat (us_div h) \<and>
    unat c * P div 10 ^ 9 \<le> unat (ReadMicroseconds c h) \<and>
    10 * unat (ReadMicroseconds c h) * 10 ^ 9 \<le> 11 * (unat c * P) \<and>
    (c \<le> c' \<longrightarrow> ReadMicroseconds c h \<le> ReadMicroseconds c' h)"
proof -
  note P = mk_HpetX64_div [OF assms(1), folded P_def]
  have r: "unat (ReadMicroseconds x h) = unat x div unat (us_div h)" for x
    by (simp add: ReadMicroseconds_def unat_div)
  then have "c \<le> c' \<longrightarrow> ReadMicroseconds c h \<le> ReadMicroseconds c' h"
    by (simp add: word_le_nat_alt div_le_mono)
  with counter_time_bounds(1,2) [OF P, of "unat c"] counter_time_bounds(3) [OF P] P(3) show ?thesis by (simp only: r)
qed

definition sample_hpet :: phys_mem where
  "sample_hpet a = (if a = 0xfed00004 then 0x7F else if a = 0xfed00005 then 0xB2 else
     if a = 0xfed00006 then 0x29 else if a = 0xfed00007 then 0x04 else 0)"

theorem hpet_time_bounds_witness:
  "\<exists>mem' h. mk_HpetX64 sample_hpet 0xfed00000 = Inr (mem', h) \<and> unat (us_div h) = 14 \<and>
     10 * unat (ReadMicroseconds 14318180 h) * 10 ^ 9 \<le> 11 * (14318180 * 69841535)"
proof -
  have p: "mem_read sample_hpet (0xfed00000 + 4) 4 = (69841535 :: u32)"
    by (simp add: mem_read_def sample_hpet_def upt_rec)
  then obtain mem' h where h: "mk_HpetX64 sample_hpet 0xfed00000 = Inr (mem', h)"
    unfolding mk_HpetX64_def p by (simp add: Let_def del: write_bytes.simps le_bytes.simps)
  have "unat (us_div h) = 14 \<and> 10 * unat (ReadMicroseconds 14318180 h) * 10 ^ 9 \<le> 11 * (14318180 * 69841535)"
    using hpet_time_bounds [OF h, of 14318180 0] unfolding p by simp
  with h show ?thesis by blast
qed

section \<open>The tables\<close>

record AcpiCPU =
  cpu_id :: u32
  local_apic_id :: u32
  cpu_enabled :: bool

record AcpiX64 =
  acpi_local_apic :: "LocalApicX64 option"
  acpi_hpet :: "HpetX64 option"
  acpi_cpus :: "AcpiCPU list"
  acpi_io_apics :: "IoApicX64 list"
  acpi_cpu_count :: u32

definition TableUint32 :: "string \<Rightarrow> u32" where
  "TableUint32 str = le_word (map of_char (take 4 str))"

definition parse_madt_entry :: "phys_mem \<Rightarrow> u64 \<Rightarrow> AcpiX64 \<Rightarrow> AcpiX64 res" where
  "parse_madt_entry mem p st =
     (if mem p = 0 then
        Inr (st\<lparr>acpi_cpus := acpi_cpus st @ [\<lparr>cpu_id = ucast (mem (p + 2)), local_apic_id = ucast (mem (p + 3)),
                 cpu_enabled = (1 = (mem_read mem (p + 4) 4 :: u32) AND 1)\<rparr>],
               acpi_cpu_count := acpi_cpu_count st + 1\<rparr>)
      else if mem p = 1 then
        res_bind (mk_IoApicX64 (ucast (mem (p + 2))) (ucast (mem_read mem (p + 4) 4 :: u32)) (mem_read mem (p + 8) 4)) (\<lambda>io.
          Inr (st\<lparr>acpi_io_apics := acpi_io_apics st @ [io]\<rparr>))
      else Inr st)"

partial_function (option) parse_madt :: "phys_mem \<Rightarrow> u64 \<Rightarrow> u64 \<Rightarrow> AcpiX64 \<Rightarrow> AcpiX64 res option" where
  "parse_madt mem p end' st =
     (if p < end' then
        (case parse_madt_entry mem p st of
           Inl e \<Rightarrow> Some (Inl e)
         | Inr st' \<Rightarrow> parse_madt mem (p + ucast (mem (p + 1))) end' st')
      else Some (Inr st))"

definition ParseTableAPIC :: "phys_mem \<Rightarrow> u64 \<Rightarrow> AcpiX64 \<Rightarrow> AcpiX64 res option" where
  "ParseTableAPIC mem header st =
     (let localApicAddr = mem_read mem (header + 36) 4 :: u32 in
      if header = 0 then Some (Inl (AssertFailed ''header''))
      else if localApicAddr = 0 then Some (Inl (AssertFailed ''header->localApicAddr''))
      else case mk_LocalApicX64 (ucast localApicAddr) of
        Inl e \<Rightarrow> Some (Inl e)
      | Inr la \<Rightarrow> parse_madt mem (header + 44) (header + ucast (mem_read mem (header + 4) 4 :: u32))
                    (st\<lparr>acpi_local_apic := Some la\<rparr>))"

definition ParseTableHPET :: "u64 \<Rightarrow> phys_mem \<times> AcpiX64 \<Rightarrow> (phys_mem \<times> AcpiX64) res" where
  "ParseTableHPET header s =
     (case s of (mem, st) \<Rightarrow>
      res_bind (rt_assert (header \<noteq> 0) ''header'') (\<lambda>_.
        if acpi_hpet st \<noteq> None then Inr (mem, st)
        else let address = mem_read mem (header + 44) 8 :: u64 in
          res_bind (rt_assert (address \<noteq> 0) ''address'') (\<lambda>_.
          res_bind (mk_HpetX64 mem address) (\<lambda>(mem', h). Inr (mem', st\<lparr>acpi_hpet := Some h\<rparr>)))))"

definition ParseDT :: "u64 \<Rightarrow> phys_mem \<times> AcpiX64 \<Rightarrow> (phys_mem \<times> AcpiX64) res option" where
  "ParseDT ptr s =
     (case s of (mem, st) \<Rightarrow>
      if ptr = 0 then Some (Inl (AssertFailed ''ptr''))
      else let signature = mem_read mem ptr 4 :: u32 in
        if signature = TableUint32 ''APIC'' then
          map_option (\<lambda>r. res_bind r (\<lambda>st'. Inr (mem, st'))) (ParseTableAPIC mem ptr st)
        else if signature = TableUint32 ''HPET'' then Some (ParseTableHPET ptr s)
        else Some (Inr s))"

partial_function (option) parse_rsdt ::
    "u64 \<Rightarrow> u64 \<Rightarrow> phys_mem \<times> AcpiX64 \<Rightarrow> (phys_mem \<times> AcpiX64) res option" where
  "parse_rsdt p end' s =
     (if p < end' then
        (case ParseDT (ucast (mem_read (fst s) p 4 :: u32)) s of
           None \<Rightarrow> None
         | Some r \<Rightarrow> (case r of Inl e \<Rightarrow> Some (Inl e) | Inr s' \<Rightarrow> parse_rsdt (p + 4) end' s'))
      else Some (Inr s))"

definition ParseRSDT :: "u64 \<Rightarrow> phys_mem \<times> AcpiX64 \<Rightarrow> (phys_mem \<times> AcpiX64) res option" where
  "ParseRSDT ptr s =
     (if ptr = 0 then Some (Inl (AssertFailed ''ptr''))
      else parse_rsdt (ptr + 36) (ptr + ucast (mem_read (fst s) (ptr + 4) 4 :: u32)) s)"

definition ParseRSDP :: "u64 \<Rightarrow> phys_mem \<times> AcpiX64 \<Rightarrow> (bool \<times> phys_mem \<times> AcpiX64) res option" where
  "ParseRSDP p s =
     (let mem = fst s; rev = mem (p + 15); rsdt_addr = mem_read mem (p + 16) 4 :: u32 in
      if sum_list (map (\<lambda>i. mem (p + of_nat i)) [0..<20]) \<noteq> 0 then Some (Inr (False, s))
      else if rev \<noteq> 0 \<and> rev \<noteq> 2 then Some (Inr (False, s))
      else if rsdt_addr = 0 then Some (Inl (AssertFailed ''rsdt_addr''))
      else map_option (\<lambda>r. res_bind r (\<lambda>s'. Inr (True, s'))) (ParseRSDT (ucast rsdt_addr) s))"

partial_function (option) scan_rsdp ::
    "u64 \<Rightarrow> phys_mem \<times> AcpiX64 \<Rightarrow> (phys_mem \<times> AcpiX64) res option" where
  "scan_rsdp p s =
     (if p < 0x1000000 then
        if mem_read (fst s) p 8 = (0x2052545020445352 :: u64) then
          (case ParseRSDP p s of
             None \<Rightarrow> None
           | Some r \<Rightarrow> (case r of
               Inl e \<Rightarrow> Some (Inl e)
             | Inr bs \<Rightarrow> if fst bs then Some (Inr (snd bs)) else scan_rsdp (p + 16) (snd bs)))
        else scan_rsdp (p + 16) s
      else Some (Inr s))"

definition acpi_Init :: "phys_mem \<times> AcpiX64 \<Rightarrow> (phys_mem \<times> AcpiX64) res option" where
  "acpi_Init s = map_option (\<lambda>r. res_bind r (\<lambda>s'.
     if acpi_io_apics (snd s') = [] then Inl (Aborted ''Unable to find IO APIC to setup interrupts.'')
     else Inr s')) (scan_rsdp 0xe0000 s)"

definition mk_AcpiX64 :: "phys_mem \<Rightarrow> (phys_mem \<times> AcpiX64) res option" where
  "mk_AcpiX64 mem =
     map_option (\<lambda>r. res_bind r (\<lambda>s.
       res_bind (rt_assert (acpi_local_apic (snd s) \<noteq> None) ''local_apic_'') (\<lambda>_.
       if acpi_hpet (snd s) = None then Inl (Aborted ''Unable to find HPET device.'') else Inr s)))
     (acpi_Init (mem, \<lparr>acpi_local_apic = None, acpi_hpet = None, acpi_cpus = [], acpi_io_apics = [], acpi_cpu_count = 0\<rparr>))"

definition BootTimeMicroseconds :: "u64 \<Rightarrow> AcpiX64 \<Rightarrow> u64 res" where
  "BootTimeMicroseconds counter st = (case acpi_hpet st of
       None \<Rightarrow> Inl (OutOfBounds ''hpet_'') | Some h \<Rightarrow> Inr (ReadMicroseconds counter h))"

section \<open>Well-formed tables\<close>

datatype madt_entry = MLocalApic u8 u8 u32 | MIoApic u8 u32 u32 | MOther u8 "u8 list"

fun madt_bytes :: "madt_entry \<Rightarrow> u8 list" where
  "madt_bytes (MLocalApic processor apic flags) = [0, 8, processor, apic] @ le_bytes 4 flags"
| "madt_bytes (MIoApic ident address gsi) = [1, 12, ident, 0] @ le_bytes 4 address @ le_bytes 4 gsi"
| "madt_bytes (MOther type body) = [type, of_nat (length body + 2)] @ body"

fun madt_entry_ok :: "madt_entry \<Rightarrow> bool" where
  "madt_entry_ok (MLocalApic _ _ _) = True"
| "madt_entry_ok (MIoApic _ address _) = (address \<noteq> 0)"
| "madt_entry_ok (MOther type body) = (type \<ge> 2 \<and> length body < 254)"

definition madt_cpus :: "madt_entry list \<Rightarrow> AcpiCPU list" where
  "madt_cpus es = concat (map (\<lambda>e. case e of
     MLocalApic processor apic flags \<Rightarrow> [\<lparr>cpu_id = ucast processor, local_apic_id = ucast apic, cpu_enabled = (1 = flags AND 1)\<rparr>]
   | _ \<Rightarrow> []) es)"

definition madt_io_apics :: "madt_entry list \<Rightarrow> IoApicX64 list" where
  "madt_io_apics es = concat (map (\<lambda>e. case e of
     MIoApic ident address gsi \<Rightarrow> [\<lparr>io_id = ucast ident, io_address = ucast address, interrupt_base = gsi\<rparr>]
   | _ \<Rightarrow> []) es)"

primrec mem_holds :: "phys_mem \<Rightarrow> u64 \<Rightarrow> u8 list \<Rightarrow> bool" where
  "mem_holds mem a [] = True"
| "mem_holds mem a (b # bs) = (mem a = b \<and> mem_holds mem (a + 1) bs)"

lemma mem_holds_append:
  "mem_holds mem a (xs @ ys) \<longleftrightarrow> mem_holds mem a xs \<and> mem_holds mem (a + of_nat (length xs)) ys"
  by (induction xs arbitrary: a) (auto simp: add.assoc)

lemma mem_read_Suc: "mem_read mem a (Suc n) = ucast (mem a) OR push_bit 8 (mem_read mem (a + 1) n)"
proof -
  have "map (\<lambda>i. mem (a + of_nat i)) [0..<Suc n] = mem a # map (\<lambda>i. mem (a + 1 + of_nat i)) [0..<n]"
    by (rule nth_equalityI) (auto simp: nth_Cons' add.assoc simp del: upt_Suc)
  then show ?thesis unfolding mem_read_def by (simp del: upt_Suc)
qed

lemma mem_holds_read: "mem_holds mem a bs \<Longrightarrow> mem_read mem a (length bs) = le_word bs"
  by (induction bs arbitrary: a) (simp_all add: mem_read_Suc, simp add: mem_read_def)

lemma mem_holds_u32: "mem_holds mem a (le_bytes 4 (w :: u32)) \<Longrightarrow> mem_read mem a 4 = w"
  using mem_holds_read [of mem a "le_bytes 4 w", where 'a = 32] by simp

definition madt_apply :: "madt_entry list \<Rightarrow> AcpiX64 \<Rightarrow> AcpiX64" where
  "madt_apply es st = st\<lparr>acpi_cpus := acpi_cpus st @ madt_cpus es,
     acpi_io_apics := acpi_io_apics st @ madt_io_apics es,
     acpi_cpu_count := acpi_cpu_count st + of_nat (length (madt_cpus es))\<rparr>"

lemma madt_apply_simps:
  "madt_apply [] st = st" "madt_apply (e # es) st = madt_apply es (madt_apply [e] st)"
  by (simp_all add: madt_apply_def madt_cpus_def madt_io_apics_def)

lemma madt_bytes_length: "madt_entry_ok e \<Longrightarrow> 2 \<le> length (madt_bytes e) \<and> length (madt_bytes e) < 256"
  by (cases e) auto

lemma parse_madt_entry_ok:
  assumes holds: "mem_holds mem p (madt_bytes e)" and ok: "madt_entry_ok e"
  shows "parse_madt_entry mem p st = Inr (madt_apply [e] st)"
    "ucast (mem (p + 1)) = (of_nat (length (madt_bytes e)) :: u64)"
proof -
  have off: "p + 1 + 1 = p + 2" "p + 2 + 1 = p + 3" "p + 3 + 1 = p + 4" "p + 4 + 4 = p + 8"
    by (simp_all add: add.assoc)
  show "parse_madt_entry mem p st = Inr (madt_apply [e] st)"
  proof (cases e)
    case (MLocalApic pr ap fl)
    with holds have "mem_holds mem (p + 4) (le_bytes 4 fl)" "mem p = 0" "mem (p + 2) = pr" "mem (p + 3) = ap"
      by (simp_all add: off del: le_bytes.simps)
    then show ?thesis
      using MLocalApic by (simp add: parse_madt_entry_def mem_holds_u32 madt_apply_def madt_cpus_def madt_io_apics_def)
  next
    case (MIoApic i a g)
    with holds have "mem_holds mem (p + 4) (le_bytes 4 a)" "mem_holds mem (p + 8) (le_bytes 4 g)" "mem p = 1" "mem (p + 2) = i"
      by (simp_all add: off mem_holds_append del: le_bytes.simps)
    moreover have "(ucast a :: u64) \<noteq> 0" using ok MIoApic by (simp add: word_unat_eq_iff unat_ucast_up)
    ultimately show ?thesis
      using MIoApic by (simp add: parse_madt_entry_def mk_IoApicX64_def mem_holds_u32 madt_apply_def madt_cpus_def madt_io_apics_def)
  next
    case (MOther t body)
    with holds ok have "mem p \<noteq> 0" "mem p \<noteq> 1" by (auto simp: word_le_nat_alt)
    then show ?thesis
      using MOther by (simp add: parse_madt_entry_def madt_apply_def madt_cpus_def madt_io_apics_def)
  qed
  have "mem (p + 1) = of_nat (length (madt_bytes e))" using holds by (cases e) auto
  moreover have "unat (of_nat (length (madt_bytes e)) :: u8) = length (madt_bytes e)"
    using madt_bytes_length [OF ok] by (intro unat_of_nat_small) simp
  ultimately show "ucast (mem (p + 1)) = (of_nat (length (madt_bytes e)) :: u64)"
    by (metis of_nat_unat)
qed

lemma parse_madt_ok:
  assumes "mem_holds mem p (concat (map madt_bytes es))" "list_all madt_entry_ok es"
    and "unat p + length (concat (map madt_bytes es)) < 2 ^ 64"
  shows "parse_madt mem p (p + of_nat (length (concat (map madt_bytes es)))) st = Some (Inr (madt_apply es st))"
  using assms
proof (induction es arbitrary: p st)
  case Nil
  then show ?case by (subst parse_madt.simps) (simp add: madt_apply_simps)
next
  case (Cons e es)
  let ?n = "length (madt_bytes e)" and ?m = "length (concat (map madt_bytes es))"
  have e: "mem_holds mem p (madt_bytes e)" "madt_entry_ok e"
    and rest: "mem_holds mem (p + of_nat ?n) (concat (map madt_bytes es))" "list_all madt_entry_ok es"
    using Cons.prems by (auto simp: mem_holds_append)
  have n: "2 \<le> ?n" "?n < 256" using madt_bytes_length [OF e(2)] by auto
  have un: "unat (of_nat ?n :: u64) = ?n" "unat (of_nat (?n + ?m) :: u64) = ?n + ?m"
    using Cons.prems(3) by (intro unat_of_nat_small; simp)+
  have p: "unat (p + of_nat ?n) = unat p + ?n" "unat (p + of_nat (?n + ?m)) = unat p + (?n + ?m)"
    using Cons.prems(3) un by (subst unat_add_no_wrap; simp del: of_nat_add)+
  then have less: "p < p + of_nat (?n + ?m)" using n by (simp only: word_less_nat_alt)
  have "parse_madt mem (p + of_nat ?n) (p + of_nat ?n + of_nat ?m) (madt_apply [e] st) =
      Some (Inr (madt_apply es (madt_apply [e] st)))"
    using Cons.IH [OF rest, of "madt_apply [e] st"] Cons.prems(3) p(1) by simp
  moreover have "p + of_nat ?n + of_nat ?m = p + of_nat (?n + ?m)" by (simp add: add.assoc)
  ultimately show ?case
    using less parse_madt_entry_ok [OF e] madt_apply_simps(2) [of e es st]
    by (subst parse_madt.simps) simp
qed

text \<open>
  C29. \<open>AcpiX64::ParseTableAPIC\<close> on a well-formed MADT returns, and finds exactly the processors and
  the I/O APICs that the table lists, in its order, whatever other entries are between them;
  the number of processors it counts is the number of their entries.
\<close>

theorem madt_roundtrip:
  assumes "mem_holds mem (header + 44) (concat (map madt_bytes es))" "list_all madt_entry_ok es"
    and "mem_read mem (header + 4) 4 = (of_nat (44 + length (concat (map madt_bytes es))) :: u32)"
    and "mem_read mem (header + 36) 4 = (lapic :: u32)" "lapic \<noteq> 0"
    and "0 < unat header" "unat header < 2 ^ 32" "44 + length (concat (map madt_bytes es)) < 2 ^ 32"
  shows "\<exists>st'. ParseTableAPIC mem header st = Some (Inr st') \<and>
    acpi_local_apic st' = Some \<lparr>local_apic_address = ucast lapic, bus_freq = 0\<rparr> \<and>
    acpi_cpus st' = acpi_cpus st @ madt_cpus es \<and> acpi_io_apics st' = acpi_io_apics st @ madt_io_apics es \<and>
    acpi_cpu_count st' = acpi_cpu_count st + of_nat (length (madt_cpus es))"
proof -
  let ?n = "length (concat (map madt_bytes es))"
  have "unat (ucast (of_nat (44 + ?n) :: u32) :: u64) = unat (of_nat (44 + ?n) :: u64)"
    using assms(8) by (subst unat_ucast_up) (auto simp: unat_of_nat_small simp del: of_nat_add)
  then have len: "(ucast (of_nat (44 + ?n) :: u32) :: u64) = of_nat (44 + ?n)" by (simp only: word_unat_eq_iff)
  have end': "header + of_nat (44 + ?n) = header + 44 + of_nat ?n" by (simp add: add.assoc)
  have "unat (header + 44) = unat header + 44" using assms(7) by (subst unat_add_no_wrap) auto
  then have "parse_madt mem (header + 44) (header + 44 + of_nat ?n) (st\<lparr>acpi_local_apic := la\<rparr>) =
      Some (Inr (madt_apply es (st\<lparr>acpi_local_apic := la\<rparr>)))" for la
    using assms(7,8) by (intro parse_madt_ok [OF assms(1,2)]) simp
  moreover have "header \<noteq> 0" "(ucast lapic :: u64) \<noteq> 0"
    using assms(5,6) by (auto simp: word_unat_eq_iff unat_ucast_up)
  ultimately show ?thesis
    using assms(4,5) unfolding ParseTableAPIC_def assms(3) len end' mk_LocalApicX64_def
    by (simp add: madt_apply_def)
qed

definition sample_madt :: "madt_entry list" where
  "sample_madt = [MLocalApic 0 0 1, MOther 2 [0, 9, 9, 0, 0, 0, 0, 0], MIoApic 1 0xfec00000 0, MLocalApic 1 2 0]"

lemma mem_holds_nth: "(\<And>i. i < length bs \<Longrightarrow> mem (a + of_nat i) = bs ! i) \<Longrightarrow> mem_holds mem a bs"
proof (induction bs arbitrary: a)
  case (Cons b bs)
  from Cons.prems [of 0] have "mem a = b" by simp
  moreover have "mem_holds mem (a + 1) bs"
    using Cons.prems [of "Suc i" for i] by (intro Cons.IH) (simp add: add.assoc)
  ultimately show ?case by simp
qed simp

lemma mem_holds_write_bytes:
  assumes "unat a + length bs < 2 ^ 64"
  shows "mem_holds (write_bytes mem a bs) a bs"
proof (rule mem_holds_nth)
  fix i assume i: "i < length bs"
  have "unat (of_nat i :: u64) = i" using i assms by (intro unat_of_nat_small) simp
  then have "unat (a + of_nat i) = unat a + i" using i assms by (subst unat_add_no_wrap) auto
  with i show "write_bytes mem a bs (a + of_nat i) = bs ! i" by (simp add: write_bytes_at [OF assms])
qed

definition sample_madt_mem :: phys_mem where
  "sample_madt_mem = write_bytes (\<lambda>_. 0) 0x1000 (replicate 4 0 @ le_bytes 4 (82 :: u32) @ replicate 28 0 @
     le_bytes 4 (0xfee00000 :: u32) @ replicate 4 0 @ concat (map madt_bytes sample_madt))"

theorem madt_roundtrip_witness:
  "\<exists>st'. ParseTableAPIC sample_madt_mem 0x1000
      \<lparr>acpi_local_apic = None, acpi_hpet = None, acpi_cpus = [], acpi_io_apics = [], acpi_cpu_count = 0\<rparr> = Some (Inr st') \<and>
    acpi_cpus st' = [\<lparr>cpu_id = 0, local_apic_id = 0, cpu_enabled = True\<rparr>, \<lparr>cpu_id = 1, local_apic_id = 2, cpu_enabled = False\<rparr>] \<and>
    acpi_io_apics st' = [\<lparr>io_id = 1, io_address = 0xfec00000, interrupt_base = 0\<rparr>] \<and> acpi_cpu_count st' = 2"
proof -
  let ?st = "\<lparr>acpi_local_apic = None, acpi_hpet = None, acpi_cpus = [], acpi_io_apics = [], acpi_cpu_count = 0\<rparr>"
  have len: "length (concat (map madt_bytes sample_madt)) = 38" by (simp add: sample_madt_def)
  have "mem_holds sample_madt_mem 0x1000 (replicate 4 0 @ le_bytes 4 (82 :: u32) @ replicate 28 0 @
     le_bytes 4 (0xfee00000 :: u32) @ replicate 4 0 @ concat (map madt_bytes sample_madt))"
    unfolding sample_madt_mem_def by (rule mem_holds_write_bytes) (simp add: len)
  then have h: "mem_holds sample_madt_mem (0x1000 + 44) (concat (map madt_bytes sample_madt))"
    "mem_holds sample_madt_mem (0x1000 + 4) (le_bytes 4 (82 :: u32))"
    "mem_holds sample_madt_mem (0x1000 + 36) (le_bytes 4 (0xfee00000 :: u32))"
    by (simp_all only: mem_holds_append length_replicate length_le_bytes) (simp_all del: le_bytes.simps)
  have "list_all madt_entry_ok sample_madt" by (simp add: sample_madt_def word_le_nat_alt)
  from madt_roundtrip [OF h(1) this _ mem_holds_u32 [OF h(3)], of ?st] mem_holds_u32 [OF h(2)] len show ?thesis
    by (auto simp: sample_madt_def madt_cpus_def madt_io_apics_def)
qed

text \<open>
  An entry of a type the loop skips, with length zero, is where \<open>p\<close> stops moving.
\<close>

lemma madt_diverges:
  assumes "p < end'" "mem p \<ge> 2" "mem (p + 1) = 0"
  shows "parse_madt mem p end' st = None"
proof (rule ccontr)
  assume "parse_madt mem p end' st \<noteq> None"
  then obtain y where y: "parse_madt mem p end' st = Some y" by blast
  have "m = mem \<longrightarrow> \<not> (p < e \<and> mem p \<ge> 2 \<and> mem (p + 1) = 0)" if "parse_madt m p e s = Some y" for m p e s y
    using that
  proof (rule parse_madt.raw_induct [rotated])
    fix f m p e s y
    assume hyp: "\<And>m p e s y. f m p e s = Some y \<Longrightarrow> m = mem \<longrightarrow> \<not> (p < e \<and> mem p \<ge> 2 \<and> mem (p + 1) = 0)"
      and body: "(if p < e then
        (case parse_madt_entry m p s of Inl x \<Rightarrow> Some (Inl x) | Inr s' \<Rightarrow> f m (p + ucast (m (p + 1))) e s')
        else Some (Inr s)) = Some y"
    show "m = mem \<longrightarrow> \<not> (p < e \<and> mem p \<ge> 2 \<and> mem (p + 1) = 0)"
    proof (intro impI notI)
      assume m: "m = mem" and st: "p < e \<and> mem p \<ge> 2 \<and> mem (p + 1) = 0"
      then have "mem p \<noteq> 0" "mem p \<noteq> 1" by (auto simp: word_le_nat_alt)
      with body m st have "f mem p e s = Some y" by (simp add: parse_madt_entry_def)
      with hyp st show False by blast
    qed
  qed
  with y assms show False by blast
qed

end
