(* ===== verification/Kernel.thy ===== *)
theory Kernel
  imports EventLoop Acpi Initrd
begin

text \<open>
  The top of the kernel: the engines and their ticks (\<^verbatim>\<open>src/src/kernel/engines.h\<close>, \<^verbatim>\<open>engine.cc\<close>), the
  arch-independent platform (\<^verbatim>\<open>platform.h\<close>), V8's task queues (\<^verbatim>\<open>v8platform.cc\<close>), the interrupt and
  exception entry points (\<^verbatim>\<open>irqs.cc\<close>) and the boot of the first processor (\<^verbatim>\<open>kernel-main.cc\<close>).
  What waits for the clock takes the successive readings of the tick counter as a function.
  The lemmas at the end compose the interrupt hardware, the dispatcher and the message queues.
\<close>

section \<open>Engines\<close>

record Engines =
  engines_cpu_count :: u32
  all_engines :: "Engine list"
  engines_execution :: "nat list"
  buffers_size :: u64
  buffers_count :: u64
  non_isolate_ticks :: u64
  global_ticks_counter :: u64

definition add_engine :: "nat \<Rightarrow> Engines \<times> EngineThread list \<Rightarrow> Engines \<times> EngineThread list" where
  "add_engine i s = (case s of (g, es) \<Rightarrow>
     if i = 9999 then (g\<lparr>all_engines := all_engines g @ [mk_Engine SERVICE]\<rparr>, es)
     else case threads_Create IDLE (mk_Engine EXECUTION) es of (t, e, es') \<Rightarrow>
       (g\<lparr>all_engines := all_engines g @ [e], engines_execution := engines_execution g @ [length (all_engines g)]\<rparr>, es'))"

definition mk_Engines :: "u32 \<Rightarrow> EngineThread list \<Rightarrow> (Engines \<times> EngineThread list) res" where
  "mk_Engines cpu_count es =
     res_bind (rt_assert (cpu_count \<ge> 1) ''cpu_count >= 1'') (\<lambda>_.
     let s = fold add_engine [0..<unat cpu_count]
           (\<lparr>engines_cpu_count = cpu_count, all_engines = [], engines_execution = [], buffers_size = 0, buffers_count = 0,
             non_isolate_ticks = 0, global_ticks_counter = 1\<rparr>, es) in
     res_bind (rt_assert (all_engines (fst s) \<noteq> []) ''engines_.size() > 0'') (\<lambda>_.
     res_bind (rt_assert (engines_execution (fst s) \<noteq> []) ''engines_execution_.size() > 0'') (\<lambda>_. Inr s)))"

definition execution_engine :: "u32 \<Rightarrow> Engines \<Rightarrow> nat res" where
  "execution_engine index g =
     res_bind (rt_assert (unat index < length (engines_execution g)) ''index < engines_execution_.size()'') (\<lambda>_.
       Inr (engines_execution g ! unat index))"

definition is_execution_engine :: "u32 \<Rightarrow> Engines \<Rightarrow> bool res" where
  "is_execution_engine engineid g =
     res_bind (rt_assert (unat engineid < length (all_engines g)) ''engineid < engines_.size()'') (\<lambda>_.
       Inr (eng_type (all_engines g ! unat engineid) = EXECUTION))"

definition cpu_engine :: "u32 \<Rightarrow> Engines \<Rightarrow> Engine res" where
  "cpu_engine cpuid g =
     res_bind (rt_assert (cpuid < engines_cpu_count g) ''cpuid < cpu_count_'') (\<lambda>_.
     res_bind (rt_assert (unat cpuid < length (all_engines g)) ''cpuid < engines_.size()'') (\<lambda>_.
       Inr (all_engines g ! unat cpuid)))"

definition loader_name :: "u8 list" where
  "loader_name = map of_char ''__loader''"

definition Startup :: "Initrd \<Rightarrow> transport \<Rightarrow> Engines \<Rightarrow> EngineThread list \<Rightarrow> (nat \<times> Engines \<times> EngineThread list) res" where
  "Startup rd data g es =
     res_bind (rt_assert (engines_execution g \<noteq> []) ''engines_execution_.size() > 0'') (\<lambda>_.
     let first = hd (engines_execution g) in
     case threads_Create DEFAULT (all_engines g ! first) es of (st, e, es1) \<Rightarrow>
     let startup_file = (case runtime_index_name rd of None \<Rightarrow> InitrdFile_default | Some name \<Rightarrow> Initrd_Get rd name) in
     if if_is_empty startup_file then Inl (Aborted ''Unable to load from initrd.'')
     else let d = SetEvalData (if_data startup_file) loader_name data;
              msg = mk_ThreadMessage EVALUATE None (stream d) None 0 in
       Inr (st, g\<lparr>all_engines := (all_engines g)[first := e]\<rparr>, es1[st := PushMessage msg (es1 ! st)]))"

text \<open>\<open>Enter\<close> up to the call of \<open>ThreadManager::Run\<close>, which is \<open>tm_Run\<close>.\<close>

definition engine_Enter :: "'h world \<Rightarrow> 'h world res" where
  "engine_Enter w =
     res_bind (rt_assert (\<not> eng_init (w_engine w)) ''!init_'') (\<lambda>_.
     res_bind (rt_assert (\<not> w_has_tm w) ''!thread_mgr_'') (\<lambda>_.
     case eng_type (w_engine w) of
       DISABLED \<Rightarrow> Inl SystemHang
     | SERVICE \<Rightarrow> Inl SystemHang
     | EXECUTION \<Rightarrow> Inr (w\<lparr>w_has_tm := True, w_tm := mk_ThreadManager (is_preempt_enabled (w_tm w)),
                          w_engine := (w_engine w)\<lparr>eng_init := True\<rparr>\<rparr>)))"

definition engine_TimerTick :: "'h world \<Rightarrow> 'h world" where
  "engine_TimerTick w = (if w_has_tm w then w\<lparr>w_tm := TimerInterruptNotify (w_tm w)\<rparr> else w)"

definition TimerTick :: "Engines \<Rightarrow> 'h world \<Rightarrow> Engines \<times> 'h world" where
  "TimerTick g w =
     (let g1 = g\<lparr>global_ticks_counter := global_ticks_counter g + 1\<rparr> in
      if eng_init (w_engine w) then (g1, engine_TimerTick w)
      else (g1\<lparr>non_isolate_ticks := non_isolate_ticks g1 + 1\<rparr>, w))"

definition MsPerTick :: u32 where "MsPerTick = 10"

definition sleep_ticks :: "u64 \<Rightarrow> u64" where
  "sleep_ticks microseconds =
     (let t = microseconds div 1000 div ucast MsPerTick;
          t1 = (if t < 1 then 1 else t) in
      if t1 > 100 then 100 else t1)"

partial_function (option) tick_wait :: "(nat \<Rightarrow> 'a) \<Rightarrow> ('a \<Rightarrow> bool) \<Rightarrow> nat \<Rightarrow> nat option" where
  "tick_wait ticks done' k = (if done' (ticks k) then Some k else tick_wait ticks done' (Suc k))"

definition engines_Sleep :: "u64 \<Rightarrow> (nat \<Rightarrow> u64) \<Rightarrow> nat option" where
  "engines_Sleep microseconds ticks =
     (let after = ticks 0 + sleep_ticks microseconds in tick_wait ticks (\<lambda>t. \<not> t < after) 1)"

definition NonIsolateSleep :: "u32 \<Rightarrow> u32 \<Rightarrow> Engines \<Rightarrow> (nat \<Rightarrow> u64) \<Rightarrow> nat res option" where
  "NonIsolateSleep ms cpuid g ticks =
     (if ms = 0 then Some (Inr 0)
      else if \<not> unat cpuid < length (all_engines g) then Some (Inl (AssertFailed ''cpuid < engines_.size()''))
      else if eng_init (all_engines g ! unat cpuid) then Some (Inl (AssertFailed ''!engines_[cpuid]->is_init()''))
      else let sl = ms div MsPerTick; sl1 = (if sl = 0 then 1 else sl); required = ticks 0 + ucast sl1
           in map_option Inr (tick_wait ticks (\<lambda>t. t > required) 1))"

text \<open>
  \<open>StartCPUs\<close>: the commands it sends. \<open>id_reg\<close> is what the register \<open>ID\<close> of the boot processor
  reads, which has the identifier in its top byte. \<open>counter0\<close> is the first reading of the counter of started
  processors, \<open>cpus_counter n\<close> the readings while it waits for processor \<open>n\<close>. The loop does not
  end when a processor does not start.
\<close>

definition start_targets :: "u32 \<Rightarrow> AcpiX64 \<Rightarrow> AcpiCPU list" where
  "start_targets id_reg st = filter (\<lambda>c. local_apic_id c \<noteq> id_reg) (acpi_cpus st)"

primrec start_each :: "(u16 \<Rightarrow> nat \<Rightarrow> u16) \<Rightarrow> u16 \<Rightarrow> AcpiCPU list \<Rightarrow> hw_op list option" where
  "start_each cpus_counter n [] = Some []"
| "start_each cpus_counter n (c # cs) =
     (case tick_wait (cpus_counter (n + 1)) (\<lambda>v. v = n + 1) 0 of
        None \<Rightarrow> None
      | Some _ \<Rightarrow> map_option ((@) (SendApicStartup (ucast (local_apic_id c)) 8)) (start_each cpus_counter (n + 1) cs))"

definition StartCPUs ::
    "u32 \<Rightarrow> AcpiX64 \<Rightarrow> u32 \<Rightarrow> Engines \<Rightarrow> (nat \<Rightarrow> u64) \<Rightarrow> u16 \<Rightarrow> (u16 \<Rightarrow> nat \<Rightarrow> u16) \<Rightarrow> hw_op list res option" where
  "StartCPUs id_reg st cpuid g ticks counter0 cpus_counter =
     (if counter0 \<noteq> 0 then Some (Inl (AssertFailed ''0 == trampoline.cpus_counter_value()''))
      else let inits = concat (map (\<lambda>c. SendApicInit (ucast (local_apic_id c))) (start_targets id_reg st)) in
        case NonIsolateSleep 50 cpuid g ticks of
          None \<Rightarrow> None
        | Some (Inl e) \<Rightarrow> Some (Inl e)
        | Some (Inr _) \<Rightarrow> map_option (\<lambda>ops. Inr (inits @ ops)) (start_each cpus_counter 0 (start_targets id_reg st)))"

text \<open>Buffers: \<open>ptr\<close> is what the allocator returned.\<close>

definition AllocateBuffer :: "u64 \<Rightarrow> u64 \<Rightarrow> Engines \<Rightarrow> u64 \<times> Engines" where
  "AllocateBuffer ptr len g =
     (ptr, if ptr \<noteq> 0 then g\<lparr>buffers_size := buffers_size g + len, buffers_count := buffers_count g + 1\<rparr> else g)"

definition FreeBuffer :: "u64 \<Rightarrow> u64 \<Rightarrow> Engines \<Rightarrow> Engines" where
  "FreeBuffer ptr len g =
     (if ptr = 0 then g else g\<lparr>buffers_size := buffers_size g - len, buffers_count := buffers_count g - 1\<rparr>)"

section \<open>Platform\<close>

definition RealTimeMicroseconds :: "u64 \<Rightarrow> u64 \<Rightarrow> u64" where
  "RealTimeMicroseconds time_int boot = time_int + boot"

definition SetTimeMicroseconds :: "u64 \<Rightarrow> u64 \<Rightarrow> u64" where
  "SetTimeMicroseconds new_t time_int = new_t"

definition HandleIRQ :: "u32 \<Rightarrow> u8 \<Rightarrow> 'h world \<Rightarrow> ('h world \<times> hw_op list) res" where
  "HandleIRQ cpu number w = res_bind (irq_Raise cpu number w) (\<lambda>w'. Inr (w', apic_EOI))"

definition InitCurrentCPU ::
    "u16 \<Rightarrow> u32 \<times> u32 \<Rightarrow> (nat \<Rightarrow> u64) \<Rightarrow> u32 \<Rightarrow> (IoApicX64 \<Rightarrow> u32 \<times> u32) \<Rightarrow> AcpiX64 \<Rightarrow>
     (ioapic_op list list \<times> hw_op list \<times> AcpiX64) res option" where
  "InitCurrentCPU cpu msr clock curr_count regs st =
     (let ios = (if cpu = 0 then foldr (\<lambda>io r. res_bind (ioapic_Init (fst (regs io)) (snd (regs io)) io) (\<lambda>ops.
                  res_bind r (\<lambda>rest. Inr (ops # rest)))) (acpi_io_apics st) (Inr []) else Inr []) in
      case ios of
        Inl e \<Rightarrow> Some (Inl e)
      | Inr io_ops \<Rightarrow> (case acpi_local_apic st of
          None \<Rightarrow> Some (Inl (AssertFailed ''acpi_.local_apic()''))
        | Some la \<Rightarrow> map_option (\<lambda>r. res_bind r (\<lambda>(ops, la').
            Inr (io_ops, ops, st\<lparr>acpi_local_apic := Some la'\<rparr>))) (apic_InitCpu cpu msr clock curr_count la)))"

section \<open>Interrupt and exception entry points\<close>

definition irq_handler_any :: "u32 \<Rightarrow> u64 \<Rightarrow> 'h world \<Rightarrow> ('h world \<times> hw_op list) res" where
  "irq_handler_any cpu number w =
     res_bind (rt_assert (cpu = 0) ''0 == Cpu::id()'') (\<lambda>_.
     res_bind (rt_assert (number \<le> 0xff) ''number <= 0xff'') (\<lambda>_.
       HandleIRQ cpu (ucast (number AND 0xff)) w))"

definition irq_timer_event :: "u32 \<times> u32 \<Rightarrow> Engines \<Rightarrow> 'h world \<Rightarrow> (Engines \<times> 'h world) \<times> u64" where
  "irq_timer_event msr g w =
     (TimerTick g w, (ucast (fst msr AND 0xfffff000) OR push_bit 32 (ucast (snd msr AND 0x0f))) + 0xb0)"

fun exception_event :: "string \<Rightarrow> u64 \<Rightarrow> u64 \<Rightarrow> 'h world \<Rightarrow> 'h world res" where
  "exception_event name fault_address error_code w =
     (if name = ''PF'' then res_bind (PageFault (w_mm w) fault_address error_code) (\<lambda>mm. Inr (w\<lparr>w_mm := mm\<rparr>))
      else if name = ''GP'' then Inr w
      else Inl (AssertFailed name))"

text \<open>
  The gates of the assembly file. Gate \<open>_irq_gate_v\<close> passes the number \<open>v - 0x20\<close>. The acknowledgement goes through the register object of
  the local APIC, or for the timer to the address that the processor reports; the gate of a page fault passes \<open>cr2\<close> and error code 0, all other exceptions
  stop the processor.
\<close>

datatype eoi = EoiNone | EoiApic "hw_op list" | EoiAddress u64

definition gate_number :: "u8 \<Rightarrow> u64" where
  "gate_number v = ucast v - 0x20"

definition run_gate :: "u32 \<Rightarrow> u32 \<times> u32 \<Rightarrow> u64 \<Rightarrow> gate \<Rightarrow> Engines \<times> 'h world \<Rightarrow> ((Engines \<times> 'h world) \<times> eoi) res" where
  "run_gate cpu msr fault g s = (case s of (en, w) \<Rightarrow> (case g of
       GateIrq v \<Rightarrow> res_bind (irq_handler_any cpu (gate_number v) w) (\<lambda>(w', ops). Inr ((en, w'), EoiApic ops))
     | GateTimer \<Rightarrow> (case irq_timer_event msr en w of (s', a) \<Rightarrow> Inr (s', EoiAddress a))
     | GateSpurious \<Rightarrow> Inr ((en, w), EoiNone)
     | GateException name \<Rightarrow> res_bind (exception_event name fault 0 w) (\<lambda>w'.
         if name = ''PF'' then Inr ((en, w'), EoiNone) else Inl SystemHang)))"

section \<open>V8's task queues\<close>

text \<open>
  Tasks are V8 objects: \<open>run\<close> is what running one does to the rest of the system and to the
  queues, into which a task may put further tasks.
\<close>

record 'a V8Platform =
  background_tasks :: "'a list"
  foreground_tasks :: "'a list"
  foreground_delayed_tasks :: "'a TimeoutItem list"

type_synonym ('a, 's) task_run = "'a \<Rightarrow> 's \<times> 'a V8Platform \<Rightarrow> 's \<times> 'a V8Platform"

definition CallOnBackgroundThread :: "('a, 's) task_run \<Rightarrow> 'a \<Rightarrow> 's \<times> 'a V8Platform \<Rightarrow> 's \<times> 'a V8Platform" where
  "CallOnBackgroundThread run task s = run task s"

definition CallOnForegroundThread :: "'a \<Rightarrow> 'a V8Platform \<Rightarrow> 'a V8Platform" where
  "CallOnForegroundThread task p = p\<lparr>foreground_tasks := foreground_tasks p @ [task]\<rparr>"

definition CallDelayedOnForegroundThread :: "'a \<Rightarrow> u64 \<Rightarrow> u64 \<Rightarrow> 'a V8Platform \<Rightarrow> 'a V8Platform" where
  "CallDelayedOnForegroundThread task time_now delay_us p =
     p\<lparr>foreground_delayed_tasks := to_Set task (time_now + delay_us) (foreground_delayed_tasks p)\<rparr>"

partial_function (option) RunBackgroundTasks ::
    "('a, 's) task_run \<Rightarrow> 's \<times> 'a V8Platform \<Rightarrow> ('s \<times> 'a V8Platform) option" where
  "RunBackgroundTasks run s =
     (if background_tasks (snd s) = [] then Some s
      else RunBackgroundTasks run (run (hd (background_tasks (snd s)))
             (fst s, (snd s)\<lparr>background_tasks := tl (background_tasks (snd s))\<rparr>)))"

partial_function (option) run_foreground ::
    "('a, 's) task_run \<Rightarrow> 's \<times> 'a V8Platform \<Rightarrow> ('s \<times> 'a V8Platform) option" where
  "run_foreground run s =
     (if foreground_tasks (snd s) = [] then Some s
      else run_foreground run (run (hd (foreground_tasks (snd s)))
             (fst s, (snd s)\<lparr>foreground_tasks := tl (foreground_tasks (snd s))\<rparr>)))"

partial_function (option) run_delayed ::
    "('a, 's) task_run \<Rightarrow> u64 \<Rightarrow> 's \<times> 'a V8Platform \<Rightarrow> ('s \<times> 'a V8Platform) res option" where
  "run_delayed run now s =
     (if to_Elapsed now (foreground_delayed_tasks (snd s)) then
        (case to_Take (foreground_delayed_tasks (snd s)) of
           Inl e \<Rightarrow> Some (Inl e)
         | Inr td \<Rightarrow> run_delayed run now (run (fst td) (fst s, (snd s)\<lparr>foreground_delayed_tasks := snd td\<rparr>)))
      else Some (Inr s))"

definition RunForegroundTasks ::
    "('a, 's) task_run \<Rightarrow> u64 \<Rightarrow> 's \<times> 'a V8Platform \<Rightarrow> ('s \<times> 'a V8Platform) res option" where
  "RunForegroundTasks run now s = (case run_foreground run s of None \<Rightarrow> None | Some s' \<Rightarrow> run_delayed run now s')"

section \<open>Boot\<close>

definition ParseMultiboot :: "phys_mem \<Rightarrow> u64 \<Rightarrow> (u64 option \<times> u64 \<times> u64) res" where
  "ParseMultiboot mem mbt =
     res_bind (rt_assert (mbt \<noteq> 0) ''s'') (\<lambda>_.
     let cmdaddr = mem_read mem (mbt + 16) 4 :: u32; mod_count = mem_read mem (mbt + 20) 4 :: u32;
         mod_addr = mem_read mem (mbt + 24) 4 :: u32 in
     if mod_count = 0 \<or> mod_addr = 0 then Inl (Aborted ''Initrd boot module required. Check your bootloader configuration.'')
     else let rd_end = mem_read mem (ucast mod_addr + 4) 4 :: u32; rd_start = mod_addr;
              len = ucast (rd_end - rd_start) :: u64 in
       if len = 0 \<or> len > 128 * MiB then Inl (Aborted ''Invalid initrd boot module.'')
       else Inr (if cmdaddr \<noteq> 0 then Some (ucast cmdaddr) else None, ucast rd_start, len))"

section \<open>Ticks, buffers and time\<close>

lemma sleep_ticks_bounds: "1 \<le> unat (sleep_ticks us)" "unat (sleep_ticks us) \<le> 100"
  by (auto simp: sleep_ticks_def Let_def word_le_nat_alt word_less_nat_alt not_less)

lemma tick_wait_returns:
  assumes "done' (ticks n)" "k \<le> n"
  shows "\<exists>m. tick_wait ticks done' k = Some m \<and> k \<le> m \<and> m \<le> n \<and> done' (ticks m) \<and> (\<forall>j. k \<le> j \<and> j < m \<longrightarrow> \<not> done' (ticks j))"
  using assms(2)
proof (induction "n - k" arbitrary: k)
  case 0
  with assms(1) show ?case by (subst tick_wait.simps) auto
next
  case (Suc d)
  show ?case
  proof (cases "done' (ticks k)")
    case True
    with Suc.prems show ?thesis by (subst tick_wait.simps) auto
  next
    case False
    have "d = n - Suc k" "Suc k \<le> n" using Suc.hyps(2) by auto
    from Suc.hyps(1) [OF this] obtain m where "tick_wait ticks done' (Suc k) = Some m" "Suc k \<le> m" "m \<le> n"
      "done' (ticks m)" "\<forall>j. Suc k \<le> j \<and> j < m \<longrightarrow> \<not> done' (ticks j)" by blast
    with False show ?thesis
      by (subst tick_wait.simps) (auto, metis Suc_leI le_neq_implies_less)
  qed
qed

text \<open>\<open>NonIsolateSleep\<close> waits for one tick more than it computes, since it compares with \<open>>\<close>.\<close>

lemma NonIsolateSleep_extra_tick:
  assumes "unat cpuid < length (all_engines g)" "\<not> eng_init (all_engines g ! unat cpuid)"
  shows "NonIsolateSleep 20 cpuid g of_nat = Some (Inr 3)"
  using assms by (simp add: NonIsolateSleep_def MsPerTick_def tick_wait.simps)

lemma NonIsolateSleep_returns:
  assumes "unat cpuid < length (all_engines g)" "\<not> eng_init (all_engines g ! unat cpuid)"
    and "ticks n > ticks 0 + ucast (if ms div MsPerTick = 0 then 1 else ms div MsPerTick)" "n \<ge> 1"
  shows "\<exists>k. NonIsolateSleep ms cpuid g ticks = Some (Inr k) \<and> k \<le> n"
proof (cases "ms = 0")
  case False
  let ?req = "ticks 0 + ucast (if ms div MsPerTick = 0 then 1 else ms div MsPerTick)"
  from tick_wait_returns [of "\<lambda>t. t > ?req" ticks n 1] assms(3,4)
  obtain m where "tick_wait ticks (\<lambda>t. t > ?req) 1 = Some m" "m \<le> n" by blast
  with False assms(1,2) show ?thesis by (simp add: NonIsolateSleep_def Let_def)
qed (simp add: NonIsolateSleep_def)

text \<open>When every processor raises the counter, \<open>StartCPUs\<close> returns: one INIT for each, then one STARTUP for each.\<close>

lemma start_each_all:
  assumes "\<And>n. \<exists>k. cpus_counter n k = n"
  shows "start_each cpus_counter n cs = Some (concat (map (\<lambda>c. SendApicStartup (ucast (local_apic_id c)) 8) cs))"
proof (induction cs arbitrary: n)
  case (Cons c cs)
  from assms obtain k where "cpus_counter (n + 1) k = n + 1" by blast
  then obtain m where "tick_wait (cpus_counter (n + 1)) (\<lambda>v. v = n + 1) 0 = Some m"
    using tick_wait_returns [of "\<lambda>v. v = n + 1" "cpus_counter (n + 1)" k 0] by auto
  with Cons show ?case by simp
qed simp

lemma StartCPUs_all:
  assumes "unat cpuid < length (all_engines g)" "\<not> eng_init (all_engines g ! unat cpuid)"
    and "ticks n > ticks 0 + 5" "n \<ge> 1" "\<And>n. \<exists>k. cpus_counter n k = n"
  shows "StartCPUs id_reg st cpuid g ticks 0 cpus_counter = Some (Inr
     (concat (map (\<lambda>c. SendApicInit (ucast (local_apic_id c))) (start_targets id_reg st)) @
      concat (map (\<lambda>c. SendApicStartup (ucast (local_apic_id c)) 8) (start_targets id_reg st))))"
proof -
  obtain k where "NonIsolateSleep 50 cpuid g ticks = Some (Inr k)"
    using NonIsolateSleep_returns [of cpuid g ticks 50 n] assms by (auto simp: MsPerTick_def)
  with start_each_all [of cpus_counter] assms(5) show ?thesis by (simp add: StartCPUs_def Let_def)
qed

lemma buffers_roundtrip:
  "ptr \<noteq> 0 \<Longrightarrow> FreeBuffer ptr len (snd (AllocateBuffer ptr len g)) = g"
  by (simp add: FreeBuffer_def AllocateBuffer_def)

lemma set_time_offset:
  "RealTimeMicroseconds (SetTimeMicroseconds t old) boot = t + boot"
  by (simp add: RealTimeMicroseconds_def SetTimeMicroseconds_def)

lemma foreground_in_order:
  assumes "\<And>t log p. run t (log, p) = (log @ [t], p)"
  shows "run_foreground run (log, p) = Some (log @ foreground_tasks p, p\<lparr>foreground_tasks := []\<rparr>)"
proof (induction "foreground_tasks p" arbitrary: log p)
  case Nil
  then have "p\<lparr>foreground_tasks := []\<rparr> = p" by simp
  with Nil show ?case by (subst run_foreground.simps) simp
next
  case (Cons t ts)
  from Cons(2) [symmetric] Cons(1) [of "p\<lparr>foreground_tasks := ts\<rparr>" "log @ [t]"] show ?case
    by (subst run_foreground.simps) (simp add: assms)
qed

lemma all_execution_engines:
  assumes "mk_Engines n es = Inr (g, es')" "unat n \<le> 9999"
  shows "length (all_engines g) = unat n" "engines_execution g = [0..<unat n]" "length es' = length es + unat n"
proof -
  let ?s = "\<lambda>k. fold add_engine [0..<k] (\<lparr>engines_cpu_count = n, all_engines = [], engines_execution = [], buffers_size = 0,
     buffers_count = 0, non_isolate_ticks = 0, global_ticks_counter = 1\<rparr>, es)"
  have "length (all_engines (fst (?s k))) = k \<and> engines_execution (fst (?s k)) = [0..<k] \<and> length (snd (?s k)) = length es + k"
    if "k \<le> 9999" for k using that
    by (induction k) (auto simp: add_engine_def threads_Create_def case_prod_unfold Let_def)
  moreover have "(g, es') = ?s (unat n)" using assms(1) by (auto simp: mk_Engines_def Let_def res_bind_Inr_iff)
  ultimately show "length (all_engines g) = unat n" "engines_execution g = [0..<unat n]" "length es' = length es + unat n"
    using assms(2) by (metis fst_conv snd_conv)+
qed

section \<open>An interrupt from the device to the thread\<close>

lemma raise_all_ok:
  assumes "\<forall>b \<in> set bs. reusable (snd b)"
  shows "\<exists>w'. raise_all bs w = Inr w' \<and> w' = w\<lparr>w_ethreads := w_ethreads w'\<rparr> \<and>
    length (w_ethreads w') = length (w_ethreads w) \<and>
    (\<forall>e < length (w_ethreads w). w_ethreads w' ! e =
       fold PushMessageIRQ (map snd (filter (\<lambda>b. fst b = e) bs)) (w_ethreads w ! e))"
  using assms
proof (induction bs arbitrary: w)
  case (Cons b bs)
  let ?w = "upd_ethread (fst b) (PushMessageIRQ (snd b)) w"
  from Cons.IH [of ?w] Cons.prems obtain w' where w': "raise_all bs ?w = Inr w'"
    "w' = ?w\<lparr>w_ethreads := w_ethreads w'\<rparr>" "length (w_ethreads w') = length (w_ethreads ?w)"
    "\<forall>e < length (w_ethreads ?w). w_ethreads w' ! e = fold PushMessageIRQ (map snd (filter (\<lambda>b. fst b = e) bs)) (w_ethreads ?w ! e)"
    by auto
  have "w' = w\<lparr>w_ethreads := w_ethreads w'\<rparr>" by (subst w'(2)) (simp add: upd_ethread_def)
  then show ?case using w'(1,3,4) Cons.prems by (auto simp: IRQBinding_Raise_def upd_ethread_def nth_list_update)
qed simp

lemma fold_PushMessageIRQ:
  "fold PushMessageIRQ ms e = e\<lparr>messages := messages e @ take (msg_capacity e - length (messages e)) (map Some ms)\<rparr>"
proof (induction ms arbitrary: e)
  case (Cons m ms)
  show ?case
  proof (cases "length (messages e) < msg_capacity e")
    case True
    then obtain k where k: "msg_capacity e - length (messages e) = Suc k" by (metis Suc_diff_Suc)
    then have "msg_capacity e - Suc (length (messages e)) = k" by simp
    then show ?thesis using Cons [of "PushMessageIRQ m e"] True k by (simp add: PushMessageIRQ_def vec_push_def)
  qed (use Cons in \<open>simp add: PushMessageIRQ_def\<close>)
qed simp

lemma gate_number_irq:
  assumes "n < 224"
  shows "gate_number (of_nat (32 + n)) = of_nat n"
proof -
  have "unat (of_nat (32 + n) :: u8) = 32 + n" using assms by (intro unat_of_nat_small) simp
  then have "(ucast (of_nat (32 + n) :: u8) :: u64) = of_nat (32 + n)" by (metis of_nat_unat)
  then show ?thesis unfolding gate_number_def by simp
qed

lemma timer_gates: "idt_gates ! 32 = GateTimer" "idt_gates ! 33 = GateIrq 33" "idt_gates ! 34 = GateTimer" "idt_gates ! 255 = GateSpurious"
proof -
  have e: "length exception_gates = 32" by (simp add: exception_gates_def)
  show "idt_gates ! 32 = GateTimer" "idt_gates ! 33 = GateIrq 33" "idt_gates ! 34 = GateTimer" "idt_gates ! 255 = GateSpurious"
    unfolding idt_gates_def by (simp_all add: nth_append e nth_Cons' del: upt_rec_numeral)
qed

text \<open>
  Input 2 of the first controller is not masked, but its vector 0x22 has the gate of the timer: the interrupt counts as a tick, and
  a handler bound to interrupt 2 is never called.
\<close>

lemma irq_2_is_timer:
  assumes "interrupt_base io = 0" "run_gate cpu msr fault (idt_gates ! 34) (en, w) = Inr ((en', w'), ack)"
  shows "redirection io 2 = 34" "(en', w') = TimerTick en w" "w_ethreads w' = w_ethreads w"
proof -
  show "redirection io 2 = 34" using assms(1) by (simp add: redirection_def)
  show t: "(en', w') = TimerTick en w" using assms(2) by (auto simp: run_gate_def timer_gates irq_timer_event_def)
  show "w_ethreads w' = w_ethreads w" using t by (auto simp: TimerTick_def Let_def engine_TimerTick_def split: if_splits)
qed

text \<open>
  C11. From the device to JavaScript. Let \<open>n\<close> be the number of an input of a controller, counted from its base; \<open>n\<close> is 1 or
  from 3 to 222. (Input 0 is masked, number 2 has the gate of the timer, as \<open>irq_2_is_timer\<close> states, and vector 255 is the spurious one.)
  The I/O APIC sends it to vector \<open>32 + n\<close>, the gate that \<open>SetUp\<close> installed there is the one whose handler gets the number \<open>n\<close>, and on
  processor 0 the handler returns, acknowledges the interrupt and appends, for every handler bound to \<open>n\<close> and in the order of binding, one
  message to the queue of its thread, as many as the capacity of that queue allows. No other queue and nothing else of the system changes.
\<close>

theorem irq_reaches_threads:
  assumes "n = i + unat (interrupt_base io)" "n = 1 \<or> 3 \<le> n" "n \<le> 222" "n < length (w_bindings w)"
    and "\<forall>b \<in> set (w_bindings w ! n). reusable (snd b)"
  shows "redirection io i = of_nat (32 + n) \<and>
    idt_gates ! (32 + n) = GateIrq (of_nat (32 + n)) \<and>
    (\<exists>es. run_gate 0 msr fault (idt_gates ! (32 + n)) (en, w) = Inr ((en, w\<lparr>w_ethreads := es\<rparr>), EoiApic apic_EOI) \<and>
      length es = length (w_ethreads w) \<and>
      (\<forall>e < length es. es ! e = (w_ethreads w ! e)\<lparr>messages := messages (w_ethreads w ! e) @
         take (msg_capacity (w_ethreads w ! e) - length (messages (w_ethreads w ! e)))
           (map (\<lambda>b. Some (snd b)) (filter (\<lambda>b. fst b = e) (w_bindings w ! n)))\<rparr>))"
proof -
  have gate: "idt_gates ! (32 + n) = GateIrq (of_nat (32 + n))"
  proof (cases "n = 1")
    case False
    then show ?thesis using assms(2,3) by (intro idt_gates_irq) simp_all
  qed (simp add: timer_gates)
  have red: "redirection io i = of_nat (32 + n)" using assms(1,2) by (auto simp: redirection_def add.assoc)
  have un: "unat (of_nat n :: u64) = n" using assms(3) by (intro unat_of_nat_small) simp
  then have le: "(of_nat n :: u64) \<le> 0xff" using assms(3) by (simp add: word_le_nat_alt)
  have "(0xff :: u64) = mask 8" by (simp add: mask_eq_exp_minus_1)
  then have "unat ((of_nat n :: u64) AND 0xff) = n" using unat_mask_and [of "of_nat n :: u64" 8] un assms(3) by simp
  then have num: "unat (ucast ((of_nat n :: u64) AND 0xff) :: u8) = n"
    using assms(3) by (simp add: unsigned_ucast_eq take_bit_nat_eq_self)
  obtain w' where w': "raise_all (w_bindings w ! n) w = Inr w'" "w' = w\<lparr>w_ethreads := w_ethreads w'\<rparr>" "length (w_ethreads w') = length (w_ethreads w)"
    "\<forall>e < length (w_ethreads w). w_ethreads w' ! e =
       fold PushMessageIRQ (map snd (filter (\<lambda>b. fst b = e) (w_bindings w ! n))) (w_ethreads w ! e)"
    using raise_all_ok [OF assms(5)] by blast
  have "run_gate 0 msr fault (GateIrq (of_nat (32 + n))) (en, w) = Inr ((en, w'), EoiApic apic_EOI)"
    using w'(1) num le assms(3) gate_number_irq [of n]
    by (simp add: run_gate_def irq_handler_any_def HandleIRQ_def irq_Raise_def kIrqCount_def del: of_nat_add)
  then have "run_gate 0 msr fault (idt_gates ! (32 + n)) (en, w) = Inr ((en, w\<lparr>w_ethreads := w_ethreads w'\<rparr>), EoiApic apic_EOI)"
    using w'(2) gate by simp
  moreover have "\<forall>e < length (w_ethreads w'). w_ethreads w' ! e = (w_ethreads w ! e)\<lparr>messages := messages (w_ethreads w ! e) @
         take (msg_capacity (w_ethreads w ! e) - length (messages (w_ethreads w ! e)))
           (map (\<lambda>b. Some (snd b)) (filter (\<lambda>b. fst b = e) (w_bindings w ! n)))\<rparr>"
    using w'(3,4) by (simp add: fold_PushMessageIRQ comp_def)
  ultimately show ?thesis using gate red w'(3) by blast
qed

definition sample_engines :: Engines where
  "sample_engines = \<lparr>engines_cpu_count = 1, all_engines = [mk_Engine EXECUTION], engines_execution = [0], buffers_size = 0,
     buffers_count = 0, non_isolate_ticks = 0, global_ticks_counter = 1\<rparr>"

theorem irq_reaches_threads_witness:
  "\<exists>es. run_gate 0 (0, 0) 0 (idt_gates ! 36) (sample_engines, (sample_world [1])\<lparr>w_bindings := (replicate 225 [])[4 := [mk_IRQBinding 0 9]]\<rparr>) =
       Inr ((sample_engines, (sample_world [1])\<lparr>w_bindings := (replicate 225 [])[4 := [mk_IRQBinding 0 9]], w_ethreads := es\<rparr>), EoiApic apic_EOI) \<and>
     messages (es ! 0) = [Some (MakeReusable (mk_ThreadMessage IRQ_RAISE None [] None 9))]"
proof -
  let ?io = "\<lparr>io_id = 0, io_address = 0xfec00000, interrupt_base = 0\<rparr> :: IoApicX64"
  let ?w = "(sample_world [1])\<lparr>w_bindings := (replicate 225 [])[4 := [mk_IRQBinding 0 9]]\<rparr>"
  have b: "w_bindings ?w ! 4 = [mk_IRQBinding 0 9]" "length (w_bindings ?w) = 225"
    by simp_all
  have e: "length (w_ethreads ?w) = 1" "messages (w_ethreads ?w ! 0) = []" "msg_capacity (w_ethreads ?w ! 0) = 128"
    by (simp_all add: sample_world_def mk_EngineThread_def)
  have "reusable (snd (mk_IRQBinding 0 9))" by (simp add: mk_IRQBinding_def MakeReusable_def)
  with irq_reaches_threads [where io = ?io and i = 4 and n = 4 and w = ?w and msr = "(0, 0)" and fault = 0 and en = sample_engines] b e
  show ?thesis by (fastforce simp: mk_IRQBinding_def)
qed

end
