(* ===== verification/Resources.thy ===== *)
theory Resources
  imports MemManager Interrupts
begin

text \<open>
  The hardware resources that JavaScript code receives as objects
  (\<^verbatim>\<open>src/src/kernel/native-object.cc\<close>): ranges of memory, of ports and of interrupts, the ports,
  memory blocks and interrupts taken from them, the physical address of a buffer and DMA
  pages. A native function returns a value, throws a JavaScript exception, or runs into an
  assertion that stops the kernel. Numeric arguments are what the conversion to the C++
  type gives (\<open>Uint32Value\<close> a 32-bit word, a cast to \<open>size_t\<close> a 64-bit one); the
  truncations the source makes after that are in the definitions.
\<close>

section \<open>Model\<close>

datatype 'a native_ret = Threw string | Returned 'a

definition js_check :: "bool \<Rightarrow> string \<Rightarrow> 'a native_ret res \<Rightarrow> 'a native_ret res" where
  "js_check ok msg k = (if ok then k else Inr (Threw msg))"

definition memory_Subrange :: "u64 \<Rightarrow> u64 \<Rightarrow> u64 Range \<Rightarrow> u64 Range native_ret res" where
  "memory_Subrange b e r =
     js_check (b \<le> e) ''subrange: invalid range (begin > end)''
       (res_bind (mk_Range b e) (\<lambda>subrange.
          js_check (IsSubrangeOf subrange r) ''subrange: invalid range (out of bounds)'' (Inr (Returned subrange))))"

definition memory_Block :: "u64 \<Rightarrow> u32 \<Rightarrow> u64 Range \<Rightarrow> u32 MemoryBlock native_ret res" where
  "memory_Block base n r =
     res_bind (mk_Range base (base + ucast n)) (\<lambda>subrange.
       js_check (IsSubrangeOf subrange r) ''block: out of bounds''
         (Inr (Returned \<lparr>mb_base = base, mb_size = n\<rparr>)))"

definition block_Buffer :: "u32 MemoryBlock \<Rightarrow> (u64 \<times> u32) native_ret res" where
  "block_Buffer b =
     res_bind (rt_assert (mb_base b \<noteq> 0) ''ptr'') (\<lambda>_.
     res_bind (rt_assert (mb_size b > 0) ''length > 0'') (\<lambda>_. Inr (Returned (mb_base b, mb_size b))))"

definition io_Subrange :: "u32 \<Rightarrow> u32 \<Rightarrow> u16 Range \<Rightarrow> u16 Range native_ret res" where
  "io_Subrange b e r =
     js_check (b \<le> e) ''subrange: invalid range (begin > end)''
       (res_bind (mk_Range (ucast b) (ucast e)) (\<lambda>subrange.
          js_check (IsSubrangeOf subrange r) ''subrange: invalid range (out of bounds)'' (Inr (Returned subrange))))"

definition io_Port :: "u32 \<Rightarrow> u16 Range \<Rightarrow> u16 native_ret res" where
  "io_Port number r =
     js_check (Contains r (ucast number)) ''port: invalid port number (required <= 0xffff)''
       (Inr (Returned (ucast number)))"

definition io_OffsetPort :: "u32 \<Rightarrow> u16 Range \<Rightarrow> u16 native_ret res" where
  "io_OffsetPort offset r =
     (let number = ucast (rg_begin r) + offset in
      js_check (Contains r (ucast number)) ''offsetPort: port offset is out of range''
        (Inr (Returned (ucast number))))"

definition irq_Irq :: "u32 \<Rightarrow> u8 Range \<Rightarrow> u8 native_ret res" where
  "irq_Irq number r =
     js_check (Contains r (ucast number)) ''irq: irq number is out of range'' (Inr (Returned (ucast number)))"

definition GetSystemResources :: "(u64 Range \<times> u16 Range \<times> u8 Range) res" where
  "GetSystemResources =
     res_bind (mk_Range 0 0xffffffff) (\<lambda>m. res_bind (mk_Range 1 0xffff) (\<lambda>p.
     res_bind (mk_Range 1 255) (\<lambda>q. Inr (m, p, q))))"

definition port_Write8 :: "u32 \<Rightarrow> u16 \<Rightarrow> io_op" where
  "port_Write8 v port = OutB port (ucast (v AND 0xFF))"

definition port_Write16 :: "u32 \<Rightarrow> u16 \<Rightarrow> io_op" where
  "port_Write16 v port = OutW port (ucast (v AND 0xFFFF))"

definition port_Write32 :: "u32 \<Rightarrow> u16 \<Rightarrow> io_op" where
  "port_Write32 v port = OutDW port v"

text \<open>
  \<open>BufferAddress\<close> of an array of \<open>length\<close> bytes at \<open>vaddr\<close>: up to two physical segments, each
  as a length and the low and the high half of an address.
\<close>

definition BufferAddress :: "'h MemManager \<Rightarrow> u64 \<Rightarrow> u64 \<Rightarrow> u32 list native_ret res" where
  "BufferAddress mm vaddr len =
     js_check (len \<noteq> 0) ''Uint8Array is empty''
       (res_bind (VirtualToPhysicalAddress mm vaddr) (\<lambda>pstart.
        let pend = pstart + len; pboundary = pend AND NOT 0x1FFFFF;
            high = ucast (drop_bit 32 pstart); low = ucast (pstart AND 0xffffffff) in
        if pstart < pboundary then
          let len1 = pboundary - pstart; len2 = len - len1; vaddr2 = vaddr + len1 in
          res_bind (VirtualToPhysicalAddress mm vaddr2) (\<lambda>pstart2.
            let high2 = ucast (drop_bit 32 pstart2); low2 = ucast (pstart2 AND 0xffffffff) in
            Inr (Returned [ucast len1, low, high, ucast len2, low2, high2]))
        else Inr (Returned [ucast len, low, high, 0, 0, 0])))"

definition AllocDMA :: "'h MemManager \<Rightarrow> ((u32 \<times> u32) native_ret \<times> 'h MemManager) res" where
  "AllocDMA mm =
     res_bind (AllocPage32 mm) (\<lambda>(ptr, mm').
     res_bind (rt_assert (ptr \<noteq> 0) ''ptr'') (\<lambda>_.
     res_bind (rt_assert (ptr = ptr AND 0xffffffff) ''ptrvalue == (ptrvalue & 0xffffffff)'') (\<lambda>_.
     res_bind (rt_assert (kPageSizeBytes > 0) ''size > 0'') (\<lambda>_.
       Inr (Returned (ucast ptr, ucast kPageSizeBytes), mm')))))"

section \<open>Confinement\<close>

text \<open>
  The objects a program obtains from the three system resources by any sequence of calls;
  each rule is one native function that returned an object.
\<close>

datatype resource = MemRange "u64 Range" | MemBlock "u32 MemoryBlock" | IoRange "u16 Range" | IoPort u16
  | IrqRange "u8 Range" | Irq u8

inductive derives :: "resource \<Rightarrow> resource \<Rightarrow> bool" for r where
  d_refl: "derives r r"
| d_subrange: "derives r (MemRange m) \<Longrightarrow> memory_Subrange b e m = Inr (Returned m') \<Longrightarrow> derives r (MemRange m')"
| d_block: "derives r (MemRange m) \<Longrightarrow> memory_Block a n m = Inr (Returned k) \<Longrightarrow> derives r (MemBlock k)"
| d_io_subrange: "derives r (IoRange m) \<Longrightarrow> io_Subrange ib ie m = Inr (Returned p) \<Longrightarrow> derives r (IoRange p)"
| d_port: "derives r (IoRange m) \<Longrightarrow> io_Port w m = Inr (Returned q) \<Longrightarrow> derives r (IoPort q)"
| d_offset_port: "derives r (IoRange m) \<Longrightarrow> io_OffsetPort w m = Inr (Returned q) \<Longrightarrow> derives r (IoPort q)"
| d_irq: "derives r (IrqRange i) \<Longrightarrow> irq_Irq w i = Inr (Returned j) \<Longrightarrow> derives r (Irq j)"

text \<open>\<open>covers r s\<close>: \<open>s\<close> gives access to nothing that \<open>r\<close> does not; both are in order.\<close>

definition range_wf :: "'a::linorder Range \<Rightarrow> bool" where
  "range_wf r \<longleftrightarrow> rg_begin r \<le> rg_end r"

fun covers :: "resource \<Rightarrow> resource \<Rightarrow> bool" where
  "covers (MemRange r) (MemRange s) = (range_wf s \<and> IsSubrangeOf s r)"
| "covers (MemRange r) (MemBlock b) =
     (rg_begin r \<le> mb_base b \<and> unat (mb_base b) + unat (mb_size b) \<le> unat (rg_end r))"
| "covers (IoRange r) (IoRange s) = (range_wf s \<and> IsSubrangeOf s r)"
| "covers (IoRange r) (IoPort p) = Contains r p"
| "covers (IrqRange r) (IrqRange s) = (range_wf s \<and> IsSubrangeOf s r)"
| "covers (IrqRange r) (Irq i) = Contains r i"
| "covers (MemBlock b) s = (s = MemBlock b)"
| "covers (IoPort p) s = (s = IoPort p)"
| "covers (Irq i) s = (s = Irq i)"
| "covers _ _ = False"

fun resource_wf :: "resource \<Rightarrow> bool" where
  "resource_wf (MemRange r) = range_wf r"
| "resource_wf (IoRange r) = range_wf r"
| "resource_wf (IrqRange r) = range_wf r"
| "resource_wf _ = True"

lemma js_check_Returned: "js_check ok msg k = Inr (Returned x) \<longleftrightarrow> ok \<and> k = Inr (Returned x)"
  by (simp add: js_check_def)

lemmas native_simps = js_check_Returned res_bind_Inr_iff mk_Range_def memory_Subrange_def memory_Block_def
  io_Subrange_def io_Port_def io_OffsetPort_def irq_Irq_def Let_def

lemma block_no_wrap:
  assumes "(base :: u64) \<le> base + ucast (n :: u32)"
  shows "unat (base + ucast n) = unat base + unat n"
proof (rule ccontr)
  assume "unat (base + ucast n) \<noteq> unat base + unat n"
  then have "2 ^ 64 \<le> unat base + unat n"
    using unat_add_no_wrap [of base "ucast n"] by (force simp: unat_ucast_up)
  moreover have "unat base < 2 ^ 64" "unat n < 2 ^ 32"
    using unsigned_less [of base, where ?'a = nat] unsigned_less [of n, where ?'a = nat] by simp_all
  ultimately have "unat (base + ucast n) < unat base"
    by (simp add: unat_word_ariths unat_ucast_up le_mod_geq)
  with assms show False by (simp add: word_le_nat_alt)
qed

lemma derives_covers:
  "derives r s \<Longrightarrow> resource_wf r \<Longrightarrow> covers r s"
proof (induction rule: derives.induct)
  case d_refl
  then show ?case by (cases r rule: resource.exhaust) (auto simp: range_wf_def IsSubrangeOf_def)
next
  case (d_block m a n k)
  then have k: "k = \<lparr>mb_base = a, mb_size = n\<rparr>" "a \<le> a + ucast n" "rg_begin m \<le> a" "a + ucast n \<le> rg_end m"
    by (auto simp: native_simps IsSubrangeOf_def)
  show ?case
  proof (cases r)
    case (MemRange x)
    with d_block have "rg_begin x \<le> rg_begin m" "rg_end m \<le> rg_end x" by (auto simp: IsSubrangeOf_def)
    with k MemRange show ?thesis using block_no_wrap [OF k(2)] by (auto simp: word_le_nat_alt)
  qed (use d_block in auto)
next
  case (d_subrange m b e m')
  then show ?case by (cases r rule: resource.exhaust) (auto simp: native_simps IsSubrangeOf_def range_wf_def)
next
  case (d_io_subrange m ib ie p)
  then show ?case by (cases r rule: resource.exhaust) (auto simp: native_simps IsSubrangeOf_def range_wf_def)
next
  case (d_port m w q)
  then show ?case by (cases r rule: resource.exhaust) (auto simp: native_simps IsSubrangeOf_def Contains_def)
next
  case (d_offset_port m w q)
  then show ?case by (cases r rule: resource.exhaust) (auto simp: native_simps IsSubrangeOf_def Contains_def)
next
  case (d_irq i w j)
  then show ?case by (cases r rule: resource.exhaust) (auto simp: native_simps IsSubrangeOf_def Contains_def)
qed

text \<open>
  C8. Resource objects are capabilities: whatever sequence of \<open>subrange\<close>, \<open>block\<close>, \<open>port\<close>,
  \<open>offsetPort\<close> and \<open>irq\<close> calls a program makes on a well-formed range, every object it gets is
  well-formed and lies inside that range, and no call turns one kind of resource into another.
\<close>

theorem resource_confinement:
  assumes "resource_wf r" "derives r s"
  shows "covers r s \<and> resource_wf s"
proof -
  have "covers r s" using assms derives_covers by blast
  then have "resource_wf s" using assms(1) by (cases r; cases s) auto
  with \<open>covers r s\<close> show ?thesis by simp
qed

theorem resource_confinement_witness:
  "\<exists>m p i. GetSystemResources = Inr (m, p, i) \<and> io_Subrange 0x3f0 0x3ff p = Inr (Returned \<lparr>rg_begin = 0x3f0, rg_end = 0x3ff\<rparr>) \<and>
     io_OffsetPort 8 \<lparr>rg_begin = 0x3f0, rg_end = 0x3ff\<rparr> = Inr (Returned 0x3f8) \<and> covers (IoRange p) (IoPort 0x3f8)"
proof -
  let ?p = "\<lparr>rg_begin = 1, rg_end = 0xffff\<rparr> :: u16 Range"
  have s: "GetSystemResources = Inr (\<lparr>rg_begin = 0, rg_end = 0xffffffff\<rparr>, ?p, \<lparr>rg_begin = 1, rg_end = 255\<rparr>)"
    by (simp add: GetSystemResources_def mk_Range_def)
  have a: "io_Subrange 0x3f0 0x3ff ?p = Inr (Returned \<lparr>rg_begin = 0x3f0, rg_end = 0x3ff\<rparr>)"
    "io_OffsetPort 8 \<lparr>rg_begin = 0x3f0, rg_end = 0x3ff\<rparr> = Inr (Returned 0x3f8)"
    by (simp_all add: native_simps js_check_def IsSubrangeOf_def Contains_def)
  have "derives (IoRange ?p) (IoPort 0x3f8)" using a by (blast intro: derives.intros)
  with resource_confinement [of "IoRange ?p" "IoPort 0x3f8"] s a show ?thesis by (auto simp: range_wf_def)
qed

text \<open>
  The 32-bit bounds are compared before they are truncated to 16 bits: a range whose ends
  are in order but lie in different 64 Ki blocks meets the assertion of \<open>Range\<close>, and a
  port number above \<open>0xffff\<close> is accepted as its low half.
\<close>

lemma io_Subrange_asserts: "io_Subrange 2 0x10001 r = Inl (AssertFailed ''begin_ <= end_'')"
  by (simp add: io_Subrange_def js_check_def mk_Range_def rt_assert_def word_le_nat_alt)

lemma io_Port_truncates: "Contains r 0x10 \<Longrightarrow> io_Port 0x10010 r = Inr (Returned 0x10)"
proof -
  have "(ucast (0x10010 :: u32) :: u16) = 0x10" by (simp add: word_unat_eq_iff)
  then show "Contains r 0x10 \<Longrightarrow> io_Port 0x10010 r = Inr (Returned 0x10)"
    by (simp only: io_Port_def js_check_def) simp
qed

section \<open>Physical addresses of buffers\<close>

definition seg_addr :: "u32 \<Rightarrow> u32 \<Rightarrow> u64" where
  "seg_addr low high = ucast low OR push_bit 32 (ucast high)"

lemma seg_addr_halves: "seg_addr (ucast (p AND 0xffffffff)) (ucast (drop_bit 32 p)) = p"
proof (rule bit_word_eqI)
  fix n assume n: "n < LENGTH(64)"
  have m: "(0xffffffff :: u64) = mask 32" by (simp add: mask_eq_exp_minus_1)
  show "bit (seg_addr (ucast (p AND 0xffffffff)) (ucast (drop_bit 32 p))) n = bit p n"
    using n unfolding seg_addr_def m
    by (auto simp: bit_or_iff bit_ucast_iff bit_and_iff bit_push_bit_iff bit_drop_bit_eq bit_mask_iff)
qed

lemma as_map_aligned:
  assumes "as_map s (i, j, l) = Some a"
  shows "unat a mod 2 ^ 21 = 0" "unat a < 2 ^ 52"
proof -
  from assms obtain w where "a = w AND 0xFFFFFFFE00000"
    by (auto simp: as_map_def Let_def PDEntry_decode_def split: if_splits)
  then have a: "\<not> bit a n" if "n < 21 \<or> 52 \<le> n" for n
    using that unfolding entry_masks by (auto simp: bit_and_iff bit_push_bit_iff bit_mask_iff)
  then have "a AND mask 21 = 0" "take_bit 52 a = a"
    by (auto intro!: bit_word_eqI simp: bit_and_iff bit_mask_iff bit_take_bit_iff) (meson not_le)
  then show "unat a mod 2 ^ 21 = 0" using unat_mask_and [of a 21] by simp
  show "unat a < 2 ^ 52"
    using \<open>take_bit 52 a = a\<close> by (metis take_bit_nat_less_exp unsigned_take_bit_eq)
qed

lemma same_page_same_vpage: "unat u div 2 ^ 21 = unat v div 2 ^ 21 \<Longrightarrow> vpage u = vpage v"
proof -
  assume e: "unat u div 2 ^ 21 = unat v div 2 ^ 21"
  have "idx4 w = unat w div 2 ^ 21 div 2 ^ 18 mod 512" "idx3 w = unat w div 2 ^ 21 div 2 ^ 9 mod 512" for w
    by (simp_all add: idx4_def idx3_def div_mult2_eq [symmetric])
  then show ?thesis using e by (simp add: vpage_def idx2_def)
qed

lemma translate_in_page:
  assumes "as_inv (addr_space mm) n" "as_map (addr_space mm) (vpage v) = Some a"
    and "unat w div 2 ^ 21 = unat v div 2 ^ 21"
  shows "VirtualToPhysicalAddress mm w = Inr (a + of_nat (unat w mod 2 ^ 21))"
proof -
  have "unat (ucast (page_offset w) :: u64) = unat w mod 2 ^ 21"
    using page_split [of w] by (metis add_diff_cancel_left' minus_div_mult_eq_mod)
  then have "(ucast (page_offset w) :: u64) = of_nat (unat w mod 2 ^ 21)" by (metis of_nat_unat ucast_id)
  moreover have "vpage w = vpage v" using assms(3) by (rule same_page_same_vpage)
  ultimately show ?thesis
    using VirtualToPhysical_spec [OF assms(1), of w] assms(2)
    by (simp add: VirtualToPhysicalAddress_def)
qed

lemma page_shift:
  fixes v :: nat
  assumes "v mod 2 ^ 21 + k < 2 ^ 21"
  shows "(v + k) div 2 ^ 21 = v div 2 ^ 21" "(v + k) mod 2 ^ 21 = v mod 2 ^ 21 + k"
proof -
  have "v + k = (v mod 2 ^ 21 + k) + v div 2 ^ 21 * 2 ^ 21" using div_mult_mod_eq [of v "2 ^ 21"] by linarith
  moreover have "((v mod 2 ^ 21 + k) + v div 2 ^ 21 * 2 ^ 21) div 2 ^ 21 = v div 2 ^ 21 + (v mod 2 ^ 21 + k) div 2 ^ 21"
    by (rule div_mult_self1) simp
  moreover have "((v mod 2 ^ 21 + k) + v div 2 ^ 21 * 2 ^ 21) mod 2 ^ 21 = (v mod 2 ^ 21 + k) mod 2 ^ 21"
    by (rule mod_mult_self1)
  ultimately show "(v + k) div 2 ^ 21 = v div 2 ^ 21" "(v + k) mod 2 ^ 21 = v mod 2 ^ 21 + k"
    using div_less [OF assms] mod_less [OF assms] by presburger+
qed

lemma translate_shift:
  assumes "as_inv (addr_space mm) n" "as_map (addr_space mm) (vpage v) = Some a"
    and "unat v mod 2 ^ 21 + k < 2 ^ 21" "unat (v + of_nat k) = unat v + k"
  shows "VirtualToPhysicalAddress mm (v + of_nat k) = Inr (a + of_nat (unat v mod 2 ^ 21) + of_nat k)"
  using translate_in_page [OF assms(1,2), of "v + of_nat k"] page_shift [OF assms(3)] assms(4)
  by (simp add: add.assoc)

lemma boundary_value:
  fixes a len :: u64 and off :: nat
  assumes "unat a mod 2 ^ 21 = 0" "unat a < 2 ^ 52" "off < 2 ^ 21" "unat len \<le> 2 ^ 21"
  defines "pstart \<equiv> a + of_nat off"
  shows "unat pstart = unat a + off"
    "unat ((pstart + len) AND NOT 0x1FFFFF) = unat a + (if off + unat len < 2 ^ 21 then 0 else 2 ^ 21)"
proof -
  have o: "unat (of_nat off :: u64) = off" using assms(3) by (intro unat_of_nat_small) simp
  show p: "unat pstart = unat a + off"
    unfolding pstart_def using assms(2,3) o by (subst unat_add_no_wrap) auto
  have e: "unat (pstart + len) = unat a + (off + unat len)"
    using assms(2,3,4) p by (subst unat_add_no_wrap) auto
  have "unat ((pstart + len) AND NOT 0x1FFFFF) = unat (pstart + len) div 2 ^ 21 * 2 ^ 21"
    using unat_PageAligned [of "pstart + len"] by (simp only: PageAligned_def)
  also have "\<dots> = unat a + (off + unat len) div 2 ^ 21 * 2 ^ 21"
  proof -
    obtain q where "unat a = q * 2 ^ 21" using assms(1) by (metis mod_0_imp_dvd dvdE mult.commute)
    then show ?thesis by (simp add: e)
  qed
  also have "(off + unat len) div 2 ^ 21 = (if off + unat len < 2 ^ 21 then 0 else 1)"
    using assms(3,4) by (auto intro: div_nat_eqI)
  finally show "unat ((pstart + len) AND NOT 0x1FFFFF) = unat a + (if off + unat len < 2 ^ 21 then 0 else 2 ^ 21)"
    by simp
qed

text \<open>
  \<open>BufferAddress\<close>: for a mapped buffer of at most 2 MiB, wherever it lies, the one or two
  segments it returns have together the length of the buffer and give exactly the physical
  address of every byte of it; an empty buffer throws.
\<close>

theorem buffer_address_exact:
  assumes inv: "as_inv (addr_space mm) n" and len: "0 < unat len" "unat len \<le> 2 ^ 21"
    and range: "unat vaddr + unat len < 2 ^ 64"
    and mapped: "\<And>k. k < unat len \<Longrightarrow> as_map (addr_space mm) (vpage (vaddr + of_nat k)) \<noteq> None"
  shows "\<exists>l1 lo1 hi1 l2 lo2 hi2. BufferAddress mm vaddr len = Inr (Returned [l1, lo1, hi1, l2, lo2, hi2]) \<and>
    unat l1 + unat l2 = unat len \<and>
    (\<forall>k < unat len. VirtualToPhysicalAddress mm (vaddr + of_nat k) =
       Inr (if k < unat l1 then seg_addr lo1 hi1 + of_nat k else seg_addr lo2 hi2 + of_nat (k - unat l1))) \<and>
    BufferAddress mm vaddr 0 = Inr (Threw ''Uint8Array is empty'')"
proof -
  define off where "off = unat vaddr mod 2 ^ 21"
  have empty: "BufferAddress mm vaddr 0 = Inr (Threw ''Uint8Array is empty'')"
    by (simp add: BufferAddress_def js_check_def)
  have vk: "unat (vaddr + of_nat k) = unat vaddr + k" if "k \<le> unat len" for k
  proof -
    have "unat (of_nat k :: u64) = k" using that range by (intro unat_of_nat_small) simp
    then show ?thesis using that range by (subst unat_add_no_wrap) auto
  qed
  from mapped [of 0] len obtain a where a: "as_map (addr_space mm) (vpage vaddr) = Some a" by auto
  have al: "unat a mod 2 ^ 21 = 0" "unat a < 2 ^ 52"
    using as_map_aligned [of "addr_space mm" "idx4 vaddr" "idx3 vaddr" "idx2 vaddr" a] a by (auto simp: vpage_def)
  have off: "off < 2 ^ 21" by (simp add: off_def)
  note b = boundary_value [OF al off len(2)]
  have first: "VirtualToPhysicalAddress mm (vaddr + of_nat k) = Inr (a + of_nat off + of_nat k)"
    if "off + k < 2 ^ 21" "k \<le> unat len" for k
    using translate_shift [OF inv a, of k] vk that by (simp add: off_def)
  have pstart: "VirtualToPhysicalAddress mm vaddr = Inr (a + of_nat off)" using first [of 0] off by simp
  show ?thesis
  proof (cases "off + unat len < 2 ^ 21")
    case True
    define r where "r = [ucast len, ucast ((a + of_nat off) AND 0xffffffff), ucast (drop_bit 32 (a + of_nat off)), 0, 0, 0 :: u32]"
    have "unat (a + of_nat off) = unat a + off" "unat ((a + of_nat off + len) AND NOT 0x1FFFFF) = unat a"
      using b True by simp_all
    then have "\<not> a + of_nat off < (a + of_nat off + len) AND NOT 0x1FFFFF" by (simp add: word_less_nat_alt)
    then have "BufferAddress mm vaddr len = Inr (Returned r)"
      using pstart len(1) unfolding BufferAddress_def js_check_def r_def Let_def by auto
    moreover have "unat (ucast len :: u32) = unat len"
      using len(2) by (simp add: unsigned_ucast_eq take_bit_nat_eq_self)
    ultimately show ?thesis
      using first True empty unfolding r_def by (auto simp: seg_addr_halves)
  next
    case False
    define l1 where "l1 = 2 ^ 21 - off"
    define len1 where "len1 = ((a + of_nat off + len) AND NOT 0x1FFFFF) - (a + of_nat off)"
    have ps: "unat (a + of_nat off) = unat a + off" "unat ((a + of_nat off + len) AND NOT 0x1FFFFF) = unat a + 2 ^ 21"
      using b False by simp_all
    then have less: "a + of_nat off < (a + of_nat off + len) AND NOT 0x1FFFFF" using off by (simp add: word_less_nat_alt)
    then have len1: "unat len1 = l1" unfolding len1_def using ps by (simp add: unat_sub order_less_imp_le l1_def)
    then have len1': "len1 = of_nat l1" by (metis of_nat_unat ucast_id)
    have l1: "0 < l1" "l1 \<le> unat len" "l1 \<le> 2 ^ 21" "off + l1 = 2 ^ 21" using off False by (auto simp: l1_def)
    have len2: "unat (len - len1) = unat len - l1" using len1 l1(2) by (simp add: unat_sub word_le_nat_alt)
    obtain p2 where p2: "VirtualToPhysicalAddress mm (vaddr + len1) = Inr p2"
      using VirtualToPhysical_spec [OF inv, of "vaddr + len1"] by (auto simp: VirtualToPhysicalAddress_def)
    have second: "VirtualToPhysicalAddress mm (vaddr + of_nat k) = Inr (p2 + of_nat (k - l1))"
      if k: "l1 \<le> k" "k < unat len" for k
    proof -
      from mapped [of l1] k obtain a2 where a2: "as_map (addr_space mm) (vpage (vaddr + of_nat l1)) = Some a2" by auto
      have m: "(unat vaddr + l1) mod 2 ^ 21 = 0" using l1(4) unfolding off_def by (metis mod_add_left_eq mod_self)
      have w: "unat (vaddr + of_nat l1) = unat vaddr + l1" "vaddr + of_nat l1 + of_nat (k - l1) = vaddr + of_nat k"
        using vk [of l1] k by (simp_all add: add.assoc)
      have "VirtualToPhysicalAddress mm (vaddr + of_nat l1) = Inr a2"
        using translate_shift [OF inv a2, of 0] w m by simp
      then have "p2 = a2" using p2 len1' by simp
      then show ?thesis
        using translate_shift [OF inv a2, of "k - l1"] w m k len(2) l1(1) vk [of k] by simp
    qed
    have "BufferAddress mm vaddr len = Inr (Returned [ucast len1, ucast ((a + of_nat off) AND 0xffffffff),
        ucast (drop_bit 32 (a + of_nat off)), ucast (len - len1), ucast (p2 AND 0xffffffff), ucast (drop_bit 32 p2)])"
      using pstart p2 less len(1) unfolding BufferAddress_def js_check_def Let_def len1_def by auto
    moreover have "unat (ucast len1 :: u32) = l1" "unat (ucast (len - len1) :: u32) = unat len - l1"
      using len(2) len1 len2 l1 by (simp_all add: unsigned_ucast_eq take_bit_nat_eq_self)
    ultimately show ?thesis
      using first second l1 empty by (fastforce simp: seg_addr_halves)
  qed
qed

theorem buffer_address_exact_witness:
  "\<exists>mm :: unit MemManager. \<exists>l1 lo1 hi1 l2 lo2 hi2.
     BufferAddress mm 0x1FFF00 0x200 = Inr (Returned [l1, lo1, hi1, l2, lo2, hi2]) \<and> unat l1 + unat l2 = 0x200"
proof -
  obtain s0 s n where s: "mk_AddressSpaceX64 boot_tables (\<lambda>_. 0) = Inr s0" "Configure s0 = Inr s" "as_inv s n"
    "as_map s = map_of (map (\<lambda>(v, p). (vpage v, PageAligned p)) (map (\<lambda>k. (0x200000 * of_nat k, 0x200000 * of_nat k)) [0..<16]))"
    using Configure_ok [of boot_tables "\<lambda>_. 0"] by (auto simp: boot_tables_def simp del: upt_rec_numeral)
  obtain mm0 :: "unit MemManager" where "mk_MemManager sample_pa (\<lambda>_. 0) () = Inr mm0"
    using InitSubsystems_boot [OF sample_pa_inv sample_dl_creates] by blast
  define mm where "mm = mm0\<lparr>addr_space := s\<rparr>"
  have "as_map (addr_space mm) (vpage (0x1FFF00 + of_nat k)) \<noteq> None" if "k < 0x200" for k
  proof -
    have "unat (of_nat k :: u64) = k" using that by (intro unat_of_nat_small) simp
    then have v: "unat (0x1FFF00 + of_nat k :: u64) = 0x1FFF00 + k" using that by (subst unat_add_no_wrap) auto
    then have "vpage (0x1FFF00 + of_nat k) = (0, 0, (0x1FFF00 + k) div 2 ^ 21)"
      using idx_low [of "0x1FFF00 + of_nat k"] that by simp
    then show ?thesis
      using identity_map_of [of "(0x1FFF00 + k) div 2 ^ 21"] that
      by (simp add: mm_def s(4) less_mult_imp_div_less del: upt_rec_numeral)
  qed
  from buffer_address_exact [where mm = mm and n = n and len = "0x200" and vaddr = "0x1FFF00", OF _ _ _ _ this] s(3)
  show ?thesis by (fastforce simp: mm_def)
qed

end
