(* ===== verification/Printf.thy ===== *)
theory Printf
  imports Prelude
begin

text \<open>
  The formatter behind every message of the kernel: \<open>tfp_format\<close> and the \<open>sprintf\<close> family of
  \<^verbatim>\<open>src/deps/printf/printf.cc\<close>, which \<^verbatim>\<open>src/src/libc_calls.cc\<close> and \<^verbatim>\<open>src/src/kernel/logger.h\<close> call.
  A C string is the list of its bytes without the terminating zero; reading at its end gives 0. The
  control flow of \<open>tfp_format\<close> does not depend on the callback it is given, so the model returns the
  characters passed to the callback, in order; the offset of a character is its index. The structure
  \<open>param\<close> lives across directives and is not initialised by the source, so its first value is an
  argument. A variadic argument of the wrong type is an access outside an object.

  The lemmas show that numbers print exactly, padded to the field width, within the 23 bytes of
  the digit buffer, that the scanner of widths reads such a text back, and that \<open>vsnprintf\<close> stays
  within its buffer.
\<close>

section \<open>Definitions\<close>

record param =
  lz :: bool
  alt :: bool
  uc :: bool
  align_left :: bool
  width :: u32
  sign :: u8
  base :: u32
  bf :: "u8 list"

datatype va_arg = AInt u32 | ALong u64 | AStr "u8 list"

definition next_char :: "u8 list \<Rightarrow> u8 \<times> u8 list" where
  "next_char s = (case s of [] \<Rightarrow> (0, []) | c # cs \<Rightarrow> (c, cs))"

subsection \<open>Digits\<close>

definition digit_out :: "bool \<Rightarrow> u32 \<Rightarrow> u8" where
  "digit_out upper dgt = ucast dgt + (if dgt < 10 then 0x30 else (if upper then 0x41 else 0x61) - 10)"

fun scale :: "nat \<Rightarrow> 'a::len word \<Rightarrow> 'a word \<Rightarrow> 'a word \<Rightarrow> 'a word res" where
  "scale fuel num b d =
     (if num div d \<ge> b then (case fuel of 0 \<Rightarrow> Inl OutOfFuel | Suc k \<Rightarrow> scale k num b (d * b)) else Inr d)"

fun emit :: "nat \<Rightarrow> 'a::len word \<Rightarrow> 'a word \<Rightarrow> 'a word \<Rightarrow> bool \<Rightarrow> nat \<Rightarrow> u8 list res" where
  "emit fuel num d b upper n =
     (if d = 0 then Inr []
      else case fuel of 0 \<Rightarrow> Inl OutOfFuel
      | Suc k \<Rightarrow>
        let dgt = ucast (num div d) :: u32; num' = num mod d; d' = d div b in
        if n > 0 \<or> dgt > 0 \<or> d' = 0
        then res_bind (emit k num' d' b upper (Suc n)) (\<lambda>r. Inr (digit_out upper dgt # r))
        else emit k num' d' b upper n)"

declare scale.simps [simp del] emit.simps [simp del]

text \<open>
  The three unsigned conversions differ in the type of the number only. The digits and their
  terminating zero go into the buffer \<open>char bf[23]\<close>.
\<close>

definition num2a :: "'a::len word \<Rightarrow> param \<Rightarrow> param res" where
  "num2a num p =
     res_bind (scale LENGTH('a) num (ucast (base p)) 1) (\<lambda>d.
     res_bind (emit LENGTH('a) num d (ucast (base p)) (uc p) 0) (\<lambda>ds.
       if length ds < 23 then Inr (p\<lparr>bf := ds\<rparr>) else Inl (OutOfBounds ''bf'')))"

definition ulli2a :: "u64 \<Rightarrow> param \<Rightarrow> param res" where "ulli2a = num2a"
definition uli2a :: "u64 \<Rightarrow> param \<Rightarrow> param res" where "uli2a = num2a"
definition ui2a :: "u32 \<Rightarrow> param \<Rightarrow> param res" where "ui2a = num2a"

definition lli2a :: "u64 \<Rightarrow> param \<Rightarrow> param res" where
  "lli2a num p = (if num <s 0 then ulli2a (- num) (p\<lparr>sign := 0x2D\<rparr>) else ulli2a num p)"

definition li2a :: "u64 \<Rightarrow> param \<Rightarrow> param res" where
  "li2a num p = (if num <s 0 then uli2a (- num) (p\<lparr>sign := 0x2D\<rparr>) else uli2a num p)"

definition i2a :: "u32 \<Rightarrow> param \<Rightarrow> param res" where
  "i2a num p = (if num <s 0 then ui2a (- num) (p\<lparr>sign := 0x2D\<rparr>) else ui2a num p)"

definition a2d :: "u8 \<Rightarrow> int" where
  "a2d ch = (if 0x30 \<le> ch \<and> ch \<le> 0x39 then uint ch - 0x30
     else if 0x61 \<le> ch \<and> ch \<le> 0x66 then uint ch - 0x61 + 10
     else if 0x41 \<le> ch \<and> ch \<le> 0x46 then uint ch - 0x41 + 10
     else - 1)"

text \<open>\<open>a2u\<close> accepts a digit that equals the base: \<open>a\<close> is a decimal digit to it.\<close>

fun a2u :: "u8 \<Rightarrow> u8 list \<Rightarrow> int \<Rightarrow> u32 \<Rightarrow> u8 \<times> u8 list \<times> u32" where
  "a2u ch src b num =
     (if 0 \<le> a2d ch \<and> a2d ch \<le> b then
        (case src of
           [] \<Rightarrow> (0, [], num * of_int b + of_int (a2d ch))
         | c # cs \<Rightarrow> a2u c cs b (num * of_int b + of_int (a2d ch)))
      else (ch, src, num))"

declare a2u.simps [simp del]

subsection \<open>A directive\<close>

definition putchw :: "param \<Rightarrow> u8 list" where
  "putchw p =
     (let w = sint (width p);
          n0 = (if w > 0 then max 0 (w - int (length (bf p))) else w);
          n1 = (if sign p \<noteq> 0 then n0 - 1 else n0);
          n = (if alt p \<and> base p = 16 then n1 - 2 else if alt p \<and> base p = 8 then n1 - 1 else n1) in
      (if \<not> lz p \<and> \<not> align_left p then replicate (nat n) 0x20 else []) @
      (if sign p \<noteq> 0 then [sign p] else []) @
      (if alt p \<and> base p = 16 then [0x30, if uc p then 0x58 else 0x78]
       else if alt p \<and> base p = 8 then [0x30] else []) @
      (if lz p then replicate (nat n) 0x30 else []) @
      bf p @
      (if \<not> lz p \<and> align_left p then replicate (nat n) 0x20 else []))"

fun flags :: "u8 list \<Rightarrow> param \<Rightarrow> u8 \<times> u8 list \<times> param" where
  "flags [] p = (0, [], p)"
| "flags (ch # fmt) p =
     (if ch = 0x2D then flags fmt (p\<lparr>align_left := True\<rparr>)
      else if ch = 0x30 then flags fmt (p\<lparr>lz := True\<rparr>)
      else if ch = 0x23 then flags fmt (p\<lparr>alt := True\<rparr>)
      else (ch, fmt, p))"

fun skip_digits :: "u8 list \<Rightarrow> u8 \<times> u8 list" where
  "skip_digits [] = (0, [])"
| "skip_digits (ch # fmt) = (if 0x30 \<le> ch \<and> ch \<le> 0x39 then skip_digits fmt else (ch, fmt))"

definition take_int :: "va_arg list \<Rightarrow> (u32 \<times> va_arg list) res" where
  "take_int va = (case va of AInt w # r \<Rightarrow> Inr (w, r) | _ \<Rightarrow> Inl (OutOfBounds ''va_arg''))"

definition take_long :: "va_arg list \<Rightarrow> (u64 \<times> va_arg list) res" where
  "take_long va = (case va of ALong w # r \<Rightarrow> Inr (w, r) | _ \<Rightarrow> Inl (OutOfBounds ''va_arg''))"

definition take_str :: "va_arg list \<Rightarrow> (u8 list \<times> va_arg list) res" where
  "take_str va = (case va of AStr s # r \<Rightarrow> Inr (s, r) | _ \<Rightarrow> Inl (OutOfBounds ''va_arg''))"

definition conv_unsigned :: "nat \<Rightarrow> param \<Rightarrow> va_arg list \<Rightarrow> (param \<times> va_arg list) res" where
  "conv_unsigned lng p va =
     (if lng = 2 then res_bind (take_long va) (\<lambda>(w, r). res_bind (ulli2a w p) (\<lambda>p'. Inr (p', r)))
      else if lng = 1 then res_bind (take_long va) (\<lambda>(w, r). res_bind (uli2a w p) (\<lambda>p'. Inr (p', r)))
      else res_bind (take_int va) (\<lambda>(w, r). res_bind (ui2a w p) (\<lambda>p'. Inr (p', r))))"

definition conv_signed :: "nat \<Rightarrow> param \<Rightarrow> va_arg list \<Rightarrow> (param \<times> va_arg list) res" where
  "conv_signed lng p va =
     (if lng = 2 then res_bind (take_long va) (\<lambda>(w, r). res_bind (lli2a w p) (\<lambda>p'. Inr (p', r)))
      else if lng = 1 then res_bind (take_long va) (\<lambda>(w, r). res_bind (li2a w p) (\<lambda>p'. Inr (p', r)))
      else res_bind (take_int va) (\<lambda>(w, r). res_bind (i2a w p) (\<lambda>p'. Inr (p', r))))"

text \<open>The \<open>switch\<close> over the conversion character: the output, the parameters and the remaining arguments.\<close>

definition convert :: "u8 \<Rightarrow> nat \<Rightarrow> param \<Rightarrow> va_arg list \<Rightarrow> (u8 list \<times> param \<times> va_arg list) res" where
  "convert ch lng p va =
     (if ch = 0x75 then
        res_bind (conv_unsigned lng (p\<lparr>base := 10\<rparr>) va) (\<lambda>(q, r). Inr (putchw q, q, r))
      else if ch = 0x64 \<or> ch = 0x69 then
        res_bind (conv_signed lng (p\<lparr>base := 10\<rparr>) va) (\<lambda>(q, r). Inr (putchw q, q, r))
      else if ch = 0x70 then
        res_bind (conv_unsigned 1 (p\<lparr>alt := True, base := 16, uc := False\<rparr>) va) (\<lambda>(q, r). Inr (putchw q, q, r))
      else if ch = 0x78 \<or> ch = 0x58 then
        res_bind (conv_unsigned lng (p\<lparr>base := 16, uc := (ch = 0x58)\<rparr>) va) (\<lambda>(q, r). Inr (putchw q, q, r))
      else if ch = 0x6F then
        res_bind (conv_unsigned 0 (p\<lparr>base := 8\<rparr>) va) (\<lambda>(q, r). Inr (putchw q, q, r))
      else if ch = 0x63 then
        res_bind (take_int va) (\<lambda>(w, r). Inr ([ucast w], p, r))
      else if ch = 0x73 then
        res_bind (take_str va) (\<lambda>(s, r). Inr (putchw (p\<lparr>bf := s\<rparr>), p, r))
      else if ch = 0x25 then Inr ([ch], p, va)
      else Inr ([], p, va))"

text \<open>Flags, width, precision and length modifier: the conversion character, the rest, \<open>lng\<close>, the parameters.\<close>

definition scan_directive :: "u8 list \<Rightarrow> param \<Rightarrow> u8 \<times> u8 list \<times> nat \<times> param" where
  "scan_directive fmt0 p0 =
     (let (ch1, fmt1, p1) = flags fmt0 (p0\<lparr>lz := False, alt := False, width := 0, align_left := False, sign := 0\<rparr>);
          (ch2, fmt2, p2) = (if 0x30 \<le> ch1 \<and> ch1 \<le> 0x39
             then (case a2u ch1 fmt1 10 0 of (c, f, w) \<Rightarrow> (c, f, p1\<lparr>width := w\<rparr>)) else (ch1, fmt1, p1));
          (ch3, fmt3, p3) = (if ch2 = 0x2E
             then (case skip_digits fmt2 of (c, f) \<Rightarrow> (c, f, p2\<lparr>lz := True\<rparr>)) else (ch2, fmt2, p2)) in
      if ch3 = 0x6C then
        (case next_char fmt3 of (c, f) \<Rightarrow>
           if c = 0x6C then (case next_char f of (c', f') \<Rightarrow> (c', f', 2, p3)) else (c, f, 1, p3))
      else (ch3, fmt3, 0, p3))"

lemma length_flags: "flags fmt p = (c, f, q) \<Longrightarrow> length f \<le> length fmt"
  by (induction fmt p rule: flags.induct) (auto split: if_splits)

lemma length_a2u: "a2u ch src b num = (c, f, w) \<Longrightarrow> length f \<le> length src"
proof (induction ch src b num rule: a2u.induct)
  case (1 ch src b num)
  show ?case
  proof (cases "0 \<le> a2d ch \<and> a2d ch \<le> b")
    case True
    with 1 show ?thesis
      by (cases src) (auto simp: a2u.simps [of ch] dest!: 1(1) [rotated 1])
  next
    case False
    with 1(2) show ?thesis by (simp add: a2u.simps [of ch])
  qed
qed

lemma length_skip_digits: "skip_digits fmt = (c, f) \<Longrightarrow> length f \<le> length fmt"
  by (induction fmt) (auto split: if_splits)

lemma length_next_char: "next_char s = (c, f) \<Longrightarrow> length f \<le> length s"
  by (auto simp: next_char_def split: list.splits)

lemma length_scan_directive: "scan_directive fmt p = (c, f, l, q) \<Longrightarrow> length f \<le> length fmt"
  by (auto simp: scan_directive_def Let_def split: prod.splits if_splits
      dest!: length_flags length_a2u length_skip_digits length_next_char)

function tfp_format :: "u8 list \<Rightarrow> va_arg list \<Rightarrow> param \<Rightarrow> u8 list res" where
  "tfp_format [] va p = Inr []"
| "tfp_format (ch # fmt) va p =
     (if ch = 0 then Inr []
      else if ch \<noteq> 0x25 then res_bind (tfp_format fmt va p) (\<lambda>out. Inr (ch # out))
      else case scan_directive fmt p of (c, fmt', lng, p1) \<Rightarrow>
        if c = 0 then Inr []
        else res_bind (convert c lng p1 va) (\<lambda>(o1, p2, va').
             res_bind (tfp_format fmt' va' p2) (\<lambda>out. Inr (o1 @ out))))"
  by pat_completeness auto
termination
  by (relation "measure (\<lambda>(fmt, va, p). length fmt)")
    (auto dest!: length_scan_directive [OF sym])

subsection \<open>Into memory\<close>

record cp_opt =
  opt_buf :: "u8 list"
  opt_pos :: nat
  max_len :: u64
  max_len_enabled :: bool

definition putcp :: "u8 \<Rightarrow> u64 \<Rightarrow> cp_opt \<Rightarrow> cp_opt res" where
  "putcp c offset opt =
     (if max_len_enabled opt \<and> max_len opt = 0 then Inr opt
      else if \<not> max_len_enabled opt \<or> offset < max_len opt - 1 then
        if opt_pos opt < length (opt_buf opt)
        then Inr (opt\<lparr>opt_buf := (opt_buf opt)[opt_pos opt := c], opt_pos := Suc (opt_pos opt)\<rparr>)
        else Inl (OutOfBounds ''*(opt->buf)++'')
      else Inr opt)"

primrec put_all :: "u8 list \<Rightarrow> nat \<Rightarrow> cp_opt \<Rightarrow> cp_opt res" where
  "put_all [] count opt = Inr opt"
| "put_all (c # cs) count opt = res_bind (putcp c (of_nat count) opt) (put_all cs (Suc count))"

definition tfp_vsprintf :: "u8 list \<Rightarrow> u8 list \<Rightarrow> va_arg list \<Rightarrow> param \<Rightarrow> (nat \<times> u8 list) res" where
  "tfp_vsprintf s fmt va p =
     res_bind (tfp_format fmt va p) (\<lambda>out.
     res_bind (put_all out 0 \<lparr>opt_buf = s, opt_pos = 0, max_len = 0, max_len_enabled = False\<rparr>) (\<lambda>opt.
     res_bind (putcp 0 0 opt) (\<lambda>opt'. Inr (length out, opt_buf opt'))))"

definition tfp_vsnprintf :: "u8 list \<Rightarrow> u64 \<Rightarrow> u8 list \<Rightarrow> va_arg list \<Rightarrow> param \<Rightarrow> (nat \<times> u8 list) res" where
  "tfp_vsnprintf s n fmt va p =
     res_bind (tfp_format fmt va p) (\<lambda>out.
     res_bind (put_all out 0 \<lparr>opt_buf = s, opt_pos = 0, max_len = n, max_len_enabled = True\<rparr>) (\<lambda>opt.
     res_bind (if n > 0 then putcp 0 0 (opt\<lparr>max_len_enabled := False\<rparr>) else Inr opt) (\<lambda>opt'.
       Inr (length out, opt_buf opt'))))"

section \<open>Numbers\<close>

definition digits_value :: "nat \<Rightarrow> u8 list \<Rightarrow> nat" where
  "digits_value b ds = foldl (\<lambda>a c. a * b + nat (a2d c)) 0 ds"

definition digits_ok :: "nat \<Rightarrow> u8 list \<Rightarrow> bool" where
  "digits_ok b ds \<longleftrightarrow> ds \<noteq> [] \<and> (\<forall>c \<in> set ds. 0 \<le> a2d c \<and> a2d c < int b) \<and> (hd ds = 0x30 \<longrightarrow> length ds = 1)"

lemma foldl_digits:
  "foldl (\<lambda>a c. a * b + nat (a2d c)) k ds = k * b ^ length ds + digits_value b ds"
proof (induction ds arbitrary: k)
  case (Cons c ds)
  have "digits_value b (c # ds) = nat (a2d c) * b ^ length ds + digits_value b ds"
    using Cons [of "nat (a2d c)"] by (simp add: digits_value_def)
  with Cons [of "k * b + nat (a2d c)"] show ?case by (simp add: algebra_simps)
qed (simp add: digits_value_def)

lemma digits_value_Cons: "digits_value b (c # ds) = nat (a2d c) * b ^ length ds + digits_value b ds"
  using foldl_digits [of b "nat (a2d c)" ds] by (simp add: digits_value_def)

lemma digit_out_value:
  assumes "k < 16"
  shows "a2d (digit_out upper (of_nat k)) = int k" "digit_out upper (of_nat k) = 0x30 \<longleftrightarrow> k = 0"
proof -
  have "k = 0 \<or> k = 1 \<or> k = 2 \<or> k = 3 \<or> k = 4 \<or> k = 5 \<or> k = 6 \<or> k = 7 \<or> k = 8 \<or> k = 9 \<or> k = 10 \<or> k = 11
    \<or> k = 12 \<or> k = 13 \<or> k = 14 \<or> k = 15" using assms by presburger
  then show "a2d (digit_out upper (of_nat k)) = int k" "digit_out upper (of_nat k) = 0x30 \<longleftrightarrow> k = 0"
    by (elim disjE; simp add: digit_out_def a2d_def)+
qed

text \<open>The loops on words: \<open>d\<close> runs through the powers of the base, up and down again.\<close>

lemma scale_power:
  assumes "unat b = B" "2 \<le> B" "unat d = B ^ k" "B ^ k \<le> unat (num :: 'a::len word) \<or> k = 0" "LENGTH('a) \<le> fuel + k"
  shows "\<exists>e j. scale fuel num b d = Inr e \<and> unat e = B ^ j \<and> unat num < B ^ Suc j \<and> (B ^ j \<le> unat num \<or> j = 0)"
  using assms(3-5)
proof (induction fuel arbitrary: d k)
  case (0 d k)
  have num: "unat num < 2 ^ LENGTH('a)" by (rule unsigned_less)
  also have "2 ^ LENGTH('a) \<le> B ^ LENGTH('a)" using assms(2) by (rule power_mono) simp
  also have "\<dots> \<le> B ^ k" using 0(3) assms(2) by (intro power_increasing) simp_all
  finally have less: "unat num < B ^ k" .
  have "k \<noteq> 0" using 0(3) len_gt_0 [where 'a = 'a] by linarith
  with less 0(2) show ?case by simp
next
  case (Suc fuel d k)
  have step: "num div d \<ge> b \<longleftrightarrow> B ^ Suc k \<le> unat num"
    using Suc.prems(1) assms(1,2) by (simp add: word_le_nat_alt unat_div less_eq_div_iff_mult_less_eq mult.commute)
  show ?case
  proof (cases "num div d \<ge> b")
    case True
    with step have le: "B ^ Suc k \<le> unat num" by simp
    also have "\<dots> < 2 ^ LENGTH('a)" by (rule unsigned_less)
    finally have "unat (d * b) = B ^ Suc k"
      using Suc.prems(1) assms(1) by (simp add: unat_word_ariths mult.commute)
    from Suc.IH [OF this] le Suc.prems(3) True show ?thesis by (subst scale.simps) simp
  next
    case False
    with step Suc.prems show ?thesis by (subst scale.simps) (auto simp: not_le)
  qed
qed

lemma emit_digits:
  assumes "unat b = B" "2 \<le> B" "B \<le> 16" "unat d = B ^ k" "unat (num :: 'a::len word) < B ^ Suc k" "k < fuel"
    and "n > 0 \<or> B ^ k \<le> unat num \<or> k = 0"
  shows "\<exists>ds. emit fuel num d b upper n = Inr ds \<and> length ds = Suc k \<and> digits_value B ds = unat num \<and>
    (\<forall>c \<in> set ds. 0 \<le> a2d c \<and> a2d c < int B) \<and> (hd ds = 0x30 \<longleftrightarrow> unat num < B ^ k)"
  using assms(4-7)
proof (induction k arbitrary: d num fuel n)
  case (0 d num fuel n)
  then obtain f where f: "fuel = Suc f" by (cases fuel) auto
  have d: "d = 1" using 0(1) by (simp add: word_unat_eq_iff)
  have b: "b \<noteq> 1" "(1 :: 'a word) div b = 0"
    using assms(1,2) by auto
  have u: "ucast (num div 1) = (of_nat (unat num) :: u32)" by simp
  have "emit f 0 0 b upper (Suc n) = Inr []" by (subst emit.simps) simp
  moreover have "num mod 1 = 0" by (intro word_unat_eq_iff [THEN iffD2]) (simp add: unat_mod)
  ultimately have "emit fuel num d b upper n = Inr [digit_out upper (of_nat (unat num))]"
    unfolding f d by (subst emit.simps) (simp add: b u Let_def)
  moreover have "unat num < 16" "int (unat num) < int B" using 0(2) assms(3) by (simp, simp only: of_nat_less_iff power_one_right power_Suc power_0 mult_1_right)
  ultimately show ?case using 0(2) digit_out_value [of "unat num" upper] by (simp add: digits_value_def)
next
  case (Suc k d num fuel n)
  then obtain f where f: "fuel = Suc f" by (cases fuel) auto
  let ?q = "unat num div B ^ Suc k"
  have B: "0 < B ^ k" "0 < B ^ Suc k" using assms(2) by simp_all
  have q: "?q < B" using Suc.prems(2) B by (simp add: div_less_iff_less_mult mult.commute)
  have d0: "d \<noteq> 0" using Suc.prems(1) B by auto
  have d': "unat (d div b) = B ^ k" using Suc.prems(1) assms(1,2) by (simp add: unat_div)
  then have d'0: "d div b \<noteq> 0" using B(1) by auto
  have m: "unat (num mod d) = unat num mod B ^ Suc k" using Suc.prems(1) by (simp add: unat_mod)
  then have mless: "unat (num mod d) < B ^ Suc k" using B by simp
  have "unat (num div d) = ?q" using Suc.prems(1) by (simp add: unat_div)
  then have u: "ucast (num div d) = (of_nat ?q :: u32)" by (metis of_nat_unat)
  have q0: "(of_nat ?q :: u32) > 0 \<or> n > 0"
  proof (cases "n > 0")
    case False
    with Suc.prems(4) have "B ^ Suc k \<le> unat num" by simp
    then have "0 < ?q" using B by (simp add: div_greater_zero_iff)
    then show ?thesis using q assms(3) by (simp add: word_greater_zero_iff of_nat_small_eq_0)
  qed simp
  from Suc.IH [of "d div b" "num mod d" f "Suc n"] d' mless f Suc.prems(3) obtain ds where
    ds: "emit f (num mod d) (d div b) b upper (Suc n) = Inr ds" "length ds = Suc k" "digits_value B ds = unat (num mod d)"
      "\<forall>c \<in> set ds. 0 \<le> a2d c \<and> a2d c < int B" by auto
  have "emit fuel num d b upper n = Inr (digit_out upper (of_nat ?q) # ds)"
    unfolding f using d0 q0 ds(1) by (subst emit.simps) (auto simp: u Let_def)
  moreover have "digits_value B (digit_out upper (of_nat ?q) # ds) = unat num"
    using ds q assms(3) div_mult_mod_eq [of "unat num" "B * B ^ k"] by (simp add: digits_value_Cons digit_out_value m)
  moreover have "?q = 0 \<longleftrightarrow> unat num < B ^ Suc k" using B by (simp add: div_eq_0_iff)
  ultimately show ?case using ds q assms(3) by (simp add: digit_out_value)
qed

lemma num2a_digits:
  assumes "base p = 8 \<and> LENGTH('a) \<le> 32 \<or> base p = 10 \<or> base p = 16" "32 \<le> LENGTH('a)" "LENGTH('a) \<le> 64"
  shows "\<exists>ds. num2a (num :: 'a::len word) p = Inr (p\<lparr>bf := ds\<rparr>) \<and> digits_ok (unat (base p)) ds \<and>
    digits_value (unat (base p)) ds = unat num"
proof -
  let ?B = "unat (base p)"
  have B: "2 \<le> ?B" "?B \<le> 16" using assms(1) by auto
  have b: "unat (ucast (base p) :: 'a word) = ?B" using assms(2) by (simp add: unat_ucast_up)
  obtain e j where e: "scale LENGTH('a) num (ucast (base p)) 1 = Inr e" "unat e = ?B ^ j" "unat num < ?B ^ Suc j"
    "?B ^ j \<le> unat num \<or> j = 0"
    using scale_power [OF b B(1), of 1 0 num "LENGTH('a)"] by auto
  have num: "unat num < 2 ^ LENGTH('a)" by (rule unsigned_less)
  have j: "?B ^ j < 2 ^ LENGTH('a) \<or> j = 0" using e(4) num by linarith
  have j22: "j < 22 \<and> j < LENGTH('a)"
  proof (cases "j = 0")
    case False
    have "(2 :: nat) ^ j \<le> ?B ^ j" using B(1) by (rule power_mono) simp
    with j False have jl: "(2 :: nat) ^ j < 2 ^ LENGTH('a)" by linarith
    then have "j < LENGTH('a)" by (simp add: power_strict_increasing_iff)
    moreover have "j < 22"
    proof (rule ccontr)
      assume "\<not> j < 22"
      then have "?B ^ 22 \<le> ?B ^ j" using B(1) by (intro power_increasing) simp_all
      moreover have "(2 :: nat) ^ LENGTH('a) \<le> 2 ^ (if base p = 8 then 32 else 64)"
        using assms(1,3) by (intro power_increasing) auto
      ultimately have "?B ^ 22 < 2 ^ (if base p = 8 then 32 else 64)" using j False by linarith
      with assms(1) show False by auto
    qed
    ultimately show ?thesis by simp
  qed (use len_gt_0 in auto)
  then obtain ds where ds: "emit LENGTH('a) num e (ucast (base p)) (uc p) 0 = Inr ds" "length ds = Suc j"
    "digits_value ?B ds = unat num" "\<forall>c \<in> set ds. 0 \<le> a2d c \<and> a2d c < int ?B" "hd ds = 0x30 \<longleftrightarrow> unat num < ?B ^ j"
    using emit_digits [OF b B e(2,3), of "LENGTH('a)" 0 "uc p"] e(4) by auto
  then have "digits_ok ?B ds" using e(4) by (auto simp: digits_ok_def)
  moreover have "num2a num p = Inr (p\<lparr>bf := ds\<rparr>)" using e(1) ds j22 by (simp add: num2a_def)
  ultimately show ?thesis using ds(3) by blast
qed

text \<open>The scanner of widths reads the digits that the conversions print.\<close>

lemma a2u_digits:
  assumes "\<forall>c \<in> set (ch # cs). 0 \<le> a2d c \<and> a2d c \<le> b" "\<not> (0 \<le> a2d e \<and> a2d e \<le> b)" "0 \<le> b"
  shows "a2u ch (cs @ e # rest) b num =
    (e, rest, of_nat (foldl (\<lambda>a c. a * nat b + nat (a2d c)) (unat num) (ch # cs)))"
  using assms(1)
proof (induction cs arbitrary: ch num)
  case Nil
  then show ?case using assms(2,3) by (auto simp: a2u.simps)
next
  case (Cons c cs)
  let ?n = "num * of_int b + of_int (a2d ch)"
  let ?k = "unat num * nat b + nat (a2d ch)"
  let ?f = "\<lambda>k. foldl (\<lambda>a c. a * nat b + nat (a2d c)) k (c # cs)"
  have ch: "0 \<le> a2d ch" "a2d ch \<le> b" using Cons.prems by auto
  have n: "?n = of_nat ?k" using ch assms(3) by simp
  have fold: "?f k = k * nat b ^ length (c # cs) + digits_value (nat b) (c # cs)" for k
    by (rule foldl_digits)
  have "(of_nat (?f (unat ?n)) :: u32) = of_nat (?f ?k)"
    unfolding fold n by (simp only: of_nat_add of_nat_mult of_nat_unat ucast_id)
  with Cons ch show ?case by (simp add: a2u.simps [of ch])
qed

definition wdigits :: "u8 list \<Rightarrow> bool" where
  "wdigits ws \<longleftrightarrow> (\<forall>c \<in> set ws. 0x30 \<le> c \<and> c \<le> 0x39) \<and> (ws = [] \<or> hd ws \<noteq> 0x30)"

lemma a2d_decimal: "0x30 \<le> c \<Longrightarrow> c \<le> 0x39 \<Longrightarrow> 0 \<le> a2d c \<and> a2d c \<le> 9"
  by (simp add: a2d_def word_le_def)

definition flag_text :: "bool \<Rightarrow> bool \<Rightarrow> bool \<Rightarrow> u8 list" where
  "flag_text left zero hash = (if left then [0x2D] else []) @ (if zero then [0x30] else []) @ (if hash then [0x23] else [])"

lemma flags_text:
  assumes "c \<noteq> 0x2D" "c \<noteq> 0x30" "c \<noteq> 0x23"
  shows "flags (flag_text left zero hash @ c # rest) p =
    (c, rest, p\<lparr>align_left := (left \<or> align_left p), lz := (zero \<or> lz p), alt := (hash \<or> alt p)\<rparr>)"
  using assms by (cases left; cases zero; cases hash) (simp_all add: flag_text_def)

lemma scan_number:
  assumes "wdigits ws" "conv \<in> {0x64, 0x75, 0x78, 0x58, 0x6F}" "digits_value 10 ws < 2 ^ 32"
  shows "scan_directive (flag_text left zero hash @ ws @ conv # rest) p =
    (conv, rest, 0, p\<lparr>lz := zero, alt := hash, align_left := left, width := of_nat (digits_value 10 ws), sign := 0\<rparr>)"
proof (cases ws)
  case Nil
  then show ?thesis using assms(2)
    by (auto simp: scan_directive_def flags_text digits_value_def Let_def)
next
  case (Cons w vs)
  have w: "0x30 \<le> w" "w \<le> 0x39" "w \<noteq> 0x30" "\<forall>c \<in> set (w # vs). 0 \<le> a2d c \<and> a2d c \<le> 10"
    using assms(1) Cons a2d_decimal by (fastforce simp: wdigits_def)+
  have w': "w \<noteq> 0x2D" "w \<noteq> 0x23" using w(1) by auto
  have stop: "\<not> (0 \<le> a2d conv \<and> a2d conv \<le> 10)" using assms(2) by (auto simp: a2d_def)
  have "a2u w (vs @ conv # rest) 10 0 = (conv, rest, of_nat (digits_value 10 ws))"
    using a2u_digits [OF w(4) stop, of rest 0] Cons by (simp add: digits_value_def)
  then show ?thesis using assms(2) Cons w w'
    by (auto simp: scan_directive_def flags_text Let_def)
qed

lemma sint_small:
  assumes "unat (w :: 'a::len word) < 2 ^ (LENGTH('a) - 1)"
  shows "sint w = int (unat w)"
proof -
  have "uint w = int (unat w)" by simp
  then have "uint w < 2 ^ (LENGTH('a) - 1)" using assms by (simp_all flip: of_nat_less_iff [where 'a = int])
  moreover have "- (2 ^ (LENGTH('a) - 1)) \<le> uint w" by (rule order_trans [of _ 0]) simp_all
  ultimately show ?thesis by (simp add: sint_uint signed_take_bit_int_eq_self)
qed

lemma sint_magnitude: "sint (w :: u32) = (if w <s 0 then - int (unat (- w)) else int (unat w))"
proof -
  have ge: "- (2 ^ 31) \<le> sint w" "sint w < 2 ^ 31" using sint_ge [of w] sint_lt [of w] by simp_all
  have "uint (word_of_int k :: u32) = k" if "0 \<le> k" "k < 2 ^ 32" for k
    using that by (simp only: uint_word_of_int) (simp add: mod_pos_pos_trivial)
  from this [of "- sint w"] this [of "sint w"] ge show ?thesis by (simp add: word_sless_alt)
qed

section \<open>The printed field\<close>

definition conv_base :: "u8 \<Rightarrow> nat" where
  "conv_base conv = (if conv = 0x78 \<or> conv = 0x58 then 16 else if conv = 0x6F then 8 else 10)"

definition magnitude :: "u8 \<Rightarrow> u32 \<Rightarrow> u32" where
  "magnitude conv n = (if conv = 0x64 \<and> n <s 0 then - n else n)"

definition number_prefix :: "u8 \<Rightarrow> bool \<Rightarrow> u32 \<Rightarrow> u8 list" where
  "number_prefix conv hash n =
     (if conv = 0x64 \<and> n <s 0 then [0x2D] else []) @
     (if hash \<and> conv = 0x78 then [0x30, 0x78] else if hash \<and> conv = 0x58 then [0x30, 0x58]
      else if hash \<and> conv = 0x6F then [0x30] else [])"

definition number_field :: "bool \<Rightarrow> bool \<Rightarrow> nat \<Rightarrow> u8 list \<Rightarrow> u8 list \<Rightarrow> u8 list" where
  "number_field left zero w pre ds =
     (let n = w - (length pre + length ds) in
      if zero then pre @ replicate n 0x30 @ ds
      else if left then pre @ ds @ replicate n 0x20
      else replicate n 0x20 @ pre @ ds)"

lemma length_number_field: "length (number_field left zero w pre ds) = max w (length pre + length ds)"
  by (auto simp: number_field_def Let_def)

lemma putchw_field:
  assumes "sint (width p) = int w"
  shows "putchw p = number_field (align_left p) (lz p) w
    ((if sign p \<noteq> 0 then [sign p] else []) @
     (if alt p \<and> base p = 16 then [0x30, if uc p then 0x58 else 0x78] else if alt p \<and> base p = 8 then [0x30] else [])) (bf p)"
proof -
  have n: "nat (int w - int l - k) = w - (l + nat k)" if "0 \<le> k" for l k using that by simp
  show ?thesis
    unfolding putchw_def number_field_def Let_def assms
    by (auto simp: nat_diff_distrib' algebra_simps max_def intro!: arg_cong [where f = "\<lambda>n. replicate n _"])
qed

lemma conv_number:
  assumes "conv \<in> {0x64, 0x75, 0x78, 0x58, 0x6F}" "sign p = 0" "sint (width p) = int w"
  shows "\<exists>ds q. convert conv 0 p (AInt n # va) =
      Inr (number_field (align_left p) (lz p) w (number_prefix conv (alt p) n) ds, q, va) \<and>
    digits_ok (conv_base conv) ds \<and> digits_value (conv_base conv) ds = unat (magnitude conv n)"
proof -
  let ?b = "of_nat (conv_base conv) :: u32"
  let ?p = "p\<lparr>base := ?b, uc := (if conv_base conv = 16 then conv = 0x58 else uc p), sign := (if conv = 0x64 \<and> n <s 0 then 0x2D else 0)\<rparr>"
  have b: "unat ?b = conv_base conv" "base ?p = 8 \<or> base ?p = 10 \<or> base ?p = 16" by (simp_all add: conv_base_def)
  obtain ds where ds: "num2a (magnitude conv n) ?p = Inr (?p\<lparr>bf := ds\<rparr>)" "digits_ok (conv_base conv) ds"
    "digits_value (conv_base conv) ds = unat (magnitude conv n)"
    using num2a_digits [of ?p "magnitude conv n"] b by auto
  have "convert conv 0 p (AInt n # va) = Inr (putchw (?p\<lparr>bf := ds\<rparr>), ?p\<lparr>bf := ds\<rparr>, va)"
    using ds(1) assms(1,2)
    by (cases p) (auto simp: convert_def conv_unsigned_def conv_signed_def take_int_def i2a_def ui2a_def magnitude_def conv_base_def)
  moreover have "putchw (?p\<lparr>bf := ds\<rparr>) = number_field (align_left p) (lz p) w (number_prefix conv (alt p) n) ds"
    using assms by (subst putchw_field [where w = w]) (auto simp: number_prefix_def conv_base_def)
  ultimately show ?thesis using ds(2,3) by auto
qed

text \<open>
  C31. \<open>tfp_format\<close> prints integers exactly: for a directive \<open>%[-][0][#][width]conv\<close> of a width below 2^31 with \<open>conv\<close> one of
  \<open>d\<close>, \<open>u\<close>, \<open>x\<close>, \<open>X\<close>, \<open>o\<close> and an \<open>int\<close> argument, the output is the sign and the prefix of the alternate form
  and then digits whose value is the magnitude of the argument and which have no leading zero, padded with
  zeros or blanks to exactly the field width if they are shorter; the digit buffer does not
  overflow, and the rest of the format is processed with the remaining arguments.
\<close>

theorem printf_number:
  assumes "conv \<in> {0x64, 0x75, 0x78, 0x58, 0x6F}" "wdigits ws" "digits_value 10 ws < 2 ^ 31"
  shows "\<exists>ds q. tfp_format (0x25 # flag_text left zero hash @ ws @ conv # rest) (AInt n # va) p =
      res_bind (tfp_format rest va q) (\<lambda>out.
        Inr (number_field left zero (digits_value 10 ws) (number_prefix conv hash n) ds @ out)) \<and>
    digits_ok (conv_base conv) ds \<and> digits_value (conv_base conv) ds = unat (magnitude conv n) \<and>
    length (number_field left zero (digits_value 10 ws) (number_prefix conv hash n) ds) =
      max (digits_value 10 ws) (length (number_prefix conv hash n) + length ds) \<and>
    (conv = 0x64 \<longrightarrow> sint n = (if n <s 0 then - int (unat (magnitude conv n)) else int (unat (magnitude conv n))))"
proof -
  let ?w = "digits_value 10 ws"
  let ?p = "p\<lparr>lz := zero, alt := hash, align_left := left, width := of_nat ?w, sign := 0\<rparr>"
  have "unat (of_nat ?w :: u32) = ?w" using assms(3) by (intro unat_of_nat_small) simp
  then have w: "sint (width ?p) = int ?w" using assms(3) by (simp add: sint_small del: of_nat_unat)
  have scan: "scan_directive (flag_text left zero hash @ ws @ conv # rest) p = (conv, rest, 0, ?p)"
    using assms by (intro scan_number) simp_all
  obtain ds q where ds: "convert conv 0 ?p (AInt n # va) = Inr (number_field left zero ?w (number_prefix conv hash n) ds, q, va)"
    "digits_ok (conv_base conv) ds" "digits_value (conv_base conv) ds = unat (magnitude conv n)"
    using conv_number [OF assms(1) _ w, of n va] by auto
  have "conv \<noteq> 0" using assms(1) by auto
  with scan ds(1) have "tfp_format (0x25 # flag_text left zero hash @ ws @ conv # rest) (AInt n # va) p =
      res_bind (tfp_format rest va q) (\<lambda>out. Inr (number_field left zero ?w (number_prefix conv hash n) ds @ out))"
    by simp
  moreover have "sint n = (if n <s 0 then - int (unat (- n)) else int (unat n))" by (rule sint_magnitude)
  ultimately show ?thesis using ds(2,3) by (auto simp: length_number_field magnitude_def)
qed

definition sample_param :: param where
  "sample_param = \<lparr>lz = True, alt = True, uc = True, align_left = True, width = 7, sign = 1, base = 3, bf = []\<rparr>"

theorem printf_number_witness:
  "\<exists>ds. tfp_format [0x25, 0x30, 0x38, 0x64] [AInt (- 42)] sample_param = Inr (number_field False True 8 [0x2D] ds) \<and>
     digits_ok 10 ds \<and> digits_value 10 ds = 42 \<and> sint (- 42 :: u32) = - 42"
proof -
  have ws: "wdigits [0x38]" "digits_value 10 [0x38] = 8" by (simp_all add: wdigits_def digits_value_def a2d_def)
  have "(- 42 :: u32) <s 0" by (simp add: word_sless_alt)
  with printf_number [of "0x64" "[0x38]" False True False "[]" "- 42" "[]" sample_param] ws
  show ?thesis by (auto simp: flag_text_def number_prefix_def magnitude_def conv_base_def)
qed

lemma a2u_reads_ui2a:
  assumes "\<not> (0 \<le> a2d e \<and> a2d e \<le> 10)"
  shows "\<exists>c cs. ui2a n (p\<lparr>base := 10\<rparr>) = Inr (p\<lparr>base := 10, bf := c # cs\<rparr>) \<and> a2u c (cs @ e # rest) 10 0 = (e, rest, n)"
proof -
  obtain ds where ds: "ui2a n (p\<lparr>base := 10\<rparr>) = Inr (p\<lparr>base := 10, bf := ds\<rparr>)" "digits_ok 10 ds" "digits_value 10 ds = unat n"
    using num2a_digits [of "p\<lparr>base := 10\<rparr>" n] by (auto simp: ui2a_def)
  then obtain c cs where c: "ds = c # cs" by (cases ds) (auto simp: digits_ok_def)
  have "\<forall>x \<in> set (c # cs). 0 \<le> a2d x \<and> a2d x \<le> 10" using ds(2) c by (force simp: digits_ok_def)
  from a2u_digits [OF this assms, of rest 0] have "a2u c (cs @ e # rest) 10 0 = (e, rest, of_nat (digits_value 10 ds))"
    by (simp add: c digits_value_def)
  then have "a2u c (cs @ e # rest) 10 0 = (e, rest, n)" using ds(3) by simp
  with ds(1) c show ?thesis by blast
qed

section \<open>Printing into memory\<close>

lemma put_all_bounded:
  assumes "max_len_enabled opt" "max_len opt = n" "0 < n" "unat n \<le> length (opt_buf opt)"
    and "opt_pos opt = min k (unat n - 1)" "k + length out < 2 ^ 64"
  shows "put_all out k opt = Inr (opt\<lparr>opt_buf := take (opt_pos opt) (opt_buf opt) @ take (unat n - 1 - opt_pos opt) out @
       drop (opt_pos opt + length (take (unat n - 1 - opt_pos opt) out)) (opt_buf opt),
     opt_pos := min (k + length out) (unat n - 1)\<rparr>)"
  using assms
proof (induction out arbitrary: k opt)
  case (Cons c cs)
  have n1: "unat (n - 1) = unat n - 1" using Cons.prems(3) by (simp add: unat_minus_one word_greater_zero_iff)
  have k: "unat (of_nat k :: u64) = k" using Cons.prems(6) by (intro unat_of_nat_small) simp
  have lt: "of_nat k < n - 1 \<longleftrightarrow> k < unat n - 1" by (simp add: word_less_nat_alt n1 k)
  show ?case
  proof (cases "k < unat n - 1")
    case True
    let ?o = "opt\<lparr>opt_buf := (opt_buf opt)[k := c], opt_pos := Suc k\<rparr>"
    have "putcp c (of_nat k) opt = Inr ?o" using True Cons.prems lt by (auto simp: putcp_def)
    moreover have "put_all cs (Suc k) ?o = Inr (?o\<lparr>opt_buf := take (opt_pos ?o) (opt_buf ?o) @ take (unat n - 1 - opt_pos ?o) cs @
       drop (opt_pos ?o + length (take (unat n - 1 - opt_pos ?o) cs)) (opt_buf ?o),
     opt_pos := min (Suc k + length cs) (unat n - 1)\<rparr>)"
      using Cons.prems True by (intro Cons.IH) auto
    moreover have "unat n - 1 - k = Suc (unat n - 1 - Suc k)" using True by simp
    moreover have "take (Suc k) ((opt_buf opt)[k := c]) = take k (opt_buf opt) @ [c]"
      using Cons.prems True by (simp add: take_Suc_conv_app_nth)
    ultimately show ?thesis using Cons.prems True by (simp add: drop_update_cancel min_def)
  next
    case False
    then have "putcp c (of_nat k) opt = Inr opt" using Cons.prems lt by (auto simp: putcp_def)
    with False Cons.IH [of opt "Suc k"] Cons.prems show ?thesis by simp
  qed
qed simp

text \<open>
  C32. \<open>tfp_vsnprintf\<close> keeps its contract: into a buffer of at least \<open>n\<close> bytes it writes the first
  \<open>n - 1\<close> characters of the formatted text and a terminating zero, nothing for \<open>n = 0\<close>, leaves the rest
  of the buffer as it was, and returns the length of the whole text (below 2^31); \<open>tfp_vsprintf\<close> into a
  buffer that is too small for the text and its terminator writes beyond it.
\<close>

theorem vsnprintf_bounded:
  assumes "tfp_format fmt va p = Inr out" "length out < 2 ^ 31" "unat n \<le> length s"
  shows "tfp_vsnprintf s n fmt va p = Inr (length out,
      if n = 0 then s else take (unat n - 1) out @ [0] @ drop (Suc (min (length out) (unat n - 1))) s) \<and>
    (length s \<le> length out \<longrightarrow> tfp_vsprintf s fmt va p = Inl (OutOfBounds ''*(opt->buf)++''))"
proof (intro conjI impI)
  let ?o = "\<lparr>opt_buf = s, opt_pos = 0, max_len = n, max_len_enabled = True\<rparr>"
  show "tfp_vsnprintf s n fmt va p = Inr (length out,
      if n = 0 then s else take (unat n - 1) out @ [0] @ drop (Suc (min (length out) (unat n - 1))) s)"
  proof (cases "n = 0")
    case True
    have "put_all out k ?o = Inr ?o" for k using True by (induction out arbitrary: k) (simp_all add: putcp_def)
    with True assms(1) show ?thesis by (simp add: tfp_vsnprintf_def)
  next
    case False
    then have n: "0 < unat n" by (simp add: unat_gt_0)
    have "put_all out 0 ?o = Inr (?o\<lparr>opt_buf := take (unat n - 1) out @ drop (min (length out) (unat n - 1)) s,
        opt_pos := min (length out) (unat n - 1)\<rparr>)"
      using put_all_bounded [of ?o n 0 out] False assms(2,3) by (simp add: word_greater_zero_iff min.commute)
    moreover have "(drop m s)[0 := 0] = 0 # drop (Suc m) s" if "m < length s" for m
      using that by (simp flip: Cons_nth_drop_Suc)
    ultimately show ?thesis using assms(1,3) False n
      by (simp add: tfp_vsnprintf_def putcp_def word_greater_zero_iff list_update_append min.commute)
  qed
next
  assume "length s \<le> length out"
  have "res_bind (put_all cs k opt) (\<lambda>opt. res_bind (putcp 0 0 opt) f) = Inl (OutOfBounds ''*(opt->buf)++'')"
    if "\<not> max_len_enabled opt" "length (opt_buf opt) \<le> opt_pos opt + length cs" for cs k opt and f :: "cp_opt \<Rightarrow> 'x res"
    using that by (induction cs arbitrary: k opt) (auto simp: putcp_def)
  from this [of "\<lparr>opt_buf = s, opt_pos = 0, max_len = 0, max_len_enabled = False\<rparr>" out 0]
  show "tfp_vsprintf s fmt va p = Inl (OutOfBounds ''*(opt->buf)++'')" using assms(1) \<open>length s \<le> length out\<close> by (simp add: tfp_vsprintf_def)
qed

theorem vsnprintf_bounded_witness:
  "tfp_vsnprintf ([9, 9, 9, 9, 9, 9]) 4 (map of_char ''a%sb'') [AStr [1, 2, 3]] sample_param = Inr (5, [97, 1, 2, 0, 9, 9]) \<and>
   tfp_vsprintf ([9, 9, 9, 9, 9]) (map of_char ''a%sb'') [AStr [1, 2, 3]] sample_param = Inl (OutOfBounds ''*(opt->buf)++'')"
proof -
  have "tfp_format (map of_char ''a%sb'') [AStr [1, 2, 3]] sample_param = Inr [97, 1, 2, 3, 98]"
    by (simp add: scan_directive_def convert_def take_str_def putchw_def sample_param_def Let_def)
  from vsnprintf_bounded [OF this, of 4 "[9, 9, 9, 9, 9, 9]"] vsnprintf_bounded [OF this, of 0 "[9, 9, 9, 9, 9]"]
  show ?thesis by simp
qed

end
