(* ===== verification/Console.thy ===== *)
theory Console
  imports Interrupts Printf
begin

text \<open>
  Output of the kernel: the video and serial writers and the logger (\<^verbatim>\<open>src/src/kernel/logger.h\<close> and
  \<^verbatim>\<open>.cc\<close>), the file table of \<^verbatim>\<open>fileio.h\<close> and \<^verbatim>\<open>fileio.cc\<close> and the standard output functions of
  \<^verbatim>\<open>src/src/libc_calls.cc\<close>. The 4000 bytes of text mode video memory are a list beside the copy the
  writer keeps. \<open>PrintFormat\<close>, \<open>vfprintf\<close> and \<open>FWrite\<close> take the characters to print; \<open>lg_Printf\<close> and the
  \<open>printf\<close> functions of the C library get them from \<open>tfp_format\<close> (theory \<open>Printf\<close>). A writer's spinlock is a flag; taking it twice from one
  processor is a hang.
\<close>

section \<open>The video writer\<close>

datatype LogDataType = LD_DEFAULT | LD_DBG | LD_ERR | LD_SNAPSHOT

definition kWidth :: nat where "kWidth = 80"
definition kHeight :: nat where "kHeight = 25"
definition kClearColor :: u8 where "kClearColor = 0x0F"

record LogWriterVideo =
  display_buf :: "u8 list"
  video_mem :: "u8 list"
  vw_attribute :: u8
  cursor_x :: u32
  cursor_y :: u32

definition blank :: u16 where
  "blank = 0x20 OR push_bit 8 (ucast kClearColor)"

definition hide_cursor :: "io_op list" where
  "hide_cursor = [OutB 0x3d4 0x0e, OutB 0x3d5 0xff, OutB 0x3d4 0x0f, OutB 0x3d5 0xff]"

text \<open>The constructor: its port writes and the writer.\<close>

definition mk_LogWriterVideo :: "u8 list \<Rightarrow> u8 list \<Rightarrow> (io_op list \<times> LogWriterVideo) res" where
  "mk_LogWriterVideo buf mem =
     res_bind (Memset16 buf blank (kWidth * kHeight)) (\<lambda>buf'.
     res_bind (Memset16 mem blank (kWidth * kHeight)) (\<lambda>mem'.
       Inr (hide_cursor,
            \<lparr>display_buf = buf', video_mem = mem', vw_attribute = 0x0F, cursor_x = 0, cursor_y = 0\<rparr>)))"

definition poke :: "u8 list \<Rightarrow> nat \<Rightarrow> u8 \<Rightarrow> u8 list res" where
  "poke bs i b = (if i < length bs then Inr (bs[i := b]) else Inl (OutOfBounds ''display_buf_''))"

definition vw_PutChar :: "u8 \<Rightarrow> u8 \<Rightarrow> u32 \<Rightarrow> u32 \<Rightarrow> LogWriterVideo \<Rightarrow> LogWriterVideo res" where
  "vw_PutChar c color x y w =
     (let i = unat ((y * of_nat kWidth + x) * 2) in
      res_bind (poke (display_buf w) i c) (\<lambda>b1. res_bind (poke b1 (i + 1) color) (\<lambda>b2.
      res_bind (poke (video_mem w) i c) (\<lambda>v1. res_bind (poke v1 (i + 1) color) (\<lambda>v2.
        Inr (w\<lparr>display_buf := b2, video_mem := v2\<rparr>))))))"

definition vw_NewLine :: "LogWriterVideo \<Rightarrow> LogWriterVideo res" where
  "vw_NewLine w0 =
     (let w = w0\<lparr>cursor_x := 0, cursor_y := cursor_y w0 + 1\<rparr>; row = kWidth * 2; rest = kWidth * (kHeight - 1) * 2 in
      if cursor_y w \<ge> of_nat kHeight then
        if length (display_buf w) < row + rest then Inl (OutOfBounds ''memmove'')
        else
        let moved = take rest (drop row (display_buf w)) @ drop rest (display_buf w) in
        res_bind (Memset16 (drop rest moved) blank kWidth) (\<lambda>bottom.
          let buf = take rest moved @ bottom in
          Inr (w\<lparr>display_buf := buf, video_mem := take (kWidth * kHeight * 2) buf @ drop (kWidth * kHeight * 2) (video_mem w),
                 cursor_y := cursor_y w - 1\<rparr>))
      else Inr w)"

definition vw_attribute_of :: "LogDataType \<Rightarrow> u8 \<Rightarrow> u8" where
  "vw_attribute_of type old = (case type of LD_DBG \<Rightarrow> 0x0A | LD_ERR \<Rightarrow> 0x4F | LD_DEFAULT \<Rightarrow> 0x0F | LD_SNAPSHOT \<Rightarrow> old)"

definition vw_WriteChar :: "LogDataType \<Rightarrow> u8 \<Rightarrow> LogWriterVideo \<Rightarrow> LogWriterVideo res" where
  "vw_WriteChar type c w0 =
     (let w = w0\<lparr>vw_attribute := vw_attribute_of type (vw_attribute w0)\<rparr> in
      res_bind (if c = 10 then vw_NewLine w
                else if c = 9 then Inr (w\<lparr>cursor_x := cursor_x w + 4\<rparr>)
                else vw_PutChar c (vw_attribute w) (cursor_x w) (cursor_y w) (w\<lparr>cursor_x := cursor_x w + 1\<rparr>)) (\<lambda>w1.
        if cursor_x w1 \<ge> of_nat kWidth then vw_NewLine w1 else Inr w1))"

section \<open>The logger\<close>

text \<open>\<open>lg_serial\<close> is what has been sent to the serial port.\<close>

datatype LoggerMode = SILENT | VIDEO | CONSOLE | VIDEOANDCONSOLE | SNAPSHOT | TEST

record Logger =
  lg_mode :: LoggerMode
  console_enabled :: bool
  video_enabled :: bool
  lg_type :: LogDataType
  video_writer :: LogWriterVideo
  video_locked :: bool
  lg_serial :: "u8 list"
  serial_locked :: bool

definition mk_Logger :: "LogWriterVideo \<Rightarrow> Logger" where
  "mk_Logger w = \<lparr>lg_mode = VIDEO, console_enabled = False, video_enabled = True, lg_type = LD_DEFAULT, video_writer = w,
     video_locked = False, lg_serial = [], serial_locked = False\<rparr>"

definition SetMode :: "LoggerMode \<Rightarrow> Logger \<Rightarrow> Logger" where "SetMode m l = l\<lparr>lg_mode := m\<rparr>"
definition EnableConsole :: "Logger \<Rightarrow> Logger" where "EnableConsole l = l\<lparr>console_enabled := True\<rparr>"
definition DisableVideo :: "Logger \<Rightarrow> Logger" where "DisableVideo l = l\<lparr>video_enabled := False\<rparr>"

definition lock_video :: "Logger \<Rightarrow> Logger res" where
  "lock_video l = (if video_locked l then Inl SystemHang else Inr (l\<lparr>video_locked := True\<rparr>))"

definition lock_serial :: "Logger \<Rightarrow> Logger res" where
  "lock_serial l = (if serial_locked l then Inl SystemHang else Inr (l\<lparr>serial_locked := True\<rparr>))"

definition lg_PutChar :: "u8 \<Rightarrow> Logger \<Rightarrow> Logger res" where
  "lg_PutChar c l =
     res_bind (if video_enabled l then vw_WriteChar (lg_type l) c (video_writer l) else Inr (video_writer l)) (\<lambda>w.
       let l1 = l\<lparr>video_writer := w\<rparr> in
       Inr (if console_enabled l then l1\<lparr>lg_serial := lg_serial l1 @ [c]\<rparr> else l1))"

primrec lg_put_all :: "u8 list \<Rightarrow> Logger \<Rightarrow> Logger res" where
  "lg_put_all [] l = Inr l"
| "lg_put_all (c # cs) l = res_bind (lg_PutChar c l) (lg_put_all cs)"

definition PrintFormat :: "LogDataType \<Rightarrow> u8 list \<Rightarrow> Logger \<Rightarrow> (nat \<times> Logger) res" where
  "PrintFormat type text l =
     (let video = video_enabled l; console = console_enabled l in
      res_bind (if video then lock_video l else Inr l) (\<lambda>l1.
      res_bind (if console then lock_serial l1 else Inr l1) (\<lambda>l2.
      res_bind (lg_put_all text (l2\<lparr>lg_type := type\<rparr>)) (\<lambda>l3.
        let l4 = (if console then l3\<lparr>serial_locked := False\<rparr> else l3);
            l5 = (if video then l4\<lparr>video_locked := False\<rparr> else l4) in
        Inr (length text, l5)))))"

definition PutCharSnapshot :: "u8 \<Rightarrow> Logger \<Rightarrow> Logger res" where
  "PutCharSnapshot c l =
     res_bind (rt_assert (\<not> console_enabled l) ''!console_enabled_'') (\<lambda>_.
     res_bind (lock_serial l) (\<lambda>l1. Inr (l1\<lparr>lg_serial := lg_serial l1 @ [c], serial_locked := False\<rparr>)))"

definition tmp_Putch :: "u8 \<Rightarrow> Logger \<Rightarrow> Logger res" where
  "tmp_Putch c l = res_bind (vw_WriteChar LD_ERR c (video_writer l)) (\<lambda>w. Inr (l\<lparr>video_writer := w\<rparr>))"

section \<open>Files\<close>

datatype FileIoFile = F_stdout | F_stderr | F_stdin | F_v8_log | F_v8_snapshot

definition WriteByte :: "FileIoFile \<Rightarrow> u8 \<Rightarrow> Logger \<Rightarrow> Logger res" where
  "WriteByte f c l = (case f of
       F_stdout \<Rightarrow> res_bind (PrintFormat LD_DEFAULT [c] l) (\<lambda>(_, l'). Inr l')
     | F_stderr \<Rightarrow> tmp_Putch c l
     | F_stdin \<Rightarrow> Inl (AssertFailed ''Stdin is not writeable.'')
     | F_v8_log \<Rightarrow> Inr l
     | F_v8_snapshot \<Rightarrow> PutCharSnapshot c l)"

definition lg_Printf :: "LogDataType \<Rightarrow> u8 list \<Rightarrow> va_arg list \<Rightarrow> param \<Rightarrow> Logger \<Rightarrow> (nat \<times> Logger) res" where
  "lg_Printf type fmt va g l = res_bind (tfp_format fmt va g) (\<lambda>text. PrintFormat type text l)"

definition libc_printf :: "u8 list \<Rightarrow> va_arg list \<Rightarrow> param \<Rightarrow> Logger \<Rightarrow> (nat \<times> Logger) res" where
  "libc_printf = lg_Printf LD_DEFAULT"

definition FOpen :: "string \<Rightarrow> param \<Rightarrow> Logger \<Rightarrow> (FileIoFile \<times> Logger) res" where
  "FOpen name g l0 =
     res_bind (libc_printf (map of_char (''open: %s'' @ [CHR 0x0A])) [AStr (map of_char name)] g l0) (\<lambda>(_, l).
       if name = ''v8.log'' then Inr (F_v8_log, l)
       else if name = ''snapshot'' then Inr (F_v8_snapshot, l)
       else if name = ''deopt'' then Inr (F_stdout, l)
       else Inl (AssertFailed ''Trying to open unknown file.''))"

definition FPutc :: "u8 \<Rightarrow> FileIoFile \<Rightarrow> Logger \<Rightarrow> (u8 \<times> Logger) res" where
  "FPutc c f l = res_bind (WriteByte f c l) (\<lambda>l'. Inr (c, l'))"

primrec write_all :: "FileIoFile \<Rightarrow> u8 list \<Rightarrow> Logger \<Rightarrow> Logger res" where
  "write_all f [] l = Inr l"
| "write_all f (c # cs) l = res_bind (WriteByte f c l) (write_all f cs)"

definition FWrite :: "u8 list \<Rightarrow> FileIoFile \<Rightarrow> Logger \<Rightarrow> (nat \<times> Logger) res" where
  "FWrite data f l = res_bind (write_all f data l) (\<lambda>l'. Inr (length data, l'))"

definition vfprintf :: "FileIoFile \<Rightarrow> u8 list \<Rightarrow> Logger \<Rightarrow> (nat \<times> Logger) res" where
  "vfprintf f text l =
     res_bind (lock_video l) (\<lambda>l1.
     res_bind (write_all f text l1) (\<lambda>l2. Inr (length text, l2\<lparr>video_locked := False\<rparr>)))"

definition fprintf :: "FileIoFile \<Rightarrow> u8 list \<Rightarrow> va_arg list \<Rightarrow> param \<Rightarrow> Logger \<Rightarrow> (nat \<times> Logger) res" where
  "fprintf f fmt va g l = res_bind (tfp_format fmt va g) (\<lambda>text. vfprintf f text l)"

text \<open>\<open>StdoutWriteByte\<close> prints its character with \<open>%c\<close>, which is that character.\<close>

lemma format_char: "tfp_format [0x25, 0x63] [AInt w] g = Inr [ucast w]"
  by (simp add: scan_directive_def convert_def take_int_def Let_def)

section \<open>The screen stays in bounds\<close>

definition vw_inv :: "LogWriterVideo \<Rightarrow> bool" where
  "vw_inv w \<longleftrightarrow> length (display_buf w) = 4000 \<and> video_mem w = display_buf w \<and>
     unat (cursor_x w) < 80 \<and> unat (cursor_y w) < 25"

lemma Memset16_ok:
  "2 * n \<le> length dst \<Longrightarrow> Memset16 dst v n = Inr (concat (replicate n (le_bytes 2 v)) @ drop (2 * n) dst)"
proof (induction dst v n rule: Memset16.induct)
  case (2 b0 b1 dst v n)
  then show ?case by (simp del: le_bytes.simps)
qed auto

lemma mk_LogWriterVideo_ok:
  assumes "length buf = 4000" "length mem = 4000"
  shows "\<exists>w. mk_LogWriterVideo buf mem = Inr (hide_cursor, w) \<and> vw_inv w"
proof -
  have "length (concat (replicate 2000 (le_bytes 2 blank))) = 4000" by (simp add: length_concat sum_list_replicate)
  then show ?thesis
    using assms Memset16_ok [of 2000 buf blank] Memset16_ok [of 2000 mem blank]
    by (simp add: mk_LogWriterVideo_def kWidth_def kHeight_def vw_inv_def del: le_bytes.simps)
qed

lemma vw_NewLine_ok:
  assumes "length (display_buf w) = 4000" "video_mem w = display_buf w" "unat (cursor_y w) < 25"
  shows "\<exists>w'. vw_NewLine w = Inr w' \<and> vw_inv w'"
proof -
  have y: "unat (cursor_y w + 1) = unat (cursor_y w) + 1" using assms(3) by (subst unat_add_no_wrap) auto
  have ms: "\<exists>b. Memset16 (drop 3840 (display_buf w)) blank 80 = Inr b \<and> length b = 160"
    using Memset16_ok [of 80 "drop 3840 (display_buf w)" blank] assms(1)
    by (simp add: length_concat sum_list_replicate del: le_bytes.simps)
  show ?thesis
  proof (cases "cursor_y w + 1 \<ge> 25")
    case True
    with y assms(3) have "unat (cursor_y w) = 24" by (simp add: word_le_nat_alt)
    moreover obtain b where "Memset16 (drop 3840 (display_buf w)) blank 80 = Inr b" "length b = 160" using ms by blast
    ultimately show ?thesis
      using True assms(1,2) by (simp add: vw_NewLine_def kWidth_def kHeight_def vw_inv_def Let_def)
  next
    case False
    with y assms show ?thesis by (simp add: vw_NewLine_def kWidth_def kHeight_def vw_inv_def Let_def word_le_nat_alt)
  qed
qed

lemma cell_index:
  assumes "unat x < 80" "unat y < 25"
  shows "unat ((y * 80 + x) * 2 :: u32) = (unat y * 80 + unat x) * 2"
  using assms by (simp add: unat_word_ariths)

lemma vw_PutChar_ok:
  assumes "length (display_buf w) = 4000" "video_mem w = display_buf w" "unat x < 80" "unat y < 25"
  shows "vw_PutChar c col x y w = (let i = (unat y * 80 + unat x) * 2; b = (display_buf w)[i := c, Suc i := col] in
     Inr (w\<lparr>display_buf := b, video_mem := b\<rparr>))"
proof -
  have "unat y \<le> 24" "unat x \<le> 79" using assms(3,4) by simp_all
  then have "(unat y * 80 + unat x) * 2 + 1 < 4000" by simp
  moreover have "unat ((y * of_nat kWidth + x) * 2) = (unat y * 80 + unat x) * 2"
    using cell_index [OF assms(3,4)] by (simp only: kWidth_def of_nat_numeral)
  ultimately show ?thesis using assms(1,2) unfolding vw_PutChar_def by (simp only: Let_def) (simp add: poke_def)
qed

lemma vw_WriteChar_ok:
  assumes "vw_inv w"
  shows "\<exists>w'. vw_WriteChar t c w = Inr w' \<and> vw_inv w'"
proof -
  let ?w = "w\<lparr>vw_attribute := vw_attribute_of t (vw_attribute w)\<rparr>"
  have i: "length (display_buf w) = 4000" "video_mem w = display_buf w" "unat (cursor_x w) < 80" "unat (cursor_y w) < 25"
    using assms by (auto simp: vw_inv_def)
  have wrap: "\<exists>w'. (if cursor_x v \<ge> of_nat kWidth then vw_NewLine v else Inr v) = Inr w' \<and> vw_inv w'"
    if "length (display_buf v) = 4000" "video_mem v = display_buf v" "unat (cursor_y v) < 25" for v
    using vw_NewLine_ok [OF that] that by (simp add: vw_inv_def kWidth_def word_le_nat_alt)
  consider "c = 10" | "c = 9" | "c \<noteq> 10" "c \<noteq> 9" by blast
  then show ?thesis
  proof cases
    case 1
    obtain w1 where "vw_NewLine ?w = Inr w1" "vw_inv w1" using vw_NewLine_ok [of ?w] i by auto
    with 1 wrap [of w1] show ?thesis by (auto simp: vw_WriteChar_def vw_inv_def Let_def)
  next
    case 2
    with i wrap [of "?w\<lparr>cursor_x := cursor_x w + 4\<rparr>"] show ?thesis
      by (auto simp: vw_WriteChar_def Let_def split: if_splits)
  next
    case 3
    let ?v = "?w\<lparr>cursor_x := cursor_x w + 1\<rparr>"
    obtain v where "vw_PutChar c (vw_attribute ?w) (cursor_x w) (cursor_y w) ?v = Inr v"
      "length (display_buf v) = 4000" "video_mem v = display_buf v" "unat (cursor_y v) < 25"
      using i vw_PutChar_ok [of ?v "cursor_x w" "cursor_y w" c "vw_attribute ?w"] by (simp add: Let_def)
    with 3 wrap [of v] show ?thesis by (simp add: vw_WriteChar_def Let_def)
  qed
qed

primrec write_chars :: "(LogDataType \<times> u8) list \<Rightarrow> LogWriterVideo \<Rightarrow> LogWriterVideo res" where
  "write_chars [] w = Inr w"
| "write_chars (tc # tcs) w = res_bind (vw_WriteChar (fst tc) (snd tc) w) (write_chars tcs)"

lemma write_chars_ok: "vw_inv w \<Longrightarrow> \<exists>w'. write_chars tcs w = Inr w' \<and> vw_inv w'"
proof (induction tcs arbitrary: w)
  case (Cons tc tcs)
  obtain w1 where "vw_WriteChar (fst tc) (snd tc) w = Inr w1" "vw_inv w1" using vw_WriteChar_ok [OF Cons.prems] by blast
  with Cons.IH show ?case by simp
qed simp

text \<open>
  C39. \<open>LogWriterVideo\<close>: whatever is printed, in any colours and with any control characters, no write
  leaves the 80 by 25 screen, the cursor stays on it, and the video memory always equals the
  writer's copy. A character printed before the last column, other than tab and newline, is on the screen at the cursor
  position with the attribute of its type (green on black for debugging output, white on red for errors, white on black by default, and for
  snapshots the attribute of the last character), no other cell changes, and the cursor has moved one to the right.
\<close>

theorem video_writer_bounded:
  assumes "length buf = 4000" "length mem = 4000"
  shows "\<exists>w0 w. mk_LogWriterVideo buf mem = Inr (hide_cursor, w0) \<and> write_chars tcs w0 = Inr w \<and>
    length (display_buf w) = 4000 \<and> video_mem w = display_buf w \<and> unat (cursor_x w) < 80 \<and> unat (cursor_y w) < 25 \<and>
    (\<forall>t c. c \<noteq> 9 \<and> c \<noteq> 10 \<and> unat (cursor_x w) < 79 \<longrightarrow>
      (\<exists>w'. vw_WriteChar t c w = Inr w' \<and> cursor_x w' = cursor_x w + 1 \<and> cursor_y w' = cursor_y w \<and>
        video_mem w' = (video_mem w)[(unat (cursor_y w) * 80 + unat (cursor_x w)) * 2 := c,
          Suc ((unat (cursor_y w) * 80 + unat (cursor_x w)) * 2) :=
            (case t of LD_DBG \<Rightarrow> 0x0A | LD_ERR \<Rightarrow> 0x4F | LD_DEFAULT \<Rightarrow> 0x0F | LD_SNAPSHOT \<Rightarrow> vw_attribute w)]))"
proof -
  obtain w0 w where w: "mk_LogWriterVideo buf mem = Inr (hide_cursor, w0)" "write_chars tcs w0 = Inr w" "vw_inv w"
    using mk_LogWriterVideo_ok [OF assms] write_chars_ok by metis
  have "\<exists>w'. vw_WriteChar t c w = Inr w' \<and> cursor_x w' = cursor_x w + 1 \<and> cursor_y w' = cursor_y w \<and>
        video_mem w' = (video_mem w)[(unat (cursor_y w) * 80 + unat (cursor_x w)) * 2 := c,
          Suc ((unat (cursor_y w) * 80 + unat (cursor_x w)) * 2) := vw_attribute_of t (vw_attribute w)]"
    if c: "c \<noteq> 9" "c \<noteq> 10" "unat (cursor_x w) < 79" for t c
  proof -
    let ?a = "vw_attribute_of t (vw_attribute w)"
    have "unat (cursor_x w + 1) < 80" using c by (subst unat_add_no_wrap) auto
    then have x: "\<not> 80 \<le> cursor_x w + 1" by (simp add: word_le_nat_alt)
    show ?thesis using x c w(3) vw_PutChar_ok [of "w\<lparr>vw_attribute := ?a, cursor_x := cursor_x w + 1\<rparr>" "cursor_x w" "cursor_y w" c ?a]
      by (simp add: vw_WriteChar_def kWidth_def vw_inv_def Let_def)
  qed
  with w show ?thesis unfolding vw_attribute_of_def by (auto simp: vw_inv_def)
qed

theorem video_writer_bounded_witness:
  "\<exists>w0 w. mk_LogWriterVideo (replicate 4000 7) (replicate 4000 1) = Inr (hide_cursor, w0) \<and>
     write_chars (replicate 2001 (LD_DBG, 65)) w0 = Inr w \<and> video_mem w = display_buf w \<and> unat (cursor_y w) < 25"
proof -
  have "length (replicate 4000 (7 :: u8)) = 4000" "length (replicate 4000 (1 :: u8)) = 4000" by (simp_all only: length_replicate)
  from video_writer_bounded [OF this, of "replicate 2001 (LD_DBG, 65)"] show ?thesis by blast
qed

text \<open>
  Printing to standard output through \<open>vfprintf\<close> takes the video lock that \<open>StdoutWriteByte\<close> takes
  again for its character.
\<close>

lemma fprintf_stdout_hangs:
  assumes "video_enabled l" "\<not> video_locked l" "tfp_format fmt va g = Inr (c # cs)"
  shows "fprintf F_stdout fmt va g l = Inl SystemHang"
  using assms by (simp add: fprintf_def vfprintf_def lock_video_def WriteByte_def PrintFormat_def Let_def)

end
