(* ===== verification/Ports.thy ===== *)
theory Ports
  imports Interrupts
begin

text \<open>
  Port input and output: the PCI configuration mechanism and the serial port of
  \<^verbatim>\<open>src/src/kernel/x64/io-x64.h\<close>, and the functions of \<^verbatim>\<open>acpica-platform.cc\<close> through which the ACPI
  interpreter reaches ports, PCI configuration space and memory. A function returns the writes it
  makes; what a port reads as after them is an argument. The lemmas show that the
  address word names one register of one function, and that sub-word accesses select the right bytes.
\<close>

section \<open>PCI configuration space\<close>

definition kPciAddressPort :: u16 where "kPciAddressPort = 0xCF8"
definition kPciDataPort :: u16 where "kPciDataPort = 0xCFC"

definition pci_addr :: "u8 \<Rightarrow> u8 \<Rightarrow> u8 \<Rightarrow> u8 \<Rightarrow> u32" where
  "pci_addr bus slot func offset =
     push_bit 16 (ucast bus) OR push_bit 11 (ucast slot) OR push_bit 8 (ucast func) OR (ucast offset AND 0xfc) OR 0x80000000"

definition PciWriteAddr :: "u8 \<Rightarrow> u8 \<Rightarrow> u8 \<Rightarrow> u8 \<Rightarrow> io_op list res" where
  "PciWriteAddr bus slot func offset =
     res_bind (rt_assert (slot < 32) ''slot < 32'') (\<lambda>_. res_bind (rt_assert (func < 8) ''func < 8'') (\<lambda>_.
       Inr [OutDW kPciAddressPort (pci_addr bus slot func offset)]))"

text \<open>\<open>cfg a\<close> is what the data port reads as when \<open>a\<close> was written to the address port.\<close>

definition PciReadB :: "(u32 \<Rightarrow> u32) \<Rightarrow> u8 \<Rightarrow> u8 \<Rightarrow> u8 \<Rightarrow> u8 \<Rightarrow> u8 res" where
  "PciReadB cfg bus slot func offset =
     res_bind (PciWriteAddr bus slot func offset) (\<lambda>_.
       Inr (ucast (drop_bit (unat ((offset AND 3) * 8)) (cfg (pci_addr bus slot func offset)) AND 0xff)))"

definition PciReadW :: "(u32 \<Rightarrow> u32) \<Rightarrow> u8 \<Rightarrow> u8 \<Rightarrow> u8 \<Rightarrow> u8 \<Rightarrow> u16 res" where
  "PciReadW cfg bus slot func offset =
     res_bind (rt_assert (offset AND 1 = 0) ''(offset & 1) == 0'') (\<lambda>_.
     res_bind (PciWriteAddr bus slot func offset) (\<lambda>_.
       Inr (ucast (drop_bit (unat ((offset AND 2) * 8)) (cfg (pci_addr bus slot func offset)) AND 0xffff))))"

definition PciReadDW :: "(u32 \<Rightarrow> u32) \<Rightarrow> u8 \<Rightarrow> u8 \<Rightarrow> u8 \<Rightarrow> u8 \<Rightarrow> u32 res" where
  "PciReadDW cfg bus slot func offset =
     res_bind (rt_assert (offset AND 3 = 0) ''(offset & 3) == 0'') (\<lambda>_.
     res_bind (PciWriteAddr bus slot func offset) (\<lambda>_. Inr (cfg (pci_addr bus slot func offset))))"

definition PciWriteB :: "u8 \<Rightarrow> u8 \<Rightarrow> u8 \<Rightarrow> u8 \<Rightarrow> u8 \<Rightarrow> io_op list res" where
  "PciWriteB bus slot func offset v =
     res_bind (PciWriteAddr bus slot func offset) (\<lambda>ops. Inr (ops @ [OutB (kPciDataPort + ucast (offset AND 3)) v]))"

definition PciWriteW :: "u8 \<Rightarrow> u8 \<Rightarrow> u8 \<Rightarrow> u8 \<Rightarrow> u16 \<Rightarrow> io_op list res" where
  "PciWriteW bus slot func offset v =
     res_bind (rt_assert (offset AND 1 = 0) ''(offset & 1) == 0'') (\<lambda>_.
     res_bind (PciWriteAddr bus slot func offset) (\<lambda>ops. Inr (ops @ [OutW (kPciDataPort + ucast (offset AND 2)) v])))"

definition PciWriteDW :: "u8 \<Rightarrow> u8 \<Rightarrow> u8 \<Rightarrow> u8 \<Rightarrow> u32 \<Rightarrow> io_op list res" where
  "PciWriteDW bus slot func offset v =
     res_bind (rt_assert (offset AND 3 = 0) ''(offset & 3) == 0'') (\<lambda>_.
     res_bind (PciWriteAddr bus slot func offset) (\<lambda>ops. Inr (ops @ [OutDW kPciDataPort v])))"

section \<open>Serial port\<close>

definition serial_Init :: "io_op list" where
  "serial_Init = [OutB 0x3F9 0x00, OutB 0x3FB 0x80, OutB 0x3F8 0x03, OutB 0x3F9 0x00, OutB 0x3FB 0x03, OutB 0x3FA 0xC7, OutB 0x3FC 0x0B]"

text \<open>\<open>status k\<close> is the \<open>k\<close>-th reading of the line status register.\<close>

partial_function (option) serial_wait :: "(nat \<Rightarrow> u8) \<Rightarrow> nat \<Rightarrow> nat option" where
  "serial_wait status k = (if status k AND 0x20 = 0 then serial_wait status (Suc k) else Some k)"

definition write_serial :: "(nat \<Rightarrow> u8) \<Rightarrow> u8 \<Rightarrow> io_op list option" where
  "write_serial status a = map_option (\<lambda>_. [OutB 0x3F8 a]) (serial_wait status 0)"

section \<open>The interpreter's operating system layer\<close>

datatype ACPI_STATUS = AE_OK | AE_BAD_PARAMETER | AE_SUPPORT | AE_NO_ACPI_TABLES

record ACPI_PCI_ID =
  pci_Bus :: u16
  pci_Device :: u16
  pci_Function :: u16

definition AcpiOsReadPciConfiguration :: "(u32 \<Rightarrow> u32) \<Rightarrow> ACPI_PCI_ID \<Rightarrow> u32 \<Rightarrow> u32 \<Rightarrow> (ACPI_STATUS \<times> u64 option) res" where
  "AcpiOsReadPciConfiguration cfg pciid reg width =
     (let bus = ucast (pci_Bus pciid); dev = ucast (pci_Device pciid); func = ucast (pci_Function pciid); off = ucast reg in
      if width = 8 then res_bind (PciReadB cfg bus dev func off) (\<lambda>v. Inr (AE_OK, Some (ucast v)))
      else if width = 16 then res_bind (PciReadW cfg bus dev func off) (\<lambda>v. Inr (AE_OK, Some (ucast v)))
      else if width = 32 then res_bind (PciReadDW cfg bus dev func off) (\<lambda>v. Inr (AE_OK, Some (ucast v)))
      else if width = 64 then Inl (AssertFailed ''AcpiOsReadPciConfiguration 64 bit is not supported.'')
      else Inr (AE_BAD_PARAMETER, None))"

definition AcpiOsWritePciConfiguration :: "ACPI_PCI_ID \<Rightarrow> u32 \<Rightarrow> u64 \<Rightarrow> u32 \<Rightarrow> (ACPI_STATUS \<times> io_op list) res" where
  "AcpiOsWritePciConfiguration pciid reg v width =
     (let bus = ucast (pci_Bus pciid); dev = ucast (pci_Device pciid); func = ucast (pci_Function pciid); off = ucast reg in
      if width = 8 then res_bind (PciWriteB bus dev func off (ucast (v AND 0xff))) (\<lambda>ops. Inr (AE_OK, ops))
      else if width = 16 then res_bind (PciWriteW bus dev func off (ucast (v AND 0xffff))) (\<lambda>ops. Inr (AE_OK, ops))
      else if width = 32 then res_bind (PciWriteDW bus dev func off (ucast (v AND 0xffffffff))) (\<lambda>ops. Inr (AE_OK, ops))
      else if width = 64 then Inl (AssertFailed ''AcpiOsWritePciConfiguration 64 bit is not supported.'')
      else Inr (AE_BAD_PARAMETER, []))"

definition AcpiOsReadMemory :: "phys_mem \<Rightarrow> u64 \<Rightarrow> u32 \<Rightarrow> (ACPI_STATUS \<times> u64 option) res" where
  "AcpiOsReadMemory mem address width =
     res_bind (rt_assert (address \<le> 0xFFFFFFFF) ''address <= 0xFFFFFFFF'') (\<lambda>_.
       if width = 8 then Inr (AE_OK, Some (mem_read mem address 1))
       else if width = 16 then Inr (AE_OK, Some (mem_read mem address 2))
       else if width = 32 then Inr (AE_OK, Some (mem_read mem address 4))
       else if width = 64 then Inr (AE_OK, Some (mem_read mem address 8))
       else Inr (AE_BAD_PARAMETER, None))"

definition AcpiOsWriteMemory :: "u64 \<Rightarrow> u64 \<Rightarrow> u32 \<Rightarrow> phys_mem \<Rightarrow> (ACPI_STATUS \<times> phys_mem) res" where
  "AcpiOsWriteMemory address v width mem =
     res_bind (rt_assert (address \<le> 0xFFFFFFFF) ''address <= 0xFFFFFFFF'') (\<lambda>_.
       if width = 8 then Inr (AE_OK, write_bytes mem address (le_bytes 1 v))
       else if width = 16 then Inr (AE_OK, write_bytes mem address (le_bytes 2 v))
       else if width = 32 then Inr (AE_OK, write_bytes mem address (le_bytes 4 v))
       else if width = 64 then Inr (AE_OK, write_bytes mem address (le_bytes 8 v))
       else Inr (AE_BAD_PARAMETER, mem))"

text \<open>\<open>inp p\<close> is what port \<open>p\<close> reads as at full width.\<close>

definition AcpiOsReadPort :: "(u16 \<Rightarrow> u32) \<Rightarrow> u64 \<Rightarrow> u32 \<Rightarrow> ACPI_STATUS \<times> u32 option" where
  "AcpiOsReadPort inp address width =
     (let port = ucast address in
      if width = 8 then (AE_OK, Some (ucast (ucast (inp port) :: u8)))
      else if width = 16 then (AE_OK, Some (ucast (ucast (inp port) :: u16)))
      else if width = 32 then (AE_OK, Some (inp port))
      else (AE_BAD_PARAMETER, None))"

definition AcpiOsWritePort :: "u64 \<Rightarrow> u32 \<Rightarrow> u32 \<Rightarrow> ACPI_STATUS \<times> io_op list" where
  "AcpiOsWritePort address v width =
     (let port = ucast address in
      if width = 8 then (AE_OK, [OutB port (ucast v)])
      else if width = 16 then (AE_OK, [OutW port (ucast v)])
      else if width = 32 then (AE_OK, [OutDW port v])
      else (AE_BAD_PARAMETER, []))"

definition AcpiOsMapMemory :: "u64 \<Rightarrow> u64 res" where
  "AcpiOsMapMemory a = res_bind (rt_assert (a \<le> 0xFFFFFFFF) ''PhysicalAddress <= 0xFFFFFFFF'') (\<lambda>_. Inr a)"

section \<open>Address words and byte lanes\<close>

lemma not_bit_above:
  fixes w :: u8
  assumes "unat w < 2 ^ k" "k \<le> n"
  shows "\<not> bit w n"
proof -
  have "unat w < 2 ^ n" using assms by (meson less_le_trans one_le_numeral power_increasing)
  then have "\<not> bit (unat w) n" by (simp add: bit_iff_odd)
  then show ?thesis by (simp add: bit_unsigned_iff)
qed

lemma pci_addr_bits:
  assumes "slot < 32" "func < 8"
  shows "bit (pci_addr bus slot func offset) n \<longleftrightarrow>
    (if n < 8 then 2 \<le> n \<and> bit offset n else if n < 11 then bit func (n - 8) else if n < 16 then bit slot (n - 11)
     else if n < 24 then bit bus (n - 16) else n = 31)"
proof -
  have u: "unat slot < 2 ^ 5" "unat func < 2 ^ 3" "unat bus < 2 ^ 8" "unat offset < 2 ^ 8"
    using assms unsigned_less [of bus, where ?'a = nat] unsigned_less [of offset, where ?'a = nat]
    by (simp_all add: word_less_nat_alt)
  have below: "bit bus (n - 16) \<Longrightarrow> n - 16 < 8" "bit slot (n - 11) \<Longrightarrow> n - 11 < 5" "bit func (n - 8) \<Longrightarrow> n - 8 < 3"
    using not_bit_above [OF u(1)] not_bit_above [OF u(2)] not_bit_above [OF u(3)] by (meson not_le)+
  have c: "(0xfc :: u32) = push_bit 2 (mask 6)" "(0x80000000 :: u32) = push_bit 31 1"
    by (simp_all add: mask_eq_exp_minus_1 push_bit_eq_mult)
  have field: "bit (push_bit k (ucast (b :: u8)) :: u32) n \<longleftrightarrow> k \<le> n \<and> n < 32 \<and> bit b (n - k)" if "k \<le> 16" for k b
    using that by (auto simp: bit_push_bit_iff bit_ucast_iff dest: bit_imp_le_length)
  have low: "bit (ucast offset AND 0xfc :: u32) n \<longleftrightarrow> 2 \<le> n \<and> n < 8 \<and> bit offset n"
    unfolding c by (auto simp: bit_and_iff bit_push_bit_iff bit_mask_iff bit_ucast_iff)
  have top: "bit (0x80000000 :: u32) n \<longleftrightarrow> n = 31" unfolding c by (simp only: bit_push_bit_iff bit_1_iff) auto
  have n: "bit (pci_addr bus slot func offset) n \<longleftrightarrow>
      (16 \<le> n \<and> n < 32 \<and> bit bus (n - 16)) \<or> (11 \<le> n \<and> n < 32 \<and> bit slot (n - 11)) \<or> (8 \<le> n \<and> n < 32 \<and> bit func (n - 8)) \<or>
       (2 \<le> n \<and> n < 8 \<and> bit offset n) \<or> n = 31"
    unfolding pci_addr_def bit_or_iff low top by (simp only: field)
  consider "n < 8" | "8 \<le> n" "n < 11" | "11 \<le> n" "n < 16" | "16 \<le> n" "n < 24" | "24 \<le> n" by linarith
  then show ?thesis unfolding n using below by cases auto
qed

lemma pci_addr_fields:
  assumes "slot < 32" "func < 8" "slot' < 32" "func' < 8"
    and "pci_addr bus slot func offset = pci_addr bus' slot' func' offset'"
  shows "bus = bus' \<and> slot = slot' \<and> func = func' \<and> offset AND 0xfc = offset' AND 0xfc"
proof -
  have eq: "bit (pci_addr bus slot func offset) n = bit (pci_addr bus' slot' func' offset') n" for n using assms(5) by simp
  note bits = eq [unfolded pci_addr_bits [OF assms(1,2)] pci_addr_bits [OF assms(3,4)]]
  have u: "unat slot < 2 ^ 5" "unat func < 2 ^ 3" "unat slot' < 2 ^ 5" "unat func' < 2 ^ 3"
    using assms(1-4) by (simp_all add: word_less_nat_alt)
  have "bit bus n = bit bus' n" if "n < 8" for n using bits [of "n + 16"] that by simp
  moreover have "bit slot n = bit slot' n" for n
    using bits [of "n + 11"] not_bit_above [OF u(1), of n] not_bit_above [OF u(3), of n] by (cases "n < 5") auto
  moreover have "bit func n = bit func' n" for n
    using bits [of "n + 8"] not_bit_above [OF u(2), of n] not_bit_above [OF u(4), of n] by (cases "n < 3") auto
  moreover have "bit (offset AND 0xfc) n = bit (offset' AND 0xfc) n" if "n < 8" for n
  proof -
    have c: "(0xfc :: u8) = push_bit 2 (mask 6)" by (simp add: mask_eq_exp_minus_1 push_bit_eq_mult)
    show ?thesis unfolding c using bits [of n] that by (auto simp: bit_and_iff bit_push_bit_iff bit_mask_iff)
  qed
  ultimately show ?thesis by (auto intro!: bit_word_eqI)
qed

text \<open>The byte that \<open>PciReadB\<close> returns is byte \<open>offset mod 4\<close> of the register.\<close>

lemma PciReadB_lane:
  assumes "slot < 32" "func < 8"
  shows "PciReadB cfg bus slot func offset =
    Inr (le_bytes 4 (cfg (pci_addr bus slot func offset)) ! (unat offset mod 4))"
proof -
  have "(3 :: u8) = mask 2" by (simp add: mask_eq_exp_minus_1)
  then have m: "unat (offset AND 3) = unat offset mod 4" using unat_mask_and [of offset 2] by simp
  then have sh: "unat ((offset AND 3) * 8) = unat offset mod 4 * 8" by (simp add: unat_word_ariths)
  have byte: "ucast (w AND 0xff) = (ucast w :: u8)" for w :: u32
  proof -
    have c: "(0xff :: u32) = mask 8" by (simp add: mask_eq_exp_minus_1)
    show ?thesis unfolding c by (intro bit_word_eqI) (auto simp: bit_ucast_iff bit_and_iff bit_mask_iff)
  qed
  have nth: "i < n \<Longrightarrow> le_bytes n (w :: u32) ! i = ucast (drop_bit (i * 8) w)" for i n w
  proof (induction n arbitrary: w i)
    case (Suc n)
    then show ?case by (cases i) (simp_all add: add.commute)
  qed simp
  show ?thesis
    using assms nth [of "unat offset mod 4" 4] by (simp add: PciReadB_def PciWriteAddr_def sh byte del: le_bytes.simps)
qed

lemma serial_wait_returns: "status n AND 0x20 \<noteq> 0 \<Longrightarrow> k \<le> n \<Longrightarrow> \<exists>m. serial_wait status k = Some m"
proof (induction "n - k" arbitrary: k)
  case 0
  then show ?case by (subst serial_wait.simps) auto
next
  case (Suc d)
  then show ?case by (subst serial_wait.simps) auto
qed

end
