(* ===== verification/Locks.thy ===== *)
theory Locks
  imports Utils
begin

text \<open>
  The lock library \<^verbatim>\<open>src/src/kernel/threadlib\<close> (\<open>spinlock_t\<close>, \<open>mutex_t\<close>, \<open>semaphore_t\<close>,
  \<open>condvar_t\<close>) and the scopes of \<^verbatim>\<open>spinlock.h\<close>. The operations are programs that run on
  several CPUs at once, so each is a transition system: one step is one access to shared
  memory (a test-and-set, a compare-and-swap, a read or a write of a field), the program
  counter of a CPU says where in the source it is, and the steps of the CPUs interleave
  freely. The locale \<open>exclusion\<close> states what makes a flag a lock and derives mutual
  exclusion once; \<open>spinlock_t\<close> and \<open>mutex_t\<close> are its two interpretations.

  \<open>threadlib::sched\<close> of \<^verbatim>\<open>platform.cc\<close> is an assertion that fails (\<open>not implemented\<close>), so a
  CPU that has to wait for a mutex or for a semaphore stops there.
\<close>

section \<open>Platform functions of \<open>platform.cc\<close>\<close>

definition get_thread_id :: "u16 \<Rightarrow> u32" where
  "get_thread_id cpu = ucast cpu + 1"

definition sched :: "unit res" where
  "sched = rt_assert False ''not implemented''"

definition libassert :: "bool \<Rightarrow> string \<Rightarrow> unit res" where
  "libassert v msg = rt_assert v msg"

lemma unat_get_thread_id: "unat (get_thread_id c) = Suc (unat c)"
proof -
  have "unat c < 2 ^ 16" using unsigned_less [of c, where ?'a = nat] by simp
  moreover have "unat (ucast c :: u32) = unat c" by (simp add: unat_ucast_up)
  ultimately show ?thesis unfolding get_thread_id_def by (subst unat_add_no_wrap) auto
qed

lemma get_thread_id_nonzero [simp]: "get_thread_id c \<noteq> 0"
  using unat_get_thread_id [of c] by force

lemma get_thread_id_inject [simp]: "get_thread_id c = get_thread_id d \<longleftrightarrow> c = d"
  by (metis unat_get_thread_id nat.inject word_unat_eq_iff)

section \<open>The contract of a lock\<close>

text \<open>
  \<open>has s c\<close>: CPU \<open>c\<close> is between its successful test-and-set and the store that releases
  the flag. \<open>exclusive\<close> is mutual exclusion together with the meaning of the flag.
\<close>

definition exclusive :: "('s \<Rightarrow> 'c \<Rightarrow> bool) \<Rightarrow> ('s \<Rightarrow> u32) \<Rightarrow> 's \<Rightarrow> bool" where
  "exclusive has flag s \<longleftrightarrow>
     (\<forall>c d. has s c \<longrightarrow> has s d \<longrightarrow> c = d) \<and> (flag s = 0 \<longleftrightarrow> (\<forall>c. \<not> has s c))"

inductive reach :: "('c \<Rightarrow> 's \<Rightarrow> 's \<Rightarrow> bool) \<Rightarrow> 's \<Rightarrow> 's \<Rightarrow> bool" for step s0 where
  reach_init: "reach step s0 s0"
| reach_step: "reach step s0 s \<Longrightarrow> step c s s' \<Longrightarrow> reach step s0 s'"

locale exclusion =
  fixes step :: "'c \<Rightarrow> 's \<Rightarrow> 's \<Rightarrow> bool"
    and has :: "'s \<Rightarrow> 'c \<Rightarrow> bool"
    and flag :: "'s \<Rightarrow> u32"
    and wf :: "'s \<Rightarrow> bool"
  assumes others: "step c s s' \<Longrightarrow> d \<noteq> c \<Longrightarrow> has s' d = has s d"
    and gain: "exclusive has flag s \<Longrightarrow> wf s \<Longrightarrow> step c s s' \<Longrightarrow> has s' c \<Longrightarrow> \<not> has s c \<Longrightarrow> flag s = 0 \<and> flag s' \<noteq> 0"
    and lose: "exclusive has flag s \<Longrightarrow> wf s \<Longrightarrow> step c s s' \<Longrightarrow> has s c \<Longrightarrow> \<not> has s' c \<Longrightarrow> flag s' = 0"
    and quiet: "exclusive has flag s \<Longrightarrow> wf s \<Longrightarrow> step c s s' \<Longrightarrow> has s' c = has s c \<Longrightarrow> flag s = 0 \<longleftrightarrow> flag s' = 0"
    and wf_step: "exclusive has flag s \<Longrightarrow> wf s \<Longrightarrow> step c s s' \<Longrightarrow> wf s'"
begin

lemma exclusive_step:
  assumes ex: "exclusive has flag s" and wf: "wf s" and st: "step c s s'"
  shows "exclusive has flag s'"
proof (cases "has s' c = has s c")
  case True
  then have "has s' d = has s d" for d using others [OF st] by (cases "d = c") auto
  with quiet [OF ex wf st True] ex show ?thesis by (simp add: exclusive_def)
next
  case changed: False
  show ?thesis
  proof (cases "has s c")
    case True
    with ex have "\<not> has s d" if "d \<noteq> c" for d using that by (auto simp: exclusive_def)
    with changed True have "\<not> has s' d" for d using others [OF st] by (cases "d = c") auto
    with changed True lose [OF ex wf st] show ?thesis by (simp add: exclusive_def)
  next
    case False
    with changed have now: "has s' c" by simp
    from gain [OF ex wf st this False] have "flag s = 0" "flag s' \<noteq> 0" by auto
    with ex have "\<not> has s d" for d by (simp add: exclusive_def)
    then have "has s' d \<longleftrightarrow> d = c" for d using others [OF st] now by (cases "d = c") auto
    with \<open>flag s' \<noteq> 0\<close> show ?thesis by (auto simp: exclusive_def)
  qed
qed

lemma reach_exclusive:
  assumes "reach step s0 s" "exclusive has flag s0" "wf s0"
  shows "exclusive has flag s \<and> wf s"
  using assms by (induction rule: reach.induct) (auto intro: exclusive_step wf_step)

end

section \<open>\<open>spinlock_t\<close>\<close>

text \<open>
  \<open>SpTas try\<close> is the test-and-set of \<open>lock\<close> or \<open>try_lock\<close>, \<open>SpRead\<close> the inner loop
  \<open>while (*p) wait_pause()\<close>, \<open>SpIn\<close> the code between \<open>lock\<close> and \<open>unlock\<close> (the body of a
  \<open>ScopedLock\<close>).
\<close>

datatype sp_pc = SpIdle | SpTas bool | SpRead | SpIn

record spin_world =
  sp_p :: u32
  sp_pcs :: "u16 \<Rightarrow> sp_pc"

definition sync_lock_test_and_set :: "u32 \<Rightarrow> u32 \<Rightarrow> u32 \<times> u32" where
  "sync_lock_test_and_set p v = (p, v)"

definition mk_spinlock :: spin_world where
  "mk_spinlock = \<lparr>sp_p = 0, sp_pcs = (\<lambda>_. SpIdle)\<rparr>"

definition sp_goto :: "u16 \<Rightarrow> sp_pc \<Rightarrow> spin_world \<Rightarrow> spin_world" where
  "sp_goto c l s = s\<lparr>sp_pcs := (sp_pcs s)(c := l)\<rparr>"

definition spin_tas :: "u16 \<Rightarrow> bool \<Rightarrow> spin_world \<Rightarrow> spin_world" where
  "spin_tas c try s =
     (let (old, p) = sync_lock_test_and_set (sp_p s) 1; s' = s\<lparr>sp_p := p\<rparr> in
      if old = 0 then sp_goto c SpIn s'
      else if try then sp_goto c SpIdle s'
      else sp_goto c SpRead s')"

definition spin_read :: "u16 \<Rightarrow> spin_world \<Rightarrow> spin_world" where
  "spin_read c s = sp_goto c (if sp_p s \<noteq> 0 then SpRead else SpTas False) s"

definition spin_unlock :: "u16 \<Rightarrow> spin_world \<Rightarrow> spin_world" where
  "spin_unlock c s = sp_goto c SpIdle (s\<lparr>sp_p := 0\<rparr>)"

inductive spin_step :: "u16 \<Rightarrow> spin_world \<Rightarrow> spin_world \<Rightarrow> bool" where
  spin_call: "sp_pcs s c = SpIdle \<Longrightarrow> spin_step c s (sp_goto c (SpTas try) s)"
| spin_test: "sp_pcs s c = SpTas try \<Longrightarrow> spin_step c s (spin_tas c try s)"
| spin_wait: "sp_pcs s c = SpRead \<Longrightarrow> spin_step c s (spin_read c s)"
| spin_release: "sp_pcs s c = SpIn \<Longrightarrow> spin_step c s (spin_unlock c s)"

inductive_cases spin_stepE [elim!]: "spin_step c s s'"

definition sp_has :: "spin_world \<Rightarrow> u16 \<Rightarrow> bool" where
  "sp_has s c \<longleftrightarrow> sp_pcs s c = SpIn"

lemmas spin_defs = sp_has_def sp_goto_def spin_tas_def spin_read_def spin_unlock_def
  sync_lock_test_and_set_def

interpretation spin: exclusion spin_step sp_has sp_p "\<lambda>_. True"
  by unfold_locales (auto simp: spin_defs Let_def split: if_splits)

lemma mk_spinlock_exclusive: "exclusive sp_has sp_p mk_spinlock"
  by (simp add: exclusive_def mk_spinlock_def sp_has_def)

text \<open>
  C23. \<open>spinlock_t\<close>: whatever the interleaving, at most one CPU is between \<open>lock\<close> (or a
  successful \<open>try_lock\<close>) and \<open>unlock\<close>, the flag is zero exactly when none is, and a CPU
  that waits while the lock is free enters within two of its own steps.
\<close>

theorem spinlock_exclusion:
  assumes "reach spin_step mk_spinlock s"
  shows "(\<forall>c d. sp_pcs s c = SpIn \<longrightarrow> sp_pcs s d = SpIn \<longrightarrow> c = d) \<and>
    (sp_p s = 0 \<longleftrightarrow> (\<forall>c. sp_pcs s c \<noteq> SpIn)) \<and>
    ((\<forall>d. sp_pcs s d \<noteq> SpIn) \<longrightarrow> sp_pcs s c = SpRead \<longrightarrow>
       sp_pcs (spin_tas c False (spin_read c s)) c = SpIn \<and> sp_pcs (spin_read c s) c = SpTas False)"
proof -
  have "exclusive sp_has sp_p s"
    using spin.reach_exclusive [OF assms mk_spinlock_exclusive] by simp
  then show ?thesis by (auto simp: exclusive_def spin_defs Let_def)
qed

definition sample_spin :: spin_world where
  "sample_spin = spin_tas 1 False (sp_goto 1 (SpTas False) (spin_tas 0 False (sp_goto 0 (SpTas False) mk_spinlock)))"

lemma sample_spin_reach: "reach spin_step mk_spinlock sample_spin"
  unfolding sample_spin_def
  by (intro reach_step [where step = spin_step, OF _ spin_test] reach_init
        reach_step [where step = spin_step, OF _ spin_call])
    (simp_all add: mk_spinlock_def spin_defs)

theorem spinlock_exclusion_witness:
  "sp_p sample_spin = 1 \<and> sp_pcs sample_spin 0 = SpIn \<and> sp_pcs sample_spin 1 = SpRead \<and>
   {d. sp_pcs sample_spin d = SpIn} = {0}"
proof -
  have "sp_pcs sample_spin 0 = SpIn" "sp_p sample_spin = 1" "sp_pcs sample_spin 1 = SpRead"
    by (simp_all add: sample_spin_def spin_defs mk_spinlock_def)
  with spinlock_exclusion [OF sample_spin_reach, of 0] show ?thesis by blast
qed

section \<open>\<open>mutex_t\<close>\<close>

text \<open>
  The program counters name the next access: \<open>MxEnter try\<close> the test of \<open>is_recirsive_\<close>
  and \<open>owner_\<close>, \<open>MxTas try\<close> the test-and-set, \<open>MxSetOwner\<close>, then \<open>++depth_\<close> as the read
  \<open>MxIncRead\<close> and the write \<open>MxIncWrite r\<close>; \<open>MxAssert\<close>, \<open>MxDecRead\<close>, \<open>MxDecWrite r\<close>,
  \<open>MxClear\<close> and \<open>MxRelease\<close> are the accesses of \<open>unlock\<close>. \<open>mx_held\<close> counts the calls of
  \<open>lock\<close> that have returned and not been undone, which no field of the class holds. A CPU
  calls \<open>unlock\<close> only for a lock it holds, and nests fewer than \<open>2^32 - 1\<close> calls.
\<close>

datatype mx_pc = MxIdle | MxEnter bool | MxTas bool | MxSetOwner | MxIncRead | MxIncWrite u32
  | MxAssert | MxDecRead | MxDecWrite u32 | MxClear | MxRelease | MxStopped rt_error

record mutex_t =
  mx_p :: u32
  mx_owner :: u32
  mx_depth :: u32
  mx_recursive :: bool

record mutex_world =
  mx :: mutex_t
  mx_pcs :: "u16 \<Rightarrow> mx_pc"
  mx_held :: "u16 \<Rightarrow> nat"

definition mk_mutex :: mutex_t where
  "mk_mutex = \<lparr>mx_p = 0, mx_owner = 0, mx_depth = 0, mx_recursive = False\<rparr>"

definition set_recursive :: "mutex_t \<Rightarrow> mutex_t res" where
  "set_recursive m =
     res_bind (libassert (mx_depth m = 0) ''can not make this mutex recursive'') (\<lambda>_.
       Inr (m\<lparr>mx_recursive := True\<rparr>))"

definition mk_mutex_world :: "mutex_t \<Rightarrow> mutex_world" where
  "mk_mutex_world m = \<lparr>mx = m, mx_pcs = (\<lambda>_. MxIdle), mx_held = (\<lambda>_. 0)\<rparr>"

definition mx_goto :: "u16 \<Rightarrow> mx_pc \<Rightarrow> mutex_t \<Rightarrow> mutex_world \<Rightarrow> mutex_world" where
  "mx_goto c l m w = w\<lparr>mx := m, mx_pcs := (mx_pcs w)(c := l)\<rparr>"

definition mx_enter :: "u16 \<Rightarrow> bool \<Rightarrow> mutex_world \<Rightarrow> mutex_world" where
  "mx_enter c try w =
     (if mx_recursive (mx w) \<and> mx_owner (mx w) = get_thread_id c then mx_goto c MxIncRead (mx w) w
      else mx_goto c (MxTas try) (mx w) w)"

definition mx_tas :: "u16 \<Rightarrow> bool \<Rightarrow> mutex_world \<Rightarrow> mutex_world" where
  "mx_tas c try w =
     (let (old, p) = sync_lock_test_and_set (mx_p (mx w)) 1; m = (mx w)\<lparr>mx_p := p\<rparr> in
      if old = 0 then mx_goto c MxSetOwner m w
      else if try then mx_goto c MxIdle m w
      else mx_goto c (case sched of Inl e \<Rightarrow> MxStopped e | Inr _ \<Rightarrow> MxTas False) m w)"

definition mx_inc_write :: "u16 \<Rightarrow> u32 \<Rightarrow> mutex_world \<Rightarrow> mutex_world" where
  "mx_inc_write c r w = (mx_goto c MxIdle ((mx w)\<lparr>mx_depth := r + 1\<rparr>) w)
     \<lparr>mx_held := (mx_held w)(c := Suc (mx_held w c))\<rparr>"

definition mx_assert :: "u16 \<Rightarrow> mutex_world \<Rightarrow> mutex_world" where
  "mx_assert c w =
     mx_goto c (case libassert (mx_depth (mx w) > 0) ''trying to unlock() unlocked mutex'' of
                  Inl e \<Rightarrow> MxStopped e | Inr _ \<Rightarrow> MxDecRead) (mx w) w"

definition mx_dec_write :: "u16 \<Rightarrow> u32 \<Rightarrow> mutex_world \<Rightarrow> mutex_world" where
  "mx_dec_write c r w = (mx_goto c (if r - 1 = 0 then MxClear else MxIdle) ((mx w)\<lparr>mx_depth := r - 1\<rparr>) w)
     \<lparr>mx_held := (mx_held w)(c := mx_held w c - 1)\<rparr>"

inductive mx_step :: "u16 \<Rightarrow> mutex_world \<Rightarrow> mutex_world \<Rightarrow> bool" where
  mx_call_lock: "mx_pcs w c = MxIdle \<Longrightarrow> mx_held w c < 2 ^ 32 - 1 \<Longrightarrow>
     mx_step c w (mx_goto c (MxEnter try) (mx w) w)"
| mx_s_enter: "mx_pcs w c = MxEnter try \<Longrightarrow> mx_step c w (mx_enter c try w)"
| mx_s_tas: "mx_pcs w c = MxTas try \<Longrightarrow> mx_step c w (mx_tas c try w)"
| mx_s_owner: "mx_pcs w c = MxSetOwner \<Longrightarrow>
     mx_step c w (mx_goto c MxIncRead ((mx w)\<lparr>mx_owner := get_thread_id c\<rparr>) w)"
| mx_s_inc_read: "mx_pcs w c = MxIncRead \<Longrightarrow>
     mx_step c w (mx_goto c (MxIncWrite (mx_depth (mx w))) (mx w) w)"
| mx_s_inc_write: "mx_pcs w c = MxIncWrite r \<Longrightarrow> mx_step c w (mx_inc_write c r w)"
| mx_call_unlock: "mx_pcs w c = MxIdle \<Longrightarrow> mx_held w c > 0 \<Longrightarrow>
     mx_step c w (mx_goto c MxAssert (mx w) w)"
| mx_s_assert: "mx_pcs w c = MxAssert \<Longrightarrow> mx_step c w (mx_assert c w)"
| mx_s_dec_read: "mx_pcs w c = MxDecRead \<Longrightarrow>
     mx_step c w (mx_goto c (MxDecWrite (mx_depth (mx w))) (mx w) w)"
| mx_s_dec_write: "mx_pcs w c = MxDecWrite r \<Longrightarrow> mx_step c w (mx_dec_write c r w)"
| mx_s_clear: "mx_pcs w c = MxClear \<Longrightarrow>
     mx_step c w (mx_goto c MxRelease ((mx w)\<lparr>mx_owner := 0\<rparr>) w)"
| mx_s_release: "mx_pcs w c = MxRelease \<Longrightarrow>
     mx_step c w (mx_goto c MxIdle ((mx w)\<lparr>mx_p := 0\<rparr>) w)"

inductive_cases mx_stepE: "mx_step c w w'"

text \<open>
  \<open>mx_has\<close>: the CPU owns the flag. \<open>mx_local\<close> is what the fields and the program counter of a
  CPU say of each other; it is the well-formedness that the contract of a lock asks for.
\<close>

definition mx_acquiring :: "mx_pc \<Rightarrow> bool" where
  "mx_acquiring l \<longleftrightarrow> (\<exists>r. l = MxSetOwner \<or> l = MxIncRead \<or> l = MxIncWrite r)"

definition mx_releasing :: "mx_pc \<Rightarrow> bool" where
  "mx_releasing l \<longleftrightarrow> l = MxClear \<or> l = MxRelease"

definition mx_has :: "mutex_world \<Rightarrow> u16 \<Rightarrow> bool" where
  "mx_has w c \<longleftrightarrow> mx_held w c > 0 \<or> mx_acquiring (mx_pcs w c) \<or> mx_releasing (mx_pcs w c)"

definition mx_pc_ok :: "mutex_t \<Rightarrow> u16 \<Rightarrow> mx_pc \<Rightarrow> nat \<Rightarrow> bool" where
  "mx_pc_ok m c l h = (case l of
       MxEnter _ \<Rightarrow> h < 2 ^ 32 - 1
     | MxTas _ \<Rightarrow> h < 2 ^ 32 - 1
     | MxSetOwner \<Rightarrow> h = 0
     | MxIncRead \<Rightarrow> h < 2 ^ 32 - 1 \<and> (mx_recursive m \<or> h = 0) \<and> mx_owner m = get_thread_id c
     | MxIncWrite r \<Rightarrow> h < 2 ^ 32 - 1 \<and> (mx_recursive m \<or> h = 0) \<and> mx_owner m = get_thread_id c \<and> r = mx_depth m
     | MxAssert \<Rightarrow> h > 0
     | MxDecRead \<Rightarrow> h > 0
     | MxDecWrite r \<Rightarrow> h > 0 \<and> r = mx_depth m
     | MxClear \<Rightarrow> h = 0 \<and> mx_owner m = get_thread_id c
     | MxRelease \<Rightarrow> h = 0 \<and> mx_owner m = 0
     | MxStopped e \<Rightarrow> e = AssertFailed ''not implemented''
     | MxIdle \<Rightarrow> True)"

definition mx_wf :: "mutex_world \<Rightarrow> bool" where
  "mx_wf w \<longleftrightarrow>
     (\<forall>c. mx_pc_ok (mx w) c (mx_pcs w c) (mx_held w c) \<and> mx_held w c < 2 ^ 32 \<and>
          (mx_held w c > 0 \<longrightarrow> mx_owner (mx w) = get_thread_id c) \<and>
          (mx_held w c > 1 \<longrightarrow> mx_recursive (mx w)) \<and>
          (mx_owner (mx w) = get_thread_id c \<longrightarrow> mx_has w c) \<and>
          (mx_has w c \<longrightarrow> mx_depth (mx w) = of_nat (mx_held w c))) \<and>
     ((\<forall>c. \<not> mx_has w c) \<longrightarrow> mx_depth (mx w) = 0)"

lemmas mx_defs = mx_goto_def mx_enter_def mx_tas_def mx_inc_write_def mx_assert_def mx_dec_write_def
  sync_lock_test_and_set_def sched_def libassert_def
lemmas mx_pred_defs = mx_has_def mx_acquiring_def mx_releasing_def

definition mx_cpu_ok :: "mutex_t \<Rightarrow> u16 \<Rightarrow> mx_pc \<Rightarrow> nat \<Rightarrow> bool \<Rightarrow> bool" where
  "mx_cpu_ok m c l h has \<longleftrightarrow> mx_pc_ok m c l h \<and> h < 2 ^ 32 \<and>
     (h > 0 \<longrightarrow> mx_owner m = get_thread_id c) \<and> (h > 1 \<longrightarrow> mx_recursive m) \<and>
     (mx_owner m = get_thread_id c \<longrightarrow> has) \<and> (has \<longrightarrow> mx_depth m = of_nat h)"

lemma mx_wf_alt: "mx_wf w \<longleftrightarrow>
    (\<forall>c. mx_cpu_ok (mx w) c (mx_pcs w c) (mx_held w c) (mx_has w c)) \<and>
    ((\<forall>c. \<not> mx_has w c) \<longrightarrow> mx_depth (mx w) = 0)"
  by (simp add: mx_wf_def mx_cpu_ok_def)

lemma mx_cpu_ok_other:
  assumes "mx_cpu_ok m d l h has" "mx_recursive m' = mx_recursive m"
    and "has = (h > 0 \<or> mx_acquiring l \<or> mx_releasing l)"
    and "mx_owner m' = mx_owner m \<and> mx_depth m' = mx_depth m \<or>
         \<not> has \<and> mx_owner m' \<noteq> get_thread_id d"
  shows "mx_cpu_ok m' d l h has"
  using assms unfolding mx_cpu_ok_def mx_acquiring_def mx_releasing_def
  by (cases l) (auto simp: mx_pc_ok_def)

lemma mx_wf_update:
  assumes ex: "exclusive mx_has (mx_p \<circ> mx) w" and wf: "mx_wf w"
    and w': "mx_pcs w' = (mx_pcs w)(c := l)" "mx_held w' = (mx_held w)(c := h)"
    and m: "mx_recursive (mx w') = mx_recursive (mx w)"
      "mx_owner (mx w') = mx_owner (mx w) \<and> mx_depth (mx w') = mx_depth (mx w) \<or>
       mx_has w c \<and> mx_owner (mx w') \<in> {mx_owner (mx w), get_thread_id c, 0}"
    and c: "mx_cpu_ok (mx w') c l h (mx_has w' c)"
    and free: "mx_has w' c \<or> mx_depth (mx w') = 0 \<or> \<not> mx_has w c \<and> mx_depth (mx w') = mx_depth (mx w)"
  shows "mx_wf w'"
proof -
  have "mx_cpu_ok (mx w') d (mx_pcs w' d) (mx_held w' d) (mx_has w' d)" for d
  proof (cases "d = c")
    case True
    with c w' show ?thesis by simp
  next
    case False
    then have has: "mx_has w' d = mx_has w d" using w' by (simp add: mx_has_def)
    have ok: "mx_cpu_ok (mx w) d (mx_pcs w d) (mx_held w d) (mx_has w d)"
      using wf by (simp add: mx_wf_alt)
    have "\<not> mx_has w d" if "mx_has w c" using ex that False by (auto simp: exclusive_def)
    moreover have "mx_owner (mx w) = get_thread_id d \<longrightarrow> mx_has w d" using ok by (simp add: mx_cpu_ok_def)
    ultimately have "mx_owner (mx w') = mx_owner (mx w) \<and> mx_depth (mx w') = mx_depth (mx w) \<or>
         \<not> mx_has w d \<and> mx_owner (mx w') \<noteq> get_thread_id d"
      using m(2) False get_thread_id_nonzero [of d] by auto
    with ok m(1) have "mx_cpu_ok (mx w') d (mx_pcs w d) (mx_held w d) (mx_has w d)"
      by (intro mx_cpu_ok_other [OF ok]) (simp_all add: mx_has_def)
    with False w' has show ?thesis by simp
  qed
  moreover have "mx_depth (mx w') = 0" if none: "\<forall>d. \<not> mx_has w' d"
  proof -
    have "\<not> mx_has w d" if "d \<noteq> c" for d
      using none [rule_format, of d] that w' by (simp add: mx_has_def)
    moreover have "(\<forall>d. \<not> mx_has w d) \<Longrightarrow> mx_depth (mx w) = 0" using wf by (simp add: mx_wf_alt)
    ultimately show ?thesis using free none by metis
  qed
  ultimately show ?thesis by (simp add: mx_wf_alt)
qed

lemma mx_wf_dec_write:
  assumes ex: "exclusive mx_has (mx_p \<circ> mx) w" and wf: "mx_wf w" and pc: "mx_pcs w c = MxDecWrite r"
  shows "mx_wf (mx_dec_write c r w)" (is "mx_wf ?w'")
proof -
  have ok: "mx_cpu_ok (mx w) c (mx_pcs w c) (mx_held w c) (mx_has w c)"
    using wf by (simp add: mx_wf_alt)
  note facts = ok [unfolded mx_cpu_ok_def mx_pred_defs]
  have h: "mx_held w c < 2 ^ 32" using facts by simp
  obtain k where k: "mx_held w c = Suc k" using facts pc by (auto simp: mx_pc_ok_def gr0_conv_Suc)
  then have r: "r - 1 = of_nat k" and own: "mx_owner (mx w) = get_thread_id c" "k > 0 \<longrightarrow> mx_recursive (mx w)"
    using facts pc by (auto simp: mx_pc_ok_def)
  have k0: "(of_nat k :: u32) = 0 \<longleftrightarrow> k = 0" using h k by (intro of_nat_small_eq_0) simp
  have has: "mx_has w c" "k < 2 ^ 32" using k h by (auto simp: mx_has_def)
  show ?thesis
  proof (rule mx_wf_update [OF ex wf, where c = c and l = "if k = 0 then MxClear else MxIdle" and h = k])
    show "mx_pcs ?w' = (mx_pcs w)(c := if k = 0 then MxClear else MxIdle)" "mx_held ?w' = (mx_held w)(c := k)"
      using k r k0 by (auto simp: mx_dec_write_def mx_goto_def)
    have m: "mx ?w' = (mx w)\<lparr>mx_depth := of_nat k\<rparr>" using r by (simp add: mx_dec_write_def mx_goto_def)
    show "mx_recursive (mx ?w') = mx_recursive (mx w)" using m by simp
    show "mx_owner (mx ?w') = mx_owner (mx w) \<and> mx_depth (mx ?w') = mx_depth (mx w) \<or>
        mx_has w c \<and> mx_owner (mx ?w') \<in> {mx_owner (mx w), get_thread_id c, 0}"
      using m has by simp
    have "mx_has ?w' c" using k r k0 by (auto simp: mx_dec_write_def mx_goto_def mx_pred_defs)
    then show "mx_cpu_ok (mx ?w') c (if k = 0 then MxClear else MxIdle) k (mx_has ?w' c)"
      "mx_has ?w' c \<or> mx_depth (mx ?w') = 0 \<or> \<not> mx_has w c \<and> mx_depth (mx ?w') = mx_depth (mx w)"
      using m own has by (auto simp: mx_cpu_ok_def mx_pc_ok_def)
  qed
qed

lemma mx_wf_step:
  assumes ex: "exclusive mx_has (mx_p \<circ> mx) w" and wf: "mx_wf w" and st: "mx_step c w w'"
  shows "mx_wf w'"
proof -
  have ok: "mx_cpu_ok (mx w) c (mx_pcs w c) (mx_held w c) (mx_has w c)"
    using wf by (simp add: mx_wf_alt)
  note facts = ok [unfolded mx_cpu_ok_def mx_pred_defs]
  have h: "mx_held w c < 2 ^ 32" using facts by simp
  have unheld: "mx_p (mx w) = 0 \<Longrightarrow> mx_held w c = 0" "mx_p (mx w) = 0 \<Longrightarrow> mx_depth (mx w) = 0"
    using ex wf by (auto simp: exclusive_def mx_wf_alt mx_has_def)
  note upd = mx_wf_update [OF ex wf, where c = c]
  note simps = mx_defs mx_pred_defs mx_cpu_ok_def mx_pc_ok_def Let_def
  from st show ?thesis
  proof cases
    case (mx_call_lock b)
    then show ?thesis using facts
      by (intro upd [where l = "MxEnter b" and h = "mx_held w c"]) (auto simp: simps)
  next
    case (mx_s_enter b)
    let ?l = "if mx_recursive (mx w) \<and> mx_owner (mx w) = get_thread_id c then MxIncRead else MxTas b"
    show ?thesis using facts mx_s_enter
      by (intro upd [where l = ?l and h = "mx_held w c"]) (auto simp: simps)
  next
    case (mx_s_tas b)
    let ?l = "if mx_p (mx w) = 0 then MxSetOwner else if b then MxIdle else MxStopped (AssertFailed ''not implemented'')"
    show ?thesis using facts mx_s_tas unheld
      by (intro upd [where l = ?l and h = "mx_held w c"]) (auto simp: simps)
  next
    case mx_s_owner
    then show ?thesis using facts
      by (intro upd [where l = MxIncRead and h = "mx_held w c"]) (auto simp: simps)
  next
    case mx_s_inc_read
    then show ?thesis using facts
      by (intro upd [where l = "MxIncWrite (mx_depth (mx w))" and h = "mx_held w c"]) (auto simp: simps)
  next
    case (mx_s_inc_write r)
    then show ?thesis using facts
      by (intro upd [where l = MxIdle and h = "Suc (mx_held w c)"]) (auto simp: simps)
  next
    case mx_call_unlock
    then show ?thesis using facts
      by (intro upd [where l = MxAssert and h = "mx_held w c"]) (auto simp: simps)
  next
    case mx_s_assert
    then have "mx_depth (mx w) > 0" using facts of_nat_small_eq_0 [of "mx_held w c", where 'a = 32] h by (auto simp: mx_pc_ok_def word_gt_0)
    with mx_s_assert show ?thesis using facts
      by (intro upd [where l = MxDecRead and h = "mx_held w c"]) (auto simp: simps)
  next
    case mx_s_dec_read
    then show ?thesis using facts
      by (intro upd [where l = "MxDecWrite (mx_depth (mx w))" and h = "mx_held w c"]) (auto simp: simps)
  next
    case (mx_s_dec_write r)
    then show ?thesis using mx_wf_dec_write [OF ex wf] by simp
  next
    case mx_s_clear
    then show ?thesis using facts
      by (intro upd [where l = MxRelease and h = "mx_held w c"]) (auto simp: simps)
  next
    case mx_s_release
    then show ?thesis using facts
      by (intro upd [where l = MxIdle and h = "mx_held w c"]) (auto simp: simps)
  qed
qed

interpretation mutex: exclusion mx_step mx_has "mx_p \<circ> mx" mx_wf
proof unfold_locales
  fix c w w' assume ex: "exclusive mx_has (mx_p \<circ> mx) w" and wf: "mx_wf w" and st: "mx_step c w w'"
  have ok: "mx_cpu_ok (mx w) c (mx_pcs w c) (mx_held w c) (mx_has w c)" using wf by (simp add: mx_wf_alt)
  note facts = ok [unfolded mx_cpu_ok_def mx_pred_defs]
  have unheld: "mx_p (mx w) = 0 \<Longrightarrow> mx_held w c = 0" using ex by (simp add: exclusive_def mx_has_def)
  have one: "mx_held w c > 0 \<Longrightarrow> \<not> Suc 0 < mx_held w c \<Longrightarrow> of_nat (mx_held w c) = (1 :: u32)"
    by (cases "mx_held w c") auto
  show "mx_has w' c \<Longrightarrow> \<not> mx_has w c \<Longrightarrow> (mx_p \<circ> mx) w = 0 \<and> (mx_p \<circ> mx) w' \<noteq> 0"
    using st facts by cases (auto simp: mx_defs mx_pred_defs mx_pc_ok_def Let_def split: if_splits)
  show "mx_has w c \<Longrightarrow> \<not> mx_has w' c \<Longrightarrow> (mx_p \<circ> mx) w' = 0"
    using st facts one by cases (auto simp: mx_defs mx_pred_defs mx_pc_ok_def Let_def split: if_splits)
  show "mx_has w' c = mx_has w c \<Longrightarrow> (mx_p \<circ> mx) w = 0 \<longleftrightarrow> (mx_p \<circ> mx) w' = 0"
    using st facts unheld by cases (auto simp: mx_defs mx_pred_defs mx_pc_ok_def Let_def split: if_splits)
  show "mx_wf w'" using ex wf st by (rule mx_wf_step)
next
  fix c w w' d assume st: "mx_step c w w'" and d: "d \<noteq> (c :: u16)"
  then show "mx_has w' d = mx_has w d"
    by cases (auto simp: mx_defs mx_pred_defs Let_def)
qed

lemma mk_mutex_world_ok:
  assumes "mx_p m = 0" "mx_owner m = 0" "mx_depth m = 0"
  shows "exclusive mx_has (mx_p \<circ> mx) (mk_mutex_world m)" "mx_wf (mk_mutex_world m)"
  using assms get_thread_id_nonzero
  by (auto simp: exclusive_def mx_wf_alt mx_cpu_ok_def mx_pc_ok_def mk_mutex_world_def mx_pred_defs
      intro: sym)

text \<open>
  C4. \<open>mutex_t\<close>, plain or made recursive: whatever the interleaving, two CPUs never hold it
  at once; the holder is the recorded owner and \<open>depth_\<close> counts its calls, a plain mutex is
  never held twice, the flag is released exactly when nobody owns it, and the assertion
  of \<open>unlock\<close> never fails: a CPU stops only where a contended \<open>lock\<close> calls \<open>sched\<close>.
\<close>

theorem mutex_exclusion:
  assumes "m = mk_mutex \<or> set_recursive mk_mutex = Inr m"
    and "reach mx_step (mk_mutex_world m) w"
  shows "(\<forall>c d. mx_held w c > 0 \<longrightarrow> mx_held w d > 0 \<longrightarrow> c = d) \<and>
    (\<forall>c. mx_held w c > 0 \<longrightarrow> mx_p (mx w) \<noteq> 0 \<and> mx_owner (mx w) = get_thread_id c \<and>
       unat (mx_depth (mx w)) = mx_held w c \<and> (mx_held w c > 1 \<longrightarrow> mx_recursive (mx w))) \<and>
    (mx_p (mx w) = 0 \<longrightarrow> mx_depth (mx w) = 0 \<and> (\<forall>c. mx_owner (mx w) \<noteq> get_thread_id c)) \<and>
    (\<forall>c e. mx_pcs w c = MxStopped e \<longrightarrow> e = AssertFailed ''not implemented'')"
proof -
  have m: "mx_p m = 0" "mx_owner m = 0" "mx_depth m = 0"
    using assms(1) by (auto simp: mk_mutex_def set_recursive_def libassert_def)
  have ex: "exclusive mx_has (mx_p \<circ> mx) w" and wf: "mx_wf w"
    using mutex.reach_exclusive [OF assms(2)] mk_mutex_world_ok [OF m] by auto
  have ok: "mx_cpu_ok (mx w) c (mx_pcs w c) (mx_held w c) (mx_has w c)" for c using wf by (simp add: mx_wf_alt)
  have has: "mx_has w c" if "mx_held w c > 0" for c using that by (simp add: mx_has_def)
  have depth: "unat (mx_depth (mx w)) = mx_held w c" if "mx_held w c > 0" for c
    using ok [of c] has [OF that] by (auto simp: mx_cpu_ok_def intro!: unat_of_nat_small)
  have excl: "c = d" if "mx_held w c > 0" "mx_held w d > 0" for c d
    using ex has that by (auto simp: exclusive_def)
  have free: "mx_depth (mx w) = 0" "\<not> mx_has w c" if "mx_p (mx w) = 0" for c
    using ex wf that by (auto simp: exclusive_def mx_wf_alt)
  have stopped: "e = AssertFailed ''not implemented''" if "mx_pcs w c = MxStopped e" for c e
    using ok [of c] that by (simp add: mx_cpu_ok_def mx_pc_ok_def)
  show ?thesis
    using ok has depth excl free stopped by (auto simp: mx_cpu_ok_def) blast+
qed

text \<open>The next access of a CPU inside an operation is determined by its program counter.\<close>

definition mx_exec :: "u16 \<Rightarrow> mutex_world \<Rightarrow> mutex_world" where
  "mx_exec c w = (case mx_pcs w c of
       MxEnter b \<Rightarrow> mx_enter c b w
     | MxTas b \<Rightarrow> mx_tas c b w
     | MxSetOwner \<Rightarrow> mx_goto c MxIncRead ((mx w)\<lparr>mx_owner := get_thread_id c\<rparr>) w
     | MxIncRead \<Rightarrow> mx_goto c (MxIncWrite (mx_depth (mx w))) (mx w) w
     | MxIncWrite r \<Rightarrow> mx_inc_write c r w
     | MxAssert \<Rightarrow> mx_assert c w
     | MxDecRead \<Rightarrow> mx_goto c (MxDecWrite (mx_depth (mx w))) (mx w) w
     | MxDecWrite r \<Rightarrow> mx_dec_write c r w
     | MxClear \<Rightarrow> mx_goto c MxRelease ((mx w)\<lparr>mx_owner := 0\<rparr>) w
     | MxRelease \<Rightarrow> mx_goto c MxIdle ((mx w)\<lparr>mx_p := 0\<rparr>) w
     | MxIdle \<Rightarrow> w
     | MxStopped _ \<Rightarrow> w)"

lemma reach_mx_exec: "reach mx_step w0 w \<Longrightarrow> reach mx_step w0 (mx_exec c w)"
  by (cases "mx_pcs w c") (auto simp: mx_exec_def intro: reach_step [where c = c] mx_step.intros)

lemma reach_mx_execs: "reach mx_step w0 w \<Longrightarrow> reach mx_step w0 (fold mx_exec cs w)"
  by (induction cs arbitrary: w) (auto intro: reach_mx_exec)

definition sample_mutex :: mutex_world where
  "sample_mutex =
     (let w = fold mx_exec [0, 0, 0, 0, 0] (mx_goto 0 (MxEnter False) mk_mutex (mk_mutex_world mk_mutex))
      in fold mx_exec [1, 1] (mx_goto 1 (MxEnter False) (mx w) w))"

lemma sample_mutex_reach: "reach mx_step (mk_mutex_world mk_mutex) sample_mutex"
proof -
  let ?start = "mk_mutex_world mk_mutex"
  let ?w = "fold mx_exec [0, 0, 0, 0, 0] (mx_goto 0 (MxEnter False) mk_mutex ?start)"
  have "mx_step 0 ?start (mx_goto 0 (MxEnter False) (mx ?start) ?start)"
    by (rule mx_call_lock) (simp_all add: mk_mutex_world_def)
  then have "reach mx_step ?start ?w"
    by (intro reach_mx_execs reach_step [OF reach_init, where c = 0]) (simp add: mk_mutex_world_def)
  moreover have "mx_step 1 ?w (mx_goto 1 (MxEnter False) (mx ?w) ?w)"
    by (rule mx_call_lock) (simp_all add: mk_mutex_world_def mx_exec_def mx_defs mk_mutex_def)
  ultimately show ?thesis
    unfolding sample_mutex_def Let_def by (rule reach_mx_execs [OF reach_step])
qed

theorem mutex_exclusion_witness:
  "mx_held sample_mutex 0 = 1 \<and> mx_pcs sample_mutex 1 = MxStopped (AssertFailed ''not implemented'') \<and>
   {d. mx_held sample_mutex d > 0} = {0} \<and> mx_owner (mx sample_mutex) = 1"
proof -
  have "mx_held sample_mutex 0 = 1" "mx_pcs sample_mutex 1 = MxStopped (AssertFailed ''not implemented'')"
    by (simp_all add: sample_mutex_def mk_mutex_world_def mx_exec_def mx_defs mk_mutex_def get_thread_id_def)
  moreover have "get_thread_id 0 = 1" by (simp add: get_thread_id_def)
  moreover note ex = mutex_exclusion [OF disjI1 [OF refl] sample_mutex_reach]
  have "0 < mx_held sample_mutex d \<longleftrightarrow> d = 0" if "mx_held sample_mutex 0 = 1" for d
    using conjunct1 [OF ex] that by (metis zero_less_one)
  moreover have "mx_owner (mx sample_mutex) = get_thread_id 0" if "mx_held sample_mutex 0 = 1"
    using conjunct1 [OF conjunct2 [OF ex]] that by (metis zero_less_one)
  ultimately show ?thesis by simp
qed

section \<open>\<open>semaphore_t\<close>\<close>

text \<open>
  \<open>try_wait\<close> and \<open>signal\<close> are compare-and-swap loops: \<open>SmWaitRead\<close> and \<open>SmSigRead\<close> read the
  counter, \<open>SmWaitCas n\<close> and \<open>SmSigCas n\<close> try to replace the value \<open>n\<close> they read. A value
  that changed in between sends the loop back to its read. \<open>sm_waits\<close> and \<open>sm_signals\<close> count
  the successful replacements.
\<close>

datatype sm_pc = SmIdle | SmWaitRead | SmWaitCas u32 | SmFailed | SmSigRead | SmSigCas u32

record semaphore_world =
  sm_count :: u32
  sm_pcs :: "u16 \<Rightarrow> sm_pc"
  sm_waits :: nat
  sm_signals :: nat

definition mk_semaphore :: "u32 \<Rightarrow> semaphore_world" where
  "mk_semaphore n = \<lparr>sm_count = n, sm_pcs = (\<lambda>_. SmIdle), sm_waits = 0, sm_signals = 0\<rparr>"

definition sync_val_compare_and_swap :: "u32 \<Rightarrow> u32 \<Rightarrow> u32 \<Rightarrow> u32 \<times> u32" where
  "sync_val_compare_and_swap v old new = (v, if v = old then new else v)"

definition sm_goto :: "u16 \<Rightarrow> sm_pc \<Rightarrow> semaphore_world \<Rightarrow> semaphore_world" where
  "sm_goto c l w = w\<lparr>sm_pcs := (sm_pcs w)(c := l)\<rparr>"

definition sm_wait_read :: "u16 \<Rightarrow> semaphore_world \<Rightarrow> semaphore_world" where
  "sm_wait_read c w = sm_goto c (if sm_count w > 0 then SmWaitCas (sm_count w) else SmFailed) w"

definition sm_wait_cas :: "u16 \<Rightarrow> u32 \<Rightarrow> semaphore_world \<Rightarrow> semaphore_world" where
  "sm_wait_cas c n w =
     (let (old, v) = sync_val_compare_and_swap (sm_count w) n (n - 1); w' = w\<lparr>sm_count := v\<rparr> in
      if old = n then (sm_goto c SmIdle w')\<lparr>sm_waits := Suc (sm_waits w)\<rparr>
      else sm_goto c SmWaitRead w')"

definition sm_sig_read :: "u16 \<Rightarrow> semaphore_world \<Rightarrow> semaphore_world" where
  "sm_sig_read c w = sm_goto c (SmSigCas (sm_count w)) w"

definition sm_sig_cas :: "u16 \<Rightarrow> u32 \<Rightarrow> semaphore_world \<Rightarrow> semaphore_world" where
  "sm_sig_cas c n w =
     (let (old, v) = sync_val_compare_and_swap (sm_count w) n (n + 1); w' = w\<lparr>sm_count := v\<rparr> in
      if old \<noteq> n then sm_goto c SmSigRead w'
      else (sm_goto c SmIdle w')\<lparr>sm_signals := Suc (sm_signals w)\<rparr>)"

inductive sm_step :: "u16 \<Rightarrow> semaphore_world \<Rightarrow> semaphore_world \<Rightarrow> bool" where
  sm_call_wait: "sm_pcs w c = SmIdle \<or> sm_pcs w c = SmFailed \<Longrightarrow> sm_step c w (sm_goto c SmWaitRead w)"
| sm_call_signal: "sm_pcs w c = SmIdle \<or> sm_pcs w c = SmFailed \<Longrightarrow> sm_step c w (sm_goto c SmSigRead w)"
| sm_s_wait_read: "sm_pcs w c = SmWaitRead \<Longrightarrow> sm_step c w (sm_wait_read c w)"
| sm_s_wait_cas: "sm_pcs w c = SmWaitCas n \<Longrightarrow> sm_step c w (sm_wait_cas c n w)"
| sm_s_sig_read: "sm_pcs w c = SmSigRead \<Longrightarrow> sm_step c w (sm_sig_read c w)"
| sm_s_sig_cas: "sm_pcs w c = SmSigCas n \<Longrightarrow> sm_step c w (sm_sig_cas c n w)"

inductive_cases sm_stepE [elim!]: "sm_step c w w'"

lemmas sm_defs = sm_goto_def sm_wait_read_def sm_wait_cas_def sm_sig_read_def sm_sig_cas_def
  sync_val_compare_and_swap_def

definition sm_exact :: "u32 \<Rightarrow> semaphore_world \<Rightarrow> bool" where
  "sm_exact n w \<longleftrightarrow> (unat n + sm_signals w < 2 ^ 32 \<longrightarrow> unat (sm_count w) + sm_waits w = unat n + sm_signals w) \<and>
     (\<forall>c v. sm_pcs w c = SmWaitCas v \<longrightarrow> v > 0)"

lemma sm_exact_step:
  assumes "sm_exact n w" "sm_step c w w'"
  shows "sm_exact n w'"
proof -
  have dec: "Suc (unat (v - 1)) = unat v" if "v > 0" for v :: u32
    using that by (simp add: unat_minus_one word_greater_zero_iff unat_gt_0)
  have inc: "unat (v + 1) = Suc (unat v)" if "unat v < 2 ^ 32 - 1" for v :: u32
    using that by (subst unat_add_no_wrap) auto
  show ?thesis
    using assms(2,1) dec [of "sm_count w"] inc [of "sm_count w"]
    by cases (auto simp: sm_exact_def sm_defs Let_def word_greater_zero_iff split: if_splits)
qed

lemma sm_exact_reach: "reach sm_step (mk_semaphore n) w \<Longrightarrow> sm_exact n w"
proof (induction rule: reach.induct)
  case reach_init
  show ?case by (simp add: sm_exact_def mk_semaphore_def)
next
  case (reach_step w c w')
  from reach_step.IH reach_step.hyps(2) show ?case by (rule sm_exact_step)
qed

text \<open>
  C26. \<open>semaphore_t\<close>: whatever the interleaving of the compare-and-swap loops, the counter is
  the initial value plus the signals minus the waits that succeeded, as long as that sum
  fits 32 bits; no unit is lost or taken twice, and no more waits succeed than there were
  units.
\<close>

theorem semaphore_conservation:
  assumes "reach sm_step (mk_semaphore n) w" "unat n + sm_signals w < 2 ^ 32"
  shows "unat (sm_count w) = unat n + sm_signals w - sm_waits w \<and> sm_waits w \<le> unat n + sm_signals w"
  using sm_exact_reach [OF assms(1)] assms(2) by (auto simp: sm_exact_def)

definition sample_semaphore :: semaphore_world where
  "sample_semaphore = sm_sig_cas 1 1 (sm_wait_cas 0 1 (sm_sig_read 1 (sm_wait_read 0
     (sm_goto 1 SmSigRead (sm_goto 0 SmWaitRead (mk_semaphore 1))))))"

theorem semaphore_conservation_witness:
  "sm_waits sample_semaphore = 1 \<and> sm_signals sample_semaphore = 0 \<and>
   sm_pcs sample_semaphore 1 = SmSigRead \<and> unat (sm_count sample_semaphore) = 1 + 0 - 1"
proof -
  have "reach sm_step (mk_semaphore 1) sample_semaphore"
    unfolding sample_semaphore_def
    by (intro reach_init reach_step [where step = sm_step, OF _ sm_s_sig_cas]
        reach_step [where step = sm_step, OF _ sm_s_wait_cas] reach_step [where step = sm_step, OF _ sm_s_sig_read]
        reach_step [where step = sm_step, OF _ sm_s_wait_read]
        reach_step [where step = sm_step, OF _ sm_call_wait] reach_step [where step = sm_step, OF _ sm_call_signal])
      (simp_all add: sm_defs mk_semaphore_def)
  moreover have "sm_waits sample_semaphore = 1" "sm_signals sample_semaphore = 0" "sm_pcs sample_semaphore 1 = SmSigRead"
    by (simp_all add: sample_semaphore_def sm_defs mk_semaphore_def)
  ultimately show ?thesis using semaphore_conservation [of 1 sample_semaphore] by simp
qed

text \<open>
  \<open>wait\<close> and \<open>timed_wait\<close> by the outcome \<open>ok\<close> of their \<open>try_wait\<close> and the two readings of the
  clock. After a failed \<open>try_wait\<close> both call \<open>sched\<close>, whose assertion fails.
\<close>

definition sem_wait :: "bool \<Rightarrow> unit res" where
  "sem_wait ok = (if ok then Inr () else sched)"

definition sem_timed_wait :: "u64 \<Rightarrow> u64 \<Rightarrow> bool \<Rightarrow> u64 \<Rightarrow> bool res" where
  "sem_timed_wait max_time now ok later =
     (if max_time = 0 then Inr ok
      else let end_time = now + max_time in
        if ok then Inr True
        else if later > end_time then Inr False
        else res_bind sched (\<lambda>_. Inr False))"

section \<open>\<open>condvar_t\<close>\<close>

text \<open>
  The queue of waiters is a singly linked list through nodes that live on the stacks of the
  waiting threads: \<open>cv_nodes\<close> holds the nodes that exist, a thread that returns from
  \<open>wait\<close> takes its node away. \<open>signal\<close> wakes the head in one access and reads the link of
  the head in a later one. The two mutexes, the queue's own \<open>m_\<close> and the caller's, are locked
  and unlocked by whole calls here; a \<open>lock\<close> that has to wait ends in \<open>sched\<close>.
\<close>

definition mutex_lock :: "u16 \<Rightarrow> mutex_t \<Rightarrow> mutex_t res" where
  "mutex_lock c m =
     (if mx_recursive m \<and> mx_owner m = get_thread_id c then Inr (m\<lparr>mx_depth := mx_depth m + 1\<rparr>)
      else let (old, p) = sync_lock_test_and_set (mx_p m) 1 in
        if old \<noteq> 0 then res_bind sched (\<lambda>_. Inr m)
        else Inr (m\<lparr>mx_p := p, mx_owner := get_thread_id c, mx_depth := mx_depth m + 1\<rparr>))"

definition mutex_unlock :: "mutex_t \<Rightarrow> mutex_t res" where
  "mutex_unlock m =
     res_bind (libassert (mx_depth m > 0) ''trying to unlock() unlocked mutex'') (\<lambda>_.
       let m1 = m\<lparr>mx_depth := mx_depth m - 1\<rparr> in
       Inr (if mx_depth m1 = 0 then m1\<lparr>mx_owner := 0, mx_p := 0\<rparr> else m1))"

record cv_node =
  cn_sem :: u32
  cn_next :: "nat option"

record condvar_t =
  cv_m :: mutex_t
  cv_q :: "nat option"
  cv_nodes :: "nat \<Rightarrow> cv_node option"

definition mk_condvar :: condvar_t where
  "mk_condvar = \<lparr>cv_m = mk_mutex, cv_q = None, cv_nodes = (\<lambda>_. None)\<rparr>"

definition delete_condvar :: "condvar_t \<Rightarrow> unit res" where
  "delete_condvar s = libassert (cv_q s = None) ''q_ == nullptr''"

definition cv_enqueue :: "nat \<Rightarrow> condvar_t \<Rightarrow> condvar_t" where
  "cv_enqueue n s = s\<lparr>cv_q := Some n, cv_nodes := (cv_nodes s)(n \<mapsto> \<lparr>cn_sem = 0, cn_next = cv_q s\<rparr>)\<rparr>"

text \<open>\<open>m_.lock(); ... m_.unlock();\<close> around the work on the queue.\<close>

definition cv_locked :: "u16 \<Rightarrow> (condvar_t \<Rightarrow> condvar_t res) \<Rightarrow> condvar_t \<Rightarrow> condvar_t res" where
  "cv_locked c f s =
     res_bind (mutex_lock c (cv_m s)) (\<lambda>m.
     res_bind (f (s\<lparr>cv_m := m\<rparr>)) (\<lambda>s'.
     res_bind (mutex_unlock (cv_m s')) (\<lambda>m'. Inr (s'\<lparr>cv_m := m'\<rparr>))))"

definition node_at :: "condvar_t \<Rightarrow> nat \<Rightarrow> cv_node res" where
  "node_at s n = (case cv_nodes s n of Some d \<Rightarrow> Inr d | None \<Rightarrow> Inl (OutOfBounds ''condvar_node_t''))"

definition cv_wake :: "nat \<Rightarrow> condvar_t \<Rightarrow> condvar_t res" where
  "cv_wake n s = res_bind (node_at s n) (\<lambda>d.
     Inr (s\<lparr>cv_nodes := (cv_nodes s)(n \<mapsto> d\<lparr>cn_sem := cn_sem d + 1\<rparr>)\<rparr>))"

definition cv_advance :: "nat \<Rightarrow> condvar_t \<Rightarrow> condvar_t res" where
  "cv_advance n s = res_bind (node_at s n) (\<lambda>d. Inr (s\<lparr>cv_q := cn_next d\<rparr>))"

definition signal_head :: "condvar_t \<Rightarrow> condvar_t res" where
  "signal_head s = (case cv_q s of None \<Rightarrow> Inr s | Some n \<Rightarrow> res_bind (cv_wake n s) (cv_advance n))"

definition cv_signal :: "u16 \<Rightarrow> condvar_t \<Rightarrow> condvar_t res" where
  "cv_signal c = cv_locked c signal_head"

fun broadcast_loop :: "nat \<Rightarrow> condvar_t \<Rightarrow> condvar_t res" where
  "broadcast_loop fuel s = (case cv_q s of
       None \<Rightarrow> Inr s
     | Some n \<Rightarrow> (case fuel of 0 \<Rightarrow> Inl OutOfFuel
         | Suc k \<Rightarrow> res_bind (res_bind (cv_wake n s) (cv_advance n)) (broadcast_loop k)))"

declare broadcast_loop.simps [simp del]

definition cv_broadcast :: "u16 \<Rightarrow> nat \<Rightarrow> condvar_t \<Rightarrow> condvar_t res" where
  "cv_broadcast c fuel = cv_locked c (broadcast_loop fuel)"

text \<open>
  The waiter on CPU \<open>c\<close> in two parts, since others run in between: it links its node and
  releases the caller's mutex; then its semaphore wait takes the unit, it locks the caller's mutex
  again, and its stack frame goes with the node.
\<close>

definition cv_wait :: "u16 \<Rightarrow> nat \<Rightarrow> condvar_t \<Rightarrow> mutex_t \<Rightarrow> (condvar_t \<times> mutex_t) res" where
  "cv_wait c n s mutex =
     res_bind (cv_locked c (\<lambda>s. Inr (cv_enqueue n s)) s) (\<lambda>s.
     res_bind (mutex_unlock mutex) (\<lambda>mutex. Inr (s, mutex)))"

definition cv_return :: "u16 \<Rightarrow> nat \<Rightarrow> condvar_t \<Rightarrow> mutex_t \<Rightarrow> (condvar_t \<times> mutex_t) res" where
  "cv_return c n s mutex = res_bind (node_at s n) (\<lambda>d.
     res_bind (sem_wait (cn_sem d > 0)) (\<lambda>_.
     res_bind (mutex_lock c mutex) (\<lambda>mutex.
       Inr (s\<lparr>cv_nodes := (cv_nodes s)(n := None)\<rparr>, mutex))))"

text \<open>The loop of \<open>timed_wait\<close> that takes a node out of the queue after a timeout.\<close>

fun cv_unlink_loop :: "nat \<Rightarrow> nat \<Rightarrow> nat option \<Rightarrow> nat option \<Rightarrow> condvar_t \<Rightarrow> condvar_t res" where
  "cv_unlink_loop fuel node it prev s = (case it of
       None \<Rightarrow> Inr s
     | Some i \<Rightarrow> (case fuel of 0 \<Rightarrow> Inl OutOfFuel | Suc k \<Rightarrow>
         res_bind (node_at s i) (\<lambda>d.
           if node = i then
             (case prev of
                Some p \<Rightarrow> res_bind (node_at s p) (\<lambda>e.
                  Inr (s\<lparr>cv_nodes := (cv_nodes s)(p \<mapsto> e\<lparr>cn_next := cn_next d\<rparr>, i \<mapsto> d\<lparr>cn_next := None\<rparr>)\<rparr>))
              | None \<Rightarrow> Inr (s\<lparr>cv_q := cn_next d, cv_nodes := (cv_nodes s)(i \<mapsto> d\<lparr>cn_next := None\<rparr>)\<rparr>))
           else cv_unlink_loop k node (cn_next d) (Some i) s)))"

declare cv_unlink_loop.simps [simp del]

definition cv_unlink :: "nat \<Rightarrow> nat \<Rightarrow> condvar_t \<Rightarrow> condvar_t res" where
  "cv_unlink fuel node s = cv_unlink_loop fuel node (cv_q s) None s"

text \<open>\<open>timed_wait\<close> begins as \<open>wait\<close> does; this is what follows, by the two readings of the clock.\<close>

definition cv_timed_return ::
  "u16 \<Rightarrow> nat \<Rightarrow> u64 \<Rightarrow> u64 \<Rightarrow> u64 \<Rightarrow> nat \<Rightarrow> condvar_t \<Rightarrow> mutex_t \<Rightarrow> (bool \<times> condvar_t \<times> mutex_t) res" where
  "cv_timed_return c fuel max_time now later n s mutex = res_bind (node_at s n) (\<lambda>d.
     res_bind (sem_timed_wait max_time now (cn_sem d > 0) later) (\<lambda>result.
     res_bind (mutex_lock c mutex) (\<lambda>mutex.
     res_bind (if result then Inr s else cv_locked c (cv_unlink fuel n) s) (\<lambda>s.
       Inr (result, s\<lparr>cv_nodes := (cv_nodes s)(n := None)\<rparr>, mutex)))))"

text \<open>\<open>cv_chain ns q xs\<close>: the links from \<open>q\<close> visit the nodes \<open>xs\<close>, each once.\<close>

fun cv_chain :: "(nat \<Rightarrow> cv_node option) \<Rightarrow> nat option \<Rightarrow> nat list \<Rightarrow> bool" where
  "cv_chain ns q [] \<longleftrightarrow> q = None"
| "cv_chain ns q (x # xs) \<longleftrightarrow> q = Some x \<and> x \<notin> set xs \<and> (\<exists>d. ns x = Some d \<and> cv_chain ns (cn_next d) xs)"

lemma cv_chain_cong:
  "cv_chain ns q xs \<Longrightarrow> (\<And>x. x \<in> set xs \<Longrightarrow> map_option cn_next (ns' x) = map_option cn_next (ns x)) \<Longrightarrow>
   cv_chain ns' q xs"
proof (induction xs arbitrary: q)
  case (Cons x xs)
  then obtain d where d: "ns x = Some d" "cv_chain ns (cn_next d) xs" "q = Some x" "x \<notin> set xs" by auto
  then obtain d' where "ns' x = Some d'" "cn_next d' = cn_next d" using Cons.prems(2) [of x] by auto
  with d Cons.IH [of "cn_next d"] Cons.prems(2) show ?case by simp
qed simp

lemma cv_enqueue_chain:
  "cv_chain (cv_nodes s) (cv_q s) xs \<Longrightarrow> n \<notin> set xs \<Longrightarrow>
   cv_chain (cv_nodes (cv_enqueue n s)) (cv_q (cv_enqueue n s)) (n # xs)"
  by (auto simp: cv_enqueue_def elim!: cv_chain_cong)

lemma signal_head_chain:
  assumes "cv_chain (cv_nodes s) (cv_q s) (n # xs)"
  shows "\<exists>s' d. signal_head s = Inr s' \<and> cv_m s' = cv_m s \<and> cv_nodes s n = Some d \<and>
    cv_chain (cv_nodes s') (cv_q s') xs \<and> cv_nodes s' = (cv_nodes s)(n \<mapsto> d\<lparr>cn_sem := cn_sem d + 1\<rparr>)"
proof -
  from assms obtain d where d: "cv_nodes s n = Some d" "cv_chain (cv_nodes s) (cn_next d) xs"
    "cv_q s = Some n" "n \<notin> set xs" by auto
  then have "cv_chain ((cv_nodes s)(n \<mapsto> d\<lparr>cn_sem := cn_sem d + 1\<rparr>)) (cn_next d) xs"
    by (elim cv_chain_cong) auto
  with d show ?thesis by (simp add: signal_head_def cv_wake_def cv_advance_def node_at_def)
qed

lemma broadcast_loop_chain:
  "cv_chain (cv_nodes s) (cv_q s) xs \<Longrightarrow> length xs \<le> fuel \<Longrightarrow>
   \<exists>s'. broadcast_loop fuel s = Inr s' \<and> cv_m s' = cv_m s \<and> cv_q s' = None \<and>
     (\<forall>x \<in> set xs. map_option cn_sem (cv_nodes s' x) = map_option (\<lambda>d. cn_sem d + 1) (cv_nodes s x)) \<and>
     (\<forall>x. x \<notin> set xs \<longrightarrow> cv_nodes s' x = cv_nodes s x)"
proof (induction xs arbitrary: s fuel)
  case Nil
  then show ?case by (simp add: broadcast_loop.simps)
next
  case (Cons n xs)
  from signal_head_chain [OF Cons.prems(1)] obtain s1 d where s1: "signal_head s = Inr s1"
    "cv_m s1 = cv_m s" "cv_nodes s n = Some d" "cv_chain (cv_nodes s1) (cv_q s1) xs"
    "cv_nodes s1 = (cv_nodes s)(n \<mapsto> d\<lparr>cn_sem := cn_sem d + 1\<rparr>)" by blast
  obtain k where k: "fuel = Suc k" "length xs \<le> k" using Cons.prems(2) by (cases fuel) auto
  have q: "cv_q s = Some n" "n \<notin> set xs" using Cons.prems(1) by auto
  then have "broadcast_loop fuel s = broadcast_loop k s1"
    using s1(1) k by (simp add: broadcast_loop.simps [of "Suc k"] signal_head_def)
  with Cons.IH [OF s1(4) k(2)] s1 q show ?case by (auto split: if_splits)
qed

lemma cv_chain_split:
  "cv_chain ns q (xs @ y # ys) \<Longrightarrow> (\<exists>d. ns y = Some d \<and> cv_chain ns (cn_next d) ys) \<and> y \<notin> set ys \<union> set xs \<and>
     (xs \<noteq> [] \<longrightarrow> (\<exists>e. ns (last xs) = Some e \<and> cn_next e = Some y))"
proof (induction xs arbitrary: q)
  case (Cons x xs)
  then obtain e where e: "ns x = Some e" "cv_chain ns (cn_next e) (xs @ y # ys)" "x \<notin> set (xs @ y # ys)"
    by auto
  show ?case
  proof (cases "xs = []")
    case True
    with e show ?thesis by auto
  next
    case False
    with Cons.IH [OF e(2)] e(3) show ?thesis by simp
  qed
qed simp

lemma cv_chain_skip:
  assumes "cv_chain ns q (xs @ y # ys)" "xs \<noteq> []" "ns (last xs) = Some e" "ns y = Some d"
  shows "cv_chain (ns(last xs \<mapsto> e\<lparr>cn_next := cn_next d\<rparr>, y \<mapsto> d\<lparr>cn_next := None\<rparr>)) q (xs @ ys)"
  using assms
proof (induction xs arbitrary: q)
  case (Cons x xs)
  show ?case
  proof (cases xs)
    case Nil
    with Cons.prems have "cv_chain ns (cn_next d) ys" "x \<notin> set ys" "y \<notin> set ys" "x \<noteq> y" "q = Some x" by auto
    with Nil show ?thesis by (auto elim!: cv_chain_cong)
  next
    case (Cons x' xs')
    with Cons.prems obtain f where f: "ns x = Some f" "cv_chain ns (cn_next f) (xs @ y # ys)"
      "x \<notin> set xs" "x \<noteq> y" "x \<notin> set ys" "q = Some x" by auto
    have xs: "xs \<noteq> []" "last (x # xs) = last xs" using Cons by auto
    with f have "x \<noteq> last xs" by auto
    with Cons.IH [OF f(2) xs(1)] Cons.prems f xs show ?thesis by simp
  qed
qed simp

lemma cv_unlink_loop_chain:
  assumes "cv_chain (cv_nodes s) (cv_q s) (pre @ ys)" "length ys \<le> fuel" "n \<in> set ys"
    and "it = Some (hd ys)" "prev = (if pre = [] then None else Some (last pre))"
  shows "\<exists>s'. cv_unlink_loop fuel n it prev s = Inr s' \<and> cv_chain (cv_nodes s') (cv_q s') (pre @ remove1 n ys)"
  using assms
proof (induction ys arbitrary: pre it prev fuel)
  case (Cons y ys)
  from cv_chain_split [OF Cons.prems(1)] obtain d where
    d: "cv_nodes s y = Some d" "cv_chain (cv_nodes s) (cn_next d) ys" "y \<notin> set ys" "y \<notin> set pre" by auto
  obtain k where k: "fuel = Suc k" "length ys \<le> k" using Cons.prems(2) by (cases fuel) auto
  show ?case
  proof (cases "n = y")
    case True
    show ?thesis
    proof (cases "pre = []")
      case True
      have "cv_chain ((cv_nodes s)(y \<mapsto> d\<lparr>cn_next := None\<rparr>)) (cn_next d) ys"
        using d by (elim cv_chain_cong) auto
      with True \<open>n = y\<close> d k Cons.prems show ?thesis
        by (simp add: cv_unlink_loop.simps [of "Suc k"] node_at_def)
    next
      case False
      from cv_chain_split [OF Cons.prems(1)] False obtain e where e: "cv_nodes s (last pre) = Some e" by auto
      from cv_chain_skip [OF Cons.prems(1) False e d(1)] False \<open>n = y\<close> d e k Cons.prems show ?thesis
        by (simp add: cv_unlink_loop.simps [of "Suc k"] node_at_def)
    qed
  next
    case False
    with Cons.prems have n: "n \<in> set ys" by simp
    then obtain z zs where z: "ys = z # zs" by (cases ys) auto
    with d have "cn_next d = Some (hd ys)" by simp
    with Cons.IH [of "pre @ [y]" k "cn_next d" "Some y"] Cons.prems k n False d show ?thesis
      by (simp add: cv_unlink_loop.simps [of "Suc k"] node_at_def)
  qed
qed simp

lemma cv_unlink_chain:
  assumes "cv_chain (cv_nodes s) (cv_q s) xs" "length xs \<le> fuel" "n \<in> set xs"
  shows "\<exists>s'. cv_unlink fuel n s = Inr s' \<and> cv_chain (cv_nodes s') (cv_q s') (remove1 n xs)"
proof -
  from assms obtain y ys where "xs = y # ys" "cv_q s = Some y" by (cases xs) auto
  then show ?thesis using cv_unlink_loop_chain [of s "[]" xs fuel n "cv_q s" None] assms
    by (simp add: cv_unlink_def)
qed

subsection \<open>Whole calls\<close>

definition mutex_free :: "mutex_t \<Rightarrow> bool" where
  "mutex_free m \<longleftrightarrow> mx_p m = 0 \<and> mx_owner m = 0 \<and> mx_depth m = 0"

definition held_by :: "u16 \<Rightarrow> mutex_t \<Rightarrow> mutex_t" where
  "held_by c m = m\<lparr>mx_p := 1, mx_owner := get_thread_id c, mx_depth := 1\<rparr>"

lemma mutex_lock_free: "mutex_free m \<Longrightarrow> mutex_lock c m = Inr (held_by c m)"
  using get_thread_id_nonzero [of c]
  by (auto simp: mutex_lock_def mutex_free_def held_by_def sync_lock_test_and_set_def)

lemma mutex_unlock_held: "mutex_free m \<Longrightarrow> mutex_unlock (held_by c m) = Inr m"
  by (cases m) (simp add: mutex_unlock_def mutex_free_def held_by_def libassert_def)

lemma cv_locked_free:
  assumes "mutex_free (cv_m s)" "f (s\<lparr>cv_m := held_by c (cv_m s)\<rparr>) = Inr s'" "cv_m s' = held_by c (cv_m s)"
  shows "cv_locked c f s = Inr (s'\<lparr>cv_m := cv_m s\<rparr>)"
  using assms by (simp add: cv_locked_def mutex_lock_free mutex_unlock_held)

lemma cv_wait_queues:
  assumes "mutex_free (cv_m s)" "mutex_free mu" "cv_chain (cv_nodes s) (cv_q s) xs" "n \<notin> set xs"
  shows "cv_wait c n s (held_by c mu) = Inr (cv_enqueue n s, mu) \<and>
    cv_chain (cv_nodes (cv_enqueue n s)) (cv_q (cv_enqueue n s)) (n # xs)"
proof -
  have "cv_locked c (\<lambda>s. Inr (cv_enqueue n s)) s = Inr (cv_enqueue n s)"
    using cv_locked_free [OF assms(1), of "\<lambda>s. Inr (cv_enqueue n s)" c] by (simp add: cv_enqueue_def)
  then show ?thesis
    using assms(2) cv_enqueue_chain [OF assms(3,4)] by (simp add: cv_wait_def mutex_unlock_held)
qed

lemma cv_signal_chain:
  assumes "mutex_free (cv_m s)" "cv_chain (cv_nodes s) (cv_q s) (n # xs)"
  shows "\<exists>s' d. cv_signal c s = Inr s' \<and> cv_m s' = cv_m s \<and> cv_nodes s n = Some d \<and>
    cv_chain (cv_nodes s') (cv_q s') xs \<and> cv_nodes s' = (cv_nodes s)(n \<mapsto> d\<lparr>cn_sem := cn_sem d + 1\<rparr>)"
proof -
  obtain s1 d where s1: "signal_head (s\<lparr>cv_m := held_by c (cv_m s)\<rparr>) = Inr s1" "cv_m s1 = held_by c (cv_m s)"
    "cv_nodes s n = Some d" "cv_chain (cv_nodes s1) (cv_q s1) xs"
    "cv_nodes s1 = (cv_nodes s)(n \<mapsto> d\<lparr>cn_sem := cn_sem d + 1\<rparr>)"
    using signal_head_chain [of "s\<lparr>cv_m := held_by c (cv_m s)\<rparr>" n xs] assms(2) by auto
  then show ?thesis using cv_locked_free [where f = signal_head, OF assms(1) s1(1,2)] by (simp add: cv_signal_def)
qed

lemma cv_broadcast_chain:
  assumes "mutex_free (cv_m s)" "cv_chain (cv_nodes s) (cv_q s) xs" "length xs \<le> fuel"
  shows "\<exists>s'. cv_broadcast c fuel s = Inr s' \<and> cv_m s' = cv_m s \<and> cv_q s' = None \<and>
     (\<forall>x \<in> set xs. map_option cn_sem (cv_nodes s' x) = map_option (\<lambda>d. cn_sem d + 1) (cv_nodes s x)) \<and>
     (\<forall>x. x \<notin> set xs \<longrightarrow> cv_nodes s' x = cv_nodes s x)"
proof -
  obtain s1 where s1: "broadcast_loop fuel (s\<lparr>cv_m := held_by c (cv_m s)\<rparr>) = Inr s1" "cv_m s1 = held_by c (cv_m s)"
    "cv_q s1 = None"
    "\<forall>x \<in> set xs. map_option cn_sem (cv_nodes s1 x) = map_option (\<lambda>d. cn_sem d + 1) (cv_nodes s x)"
    "\<forall>x. x \<notin> set xs \<longrightarrow> cv_nodes s1 x = cv_nodes s x"
    using broadcast_loop_chain [of "s\<lparr>cv_m := held_by c (cv_m s)\<rparr>" xs fuel] assms(2,3) by auto
  then show ?thesis using cv_locked_free [where f = "broadcast_loop fuel", OF assms(1) s1(1,2)] by (simp add: cv_broadcast_def)
qed

text \<open>
  \<open>condvar_t::signal\<close> on CPU \<open>c\<close> and a waiter on CPU \<open>w\<close> that runs between the two accesses of
  \<open>signal\<close>: the head of the queue is signalled and the waiter passes its semaphore. If the caller's mutex
  is free, the waiter takes it and leaves \<open>wait\<close>, and \<open>q_ = q_->next\<close> then reads the node of a
  stack frame that is gone. If another CPU holds the mutex (as a signaller that signals under it does), the
  waiter stops in \<open>sched\<close>. Uninterrupted, \<open>signal\<close> takes exactly the head from the queue.
\<close>

lemma condvar_signal_race:
  assumes "mutex_free (cv_m s)" "cv_chain (cv_nodes s) (cv_q s) (n # xs)" "\<forall>d. cv_nodes s n = Some d \<longrightarrow> cn_sem d = 0"
  shows "\<exists>s1. cv_wake n (s\<lparr>cv_m := held_by c (cv_m s)\<rparr>) = Inr s1 \<and>
      (mutex_free mu \<longrightarrow> (\<exists>s2. cv_return w n s1 mu = Inr (s2, held_by w mu) \<and>
         cv_advance n s2 = Inl (OutOfBounds ''condvar_node_t''))) \<and>
      (mutex_free mu \<and> v \<noteq> w \<longrightarrow> cv_return w n s1 (held_by v mu) = Inl (AssertFailed ''not implemented'')) \<and>
      (\<exists>s'. cv_signal c s = Inr s' \<and> cv_chain (cv_nodes s') (cv_q s') xs)"
proof -
  obtain d where d: "cv_nodes s n = Some d" "cn_sem d = 0" using assms(2,3) by auto
  have stuck: "mutex_lock w (held_by v mu) = Inl (AssertFailed ''not implemented'')" if "v \<noteq> w"
    using that by (simp add: mutex_lock_def held_by_def sync_lock_test_and_set_def sched_def)
  have "\<exists>s'. cv_signal c s = Inr s' \<and> cv_chain (cv_nodes s') (cv_q s') xs"
    using cv_signal_chain [OF assms(1,2)] by blast
  with d stuck show ?thesis
    by (auto simp: cv_wake_def cv_return_def cv_advance_def node_at_def sem_wait_def mutex_lock_free)
qed

end
