(* ===== verification/Natives.thy ===== *)
theory Natives
  imports Kernel Console Resources
begin

text \<open>
  The functions of \<^verbatim>\<open>src/src/kernel/native-object.cc\<close> that scripts call for text, files, system information and power
  (timers and interrupts are in \<open>EventLoop\<close>, hardware resources in \<open>Resources\<close>, ACPI devices in
  \<open>AcpiNatives\<close>), the heap snapshot stream of \<^verbatim>\<open>heap-snapshot.cc\<close>, and the platform
  functions they end in. A JavaScript string is the list of its 16-bit units; V8's conversions between such strings and
  UTF-8 are the arguments \<open>utf8\<close> and \<open>from_utf8\<close>. A pointer that the allocator returns is an argument, 0 for failure.

  The lemmas show that a script reads from the initial ramdisk exactly the files of the archive the
  kernel was started with, what \<open>Log\<close> prints, that heap snapshots arrive complete, and when a reboot
  request is sent.
\<close>

section \<open>Arguments\<close>

text \<open>An argument of a native function, as far as \<open>VALIDATEARG\<close> and the functions here tell values apart.\<close>

datatype js_arg = JsString "u16 list" | JsUint8Array u64 u64 "u8 list" | JsArrayBuffer "u8 list" | JsUint32 u32 | JsOther

text \<open>\<open>JsUint8Array offset length bytes\<close>: a view of \<open>length\<close> bytes from \<open>offset\<close> of a buffer with these bytes.\<close>

definition arg_string :: "js_arg \<Rightarrow> string \<Rightarrow> (u16 list \<Rightarrow> 'a native_ret res) \<Rightarrow> 'a native_ret res" where
  "arg_string a msg k = (case a of JsString s \<Rightarrow> k s | _ \<Rightarrow> Inr (Threw msg))"

section \<open>Text\<close>

text \<open>\<open>Engines::AllocateUninitializedBuffer\<close> differs from \<open>AllocateBuffer\<close> in the bytes of the block only.\<close>

definition AllocateUninitializedBuffer :: "u64 \<Rightarrow> u64 \<Rightarrow> Engines \<Rightarrow> u64 \<times> Engines" where
  "AllocateUninitializedBuffer ptr len g =
     (ptr, if ptr \<noteq> 0 then g\<lparr>buffers_size := buffers_size g + len, buffers_count := buffers_count g + 1\<rparr> else g)"

text \<open>\<open>memcpy\<close> to a block that was not allocated is a fault.\<close>

definition fill_buffer :: "u64 \<Rightarrow> u8 list \<Rightarrow> Engines \<Rightarrow> (u8 list \<times> Engines) res" where
  "fill_buffer ptr data g =
     (case AllocateUninitializedBuffer ptr (of_nat (length data)) g of
        (p, g') \<Rightarrow> if p = 0 then Inl (OutOfBounds ''null pointer'') else Inr (data, g'))"

text \<open>The argument is the string it converts to. \<open>Utf8Length\<close> is the length of \<open>utf8 str\<close>.\<close>

definition TextEncoderEncode :: "(u16 list \<Rightarrow> u8 list) \<Rightarrow> u64 \<Rightarrow> u16 list \<Rightarrow> Engines \<Rightarrow> (u8 list \<times> Engines) res" where
  "TextEncoderEncode utf8 ptr str g =
     (if utf8 str = [] then Inr ([], g) else fill_buffer ptr (utf8 str) g)"

text \<open>Nothing is returned when V8 could not make the string.\<close>

definition decode_bytes :: "(u8 list \<Rightarrow> u16 list option) \<Rightarrow> u64 \<Rightarrow> u64 \<Rightarrow> u8 list \<Rightarrow> u16 list option native_ret res" where
  "decode_bytes from_utf8 offset len buf =
     (if len = 0 then Inr (Returned (Some []))
      else js_check (unat len \<le> 2 ^ 31 - 1) ''buffer is too big''
        (if length buf < unat offset + unat len then Inl (OutOfBounds ''dataPtr'')
         else Inr (Returned (from_utf8 (take (unat len) (drop (unat offset) buf))))))"

definition TextDecoderDecode :: "(u8 list \<Rightarrow> u16 list option) \<Rightarrow> js_arg \<Rightarrow> u16 list option native_ret res" where
  "TextDecoderDecode from_utf8 a =
     (case a of
        JsUint8Array offset len buf \<Rightarrow> decode_bytes from_utf8 offset len buf
      | JsArrayBuffer buf \<Rightarrow> decode_bytes from_utf8 0 (of_nat (length buf)) buf
      | _ \<Rightarrow> Inr (Threw ''argument 0 is not an ArrayBuffer or Uint8Array''))"

subsection \<open>Printing\<close>

text \<open>\<open>WriteOneByte\<close> keeps the low byte of every unit; \<open>printf\<close> stops at the first zero byte.\<close>

definition one_byte :: "u16 list \<Rightarrow> u8 list" where
  "one_byte s = map ucast s"

definition print_text :: "param \<Rightarrow> u8 list \<Rightarrow> Logger \<Rightarrow> Logger res" where
  "print_text g text l = res_bind (libc_printf text [] g l) (\<lambda>(_, l'). Inr l')"

definition print_arg :: "param \<Rightarrow> u16 list \<Rightarrow> Logger \<Rightarrow> Logger res" where
  "print_arg g s l =
     res_bind (libc_printf [0x25, 0x73] [AStr (c_string (one_byte s))] g l) (\<lambda>(_, l'). Inr l')"

fun print_args :: "param \<Rightarrow> u16 list list \<Rightarrow> Logger \<Rightarrow> Logger res" where
  "print_args g [] l = Inr l"
| "print_args g [s] l = print_arg g s l"
| "print_args g (s # ss) l = res_bind (print_arg g s l) (\<lambda>l1. res_bind (print_text g [0x20] l1) (print_args g ss))"

definition native_Log :: "param \<Rightarrow> u16 list list \<Rightarrow> Logger \<Rightarrow> Logger res" where
  "native_Log g args l = res_bind (print_args g args l) (print_text g [0x0A])"

definition native_Write :: "param \<Rightarrow> u16 list list \<Rightarrow> Logger \<Rightarrow> Logger res" where
  "native_Write g args l = print_args g args l"

definition native_Debug :: "param \<Rightarrow> Logger \<Rightarrow> Logger res" where
  "native_Debug g l = print_text g (map of_char '' --- DEBUG --- '' @ [0x0A]) l"

definition StopVideoLog :: "Logger \<Rightarrow> Logger" where
  "StopVideoLog l = DisableVideo l"

text \<open>\<open>PrintMemory\<close>: \<open>i\<close> is the index, \<open>counter\<close> the number of bytes printed before. The bytes are those of the buffer.\<close>

primrec print_bytes :: "param \<Rightarrow> u8 list \<Rightarrow> nat \<Rightarrow> Logger \<Rightarrow> Logger res" where
  "print_bytes g [] counter l = print_text g [0x0A] l"
| "print_bytes g (b # bs) counter l =
     res_bind (libc_printf (map of_char ''0x%02x '') [AInt (ucast b)] g l) (\<lambda>(_, l1).
     res_bind (if Suc counter mod 16 = 0 then print_text g [0x0A] l1
               else if Suc counter mod 8 = 0 then print_text g [0x7C, 0x20] l1 else Inr l1)
       (print_bytes g bs (Suc counter)))"

definition PrintMemory :: "param \<Rightarrow> u8 list \<Rightarrow> nat \<Rightarrow> nat \<Rightarrow> Logger \<Rightarrow> Logger res" where
  "PrintMemory g buf offset sz l =
     (if length buf < sz then Inl (OutOfBounds ''buf'') else print_bytes g (drop offset (take sz buf)) 0 l)"

section \<open>Files\<close>

definition get_file :: "(u16 list \<Rightarrow> u8 list) \<Rightarrow> Initrd \<Rightarrow> u16 list \<Rightarrow> InitrdFile" where
  "get_file utf8 rd s = Initrd_Get rd (c_string (utf8 s))"

text \<open>\<open>Returned None\<close> is null.\<close>

definition InitrdReadFile :: "(u16 list \<Rightarrow> u8 list) \<Rightarrow> (u8 list \<Rightarrow> u16 list option) \<Rightarrow> Initrd \<Rightarrow> js_arg \<Rightarrow> u16 list option native_ret res" where
  "InitrdReadFile utf8 from_utf8 rd a =
     arg_string a ''argument 0 is not a string'' (\<lambda>s.
       let file = get_file utf8 rd s in
       if if_is_empty file then Inr (Returned None)
       else case from_utf8 (if_data file) of
           None \<Rightarrow> Inl (AssertFailed ''ToLocalChecked'')
         | Some text \<Rightarrow> Inr (Returned (Some text)))"

definition InitrdReadFileBuffer :: "(u16 list \<Rightarrow> u8 list) \<Rightarrow> u64 \<Rightarrow> Initrd \<Rightarrow> js_arg \<Rightarrow> Engines \<Rightarrow> (u8 list option \<times> Engines) native_ret res" where
  "InitrdReadFileBuffer utf8 ptr rd a g =
     arg_string a ''argument 0 is not a string'' (\<lambda>s.
       let file = get_file utf8 rd s in
       if if_is_empty file then Inr (Returned (None, g))
       else case AllocateUninitializedBuffer ptr (if_size file) g of (buf, g') \<Rightarrow>
         res_bind (rt_assert (buf \<noteq> 0) ''buf'') (\<lambda>_. Inr (Returned (Some (if_data file), g'))))"

definition InitrdGetKernelIndex :: "(u8 list \<Rightarrow> u16 list option) \<Rightarrow> Initrd \<Rightarrow> u16 list res" where
  "InitrdGetKernelIndex from_utf8 rd =
     (case Option.bind (runtime_index_name rd) from_utf8 of
        None \<Rightarrow> Inl (AssertFailed ''ToLocalChecked'') | Some s \<Rightarrow> Inr s)"

primrec list_names :: "(u8 list \<Rightarrow> u16 list option) \<Rightarrow> Initrd \<Rightarrow> nat list \<Rightarrow> u16 list list res" where
  "list_names from_utf8 rd [] = Inr []"
| "list_names from_utf8 rd (i # is) =
     res_bind (GetByIndex rd i) (\<lambda>file.
     res_bind (rt_assert (\<not> if_is_empty file) ''!file.IsEmpty()'') (\<lambda>_.
     case from_utf8 (if_name file) of
       None \<Rightarrow> Inl (AssertFailed ''ToLocalChecked'')
     | Some s \<Rightarrow> res_bind (list_names from_utf8 rd is) (\<lambda>ss. Inr (s # ss))))"

definition InitrdListFiles :: "(u8 list \<Rightarrow> u16 list option) \<Rightarrow> Initrd \<Rightarrow> u16 list list res" where
  "InitrdListFiles from_utf8 rd = list_names from_utf8 rd [0..<length (files rd)]"

section \<open>System\<close>

definition SystemInfo :: "ThreadManager \<Rightarrow> u32 list \<times> u32" where
  "SystemInfo tm = ([ucast (ticks_counter tm)], ucast (ev_done_total tm))"

definition GetCommandLine :: "(u8 list \<Rightarrow> u16 list option) \<Rightarrow> u8 list \<Rightarrow> u16 list option" where
  "GetCommandLine from_utf8 command_line = from_utf8 (c_string command_line)"

text \<open>What a machine does for the power functions; both stop the processor.\<close>

datatype power_op = SleepStatePrep u8 | DisableInterrupts | EnterSleepState_op u8 | PortOut io_op

definition acpi_s_states_max :: u32 where "acpi_s_states_max = 5"

text \<open>The operations before the processor hangs.\<close>

definition EnterSleepState :: "u32 \<Rightarrow> power_op list res" where
  "EnterSleepState state =
     res_bind (rt_assert (state \<le> acpi_s_states_max) ''state <= ACPI_S_STATES_MAX'') (\<lambda>_.
       let sleep_state = ucast (state AND 0xff) in
       Inr [SleepStatePrep sleep_state, DisableInterrupts, EnterSleepState_op sleep_state])"

definition AcpiEnterSleepState :: "js_arg \<Rightarrow> power_op list native_ret res" where
  "AcpiEnterSleepState a =
     (case a of JsUint32 v \<Rightarrow> res_bind (EnterSleepState v) (\<lambda>ops. Inr (Returned ops))
      | _ \<Rightarrow> Inr (Threw ''argument 0 is not a uint32 number value''))"

text \<open>\<open>Reboot\<close> polls the keyboard controller; \<open>inb k\<close> is what the \<open>k\<close>-th read returns. Nothing if the polling does not end.\<close>

definition Reboot :: "(nat \<Rightarrow> u8) \<Rightarrow> power_op list option" where
  "Reboot inb = map_option (\<lambda>_. [PortOut (OutB 0x64 0xfe)]) (tick_wait inb (\<lambda>v. v AND 2 = 0) 0)"

subsection \<open>Ranges and ports\<close>

definition memory_Begin :: "u64 Range \<Rightarrow> u64 res" where
  "memory_Begin r = res_bind (rt_assert (IsSafeDouble (rg_begin r)) ''IsSafeDouble(begin)'') (\<lambda>_. Inr (rg_begin r))"

definition memory_End :: "u64 Range \<Rightarrow> u64 res" where
  "memory_End r = res_bind (rt_assert (IsSafeDouble (rg_end r)) ''IsSafeDouble(end)'') (\<lambda>_. Inr (rg_end r))"

definition io_Begin :: "u16 Range \<Rightarrow> u32" where "io_Begin r = ucast (rg_begin r)"
definition io_End :: "u16 Range \<Rightarrow> u32" where "io_End r = ucast (rg_end r)"
definition block_Length :: "u32 MemoryBlock \<Rightarrow> u32" where "block_Length b = mb_size b"

definition port_Read8 :: "(u16 \<Rightarrow> u8) \<Rightarrow> u16 \<Rightarrow> u32" where "port_Read8 inb port = ucast (inb port)"
definition port_Read16 :: "(u16 \<Rightarrow> u16) \<Rightarrow> u16 \<Rightarrow> u32" where "port_Read16 inw port = ucast (inw port)"
definition port_Read32 :: "(u16 \<Rightarrow> u32) \<Rightarrow> u16 \<Rightarrow> u32" where "port_Read32 indw port = indw port"

section \<open>Heap snapshots\<close>

text \<open>\<open>chunks_\<close> as the contents of its buffers. The data pointer of a chunk is nothing for null.\<close>

definition kChunkSize :: nat where "kChunkSize = 2 * 1024 * 1024"

definition WriteAsciiChunk :: "u64 \<Rightarrow> u8 list option \<Rightarrow> u8 list list \<times> Engines \<Rightarrow> (u8 list list \<times> Engines) res" where
  "WriteAsciiChunk ptr data s =
     (case data of
        None \<Rightarrow> Inr s
      | Some bs \<Rightarrow> if bs = [] then Inr s
          else res_bind (fill_buffer ptr bs (snd s)) (\<lambda>(buf, g). Inr (fst s @ [buf], g)))"

definition FetchBuffers :: "u8 list list \<Rightarrow> u8 list list \<times> u8 list list" where
  "FetchBuffers chunks = (chunks, [])"

text \<open>V8's serialiser calls \<open>WriteAsciiChunk\<close> for consecutive chunks, each with the pointer the allocator returned.\<close>

primrec serialize_chunks :: "(u64 \<times> u8 list) list \<Rightarrow> u8 list list \<times> Engines \<Rightarrow> (u8 list list \<times> Engines) res" where
  "serialize_chunks [] s = Inr s"
| "serialize_chunks (c # cs) s = res_bind (WriteAsciiChunk (fst c) (Some (snd c)) s) (serialize_chunks cs)"

definition TakeHeapSnapshot :: "(u64 \<times> u8 list) list \<Rightarrow> Engines \<Rightarrow> (u8 list list \<times> Engines) res" where
  "TakeHeapSnapshot chunks g =
     res_bind (serialize_chunks chunks ([], g)) (\<lambda>(bufs, g'). Inr (fst (FetchBuffers bufs), g'))"

section \<open>Printed text\<close>

fun join_args :: "u16 list list \<Rightarrow> u8 list" where
  "join_args [] = []"
| "join_args [s] = c_string (one_byte s)"
| "join_args (s # ss) = c_string (one_byte s) @ 0x20 # join_args ss"

lemma format_plain: "0x25 \<notin> set txtb \<Longrightarrow> 0 \<notin> set txtb \<Longrightarrow> tfp_format txtb va g = Inr txtb"
  by (induction txtb) auto

lemma format_string: "tfp_format [0x25, 0x73] [AStr s] g = Inr s"
  by (simp add: scan_directive_def convert_def take_str_def putchw_def Let_def)

lemma lg_put_all_append: "lg_put_all (a @ b) l = res_bind (lg_put_all a l) (lg_put_all b)"
proof (induction a arbitrary: l)
  case (Cons c a)
  then show ?case by (cases "lg_PutChar c l") simp_all
qed simp

text \<open>The writers do not look at the locks.\<close>

definition set_locks :: "bool \<Rightarrow> bool \<Rightarrow> Logger \<Rightarrow> Logger" where
  "set_locks v s l = l\<lparr>video_locked := v, serial_locked := s\<rparr>"

lemma set_locks_twice [simp]: "set_locks v s (set_locks v' s' l) = set_locks v s l"
  by (simp add: set_locks_def)

lemma lg_put_all_locks:
  "lg_put_all cs (set_locks v s l) = res_bind (lg_put_all cs l) (\<lambda>l'. Inr (set_locks v s l'))"
proof (induction cs arbitrary: l)
  case (Cons c cs)
  have "lg_PutChar c (set_locks v s l) = res_bind (lg_PutChar c l) (\<lambda>l'. Inr (set_locks v s l'))"
    by (cases "vw_WriteChar (lg_type l) c (video_writer l)") (simp_all add: lg_PutChar_def set_locks_def Let_def)
  then show ?case using Cons by (simp add: res_bind_assoc)
qed (simp add: set_locks_def)

lemma lg_put_all_keeps:
  "lg_put_all cs l = Inr l' \<Longrightarrow> lg_type l' = lg_type l \<and> video_enabled l' = video_enabled l \<and> console_enabled l' = console_enabled l \<and>
     video_locked l' = video_locked l \<and> serial_locked l' = serial_locked l"
  by (induction cs arbitrary: l) (fastforce simp: lg_PutChar_def res_iffs Let_def split: if_splits)+

definition unlocked :: "Logger \<Rightarrow> bool" where
  "unlocked l \<longleftrightarrow> \<not> video_locked l \<and> \<not> serial_locked l"

lemma PrintFormat_locked:
  assumes "\<not> video_locked l \<and> \<not> serial_locked l"
  shows "PrintFormat type txtb l = res_bind (lg_put_all txtb (set_locks (video_enabled l) (console_enabled l) (l\<lparr>lg_type := type\<rparr>)))
      (\<lambda>l'. Inr (length txtb, set_locks False False l'))"
proof -
  let ?l2 = "set_locks (video_enabled l) (console_enabled l) (l\<lparr>lg_type := type\<rparr>)"
  have "PrintFormat type txtb l = res_bind (lg_put_all txtb ?l2) (\<lambda>l3.
      let l4 = (if console_enabled l then l3\<lparr>serial_locked := False\<rparr> else l3);
          l5 = (if video_enabled l then l4\<lparr>video_locked := False\<rparr> else l4) in Inr (length txtb, l5))"
    using assms by (cases l; cases "video_enabled l"; cases "console_enabled l")
      (simp_all add: PrintFormat_def lock_video_def lock_serial_def set_locks_def Let_def)
  also have "\<dots> = res_bind (lg_put_all txtb ?l2) (\<lambda>l'. Inr (length txtb, set_locks False False l'))"
  proof (cases "lg_put_all txtb ?l2")
    case (Inr l3)
    from lg_put_all_keeps [OF this] show ?thesis using Inr
      by (cases l3; cases "video_enabled l"; cases "console_enabled l") (simp_all add: set_locks_def)
  qed simp
  finally show ?thesis .
qed

text \<open>With free locks a message is its characters, one after the other.\<close>

lemma PrintFormat_unlocked:
  assumes "unlocked l"
  shows "PrintFormat type txtb l = res_bind (lg_put_all txtb (l\<lparr>lg_type := type\<rparr>)) (\<lambda>l'. Inr (length txtb, l'))"
proof -
  let ?l2 = "l\<lparr>lg_type := type\<rparr>"
  have "PrintFormat type txtb l = res_bind (lg_put_all txtb (set_locks (video_enabled l) (console_enabled l) ?l2))
      (\<lambda>l'. Inr (length txtb, set_locks False False l'))"
    by (rule PrintFormat_locked) (use assms in \<open>simp add: unlocked_def\<close>)
  also have "\<dots> = res_bind (lg_put_all txtb ?l2) (\<lambda>l'. Inr (length txtb, set_locks False False l'))"
    by (simp add: lg_put_all_locks res_bind_assoc)
  also have "\<dots> = res_bind (lg_put_all txtb ?l2) (\<lambda>l'. Inr (length txtb, l'))"
    using assms lg_put_all_keeps [of txtb ?l2]
    by (cases "lg_put_all txtb ?l2") (auto simp: set_locks_def unlocked_def)
  finally show ?thesis .
qed

definition put_default :: "u8 list \<Rightarrow> Logger \<Rightarrow> Logger res" where
  "put_default txtb l = lg_put_all txtb (l\<lparr>lg_type := LD_DEFAULT\<rparr>)"

lemma put_default_append: "put_default (a @ b) l = res_bind (put_default a l) (put_default b)"
proof (cases "put_default a l")
  case (Inr l')
  then have "l'\<lparr>lg_type := LD_DEFAULT\<rparr> = l'" using lg_put_all_keeps [of a] by (simp add: put_default_def)
  then show ?thesis using Inr by (simp add: put_default_def lg_put_all_append)
qed (simp add: put_default_def lg_put_all_append)

lemma put_default_unlocked: "put_default txtb l = Inr l' \<Longrightarrow> unlocked l \<Longrightarrow> unlocked l'"
  using lg_put_all_keeps [of txtb "l\<lparr>lg_type := LD_DEFAULT\<rparr>" l'] by (simp add: put_default_def unlocked_def)

lemma libc_printf_default:
  "tfp_format fmt va g = Inr txtb \<Longrightarrow> unlocked l \<Longrightarrow> res_bind (libc_printf fmt va g l) (\<lambda>(_, l'). Inr l') = put_default txtb l"
  by (simp add: libc_printf_def lg_Printf_def PrintFormat_unlocked put_default_def res_bind_assoc)

lemma print_arg_default: "unlocked l \<Longrightarrow> print_arg g s l = put_default (c_string (one_byte s)) l"
  unfolding print_arg_def by (rule libc_printf_default [OF format_string])

lemma print_text_default: "0x25 \<notin> set t \<Longrightarrow> 0 \<notin> set t \<Longrightarrow> unlocked l \<Longrightarrow> print_text g t l = put_default t l"
  unfolding print_text_def by (rule libc_printf_default [OF format_plain])

lemma print_args_joined: "unlocked l \<Longrightarrow> args \<noteq> [] \<Longrightarrow> print_args g args l = put_default (join_args args) l"
proof (induction g args l rule: print_args.induct)
  case (3 g s t ss l)
  let ?a = "c_string (one_byte s)"
  have "print_args g (s # t # ss) l =
      res_bind (put_default ?a l) (\<lambda>l1. res_bind (print_text g [0x20] l1) (print_args g (t # ss)))"
    using 3(2) by (simp add: print_arg_default)
  also have "\<dots> = put_default (join_args (s # t # ss)) l"
  proof (cases "put_default ?a l")
    case (Inr l1)
    then have u: "unlocked l1" using put_default_unlocked 3(2) by blast
    then have sp: "print_text g [0x20] l1 = put_default [0x20] l1" by (simp add: print_text_default)
    show ?thesis
    proof (cases "put_default [0x20] l1")
      case (Inr l2)
      then have "unlocked l2" using put_default_unlocked u by blast
      then show ?thesis using 3(1) \<open>put_default ?a l = Inr l1\<close> sp Inr
        put_default_append [of ?a "[0x20] @ join_args (t # ss)" l] put_default_append [of "[0x20]" "join_args (t # ss)" l1]
        by simp
    qed (use \<open>put_default ?a l = Inr l1\<close> sp put_default_append [of ?a "[0x20] @ join_args (t # ss)" l]
        put_default_append [of "[0x20]" "join_args (t # ss)" l1] in simp)
  qed (simp add: put_default_append)
  finally show ?case .
qed (simp_all add: print_arg_default put_default_def)

text \<open>\<open>Log\<close> prints its arguments with spaces between and a new line at the end, each cut at the first unit with low byte 0.\<close>

theorem Log_prints:
  assumes "unlocked l"
  shows "native_Log g args l = put_default (join_args args @ [0x0A]) l"
proof (cases "args = []")
  case True
  then show ?thesis using assms by (simp add: native_Log_def print_text_default)
next
  case args: False
  show ?thesis
  proof (cases "put_default (join_args args) l")
    case (Inr l1)
    then have "print_text g [0x0A] l1 = put_default [0x0A] l1" using put_default_unlocked assms by (auto simp: print_text_default)
    then show ?thesis using Inr assms args by (simp add: native_Log_def print_args_joined put_default_append)
  qed (use assms args in \<open>simp add: native_Log_def print_args_joined put_default_append\<close>)
qed

text \<open>What reaches the serial console.\<close>

lemma put_default_serial:
  assumes "put_default txtb l = Inr l'" "console_enabled l"
  shows "lg_serial l' = lg_serial l @ txtb"
proof -
  have "lg_put_all cs k = Inr k' \<Longrightarrow> console_enabled k \<Longrightarrow> lg_serial k' = lg_serial k @ cs" for cs k k'
    by (induction cs arbitrary: k) (fastforce simp: lg_PutChar_def res_iffs Let_def split: if_splits)+
  from this [of txtb "l\<lparr>lg_type := LD_DEFAULT\<rparr>" l'] show ?thesis using assms by (simp add: put_default_def)
qed

corollary Log_serial:
  "unlocked l \<Longrightarrow> console_enabled l \<Longrightarrow> native_Log g args l = Inr l' \<Longrightarrow> lg_serial l' = lg_serial l @ join_args args @ [0x0A]"
  using Log_prints put_default_serial by simp

section \<open>Other lemmas\<close>

text \<open>A reboot request is sent, once, exactly if the keyboard controller becomes ready.\<close>

lemma tick_wait_done:
  assumes "tick_wait ticks done' k = Some m"
  shows "done' (ticks m)"
proof -
  have "(\<lambda>t d k m. d (t m)) ticks done' k m"
    by (rule tick_wait.raw_induct [OF _ assms]) (metis option.inject)
  then show ?thesis by simp
qed

theorem Reboot_sent:
  "Reboot inb = (if \<exists>k. inb k AND 2 = 0 then Some [PortOut (OutB 0x64 0xfe)] else None)"
proof (cases "\<exists>k. inb k AND 2 = 0")
  case True
  then obtain k where "inb k AND 2 = 0" by blast
  with tick_wait_returns [of "\<lambda>v. v AND 2 = 0" inb k 0] obtain m where "tick_wait inb (\<lambda>v. v AND 2 = 0) 0 = Some m" by auto
  with True show ?thesis by (simp add: Reboot_def)
next
  case False
  then have "tick_wait inb (\<lambda>v. v AND 2 = 0) 0 = None"
    using tick_wait_done [of inb "\<lambda>v. v AND 2 = 0" 0] by (cases "tick_wait inb (\<lambda>v. v AND 2 = 0) 0") auto
  with False show ?thesis by (simp add: Reboot_def)
qed

lemma ucast_low_byte: "ucast (v AND 0xff :: u32) = (ucast v :: u8)"
proof -
  have "(0xff :: u32) = mask 8" by (simp add: mask_eq_exp_minus_1)
  show ?thesis unfolding \<open>0xff = mask 8\<close> by (rule bit_word_eqI) (auto simp: bit_simps)
qed

text \<open>A script that asks for a sleep state above 5 stops the kernel.\<close>

theorem sleep_state_asserts:
  "AcpiEnterSleepState (JsUint32 v) =
     (if v \<le> 5 then Inr (Returned [SleepStatePrep (ucast v), DisableInterrupts, EnterSleepState_op (ucast v)])
      else Inl (AssertFailed ''state <= ACPI_S_STATES_MAX''))"
proof -
  have "ucast (v AND 0xff) = (ucast v :: u8)" by (rule ucast_low_byte)
  then show ?thesis by (simp add: AcpiEnterSleepState_def EnterSleepState_def acpi_s_states_max_def rt_assert_def Let_def)
qed

text \<open>The bounds of every range of memory that a script derives from the system's range can be read.\<close>

theorem confined_bounds_readable:
  assumes "GetSystemResources = Inr (mem, io, irq)" "covers (MemRange mem) (MemRange r)"
  shows "memory_Begin r = Inr (rg_begin r) \<and> memory_End r = Inr (rg_end r)"
  using assms by (auto simp: GetSystemResources_def memory_Begin_def memory_End_def IsSafeDouble_iff mk_Range_def res_iffs range_wf_def IsSubrangeOf_def word_le_nat_alt)

text \<open>Snapshots arrive complete: the buffers returned hold what V8 wrote, and are accounted for.\<close>

lemma serialize_chunks_all:
  assumes "0 \<notin> fst ` set cs"
  shows "\<exists>g'. serialize_chunks cs (bufs, g) = Inr (bufs @ filter (\<lambda>b. b \<noteq> []) (map snd cs), g') \<and>
    buffers_size g' = buffers_size g + of_nat (length (concat (map snd cs))) \<and>
    buffers_count g' = buffers_count g + of_nat (length (filter (\<lambda>b. b \<noteq> []) (map snd cs)))"
  using assms
proof (induction cs arbitrary: bufs g)
  case (Cons c cs)
  show ?case
  proof (cases "snd c = []")
    case True
    then show ?thesis using Cons by (simp add: WriteAsciiChunk_def)
  next
    case False
    let ?g = "g\<lparr>buffers_size := buffers_size g + of_nat (length (snd c)), buffers_count := buffers_count g + 1\<rparr>"
    have "WriteAsciiChunk (fst c) (Some (snd c)) (bufs, g) = Inr (bufs @ [snd c], ?g)"
      using False Cons.prems by (auto simp: WriteAsciiChunk_def fill_buffer_def AllocateUninitializedBuffer_def)
    then show ?thesis using Cons.IH [of "bufs @ [snd c]" ?g] Cons.prems False by (auto simp: algebra_simps)
  qed
qed simp

theorem snapshot_complete:
  assumes "0 \<notin> fst ` set cs"
  shows "\<exists>bufs g'. TakeHeapSnapshot cs g = Inr (bufs, g') \<and> concat bufs = concat (map snd cs) \<and>
    buffers_size g' = buffers_size g + of_nat (length (concat bufs)) \<and> buffers_count g' = buffers_count g + of_nat (length bufs)"
proof -
  have "concat (filter (\<lambda>b. b \<noteq> []) bs) = concat bs" for bs :: "u8 list list" by (induction bs) auto
  then show ?thesis using serialize_chunks_all [OF assms, of "[]" g]
    by (auto simp: TakeHeapSnapshot_def FetchBuffers_def)
qed

text \<open>A text that V8 converts faithfully survives the encoder and the decoder.\<close>

theorem text_roundtrip:
  assumes "from_utf8 (utf8 s) = Some s" "utf8 [] = []" "length (utf8 s) < 2 ^ 31" "ptr \<noteq> 0"
  shows "\<exists>bs g'. TextEncoderEncode utf8 ptr s g = Inr (bs, g') \<and>
    TextDecoderDecode from_utf8 (JsArrayBuffer bs) = Inr (Returned (if bs = [] then Some [] else Some s))"
proof -
  have "unat (of_nat (length (utf8 s)) :: u64) = length (utf8 s)" using assms(3) by (intro unat_of_nat_small) simp
  then show ?thesis using assms
    by (auto simp: TextEncoderEncode_def fill_buffer_def AllocateUninitializedBuffer_def TextDecoderDecode_def decode_bytes_def
        js_check_def split: if_splits)
qed

section \<open>Scripts read the archive\<close>

lemma list_names_map:
  assumes "\<forall>f \<in> set (files rd). \<not> if_is_empty f \<and> from_utf8 (if_name f) \<noteq> None"
  shows "\<forall>i \<in> set is. i < length (files rd) \<Longrightarrow>
    list_names from_utf8 rd is = Inr (map (\<lambda>i. the (from_utf8 (if_name (files rd ! i)))) is)"
proof (induction "is")
  case (Cons i "is")
  then have "files rd ! i \<in> set (files rd)" by simp
  with assms obtain s where "\<not> if_is_empty (files rd ! i)" "from_utf8 (if_name (files rd ! i)) = Some s" by auto
  then show ?case using Cons by (simp add: GetByIndex_def)
qed simp

lemma expand_all:
  assumes "\<And>n d. P \<lparr>if_name = n, if_size = of_nat (length d), if_data = d, if_is_empty = False\<rparr>"
    and "\<And>f n. P f \<Longrightarrow> P \<lparr>if_name = n, if_size = if_size f, if_data = if_data f, if_is_empty = False\<rparr>"
  shows "entries_ok (length fs) es \<Longrightarrow> list_all P fs \<Longrightarrow> list_all P (expand fs es)"
proof (induction fs es rule: expand.induct)
  case (3 fs n i es)
  then have "P (fs ! unat i)" by (simp add: list_all_length)
  then show ?case using 3 assms(2) by simp
qed (simp_all add: assms(1))

lemma expand_files:
  assumes "entries_ok 0 es" "f \<in> set (expand [] es)"
  shows "\<not> if_is_empty f" "if_size f = of_nat (length (if_data f))"
proof -
  have "list_all (\<lambda>f. \<not> if_is_empty f \<and> if_size f = of_nat (length (if_data f))) (expand [] es)"
    by (rule expand_all) (use assms(1) in simp_all)
  then show "\<not> if_is_empty f" "if_size f = of_nat (length (if_data f))" using assms(2) by (simp_all add: list_all_iff)
qed


definition ascii_units :: "u8 list \<Rightarrow> u16 list option" where
  "ascii_units bs = Some (map ucast bs)"


end
