(* ===== verification/AcpiNatives.thy ===== *)
theory AcpiNatives
  imports Prelude
begin

text \<open>
  The ACPI manager, \<^verbatim>\<open>acpi-manager.h\<close> and \<^verbatim>\<open>acpi-manager.cc\<close>, and the functions of \<^verbatim>\<open>native-object.cc\<close> that give
  JavaScript drivers access to ACPI devices: identification, parents, bus numbers and the interrupt
  routing table of PCI bridges. The ACPI interpreter is a parameter (\<open>acpica\<close>): for every handle its device
  information, parent, routing table and resources, or failure. A status is a number, 0 for success; a
  device handle is a pointer, and a buffer of the interpreter is a list of bytes.

  The lemmas show that the routing table of a bridge is read back as the routes of its entries,
  directly or through the interrupt resources of the named link, that the initialisation makes its
  calls in order up to the first failure, and that the bus number of a bridge is lost.
\<close>

section \<open>The interpreter\<close>

record device_info =
  di_Type :: u32
  di_Valid :: u8
  di_Flags :: u8
  di_Address :: u64
  di_HardwareId :: "u8 list option"   \<comment> \<open>the bytes of \<open>HardwareId.String\<close>, \<open>Length\<close> of them\<close>

datatype acpi_resource = ResIrq "u8 list" | ResExtendedIrq "u32 list" | ResAddress u8 u64 | ResOther

text \<open>\<open>ResAddress t min\<close>: an address resource of 16, 32 or 64 bits that converts to type \<open>t\<close> and minimum \<open>min\<close>.\<close>

record acpica =
  ac_object_info :: "u64 \<Rightarrow> device_info option"
  ac_parent :: "u64 \<Rightarrow> u64 option"
  ac_devices :: "u64 list"
  ac_routing_table :: "u64 \<Rightarrow> u8 list option"
  ac_handle :: "u64 \<Rightarrow> u8 list \<Rightarrow> u64 option"
  ac_crs :: "u64 \<Rightarrow> acpi_resource list option"
  ac_bbn :: "u64 \<Rightarrow> u64 option"

definition ae_ok :: u32 where "ae_ok = 0"
definition ae_already_exists :: u32 where "ae_already_exists = 7"
definition ae_bad_data :: u32 where "ae_bad_data = 0x1004"
definition ae_ctrl_terminate :: u32 where "ae_ctrl_terminate = 0x4003"

text \<open>\<open>AcpiWalkResources\<close> on the resources of a list: the callback for every one, until it fails.\<close>

primrec walk_resources :: "(acpi_resource \<Rightarrow> 's \<Rightarrow> (u32 \<times> 's) res) \<Rightarrow> acpi_resource list \<Rightarrow> 's \<Rightarrow> (u32 \<times> 's) res" where
  "walk_resources cb [] s = Inr (ae_ok, s)"
| "walk_resources cb (r # rs) s = res_bind (cb r s) (\<lambda>(st, s').
     if st \<noteq> ae_ok then Inr (if st = ae_ctrl_terminate then ae_ok else st, s') else walk_resources cb rs s')"

section \<open>\<open>AcpiManager\<close>\<close>

datatype acpi_call = InitializeSubsystem | InitializeTables | LoadTables | EnableSubsystem | InitializeObjects | EvaluatePic u64

primrec calls_until :: "(acpi_call \<Rightarrow> u32) \<Rightarrow> acpi_call list \<Rightarrow> acpi_call list \<times> bool" where
  "calls_until status [] = ([], True)"
| "calls_until status (c # cs) =
     (if status c \<noteq> ae_ok then ([c], False) else case calls_until status cs of (made, ok) \<Rightarrow> (c # made, ok))"

definition AcpiManager_Init :: "(acpi_call \<Rightarrow> u32) \<Rightarrow> acpi_call list \<times> bool" where
  "AcpiManager_Init status =
     calls_until status [InitializeSubsystem, InitializeTables, LoadTables, EnableSubsystem, InitializeObjects]"

definition SetInterruptRoutingMode :: "(acpi_call \<Rightarrow> u32) \<Rightarrow> acpi_call list \<times> bool" where
  "SetInterruptRoutingMode status = calls_until status [EvaluatePic 1]"

definition mk_AcpiManager :: "(acpi_call \<Rightarrow> u32) \<Rightarrow> acpi_call list" where
  "mk_AcpiManager status =
     (case AcpiManager_Init status of (made, ok) \<Rightarrow> if \<not> ok then made else made @ fst (SetInterruptRoutingMode status))"

type_synonym AcpiObjectsList = "u64 list"

definition list_Push :: "u64 \<Rightarrow> AcpiObjectsList \<Rightarrow> AcpiObjectsList res" where
  "list_Push h l = res_bind (rt_assert (h \<noteq> 0) ''object'') (\<lambda>_. Inr (l @ [h]))"

definition list_Get :: "nat \<Rightarrow> AcpiObjectsList \<Rightarrow> u64 res" where
  "list_Get i l = res_bind (rt_assert (i < length l) ''index < _objects.size()'') (\<lambda>_. Inr (l ! i))"

primrec get_devices :: "u64 list \<Rightarrow> AcpiObjectsList \<Rightarrow> AcpiObjectsList res" where
  "get_devices [] l = Inr l"
| "get_devices (h # hs) l = res_bind (list_Push h l) (get_devices hs)"

definition GetPciDevices :: "acpica \<Rightarrow> AcpiObjectsList res" where
  "GetPciDevices ac = get_devices (ac_devices ac) []"

record AcpiPciIrqRoute =
  rt_device :: u8
  rt_pin :: u8
  rt_irq :: u8

type_synonym AcpiPciIrqRoutingTable = "AcpiPciIrqRoute list"

definition AddRoute :: "AcpiPciIrqRoute \<Rightarrow> AcpiPciIrqRoutingTable \<Rightarrow> AcpiPciIrqRoutingTable" where
  "AddRoute r t = t @ [r]"

section \<open>\<open>AcpiHandleObject\<close>\<close>

record AcpiHandleObject =
  ah_handle :: u64
  ah_devinfo :: "device_info option"

definition mk_AcpiHandleObject :: "u64 \<Rightarrow> AcpiHandleObject res" where
  "mk_AcpiHandleObject h = res_bind (rt_assert (h \<noteq> 0) ''handle'') (\<lambda>_. Inr \<lparr>ah_handle = h, ah_devinfo = None\<rparr>)"

primrec wrap_handles :: "AcpiObjectsList \<Rightarrow> AcpiHandleObject list res" where
  "wrap_handles [] = Inr []"
| "wrap_handles (h # hs) = res_bind (mk_AcpiHandleObject h) (\<lambda>ob. res_bind (wrap_handles hs) (\<lambda>obs. Inr (ob # obs)))"

definition AcpiGetPciDevices :: "acpica \<Rightarrow> AcpiHandleObject list res" where
  "AcpiGetPciDevices ac = res_bind (GetPciDevices ac) wrap_handles"

definition GetInfo :: "acpica \<Rightarrow> AcpiHandleObject \<Rightarrow> device_info option \<times> AcpiHandleObject" where
  "GetInfo ac ob =
     (case ah_devinfo ob of
        Some d \<Rightarrow> (Some d, ob)
      | None \<Rightarrow> (case ac_object_info ac (ah_handle ob) of
          None \<Rightarrow> (None, ob) | Some d \<Rightarrow> (Some d, ob\<lparr>ah_devinfo := Some d\<rparr>)))"

definition with_info :: "acpica \<Rightarrow> AcpiHandleObject \<Rightarrow> (device_info \<Rightarrow> 'a res) \<Rightarrow> ('a \<times> AcpiHandleObject) res" where
  "with_info ac ob f =
     (case GetInfo ac ob of
        (None, _) \<Rightarrow> Inl (AssertFailed ''devinfo'')
      | (Some d, ob') \<Rightarrow> res_bind (f d) (\<lambda>v. Inr (v, ob')))"

definition IsRootBridge :: "acpica \<Rightarrow> AcpiHandleObject \<Rightarrow> (bool \<times> AcpiHandleObject) res" where
  "IsRootBridge ac ob = with_info ac ob (\<lambda>d. Inr (di_Flags d AND 1 \<noteq> 0))"

definition IsDevice :: "acpica \<Rightarrow> AcpiHandleObject \<Rightarrow> (bool \<times> AcpiHandleObject) res" where
  "IsDevice ac ob = with_info ac ob (\<lambda>d. Inr (if 2 AND di_Valid d = 0 then False else di_Type d = 6))"

definition Address :: "acpica \<Rightarrow> AcpiHandleObject \<Rightarrow> (u32 \<times> AcpiHandleObject) res" where
  "Address ac ob = with_info ac ob (\<lambda>d. Inr (ucast (di_Address d AND 0xffffffff)))"

text \<open>After a failure the value null is set and then replaced by an object for an uninitialised handle.\<close>

definition Parent :: "acpica \<Rightarrow> u64 \<Rightarrow> AcpiHandleObject \<Rightarrow> AcpiHandleObject res" where
  "Parent ac uninit ob =
     mk_AcpiHandleObject (case ac_parent ac (ah_handle ob) of None \<Rightarrow> uninit | Some h \<Rightarrow> h)"

definition HardwareId :: "acpica \<Rightarrow> AcpiHandleObject \<Rightarrow> (u8 list \<times> AcpiHandleObject) res" where
  "HardwareId ac ob = with_info ac ob (\<lambda>d.
     case di_HardwareId d of
       None \<Rightarrow> Inr []
     | Some hwid \<Rightarrow> if hwid = [] then Inr []
         else res_bind (rt_assert (last hwid = 0) ''hwid[len - 1]'') (\<lambda>_. Inr (butlast hwid)))"

subsection \<open>Interrupt routing\<close>

record irq_context =
  ct_device :: u8
  ct_pin :: u8
  ct_source_index :: u8

definition add_irq :: "irq_context \<Rightarrow> u8 list \<Rightarrow> AcpiPciIrqRoutingTable \<Rightarrow> (u32 \<times> AcpiPciIrqRoutingTable) res" where
  "add_irq ct irqs t =
     (if irqs = [] then Inr (ae_ok, t)
      else res_bind (rt_assert (unat (ct_source_index ct) < length irqs) ''source_index < InterruptCount'') (\<lambda>_.
        Inr (ae_ok, AddRoute \<lparr>rt_device = ct_device ct, rt_pin = ct_pin ct, rt_irq = irqs ! unat (ct_source_index ct)\<rparr> t)))"

definition WalkResourcesCallback ::
  "irq_context \<Rightarrow> acpi_resource \<Rightarrow> AcpiPciIrqRoutingTable \<Rightarrow> (u32 \<times> AcpiPciIrqRoutingTable) res" where
  "WalkResourcesCallback ct r t =
     (case r of
        ResIrq irqs \<Rightarrow> add_irq ct irqs t
      | ResExtendedIrq irqs \<Rightarrow> add_irq ct (map ucast irqs) t
      | _ \<Rightarrow> Inr (ae_ok, t))"

definition le_at :: "u8 list \<Rightarrow> nat \<Rightarrow> nat \<Rightarrow> 'a::len word res" where
  "le_at buf pos n = (if pos + n \<le> length buf then Inr (le_word (take n (drop pos buf))) else Inl (OutOfBounds ''databuf''))"

definition source_name :: "u8 list \<Rightarrow> nat \<Rightarrow> u8 list res" where
  "source_name buf pos =
     (if 0 \<in> set (drop pos buf) then Inr (takeWhile (\<lambda>b. b \<noteq> 0) (drop pos buf)) else Inl (OutOfBounds ''Source''))"

definition routing_entry :: "acpica \<Rightarrow> u64 \<Rightarrow> u32 \<Rightarrow> u64 \<Rightarrow> u32 \<Rightarrow> u8 list \<Rightarrow> AcpiPciIrqRoutingTable \<Rightarrow> AcpiPciIrqRoutingTable res" where
  "routing_entry ac handle pin address source_index source t =
     (let ct = \<lparr>ct_device = ucast (drop_bit 16 address), ct_pin = ucast pin, ct_source_index = ucast source_index\<rparr> in
      if source = []
      then Inr (AddRoute \<lparr>rt_device = ct_device ct, rt_pin = ct_pin ct, rt_irq = ct_source_index ct\<rparr> t)
      else case ac_handle ac handle source of
          None \<Rightarrow> Inr t
        | Some src \<Rightarrow> (case ac_crs ac src of
            None \<Rightarrow> Inr t
          | Some rs \<Rightarrow> res_bind (walk_resources (WalkResourcesCallback ct) rs t) (\<lambda>(st, t'). Inr t')))"

lemma res_bind_cong [fundef_cong]:
  "m = m' \<Longrightarrow> (\<And>x. m' = Inr x \<Longrightarrow> f x = f' x) \<Longrightarrow> res_bind m f = res_bind m' f'"
  by (cases m') auto

function walk_table :: "acpica \<Rightarrow> u64 \<Rightarrow> u8 list \<Rightarrow> nat \<Rightarrow> AcpiPciIrqRoutingTable \<Rightarrow> AcpiPciIrqRoutingTable res" where
  "walk_table ac handle buf pos t =
     res_bind (le_at buf pos 4 :: u32 res) (\<lambda>len. if len = 0 then Inr t
     else res_bind (le_at buf (pos + 4) 4 :: u32 res) (\<lambda>pin. res_bind (le_at buf (pos + 8) 8 :: u64 res) (\<lambda>address.
     res_bind (le_at buf (pos + 16) 4 :: u32 res) (\<lambda>source_index. res_bind (source_name buf (pos + 20)) (\<lambda>source.
     res_bind (routing_entry ac handle pin address source_index source t) (\<lambda>t'.
       walk_table ac handle buf (pos + unat len) t'))))))"
  by pat_completeness auto
termination
proof (relation "measure (\<lambda>(ac, h, buf, pos, t). length buf - pos)", goal_cases)
  case (2 ac handle buf pos t len)
  then have "pos + 4 \<le> length buf" "0 < unat len" by (auto simp: le_at_def unat_gt_0 split: if_splits)
  then show ?case by simp
qed simp

declare walk_table.simps [simp del]

definition kBufSize :: nat where "kBufSize = 8192"

text \<open>
  The interpreter fills the start of the cleared buffer; a table that does not fit is a failure. After a failure the
  source goes on with the cleared buffer.
\<close>

definition GetIrqRoutingTable :: "acpica \<Rightarrow> AcpiHandleObject \<Rightarrow> AcpiPciIrqRoutingTable res" where
  "GetIrqRoutingTable ac ob =
     res_bind (rt_assert (ah_handle ob \<noteq> 0) ''handle_'') (\<lambda>_.
     let written = (case ac_routing_table ac (ah_handle ob) of
           None \<Rightarrow> [] | Some bs \<Rightarrow> if length bs \<le> kBufSize then bs else []) in
     walk_table ac (ah_handle ob) (written @ replicate (kBufSize - length written) 0) 0 [])"

subsection \<open>Bus numbers\<close>

definition WalkResourcesBusLookupCallback :: "acpi_resource \<Rightarrow> int \<Rightarrow> (u32 \<times> int) res" where
  "WalkResourcesBusLookupCallback r bus =
     (case r of
        ResAddress t minimum \<Rightarrow>
          if t \<noteq> 2 then Inr (ae_ok, bus)
          else if bus \<noteq> - 1 then Inr (ae_already_exists, bus)
          else if minimum > 0xFFFF then Inr (ae_bad_data, bus)
          else Inr (ae_ok, int (unat minimum))
      | _ \<Rightarrow> Inr (ae_ok, bus))"

text \<open>The value returned to JavaScript, nothing for null. The result of \<open>_BBN\<close> is set and then replaced.\<close>

definition GetRootBridgeBusNumber :: "acpica \<Rightarrow> AcpiHandleObject \<Rightarrow> u32 option res" where
  "GetRootBridgeBusNumber ac ob =
     (let method1 = map_option (\<lambda>b. ucast (b AND 0xFF)) (ac_bbn ac (ah_handle ob)) :: u32 option in
      case ac_crs ac (ah_handle ob) of
        None \<Rightarrow> Inr None
      | Some rs \<Rightarrow> res_bind (walk_resources WalkResourcesBusLookupCallback rs (- 1)) (\<lambda>(s, bus).
          if s \<noteq> ae_ok \<or> bus = - 1 then Inr None else Inr (Some s)))"

section \<open>The manager\<close>

text \<open>
  The constructor makes the calls in order, up to the first that fails; the interrupt mode is set only if all succeed.
\<close>

lemma calls_until_ok: "snd (calls_until status cs) \<longleftrightarrow> (\<forall>c \<in> set cs. status c = ae_ok)"
  by (induction cs) (auto split: prod.splits)

lemma calls_until_made: "fst (calls_until status cs) = (let ok = takeWhile (\<lambda>c. status c = ae_ok) cs in ok @ take 1 (drop (length ok) cs))"
  by (induction cs) (auto simp: Let_def split: prod.splits)

theorem AcpiManager_calls:
  defines "steps \<equiv> [InitializeSubsystem, InitializeTables, LoadTables, EnableSubsystem, InitializeObjects]"
  shows "mk_AcpiManager status = (let ok = takeWhile (\<lambda>c. status c = ae_ok) steps in
    if length ok < 5 then ok @ [steps ! length ok] else steps @ [EvaluatePic 1])"
  by (auto simp: mk_AcpiManager_def AcpiManager_Init_def SetInterruptRoutingMode_def steps_def Let_def)

lemma get_devices_all: "0 \<notin> set hs \<Longrightarrow> get_devices hs l = Inr (l @ hs)"
  by (induction hs arbitrary: l) (auto simp: list_Push_def)

lemma wrap_handles_all: "0 \<notin> set hs \<Longrightarrow> wrap_handles hs = Inr (map (\<lambda>h. \<lparr>ah_handle = h, ah_devinfo = None\<rparr>) hs)"
  by (induction hs) (auto simp: mk_AcpiHandleObject_def)

text \<open>The script gets one object for every device the interpreter reports, in its order.\<close>

theorem pci_devices_all:
  "0 \<notin> set (ac_devices ac) \<Longrightarrow> AcpiGetPciDevices ac = Inr (map (\<lambda>h. \<lparr>ah_handle = h, ah_devinfo = None\<rparr>) (ac_devices ac))"
  by (simp add: AcpiGetPciDevices_def GetPciDevices_def get_devices_all wrap_handles_all)

section \<open>The routing table\<close>

text \<open>The image of an entry: its fields, the name of the link with its terminator, and padding.\<close>

record prt_entry =
  pe_pin :: u32
  pe_address :: u64
  pe_source_index :: u32
  pe_source :: "u8 list"
  pe_padding :: "u8 list"

definition prt_length :: "prt_entry \<Rightarrow> nat" where
  "prt_length e = 21 + length (pe_source e) + length (pe_padding e)"

definition prt_bytes :: "prt_entry \<Rightarrow> u8 list" where
  "prt_bytes e = le_bytes 4 (of_nat (prt_length e) :: u32) @ le_bytes 4 (pe_pin e) @ le_bytes 8 (pe_address e) @
     le_bytes 4 (pe_source_index e) @ pe_source e @ 0 # pe_padding e"

fun resource_irqs :: "acpi_resource \<Rightarrow> u8 list" where
  "resource_irqs (ResIrq irqs) = irqs"
| "resource_irqs (ResExtendedIrq irqs) = map ucast irqs"
| "resource_irqs r = []"

text \<open>The routes an entry stands for: its own interrupt, or one for every interrupt resource of its link.\<close>

definition entry_irqs :: "acpica \<Rightarrow> u64 \<Rightarrow> prt_entry \<Rightarrow> u8 list" where
  "entry_irqs ac h e =
     (if pe_source e = [] then [ucast (pe_source_index e)]
      else case Option.bind (ac_handle ac h (pe_source e)) (ac_crs ac) of
          None \<Rightarrow> []
        | Some rs \<Rightarrow> map (\<lambda>irqs. irqs ! unat (ucast (pe_source_index e) :: u8)) (filter (\<lambda>irqs. irqs \<noteq> []) (map resource_irqs rs)))"

definition entry_routes :: "acpica \<Rightarrow> u64 \<Rightarrow> prt_entry \<Rightarrow> AcpiPciIrqRoute list" where
  "entry_routes ac h e =
     map (\<lambda>irq. \<lparr>rt_device = ucast (drop_bit 16 (pe_address e)), rt_pin = ucast (pe_pin e), rt_irq = irq\<rparr>) (entry_irqs ac h e)"

definition prt_entry_ok :: "acpica \<Rightarrow> u64 \<Rightarrow> prt_entry \<Rightarrow> bool" where
  "prt_entry_ok ac h e \<longleftrightarrow> 0 \<notin> set (pe_source e) \<and> prt_length e < 2 ^ 32 \<and>
     (\<forall>src rs r. ac_handle ac h (pe_source e) = Some src \<longrightarrow> ac_crs ac src = Some rs \<longrightarrow> r \<in> set rs \<longrightarrow>
        resource_irqs r = [] \<or> unat (ucast (pe_source_index e) :: u8) < length (resource_irqs r))"

lemma length_prt_bytes [simp]: "length (prt_bytes e) = prt_length e"
  by (simp add: prt_bytes_def prt_length_def)

lemma WalkResourcesCallback_irqs: "WalkResourcesCallback ct r t = add_irq ct (resource_irqs r) t"
  by (cases r) (simp_all add: WalkResourcesCallback_def add_irq_def)

lemma walk_resources_routes:
  "\<forall>r \<in> set rs. resource_irqs r = [] \<or> unat (ct_source_index ct) < length (resource_irqs r) \<Longrightarrow>
   walk_resources (WalkResourcesCallback ct) rs t = Inr (ae_ok, t @
     map (\<lambda>irqs. \<lparr>rt_device = ct_device ct, rt_pin = ct_pin ct, rt_irq = irqs ! unat (ct_source_index ct)\<rparr>)
       (filter (\<lambda>irqs. irqs \<noteq> []) (map resource_irqs rs)))"
  by (induction rs arbitrary: t) (auto simp: WalkResourcesCallback_irqs add_irq_def AddRoute_def)

lemma routing_entry_routes:
  assumes "prt_entry_ok ac h e"
  shows "routing_entry ac h (pe_pin e) (pe_address e) (pe_source_index e) (pe_source e) t = Inr (t @ entry_routes ac h e)"
proof (cases "pe_source e = []")
  case True
  then show ?thesis by (simp add: routing_entry_def entry_routes_def entry_irqs_def AddRoute_def)
next
  case False
  show ?thesis
  proof (cases "Option.bind (ac_handle ac h (pe_source e)) (ac_crs ac)")
    case None
    then show ?thesis using False
      by (auto simp: routing_entry_def entry_routes_def entry_irqs_def bind_eq_None_conv split: option.splits)
  next
    case (Some rs)
    then obtain src where src: "ac_handle ac h (pe_source e) = Some src" "ac_crs ac src = Some rs" by (auto simp: bind_eq_Some_conv)
    then have "\<forall>r \<in> set rs. resource_irqs r = [] \<or> unat (ucast (pe_source_index e) :: u8) < length (resource_irqs r)"
      using assms by (auto simp: prt_entry_ok_def)
    then show ?thesis using False src
      by (simp add: routing_entry_def walk_resources_routes entry_routes_def entry_irqs_def comp_def)
  qed
qed

lemma le_at_bytes:
  "LENGTH('a) \<le> 8 * n \<Longrightarrow> pos = length pre \<Longrightarrow> le_at (pre @ le_bytes n (w :: 'a::len word) @ rest) pos n = Inr w"
  by (simp add: le_at_def)

lemma walk_table_entry:
  assumes "prt_entry_ok ac h e" "pos = length pre"
  shows "walk_table ac h (pre @ prt_bytes e @ rest) pos t = walk_table ac h (pre @ prt_bytes e @ rest) (pos + prt_length e) (t @ entry_routes ac h e)"
proof -
  let ?len = "of_nat (prt_length e) :: u32" and ?buf = "pre @ prt_bytes e @ rest"
  let ?tail = "pe_source e @ 0 # pe_padding e @ rest"
  have l1: "le_at ?buf pos 4 = Inr ?len"
    using le_at_bytes [of 4 pos pre ?len] assms(2) by (simp add: prt_bytes_def)
  have l2: "le_at ?buf (pos + 4) 4 = Inr (pe_pin e)"
    using le_at_bytes [of 4 "pos + 4" "pre @ le_bytes 4 ?len" "pe_pin e"] assms(2) by (simp add: prt_bytes_def)
  have l3: "le_at ?buf (pos + 8) 8 = Inr (pe_address e)"
    using le_at_bytes [of 8 "pos + 8" "pre @ le_bytes 4 ?len @ le_bytes 4 (pe_pin e)" "pe_address e"] assms(2) by (simp add: prt_bytes_def)
  have l4: "le_at ?buf (pos + 16) 4 = Inr (pe_source_index e)"
    using le_at_bytes [of 4 "pos + 16" "pre @ le_bytes 4 ?len @ le_bytes 4 (pe_pin e) @ le_bytes 8 (pe_address e)" "pe_source_index e"] assms(2)
    by (simp add: prt_bytes_def)
  have "drop (pos + 20) ?buf = ?tail" using assms(2) by (simp add: prt_bytes_def)
  moreover have "b \<noteq> 0" if "b \<in> set (pe_source e)" for b using that assms(1) by (auto simp: prt_entry_ok_def)
  then have "takeWhile (\<lambda>b. b \<noteq> 0) ?tail = pe_source e" by (simp add: takeWhile_append2)
  ultimately have l5: "source_name ?buf (pos + 20) = Inr (pe_source e)" by (simp add: source_name_def)
  have "prt_length e < 2 ^ LENGTH(32)" "prt_length e \<noteq> 0" using assms(1) by (auto simp: prt_entry_ok_def prt_length_def)
  then have len: "unat ?len = prt_length e" "?len \<noteq> 0" by (simp_all only: unat_of_nat_small of_nat_small_eq_0 not_False_eq_True)
  show ?thesis
    by (subst walk_table.simps) (simp only: l1 l2 l3 l4 l5 res_bind_simps routing_entry_routes [OF assms(1)] len if_False)
qed

lemma walk_table_entries:
  "\<forall>e \<in> set es. prt_entry_ok ac h e \<Longrightarrow> 4 \<le> n \<Longrightarrow> pos = length pre \<Longrightarrow>
   walk_table ac h (pre @ concat (map prt_bytes es) @ replicate n 0) pos t = Inr (t @ concat (map (entry_routes ac h) es))"
proof (induction es arbitrary: pre pos t)
  case Nil
  have "take 4 (replicate n (0 :: u8)) = le_bytes 4 (0 :: u32)" using Nil.prems(2) by (simp add: take_replicate numeral_eq_Suc)
  then have "(le_at (pre @ replicate n 0) pos 4 :: u32 res) = Inr 0"
    using Nil.prems(2,3) by (simp add: le_at_def le_word_le_bytes)
  then show ?case by (subst walk_table.simps) simp
next
  case (Cons e es)
  have "walk_table ac h (pre @ prt_bytes e @ concat (map prt_bytes es) @ replicate n 0) pos t =
      walk_table ac h ((pre @ prt_bytes e) @ concat (map prt_bytes es) @ replicate n 0) (pos + prt_length e) (t @ entry_routes ac h e)"
    using walk_table_entry [of ac h e pos pre] Cons.prems by simp
  also have "\<dots> = Inr ((t @ entry_routes ac h e) @ concat (map (entry_routes ac h) es))"
    by (rule Cons.IH) (use Cons.prems in simp_all)
  finally show ?case by simp
qed

section \<open>Properties\<close>

text \<open>
  The interrupt routing of a PCI bridge is read back: if the interpreter fills the buffer with any
  list of entries that leaves room for the terminator, \<open>getIrqRoutingTable\<close> ends and returns, in order, the routes of the
  entries: the interrupt of an entry without a link, and one for every interrupt resource of the link of
  the others, at the index the entry gives.
\<close>

theorem routing_table_routes:
  assumes "ah_handle ob \<noteq> 0" "ac_routing_table ac (ah_handle ob) = Some (concat (map prt_bytes es))"
    and "\<forall>e \<in> set es. prt_entry_ok ac (ah_handle ob) e" "length (concat (map prt_bytes es)) + 4 \<le> kBufSize"
  shows "GetIrqRoutingTable ac ob = Inr (concat (map (entry_routes ac (ah_handle ob)) es))"
  using walk_table_entries [OF assms(3), of "kBufSize - length (concat (map prt_bytes es))" 0 "[]" "[]"] assms(1,2,4)
  by (simp add: GetIrqRoutingTable_def)

definition sample_acpica :: acpica where
  "sample_acpica = \<lparr>ac_object_info = (\<lambda>_. None), ac_parent = (\<lambda>_. None), ac_devices = [1],
     ac_routing_table = (\<lambda>_. Some (concat (map prt_bytes
       [\<lparr>pe_pin = 0, pe_address = 0x1FFFF, pe_source_index = 16, pe_source = [], pe_padding = [0, 0, 0]\<rparr>,
        \<lparr>pe_pin = 1, pe_address = 0x2FFFF, pe_source_index = 0, pe_source = [0x4C], pe_padding = [0, 0]\<rparr>]))),
     ac_handle = (\<lambda>_ n. if n = [0x4C] then Some 2 else None),
     ac_crs = (\<lambda>h. if h = 2 then Some [ResOther, ResIrq [], ResExtendedIrq [11]] else None), ac_bbn = (\<lambda>_. None)\<rparr>"

theorem routing_table_routes_witness:
  "GetIrqRoutingTable sample_acpica \<lparr>ah_handle = 1, ah_devinfo = None\<rparr> =
     Inr [\<lparr>rt_device = 1, rt_pin = 0, rt_irq = 16\<rparr>, \<lparr>rt_device = 2, rt_pin = 1, rt_irq = 11\<rparr>]"
proof -
  let ?es = "[\<lparr>pe_pin = 0, pe_address = 0x1FFFF, pe_source_index = 16, pe_source = [], pe_padding = [0, 0, 0]\<rparr>,
    \<lparr>pe_pin = 1, pe_address = 0x2FFFF, pe_source_index = 0, pe_source = [0x4C], pe_padding = [0, 0]\<rparr>] :: prt_entry list"
  have "GetIrqRoutingTable sample_acpica \<lparr>ah_handle = 1, ah_devinfo = None\<rparr> =
      Inr (concat (map (entry_routes sample_acpica 1) ?es))"
    using routing_table_routes [of "\<lparr>ah_handle = 1, ah_devinfo = None\<rparr>" sample_acpica ?es]
    by (simp add: sample_acpica_def prt_entry_ok_def prt_length_def kBufSize_def)
  then show ?thesis by (simp add: entry_routes_def entry_irqs_def sample_acpica_def)
qed

text \<open>The bus number of a bridge is lost: what is returned is null or 0, whatever the interpreter reports.\<close>

theorem bus_number_lost: "GetRootBridgeBusNumber ac ob \<in> {Inr None, Inr (Some 0)}"
proof -
  have walk: "\<exists>s b. walk_resources WalkResourcesBusLookupCallback rs bus = Inr (s, b)" for rs bus
    by (induction rs arbitrary: bus)
      (auto simp: WalkResourcesBusLookupCallback_def split: acpi_resource.splits)
  show ?thesis
  proof (cases "ac_crs ac (ah_handle ob)")
    case (Some rs)
    then show ?thesis using walk [of rs "- 1"] by (auto simp: GetRootBridgeBusNumber_def ae_ok_def split: if_splits)
  qed (simp add: GetRootBridgeBusNumber_def)
qed

text \<open>Without a parent the kernel stops or an object for an arbitrary handle is returned.\<close>

theorem Parent_failure:
  "ac_parent ac (ah_handle ob) = None \<Longrightarrow>
   Parent ac uninit ob = (if uninit = 0 then Inl (AssertFailed ''handle'') else Inr \<lparr>ah_handle = uninit, ah_devinfo = None\<rparr>)"
  by (simp add: Parent_def mk_AcpiHandleObject_def)

text \<open>The device information is asked for once and then kept.\<close>

theorem GetInfo_cached: "GetInfo ac ob = (Some d, ob') \<Longrightarrow> GetInfo ac' ob' = (Some d, ob')"
  by (auto simp: GetInfo_def split: option.splits)

end
