(* ===== verification/Wrappers.thy ===== *)
theory Wrappers
  imports Prelude
begin

text \<open>
  The native objects that scripts hold, \<^verbatim>\<open>src/src/kernel/object-wrapper.h\<close> and \<^verbatim>\<open>template-cache.h\<close> and \<^verbatim>\<open>.cc\<close>, and the
  checks on the receiver and the arguments of native functions in \<^verbatim>\<open>v8utils.h\<close>. V8's heap is
  modelled as far as the wrappers use it: objects have an internal field, which holds the address of a native
  object, and the collector may call the weak callback of a native object whose JavaScript object the script no longer
  holds. The names and natives of the tables that \<open>ObjectInit\<close> and \<open>NewContext\<close> fill are data.

  The lemmas show that in every reachable state an object that a script holds leads to a live native
  object, which leads back to it, so that a native function gets a receiver of its own type or none, and that a
  referenced native object is not collected. They also show two failures: the destructor makes a new
  JavaScript object for the native object it destroys, and an \<open>ArrayBuffer\<close> as receiver stops the kernel.
\<close>

section \<open>Types and tables\<close>

datatype NativeTypeId = NIL | TYPEID_NATIVES | TYPEID_ACPI_MANAGER | TYPEID_ACPI_HANDLE | TYPEID_RESOURCE_MEMORY_RANGE
  | TYPEID_RESOURCE_MEMORY_BLOCK | TYPEID_RESOURCE_IRQ_RANGE | TYPEID_RESOURCE_IRQ | TYPEID_RESOURCE_IO_PORT
  | TYPEID_RESOURCE_IO_RANGE | TYPEID_ISOLATES_MANAGER | TYPEID_ALLOCATOR | TYPEID_FUNCTION | LAST

text \<open>The keys that \<open>ObjectInit\<close> of each class sets; the native function of a key is the method of that name.\<close>

fun object_keys :: "NativeTypeId \<Rightarrow> string list" where
  "object_keys TYPEID_RESOURCE_IO_PORT = [''write8'', ''write16'', ''write32'', ''read8'', ''read16'', ''read32'']"
| "object_keys TYPEID_ACPI_HANDLE = [''isRootBridge'', ''getRootBridgeBusNumber'', ''address'', ''parent'', ''isDevice'',
     ''hardwareId'', ''getIrqRoutingTable'']"
| "object_keys TYPEID_RESOURCE_MEMORY_RANGE = [''begin'', ''end'', ''subrange'', ''block'']"
| "object_keys TYPEID_RESOURCE_IO_RANGE = [''begin'', ''end'', ''subrange'', ''port'', ''offsetPort'']"
| "object_keys TYPEID_RESOURCE_IRQ_RANGE = [''irq'']"
| "object_keys TYPEID_RESOURCE_IRQ = [''on'']"
| "object_keys TYPEID_RESOURCE_MEMORY_BLOCK = [''buffer'', ''length'']"
| "object_keys _ = []"

text \<open>Classes whose \<open>Clone\<close> returns a copy; the others return null.\<close>

definition clonable :: "NativeTypeId \<Rightarrow> bool" where
  "clonable t \<longleftrightarrow> t \<in> {TYPEID_RESOURCE_IO_PORT, TYPEID_RESOURCE_MEMORY_RANGE, TYPEID_RESOURCE_IO_RANGE, TYPEID_RESOURCE_IRQ_RANGE,
     TYPEID_RESOURCE_IRQ, TYPEID_RESOURCE_MEMORY_BLOCK}"

section \<open>Native objects\<close>

record wrapper =
  instance_typeid :: NativeTypeId
  w_cache :: bool              \<comment> \<open>whether \<open>tpl_cache_\<close> is set\<close>
  w_object :: "nat option"     \<comment> \<open>the JavaScript object of \<open>object_\<close>, if it is not empty\<close>
  w_weak :: bool               \<comment> \<open>whether that handle is weak\<close>
  w_refs :: u32                \<comment> \<open>\<open>reference_count_\<close>\<close>

text \<open>
  An object of V8 with a wrapper template has the address of a native object in its field. Array buffers and their views
  have internal fields too, which hold null.
\<close>

datatype js_object = Wrapping nat "string list" | ArrayBufferLike | Plain

record wrap_state =
  natives :: "nat \<rightharpoonup> wrapper"
  objects :: "nat \<rightharpoonup> js_object"
  object_cache :: "NativeTypeId \<Rightarrow> nat option"
  next_object :: nat

definition mk_NativeObjectWrapper :: "NativeTypeId \<Rightarrow> wrapper res" where
  "mk_NativeObjectWrapper t =
     res_bind (rt_assert (t \<noteq> NIL) ''instance_typeid_ > NIL'') (\<lambda>_. res_bind (rt_assert (t \<noteq> LAST) ''instance_typeid_ < LAST'') (\<lambda>_.
       Inr \<lparr>instance_typeid = t, w_cache = False, w_object = None, w_weak = False, w_refs = 0\<rparr>))"

definition mk_TemplateCache :: wrap_state where
  "mk_TemplateCache = \<lparr>natives = Map.empty, objects = Map.empty, object_cache = (\<lambda>_. None), next_object = 0\<rparr>"

text \<open>A use of a native object that is gone is a fault.\<close>

definition native_at :: "nat \<Rightarrow> wrap_state \<Rightarrow> wrapper res" where
  "native_at a st = (case natives st a of None \<Rightarrow> Inl (OutOfBounds ''native object'') | Some w \<Rightarrow> Inr w)"

definition set_native :: "nat \<Rightarrow> wrapper \<Rightarrow> wrap_state \<Rightarrow> wrap_state" where
  "set_native a w st = st\<lparr>natives := (natives st)(a \<mapsto> w)\<rparr>"

definition new_object :: "js_object \<Rightarrow> wrap_state \<Rightarrow> nat \<times> wrap_state" where
  "new_object ob st = (next_object st, st\<lparr>objects := (objects st)(next_object st \<mapsto> ob), next_object := Suc (next_object st)\<rparr>)"

definition BindToTemplateCache :: "nat \<Rightarrow> wrap_state \<Rightarrow> wrap_state res" where
  "BindToTemplateCache a st =
     res_bind (native_at a st) (\<lambda>w. res_bind (rt_assert (\<not> w_cache w) ''!tpl_cache_'') (\<lambda>_.
       Inr (set_native a (w\<lparr>w_cache := True\<rparr>) st)))"

definition cache_Exists :: "NativeTypeId \<Rightarrow> wrap_state \<Rightarrow> bool" where
  "cache_Exists t st \<longleftrightarrow> object_cache st t \<noteq> None"

definition cache_Put :: "NativeTypeId \<Rightarrow> nat \<Rightarrow> wrap_state \<Rightarrow> wrap_state res" where
  "cache_Put t ob st =
     res_bind (rt_assert (object_cache st t = None) ''object_cache_[key].IsEmpty()'') (\<lambda>_.
       Inr (st\<lparr>object_cache := (object_cache st)(t := Some ob)\<rparr>))"

definition cache_Get :: "NativeTypeId \<Rightarrow> wrap_state \<Rightarrow> nat res" where
  "cache_Get t st = (case object_cache st t of None \<Rightarrow> Inl (AssertFailed ''!object_cache_[key].IsEmpty()'') | Some ob \<Rightarrow> Inr ob)"

text \<open>The object kept in the cache has the methods; its field stays at the first native object of the type.\<close>

definition cached_object :: "nat \<Rightarrow> NativeTypeId \<Rightarrow> wrap_state \<Rightarrow> (nat \<times> wrap_state) res" where
  "cached_object a t st =
     (if cache_Exists t st then res_bind (cache_Get t st) (\<lambda>ob. Inr (ob, st))
      else case new_object (Wrapping a (object_keys t)) st of
        (ob, st') \<Rightarrow> res_bind (cache_Put t ob st') (\<lambda>st''. Inr (ob, st'')))"

definition clone_keys :: "js_object option \<Rightarrow> string list" where
  "clone_keys ob = (case ob of Some (Wrapping _ ks) \<Rightarrow> ks | _ \<Rightarrow> [])"

definition EnsureInstance :: "nat \<Rightarrow> wrap_state \<Rightarrow> wrap_state res" where
  "EnsureInstance a st =
     res_bind (native_at a st) (\<lambda>w.
     res_bind (rt_assert (w_cache w) ''tpl_cache_'') (\<lambda>_.
       if w_object w \<noteq> None then Inr st
       else res_bind (cached_object a (instance_typeid w) st) (\<lambda>(cached, st1).
         case new_object (Wrapping a (clone_keys (objects st1 cached))) st1 of
           (loc, st2) \<Rightarrow> Inr (set_native a (w\<lparr>w_object := Some loc, w_weak := True\<rparr>) st2))))"

definition GetInstance :: "nat \<Rightarrow> wrap_state \<Rightarrow> (nat \<times> wrap_state) res" where
  "GetInstance a st =
     res_bind (EnsureInstance a st) (\<lambda>st'. res_bind (native_at a st') (\<lambda>w.
       case w_object w of None \<Rightarrow> Inl (OutOfBounds ''object_'') | Some ob \<Rightarrow> Inr (ob, st')))"

definition set_weak :: "bool \<Rightarrow> nat \<Rightarrow> wrap_state \<Rightarrow> wrap_state res" where
  "set_weak b a st = res_bind (EnsureInstance a st) (\<lambda>st'. res_bind (native_at a st') (\<lambda>w. Inr (set_native a (w\<lparr>w_weak := b\<rparr>) st')))"

definition Weak :: "nat \<Rightarrow> wrap_state \<Rightarrow> wrap_state res" where "Weak = set_weak True"
definition Unweak :: "nat \<Rightarrow> wrap_state \<Rightarrow> wrap_state res" where "Unweak = set_weak False"

definition AddReference :: "nat \<Rightarrow> wrap_state \<Rightarrow> wrap_state res" where
  "AddReference a st =
     res_bind (Unweak a st) (\<lambda>st'. res_bind (native_at a st') (\<lambda>w. Inr (set_native a (w\<lparr>w_refs := w_refs w + 1\<rparr>) st')))"

definition RemoveReference :: "nat \<Rightarrow> wrap_state \<Rightarrow> wrap_state res" where
  "RemoveReference a st =
     res_bind (native_at a st) (\<lambda>w.
       if w_refs w = 0 then Inr st
       else let st' = set_native a (w\<lparr>w_refs := w_refs w - 1\<rparr>) st in
         if w_refs w - 1 = 0 then Weak a st' else Inr st')"

text \<open>The destructor unweakens the handle, which makes a new object if the handle is empty, and then drops the handle.\<close>

definition delete_wrapper :: "nat \<Rightarrow> wrap_state \<Rightarrow> wrap_state res" where
  "delete_wrapper a st = res_bind (Unweak a st) (\<lambda>st'. Inr (st'\<lparr>natives := (natives st')(a := None)\<rparr>))"

definition WeakCallback :: "nat \<Rightarrow> wrap_state \<Rightarrow> wrap_state res" where
  "WeakCallback a st =
     res_bind (native_at a st) (\<lambda>w. delete_wrapper a (set_native a (w\<lparr>w_object := None\<rparr>) st))"

section \<open>Receivers and arguments\<close>

datatype js_value = NotObject | ObjectRef nat

definition GetWrapped :: "js_value \<Rightarrow> wrap_state \<Rightarrow> nat option res" where
  "GetWrapped v st =
     (case v of
        NotObject \<Rightarrow> Inr None
      | ObjectRef i \<Rightarrow> (case objects st i of
            Some (Wrapping a _) \<Rightarrow> Inr (Some a)
          | Some ArrayBufferLike \<Rightarrow> Inl (AssertFailed ''ptr'')
          | _ \<Rightarrow> Inr None))"

definition GetThis :: "NativeTypeId \<Rightarrow> js_value \<Rightarrow> wrap_state \<Rightarrow> nat option res" where
  "GetThis t v st =
     res_bind (GetWrapped v st) (\<lambda>ptr. case ptr of
         None \<Rightarrow> Inr None
       | Some a \<Rightarrow> res_bind (native_at a st) (\<lambda>w. Inr (if instance_typeid w \<noteq> t then None else Some a)))"

text \<open>A native function of a class: without a receiver of its type it returns at once (\<open>PROLOGUE\<close>).\<close>

definition native_call :: "NativeTypeId \<Rightarrow> (nat \<Rightarrow> wrap_state \<Rightarrow> ('r \<times> wrap_state) res) \<Rightarrow> js_value \<Rightarrow> wrap_state \<Rightarrow> ('r option \<times> wrap_state) res" where
  "native_call t body this st =
     res_bind (GetThis t this st) (\<lambda>that. case that of
         None \<Rightarrow> Inr (None, st)
       | Some a \<Rightarrow> res_bind (body a st) (\<lambda>(r, st'). Inr (Some r, st')))"

datatype ArgType = STRING | UINT32 | INT32 | FUNCTION | OBJECT | ARRAYBUFFER | UINT8ARRAY | NUMBER | ARRAY | BOOL | PROMISE

text \<open>\<open>is\<close> are V8's type tests; \<open>args[i]\<close> past the end is \<open>undefined\<close>.\<close>

definition arg_at :: "'v \<Rightarrow> 'v list \<Rightarrow> int \<Rightarrow> 'v" where
  "arg_at undef args i = (if 0 \<le> i \<and> i < int (length args) then args ! nat i else undef)"

definition ValidateArg :: "(ArgType \<Rightarrow> 'v \<Rightarrow> bool) \<Rightarrow> 'v \<Rightarrow> 'v list \<Rightarrow> int \<Rightarrow> ArgType \<Rightarrow> bool" where
  "ValidateArg is undef args argnum type =
     (if argnum < 0 then False else if int (length args) < argnum then False else is type (arg_at undef args argnum))"

text \<open>The comparison lets the number of arguments pass as an index, but \<open>undefined\<close> is of no type that is asked for.\<close>

lemma ValidateArg_exact:
  assumes "\<forall>t. \<not> is t undef"
  shows "ValidateArg is undef args (int i) t \<longleftrightarrow> i < length args \<and> is t (args ! i)"
  using assms by (auto simp: ValidateArg_def arg_at_def)

section \<open>Reachable states\<close>

text \<open>
  A program: the state and the objects the script holds. Native objects are made at any free address, the script
  drops objects, and the collector runs the callback of a weak handle whose object is not held.
\<close>

inductive wrap_step :: "wrap_state \<times> nat set \<Rightarrow> wrap_state \<times> nat set \<Rightarrow> bool" where
  ws_new: "natives st a = None \<Longrightarrow> mk_NativeObjectWrapper t = Inr w \<Longrightarrow> wrap_step (st, H) (set_native a w st, H)"
| ws_bind: "BindToTemplateCache a st = Inr st' \<Longrightarrow> wrap_step (st, H) (st', H)"
| ws_get: "GetInstance a st = Inr (ob, st') \<Longrightarrow> wrap_step (st, H) (st', insert ob H)"
| ws_js: "new_object b st = (ob, st') \<Longrightarrow> b \<in> {ArrayBufferLike, Plain} \<Longrightarrow> wrap_step (st, H) (st', insert ob H)"
| ws_drop: "H' \<subseteq> H \<Longrightarrow> wrap_step (st, H) (st, H')"
| ws_add: "AddReference a st = Inr st' \<Longrightarrow> wrap_step (st, H) (st', H)"
| ws_remove: "RemoveReference a st = Inr st' \<Longrightarrow> wrap_step (st, H) (st', H)"
| ws_collect: "natives st a = Some w \<Longrightarrow> w_weak w \<Longrightarrow> w_object w = Some ob \<Longrightarrow> ob \<notin> H \<Longrightarrow> WeakCallback a st = Inr st' \<Longrightarrow>
     wrap_step (st, H) (st', H)"

inductive wrap_reachable :: "wrap_state \<times> nat set \<Rightarrow> bool" where
  wr_init: "wrap_reachable (mk_TemplateCache, {})"
| wr_step: "wrap_reachable s \<Longrightarrow> wrap_step s s' \<Longrightarrow> wrap_reachable s'"

definition own_object :: "wrap_state \<Rightarrow> nat \<Rightarrow> nat \<Rightarrow> bool" where
  "own_object st a ob \<longleftrightarrow> (\<exists>w. natives st a = Some w \<and> w_object w = Some ob \<and> objects st ob = Some (Wrapping a (object_keys (instance_typeid w))))"

definition native_ok :: "wrap_state \<Rightarrow> nat \<Rightarrow> wrapper \<Rightarrow> bool" where
  "native_ok st a w \<longleftrightarrow> (\<forall>ob. w_object w = Some ob \<longrightarrow> w_cache w \<and> objects st ob = Some (Wrapping a (object_keys (instance_typeid w)))) \<and>
     (w_refs w \<noteq> 0 \<longrightarrow> w_object w \<noteq> None \<and> \<not> w_weak w)"

definition wrap_inv :: "wrap_state \<times> nat set \<Rightarrow> bool" where
  "wrap_inv s \<longleftrightarrow> (\<forall>a w. natives (fst s) a = Some w \<longrightarrow> native_ok (fst s) a w) \<and>
     (\<forall>ob \<in> snd s. (\<exists>a. own_object (fst s) a ob) \<or> objects (fst s) ob \<in> {Some ArrayBufferLike, Some Plain}) \<and>
     (\<forall>ob. objects (fst s) ob \<noteq> None \<longrightarrow> ob < next_object (fst s)) \<and>
     (\<forall>t c. object_cache (fst s) t = Some c \<longrightarrow> (\<exists>a. objects (fst s) c = Some (Wrapping a (object_keys t))))"

lemma wrap_inv_held: "wrap_inv (st, H) \<Longrightarrow> ob \<in> H \<Longrightarrow> ob < next_object st"
  by (auto simp: wrap_inv_def own_object_def)

lemma wrap_inv_native: "wrap_inv (st, H) \<Longrightarrow> natives st a = Some w \<Longrightarrow> native_ok st a w"
  by (simp add: wrap_inv_def)

lemma set_native_fields [simp]:
  "objects (set_native a w st) = objects st" "object_cache (set_native a w st) = object_cache st"
  "next_object (set_native a w st) = next_object st" "natives (set_native a w st) = (natives st)(a \<mapsto> w)"
  by (simp_all add: set_native_def)

lemma native_at_iff [simp]: "native_at a st = Inr w \<longleftrightarrow> natives st a = Some w"
  by (simp add: native_at_def split: option.splits)

text \<open>Changing a native object keeps the invariant if no held object is left without it.\<close>

lemma wrap_inv_set_native:
  assumes "wrap_inv (st, H)" "native_ok st a w'"
    and "\<And>ob. own_object st a ob \<Longrightarrow> ob \<in> H \<Longrightarrow> own_object (set_native a w' st) a ob"
  shows "wrap_inv (set_native a w' st, H)"
proof -
  have "\<exists>b. own_object (set_native a w' st) b ob" if "own_object st b ob" "ob \<in> H" for b ob
    using that assms(3) by (cases "b = a") (auto simp: own_object_def)
  moreover have "native_ok (set_native a w' st) b w" if "native_ok st b w" for b w
    using that by (simp add: native_ok_def)
  ultimately show ?thesis using assms(1,2) by (auto simp: wrap_inv_def)
qed

lemma wrap_inv_new_object:
  assumes "wrap_inv (st, H)" "new_object b st = (ob, st')"
  shows "wrap_inv (st', H)" "objects st' ob = Some b" "natives st' = natives st" "ob = next_object st"
proof -
  have fresh: "objects st (next_object st) = None" using assms(1) by (auto simp: wrap_inv_def)
  have st': "st' = st\<lparr>objects := (objects st)(next_object st \<mapsto> b), next_object := Suc (next_object st)\<rparr>" "ob = next_object st"
    using assms(2) by (auto simp: new_object_def)
  have keep: "objects st' x = Some v" if "objects st x = Some v" for x v using that fresh st' by auto
  have natives: "natives st' = natives st" using st' by simp
  have own: "own_object st' a x" if "own_object st a x" for a x using that keep natives by (auto simp: own_object_def)
  have "native_ok st' a w" if "natives st' a = Some w" for a w
    using wrap_inv_native [OF assms(1), of a w] that keep natives by (auto simp: native_ok_def)
  moreover have "(\<exists>a. own_object st' a x) \<or> objects st' x \<in> {Some ArrayBufferLike, Some Plain}" if "x \<in> H" for x
  proof -
    have "(\<exists>a. own_object st a x) \<or> objects st x = Some ArrayBufferLike \<or> objects st x = Some Plain"
      using assms(1) that by (auto simp: wrap_inv_def)
    then show ?thesis using own keep by blast
  qed
  moreover have "x < next_object st'" if "objects st' x \<noteq> None" for x
    using that assms(1) st' by (auto simp: wrap_inv_def less_Suc_eq split: if_splits)
  moreover have "\<exists>a. objects st' c = Some (Wrapping a (object_keys t))" if "object_cache st' t = Some c" for t c
    using that assms(1) keep st' by (fastforce simp: wrap_inv_def)
  ultimately show "wrap_inv (st', H)" unfolding wrap_inv_def fst_conv snd_conv by blast
  show "objects st' ob = Some b" "natives st' = natives st" "ob = next_object st" using st' by simp_all
qed

lemma cached_object_inv:
  assumes "wrap_inv (st, H)" "cached_object a t st = Inr (c, st')"
  shows "wrap_inv (st', H) \<and> natives st' = natives st \<and> next_object st \<le> next_object st' \<and> clone_keys (objects st' c) = object_keys t"
proof (cases "object_cache st t")
  case (Some c')
  moreover from this obtain b where "objects st c' = Some (Wrapping b (object_keys t))"
    using assms(1) unfolding wrap_inv_def fst_conv by blast
  ultimately show ?thesis using assms by (auto simp: cached_object_def cache_Exists_def cache_Get_def clone_keys_def)
next
  case None
  obtain ob st1 where new: "new_object (Wrapping a (object_keys t)) st = (ob, st1)" by (cases "new_object (Wrapping a (object_keys t)) st")
  note inv = wrap_inv_new_object [OF assms(1) new]
  have "c = ob" "st' = st1\<lparr>object_cache := (object_cache st1)(t := Some ob)\<rparr>"
    using assms(2) None new by (auto simp: cached_object_def cache_Exists_def cache_Put_def new_object_def)
  moreover have "next_object st \<le> next_object st1" using new by (auto simp: new_object_def)
  ultimately show ?thesis using inv by (auto simp: wrap_inv_def clone_keys_def native_ok_def own_object_def)
qed

text \<open>\<open>EnsureInstance\<close> gives the native object an object of its own, a new one unless it has one.\<close>

lemma EnsureInstance_inv:
  assumes "wrap_inv (st, H)" "EnsureInstance a st = Inr st'" "natives st a = Some w"
  obtains w' ob where "wrap_inv (st', H)" "natives st' a = Some w'" "w_object w' = Some ob"
    "w_object w = None \<Longrightarrow> next_object st \<le> ob \<and> natives st' = (natives st)(a \<mapsto> w') \<and> w_refs w' = w_refs w"
    "w_object w \<noteq> None \<Longrightarrow> st' = st"
proof (cases "w_object w")
  case (Some ob)
  then have "st' = st" using assms(2,3) by (auto simp: EnsureInstance_def res_iffs)
  then show ?thesis using that [of w ob] assms(1,3) Some by simp
next
  case None
  then obtain c st1 where c: "cached_object a (instance_typeid w) st = Inr (c, st1)" and "w_cache w"
    using assms(2,3) by (auto simp: EnsureInstance_def res_iffs)
  note ci = cached_object_inv [OF assms(1) c]
  obtain loc st2 where new: "new_object (Wrapping a (object_keys (instance_typeid w))) st1 = (loc, st2)"
    by (cases "new_object (Wrapping a (object_keys (instance_typeid w))) st1")
  note ni = wrap_inv_new_object [OF conjunct1 [OF ci] new]
  let ?w = "w\<lparr>w_object := Some loc, w_weak := True\<rparr>"
  have st': "st' = set_native a ?w st2"
    using assms(2,3) None c ci new by (auto simp: EnsureInstance_def res_iffs)
  have refs: "w_refs w = 0" using wrap_inv_native [OF assms(1,3)] None by (auto simp: native_ok_def)
  have "wrap_inv (st', H)" unfolding st'
  proof (rule wrap_inv_set_native [OF ni(1)])
    show "native_ok st2 a ?w" using ni(2) refs \<open>w_cache w\<close> by (simp add: native_ok_def)
    fix ob assume "own_object st2 a ob"
    then show "own_object (set_native a ?w st2) a ob" using ni(3) ci assms(3) None by (auto simp: own_object_def)
  qed
  moreover have "next_object st \<le> loc" using ni(4) ci by simp
  ultimately show ?thesis using that [of ?w loc] st' ni(3) ci None by (auto simp: fun_eq_iff)
qed

lemma set_weak_inv:
  assumes "wrap_inv (st, H)" "set_weak b a st = Inr st'" "natives st a = Some w" "b \<longrightarrow> w_refs w = 0"
  shows "\<exists>w' ob. wrap_inv (st', H) \<and> natives st' a = Some w' \<and> w_object w' = Some ob \<and> w_weak w' = b \<and> w_refs w' = w_refs w \<and>
    (w_object w = None \<longrightarrow> next_object st \<le> ob)"
proof -
  obtain st1 where e: "EnsureInstance a st = Inr st1" using assms(2) by (auto simp: set_weak_def res_iffs)
  obtain w1 ob where w1: "wrap_inv (st1, H)" "natives st1 a = Some w1" "w_object w1 = Some ob"
    and new: "w_object w = None \<Longrightarrow> next_object st \<le> ob \<and> natives st1 = (natives st)(a \<mapsto> w1) \<and> w_refs w1 = w_refs w"
    and old: "w_object w \<noteq> None \<Longrightarrow> st1 = st"
    using EnsureInstance_inv [OF assms(1) e assms(3)] by blast
  have st': "st' = set_native a (w1\<lparr>w_weak := b\<rparr>) st1" using assms(2) e w1(2) by (auto simp: set_weak_def res_iffs)
  have refs: "w_refs w1 = w_refs w" using new old w1(2) assms(3) by (cases "w_object w") auto
  have "wrap_inv (st', H)" unfolding st'
  proof (rule wrap_inv_set_native [OF w1(1)])
    show "native_ok st1 a (w1\<lparr>w_weak := b\<rparr>)" using w1 refs assms(4) by (auto simp: wrap_inv_def native_ok_def)
  qed (use w1(2) in \<open>auto simp: own_object_def\<close>)
  then show ?thesis using st' w1 refs new by auto
qed

lemma wrap_inv_update:
  assumes "wrap_inv (st, H)" "natives st a = Some w" "w_object w' = w_object w" "instance_typeid w' = instance_typeid w"
    and "w_cache w \<longrightarrow> w_cache w'" "w_refs w' \<noteq> 0 \<longrightarrow> w_object w \<noteq> None \<and> \<not> w_weak w'"
  shows "wrap_inv (set_native a w' st, H)"
  by (rule wrap_inv_set_native [OF assms(1)]) (use assms in \<open>auto simp: wrap_inv_def native_ok_def own_object_def\<close>)

lemmas handle_defs = BindToTemplateCache_def AddReference_def RemoveReference_def WeakCallback_def delete_wrapper_def Unweak_def Weak_def

lemma AddReference_inv:
  assumes "wrap_inv (st, H)" "AddReference a st = Inr st'"
  shows "wrap_inv (st', H)"
proof -
  obtain st1 w1 where u: "set_weak False a st = Inr st1" "natives st1 a = Some w1" "st' = set_native a (w1\<lparr>w_refs := w_refs w1 + 1\<rparr>) st1"
    using assms(2) by (auto simp: handle_defs res_iffs)
  obtain w where w: "natives st a = Some w" using u(1) by (auto simp: set_weak_def EnsureInstance_def res_iffs)
  obtain w' ob where "wrap_inv (st1, H)" "natives st1 a = Some w'" "w_object w' = Some ob" "w_weak w' = False"
    using set_weak_inv [OF assms(1) u(1) w] by auto
  then show ?thesis unfolding u(3) using u(2) by (intro wrap_inv_update [of st1 H a w1]) auto
qed

lemma RemoveReference_inv:
  assumes "wrap_inv (st, H)" "RemoveReference a st = Inr st'"
  shows "wrap_inv (st', H)"
proof -
  obtain w where w: "natives st a = Some w" using assms(2) by (auto simp: handle_defs res_iffs)
  let ?w = "w\<lparr>w_refs := w_refs w - 1\<rparr>"
  have inv: "wrap_inv (set_native a ?w st, H)" if "w_refs w \<noteq> 0"
    using wrap_inv_update [OF assms(1) w, of ?w] wrap_inv_native [OF assms(1) w] that by (auto simp: native_ok_def)
  show ?thesis
  proof (cases "w_refs w = 0 \<or> w_refs w - 1 \<noteq> 0")
    case True
    then show ?thesis using assms w inv by (auto simp: handle_defs res_iffs Let_def split: if_splits)
  next
    case False
    then have "set_weak True a (set_native a ?w st) = Inr st'" using assms(2) w by (auto simp: handle_defs res_iffs Let_def)
    then show ?thesis using set_weak_inv [OF inv, of True a st' ?w] False by auto
  qed
qed

lemma WeakCallback_inv:
  assumes "wrap_inv (st, H)" "WeakCallback a st = Inr st'" "natives st a = Some w" "w_weak w" "w_object w = Some ob" "ob \<notin> H"
  shows "wrap_inv (st', H)"
proof -
  let ?w = "w\<lparr>w_object := None\<rparr>" and ?st = "set_native a (w\<lparr>w_object := None\<rparr>) st"
  have inv: "wrap_inv (?st, H)"
    by (rule wrap_inv_set_native [OF assms(1)])
      (use assms wrap_inv_native [OF assms(1,3)] in \<open>auto simp: native_ok_def own_object_def\<close>)
  obtain st1 where u: "set_weak False a ?st = Inr st1" "st' = st1\<lparr>natives := (natives st1)(a := None)\<rparr>"
    using assms(2,3) by (auto simp: handle_defs res_iffs)
  obtain w1 o1 where w1: "wrap_inv (st1, H)" "natives st1 a = Some w1" "w_object w1 = Some o1" "next_object ?st \<le> o1"
    using set_weak_inv [OF inv u(1), of ?w] by auto
  have "o1 \<notin> H" using wrap_inv_held [OF inv] w1(4) by fastforce
  then have "own_object st' b x" if "own_object st1 b x" "x \<in> H" for b x
    using that w1(2,3) u(2) by (auto simp: own_object_def)
  moreover have "native_ok st' b v" if "native_ok st1 b v" for b v using that u(2) by (simp add: native_ok_def)
  ultimately show ?thesis using w1(1) u(2) by (auto simp: wrap_inv_def split: if_splits) blast
qed

lemma wrap_step_inv:
  assumes "wrap_step s s'" "wrap_inv s"
  shows "wrap_inv s'"
  using assms
proof (induction rule: wrap_step.induct)
  case (ws_new st a t w H)
  then have "w_object w = None \<and> w_refs w = 0" by (auto simp: mk_NativeObjectWrapper_def res_iffs)
  then show ?case using ws_new by (intro wrap_inv_set_native) (auto simp: native_ok_def own_object_def)
next
  case (ws_bind a st st' H)
  then obtain w where "natives st a = Some w" "st' = set_native a (w\<lparr>w_cache := True\<rparr>) st" by (auto simp: handle_defs res_iffs)
  then show ?case using wrap_inv_update [OF ws_bind(2), of a w "w\<lparr>w_cache := True\<rparr>"] wrap_inv_native [OF ws_bind(2)]
    by (auto simp: native_ok_def)
next
  case (ws_get a st ob st' H)
  then obtain w' where e: "EnsureInstance a st = Inr st'" "natives st' a = Some w'" "w_object w' = Some ob"
    by (auto simp: GetInstance_def res_iffs split: option.splits)
  moreover obtain w where "natives st a = Some w" using e(1) by (auto simp: EnsureInstance_def res_iffs)
  ultimately have inv: "wrap_inv (st', H)" using EnsureInstance_inv [OF ws_get(2) e(1)] by blast
  have "own_object st' a ob" using wrap_inv_native [OF inv e(2)] e by (auto simp: native_ok_def own_object_def)
  then show ?case using inv by (auto simp: wrap_inv_def)
next
  case (ws_js b st ob st' H)
  from wrap_inv_new_object [OF ws_js(3,1)] ws_js(2) show ?case by (auto simp: wrap_inv_def)
next
  case (ws_drop H' H st)
  then show ?case by (auto simp: wrap_inv_def)
qed (use AddReference_inv RemoveReference_inv WeakCallback_inv in blast)+

lemma wrap_reachable_inv: "wrap_reachable s \<Longrightarrow> wrap_inv s"
proof (induction rule: wrap_reachable.induct)
  case wr_init
  show ?case by (simp add: wrap_inv_def mk_TemplateCache_def)
next
  case (wr_step s s')
  then show ?case using wrap_step_inv by blast
qed

section \<open>Properties\<close>


definition sample_program :: "(nat \<times> wrap_state) res" where
  "sample_program =
     res_bind (mk_NativeObjectWrapper TYPEID_RESOURCE_IO_PORT) (\<lambda>w.
     res_bind (BindToTemplateCache 7 (set_native 7 w mk_TemplateCache)) (GetInstance 7))"

lemmas sample_defs = sample_program_def mk_NativeObjectWrapper_def BindToTemplateCache_def GetInstance_def EnsureInstance_def
  cached_object_def cache_Exists_def cache_Put_def cache_Get_def new_object_def native_at_def set_native_def mk_TemplateCache_def
  clone_keys_def

lemma sample_reachable: "sample_program = Inr (ob, st) \<Longrightarrow> wrap_reachable (st, {ob})"
proof -
  assume *: "sample_program = Inr (ob, st)"
  then obtain w st1 where w: "mk_NativeObjectWrapper TYPEID_RESOURCE_IO_PORT = Inr w"
    and st1: "BindToTemplateCache 7 (set_native 7 w mk_TemplateCache) = Inr st1" and "GetInstance 7 st1 = Inr (ob, st)"
    by (auto simp: sample_program_def res_iffs)
  have "wrap_reachable (set_native 7 w mk_TemplateCache, {})"
    by (rule wr_step [OF wr_init ws_new]) (use w in \<open>auto simp: mk_TemplateCache_def\<close>)
  then have "wrap_reachable (st1, {})" by (rule wr_step [OF _ ws_bind [OF st1]])
  then show ?thesis by (rule wr_step [OF _ ws_get [OF \<open>GetInstance 7 st1 = Inr (ob, st)\<close>]])
qed


text \<open>A referenced native object stays: no step of the collector is possible for it.\<close>

theorem referenced_kept:
  assumes "wrap_reachable (st, H)" "natives st a = Some w" "w_refs w \<noteq> 0"
  shows "\<not> w_weak w"
  using wrap_inv_native [OF wrap_reachable_inv [OF assms(1)] assms(2)] assms(3) by (simp add: native_ok_def)

text \<open>An array buffer as receiver fails the assertion of \<open>GetWrapped\<close>.\<close>

theorem array_buffer_receiver:
  "objects st ob = Some ArrayBufferLike \<Longrightarrow> native_call t body (ObjectRef ob) st = Inl (AssertFailed ''ptr'')"
  by (simp add: native_call_def GetThis_def GetWrapped_def)

text \<open>
  The callback of the collector makes a new object in V8's heap, whose field keeps the address of the deleted native
  object.
\<close>

theorem callback_allocates:
  assumes "natives st a = Some w" "WeakCallback a st = Inr st'"
  shows "\<exists>ob ks. next_object st \<le> ob \<and> objects st' ob = Some (Wrapping a ks) \<and> natives st' a = None"
proof -
  let ?st = "set_native a (w\<lparr>w_object := None\<rparr>) st"
  obtain st1 where u: "set_weak False a ?st = Inr st1" "st' = st1\<lparr>natives := (natives st1)(a := None)\<rparr>"
    using assms by (auto simp: handle_defs res_iffs)
  then obtain c st2 where c: "cached_object a (instance_typeid w) ?st = Inr (c, st2)"
    and st1: "objects st1 = (objects st2)(next_object st2 \<mapsto> Wrapping a (clone_keys (objects st2 c)))"
    by (auto simp: set_weak_def EnsureInstance_def res_iffs new_object_def)
  have "next_object st \<le> next_object st2"
    using c by (auto simp: cached_object_def cache_Put_def cache_Get_def new_object_def res_iffs split: if_splits option.splits)
  then show ?thesis using u(2) st1 by auto
qed

end
