(* ===== verification/Profiler.thy ===== *)
theory Profiler
  imports Printf
begin

text \<open>
  The sampling profiler, \<^verbatim>\<open>src/src/kernel/profiler\<close>: the counters, the table of compiled code that V8's events
  keep, the look-up of an address in it, and the log. What V8 reports for a sample (its state and the frames of the
  stack), the clock and the initial values of the members the constructor leaves uninitialised are arguments. The
  optional trace callbacks and runtime states are off in every build file.

  The lemmas show that the counters add up, that an address is found exactly in the code that covers
  it, and where the profiler fails: it reads the name of moved code from a union that holds its new
  address, and prints the name of unknown code through a null pointer.
\<close>

section \<open>Counters\<close>

record ProfilerCounters =
  sampleCount :: u64
  idleCount :: u64
  jsCount :: u64
  gcCount :: u64
  compilerCount :: u64
  otherCount :: u64
  externalCount :: u64
  v8idleCount :: u64
  startTime :: u64
  endTime :: u64

definition counters_init :: ProfilerCounters where
  "counters_init = \<lparr>sampleCount = 0, idleCount = 0, jsCount = 0, gcCount = 0, compilerCount = 0, otherCount = 0,
     externalCount = 0, v8idleCount = 0, startTime = 0, endTime = 0\<rparr>"

text \<open>What \<open>Print\<close> checks; the ratios it prints are floating point.\<close>

definition counters_Print :: "ProfilerCounters \<Rightarrow> unit res" where
  "counters_Print c =
     res_bind (rt_assert (endTime c - startTime c > 0) ''timediff > 0'') (\<lambda>_. rt_assert (sampleCount c > 0) ''sampleCount > 0'')"

section \<open>Compiled code\<close>

record CodeEventEntry =
  ce_name :: "u8 list"
  code_start :: u64
  code_len :: u64

text \<open>A \<open>std::map\<close> from addresses: the pairs in ascending order. \<open>insert\<close> keeps an entry that is there.\<close>

type_synonym CodeEntries = "(u64 \<times> CodeEventEntry) list"

fun ce_insert :: "u64 \<Rightarrow> CodeEventEntry \<Rightarrow> CodeEntries \<Rightarrow> CodeEntries" where
  "ce_insert k e [] = [(k, e)]"
| "ce_insert k e ((k', e') # m) =
     (if k < k' then (k, e) # (k', e') # m else if k = k' then (k', e') # m else (k', e') # ce_insert k e m)"

definition ce_erase :: "u64 \<Rightarrow> CodeEntries \<Rightarrow> CodeEntries" where
  "ce_erase k m = filter (\<lambda>(k', e). k' \<noteq> k) m"

datatype EventType = CODE_ADDED | CODE_MOVED | CODE_REMOVED | CODE_OTHER

text \<open>\<open>v8::JitCodeEvent\<close>. \<open>name.str\<close> and \<open>new_code_start\<close> are the first word of a union, \<open>name.len\<close> the second.\<close>

record JitCodeEvent =
  ev_type :: EventType
  ev_code_start :: u64
  ev_code_len :: u64
  ev_union0 :: u64
  ev_union1 :: u64

definition event_entry :: "(u64 \<Rightarrow> u8) \<Rightarrow> JitCodeEvent \<Rightarrow> u64 \<Rightarrow> CodeEventEntry" where
  "event_entry mem ev start =
     \<lparr>ce_name = map (\<lambda>i. mem (ev_union0 ev + of_nat i)) [0..<unat (ev_union1 ev)], code_start = start, code_len = ev_code_len ev\<rparr>"

definition OnJitCodeEvent :: "(u64 \<Rightarrow> u8) \<Rightarrow> JitCodeEvent \<Rightarrow> CodeEntries \<Rightarrow> CodeEntries res" where
  "OnJitCodeEvent mem ev m =
     (case ev_type ev of
        CODE_ADDED \<Rightarrow> Inr (ce_insert (ev_code_start ev) (event_entry mem ev (ev_code_start ev)) m)
      | CODE_MOVED \<Rightarrow>
          res_bind (rt_assert (ev_code_start ev \<in> fst ` set m) ''it != code_entries_.end()'') (\<lambda>_.
          Inr (ce_insert (ev_union0 ev) (event_entry mem ev (ev_union0 ev)) (ce_erase (ev_code_start ev) m)))
      | CODE_REMOVED \<Rightarrow> Inr (ce_erase (ev_code_start ev) m)
      | CODE_OTHER \<Rightarrow> Inr m)"

definition FindEventEntry :: "CodeEntries \<Rightarrow> u64 \<Rightarrow> CodeEventEntry option res" where
  "FindEventEntry m address =
     res_bind (rt_assert (address \<noteq> 0) ''address'') (\<lambda>_.
       let before = takeWhile (\<lambda>(k, e). k \<le> address) m in
       if before = [] then Inr None
       else let entry = snd (last before) in
         Inr (if address < code_start entry + code_len entry then Some entry else None))"

section \<open>Samples\<close>

record Profiler =
  enabled :: bool
  counters :: ProfilerCounters
  code_entries :: CodeEntries
  prof_log :: "u8 list option"   \<comment> \<open>what was written to \<open>log_\<close>; nothing for the null pointer\<close>

definition kLogSize :: nat where "kLogSize = 2 * 1024 * 1024"

definition mk_Profiler :: "bool \<Rightarrow> u8 list option \<Rightarrow> Profiler" where
  "mk_Profiler uninit_enabled uninit_log =
     \<lparr>enabled = uninit_enabled, counters = counters_init, code_entries = [], prof_log = uninit_log\<rparr>"

text \<open>\<open>LogWrite\<close> measures its string with \<open>strlen\<close>: the bytes before the first zero are written.\<close>

definition LogWrite :: "u8 list \<Rightarrow> Profiler \<Rightarrow> Profiler res" where
  "LogWrite str p =
     (case prof_log p of
        None \<Rightarrow> Inl (AssertFailed ''log_position_'')
      | Some l \<Rightarrow> let written = takeWhile (\<lambda>b. b \<noteq> 0) str in
          if length l + length written > kLogSize then Inl (OutOfBounds ''log_position_'')
          else Inr (p\<lparr>prof_log := Some (l @ written)\<rparr>))"

definition Enable :: "u64 \<Rightarrow> Profiler \<Rightarrow> Profiler" where
  "Enable now p = p\<lparr>prof_log := Some [], counters := (counters p)\<lparr>startTime := now\<rparr>, enabled := True\<rparr>"

definition Disable :: "u64 \<Rightarrow> Profiler \<Rightarrow> Profiler res" where
  "Disable now p =
     (let c = (counters p)\<lparr>endTime := now\<rparr> in
      res_bind (counters_Print c) (\<lambda>_. Inl SystemHang))"

datatype StateTag = JS | GC | COMPILER | OTHER | EXTERNAL | IDLE

text \<open>The thread that was interrupted: its file, and unless it is the idle thread, what V8 reports.\<close>

record sample_thread =
  st_filename :: "u8 list"
  st_sample :: "(StateTag \<times> u64 list) option"

text \<open>\<open>printf\<close> of a name: \<open>%s\<close> of a null pointer reads address 0.\<close>

definition print_name :: "u8 list option \<Rightarrow> unit res" where
  "print_name s = (case s of None \<Rightarrow> Inl (OutOfBounds ''printf of a null pointer'') | Some _ \<Rightarrow> Inr ())"

definition sample_name :: "CodeEntries \<Rightarrow> u64 list \<Rightarrow> u8 list option res" where
  "sample_name m frames =
     (case frames of [] \<Rightarrow> Inr None | f # _ \<Rightarrow> res_bind (FindEventEntry m f) (\<lambda>e. Inr (map_option ce_name e)))"

definition MakeSample :: "bool \<Rightarrow> sample_thread option \<Rightarrow> Profiler \<Rightarrow> Profiler res" where
  "MakeSample engine_init thread p =
     (if \<not> enabled p then Inr p
      else res_bind (rt_assert engine_init ''is_init'') (\<lambda>_.
        case thread of None \<Rightarrow> Inl (AssertFailed ''thread'')
        | Some th \<Rightarrow>
          let c = (counters p)\<lparr>sampleCount := sampleCount (counters p) + 1\<rparr> in
          (case st_sample th of
             None \<Rightarrow> Inr (p\<lparr>counters := c\<lparr>idleCount := idleCount c + 1\<rparr>\<rparr>)
           | Some (state, frames) \<Rightarrow>
             (case state of
                JS \<Rightarrow>
                  res_bind (sample_name (code_entries p) frames) (\<lambda>s.
                  res_bind (print_name s) (\<lambda>_.
                  res_bind (LogWrite (st_filename th) (p\<lparr>counters := c\<lparr>jsCount := jsCount c + 1\<rparr>\<rparr>)) (\<lambda>p1.
                  res_bind (LogWrite [0x3A] p1) (\<lambda>p2.
                  res_bind (LogWrite (case s of None \<Rightarrow> [] | Some n \<Rightarrow> n) p2) (LogWrite [0x0A])))))
              | GC \<Rightarrow> Inr (p\<lparr>counters := c\<lparr>gcCount := gcCount c + 1\<rparr>\<rparr>)
              | COMPILER \<Rightarrow> Inr (p\<lparr>counters := c\<lparr>compilerCount := compilerCount c + 1\<rparr>\<rparr>)
              | OTHER \<Rightarrow> Inr (p\<lparr>counters := c\<lparr>otherCount := otherCount c + 1\<rparr>\<rparr>)
              | EXTERNAL \<Rightarrow> Inr (p\<lparr>counters := c\<lparr>externalCount := externalCount c + 1\<rparr>\<rparr>)
              | IDLE \<Rightarrow> Inr (p\<lparr>counters := c\<lparr>v8idleCount := v8idleCount c + 1\<rparr>\<rparr>)))))"

section \<open>The table of code\<close>

text \<open>Entries are stored under their start, ascending, do not overlap and do not reach the end of memory.\<close>

definition entry_end :: "CodeEventEntry \<Rightarrow> nat" where
  "entry_end e = unat (code_start e) + unat (code_len e)"

fun entries_wf :: "CodeEntries \<Rightarrow> bool" where
  "entries_wf [] \<longleftrightarrow> True"
| "entries_wf ((k, e) # m) \<longleftrightarrow> code_start e = k \<and> entry_end e < 2 ^ 64 \<and>
     (\<forall>(k', e') \<in> set m. k < k' \<and> entry_end e \<le> unat k') \<and> entries_wf m"

definition entry_covers :: "CodeEventEntry \<Rightarrow> u64 \<Rightarrow> bool" where
  "entry_covers e a \<longleftrightarrow> unat (code_start e) \<le> unat a \<and> unat a < entry_end e"

lemma entries_wf_member:
  "entries_wf m \<Longrightarrow> (k, e) \<in> set m \<Longrightarrow> code_start e = k \<and> entry_end e < 2 ^ 64"
  by (induction m) auto

lemma entries_wf_append:
  "entries_wf (m1 @ m2) \<longleftrightarrow> entries_wf m1 \<and> entries_wf m2 \<and>
     (\<forall>(k, e) \<in> set m1. \<forall>(k', e') \<in> set m2. k < k' \<and> entry_end e \<le> unat k')"
  by (induction m1 rule: entries_wf.induct) auto

lemma takeWhile_entries:
  "entries_wf m \<Longrightarrow> takeWhile (\<lambda>(k, e). k \<le> a) m = filter (\<lambda>(k, e). k \<le> a) m"
proof (induction m rule: entries_wf.induct)
  case (2 k e m)
  show ?case
  proof (cases "k \<le> a")
    case False
    then have "\<forall>(k', e') \<in> set m. \<not> k' \<le> a" using "2.prems" by fastforce
    then have "filter (\<lambda>(k, e). k \<le> a) m = []" by (auto simp: filter_empty_conv)
    then show ?thesis using False by simp
  qed (use 2 in simp)
qed simp

lemma entry_covers_end: "entry_end e < 2 ^ 64 \<Longrightarrow> code_start e \<le> a \<Longrightarrow> a < code_start e + code_len e \<longleftrightarrow> entry_covers e a"
  by (auto simp: entry_covers_def entry_end_def word_less_nat_alt word_le_nat_alt unat_add_no_wrap)

lemma covering_is_last:
  assumes "entries_wf m" "(k, e) \<in> set m" "entry_covers e a"
  shows "\<exists>b. takeWhile (\<lambda>(k, e). k \<le> a) m = b @ [(k, e)]"
proof -
  have k: "code_start e = k" using entries_wf_member [OF assms(1,2)] by simp
  have "(k, e) \<in> set (takeWhile (\<lambda>(k, e). k \<le> a) m)"
    unfolding takeWhile_entries [OF assms(1)] using assms(2,3) k by (auto simp: entry_covers_def word_le_nat_alt)
  then obtain b c where bc: "takeWhile (\<lambda>(k, e). k \<le> a) m = b @ (k, e) # c" by (meson split_list)
  have "c = []"
  proof (rule ccontr)
    assume "c \<noteq> []"
    then obtain k' e' where c: "(k', e') \<in> set c" by (metis list.set_intros(1) neq_Nil_conv surj_pair)
    then have "k' \<le> a" using bc set_takeWhileD [of "(k', e')" "\<lambda>(k, e). k \<le> a" m] by auto
    moreover have "entries_wf (b @ (k, e) # c)"
      unfolding bc [symmetric]
      using assms(1) entries_wf_append [of "takeWhile (\<lambda>(k, e). k \<le> a) m" "dropWhile (\<lambda>(k, e). k \<le> a) m"]
      unfolding takeWhile_dropWhile_id by blast
    then have "entry_end e \<le> unat k'" using c by (auto simp: entries_wf_append)
    ultimately show False using assms(3) by (simp add: entry_covers_def word_le_nat_alt)
  qed
  with bc show ?thesis by blast
qed

text \<open>An address is looked up to the code that covers it, and to nothing if there is none.\<close>

theorem FindEventEntry_exact:
  assumes "entries_wf m" "a \<noteq> 0"
  shows "FindEventEntry m a = Inr (find (\<lambda>e. entry_covers e a) (map snd m))"
proof (cases "\<exists>(k, e) \<in> set m. entry_covers e a")
  case True
  then obtain k e where e: "(k, e) \<in> set m" "entry_covers e a" by auto
  have unique: "e' = e" if "(k', e') \<in> set m" "entry_covers e' a" for k' e'
    using covering_is_last [OF assms(1) e] covering_is_last [OF assms(1) that] by auto
  have "FindEventEntry m a = Inr (Some e)"
    using covering_is_last [OF assms(1) e] entries_wf_member [OF assms(1) e(1)] e assms(2)
    by (auto simp: FindEventEntry_def Let_def entry_covers_end entry_covers_def word_le_nat_alt)
  moreover obtain e' where "find (\<lambda>e. entry_covers e a) (map snd m) = Some e'"
    using e by (cases "find (\<lambda>e. entry_covers e a) (map snd m)") (auto simp: find_None_iff)
  moreover from this have "e' = e" using unique by (auto simp: find_Some_iff) (metis nth_mem prod.collapse)
  ultimately show ?thesis by simp
next
  case False
  then have none: "find (\<lambda>e. entry_covers e a) (map snd m) = None" by (auto simp: find_None_iff)
  show ?thesis
  proof (cases "takeWhile (\<lambda>(k, e). k \<le> a) m = []")
    case nonempty: False
    obtain k e where l: "last (takeWhile (\<lambda>(k, e). k \<le> a) m) = (k, e)" by (cases "last (takeWhile (\<lambda>(k, e). k \<le> a) m)")
    then have "(k, e) \<in> set m" "k \<le> a" using last_in_set [OF nonempty] set_takeWhileD by fastforce+
    then have "\<not> a < code_start e + code_len e" using entries_wf_member [OF assms(1)] entry_covers_end [of e a] False by auto
    then show ?thesis using l nonempty none assms(2) by (simp add: FindEventEntry_def Let_def)
  qed (use none assms(2) in \<open>simp add: FindEventEntry_def Let_def\<close>)
qed

text \<open>Adding code that overlaps nothing, and removing code, keeps the table in order.\<close>

lemma set_ce_insert: "set (ce_insert k e m) \<subseteq> insert (k, e) (set m)"
  by (induction k e m rule: ce_insert.induct) auto

lemma ce_insert_wf:
  assumes "entry_end e < 2 ^ 64" "0 < code_len e"
  shows "entries_wf m \<Longrightarrow> \<forall>(k, x) \<in> set m. entry_end e \<le> unat k \<or> entry_end x \<le> unat (code_start e) \<Longrightarrow>
    entries_wf (ce_insert (code_start e) e m)"
proof (induction m)
  case (Cons p m)
  obtain k' e' where p: "p = (k', e')" by (cases p)
  have pos: "unat (code_start e) < entry_end e" using assms(2) by (simp add: entry_end_def word_less_nat_alt)
  have "k' < code_start e \<and> entry_end e' \<le> unat (code_start e)" if "k' < code_start e"
    using that Cons.prems(2) p pos by (auto simp: word_less_nat_alt)
  moreover have "entry_end e \<le> unat k" if "(k, x) \<in> set ((k', e') # m)" "code_start e < k'" for k x
  proof -
    have "k' \<le> k" using that(1) Cons.prems(1) p by auto
    then have "unat (code_start e) < unat k" using that(2) by (simp add: word_less_nat_alt word_le_nat_alt)
    moreover have "unat k \<le> entry_end x" using that(1) p entries_wf_member [OF Cons.prems(1), of k x] by (auto simp: entry_end_def)
    ultimately show ?thesis using that(1) Cons.prems(2) p by force
  qed
  ultimately have before: "k' < code_start e \<Longrightarrow> entry_end e' \<le> unat (code_start e)"
    and after: "\<And>k x. (k, x) \<in> set ((k', e') # m) \<Longrightarrow> code_start e < k' \<Longrightarrow> entry_end e \<le> unat k" by blast+
  consider "code_start e < k'" | "code_start e = k'" | "k' < code_start e" by force
  then show ?case
  proof cases
    case 1
    have "code_start e < k" if "(k, x) \<in> set (p # m)" for k x using that 1 Cons.prems(1) p by fastforce
    then show ?thesis using 1 after Cons.prems(1) p assms(1) by auto
  next
    case 2
    then show ?thesis using Cons.prems(1) p by simp
  next
    case 3
    have "entries_wf (ce_insert (code_start e) e m)" using Cons p by simp
    moreover have "k' < k \<and> entry_end e' \<le> unat k" if "(k, x) \<in> set (ce_insert (code_start e) e m)" for k x
      using that set_ce_insert [of "code_start e" e m] Cons.prems(1) p 3 before by fastforce
    ultimately show ?thesis using 3 Cons.prems(1) p by auto
  qed
qed (use assms in simp)

lemma ce_erase_wf: "entries_wf m \<Longrightarrow> entries_wf (ce_erase k m)"
  by (induction m rule: entries_wf.induct) (auto simp: ce_erase_def)

section \<open>Counting\<close>

definition counted :: "ProfilerCounters \<Rightarrow> u64" where
  "counted c = idleCount c + jsCount c + gcCount c + compilerCount c + otherCount c + externalCount c + v8idleCount c"

lemma LogWrite_counters: "LogWrite s p = Inr p' \<Longrightarrow> counters p' = counters p \<and> enabled p' = enabled p"
  by (auto simp: LogWrite_def Let_def split: option.splits if_splits)

text \<open>Every sample is counted in the total and in exactly one of the states.\<close>

theorem MakeSample_counts:
  assumes "MakeSample init th p = Inr p'" "sampleCount (counters p) = counted (counters p)"
  shows "sampleCount (counters p') = counted (counters p')"
    and "sampleCount (counters p') = sampleCount (counters p) + of_bool (enabled p)"
proof -
  have *: "sampleCount (counters p') = counted (counters p') \<and>
      sampleCount (counters p') = sampleCount (counters p) + of_bool (enabled p)"
  proof (cases "\<exists>t frames. th = Some t \<and> st_sample t = Some (JS, frames) \<and> enabled p")
    case True
    then show ?thesis using assms
      by (auto simp: MakeSample_def res_iffs Let_def dest!: LogWrite_counters) (simp_all add: counted_def algebra_simps)
  next
    case False
    then show ?thesis using assms
      by (auto simp: MakeSample_def res_iffs Let_def counted_def algebra_simps split: option.splits StateTag.splits if_splits)
  qed
  from * show "sampleCount (counters p') = counted (counters p')"
    "sampleCount (counters p') = sampleCount (counters p) + of_bool (enabled p)" by blast+
qed

section \<open>Failures\<close>

text \<open>The name of code that has moved is read at its new address: it is the code itself.\<close>

theorem moved_name_is_code:
  assumes "OnJitCodeEvent mem ev m = Inr m'" "ev_type ev = CODE_MOVED" "ev_union0 ev \<notin> fst ` set m"
  shows "\<exists>e. (ev_union0 ev, e) \<in> set m' \<and>
    ce_name e = map (\<lambda>i. mem (code_start e + of_nat i)) [0..<unat (ev_union1 ev)]"
proof -
  have ins: "(k, e) \<in> set (ce_insert k e m)" if "k \<notin> fst ` set m" for k e m
    using that by (induction m rule: ce_insert.induct) auto
  have "ev_union0 ev \<notin> fst ` set (ce_erase (ev_code_start ev) m)" using assms(3) by (auto simp: ce_erase_def)
  from ins [OF this, of "event_entry mem ev (ev_union0 ev)"] show ?thesis
    using assms(1,2) by (auto simp: OnJitCodeEvent_def res_iffs event_entry_def)
qed

text \<open>Code that is not in the table cannot be sampled.\<close>

theorem unknown_code_fails:
  assumes "enabled p" "st_sample th = Some (JS, f # fs)" "f \<noteq> 0" "entries_wf (code_entries p)"
    and "\<forall>(k, e) \<in> set (code_entries p). \<not> entry_covers e f"
  shows "MakeSample True (Some th) p = Inl (OutOfBounds ''printf of a null pointer'')"
proof -
  have "find (\<lambda>e. entry_covers e f) (map snd (code_entries p)) = None" using assms(5) by (auto simp: find_None_iff)
  then have "FindEventEntry (code_entries p) f = Inr None" using FindEventEntry_exact [OF assms(4,3)] by simp
  then show ?thesis using assms(1,2) by (simp add: MakeSample_def Let_def sample_name_def print_name_def)
qed

text \<open>The log is never emptied: writing stops the machine or leaves the 2 MiB.\<close>

theorem log_full:
  "prof_log p = Some l \<Longrightarrow> length l = kLogSize \<Longrightarrow> c \<noteq> 0 \<Longrightarrow> LogWrite (c # s) p = Inl (OutOfBounds ''log_position_'')"
  by (simp add: LogWrite_def)

end
