(* ===== verification/InflateSafe.thy ===== *)
theory InflateSafe
  imports Zlib
begin

text \<open>
  The decompressor on arbitrary input. Theory \<open>Zlib\<close> shows that valid streams are unpacked; here the
  input is any list of bytes, as of a corrupt or malicious ramdisk. The lemmas show that the loops end within their fuel and
  that no index leaves its array, with one exception that the source has: the reserved length symbols.

  The proofs follow the program with two notions. \<open>guarded E P r\<close> says of a result that it satisfies \<open>P\<close>, or is
  one of the decompressor's own exits, or is a fault from \<open>E\<close>. \<open>moved st n st'\<close> says that the bit buffer and the output are in order
  in \<open>st'\<close> and that at least \<open>n\<close> bits were consumed. Input that is used up reads as zeros, so
  what remains is measured by \<open>significant\<close>: the number of bits up to the last that is set.
\<close>

section \<open>Results\<close>

definition guarded :: "string set \<Rightarrow> ('a \<Rightarrow> bool) \<Rightarrow> 'a inf \<Rightarrow> bool" where
  "guarded E P r \<longleftrightarrow> (case r of Inr x \<Rightarrow> P x | Inl (Exit _) \<Rightarrow> True | Inl (Fault e) \<Rightarrow> e \<in> E)"

lemma guarded_simps [simp]:
  "guarded E P (Inr x) = P x" "guarded E P (Inl (Exit s))" "guarded E P (Inl (Fault e)) = (e \<in> E)"
  by (simp_all add: guarded_def)

lemma guarded_bind:
  "guarded E P m \<Longrightarrow> (\<And>x. P x \<Longrightarrow> guarded E Q (f x)) \<Longrightarrow> guarded E Q (inf_bind m f)"
proof (cases m)
  case (Inl e)
  assume "guarded E P m"
  then show ?thesis using Inl by (cases e) simp_all
qed simp

lemma guarded_mono:
  "guarded E P m \<Longrightarrow> E \<subseteq> E' \<Longrightarrow> (\<And>x. P x \<Longrightarrow> Q x) \<Longrightarrow> guarded E' Q m"
  by (auto simp: guarded_def split: sum.splits tinfl_exit.splits)

lemma guarded_Inr: "(\<exists>x. m = Inr x \<and> P x) \<Longrightarrow> guarded E P m"
  by auto

section \<open>What is left of the input\<close>

primrec significant_bits :: "bool list \<Rightarrow> nat" where
  "significant_bits [] = 0"
| "significant_bits (b # bs) = (if significant_bits bs = 0 then of_bool b else Suc (significant_bits bs))"

lemma significant_drop: "significant_bits (drop n bs) = significant_bits bs - n"
proof (induction bs arbitrary: n)
  case (Cons b bs)
  then show ?case by (cases n) auto
qed simp

lemma significant_zeros: "significant_bits (bs @ replicate n False) = significant_bits bs"
proof (induction bs)
  case Nil
  show ?case by (induction n) simp_all
qed simp

lemma significant_length: "significant_bits bs \<le> length bs"
  by (induction bs) auto

lemma significant_zero: "significant_bits bs = 0 \<Longrightarrow> b \<in> set bs \<Longrightarrow> \<not> b"
  by (induction bs) (auto split: if_splits)

definition significant :: "inflater \<Rightarrow> nat" where
  "significant st = significant_bits (bits_left st)"

definition moved :: "inflater \<Rightarrow> nat \<Rightarrow> inflater \<Rightarrow> bool" where
  "moved st n st' \<longleftrightarrow> buffered st' \<and> significant st' \<le> significant st - n \<and> length (out_buf st') = length (out_buf st) \<and>
     out_cur st \<le> out_cur st' \<and> out_cur st' \<le> length (out_buf st')"

definition in_order :: "inflater \<Rightarrow> bool" where
  "in_order st \<longleftrightarrow> buffered st \<and> out_cur st \<le> length (out_buf st)"

lemma moved_refl: "in_order st \<Longrightarrow> moved st 0 st"
  by (simp add: moved_def in_order_def)

lemma moved_in_order: "moved st n st' \<Longrightarrow> in_order st'"
  by (simp add: moved_def in_order_def)

lemma moved_trans: "moved st n s \<Longrightarrow> moved s m st' \<Longrightarrow> moved st (n + m) st'"
  by (auto simp: moved_def)

lemma moved_weaken: "moved st n st' \<Longrightarrow> m \<le> n \<Longrightarrow> moved st m st'"
  by (auto simp: moved_def)

subsection \<open>Bits\<close>

lemma bits_left_load:
  assumes "buffered st" "num_bits st \<le> 53"
  shows "bits_left (load_byte st) = bits_left st @ (if in_rest st = [] then replicate 8 False else [])"
proof (rule nth_equalityI)
  show "length (bits_left (load_byte st)) = length (bits_left st @ (if in_rest st = [] then replicate 8 False else []))"
    by (cases "in_rest st") (simp_all add: bits_left_def)
  fix i assume i: "i < length (bits_left (load_byte st))"
  from load_byte_stream [OF assms] obtain zs where zs: "bits_left (load_byte st) = bits_left st @ zs" by (auto simp: prefix_def)
  show "bits_left (load_byte st) ! i = (bits_left st @ (if in_rest st = [] then replicate 8 False else [])) ! i"
  proof (cases "in_rest st")
    case Nil
    have "\<not> bits_left (load_byte st) ! i" if "num_bits st \<le> i"
      using that i Nil assms load_byte_bits [of st i] by (auto simp: bits_left_def buffered_def get_byte_def nth_append)
    then show ?thesis using i zs Nil by (auto simp: nth_append bits_left_def)
  next
    case (Cons c cs)
    then have "length zs = 0" using arg_cong [OF zs, of length] by (simp add: bits_left_def)
    then show ?thesis using zs Cons by simp
  qed
qed

lemma load_byte_moved:
  assumes "in_order st" "num_bits st \<le> 53"
  shows "moved st 0 (load_byte st)"
  using assms load_byte_buffered [of st] bits_left_load [of st]
  by (auto simp: moved_def in_order_def significant_def significant_zeros)

lemma load_bytes_moved:
  "in_order st \<Longrightarrow> num_bits st + 8 * n \<le> 61 \<Longrightarrow> moved st 0 (load_bytes n st) \<and> num_bits (load_bytes n st) = num_bits st + 8 * n"
proof (induction n)
  case (Suc n)
  then have IH: "moved st 0 (load_bytes n st)" "num_bits (load_bytes n st) = num_bits st + 8 * n" by auto
  moreover have "moved (load_bytes n st) 0 (load_byte (load_bytes n st))"
    using load_byte_moved [OF moved_in_order [OF IH(1)]] IH(2) Suc.prems(2) by simp
  ultimately show ?case using moved_trans [of st 0 "load_bytes n st" 0] by (simp add: load_bytes_def)
qed (simp add: load_bytes_def moved_refl)

lemma load_bytes_out: "out_cur (load_bytes n st) = out_cur st"
  by (induction n) (simp_all add: load_bytes_def)

lemma need_bits_moved:
  "in_order st \<Longrightarrow> num_bits st < n \<Longrightarrow> n \<le> 16 \<Longrightarrow> moved st 0 (need_bits n st) \<and> n \<le> num_bits (need_bits n st)"
proof (induction n st rule: need_bits.induct)
  case (1 n st)
  have m: "moved st 0 (load_byte st)" using 1 by (intro load_byte_moved) simp_all
  show ?case
  proof (cases "num_bits (load_byte st) < n")
    case True
    with 1(1) [OF refl True moved_in_order [OF m]] 1(4) moved_trans [OF m] show ?thesis
      by (subst (1 2) need_bits.simps) (auto simp: Let_def)
  next
    case False
    with m show ?thesis by (subst (1 2) need_bits.simps) (auto simp: Let_def)
  qed
qed

lemma bits_left_drop:
  assumes "buffered st" "n \<le> num_bits st"
  shows "bits_left (drop_bits n st) = drop n (bits_left st)" "buffered (drop_bits n st)" "num_bits (drop_bits n st) = num_bits st - n"
proof -
  show nb: "num_bits (drop_bits n st) = num_bits st - n"
    using assms by (simp add: drop_bits_def sub32_le buffered_def)
  have "map (bit (bit_buf (drop_bits n st))) [0..<num_bits st - n] = drop n (map (bit (bit_buf st)) [0..<num_bits st])"
    by (rule nth_equalityI) (simp_all add: drop_bits_def bit_drop_bit_eq add.commute)
  with assms(2) show "bits_left (drop_bits n st) = drop n (bits_left st)" unfolding bits_left_def nb by (simp add: drop_bits_def)
  show "buffered (drop_bits n st)"
    using assms unfolding buffered_def nb by (auto simp: drop_bits_def bit_drop_bit_eq)
qed

lemma drop_bits_moved: "in_order st \<Longrightarrow> n \<le> num_bits st \<Longrightarrow> moved st n (drop_bits n st)"
  using bits_left_drop [of st n] by (auto simp: moved_def in_order_def significant_def significant_drop drop_bits_def)

text \<open>A request for bits consumes them; once only zeros are left it returns 0.\<close>

lemma get_bits_moved:
  assumes "in_order st" "n \<le> 16"
  shows "\<exists>v st'. get_bits n st = (v, st') \<and> moved st n st' \<and> v < 2 ^ n \<and> (significant st = 0 \<longrightarrow> v = 0)"
proof -
  define s where "s = (if num_bits st < n then need_bits n st else st)"
  have s: "moved st 0 s" "n \<le> num_bits s"
    using assms need_bits_moved [of st n] moved_refl by (auto simp: s_def)
  have mask: "bit_buf s AND (push_bit n 1 - 1) = take_bit n (bit_buf s)"
    by (simp add: take_bit_eq_mask mask_eq_exp_minus_1 push_bit_eq_mult)
  have "take_bit n (bit_buf s) = 0" if "significant st = 0"
  proof (rule bit_word_eqI)
    fix i
    have "significant_bits (bits_left s) = 0" using s(1) that by (simp add: moved_def significant_def)
    then have "\<not> bits_left s ! i" if "i < n"
      using significant_zero [of "bits_left s" "bits_left s ! i"] that s(2) nth_mem [of i "bits_left s"] by (auto simp: bits_left_def)
    then show "bit (take_bit n (bit_buf s)) i = bit 0 i" using s(2) by (auto simp: bit_take_bit_iff bit_stream)
  qed
  moreover have "unat (take_bit n (bit_buf s)) < 2 ^ n" by (simp add: unsigned_take_bit_eq)
  moreover have "moved st n (drop_bits n s)"
    using moved_trans [OF s(1) drop_bits_moved [OF moved_in_order [OF s(1)] s(2)]] by simp
  moreover have "get_bits n st = (unat (take_bit n (bit_buf s)), drop_bits n s)"
    unfolding get_bits_def s_def [symmetric] Let_def mask by (rule refl)
  ultimately show ?thesis by auto
qed

lemma skip_bits_moved:
  assumes "in_order st" "n \<le> 16"
  shows "moved st n (skip_bits n st)"
proof -
  define s where "s = (if num_bits st < n then need_bits n st else st)"
  have s: "moved st 0 s" "n \<le> num_bits s"
    using assms need_bits_moved [of st n] moved_refl by (auto simp: s_def)
  then show ?thesis
    using moved_trans [OF s(1) drop_bits_moved [OF moved_in_order [OF s(1)] s(2)]] by (simp add: skip_bits_def s_def)
qed

section \<open>Tables\<close>

text \<open>From every node the walk goes on to a node, a symbol, or an empty entry, which reads as symbol 0.\<close>

lemma node_step:
  assumes wf: "table_wf sizes {t. coded sizes t} P \<nu> look t tn" and "P \<subseteq> inner_nodes sizes" "sizes_ok sizes" "p \<in> P"
  shows "\<exists>i. tree_index (node_ref (\<nu> p) - of_bool b) = Inr i \<and>
    ((p @ [b] \<in> P \<and> t i = node_ref (\<nu> (p @ [b]))) \<or> (\<exists>s. t i = int s \<and> (s < length sizes \<or> s = 0)))"
proof -
  have nwf: "nodes_wf P \<nu> tn" and twf: "tree_wf sizes {t. coded sizes t} P \<nu> t" using wf by (auto simp: table_wf_def)
  have card: "card P \<le> 288" using card_mono [OF finite_inner_nodes [OF assms(3)] assms(2)] card_inner_nodes [OF assms(3)] by simp
  have idx: "tree_index (node_ref (\<nu> p) - of_bool b) = Inr (2 * \<nu> p + of_bool b)"
    using node_number_less [OF nwf assms(4)] card by (intro tree_index_node) (simp add: tree_size_def)
  have entry: "(p @ [b] \<in> P \<longrightarrow> t (2 * \<nu> p + of_bool b) = node_ref (\<nu> (p @ [b]))) \<and>
     (p @ [b] \<notin> P \<longrightarrow> (\<forall>s \<in> {t. coded sizes t}. code_bits sizes s = p @ [b] \<longrightarrow> t (2 * \<nu> p + of_bool b) = int s) \<and>
        ((\<forall>s \<in> {t. coded sizes t}. code_bits sizes s \<noteq> p @ [b]) \<longrightarrow> t (2 * \<nu> p + of_bool b) = 0))"
    using twf assms(4) unfolding tree_wf_def by blast
  consider "p @ [b] \<in> P" | s where "p @ [b] \<notin> P" "coded sizes s" "code_bits sizes s = p @ [b]"
    | "p @ [b] \<notin> P" "\<forall>s \<in> {t. coded sizes t}. code_bits sizes s \<noteq> p @ [b]" by blast
  then show ?thesis
  proof cases
    case 1
    then show ?thesis using entry idx by blast
  next
    case 2
    then have "t (2 * \<nu> p + of_bool b) = int s" using entry by blast
    moreover have "s < length sizes" using 2(2) by (simp add: coded_def)
    ultimately show ?thesis using idx by blast
  next
    case 3
    then have "t (2 * \<nu> p + of_bool b) = int 0" using entry by simp
    then show ?thesis using idx by blast
  qed
qed

lemma node_depth:
  assumes "P \<subseteq> inner_nodes sizes" "sizes_ok sizes" "p \<in> P"
  shows "10 \<le> length p \<and> length p \<le> 14"
  using assms(1,3) inner_nodes_short [OF assms(2)] by auto

lemma tree_walk_safe:
  assumes wf: "table_wf sizes {t. coded sizes t} P \<nu> look t tn" and P: "P \<subseteq> inner_nodes sizes" "sizes_ok sizes"
  shows "p \<in> P \<Longrightarrow> \<exists>sym len. tree_walk t (node_ref (\<nu> p)) w (length p) = Inr (sym, len) \<and> (sym < length sizes \<or> sym = 0) \<and> len \<le> 15"
proof (induction "15 - length p" arbitrary: p)
  case 0
  then show ?case using node_depth [OF P 0(2)] by simp
next
  case (Suc n)
  note d = node_depth [OF P Suc(3)]
  from node_step [OF wf P Suc(3), of "bit w (length p)"] obtain i
    where i: "tree_index (node_ref (\<nu> p) - of_bool (bit w (length p))) = Inr i"
      and nxt: "(p @ [bit w (length p)] \<in> P \<and> t i = node_ref (\<nu> (p @ [bit w (length p)]))) \<or> (\<exists>s. t i = int s \<and> (s < length sizes \<or> s = 0))"
    by blast
  from nxt show ?case
  proof
    assume q: "p @ [bit w (length p)] \<in> P \<and> t i = node_ref (\<nu> (p @ [bit w (length p)]))"
    with Suc(1) [of "p @ [bit w (length p)]"] Suc(2) d i show ?thesis by (subst tree_walk.simps) auto
  next
    assume "\<exists>s. t i = int s \<and> (s < length sizes \<or> s = 0)"
    with d i show ?thesis by (subst tree_walk.simps) auto
  qed
qed

text \<open>\<open>fill_walk\<close> ends at a symbol only where the full walk does, with no more bits than there are.\<close>

lemma fill_walk_safe:
  assumes wf: "table_wf sizes {t. coded sizes t} P \<nu> look t tn" and P: "P \<subseteq> inner_nodes sizes" "sizes_ok sizes"
  shows "p \<in> P \<Longrightarrow> length p < nb \<Longrightarrow> \<exists>temp. fill_walk t (node_ref (\<nu> p)) w (length p) nb = Inr temp \<and>
    (0 \<le> temp \<longrightarrow> (\<exists>sym len. tree_walk t (node_ref (\<nu> p)) w (length p) = Inr (sym, len) \<and> len \<le> nb))"
proof (induction "15 - length p" arbitrary: p)
  case 0
  then show ?case using node_depth [OF P 0(2)] by simp
next
  case (Suc n)
  note d = node_depth [OF P Suc(3)]
  let ?q = "p @ [bit w (length p)]"
  from node_step [OF wf P Suc(3), of "bit w (length p)"] obtain i
    where i: "tree_index (node_ref (\<nu> p) - of_bool (bit w (length p))) = Inr i"
      and nxt: "(?q \<in> P \<and> t i = node_ref (\<nu> ?q)) \<or> (\<exists>s. t i = int s \<and> (s < length sizes \<or> s = 0))"
    by blast
  from nxt show ?case
  proof
    assume q: "?q \<in> P \<and> t i = node_ref (\<nu> ?q)"
    show ?thesis
    proof (cases "length p + 2 \<le> nb")
      case True
      have "n = 15 - length ?q" using Suc(2) by simp
      from Suc(1) [OF this] True q obtain temp where "fill_walk t (node_ref (\<nu> ?q)) w (Suc (length p)) nb = Inr temp"
        "0 \<le> temp \<longrightarrow> (\<exists>sym len. tree_walk t (node_ref (\<nu> ?q)) w (Suc (length p)) = Inr (sym, len) \<and> len \<le> nb)" by auto
      with q i d True show ?thesis by (subst fill_walk.simps, subst tree_walk.simps) auto
    next
      case False
      with q i show ?thesis by (subst fill_walk.simps) auto
    qed
  next
    assume "\<exists>s. t i = int s \<and> (s < length sizes \<or> s = 0)"
    with d i Suc(4) show ?thesis by (subst fill_walk.simps, subst tree_walk.simps) auto
  qed
qed

definition symbol_of :: "nat list \<Rightarrow> nat \<Rightarrow> bool" where
  "symbol_of sizes k \<longleftrightarrow> k < length sizes \<or> k = 0"

lemma look_entry:
  fixes w :: u64
  assumes "decodes sizes tbl" "sizes_ok sizes"
  obtains (sym) s len where "look_up tbl (unat (w AND 1023)) = int (len * 512 + s)" "symbol_of sizes s" "s < 512" "len \<le> 10"
  | (node) P \<nu> tn p where "table_wf sizes {t. coded sizes t} P \<nu> (look_up tbl) (tree tbl) tn" "P \<subseteq> inner_nodes sizes" "p \<in> P"
      "length p = 10" "look_up tbl (unat (w AND 1023)) = node_ref (\<nu> p)"
proof -
  obtain P \<nu> tn where wf: "table_wf sizes {t. coded sizes t} P \<nu> (look_up tbl) (tree tbl) tn" "P \<subseteq> inner_nodes sizes"
    using assms(1) by (auto simp: decodes_def)
  define p where "p = map (bit w) [0..<10]"
  have p: "length p = 10" "unat (w AND 1023) = bits_num p" by (simp_all add: p_def look_index)
  have lwf: "look_wf sizes {t. coded sizes t} P \<nu> (look_up tbl)" using wf(1) by (auto simp: table_wf_def)
  consider "p \<in> P" | t where "p \<notin> P" "coded sizes t" "prefix (code_bits sizes t) p" | "p \<notin> P" "\<forall>t \<in> {t. coded sizes t}. \<not> prefix (code_bits sizes t) p"
    by blast
  then show ?thesis
  proof cases
    case 1
    then show ?thesis using node [OF wf 1 p(1)] lwf p unfolding look_wf_def by simp
  next
    case 2
    then have "look_up tbl (bits_num p) = int (sizes ! t * 512 + t)" using lwf p(1) unfolding look_wf_def by blast
    moreover have "sizes ! t \<le> 10" using prefix_length_le [OF 2(3)] p(1) by (simp add: code_bits_def)
    moreover have "t < length sizes" "t < 512" using 2(2) assms(2) by (auto simp: coded_def sizes_ok_def)
    ultimately show ?thesis using sym [of "sizes ! t" t] p(2) by (simp add: symbol_of_def)
  next
    case 3
    then have "look_up tbl (bits_num p) = int (0 * 512 + 0)" using lwf p(1) unfolding look_wf_def by simp
    then show ?thesis using sym [of 0 0] p(2) by (simp add: symbol_of_def)
  qed
qed

text \<open>A look-up in a table that was built never leaves the arrays, whatever the bits.\<close>

theorem huff_look_safe:
  assumes "decodes sizes tbl" "sizes_ok sizes"
  shows "\<exists>sym len. huff_look tbl w = Inr (sym, len) \<and> symbol_of sizes sym \<and> len \<le> 15"
  using assms
proof (cases rule: look_entry [where w = w])
  case (sym s len)
  then show ?thesis by (simp add: huff_look_def Let_def nat_add_distrib nat_mult_distrib)
next
  case (node P \<nu> tn p)
  from tree_walk_safe [OF node(1,2) assms(2) node(3), of w] node show ?thesis by (auto simp: huff_look_def Let_def symbol_of_def)
qed

text \<open>What is in the buffer is enough for the symbol it starts with.\<close>

definition complete_for :: "tinfl_huff_table \<Rightarrow> inflater \<Rightarrow> bool" where
  "complete_for tbl st \<longleftrightarrow> (\<forall>sym len. huff_look tbl (bit_buf st) = Inr (sym, len) \<longrightarrow> len \<le> num_bits st)"

lemma complete_for_15:
  assumes "decodes sizes tbl" "sizes_ok sizes" "15 \<le> num_bits st"
  shows "complete_for tbl st"
  using huff_look_safe [OF assms(1,2), of "bit_buf st"] assms(3) by (auto simp: complete_for_def)

lemma huff_fill_moved:
  assumes d: "decodes sizes tbl" "sizes_ok sizes"
  shows "in_order st \<Longrightarrow> num_bits st < 15 \<Longrightarrow> \<exists>s. huff_fill tbl st = Inr s \<and> moved st 0 s \<and> complete_for tbl s"
proof (induction "15 - num_bits st" arbitrary: st rule: less_induct)
  case less
  let ?temp = "look_up tbl (unat (bit_buf st AND 1023))"
  define cont where "cont = (let s = load_byte st in if num_bits s < 15 then huff_fill tbl s else Inr s)"
  have m: "moved st 0 (load_byte st)" using less.prems by (intro load_byte_moved) simp_all
  have cont: "\<exists>s. cont = Inr s \<and> moved st 0 s \<and> complete_for tbl s"
  proof (cases "num_bits (load_byte st) < 15")
    case True
    have "15 - num_bits (load_byte st) < 15 - num_bits st" using less.prems(2) by simp
    from less.hyps [OF this moved_in_order [OF m] True]
    obtain s where "huff_fill tbl (load_byte st) = Inr s" "moved (load_byte st) 0 s" "complete_for tbl s" by blast
    then show ?thesis using True moved_trans [OF m] by (fastforce simp: cont_def)
  next
    case False
    then show ?thesis using m complete_for_15 [OF d, of "load_byte st"] by (simp add: cont_def Let_def)
  qed
  have unfold: "huff_fill tbl st = (if ?temp \<ge> 0 then
        if nat ?temp div 512 > 0 \<and> num_bits st \<ge> nat ?temp div 512 then Inr st else cont
      else if num_bits st > 10 then
        inf_bind (fill_walk (tree tbl) ?temp (bit_buf st) 10 (num_bits st)) (\<lambda>temp'. if temp' \<ge> 0 then Inr st else cont)
      else cont)"
    unfolding huff_fill.simps [of tbl st] cont_def Let_def by (rule refl)
  from d show ?case
  proof (cases rule: look_entry [where w = "bit_buf st"])
    case (sym s len)
    then have "complete_for tbl st" if "nat ?temp div 512 \<le> num_bits st"
      using that by (auto simp: complete_for_def huff_look_def Let_def)
    then show ?thesis using cont moved_refl [OF less.prems(1)] sym(1) unfolding unfold by auto
  next
    case (node P \<nu> tn p)
    show ?thesis
    proof (cases "num_bits st > 10")
      case True
      then obtain temp where f: "fill_walk (tree tbl) ?temp (bit_buf st) 10 (num_bits st) = Inr temp"
        and t: "0 \<le> temp \<Longrightarrow> \<exists>sym len. tree_walk (tree tbl) ?temp (bit_buf st) 10 = Inr (sym, len) \<and> len \<le> num_bits st"
        using fill_walk_safe [OF node(1,2) d(2) node(3), of "num_bits st" "bit_buf st"] node(4,5) by auto
      have "complete_for tbl st" if "0 \<le> temp"
        using t [OF that] node(5) by (auto simp: complete_for_def huff_look_def Let_def)
      then show ?thesis using cont moved_refl [OF less.prems(1)] f node(5) True unfolding unfold by auto
    next
      case False
      then show ?thesis using cont node(5) unfolding unfold by simp
    qed
  qed
qed

lemma huff_decode_moved:
  assumes "decodes sizes tbl" "sizes_ok sizes" "in_order st"
  shows "\<exists>sym s. huff_decode tbl st = Inr (sym, s) \<and> symbol_of sizes sym \<and> moved st 0 s"
proof -
  let ?r = "if num_bits st < 15 then if length (in_rest st) < 2 then huff_fill tbl st else Inr (load_bytes 2 st) else Inr st"
  obtain s where s: "?r = Inr s" "moved st 0 s" "complete_for tbl s"
  proof (cases "num_bits st < 15 \<and> \<not> length (in_rest st) < 2")
    case True
    with load_bytes_moved [OF assms(3), of 2] complete_for_15 [OF assms(1,2), of "load_bytes 2 st"] show ?thesis
      by (intro that [of "load_bytes 2 st"]) auto
  next
    case False
    with huff_fill_moved [OF assms] complete_for_15 [OF assms(1,2), of st] moved_refl [OF assms(3)] that show ?thesis
      by (cases "num_bits st < 15") auto
  qed
  obtain k len where k: "huff_look tbl (bit_buf s) = Inr (k, len)" "symbol_of sizes k" "len \<le> num_bits s"
    using huff_look_safe [OF assms(1,2), of "bit_buf s"] s(3) by (auto simp: complete_for_def)
  have "moved st 0 (drop_bits len s)"
    using moved_trans [OF s(2) drop_bits_moved [OF moved_in_order [OF s(2)] k(3)]] by (rule moved_weaken) simp
  then show ?thesis using s(1) k by (simp add: huff_decode_def)
qed

section \<open>Output\<close>

definition overruns :: "string set" where
  "overruns = {''pOut_buf_cur[0] = pSrc[0]''}"

text \<open>The output is in order and has grown by at least \<open>k\<close> bytes; no bits were given back.\<close>

definition wrote :: "inflater \<Rightarrow> nat \<Rightarrow> inflater \<Rightarrow> bool" where
  "wrote st k st' \<longleftrightarrow> moved st 0 st' \<and> out_cur st + k \<le> out_cur st'"

lemma wrote_trans: "wrote st k s \<Longrightarrow> wrote s l st' \<Longrightarrow> wrote st (k + l) st'"
  using moved_trans [of st 0 s 0 st'] by (auto simp: wrote_def)

lemma wrote_after: "wrote st k s \<Longrightarrow> wrote s l st' \<Longrightarrow> j \<le> k + l \<Longrightarrow> wrote st j st'"
  using wrote_trans [of st k s l st'] by (auto simp: wrote_def)

lemma wrote_moved: "wrote st k st' \<Longrightarrow> moved st 0 st'"
  by (simp add: wrote_def)

lemma moved_wrote: "moved st n st' \<Longrightarrow> wrote st 0 st'"
  by (auto simp: wrote_def moved_def)

lemma wrote_in_order: "wrote st k st' \<Longrightarrow> in_order st'"
  by (auto simp: wrote_def intro: moved_in_order)

lemma put_byte_wrote:
  assumes "in_order st" "out_cur st < length (out_buf st)"
  shows "\<exists>s. put_byte c st = Inr s \<and> wrote st 1 s \<and> out_cur s = Suc (out_cur st)"
  using assms by (auto simp: put_byte_def wrote_def moved_def in_order_def significant_def bits_left_def buffered_def)

lemma copy_byte_guarded:
  assumes "in_order st" "overruns \<subseteq> E \<or> src \<le> out_cur st \<and> out_cur st < length (out_buf st)"
  shows "guarded E (\<lambda>s. wrote st 1 s \<and> out_cur s = Suc (out_cur st)) (copy_byte src st)"
proof (cases "src < length (out_buf st) \<and> out_cur st < length (out_buf st)")
  case True
  then show ?thesis using put_byte_wrote [OF assms(1), of "out_buf st ! src"] by (auto simp: copy_byte_def)
qed (use assms in \<open>auto simp: copy_byte_def overruns_def\<close>)

lemma copy_slow_guarded:
  "in_order st \<Longrightarrow> dist \<le> out_cur st \<Longrightarrow> guarded {} (\<lambda>s. wrote st counter s) (copy_slow counter dist st)"
proof (induction counter arbitrary: st)
  case 0
  then show ?case using moved_wrote [OF moved_refl] by simp
next
  case (Suc counter)
  show ?case
  proof (cases "out_cur st \<ge> length (out_buf st)")
    case False
    have "guarded {} (\<lambda>s. wrote st 1 s \<and> out_cur s = Suc (out_cur st)) (copy_byte (out_cur st - dist) st)"
      using copy_byte_guarded [OF Suc.prems(1)] False by simp
    then have "guarded {} (\<lambda>s. wrote st (Suc counter) s) (inf_bind (copy_byte (out_cur st - dist) st) (copy_slow counter dist))"
    proof (rule guarded_bind)
      fix s assume s: "wrote st 1 s \<and> out_cur s = Suc (out_cur st)"
      then have "guarded {} (\<lambda>x. wrote s counter x) (copy_slow counter dist s)"
        using Suc.prems(2) wrote_in_order by (intro Suc.IH) auto
      then show "guarded {} (\<lambda>x. wrote st (Suc counter) x) (copy_slow counter dist s)"
        by (rule guarded_mono) (use s wrote_trans [of st 1 s counter] in auto)
    qed
    then show ?thesis using False by simp
  qed simp
qed

lemma inf_bind_assoc: "inf_bind (inf_bind m f) g = inf_bind m (\<lambda>x. inf_bind (f x) g)"
  by (cases m) simp_all

definition grown :: "inflater \<Rightarrow> nat \<Rightarrow> inflater \<Rightarrow> bool" where
  "grown st n s \<longleftrightarrow> wrote st n s \<and> out_cur s = out_cur st + n"

lemma grown_start: "in_order st \<Longrightarrow> grown st 0 st"
  using moved_wrote [OF moved_refl] by (simp add: grown_def)

lemma copy_next:
  assumes "guarded E (grown st n) m" "overruns \<subseteq> E \<or> src \<le> out_cur st + n \<and> out_cur st + n < length (out_buf st)"
  shows "guarded E (grown st (Suc n)) (inf_bind m (copy_byte src))"
proof (rule guarded_bind [OF assms(1)])
  fix s assume s: "grown st n s"
  then have "length (out_buf s) = length (out_buf st)" by (simp add: grown_def wrote_def moved_def)
  then have "guarded E (\<lambda>x. wrote s 1 x \<and> out_cur x = Suc (out_cur s)) (copy_byte src s)"
    using s assms(2) wrote_in_order [of st n s] by (intro copy_byte_guarded) (auto simp: grown_def)
  then show "guarded E (grown st (Suc n)) (copy_byte src s)"
    by (rule guarded_mono) (use s wrote_trans [of st n s 1] in \<open>auto simp: grown_def\<close>)
qed

text \<open>The fast copy stays in the buffer if it copies at least three bytes and they fit.\<close>

lemma copy3_guarded:
  "in_order st \<Longrightarrow> overruns \<subseteq> E \<or> 3 \<le> counter \<and> src \<le> out_cur st \<and> out_cur st + nat counter \<le> length (out_buf st) \<Longrightarrow>
   guarded E (\<lambda>s. wrote st 3 s) (copy3 counter src st)"
proof (induction "nat counter" arbitrary: counter src st rule: less_induct)
  case less
  let ?m = "inf_bind (inf_bind (inf_bind (Inr st) (copy_byte src)) (copy_byte (src + 1))) (copy_byte (src + 2))"
  have fits: "overruns \<subseteq> E \<or> src \<le> out_cur st \<and> out_cur st + 3 \<le> length (out_buf st)" using less.prems(2) by auto
  have "guarded E (grown st (Suc (Suc (Suc 0)))) ?m"
    by (intro copy_next) (use fits less.prems(1) in \<open>auto simp: grown_start\<close>)
  then have m: "guarded E (grown st 3) ?m" by (simp add: numeral_3_eq_3)
  have "copy3 counter src st = inf_bind ?m (\<lambda>s3.
       if counter - 3 > 2 then copy3 (counter - 3) (src + 3) s3
       else if counter - 3 > 0 then
         inf_bind (copy_byte (src + 3) s3) (\<lambda>s4. if counter - 3 > 1 then copy_byte (src + 4) s4 else Inr s4)
       else Inr s3)"
    by (subst copy3.simps) (simp add: inf_bind_assoc)
  also have "guarded E (\<lambda>s. wrote st 3 s) \<dots>"
  proof (rule guarded_bind [OF m])
    fix s assume s: "grown st 3 s"
    then have l: "length (out_buf s) = length (out_buf st)" and o: "in_order s" and w: "wrote st 3 s"
      and oc: "out_cur s = out_cur st + 3" by (auto simp: grown_def wrote_def moved_def in_order_def)
    have far: "wrote st 3 x" if "wrote s k x" for k x using wrote_trans [OF w that] by (auto simp: wrote_def)
    consider "counter - 3 > 2" | "counter - 3 = 2" | "counter - 3 = 1" | "counter - 3 \<le> 0" by linarith
    then show "guarded E (\<lambda>s. wrote st 3 s) (if counter - 3 > 2 then copy3 (counter - 3) (src + 3) s
       else if counter - 3 > 0 then
         inf_bind (copy_byte (src + 3) s) (\<lambda>s4. if counter - 3 > 1 then copy_byte (src + 4) s4 else Inr s4)
       else Inr s)"
    proof cases
      case 1
      have "guarded E (\<lambda>x. wrote s 3 x) (copy3 (counter - 3) (src + 3) s)"
        by (rule less.hyps) (use 1 less.prems s l o in \<open>auto simp: grown_def\<close>)
      then have "guarded E (\<lambda>x. wrote st 3 x) (copy3 (counter - 3) (src + 3) s)" by (rule guarded_mono) (use far in auto)
      then show ?thesis using 1 by simp
    next
      case 2
      have "guarded E (grown s (Suc (Suc 0))) (inf_bind (inf_bind (Inr s) (copy_byte (src + 3))) (copy_byte (src + 4)))"
        by (intro copy_next) (use 2 less.prems oc l o in \<open>auto simp: grown_start\<close>)
      then have "guarded E (\<lambda>x. wrote st 3 x) (inf_bind (copy_byte (src + 3) s) (copy_byte (src + 4)))"
        unfolding inf_bind_simps by (rule guarded_mono) (use far in \<open>auto simp: grown_def\<close>)
      then show ?thesis using 2 by simp
    next
      case 3
      have "guarded E (grown s (Suc 0)) (inf_bind (Inr s) (copy_byte (src + 3)))"
        by (intro copy_next) (use 3 less.prems oc l o in \<open>auto simp: grown_start\<close>)
      then have "guarded E (\<lambda>x. wrote st 3 x) (inf_bind (copy_byte (src + 3) s) Inr)"
        unfolding inf_bind_simps by (rule guarded_bind) (use far in \<open>auto simp: grown_def\<close>)
      then show ?thesis using 3 by simp
    next
      case 4
      then show ?thesis using w by simp
    qed
  qed
  finally show ?case .
qed

lemma copy_match_guarded:
  assumes "in_order st" "overruns \<subseteq> E \<or> 3 \<le> counter"
  shows "guarded E (\<lambda>s. wrote st 1 s) (copy_match dist counter st)"
proof (cases "dist > out_cur st")
  case False
  have far: "wrote st 1 s" if "wrote st k s" "0 < k" for k s using that by (auto simp: wrote_def)
  show ?thesis
  proof (cases "out_cur st + counter > length (out_buf st)")
    case True
    have "guarded {} (\<lambda>s. wrote st counter s) (copy_slow counter dist st)" using copy_slow_guarded assms(1) False by simp
    then have "guarded E (\<lambda>s. wrote st 1 s) (copy_slow counter dist st)"
      by (rule guarded_mono) (use far True assms(1) in \<open>auto simp: in_order_def\<close>)
    then show ?thesis using True False by (simp add: copy_match_def max_absorb1 Let_def)
  next
    case fits: False
    have "guarded E (\<lambda>s. wrote st 3 s) (copy3 (int counter) (out_cur st - dist) st)"
      by (rule copy3_guarded) (use assms fits in auto)
    then have "guarded E (\<lambda>s. wrote st 1 s) (copy3 (int counter) (out_cur st - dist) st)" by (rule guarded_mono) (use far in auto)
    then show ?thesis using fits False by (simp add: copy_match_def max_absorb1 Let_def)
  qed
qed (simp add: copy_match_def)

section \<open>Blocks\<close>

lemma symbol_bit8:
  assumes "symbol_of sizes k" "sizes_ok sizes"
  shows "bit k 8 \<longleftrightarrow> 256 \<le> k"
proof -
  have "k < 512" using assms by (auto simp: symbol_of_def sizes_ok_def)
  then have "k div 256 = (if 256 \<le> k then 1 else 0)" by (auto intro: div_nat_eqI)
  then show ?thesis by (simp add: bit_iff_odd)
qed

lemma literals_guarded:
  assumes d: "decodes sizes lt" "sizes_ok sizes"
  shows "in_order st \<Longrightarrow> length (out_buf st) - out_cur st < fuel \<Longrightarrow>
    guarded {} (\<lambda>(k, s). wrote st 0 s \<and> 256 \<le> k \<and> k < 288) (literals fuel lt st)"
proof (induction fuel arbitrary: st)
  case (Suc fuel)
  let ?Q = "\<lambda>(k, s). wrote st 0 s \<and> 256 \<le> k \<and> k < (288 :: nat)"
  have fin: "?Q (k, s)" if "symbol_of sizes k" "256 \<le> k" "moved st n s" for k n s
    using that d(2) moved_wrote by (auto simp: symbol_of_def sizes_ok_def)
  have rec: "guarded {} ?Q (literals fuel lt s)" if w: "wrote st k s" "0 < k" for k s
  proof -
    have "length (out_buf s) - out_cur s < fuel" using w Suc.prems(2) by (auto simp: wrote_def moved_def)
    from Suc.IH [OF wrote_in_order [OF w(1)] this] show ?thesis
      by (rule guarded_mono) (use wrote_after [OF w(1), of 0 _ 0] in auto)
  qed
  show ?case
  proof (cases "length (in_rest st) < 4 \<or> length (out_buf st) - out_cur st < 2")
    case slow: True
    obtain k s where k: "huff_decode lt st = Inr (k, s)" "symbol_of sizes k" "moved st 0 s"
      using huff_decode_moved [OF d Suc.prems(1)] by blast
    show ?thesis
    proof (cases "256 \<le> k \<or> out_cur s \<ge> length (out_buf s)")
      case True
      then show ?thesis using slow k fin [OF k(2) _ k(3)] by (auto simp: literals.simps(2))
    next
      case False
      then obtain s' where s': "put_byte (of_nat k) s = Inr s'" "wrote s 1 s'"
        using put_byte_wrote [OF moved_in_order [OF k(3)], of "of_nat k"] by auto
      show ?thesis using slow k(1) False s'(1) rec [OF wrote_trans [OF moved_wrote [OF k(3)] s'(2)]]
        by (simp add: literals.simps(2))
    qed
  next
    case fast: False
    define s0 where "s0 = (if num_bits st < 30 then load_bytes 4 st else st)"
    have s0: "moved st 0 s0" "30 \<le> num_bits s0" "out_cur s0 = out_cur st"
      using load_bytes_moved [OF Suc.prems(1), of 4] moved_refl [OF Suc.prems(1)] load_bytes_out [of 4 st] by (auto simp: s0_def)
    obtain k len where k: "huff_look lt (bit_buf s0) = Inr (k, len)" "symbol_of sizes k" "len \<le> 15"
      using huff_look_safe [OF d] by blast
    define s1 where "s1 = drop_bits len s0"
    have s1: "moved st 0 s1" "15 \<le> num_bits s1" "out_cur s1 = out_cur st"
      using moved_trans [OF s0(1) drop_bits_moved [OF moved_in_order [OF s0(1)], of len]] bits_left_drop(3) [of s0 len]
        s0 k(3) moved_weaken [of st "0 + len" s1 0] by (auto simp: s1_def moved_def drop_bits_def)
    obtain k2 len2 where k2: "huff_look lt (bit_buf s1) = Inr (k2, len2)" "symbol_of sizes k2" "len2 \<le> 15"
      using huff_look_safe [OF d] by blast
    define s2 where "s2 = drop_bits len2 s1"
    have s2: "moved st 0 s2" "out_cur s2 = out_cur st"
      using moved_trans [OF s1(1) drop_bits_moved [OF moved_in_order [OF s1(1)], of len2]] s1(2,3) k2(3)
        moved_weaken [of st "0 + len2" s2 0] by (auto simp: s2_def drop_bits_def)
    have room: "out_cur s2 + 2 \<le> length (out_buf s2)" using s2 fast by (auto simp: moved_def)
    obtain s3 where s3: "put_byte (of_nat k) s2 = Inr s3" "wrote s2 1 s3" "out_cur s3 = Suc (out_cur s2)"
      using put_byte_wrote [OF moved_in_order [OF s2(1)], of "of_nat k"] room by auto
    have w3: "wrote st 1 s3" using wrote_trans [OF moved_wrote [OF s2(1)] s3(2)] by simp
    have "out_cur s3 < length (out_buf s3)" using s3(2,3) room by (auto simp: wrote_def moved_def)
    then obtain s4 where s4: "put_byte (of_nat k2) s3 = Inr s4" "wrote s3 1 s4"
      using put_byte_wrote [OF wrote_in_order [OF s3(2)], of "of_nat k2"] by auto
    have lit: "literals (Suc fuel) lt st = (if bit k 8 then Inr (k, s1) else if bit k2 8 then Inr (k2, s3) else literals fuel lt s4)"
      using fast k(1) k2(1) s3(1) s4(1) by (simp add: literals.simps(2) s0_def [symmetric] s1_def [symmetric] s2_def [symmetric] Let_def)
    have "?Q (k2, s3)" if "bit k2 8"
      using that fin [OF k2(2) _ wrote_moved [OF w3]] symbol_bit8 [OF k2(2) d(2)] by simp
    moreover have "?Q (k, s1)" if "bit k 8" using that fin [OF k(2) _ s1(1)] symbol_bit8 [OF k(2) d(2)] by simp
    ultimately show ?thesis using rec [OF wrote_trans [OF w3 s4(2)]] unfolding lit by simp
  qed
qed simp

text \<open>A match writes something. It stays in the buffer for every length symbol but the two reserved ones.\<close>

lemma length_tables: "length s_length_base = 31" "length s_length_extra = 31" "length s_dist_base = 32" "length s_dist_extra = 32"
  by (simp_all add: s_length_base_def s_length_extra_def s_dist_base_def s_dist_extra_def)

lemma extra_small: "i < 31 \<Longrightarrow> s_length_extra ! i \<le> 16" "j < 32 \<Longrightarrow> s_dist_extra ! j \<le> 16"
proof -
  have "\<forall>x \<in> set s_length_extra. x \<le> 16" "\<forall>x \<in> set s_dist_extra. x \<le> 16" by (simp_all add: s_length_extra_def s_dist_extra_def)
  then show "i < 31 \<Longrightarrow> s_length_extra ! i \<le> 16" "j < 32 \<Longrightarrow> s_dist_extra ! j \<le> 16"
    using nth_mem [of i s_length_extra] nth_mem [of j s_dist_extra] by (auto simp: length_tables)
qed

lemma base_ge_3: "i < 29 \<Longrightarrow> 3 \<le> s_length_base ! i"
proof -
  assume "i < 29"
  then have "take 29 s_length_base ! i \<in> set (take 29 s_length_base)" by (intro nth_mem) (simp add: length_tables)
  moreover have "\<forall>x \<in> set (take 29 s_length_base). 3 \<le> x" by (simp add: s_length_base_def)
  ultimately show ?thesis using \<open>i < 29\<close> by simp
qed

lemma extra_bits_moved:
  assumes "in_order st" "n \<le> 16"
  obtains e s where "(if n > 0 then get_bits n st else (0, st)) = (e, s)" "moved st 0 s"
proof (cases "n > 0")
  case True
  then show ?thesis using get_bits_moved [OF assms] that moved_weaken [of st n _ 0] by auto
qed (use that moved_refl assms in auto)

lemma do_match_guarded:
  assumes d: "decodes sizes dt" "sizes_ok sizes" "length sizes \<le> 32" and "in_order st" "k < 288" "overruns \<subseteq> E \<or> k \<le> 285"
  shows "guarded E (\<lambda>s. wrote st 1 s) (do_match dt k st)"
proof -
  have i: "k - 257 < 31" using assms(5) by simp
  obtain e s1 where s1: "(if s_length_extra ! (k - 257) > 0 then get_bits (s_length_extra ! (k - 257)) st else (0, st)) = (e, s1)" "moved st 0 s1"
    using extra_bits_moved [OF assms(4) extra_small(1) [OF i]] by blast
  obtain j s2 where s2: "huff_decode dt s1 = Inr (j, s2)" "symbol_of sizes j" "moved s1 0 s2"
    using huff_decode_moved [OF d(1,2) moved_in_order [OF s1(2)]] by blast
  have j: "j < 32" using s2(2) d(3) by (auto simp: symbol_of_def)
  obtain f s3 where s3: "(if s_dist_extra ! j > 0 then get_bits (s_dist_extra ! j) s2 else (0, s2)) = (f, s3)" "moved s2 0 s3"
    using extra_bits_moved [OF moved_in_order [OF s2(3)] extra_small(2) [OF j]] by blast
  have m: "moved st 0 s3" using moved_trans [OF moved_trans [OF s1(2) s2(3)] s3(2)] by simp
  have "overruns \<subseteq> E \<or> 3 \<le> s_length_base ! (k - 257) + e" using assms(6) base_ge_3 [of "k - 257"] by fastforce
  then have "guarded E (\<lambda>s. wrote s3 1 s) (copy_match (s_dist_base ! j + f) (s_length_base ! (k - 257) + e) s3)"
    by (rule copy_match_guarded [OF moved_in_order [OF m]])
  then have "guarded E (\<lambda>s. wrote st 1 s) (copy_match (s_dist_base ! j + f) (s_length_base ! (k - 257) + e) s3)"
    by (rule guarded_mono) (use wrote_after [OF moved_wrote [OF m], of 1 _ 1] in auto)
  then show ?thesis unfolding do_match_def using i j by (simp add: s1(1) s2(1) s3(1) Let_def)
qed

lemma codes_guarded:
  assumes lt: "decodes sizes0 lt" "sizes_ok sizes0" and dt: "decodes sizes1 dt" "sizes_ok sizes1" "length sizes1 \<le> 32"
  shows "in_order st \<Longrightarrow> length (out_buf st) - out_cur st < fuel \<Longrightarrow> guarded overruns (\<lambda>s. wrote st 0 s) (codes fuel lt dt st)"
proof (induction fuel arbitrary: st)
  case (Suc fuel)
  have "guarded {} (\<lambda>(k, s). wrote st 0 s \<and> 256 \<le> k \<and> k < 288) (literals (Suc (length (out_buf st))) lt st)"
    by (rule literals_guarded [OF lt Suc.prems(1)]) simp
  then have lit: "guarded overruns (\<lambda>(k, s). wrote st 0 s \<and> 256 \<le> k \<and> k < 288) (literals (Suc (length (out_buf st))) lt st)"
    by (rule guarded_mono) auto
  show ?case unfolding codes.simps
  proof (rule guarded_bind [OF lit], clarify)
    fix k s assume s: "wrote st 0 s" "256 \<le> k" "k < (288 :: nat)"
    have "guarded overruns (\<lambda>x. wrote st 0 x) (inf_bind (do_match dt k s) (codes fuel lt dt))"
    proof (rule guarded_bind [OF do_match_guarded [OF dt wrote_in_order [OF s(1)] s(3)]])
      fix x assume x: "wrote s 1 x"
      have "length (out_buf x) - out_cur x < fuel" using Suc.prems(2) s(1) x by (auto simp: wrote_def moved_def)
      from Suc.IH [OF wrote_in_order [OF x] this] show "guarded overruns (\<lambda>y. wrote st 0 y) (codes fuel lt dt x)"
        by (rule guarded_mono) (use wrote_after [OF wrote_trans [OF s(1) x], of 0 _ 0] in auto)
    qed simp
    then show "guarded overruns (\<lambda>s. wrote st 0 s) (if k mod 512 = 256 then Inr s else inf_bind (do_match dt (k mod 512) s) (codes fuel lt dt))"
      using s by simp
  qed
qed simp

lemma build_table_guarded:
  assumes "length sizes \<le> 288" "\<forall>x \<in> set sizes. x \<le> 15"
  shows "guarded E (\<lambda>tbl. decodes sizes tbl \<and> sizes_ok sizes) (build_table sizes)"
proof (cases "sizes_ok sizes")
  case True
  then show ?thesis using build_table_ok by fastforce
next
  case False
  then have "build_table sizes = Inl (Exit FAILED)" using assms by (auto simp: sizes_ok_def build_table_def)
  then show ?thesis by simp
qed

lemma huff_block_guarded:
  assumes "length sizes0 \<le> 288" "\<forall>x \<in> set sizes0. x \<le> 15" "length sizes1 \<le> 32" "\<forall>x \<in> set sizes1. x \<le> 15" "in_order st"
  shows "guarded overruns (\<lambda>s. wrote st 0 s) (huff_block sizes0 sizes1 st)"
  unfolding huff_block_def
  by (rule guarded_bind [OF build_table_guarded], use assms in simp, use assms in simp,
      rule guarded_bind [OF build_table_guarded], use assms in simp, use assms in simp,
      rule codes_guarded) (use assms in auto)

subsection \<open>Stored blocks\<close>

lemma raw_byte_moved:
  assumes "in_order st"
  shows "\<exists>v s. raw_byte st = (v, s) \<and> moved st 8 s \<and> (significant st = 0 \<longrightarrow> v = 0)"
proof (cases "num_bits st = 0")
  case True
  then have bits: "bits_left st = bytes_bits (in_rest st)" by (simp add: bits_left_def)
  show ?thesis
  proof (cases "in_rest st")
    case Nil
    then have "significant st = 0" using bits by (simp add: significant_def)
    then show ?thesis using True Nil assms by (simp add: raw_byte_def get_byte_def moved_def in_order_def)
  next
    case (Cons c cs)
    let ?s = "st\<lparr>in_rest := cs\<rparr>"
    have "bits_left ?s = drop 8 (bits_left st)" using True Cons bits by (simp add: bits_left_def)
    then have "moved st 8 ?s" using assms by (simp add: moved_def in_order_def significant_def significant_drop buffered_def)
    moreover have "c = 0" if "significant st = 0"
    proof (rule bit_word_eqI)
      fix i
      have "\<not> byte_bits c ! i" if "i < 8"
        using that significant_zero [of "bits_left st" "byte_bits c ! i"] \<open>significant st = 0\<close> bits Cons
        by (auto simp: significant_def)
      then show "bit c i = bit 0 i" using bit_imp_le_length [of c i] by (auto simp: byte_bits_def)
    qed
    ultimately show ?thesis using True Cons by (auto simp: raw_byte_def get_byte_def)
  qed
next
  case False
  then show ?thesis using get_bits_moved [OF assms, of 8] by (auto simp: raw_byte_def)
qed

lemma stored_bits_guarded:
  "in_order st \<Longrightarrow> guarded {} (\<lambda>(c, s). wrote st 0 s \<and> (c = 0 \<or> num_bits s = 0)) (stored_bits counter st)"
proof (induction counter arbitrary: st)
  case 0
  then show ?case using moved_wrote [OF moved_refl] by simp
next
  case (Suc counter)
  obtain v s where s: "get_bits 8 st = (v, s)" "moved st 8 s" using get_bits_moved [OF Suc.prems, of 8] by auto
  show ?case
  proof (cases "num_bits st = 0 \<or> out_cur s \<ge> length (out_buf s)")
    case True
    then show ?thesis using s moved_wrote [OF moved_refl [OF Suc.prems]] by auto
  next
    case False
    then obtain x where x: "put_byte (of_nat v) s = Inr x" "wrote s 1 x"
      using put_byte_wrote [OF moved_in_order [OF s(2)], of "of_nat v"] by auto
    from Suc.IH [OF wrote_in_order [OF x(2)]]
    have "guarded {} (\<lambda>(c, y). wrote st 0 y \<and> (c = 0 \<or> num_bits y = 0)) (stored_bits counter x)"
      by (rule guarded_mono) (use wrote_after [OF wrote_trans [OF moved_wrote [OF s(2)] x(2)], of 0 _ 0] in auto)
    then show ?thesis using False s(1) x(1) by simp
  qed
qed

lemma mem_copy_wrote:
  assumes "in_order st" "num_bits st = 0" "n \<le> length (out_buf st) - out_cur st" "n \<le> length (in_rest st)"
  shows "wrote st n (mem_copy n st)" "num_bits (mem_copy n st) = 0"
proof -
  have "bits_left (mem_copy n st) = drop (8 * n) (bits_left st)"
  proof -
    have "bytes_bits (in_rest st) = bytes_bits (take n (in_rest st)) @ bytes_bits (drop n (in_rest st))"
      by (simp flip: bytes_bits_simps(3))
    then show ?thesis using assms(2,4) by (simp add: bits_left_def mem_copy_def)
  qed
  then show "wrote st n (mem_copy n st)" using assms
    by (auto simp: wrote_def moved_def in_order_def significant_def significant_drop buffered_def mem_copy_def)
  show "num_bits (mem_copy n st) = 0" using assms(2) by (simp add: mem_copy_def)
qed

lemma stored_raw_guarded:
  "in_order st \<Longrightarrow> counter = 0 \<or> num_bits st = 0 \<Longrightarrow> guarded {} (\<lambda>s. wrote st 0 s) (stored_raw counter st)"
proof (induction counter st rule: stored_raw.induct)
  case (1 counter st)
  let ?n = "min (min (length (out_buf st) - out_cur st) (length (in_rest st))) counter"
  show ?case
  proof (cases "counter = 0 \<or> out_cur st \<ge> length (out_buf st) \<or> in_rest st = []")
    case True
    then show ?thesis using moved_wrote [OF moved_refl [OF "1.prems"(1)]] by (subst stored_raw.simps) auto
  next
    case False
    note w = mem_copy_wrote [OF "1.prems"(1), of ?n]
    have c: "num_bits st = 0" using False "1.prems"(2) by simp
    have "guarded {} (\<lambda>s. wrote (mem_copy ?n st) 0 s) (stored_raw (counter - ?n) (mem_copy ?n st))"
      by (rule "1.IH") (use False w [OF c] wrote_in_order [OF w(1) [OF c]] in auto)
    then have "guarded {} (\<lambda>s. wrote st 0 s) (stored_raw (counter - ?n) (mem_copy ?n st))"
      by (rule guarded_mono) (use wrote_after [OF w(1) [OF c], of 0 _ 0] in auto)
    then show ?thesis using False by (subst stored_raw.simps) (simp add: Let_def)
  qed
qed

text \<open>A stored block of zeros only is refused: its length does not match the complement.\<close>

lemma stored_block_guarded:
  assumes "in_order st"
  shows "guarded {} (\<lambda>s. wrote st 0 s \<and> significant st \<noteq> 0) (stored_block st)"
proof -
  let ?s0 = "skip_bits (num_bits st mod 8) st"
  have s0: "moved st 0 ?s0" using skip_bits_moved [OF assms, of "num_bits st mod 8"] moved_weaken by (auto simp: less_imp_le)
  obtain h0 s1 where s1: "raw_byte ?s0 = (h0, s1)" "moved ?s0 8 s1" "significant ?s0 = 0 \<longrightarrow> h0 = 0" using raw_byte_moved [OF moved_in_order [OF s0]] by metis
  obtain h1 s2 where s2: "raw_byte s1 = (h1, s2)" "moved s1 8 s2" "significant s1 = 0 \<longrightarrow> h1 = 0" using raw_byte_moved [OF moved_in_order [OF s1(2)]] by metis
  obtain h2 s3 where s3: "raw_byte s2 = (h2, s3)" "moved s2 8 s3" "significant s2 = 0 \<longrightarrow> h2 = 0" using raw_byte_moved [OF moved_in_order [OF s2(2)]] by metis
  obtain h3 s4 where s4: "raw_byte s3 = (h3, s4)" "moved s3 8 s4" "significant s3 = 0 \<longrightarrow> h3 = 0" using raw_byte_moved [OF moved_in_order [OF s3(2)]] by metis
  have m: "wrote st 0 s4" using moved_wrote [OF moved_trans [OF moved_trans [OF moved_trans [OF moved_trans [OF s0 s1(2)] s2(2)] s3(2)] s4(2)]] .
  show ?thesis
  proof (cases "significant st = 0")
    case True
    then have "h0 = 0" "h1 = 0" "h2 = 0" "h3 = 0" using s0 s1 s2 s3 s4 by (auto simp: moved_def)
    then show ?thesis using s1(1) s2(1) s3(1) s4(1) by (simp add: stored_block_def Let_def)
  next
    case False
    have "guarded {} (\<lambda>s. wrote st 0 s) (inf_bind (stored_bits (h0 + h1 * 256) s4) (\<lambda>(c, s). stored_raw c s))"
    proof (rule guarded_bind [OF stored_bits_guarded [OF wrote_in_order [OF m]]], clarify)
      fix c :: nat and s assume s: "wrote s4 0 s" "c = 0 \<or> num_bits s = 0"
      from stored_raw_guarded [OF wrote_in_order [OF s(1)] s(2)] show "guarded {} (\<lambda>s. wrote st 0 s) (stored_raw c s)"
        by (rule guarded_mono) (use wrote_after [OF wrote_trans [OF m s(1)], of 0 _ 0] in auto)
    qed
    then show ?thesis using False s1(1) s2(1) s3(1) s4(1) by (auto simp: stored_block_def Let_def)
  qed
qed

subsection \<open>Dynamic blocks\<close>

lemma read_cl_sizes_moved:
  "in_order st \<Longrightarrow> \<forall>x \<in> set sizes. x \<le> 15 \<Longrightarrow>
   \<exists>sizes' s. read_cl_sizes is sizes st = (sizes', s) \<and> wrote st 0 s \<and> length sizes' = length sizes \<and> (\<forall>x \<in> set sizes'. x \<le> 15)"
proof (induction "is" arbitrary: sizes st)
  case Nil
  then show ?case using moved_wrote [OF moved_refl] by simp
next
  case (Cons i "is")
  obtain v s where s: "get_bits 3 st = (v, s)" "moved st 3 s" "v < 2 ^ 3" using get_bits_moved [OF Cons.prems(1), of 3] by auto
  have "\<forall>x \<in> set (sizes[i := v]). x \<le> 15"
    using Cons.prems(2) s(3) set_update_subset_insert [of sizes i v] by fastforce
  from Cons.IH [OF moved_in_order [OF s(2)] this] obtain sizes' s' where s': "read_cl_sizes is (sizes[i := v]) s = (sizes', s')" "wrote s 0 s'"
    "length sizes' = length sizes" "\<forall>x \<in> set sizes'. x \<le> 15" by auto
  then show ?case using s(1) wrote_after [OF moved_wrote [OF s(2)] s'(2), of 0] by simp
qed

lemma rep_bounds: "16 \<le> d \<Longrightarrow> d \<le> 18 \<Longrightarrow> rep_extra d \<le> 7 \<and> rep_base d \<le> 11"
  by (auto simp: rep_extra_def rep_base_def le_Suc_eq numeral_eq_Suc)

lemma read_lens_guarded:
  assumes ct: "decodes cl ct" "sizes_ok cl" "length cl \<le> 19" and n: "n_total \<le> 320"
  shows "in_order st \<Longrightarrow> \<forall>x \<in> set lens. x \<le> 15 \<Longrightarrow> guarded {} (\<lambda>(l, s). wrote st 0 s \<and> (\<forall>x \<in> set l. x \<le> 15)) (read_lens ct n_total lens st)"
proof (induction "n_total - length lens" arbitrary: lens st rule: less_induct)
  case less
  let ?Q = "\<lambda>(l, s). wrote st 0 s \<and> (\<forall>x \<in> set l. x \<le> (15 :: nat))"
  show ?case
  proof (cases "length lens \<ge> n_total")
    case True
    then show ?thesis using less.prems moved_wrote [OF moved_refl] by (subst read_lens.simps) simp
  next
    case short: False
    obtain d s1 where s1: "huff_decode ct st = Inr (d, s1)" "symbol_of cl d" "moved st 0 s1"
      using huff_decode_moved [OF ct(1,2) less.prems(1)] by blast
    have rec: "guarded {} ?Q (read_lens ct n_total (lens @ ys) s)" if "ys \<noteq> []" "moved st m s" "\<forall>x \<in> set ys. x \<le> 15" for ys m s
    proof -
      have "guarded {} (\<lambda>(l, x). wrote s 0 x \<and> (\<forall>y \<in> set l. y \<le> 15)) (read_lens ct n_total (lens @ ys) s)"
        by (rule less.hyps) (use that short less.prems(2) moved_in_order [OF that(2)] in \<open>auto simp: neq_Nil_conv\<close>)
      then show ?thesis by (rule guarded_mono) (use wrote_after [OF moved_wrote [OF that(2)], of 0 _ 0] in auto)
    qed
    have d: "d \<le> 18" using s1(2) ct(3) by (auto simp: symbol_of_def)
    consider "d < 16" | "d = 16" "lens = []" | "16 \<le> d" "d = 16 \<longrightarrow> lens \<noteq> []" by linarith
    then show ?thesis
    proof cases
      case 1
      then show ?thesis using short s1(1) rec [OF _ s1(3), of "[d]"] by (subst read_lens.simps) simp
    next
      case 2
      then show ?thesis using short s1(1) by (subst read_lens.simps) simp
    next
      case 3
      note r = rep_bounds [OF 3(1) d]
      obtain e s2 where s2: "get_bits (rep_extra d) s1 = (e, s2)" "moved s1 (rep_extra d) s2" "e < 2 ^ rep_extra d"
        using get_bits_moved [OF moved_in_order [OF s1(3)], of "rep_extra d"] r by auto
      have "e < 2 ^ 7" using s2(3) r power_increasing [of "rep_extra d" 7 "2 :: nat"] by simp
      then have fits: "\<not> length lens + (e + rep_base d) > 288 + 32 + 137" using short n r by simp
      let ?ys = "replicate (e + rep_base d) (if d = 16 then last lens else 0)"
      have "?ys \<noteq> []" using rep_base_pos [of d] d by simp
      moreover have "\<forall>x \<in> set ?ys. x \<le> 15" using less.prems(2) 3(2) by auto
      ultimately have "guarded {} ?Q (read_lens ct n_total (lens @ ?ys) s2)"
        using rec [of ?ys "0 + rep_extra d" s2] moved_trans [OF s1(3) s2(2)] by blast
      then show ?thesis using short s1(1) s2(1) d 3 fits by (subst read_lens.simps) (simp add: Let_def)
    qed
  qed
qed

lemma dynamic_block_guarded:
  assumes "in_order st"
  shows "guarded overruns (\<lambda>s. wrote st 0 s) (dynamic_block st)"
proof -
  obtain n0 s1 where s1: "get_bits 5 st = (n0, s1)" "moved st 5 s1" "n0 < 2 ^ 5" using get_bits_moved [OF assms, of 5] by auto
  obtain n1 s2 where s2: "get_bits 5 s1 = (n1, s2)" "moved s1 5 s2" "n1 < 2 ^ 5" using get_bits_moved [OF moved_in_order [OF s1(2)], of 5] by auto
  obtain n2 s3 where s3: "get_bits 4 s2 = (n2, s3)" "moved s2 4 s3" using get_bits_moved [OF moved_in_order [OF s2(2)], of 4] by auto
  obtain cl s4 where s4: "read_cl_sizes (take (n2 + 4) s_length_dezigzag) (replicate 19 0) s3 = (cl, s4)" "wrote s3 0 s4" "length cl = 19" "\<forall>x \<in> set cl. x \<le> 15"
    using read_cl_sizes_moved [OF moved_in_order [OF s3(2)], of "replicate 19 0" "take (n2 + 4) s_length_dezigzag"] by auto
  have w4: "wrote st 0 s4" using wrote_after [OF moved_wrote [OF moved_trans [OF moved_trans [OF s1(2) s2(2)] s3(2)]] s4(2), of 0] by simp
  let ?n = "n0 + 257 + (n1 + 1)"
  have "guarded overruns (\<lambda>s. wrote st 0 s) (inf_bind (build_table cl) (\<lambda>ct. inf_bind (read_lens ct ?n [] s4) (\<lambda>(lens, s5).
        if length lens \<noteq> ?n then Inl (Exit FAILED) else huff_block (take (n0 + 257) lens) (drop (n0 + 257) lens) s5)))"
  proof (rule guarded_bind [OF build_table_guarded])
    fix ct assume ct: "decodes cl ct \<and> sizes_ok cl"
    have "guarded {} (\<lambda>(l, s). wrote s4 0 s \<and> (\<forall>x \<in> set l. x \<le> 15)) (read_lens ct ?n [] s4)"
      by (rule read_lens_guarded) (use ct s4(3) s1(3) s2(3) wrote_in_order [OF w4] in auto)
    then have rl: "guarded overruns (\<lambda>(l, s). wrote s4 0 s \<and> (\<forall>x \<in> set l. x \<le> 15)) (read_lens ct ?n [] s4)" by (rule guarded_mono) auto
    show "guarded overruns (\<lambda>s. wrote st 0 s) (inf_bind (read_lens ct ?n [] s4) (\<lambda>(lens, s5).
        if length lens \<noteq> ?n then Inl (Exit FAILED) else huff_block (take (n0 + 257) lens) (drop (n0 + 257) lens) s5))"
    proof (rule guarded_bind [OF rl], clarify)
      fix l s5 assume l: "wrote s4 0 s5" "\<forall>x \<in> set l. x \<le> (15 :: nat)"
      show "guarded overruns (\<lambda>s. wrote st 0 s) (if length l \<noteq> ?n then Inl (Exit FAILED) else huff_block (take (n0 + 257) l) (drop (n0 + 257) l) s5)"
      proof (cases "length l = ?n")
        case True
        have "guarded overruns (\<lambda>s. wrote s5 0 s) (huff_block (take (n0 + 257) l) (drop (n0 + 257) l) s5)"
          by (rule huff_block_guarded) (use l True s1(3) s2(3) wrote_in_order [OF l(1)] in \<open>auto dest: in_set_takeD in_set_dropD\<close>)
        then have "guarded overruns (\<lambda>s. wrote st 0 s) (huff_block (take (n0 + 257) l) (drop (n0 + 257) l) s5)"
          by (rule guarded_mono) (use wrote_after [OF wrote_trans [OF w4 l(1)], of 0 _ 0] in auto)
        then show ?thesis using True by simp
      qed simp
    qed
  qed (use s4 in auto)
  then show ?thesis by (simp add: dynamic_block_def s1(1) s2(1) s3(1) s4(1) Let_def)
qed

subsection \<open>All blocks\<close>

definition same_buffer :: "inflater \<Rightarrow> inflater \<Rightarrow> bool" where
  "same_buffer st s \<longleftrightarrow> in_order s \<and> length (out_buf s) = length (out_buf st)"

text \<open>A block consumes at least the three bits of its header, and there is none in zeros.\<close>

lemma one_block_guarded:
  assumes "in_order st"
  shows "guarded overruns (\<lambda>(fin, s). same_buffer st s \<and> significant s < significant st) (one_block st)"
proof -
  obtain hdr s where s: "get_bits 3 st = (hdr, s)" "moved st 3 s" "significant st = 0 \<longrightarrow> hdr = 0"
    using get_bits_moved [OF assms, of 3] by auto
  have rest: "same_buffer st x \<and> significant x < significant st" if "wrote s 0 x" "significant st \<noteq> 0" for x
    using that s(2) wrote_in_order [OF that(1)] by (auto simp: wrote_def moved_def same_buffer_def)
  note stored = guarded_mono [OF stored_block_guarded [OF moved_in_order [OF s(2)]], of overruns "\<lambda>x. same_buffer st x \<and> significant x < significant st"]
  note huff = guarded_mono [OF huff_block_guarded [of fixed_sizes "replicate 32 5" s], of overruns "\<lambda>x. same_buffer st x \<and> significant x < significant st"]
  note dyn = guarded_mono [OF dynamic_block_guarded [OF moved_in_order [OF s(2)]], of overruns "\<lambda>x. same_buffer st x \<and> significant x < significant st"]
  have sig: "significant s \<noteq> 0 \<Longrightarrow> significant st \<noteq> 0" using s(2) by (auto simp: moved_def)
  have fixed: "length fixed_sizes \<le> 288" "\<forall>x \<in> set fixed_sizes. x \<le> 15" by (auto simp: fixed_sizes_def)
  have "guarded overruns (\<lambda>x. same_buffer st x \<and> significant x < significant st)
      (if hdr div 2 = 0 then stored_block s
       else if hdr div 2 = 3 then Inl (Exit FAILED)
       else if hdr div 2 = 1 then huff_block fixed_sizes (replicate 32 5) s
       else dynamic_block s)"
    using stored rest sig huff fixed dyn moved_in_order [OF s(2)] s(3) by auto
  then show ?thesis unfolding one_block_def s(1) prod.case by (rule guarded_bind) simp
qed

lemma blocks_guarded:
  "in_order st \<Longrightarrow> significant st < fuel \<Longrightarrow> guarded overruns (same_buffer st) (blocks fuel st)"
proof (induction fuel arbitrary: st)
  case (Suc fuel)
  show ?case unfolding blocks.simps
  proof (rule guarded_bind [OF one_block_guarded [OF Suc.prems(1)]], clarify)
    fix fin s assume s: "same_buffer st s" "significant s < significant st"
    have "guarded overruns (same_buffer s) (blocks fuel s)"
      by (rule Suc.IH) (use Suc.prems s in \<open>auto simp: same_buffer_def\<close>)
    then have "guarded overruns (same_buffer st) (blocks fuel s)"
      by (rule guarded_mono) (use s(1) in \<open>auto simp: same_buffer_def\<close>)
    then show "guarded overruns (same_buffer st) (if fin then Inr s else blocks fuel s)" using s(1) by simp
  qed
qed simp

lemma raw_byte_same: "in_order st \<Longrightarrow> same_buffer st (snd (raw_byte st))"
  using raw_byte_moved [of st] by (auto simp: same_buffer_def moved_def in_order_def)

lemma read_adler_same: "in_order st \<Longrightarrow> same_buffer st (snd (read_adler n z st))"
proof (induction n arbitrary: z st)
  case (Suc n)
  obtain b s where b: "raw_byte st = (b, s)" by fastforce
  then have "same_buffer st s" using raw_byte_same [OF Suc.prems] by simp
  then show ?case using Suc.IH [of s "push_bit 8 z OR of_nat b"] b by (simp add: same_buffer_def)
qed (simp add: same_buffer_def)

lemma get_byte_same: "in_order st \<Longrightarrow> same_buffer st (snd (get_byte st)) \<and> in_rest (snd (get_byte st)) = tl (in_rest st) \<and>
    num_bits (snd (get_byte st)) = num_bits st"
  by (auto simp: get_byte_def same_buffer_def in_order_def buffered_def split: list.splits)

text \<open>The reserved length symbols 286 and 287 are the only way out of the buffer.\<close>

theorem match_safe:
  assumes "decodes sizes dt" "sizes_ok sizes" "length sizes \<le> 32" "in_order st" "k \<le> 285"
  shows "do_match dt k st \<noteq> Inl (Fault e)"
  using do_match_guarded [OF assms(1-4), of k "{}"] assms(5) by auto

section \<open>Property\<close>

text \<open>
  C18. The decompressor is total and memory-safe on every input: whatever bytes it is given and whatever the size of the output
  buffer, all loops end within their fuel, no table is indexed out of bounds, and the result is
  failure or a number of bytes that lie within the buffer. The one fault that remains possible is that the copy loop of a match
  writes past the output buffer; by \<open>match_safe\<close> a match with a length symbol up to 285 never does.
\<close>

theorem inflate_safe:
  "(\<exists>n buf. tinfl_decompress_mem_to_mem out src = Inr (Some (n, buf)) \<and> n \<le> length buf \<and> length buf = length out) \<or>
   tinfl_decompress_mem_to_mem out src = Inr None \<or>
   tinfl_decompress_mem_to_mem out src = Inl (OutOfBounds ''pOut_buf_cur[0] = pSrc[0]'')"
proof -
  let ?st = "\<lparr>in_rest = src, num_bits = 0, bit_buf = 0, out_buf = out, out_cur = 0\<rparr>"
  have st: "in_order ?st" by (simp add: in_order_def buffered_def)
  define s1 where "s1 = snd (get_byte ?st)"
  define s2 where "s2 = snd (get_byte s1)"
  have s1: "same_buffer ?st s1" "in_rest s1 = tl src" "num_bits s1 = 0" using get_byte_same [OF st] by (simp_all add: s1_def)
  have s2: "same_buffer ?st s2" "in_rest s2 = tl (tl src)" "num_bits s2 = 0"
    using get_byte_same [of s1] s1 by (auto simp: s2_def same_buffer_def)
  have "significant s2 < 8 * length src + 8"
    using significant_length [of "bits_left s2"] s2(2,3) by (simp add: significant_def bits_left_def)
  then have blocks: "guarded overruns (same_buffer s2) (blocks (8 * length src + 8) s2)"
    using s2(1) by (intro blocks_guarded) (simp_all add: same_buffer_def)
  have "guarded overruns (\<lambda>(status, s). same_buffer ?st s) (inf_bind (blocks (8 * length src + 8) s2) (\<lambda>s3.
        let s4 = skip_bits (num_bits s3 mod 8) s3; (z_adler32, s5) = read_adler 4 1 s4 in
        if adler_of (take (out_cur s5) (out_buf s5)) 1 \<noteq> z_adler32 then Inr (ADLER32_MISMATCH, s5) else Inr (DONE, s5)))"
  proof (rule guarded_bind [OF blocks])
    fix s3 assume s3: "same_buffer s2 s3"
    let ?s4 = "skip_bits (num_bits s3 mod 8) s3"
    have "moved s3 (num_bits s3 mod 8) ?s4" using s3 by (intro skip_bits_moved) (auto simp: same_buffer_def less_imp_le)
    then have "same_buffer ?st ?s4" using s2(1) s3 by (auto simp: same_buffer_def moved_def in_order_def)
    then have "same_buffer ?st (snd (read_adler 4 1 ?s4))" using read_adler_same [of ?s4 4 1] by (simp add: same_buffer_def)
    then show "guarded overruns (\<lambda>(status, s). same_buffer ?st s) (let s4 = ?s4; (z_adler32, s5) = read_adler 4 1 s4 in
        if adler_of (take (out_cur s5) (out_buf s5)) 1 \<noteq> z_adler32 then Inr (ADLER32_MISMATCH, s5) else Inr (DONE, s5))"
      by (cases "read_adler 4 1 ?s4") (auto simp: Let_def)
  qed
  then have "guarded overruns (\<lambda>(status, s). same_buffer ?st s) (tinfl_decompress out src)"
    by (cases "get_byte ?st"; cases "get_byte s1") (simp add: tinfl_decompress_def s1_def s2_def)
  then show ?thesis
    by (auto simp: tinfl_decompress_mem_to_mem_def guarded_def overruns_def same_buffer_def in_order_def
        split: sum.splits tinfl_exit.splits if_splits)
qed

end
