(* ===== verification/Dlmalloc.thy ===== *)
theory Dlmalloc
  imports Prelude
begin

text \<open>
  The heap allocator of \<^verbatim>\<open>dlmalloc.cc\<close> as the kernel builds it (lines 581 to 600 of that file): one space
  created over a given area, chunks aligned to 32 bytes, no footers, no locks, neither \<open>mmap\<close> nor \<open>sbrk\<close>,
  run-time checks that call \<open>ABORT\<close>.

  Memory is a function from addresses to the 64-bit words at them; chunks, bin headers and tree nodes lie in it
  at the offsets of the structures of the source, \<open>at p f\<close> being the address of the field at offset \<open>f\<close>. The arrays \<open>smallbins\<close>
  and \<open>treebins\<close> of \<open>malloc_state\<close> are part of this memory, as chunks point to them; its other fields are those of the
  record, without those that only count or that the configuration leaves unused; the test of \<open>magic\<close>, which every created space passes, is left
  out. Addresses and sizes are natural numbers, and where the source computes with values that may
  wrap the remainder modulo \<open>2 ^ 64\<close> is written out.
\<close>

section \<open>Memory and state\<close>

record mstate =
  smallmap :: u32
  treemap :: u32
  dvsize :: nat
  topsize :: nat
  least_addr :: nat
  dv :: nat
  top_chunk :: nat
  trim_check :: nat
  release_checks :: nat
  maddr :: nat \<comment> \<open>the address of the \<open>malloc_state\<close> itself\<close>
  words :: "nat \<Rightarrow> nat"

definition at :: "nat \<Rightarrow> nat \<Rightarrow> nat" where
  "at p f = p + f"

definition poke :: "nat \<Rightarrow> nat \<Rightarrow> mstate \<Rightarrow> mstate" where
  "poke a v st = st\<lparr>words := (words st)(a := v)\<rparr>"

abbreviation prev_foot :: "mstate \<Rightarrow> nat \<Rightarrow> nat" where "prev_foot st p \<equiv> words st (at p 0)"
abbreviation head :: "mstate \<Rightarrow> nat \<Rightarrow> nat" where "head st p \<equiv> words st (at p 8)"
abbreviation fd :: "mstate \<Rightarrow> nat \<Rightarrow> nat" where "fd st p \<equiv> words st (at p 16)"
abbreviation bk :: "mstate \<Rightarrow> nat \<Rightarrow> nat" where "bk st p \<equiv> words st (at p 24)"
abbreviation child0 :: "mstate \<Rightarrow> nat \<Rightarrow> nat" where "child0 st p \<equiv> words st (at p 32)"
abbreviation child1 :: "mstate \<Rightarrow> nat \<Rightarrow> nat" where "child1 st p \<equiv> words st (at p 40)"
abbreviation parent :: "mstate \<Rightarrow> nat \<Rightarrow> nat" where "parent st p \<equiv> words st (at p 48)"
abbreviation index :: "mstate \<Rightarrow> nat \<Rightarrow> nat" where "index st p \<equiv> words st (at p 56)"

definition MAX_SIZE_T :: nat where "MAX_SIZE_T = 2 ^ 64 - 1"
definition MIN_CHUNK_SIZE :: nat where "MIN_CHUNK_SIZE = 32"
definition TOP_FOOT_SIZE :: nat where "TOP_FOOT_SIZE = 112"
definition MAX_REQUEST :: nat where "MAX_REQUEST = 2 ^ 64 - 128"
definition MIN_REQUEST :: nat where "MIN_REQUEST = 23"
definition MAX_SMALL_REQUEST :: nat where "MAX_SMALL_REQUEST = 216"

definition ABORT :: "'a res" where
  "ABORT = Inl (Aborted ''Allocator fatal error'')"

definition minus64 :: "nat \<Rightarrow> nat \<Rightarrow> nat" where
  "minus64 a b = (a + 2 ^ 64 - b) mod 2 ^ 64"

section \<open>Sizes and head fields\<close>

definition chunk2mem :: "nat \<Rightarrow> nat" where "chunk2mem p = p + 16"
definition mem2chunk :: "nat \<Rightarrow> nat" where "mem2chunk m = m - 16"

definition align_offset :: "nat \<Rightarrow> nat" where
  "align_offset a = (if a mod 32 = 0 then 0 else 32 - a mod 32)"

definition pad_request :: "nat \<Rightarrow> nat" where
  "pad_request req = (req + 8 + 31) div 32 * 32"

definition request2size :: "nat \<Rightarrow> nat" where
  "request2size req = (if req < MIN_REQUEST then MIN_CHUNK_SIZE else pad_request req)"

definition pinuse :: "mstate \<Rightarrow> nat \<Rightarrow> bool" where "pinuse st p \<longleftrightarrow> bit (head st p) 0"
definition cinuse :: "mstate \<Rightarrow> nat \<Rightarrow> bool" where "cinuse st p \<longleftrightarrow> bit (head st p) 1"
definition is_inuse :: "mstate \<Rightarrow> nat \<Rightarrow> bool" where "is_inuse st p \<longleftrightarrow> head st p mod 4 \<noteq> 1"
definition is_mmapped :: "mstate \<Rightarrow> nat \<Rightarrow> bool" where "is_mmapped st p \<longleftrightarrow> head st p mod 4 = 0"
definition chunksize :: "mstate \<Rightarrow> nat \<Rightarrow> nat" where "chunksize st p = head st p div 8 * 8"

definition clear_pinuse :: "nat \<Rightarrow> mstate \<Rightarrow> mstate" where
  "clear_pinuse p st = poke (at p 8) (unset_bit 0 (head st p)) st"

definition set_pinuse :: "nat \<Rightarrow> mstate \<Rightarrow> mstate" where
  "set_pinuse p st = poke (at p 8) (set_bit 0 (head st p)) st"

definition set_foot :: "nat \<Rightarrow> nat \<Rightarrow> mstate \<Rightarrow> mstate" where
  "set_foot p s st = poke (at (p + s) 0) s st"

definition set_size_and_pinuse_of_free_chunk :: "nat \<Rightarrow> nat \<Rightarrow> mstate \<Rightarrow> mstate" where
  "set_size_and_pinuse_of_free_chunk p s st = set_foot p s (poke (at p 8) (s OR 1) st)"

definition set_free_with_pinuse :: "nat \<Rightarrow> nat \<Rightarrow> nat \<Rightarrow> mstate \<Rightarrow> mstate" where
  "set_free_with_pinuse p s n st = set_size_and_pinuse_of_free_chunk p s (clear_pinuse n st)"

definition set_inuse :: "nat \<Rightarrow> nat \<Rightarrow> mstate \<Rightarrow> mstate" where
  "set_inuse p s st = set_pinuse (p + s) (poke (at p 8) (head st p AND 1 OR s OR 2) st)"

definition set_inuse_and_pinuse :: "nat \<Rightarrow> nat \<Rightarrow> mstate \<Rightarrow> mstate" where
  "set_inuse_and_pinuse p s st = set_pinuse (p + s) (poke (at p 8) (s OR 1 OR 2) st)"

definition set_size_and_pinuse_of_inuse_chunk :: "nat \<Rightarrow> nat \<Rightarrow> mstate \<Rightarrow> mstate" where
  "set_size_and_pinuse_of_inuse_chunk p s st = poke (at p 8) (s OR 1 OR 2) st"

section \<open>Indexing bins\<close>

definition is_small :: "nat \<Rightarrow> bool" where "is_small s \<longleftrightarrow> s div 8 < 32"
definition small_index :: "nat \<Rightarrow> nat" where "small_index s = s div 8"
definition small_index2size :: "nat \<Rightarrow> nat" where "small_index2size i = 8 * i"

definition smallbin_at :: "mstate \<Rightarrow> nat \<Rightarrow> nat" where
  "smallbin_at st i = maddr st + 72 + 16 * i"

definition treebin_at :: "mstate \<Rightarrow> nat \<Rightarrow> nat" where
  "treebin_at st i = maddr st + 600 + 8 * i"

text \<open>The position of the highest bit, which is \<open>31 - __builtin_clz\<close>.\<close>

fun high_bit :: "nat \<Rightarrow> nat" where
  "high_bit x = (if x < 2 then 0 else Suc (high_bit (x div 2)))"

declare high_bit.simps [simp del]

definition compute_tree_index :: "nat \<Rightarrow> nat" where
  "compute_tree_index s =
     (let x = s div 256 mod 2 ^ 32 in
      if x = 0 then 0 else if x > 0xFFFF then 31
      else let k = high_bit x in 2 * k + s div 2 ^ (k + 7) mod 2)"

definition leftshift_for_tree_index :: "nat \<Rightarrow> nat" where
  "leftshift_for_tree_index i = (if i = 31 then 0 else 63 - (i div 2 + 8 - 2))"

definition idx2bit :: "nat \<Rightarrow> u32" where "idx2bit i = push_bit i 1"

definition least_bit :: "u32 \<Rightarrow> u32" where "least_bit x = x AND - x"

definition left_bits :: "u32 \<Rightarrow> u32" where "left_bits x = push_bit 1 x OR - push_bit 1 x"

text \<open>The position of the lowest bit, \<open>__builtin_ctz\<close>.\<close>

definition compute_bit2idx :: "u32 \<Rightarrow> nat" where
  "compute_bit2idx x = length (takeWhile (\<lambda>i. \<not> bit x i) [0..<32])"

section \<open>Small bins\<close>

definition insert_small_chunk :: "nat \<Rightarrow> nat \<Rightarrow> mstate \<Rightarrow> mstate res" where
  "insert_small_chunk p s st =
     (let i = small_index s; b = smallbin_at st i in
      res_bind (if \<not> bit (smallmap st) i then Inr (b, st\<lparr>smallmap := smallmap st OR idx2bit i\<rparr>)
                else if fd st b \<ge> least_addr st then Inr (fd st b, st) else ABORT) (\<lambda>(f, s1).
      Inr (poke (at p 24) b (poke (at p 16) f (poke (at f 24) p (poke (at b 16) p s1))))))"

definition unlink_small_chunk :: "nat \<Rightarrow> nat \<Rightarrow> mstate \<Rightarrow> mstate res" where
  "unlink_small_chunk p s st =
     (let f = fd st p; b = bk st p; i = small_index s in
      if f = smallbin_at st i \<or> f \<ge> least_addr st \<and> bk st f = p then
        if b = f then Inr (st\<lparr>smallmap := smallmap st AND NOT (idx2bit i)\<rparr>)
        else if b = smallbin_at st i \<or> b \<ge> least_addr st \<and> fd st b = p then
          Inr (poke (at b 16) f (poke (at f 24) b st))
        else ABORT
      else ABORT)"

definition unlink_first_small_chunk :: "nat \<Rightarrow> nat \<Rightarrow> nat \<Rightarrow> mstate \<Rightarrow> mstate res" where
  "unlink_first_small_chunk b p i st =
     (let f = fd st p in
      if b = f then Inr (st\<lparr>smallmap := smallmap st AND NOT (idx2bit i)\<rparr>)
      else if f \<ge> least_addr st \<and> bk st f = p then Inr (poke (at b 16) f (poke (at f 24) b st))
      else ABORT)"

definition replace_dv :: "nat \<Rightarrow> nat \<Rightarrow> mstate \<Rightarrow> mstate res" where
  "replace_dv p s st =
     res_bind (if dvsize st \<noteq> 0 then insert_small_chunk (dv st) (dvsize st) st else Inr st) (\<lambda>s1.
       Inr (s1\<lparr>dvsize := s, dv := p\<rparr>))"

section \<open>Trees\<close>

text \<open>The loop of \<open>insert_large_chunk\<close>: \<open>k\<close> holds the remaining bits of the size, the next one on top.\<close>

primrec insert_walk :: "nat \<Rightarrow> nat \<Rightarrow> nat \<Rightarrow> nat \<Rightarrow> nat \<Rightarrow> mstate \<Rightarrow> mstate res" where
  "insert_walk 0 x s t k st = Inl OutOfFuel"
| "insert_walk (Suc fuel) x s t k st =
     (if chunksize st t \<noteq> s then
        let c = at t (32 + 8 * (k div 2 ^ 63)) in
        if words st c \<noteq> 0 then insert_walk fuel x s (words st c) (2 * k mod 2 ^ 64) st
        else if c \<ge> least_addr st then
          Inr (poke (at x 16) x (poke (at x 24) x (poke (at x 48) t (poke c x st))))
        else ABORT
      else
        let f = fd st t in
        if t \<ge> least_addr st \<and> f \<ge> least_addr st then
          Inr (poke (at x 48) 0 (poke (at x 24) t (poke (at x 16) f (poke (at t 16) x (poke (at f 24) x st)))))
        else ABORT)"

definition insert_large_chunk :: "nat \<Rightarrow> nat \<Rightarrow> mstate \<Rightarrow> mstate res" where
  "insert_large_chunk x s st =
     (let i = compute_tree_index s; h = treebin_at st i;
          s1 = poke (at x 32) 0 (poke (at x 40) 0 (poke (at x 56) i st)) in
      if \<not> bit (treemap st) i then
        Inr (poke (at x 16) x (poke (at x 24) x (poke (at x 48) h (poke h x (s1\<lparr>treemap := treemap st OR idx2bit i\<rparr>)))))
      else insert_walk 65 x s (words s1 h) (s * 2 ^ leftshift_for_tree_index i mod 2 ^ 64) s1)"

text \<open>The search for a leaf to take the place of a node; the result is the field that points to the leaf.\<close>

primrec unlink_walk :: "nat \<Rightarrow> nat \<Rightarrow> mstate \<Rightarrow> nat res" where
  "unlink_walk 0 rp st = Inl OutOfFuel"
| "unlink_walk (Suc fuel) rp st =
     (let r = words st rp in
      if child1 st r \<noteq> 0 then unlink_walk fuel (at r 40) st
      else if child0 st r \<noteq> 0 then unlink_walk fuel (at r 32) st
      else Inr rp)"

definition unlink_replacement :: "nat \<Rightarrow> mstate \<Rightarrow> (nat \<times> mstate) res" where
  "unlink_replacement x st =
     (if bk st x \<noteq> x then
        let f = fd st x; r = bk st x in
        if f \<ge> least_addr st \<and> bk st f = x \<and> fd st r = x then Inr (r, poke (at r 16) f (poke (at f 24) r st)) else ABORT
      else if child1 st x \<noteq> 0 \<or> child0 st x \<noteq> 0 then
        res_bind (unlink_walk 65 (if child1 st x \<noteq> 0 then at x 40 else at x 32) st) (\<lambda>rp.
          if rp \<ge> least_addr st then Inr (words st rp, poke rp 0 st) else ABORT)
      else Inr (0, st))"

definition adopt_child :: "nat \<Rightarrow> nat \<Rightarrow> nat \<Rightarrow> mstate \<Rightarrow> mstate res" where
  "adopt_child x r f st =
     (let c = words st (at x f) in
      if c = 0 then Inr st
      else if c \<ge> least_addr st then Inr (poke (at c 48) r (poke (at r f) c st)) else ABORT)"

text \<open>The parent and the children of \<open>x\<close> are linked to its replacement \<open>r\<close>.\<close>

definition relink :: "nat \<Rightarrow> nat \<Rightarrow> nat \<Rightarrow> mstate \<Rightarrow> mstate res" where
  "relink x xp r st =
     (let h = treebin_at st (index st x) in
      res_bind
        (if words st h = x then
           let s2 = poke h r st in
           Inr (if r = 0 then s2\<lparr>treemap := treemap s2 AND NOT (idx2bit (index s2 x))\<rparr> else s2)
         else if xp \<ge> least_addr st then
           Inr (if child0 st xp = x then poke (at xp 32) r st else poke (at xp 40) r st)
         else ABORT) (\<lambda>s3.
      if r = 0 then Inr s3
      else if r \<ge> least_addr s3 then
        res_bind (adopt_child x r 32 (poke (at r 48) xp s3)) (adopt_child x r 40)
      else ABORT))"

definition unlink_large_chunk :: "nat \<Rightarrow> mstate \<Rightarrow> mstate res" where
  "unlink_large_chunk x st =
     (let xp = parent st x in
      res_bind (unlink_replacement x st) (\<lambda>(r, s1). if xp = 0 then Inr s1 else relink x xp r s1))"

definition insert_chunk :: "nat \<Rightarrow> nat \<Rightarrow> mstate \<Rightarrow> mstate res" where
  "insert_chunk p s st = (if is_small s then insert_small_chunk p s st else insert_large_chunk p s st)"

definition unlink_chunk :: "nat \<Rightarrow> nat \<Rightarrow> mstate \<Rightarrow> mstate res" where
  "unlink_chunk p s st = (if is_small s then unlink_small_chunk p s st else unlink_large_chunk p st)"

section \<open>Allocation from trees\<close>

definition leftmost_child :: "mstate \<Rightarrow> nat \<Rightarrow> nat" where
  "leftmost_child st t = (if child0 st t \<noteq> 0 then child0 st t else child1 st t)"

text \<open>The loop that looks for a node of exactly the size; the result is the subtree to go on with, the best node and its remainder.\<close>

primrec best_walk :: "nat \<Rightarrow> nat \<Rightarrow> nat \<Rightarrow> nat \<Rightarrow> nat \<Rightarrow> nat \<Rightarrow> nat \<Rightarrow> mstate \<Rightarrow> (nat \<times> nat \<times> nat) res" where
  "best_walk 0 nb t sizebits v rsize rst st = Inl OutOfFuel"
| "best_walk (Suc fuel) nb t sizebits v rsize rst st =
     (let trem = minus64 (chunksize st t) nb;
          (v', rsize') = (if trem < rsize then (t, trem) else (v, rsize)) in
      if trem < rsize \<and> trem = 0 then Inr (t, v', rsize')
      else
        let rt = child1 st t; t' = words st (at t (32 + 8 * (sizebits div 2 ^ 63)));
            rst' = (if rt \<noteq> 0 \<and> rt \<noteq> t' then rt else rst) in
        if t' = 0 then Inr (rst', v', rsize')
        else best_walk fuel nb t' (2 * sizebits mod 2 ^ 64) v' rsize' rst' st)"

primrec smallest_walk :: "nat \<Rightarrow> nat \<Rightarrow> nat \<Rightarrow> nat \<Rightarrow> nat \<Rightarrow> mstate \<Rightarrow> (nat \<times> nat) res" where
  "smallest_walk 0 nb t v rsize st = Inl OutOfFuel"
| "smallest_walk (Suc fuel) nb t v rsize st =
     (if t = 0 then Inr (v, rsize)
      else
        let trem = minus64 (chunksize st t) nb in
        if trem < rsize then smallest_walk fuel nb (leftmost_child st t) t trem st
        else smallest_walk fuel nb (leftmost_child st t) v rsize st)"

definition tmalloc_large :: "nat \<Rightarrow> mstate \<Rightarrow> (nat \<times> mstate) res" where
  "tmalloc_large nb st =
     (let idx = compute_tree_index nb; t0 = words st (treebin_at st idx); r0 = minus64 0 nb in
      res_bind (if t0 \<noteq> 0 then best_walk 65 nb t0 (nb * 2 ^ leftshift_for_tree_index idx mod 2 ^ 64) 0 r0 0 st
                else Inr (0, 0, r0)) (\<lambda>(t1, v1, rsize1).
      let leftbits = left_bits (idx2bit idx) AND treemap st;
          t2 = (if t1 = 0 \<and> v1 = 0 \<and> leftbits \<noteq> 0
                then words st (treebin_at st (compute_bit2idx (least_bit leftbits))) else t1) in
      res_bind (smallest_walk 66 nb t2 v1 rsize1 st) (\<lambda>(v, rsize).
      if v \<noteq> 0 \<and> rsize < minus64 (dvsize st) nb then
        if v \<ge> least_addr st \<and> v < v + nb then
          res_bind (unlink_large_chunk v st) (\<lambda>s1.
          if rsize < MIN_CHUNK_SIZE then Inr (chunk2mem v, set_inuse_and_pinuse v (rsize + nb) s1)
          else
            res_bind (insert_chunk (v + nb) rsize
               (set_size_and_pinuse_of_free_chunk (v + nb) rsize (set_size_and_pinuse_of_inuse_chunk v nb s1))) (\<lambda>s2.
            Inr (chunk2mem v, s2)))
        else ABORT
      else Inr (0, st))))"

definition tmalloc_small :: "nat \<Rightarrow> mstate \<Rightarrow> (nat \<times> mstate) res" where
  "tmalloc_small nb st =
     (let t = words st (treebin_at st (compute_bit2idx (least_bit (treemap st)))) in
      res_bind (smallest_walk 66 nb (leftmost_child st t) t (minus64 (chunksize st t) nb) st) (\<lambda>(v, rsize).
      if v \<ge> least_addr st \<and> v < v + nb then
        res_bind (unlink_large_chunk v st) (\<lambda>s1.
        if rsize < MIN_CHUNK_SIZE then Inr (chunk2mem v, set_inuse_and_pinuse v (rsize + nb) s1)
        else
          res_bind (replace_dv (v + nb) rsize
             (set_size_and_pinuse_of_free_chunk (v + nb) rsize (set_size_and_pinuse_of_inuse_chunk v nb s1))) (\<lambda>s2.
          Inr (chunk2mem v, s2)))
      else ABORT))"

section \<open>System memory\<close>

text \<open>
  Without \<open>mmap\<close> and \<open>sbrk\<close> there is nothing to ask: \<open>sys_alloc\<close> fails, and \<open>sys_trim\<close> only
  turns itself off. \<open>release_unused_segments\<close> finds no segment after the first and resets its counter.
\<close>

definition sys_alloc :: "nat \<Rightarrow> mstate \<Rightarrow> nat \<times> mstate" where
  "sys_alloc nb st = (0, st)"

definition sys_trim :: "nat \<Rightarrow> mstate \<Rightarrow> mstate" where
  "sys_trim pad st =
     (if pad < MAX_REQUEST \<and> top_chunk st \<noteq> 0 \<and> topsize st > trim_check st then st\<lparr>trim_check := MAX_SIZE_T\<rparr> else st)"

definition release_unused_segments :: "mstate \<Rightarrow> mstate" where
  "release_unused_segments st = st\<lparr>release_checks := MAX_SIZE_T\<rparr>"

section \<open>malloc\<close>

text \<open>The end of \<open>mspace_malloc\<close>: the designated victim, the top chunk, the system.\<close>

definition malloc_dv_top :: "nat \<Rightarrow> mstate \<Rightarrow> nat \<times> mstate" where
  "malloc_dv_top nb st =
     (if nb \<le> dvsize st then
        let rsize = dvsize st - nb; p = dv st in
        if rsize \<ge> MIN_CHUNK_SIZE then
          (chunk2mem p, set_size_and_pinuse_of_inuse_chunk p nb
             (set_size_and_pinuse_of_free_chunk (p + nb) rsize (st\<lparr>dv := p + nb, dvsize := rsize\<rparr>)))
        else (chunk2mem p, set_inuse_and_pinuse p (dvsize st) (st\<lparr>dvsize := 0, dv := 0\<rparr>))
      else if nb < topsize st then
        let rsize = topsize st - nb; p = top_chunk st in
        (chunk2mem p, set_size_and_pinuse_of_inuse_chunk p nb
           (poke (at (p + nb) 8) (rsize OR 1) (st\<lparr>topsize := rsize, top_chunk := p + nb\<rparr>)))
      else sys_alloc nb st)"

definition malloc_small :: "nat \<Rightarrow> mstate \<Rightarrow> (nat \<times> mstate) res" where
  "malloc_small nb st =
     (let idx = small_index nb; smallbits = drop_bit idx (smallmap st) in
      if smallbits AND 3 \<noteq> 0 then
        let i = (if bit smallbits 0 then idx else idx + 1); b = smallbin_at st i; p = fd st b in
        res_bind (unlink_first_small_chunk b p i st) (\<lambda>s1.
          Inr (chunk2mem p, set_inuse_and_pinuse p (small_index2size i) s1))
      else if nb > dvsize st then
        if smallbits \<noteq> 0 then
          let leftbits = push_bit idx smallbits AND left_bits (idx2bit idx);
              i = compute_bit2idx (least_bit leftbits); b = smallbin_at st i; p = fd st b in
          res_bind (unlink_first_small_chunk b p i st) (\<lambda>s1.
          let rsize = small_index2size i - nb in
          if rsize < MIN_CHUNK_SIZE then Inr (chunk2mem p, set_inuse_and_pinuse p (small_index2size i) s1)
          else
            res_bind (replace_dv (p + nb) rsize
               (set_size_and_pinuse_of_free_chunk (p + nb) rsize (set_size_and_pinuse_of_inuse_chunk p nb s1))) (\<lambda>s2.
            Inr (chunk2mem p, s2)))
        else if treemap st \<noteq> 0 then
          res_bind (tmalloc_small nb st) (\<lambda>(mem, s1). if mem \<noteq> 0 then Inr (mem, s1) else Inr (malloc_dv_top nb s1))
        else Inr (malloc_dv_top nb st)
      else Inr (malloc_dv_top nb st))"

definition mspace_malloc :: "nat \<Rightarrow> mstate \<Rightarrow> (nat \<times> mstate) res" where
  "mspace_malloc nbytes st =
     (if nbytes \<le> MAX_SMALL_REQUEST then malloc_small (request2size nbytes) st
      else if nbytes \<ge> MAX_REQUEST then Inr (malloc_dv_top MAX_SIZE_T st)
      else
        let nb = pad_request nbytes in
        if treemap st \<noteq> 0 then
          res_bind (tmalloc_large nb st) (\<lambda>(mem, s1). if mem \<noteq> 0 then Inr (mem, s1) else Inr (malloc_dv_top nb s1))
        else Inr (malloc_dv_top nb st))"

section \<open>free\<close>

text \<open>
  Merging with the chunk before and the chunk behind, which \<open>mspace_free\<close> and \<open>dispose_chunk\<close> share. A result \<open>Inl\<close> is
  the state in which the function returns; \<open>Inr\<close> is the chunk to go on with.
\<close>

type_synonym consolidated = "mstate + nat \<times> nat \<times> mstate"

definition consolidate_backward :: "nat \<Rightarrow> nat \<Rightarrow> nat \<Rightarrow> mstate \<Rightarrow> consolidated res" where
  "consolidate_backward p psize nxt st =
     (if pinuse st p then Inr (Inr (p, psize, st))
      else if is_mmapped st p then Inr (Inl st)
      else
        let prevsize = prev_foot st p; prev = minus64 p prevsize; psize' = psize + prevsize in
        if prev \<ge> least_addr st then
          if prev \<noteq> dv st then res_bind (unlink_chunk prev prevsize st) (\<lambda>s1. Inr (Inr (prev, psize', s1)))
          else if head st nxt mod 4 = 3 then
            Inr (Inl (set_free_with_pinuse prev psize' nxt (st\<lparr>dvsize := psize'\<rparr>)))
          else Inr (Inr (prev, psize', st))
        else ABORT)"

definition consolidate_forward :: "(nat \<Rightarrow> mstate \<Rightarrow> mstate) \<Rightarrow> nat \<Rightarrow> nat \<Rightarrow> nat \<Rightarrow> mstate \<Rightarrow> consolidated res" where
  "consolidate_forward trim p psize nxt st =
     (if \<not> cinuse st nxt then
        if nxt = top_chunk st then
          let tsize = topsize st + psize;
              s1 = poke (at p 8) (tsize OR 1) (st\<lparr>topsize := tsize, top_chunk := p\<rparr>);
              s2 = (if p = dv s1 then s1\<lparr>dv := 0, dvsize := 0\<rparr> else s1) in
          Inr (Inl (trim tsize s2))
        else if nxt = dv st then
          let dsize = dvsize st + psize in
          Inr (Inl (set_size_and_pinuse_of_free_chunk p dsize (st\<lparr>dvsize := dsize, dv := p\<rparr>)))
        else
          let nsize = chunksize st nxt; psize' = psize + nsize in
          res_bind (unlink_chunk nxt nsize st) (\<lambda>s1.
          let s2 = set_size_and_pinuse_of_free_chunk p psize' s1 in
          Inr (if p = dv s2 then Inl (s2\<lparr>dvsize := psize'\<rparr>) else Inr (p, psize', s2)))
      else Inr (Inr (p, psize, set_free_with_pinuse p psize nxt st)))"

definition should_trim :: "nat \<Rightarrow> mstate \<Rightarrow> mstate" where
  "should_trim tsize st = (if tsize > trim_check st then sys_trim 0 st else st)"

definition free_insert :: "nat \<Rightarrow> nat \<Rightarrow> mstate \<Rightarrow> mstate res" where
  "free_insert p psize st =
     (if is_small psize then insert_small_chunk p psize st
      else res_bind (insert_large_chunk p psize st) (\<lambda>s1.
        let s2 = s1\<lparr>release_checks := minus64 (release_checks s1) 1\<rparr> in
        Inr (if release_checks s2 = 0 then release_unused_segments s2 else s2)))"

definition mspace_free :: "nat \<Rightarrow> mstate \<Rightarrow> mstate res" where
  "mspace_free mem st =
     (if mem = 0 then Inr st
      else
        let p0 = mem2chunk mem in
        if p0 \<ge> least_addr st \<and> is_inuse st p0 then
          let psize0 = chunksize st p0; nxt = p0 + psize0 in
          res_bind (consolidate_backward p0 psize0 nxt st) (\<lambda>back.
          case back of Inl s1 \<Rightarrow> Inr s1
          | Inr (p, psize, s1) \<Rightarrow>
              if p < nxt \<and> pinuse s1 nxt then
                res_bind (consolidate_forward should_trim p psize nxt s1) (\<lambda>forw.
                case forw of Inl s2 \<Rightarrow> Inr s2
                | Inr (p, psize, s2) \<Rightarrow> free_insert p psize s2)
              else ABORT)
        else ABORT)"

definition dispose_chunk :: "nat \<Rightarrow> nat \<Rightarrow> mstate \<Rightarrow> mstate res" where
  "dispose_chunk p0 psize0 st =
     (let nxt = p0 + psize0 in
      res_bind (consolidate_backward p0 psize0 nxt st) (\<lambda>back.
      case back of Inl s1 \<Rightarrow> Inr s1
      | Inr (p, psize, s1) \<Rightarrow>
          if nxt \<ge> least_addr s1 then
            res_bind (consolidate_forward (\<lambda>_ s. s) p psize nxt s1) (\<lambda>forw.
            case forw of Inl s2 \<Rightarrow> Inr s2
            | Inr (p, psize, s2) \<Rightarrow> insert_chunk p psize s2)
          else ABORT))"

section \<open>realloc, memalign, calloc\<close>

text \<open>\<open>granularity\<close> is 64 KiB; there is no \<open>mremap\<close>.\<close>

definition mmap_resize :: "nat \<Rightarrow> nat \<Rightarrow> mstate \<Rightarrow> nat" where
  "mmap_resize oldp nb st =
     (let oldsize = chunksize st oldp in
      if is_small nb then 0 else if oldsize \<ge> nb + 8 \<and> oldsize - nb \<le> 2 * 0x10000 then oldp else 0)"

definition try_realloc_chunk :: "nat \<Rightarrow> nat \<Rightarrow> mstate \<Rightarrow> (nat \<times> mstate) res" where
  "try_realloc_chunk p nb st =
     (let oldsize = chunksize st p; nxt = p + oldsize in
      if p \<ge> least_addr st \<and> is_inuse st p \<and> p < nxt \<and> pinuse st nxt then
        if is_mmapped st p then Inr (mmap_resize p nb st, st)
        else if oldsize \<ge> nb then
          let rsize = oldsize - nb in
          if rsize \<ge> MIN_CHUNK_SIZE then
            res_bind (dispose_chunk (p + nb) rsize (set_inuse (p + nb) rsize (set_inuse p nb st))) (\<lambda>s1. Inr (p, s1))
          else Inr (p, st)
        else if nxt = top_chunk st then
          if oldsize + topsize st > nb then
            let newtopsize = oldsize + topsize st - nb in
            Inr (p, (poke (at (p + nb) 8) (newtopsize OR 1) (set_inuse p nb st))\<lparr>top_chunk := p + nb, topsize := newtopsize\<rparr>)
          else Inr (0, st)
        else if nxt = dv st then
          if oldsize + dvsize st \<ge> nb then
            let dsize = oldsize + dvsize st - nb in
            if dsize \<ge> MIN_CHUNK_SIZE then
              Inr (p, (clear_pinuse (p + nb + dsize) (set_size_and_pinuse_of_free_chunk (p + nb) dsize (set_inuse p nb st)))
                        \<lparr>dvsize := dsize, dv := p + nb\<rparr>)
            else Inr (p, (set_inuse p (oldsize + dvsize st) st)\<lparr>dvsize := 0, dv := 0\<rparr>)
          else Inr (0, st)
        else if \<not> cinuse st nxt then
          let nextsize = chunksize st nxt in
          if oldsize + nextsize \<ge> nb then
            let rsize = oldsize + nextsize - nb in
            res_bind (unlink_chunk nxt nextsize st) (\<lambda>s1.
            if rsize < MIN_CHUNK_SIZE then Inr (p, set_inuse p (oldsize + nextsize) s1)
            else res_bind (dispose_chunk (p + nb) rsize (set_inuse (p + nb) rsize (set_inuse p nb s1))) (\<lambda>s2. Inr (p, s2)))
          else Inr (0, st)
        else Inr (0, st)
      else ABORT)"

text \<open>Moving and clearing bytes in a memory of words: the last word may be touched in part.\<close>

definition memcpy :: "nat \<Rightarrow> nat \<Rightarrow> nat \<Rightarrow> mstate \<Rightarrow> mstate" where
  "memcpy dst src n st = st\<lparr>words := (\<lambda>a.
     if dst \<le> a \<and> a < dst + n then
       let k = dst + n - a; w = words st (src + (a - dst)) in
       if k \<ge> 8 then w else words st a div 256 ^ k * 256 ^ k + w mod 256 ^ k
     else words st a)\<rparr>"

definition memclear :: "nat \<Rightarrow> nat \<Rightarrow> mstate \<Rightarrow> mstate" where
  "memclear dst n st = st\<lparr>words := (\<lambda>a.
     if dst \<le> a \<and> a < dst + n then
       let k = dst + n - a in if k \<ge> 8 then 0 else words st a div 256 ^ k * 256 ^ k
     else words st a)\<rparr>"

definition mspace_realloc :: "nat \<Rightarrow> nat \<Rightarrow> mstate \<Rightarrow> (nat \<times> mstate) res" where
  "mspace_realloc oldmem nbytes st =
     (if oldmem = 0 then mspace_malloc nbytes st
      else if nbytes \<ge> MAX_REQUEST then Inr (0, st)
      else
        let nb = request2size nbytes; oldp = mem2chunk oldmem in
        res_bind (try_realloc_chunk oldp nb st) (\<lambda>(newp, s1).
        if newp \<noteq> 0 then Inr (chunk2mem newp, s1)
        else res_bind (mspace_malloc nbytes s1) (\<lambda>(mem, s2).
          if mem \<noteq> 0 then
            let oc = chunksize s2 oldp - (if is_mmapped s2 oldp then 16 else 8) in
            res_bind (mspace_free oldmem (memcpy mem oldmem (if oc < nbytes then oc else nbytes) s2)) (\<lambda>s3. Inr (mem, s3))
          else Inr (mem, s2))))"

text \<open>The request of \<open>calloc\<close>: when the product does not fit, one that cannot be met.\<close>

definition calloc_request :: "nat \<Rightarrow> nat \<Rightarrow> nat" where
  "calloc_request n_elements elem_size =
     (let prod = n_elements * elem_size mod 2 ^ 64 in
      if n_elements = 0 then 0
      else if (n_elements OR elem_size) \<ge> 0x10000 \<and> prod div n_elements \<noteq> elem_size then MAX_SIZE_T else prod)"

definition mspace_calloc :: "nat \<Rightarrow> nat \<Rightarrow> mstate \<Rightarrow> (nat \<times> mstate) res" where
  "mspace_calloc n_elements elem_size st =
     (let req = calloc_request n_elements elem_size in
      res_bind (mspace_malloc req st) (\<lambda>(mem, s1).
        Inr (if mem \<noteq> 0 then (mem, memclear mem req s1) else (mem, s1))))"

text \<open>The loop that rounds an alignment up to a power of two; it does not end above \<open>2 ^ 63\<close>.\<close>

primrec round_alignment :: "nat \<Rightarrow> nat \<Rightarrow> nat \<Rightarrow> nat res" where
  "round_alignment 0 a alignment = Inl SystemHang"
| "round_alignment (Suc fuel) a alignment =
     (if a < alignment then round_alignment fuel (2 * a mod 2 ^ 64) alignment else Inr a)"

text \<open>An aligned place in a chunk: what is before it and what is behind it are given back.\<close>

definition give_lead :: "nat \<Rightarrow> nat \<Rightarrow> mstate \<Rightarrow> (nat \<times> mstate) res" where
  "give_lead alignment mem st =
     (let p = mem2chunk mem in
      if mem mod alignment \<noteq> 0 then
        let br = mem2chunk ((mem + alignment - 1) div alignment * alignment);
            newp = (if br - p \<ge> MIN_CHUNK_SIZE then br else br + alignment);
            leadsize = newp - p; newsize = chunksize st p - leadsize in
        if is_mmapped st p then
          Inr (newp, poke (at newp 8) newsize (poke (at newp 0) (prev_foot st p + leadsize) st))
        else res_bind (dispose_chunk p leadsize (set_inuse p leadsize (set_inuse newp newsize st))) (\<lambda>s1. Inr (newp, s1))
      else Inr (p, st))"

definition give_spare :: "nat \<Rightarrow> nat \<Rightarrow> mstate \<Rightarrow> mstate res" where
  "give_spare nb p st =
     (if \<not> is_mmapped st p \<and> chunksize st p > nb + MIN_CHUNK_SIZE then
        let remainder_size = chunksize st p - nb; remainder = p + nb in
        dispose_chunk remainder remainder_size (set_inuse remainder remainder_size (set_inuse p nb st))
      else Inr st)"

definition internal_memalign :: "nat \<Rightarrow> nat \<Rightarrow> mstate \<Rightarrow> (nat \<times> mstate) res" where
  "internal_memalign alignment0 nbytes st =
     (let alignment1 = (if alignment0 < MIN_CHUNK_SIZE then MIN_CHUNK_SIZE else alignment0) in
      res_bind (if alignment1 AND (alignment1 - 1) \<noteq> 0 then round_alignment 60 64 alignment1 else Inr alignment1) (\<lambda>alignment.
      if nbytes \<ge> minus64 MAX_REQUEST alignment then Inr (0, st)
      else
        let nb = request2size nbytes in
        res_bind (mspace_malloc (nb + alignment + MIN_CHUNK_SIZE - 8) st) (\<lambda>(mem, s1).
        if mem = 0 then Inr (0, s1)
        else
          res_bind (give_lead alignment mem s1) (\<lambda>(p, s2).
          res_bind (give_spare nb p s2) (\<lambda>s3. Inr (chunk2mem p, s3))))))"

definition mspace_memalign :: "nat \<Rightarrow> nat \<Rightarrow> mstate \<Rightarrow> (nat \<times> mstate) res" where
  "mspace_memalign alignment nbytes st =
     (if alignment \<le> 32 then mspace_malloc nbytes st else internal_memalign alignment nbytes st)"

section \<open>Creation\<close>

definition state_size :: nat where "state_size = 936" \<comment> \<open>\<open>sizeof(struct malloc_state)\<close>\<close>
definition msize :: nat where "msize = pad_request state_size"
definition page_size :: nat where "page_size = 2 * 1024 * 1024"

definition init_top :: "nat \<Rightarrow> nat \<Rightarrow> mstate \<Rightarrow> mstate" where
  "init_top p0 psize0 st =
     (let off = align_offset (chunk2mem p0); p = p0 + off; psize = minus64 psize0 off in
      (poke (at ((p + psize) mod 2 ^ 64) 8) TOP_FOOT_SIZE (poke (at p 8) (psize OR 1) (st\<lparr>top_chunk := p, topsize := psize\<rparr>)))
        \<lparr>trim_check := 2 * 1024 * 1024\<rparr>)"

definition init_bins :: "mstate \<Rightarrow> mstate" where
  "init_bins st = fold (\<lambda>i s. poke (at (smallbin_at st i) 16) (smallbin_at st i) (poke (at (smallbin_at st i) 24) (smallbin_at st i) s))
     [0..<32] st"

definition init_user_mstate :: "nat \<Rightarrow> nat \<Rightarrow> (nat \<Rightarrow> nat) \<Rightarrow> mstate" where
  "init_user_mstate tbase tsize mem =
     (let msp = tbase + align_offset (chunk2mem tbase); m = chunk2mem msp;
          st = memclear m msize \<lparr>smallmap = 0, treemap = 0, dvsize = 0, topsize = 0, least_addr = tbase, dv = 0, top_chunk = 0,
                 trim_check = 0, release_checks = MAX_SIZE_T, maddr = m, words = mem\<rparr>;
          s1 = init_bins (poke (at msp 8) (msize OR 3) st); mn = msp + chunksize s1 msp in
      init_top mn (minus64 (minus64 (tbase + tsize) mn) TOP_FOOT_SIZE) s1)"

definition create_mspace_with_base :: "nat \<Rightarrow> nat \<Rightarrow> (nat \<Rightarrow> nat) \<Rightarrow> mstate option" where
  "create_mspace_with_base base capacity mem =
     (if capacity > msize + TOP_FOOT_SIZE \<and> capacity < 2 ^ 64 - (msize + TOP_FOOT_SIZE + page_size)
      then Some (init_user_mstate base capacity mem) else None)"

end
