(* ===== verification/DlBins.thy ===== *)
theory DlBins
  imports Dlmalloc
begin

text \<open>
  The bins of the allocator as an abstract data type: they hold a finite set of free chunks, given as a partial function
  \<open>fr\<close> from addresses to sizes. Small chunks lie in circular lists, one for each size; large chunks in tries that branch on the
  bits of the size, with chunks of equal size in a circular list at the node. \<open>bins st fr\<close> says that the words in memory
  represent \<open>fr\<close>; insertion and removal are shown to update \<open>fr\<close> and to write only to bin headers and free chunks.
\<close>

section \<open>Circular lists\<close>

text \<open>\<open>seg m a xs b\<close>: from \<open>a\<close> the forward links lead through \<open>xs\<close> to \<open>b\<close>, the backward links back.\<close>

primrec seg :: "(nat \<Rightarrow> nat) \<Rightarrow> nat \<Rightarrow> nat list \<Rightarrow> nat \<Rightarrow> bool" where
  "seg m a [] b \<longleftrightarrow> m (at a 16) = b \<and> m (at b 24) = a"
| "seg m a (x # xs) b \<longleftrightarrow> m (at a 16) = x \<and> m (at x 24) = a \<and> seg m x xs b"

lemma seg_append: "seg m a (xs @ y # ys) b \<longleftrightarrow> seg m a xs y \<and> seg m y ys b"
  by (induction xs arbitrary: a) auto

lemma seg_cong:
  "(\<And>x. x \<in> insert a (set xs) \<Longrightarrow> m' (at x 16) = m (at x 16)) \<Longrightarrow> (\<And>x. x \<in> insert b (set xs) \<Longrightarrow> m' (at x 24) = m (at x 24)) \<Longrightarrow>
   seg m' a xs b = seg m a xs b"
  by (induction xs arbitrary: a) auto

lemma seg_first: "seg m a xs b \<Longrightarrow> m (at a 16) = hd (xs @ [b])"
  by (cases xs) auto

lemma seg_last: "seg m a xs b \<Longrightarrow> m (at b 24) = last (a # xs)"
  by (induction xs arbitrary: a) auto

text \<open>
  \<open>cells A F\<close>: the fields with offsets in \<open>F\<close> of the objects in \<open>A\<close> do not overlap. Under this condition an update of
  one field is an update of one cell.
\<close>

definition cells :: "nat set \<Rightarrow> nat set \<Rightarrow> bool" where
  "cells A F \<longleftrightarrow> (\<forall>a \<in> A. \<forall>b \<in> A. \<forall>f \<in> F. \<forall>g \<in> F. at a f = at b g \<longrightarrow> a = b \<and> f = g)"

lemma cells_iff: "cells A F \<Longrightarrow> a \<in> A \<Longrightarrow> b \<in> A \<Longrightarrow> f \<in> F \<Longrightarrow> g \<in> F \<Longrightarrow> at a f = at b g \<longleftrightarrow> a = b \<and> f = g"
  unfolding cells_def by blast

lemma cells_mono: "cells A F \<Longrightarrow> B \<subseteq> A \<Longrightarrow> G \<subseteq> F \<Longrightarrow> cells B G"
  unfolding cells_def by blast

lemma seg_upd:
  assumes "cells A F" "{16, 24} \<subseteq> F" "y \<in> A" "g \<in> F" "insert a (insert b (set xs)) \<subseteq> A" "y \<notin> insert a (insert b (set xs)) \<or> g \<notin> {16, 24}"
  shows "seg (m(at y g := v)) a xs b = seg m a xs b"
proof (rule seg_cong)
  have ne: "at x f \<noteq> at y g" if "x \<in> insert a (insert b (set xs))" "f \<in> {16, 24}" for x f
    using that assms cells_iff [OF assms(1), of x y f g] by blast
  then show "(m(at y g := v)) (at x 16) = m (at x 16)" if "x \<in> insert a (set xs)" for x using that by auto
  show "(m(at y g := v)) (at x 24) = m (at x 24)" if "x \<in> insert b (set xs)" for x using that ne by auto
qed

lemma ring_insert:
  assumes "cells A {16, 24}" "set (a # p # xs) \<subseteq> A" "distinct (a # p # xs)" "xs \<noteq> [] \<Longrightarrow> seg m a xs a" "f = hd (xs @ [a])"
  shows "seg (m(at a 16 := p, at f 24 := p, at p 16 := f, at p 24 := a)) a (p # xs) a"
proof -
  note c [simp] = cells_iff [OF assms(1)]
  have [simp]: "a \<in> A" "p \<in> A" "a \<noteq> p" "p \<noteq> a" using assms(2,3) by auto
  show ?thesis
  proof (cases xs)
    case (Cons z zs)
    then have z [simp]: "f = z" "z \<in> A" "z \<noteq> p" "z \<noteq> a" "a \<noteq> z" "p \<noteq> z" "set zs \<subseteq> A" using assms(2,3,5) by auto
    have m: "m (at a 16) = z" "m (at z 24) = a" "seg m z zs a" using assms(4) Cons by auto
    have eq: "(m(at a 16 := p, at z 24 := p, at p 16 := z, at p 24 := a)) (at x 16) = m (at x 16)" if "x \<in> insert z (set zs)" for x
    proof -
      have "x \<in> A" "x \<noteq> a" "x \<noteq> p" using that assms(3) Cons subsetD [OF z(7), of x] by auto
      then show ?thesis by simp
    qed
    have eq2: "(m(at a 16 := p, at z 24 := p, at p 16 := z, at p 24 := a)) (at x 24) = m (at x 24)" if "x \<in> insert a (set zs)" for x
    proof -
      have "x \<in> A" "x \<noteq> z" "x \<noteq> p" using that assms(3) Cons subsetD [OF z(7), of x] by auto
      then show ?thesis by simp
    qed
    have "seg (m(at a 16 := p, at z 24 := p, at p 16 := z, at p 24 := a)) z zs a" using seg_cong [OF eq eq2] m(3) by blast
    then show ?thesis using Cons by simp
  qed (use assms(5) in simp)
qed

text \<open>An element is taken out by linking its neighbours.\<close>

lemma seg_remove:
  assumes "seg m a xs y" "seg m y ys b" "distinct (a # xs @ ys)" "b \<notin> set xs" "b \<notin> set ys"
    "m' (at (last (a # xs)) 16) = hd (ys @ [b])" "m' (at (hd (ys @ [b])) 24) = last (a # xs)"
    "\<And>x. x \<in> insert a (set (xs @ ys)) \<Longrightarrow> x \<noteq> last (a # xs) \<Longrightarrow> m' (at x 16) = m (at x 16)"
    "\<And>x. x \<in> insert b (set (xs @ ys)) \<Longrightarrow> x \<noteq> hd (ys @ [b]) \<Longrightarrow> m' (at x 24) = m (at x 24)"
  shows "seg m' a (xs @ ys) b"
  using assms
proof (induction xs arbitrary: a)
  case Nil
  show ?case
  proof (cases ys)
    case (Cons z zs)
    then have "seg m' z zs b = seg m z zs b" using Nil.prems by (intro seg_cong) auto
    then show ?thesis using Nil.prems Cons by auto
  qed (use Nil.prems in auto)
next
  case (Cons x xs)
  have ne: "hd (ys @ [b]) \<noteq> x" using Cons.prems(3,4) by (cases ys) auto
  have "seg m' x (xs @ ys) b"
    by (rule Cons.IH) (use Cons.prems in \<open>auto split: if_splits\<close>)
  moreover have "m' (at a 16) = m (at a 16)"
    using Cons.prems(3) last_in_set [of "x # xs"] by (intro Cons.prems(8)) auto
  moreover have "m' (at x 24) = m (at x 24)" using ne by (intro Cons.prems(9)) auto
  ultimately show ?case using Cons.prems(1) by simp
qed

lemma ring_remove:
  assumes "cells A {16, 24}" "set (a # us @ y # vs) \<subseteq> A" "distinct (a # us @ y # vs)" "seg m a (us @ y # vs) a"
    "f = m (at y 16)" "b = m (at y 24)"
  shows "seg (m(at f 24 := b, at b 16 := f)) a (us @ vs) a" "f = hd (vs @ [a])" "b = last (a # us)" "b = f \<longleftrightarrow> us @ vs = []"
    "m (at f 24) = y" "m (at b 16) = y"
proof -
  note c [simp] = cells_iff [OF assms(1)]
  have s: "seg m a us y" "seg m y vs a" using assms(4) by (auto simp: seg_append)
  show f: "f = hd (vs @ [a])" and b: "b = last (a # us)" using seg_first [OF s(2)] seg_last [OF s(1)] assms(5,6) by auto
  have A: "f \<in> A" "b \<in> A" using f b assms(2) last_in_set [of "a # us"] by (cases vs; auto)+
  show "b = f \<longleftrightarrow> us @ vs = []" using f b assms(3) last_in_set [of us] by (cases vs; cases us) (auto split: if_splits)
  show "m (at f 24) = y" using s(2) f by (cases vs) auto
  show "m (at b 16) = y" using s(1) b
  proof -
    have "m (at (last (a # us)) 16) = y" using s(1) by (induction us arbitrary: a) auto
    then show ?thesis using b by simp
  qed
  have in_A: "x \<in> A" if "x \<in> insert a (set (us @ vs))" for x using that assms(2) by auto
  show "seg (m(at f 24 := b, at b 16 := f)) a (us @ vs) a"
  proof (rule seg_remove [OF s])
    show "(m(at f 24 := b, at b 16 := f)) (at x 16) = m (at x 16)" if "x \<in> insert a (set (us @ vs))" "x \<noteq> last (a # us)" for x
      using that b A in_A [OF that(1)] by (simp del: last.simps)
    show "(m(at f 24 := b, at b 16 := f)) (at x 24) = m (at x 24)" if "x \<in> insert a (set (us @ vs))" "x \<noteq> hd (vs @ [a])" for x
      using that f A in_A [OF that(1)] by simp
  qed (use assms(3) f [symmetric] b [symmetric] A in \<open>simp_all del: last.simps\<close>)
qed

section \<open>Addresses\<close>

definition apart :: "nat \<Rightarrow> (nat \<rightharpoonup> nat) \<Rightarrow> bool" where
  "apart M fr \<longleftrightarrow> (\<forall>p s. fr p = Some s \<longrightarrow> 32 \<le> s \<and> s < 2 ^ 40 \<and> 32 dvd s \<and> M + 944 \<le> p \<and> p + s < 2 ^ 63 \<and>
     (\<forall>q. fr q \<noteq> None \<longrightarrow> p < q \<longrightarrow> p + s \<le> q))"

definition hdr :: "nat \<Rightarrow> nat \<Rightarrow> nat" where "hdr M i = M + 72 + 16 * i"
definition tbin :: "nat \<Rightarrow> nat \<Rightarrow> nat" where "tbin M i = M + 600 + 8 * i"

lemma bin_addresses: "smallbin_at st i = hdr (maddr st) i" "treebin_at st i = tbin (maddr st) i"
  by (simp_all add: smallbin_at_def treebin_at_def hdr_def tbin_def)

lemma apartD:
  assumes "apart M fr" "fr p = Some s"
  shows "32 \<le> s" "s < 2 ^ 40" "32 dvd s" "M + 944 \<le> p" "p + s < 2 ^ 63" "p \<noteq> 0"
    "\<And>q. fr q \<noteq> None \<Longrightarrow> p < q \<Longrightarrow> p + s \<le> q"
  using assms unfolding apart_def by (blast, blast, blast, blast, blast, fastforce, blast)

lemma at_inject:
  assumes "apart M fr" "fr x = Some s" "fr y = Some s'" "f < s" "g < s'"
  shows "at x f = at y g \<longleftrightarrow> x = y \<and> f = g"
proof -
  have "x < y \<Longrightarrow> x + s \<le> y" "y < x \<Longrightarrow> y + s' \<le> x" using assms(1-3) by (auto dest: apartD(7))
  then show ?thesis using assms(4,5) by (cases x y rule: linorder_cases) (auto simp: at_def)
qed

lemma cells_large: "apart M fr \<Longrightarrow> (\<And>x. x \<in> A \<Longrightarrow> \<exists>s \<ge> 256. fr x = Some s) \<Longrightarrow> F \<subseteq> {..<256} \<Longrightarrow> cells A F"
  unfolding cells_def using at_inject [of M fr] by (metis lessThan_iff order_less_le_trans subsetD)

lemma hdr_below: "apart M fr \<Longrightarrow> x \<in> dom fr \<Longrightarrow> i < 32 \<Longrightarrow> hdr M i + 100 < x"
  using apartD(4) [of M fr x] by (fastforce simp: hdr_def)

lemma cells_links: "apart M fr \<Longrightarrow> cells (dom fr \<union> hdr M ` {..<32}) {16, 24}"
  unfolding cells_def
proof (intro ballI impI)
  fix a b f g
  assume ap: "apart M fr" and a: "a \<in> dom fr \<union> hdr M ` {..<32}" and b: "b \<in> dom fr \<union> hdr M ` {..<32}"
    and fg: "f \<in> {16, 24 :: nat}" "g \<in> {16, 24 :: nat}" and eq: "at a f = at b g"
  consider "a \<in> dom fr" "b \<in> dom fr" | i where "a \<in> dom fr" "b = hdr M i" "i < 32"
    | i where "b \<in> dom fr" "a = hdr M i" "i < 32" | i j where "a = hdr M i" "b = hdr M j" "i < 32" "j < 32"
    using a b by (elim UnE imageE) (blast, auto)
  then show "a = b \<and> f = g"
  proof cases
    case 1
    then obtain s s' where s: "fr a = Some s" "fr b = Some s'" by auto
    then have "32 \<le> s" "32 \<le> s'" using apartD(1) [OF ap] by auto
    then show ?thesis using at_inject [OF ap s, of f g] fg eq by auto
  next
    case 2
    then show ?thesis using hdr_below [OF ap 2(1,3)] fg eq by (auto simp: at_def)
  next
    case 3
    then show ?thesis using hdr_below [OF ap 3(1,3)] fg eq by (auto simp: at_def)
  next
    case 4
    then have "72 + 16 * i + f = 72 + 16 * j + g" using eq by (simp add: at_def hdr_def)
    then have "i = j \<and> f = g" using fg by (auto; presburger)
    then show ?thesis using 4 by simp
  qed
qed

definition touch :: "nat \<Rightarrow> (nat \<rightharpoonup> nat) \<Rightarrow> nat \<Rightarrow> bool" where
  "touch M fr a \<longleftrightarrow> M + 88 \<le> a \<and> a < M + 856 \<or> (\<exists>x s. fr x = Some s \<and> x + 16 \<le> a \<and> a < x + s)"

lemma touch_at: "apart M fr \<Longrightarrow> fr x = Some s \<Longrightarrow> 16 \<le> f \<Longrightarrow> f < s \<Longrightarrow> touch M fr (at x f)"
  unfolding touch_def at_def by (intro disjI2 exI [of _ x] exI [of _ s]) simp

lemma touch_hdr: "i < 32 \<Longrightarrow> touch M fr (at (hdr M i) 16)" "i < 32 \<Longrightarrow> touch M fr (at (hdr M i) 24)"
  by (auto simp: touch_def at_def hdr_def)

lemma touch_tbin: "i < 32 \<Longrightarrow> touch M fr (tbin M i)"
  by (auto simp: touch_def tbin_def)

section \<open>What the bins hold\<close>

definition small_ok :: "nat \<Rightarrow> u32 \<Rightarrow> (nat \<Rightarrow> nat) \<Rightarrow> (nat \<rightharpoonup> nat) \<Rightarrow> (nat \<Rightarrow> nat list) \<Rightarrow> bool" where
  "small_ok M sm m fr ch \<longleftrightarrow> (\<forall>i < 32. (bit sm i \<longleftrightarrow> ch i \<noteq> []) \<and> (ch i \<noteq> [] \<longrightarrow> seg m (hdr M i) (ch i) (hdr M i)) \<and>
     distinct (ch i) \<and> set (ch i) = {p. fr p = Some (8 * i)})"

lemma small_okD:
  assumes "small_ok M sm m fr ch" "i < 32"
  shows "bit sm i \<longleftrightarrow> ch i \<noteq> []" "ch i \<noteq> [] \<Longrightarrow> seg m (hdr M i) (ch i) (hdr M i)" "distinct (ch i)"
    "p \<in> set (ch i) \<longleftrightarrow> fr p = Some (8 * i)"
  using assms unfolding small_ok_def by blast+

text \<open>The words that represent the small bins.\<close>

definition small_word :: "nat \<Rightarrow> (nat \<rightharpoonup> nat) \<Rightarrow> nat \<Rightarrow> bool" where
  "small_word M fr a \<longleftrightarrow> (\<exists>x s f. fr x = Some s \<and> s < 256 \<and> 16 \<le> f \<and> f < 32 \<and> a = at x f) \<or>
     (\<exists>i < 32. \<exists>f \<in> {16, 24}. a = at (hdr M i) f)"

lemma small_wordI: "fr x = Some s \<Longrightarrow> s < 256 \<Longrightarrow> f \<in> {16, 24} \<Longrightarrow> small_word M fr (at x f)"
    "i < 32 \<Longrightarrow> f \<in> {16, 24} \<Longrightarrow> small_word M fr (at (hdr M i) f)"
proof -
  assume "fr x = Some s" "s < 256" "f \<in> {16, 24}"
  moreover have "16 \<le> f" "f < 32" using \<open>f \<in> {16, 24}\<close> by auto
  ultimately show "small_word M fr (at x f)" unfolding small_word_def by blast
qed (unfold small_word_def, blast)

lemma small_word_touch: "apart M fr \<Longrightarrow> small_word M fr a \<Longrightarrow> touch M fr a"
  unfolding small_word_def using touch_at [of M fr] touch_hdr [of _ M fr] apartD(1) [of M fr] by fastforce

lemma small_cong:
  assumes "small_ok M sm m fr ch" "\<And>a. small_word M fr a \<Longrightarrow> m' a = m a" "\<And>p i. i < 32 \<Longrightarrow> fr' p = Some (8 * i) \<longleftrightarrow> fr p = Some (8 * i)"
  shows "small_ok M sm m' fr' ch"
  unfolding small_ok_def
proof (intro allI impI conjI)
  fix i assume i: "i < (32::nat)"
  note d = small_okD [OF assms(1) i]
  show "bit sm i \<longleftrightarrow> ch i \<noteq> []" "distinct (ch i)" "set (ch i) = {p. fr' p = Some (8 * i)}" using d assms(3) [OF i] by auto
  have mem: "m' (at x f) = m (at x f)" if "x \<in> set (ch i)" "f = 16 \<or> f = 24" for x f
  proof (rule assms(2))
    have "fr x = Some (8 * i)" using that(1) d(4) by blast
    then show "small_word M fr (at x f)" using that(2) i by (auto intro: small_wordI)
  qed
  have "m' (at (hdr M i) f) = m (at (hdr M i) f)" if "f = 16 \<or> f = 24" for f
    by (rule assms(2)) (use i that in \<open>auto intro: small_wordI\<close>)
  then have "seg m' (hdr M i) (ch i) (hdr M i) = seg m (hdr M i) (ch i) (hdr M i)"
    using mem by (intro seg_cong) auto
  then show "ch i \<noteq> [] \<Longrightarrow> seg m' (hdr M i) (ch i) (hdr M i)" using d(2) by simp
qed

section \<open>Small bins\<close>

lemma bit_mark: "i < 32 \<Longrightarrow> bit (sm OR idx2bit i) j \<longleftrightarrow> bit sm j \<or> j = i"
  by (auto simp: idx2bit_def bit_simps)

lemma bit_clear: "i < 32 \<Longrightarrow> bit (sm AND NOT (idx2bit i)) j \<longleftrightarrow> bit sm j \<and> j \<noteq> i"
  by (auto simp: idx2bit_def bit_simps dest: bit_imp_le_length)

lemma small_insert:
  assumes "small_ok M sm m fr ch" "i < 32" "fr p = None" "apart M (fr(p \<mapsto> 8 * i))"
    "f = (if bit sm i then m (at (hdr M i) 16) else hdr M i)"
  shows "small_ok M (sm OR idx2bit i)
    (m(at (hdr M i) 16 := p, at f 24 := p, at p 16 := f, at p 24 := hdr M i)) (fr(p \<mapsto> 8 * i)) (ch(i := p # ch i))"
    "f = hdr M i \<or> fr f = Some (8 * i)"
proof -
  let ?fr = "fr(p \<mapsto> 8 * i)" and ?m = "m(at (hdr M i) 16 := p, at f 24 := p, at p 16 := f, at p 24 := hdr M i)"
  let ?A = "dom ?fr \<union> hdr M ` {..<32}"
  note d = small_okD [OF assms(1)] and c = cells_links [OF assms(4)]
  have f: "f = hd (ch i @ [hdr M i])"
    using seg_first [OF d(2) [OF assms(2)]] d(1) [OF assms(2)] assms(5) by (cases "ch i") auto
  then show f': "f = hdr M i \<or> fr f = Some (8 * i)" using d(4) [OF assms(2)] by (cases "ch i") auto
  have hdr_p: "hdr M j \<noteq> x" if "x \<in> dom ?fr" "j < 32" for x j using hdr_below [OF assms(4) that] by simp
  have A: "set (hdr M j # p # ch j) \<subseteq> ?A" if "j < 32" for j using that d(4) [OF that] by auto
  show "small_ok M (sm OR idx2bit i) ?m ?fr (ch(i := p # ch i))"
    unfolding small_ok_def
  proof (intro allI impI conjI)
    fix j assume j: "j < (32::nat)"
    show "bit (sm OR idx2bit i) j \<longleftrightarrow> (ch(i := p # ch i)) j \<noteq> []" using d(1) [OF j] assms(2) by (auto simp: bit_mark)
    show "distinct ((ch(i := p # ch i)) j)" using d(3,4) [OF j] assms(3) by auto
    show "set ((ch(i := p # ch i)) j) = {x. ?fr x = Some (8 * j)}" using d(4) [OF j] assms(3) by auto
    assume ne: "(ch(i := p # ch i)) j \<noteq> []"
    show "seg ?m (hdr M j) ((ch(i := p # ch i)) j) (hdr M j)"
    proof (cases "j = i")
      case False
      have j_i: "hdr M j \<noteq> hdr M i" using False by (simp add: hdr_def)
      have out: "x \<notin> insert (hdr M j) (set (ch j))" if "x = hdr M i \<or> x = p \<or> x = f" for x
        using that f' j_i False d(4) [OF j] hdr_p [OF _ j] hdr_p [OF _ assms(2)] assms(3) by auto
      have "x \<in> ?A" if "x = hdr M i \<or> x = p \<or> x = f" for x using that f' assms(2) by auto
      then have "seg ?m (hdr M j) (ch j) (hdr M j) = seg m (hdr M j) (ch j) (hdr M j)"
        using A [OF j] out by (simp add: seg_upd [OF c])
      then show ?thesis using False d(2) [OF j] ne by simp
    next
      case True
      have "distinct (hdr M i # p # ch i)" using hdr_p [OF _ assms(2)] d(3,4) [OF assms(2)] assms(3) by auto
      then show ?thesis using ring_insert [OF c A [OF assms(2)] _ d(2) [OF assms(2)] f] True by simp
    qed
  qed
qed

text \<open>Taking out the only chunk of a bin leaves the links of the header as they are and clears its bit.\<close>

lemma small_remove:
  assumes "small_ok M sm m fr ch" "i < 32" "fr p = Some (8 * i)" "apart M fr" "f = m (at p 16)" "b = m (at p 24)"
  shows "\<exists>ch'. if b = f then small_ok M (sm AND NOT (idx2bit i)) m (fr(p := None)) ch'
    else small_ok M sm (m(at f 24 := b, at b 16 := f)) (fr(p := None)) ch'"
    "f = hdr M i \<or> fr f = Some (8 * i) \<and> f \<noteq> p" "b = hdr M i \<or> fr b = Some (8 * i) \<and> b \<noteq> p" "m (at f 24) = p" "m (at b 16) = p"
    "m (at (hdr M i) 16) = p \<Longrightarrow> b = hdr M i"
proof -
  let ?fr = "fr(p := None)" and ?m = "m(at f 24 := b, at b 16 := f)" and ?A = "dom fr \<union> hdr M ` {..<32}"
  note d = small_okD [OF assms(1)] and c = cells_links [OF assms(4)]
  obtain us vs where ch: "ch i = us @ p # vs" using d(4) [OF assms(2)] assms(3) by (metis in_set_conv_decomp)
  have hdr_p: "hdr M j \<noteq> x" if "x \<in> dom fr" "j < 32" for x j using hdr_below [OF assms(4) that] by simp
  have A: "set (hdr M j # ch j) \<subseteq> ?A" if "j < 32" for j using that d(4) [OF that] by auto
  have di: "distinct (hdr M i # us @ p # vs)" using d(3,4) [OF assms(2)] ch hdr_p [OF _ assms(2)] by auto
  note r = ring_remove [OF c A [OF assms(2), unfolded ch] di d(2) [OF assms(2), unfolded ch, simplified] assms(5,6)]
  have vs: "fr x = Some (8 * i)" if "x \<in> set us \<union> set vs" for x using that ch d(4) [OF assms(2), of x] by auto
  show fb: "f = hdr M i \<or> fr f = Some (8 * i) \<and> f \<noteq> p" using r(2) vs di by (cases vs) auto
  show bb: "b = hdr M i \<or> fr b = Some (8 * i) \<and> b \<noteq> p" using r(3) vs di last_in_set [of us] by (cases "us = []") auto
  show "m (at f 24) = p" "m (at b 16) = p" using r(5,6) by auto
  show "b = hdr M i" if "m (at (hdr M i) 16) = p"
  proof (cases us)
    case (Cons z zs)
    then have "m (at (hdr M i) 16) = z" using d(2) [OF assms(2)] ch by auto
    then show ?thesis using that di Cons by simp
  qed (use r(3) in simp)
  have "set us \<union> set vs = {x. fr x = Some (8 * i)} - {p}" using d(4) [OF assms(2), unfolded ch] di by auto
  then have rest: "set ((ch(i := us @ vs)) j) = {x. ?fr x = Some (8 * j)}" "distinct ((ch(i := us @ vs)) j)" if "j < 32" for j
    using d(4) [OF that] d(3) [OF that] assms(3) ch di by (auto simp: set_eq_iff)
  show "\<exists>ch'. if b = f then small_ok M (sm AND NOT (idx2bit i)) m ?fr ch' else small_ok M sm ?m ?fr ch'"
  proof (cases "b = f")
    case True
    then have "us @ vs = []" using r(4) by simp
    then have "small_ok M (sm AND NOT (idx2bit i)) m ?fr (ch(i := us @ vs))"
      unfolding small_ok_def using d(1,2) rest assms(2) by (auto simp: bit_clear)
    then show ?thesis using True by auto
  next
    case False
    then have ne: "us @ vs \<noteq> []" using r(4) by simp
    have other: "seg ?m (hdr M j) (ch j) (hdr M j) = seg m (hdr M j) (ch j) (hdr M j)" if "j < 32" "j \<noteq> i" for j
    proof -
      have "hdr M j \<noteq> hdr M i" using that by (simp add: hdr_def)
      then have "x \<notin> insert (hdr M j) (set (ch j)) \<and> x \<in> ?A" if "x = f \<or> x = b" for x
        using that fb bb \<open>j \<noteq> i\<close> \<open>j < 32\<close> assms(2) d(4) [OF \<open>j < 32\<close>] hdr_p [OF _ \<open>j < 32\<close>] hdr_p [OF _ assms(2)] by auto
      then show ?thesis using A [OF \<open>j < 32\<close>] by (simp add: seg_upd [OF c])
    qed
    have "small_ok M sm ?m ?fr (ch(i := us @ vs))"
      unfolding small_ok_def
    proof (intro allI impI conjI)
      fix j assume j: "j < (32::nat)"
      show "bit sm j \<longleftrightarrow> (ch(i := us @ vs)) j \<noteq> []" using d(1) [OF j] ne ch by auto
      show "seg ?m (hdr M j) ((ch(i := us @ vs)) j) (hdr M j)" if "(ch(i := us @ vs)) j \<noteq> []"
        using that other [OF j] d(2) [OF j] r(1) by (cases "j = i") auto
    qed (use rest in auto)
    then show ?thesis using False by auto
  qed
qed

end
