(* ===== verification/DlTrees.thy ===== *)
theory DlTrees
  imports DlBins
begin

text \<open>
  The trees of large chunks. A node stands for an interval of sizes whose width is a power of two, \<open>lo x\<close> and \<open>lv x\<close> giving its start
  and the exponent; its children stand for the two halves. The predicate \<open>tree_ok\<close> is about all trees at once: \<open>N\<close> is the set of
  nodes and \<open>cl x\<close> the list of the other chunks of the size of \<open>x\<close>.
\<close>

section \<open>Bits of sizes\<close>

lemma top_bit:
  assumes "k < 64"
  shows "s * 2 ^ (63 - k) mod 2 ^ 64 div 2 ^ 63 = s div 2 ^ k mod (2::nat)"
proof -
  have e: "(2::nat) ^ 64 = 2 ^ Suc k * 2 ^ (63 - k)" "(2::nat) ^ 63 = 2 ^ k * 2 ^ (63 - k)"
    using assms by (simp_all only: power_add [symmetric]) auto
  have "s * 2 ^ (63 - k) mod 2 ^ 64 = (s mod 2 ^ Suc k) * 2 ^ (63 - k)" by (simp only: e mult_mod_left)
  then have "s * 2 ^ (63 - k) mod 2 ^ 64 div 2 ^ 63 = s mod 2 ^ Suc k div 2 ^ k" by (simp only: e(2) div_mult_mult2) simp
  also have "\<dots> = s div 2 ^ k mod 2" by (simp add: div_exp_mod_exp_eq [of s k 1, simplified] mult.commute)
  finally show ?thesis .
qed

text \<open>The next bit says in which half of its interval a size lies.\<close>

lemma half:
  assumes "2 ^ Suc k dvd lo" "lo \<le> s" "s < lo + 2 ^ Suc k" "b = s div 2 ^ k mod (2::nat)"
  shows "b = 0 \<Longrightarrow> s < lo + 2 ^ k" "b \<noteq> 0 \<Longrightarrow> b = 1 \<and> lo + 2 ^ k \<le> s"
proof -
  obtain q where lo: "lo = 2 ^ Suc k * q" using assms(1) by blast
  define r where "r = s - lo"
  have r: "s = 2 ^ Suc k * q + r" "r < 2 ^ Suc k" using assms(2,3) lo r_def by auto
  have "s = 2 * q * 2 ^ k + r" using r(1) by simp
  then have "s div 2 ^ k = 2 * q + r div 2 ^ k" by (simp only: div_mult_self3 [of "2 ^ k" "2 * q" r]) simp
  then have b: "b = r div 2 ^ k mod 2" using assms(4) by simp
  have "r div 2 ^ k < 2" using r(2) by (simp add: less_mult_imp_div_less)
  then have b': "b = r div 2 ^ k" using b by simp
  show "b = 0 \<Longrightarrow> s < lo + 2 ^ k" using b' r lo by (simp add: div_eq_0_iff)
  assume "b \<noteq> 0"
  then have "b = 1" "2 ^ k \<le> r" using b' \<open>r div 2 ^ k < 2\<close> by (linarith, simp add: div_eq_0_iff)
  then show "b = 1 \<and> lo + 2 ^ k \<le> s" using r lo by simp
qed

definition rootlv :: "nat \<Rightarrow> nat" where "rootlv i = (if i = 31 then 64 else i div 2 + 7)"
definition rootlo :: "nat \<Rightarrow> nat" where "rootlo i = (if i = 31 then 0 else (2 + i mod 2) * 2 ^ (i div 2 + 7))"

lemma high_bit_bounds: "x \<noteq> 0 \<Longrightarrow> 2 ^ high_bit x \<le> x \<and> x < 2 ^ Suc (high_bit x)"
proof (induction x rule: high_bit.induct)
  case (1 x)
  show ?case
  proof (cases "x < 2")
    case False
    then have "2 ^ high_bit (x div 2) \<le> x div 2 \<and> x div 2 < 2 ^ Suc (high_bit (x div 2))" using 1 by simp
    then show ?thesis using False by (subst (1 2) high_bit.simps) auto
  qed (use 1 in \<open>simp add: high_bit.simps\<close>)
qed

lemma tree_index_range:
  assumes "256 \<le> s" "s < 2 ^ 40"
  shows "compute_tree_index s < 32" "rootlo (compute_tree_index s) \<le> s"
    "s < rootlo (compute_tree_index s) + 2 ^ rootlv (compute_tree_index s)"
proof -
  define x k where "x = s div 256" and "k = high_bit x"
  have x: "x \<noteq> 0" "x mod 2 ^ 32 = x" using assms by (auto simp: x_def div_eq_0_iff less_mult_imp_div_less)
  have i: "compute_tree_index s = (if x > 0xFFFF then 31 else 2 * k + s div 2 ^ (k + 7) mod 2)"
    using x by (simp add: compute_tree_index_def Let_def flip: x_def k_def)
  have k: "2 ^ k \<le> x" "x < 2 ^ Suc k" using high_bit_bounds [OF x(1)] by (auto simp: k_def)
  have s: "2 ^ (k + 8) \<le> s" "s < 2 ^ (k + 9)"
  proof -
    have "2 ^ k * 256 \<le> s" using k(1) by (simp add: x_def less_eq_div_iff_mult_less_eq)
    then show "2 ^ (k + 8) \<le> s" by (simp add: power_add)
    have "s < 2 ^ Suc k * 256" using k(2) by (simp add: x_def div_less_iff_less_mult)
    then show "s < 2 ^ (k + 9)" by (simp add: power_add)
  qed
  have k16: "k < 16" if "\<not> x > 0xFFFF"
  proof -
    have "(2::nat) ^ k < 2 ^ 16" using k(1) that by simp
    then show ?thesis by (rule power_less_imp_less_exp [rotated]) simp
  qed
  define b where "b = s div 2 ^ (k + 7) mod 2"
  have b: "b < 2" by (simp add: b_def)
  have "compute_tree_index s < 32 \<and> rootlo (compute_tree_index s) \<le> s \<and> s < rootlo (compute_tree_index s) + 2 ^ rootlv (compute_tree_index s)"
  proof (cases "compute_tree_index s = 31")
    case True
    then show ?thesis using assms(2) by (simp add: rootlo_def rootlv_def)
  next
    case False
    then have x: "\<not> x > 0xFFFF" and idx: "compute_tree_index s = 2 * k + b" using i b_def by (auto split: if_splits)
    have div: "(2 * k + b) div 2 = k" "(2 * k + b) mod 2 = b" using b by auto
    have "2 ^ Suc (k + 7) dvd (2::nat) ^ (k + 8)" by (simp add: power_add)
    then have h: "b = 0 \<Longrightarrow> s < 2 ^ (k + 8) + 2 ^ (k + 7)" "b \<noteq> 0 \<Longrightarrow> b = 1 \<and> 2 ^ (k + 8) + 2 ^ (k + 7) \<le> s"
      using half [of "k + 7" "2 ^ (k + 8)" s b] s b_def by (auto simp: power_add)
    have "rootlo (2 * k + b) = 2 ^ (k + 8) + b * 2 ^ (k + 7)" "rootlv (2 * k + b) = k + 7"
      using False idx div by (auto simp: rootlo_def rootlv_def power_add algebra_simps)
    moreover have "b = 0 \<or> b = 1" using b by auto
    ultimately show ?thesis using h s k16 [OF x] idx by (auto simp: power_add)
  qed
  then show "compute_tree_index s < 32" "rootlo (compute_tree_index s) \<le> s"
    "s < rootlo (compute_tree_index s) + 2 ^ rootlv (compute_tree_index s)" by auto
qed

lemma root_level: "i < 32 \<Longrightarrow> leftshift_for_tree_index i = 64 - rootlv i" "i < 32 \<Longrightarrow> rootlv i \<le> 64" "2 ^ rootlv i dvd rootlo i"
  by (auto simp: leftshift_for_tree_index_def rootlv_def rootlo_def)

section \<open>Representation\<close>

definition child_ok :: "(nat \<Rightarrow> nat) \<Rightarrow> nat set \<Rightarrow> (nat \<Rightarrow> nat) \<Rightarrow> (nat \<Rightarrow> nat) \<Rightarrow> nat \<Rightarrow> nat \<Rightarrow> bool" where
  "child_ok m N lo lv x b \<longleftrightarrow> (let c = m (at x (32 + 8 * b)) in
     c = 0 \<or> c \<in> N \<and> m (at c 48) = x \<and> m (at c 56) = m (at x 56) \<and> lv x = Suc (lv c) \<and> lo c = lo x + b * 2 ^ lv c)"

definition parent_ok :: "nat \<Rightarrow> (nat \<Rightarrow> nat) \<Rightarrow> nat set \<Rightarrow> (nat \<Rightarrow> nat) \<Rightarrow> (nat \<Rightarrow> nat) \<Rightarrow> nat \<Rightarrow> bool" where
  "parent_ok M m N lo lv x \<longleftrightarrow> (let i = m (at x 56); y = m (at x 48) in
     m (tbin M i) = x \<and> y = tbin M i \<and> lv x = rootlv i \<and> lo x = rootlo i \<or>
     m (tbin M i) \<noteq> x \<and> y \<in> N \<and> (m (at y 32) = x \<or> m (at y 40) = x))"

definition chain_ok :: "(nat \<Rightarrow> nat) \<Rightarrow> (nat \<rightharpoonup> nat) \<Rightarrow> nat set \<Rightarrow> nat list \<Rightarrow> nat \<Rightarrow> nat \<Rightarrow> bool" where
  "chain_ok m fr N ys x s \<longleftrightarrow> distinct (x # ys) \<and> seg m x ys x \<and> (\<forall>y \<in> set ys. y \<notin> N \<and> fr y = Some s \<and>
     m (at y 48) = 0 \<and> m (at y 32) = 0 \<and> m (at y 40) = 0 \<and> m (at y 56) = compute_tree_index s)"

definition node_ok :: "nat \<Rightarrow> (nat \<Rightarrow> nat) \<Rightarrow> (nat \<rightharpoonup> nat) \<Rightarrow> nat set \<Rightarrow> (nat \<Rightarrow> nat list) \<Rightarrow> (nat \<Rightarrow> nat) \<Rightarrow> (nat \<Rightarrow> nat) \<Rightarrow> nat \<Rightarrow> bool" where
  "node_ok M m fr N cl lo lv x \<longleftrightarrow>
     (\<exists>s. fr x = Some s \<and> 256 \<le> s \<and> m (at x 56) = compute_tree_index s \<and> lo x \<le> s \<and> s < lo x + 2 ^ lv x \<and> chain_ok m fr N (cl x) x s) \<and>
     2 ^ lv x dvd lo x \<and> lv x \<le> 64 \<and> child_ok m N lo lv x 0 \<and> child_ok m N lo lv x 1 \<and> parent_ok M m N lo lv x"

definition tree_ok :: "nat \<Rightarrow> u32 \<Rightarrow> (nat \<Rightarrow> nat) \<Rightarrow> (nat \<rightharpoonup> nat) \<Rightarrow> nat set \<Rightarrow> (nat \<Rightarrow> nat list) \<Rightarrow> (nat \<Rightarrow> nat) \<Rightarrow> (nat \<Rightarrow> nat) \<Rightarrow> bool" where
  "tree_ok M tm m fr N cl lo lv \<longleftrightarrow> (\<forall>x \<in> N. node_ok M m fr N cl lo lv x) \<and>
     (\<forall>x \<in> N. \<forall>y \<in> N. x \<noteq> y \<longrightarrow> set (cl x) \<inter> set (cl y) = {}) \<and>
     (\<forall>p s. fr p = Some s \<longrightarrow> 256 \<le> s \<longrightarrow> (\<exists>x \<in> N. p \<in> set (x # cl x))) \<and>
     (\<forall>i < 32. (bit tm i \<longleftrightarrow> m (tbin M i) \<noteq> 0) \<and> (m (tbin M i) \<noteq> 0 \<longrightarrow> m (tbin M i) \<in> N \<and> m (at (m (tbin M i)) 56) = i))"

definition large :: "(nat \<rightharpoonup> nat) \<Rightarrow> nat set" where
  "large fr = {x. \<exists>s. fr x = Some s \<and> 256 \<le> s}"

lemma cells_of_large: "apart M fr \<Longrightarrow> cells (large fr) {..<256}"
  by (rule cells_large) (auto simp: large_def)

lemma tbin_below:
  "apart M fr \<Longrightarrow> x \<in> large fr \<Longrightarrow> i < 32 \<Longrightarrow> tbin M i \<noteq> at x f" "apart M fr \<Longrightarrow> x \<in> large fr \<Longrightarrow> i < 32 \<Longrightarrow> at x f \<noteq> tbin M i"
  "apart M fr \<Longrightarrow> x \<in> large fr \<Longrightarrow> i < 32 \<Longrightarrow> tbin M i \<noteq> x"
  using apartD(4) [of M fr x] by (fastforce simp: large_def tbin_def at_def)+

lemma tbin_inject: "tbin M i = tbin M j \<longleftrightarrow> i = j"
  by (simp add: tbin_def)

lemma tree_okD:
  assumes "tree_ok M tm m fr N cl lo lv"
  shows "x \<in> N \<Longrightarrow> node_ok M m fr N cl lo lv x" "x \<in> N \<Longrightarrow> y \<in> N \<Longrightarrow> x \<noteq> y \<Longrightarrow> set (cl x) \<inter> set (cl y) = {}"
    "fr p = Some s \<Longrightarrow> 256 \<le> s \<Longrightarrow> \<exists>x \<in> N. p \<in> set (x # cl x)"
    "i < 32 \<Longrightarrow> bit tm i \<longleftrightarrow> m (tbin M i) \<noteq> 0" "i < 32 \<Longrightarrow> m (tbin M i) \<noteq> 0 \<Longrightarrow> m (tbin M i) \<in> N \<and> m (at (m (tbin M i)) 56) = i"
  using assms unfolding tree_ok_def by blast+

lemma nodeD:
  assumes "tree_ok M tm m fr N cl lo lv" "apart M fr" "x \<in> N"
  obtains s where "fr x = Some s" "256 \<le> s" "m (at x 56) = compute_tree_index s" "lo x \<le> s" "s < lo x + 2 ^ lv x"
    "chain_ok m fr N (cl x) x s" "2 ^ lv x dvd lo x" "lv x \<le> 64" "child_ok m N lo lv x 0" "child_ok m N lo lv x 1"
    "parent_ok M m N lo lv x" "x \<in> large fr" "m (at x 56) < 32" "x \<noteq> 0" "set (cl x) \<subseteq> large fr"
proof -
  obtain s where s: "fr x = Some s" "256 \<le> s" "m (at x 56) = compute_tree_index s" "lo x \<le> s" "s < lo x + 2 ^ lv x"
    "chain_ok m fr N (cl x) x s" and r: "2 ^ lv x dvd lo x" "lv x \<le> 64" "child_ok m N lo lv x 0" "child_ok m N lo lv x 1"
    "parent_ok M m N lo lv x"
    using tree_okD(1) [OF assms(1,3)] unfolding node_ok_def by blast
  have "x \<in> large fr" "m (at x 56) < 32" "x \<noteq> 0" "set (cl x) \<subseteq> large fr"
    using s apartD(2,6) [OF assms(2) s(1)] tree_index_range(1) [OF s(2)] by (auto simp: large_def chain_ok_def)
  then show ?thesis using that s r by blast
qed

lemma node_in_large: "tree_ok M tm m fr N cl lo lv \<Longrightarrow> apart M fr \<Longrightarrow> x \<in> N \<Longrightarrow> x \<in> large fr"
  by (rule nodeD)

text \<open>Changes to the circular lists leave the trees alone.\<close>

lemma node_frame:
  assumes "node_ok M m fr N cl lo lv x" "x \<in> N" "\<And>y. y \<in> N \<Longrightarrow> m (at y 56) < 32"
    "\<And>y g. y \<in> N \<Longrightarrow> g \<in> {32, 40, 48, 56} \<Longrightarrow> m' (at y g) = m (at y g)"
    "\<And>i. i < 32 \<Longrightarrow> m' (tbin M i) = m (tbin M i)" "fr' x = fr x" "\<And>s. fr x = Some s \<Longrightarrow> chain_ok m' fr' N (cl' x) x s"
  shows "node_ok M m' fr' N cl' lo lv x"
proof -
  have eq: "m' (at y 32) = m (at y 32)" "m' (at y 40) = m (at y 40)" "m' (at y 48) = m (at y 48)" "m' (at y 56) = m (at y 56)" if "y \<in> N" for y
    using assms(4) [OF that] by auto
  have ch: "child_ok m' N lo lv x 0" "child_ok m' N lo lv x 1"
    using assms(1) eq assms(2) unfolding node_ok_def child_ok_def by (auto simp: Let_def)
  have "parent_ok M m' N lo lv x"
    using assms(1) eq assms(2) assms(5) [OF assms(3) [OF assms(2)]] unfolding node_ok_def parent_ok_def by (auto simp: Let_def)
  then show ?thesis using assms(1,6,7) ch eq [OF assms(2)] unfolding node_ok_def by auto
qed

lemma apart_less: "apart M (fr(x \<mapsto> s)) \<Longrightarrow> fr x = None \<Longrightarrow> apart M fr"
  unfolding apart_def by (metis fun_upd_other fun_upd_same option.distinct(1))

lemma tree_chain_insert:
  assumes "tree_ok M tm m fr N cl lo lv" "apart M (fr(x \<mapsto> s))" "fr x = None" "t \<in> N" "fr t = Some s" "f = m (at t 16)"
    "m (at x 32) = 0" "m (at x 40) = 0" "m (at x 56) = compute_tree_index s"
  shows "tree_ok M tm (m(at f 24 := x, at t 16 := x, at x 16 := f, at x 24 := t, at x 48 := 0)) (fr(x \<mapsto> s)) N (cl(t := x # cl t)) lo lv"
    "f \<in> large fr"
proof -
  define fr' cl' m' where "fr' = fr(x \<mapsto> s)" and "cl' = cl(t := x # cl t)"
    and "m' = m(at f 24 := x, at t 16 := x, at x 16 := f, at x 24 := t, at x 48 := 0)"
  note ap = apart_less [OF assms(2,3)]
  note d = tree_okD [OF assms(1)] and nd = nodeD [OF assms(1) ap]
  have s: "256 \<le> s" using assms(4,5) by (auto elim: nd)
  have big: "large (fr(x \<mapsto> s)) = insert x (large fr)" using s assms(3) by (auto simp: large_def)
  have c: "cells (insert x (large fr)) {..<256}" using cells_of_large [OF assms(2)] big by simp
  note ci = cells_iff [OF c]
  have ct: "chain_ok m fr N (cl t) t s" using assms(4,5) by (auto elim: nd)
  have f: "f = hd (cl t @ [t])" using seg_first [of m t "cl t" t] ct assms(6) by (simp add: chain_ok_def)
  have lt: "t \<in> large fr" "set (cl t) \<subseteq> large fr" using assms(4) by (auto elim: nd)
  show lf: "f \<in> large fr" using f lt by (cases "cl t") auto
  have x: "x \<notin> large fr" "x \<notin> N" using assms(3) by (auto simp: large_def elim: nd)
  have N: "N \<subseteq> large fr" by (auto elim: nd)
  have eq: "m' (at y g) = m (at y g)" if "y \<in> large fr" "g \<in> {32, 40, 48, 56}" for y g
    using that x lt lf unfolding m'_def by (auto simp: ci)
  have at_x: "m' (at x 56) = compute_tree_index s" "m' (at x 32) = 0" "m' (at x 40) = 0" "m' (at x 48) = 0"
    using assms(7-9) lf lt by (simp_all add: m'_def ci)
  have tb: "m' (tbin M i) = m (tbin M i)" if "i < 32" for i
    using that lf lt by (simp add: m'_def tbin_below(1) [OF assms(2)] big)
  have dist: "distinct (t # x # cl t)" using ct x lt by (auto simp: chain_ok_def)
  have A: "set (t # x # cl t) \<subseteq> insert x (large fr)" using lt by auto
  have "at f 24 \<noteq> at t 16" using lf lt by (simp add: ci)
  then have "seg (m(at f 24 := x, at t 16 := x, at x 16 := f, at x 24 := t)) t (x # cl t) t"
    using ring_insert [OF cells_mono [OF c subset_refl] A dist _ f, of m] ct by (simp add: chain_ok_def fun_upd_twist [of "at f 24"])
  then have seg_t: "seg m' t (x # cl t) t"
    using seg_upd [OF c _ _ _ _ _, of x 48 t t "x # cl t"] A unfolding m'_def by simp
  have seg_z: "seg m' z (cl z) z = seg m z (cl z) z" if z: "z \<in> N" "z \<noteq> t" for z
  proof -
    have cz: "\<forall>y \<in> set (cl z). y \<notin> N" using z(1) by (auto simp: chain_ok_def elim: nd)
    have lz: "insert z (set (cl z)) \<subseteq> large fr" using z(1) by (auto elim: nd)
    have "t \<notin> insert z (set (cl z))" using z(2) cz assms(4) by auto
    moreover have "f \<notin> insert z (set (cl z))"
      using f calculation d(2) [OF z(1) assms(4) z(2)] ct z(1) by (cases "cl t") (auto simp: chain_ok_def)
    moreover have "x \<notin> insert z (set (cl z))" using lz x by auto
    ultimately show ?thesis
      using lz lf lt unfolding m'_def by (simp add: seg_upd [OF c] subset_insertI2)
  qed
  have chain: "chain_ok m' fr' N (cl' z) z s'" if z: "z \<in> N" and s': "fr z = Some s'" for z s'
  proof -
    have cz: "chain_ok m fr N (cl z) z s'" and lz: "set (cl z) \<subseteq> large fr" using z s' by (auto elim: nd)
    have old: "y \<notin> N \<and> fr' y = Some s' \<and> m' (at y 48) = 0 \<and> m' (at y 32) = 0 \<and> m' (at y 40) = 0 \<and> m' (at y 56) = compute_tree_index s'"
      if "y \<in> set (cl z)" for y
    proof -
      have "y \<in> large fr" "y \<noteq> x" using that lz x by auto
      then show ?thesis using that cz eq [of y 48] eq [of y 32] eq [of y 40] eq [of y 56] by (simp add: chain_ok_def fr'_def)
    qed
    show ?thesis
    proof (cases "z = t")
      case True
      then have "s' = s" using s' assms(5) by simp
      then show ?thesis using True old seg_t dist x(2) at_x by (auto simp: chain_ok_def cl'_def fr'_def)
    next
      case False
      then show ?thesis using cz old seg_z [OF z False] by (simp add: chain_ok_def cl'_def)
    qed
  qed
  have "tree_ok M tm m' fr' N cl' lo lv"
    unfolding tree_ok_def
  proof (intro conjI ballI allI impI)
    show "node_ok M m' fr' N cl' lo lv z" if "z \<in> N" for z
      using d(1) [OF that] that
    proof (rule node_frame)
      show "m (at y 56) < 32" if "y \<in> N" for y using that by (auto elim: nd)
      show "fr' z = fr z" using that x(2) by (auto simp: fr'_def)
      show "m' (at y g) = m (at y g)" if "y \<in> N" "g \<in> {32, 40, 48, 56}" for y g using eq that N by blast
      show "m' (tbin M i) = m (tbin M i)" if "i < 32" for i by (rule tb [OF that])
      show "chain_ok m' fr' N (cl' z) z s'" if "fr z = Some s'" for s' by (rule chain [OF \<open>z \<in> N\<close> that])
    qed
    show "set (cl' y) \<inter> set (cl' z) = {}" if yz: "y \<in> N" "z \<in> N" "y \<noteq> z" for y z
    proof -
      have "set (cl y) \<subseteq> large fr" "set (cl z) \<subseteq> large fr" using yz by (auto elim: nd)
      then show ?thesis using d(2) [OF yz] yz x(1) by (auto simp: cl'_def)
    qed
    show "\<exists>z \<in> N. p \<in> set (z # cl' z)" if ps: "fr' p = Some s'" "256 \<le> s'" for p s'
    proof (cases "p = x")
      case False
      then obtain z where "z \<in> N" "p \<in> set (z # cl z)" using ps d(3) [of p s'] by (auto simp: fr'_def)
      then show ?thesis by (intro bexI [of _ z]) (auto simp: cl'_def)
    qed (use assms(4) in \<open>auto intro!: bexI [of _ t] simp: cl'_def\<close>)
    show "bit tm i \<longleftrightarrow> m' (tbin M i) \<noteq> 0" if "i < 32" for i using d(4) [OF that] tb [OF that] by simp
    show "m' (tbin M i) \<in> N" if "i < 32" "m' (tbin M i) \<noteq> 0" for i using d(5) [OF that(1)] that tb [OF that(1)] by simp
    show "m' (at (m' (tbin M i)) 56) = i" if "i < 32" "m' (tbin M i) \<noteq> 0" for i
    proof -
      have "m (tbin M i) \<in> N \<and> m (at (m (tbin M i)) 56) = i" using d(5) [OF that(1)] that tb [OF that(1)] by simp
      then show ?thesis unfolding tb [OF that(1)] using eq [of "m (tbin M i)" 56] N by auto
    qed
  qed
  then show "tree_ok M tm (m(at f 24 := x, at t 16 := x, at x 16 := f, at x 24 := t, at x 48 := 0)) (fr(x \<mapsto> s)) N (cl(t := x # cl t)) lo lv"
    by (simp only: fr'_def cl'_def m'_def)
qed

text \<open>A new leaf is attached to an empty field of a node or to an empty bin.\<close>

definition attaches :: "nat \<Rightarrow> (nat \<Rightarrow> nat) \<Rightarrow> nat set \<Rightarrow> (nat \<Rightarrow> nat) \<Rightarrow> (nat \<Rightarrow> nat) \<Rightarrow> nat \<Rightarrow> nat \<Rightarrow> nat \<Rightarrow> nat \<Rightarrow> nat \<Rightarrow> bool" where
  "attaches M m N lo lv i c par l k \<longleftrightarrow> c = tbin M i \<and> par = tbin M i \<and> l = rootlo i \<and> k = rootlv i \<or>
     par \<in> N \<and> (\<exists>b \<in> {0, 1}. c = at par (32 + 8 * b) \<and> lv par = Suc k \<and> l = lo par + b * 2 ^ k \<and> m (at par 56) = i)"

lemma tree_leaf_insert:
  assumes "tree_ok M tm m fr N cl lo lv" "apart M (fr(x \<mapsto> s))" "fr x = None" "256 \<le> s" "i = compute_tree_index s"
    "m (at x 32) = 0" "m (at x 40) = 0" "m (at x 56) = i" "m c = 0" "attaches M m N lo lv i c par l k"
    "l \<le> s" "s < l + 2 ^ k" "2 ^ k dvd l" "k \<le> 64"
  shows "tree_ok M (if c = tbin M i then tm OR idx2bit i else tm) (m(c := x, at x 48 := par, at x 24 := x, at x 16 := x))
    (fr(x \<mapsto> s)) (insert x N) (cl(x := [])) (lo(x := l)) (lv(x := k))"
proof -
  define fr' cl' lo' lv' m' where "fr' = fr(x \<mapsto> s)" and "cl' = cl(x := [])" and "lo' = lo(x := l)" and "lv' = lv(x := k)"
    and "m' = m(c := x, at x 48 := par, at x 24 := x, at x 16 := x)"
  note ap = apart_less [OF assms(2,3)]
  note d = tree_okD [OF assms(1)] and nd = nodeD [OF assms(1) ap]
  have big: "large (fr(x \<mapsto> s)) = insert x (large fr)" using assms(3,4) by (auto simp: large_def)
  have c: "cells (insert x (large fr)) {..<256}" using cells_of_large [OF assms(2)] big by simp
  note ci = cells_iff [OF c] and tb_ne = tbin_below [OF assms(2), unfolded big]
  have x: "x \<notin> large fr" "x \<notin> N" "x \<noteq> 0" using assms(3) apartD(6) [OF assms(2), of x] by (auto simp: large_def elim: nd)
  have N: "y \<in> large fr" if "y \<in> N" for y using that by (auto elim: nd)
  have N0: "y \<noteq> 0 \<and> m (at y 56) < 32" if "y \<in> N" for y using that by (auto elim: nd)
  have i: "i < 32" using tree_index_range(1) [OF assms(4)] apartD(2) [OF assms(2), of x s] assms(5) by simp
  have slot: "c = tbin M i \<or> par \<in> N \<and> (c = at par 32 \<or> c = at par 40)" using assms(10) by (auto simp: attaches_def)
  have eq: "m' (at y g) = m (at y g)" if "y \<in> large fr" "g \<in> {16, 24, 32, 40, 48, 56}" "at y g \<noteq> c" for y g
    using that x unfolding m'_def by (auto simp: ci)
  have eq2: "m' (at y g) = m (at y g)" if "y \<in> large fr" "g \<in> {16, 24, 48, 56}" for y g
    using that slot N i by (intro eq) (auto simp: tb_ne ci)
  have at_x: "m' (at x 56) = i" "m' (at x 32) = 0" "m' (at x 40) = 0" "m' (at x 48) = par" "m' (at x 24) = x" "m' (at x 16) = x"
    using assms(6-8) slot x i N unfolding m'_def by (auto simp: ci tb_ne)
  have mc: "m' c = x" using slot N x i unfolding m'_def by (auto simp: ci tb_ne)
  have tb: "m' (tbin M j) = (if c = tbin M j then x else m (tbin M j))" if "j < 32" for j
    using that unfolding m'_def by (simp add: tb_ne)
  have tb_c: "c = tbin M j \<longleftrightarrow> c = tbin M i \<and> j = i" if "j < 32" for j using slot that tb_ne N i by (auto simp: tbin_inject)
  have child: "child_ok m' (insert x N) lo' lv' z b" if z: "z \<in> N" and b: "b \<in> {0, 1}" for z b
  proof (cases "at z (32 + 8 * b) = c")
    case True
    then have p: "z = par" using slot N z b i by (auto simp: ci tb_ne)
    then have "lv z = Suc k \<and> l = lo z + b * 2 ^ k \<and> m (at z 56) = i"
      using assms(10) True z b i N by (auto simp: attaches_def ci tb_ne)
    then show ?thesis
      using True p z x eq2 [OF N [OF z], of 56] mc at_x unfolding child_ok_def by (auto simp: Let_def lo'_def lv'_def)
  next
    case False
    then have e: "m' (at z (32 + 8 * b)) = m (at z (32 + 8 * b))" using eq [OF N [OF z], of "32 + 8 * b"] b by auto
    have "child_ok m N lo lv z b" using z b by (auto elim: nd)
    then show ?thesis using e z x eq2 [OF N, of _ 48] eq2 [OF N, of _ 56] unfolding child_ok_def by (auto simp: Let_def lo'_def lv'_def)
  qed
  have parent: "parent_ok M m' (insert x N) lo' lv' z" if z: "z \<in> N" for z
  proof -
    have p: "parent_ok M m N lo lv z" and zi: "m (at z 56) < 32" using z by (auto elim: nd)
    have e: "m' (at z 56) = m (at z 56)" "m' (at z 48) = m (at z 48)" using eq2 [OF N [OF z]] by auto
    have zx: "z \<noteq> x" "z \<noteq> 0" using z x N0 by auto
    have kids: "m' (at y g) = z" if "y \<in> N" "g = 32 \<or> g = 40" "m (at y g) = z" for y g
    proof -
      have "at y g \<noteq> c" using that(3) assms(9) zx(2) by metis
      then show ?thesis using eq [OF N [OF that(1)], of g] that(2,3) by auto
    qed
    have zlo: "lo' z = lo z" "lv' z = lv z" using zx by (auto simp: lo'_def lv'_def)
    show ?thesis
    proof (cases "m (tbin M (m (at z 56))) = z")
      case True
      then have "c \<noteq> tbin M (m (at z 56))" using assms(9) zx by auto
      then show ?thesis using p True zlo unfolding parent_ok_def e Let_def tb [OF zi] by simp
    next
      case False
      then have "m (at z 48) \<in> N" "m (at (m (at z 48)) 32) = z \<or> m (at (m (at z 48)) 40) = z" using p by (auto simp: parent_ok_def Let_def)
      then show ?thesis using False zx kids unfolding parent_ok_def e Let_def tb [OF zi] by auto
    qed
  qed
  have chain: "chain_ok m' fr' (insert x N) (cl z) z s'" if z: "z \<in> N" and s': "fr z = Some s'" for z s'
  proof -
    have cz: "chain_ok m fr N (cl z) z s'" and lz: "insert z (set (cl z)) \<subseteq> large fr" using z s' by (auto elim: nd)
    have "seg m' z (cl z) z = seg m z (cl z) z"
      using lz eq2 by (intro seg_cong) auto
    moreover have "y \<noteq> x \<and> m' (at y 48) = m (at y 48) \<and> m' (at y 32) = m (at y 32) \<and> m' (at y 40) = m (at y 40) \<and> m' (at y 56) = m (at y 56)"
      if "y \<in> set (cl z)" for y
    proof -
      have y: "y \<in> large fr" "y \<notin> N" using that lz cz by (auto simp: chain_ok_def)
      then have "at y g \<noteq> c" if "g \<in> {32, 40}" for g using that slot N i by (auto simp: tb_ne ci)
      then show ?thesis using y eq [of y] eq2 [of y] x by auto
    qed
    ultimately show ?thesis using cz unfolding chain_ok_def fr'_def by auto
  qed
  have "tree_ok M (if c = tbin M i then tm OR idx2bit i else tm) m' fr' (insert x N) cl' lo' lv'"
    unfolding tree_ok_def
  proof (intro conjI ballI allI impI)
    show "node_ok M m' fr' (insert x N) cl' lo' lv' z" if "z \<in> insert x N" for z
    proof (cases "z = x")
      case False
      then have z: "z \<in> N" using that by simp
      then obtain s' where "fr z = Some s'" "256 \<le> s'" "m (at z 56) = compute_tree_index s'" "lo z \<le> s'" "s' < lo z + 2 ^ lv z"
        "2 ^ lv z dvd lo z" "lv z \<le> 64" by (auto elim: nd)
      then show ?thesis using False child [OF z] parent [OF z] chain [OF z] eq2 [OF N [OF z], of 56]
        unfolding node_ok_def by (auto simp: fr'_def cl'_def lo'_def lv'_def)
    next
      case True
      have "parent_ok M m' (insert x N) lo' lv' x"
      proof (cases "c = tbin M i")
        case True
        then have "par = tbin M i" "l = rootlo i" "k = rootlv i"
          using assms(10) N i by (auto simp: attaches_def tb_ne)
        then show ?thesis using at_x tb [OF i] True by (simp add: parent_ok_def Let_def lo'_def lv'_def)
      next
        case False
        then have "par \<in> N" "m' (at par 32) = x \<or> m' (at par 40) = x" using slot mc by auto
        moreover have "m (tbin M i) \<noteq> x" using d(5) [OF i] x by auto
        ultimately show ?thesis using at_x tb [OF i] False by (simp add: parent_ok_def Let_def)
      qed
      moreover have "chain_ok m' fr' (insert x N) (cl' x) x s" using at_x by (simp add: chain_ok_def cl'_def)
      ultimately show ?thesis
        using True assms(4,5,11-14) at_x unfolding node_ok_def by (simp add: fr'_def lo'_def lv'_def child_ok_def Let_def)
    qed
    show "set (cl' y) \<inter> set (cl' z) = {}" if yz: "y \<in> insert x N" "z \<in> insert x N" "y \<noteq> z" for y z
      using yz d(2) [of y z] by (auto simp: cl'_def)
    show "\<exists>z \<in> insert x N. p \<in> set (z # cl' z)" if "fr' p = Some s'" "256 \<le> s'" for p s'
      using that d(3) [of p s'] x(2) by (cases "p = x") (auto simp: fr'_def cl'_def)
    show "bit (if c = tbin M i then tm OR idx2bit i else tm) j \<longleftrightarrow> m' (tbin M j) \<noteq> 0" if "j < 32" for j
      using d(4) [OF that] tb [OF that] tb_c [OF that] x(3) i by (auto simp: bit_mark)
    show "m' (tbin M j) \<in> insert x N" if "j < 32" "m' (tbin M j) \<noteq> 0" for j using d(5) [OF that(1)] that tb [OF that(1)] by auto
    show "m' (at (m' (tbin M j)) 56) = j" if "j < 32" "m' (tbin M j) \<noteq> 0" for j
    proof (cases "c = tbin M j")
      case True
      then show ?thesis using tb [OF that(1)] tb_c [OF that(1)] at_x by simp
    next
      case False
      then have "m (tbin M j) \<in> N \<and> m (at (m (tbin M j)) 56) = j" using d(5) [OF that(1)] that tb [OF that(1)] by simp
      then show ?thesis using tb [OF that(1)] False eq2 [OF N, of "m (tbin M j)" 56] by auto
    qed
  qed
  then show ?thesis by (simp only: fr'_def cl'_def lo'_def lv'_def m'_def)
qed

section \<open>Taking chunks out\<close>

text \<open>The words that represent the trees.\<close>

definition large_word :: "nat \<Rightarrow> (nat \<rightharpoonup> nat) \<Rightarrow> nat \<Rightarrow> bool" where
  "large_word M fr a \<longleftrightarrow> (\<exists>x \<in> large fr. \<exists>f. 16 \<le> f \<and> f < 64 \<and> a = at x f) \<or> (\<exists>i < 32. a = tbin M i)"

lemma large_wordI: "x \<in> large fr \<Longrightarrow> f \<in> {16, 24, 32, 40, 48, 56} \<Longrightarrow> large_word M fr (at x f)" "i < 32 \<Longrightarrow> large_word M fr (tbin M i)"
proof -
  assume "x \<in> large fr" "f \<in> {16, 24, 32, 40, 48, 56}"
  moreover have "16 \<le> f" "f < 64" using \<open>f \<in> {16, 24, 32, 40, 48, 56}\<close> by auto
  ultimately show "large_word M fr (at x f)" unfolding large_word_def by blast
qed (unfold large_word_def, blast)

lemma large_word_touch: "apart M fr \<Longrightarrow> large_word M fr a \<Longrightarrow> touch M fr a"
  unfolding large_word_def large_def by (auto intro: touch_at touch_tbin)

lemma small_not_large: "apart M fr \<Longrightarrow> small_word M fr a \<Longrightarrow> \<not> large_word M fr a"
proof -
  assume ap: "apart M fr" and a: "small_word M fr a"
  have 1: "at x f \<noteq> at y g" if x: "fr x = Some s" "s < 256" "f < 32" and y: "fr y = Some s'" "256 \<le> s'" "g < 64" for x y f g s s'
  proof -
    have "32 \<le> s" using apartD(1) [OF ap x(1)] .
    moreover have "x \<noteq> y" using x y by auto
    ultimately show ?thesis using at_inject [OF ap x(1) y(1), of f g] x y by simp
  qed
  have 2: "at x f \<noteq> tbin M i" if "fr x = Some s" "i < 32" for x f i s
    using apartD(4) [OF ap that(1)] that(2) by (simp add: at_def tbin_def)
  have 3: "at (hdr M i) f \<noteq> at y g" if "i < 32" "f \<in> {16, 24}" "fr y = Some s" for i f y g s
    using apartD(4) [OF ap that(3)] that(1,2) by (auto simp: at_def hdr_def)
  have 4: "at (hdr M i) f \<noteq> tbin M j" if "i < 32" "f \<in> {16, 24}" for i j f
    using that by (auto simp: at_def hdr_def tbin_def)
  show ?thesis
    using a unfolding small_word_def large_word_def large_def using 1 2 3 4 by fastforce
qed

lemma tries_cong:
  assumes "tree_ok M tm m fr N cl lo lv" "apart M fr" "\<And>a. large_word M fr a \<Longrightarrow> m' a = m a"
  shows "tree_ok M tm m' fr N cl lo lv"
proof -
  note d = tree_okD [OF assms(1)] and nd = nodeD [OF assms(1,2)]
  have eq: "m' (at y g) = m (at y g)" if "y \<in> large fr" "g \<in> {16, 24, 32, 40, 48, 56}" for y g
    by (rule assms(3)) (rule large_wordI(1) [OF that])
  have tb: "m' (tbin M i) = m (tbin M i)" if "i < 32" for i by (rule assms(3)) (rule large_wordI(2) [OF that])
  have N: "y \<in> large fr" if "y \<in> N" for y using that by (auto elim: nd)
  show ?thesis
    unfolding tree_ok_def
  proof (intro conjI ballI allI impI)
    show "node_ok M m' fr N cl lo lv z" if "z \<in> N" for z
      using d(1) [OF that] that
    proof (rule node_frame)
      show "m (at y 56) < 32" if "y \<in> N" for y using that by (auto elim: nd)
      show "m' (at y g) = m (at y g)" if "y \<in> N" "g \<in> {32, 40, 48, 56}" for y g using eq [OF N [OF that(1)], of g] that(2) by auto
      show "m' (tbin M i) = m (tbin M i)" if "i < 32" for i by (rule tb [OF that])
      show "chain_ok m' fr N (cl z) z s" if "fr z = Some s" for s
      proof -
        have cz: "chain_ok m fr N (cl z) z s" and lz: "insert z (set (cl z)) \<subseteq> large fr" using \<open>z \<in> N\<close> that by (auto elim: nd)
        have "seg m' z (cl z) z = seg m z (cl z) z" using lz eq by (intro seg_cong) auto
        moreover have "m' (at y g) = m (at y g)" if "y \<in> set (cl z)" "g \<in> {32, 40, 48, 56}" for y g
          using eq [of y g] that lz by auto
        ultimately show ?thesis using cz by (auto simp: chain_ok_def)
      qed
    qed simp
    show "set (cl y) \<inter> set (cl z) = {}" if "y \<in> N" "z \<in> N" "y \<noteq> z" for y z by (rule d(2) [OF that])
    show "\<exists>z \<in> N. p \<in> set (z # cl z)" if "fr p = Some s" "256 \<le> s" for p s by (rule d(3) [OF that])
    show "bit tm i \<longleftrightarrow> m' (tbin M i) \<noteq> 0" if "i < 32" for i using d(4) [OF that] tb [OF that] by simp
    show "m' (tbin M i) \<in> N" if "i < 32" "m' (tbin M i) \<noteq> 0" for i using d(5) [OF that(1)] that tb [OF that(1)] by simp
    show "m' (at (m' (tbin M i)) 56) = i" if "i < 32" "m' (tbin M i) \<noteq> 0" for i
    proof -
      have "m (tbin M i) \<in> N \<and> m (at (m (tbin M i)) 56) = i" using d(5) [OF that(1)] that tb [OF that(1)] by simp
      then show ?thesis unfolding tb [OF that(1)] using eq [OF N, of "m (tbin M i)" 56] by auto
    qed
  qed
qed

text \<open>A change of one circular list and of the chunks it holds.\<close>

lemma tree_chain_change:
  assumes "tree_ok M tm m fr N cl lo lv" "apart M fr" "t \<in> N" "fr t = Some s" "chain_ok m' fr' N ys t s" "set ys \<subseteq> set (cl t)"
    "\<And>p. fr' p = (if p \<in> set (cl t) - set ys then None else fr p)"
    "\<And>a. (\<And>y g. y \<in> insert t (set (cl t)) \<Longrightarrow> g \<in> {16, 24} \<Longrightarrow> a \<noteq> at y g) \<Longrightarrow> m' a = m a"
  shows "tree_ok M tm m' fr' N (cl(t := ys)) lo lv"
proof -
  define cl' where "cl' = cl(t := ys)"
  note d = tree_okD [OF assms(1)] and nd = nodeD [OF assms(1,2)] and c = cells_of_large [OF assms(2)]
  have ct: "chain_ok m fr N (cl t) t s" and lt: "insert t (set (cl t)) \<subseteq> large fr" using assms(3,4) by (auto elim: nd)
  have N: "y \<in> large fr" if "y \<in> N" for y using that by (auto elim: nd)
  have eq: "m' (at y g) = m (at y g)" if "y \<in> large fr" "g < 256" "y \<notin> insert t (set (cl t)) \<or> g \<notin> {16, 24}" for y g
    using that lt by (intro assms(8)) (auto simp: cells_iff [OF c] subset_iff)
  have tb: "m' (tbin M i) = m (tbin M i)" if "i < 32" for i
    using lt tbin_below(1) [OF assms(2) _ that] by (intro assms(8)) blast
  have keep: "fr' z = fr z" if "z \<in> N" for z using that assms(7) ct by (auto simp: chain_ok_def)
  have "tree_ok M tm m' fr' N cl' lo lv"
    unfolding tree_ok_def
  proof (intro conjI ballI allI impI)
    show "node_ok M m' fr' N cl' lo lv z" if "z \<in> N" for z
      using d(1) [OF that] that
    proof (rule node_frame)
      show "m (at y 56) < 32" if "y \<in> N" for y using that by (auto elim: nd)
      show "m' (at y g) = m (at y g)" if "y \<in> N" "g \<in> {32, 40, 48, 56}" for y g using eq [OF N [OF that(1)], of g] that(2) by auto
      show "m' (tbin M i) = m (tbin M i)" if "i < 32" for i by (rule tb [OF that])
      show "fr' z = fr z" by (rule keep [OF that])
      show "chain_ok m' fr' N (cl' z) z s'" if s': "fr z = Some s'" for s'
      proof (cases "z = t")
        case False
        have cz: "chain_ok m fr N (cl z) z s'" and lz: "insert z (set (cl z)) \<subseteq> large fr" using \<open>z \<in> N\<close> s' by (auto elim: nd)
        have out: "insert z (set (cl z)) \<inter> insert t (set (cl t)) = {}"
          using d(2) [OF \<open>z \<in> N\<close> assms(3) False] False cz ct assms(3) \<open>z \<in> N\<close> by (auto simp: chain_ok_def)
        have e: "m' (at y g) = m (at y g)" if "y \<in> insert z (set (cl z))" "g < 256" for y g using eq [of y g] that lz out by blast
        have "seg m' z (cl z) z = seg m z (cl z) z" using e by (intro seg_cong) auto
        moreover have "fr' y = fr y" if "y \<in> set (cl z)" for y using that out assms(7) by auto
        ultimately show ?thesis using False cz e by (auto simp: chain_ok_def cl'_def)
      qed (use assms(4,5) s' in \<open>simp add: cl'_def\<close>)
    qed
    show "set (cl' y) \<inter> set (cl' z) = {}" if "y \<in> N" "z \<in> N" "y \<noteq> z" for y z
      using d(2) [OF that] assms(6) by (auto simp: cl'_def)
    show "\<exists>z \<in> N. p \<in> set (z # cl' z)" if ps: "fr' p = Some s'" "256 \<le> s'" for p s'
    proof -
      obtain z where z: "z \<in> N" "p \<in> set (z # cl z)" using ps assms(7) d(3) [of p s'] by (auto split: if_splits)
      then have "p \<in> set (z # cl' z)" using ps assms(7) by (auto simp: cl'_def split: if_splits)
      then show ?thesis using z(1) by blast
    qed
    show "bit tm i \<longleftrightarrow> m' (tbin M i) \<noteq> 0" if "i < 32" for i using d(4) [OF that] tb [OF that] by simp
    show "m' (tbin M i) \<in> N" if "i < 32" "m' (tbin M i) \<noteq> 0" for i using d(5) [OF that(1)] that tb [OF that(1)] by simp
    show "m' (at (m' (tbin M i)) 56) = i" if "i < 32" "m' (tbin M i) \<noteq> 0" for i
    proof -
      have "m (tbin M i) \<in> N \<and> m (at (m (tbin M i)) 56) = i" using d(5) [OF that(1)] that tb [OF that(1)] by simp
      then show ?thesis unfolding tb [OF that(1)] using eq [OF N, of "m (tbin M i)" 56] by auto
    qed
  qed
  then show ?thesis by (simp only: cl'_def)
qed

lemma childD:
  assumes "tree_ok M tm m fr N cl lo lv" "z \<in> N" "b \<in> {0, 1}" "m (at z (32 + 8 * b)) = c" "c \<noteq> 0"
  shows "c \<in> N" "m (at c 48) = z" "m (at c 56) = m (at z 56)" "lv z = Suc (lv c)" "lo c = lo z + b * 2 ^ lv c" "c \<noteq> z"
proof -
  have "child_ok m N lo lv z b" using tree_okD(1) [OF assms(1,2)] assms(3) by (auto simp: node_ok_def)
  then show "c \<in> N" "m (at c 48) = z" "m (at c 56) = m (at z 56)" and lv: "lv z = Suc (lv c)" and "lo c = lo z + b * 2 ^ lv c"
    using assms(4,5) by (auto simp: child_ok_def Let_def)
  show "c \<noteq> z" using lv by auto
qed

text \<open>The field that points to a node: that of its bin, or one of the two of its parent.\<close>

definition points_to :: "nat \<Rightarrow> (nat \<Rightarrow> nat) \<Rightarrow> nat set \<Rightarrow> (nat \<Rightarrow> nat) \<Rightarrow> (nat \<Rightarrow> nat) \<Rightarrow> nat \<Rightarrow> nat \<Rightarrow> bool" where
  "points_to M m N lo lv x c \<longleftrightarrow> (let i = m (at x 56); y = m (at x 48) in m c = x \<and>
     (c = tbin M i \<and> y = tbin M i \<and> lv x = rootlv i \<and> lo x = rootlo i \<or>
      m (tbin M i) \<noteq> x \<and> y \<in> N \<and> y \<noteq> x \<and> (\<exists>b \<in> {0, 1}. c = at y (32 + 8 * b))))"

lemma points_to_exists:
  assumes "tree_ok M tm m fr N cl lo lv" "apart M fr" "x \<in> N"
  shows "points_to M m N lo lv x (if m (tbin M (m (at x 56))) = x then tbin M (m (at x 56))
    else if m (at (m (at x 48)) 32) = x then at (m (at x 48)) 32 else at (m (at x 48)) 40)"
proof -
  have p: "parent_ok M m N lo lv x" and x: "x \<noteq> 0" using assms(3) by (auto elim: nodeD [OF assms(1,2)])
  show ?thesis
  proof (cases "m (tbin M (m (at x 56))) = x")
    case False
    then have y: "m (at x 48) \<in> N" "m (at (m (at x 48)) 32) = x \<or> m (at (m (at x 48)) 40) = x" using p by (auto simp: parent_ok_def Let_def)
    then have "m (at x 48) \<noteq> x" using childD(6) [OF assms(1) y(1), of 0 x] childD(6) [OF assms(1) y(1), of 1 x] x by auto
    then show ?thesis using False y by (auto simp: points_to_def Let_def)
  qed (use p in \<open>auto simp: parent_ok_def points_to_def Let_def\<close>)
qed

text \<open>No other field of a node or bin points to it.\<close>

lemma points_to_unique:
  assumes "tree_ok M tm m fr N cl lo lv" "apart M fr" "x \<in> N" "points_to M m N lo lv x c"
  shows "\<And>z b. z \<in> N \<Longrightarrow> b \<in> {0, 1} \<Longrightarrow> m (at z (32 + 8 * b)) = x \<Longrightarrow> c = at z (32 + 8 * b)"
    "\<And>i. i < 32 \<Longrightarrow> m (tbin M i) = x \<Longrightarrow> c = tbin M i"
proof -
  note nd = nodeD [OF assms(1,2)]
  have x0: "x \<noteq> 0" using assms(3) by (auto elim: nd)
  fix z b assume z: "z \<in> N" "b \<in> {0, 1}" "m (at z (32 + 8 * b)) = x"
  note cz = childD [OF assms(1) z x0]
  have lz: "z \<in> large fr" using z(1) by (auto elim: nd)
  have i: "m (at x 56) < 32" using assms(3) by (auto elim: nd)
  have "m (at x 48) \<noteq> tbin M (m (at x 56))" using cz(2) tbin_below(3) [OF assms(2) lz i] by auto
  then obtain b' where b': "b' \<in> {0, 1}" "c = at z (32 + 8 * b')" "m c = x"
    using assms(4) unfolding points_to_def Let_def cz(2) by blast
  then have "lo x = lo z + b' * 2 ^ lv x" using childD(5) [OF assms(1) z(1) b'(1) _ x0] by simp
  then have "b * 2 ^ lv x = b' * 2 ^ lv x" using cz(5) by simp
  then have "b = b'" by simp
  then show "c = at z (32 + 8 * b)" using b' by simp
next
  fix i assume i: "i < 32" "m (tbin M i) = x"
  then have "m (at x 56) = i" using tree_okD(5) [OF assms(1) i(1)] assms(3) by (auto elim: nodeD [OF assms(1,2)])
  then show "c = tbin M i" using assms(4) i by (auto simp: points_to_def Let_def)
qed

lemma tree_leaf_remove:
  assumes "tree_ok M tm m fr N cl lo lv" "apart M fr" "x \<in> N" "cl x = []" "m (at x 32) = 0" "m (at x 40) = 0"
    "points_to M m N lo lv x c" "i = m (at x 56)"
  shows "tree_ok M (if c = tbin M i then tm AND NOT (idx2bit i) else tm) (m(c := 0)) (fr(x := None)) (N - {x}) cl lo lv"
proof -
  define fr' m' where "fr' = fr(x := None)" and "m' = m(c := 0)"
  note d = tree_okD [OF assms(1)] and nd = nodeD [OF assms(1,2)] and c = cells_of_large [OF assms(2)]
  note ci = cells_iff [OF c] and tb_ne = tbin_below [OF assms(2)] and uniq = points_to_unique [OF assms(1-3,7)]
  have N: "y \<in> large fr" if "y \<in> N" for y using that by (auto elim: nd)
  have i: "i < 32" using assms(3,8) by (auto elim: nd)
  have x0: "x \<noteq> 0" using assms(3) by (auto elim: nd)
  have mc: "m c = x" using assms(7) by (simp add: points_to_def Let_def)
  have slot: "c = tbin M i \<or> m (at x 48) \<in> N \<and> (c = at (m (at x 48)) 32 \<or> c = at (m (at x 48)) 40)"
    using assms(7,8) by (auto simp: points_to_def Let_def)
  have eq: "m' (at y g) = m (at y g)" if "at y g \<noteq> c" for y g using that by (simp add: m'_def)
  have eq2: "m' (at y g) = m (at y g)" if "y \<in> large fr" "g \<in> {16, 24, 48, 56}" for y g
    using that slot N i by (intro eq) (auto simp: tb_ne ci)
  have tb: "m' (tbin M j) = (if c = tbin M j then 0 else m (tbin M j))" for j by (simp add: m'_def)
  have tb_c: "c = tbin M j \<longleftrightarrow> c = tbin M i \<and> j = i" if "j < 32" for j using slot that tb_ne N i by (auto simp: tbin_inject)
  have no_child: "m (at z 48) \<noteq> x" if "z \<in> N" for z
  proof
    assume eq: "m (at z 48) = x"
    have p: "parent_ok M m N lo lv z" and zi: "m (at z 56) < 32" "z \<noteq> 0" using that by (auto elim: nd)
    then show False using eq assms(5,6) tb_ne(3) [OF N [OF assms(3)]] by (auto simp: parent_ok_def Let_def)
  qed
  have child: "child_ok m' (N - {x}) lo lv z b" if z: "z \<in> N" and b: "b \<in> {0, 1}" for z b
  proof (cases "at z (32 + 8 * b) = c")
    case False
    then have e: "m' (at z (32 + 8 * b)) = m (at z (32 + 8 * b))" by (rule eq)
    have "m (at z (32 + 8 * b)) \<noteq> x" using uniq(1) [OF z b] False by auto
    moreover have "child_ok m N lo lv z b" using z b by (auto elim: nd)
    ultimately show ?thesis using e z eq2 [OF N, of _ 48] eq2 [OF N, of _ 56] unfolding child_ok_def by (auto simp: Let_def)
  qed (simp add: child_ok_def m'_def)
  have parent: "parent_ok M m' (N - {x}) lo lv z" if z: "z \<in> N" "z \<noteq> x" for z
  proof -
    have p: "parent_ok M m N lo lv z" and zi: "m (at z 56) < 32" "z \<noteq> 0" using z(1) by (auto elim: nd)
    have e: "m' (at z 56) = m (at z 56)" "m' (at z 48) = m (at z 48)" using eq2 [OF N [OF z(1)]] by auto
    have kids: "m' (at y g) = z" if "m (at y g) = z" for y g
    proof -
      have "at y g \<noteq> c" using that mc z(2) by metis
      then show ?thesis using eq that by simp
    qed
    show ?thesis
    proof (cases "m (tbin M (m (at z 56))) = z")
      case True
      then have "c \<noteq> tbin M (m (at z 56))" using mc z(2) by auto
      then show ?thesis using p True unfolding parent_ok_def e Let_def tb by simp
    next
      case False
      then have "m (at z 48) \<in> N" "m (at (m (at z 48)) 32) = z \<or> m (at (m (at z 48)) 40) = z" using p by (auto simp: parent_ok_def Let_def)
      then show ?thesis using False zi(2) kids no_child [OF z(1)] unfolding parent_ok_def e Let_def tb by auto
    qed
  qed
  have chain: "chain_ok m' fr' (N - {x}) (cl z) z s'" if z: "z \<in> N" and s': "fr z = Some s'" for z s'
  proof -
    have cz: "chain_ok m fr N (cl z) z s'" and lz: "insert z (set (cl z)) \<subseteq> large fr" using z s' by (auto elim: nd)
    have "seg m' z (cl z) z = seg m z (cl z) z" using lz eq2 by (intro seg_cong) auto
    moreover have "y \<noteq> x \<and> m' (at y 48) = m (at y 48) \<and> m' (at y 32) = m (at y 32) \<and> m' (at y 40) = m (at y 40) \<and> m' (at y 56) = m (at y 56)"
      if "y \<in> set (cl z)" for y
    proof -
      have y: "y \<in> large fr" "y \<notin> N" using that lz cz by (auto simp: chain_ok_def)
      then have "at y g \<noteq> c" if "g \<in> {32, 40}" for g using that slot N i by (auto simp: tb_ne ci)
      then show ?thesis using y eq [of y] eq2 [of y] assms(3) by auto
    qed
    ultimately show ?thesis using cz unfolding chain_ok_def fr'_def by auto
  qed
  have "tree_ok M (if c = tbin M i then tm AND NOT (idx2bit i) else tm) m' fr' (N - {x}) cl lo lv"
    unfolding tree_ok_def
  proof (intro conjI ballI allI impI)
    show "node_ok M m' fr' (N - {x}) cl lo lv z" if "z \<in> N - {x}" for z
    proof -
      have z: "z \<in> N" "z \<noteq> x" using that by auto
      obtain s' where "fr z = Some s'" "256 \<le> s'" "m (at z 56) = compute_tree_index s'" "lo z \<le> s'" "s' < lo z + 2 ^ lv z"
        "2 ^ lv z dvd lo z" "lv z \<le> 64" using z(1) by (auto elim: nd)
      then show ?thesis using z(2) child [OF z(1)] parent [OF z] chain [OF z(1)] eq2 [OF N [OF z(1)], of 56]
        unfolding node_ok_def by (auto simp: fr'_def)
    qed
    show "set (cl y) \<inter> set (cl z) = {}" if "y \<in> N - {x}" "z \<in> N - {x}" "y \<noteq> z" for y z
      using that d(2) [of y z] by auto
    show "\<exists>z \<in> N - {x}. p \<in> set (z # cl z)" if "fr' p = Some s'" "256 \<le> s'" for p s'
      using that d(3) [of p s'] assms(4) by (cases "p = x") (auto simp: fr'_def)
    show "bit (if c = tbin M i then tm AND NOT (idx2bit i) else tm) j \<longleftrightarrow> m' (tbin M j) \<noteq> 0" if "j < 32" for j
      using d(4) [OF that] tb [of j] tb_c [OF that] i by (auto simp: bit_clear)
    show "m' (tbin M j) \<in> N - {x}" if "j < 32" "m' (tbin M j) \<noteq> 0" for j
      using d(5) [OF that(1)] that tb [of j] uniq(2) [OF that(1)] by (auto split: if_splits)
    show "m' (at (m' (tbin M j)) 56) = j" if "j < 32" "m' (tbin M j) \<noteq> 0" for j
    proof -
      have "m (tbin M j) \<in> N \<and> m (at (m (tbin M j)) 56) = j" "m' (tbin M j) = m (tbin M j)"
        using d(5) [OF that(1)] that tb [of j] by (auto split: if_splits)
      then show ?thesis using eq2 [OF N, of "m (tbin M j)" 56] by auto
    qed
  qed
  then show ?thesis by (simp only: fr'_def m'_def)
qed

lemma apart_sub: "apart M fr' \<Longrightarrow> (\<And>p s. fr p = Some s \<Longrightarrow> fr' p = Some s) \<Longrightarrow> apart M fr"
  unfolding apart_def by (metis option.exhaust option.distinct(1))

text \<open>A node is replaced by a chunk \<open>r\<close> outside the tree whose size lies in the interval of the node.\<close>

lemma tree_replace:
  assumes "tree_ok M tm m fr N cl lo lv" "apart M fr1" "\<And>p. fr1 p = (if p \<in> set (r # qs) then Some s else fr p)"
    "\<And>p. p \<in> set (r # qs) \<Longrightarrow> fr p = None" "x \<in> N" "cl x = []" "points_to M m N lo lv x c" "256 \<le> s"
    "lo x \<le> s" "s < lo x + 2 ^ lv x" "m (at x 56) = compute_tree_index s" "m (at r 56) = m (at x 56)" "chain_ok m fr1 N qs r s"
    "m' c = r" "m' (at r 48) = m (at x 48)" "m' (at r 32) = m (at x 32)" "m' (at r 40) = m (at x 40)"
    "\<And>b. b \<in> {0, 1} \<Longrightarrow> m (at x (32 + 8 * b)) \<noteq> 0 \<Longrightarrow> m' (at (m (at x (32 + 8 * b))) 48) = r"
    "\<And>a. a \<noteq> c \<Longrightarrow> a \<noteq> at r 48 \<Longrightarrow> a \<noteq> at r 32 \<Longrightarrow> a \<noteq> at r 40 \<Longrightarrow>
       (\<And>b. b \<in> {0, 1} \<Longrightarrow> m (at x (32 + 8 * b)) \<noteq> 0 \<Longrightarrow> a \<noteq> at (m (at x (32 + 8 * b))) 48) \<Longrightarrow> m' a = m a"
  shows "tree_ok M tm m' (fr1(x := None)) (insert r (N - {x})) (cl(r := qs)) (lo(r := lo x)) (lv(r := lv x))"
proof -
  define fr' N' cl' lo' lv' where "fr' = fr1(x := None)" and "N' = insert r (N - {x})" and "cl' = cl(r := qs)"
    and "lo' = lo(r := lo x)" and "lv' = lv(r := lv x)"
  define i K where "i = m (at x 56)" and "K = {y. y \<noteq> 0 \<and> (y = m (at x 32) \<or> y = m (at x 40))}"
  have ap: "apart M fr" using assms(2) by (rule apart_sub) (use assms(3,4) in \<open>auto split: if_splits\<close>)
  note d = tree_okD [OF assms(1)] and nd = nodeD [OF assms(1) ap] and c = cells_of_large [OF assms(2)]
  note ci = cells_iff [OF c] and tb_ne = tbin_below [OF assms(2)] and uniq = points_to_unique [OF assms(1) ap assms(5,7)]
  have sub: "y \<in> large fr1" if "y \<in> large fr" for y using that assms(3,4) [of y] by (auto simp: large_def split: if_splits)
  have N: "y \<in> large fr1" if "y \<in> N" for y using that by (auto elim: nd intro: sub)
  have N0: "y \<noteq> 0 \<and> m (at y 56) < 32 \<and> y \<notin> set (r # qs)" if "y \<in> N" for y using that assms(4) by (fastforce elim: nd)
  have lr: "insert r (set qs) \<subseteq> large fr1" using assms(3,8) by (auto simp: large_def)
  have r0: "r \<noteq> 0" "r \<notin> N" using apartD(6) [OF assms(2), of r s] assms(3) N0 [of r] by auto
  have i: "i < 32" using N0 [OF assms(5)] by (simp add: i_def)
  have mc: "m c = x" using assms(7) by (simp add: points_to_def Let_def)
  have slot: "c = tbin M i \<or> m (at x 48) \<in> N \<and> m (at x 48) \<noteq> x \<and> (c = at (m (at x 48)) 32 \<or> c = at (m (at x 48)) 40)"
    using assms(7) by (auto simp: points_to_def Let_def i_def)
  have kid: "y \<in> N" "m (at y 48) = x" "y \<noteq> x" if "y \<in> K" for y
    using that childD [OF assms(1,5), of 0 y] childD [OF assms(1,5), of 1 y] by (auto simp: K_def)
  have other: "m' a = m a" if "a \<noteq> c" "a \<noteq> at r 48" "a \<noteq> at r 32" "a \<noteq> at r 40" "\<And>y. y \<in> K \<Longrightarrow> a \<noteq> at y 48" for a
  proof (rule assms(19) [OF that(1-4)])
    fix b :: nat assume "b \<in> {0, 1}" "m (at x (32 + 8 * b)) \<noteq> 0"
    then have "m (at x (32 + 8 * b)) \<in> K" by (auto simp: K_def)
    then show "a \<noteq> at (m (at x (32 + 8 * b))) 48" by (rule that(5))
  qed
  have at_c: "at y g \<noteq> c" if "y \<in> large fr1" "g < 256" "y \<notin> N \<or> g \<notin> {32, 40}" for y g
    using that slot N i by (auto simp: tb_ne ci)
  have eq: "m' (at y g) = m (at y g)" if "y \<in> large fr1" "g \<in> {16, 24, 56}" for y g
    using that at_c [of y g] lr kid(1) N by (intro other) (auto simp: ci)
  have eq48: "m' (at y 48) = m (at y 48)" if "y \<in> large fr1" "y \<noteq> r" "y \<notin> K" for y
    using that at_c [of y 48] lr kid(1) N by (intro other) (auto simp: ci)
  have eqc: "m' (at y g) = m (at y g)" if "y \<in> large fr1" "y \<noteq> r" "g \<in> {32, 40}" "at y g \<noteq> c" for y g
    using that lr kid(1) N by (intro other) (auto simp: ci)
  have tb: "m' (tbin M j) = (if c = tbin M j then r else m (tbin M j))" if "j < 32" for j
    using that assms(14) lr kid(1) N by (auto intro!: other simp: tb_ne)
  have tb_c: "c = tbin M j \<longleftrightarrow> c = tbin M i \<and> j = i" if "j < 32" for j using slot that tb_ne N i by (auto simp: tbin_inject)
  have parent_x: "z \<in> K" if "z \<in> N" "m (at z 48) = x" for z
  proof -
    have p: "parent_ok M m N lo lv z" and z: "m (at z 56) < 32" "z \<noteq> 0" using that by (auto elim: nd)
    then have "m (at x 32) = z \<or> m (at x 40) = z"
      using that(2) tb_ne(3) [OF N [OF assms(5)] z(1)] unfolding parent_ok_def Let_def that(2) by blast
    then show ?thesis using z by (auto simp: K_def)
  qed
  have child: "child_ok m' N' lo' lv' z b" if z: "z \<in> N" "z \<noteq> x" and b: "b \<in> {0, 1}" for z b
  proof (cases "at z (32 + 8 * b) = c")
    case True
    then have "m (at z (32 + 8 * b)) = x" using mc by simp
    note cx = childD [OF assms(1) z(1) b this] and x0 = N0 [OF assms(5)]
    then have "lv z = Suc (lv x)" "lo x = lo z + b * 2 ^ lv x" "m (at x 48) = z" "i = m (at z 56)" by (auto simp: i_def)
    moreover have "m' (at r 56) = i" "m' (at z 56) = m (at z 56)" using eq [of r 56] eq [OF N [OF z(1)], of 56] lr assms(12) by (auto simp: i_def)
    ultimately show ?thesis using True assms(14,15) z r0 unfolding child_ok_def by (auto simp: Let_def lo'_def lv'_def N'_def)
  next
    case False
    have zr: "z \<noteq> r" using z(1) r0 by auto
    have e: "m' (at z (32 + 8 * b)) = m (at z (32 + 8 * b))" using eqc [OF N [OF z(1)] zr _ False] b by auto
    show ?thesis
    proof (cases "m (at z (32 + 8 * b)) = 0")
      case True
      then show ?thesis using e by (simp add: child_ok_def Let_def)
    next
      case ne: False
      define y where "y = m (at z (32 + 8 * b))"
      note cy = childD [OF assms(1) z(1) b y_def [symmetric] ne [folded y_def]]
      have y: "y \<noteq> x" "y \<noteq> r" "y \<notin> K" using uniq(1) [OF z(1) b] False cy(1,2) r0 kid(2) z(2) by (auto simp: y_def)
      have "m' (at y 48) = z" "m' (at y 56) = m (at y 56)" "m' (at z 56) = m (at z 56)"
        using eq48 [OF N [OF cy(1)] y(2,3)] cy(2) eq [OF N [OF cy(1)], of 56] eq [OF N [OF z(1)], of 56] by auto
      then show ?thesis using e cy y zr unfolding child_ok_def by (auto simp: Let_def lo'_def lv'_def N'_def y_def [symmetric])
    qed
  qed
  have child_r: "child_ok m' N' lo' lv' r b" if b: "b \<in> {0, 1}" for b
  proof -
    define y where "y = m (at x (32 + 8 * b))"
    have e: "m' (at r (32 + 8 * b)) = y" using b assms(16,17) by (auto simp: y_def)
    show ?thesis
    proof (cases "y = 0")
      case False
      note cy = childD [OF assms(1,5) b y_def [symmetric] False]
      have "m' (at y 48) = r" using assms(18) [OF b] False by (simp add: y_def)
      moreover have "m' (at y 56) = m' (at r 56)" using eq [OF N [OF cy(1)], of 56] eq [of r 56] lr cy(3) assms(12) by auto
      ultimately show ?thesis using e cy r0 unfolding child_ok_def by (auto simp: Let_def lo'_def lv'_def N'_def)
    qed (use e in \<open>simp add: child_ok_def Let_def\<close>)
  qed
  have parent: "parent_ok M m' N' lo' lv' z" if z: "z \<in> N" "z \<noteq> x" for z
  proof -
    have p: "parent_ok M m N lo lv z" and zi: "m (at z 56) < 32" "z \<noteq> 0" using z(1) by (auto elim: nd)
    have zr: "z \<noteq> r" using z(1) r0 by auto
    have e: "m' (at z 56) = m (at z 56)" using eq [OF N [OF z(1)], of 56] by auto
    have root: "m' (tbin M (m (at z 56))) = z \<longleftrightarrow> m (tbin M (m (at z 56))) = z"
      using tb [OF zi(1)] mc zr z(2) by (cases "c = tbin M (m (at z 56))") auto
    show ?thesis
    proof (cases "z \<in> K")
      case True
      then have nr: "m (tbin M (m (at z 56))) \<noteq> z"
        using p kid(2) [OF True] tb_ne(3) [OF N [OF assms(5)] zi(1)] by (auto simp: parent_ok_def Let_def)
      have "m' (at z 48) = r" using True assms(18) [of 0] assms(18) [of 1] by (auto simp: K_def)
      moreover have "m' (at r 32) = z \<or> m' (at r 40) = z" using True assms(16,17) by (auto simp: K_def)
      ultimately show ?thesis using nr root unfolding parent_ok_def e Let_def by (auto simp: N'_def)
    next
      case False
      have e48: "m' (at z 48) = m (at z 48)" by (rule eq48 [OF N [OF z(1)] zr False])
      have zlo: "lo' z = lo z" "lv' z = lv z" using zr by (auto simp: lo'_def lv'_def)
      show ?thesis
      proof (cases "m (tbin M (m (at z 56))) = z")
        case True
        then have "m' (tbin M (m (at z 56))) = z" using root by simp
        then show ?thesis using p True zlo e48 unfolding parent_ok_def e Let_def by simp
      next
        case nr: False
        then have y: "m (at z 48) \<in> N" "m (at (m (at z 48)) 32) = z \<or> m (at (m (at z 48)) 40) = z" using p by (auto simp: parent_ok_def Let_def)
        have ne: "m (at z 48) \<noteq> x" "m (at z 48) \<noteq> r" using parent_x [OF z(1)] False y(1) r0 by auto
        have "m' (at (m (at z 48)) g) = z" if "g = 32 \<or> g = 40" "m (at (m (at z 48)) g) = z" for g
        proof -
          have "at (m (at z 48)) g \<noteq> c" using that(2) mc z(2) by metis
          then show ?thesis using eqc [OF N [OF y(1)] ne(2)] that by auto
        qed
        then show ?thesis using nr root y ne e48 unfolding parent_ok_def e Let_def by (auto simp: N'_def)
      qed
    qed
  qed
  have chain: "chain_ok m' fr' N' (cl z) z s'" if z: "z \<in> N" "z \<noteq> x" and s': "fr z = Some s'" for z s'
  proof -
    have cz: "chain_ok m fr N (cl z) z s'" and lz: "insert z (set (cl z)) \<subseteq> large fr" using z s' by (auto elim: nd)
    have "seg m' z (cl z) z = seg m z (cl z) z" using lz eq sub by (intro seg_cong) auto
    moreover have "y \<notin> N' \<and> fr' y = Some s' \<and> m' (at y 48) = m (at y 48) \<and> m' (at y 32) = m (at y 32) \<and> m' (at y 40) = m (at y 40) \<and> m' (at y 56) = m (at y 56)"
      if "y \<in> set (cl z)" for y
    proof -
      have y: "y \<in> large fr1" "y \<notin> N" "fr y = Some s'" using that lz cz sub by (auto simp: chain_ok_def)
      then have yr: "y \<noteq> r" "y \<notin> K" "y \<noteq> x" "y \<notin> set (r # qs)" using assms(4,5) kid(1) by fastforce+
      then show ?thesis using y eq [of y 56] eq48 [of y] eqc [of y 32] eqc [of y 40] at_c [of y] assms(3) by (auto simp: fr'_def N'_def)
    qed
    ultimately show ?thesis using cz unfolding chain_ok_def by auto
  qed
  have chain_r: "chain_ok m' fr' N' qs r s"
  proof -
    have "seg m' r qs r = seg m r qs r" using lr eq by (intro seg_cong) auto
    moreover have "y \<notin> N' \<and> fr' y = Some s \<and> m' (at y 48) = m (at y 48) \<and> m' (at y 32) = m (at y 32) \<and> m' (at y 40) = m (at y 40) \<and> m' (at y 56) = m (at y 56)"
      if "y \<in> set qs" for y
    proof -
      have y: "y \<in> large fr1" "y \<notin> N" "y \<noteq> r" using that lr assms(13) by (auto simp: chain_ok_def)
      then have yr: "y \<notin> K" "y \<noteq> x" using assms(5) kid(1) by auto
      then show ?thesis using y that eq [of y 56] eq48 [of y] eqc [of y 32] eqc [of y 40] at_c [of y] assms(3) [of y] by (auto simp: fr'_def N'_def)
    qed
    ultimately show ?thesis using assms(13) unfolding chain_ok_def by auto
  qed
  have "tree_ok M tm m' fr' N' cl' lo' lv'"
    unfolding tree_ok_def
  proof (intro conjI ballI allI impI)
    show "node_ok M m' fr' N' cl' lo' lv' z" if "z \<in> N'" for z
    proof (cases "z = r")
      case False
      then have z: "z \<in> N" "z \<noteq> x" using that by (auto simp: N'_def)
      obtain s' where "fr z = Some s'" "256 \<le> s'" "m (at z 56) = compute_tree_index s'" "lo z \<le> s'" "s' < lo z + 2 ^ lv z"
        "2 ^ lv z dvd lo z" "lv z \<le> 64" using z(1) by (auto elim: nd)
      then show ?thesis using z False child [OF z] parent [OF z] chain [OF z] eq [OF N [OF z(1)], of 56] assms(3) [of z] N0 [OF z(1)]
        unfolding node_ok_def by (auto simp: fr'_def cl'_def lo'_def lv'_def)
    next
      case True
      have "parent_ok M m' N' lo' lv' r"
      proof (cases "c = tbin M i")
        case True
        then have "m (at x 48) = tbin M i \<and> lv x = rootlv i \<and> lo x = rootlo i"
          using assms(7) N tb_ne i by (auto simp: points_to_def Let_def i_def)
        then show ?thesis using True tb [OF i] assms(12,15) eq [of r 56] lr by (simp add: parent_ok_def Let_def i_def lo'_def lv'_def)
      next
        case False
        then have y: "m (at x 48) \<in> N" "m (at x 48) \<noteq> x" "m' (at (m (at x 48)) 32) = r \<or> m' (at (m (at x 48)) 40) = r" using slot assms(14) by auto
        have "m (tbin M i) \<noteq> r" using d(5) [OF i] r0 by auto
        then show ?thesis using y False tb [OF i] assms(12,15) eq [of r 56] lr by (simp add: parent_ok_def Let_def N'_def i_def)
      qed
      moreover have "2 ^ lv x dvd lo x" "lv x \<le> 64" using assms(5) by (auto elim: nd)
      moreover have "r \<noteq> x" using r0 assms(5) by auto
      ultimately show ?thesis
        using True assms(3) [of r] assms(8-12) chain_r child_r eq [of r 56] lr unfolding node_ok_def by (auto simp: fr'_def lo'_def lv'_def cl'_def)
    qed
    show "set (cl' y) \<inter> set (cl' z) = {}" if yz: "y \<in> N'" "z \<in> N'" "y \<noteq> z" for y z
    proof -
      have "set qs \<inter> set (cl w) = {}" if "w \<in> N" for w
      proof -
        have "fr v \<noteq> None" if "v \<in> set (cl w)" for v using \<open>w \<in> N\<close> that by (fastforce simp: chain_ok_def elim: nd)
        then show ?thesis using assms(4) by fastforce
      qed
      then show ?thesis using yz d(2) [of y z] r0 by (auto simp: cl'_def N'_def)
    qed
    show "\<exists>z \<in> N'. p \<in> set (z # cl' z)" if ps: "fr' p = Some s'" "256 \<le> s'" for p s'
    proof (cases "p \<in> set (r # qs)")
      case False
      then have p: "fr p = Some s'" "p \<noteq> x" using ps assms(3) [of p] by (auto simp: fr'_def split: if_splits)
      then obtain z where z: "z \<in> N" "p \<in> set (z # cl z)" using ps d(3) [of p s'] by auto
      then have "z \<noteq> x" using p(2) assms(6) by auto
      then show ?thesis using z r0 by (intro bexI [of _ z]) (auto simp: N'_def cl'_def)
    qed (auto simp: N'_def cl'_def)
    show "bit tm j \<longleftrightarrow> m' (tbin M j) \<noteq> 0" if "j < 32" for j
      using d(4) [OF that] tb [OF that] mc r0 N0 [OF assms(5)] by auto
    show "m' (tbin M j) \<in> N'" if "j < 32" "m' (tbin M j) \<noteq> 0" for j
      using d(5) [OF that(1)] that tb [OF that(1)] uniq(2) [OF that(1)] by (auto simp: N'_def split: if_splits)
    show "m' (at (m' (tbin M j)) 56) = j" if "j < 32" "m' (tbin M j) \<noteq> 0" for j
    proof (cases "c = tbin M j")
      case True
      then show ?thesis using tb [OF that(1)] tb_c [OF that(1)] eq [of r 56] lr assms(12) by (simp add: i_def)
    next
      case False
      then have "m (tbin M j) \<in> N \<and> m (at (m (tbin M j)) 56) = j" "m' (tbin M j) = m (tbin M j)"
        using d(5) [OF that(1)] that tb [OF that(1)] by (auto split: if_splits)
      then show ?thesis using eq [OF N, of "m (tbin M j)" 56] by auto
    qed
  qed
  then show ?thesis by (simp only: fr'_def N'_def cl'_def lo'_def lv'_def)
qed

lemma tree_same_chunks:
  assumes "tree_ok M tm m fr N cl lo lv" "\<And>p s. 256 \<le> s \<Longrightarrow> fr' p = Some s \<longleftrightarrow> fr p = Some s"
  shows "tree_ok M tm m fr' N cl lo lv"
proof -
  have chain: "chain_ok m fr' N ys x s" if "chain_ok m fr N ys x s" "256 \<le> s" for ys x s
    using that assms(2) by (auto simp: chain_ok_def)
  show ?thesis using assms unfolding tree_ok_def node_ok_def by (blast intro: chain)
qed

end
