(* ===== verification/DlOps.thy ===== *)
theory DlOps
  imports DlTrees
begin

text \<open>
  The bins as a data type: insertion and removal of a chunk succeed and update the set of chunks, and they write only to the
  words of the bins. The walks down a tree end within their fuel, as each step halves the interval of sizes.
\<close>

section \<open>The state of the bins\<close>

lemma poke_simps [simp]:
  "words (poke a v st) = (words st)(a := v)" "smallmap (poke a v st) = smallmap st" "treemap (poke a v st) = treemap st"
  "dvsize (poke a v st) = dvsize st" "topsize (poke a v st) = topsize st" "least_addr (poke a v st) = least_addr st"
  "dv (poke a v st) = dv st" "top_chunk (poke a v st) = top_chunk st" "trim_check (poke a v st) = trim_check st"
  "release_checks (poke a v st) = release_checks st" "maddr (poke a v st) = maddr st"
  by (simp_all add: poke_def)

definition bins :: "mstate \<Rightarrow> (nat \<rightharpoonup> nat) \<Rightarrow> bool" where
  "bins st fr \<longleftrightarrow> apart (maddr st) fr \<and> least_addr st \<le> maddr st \<and>
     (\<exists>ch. small_ok (maddr st) (smallmap st) (words st) fr ch) \<and>
     (\<exists>N cl lo lv. tree_ok (maddr st) (treemap st) (words st) fr N cl lo lv)"

text \<open>The sizes in the heads are those of the chunks.\<close>

definition sized :: "mstate \<Rightarrow> (nat \<rightharpoonup> nat) \<Rightarrow> bool" where
  "sized st fr \<longleftrightarrow> (\<forall>x s. fr x = Some s \<longrightarrow> chunksize st x = s)"

text \<open>Only the words of the bins and the two bit maps change.\<close>

definition kept :: "(nat \<rightharpoonup> nat) \<Rightarrow> mstate \<Rightarrow> mstate \<Rightarrow> bool" where
  "kept fr st st' \<longleftrightarrow> (\<forall>a. \<not> touch (maddr st) fr a \<longrightarrow> words st' a = words st a) \<and>
     dvsize st' = dvsize st \<and> topsize st' = topsize st \<and> least_addr st' = least_addr st \<and> dv st' = dv st \<and>
     top_chunk st' = top_chunk st \<and> trim_check st' = trim_check st \<and> release_checks st' = release_checks st \<and> maddr st' = maddr st"

lemma binsD: "bins st fr \<Longrightarrow> apart (maddr st) fr" "bins st fr \<Longrightarrow> least_addr st \<le> maddr st"
  by (simp_all add: bins_def)

lemma bins_cong:
  assumes "bins st fr" "\<And>a. touch (maddr st) fr a \<Longrightarrow> words st' a = words st a" "maddr st' = maddr st" "least_addr st' = least_addr st"
    "smallmap st' = smallmap st" "treemap st' = treemap st"
  shows "bins st' fr"
proof -
  have ap: "apart (maddr st) fr" using assms(1) by (simp add: bins_def)
  obtain ch N cl lo lv where s: "small_ok (maddr st) (smallmap st) (words st) fr ch"
    and t: "tree_ok (maddr st) (treemap st) (words st) fr N cl lo lv" using assms(1) by (auto simp: bins_def)
  have "small_ok (maddr st) (smallmap st) (words st') fr ch"
    by (rule small_cong [OF s]) (use assms(2) small_word_touch [OF ap] in auto)
  moreover have "tree_ok (maddr st) (treemap st) (words st') fr N cl lo lv"
    by (rule tries_cong [OF t ap]) (use assms(2) large_word_touch [OF ap] in auto)
  ultimately show ?thesis using assms(1,3-6) by (auto simp: bins_def)
qed

lemma above_least: "bins st fr \<Longrightarrow> fr x \<noteq> None \<Longrightarrow> least_addr st \<le> x"
  using apartD(4) [of "maddr st" fr x] by (auto simp: bins_def)

section \<open>Small chunks\<close>

lemma small_div: "apart M fr \<Longrightarrow> fr p = Some s \<Longrightarrow> s < 256 \<Longrightarrow> s = 8 * small_index s \<and> small_index s < 32"
  using apartD(3) [of M fr p s] by (auto simp: small_index_def dvd_def)

lemma small_op:
  assumes "bins st fr" "apart (maddr st) fr'" "\<exists>ch. small_ok (maddr st) sm m' fr' ch"
    "\<And>p s. 256 \<le> s \<Longrightarrow> fr' p = Some s \<longleftrightarrow> fr p = Some s"
    "apart (maddr st) frw" "\<And>a. m' a \<noteq> words st a \<Longrightarrow> small_word (maddr st) frw a" "\<And>p s. fr p = Some s \<Longrightarrow> frw p = Some s"
    "st' = st\<lparr>smallmap := sm, words := m'\<rparr>"
  shows "bins st' fr' \<and> kept frw st st'"
proof -
  have ap: "apart (maddr st) fr" using assms(1) by (simp add: bins_def)
  obtain N cl lo lv where t: "tree_ok (maddr st) (treemap st) (words st) fr N cl lo lv" using assms(1) by (auto simp: bins_def)
  have "tree_ok (maddr st) (treemap st) m' fr N cl lo lv"
  proof (rule tries_cong [OF t ap])
    fix a assume "large_word (maddr st) fr a"
    then have "large_word (maddr st) frw a" using assms(7) by (auto simp: large_word_def large_def)
    then show "m' a = words st a" using assms(5,6) small_not_large by blast
  qed
  then have "tree_ok (maddr st) (treemap st) m' fr' N cl lo lv" by (rule tree_same_chunks) (rule assms(4))
  then show ?thesis
    using assms(1-3,5,6,8) small_word_touch [OF assms(5)] by (auto simp: bins_def kept_def)
qed

lemma insert_small_spec:
  assumes "bins st fr" "fr p = None" "apart (maddr st) (fr(p \<mapsto> s))" "s < 256"
  shows "\<exists>st'. insert_small_chunk p s st = Inr st' \<and> bins st' (fr(p \<mapsto> s)) \<and> kept (fr(p \<mapsto> s)) st st'"
proof -
  define i where "i = small_index s"
  have s: "s = 8 * i" "i < 32" using small_div [OF assms(3), of p s] assms(4) by (auto simp: i_def)
  obtain ch where ch: "small_ok (maddr st) (smallmap st) (words st) fr ch" using assms(1) by (auto simp: bins_def)
  let ?b = "hdr (maddr st) i"
  define f where "f = (if bit (smallmap st) i then words st (at ?b 16) else ?b)"
  note ins = small_insert [OF ch s(2) assms(2) assms(3)[unfolded s(1)] f_def]
  have la: "bit (smallmap st) i \<Longrightarrow> least_addr st \<le> words st (at ?b 16)"
    using ins(2) above_least [OF assms(1), of f] binsD(2) [OF assms(1)] by (auto simp: f_def hdr_def)
  define m' where "m' = (words st)(at ?b 16 := p, at f 24 := p, at p 16 := f, at p 24 := ?b)"
  define st' where "st' = st\<lparr>smallmap := smallmap st OR idx2bit i, words := m'\<rparr>"
  have or_id: "smallmap st OR idx2bit i = smallmap st" if "bit (smallmap st) i"
    using that by (auto intro!: bit_word_eqI simp: bit_mark [OF s(2)])
  have "insert_small_chunk p s st = Inr st'"
    using la or_id unfolding insert_small_chunk_def Let_def bin_addresses i_def [symmetric]
    by (auto simp: st'_def m'_def f_def poke_def)
  moreover have "bins st' (fr(p \<mapsto> s)) \<and> kept (fr(p \<mapsto> s)) st st'"
  proof (rule small_op [OF assms(1,3) _ _ assms(3) _ _ st'_def])
    show "\<exists>ch. small_ok (maddr st) (smallmap st OR idx2bit i) m' (fr(p \<mapsto> s)) ch" using ins(1) s(1) by (auto simp: m'_def)
    have w: "small_word (maddr st) (fr(p \<mapsto> s)) (at p g)" "small_word (maddr st) (fr(p \<mapsto> s)) (at ?b g)"
        "small_word (maddr st) (fr(p \<mapsto> s)) (at f g)" if "g \<in> {16, 24}" for g
      using that s assms(2,4) ins(2) by (auto intro: small_wordI)
    show "small_word (maddr st) (fr(p \<mapsto> s)) a" if "m' a \<noteq> words st a" for a
      using that w [of 16] w [of 24] unfolding m'_def by (auto split: if_splits)
  qed (use assms(2,4) in \<open>auto split: if_splits\<close>)
  ultimately show ?thesis by blast
qed

lemma small_removed:
  assumes "bins st fr" "fr p = Some s" "s < 256" "f = fd st p" "b = bk st p" "i = small_index s"
    "st' = (if b = f then st\<lparr>smallmap := smallmap st AND NOT (idx2bit i)\<rparr> else poke (at b 16) f (poke (at f 24) b st))"
  shows "bins st' (fr(p := None)) \<and> kept fr st st'" "f = hdr (maddr st) i \<or> least_addr st \<le> f" "b = hdr (maddr st) i \<or> least_addr st \<le> b"
    "bk st f = p" "fd st b = p" "fd st (hdr (maddr st) i) = p \<Longrightarrow> b = hdr (maddr st) i"
proof -
  note ap = binsD(1) [OF assms(1)]
  have s: "s = 8 * i" "i < 32" using small_div [OF ap assms(2,3)] assms(6) by auto
  obtain ch where ch: "small_ok (maddr st) (smallmap st) (words st) fr ch" using assms(1) by (auto simp: bins_def)
  note rem = small_remove [OF ch s(2) assms(2) [unfolded s(1)] ap assms(4,5)]
  show "f = hdr (maddr st) i \<or> least_addr st \<le> f" "b = hdr (maddr st) i \<or> least_addr st \<le> b"
    using rem(2,3) above_least [OF assms(1)] by auto
  show "bk st f = p" "fd st b = p" "fd st (hdr (maddr st) i) = p \<Longrightarrow> b = hdr (maddr st) i" using rem(4-6) by auto
  define m' sm where "m' = (if b = f then words st else (words st)(at f 24 := b, at b 16 := f))"
    and "sm = (if b = f then smallmap st AND NOT (idx2bit i) else smallmap st)"
  show "bins st' (fr(p := None)) \<and> kept fr st st'"
  proof (rule small_op [OF assms(1) _ _ _ ap])
    show "apart (maddr st) (fr(p := None))" by (rule apart_sub [OF ap]) (auto split: if_splits)
    show "\<exists>ch. small_ok (maddr st) sm m' (fr(p := None)) ch" using rem(1) by (auto simp: m'_def sm_def)
    have w: "small_word (maddr st) fr (at f 24)" "small_word (maddr st) fr (at b 16)"
      using rem(2,3) s assms(3) by (auto intro: small_wordI)
    show "small_word (maddr st) fr a" if "m' a \<noteq> words st a" for a
      using that w unfolding m'_def by (auto split: if_splits)
    show "st' = st\<lparr>smallmap := sm, words := m'\<rparr>" by (simp add: assms(7) sm_def m'_def poke_def)
  qed (use assms(2,3) in \<open>auto split: if_splits\<close>)
qed

lemma unlink_small_spec:
  assumes "bins st fr" "fr p = Some s" "s < 256"
  shows "\<exists>st'. unlink_small_chunk p s st = Inr st' \<and> bins st' (fr(p := None)) \<and> kept fr st st'"
proof -
  note rem = small_removed [OF assms refl refl refl refl]
  then show ?thesis unfolding unlink_small_chunk_def Let_def bin_addresses by (auto simp del: poke_simps)
qed

lemma unlink_first_small_spec:
  assumes "bins st fr" "fr p = Some s" "s < 256" "i = small_index s" "fd st (hdr (maddr st) i) = p"
  shows "\<exists>st'. unlink_first_small_chunk (smallbin_at st i) p i st = Inr st' \<and> bins st' (fr(p := None)) \<and> kept fr st st'"
proof -
  note rem = small_removed [OF assms(1-3) refl refl refl refl] and b = small_removed(6) [OF assms(1-3) refl refl assms(4) refl assms(5)]
  have la: "least_addr st \<le> fd st p" using rem(2) binsD(2) [OF assms(1)] by (auto simp: hdr_def)
  show ?thesis
    using rem(1,4) b la unfolding unlink_first_small_chunk_def Let_def bin_addresses assms(4) by (auto simp del: poke_simps)
qed

text \<open>A marked bin has a first chunk, of the size of the bin.\<close>

lemma small_first:
  assumes "bins st fr" "i < 32" "bit (smallmap st) i"
  shows "fr (fd st (hdr (maddr st) i)) = Some (8 * i)"
proof -
  obtain ch where ch: "small_ok (maddr st) (smallmap st) (words st) fr ch" using assms(1) by (auto simp: bins_def)
  note d = small_okD [OF ch assms(2)]
  have ne: "ch i \<noteq> []" using d(1) assms(3) by simp
  then have "fd st (hdr (maddr st) i) = hd (ch i)" using seg_first [OF d(2) [OF ne]] by simp
  then show ?thesis using d(4) [of "hd (ch i)"] ne by simp
qed

section \<open>Insertion of large chunks\<close>

lemma insert_walk_spec:
  assumes "tree_ok M tm m fr N cl lo lv" "apart M fr" "sized st fr" "words st = m" "least_addr st \<le> M"
  shows "t \<in> N \<Longrightarrow> lo t \<le> s \<Longrightarrow> s < lo t + 2 ^ lv t \<Longrightarrow> m (at t 56) = i \<Longrightarrow> k = s * 2 ^ (64 - lv t) mod 2 ^ 64 \<Longrightarrow> lv t < fuel \<Longrightarrow>
    (\<exists>u \<in> N. fr u = Some s \<and> m (at u 16) \<ge> least_addr st \<and> u \<ge> least_addr st \<and> insert_walk fuel x s t k st =
       Inr (poke (at x 48) 0 (poke (at x 24) u (poke (at x 16) (m (at u 16)) (poke (at u 16) x (poke (at (m (at u 16)) 24) x st)))))) \<or>
    (\<exists>u \<in> N. \<exists>b \<in> {0, 1}. \<exists>j. m (at u (32 + 8 * b)) = 0 \<and> lv u = Suc j \<and> m (at u 56) = i \<and> lo u + b * 2 ^ j \<le> s \<and> s < lo u + b * 2 ^ j + 2 ^ j \<and>
       insert_walk fuel x s t k st = Inr (poke (at x 16) x (poke (at x 24) x (poke (at x 48) u (poke (at u (32 + 8 * b)) x st)))))"
proof (induction fuel arbitrary: t k)
  case (Suc fuel)
  note nd = nodeD [OF assms(1,2)] and d = tree_okD [OF assms(1)]
  obtain s' where t: "fr t = Some s'" "lo t \<le> s'" "s' < lo t + 2 ^ lv t" "2 ^ lv t dvd lo t" "lv t \<le> 64" "chain_ok m fr N (cl t) t s'"
    "t \<in> large fr" "set (cl t) \<subseteq> large fr" using Suc.prems(1) by (auto elim: nd)
  have sz: "chunksize st t = s'" using assms(3) t(1) by (simp add: sized_def)
  have big: "least_addr st \<le> y" if "y \<in> large fr" for y
    using that assms(5) apartD(4) [OF assms(2), of y] by (fastforce simp: large_def)
  show ?case
  proof (cases "s' = s")
    case True
    have "m (at t 16) = hd (cl t @ [t])" using seg_first [of m t "cl t" t] t(6) by (simp add: chain_ok_def)
    then have "m (at t 16) \<in> large fr" using t(7,8) by (cases "cl t") auto
    then have "u \<ge> least_addr st" if "u = t \<or> u = m (at t 16)" for u using that big t(7) by auto
    then show ?thesis using True sz assms(4) Suc.prems(1) t(1) by (intro disjI1 bexI [of _ t]) (auto simp: Let_def)
  next
    case False
    have "lv t \<noteq> 0" using False Suc.prems(2,3) t(2,3) by (cases "lv t") auto
    then obtain j where j: "lv t = Suc j" by (cases "lv t") auto
    define b where "b = s div 2 ^ j mod 2"
    have kb: "k div 2 ^ 63 = b" using Suc.prems(5) top_bit [of j s] j t(5) by (simp add: b_def)
    have b: "b \<in> {0, 1}" by (auto simp: b_def)
    have half_s: "lo t + b * 2 ^ j \<le> s" "s < lo t + b * 2 ^ j + 2 ^ j"
      using half [of j "lo t" s b, OF _ Suc.prems(2) _ b_def] t(4) Suc.prems(2,3) j b by auto
    have k': "2 * k mod 2 ^ 64 = s * 2 ^ (64 - j) mod 2 ^ 64"
    proof -
      have "64 - j = Suc (64 - lv t)" using j t(5) by simp
      then show ?thesis using Suc.prems(5) by (simp add: mod_mult_right_eq mult.assoc mult.left_commute)
    qed
    define c where "c = m (at t (32 + 8 * b))"
    have step: "insert_walk (Suc fuel) x s t k st = (if c \<noteq> 0 then insert_walk fuel x s c (2 * k mod 2 ^ 64) st
        else if at t (32 + 8 * b) \<ge> least_addr st then Inr (poke (at x 16) x (poke (at x 24) x (poke (at x 48) t (poke (at t (32 + 8 * b)) x st)))) else ABORT)"
      using False sz kb assms(4) by (simp add: Let_def c_def)
    show ?thesis
    proof (cases "c = 0")
      case True
      have "least_addr st \<le> at t (32 + 8 * b)" using big [OF t(7)] by (simp add: at_def)
      then show ?thesis using True step j half_s b Suc.prems(1,4) by (intro disjI2 bexI [of _ t] bexI [of _ b] exI [of _ j]) (auto simp: c_def)
    next
      case ne: False
      note cc = childD [OF assms(1) Suc.prems(1) b c_def [symmetric] ne]
      have lv: "lv c = j" using cc(4) j by simp
      have "insert_walk (Suc fuel) x s t k st = insert_walk fuel x s c (2 * k mod 2 ^ 64) st" using step ne by simp
      moreover have "lo c \<le> s" "s < lo c + 2 ^ lv c" "m (at c 56) = i" "lv c < fuel"
        using cc(3,5) lv half_s Suc.prems(4,6) j by auto
      ultimately show ?thesis using Suc.IH [OF cc(1)] k' lv by simp
    qed
  qed
qed simp

lemma large_op:
  assumes "bins st fr" "apart (maddr st) fr'" "\<exists>N cl lo lv. tree_ok (maddr st) tm m' fr' N cl lo lv"
    "\<And>p s. s < 256 \<Longrightarrow> fr' p = Some s \<longleftrightarrow> fr p = Some s"
    "apart (maddr st) frw" "\<And>a. m' a \<noteq> words st a \<Longrightarrow> large_word (maddr st) frw a" "\<And>p s. fr p = Some s \<Longrightarrow> frw p = Some s"
    "st' = st\<lparr>treemap := tm, words := m'\<rparr>"
  shows "bins st' fr' \<and> kept frw st st'"
proof -
  have ap: "apart (maddr st) fr" using assms(1) by (simp add: bins_def)
  obtain ch where s: "small_ok (maddr st) (smallmap st) (words st) fr ch" using assms(1) by (auto simp: bins_def)
  have "small_ok (maddr st) (smallmap st) m' fr' ch"
  proof (rule small_cong [OF s])
    fix a assume "small_word (maddr st) fr a"
    then have "small_word (maddr st) frw a" using assms(7) unfolding small_word_def by blast
    then show "m' a = words st a" using assms(5,6) small_not_large by blast
  qed (use assms(4) in auto)
  then show ?thesis
    using assms(1-3,5,6,8) large_word_touch [OF assms(5)] by (auto simp: bins_def kept_def)
qed

lemma insert_large_spec:
  assumes "bins st fr" "sized st fr" "fr x = None" "apart (maddr st) (fr(x \<mapsto> s))" "256 \<le> s"
  shows "\<exists>st'. insert_large_chunk x s st = Inr st' \<and> bins st' (fr(x \<mapsto> s)) \<and> kept (fr(x \<mapsto> s)) st st'"
proof -
  define M i s1 where "M = maddr st" and "i = compute_tree_index s" and "s1 = poke (at x 32) 0 (poke (at x 40) 0 (poke (at x 56) i st))"
  note ap' = assms(4) [folded M_def] and ap = binsD(1) [OF assms(1), folded M_def]
  have big: "large (fr(x \<mapsto> s)) = insert x (large fr)" using assms(3,5) by (auto simp: large_def)
  have i: "i < 32" "rootlo i \<le> s" "s < rootlo i + 2 ^ rootlv i"
    using tree_index_range [OF assms(5)] apartD(2) [OF ap', of x s] by (simp_all add: i_def)
  obtain N cl lo lv where t: "tree_ok M (treemap st) (words st) fr N cl lo lv" using assms(1) by (auto simp: bins_def M_def)
  have c: "cells (insert x (large fr)) {..<256}" using cells_of_large [OF ap'] big by simp
  have x: "x \<notin> large fr" using assms(3) by (simp add: large_def)
  have xw: "a \<noteq> at x g" if "large_word M fr a" "g < 256" for a g
    using that x i unfolding large_word_def by (auto simp: cells_iff [OF c] tbin_below [OF ap', unfolded big])
  have t1: "tree_ok M (treemap st) (words s1) fr N cl lo lv"
    by (rule tries_cong [OF t ap]) (use xw in \<open>auto simp: s1_def\<close>)
  note d = tree_okD [OF t1] and nd = nodeD [OF t1 ap]
  have at_x: "words s1 (at x 32) = 0" "words s1 (at x 40) = 0" "words s1 (at x 56) = i"
    by (simp_all add: s1_def cells_iff [OF c])
  have h: "treebin_at st i = tbin M i" "words s1 (tbin M i) = words st (tbin M i)"
    using i by (simp_all add: bin_addresses M_def [symmetric] s1_def tbin_below [OF ap', unfolded big])
  have f1: "maddr s1 = M" "least_addr s1 = least_addr st" "treemap s1 = treemap st" by (simp_all add: s1_def M_def)
  have sized1: "sized s1 fr"
  proof -
    have "at y 8 \<noteq> at x g" if "fr y = Some s'" "g < 256" for y s' g
    proof -
      have "32 \<le> s'" "y \<noteq> x" using apartD(1) [OF ap that(1)] that(1) assms(3) by auto
      then show ?thesis using at_inject [OF ap', of y s' x s 8 g] that assms(5) by auto
    qed
    then show ?thesis using assms(2) by (simp add: sized_def chunksize_def s1_def)
  qed
  have fin: "\<exists>st'. insert_large_chunk x s st = Inr st' \<and> bins st' (fr(x \<mapsto> s)) \<and> kept (fr(x \<mapsto> s)) st st'"
    if r: "insert_large_chunk x s st = Inr st'" "st' = st\<lparr>treemap := tm, words := m'\<rparr>"
      and ok: "\<exists>N cl lo lv. tree_ok M tm m' (fr(x \<mapsto> s)) N cl lo lv"
      and w: "\<And>a. m' a \<noteq> words s1 a \<Longrightarrow> large_word M (fr(x \<mapsto> s)) a" for tm m' st'
  proof -
    have "large_word M (fr(x \<mapsto> s)) a" if a: "m' a \<noteq> words st a" for a
    proof (cases "words s1 a = words st a")
      case False
      then have "a \<in> {at x 32, at x 40, at x 56}" by (auto simp: s1_def split: if_splits)
      then show ?thesis using big by (auto intro: large_wordI)
    qed (use a w in auto)
    then have "bins st' (fr(x \<mapsto> s)) \<and> kept (fr(x \<mapsto> s)) st st'"
      by (intro large_op [OF assms(1,4) ok [unfolded M_def] _ assms(4) _ _ r(2)]) (use assms(3,5) in \<open>auto simp: M_def split: if_splits\<close>)
    then show ?thesis using r(1) by blast
  qed
  have wx: "large_word M (fr(x \<mapsto> s)) (at y g)" if "y = x \<or> y \<in> large fr" "g \<in> {16, 24, 32, 40, 48, 56}" for y g
    using that big by (auto intro: large_wordI)
  show ?thesis
  proof (cases "bit (treemap st) i")
    case False
    then have z: "words s1 (tbin M i) = 0" using d(4) [OF i(1)] f1 by simp
    define m' where "m' = (words s1)(tbin M i := x, at x 48 := tbin M i, at x 24 := x, at x 16 := x)"
    have "tree_ok M (treemap st OR idx2bit i) m' (fr(x \<mapsto> s)) (insert x N) (cl(x := [])) (lo(x := rootlo i)) (lv(x := rootlv i))"
      using tree_leaf_insert [OF t1 ap' assms(3,5) i_def at_x z _ i(2,3) root_level(3) root_level(2) [OF i(1)], of "tbin M i"]
      by (simp add: attaches_def m'_def)
    moreover have "insert_large_chunk x s st = Inr (st\<lparr>treemap := treemap st OR idx2bit i, words := m'\<rparr>)"
      using False h unfolding insert_large_chunk_def Let_def i_def [symmetric] s1_def [symmetric]
      by (simp add: m'_def poke_def s1_def)
    moreover have "large_word M (fr(x \<mapsto> s)) a" if "m' a \<noteq> words s1 a" for a
      using that i(1) wx unfolding m'_def by (auto intro: large_wordI split: if_splits)
    ultimately show ?thesis using fin by blast
  next
    case True
    define t0 where "t0 = words s1 (tbin M i)"
    have t0: "t0 \<in> N" "words s1 (at t0 56) = i" using d(4,5) [OF i(1)] True by (auto simp: t0_def)
    have root: "lo t0 = rootlo i" "lv t0 = rootlv i"
    proof -
      have "parent_ok M (words s1) N lo lv t0" using t0(1) by (auto elim: nd)
      then show "lo t0 = rootlo i" "lv t0 = rootlv i" using t0 by (auto simp: parent_ok_def Let_def t0_def)
    qed
    have ins: "insert_large_chunk x s st = insert_walk 65 x s t0 (s * 2 ^ (64 - lv t0) mod 2 ^ 64) s1"
      using True h root(2) root_level(1) [OF i(1)] unfolding insert_large_chunk_def Let_def i_def [symmetric] s1_def [symmetric] by (simp add: t0_def)
    have lt: "lv t0 < 65" "lo t0 \<le> s" "s < lo t0 + 2 ^ lv t0" "least_addr s1 \<le> M"
      using root root_level(2) [OF i(1)] i binsD(2) [OF assms(1)] f1 by (simp_all add: M_def)
    consider (chain) u where "u \<in> N" "fr u = Some s" "insert_large_chunk x s st =
         Inr (poke (at x 48) 0 (poke (at x 24) u (poke (at x 16) (words s1 (at u 16)) (poke (at u 16) x (poke (at (words s1 (at u 16)) 24) x s1)))))"
      | (leaf) u b j where "u \<in> N" "b \<in> {0, 1}" "words s1 (at u (32 + 8 * b)) = 0" "lv u = Suc j" "words s1 (at u 56) = i" "lo u + b * 2 ^ j \<le> s"
        "s < lo u + b * 2 ^ j + 2 ^ j"
        "insert_large_chunk x s st = Inr (poke (at x 16) x (poke (at x 24) x (poke (at x 48) u (poke (at u (32 + 8 * b)) x s1))))"
      using insert_walk_spec [OF t1 ap sized1 refl lt(4) t0(1) lt(2,3) t0(2) refl lt(1), of x] unfolding ins by blast
    then show ?thesis
    proof cases
      case chain
      define f where "f = words s1 (at u 16)"
      define m' where "m' = (words s1)(at f 24 := x, at u 16 := x, at x 16 := f, at x 24 := u, at x 48 := 0)"
      note ins = tree_chain_insert [OF t1 ap' assms(3) chain(1,2) f_def at_x(1,2)]
      have ok: "tree_ok M (treemap st) m' (fr(x \<mapsto> s)) N (cl(u := x # cl u)) lo lv" and f: "f \<in> large fr"
        using ins at_x(3) by (simp_all add: m'_def i_def)
      have u: "u \<in> large fr" using chain(1) by (auto elim: nd)
      have "large_word M (fr(x \<mapsto> s)) a" if "m' a \<noteq> words s1 a" for a
        using that wx f u unfolding m'_def by (auto split: if_splits)
      moreover have "insert_large_chunk x s st = Inr (st\<lparr>treemap := treemap st, words := m'\<rparr>)"
        using chain(3) by (simp add: m'_def poke_def s1_def f_def)
      ultimately show ?thesis using fin ok by blast
    next
      case leaf
      define m' where "m' = (words s1)(at u (32 + 8 * b) := x, at x 48 := u, at x 24 := x, at x 16 := x)"
      have u: "u \<in> large fr" "2 ^ lv u dvd lo u" "lv u \<le> 64" using leaf(1) by (auto elim: nd)
      have "attaches M (words s1) N lo lv i (at u (32 + 8 * b)) u (lo u + b * 2 ^ j) j"
        using leaf(1,2,4,5) by (auto simp: attaches_def)
      moreover have "2 ^ j dvd lo u" using u(2) leaf(4) by (metis dvd_mult_right power_Suc2 power_Suc)
      moreover have "j \<le> 64" using u(3) leaf(4) by simp
      moreover have "at u (32 + 8 * b) \<noteq> tbin M i" using tbin_below(2) [OF ap u(1) i(1)] .
      ultimately have "tree_ok M (treemap st) m' (fr(x \<mapsto> s)) (insert x N) (cl(x := [])) (lo(x := lo u + b * 2 ^ j)) (lv(x := j))"
        using tree_leaf_insert [OF t1 ap' assms(3,5) i_def at_x leaf(3) _ leaf(6,7)] by (simp add: m'_def)
      moreover have "large_word M (fr(x \<mapsto> s)) a" if "m' a \<noteq> words s1 a" for a
        using that wx u(1) leaf(2) unfolding m'_def by (auto split: if_splits)
      moreover have "insert_large_chunk x s st = Inr (st\<lparr>treemap := treemap st, words := m'\<rparr>)"
        using leaf(8) by (simp add: m'_def poke_def s1_def)
      ultimately show ?thesis using fin by blast
    qed
  qed
qed

section \<open>Removal of large chunks\<close>

lemma unlink_walk_spec:
  assumes "tree_ok M tm m fr N cl lo lv" "apart M fr" "words st = m"
  shows "y \<in> N \<Longrightarrow> b \<in> {0, 1} \<Longrightarrow> m (at y (32 + 8 * b)) \<noteq> 0 \<Longrightarrow> l \<le> lo y \<Longrightarrow> lo y + 2 ^ lv y \<le> h \<Longrightarrow> m (at y 56) = i \<Longrightarrow> lv y \<le> fuel \<Longrightarrow>
    \<exists>z \<in> N. \<exists>b' \<in> {0, 1}. \<exists>r \<in> N. unlink_walk fuel (at y (32 + 8 * b)) st = Inr (at z (32 + 8 * b')) \<and> m (at z (32 + 8 * b')) = r \<and>
      m (at r 32) = 0 \<and> m (at r 40) = 0 \<and> l \<le> lo r \<and> lo r + 2 ^ lv r \<le> h \<and> m (at r 56) = i \<and> lv r < lv y"
proof (induction fuel arbitrary: y b)
  case 0
  then show ?case using childD(4) [OF assms(1) 0(1,2) refl] by simp
next
  case (Suc fuel)
  define R where "R = m (at y (32 + 8 * b))"
  note cR = childD [OF assms(1) Suc.prems(1,2) R_def [symmetric] Suc.prems(3) [folded R_def]]
  have iv: "l \<le> lo R" "lo R + 2 ^ lv R \<le> h" using cR(4,5) Suc.prems(2,4,5) by auto
  have walk: "unlink_walk (Suc fuel) (at y (32 + 8 * b)) st =
      (if m (at R 40) \<noteq> 0 then unlink_walk fuel (at R (32 + 8 * 1)) st else if m (at R 32) \<noteq> 0 then unlink_walk fuel (at R (32 + 8 * 0)) st
       else Inr (at y (32 + 8 * b)))"
    using assms(3) by (simp add: Let_def R_def)
  show ?case
  proof (cases "m (at R 40) = 0 \<and> m (at R 32) = 0")
    case True
    then show ?thesis using walk cR iv Suc.prems(1,2,6) by (intro bexI [of _ y] bexI [of _ b] bexI [of _ R]) (auto simp: R_def)
  next
    case False
    define b' :: nat where "b' = (if m (at R 40) \<noteq> 0 then 1 else 0)"
    have b': "b' \<in> {0, 1}" "m (at R (32 + 8 * b')) \<noteq> 0" "unlink_walk (Suc fuel) (at y (32 + 8 * b)) st = unlink_walk fuel (at R (32 + 8 * b')) st"
      using False walk by (auto simp: b'_def)
    have "lv R \<le> fuel" using cR(4) Suc.prems(7) by simp
    from Suc.IH [OF cR(1) b'(1,2) iv _ this] cR(3) Suc.prems(6) obtain z c r where "z \<in> N" "c \<in> {0, 1}" "r \<in> N"
      "unlink_walk fuel (at R (32 + 8 * b')) st = Inr (at z (32 + 8 * c)) \<and> m (at z (32 + 8 * c)) = r \<and> m (at r 32) = 0 \<and> m (at r 40) = 0 \<and>
       l \<le> lo r \<and> lo r + 2 ^ lv r \<le> h \<and> m (at r 56) = i \<and> lv r < lv R"
      by blast
    then show ?thesis unfolding b'(3) using cR(4) by (intro bexI [of _ z] bexI [of _ c] bexI [of _ r]) auto
  qed
qed

lemma large_word_less:
  assumes "apart M fr" "x \<in> large fr" "large_word M fr' a" "\<And>y s. fr' y = Some s \<Longrightarrow> fr y = Some s \<and> y \<noteq> x" "g < 256"
  shows "a \<noteq> at x g"
proof -
  have "y \<in> large fr \<and> y \<noteq> x" if "y \<in> large fr'" for y using that assms(4) by (auto simp: large_def)
  then have "at y f \<noteq> at x g" if "y \<in> large fr'" "f < 64" for y f
    using that assms(2,5) cells_iff [OF cells_of_large [OF assms(1)], of y x f g] by auto
  then show ?thesis using assms(3) tbin_below(1) [OF assms(1,2), of _ g] unfolding large_word_def by fastforce
qed

text \<open>
  The replacement of a node in memory. The list at the node itself is already broken up at this point, so the
  tree is in order only up to its two links.
\<close>

lemma relink_spec:
  assumes "tree_ok M (treemap st) ((words st)(at x 16 := x, at x 24 := x)) fr N cl lo lv" "maddr st = M" "least_addr st \<le> M"
    "apart M fr1" "\<And>p. fr1 p = (if p \<in> set (r # qs) then Some s else fr p)"
    "\<And>p. p \<in> set (r # qs) \<Longrightarrow> fr p = None" "x \<in> N" "cl x = []" "256 \<le> s"
    "lo x \<le> s" "s < lo x + 2 ^ lv x" "index st x = compute_tree_index s" "index st r = index st x" "chain_ok (words st) fr1 N qs r s"
    "child0 st r = 0" "child1 st r = 0"
  shows "\<exists>st'. relink x (parent st x) r st = Inr st' \<and> (\<exists>N cl lo lv. tree_ok M (treemap st) (words st') (fr1(x := None)) N cl lo lv) \<and>
    (\<forall>a. words st' a \<noteq> words st a \<longrightarrow> large_word M fr1 a) \<and> st' = st\<lparr>words := words st'\<rparr>"
proof -
  define m mv where "m = words st" and "mv = m(at x 16 := x, at x 24 := x)"
  note tv = assms(1) [folded m_def, folded mv_def]
  have ap: "apart M fr" using assms(4) by (rule apart_sub) (use assms(5,6) in \<open>auto split: if_splits\<close>)
  note c = cells_of_large [OF assms(4)] and nd = nodeD [OF tv ap]
  note ci = cells_iff [OF c] and tb_ne = tbin_below [OF assms(4)]
  have sub: "y \<in> large fr1" if "y \<in> large fr" for y using that assms(5,6) [of y] by (auto simp: large_def split: if_splits)
  have N: "y \<in> large fr1" if "y \<in> N" for y using that by (auto elim: nd intro: sub)
  have lr: "r \<in> large fr1" using assms(5) [of r] assms(9) by (simp add: large_def)
  have x: "x \<in> large fr1" "x \<noteq> 0" "r \<noteq> x" using N [OF assms(7)] assms(6) [of r] assms(7) by (auto elim: nd)
  have r0: "r \<noteq> 0" using apartD(6) [OF assms(4), of r s] assms(5) [of r] by simp
  have rN: "r \<notin> N" using assms(6) [of r] by (auto elim: nd)
  have mv: "mv (at y g) = m (at y g)" if "y \<in> large fr1" "g < 256" "g \<notin> {16, 24}" for y g
    using that x(1) by (auto simp: mv_def ci)
  have i: "mv (at x 56) < 32" "mv (at x 56) = m (at x 56)" using mv [OF x(1), of 56] assms(7) by (auto elim: nd)
  have mvt: "mv (tbin M j) = m (tbin M j)" if "j < 32" for j using that x(1) by (simp add: mv_def tb_ne)
  define xp where "xp = m (at x 48)"
  define slot where "slot = (if m (tbin M (m (at x 56))) = x then tbin M (m (at x 56)) else if m (at xp 32) = x then at xp 32 else at xp 40)"
  have xp: "xp \<in> N \<and> xp \<noteq> x" if "m (tbin M (m (at x 56))) \<noteq> x"
    using that points_to_exists [OF tv ap assms(7)] mvt [OF i(1)] i mv [OF x(1), of 48] tb_ne(1) [OF lr i(1)]
    unfolding points_to_def Let_def by (auto simp: xp_def split: if_splits)
  have sl: "points_to M mv N lo lv x slot"
  proof -
    have "mv (at xp 32) = m (at xp 32)" if "m (tbin M (m (at x 56))) \<noteq> x" using xp [OF that] N mv by auto
    then show ?thesis
      using points_to_exists [OF tv ap assms(7)] mvt [OF i(1)] i mv [OF x(1), of 48] by (auto simp: slot_def xp_def split: if_splits)
  qed
  have sx: "slot \<noteq> at y g" if "y \<in> large fr1" "g < 256" "g \<notin> {32, 40} \<or> y = x \<or> y = r" for y g
    using that xp N i tb_ne rN unfolding slot_def by (auto simp: ci)
  define c0 c1 where "c0 = m (at x 32)" and "c1 = m (at x 40)"
  have kid: "y \<in> N" "y \<noteq> x" "y \<noteq> r" if "y \<noteq> 0" "y = c0 \<or> y = c1" for y
  proof -
    have "mv (at x 32) = c0" "mv (at x 40) = c1" using mv [OF x(1)] by (auto simp: c0_def c1_def)
    then have "mv (at x (32 + 8 * (if y = c0 then 0 else 1))) = y" "(if y = c0 then 0 else 1) \<in> {0, 1::nat}" using that(2) by auto
    note cy = childD [OF tv assms(7) this(2,1) that(1)]
    show "y \<in> N" "y \<noteq> x" using cy(1,6) by auto
    then show "y \<noteq> r" using rN by auto
  qed
  define w3 where "w3 = m(slot := r, at r 48 := xp)"
  define w4 where "w4 = (if c0 = 0 then w3 else w3(at r 32 := c0, at c0 48 := r))"
  define w5 where "w5 = (if c1 = 0 then w4 else w4(at r 40 := c1, at c1 48 := r))"
  have la: "least_addr st \<le> y" if "y \<in> large fr1" for y
    using that assms(3) apartD(4) [OF assms(4), of y] by (fastforce simp: large_def)
  have w3x: "w3 (at x 32) = c0" "w3 (at x 40) = c1"
    using x lr sx [OF x(1), of 32] sx [OF x(1), of 40] by (auto simp: w3_def ci c0_def c1_def)
  have w4x: "w4 (at x 40) = c1" using w3x kid [of c0] N x lr by (auto simp: w4_def ci)
  have adopt0: "adopt_child x r 32 (st\<lparr>words := w3\<rparr>) = Inr (st\<lparr>words := w4\<rparr>)"
    using w3x la [OF N, OF kid(1), of c0] by (simp add: adopt_child_def w4_def poke_def)
  have adopt1: "adopt_child x r 40 (st\<lparr>words := w4\<rparr>) = Inr (st\<lparr>words := w5\<rparr>)"
    using w4x la [OF N, OF kid(1), of c1] by (simp add: adopt_child_def w5_def poke_def)
  have first: "(if words st (tbin M (index st x)) = x then
        let s2 = poke (tbin M (index st x)) r st in Inr (if r = 0 then s2\<lparr>treemap := treemap s2 AND NOT (idx2bit (index s2 x))\<rparr> else s2)
      else if xp \<ge> least_addr st then Inr (if child0 st xp = x then poke (at xp 32) r st else poke (at xp 40) r st) else ABORT)
    = Inr (st\<lparr>words := m(slot := r)\<rparr>)"
    using xp la N r0 unfolding m_def [symmetric] slot_def by (auto simp: poke_def Let_def m_def [symmetric])
  have run: "relink x xp r st = Inr (st\<lparr>words := w5\<rparr>)"
    unfolding relink_def Let_def bin_addresses assms(2) using first [unfolded Let_def] r0 la [OF lr] adopt0 adopt1
    by (simp add: poke_def w3_def)
  have w5: "w5 slot = r" "w5 (at r 48) = xp" "w5 (at r 32) = c0" "w5 (at r 40) = c1"
      "c0 \<noteq> 0 \<Longrightarrow> w5 (at c0 48) = r" "c1 \<noteq> 0 \<Longrightarrow> w5 (at c1 48) = r"
    using kid [of c0] kid [of c1] N lr sx [OF lr, of 32] sx [OF lr, of 40] sx [OF lr, of 48] sx [of c0 48] sx [of c1 48] assms(15,16)
    by (auto simp: w5_def w4_def w3_def ci m_def)
  have other: "w5 a = m a" if "a \<noteq> slot" "a \<noteq> at r 48" "a \<noteq> at r 32" "a \<noteq> at r 40" "c0 \<noteq> 0 \<Longrightarrow> a \<noteq> at c0 48" "c1 \<noteq> 0 \<Longrightarrow> a \<noteq> at c1 48" for a
    using that by (auto simp: w5_def w4_def w3_def)
  have xl: "w5 (at x g) = m (at x g)" if "g \<in> {16, 24}" for g
    using that x lr N kid [of c0] kid [of c1] sx [of x g] by (intro other) (auto simp: ci)
  define mv5 where "mv5 = w5(at x 16 := x, at x 24 := x)"
  have mv5: "mv5 (at y g) = w5 (at y g)" if "y \<in> large fr1" "g < 256" "g \<notin> {16, 24}" for y g
    using that x(1) by (auto simp: mv5_def ci)
  have "\<exists>N cl lo lv. tree_ok M (treemap st) mv5 (fr1(x := None)) N cl lo lv"
  proof (intro exI)
    show "tree_ok M (treemap st) mv5 (fr1(x := None)) (insert r (N - {x})) (cl(r := qs)) (lo(r := lo x)) (lv(r := lv x))"
    proof (rule tree_replace [OF tv assms(4) assms(5) assms(6) assms(7,8) sl assms(9-11)])
      show "mv (at x 56) = compute_tree_index s" "mv (at r 56) = mv (at x 56)"
        using i assms(12,13) mv [OF lr, of 56] by (simp_all add: m_def)
      show "chain_ok mv fr1 N qs r s"
      proof -
        have q: "y \<in> large fr1" "y \<noteq> x" if "y \<in> insert r (set qs)" for y
          using that assms(14) assms(9) lr x(3) assms(7) by (auto simp: chain_ok_def large_def)
        have "mv (at y g) = m (at y g)" if "y \<in> insert r (set qs)" "g < 256" for y g using q [OF that(1)] that(2) x(1) by (auto simp: mv_def ci)
        moreover from this have "seg mv r qs r = seg m r qs r" by (intro seg_cong) auto
        ultimately show ?thesis using assms(14) by (auto simp: chain_ok_def m_def)
      qed
      show "mv5 slot = r"
        using w5(1) sx [OF x(1)] by (auto simp: mv5_def)
      show "mv5 (at r 48) = mv (at x 48)" "mv5 (at r 32) = mv (at x 32)" "mv5 (at r 40) = mv (at x 40)"
        using w5(2-4) mv [OF x(1)] mv5 [OF lr] by (auto simp: xp_def c0_def c1_def)
      show "mv5 (at (mv (at x (32 + 8 * b))) 48) = r" if "b \<in> {0, 1}" "mv (at x (32 + 8 * b)) \<noteq> 0" for b
        using that w5(5,6) mv [OF x(1), of 32] mv [OF x(1), of 40] kid [of c0] kid [of c1] N mv5 by (auto simp: c0_def [symmetric] c1_def [symmetric])
      show "mv5 a = mv a" if a: "a \<noteq> slot" "a \<noteq> at r 48" "a \<noteq> at r 32" "a \<noteq> at r 40"
        "\<And>b. b \<in> {0, 1} \<Longrightarrow> mv (at x (32 + 8 * b)) \<noteq> 0 \<Longrightarrow> a \<noteq> at (mv (at x (32 + 8 * b))) 48" for a
      proof -
        have "w5 a = m a"
          using a(1-4) a(5) [of 0] a(5) [of 1] mv [OF x(1), of 32] mv [OF x(1), of 40] by (intro other) (auto simp: c0_def c1_def)
        then show ?thesis by (simp add: mv5_def mv_def)
      qed
    qed
  qed
  then obtain N' cl' lo' lv' where t5: "tree_ok M (treemap st) mv5 (fr1(x := None)) N' cl' lo' lv'" by blast
  have ap5: "apart M (fr1(x := None))" by (rule apart_sub [OF assms(4)]) (auto split: if_splits)
  have "tree_ok M (treemap st) w5 (fr1(x := None)) N' cl' lo' lv'"
  proof (rule tries_cong [OF t5 ap5])
    fix a assume "large_word M (fr1(x := None)) a"
    then have "a \<noteq> at x 16" "a \<noteq> at x 24" 
      by (rule large_word_less [OF assms(4) x(1)]; simp split: if_splits)+
    then show "w5 a = mv5 a" by (simp add: mv5_def)
  qed
  moreover have "large_word M fr1 a" if "w5 a \<noteq> m a" for a
  proof -
    have "a \<in> {slot, at r 48, at r 32, at r 40} \<or> c0 \<noteq> 0 \<and> a = at c0 48 \<or> c1 \<noteq> 0 \<and> a = at c1 48" using that other by blast
    moreover have "large_word M fr1 slot" using xp N i by (auto simp: slot_def intro: large_wordI)
    ultimately show ?thesis using lr kid [of c0] kid [of c1] N by (auto intro: large_wordI)
  qed
  ultimately show ?thesis using run by (intro exI [of _ "st\<lparr>words := w5\<rparr>"]) (auto simp: xp_def m_def)
qed

lemma words_only: "st' = s1\<lparr>words := w\<rparr> \<Longrightarrow> s1 = st\<lparr>words := m1\<rparr> \<Longrightarrow> st' = st\<lparr>treemap := treemap st, words := w\<rparr>"
  by simp

lemma unlink_done:
  assumes "bins st fr" "fr x = Some s" "256 \<le> s" "unlink_large_chunk x st = Inr st'" "st' = st\<lparr>treemap := tm, words := m'\<rparr>"
    "\<exists>N cl lo lv. tree_ok (maddr st) tm m' (fr(x := None)) N cl lo lv" "\<And>a. m' a \<noteq> words st a \<Longrightarrow> large_word (maddr st) fr a"
  shows "\<exists>st'. unlink_large_chunk x st = Inr st' \<and> bins st' (fr(x := None)) \<and> kept fr st st'"
proof -
  note ap = binsD(1) [OF assms(1)]
  have "apart (maddr st) (fr(x := None))" by (rule apart_sub [OF ap]) (auto split: if_splits)
  then have "bins st' (fr(x := None)) \<and> kept fr st st'"
    by (rule large_op [OF assms(1) _ assms(6) _ ap assms(7) _ assms(5)]) (use assms(2,3) in \<open>auto split: if_splits\<close>)
  then show ?thesis using assms(4) by blast
qed

text \<open>A chunk that is not itself a node is only taken out of its list.\<close>

lemma unlink_chained:
  assumes "bins st fr" "fr x = Some s" "256 \<le> s" "tree_ok (maddr st) (treemap st) (words st) fr N cl lo lv" "t \<in> N" "x \<in> set (cl t)"
  shows "\<exists>st'. unlink_large_chunk x st = Inr st' \<and> bins st' (fr(x := None)) \<and> kept fr st st'"
proof -
  note ap = binsD(1) [OF assms(1)] and nd = nodeD [OF assms(4) binsD(1) [OF assms(1)]]
  obtain us vs where ch: "cl t = us @ x # vs" using assms(6) by (metis in_set_conv_decomp)
  obtain s' where t: "fr t = Some s'" "chain_ok (words st) fr N (cl t) t s'" "t \<in> large fr" "set (cl t) \<subseteq> large fr" using assms(5) by (auto elim: nd)
  have s': "s' = s" using t(2) assms(2,6) by (auto simp: chain_ok_def)
  note c = cells_mono [OF cells_of_large [OF ap] subset_refl, of "{16, 24}", simplified]
  have A: "set (t # us @ x # vs) \<subseteq> large fr" using t(3,4) ch by auto
  have dist: "distinct (t # us @ x # vs)" "seg (words st) t (us @ x # vs) t" using t(2) ch by (auto simp: chain_ok_def)
  define f r m' where "f = fd st x" and "r = bk st x" and "m' = (words st)(at f 24 := r, at r 16 := f)"
  note rr = ring_remove [OF c A dist f_def r_def, folded m'_def]
  have fr_in: "f \<in> insert t (set (cl t)) - {x}" "r \<in> insert t (set (cl t)) - {x}"
    using rr(2,3) dist(1) ch last_in_set [of us] by (cases vs; auto split: if_splits)+
  have la: "least_addr st \<le> f" using fr_in A ch above_least [OF assms(1), of f] by (auto simp: large_def)
  have "unlink_replacement x st = Inr (r, poke (at r 16) f (poke (at f 24) r st))"
    using fr_in(2) la rr(5,6) unfolding unlink_replacement_def Let_def f_def [symmetric] r_def [symmetric] by auto
  moreover have par: "parent st x = 0" using t(2) assms(6) by (auto simp: chain_ok_def)
  ultimately have run: "unlink_large_chunk x st = Inr (st\<lparr>treemap := treemap st, words := m'\<rparr>)"
    by (simp add: unlink_large_chunk_def m'_def poke_def)
  have ci: "at y g \<noteq> at f 24 \<and> at y g \<noteq> at r 16" if "y \<in> large fr" "g \<in> {32, 40, 48, 56}" for y g
    using that cells_iff [OF cells_of_large [OF ap]] fr_in t(3,4) by (auto simp: subset_iff)
  have "chain_ok m' (fr(x := None)) N (us @ vs) t s"
    unfolding chain_ok_def
  proof (intro conjI ballI)
    fix y assume "y \<in> set (us @ vs)"
    then have y: "y \<in> set (cl t)" "y \<noteq> x" "y \<in> large fr" using ch dist(1) A by auto
    then show "y \<notin> N" "(fr(x := None)) y = Some s" "m' (at y 48) = 0" "m' (at y 32) = 0" "m' (at y 40) = 0" "m' (at y 56) = compute_tree_index s"
      using t(2) s' ci [OF y(3)] by (auto simp: chain_ok_def m'_def)
  qed (use rr(1) dist(1) in auto)
  then have "tree_ok (maddr st) (treemap st) m' (fr(x := None)) N (cl(t := us @ vs)) lo lv"
  proof (rule tree_chain_change [OF assms(4) ap assms(5) t(1) [unfolded s']])
    show "set (us @ vs) \<subseteq> set (cl t)" using ch by auto
    show "(fr(x := None)) p = (if p \<in> set (cl t) - set (us @ vs) then None else fr p)" for p using ch dist(1) by auto
    show "m' a = words st a" if "\<And>y g. y \<in> insert t (set (cl t)) \<Longrightarrow> g \<in> {16, 24} \<Longrightarrow> a \<noteq> at y g" for a
      using that [of f 24] that [of r 16] fr_in by (simp add: m'_def)
  qed
  moreover have "large_word (maddr st) fr a" if "m' a \<noteq> words st a" for a
    using that fr_in t(3,4) unfolding m'_def by (auto intro!: large_wordI split: if_splits)
  ultimately show ?thesis using unlink_done [OF assms(1-3) run refl] by blast
qed

text \<open>A node that is a leaf and the only chunk of its size.\<close>

lemma unlink_leaf:
  assumes "bins st fr" "fr x = Some s" "256 \<le> s" "tree_ok (maddr st) (treemap st) (words st) fr N cl lo lv" "x \<in> N" "cl x = []"
    "child0 st x = 0" "child1 st x = 0"
  shows "\<exists>st'. unlink_large_chunk x st = Inr st' \<and> bins st' (fr(x := None)) \<and> kept fr st st'"
proof -
  define M m i xp where "M = maddr st" and "m = words st" and "i = m (at x 56)" and "xp = m (at x 48)"
  note ap = binsD(1) [OF assms(1), folded M_def] and t = assms(4) [folded M_def m_def]
  note nd = nodeD [OF t ap]
  define c where "c = (if m (tbin M i) = x then tbin M i else if m (at xp 32) = x then at xp 32 else at xp 40)"
  have pt: "points_to M m N lo lv x c" using points_to_exists [OF t ap assms(5)] by (simp only: c_def i_def xp_def)
  have x: "i < 32" "x \<noteq> 0" "chain_ok m fr N (cl x) x s" "x \<in> large fr" using assms(2,5) by (auto elim: nd simp: i_def)
  have xp: "m (tbin M i) \<noteq> x \<Longrightarrow> xp \<in> N" "xp \<noteq> 0"
    using pt x tbin_below(3) [OF ap x(4,1)] unfolding points_to_def Let_def by (auto simp: i_def xp_def tbin_def elim: nd)
  have "bk st x = x" using x(3) assms(6) by (simp add: chain_ok_def m_def)
  then have "unlink_replacement x st = Inr (0, st)" using assms(7,8) by (simp add: unlink_replacement_def)
  then have "unlink_large_chunk x st = relink x xp 0 st" using xp(2) by (simp add: unlink_large_chunk_def Let_def xp_def m_def)
  moreover have lax: "least_addr st \<le> y" if "y \<in> N" for y using that above_least [OF assms(1), of y] by (auto elim: nd)
  define tm' where "tm' = (if c = tbin M i then treemap st AND NOT (idx2bit i) else treemap st)"
  have cM: "c = tbin M i \<longleftrightarrow> m (tbin M i) = x"
    using xp(1) tbin_below [OF ap _ x(1)] node_in_large [OF t ap] by (auto simp: c_def)
  have x56: "at x 56 \<noteq> c" using tbin_below(2) [OF ap x(4,1)] xp(1) node_in_large [OF t ap] x(4) by (auto simp: c_def cells_iff [OF cells_of_large [OF ap]])
  have "relink x xp 0 st = Inr (st\<lparr>treemap := tm', words := m(c := 0)\<rparr>)"
  proof (cases "m (tbin M i) = x")
    case True
    then have "c = tbin M i" by (simp add: c_def)
    then show ?thesis using True x56 unfolding relink_def Let_def bin_addresses M_def [symmetric] m_def [symmetric]
      by (simp add: i_def [symmetric] poke_def tm'_def m_def [symmetric])
  next
    case False
    then show ?thesis using xp(1) lax cM unfolding relink_def Let_def bin_addresses M_def [symmetric] m_def [symmetric]
      by (simp add: i_def [symmetric] poke_def tm'_def m_def [symmetric] c_def)
  qed
  ultimately have run: "unlink_large_chunk x st = Inr (st\<lparr>treemap := tm', words := m(c := 0)\<rparr>)" by simp
  have "tree_ok M tm' (m(c := 0)) (fr(x := None)) (N - {x}) cl lo lv"
    using tree_leaf_remove [OF t ap assms(5,6) _ _ pt i_def] assms(7,8) by (simp add: tm'_def m_def)
  moreover have "large_word M fr a" if "(m(c := 0)) a \<noteq> m a" for a
    using that x(1) xp(1) node_in_large [OF t ap] by (auto simp: c_def intro: large_wordI split: if_splits)
  ultimately show ?thesis using unlink_done [OF assms(1-3) run refl] by (auto simp: M_def m_def)
qed

text \<open>A node whose chunk is not the only one of its size is replaced by the last chunk of its list.\<close>

lemma unlink_node_chain:
  assumes "bins st fr" "fr x = Some s" "256 \<le> s" "tree_ok (maddr st) (treemap st) (words st) fr N cl lo lv" "x \<in> N" "cl x = qs @ [r]"
  shows "\<exists>st'. unlink_large_chunk x st = Inr st' \<and> bins st' (fr(x := None)) \<and> kept fr st st'"
proof -
  define M m xp where "M = maddr st" and "m = words st" and "xp = m (at x 48)"
  note ap = binsD(1) [OF assms(1), folded M_def] and t = assms(4) [folded M_def m_def]
  note nd = nodeD [OF t ap] and cl = cells_of_large [OF ap]
  note ci = cells_iff [OF cl]
  have x: "x \<noteq> 0" "chain_ok m fr N (qs @ [r]) x s" "x \<in> large fr" "m (at x 56) = compute_tree_index s" "lo x \<le> s" "s < lo x + 2 ^ lv x"
    "insert r (set qs) \<subseteq> large fr" "m (at x 56) < 32" "parent_ok M m N lo lv x"
    using assms(5) assms(2,6) by - (rule nd, assumption, simp)+
  have xp: "xp \<noteq> 0" using x(9) nd by (auto simp: parent_ok_def Let_def xp_def tbin_def)
  have seg: "seg m x qs r" "m (at r 16) = x" "m (at x 24) = r" using x(2) seg_append [of m x qs r "[]" x] by (auto simp: chain_ok_def)
  have dist: "distinct (r # [] @ x # qs)" using x(2) by (auto simp: chain_ok_def)
  define f where "f = m (at x 16)"
  define m1 where "m1 = m(at f 24 := r, at r 16 := f)"
  have rr: "seg m1 r ([] @ qs) r" "f = hd (qs @ [r])" "m (at f 24) = x"
  proof -
    have sg: "seg m r ([] @ x # qs) r" using seg by simp
    have "set (r # [] @ x # qs) \<subseteq> large fr" using x(3,7) by auto
    note rr = ring_remove [OF cells_mono [OF cl subset_refl] this dist sg f_def seg(3) [symmetric]]
    show "seg m1 r ([] @ qs) r" "f = hd (qs @ [r])" "m (at f 24) = x" using rr(1,2,5) by (auto simp: m1_def)
  qed
  have f: "f \<in> insert r (set qs)" using rr(2) by (cases qs) auto
  then have lf: "f \<in> large fr" "r \<in> large fr" using x(7) by auto
  have la: "least_addr st \<le> f" using lf above_least [OF assms(1), of f] by (auto simp: large_def)
  have "r \<noteq> x" using dist by auto
  define s1 where "s1 = poke (at r 16) f (poke (at f 24) r st)"
  have s1: "words s1 = m1" "maddr s1 = M" "least_addr s1 = least_addr st" "treemap s1 = treemap st" "s1 = st\<lparr>words := m1\<rparr>"
    by (simp_all add: s1_def m1_def m_def M_def poke_def)
  have "unlink_replacement x st = Inr (r, s1)"
    using la rr(3) seg \<open>r \<noteq> x\<close> unfolding unlink_replacement_def Let_def m_def [symmetric] by (simp add: f_def [symmetric] s1_def)
  then have run: "unlink_large_chunk x st = relink x xp r s1" using xp by (simp add: unlink_large_chunk_def Let_def xp_def m_def)
  have m1: "m1 (at y g) = m (at y g)" if "y \<in> large fr" "g \<in> {32, 40, 48, 56} \<or> y = x" "g < 256" for y g
    using that lf x(3) f dist by (auto simp: m1_def ci)
  define fr0 where "fr0 = (\<lambda>p. if p \<in> set (qs @ [r]) then None else fr p)"
  have frq: "fr p = Some s" if "p \<in> set (qs @ [r])" for p using that x(2) by (auto simp: chain_ok_def)
  have xq: "x \<notin> set (qs @ [r])" using x(2) by (auto simp: chain_ok_def)
  define mv where "mv = m(at x 16 := x, at x 24 := x)"
  have tv: "tree_ok M (treemap st) mv fr0 N (cl(x := [])) lo lv"
  proof (rule tree_chain_change [OF t ap assms(5,2)])
    show "chain_ok mv fr0 N [] x s" using x(3) by (simp add: chain_ok_def mv_def ci)
    show "fr0 p = (if p \<in> set (cl x) - set [] then None else fr p)" for p using assms(6) by (simp add: fr0_def)
    show "mv a = m a" if "\<And>y g. y \<in> insert x (set (cl x)) \<Longrightarrow> g \<in> {16, 24} \<Longrightarrow> a \<noteq> at y g" for a
      using that [of x 16] that [of x 24] by (simp add: mv_def)
  qed simp
  have ap0: "apart M fr0" by (rule apart_sub [OF ap]) (auto simp: fr0_def split: if_splits)
  have tv1: "tree_ok M (treemap s1) ((words s1)(at x 16 := x, at x 24 := x)) fr0 N (cl(x := [])) lo lv"
    unfolding s1(1,4)
  proof (rule tries_cong [OF tv ap0])
    fix a assume a: "large_word M fr0 a"
    have "a \<noteq> at y g" if "y \<in> set (qs @ [r])" "g < 256" for y g
      by (rule large_word_less [OF ap _ a _ that(2)]) (use that(1) x(7) in \<open>auto simp: fr0_def split: if_splits\<close>)
    then have "a \<noteq> at f 24" "a \<noteq> at r 16" using f by auto
    then show "(m1(at x 16 := x, at x 24 := x)) a = mv a" by (simp add: mv_def m1_def)
  qed
  have chain: "chain_ok (words s1) fr N qs r s"
    unfolding chain_ok_def s1(1)
  proof (intro conjI ballI)
    fix y assume y: "y \<in> set qs"
    then show "y \<notin> N" "fr y = Some s" "m1 (at y 48) = 0" "m1 (at y 32) = 0" "m1 (at y 40) = 0" "m1 (at y 56) = compute_tree_index s"
      using x(2,7) m1 [of y] by (auto simp: chain_ok_def)
  qed (use rr(1) dist in auto)
  have fields: "index s1 x = compute_tree_index s" "index s1 r = index s1 x" "child0 s1 r = 0" "child1 s1 r = 0" "parent s1 x = xp"
    using m1 [OF x(3)] m1 [OF lf(2)] x(2,4) by (auto simp: s1(1) chain_ok_def xp_def)
  have "\<exists>st'. relink x (parent s1 x) r s1 = Inr st' \<and> (\<exists>N cl lo lv. tree_ok M (treemap s1) (words st') (fr(x := None)) N cl lo lv) \<and>
    (\<forall>a. words st' a \<noteq> words s1 a \<longrightarrow> large_word M fr a) \<and> st' = s1\<lparr>words := words st'\<rparr>"
    by (rule relink_spec [OF tv1 s1(2) _ ap, where qs = qs])
      (use s1(3) binsD(2) [OF assms(1)] assms(3,5) x(5,6) fields chain frq xq in \<open>auto simp: fr0_def M_def\<close>)
  then obtain st' where st': "relink x xp r s1 = Inr st'" "\<exists>N cl lo lv. tree_ok M (treemap st) (words st') (fr(x := None)) N cl lo lv"
    "\<forall>a. words st' a \<noteq> m1 a \<longrightarrow> large_word M fr a" "st' = s1\<lparr>words := words st'\<rparr>"
    unfolding s1(1,4) fields(5) [unfolded s1(1)] by blast
  have w: "large_word M fr a" if "words st' a \<noteq> m a" for a
  proof (cases "m1 a = m a")
    case False
    then show ?thesis using lf by (auto simp: m1_def intro: large_wordI split: if_splits)
  qed (use st'(3) that in auto)
  note st'_eq = words_only [OF st'(4) s1(5)]
  have "unlink_large_chunk x st = Inr st'" using run st'(1) by simp
  then show ?thesis using unlink_done [OF assms(1-3) _ st'_eq st'(2) [unfolded M_def] w [unfolded M_def m_def]] by blast
qed

text \<open>A node with children whose chunk is the only one of its size is replaced by a leaf below it.\<close>

lemma unlink_inner:
  assumes "bins st fr" "fr x = Some s" "256 \<le> s" "tree_ok (maddr st) (treemap st) (words st) fr N cl lo lv" "x \<in> N" "cl x = []"
    "child0 st x \<noteq> 0 \<or> child1 st x \<noteq> 0"
  shows "\<exists>st'. unlink_large_chunk x st = Inr st' \<and> bins st' (fr(x := None)) \<and> kept fr st st'"
proof -
  define M m xp i where "M = maddr st" and "m = words st" and "xp = m (at x 48)" and "i = m (at x 56)"
  note ap = binsD(1) [OF assms(1), folded M_def] and t = assms(4) [folded M_def m_def]
  note nd = nodeD [OF t ap] and c = cells_of_large [OF ap] and N = node_in_large [OF t ap]
  note ci = cells_iff [OF c] and tb_ne = tbin_below [OF ap]
  have x: "x \<noteq> 0" "chain_ok m fr N [] x s" "x \<in> large fr" "m (at x 56) = compute_tree_index s" "lo x \<le> s" "s < lo x + 2 ^ lv x"
    "m (at x 56) < 32" "parent_ok M m N lo lv x" "lv x \<le> 64"
    using assms(5) assms(2,6) by - (rule nd, assumption, simp)+
  have xp: "xp \<noteq> 0" using x(8) nd by (auto simp: parent_ok_def Let_def xp_def tbin_def)
  define b :: nat where "b = (if m (at x 40) \<noteq> 0 then 1 else 0)"
  have b: "b \<in> {0, 1}" "m (at x (32 + 8 * b)) \<noteq> 0" using assms(7) by (auto simp: b_def m_def)
  have "lv x \<le> 65" using x(9) by simp
  from unlink_walk_spec [OF t ap m_def [symmetric] assms(5) b order_refl order_refl i_def [symmetric] this]
  obtain z b' r where z: "z \<in> N" "b' \<in> {0, 1}" "r \<in> N" "unlink_walk 65 (at x (32 + 8 * b)) st = Inr (at z (32 + 8 * b'))"
    "m (at z (32 + 8 * b')) = r" and leaf: "m (at r 32) = 0" "m (at r 40) = 0" and iv: "lo x \<le> lo r" "lo r + 2 ^ lv r \<le> lo x + 2 ^ lv x"
    and ri: "m (at r 56) = i" and lvr: "lv r < lv x" by blast
  define rp where "rp = at z (32 + 8 * b')"
  obtain sr where r: "fr r = Some sr" "256 \<le> sr" "m (at r 56) = compute_tree_index sr" "lo r \<le> sr" "sr < lo r + 2 ^ lv r"
    "chain_ok m fr N (cl r) r sr" "r \<in> large fr" "r \<noteq> 0" "set (cl r) \<subseteq> large fr" using z(3) by (rule nd)
  have rx: "r \<noteq> x" using lvr by auto
  have rz: "r \<noteq> z" using childD(6) [OF t z(1,2,5) r(8)] .
  have xr: "x \<notin> set (cl r)" using r(6) assms(5) by (auto simp: chain_ok_def)
  define m1 where "m1 = m(rp := 0)"
  define s1 where "s1 = poke rp 0 st"
  have s1: "words s1 = m1" "maddr s1 = M" "least_addr s1 = least_addr st" "treemap s1 = treemap st" "s1 = st\<lparr>words := m1\<rparr>"
    by (simp_all add: s1_def m1_def m_def M_def poke_def)
  have rp32: "rp = at z 32 \<or> rp = at z 40" using z(2) by (auto simp: rp_def)
  have la: "least_addr st \<le> rp"
    using N [OF z(1)] above_least [OF assms(1), of z] by (auto simp: large_def rp_def at_def)
  have start: "(if child1 st x \<noteq> 0 then at x 40 else at x 32) = at x (32 + 8 * b)" by (simp add: b_def m_def)
  have "bk st x = x" "child1 st x \<noteq> 0 \<or> child0 st x \<noteq> 0" "words st rp = r"
    using x(2) assms(7) z(5) by (auto simp: chain_ok_def m_def rp_def)
  then have "unlink_replacement x st = Inr (r, s1)"
    using la unfolding unlink_replacement_def start z(4) rp_def [symmetric] by (simp add: s1_def)
  then have run: "unlink_large_chunk x st = relink x xp r s1" using xp by (simp add: unlink_large_chunk_def Let_def xp_def m_def)
  have m1: "m1 (at y g) = m (at y g)" if "y \<in> large fr" "y \<noteq> z \<or> g \<notin> {32, 40}" "g < 256" for y g
    using that rp32 N [OF z(1)] by (auto simp: m1_def ci)
  define fr0 where "fr0 = (\<lambda>p. if p \<in> set (r # cl r) then None else fr p)"
  define mv where "mv = m(at r 16 := r, at r 24 := r)"
  define fra where "fra = (\<lambda>p. if p \<in> set (cl r) then None else fr p)"
  have ta: "tree_ok M (treemap st) mv fra N (cl(r := [])) lo lv"
  proof (rule tree_chain_change [OF t ap z(3) r(1)])
    show "chain_ok mv fra N [] r sr" using r(7) by (simp add: chain_ok_def mv_def ci)
    show "fra p = (if p \<in> set (cl r) - set [] then None else fr p)" for p by (simp add: fra_def)
    show "mv a = m a" if "\<And>y g. y \<in> insert r (set (cl r)) \<Longrightarrow> g \<in> {16, 24} \<Longrightarrow> a \<noteq> at y g" for a
      using that [of r 16] that [of r 24] by (simp add: mv_def)
  qed simp
  have apa: "apart M fra" by (rule apart_sub [OF ap]) (auto simp: fra_def split: if_splits)
  have mv: "mv (at y g) = m (at y g)" if "y \<in> large fr" "g < 256" "g \<notin> {16, 24}" for y g
    using that r(7) by (auto simp: mv_def ci)
  have mvt: "mv (tbin M j) = m (tbin M j)" if "j < 32" for j using that r(7) by (simp add: mv_def tb_ne)
  have pt: "points_to M mv N lo lv r rp"
  proof -
    note cr = childD [OF t z(1,2,5) r(8)]
    have "m (tbin M i) \<noteq> r"
    proof
      assume "m (tbin M i) = r"
      then have "m (at r 48) = tbin M i" using nodeD [OF t ap z(3)] ri by (metis parent_ok_def)
      then show False using cr(2) tb_ne(3) [OF N [OF z(1)] x(7)] by (simp add: i_def)
    qed
    then show ?thesis
      using cr z rz ri mv [OF r(7)] mv [OF N [OF z(1)], of "32 + 8 * b'"] mvt [OF x(7)]
      unfolding points_to_def Let_def by (auto simp: rp_def i_def)
  qed
  have rp_tb: "rp \<noteq> tbin M j" if "j < 32" for j using tb_ne(2) [OF N [OF z(1)] that] by (simp add: rp_def)
  have "mv (at r 32) = 0" "mv (at r 40) = 0" "mv (at r 56) < 32" using leaf mv [OF r(7)] ri x(7) by (auto simp: i_def)
  then have t0: "tree_ok M (treemap st) (mv(rp := 0)) (fra(r := None)) (N - {r}) (cl(r := [])) lo lv"
    using tree_leaf_remove [OF ta apa z(3) _ _ _ pt refl] rp_tb by simp
  have fr0: "fra(r := None) = fr0" by (auto simp: fra_def fr0_def)
  have ap0: "apart M fr0" by (rule apart_sub [OF ap]) (auto simp: fr0_def split: if_splits)
  have tv1: "tree_ok M (treemap s1) ((words s1)(at x 16 := x, at x 24 := x)) fr0 (N - {r}) (cl(r := [])) lo lv"
    unfolding s1(1,4)
  proof (rule tries_cong [OF t0 [unfolded fr0] ap0])
    fix a assume a: "large_word M fr0 a"
    have "a \<noteq> at r g" if "g < 256" for g
      by (rule large_word_less [OF ap r(7) a _ that]) (auto simp: fr0_def split: if_splits)
    moreover have "m1 (at x 16) = x" "m1 (at x 24) = x" using m1 [OF x(3)] x(2) by (auto simp: chain_ok_def)
    ultimately show "(m1(at x 16 := x, at x 24 := x)) a = (mv(rp := 0)) a" by (auto simp: mv_def m1_def)
  qed
  have chain: "chain_ok (words s1) fr (N - {r}) (cl r) r sr"
    unfolding chain_ok_def s1(1)
  proof (intro conjI ballI)
    have "seg m1 r (cl r) r = seg m r (cl r) r" using r(7,9) m1 by (intro seg_cong) auto
    then show "seg m1 r (cl r) r" using r(6) by (simp add: chain_ok_def)
    fix y assume y: "y \<in> set (cl r)"
    then have "y \<noteq> z" "y \<in> large fr" using r(6,9) z(1) by (auto simp: chain_ok_def)
    then show "y \<notin> N - {r}" "fr y = Some sr" "m1 (at y 48) = 0" "m1 (at y 32) = 0" "m1 (at y 40) = 0" "m1 (at y 56) = compute_tree_index sr"
      using r(6) m1 [of y] y by (auto simp: chain_ok_def)
  qed (use r(6) in \<open>auto simp: chain_ok_def\<close>)
  have fields: "index s1 x = compute_tree_index sr" "index s1 r = index s1 x" "child0 s1 r = 0" "child1 s1 r = 0" "m1 (at x 48) = xp"
    using m1 [OF x(3)] m1 [OF r(7)] leaf ri r(3) rz by (auto simp: s1(1) xp_def i_def)
  have frq: "fr p = Some sr" if "p \<in> set (r # cl r)" for p using that r(1,6) by (auto simp: chain_ok_def)
  have "\<exists>st'. relink x (parent s1 x) r s1 = Inr st' \<and> (\<exists>N cl lo lv. tree_ok M (treemap s1) (words st') (fr(x := None)) N cl lo lv) \<and>
    (\<forall>a. words st' a \<noteq> words s1 a \<longrightarrow> large_word M fr a) \<and> st' = s1\<lparr>words := words st'\<rparr>"
    by (rule relink_spec [OF tv1 s1(2) _ ap, where qs = "cl r"])
      (use s1(3) binsD(2) [OF assms(1)] assms(5,6) r(2,4,5) iv fields chain frq rx in \<open>auto simp: fr0_def M_def\<close>)
  then obtain st' where st': "relink x xp r s1 = Inr st'" "\<exists>N cl lo lv. tree_ok M (treemap st) (words st') (fr(x := None)) N cl lo lv"
    "\<forall>a. words st' a \<noteq> m1 a \<longrightarrow> large_word M fr a" "st' = s1\<lparr>words := words st'\<rparr>"
    unfolding s1(1,4) fields(5) by blast
  have w: "large_word M fr a" if "words st' a \<noteq> m a" for a
  proof (cases "m1 a = m a")
    case False
    then have "a = rp" by (auto simp: m1_def split: if_splits)
    then show ?thesis using rp32 N [OF z(1)] by (auto intro: large_wordI)
  qed (use st'(3) that in auto)
  note st'_eq = words_only [OF st'(4) s1(5)]
  have "unlink_large_chunk x st = Inr st'" using run st'(1) by simp
  then show ?thesis using unlink_done [OF assms(1-3) _ st'_eq st'(2) [unfolded M_def] w [unfolded M_def m_def]] by blast
qed

lemma unlink_large_spec:
  assumes "bins st fr" "fr x = Some s" "256 \<le> s"
  shows "\<exists>st'. unlink_large_chunk x st = Inr st' \<and> bins st' (fr(x := None)) \<and> kept fr st st'"
proof -
  obtain N cl lo lv where t: "tree_ok (maddr st) (treemap st) (words st) fr N cl lo lv" using assms(1) by (auto simp: bins_def)
  obtain y where y: "y \<in> N" "x \<in> set (y # cl y)" using tree_okD(3) [OF t assms(2,3)] by auto
  show ?thesis
  proof (cases "x = y")
    case True
    show ?thesis
    proof (cases "cl x" rule: rev_cases)
      case Nil
      then show ?thesis using unlink_leaf [OF assms t _ Nil] unlink_inner [OF assms t _ Nil] True y(1) by blast
    next
      case (snoc qs r)
      then show ?thesis using unlink_node_chain [OF assms t] True y(1) by blast
    qed
  qed (use unlink_chained [OF assms t y(1)] y(2) in auto)
qed

end
