(* ===== verification/DlHeap.thy ===== *)
theory DlHeap
  imports DlOps
begin

text \<open>
  The area of the allocator is divided into chunks. A partial function \<open>C\<close> gives for the address of each chunk its size, whether it
  is in use, and whether the chunk before it is in use. \<open>shape\<close> says that the chunks fill the area without gaps;
  \<open>tagged\<close> that their heads and feet in memory say the same as \<open>C\<close>. The operations of the allocator
  toggle, split and merge chunks.
\<close>

type_synonym chunks = "nat \<rightharpoonup> nat \<times> bool \<times> bool"

section \<open>Chunks fill the area\<close>

definition shape :: "nat \<Rightarrow> nat \<Rightarrow> nat \<Rightarrow> chunks \<Rightarrow> bool" where
  "shape F t e C \<longleftrightarrow> C F = Some (960, True, True) \<and> F < t \<and> e < 2 ^ 63 \<and> e < F + 2 ^ 40 \<and> F mod 32 = 16 \<and>
     (\<exists>s v. C t = Some (s, False, v) \<and> t + s = e) \<and>
     (\<forall>p s u v. C p = Some (s, u, v) \<longrightarrow> 32 \<le> s \<and> 32 dvd s \<and> F \<le> p \<and> p mod 32 = 16 \<and> p + s \<le> e) \<and>
     (\<forall>p s u v. C p = Some (s, u, v) \<longrightarrow> p \<noteq> t \<longrightarrow> (\<exists>s' u'. C (p + s) = Some (s', u', u))) \<and>
     (\<forall>p s u v q. C p = Some (s, u, v) \<longrightarrow> C q \<noteq> None \<longrightarrow> p < q \<longrightarrow> p + s \<le> q) \<and>
     (\<forall>p. C p \<noteq> None \<longrightarrow> p \<noteq> F \<longrightarrow> (\<exists>q s u v. C q = Some (s, u, v) \<and> q + s = p))"

text \<open>No two free chunks are neighbours.\<close>

definition merged :: "chunks \<Rightarrow> bool" where
  "merged C \<longleftrightarrow> (\<forall>p s v. C p = Some (s, False, v) \<longrightarrow> v)"

lemma shapeD:
  assumes "shape F t e C"
  shows "C F = Some (960, True, True)" "F < t" "e < 2 ^ 63" "e < F + 2 ^ 40" "F mod 32 = 16"
    "\<exists>s v. C t = Some (s, False, v) \<and> t + s = e"
    "C p = Some (s, u, v) \<Longrightarrow> 32 \<le> s" "C p = Some (s, u, v) \<Longrightarrow> 32 dvd s" "C p = Some (s, u, v) \<Longrightarrow> F \<le> p"
    "C p = Some (s, u, v) \<Longrightarrow> p mod 32 = 16" "C p = Some (s, u, v) \<Longrightarrow> p + s \<le> e"
    "C p = Some (s, u, v) \<Longrightarrow> p \<noteq> t \<Longrightarrow> \<exists>s' u'. C (p + s) = Some (s', u', u)"
    "C p = Some (s, u, v) \<Longrightarrow> C q = Some w \<Longrightarrow> p < q \<Longrightarrow> p + s \<le> q"
    "C p = Some w \<Longrightarrow> p \<noteq> F \<Longrightarrow> \<exists>q s u v. C q = Some (s, u, v) \<and> q + s = p"
proof -
  have p1: "C F = Some (960, True, True)" "F < t" "e < 2 ^ 63" "e < F + 2 ^ 40" "F mod 32 = 16"
    "\<exists>s v. C t = Some (s, False, v) \<and> t + s = e"
    and p2: "\<forall>p s u v. C p = Some (s, u, v) \<longrightarrow> 32 \<le> s \<and> 32 dvd s \<and> F \<le> p \<and> p mod 32 = 16 \<and> p + s \<le> e"
    and p3: "\<forall>p s u v. C p = Some (s, u, v) \<longrightarrow> p \<noteq> t \<longrightarrow> (\<exists>s' u'. C (p + s) = Some (s', u', u))"
    and p4: "\<forall>p s u v q. C p = Some (s, u, v) \<longrightarrow> C q \<noteq> None \<longrightarrow> p < q \<longrightarrow> p + s \<le> q"
    and p5: "\<forall>p. C p \<noteq> None \<longrightarrow> p \<noteq> F \<longrightarrow> (\<exists>q s u v. C q = Some (s, u, v) \<and> q + s = p)"
    using assms unfolding shape_def by - (elim conjE, assumption)+
  show "C F = Some (960, True, True)" "F < t" "e < 2 ^ 63" "e < F + 2 ^ 40" "F mod 32 = 16" "\<exists>s v. C t = Some (s, False, v) \<and> t + s = e"
    by (fact p1)+
  show "C p = Some (s, u, v) \<Longrightarrow> 32 \<le> s" "C p = Some (s, u, v) \<Longrightarrow> 32 dvd s" "C p = Some (s, u, v) \<Longrightarrow> F \<le> p"
    "C p = Some (s, u, v) \<Longrightarrow> p mod 32 = 16" "C p = Some (s, u, v) \<Longrightarrow> p + s \<le> e" using p2 by blast+
  show "C p = Some (s, u, v) \<Longrightarrow> p \<noteq> t \<Longrightarrow> \<exists>s' u'. C (p + s) = Some (s', u', u)" using p3 by blast
  show "C p = Some (s, u, v) \<Longrightarrow> C q = Some w \<Longrightarrow> p < q \<Longrightarrow> p + s \<le> q" using p4 by blast
  show "C p = Some w \<Longrightarrow> p \<noteq> F \<Longrightarrow> \<exists>q s u v. C q = Some (s, u, v) \<and> q + s = p" using p5 by blast
qed

lemma shape_ends:
  assumes "shape F t e C" "C p = Some (s, u, v)" "C q = Some (s', u', v')" "p + s = q + s'"
  shows "p = q"
proof (cases p q rule: linorder_cases)
  case less
  then show ?thesis using shapeD(13) [OF assms(1-3)] shapeD(7) [OF assms(1,3)] assms(4) by simp
next
  case greater
  then show ?thesis using shapeD(13) [OF assms(1,3,2)] shapeD(7) [OF assms(1,2)] assms(4) by simp
qed

lemma shape_toggle:
  assumes "shape F t e C" "C p = Some (s, u0, v)" "p \<noteq> t" "p \<noteq> F" "C (p + s) = Some (s', u', u0)"
  shows "shape F t e (C(p \<mapsto> (s, u, v), p + s \<mapsto> (s', u', u)))"
proof -
  note d = shapeD [OF assms(1)]
  have "p + s \<noteq> F" using d(9) [OF assms(2)] d(7) [OF assms(2)] by simp
  let ?C = "C(p \<mapsto> (s, u, v), p + s \<mapsto> (s', u', u))"
  have old: "\<exists>u1 v1. C x = Some (sx, u1, v1) \<and> (x \<noteq> p \<longrightarrow> u1 = ux) \<and> (x \<noteq> p + s \<longrightarrow> v1 = vx)" if "?C x = Some (sx, ux, vx)" for x sx ux vx
    using that assms(2,5) by (auto split: if_splits)
  have dom: "?C x \<noteq> None \<longleftrightarrow> C x \<noteq> None" for x using assms(2,5) by auto
  show ?thesis
    unfolding shape_def
  proof (intro conjI allI impI)
    show "?C F = Some (960, True, True)" using d(1) assms(4) \<open>p + s \<noteq> F\<close> by simp
    show "\<exists>s v. ?C t = Some (s, False, v) \<and> t + s = e" using d(6) assms(3,5) by auto
    fix x sx ux vx assume x: "?C x = Some (sx, ux, vx)"
    obtain u1 v1 where o: "C x = Some (sx, u1, v1)" "x \<noteq> p \<Longrightarrow> u1 = ux" using old [OF x] by blast
    show "32 \<le> sx" "32 dvd sx" "F \<le> x" "x mod 32 = 16" "x + sx \<le> e" using d(7-11) [OF o(1)] by auto
    show "\<exists>s' u'. ?C (x + sx) = Some (s', u', ux)" if "x \<noteq> t"
    proof (cases "x = p")
      case True
      then show ?thesis using x assms(2) d(7) [OF assms(2)] by (auto split: if_splits)
    next
      case False
      then have "x + sx \<noteq> p + s" using shape_ends [OF assms(1) o(1) assms(2)] by auto
      then show ?thesis using d(12) [OF o(1) that] o(2) [OF False] assms(2) by (auto split: if_splits)
    qed
    show "x + sx \<le> q" if "?C q \<noteq> None" "x < q" for q using dom [of q] that d(13) [OF o(1), of q] by auto
  next
    fix x assume "?C x \<noteq> None" "x \<noteq> F"
    then have "C x \<noteq> None" using dom by blast
    then obtain q s1 u1 v1 where "C q = Some (s1, u1, v1)" "q + s1 = x" using d(14) [of x] \<open>x \<noteq> F\<close> by blast
    then show "\<exists>q s u v. ?C q = Some (s, u, v) \<and> q + s = x" using assms(2,5) by (intro exI [of _ q] exI [of _ s1]) auto
  qed (use d in auto)
qed

lemma shape_split:
  assumes "shape F t e C" "C p = Some (s, u, v)" "p \<noteq> F" "32 \<le> nb" "32 dvd nb" "nb + 32 \<le> s"
  shows "shape F (if p = t then p + nb else t) e (C(p \<mapsto> (nb, u1, v), p + nb \<mapsto> (s - nb, u, u1)))"
proof -
  note d = shapeD [OF assms(1)]
  let ?C = "C(p \<mapsto> (nb, u1, v), p + nb \<mapsto> (s - nb, u, u1))" and ?t = "if p = t then p + nb else t"
  have p: "32 dvd s" "F \<le> p" "p mod 32 = 16" "p + s \<le> e" using d(8-11) [OF assms(2)] by auto
  have new: "C (p + nb) = None"
  proof (rule ccontr)
    assume "C (p + nb) \<noteq> None"
    then show False using d(13) [OF assms(2), of "p + nb"] assms(4,6) by auto
  qed
  have tt: "p + nb \<noteq> t" using new d(6) by auto
  have pF: "p + nb \<noteq> F" using new d(1) by auto
  have mod: "(p + nb) mod 32 = 16" using p(3) assms(5) by (metis dvd_eq_mod_eq_0 mod_add_right_eq add.right_neutral)
  show ?thesis
    unfolding shape_def
  proof (intro conjI allI impI)
    show "?C F = Some (960, True, True)" using d(1) assms(3) pF by simp
    show "F < ?t" using d(2) by simp
    show "\<exists>s v. ?C ?t = Some (s, False, v) \<and> ?t + s = e" using d(6) assms(2,6) tt by auto
    fix x sx ux vx assume x: "?C x = Some (sx, ux, vx)"
    then consider "x = p" "sx = nb" "ux = u1" | "x = p + nb" "sx = s - nb" "ux = u" | "x \<noteq> p" "x \<noteq> p + nb" "C x = Some (sx, ux, vx)"
      using assms(4) by (auto split: if_splits)
    note cs = this
    show "32 \<le> sx" "32 dvd sx" "F \<le> x" "x mod 32 = 16" "x + sx \<le> e"
      using cs by (cases; use assms(4-6) p mod d(7-11) [of x sx ux vx] in auto)+
    show "\<exists>s' u'. ?C (x + sx) = Some (s', u', ux)" if xt: "x \<noteq> ?t"
      using cs
    proof cases
      case 2
      then have "p \<noteq> t" using xt by auto
      then obtain s' u' where "C (p + s) = Some (s', u', u)" using d(12) [OF assms(2)] by blast
      then show ?thesis using 2 assms(4,6) by auto
    next
      case 3
      then obtain s' u' where n: "C (x + sx) = Some (s', u', ux)" using d(12) [OF 3(3)] xt by (auto split: if_splits)
      then show ?thesis using assms(2) new by (cases "x + sx = p") auto
    qed (use assms(4) in auto)
    show "x + sx \<le> q" if q: "?C q \<noteq> None" "x < q" for q
    proof -
      have q': "q = p + nb \<or> C q \<noteq> None" using q(1) assms(2) by (auto split: if_splits)
      have far: "p + s \<le> q" if "C q \<noteq> None" "p < q" using that d(13) [OF assms(2), of q] by auto
      from cs show ?thesis
      proof cases
        case 1
        then show ?thesis using q' far q(2) assms(6) by auto
      next
        case 2
        then show ?thesis using q' far q(2) assms(6) by auto
      next
        case 3
        have "x + sx \<le> p" if "x < p + nb"
        proof -
          have "x < p"
          proof (rule ccontr)
            assume "\<not> x < p"
            then have "p < x" using 3(1) by simp
            then show False using d(13) [OF assms(2) 3(3)] that assms(6) by simp
          qed
          then show ?thesis using d(13) [OF 3(3) assms(2)] by simp
        qed
        then show ?thesis using q' q(2) d(13) [OF 3(3), of q] by fastforce
      qed
    qed
  next
    fix x assume x: "?C x \<noteq> None" "x \<noteq> F"
    show "\<exists>q s u v. ?C q = Some (s, u, v) \<and> q + s = x"
    proof (cases "x = p + nb")
      case True
      then show ?thesis using assms(4) by (intro exI [of _ p] exI [of _ nb]) auto
    next
      case False
      then have "C x \<noteq> None" using x(1) assms(2) by (auto split: if_splits)
      then obtain q s1 u2 v1 where q: "C q = Some (s1, u2, v1)" "q + s1 = x" using d(14) [of x] x(2) by blast
      show ?thesis
      proof (cases "q = p")
        case True
        then show ?thesis using q assms(2,6) by (intro exI [of _ "p + nb"] exI [of _ "s - nb"]) auto
      next
        case F: False
        then show ?thesis using q new by (intro exI [of _ q] exI [of _ s1]) auto
      qed
    qed
  qed (use d in auto)
qed

lemma shape_merge:
  assumes "shape F t e C" "C p = Some (s1, u1, v1)" "p \<noteq> F" "p \<noteq> t" "C (p + s1) = Some (s2, u2, v2)"
  shows "shape F (if p + s1 = t then p else t) e (C(p \<mapsto> (s1 + s2, u2, v1), p + s1 := None))"
proof -
  note d = shapeD [OF assms(1)]
  let ?C = "C(p \<mapsto> (s1 + s2, u2, v1), p + s1 := None)" and ?t = "if p + s1 = t then p else t"
  note p = d(7-11) [OF assms(2)] and q = d(7-11) [OF assms(5)]
  have pF: "F < p" using p(3) assms(3) by simp
  have d2: "32 dvd s1 + s2" using p(2) q(2) by simp
  show ?thesis
    unfolding shape_def
  proof (intro conjI allI impI)
    show "?C F = Some (960, True, True)" using d(1) pF p(1) by simp
    show "F < ?t" using d(2) pF by simp
    show "\<exists>s v. ?C ?t = Some (s, False, v) \<and> ?t + s = e" using d(6) assms(4,5) p(1) by auto
    fix x sx ux vx assume x: "?C x = Some (sx, ux, vx)"
    then consider "x = p" "sx = s1 + s2" "ux = u2" | "x \<noteq> p" "x \<noteq> p + s1" "C x = Some (sx, ux, vx)"
      using p(1) by (auto split: if_splits)
    note cs = this
    show "32 \<le> sx" "32 dvd sx" "F \<le> x" "x mod 32 = 16" "x + sx \<le> e"
      using cs by (cases; use p q d2 d(7-11) [of x sx ux vx] in auto)+
    show "\<exists>s' u'. ?C (x + sx) = Some (s', u', ux)" if xt: "x \<noteq> ?t"
      using cs
    proof cases
      case 1
      then have "p + s1 \<noteq> t" using xt by auto
      then obtain s' u' where "C (p + s1 + s2) = Some (s', u', u2)" using d(12) [OF assms(5)] by blast
      then show ?thesis using 1 p(1) q(1) by (auto simp: ac_simps)
    next
      case 2
      then have "x \<noteq> t" using xt by (auto split: if_splits)
      then obtain s' u' where n: "C (x + sx) = Some (s', u', ux)" using d(12) [OF 2(3)] by blast
      have "x + sx \<noteq> p + s1" using shape_ends [OF assms(1) 2(3) assms(2)] 2(1) by auto
      then show ?thesis using n assms(2) by (cases "x + sx = p") auto
    qed
    show "x + sx \<le> y" if y: "?C y \<noteq> None" "x < y" for y
    proof -
      have y': "C y \<noteq> None" "y \<noteq> p + s1" using y(1) assms(2) by (auto split: if_splits)
      from cs show ?thesis
      proof cases
        case 1
        then have "p + s1 \<le> y" using y(2) d(13) [OF assms(2), of y] y'(1) by auto
        then show ?thesis using 1 y' d(13) [OF assms(5), of y] by auto
      next
        case 2
        then show ?thesis using y(2) y'(1) d(13) [OF 2(3), of y] by auto
      qed
    qed
  next
    fix x assume x: "?C x \<noteq> None" "x \<noteq> F"
    have x': "C x \<noteq> None" "x \<noteq> p + s1" using x(1) assms(2) by (auto split: if_splits)
    then obtain y sy u3 v3 where y: "C y = Some (sy, u3, v3)" "y + sy = x" using d(14) [of x] x(2) by blast
    show "\<exists>q s u v. ?C q = Some (s, u, v) \<and> q + s = x"
    proof (cases "y = p + s1")
      case True
      then show ?thesis using y assms(5) p(1) by (intro exI [of _ p] exI [of _ "s1 + s2"]) auto
    next
      case False
      moreover have "y \<noteq> p" using y x'(2) assms(2) by auto
      ultimately show ?thesis using y by (intro exI [of _ y] exI [of _ sy]) auto
    qed
  qed (use d in auto)
qed

section \<open>Tags\<close>

definition headword :: "nat \<Rightarrow> bool \<Rightarrow> bool \<Rightarrow> nat" where
  "headword s u v = s + of_bool v + 2 * of_bool u"

text \<open>The chunks in \<open>X\<close> have been taken up for an operation: their tags in memory are out of date.\<close>

definition tagged :: "nat set \<Rightarrow> chunks \<Rightarrow> nat \<Rightarrow> (nat \<Rightarrow> nat) \<Rightarrow> bool" where
  "tagged X C t m \<longleftrightarrow> (\<forall>p s u v. C p = Some (s, u, v) \<longrightarrow> p \<notin> X \<longrightarrow>
     m (at p 8) = headword s u v \<and> (\<not> u \<longrightarrow> p \<noteq> t \<longrightarrow> m (at (p + s) 0) = s))"

lemma taggedD:
  assumes "tagged X C t m" "C p = Some (s, u, v)" "p \<notin> X"
  shows "m (at p 8) = headword s u v" "\<not> u \<Longrightarrow> p \<noteq> t \<Longrightarrow> m (at (p + s) 0) = s"
  using assms unfolding tagged_def by blast+

lemma or_2: "even (x div 2) \<Longrightarrow> x OR 2 = x + (2::nat)"
  using or_rec [of x 2] or_one_eq [of "x div 2"] by (auto simp: of_bool_def)

lemma or_1: "even x \<Longrightarrow> x OR 1 = x + (1::nat)"
  using or_one_eq [of x] by simp

lemma headword_simps:
  assumes "32 dvd s"
  shows "s OR 1 = headword s False True" "s OR 1 OR 2 = headword s True True" "s OR 3 = headword s True True"
    "set_bit 0 (headword s u v) = headword s u True" "unset_bit 0 (headword s u v) = headword s u False"
    "bit (headword s u v) 0 = v" "bit (headword s u v) 1 = u" "headword s u v mod 4 = of_bool v + 2 * of_bool u" "headword s u v div 8 * 8 = s"
proof -
  obtain k where k: "s = 32 * k" using assms by blast
  show 1: "s OR 1 = headword s False True" using k or_1 [of s] by (simp add: headword_def)
  have "(s OR 1) OR 2 = s + 1 + 2" using k or_1 [of s] or_2 [of "s + 1"] by simp
  then show 2: "s OR 1 OR 2 = headword s True True" unfolding or.assoc by (simp add: headword_def)
  then show "s OR 3 = headword s True True" by simp
  show "set_bit 0 (headword s u v) = headword s u True" "unset_bit 0 (headword s u v) = headword s u False"
    "headword s u v div 8 * 8 = s" "headword s u v mod 4 = of_bool v + 2 * of_bool u"
    unfolding set_bit_0 unset_bit_0 headword_def k by (cases u; cases v; simp; presburger)+
  show "bit (headword s u v) 0 = v" "bit (headword s u v) 1 = u"
    unfolding headword_def k by (cases u; cases v; simp add: bit_iff_odd bit_0; presburger)+
qed

lemma headword_keep:
  assumes "32 dvd s" "32 dvd s'"
  shows "(headword s' u v AND 1) OR s OR 2 = headword s True v"
proof -
  obtain k k' where k: "s = 32 * k" "s' = 32 * k'" using assms by blast
  have "headword s' u v AND 1 = of_bool v" unfolding and_one_eq headword_def k by (cases u; cases v; simp; presburger)
  moreover have "of_bool v OR s = s + of_bool v" using or_1 [of s] k by (cases v) (simp_all add: or.commute)
  moreover have "(s + of_bool v) OR 2 = s + of_bool v + 2" using or_2 [of "s + of_bool v"] k by (cases v) simp_all
  ultimately show ?thesis by (simp add: headword_def flip: or.assoc)
qed

lemma tag_cells:
  assumes "p mod 32 = 16" "q mod 32 = 16"
  shows "at p 8 \<noteq> at q 0" "at q 0 \<noteq> at p 8"
proof -
  have "(p + 8) mod 32 = 24" using assms(1) mod_add_left_eq [of p 32 8] by simp
  then show "at p 8 \<noteq> at q 0" "at q 0 \<noteq> at p 8" using assms(2) by (auto simp: at_def)
qed

lemma aligned_close:
  assumes "x mod 32 = (16::nat)" "y mod 32 = 16" "y \<le> x" "x < y + 8"
  shows "x = y"
proof -
  define a b where "a = x div 32" and "b = y div 32"
  have xy: "x = 32 * a + 16" "y = 32 * b + 16" using assms(1,2) unfolding a_def b_def by (metis mult_div_mod_eq)+
  then have "a = b" using assms(3,4) by linarith
  then show ?thesis using xy by simp
qed

lemma tag_inject: "at p f = at q f \<longleftrightarrow> p = q"
  by (simp add: at_def)

section \<open>The heap\<close>

text \<open>The words that belong to the users of the chunks in use, the first chunk apart: it holds the state of the allocator.\<close>

definition data :: "nat \<Rightarrow> nat set \<Rightarrow> chunks \<Rightarrow> nat \<Rightarrow> bool" where
  "data F X C a \<longleftrightarrow> (\<exists>p s v. C p = Some (s, True, v) \<and> p \<noteq> F \<and> p \<notin> X \<and> p + 16 \<le> a \<and> a < p + s + 8)"

definition mid :: "nat \<Rightarrow> nat \<Rightarrow> chunks \<Rightarrow> nat set \<Rightarrow> (nat \<rightharpoonup> nat) \<Rightarrow> mstate \<Rightarrow> bool" where
  "mid F e C X fr st \<longleftrightarrow> shape F (top_chunk st) e C \<and> tagged X C (top_chunk st) (words st) \<and> maddr st = F + 16 \<and> bins st fr \<and>
     C (top_chunk st) = Some (topsize st, False, True) \<and>
     (\<forall>p s. fr p = Some s \<longrightarrow> p \<noteq> top_chunk st \<and> (\<exists>v. C p = Some (s, False, v))) \<and> (\<forall>p \<in> X. \<exists>s v. C p = Some (s, True, v))"

lemma midD:
  assumes "mid F e C X fr st"
  shows "shape F (top_chunk st) e C" "tagged X C (top_chunk st) (words st)" "maddr st = F + 16" "bins st fr"
    "C (top_chunk st) = Some (topsize st, False, True)" "fr p = Some s \<Longrightarrow> p \<noteq> top_chunk st" "fr p = Some s \<Longrightarrow> \<exists>v. C p = Some (s, False, v)"
    "p \<in> X \<Longrightarrow> \<exists>s v. C p = Some (s, True, v)"
  using assms unfolding mid_def by blast+

lemma mid_not_free:
  assumes "mid F e C X fr st"
  shows "C q = Some (s, True, v) \<Longrightarrow> fr q = None" "C q = None \<Longrightarrow> fr q = None" "fr (top_chunk st) = None"
    "C q = Some (s, u, False) \<Longrightarrow> q \<noteq> top_chunk st"
proof -
  have "fr q = None" if "\<nexists>s v. C q = Some (s, False, v)"
  proof (rule ccontr)
    assume "fr q \<noteq> None"
    then show False using midD(7) [OF assms, of q] that by blast
  qed
  then show "C q = Some (s, True, v) \<Longrightarrow> fr q = None" "C q = None \<Longrightarrow> fr q = None" by simp_all
  show "fr (top_chunk st) = None" using midD(6) [OF assms, of "top_chunk st"] by (cases "fr (top_chunk st)") auto
  show "C q = Some (s, u, False) \<Longrightarrow> q \<noteq> top_chunk st" using midD(5) [OF assms] by auto
qed

lemma mid_tags:
  assumes "mid F e C X fr st" "C p = Some (s, u, v)" "p \<notin> X"
  shows "head st p = headword s u v" "chunksize st p = s" "pinuse st p = v" "cinuse st p = u" "is_inuse st p \<longleftrightarrow> u \<or> \<not> v"
    "is_mmapped st p \<longleftrightarrow> \<not> u \<and> \<not> v" "\<not> u \<Longrightarrow> p \<noteq> top_chunk st \<Longrightarrow> prev_foot st (p + s) = s" "p \<noteq> F \<Longrightarrow> least_addr st \<le> p" "p \<noteq> 0"
proof -
  note h = taggedD [OF midD(2) [OF assms(1)] assms(2,3)] and d = shapeD [OF midD(1) [OF assms(1)]]
  show hd: "head st p = headword s u v" "\<not> u \<Longrightarrow> p \<noteq> top_chunk st \<Longrightarrow> prev_foot st (p + s) = s" using h by auto
  note hs = headword_simps [OF d(8) [OF assms(2)]]
  show "chunksize st p = s" "pinuse st p = v" "cinuse st p = u" "is_inuse st p \<longleftrightarrow> u \<or> \<not> v" "is_mmapped st p \<longleftrightarrow> \<not> u \<and> \<not> v"
    unfolding chunksize_def pinuse_def cinuse_def is_inuse_def is_mmapped_def hd(1) using hs(6-9) by auto
  show "p \<noteq> 0" using d(10) [OF assms(2)] by auto
  have "least_addr st \<le> F + 16" using midD(3,4) [OF assms(1)] by (simp add: bins_def)
  then show "p \<noteq> F \<Longrightarrow> least_addr st \<le> p" using d(9) [OF assms(2)] d(13) [OF d(1) assms(2)] by simp
qed

lemma not_touched:
  assumes "shape F t e C" "\<And>p s. fr p = Some s \<Longrightarrow> \<exists>v. C p = Some (s, False, v)" "touch (F + 16) fr a"
  shows "C q = Some w \<Longrightarrow> a \<noteq> at q 8" "C q = Some w \<Longrightarrow> a \<noteq> at q 0" "\<not> data F X C a"
proof -
  note d = shapeD [OF assms(1)]
  have far: "q = F \<or> F + 960 \<le> q" if "C q = Some w" for q w
    using that d(9) [of q] d(13) [OF d(1) that] by (cases w) fastforce
  from assms(3) consider "F + 104 \<le> a" "a < F + 872" | x s v where "C x = Some (s, False, v)" "x + 16 \<le> a" "a < x + s"
    unfolding touch_def using assms(2) by fastforce
  note cs = this
  have out: "a \<noteq> at q f" if q: "C q = Some w" and f: "f = 0 \<or> f = 8" for f q w
    using cs
  proof cases
    case 1
    then show ?thesis using far [OF q] f by (auto simp: at_def)
  next
    case 2
    have "x + s \<le> q" if "x < q" using d(13) [OF 2(1) q that] .
    then show ?thesis using 2 f by (cases x q rule: linorder_cases) (auto simp: at_def)
  qed
  show "a \<noteq> at q 8" "a \<noteq> at q 0" if "C q = Some w" using out that by auto
  show "\<not> data F X C a"
  proof
    assume "data F X C a"
    then obtain p sp vp where p: "C p = Some (sp, True, vp)" "p \<noteq> F" "p + 16 \<le> a" "a < p + sp + 8" by (auto simp: data_def)
    from cs show False
    proof cases
      case 1
      then show False using far [OF p(1)] p by auto
    next
      case 2
      have "p \<noteq> x" using p(1) 2(1) by auto
      then show False using d(13) [OF p(1) 2(1)] d(13) [OF 2(1) p(1)] p 2 by (cases p x rule: linorder_cases) auto
    qed
  qed
qed

lemma mid_apart:
  assumes "shape F t e C" "\<And>p s. fr p = Some s \<Longrightarrow> \<exists>v. C p = Some (s, False, v)"
  shows "apart (F + 16) fr"
  unfolding apart_def
proof (intro allI impI conjI)
  note d = shapeD [OF assms(1)]
  fix p s assume p: "fr p = Some s"
  obtain v where c: "C p = Some (s, False, v)" using assms(2) [OF p] by blast
  show "32 \<le> s" "32 dvd s" using d(7,8) [OF c] by auto
  have "F \<noteq> p" using d(1) c by auto
  then show "F + 16 + 944 \<le> p" using d(9) [OF c] d(13) [OF d(1) c] by simp
  then show "s < 2 ^ 40" "p + s < 2 ^ 63" using d(11) [OF c] d(3,4) by auto
  show "p + s \<le> q" if "fr q \<noteq> None" "p < q" for q using that assms(2) [of q] d(13) [OF c] by fastforce
qed

text \<open>Operations on the bins.\<close>

lemma mid_bins:
  assumes "mid F e C X fr st" "bins st' fr'" "kept frw st st'" "\<And>p s. frw p = Some s \<Longrightarrow> p \<noteq> top_chunk st \<and> (\<exists>v. C p = Some (s, False, v))"
    "\<And>p s. fr' p = Some s \<Longrightarrow> frw p = Some s"
  shows "mid F e C X fr' st'" "data F X C a \<Longrightarrow> words st' a = words st a"
proof -
  note md = midD [OF assms(1)]
  have keep: "words st' a = words st a" if "\<not> touch (F + 16) frw a" for a using assms(3) that md(3) by (auto simp: kept_def)
  have frw: "\<exists>v. C p = Some (s, False, v)" if "frw p = Some s" for p s using assms(4) that by blast
  note nt = not_touched [OF md(1) frw]
  show "data F X C a \<Longrightarrow> words st' a = words st a" using keep nt(3) by blast
  have "tagged X C (top_chunk st) (words st')"
    unfolding tagged_def
  proof (intro allI impI)
    fix p s u v assume p: "C p = Some (s, u, v)" "p \<notin> X"
    have "words st' (at p 8) = words st (at p 8)" using keep nt(1) p(1) by blast
    moreover have "words st' (at (p + s) 0) = words st (at (p + s) 0)" if "p \<noteq> top_chunk st"
      using keep nt(2) shapeD(12) [OF md(1) p(1) that] by blast
    ultimately show "words st' (at p 8) = headword s u v \<and> (\<not> u \<longrightarrow> p \<noteq> top_chunk st \<longrightarrow> words st' (at (p + s) 0) = s)"
      using taggedD [OF md(2) p] by simp
  qed
  then show "mid F e C X fr' st'"
    using md(1,3,5,8) assms(2-5) unfolding mid_def kept_def by metis
qed

definition same_data :: "nat \<Rightarrow> nat set \<Rightarrow> chunks \<Rightarrow> nat set \<Rightarrow> chunks \<Rightarrow> mstate \<Rightarrow> mstate \<Rightarrow> bool" where
  "same_data F X C X' C' st st' \<longleftrightarrow> (\<forall>a. data F X C a \<longrightarrow> data F X' C' a \<longrightarrow> words st' a = words st a)"

definition tagword :: "nat set \<Rightarrow> chunks \<Rightarrow> nat \<Rightarrow> nat \<Rightarrow> bool" where
  "tagword H C t a \<longleftrightarrow> (\<exists>q s u v. q \<in> H \<and> C q = Some (s, u, v) \<and> (a = at q 8 \<or> \<not> u \<and> q \<noteq> t \<and> a = at (q + s) 0))"

lemma tagwordI:
  "q \<in> H \<Longrightarrow> C q = Some w \<Longrightarrow> tagword H C t (at q 8)"
  "q \<in> H \<Longrightarrow> C q = Some (s, False, v) \<Longrightarrow> q \<noteq> t \<Longrightarrow> tagword H C t (at (q + s) 0)"
  unfolding tagword_def by (metis prod_cases3, blast)

definition tag_ok :: "chunks \<Rightarrow> mstate \<Rightarrow> nat \<Rightarrow> bool" where
  "tag_ok C st q \<longleftrightarrow> (\<forall>s u v. C q = Some (s, u, v) \<longrightarrow> head st q = headword s u v \<and> (\<not> u \<longrightarrow> q \<noteq> top_chunk st \<longrightarrow> prev_foot st (q + s) = s))"

lemma tag_okI:
  "C q = Some (s, True, v) \<Longrightarrow> head st q = headword s True v \<Longrightarrow> tag_ok C st q"
  "C q = Some (s, False, v) \<Longrightarrow> head st q = headword s False v \<Longrightarrow> q = top_chunk st \<or> prev_foot st (q + s) = s \<Longrightarrow> tag_ok C st q"
  "C q = None \<Longrightarrow> tag_ok C st q"
  unfolding tag_ok_def by auto

text \<open>Writes to tags: the chunks in \<open>H\<close> are changed, and all that is written are their tags.\<close>

lemma retag:
  assumes "mid F e C X fr st" "shape F (top_chunk st') e C'" "C' (top_chunk st') = Some (topsize st', False, True)" "X \<subseteq> H"
    "\<And>q. q \<notin> H \<Longrightarrow> C' q = C q" "top_chunk st' = top_chunk st \<or> top_chunk st' \<in> H \<and> top_chunk st \<in> H"
    "\<And>a. words st' a \<noteq> words st a \<Longrightarrow> tagword H C' (top_chunk st') a"
    "\<And>q. q \<in> H \<Longrightarrow> q \<notin> X' \<Longrightarrow> tag_ok C' st' q"
    "\<And>q. q \<in> X' \<Longrightarrow> \<exists>s v. C' q = Some (s, True, v)"
    "\<And>q s. q \<in> H \<Longrightarrow> fr q = Some s \<Longrightarrow> q \<noteq> top_chunk st' \<and> (\<exists>v. C' q = Some (s, False, v))"
    "maddr st' = maddr st" "least_addr st' = least_addr st" "smallmap st' = smallmap st" "treemap st' = treemap st"
  shows "mid F e C' X' fr st' \<and> same_data F X C X' C' st st'"
proof -
  note md = midD [OF assms(1)] and d = shapeD [OF assms(2)]
  have fr: "q \<noteq> top_chunk st' \<and> (\<exists>v. C' q = Some (s, False, v))" if "fr q = Some s" for q s
    using assms(5) [of q] assms(6,10) that md(6,7) [OF that] by metis
  then have fr': "\<exists>v. C' q = Some (s, False, v)" if "fr q = Some s" for q s using that by blast
  note nt = not_touched [OF assms(2) fr'] and written = assms(7) [unfolded tagword_def]
  have foot: "\<exists>w. C' (q + s) = Some w" if "C' q = Some (s, u, v)" "q \<noteq> top_chunk st'" for q s u v using d(12) that by blast
  have keep: "words st' a = words st a" if t: "touch (maddr st) fr a" for a
  proof (rule ccontr)
    assume "words st' a \<noteq> words st a"
    then show False using written foot nt(1,2) t unfolding md(3) by metis
  qed
  have bins: "bins st' fr" by (rule bins_cong [OF md(4) keep]) (use assms(11-14) in auto)
  have "tagged X' C' (top_chunk st') (words st')"
    unfolding tagged_def
  proof (intro allI impI)
    fix q s u v assume q: "C' q = Some (s, u, v)" "q \<notin> X'"
    show "head st' q = headword s u v \<and> (\<not> u \<longrightarrow> q \<noteq> top_chunk st' \<longrightarrow> prev_foot st' (q + s) = s)"
    proof (cases "q \<in> H")
      case False
      then have c: "C q = Some (s, u, v)" "q \<notin> X" using assms(4) assms(5) [of q] q by auto
      have "head st' q = head st q"
      proof (rule ccontr)
        assume "head st' q \<noteq> head st q"
        then obtain y sy u' v' where y: "y \<in> H" "C' y = Some (sy, u', v')" "at q 8 = at y 8 \<or> y \<noteq> top_chunk st' \<and> at q 8 = at (y + sy) 0"
          using written by blast
        moreover have "at q 8 \<noteq> at (y + sy) 0" if "y \<noteq> top_chunk st'"
          using foot [OF y(2) that] d(10) [OF q(1)] d(10) [of "y + sy"] tag_cells(1) by (metis surj_pair)
        ultimately show False using False by (auto simp: tag_inject)
      qed
      moreover have "prev_foot st' (q + s) = prev_foot st (q + s)" if u: "\<not> u" and qt: "q \<noteq> top_chunk st'"
      proof (rule ccontr)
        assume "prev_foot st' (q + s) \<noteq> prev_foot st (q + s)"
        then obtain y sy u' v' where y: "y \<in> H" "C' y = Some (sy, u', v')" "at (q + s) 0 = at y 8 \<or> y \<noteq> top_chunk st' \<and> at (q + s) 0 = at (y + sy) 0"
          using written by blast
        moreover have "at (q + s) 0 \<noteq> at y 8"
          using foot [OF q(1) qt] d(10) [OF y(2)] d(10) [of "q + s"] tag_cells(2) by (metis surj_pair)
        ultimately show False using False shape_ends [OF assms(2) q(1) y(2)] by (auto simp: tag_inject)
      qed
      ultimately show ?thesis using taggedD [OF md(2) c] assms(6) False by metis
    qed (use assms(8) q tag_ok_def in blast)
  qed
  then have "mid F e C' X' fr st'" using assms(2,3,9,11) md(3) bins fr unfolding mid_def by metis
  moreover have "words st' a = words st a" if a: "data F X C a" "data F X' C' a" for a
  proof (rule ccontr)
    assume "words st' a \<noteq> words st a"
    then obtain y sy u' v' where y: "y \<in> H" "C' y = Some (sy, u', v')" "a = at y 8 \<or> \<not> u' \<and> y \<noteq> top_chunk st' \<and> a = at (y + sy) 0"
      using written by blast
    obtain p s v where p: "C' p = Some (s, True, v)" "p + 16 \<le> a" "a < p + s + 8" using a(2) by (auto simp: data_def)
    have "a \<noteq> at y 8" using d(13) [OF p(1) y(2)] p(2,3) by (auto simp: at_def)
    then have f: "\<not> u'" "y \<noteq> top_chunk st'" "a = y + sy" using y(3) by (auto simp: at_def)
    obtain w where w: "C' (y + sy) = Some w" using foot [OF y(2) f(2)] by blast
    have "(y + sy) mod 32 = 16" using w d(10) by (metis surj_pair)
    moreover have "(p + s) mod 32 = 16" using d(10) [OF p(1)] d(8) [OF p(1)] by (auto elim!: dvdE)
    moreover have "p + s \<le> y + sy" "y + sy < p + s + 8" using d(13) [OF p(1) w] f(3) p(2,3) by auto
    ultimately have "y + sy = p + s" by (rule aligned_close)
    then have "y = p" by (rule shape_ends [OF assms(2) y(2) p(1)])
    then show False using y(2) p(1) f(1) by simp
  qed
  ultimately show ?thesis by (simp add: same_data_def)
qed

section \<open>Steps of the operations\<close>

lemma mid_insert:
  assumes "mid F e C X fr st" "C p = Some (s, False, v)" "fr p = None" "p \<noteq> top_chunk st" "X \<inter> dom fr = {}"
  shows "\<exists>st'. insert_chunk p s st = Inr st' \<and> mid F e C X (fr(p \<mapsto> s)) st' \<and> kept (fr(p \<mapsto> s)) st st' \<and> same_data F X C X C st st'"
proof -
  note md = midD [OF assms(1)]
  have fr: "q \<noteq> top_chunk st \<and> (\<exists>v. C q = Some (z, False, v))" if "(fr(p \<mapsto> s)) q = Some z" for q z
    using that assms(2,4) md(6,7) [of q z] by (auto split: if_splits)
  then have "\<exists>v. C q = Some (z, False, v)" if "(fr(p \<mapsto> s)) q = Some z" for q z using that by blast
  then have ap: "apart (maddr st) (fr(p \<mapsto> s))" using mid_apart [OF md(1)] unfolding md(3) by blast
  have sz: "sized st fr"
    unfolding sized_def using md(7) mid_tags(2) [OF assms(1)] assms(5) by (metis disjoint_iff domI)
  have "\<exists>st'. insert_chunk p s st = Inr st' \<and> bins st' (fr(p \<mapsto> s)) \<and> kept (fr(p \<mapsto> s)) st st'"
    using insert_small_spec [OF md(4) assms(3) ap] insert_large_spec [OF md(4) sz assms(3) ap]
    unfolding insert_chunk_def is_small_def by (cases "s < 256") auto
  then obtain st' where st': "insert_chunk p s st = Inr st'" "bins st' (fr(p \<mapsto> s))" "kept (fr(p \<mapsto> s)) st st'" by blast
  then show ?thesis
    using mid_bins [OF assms(1) st'(2,3) fr] by (auto simp: same_data_def)
qed

lemma mid_removed:
  assumes "mid F e C X fr st" "bins st' (fr(p := None))" "kept fr st st'"
  shows "mid F e C X (fr(p := None)) st'" "same_data F X C X C st st'"
proof -
  have fr: "q \<noteq> top_chunk st \<and> (\<exists>v. C q = Some (z, False, v))" if "fr q = Some z" for q z using that midD(6,7) [OF assms(1)] by blast
  have le: "fr q = Some z" if "(fr(p := None)) q = Some z" for q z using that by (simp split: if_splits)
  note mb = mid_bins [OF assms fr le]
  show "mid F e C X (fr(p := None)) st'" using mb(1) by blast
  show "same_data F X C X C st st'" unfolding same_data_def using mb(2) by blast
qed

lemma mid_unlink:
  assumes "mid F e C X fr st" "fr p = Some s"
  shows "\<exists>st'. unlink_chunk p s st = Inr st' \<and> mid F e C X (fr(p := None)) st' \<and> kept fr st st' \<and> same_data F X C X C st st'"
proof -
  note md = midD [OF assms(1)]
  have "\<exists>st'. unlink_chunk p s st = Inr st' \<and> bins st' (fr(p := None)) \<and> kept fr st st'"
    using unlink_small_spec [OF md(4) assms(2)] unlink_large_spec [OF md(4) assms(2)]
    unfolding unlink_chunk_def is_small_def by (cases "s < 256") auto
  then show ?thesis using mid_removed [OF assms(1)] by blast
qed

lemma mid_dv [simp]: "mid F e C X fr (st\<lparr>dvsize := x, dv := y\<rparr>) = mid F e C X fr st" "mid F e C X fr (st\<lparr>dv := y, dvsize := x\<rparr>) = mid F e C X fr st"
  "mid F e C X fr (st\<lparr>dvsize := x\<rparr>) = mid F e C X fr st" "mid F e C X fr (st\<lparr>trim_check := x\<rparr>) = mid F e C X fr st"
  "mid F e C X fr (st\<lparr>release_checks := x\<rparr>) = mid F e C X fr st"
  unfolding mid_def bins_def by simp_all

lemma mid_next:
  assumes "mid F e C X fr st" "C p = Some (s, u, v)" "p \<noteq> top_chunk st"
  obtains s' u' where "C (p + s) = Some (s', u', u)" "p + s \<noteq> p" "F < p + s"
  using assms shapeD(7,9,12) [OF midD(1) [OF assms(1)] assms(2)] by fastforce

lemma take_whole:
  assumes "mid F e C {} fr st" "C p = Some (s, False, True)" "p \<noteq> top_chunk st" "fr p = None" "C (p + s) = Some (s', True, False)"
    "st' = set_inuse_and_pinuse p s st" "C' = C(p \<mapsto> (s, True, True), p + s \<mapsto> (s', True, True))"
  shows "mid F e C' {} fr st' \<and> same_data F {} C {} C' st st'"
proof -
  note md = midD [OF assms(1)] and d = shapeD [OF midD(1) [OF assms(1)]]
  have ne: "p + s \<noteq> p" "p \<noteq> F" "p + s \<noteq> top_chunk st" "fr (p + s) = None"
    using d(7) [OF assms(2)] d(1) assms(2,5) mid_not_free(1,4) [OF assms(1)] by auto
  have sh: "shape F (top_chunk st) e C'" using shape_toggle [OF md(1) assms(2,3) ne(2) assms(5)] by (simp add: assms(7))
  note hs = headword_simps [OF d(8) [OF assms(2)]] headword_simps [OF d(8) [OF assms(5)]]
  have words: "words st' = (words st)(at p 8 := headword s True True, at (p + s) 8 := headword s' True True)"
    using ne mid_tags(1) [OF assms(1,5)] hs by (simp add: assms(6) set_inuse_and_pinuse_def set_pinuse_def tag_inject)
  have fields: "top_chunk st' = top_chunk st" "topsize st' = topsize st"
    by (simp_all add: assms(6) set_inuse_and_pinuse_def set_pinuse_def)
  show ?thesis
  proof (rule retag [OF assms(1), where H = "{p, p + s}"])
    show "tagword {p, p + s} C' (top_chunk st') a" if "words st' a \<noteq> words st a" for a
      using that ne tagwordI(1) [of _ "{p, p + s}" C'] unfolding words by (auto simp: assms(7) split: if_splits)
    have "tag_ok C' st' p" "tag_ok C' st' (p + s)"
      using tag_okI(1) [of C' p s True] tag_okI(1) [of C' "p + s" s' True] ne by (simp_all add: words assms(7) tag_inject)
    then show "tag_ok C' st' q" if "q \<in> {p, p + s}" for q using that by blast
  qed (use assms(3-5) ne sh md(5) fields in \<open>auto simp: assms(6,7) set_inuse_and_pinuse_def set_pinuse_def tag_inject\<close>)
qed

lemmas tag_writes = set_inuse_and_pinuse_def set_pinuse_def set_size_and_pinuse_of_free_chunk_def set_size_and_pinuse_of_inuse_chunk_def
  set_foot_def clear_pinuse_def set_free_with_pinuse_def set_inuse_def

text \<open>The front of a free chunk that is not in a bin is taken, the rest stays free.\<close>

lemma take_front:
  assumes "mid F e C {} fr st" "C p = Some (s, False, True)" "p \<noteq> top_chunk st" "fr p = None" "32 \<le> nb" "32 dvd nb" "nb + 32 \<le> s"
    "st' = set_size_and_pinuse_of_free_chunk (p + nb) (s - nb) (set_size_and_pinuse_of_inuse_chunk p nb st)"
    "C' = C(p \<mapsto> (nb, True, True), p + nb \<mapsto> (s - nb, False, True))"
  shows "mid F e C' {} fr st' \<and> same_data F {} C {} C' st st'"
proof -
  note md = midD [OF assms(1)] and d = shapeD [OF midD(1) [OF assms(1)]]
  have new: "C (p + nb) = None"
  proof (rule ccontr)
    assume "C (p + nb) \<noteq> None"
    then show False using d(13) [OF assms(2), of "p + nb"] assms(5,7) by auto
  qed
  have ne: "p + nb \<noteq> p" "p \<noteq> F" "p + nb \<noteq> top_chunk st" "fr (p + nb) = None"
    using assms(2,5) d(1) new md(5) mid_not_free(2) [OF assms(1)] by auto
  have sh: "shape F (top_chunk st) e C'" using shape_split [OF md(1) assms(2) ne(2) assms(5-7), of True] assms(3) by (simp add: assms(9))
  have "32 dvd s - nb" using d(8) [OF assms(2)] assms(6) by simp
  note hs = headword_simps [OF this] headword_simps [OF assms(6)]
  have cells: "at p 8 \<noteq> at (p + s) 0" "at (p + nb) 8 \<noteq> at (p + s) 0"
    using assms(5,7) d(10) [OF assms(2)] d(8) [OF assms(2)] assms(6) by (auto simp: at_def)
  have eq: "p + nb + (s - nb) = p + s" using assms(7) by simp
  have words: "words st' = (words st)(at p 8 := headword nb True True, at (p + nb) 8 := headword (s - nb) False True, at (p + s) 0 := s - nb)"
    using hs by (simp add: assms(8) tag_writes eq)
  have C': "C' p = Some (nb, True, True)" "C' (p + nb) = Some (s - nb, False, True)" using assms(5) by (auto simp: assms(9))
  have fields: "top_chunk st' = top_chunk st" "topsize st' = topsize st" by (simp_all add: assms(8) tag_writes)
  have tw: "tagword {p, p + nb} C' (top_chunk st) (at p 8)" "tagword {p, p + nb} C' (top_chunk st) (at (p + nb) 8)"
    "tagword {p, p + nb} C' (top_chunk st) (at (p + s) 0)"
    using tagwordI(1) [of p _ C'] tagwordI(1) [of "p + nb" _ C'] tagwordI(2) [of "p + nb" _ C' "s - nb" True "top_chunk st"] C' ne by (auto simp: eq)
  show ?thesis
  proof (rule retag [OF assms(1), where H = "{p, p + nb}"])
    show "tagword {p, p + nb} C' (top_chunk st') a" if "words st' a \<noteq> words st a" for a
      using that tw unfolding words fields by (auto split: if_splits)
    have "tag_ok C' st' p" "tag_ok C' st' (p + nb)"
      using tag_okI(1) [of C' p nb True st'] tag_okI(2) [of C' "p + nb" "s - nb" True st'] C' ne cells unfolding words by (simp_all add: tag_inject eq)
    then show "tag_ok C' st' q" if "q \<in> {p, p + nb}" for q using that by blast
  qed (use assms(3-5) ne sh md(5) fields in \<open>auto simp: assms(8,9) tag_writes\<close>)
qed

lemma take_top:
  assumes "mid F e C {} fr st" "p = top_chunk st" "32 \<le> nb" "32 dvd nb" "nb + 32 \<le> topsize st"
    "st' = set_size_and_pinuse_of_inuse_chunk p nb (poke (at (p + nb) 8) (topsize st - nb OR 1) (st\<lparr>topsize := topsize st - nb, top_chunk := p + nb\<rparr>))"
    "C' = C(p \<mapsto> (nb, True, True), p + nb \<mapsto> (topsize st - nb, False, True))"
  shows "mid F e C' {} fr st' \<and> same_data F {} C {} C' st st'"
proof -
  note md = midD [OF assms(1)] and d = shapeD [OF midD(1) [OF assms(1)]]
  note c = md(5) [folded assms(2)]
  have new: "C (p + nb) = None"
  proof (rule ccontr)
    assume "C (p + nb) \<noteq> None"
    then show False using d(13) [OF c, of "p + nb"] assms(3,5) by auto
  qed
  have ne: "p + nb \<noteq> p" "p \<noteq> F" "fr (p + nb) = None" "fr p = None"
    using assms(3) d(1) c new mid_not_free(2,3) [OF assms(1)] assms(2) by auto
  have sh: "shape F (p + nb) e C'" using shape_split [OF md(1) c ne(2) assms(3-5), of True] assms(2) by (simp add: assms(7))
  have "32 dvd topsize st - nb" using d(8) [OF c] assms(4) by simp
  note hs = headword_simps [OF this] headword_simps [OF assms(4)]
  have words: "words st' = (words st)(at (p + nb) 8 := headword (topsize st - nb) False True, at p 8 := headword nb True True)"
    using hs by (simp add: assms(6) tag_writes)
  have C': "C' p = Some (nb, True, True)" "C' (p + nb) = Some (topsize st - nb, False, True)" using assms(3) by (auto simp: assms(7))
  have fields: "top_chunk st' = p + nb" "topsize st' = topsize st - nb" by (simp_all add: assms(6) tag_writes)
  have tw: "tagword {p, p + nb} C' (p + nb) (at p 8)" "tagword {p, p + nb} C' (p + nb) (at (p + nb) 8)"
    using tagwordI(1) [of p _ C'] tagwordI(1) [of "p + nb" _ C'] C' by auto
  show ?thesis
  proof (rule retag [OF assms(1), where H = "{p, p + nb}"])
    show "tagword {p, p + nb} C' (top_chunk st') a" if "words st' a \<noteq> words st a" for a
      using that tw unfolding words fields by (auto split: if_splits)
    have "tag_ok C' st' p" "tag_ok C' st' (p + nb)"
      using tag_okI(1) [of C' p nb True st'] tag_okI(2) [of C' "p + nb" "topsize st - nb" True st'] C' ne fields
      unfolding words by (simp_all add: tag_inject)
    then show "tag_ok C' st' q" if "q \<in> {p, p + nb}" for q using that by blast
  qed (use assms(2) ne sh C' fields in \<open>auto simp: assms(6,7) tag_writes\<close>)
qed

text \<open>A chunk is taken up, on its own or together with the free chunk before it.\<close>

lemma take_up:
  assumes "mid F e C {} fr st" "C p = Some (s, True, v)"
  shows "mid F e C {p} fr st"
  using assms unfolding mid_def tagged_def by auto

lemma take_up_both:
  assumes "mid F e C {} fr st" "C q = Some (s1, False, v)" "q \<noteq> top_chunk st" "fr q = None" "C (q + s1) = Some (s2, True, False)"
    "C' = C(q \<mapsto> (s1 + s2, True, v), q + s1 := None)"
  shows "mid F e C' {q} fr st \<and> same_data F {} C {q} C' st st"
proof -
  note md = midD [OF assms(1)] and d = shapeD [OF midD(1) [OF assms(1)]]
  have ne: "q + s1 \<noteq> q" "q \<noteq> F" "q + s1 \<noteq> top_chunk st" "fr (q + s1) = None"
    using d(7) [OF assms(2)] d(1) assms(2,5) mid_not_free(1,4) [OF assms(1)] by auto
  have sh: "shape F (top_chunk st) e C'" using shape_merge [OF md(1) assms(2) ne(2) assms(3,5)] ne(3) by (simp add: assms(6))
  show ?thesis
    by (rule retag [OF assms(1), where H = "{q, q + s1}"])
      (use assms(3,4) ne sh md(5) in \<open>auto simp: assms(6) intro: tag_okI\<close>)
qed

text \<open>A chunk that was taken up is freed.\<close>

lemma give_free:
  assumes "mid F e C {p} fr st" "C p = Some (s, True, True)" "p \<noteq> F" "n = p + s" "C n = Some (s', True, True)"
    "st' = set_free_with_pinuse p s n st" "C' = C(p \<mapsto> (s, False, True), n \<mapsto> (s', True, False))"
  shows "mid F e C' {} fr st' \<and> same_data F {p} C {} C' st st'"
proof -
  note md = midD [OF assms(1)] and d = shapeD [OF midD(1) [OF assms(1)]]
  have ne: "n \<noteq> p" "p \<noteq> top_chunk st" "n \<noteq> top_chunk st" "fr n = None" "fr p = None"
    using d(7) [OF assms(2)] assms(2,4,5) md(5) mid_not_free(1) [OF assms(1)] by auto
  have sh: "shape F (top_chunk st) e C'"
    using shape_toggle [OF md(1) assms(2) ne(2) assms(3), of s' True False] assms(5) by (simp add: assms(4,7))
  note hs = headword_simps [OF d(8) [OF assms(2)]] headword_simps [OF d(8) [OF assms(5)]]
  have "n \<notin> {p}" using ne by simp
  note hn = mid_tags(1) [OF assms(1,5) this]
  have words: "words st' = (words st)(at n 8 := headword s' True False, at p 8 := headword s False True, at n 0 := s)"
    using ne hn hs by (simp add: assms(6) tag_writes flip: assms(4))
  have cells: "at p 8 \<noteq> at n 0" "at n 8 \<noteq> at n 0" using tag_cells(1) d(10) [OF assms(2)] d(10) [OF assms(5)] by blast+
  have C': "C' p = Some (s, False, True)" "C' n = Some (s', True, False)" using ne by (auto simp: assms(7))
  have fields: "top_chunk st' = top_chunk st" "topsize st' = topsize st" by (simp_all add: assms(6) tag_writes)
  have tw: "tagword {p, n} C' (top_chunk st) (at p 8)" "tagword {p, n} C' (top_chunk st) (at n 8)" "tagword {p, n} C' (top_chunk st) (at n 0)"
    using tagwordI(1) [of p _ C'] tagwordI(1) [of n _ C'] tagwordI(2) [of p _ C' s True "top_chunk st"] C' ne by (auto simp flip: assms(4))
  show ?thesis
  proof (rule retag [OF assms(1), where H = "{p, n}"])
    show "tagword {p, n} C' (top_chunk st') a" if "words st' a \<noteq> words st a" for a
      using that tw unfolding words fields by (auto split: if_splits)
    have "tag_ok C' st' p" "tag_ok C' st' n"
      using tag_okI(1) [of C' n s' False st'] tag_okI(2) [of C' p s True st'] C' ne fields cells
      unfolding words by (simp_all add: tag_inject flip: assms(4))
    then show "tag_ok C' st' q" if "q \<in> {p, n}" for q using that by blast
  qed (use ne sh md(5) fields in \<open>auto simp: assms(6,7) tag_writes\<close>)
qed

lemma give_next:
  assumes "mid F e C {p} fr st" "C p = Some (s, True, True)" "p \<noteq> F" "n = p + s" "C n = Some (s', False, True)" "n \<noteq> top_chunk st" "fr n = None"
    "st' = set_size_and_pinuse_of_free_chunk p (s + s') st" "C' = C(p \<mapsto> (s + s', False, True), n := None)"
  shows "mid F e C' {} fr st' \<and> same_data F {p} C {} C' st st'"
proof -
  note md = midD [OF assms(1)] and d = shapeD [OF midD(1) [OF assms(1)]]
  have ne: "n \<noteq> p" "p \<noteq> top_chunk st" "fr p = None"
    using d(7) [OF assms(2)] assms(2,4) md(5) mid_not_free(1) [OF assms(1)] by auto
  have sh: "shape F (top_chunk st) e C'"
    using shape_merge [OF md(1) assms(2,3) ne(2), of s' False True] assms(5,6) by (simp add: assms(4,9))
  have dv: "32 dvd s + s'" using d(8) [OF assms(2)] d(8) [OF assms(5)] by simp
  have words: "words st' = (words st)(at p 8 := headword (s + s') False True, at (p + (s + s')) 0 := s + s')"
    using headword_simps(1) [OF dv] by (simp add: assms(8) tag_writes)
  have "(p + (s + s')) mod 32 = 16" using d(10) [OF assms(2)] dv by (auto elim!: dvdE)
  then have cells: "at p 8 \<noteq> at (p + (s + s')) 0" using tag_cells(1) d(10) [OF assms(2)] by blast
  have C': "C' p = Some (s + s', False, True)" "C' n = None" using ne by (auto simp: assms(9))
  have fields: "top_chunk st' = top_chunk st" "topsize st' = topsize st" by (simp_all add: assms(8) tag_writes)
  have tw: "tagword {p, n} C' (top_chunk st) (at p 8)" "tagword {p, n} C' (top_chunk st) (at (p + (s + s')) 0)"
    using tagwordI(1) [of p _ C'] tagwordI(2) [of p _ C' "s + s'" True "top_chunk st"] C' ne by auto
  show ?thesis
  proof (rule retag [OF assms(1), where H = "{p, n}"])
    show "tagword {p, n} C' (top_chunk st') a" if "words st' a \<noteq> words st a" for a
      using that tw unfolding words fields by (auto split: if_splits)
    have "tag_ok C' st' p" "tag_ok C' st' n"
      using tag_okI(3) [of C' n st'] tag_okI(2) [of C' p "s + s'" True st'] C' ne fields cells
      unfolding words by (simp_all add: tag_inject)
    then show "tag_ok C' st' q" if "q \<in> {p, n}" for q using that by blast
  qed (use ne sh md(5) fields assms(6,7) in \<open>auto simp: assms(8,9) tag_writes\<close>)
qed

lemma give_top:
  assumes "mid F e C {p} fr st" "C p = Some (s, True, True)" "p \<noteq> F" "p + s = top_chunk st"
    "st' = poke (at p 8) (topsize st + s OR 1) (st\<lparr>topsize := topsize st + s, top_chunk := p\<rparr>)"
    "C' = C(p \<mapsto> (s + topsize st, False, True), p + s := None)"
  shows "mid F e C' {} fr st' \<and> same_data F {p} C {} C' st st'"
proof -
  note md = midD [OF assms(1)] and d = shapeD [OF midD(1) [OF assms(1)]]
  note c = md(5) [folded assms(4)]
  have ne: "p + s \<noteq> p" "p \<noteq> top_chunk st" "fr p = None" "fr (p + s) = None"
    using d(7) [OF assms(2)] assms(2,4) md(5) mid_not_free(1,3) [OF assms(1)] by auto
  have sh: "shape F p e C'"
    using shape_merge [OF md(1) assms(2,3) ne(2) c] assms(4) by (simp add: assms(6))
  have dv: "32 dvd topsize st + s" using d(8) [OF assms(2)] d(8) [OF c] by simp
  have words: "words st' = (words st)(at p 8 := headword (topsize st + s) False True)"
    using headword_simps(1) [OF dv] by (simp add: assms(5))
  have C': "C' p = Some (topsize st + s, False, True)" "C' (p + s) = None" using ne by (auto simp: assms(6))
  have fields: "top_chunk st' = p" "topsize st' = topsize st + s" by (simp_all add: assms(5))
  have tw: "tagword {p, p + s} C' p (at p 8)" using tagwordI(1) [of p _ C'] C' by auto
  show ?thesis
  proof (rule retag [OF assms(1), where H = "{p, p + s}"])
    show "tagword {p, p + s} C' (top_chunk st') a" if "words st' a \<noteq> words st a" for a
      using that tw unfolding words fields by (auto split: if_splits)
    have "tag_ok C' st' p" "tag_ok C' st' (p + s)"
      using tag_okI(3) [of C' "p + s" st'] tag_okI(2) [of C' p "topsize st + s" True st'] C' fields unfolding words by simp_all
    then show "tag_ok C' st' q" if "q \<in> {p, p + s}" for q using that by blast
  qed (use ne sh fields C' assms(4) in \<open>auto simp: assms(5,6)\<close>)
qed

end
