(* ===== verification/DlWalk.thy ===== *)
theory DlWalk
  imports DlOps
begin

text \<open>
  Searching the bins: the operations on the bit maps find the lowest bit, and the walks down the trees end within their fuel and
  return a chunk that is large enough, if there is one.
\<close>

section \<open>Bit maps\<close>

lemma lowest_bit:
  assumes "bit x i" "\<And>j. j < i \<Longrightarrow> \<not> bit x j"
  shows "bit (least_bit x) j \<longleftrightarrow> j = i \<and> bit (least_bit x) i \<or> i < j \<and> bit (least_bit x) j" "bit (least_bit x) i"
proof -
  have i: "i < 32" using assms(1) bit_imp_le_length by fastforce
  have t: "take_bit (Suc i) (uint x) = 2 ^ i"
    by (rule bit_eqI) (use assms i in \<open>auto simp: bit_take_bit_iff bit_exp_iff bit_uint_iff less_Suc_eq\<close>)
  have "- x = word_of_int (- uint x)" by simp
  moreover have "bit (word_of_int k :: u32) i = bit k i" for k using i by (simp add: bit_word_of_int_iff)
  ultimately have "bit (- x) i = bit (- uint x) i" by metis
  also have "\<dots> = bit (take_bit (Suc i) (- uint x)) i" by (simp add: bit_take_bit_iff)
  also have "\<dots> = bit (take_bit (Suc i) (- (2 ^ i :: int))) i" using take_bit_minus [of "Suc i" "uint x"] t by metis
  also have "\<dots>" by (simp add: bit_take_bit_iff bit_minus_exp_iff)
  finally show "bit (least_bit x) i" using assms(1) by (simp add: least_bit_def bit_and_iff)
  show "bit (least_bit x) j \<longleftrightarrow> j = i \<and> bit (least_bit x) i \<or> i < j \<and> bit (least_bit x) j"
    using assms(2) by (cases j i rule: linorder_cases) (auto simp: least_bit_def bit_and_iff)
qed

lemma first_bit:
  assumes "x \<noteq> 0" "i = compute_bit2idx (least_bit x)"
  shows "i < 32" "bit x i" "\<And>j. bit x j \<Longrightarrow> i \<le> j"
proof -
  obtain k where k: "bit x k" using assms(1) by (auto simp: bit_eq_iff)
  define l where "l = (LEAST l. bit x l)"
  have l: "bit x l" "\<And>j. j < l \<Longrightarrow> \<not> bit x j" unfolding l_def using LeastI [of "bit x", OF k] not_less_Least by blast+
  have l32: "l < 32" using l(1) bit_imp_le_length by fastforce
  note low = lowest_bit [OF l]
  have "[0..<32] = [0..<l] @ l # [Suc l..<32]"
    using l32 upt_add_eq_append [of 0 l "32 - l"] upt_conv_Cons [of l 32] by simp
  moreover have "takeWhile (\<lambda>i. \<not> bit (least_bit x) i) ([0..<l] @ l # [Suc l..<32]) = [0..<l]"
  proof -
    have "\<not> bit (least_bit x) j" if "j \<in> set [0..<l]" for j using that low(1) [of j] by auto
    then have "takeWhile (\<lambda>i. \<not> bit (least_bit x) i) ([0..<l] @ l # [Suc l..<32]) = [0..<l] @ takeWhile (\<lambda>i. \<not> bit (least_bit x) i) (l # [Suc l..<32])"
      by (rule takeWhile_append2)
    then show ?thesis using low(2) by simp
  qed
  ultimately have "i = l" by (simp add: assms(2) compute_bit2idx_def)
  then show "i < 32" "bit x i" "\<And>j. bit x j \<Longrightarrow> i \<le> j" using l l32 by (auto simp: not_less [symmetric])
qed

lemma left_bits_bit:
  assumes "i < 32"
  shows "bit (left_bits (idx2bit i)) j \<longleftrightarrow> i < j \<and> j < 32"
proof -
  have e: "push_bit 1 (idx2bit i) = (2 ^ Suc i :: u32)" by (simp add: idx2bit_def push_bit_eq_mult mult.commute)
  show ?thesis
    unfolding left_bits_def e using assms by (auto simp: bit_or_iff bit_exp_iff bit_minus_exp_iff simp del: power_Suc)
qed

section \<open>Soundness of the walks\<close>

definition found :: "(nat \<rightharpoonup> nat) \<Rightarrow> nat set \<Rightarrow> nat \<Rightarrow> nat \<Rightarrow> nat \<Rightarrow> nat \<Rightarrow> bool" where
  "found fr N nb r0 v r \<longleftrightarrow> v = 0 \<and> r = r0 \<or> v \<in> N \<and> (\<exists>s. fr v = Some s \<and> r = minus64 s nb \<and> r < r0)"

lemma smallest_walk_spec:
  assumes "tree_ok M tm m fr N cl lo lv" "apart M fr" "sized st fr" "words st = m"
  shows "t = 0 \<and> 0 < fuel \<or> t \<in> N \<and> lv t + 1 < fuel \<Longrightarrow> found fr N nb r0 v r \<Longrightarrow>
    \<exists>v' r'. smallest_walk fuel nb t v r st = Inr (v', r') \<and> found fr N nb r0 v' r' \<and> r' \<le> r \<and> (v \<noteq> 0 \<longrightarrow> v' \<noteq> 0) \<and>
      (t \<noteq> 0 \<longrightarrow> r' \<le> minus64 (the (fr t)) nb)"
proof (induction fuel arbitrary: t v r)
  case (Suc fuel)
  show ?case
  proof (cases "t = 0")
    case False
    then have t: "t \<in> N" "lv t < fuel" using Suc.prems(1) by auto
    obtain s where s: "fr t = Some s" "t \<noteq> 0" using nodeD [OF assms(1,2) t(1)] by metis
    have size: "chunksize st t = s" using assms(3) s(1) by (simp add: sized_def)
    define c where "c = leftmost_child st t"
    have c: "c = 0 \<and> 0 < fuel \<or> c \<in> N \<and> lv c + 1 < fuel"
    proof (cases "c = 0")
      case cz: False
      obtain b :: nat where b: "b \<in> {0, 1}" "m (at t (32 + 8 * b)) = c"
      proof (cases "m (at t 32) = 0")
        case True
        then show ?thesis using that [of 1] assms(4) by (simp add: c_def leftmost_child_def)
      next
        case False
        then show ?thesis using that [of 0] assms(4) by (simp add: c_def leftmost_child_def)
      qed
      then show ?thesis using childD [OF assms(1) t(1) b cz] t(2) by simp
    qed (use t(2) in simp)
    define v1 r1 where "v1 = (if minus64 s nb < r then t else v)" and "r1 = (if minus64 s nb < r then minus64 s nb else r)"
    have f: "found fr N nb r0 v1 r1"
      using Suc.prems(2) t(1) s by (auto simp: found_def v1_def r1_def)
    have le: "r1 \<le> r" "r1 \<le> minus64 s nb" "v \<noteq> 0 \<longrightarrow> v1 \<noteq> 0" using s(2) by (auto simp: r1_def v1_def)
    obtain v' r' where w: "smallest_walk fuel nb c v1 r1 st = Inr (v', r')" "found fr N nb r0 v' r'" "r' \<le> r1" "v1 \<noteq> 0 \<longrightarrow> v' \<noteq> 0"
      using Suc.IH [OF c f] by blast
    have "smallest_walk (Suc fuel) nb t v r st = smallest_walk fuel nb c v1 r1 st"
      using False by (simp add: size Let_def c_def v1_def r1_def)
    then show ?thesis using w le s(1) by (intro exI [of _ v'] exI [of _ r']) auto
  qed (use Suc.prems(2) in auto)
qed simp

lemma best_walk_sound:
  assumes "tree_ok M tm m fr N cl lo lv" "apart M fr" "sized st fr" "words st = m"
  shows "t \<in> N \<Longrightarrow> lv t < fuel \<Longrightarrow> sb < 2 ^ 64 \<Longrightarrow> found fr N nb r0 v r \<Longrightarrow> rst = 0 \<or> rst \<in> N \<Longrightarrow>
    \<exists>t' v' r'. best_walk fuel nb t sb v r rst st = Inr (t', v', r') \<and> found fr N nb r0 v' r' \<and> (t' = 0 \<or> t' \<in> N)"
proof (induction fuel arbitrary: t sb v r rst)
  case (Suc fuel)
  obtain s where s: "fr t = Some s" "t \<noteq> 0" using nodeD [OF assms(1,2) Suc.prems(1)] by metis
  have size: "chunksize st t = s" using assms(3) s(1) by (simp add: sized_def)
  define v1 r1 where "v1 = (if minus64 s nb < r then t else v)" and "r1 = (if minus64 s nb < r then minus64 s nb else r)"
  have f: "found fr N nb r0 v1 r1" using Suc.prems(1,4) s by (auto simp: found_def v1_def r1_def)
  define b t' where "b = sb div 2 ^ 63" and "t' = m (at t (32 + 8 * b))"
  define rst' where "rst' = (if m (at t 40) \<noteq> 0 \<and> m (at t 40) \<noteq> t' then m (at t 40) else rst)"
  have b: "b \<in> {0, 1}"
  proof -
    have "b < 2" using Suc.prems(3) by (simp add: b_def less_mult_imp_div_less)
    then show ?thesis by auto
  qed
  have r': "rst' = 0 \<or> rst' \<in> N"
    using Suc.prems(5) childD(1) [OF assms(1) Suc.prems(1), of 1] by (auto simp: rst'_def)
  have run: "best_walk (Suc fuel) nb t sb v r rst st = (if minus64 s nb < r \<and> minus64 s nb = 0 then Inr (t, v1, r1)
     else if t' = 0 then Inr (rst', v1, r1) else best_walk fuel nb t' (2 * sb mod 2 ^ 64) v1 r1 rst' st)"
    by (simp add: size assms(4) Let_def v1_def r1_def b_def t'_def rst'_def)
  show ?case
  proof (cases "t' = 0 \<or> minus64 s nb < r \<and> minus64 s nb = 0")
    case False
    have "t' \<in> N" "lv t' < fuel" using childD [OF assms(1) Suc.prems(1) b t'_def [symmetric]] False Suc.prems(2) by auto
    from Suc.IH [OF this _ f r', of "2 * sb mod 2 ^ 64"] show ?thesis unfolding run using False by auto
  qed (use run f r' Suc.prems(1) in auto)
qed simp

section \<open>Completeness of the walks\<close>

inductive under :: "(nat \<Rightarrow> nat) \<Rightarrow> nat \<Rightarrow> nat \<Rightarrow> bool" for m where
  under_self: "under m x x"
| under_step: "b \<in> {0, 1} \<Longrightarrow> m (at x (32 + 8 * b)) = c \<Longrightarrow> c \<noteq> 0 \<Longrightarrow> under m c y \<Longrightarrow> under m x y"

lemma under_child:
  assumes "under m x p" "b \<in> {0, 1}" "m (at p (32 + 8 * b)) = c" "c \<noteq> 0"
  shows "under m x c"
  using assms
proof induction
  case (under_self x)
  then show ?case using under.under_step under.under_self by metis
qed (rule under.under_step)

lemma under_interval:
  assumes "tree_ok M tm m fr N cl lo lv"
  shows "under m x y \<Longrightarrow> x \<in> N \<Longrightarrow> y \<in> N \<and> lo x \<le> lo y \<and> lo y + 2 ^ lv y \<le> lo x + 2 ^ lv x"
proof (induction rule: under.induct)
  case (under_step b x c y)
  note c = childD [OF assms under_step.prems under_step.hyps(1-3)]
  have "b * 2 ^ lv c + 2 ^ lv c \<le> 2 ^ lv x" using under_step.hyps(1) c(4) by auto
  then show ?case using under_step.IH [OF c(1)] c(5) by auto
qed simp

lemma under_root:
  assumes "tree_ok M tm m fr N cl lo lv" "apart M fr"
  shows "y \<in> N \<Longrightarrow> m (tbin M (m (at y 56))) \<noteq> 0 \<and> under m (m (tbin M (m (at y 56)))) y"
proof (induction "64 - lv y" arbitrary: y rule: less_induct)
  case (less y)
  obtain "parent_ok M m N lo lv y" "y \<noteq> 0" using nodeD [OF assms less.prems] by metis
  show ?case
  proof (cases "m (tbin M (m (at y 56))) = y")
    case False
    then have p: "m (at y 48) \<in> N" "m (at (m (at y 48)) 32) = y \<or> m (at (m (at y 48)) 40) = y"
      using \<open>parent_ok M m N lo lv y\<close> by (auto simp: parent_ok_def Let_def)
    then obtain b :: nat where b: "b \<in> {0, 1}" "m (at (m (at y 48)) (32 + 8 * b)) = y"
    proof (cases "m (at (m (at y 48)) 32) = y")
      case True
      then show ?thesis using that [of 0] by simp
    next
      case False
      then show ?thesis using that [of 1] p(2) by simp
    qed
    note c = childD [OF assms(1) p(1) b \<open>y \<noteq> 0\<close>]
    have "lv (m (at y 48)) \<le> 64" using nodeD [OF assms p(1)] by metis
    then have "64 - lv (m (at y 48)) < 64 - lv y" using c(4) by simp
    from less.hyps [OF this p(1)] show ?thesis using under_child [of m _ "m (at y 48)" b y] b \<open>y \<noteq> 0\<close> c(3) by metis
  qed (use \<open>y \<noteq> 0\<close> in \<open>simp add: under_self\<close>)
qed

lemma minus64_le: "b \<le> a \<Longrightarrow> a < 2 ^ 64 \<Longrightarrow> minus64 a b = a - b"
  unfolding minus64_def by (metis Nat.add_diff_assoc2 diff_less_mono2 less_imp_diff_less mod_add_self2 mod_less)

lemma fits: "s < 2 ^ 63 \<Longrightarrow> 0 < nb \<Longrightarrow> nb < 2 ^ 64 \<Longrightarrow> minus64 s nb < minus64 0 nb \<longleftrightarrow> nb \<le> s" "s < 2 ^ 63 \<Longrightarrow> nb \<le> s \<Longrightarrow> minus64 s nb = s - nb"
proof -
  show e: "s < 2 ^ 63 \<Longrightarrow> nb \<le> s \<Longrightarrow> minus64 s nb = s - nb" by (simp add: minus64_le)
  assume "s < 2 ^ 63" "0 < nb" "nb < 2 ^ 64"
  moreover have "minus64 0 nb = 2 ^ 64 - nb" using calculation by (simp add: minus64_def)
  moreover have "minus64 s nb = s + 2 ^ 64 - nb" if "\<not> nb \<le> s" using that calculation by (simp add: minus64_def)
  ultimately show "minus64 s nb < minus64 0 nb \<longleftrightarrow> nb \<le> s" using e by (cases "nb \<le> s") auto
qed

lemma best_walk_complete:
  assumes "tree_ok M tm m fr N cl lo lv" "apart M fr" "sized st fr" "words st = m" "0 < nb" "nb < 2 ^ 64" "r0 = minus64 0 nb"
  shows "t \<in> N \<Longrightarrow> lv t < fuel \<Longrightarrow> lo t \<le> nb \<Longrightarrow> nb < lo t + 2 ^ lv t \<Longrightarrow> sb = nb * 2 ^ (64 - lv t) mod 2 ^ 64 \<Longrightarrow> found fr N nb r0 v r \<Longrightarrow>
    rst = 0 \<or> rst \<in> N \<and> nb \<le> lo rst \<Longrightarrow> best_walk fuel nb t sb v r rst st = Inr (t', v', r') \<Longrightarrow>
    (t' \<noteq> 0 \<longrightarrow> v' \<noteq> 0 \<or> nb \<le> lo t') \<and> (v \<noteq> 0 \<longrightarrow> v' \<noteq> 0) \<and> (rst \<noteq> 0 \<longrightarrow> t' \<noteq> 0) \<and>
    (t' = 0 \<longrightarrow> v' = 0 \<longrightarrow> (\<forall>y s. under m t y \<longrightarrow> fr y = Some s \<longrightarrow> s < nb))"
proof (induction fuel arbitrary: t sb v r rst)
  case (Suc fuel)
  obtain s where s: "fr t = Some s" "t \<noteq> 0" "2 ^ lv t dvd lo t" "lv t \<le> 64" using nodeD [OF assms(1,2) Suc.prems(1)] by metis
  have s63: "s < 2 ^ 63" using apartD(5) [OF assms(2) s(1)] by simp
  have size: "chunksize st t = s" using assms(3) s(1) by (simp add: sized_def)
  define v1 r1 where "v1 = (if minus64 s nb < r then t else v)" and "r1 = (if minus64 s nb < r then minus64 s nb else r)"
  have f: "found fr N nb r0 v1 r1" using Suc.prems(1,6) s by (auto simp: found_def v1_def r1_def)
  have small: "s < nb" if "v1 = 0"
  proof -
    have "v = 0" "\<not> minus64 s nb < r" using that s(2) by (auto simp: v1_def split: if_splits)
    moreover have "r = r0" using Suc.prems(6) calculation nodeD [OF assms(1,2)] by (metis found_def)
    ultimately show ?thesis using fits(1) [OF s63 assms(5,6)] assms(7) by auto
  qed
  define b c where "b = sb div 2 ^ 63" and "c = m (at t (32 + 8 * b))"
  define rst' where "rst' = (if m (at t 40) \<noteq> 0 \<and> m (at t 40) \<noteq> c then m (at t 40) else rst)"
  have run: "best_walk (Suc fuel) nb t sb v r rst st = (if minus64 s nb < r \<and> minus64 s nb = 0 then Inr (t, v1, r1)
     else if c = 0 then Inr (rst', v1, r1) else best_walk fuel nb c (2 * sb mod 2 ^ 64) v1 r1 rst' st)"
    by (simp add: size assms(4) Let_def v1_def r1_def b_def c_def rst'_def)
  have vv: "v \<noteq> 0 \<longrightarrow> v1 \<noteq> 0" using s(2) by (simp add: v1_def)
  show ?case
  proof (cases "minus64 s nb < r \<and> minus64 s nb = 0")
    case True
    then have "t' = t" "v' = v1" "v1 = t" using Suc.prems(8) run by (auto simp: v1_def)
    then show ?thesis using s(2) by simp
  next
    case False
    have kids: "\<exists>j. lv t = Suc j \<and> j = lv d \<and> d \<in> N \<and> lo d = lo t + g * 2 ^ j" if "g \<in> {0, 1}" "m (at t (32 + 8 * g)) = d" "d \<noteq> 0" for g d
      using childD [OF assms(1) Suc.prems(1) that] by auto
    have b: "b \<in> {0, 1}" "\<And>j. lv t = Suc j \<Longrightarrow> b = 0 \<Longrightarrow> nb < lo t + 2 ^ j" "\<And>j. lv t = Suc j \<Longrightarrow> b = 1 \<Longrightarrow> lo t + 2 ^ j \<le> nb"
    proof -
      have "sb < 2 ^ 64" using Suc.prems(5) by simp
      then have "b < 2" by (simp add: b_def less_mult_imp_div_less)
      then show "b \<in> {0, 1}" by auto
      fix j assume j: "lv t = Suc j"
      have "b = nb div 2 ^ j mod 2" using top_bit [of j nb] j s(4) Suc.prems(5) by (simp add: b_def)
      note h = half [OF s(3) [unfolded j] Suc.prems(3) Suc.prems(4) [unfolded j] this]
      show "b = 0 \<Longrightarrow> nb < lo t + 2 ^ j" "b = 1 \<Longrightarrow> lo t + 2 ^ j \<le> nb" using h by auto
    qed
    have rst': "rst' = 0 \<or> rst' \<in> N \<and> nb \<le> lo rst'"
    proof (cases "m (at t 40) \<noteq> 0 \<and> m (at t 40) \<noteq> c")
      case True
      then have "b = 0" using b(1) by (auto simp: c_def)
      then show ?thesis using kids [of 1 "m (at t 40)"] b(2) True by (auto simp: rst'_def)
    qed (use Suc.prems(7) in \<open>auto simp: rst'_def\<close>)
    have keep: "rst' \<noteq> 0" if "rst \<noteq> 0 \<or> b = 0 \<and> m (at t 40) \<noteq> 0"
    proof -
      have "m (at t 40) \<noteq> c" if "b = 0" "m (at t 40) \<noteq> 0"
        using kids [of 0 c] kids [of 1 "m (at t 40)"] that by (auto simp: c_def)
      then show ?thesis using that by (auto simp: rst'_def)
    qed
    have rest: "z < nb" if y: "under m t y" "fr y = Some z" and "v1 = 0" "rst' = 0" and path: "\<And>y z. c \<noteq> 0 \<Longrightarrow> under m c y \<Longrightarrow> fr y = Some z \<Longrightarrow> z < nb" for y z
      using y(1)
    proof cases
      case under_self
      then show ?thesis using small [OF \<open>v1 = 0\<close>] s(1) y(2) by simp
    next
      case (under_step g d)
      show ?thesis
      proof (cases "g = b")
        case True
        then show ?thesis using path [of y z] under_step y(2) by (simp add: c_def)
      next
        case gb: False
        obtain j where j: "lv t = Suc j" "j = lv d" "d \<in> N" "lo d = lo t + g * 2 ^ j" using kids [OF under_step(1-3)] by blast
        have "g = 0" "b = 1" using gb under_step(1-3) b(1) keep \<open>rst' = 0\<close> by auto
        then have "lo d + 2 ^ lv d \<le> nb" using b(3) [OF j(1)] j by simp
        moreover obtain "y \<in> N" "lo y + 2 ^ lv y \<le> lo d + 2 ^ lv d" using under_interval [OF assms(1) under_step(4) j(3)] by blast
        moreover have "z < lo y + 2 ^ lv y" using nodeD [OF assms(1,2) \<open>y \<in> N\<close>] y(2) by (metis option.inject)
        ultimately show ?thesis by linarith
      qed
    qed
    show ?thesis
    proof (cases "c = 0")
      case True
      then have "t' = rst'" "v' = v1" using Suc.prems(8) run False by auto
      then show ?thesis using rst' vv keep rest True by blast
    next
      case c: False
      then obtain j where j: "lv t = Suc j" "j = lv c" "c \<in> N" "lo c = lo t + b * 2 ^ j" using kids [OF b(1) c_def [symmetric]] by blast
      have iv: "lo c \<le> nb" "nb < lo c + 2 ^ lv c" using b(1) b(2,3) [OF j(1)] Suc.prems(3,4) j by auto
      have sb: "2 * sb mod 2 ^ 64 = nb * 2 ^ (64 - lv c) mod 2 ^ 64"
      proof -
        have "64 - lv c = Suc (64 - lv t)" using j(1,2) s(4) by simp
        then show ?thesis using Suc.prems(5) by (simp add: mod_mult_right_eq mult.left_commute)
      qed
      have lt: "lv c < fuel" using j Suc.prems(2) by simp
      have "best_walk fuel nb c (2 * sb mod 2 ^ 64) v1 r1 rst' st = Inr (t', v', r')" using Suc.prems(8) run False c by simp
      from Suc.IH [OF j(3) lt iv sb f rst' this] show ?thesis using vv keep rest by blast
    qed
  qed
qed simp

section \<open>Which tree holds which sizes\<close>

definition bin_start :: "nat \<Rightarrow> nat" where "bin_start i = (2 + i mod 2) * 2 ^ (i div 2 + 7)"

lemma bin_start_Suc: "bin_start (Suc i) = bin_start i + 2 ^ (i div 2 + 7)"
  by (cases "even i") (auto simp: bin_start_def power_add elim!: evenE oddE)

lemma bin_start_mono: "i \<le> j \<Longrightarrow> bin_start i \<le> bin_start j"
  by (rule lift_Suc_mono_le [of bin_start]) (simp_all add: bin_start_Suc)

lemma tree_index_lt: "compute_tree_index s < 32"
proof -
  define x where "x = s div 256 mod 2 ^ 32"
  have "high_bit x < 16" if "x \<noteq> 0" "\<not> x > 0xFFFF"
  proof -
    have "(2::nat) ^ high_bit x < 2 ^ 16" using high_bit_bounds [OF that(1)] that(2) by simp
    then show ?thesis by (rule power_less_imp_less_exp [rotated]) simp
  qed
  then have "2 * high_bit x + s div 2 ^ (high_bit x + 7) mod 2 < 32" if "x \<noteq> 0" "\<not> x > 0xFFFF" using that by fastforce
  then show ?thesis unfolding compute_tree_index_def Let_def x_def [symmetric] by simp
qed

lemma tree_index_start:
  assumes "256 \<le> s" "s < 2 ^ 40"
  shows "bin_start (compute_tree_index s) \<le> s" "compute_tree_index s \<noteq> 31 \<Longrightarrow> s < bin_start (Suc (compute_tree_index s))"
proof -
  define i where "i = compute_tree_index s"
  note r = tree_index_range [OF assms, folded i_def]
  show "compute_tree_index s \<noteq> 31 \<Longrightarrow> s < bin_start (Suc (compute_tree_index s))"
    using r bin_start_Suc [of i] by (simp add: rootlo_def rootlv_def bin_start_def flip: i_def)
  show "bin_start (compute_tree_index s) \<le> s"
  proof (cases "i = 31")
    case False
    then show ?thesis using r by (simp add: rootlo_def bin_start_def flip: i_def)
  next
    case True
    define x where "x = s div 256"
    have x: "x \<noteq> 0" "x mod 2 ^ 32 = x" using assms by (auto simp: x_def div_eq_0_iff less_mult_imp_div_less)
    show ?thesis
    proof (cases "x > 0xFFFF")
      case True
      then have "s \<ge> 2 ^ 24" by (simp add: x_def)
      then show ?thesis using \<open>i = 31\<close> by (simp add: bin_start_def flip: i_def)
    next
      case False
      define k where "k = high_bit x"
      have b: "31 = 2 * k + s div 2 ^ (k + 7) mod 2" using True False x by (simp add: i_def compute_tree_index_def Let_def flip: x_def k_def)
      have "s div 2 ^ (k + 7) mod 2 < 2" by simp
      then have k1: "k = 15" using b by linarith
      then have k: "k = 15" "s div 2 ^ 22 mod 2 = 1" using b by simp_all
      have "2 ^ 15 \<le> x" "x < 2 ^ 16" using high_bit_bounds [OF x(1)] k(1) by (auto simp: k_def)
      then have "2 ^ 23 \<le> s" "s < 2 ^ 24" by (auto simp: x_def)
      then show ?thesis using half(2) [of 22 "2 ^ 23" s 1] k(2) \<open>i = 31\<close> by (simp add: bin_start_def flip: i_def)
    qed
  qed
qed

lemma tree_index_mono:
  assumes "256 \<le> s" "s \<le> s'" "s' < 2 ^ 40"
  shows "compute_tree_index s \<le> compute_tree_index s'"
proof (rule ccontr)
  assume "\<not> ?thesis"
  then have "compute_tree_index s' \<noteq> 31" "Suc (compute_tree_index s') \<le> compute_tree_index s" using tree_index_lt [of s] by auto
  then show False using tree_index_start [of s] tree_index_start [of s'] bin_start_mono [of "Suc (compute_tree_index s')"] assms by fastforce
qed

section \<open>The search of the trees\<close>

lemma large_search:
  assumes "bins st fr" "sized st fr" "256 \<le> nb" "nb < 2 ^ 64"
  obtains v r where "tmalloc_large nb st =
      (if v \<noteq> 0 \<and> r < minus64 (dvsize st) nb then
        if v \<ge> least_addr st \<and> v < v + nb then
          res_bind (unlink_large_chunk v st) (\<lambda>s1.
          if r < MIN_CHUNK_SIZE then Inr (chunk2mem v, set_inuse_and_pinuse v (r + nb) s1)
          else
            res_bind (insert_chunk (v + nb) r
               (set_size_and_pinuse_of_free_chunk (v + nb) r (set_size_and_pinuse_of_inuse_chunk v nb s1))) (\<lambda>s2.
            Inr (chunk2mem v, s2)))
        else ABORT
      else Inr (0, st))"
    "v = 0 \<and> (\<forall>p s. fr p = Some s \<longrightarrow> s < nb) \<or> v \<noteq> 0 \<and> (\<exists>s. fr v = Some s \<and> 256 \<le> s \<and> nb \<le> s \<and> r = s - nb)"
proof -
  define M m idx r0 where "M = maddr st" and "m = words st" and "idx = compute_tree_index nb" and "r0 = minus64 0 nb"
  obtain N cl lo lv where t: "tree_ok M (treemap st) m fr N cl lo lv" using assms(1) by (auto simp: bins_def M_def m_def)
  note ap = binsD(1) [OF assms(1), folded M_def] and td = tree_okD [OF t]
  note nd = nodeD [OF t ap] and mw = m_def [symmetric]
  have i32: "idx < 32" by (simp add: idx_def tree_index_lt)
  have nb0: "0 < nb" using assms(3) by simp
  define t0 sb where "t0 = m (tbin M idx)" and "sb = nb * 2 ^ leftshift_for_tree_index idx mod 2 ^ 64"
  have f0: "found fr N nb r0 0 r0" by (simp add: found_def)
  have root: "m (tbin M i) \<in> N" "m (at (m (tbin M i)) 56) = i" "lv (m (tbin M i)) = rootlv i" "lo (m (tbin M i)) = rootlo i" "lv (m (tbin M i)) \<le> 64"
    if "i < 32" "m (tbin M i) \<noteq> 0" for i
  proof -
    show N: "m (tbin M i) \<in> N" and idx: "m (at (m (tbin M i)) 56) = i" using td(5) [OF that] by auto
    have "parent_ok M m N lo lv (m (tbin M i))" using N by (rule nd)
    then show "lv (m (tbin M i)) = rootlv i" "lo (m (tbin M i)) = rootlo i" using idx by (auto simp: parent_ok_def Let_def)
    show "lv (m (tbin M i)) \<le> 64" using N by (rule nd)
  qed
  define first where "first = (if t0 \<noteq> 0 then best_walk 65 nb t0 sb 0 r0 0 st else Inr (0, 0, r0))"
  obtain t1 v1 r1 where w1: "first = Inr (t1, v1, r1)" "found fr N nb r0 v1 r1" "t1 = 0 \<or> t1 \<in> N"
  proof (cases "t0 = 0")
    case False
    have "lv t0 < 65" using root(5) [OF i32] False by (simp add: t0_def)
    then show ?thesis
      using best_walk_sound [OF t ap assms(2) mw root(1) [OF i32] _ _ f0, of 65 sb 0] that False by (auto simp: first_def t0_def sb_def)
  qed (use that f0 in \<open>auto simp: first_def\<close>)
  define leftbits where "leftbits = left_bits (idx2bit idx) AND treemap st"
  define j where "j = compute_bit2idx (least_bit leftbits)"
  have j: "j < 32" "idx < j" "m (tbin M j) \<noteq> 0" if "leftbits \<noteq> 0"
  proof -
    note fb = first_bit [OF that j_def]
    then show "j < 32" "idx < j" using left_bits_bit [OF i32, of j] by (auto simp: leftbits_def bit_and_iff)
    show "m (tbin M j) \<noteq> 0" using fb td(4) [OF \<open>j < 32\<close>] by (auto simp: leftbits_def bit_and_iff)
  qed
  define t2 where "t2 = (if t1 = 0 \<and> v1 = 0 \<and> leftbits \<noteq> 0 then m (tbin M j) else t1)"
  have t2: "t2 = 0 \<or> t2 \<in> N" using w1(3) root(1) [OF j(1)] j(3) by (auto simp: t2_def)
  have t2': "t2 = 0 \<and> 0 < (66::nat) \<or> t2 \<in> N \<and> lv t2 + 1 < 66"
  proof (cases "t2 = 0")
    case False
    then have "t2 \<in> N" using t2 by simp
    then have "lv t2 \<le> 64" by (rule nd)
    then show ?thesis using \<open>t2 \<in> N\<close> by simp
  qed simp
  obtain v r where w2: "smallest_walk 66 nb t2 v1 r1 st = Inr (v, r)" "found fr N nb r0 v r" "v1 \<noteq> 0 \<longrightarrow> v \<noteq> 0"
    "t2 \<noteq> 0 \<longrightarrow> r \<le> minus64 (the (fr t2)) nb"
    using smallest_walk_spec [OF t ap assms(2) mw t2' w1(2)] by blast
  have sz: "s < 2 ^ 63" "s < 2 ^ 40" if "fr p = Some s" for p s using apartD(2,5) [OF ap that] by auto
  have some: "\<exists>s. fr v = Some s \<and> 256 \<le> s \<and> nb \<le> s \<and> r = s - nb" if v: "v \<noteq> 0"
  proof -
    obtain s where s: "v \<in> N" "fr v = Some s" "r = minus64 s nb" "r < r0" using w2(2) v by (auto simp: found_def)
    moreover have "256 \<le> s" using s(1,2) nd by (metis option.inject)
    ultimately show ?thesis using fits [OF sz(1) [OF s(2)]] nb0 assms(4) by (auto simp: r0_def)
  qed
  have none: "s < nb" if v: "v = 0" and p: "fr p = Some s" for p s
  proof (rule ccontr)
    assume "\<not> s < nb"
    then have le: "nb \<le> s" "nb < 2 ^ 40" using sz(2) [OF p] by auto
    have "0 \<notin> N" by (auto elim: nd)
    then have r: "r = r0" using w2(2) v by (auto simp: found_def)
    have t2s: "z < nb" if "t2 \<noteq> 0" "fr t2 = Some z" for z
      using w2(4) that r fits(1) [OF sz(1) [OF that(2)] nb0 assms(4)] by (auto simp: r0_def)
    have s256: "256 \<le> s" using le assms(3) by simp
    obtain y where y: "y \<in> N" "p \<in> set (y # cl y)" using td(3) [OF p s256] by blast
    obtain z where "fr y = Some z" "m (at y 56) = compute_tree_index z" "chain_ok m fr N (cl y) y z" using y(1) by (rule nd)
    then have ys: "fr y = Some s" "m (at y 56) = compute_tree_index s" using y(2) p by (auto simp: chain_ok_def)
    have v1: "v1 = 0" using w2(3) v by blast
    have ge: "idx \<le> compute_tree_index s" unfolding idx_def by (rule tree_index_mono) (use assms(3) le sz(2) [OF p] in auto)
    have bc: "(t1 \<noteq> 0 \<longrightarrow> nb \<le> lo t1) \<and> (t1 = 0 \<longrightarrow> (\<forall>y s. under m t0 y \<longrightarrow> fr y = Some s \<longrightarrow> s < nb))" if t0: "t0 \<noteq> 0"
    proof -
      note rt = root [OF i32 t0 [unfolded t0_def], folded t0_def] and rg = tree_index_range(2,3) [OF assms(3) le(2), folded idx_def]
      have "lv t0 < 65" "sb = nb * 2 ^ (64 - lv t0) mod 2 ^ 64" using rt(3,5) root_level(1) [OF i32] by (auto simp: sb_def)
      moreover have "best_walk 65 nb t0 sb 0 r0 0 st = Inr (t1, v1, r1)" using w1(1) t0 by (simp add: first_def)
      ultimately show ?thesis
        using best_walk_complete [OF t ap assms(2) mw nb0 assms(4) r0_def rt(1) _ _ _ _ f0, of 65 sb 0 t1 v1 r1] rt(3,4) rg v1 by simp
    qed
    have t10: "t1 = 0"
    proof (rule ccontr)
      assume t1: "t1 \<noteq> 0"
      then have "t2 = t1" "t0 \<noteq> 0" "t1 \<in> N" using w1 by (auto simp: t2_def first_def split: if_splits)
      then obtain z where "fr t2 = Some z" "lo t1 \<le> z" using nd by metis
      then show False using t2s \<open>t2 = t1\<close> t1 bc [OF \<open>t0 \<noteq> 0\<close>] by fastforce
    qed
    note ur = under_root [OF t ap y(1), unfolded ys(2)]
    show False
    proof (cases "compute_tree_index s = idx")
      case True
      then show False using ur bc ys(1) t10 le(1) unfolding t0_def by fastforce
    next
      case False
      define k where "k = compute_tree_index s"
      have k: "idx < k" "k < 32" using False ge tree_index_lt [of s] by (auto simp: k_def)
      have "bit (treemap st) k" using td(4) [OF k(2)] ur by (simp add: k_def)
      then have "bit leftbits k" using left_bits_bit [OF i32, of k] k by (simp add: leftbits_def bit_and_iff)
      then have lb: "leftbits \<noteq> 0" by auto
      note jj = j [OF lb]
      note rj = root [OF jj(1,3)]
      obtain z where z: "fr (m (tbin M j)) = Some z" "256 \<le> z" "m (at (m (tbin M j)) 56) = compute_tree_index z" using rj(1) by (rule nd)
      have "t2 = m (tbin M j)" using lb t10 v1 by (simp add: t2_def)
      then have "z < nb" using t2s z(1) jj(3) by simp
      then have "j \<le> idx" using tree_index_mono [of z nb] z(2,3) le(2) rj(2) by (simp add: idx_def)
      then show False using jj(2) by simp
    qed
  qed
  show ?thesis
  proof (rule that)
    show "v = 0 \<and> (\<forall>p s. fr p = Some s \<longrightarrow> s < nb) \<or> v \<noteq> 0 \<and> (\<exists>s. fr v = Some s \<and> 256 \<le> s \<and> nb \<le> s \<and> r = s - nb)"
      using some none by blast
  next
    note folds = M_def [symmetric] m_def [symmetric] idx_def [symmetric] r0_def [symmetric]
    have w3: "smallest_walk 66 nb (if t1 = 0 \<and> v1 = 0 \<and> leftbits \<noteq> 0 then m (tbin M j) else t1) v1 r1 st = Inr (v, r)"
      using w2(1) by (simp only: t2_def)
    show "tmalloc_large nb st =
      (if v \<noteq> 0 \<and> r < minus64 (dvsize st) nb then
        if v \<ge> least_addr st \<and> v < v + nb then
          res_bind (unlink_large_chunk v st) (\<lambda>s1.
          if r < MIN_CHUNK_SIZE then Inr (chunk2mem v, set_inuse_and_pinuse v (r + nb) s1)
          else
            res_bind (insert_chunk (v + nb) r
               (set_size_and_pinuse_of_free_chunk (v + nb) r (set_size_and_pinuse_of_inuse_chunk v nb s1))) (\<lambda>s2.
            Inr (chunk2mem v, s2)))
        else ABORT
      else Inr (0, st))"
      unfolding tmalloc_large_def Let_def bin_addresses folds
      unfolding t0_def [symmetric] sb_def [symmetric] leftbits_def [symmetric]
      unfolding first_def [symmetric] j_def [symmetric] w1(1) res_bind_simps(2) prod.case w3 ..
  qed
qed

lemma small_search:
  assumes "bins st fr" "sized st fr" "nb \<le> 256" "treemap st \<noteq> 0"
  obtains v s where "tmalloc_small nb st =
      (if v \<ge> least_addr st \<and> v < v + nb then
        res_bind (unlink_large_chunk v st) (\<lambda>s1.
        if s - nb < MIN_CHUNK_SIZE then Inr (chunk2mem v, set_inuse_and_pinuse v (s - nb + nb) s1)
        else
          res_bind (replace_dv (v + nb) (s - nb)
             (set_size_and_pinuse_of_free_chunk (v + nb) (s - nb) (set_size_and_pinuse_of_inuse_chunk v nb s1))) (\<lambda>s2.
          Inr (chunk2mem v, s2)))
      else ABORT)"
    "fr v = Some s" "256 \<le> s"
proof -
  define M m j where "M = maddr st" and "m = words st" and "j = compute_bit2idx (least_bit (treemap st))"
  obtain N cl lo lv where t: "tree_ok M (treemap st) m fr N cl lo lv" using assms(1) by (auto simp: bins_def M_def m_def)
  note ap = binsD(1) [OF assms(1), folded M_def] and td = tree_okD [OF t]
  note nd = nodeD [OF t ap] and mw = m_def [symmetric]
  note fb = first_bit [OF assms(4) j_def]
  define x c where "x = m (tbin M j)" and "c = leftmost_child st x"
  have x: "x \<in> N" "x \<noteq> 0" using td(4,5) [OF fb(1)] fb(2) by (auto simp: x_def)
  obtain z where z: "fr x = Some z" "256 \<le> z" "lv x \<le> 64" using x(1) by (rule nd)
  have sx: "chunksize st x = z" using assms(2) z(1) by (simp add: sized_def)
  have c: "c = 0 \<and> 0 < (66::nat) \<or> c \<in> N \<and> lv c + 1 < 66"
  proof (cases "m (at x 32) = 0")
    case True
    then show ?thesis using childD [OF t x(1), of 1 c] z(3) by (cases "c = 0") (auto simp: c_def leftmost_child_def mw)
  next
    case False
    then show ?thesis using childD [OF t x(1), of 0 c] z(3) by (auto simp: c_def leftmost_child_def mw)
  qed
  have f0: "found fr N nb (2 ^ 64) x (minus64 z nb)" using x z(1) by (auto simp: found_def minus64_def)
  obtain v r where w: "smallest_walk 66 nb c x (minus64 z nb) st = Inr (v, r)" "found fr N nb (2 ^ 64) v r" "v \<noteq> 0"
    using smallest_walk_spec [OF t ap assms(2) mw c f0] x(2) by blast
  then obtain s where s: "v \<in> N" "fr v = Some s" "r = minus64 s nb" by (auto simp: found_def)
  have s2: "256 \<le> s" using s(1,2) by (auto elim: nd)
  have r: "r = s - nb" using s(3) fits(2) [of s nb] apartD(5) [OF ap s(2)] s2 assms(3) by simp
  show ?thesis
  proof (rule that [OF _ s(2) s2])
    show "tmalloc_small nb st =
      (if v \<ge> least_addr st \<and> v < v + nb then
        res_bind (unlink_large_chunk v st) (\<lambda>s1.
        if s - nb < MIN_CHUNK_SIZE then Inr (chunk2mem v, set_inuse_and_pinuse v (s - nb + nb) s1)
        else
          res_bind (replace_dv (v + nb) (s - nb)
             (set_size_and_pinuse_of_free_chunk (v + nb) (s - nb) (set_size_and_pinuse_of_inuse_chunk v nb s1))) (\<lambda>s2.
          Inr (chunk2mem v, s2)))
      else ABORT)"
      unfolding tmalloc_small_def Let_def bin_addresses M_def [symmetric] m_def [symmetric] j_def [symmetric]
      unfolding x_def [symmetric] c_def [symmetric] sx w(1) res_bind_simps(2) prod.case r ..
  qed
qed

end
