(* ===== verification/DlFree.thy ===== *)
theory DlFree
  imports DlHeap DlWalk
begin

text \<open>
  The state of the allocator between calls and the release of a block. The free chunks are the top chunk, the designated victim and
  those in the bins; no two free chunks are neighbours. Freeing a block in use never aborts, takes exactly that block away and leaves the
  contents of all others.
\<close>

section \<open>The state between calls\<close>

definition blocks :: "nat \<Rightarrow> nat set \<Rightarrow> chunks \<Rightarrow> nat \<rightharpoonup> nat" where
  "blocks F X C p = (case C p of Some (s, True, v) \<Rightarrow> if p = F \<or> p \<in> X then None else Some s | _ \<Rightarrow> None)"

definition inside :: "(nat \<rightharpoonup> nat) \<Rightarrow> nat \<Rightarrow> bool" where
  "inside B a \<longleftrightarrow> (\<exists>p s. B p = Some s \<and> p + 16 \<le> a \<and> a < p + s + 8)"

definition undisturbed :: "(nat \<rightharpoonup> nat) \<Rightarrow> mstate \<Rightarrow> mstate \<Rightarrow> bool" where
  "undisturbed B st st' \<longleftrightarrow> (\<forall>a. inside B a \<longrightarrow> words st' a = words st a)"

definition binned :: "chunks \<Rightarrow> nat \<Rightarrow> nat \<Rightarrow> nat \<rightharpoonup> nat" where
  "binned C t d p = (case C p of Some (s, False, v) \<Rightarrow> if p = t \<or> p = d then None else Some s | _ \<Rightarrow> None)"

definition heap :: "nat \<Rightarrow> nat \<Rightarrow> chunks \<Rightarrow> mstate \<Rightarrow> bool" where
  "heap F e C st \<longleftrightarrow> mid F e C {} (binned C (top_chunk st) (dv st)) st \<and> merged C \<and>
     (dv st = 0 \<and> dvsize st = 0 \<or> dv st \<noteq> top_chunk st \<and> C (dv st) = Some (dvsize st, False, True))"

lemma blocks_simps:
  "C p = None \<Longrightarrow> blocks F X C p = None" "C p = Some (s, False, v) \<Longrightarrow> blocks F X C p = None"
  "C p = Some (s, True, v) \<Longrightarrow> blocks F X C p = (if p = F \<or> p \<in> X then None else Some s)"
  by (simp_all add: blocks_def)

lemma binned_simps:
  "C p = None \<Longrightarrow> binned C t d p = None" "C p = Some (s, True, v) \<Longrightarrow> binned C t d p = None"
  "C p = Some (s, False, v) \<Longrightarrow> binned C t d p = (if p = t \<or> p = d then None else Some s)"
  by (simp_all add: binned_def)

lemma blocks_iff: "blocks F X C p = Some s \<longleftrightarrow> (\<exists>v. C p = Some (s, True, v)) \<and> p \<noteq> F \<and> p \<notin> X"
  by (auto simp: blocks_def split: option.splits bool.splits)

lemma binned_iff: "binned C t d p = Some s \<longleftrightarrow> (\<exists>v. C p = Some (s, False, v)) \<and> p \<noteq> t \<and> p \<noteq> d"
  by (auto simp: binned_def split: option.splits bool.splits)

lemma binned_apart [simp]: "binned C t d d = None" "binned C t d t = None"
  using binned_iff [of C t d d] binned_iff [of C t d t] by (metis not_None_eq)+

lemma binned_eq:
  assumes "\<And>s. (\<exists>v. C' x = Some (s, False, v)) \<and> x \<noteq> t' \<and> x \<noteq> d' \<longleftrightarrow> (\<exists>v. C x = Some (s, False, v)) \<and> x \<noteq> t \<and> x \<noteq> d"
  shows "binned C' t' d' x = binned C t d x"
proof -
  have "binned C' t' d' x = Some s \<longleftrightarrow> binned C t d x = Some s" for s using assms [of s] by (simp only: binned_iff)
  then show ?thesis by (metis not_None_eq)
qed

lemma blocks_other: "x \<notin> X \<Longrightarrow> x \<notin> X' \<Longrightarrow> C' x = C x \<Longrightarrow> blocks F X' C' x = blocks F X C x"
  unfolding blocks_def by (cases "C x") (auto split: bool.splits)

lemma blocks_eq:
  assumes "\<And>x s. (\<exists>v. C' x = Some (s, True, v)) \<and> x \<notin> X' \<longleftrightarrow> (\<exists>v. C x = Some (s, True, v)) \<and> x \<notin> X"
  shows "blocks F X' C' = blocks F X C"
proof
  fix x show "blocks F X' C' x = blocks F X C x"
  proof -
    have "blocks F X' C' x = Some s \<longleftrightarrow> blocks F X C x = Some s" for s using assms [of x s] unfolding blocks_iff by blast
    then show ?thesis by (metis not_None_eq)
  qed
qed

lemma data_blocks: "data F X C a \<longleftrightarrow> inside (blocks F X C) a"
  unfolding data_def inside_def blocks_iff by blast

lemma undisturbed_refl [simp]: "undisturbed B st st"
  by (simp add: undisturbed_def)

lemma undisturbed_trans: "undisturbed B st1 st2 \<Longrightarrow> undisturbed B st2 st3 \<Longrightarrow> undisturbed B st1 st3"
  by (simp add: undisturbed_def)

lemma undisturbed_same:
  assumes "same_data F X C X' C' st st'" "B \<subseteq>\<^sub>m blocks F X C" "B \<subseteq>\<^sub>m blocks F X' C'"
  shows "undisturbed B st st'"
proof -
  have "inside (blocks F X C) a" "inside (blocks F X' C') a" if "inside B a" for a
    using that assms(2,3) unfolding inside_def map_le_def by (metis domI)+
  then show ?thesis using assms(1) unfolding undisturbed_def same_data_def data_blocks by blast
qed

lemma mid_dv_only [simp]: "mid F e C X fr (st\<lparr>dv := y\<rparr>) = mid F e C X fr st"
  unfolding mid_def bins_def by simp

lemma heapD:
  assumes "heap F e C st"
  shows "mid F e C {} (binned C (top_chunk st) (dv st)) st" "merged C"
    "dv st \<noteq> 0 \<Longrightarrow> dv st \<noteq> top_chunk st \<and> C (dv st) = Some (dvsize st, False, True)" "dv st = 0 \<Longrightarrow> dvsize st = 0"
proof -
  have "mid F e C {} (binned C (top_chunk st) (dv st)) st" "merged C"
    "dv st = 0 \<and> dvsize st = 0 \<or> dv st \<noteq> top_chunk st \<and> C (dv st) = Some (dvsize st, False, True)"
    using assms by (simp_all add: heap_def)
  moreover from calculation(1) have "C 0 = None"
    using shapeD(10) [OF midD(1), of F e C "{}" _ st 0] by (cases "C 0") auto
  ultimately show "mid F e C {} (binned C (top_chunk st) (dv st)) st" "merged C"
    "dv st \<noteq> 0 \<Longrightarrow> dv st \<noteq> top_chunk st \<and> C (dv st) = Some (dvsize st, False, True)" "dv st = 0 \<Longrightarrow> dvsize st = 0" by auto
qed

lemma mergedD: "merged C \<Longrightarrow> C p = Some (s, False, v) \<Longrightarrow> v"
  by (auto simp: merged_def)

lemma heapI:
  assumes "mid F e C {} fr st" "\<And>p. fr p = binned C (top_chunk st) (dv st) p" "merged C"
    "dv st = 0 \<and> dvsize st = 0 \<or> dv st \<noteq> top_chunk st \<and> C (dv st) = Some (dvsize st, False, True)"
  shows "heap F e C st"
proof -
  have "fr = binned C (top_chunk st) (dv st)" using assms(2) by blast
  then show ?thesis using assms by (simp add: heap_def)
qed

section \<open>A chunk that has been taken up\<close>

text \<open>
  The chunk at \<open>q\<close> is being freed. It may be the designated victim, to which the chunk behind it was added;
  then a free chunk follows.
\<close>

definition held :: "nat \<Rightarrow> nat \<Rightarrow> chunks \<Rightarrow> nat \<Rightarrow> nat \<Rightarrow> mstate \<Rightarrow> bool" where
  "held F e C q z st \<longleftrightarrow> mid F e C {q} (binned C (top_chunk st) (dv st)) st \<and> merged C \<and> C q = Some (z, True, True) \<and> q \<noteq> F \<and>
     (dv st = 0 \<and> dvsize st = 0 \<or> dv st = q \<and> (\<exists>s v. C (q + z) = Some (s, False, v)) \<or>
      dv st \<noteq> top_chunk st \<and> C (dv st) = Some (dvsize st, False, True))"

lemma prev_chunk:
  assumes "mid F e C {} fr st" "C p = Some (s, True, False)"
  obtains q sq v where "C q = Some (sq, False, v)" "q + sq = p" "q \<noteq> top_chunk st" "prev_foot st p = sq" "minus64 p sq = q" "q \<noteq> F"
proof -
  note md = midD [OF assms(1)] and d = shapeD [OF midD(1) [OF assms(1)]]
  have "p \<noteq> F" using d(1) assms(2) by auto
  then obtain q sq u v where q: "C q = Some (sq, u, v)" "q + sq = p" using d(14) [OF assms(2)] by blast
  have qt: "q \<noteq> top_chunk st" using q md(5) d(6) d(7,11) [OF assms(2)] by auto
  then have "u = False" using d(12) [OF q(1)] q(2) assms(2) by auto
  then have "q \<noteq> F" "prev_foot st p = sq" using q d(1) mid_tags(7) [OF assms(1), of q sq u v] qt by auto
  moreover have "minus64 p sq = q" using minus64_le [of sq p] q(2) d(3) d(11) [OF assms(2)] by auto
  ultimately show ?thesis using that q qt \<open>u = False\<close> by blast
qed

lemma backward_spec:
  assumes "heap F e C st" "C p = Some (s, True, v)" "p \<noteq> F" "B = (blocks F {} C)(p := None)"
  shows "(\<exists>st' C'. consolidate_backward p s (p + s) st = Inr (Inl st') \<and> heap F e C' st' \<and> blocks F {} C' = B \<and> undisturbed B st st') \<or>
    (\<exists>q z st' C'. consolidate_backward p s (p + s) st = Inr (Inr (q, z, st')) \<and> q + z = p + s \<and> q \<le> p \<and> held F e C' q z st' \<and>
       blocks F {q} C' = B \<and> undisturbed B st st')"
proof (cases v)
  case True
  note hd = heapD [OF assms(1)]
  have c: "C p = Some (s, True, True)" using assms(2) True by simp
  have dv: "dv st = 0 \<and> dvsize st = 0 \<or> dv st \<noteq> top_chunk st \<and> C (dv st) = Some (dvsize st, False, True)" using hd(3,4) by blast
  have "consolidate_backward p s (p + s) st = Inr (Inr (p, s, st))"
    using mid_tags(3) [OF hd(1) assms(2)] True by (simp add: consolidate_backward_def)
  moreover have "held F e C p s st" 
    using take_up [OF hd(1) assms(2)] hd(2) c assms(3) dv unfolding held_def by blast
  moreover have "blocks F {p} C = B" by (rule ext) (auto simp: assms(4) blocks_def split: option.splits prod.splits bool.splits)
  ultimately show ?thesis by fastforce
next
  case False
  note hd = heapD [OF assms(1)]
  note md = midD [OF hd(1)] and d = shapeD [OF midD(1) [OF hd(1)]]
  have c: "C p = Some (s, True, False)" using assms(2) False by simp
  obtain q sq v' where q0: "C q = Some (sq, False, v')" "q + sq = p" "q \<noteq> top_chunk st" "prev_foot st p = sq" "minus64 p sq = q" "q \<noteq> F"
    by (rule prev_chunk [OF hd(1) c])
  have q: "C q = Some (sq, False, True)" using mergedD [OF hd(2) q0(1)] q0(1) by simp
  define C1 where "C1 = C(q \<mapsto> (sq + s, True, True), q + sq := None)"
  have "q < p" using q0(2) d(7) [OF q] by simp
  have C1: "C1 q = Some (sq + s, True, True)" "C1 p = None" "\<And>x. x \<noteq> q \<Longrightarrow> x \<noteq> p \<Longrightarrow> C1 x = C x"
    using \<open>q < p\<close> q0(2) by (auto simp: C1_def)
  have tags: "pinuse st p = False" "is_mmapped st p = False" "least_addr st \<le> q"
    using mid_tags(3,6) [OF hd(1) assms(2)] mid_tags(8) [OF hd(1) q _ q0(6)] False by auto
  have bl: "blocks F {q} C1 = B"
  proof
    fix x show "blocks F {q} C1 x = B x"
      using \<open>q < p\<close> blocks_other [of x "{}" "{q}" C1 C F] by (cases "x = q"; cases "x = p") (simp_all add: assms(4) blocks_simps C1 q)
  qed
  have Bl: "B \<subseteq>\<^sub>m blocks F {} C" by (auto simp: assms(4) map_le_def)
  have mg: "merged C1" using hd(2) by (auto simp: merged_def C1_def)
  have bn: "binned C1 (top_chunk st) (dv st) x = (if x = q then None else binned C (top_chunk st) (dv st) x)" for x
    using C1(1) C1(2) C1(3) [of x] c by (cases "x = p") (auto simp: binned_def)
  have run: "consolidate_backward p s (p + s) st =
     (if q \<noteq> dv st then res_bind (unlink_chunk q sq st) (\<lambda>s1. Inr (Inr (q, s + sq, s1)))
      else if head st (p + s) mod 4 = 3 then Inr (Inl (set_free_with_pinuse q (s + sq) (p + s) (st\<lparr>dvsize := s + sq\<rparr>)))
      else Inr (Inr (q, s + sq, st)))"
    using tags q0(4,5) by (simp add: consolidate_backward_def Let_def)
  show ?thesis
  proof (cases "q = dv st")
    case False
    have "binned C (top_chunk st) (dv st) q = Some sq" using q q0(3) False by (simp add: binned_def)
    from mid_unlink [OF hd(1) this] obtain st1 where st1: "unlink_chunk q sq st = Inr st1"
      "mid F e C {} ((binned C (top_chunk st) (dv st))(q := None)) st1" "kept (binned C (top_chunk st) (dv st)) st st1"
      "same_data F {} C {} C st st1" by blast
    have f: "top_chunk st1 = top_chunk st" "dv st1 = dv st" "dvsize st1 = dvsize st" using st1(3) by (auto simp: kept_def)
    have "mid F e C1 {q} ((binned C (top_chunk st) (dv st))(q := None)) st1 \<and> same_data F {} C {q} C1 st1 st1"
      by (rule take_up_both [OF st1(2) q]) (use q0 f c C1_def in auto)
    moreover have "(binned C (top_chunk st) (dv st))(q := None) = binned C1 (top_chunk st) (dv st)" by (rule ext) (simp add: bn)
    ultimately have m1: "mid F e C1 {q} (binned C1 (top_chunk st) (dv st)) st1" by simp
    have "dv st \<noteq> p" using hd(3,4) c d(10) [OF c] by (cases "dv st = 0") auto
    then have "held F e C1 q (sq + s) st1"
      using m1 mg C1 q0(6) hd(3,4) False unfolding held_def f by (metis)
    moreover have "undisturbed B st st1" by (rule undisturbed_same [OF st1(4) Bl Bl])
    moreover have "consolidate_backward p s (p + s) st = Inr (Inr (q, sq + s, st1))" using run False st1(1) by (simp add: add.commute)
    ultimately show ?thesis using bl q0(2) \<open>q < p\<close> by (intro disjI2 exI [of _ q] exI [of _ "sq + s"] exI [of _ st1] exI [of _ C1]) auto
  next
    case True
    have m1: "mid F e C1 {q} (binned C1 (top_chunk st) (dv st)) st"
    proof -
      have "mid F e C1 {q} (binned C (top_chunk st) (dv st)) st \<and> same_data F {} C {q} C1 st st"
        by (rule take_up_both [OF hd(1) q]) (use q0 c C1_def True in \<open>auto simp: binned_def\<close>)
      moreover have "binned C1 (top_chunk st) (dv st) = binned C (top_chunk st) (dv st)"
        by (rule ext) (use True q bn in \<open>auto simp: binned_def\<close>)
      ultimately show ?thesis by simp
    qed
    have pt: "p \<noteq> top_chunk st" using c md(5) by auto
    obtain s' u' where n: "C (p + s) = Some (s', u', True)" using d(12) [OF c pt] by blast
    have np: "p + s \<noteq> p" "p + s \<noteq> q" "q + (sq + s) = p + s" using d(7) [OF c] q0(2) \<open>q < p\<close> by auto
    have n1: "C1 (p + s) = Some (s', u', True)" using n C1(3) np by auto
    have hn: "head st (p + s) mod 4 = 3 \<longleftrightarrow> u'"
      using mid_tags(1) [OF hd(1) n] headword_simps(8) [OF d(8) [OF n], of u' True] by auto
    show ?thesis
    proof (cases u')
      case True
      have n2: "C1 (p + s) = Some (s', True, True)" using n1 True by simp
      define C2 where "C2 = C1(q \<mapsto> (sq + s, False, True), p + s \<mapsto> (s', True, False))"
      define st' where "st' = set_free_with_pinuse q (sq + s) (p + s) (st\<lparr>dvsize := sq + s\<rparr>)"
      have "mid F e C1 {q} (binned C1 (top_chunk st) (dv st)) (st\<lparr>dvsize := sq + s\<rparr>)" using m1 by simp
      note gf = give_free [OF this C1(1) q0(6) np(3) [symmetric] n2 st'_def C2_def]
      have f: "top_chunk st' = top_chunk st" "dv st' = dv st" "dvsize st' = sq + s" by (simp_all add: st'_def tag_writes)
      have "heap F e C2 st'"
      proof (rule heapI [OF conjunct1 [OF gf]])
        show "merged C2" using mg by (auto simp: merged_def C2_def)
        show "binned C1 (top_chunk st) (dv st) x = binned C2 (top_chunk st') (dv st') x" for x
          unfolding f C2_def using \<open>q = dv st\<close> C1(1) n1 np True by (auto simp: binned_def)
        show "dv st' = 0 \<and> dvsize st' = 0 \<or> dv st' \<noteq> top_chunk st' \<and> C2 (dv st') = Some (dvsize st', False, True)"
          unfolding f using \<open>q = dv st\<close> q0(3) np by (auto simp: C2_def)
      qed
      moreover have "blocks F {} C2 = B"
        unfolding bl [symmetric] by (rule blocks_eq) (use C1(1) n2 np in \<open>auto simp: C2_def\<close>)
      moreover have "undisturbed B st st'"
      proof -
        have "undisturbed B (st\<lparr>dvsize := sq + s\<rparr>) st'" by (rule undisturbed_same [OF conjunct2 [OF gf]]) (use bl calculation(2) in simp_all)
        then show ?thesis by (simp add: undisturbed_def)
      qed
      moreover have "consolidate_backward p s (p + s) st = Inr (Inl st')"
        using run True \<open>q = dv st\<close> hn by (simp add: st'_def add.commute)
      ultimately show ?thesis by blast
    next
      case False
      then have "C1 (q + (sq + s)) = Some (s', False, True)" unfolding np(3) using n1 by simp
      then have "held F e C1 q (sq + s) st"
        using m1 mg C1(1) q0(6) \<open>q = dv st\<close> unfolding held_def by blast
      moreover have "consolidate_backward p s (p + s) st = Inr (Inr (q, sq + s, st))" using run False \<open>q = dv st\<close> hn by (simp add: add.commute)
      ultimately show ?thesis using bl np(3) \<open>q < p\<close> by (intro disjI2 exI [of _ q] exI [of _ "sq + s"] exI [of _ st] exI [of _ C1]) auto
    qed
  qed
qed

text \<open>The two outcomes of the second half: all is done, or the chunk \<open>q\<close> is free and not yet in a bin.\<close>

definition loose :: "nat \<Rightarrow> nat \<Rightarrow> chunks \<Rightarrow> nat \<Rightarrow> nat \<Rightarrow> mstate \<Rightarrow> bool" where
  "loose F e C q z st \<longleftrightarrow> mid F e C {} ((binned C (top_chunk st) (dv st))(q := None)) st \<and> merged C \<and> C q = Some (z, False, True) \<and>
     q \<noteq> top_chunk st \<and> q \<noteq> dv st \<and> (dv st = 0 \<and> dvsize st = 0 \<or> dv st \<noteq> top_chunk st \<and> C (dv st) = Some (dvsize st, False, True))"

lemma forward_spec:
  assumes "held F e C q z st" "n = q + z" "B = blocks F {q} C" "\<And>t st. \<exists>x. trim t st = st\<lparr>trim_check := x\<rparr>"
  shows "(\<exists>st' C'. consolidate_forward trim q z n st = Inr (Inl st') \<and> heap F e C' st' \<and> blocks F {} C' = B \<and> undisturbed B st st') \<or>
    (\<exists>z' st' C'. consolidate_forward trim q z n st = Inr (Inr (q, z', st')) \<and> loose F e C' q z' st' \<and> blocks F {} C' = B \<and> undisturbed B st st')"
proof -
  let ?fr = "binned C (top_chunk st) (dv st)"
  have h: "mid F e C {q} ?fr st" "merged C" "C q = Some (z, True, True)" "q \<noteq> F"
    and dv: "dv st = 0 \<and> dvsize st = 0 \<or> dv st = q \<and> (\<exists>s v. C (q + z) = Some (s, False, v)) \<or>
      dv st \<noteq> top_chunk st \<and> C (dv st) = Some (dvsize st, False, True)" using assms(1) by (simp_all add: held_def)
  note md = midD [OF h(1)] and d = shapeD [OF midD(1) [OF h(1)]]
  have qt: "q \<noteq> top_chunk st" using h(3) md(5) by auto
  obtain s u where n: "C n = Some (s, u, True)" using d(12) [OF h(3) qt] assms(2) by blast
  have nq: "n \<noteq> q" "n \<notin> {q}" using d(7) [OF h(3)] assms(2) by auto
  note tags = mid_tags [OF h(1) n nq(2)]
  have q0: "q \<noteq> 0" using d(10) [OF h(3)] by auto
  show ?thesis
  proof (cases u)
    case True
    then have n2: "C n = Some (s, True, True)" using n by simp
    have dv': "dv st = 0 \<and> dvsize st = 0 \<or> dv st \<noteq> top_chunk st \<and> C (dv st) = Some (dvsize st, False, True)"
      using dv n2 assms(2) by auto
    define C' st' where "C' = C(q \<mapsto> (z, False, True), n \<mapsto> (s, True, False))" and "st' = set_free_with_pinuse q z n st"
    note g = give_free [OF h(1,3,4) assms(2) n2 st'_def C'_def]
    have f: "top_chunk st' = top_chunk st" "dv st' = dv st" "dvsize st' = dvsize st" by (simp_all add: st'_def tag_writes)
    have fr: "(binned C' (top_chunk st') (dv st'))(q := None) = ?fr"
      unfolding f by (rule ext) (use h(3) n2 nq in \<open>auto simp: C'_def binned_def\<close>)
    have bl: "blocks F {} C' = B" unfolding assms(3) by (rule blocks_eq) (use h(3) n2 nq in \<open>auto simp: C'_def\<close>)
    have dq: "dv st \<noteq> q" "dv st \<noteq> n" using dv' h(3) n2 q0 d(10) [OF n2] by auto
    have "merged C'" using h(2) by (auto simp: merged_def C'_def)
    then have "loose F e C' q z st'"
      using g fr qt dq dv' nq unfolding loose_def f by (auto simp: C'_def)
    moreover have "consolidate_forward trim q z n st = Inr (Inr (q, z, st'))" using tags(4) True by (simp add: consolidate_forward_def st'_def)
    moreover have "undisturbed B st st'" by (rule undisturbed_same [OF conjunct2 [OF g]]) (use bl assms(3) in simp_all)
    ultimately show ?thesis using bl by blast
  next
    case False
    then have n2: "C n = Some (s, False, True)" using n by simp
    have cu: "\<not> cinuse st n" using tags(4) False by simp
    define C' where "C' = C(q \<mapsto> (z + s, False, True), n := None)"
    have bl: "blocks F {} C' = B" unfolding assms(3) by (rule blocks_eq) (use h(3) n2 nq in \<open>auto simp: C'_def\<close>)
    have mg: "merged C'" using h(2) by (auto simp: merged_def C'_def)
    have bn: "binned C' t y x = (if x = q then if q = t \<or> q = y then None else Some (z + s) else if x = n then None else binned C t y x)" for t y x
      using nq by (auto simp: C'_def binned_def)
    show ?thesis
    proof (cases "n = top_chunk st")
      case True
      then have s: "s = topsize st" using n2 md(5) by simp
      define s1 where "s1 = poke (at q 8) (topsize st + z OR 1) (st\<lparr>topsize := topsize st + z, top_chunk := q\<rparr>)"
      note g = give_top [OF h(1,3,4) _ s1_def C'_def [unfolded s assms(2)]]
      have gt: "mid F e C' {} ?fr s1 \<and> same_data F {q} C {} C' st s1" using g True assms(2) s by simp
      define s2 where "s2 = (if q = dv s1 then s1\<lparr>dv := 0, dvsize := 0\<rparr> else s1)"
      obtain x where x: "trim (topsize st + z) s2 = s2\<lparr>trim_check := x\<rparr>" using assms(4) by blast
      have c0: "C 0 = None" using d(10) [of 0] by (cases "C 0") auto
      have f1: "top_chunk s1 = q" "dv s1 = dv st" "dvsize s1 = dvsize st" by (simp_all add: s1_def)
      have w: "words (s2\<lparr>trim_check := x\<rparr>) = words s1" by (simp add: s2_def)
      have m2: "mid F e C' {} ?fr (s2\<lparr>trim_check := x\<rparr>)" using gt by (simp add: s2_def)
      have "heap F e C' (s2\<lparr>trim_check := x\<rparr>)"
      proof (rule heapI [OF m2 _ mg])
        show "?fr y = binned C' (top_chunk (s2\<lparr>trim_check := x\<rparr>)) (dv (s2\<lparr>trim_check := x\<rparr>)) y" for y
          by (rule binned_eq, cases "y = 0") (use True h(3) f1 c0 nq in \<open>auto simp: s2_def C'_def\<close>)
        show "dv (s2\<lparr>trim_check := x\<rparr>) = 0 \<and> dvsize (s2\<lparr>trim_check := x\<rparr>) = 0 \<or>
          dv (s2\<lparr>trim_check := x\<rparr>) \<noteq> top_chunk (s2\<lparr>trim_check := x\<rparr>) \<and>
          C' (dv (s2\<lparr>trim_check := x\<rparr>)) = Some (dvsize (s2\<lparr>trim_check := x\<rparr>), False, True)"
          using dv f1 True by (auto simp: s2_def C'_def)
      qed
      moreover have "consolidate_forward trim q z n st = Inr (Inl (s2\<lparr>trim_check := x\<rparr>))"
        using cu True unfolding consolidate_forward_def Let_def s1_def [symmetric] s2_def [symmetric] by (simp add: x)
      moreover have "undisturbed B st (s2\<lparr>trim_check := x\<rparr>)"
        using undisturbed_same [OF conjunct2 [OF gt], of B] bl assms(3) unfolding undisturbed_def w by simp
      ultimately show ?thesis using bl by blast
    next
      case nt: False
      show ?thesis
      proof (cases "n = dv st")
        case True
        then have s: "s = dvsize st" "dv st \<noteq> q" using n2 dv nq d(10) [OF n2] by auto
        define s1 where "s1 = set_size_and_pinuse_of_free_chunk q (z + s) (st\<lparr>dvsize := z + s, dv := q\<rparr>)"
        have m1: "mid F e C {q} ?fr (st\<lparr>dvsize := z + s, dv := q\<rparr>)" using h(1) by simp
        have g: "mid F e C' {} ?fr s1 \<and> same_data F {q} C {} C' (st\<lparr>dvsize := z + s, dv := q\<rparr>) s1"
          by (rule give_next [OF m1 h(3,4) assms(2) n2 _ _ s1_def C'_def]) (use nt True in simp_all)
        have f: "top_chunk s1 = top_chunk st" "dv s1 = q" "dvsize s1 = z + s" by (simp_all add: s1_def tag_writes)
        have "heap F e C' s1"
        proof (rule heapI [OF conjunct1 [OF g] _ mg])
          show "?fr y = binned C' (top_chunk s1) (dv s1) y" for y
            unfolding f by (rule binned_eq) (use True h(3) n2 nq in \<open>auto simp: C'_def\<close>)
          show "dv s1 = 0 \<and> dvsize s1 = 0 \<or> dv s1 \<noteq> top_chunk s1 \<and> C' (dv s1) = Some (dvsize s1, False, True)"
            unfolding f using qt nq by (simp add: C'_def)
        qed
        moreover have "consolidate_forward trim q z n st = Inr (Inl s1)"
          using cu nt True s(1) by (simp add: consolidate_forward_def Let_def s1_def add.commute)
        moreover have "undisturbed B st s1"
          using undisturbed_same [OF conjunct2 [OF g], of B] bl assms(3) by (simp add: undisturbed_def)
        ultimately show ?thesis using bl by blast
      next
        case nd: False
        have frn: "?fr n = Some s" using n2 nt nd by (simp add: binned_def)
        from mid_unlink [OF h(1) this] obtain s1 where s1: "unlink_chunk n s st = Inr s1" "mid F e C {q} (?fr(n := None)) s1"
          "kept ?fr st s1" "same_data F {q} C {q} C st s1" by blast
        have f1: "top_chunk s1 = top_chunk st" "dv s1 = dv st" "dvsize s1 = dvsize st" using s1(3) by (auto simp: kept_def)
        define s2 where "s2 = set_size_and_pinuse_of_free_chunk q (z + s) s1"
        have g: "mid F e C' {} (?fr(n := None)) s2 \<and> same_data F {q} C {} C' s1 s2"
          by (rule give_next [OF s1(2) h(3,4) assms(2) n2 _ _ s2_def C'_def]) (use nt f1 in auto)
        have f: "top_chunk s2 = top_chunk st" "dv s2 = dv st" "dvsize s2 = dvsize st" by (simp_all add: s2_def tag_writes f1)
        have un: "undisturbed B st s2"
          using undisturbed_same [OF conjunct2 [OF g], of B] undisturbed_same [OF s1(4), of B] bl assms(3)
          by (simp add: undisturbed_def)
        have run: "consolidate_forward trim q z n st = Inr (if q = dv s2 then Inl (s2\<lparr>dvsize := z + s\<rparr>) else Inr (q, z + s, s2))"
          using cu nt nd tags(2) s1(1) by (simp add: consolidate_forward_def Let_def s2_def)
        show ?thesis
        proof (cases "q = dv st")
          case True
          have "mid F e C' {} (?fr(n := None)) (s2\<lparr>dvsize := z + s\<rparr>)" using g by simp
          then have "heap F e C' (s2\<lparr>dvsize := z + s\<rparr>)"
          proof (rule heapI [OF _ _ mg])
            show "(?fr(n := None)) y = binned C' (top_chunk (s2\<lparr>dvsize := z + s\<rparr>)) (dv (s2\<lparr>dvsize := z + s\<rparr>)) y" for y
              using True nq by (simp add: f bn)
          qed (use f True qt nq in \<open>simp add: C'_def\<close>)
          moreover have "undisturbed B st (s2\<lparr>dvsize := z + s\<rparr>)" using un by (simp add: undisturbed_def)
          ultimately show ?thesis using run f True bl by auto
        next
          case qd: False
          have "(binned C' (top_chunk s2) (dv s2))(q := None) = ?fr(n := None)"
            unfolding f by (rule ext) (use binned_simps(2) [of C q z True] h(3) nq in \<open>auto simp: bn\<close>)
          moreover have "dv st = 0 \<and> dvsize st = 0 \<or> dv st \<noteq> top_chunk st \<and> C' (dv st) = Some (dvsize st, False, True)"
            using dv qd nd by (auto simp: C'_def)
          ultimately have "loose F e C' q (z + s) s2"
            using g mg qt qd nq unfolding loose_def f by (simp add: C'_def)
          then show ?thesis using run f qd bl un by auto
        qed
      qed
    qed
  qed
qed

lemma loose_insert:
  assumes "loose F e C q z st" "B = blocks F {} C"
  shows "\<exists>st'. insert_chunk q z st = Inr st' \<and> heap F e C st' \<and> undisturbed B st st' \<and> kept ((binned C (top_chunk st) (dv st))(q \<mapsto> z)) st st'"
proof -
  let ?fr = "binned C (top_chunk st) (dv st)"
  have l: "mid F e C {} (?fr(q := None)) st" "merged C" "C q = Some (z, False, True)" "q \<noteq> top_chunk st" "q \<noteq> dv st"
    "dv st = 0 \<and> dvsize st = 0 \<or> dv st \<noteq> top_chunk st \<and> C (dv st) = Some (dvsize st, False, True)" using assms(1) by (simp_all add: loose_def)
  from mid_insert [OF l(1,3) _ l(4)] obtain st' where st': "insert_chunk q z st = Inr st'" "mid F e C {} (?fr(q \<mapsto> z)) st'"
    "kept (?fr(q \<mapsto> z)) st st'" "same_data F {} C {} C st st'" by auto
  have f: "top_chunk st' = top_chunk st" "dv st' = dv st" "dvsize st' = dvsize st" using st'(3) by (auto simp: kept_def)
  have "heap F e C st'"
    by (rule heapI [OF st'(2) _ l(2)]) (use l(3-6) f in \<open>auto simp: binned_def\<close>)
  moreover have "undisturbed B st st'" using undisturbed_same [OF st'(4)] assms(2) by simp
  ultimately show ?thesis using st' by blast
qed

section \<open>Freeing\<close>

lemma heap_release_checks [simp]: "heap F e C (st\<lparr>release_checks := x\<rparr>) = heap F e C st"
  unfolding heap_def by simp

lemma free_insert_spec:
  assumes "loose F e C q z st" "B = blocks F {} C"
  shows "\<exists>st'. free_insert q z st = Inr st' \<and> heap F e C st' \<and> undisturbed B st st'"
proof -
  obtain s1 where s1: "insert_chunk q z st = Inr s1" "heap F e C s1" "undisturbed B st s1" using loose_insert [OF assms] by blast
  show ?thesis
  proof (cases "is_small z")
    case True
    then show ?thesis using s1 by (auto simp: free_insert_def insert_chunk_def)
  next
    case False
    then have "insert_large_chunk q z st = Inr s1" using s1(1) by (simp add: insert_chunk_def)
    then show ?thesis
      using False s1(2,3) by (auto simp: free_insert_def release_unused_segments_def Let_def undisturbed_def)
  qed
qed

lemma mspace_free_spec:
  assumes "heap F e C st" "C p = Some (s, True, v)" "p \<noteq> F" "B = (blocks F {} C)(p := None)"
  shows "\<exists>st' C'. mspace_free (chunk2mem p) st = Inr st' \<and> heap F e C' st' \<and> blocks F {} C' = B \<and> undisturbed B st st'"
proof -
  note hd = heapD [OF assms(1)]
  note tags = mid_tags [OF hd(1) assms(2)]
  have start: "mspace_free (chunk2mem p) st = res_bind (consolidate_backward p s (p + s) st) (\<lambda>back.
          case back of Inl s1 \<Rightarrow> Inr s1
          | Inr (p', psize, s1) \<Rightarrow>
              if p' < p + s \<and> pinuse s1 (p + s) then
                res_bind (consolidate_forward should_trim p' psize (p + s) s1) (\<lambda>forw.
                case forw of Inl s2 \<Rightarrow> Inr s2
                | Inr (p, psize, s2) \<Rightarrow> free_insert p psize s2)
              else ABORT)"
    using tags(2,5,8) assms(3) by (simp add: mspace_free_def Let_def chunk2mem_def mem2chunk_def)
  from backward_spec [OF assms] show ?thesis
  proof (elim disjE exE conjE)
    fix q z st1 C1 assume b: "consolidate_backward p s (p + s) st = Inr (Inr (q, z, st1))" "q + z = p + s" "q \<le> p" "held F e C1 q z st1"
       "blocks F {q} C1 = B" "undisturbed B st st1"
    have h: "mid F e C1 {q} (binned C1 (top_chunk st1) (dv st1)) st1" "C1 q = Some (z, True, True)" using b(4) by (simp_all add: held_def)
    note d1 = shapeD [OF midD(1) [OF h(1)]]
    have "q \<noteq> top_chunk st1" using h(2) midD(5) [OF h(1)] by auto
    then obtain s' u' where n: "C1 (p + s) = Some (s', u', True)" using d1(12) [OF h(2)] b(2) by auto
    have lt: "q < p + s" using d1(7) [OF h(2)] b(2) by simp
    have pin: "pinuse st1 (p + s)" using mid_tags(3) [OF h(1) n] lt by simp
    have trim: "\<exists>x. should_trim t st = st\<lparr>trim_check := x\<rparr>" for t st
    proof -
      have "st = st\<lparr>trim_check := trim_check st\<rparr>" by simp
      then show ?thesis unfolding should_trim_def sys_trim_def by metis
    qed
    from forward_spec [where trim = should_trim, OF b(4) b(2) [symmetric] b(5) [symmetric] trim] show ?thesis
    proof (elim disjE exE conjE)
      fix z' st2 C2 assume l: "consolidate_forward should_trim q z (p + s) st1 = Inr (Inr (q, z', st2))" "loose F e C2 q z' st2"
        "blocks F {} C2 = B" "undisturbed B st1 st2"
      from free_insert_spec [OF l(2) l(3) [symmetric]] show ?thesis
        using start b(1) l(1,3) lt pin undisturbed_trans [OF b(6) undisturbed_trans [OF l(4)]] by auto
    qed (use start b(1) lt pin undisturbed_trans [OF b(6)] in auto)
  qed (use start in auto)
qed

text \<open>The release of the rest of a chunk, which \<open>realloc\<close> and \<open>memalign\<close> use.\<close>

lemma dispose_chunk_spec:
  assumes "heap F e C st" "C p = Some (s, True, v)" "p \<noteq> F" "B = (blocks F {} C)(p := None)"
  shows "\<exists>st' C'. dispose_chunk p s st = Inr st' \<and> heap F e C' st' \<and> blocks F {} C' = B \<and> undisturbed B st st'"
proof -
  note hd = heapD [OF assms(1)]
  from backward_spec [OF assms] show ?thesis
  proof (elim disjE exE conjE)
    fix q z st1 C1 assume b: "consolidate_backward p s (p + s) st = Inr (Inr (q, z, st1))" "q + z = p + s" "q \<le> p" "held F e C1 q z st1"
       "blocks F {q} C1 = B" "undisturbed B st st1"
    have h: "mid F e C1 {q} (binned C1 (top_chunk st1) (dv st1)) st1" "C1 q = Some (z, True, True)" "q \<noteq> F"
      using b(4) by (simp_all add: held_def)
    note d1 = shapeD [OF midD(1) [OF h(1)]]
    have "q \<noteq> top_chunk st1" using h(2) midD(5) [OF h(1)] by auto
    then obtain s' u' where n: "C1 (p + s) = Some (s', u', True)" using d1(12) [OF h(2)] b(2) by auto
    have lt: "q < p + s" using d1(7) [OF h(2)] b(2) by simp
    have la: "least_addr st1 \<le> p + s" using mid_tags(8) [OF h(1) n] lt d1(9) [OF h(2)] by simp
    have trim: "\<exists>x. st = st\<lparr>trim_check := x\<rparr>" for t and st :: mstate
      by (rule exI [of _ "trim_check st"]) simp
    from forward_spec [where trim = "\<lambda>_ s. s", OF b(4) b(2) [symmetric] b(5) [symmetric] trim] show ?thesis
    proof (elim disjE exE conjE)
      fix z' st2 C2 assume l: "consolidate_forward (\<lambda>_ s. s) q z (p + s) st1 = Inr (Inr (q, z', st2))" "loose F e C2 q z' st2"
        "blocks F {} C2 = B" "undisturbed B st1 st2"
      from loose_insert [OF l(2) l(3) [symmetric]] show ?thesis
        using b(1) l(1,3) la undisturbed_trans [OF b(6) undisturbed_trans [OF l(4)]] by (auto simp: dispose_chunk_def Let_def)
    qed (use b(1) la undisturbed_trans [OF b(6)] in \<open>auto simp: dispose_chunk_def Let_def\<close>)
  qed (auto simp: dispose_chunk_def Let_def)
qed

end
