(* ===== verification/DlAlloc.thy ===== *)
theory DlAlloc
  imports DlFree
begin

text \<open>
  Allocation. A free chunk is picked from the bins, the designated victim or the top; it is handed out as a whole or its front is,
  and the rest becomes the designated victim or goes back to the bins.
\<close>

section \<open>Handing out a chunk\<close>

lemma looseD:
  assumes "loose F e C q z st"
  shows "mid F e C {} ((binned C (top_chunk st) (dv st))(q := None)) st" "merged C" "C q = Some (z, False, True)" "q \<noteq> top_chunk st" "q \<noteq> dv st"
    "dv st = 0 \<and> dvsize st = 0 \<or> dv st \<noteq> top_chunk st \<and> C (dv st) = Some (dvsize st, False, True)"
    "shape F (top_chunk st) e C" "q \<noteq> F" "blocks F {} C q = None"
proof -
  show l: "mid F e C {} ((binned C (top_chunk st) (dv st))(q := None)) st" "merged C" "C q = Some (z, False, True)" "q \<noteq> top_chunk st" "q \<noteq> dv st"
    "dv st = 0 \<and> dvsize st = 0 \<or> dv st \<noteq> top_chunk st \<and> C (dv st) = Some (dvsize st, False, True)"
    using assms by (simp_all add: loose_def)
  show sh: "shape F (top_chunk st) e C" by (rule midD(1) [OF l(1)])
  show "q \<noteq> F" using shapeD(1) [OF sh] l(3) by auto
  show "blocks F {} C q = None" using l(3) by (simp add: blocks_def)
qed

lemma pick_whole:
  assumes "loose F e C p s st" "st' = set_inuse_and_pinuse p s st"
  shows "\<exists>C'. heap F e C' st' \<and> blocks F {} C' = (blocks F {} C)(p \<mapsto> s) \<and> undisturbed (blocks F {} C) st st'"
proof -
  let ?fr = "(binned C (top_chunk st) (dv st))(p := None)"
  note l = looseD [OF assms(1)] and d = shapeD [OF looseD(7) [OF assms(1)]]
  obtain s' u' where n: "C (p + s) = Some (s', u', False)" using d(12) [OF l(3,4)] by blast
  then have n: "C (p + s) = Some (s', True, False)" using mergedD [OF l(2), of "p + s" s' False] by (cases u') auto
  define C' where "C' = C(p \<mapsto> (s, True, True), p + s \<mapsto> (s', True, True))"
  have tw: "mid F e C' {} ?fr st' \<and> same_data F {} C {} C' st st'"
    by (rule take_whole [OF l(1,3,4) _ n assms(2) C'_def]) simp
  have f: "top_chunk st' = top_chunk st" "dv st' = dv st" "dvsize st' = dvsize st" by (simp_all add: assms(2) tag_writes)
  have ne: "p + s \<noteq> p" "p + s \<noteq> dv st" using d(7) [OF l(3)] l(6) n d(10) [OF n] by auto
  have "heap F e C' st'"
  proof (rule heapI [OF conjunct1 [OF tw]])
    show "?fr x = binned C' (top_chunk st') (dv st') x" for x
      unfolding f using ne n by (cases "x = p"; cases "x = p + s") (simp_all add: C'_def binned_def)
    show "merged C'" using l(2) by (auto simp: merged_def C'_def)
    show "dv st' = 0 \<and> dvsize st' = 0 \<or> dv st' \<noteq> top_chunk st' \<and> C' (dv st') = Some (dvsize st', False, True)"
      unfolding f using l(5,6) ne by (auto simp: C'_def)
  qed
  moreover have bl: "blocks F {} C' = (blocks F {} C)(p \<mapsto> s)"
  proof
    fix x show "blocks F {} C' x = ((blocks F {} C)(p \<mapsto> s)) x"
      using ne n l(8) by (cases "x = p"; cases "x = p + s") (simp_all add: C'_def blocks_def)
  qed
  moreover have "undisturbed (blocks F {} C) st st'"
    by (rule undisturbed_same [OF conjunct2 [OF tw]]) (use l(9) in \<open>auto simp: bl map_le_def\<close>)
  ultimately show ?thesis by blast
qed

lemma pick_front:
  assumes "loose F e C p s st" "32 \<le> nb" "32 dvd nb" "nb + 32 \<le> s"
    "st' = set_size_and_pinuse_of_free_chunk (p + nb) (s - nb) (set_size_and_pinuse_of_inuse_chunk p nb st)"
  shows "\<exists>C'. loose F e C' (p + nb) (s - nb) st' \<and> blocks F {} C' = (blocks F {} C)(p \<mapsto> nb) \<and> undisturbed (blocks F {} C) st st'"
proof -
  let ?fr = "(binned C (top_chunk st) (dv st))(p := None)"
  note l = looseD [OF assms(1)] and d = shapeD [OF looseD(7) [OF assms(1)]]
  define C' where "C' = C(p \<mapsto> (nb, True, True), p + nb \<mapsto> (s - nb, False, True))"
  have new: "C (p + nb) = None"
  proof (rule ccontr)
    assume "C (p + nb) \<noteq> None"
    then show False using d(13) [OF l(3), of "p + nb"] assms(2,4) by auto
  qed
  have tf: "mid F e C' {} ?fr st' \<and> same_data F {} C {} C' st st'"
    by (rule take_front [OF l(1,3,4) _ assms(2-5) C'_def]) simp
  have f: "top_chunk st' = top_chunk st" "dv st' = dv st" "dvsize st' = dvsize st" by (simp_all add: assms(5) tag_writes)
  have ne: "p + nb \<noteq> p" "p + nb \<noteq> dv st" "p + nb \<noteq> top_chunk st"
    using assms(2) new l(6) d(6) d(9) [OF l(3)] by auto
  have "(binned C' (top_chunk st) (dv st))(p + nb := None) = ?fr"
  proof
    fix x show "((binned C' (top_chunk st) (dv st))(p + nb := None)) x = ?fr x"
      using ne new by (cases "x = p"; cases "x = p + nb") (simp_all add: C'_def binned_def)
  qed
  then have "loose F e C' (p + nb) (s - nb) st'"
    unfolding loose_def f using conjunct1 [OF tf] l(2,5,6) ne by (auto simp: merged_def C'_def)
  moreover have bl: "blocks F {} C' = (blocks F {} C)(p \<mapsto> nb)"
  proof
    fix x show "blocks F {} C' x = ((blocks F {} C)(p \<mapsto> nb)) x"
      using ne new l(8) by (cases "x = p"; cases "x = p + nb") (simp_all add: C'_def blocks_def)
  qed
  moreover have "undisturbed (blocks F {} C) st st'"
    by (rule undisturbed_same [OF conjunct2 [OF tf]]) (use l(9) in \<open>auto simp: bl map_le_def\<close>)
  ultimately show ?thesis by blast
qed

text \<open>A loose chunk becomes the designated victim.\<close>

lemma loose_dv:
  assumes "loose F e C q z st" "dv st = 0"
  shows "heap F e C (st\<lparr>dvsize := z, dv := q\<rparr>)"
proof -
  note l = looseD [OF assms(1)]
  have c0: "C 0 = None" using shapeD(10) [OF l(7), of 0] by (cases "C 0") auto
  have m: "mid F e C {} ((binned C (top_chunk st) (dv st))(q := None)) (st\<lparr>dvsize := z, dv := q\<rparr>)" using l(1) by simp
  show ?thesis
  proof (rule heapI [OF m _ l(2)])
    fix x
    have "binned C (top_chunk st) q x = ((binned C (top_chunk st) 0)(q := None)) x"
    proof (cases "x = q")
      case False
      then show ?thesis using binned_eq [of C x _ q C _ 0] c0 by (cases "x = 0") (simp_all add: binned_def)
    qed simp
    then show "((binned C (top_chunk st) (dv st))(q := None)) x = binned C (top_chunk (st\<lparr>dvsize := z, dv := q\<rparr>)) (dv (st\<lparr>dvsize := z, dv := q\<rparr>)) x"
      by (simp add: assms(2))
  qed (use l(3,4) in simp)
qed

lemma replace_dv_spec:
  assumes "loose F e C q z st" "dvsize st < 256"
  shows "\<exists>st'. replace_dv q z st = Inr st' \<and> heap F e C st' \<and> undisturbed (blocks F {} C) st st'"
proof (cases "dvsize st = 0")
  case True
  note l = looseD [OF assms(1)]
  have "dv st = 0" using l(6) True shapeD(7) [OF l(7)] by fastforce
  then show ?thesis using loose_dv [OF assms(1)] True by (auto simp: replace_dv_def undisturbed_def)
next
  case False
  note l = looseD [OF assms(1)]
  let ?fr = "(binned C (top_chunk st) (dv st))(q := None)"
  have c: "C (dv st) = Some (dvsize st, False, True)" "dv st \<noteq> top_chunk st" using l(6) False by auto
  have "?fr (dv st) = None" using l(5) by simp
  from mid_insert [OF l(1) c(1) this c(2) Int_empty_left] obtain s1 where s1: "insert_chunk (dv st) (dvsize st) st = Inr s1"
    "mid F e C {} (?fr(dv st \<mapsto> dvsize st)) s1" "kept (?fr(dv st \<mapsto> dvsize st)) st s1" "same_data F {} C {} C st s1" by blast
  have f: "top_chunk s1 = top_chunk st" using s1(3) by (simp add: kept_def)
  have "mid F e C {} (?fr(dv st \<mapsto> dvsize st)) (s1\<lparr>dvsize := z, dv := q\<rparr>)" using s1(2) by simp
  then have "heap F e C (s1\<lparr>dvsize := z, dv := q\<rparr>)"
  proof (rule heapI [OF _ _ l(2)])
    fix x
    have "binned C (top_chunk st) q x = (?fr(dv st \<mapsto> dvsize st)) x"
    proof (cases "x = q \<or> x = dv st")
      case False
      then show ?thesis using binned_eq [of C x _ q C _ "dv st"] by simp
    qed (use c l(5) in \<open>auto simp: binned_simps\<close>)
    then show "(?fr(dv st \<mapsto> dvsize st)) x = binned C (top_chunk (s1\<lparr>dvsize := z, dv := q\<rparr>)) (dv (s1\<lparr>dvsize := z, dv := q\<rparr>)) x"
      by (simp add: f)
  qed (use l(3,4) f in simp)
  moreover have "undisturbed (blocks F {} C) st s1" by (rule undisturbed_same [OF s1(4)]) simp_all
  moreover have "is_small (dvsize st)" using assms(2) by (simp add: is_small_def div_less_iff_less_mult)
  ultimately show ?thesis using s1(1) False by (auto simp: replace_dv_def insert_chunk_def undisturbed_def)
qed

section \<open>The designated victim and the top chunk\<close>

definition handed :: "nat \<Rightarrow> nat \<Rightarrow> chunks \<Rightarrow> nat \<Rightarrow> mstate \<Rightarrow> nat \<Rightarrow> mstate \<Rightarrow> bool" where
  "handed F e C nb st m st' \<longleftrightarrow> (\<exists>p C'. m = chunk2mem p \<and> heap F e C' st' \<and> blocks F {} C p = None \<and>
     blocks F {} C' = (blocks F {} C)(p \<mapsto> nb) \<and> undisturbed (blocks F {} C) st st')"

lemma handedI:
  "heap F e C' st' \<Longrightarrow> blocks F {} C p = None \<Longrightarrow> blocks F {} C' = (blocks F {} C)(p \<mapsto> nb) \<Longrightarrow> undisturbed (blocks F {} C) st st' \<Longrightarrow>
   handed F e C nb st (chunk2mem p) st'"
  unfolding handed_def by blast

lemma dv_loose:
  assumes "heap F e C st" "dvsize st \<noteq> 0"
  shows "loose F e C (dv st) (dvsize st) (st\<lparr>dvsize := 0, dv := 0\<rparr>)"
proof -
  note hd = heapD [OF assms(1)]
  note sh = midD(1) [OF hd(1)]
  have d: "dv st \<noteq> 0" "dv st \<noteq> top_chunk st" "C (dv st) = Some (dvsize st, False, True)" using hd(3,4) assms(2) by auto
  have c0: "C 0 = None" using shapeD(10) [OF sh, of 0] by (cases "C 0") auto
  have "(binned C (top_chunk st) 0)(dv st := None) = binned C (top_chunk st) (dv st)"
  proof
    fix x show "((binned C (top_chunk st) 0)(dv st := None)) x = binned C (top_chunk st) (dv st) x"
      using binned_eq [of C x _ 0 C _ "dv st"] c0 by (cases "x = dv st"; cases "x = 0") (simp_all add: binned_simps)
  qed
  then show ?thesis using hd(1,2) d by (simp add: loose_def)
qed

lemma split_dv:
  assumes "32 \<le> nb"
  shows "set_size_and_pinuse_of_inuse_chunk p nb (set_size_and_pinuse_of_free_chunk (p + nb) z (st\<lparr>dv := a, dvsize := b\<rparr>)) =
    (set_size_and_pinuse_of_free_chunk (p + nb) z (set_size_and_pinuse_of_inuse_chunk p nb (st\<lparr>dvsize := 0, dv := 0\<rparr>)))\<lparr>dvsize := b, dv := a\<rparr>"
proof -
  have "m(p + nb + 8 := x, p + nb + z := y, p + 8 := w) = m(p + 8 := w, p + nb + 8 := x, p + nb + z := y)" for m :: "nat \<Rightarrow> nat" and x y w
    using assms by auto
  then show ?thesis by (simp add: tag_writes poke_def at_def)
qed

lemma malloc_dv_top_spec:
  assumes "heap F e C st" "32 \<le> nb" "32 dvd nb" "malloc_dv_top nb st = (m, st')"
  shows "m = 0 \<and> st' = st \<and> dvsize st < nb \<and> topsize st \<le> nb \<or> handed F e C nb st m st'"
proof -
  note hd = heapD [OF assms(1)]
  note md = midD [OF hd(1)] and d = shapeD [OF midD(1) [OF hd(1)]]
  consider "nb \<le> dvsize st" | "dvsize st < nb" "nb < topsize st" | "dvsize st < nb" "topsize st \<le> nb" by linarith
  then show ?thesis
  proof cases
    case 1
    then have "dvsize st \<noteq> 0" using assms(2) by simp
    note l = dv_loose [OF assms(1) this]
    have "C (dv st) = Some (dvsize st, False, True)" using looseD(3) [OF l] by simp
    then have dvd: "32 dvd dvsize st" by (rule d(8))
    show ?thesis
    proof (cases "nb + 32 \<le> dvsize st")
      case True
      define s1 where "s1 = set_size_and_pinuse_of_free_chunk (dv st + nb) (dvsize st - nb) (set_size_and_pinuse_of_inuse_chunk (dv st) nb (st\<lparr>dvsize := 0, dv := 0\<rparr>))"
      obtain C' where C': "loose F e C' (dv st + nb) (dvsize st - nb) s1" "blocks F {} C' = (blocks F {} C)(dv st \<mapsto> nb)"
        "undisturbed (blocks F {} C) (st\<lparr>dvsize := 0, dv := 0\<rparr>) s1" using pick_front [OF l assms(2,3) True s1_def] by blast
      have h: "heap F e C' (s1\<lparr>dvsize := dvsize st - nb, dv := dv st + nb\<rparr>)"
        by (rule loose_dv [OF C'(1)]) (simp add: s1_def tag_writes)
      have "32 \<le> dvsize st - nb" using True by simp
      then have "st' = s1\<lparr>dvsize := dvsize st - nb, dv := dv st + nb\<rparr>" "m = chunk2mem (dv st)"
        using assms(4) 1 assms(2) split_dv [where p = "dv st" and nb = nb and z = "dvsize st - nb" and st = st] by (simp_all add: malloc_dv_top_def Let_def MIN_CHUNK_SIZE_def s1_def)
      then have "handed F e C nb st m st'"
        using handedI [OF h _ C'(2)] C'(3) looseD(9) [OF l] by (simp add: undisturbed_def)
      then show ?thesis by blast
    next
      case False
      then have eq: "dvsize st = nb" using 1 dvd assms(3) by (auto elim!: dvdE)
      define s1 where "s1 = set_inuse_and_pinuse (dv st) (dvsize st) (st\<lparr>dvsize := 0, dv := 0\<rparr>)"
      obtain C' where C': "heap F e C' s1" "blocks F {} C' = (blocks F {} C)(dv st \<mapsto> nb)"
        "undisturbed (blocks F {} C) (st\<lparr>dvsize := 0, dv := 0\<rparr>) s1" using pick_whole [OF l s1_def] eq by auto
      have "st' = s1" "m = chunk2mem (dv st)" using assms(4) 1 False by (auto simp: malloc_dv_top_def Let_def MIN_CHUNK_SIZE_def s1_def eq)
      then have "handed F e C nb st m st'"
        using handedI [OF C'(1) _ C'(2)] C'(3) looseD(9) [OF l] by (simp add: undisturbed_def)
      then show ?thesis by blast
    qed
  next
    case 2
    let ?p = "top_chunk st" and ?fr = "binned C (top_chunk st) (dv st)"
    have dvd: "32 dvd topsize st" using d(8) [OF md(5)] .
    have "nb + 32 \<le> topsize st" using 2(2) dvd assms(3) by (auto elim!: dvdE)
    define C' where "C' = C(?p \<mapsto> (nb, True, True), ?p + nb \<mapsto> (topsize st - nb, False, True))"
    have st': "st' = set_size_and_pinuse_of_inuse_chunk ?p nb (poke (at (?p + nb) 8) (topsize st - nb OR 1) (st\<lparr>topsize := topsize st - nb, top_chunk := ?p + nb\<rparr>))"
      "m = chunk2mem ?p" using assms(4) 2 by (auto simp: malloc_dv_top_def Let_def)
    note t = take_top [OF hd(1) refl assms(2,3) \<open>nb + 32 \<le> topsize st\<close> st'(1) C'_def]
    have f: "top_chunk st' = ?p + nb" "dv st' = dv st" "dvsize st' = dvsize st" by (simp_all add: st'(1) tag_writes)
    have new: "C (?p + nb) = None"
    proof (rule ccontr)
      assume "C (?p + nb) \<noteq> None"
      then show False using d(13) [OF md(5), of "?p + nb"] assms(2) \<open>nb + 32 \<le> topsize st\<close> by auto
    qed
    have ne: "?p + nb \<noteq> ?p" "dv st \<noteq> ?p + nb" "?p \<noteq> F" using assms(2) hd(3) new d(2) by (cases "dv st = 0"; auto)+
    have "heap F e C' st'"
    proof (rule heapI [OF conjunct1 [OF t]])
      show "?fr x = binned C' (top_chunk st') (dv st') x" for x
        unfolding f by (rule binned_eq) (use ne new in \<open>auto simp: C'_def\<close>)
      show "merged C'" using hd(2) by (auto simp: merged_def C'_def)
      show "dv st' = 0 \<and> dvsize st' = 0 \<or> dv st' \<noteq> top_chunk st' \<and> C' (dv st') = Some (dvsize st', False, True)"
        unfolding f using hd(3,4) ne by (cases "dv st = 0") (auto simp: C'_def)
    qed
    moreover have bn: "blocks F {} C ?p = None" using md(5) by (simp add: blocks_def)
    moreover have bl: "blocks F {} C' = (blocks F {} C)(?p \<mapsto> nb)"
    proof
      fix x show "blocks F {} C' x = ((blocks F {} C)(?p \<mapsto> nb)) x"
        using ne new by (cases "x = ?p"; cases "x = ?p + nb") (simp_all add: C'_def blocks_def)
    qed
    moreover have "undisturbed (blocks F {} C) st st'"
      by (rule undisturbed_same [OF conjunct2 [OF t]]) (use bn in \<open>auto simp: bl map_le_def\<close>)
    ultimately have "handed F e C nb st m st'" unfolding st'(2) by (intro handedI)
    then show ?thesis by blast
  qed (use assms(4) in \<open>auto simp: malloc_dv_top_def sys_alloc_def\<close>)
qed

section \<open>Chunks from the bins\<close>

lemma unlinked_loose:
  assumes "heap F e C st" "binned C (top_chunk st) (dv st) p = Some s" "bins st' ((binned C (top_chunk st) (dv st))(p := None))"
    "kept (binned C (top_chunk st) (dv st)) st st'"
  shows "loose F e C p s st'" "undisturbed (blocks F {} C) st st'" "dvsize st' = dvsize st"
proof -
  note hd = heapD [OF assms(1)]
  note r = mid_removed [OF hd(1) assms(3,4)]
  have f: "top_chunk st' = top_chunk st" "dv st' = dv st" "dvsize st' = dvsize st" using assms(4) by (auto simp: kept_def)
  obtain v where c: "C p = Some (s, False, v)" "p \<noteq> top_chunk st" "p \<noteq> dv st" using assms(2) binned_iff by blast
  then have "C p = Some (s, False, True)" using mergedD [OF hd(2) c(1)] by simp
  then show "loose F e C p s st'" using r(1) hd(2-4) c(2,3) unfolding loose_def f by blast
  show "undisturbed (blocks F {} C) st st'" by (rule undisturbed_same [OF r(2)]) simp_all
  show "dvsize st' = dvsize st" by (rule f)
qed

lemma heap_sized: "heap F e C st \<Longrightarrow> sized st (binned C (top_chunk st) (dv st))"
  unfolding sized_def
proof (intro allI impI)
  fix x s assume h: "heap F e C st" and "binned C (top_chunk st) (dv st) x = Some s"
  then obtain v where "C x = Some (s, False, v)" using binned_iff by blast
  then show "chunksize st x = s" using mid_tags(2) [OF heapD(1) [OF h]] by simp
qed

text \<open>From a chunk found in the trees the front is handed out, or all of it.\<close>

lemma tree_pick:
  assumes "heap F e C st" "binned C (top_chunk st) (dv st) v = Some s" "256 \<le> s" "32 \<le> nb" "32 dvd nb" "nb \<le> s"
    "s - nb < MIN_CHUNK_SIZE \<or> (\<forall>C' s1. loose F e C' (v + nb) (s - nb) s1 \<longrightarrow> dvsize s1 = dvsize st \<longrightarrow>
       (\<exists>s2. rest (v + nb) (s - nb) s1 = Inr s2 \<and> heap F e C' s2 \<and> undisturbed (blocks F {} C') s1 s2))"
  shows "\<exists>st'. (if v \<ge> least_addr st \<and> v < v + nb then
        res_bind (unlink_large_chunk v st) (\<lambda>s1.
        if s - nb < MIN_CHUNK_SIZE then Inr (chunk2mem v, set_inuse_and_pinuse v (s - nb + nb) s1)
        else
          res_bind (rest (v + nb) (s - nb)
             (set_size_and_pinuse_of_free_chunk (v + nb) (s - nb) (set_size_and_pinuse_of_inuse_chunk v nb s1))) (\<lambda>s2.
          Inr (chunk2mem v, s2)))
      else ABORT) = Inr (chunk2mem v, st') \<and> handed F e C nb st (chunk2mem v) st'"
proof -
  note hd = heapD [OF assms(1)]
  note md = midD [OF hd(1)]
  obtain s1 where s1: "unlink_large_chunk v st = Inr s1" "bins s1 ((binned C (top_chunk st) (dv st))(v := None))"
    "kept (binned C (top_chunk st) (dv st)) st s1" using unlink_large_spec [OF md(4) assms(2,3)] by blast
  note l = unlinked_loose [OF assms(1,2) s1(2,3)]
  have la: "least_addr st \<le> v" "v < v + nb" using above_least [OF md(4), of v] assms(2,4) by auto
  have dvd: "32 dvd s" using shapeD(8) [OF looseD(7) [OF l(1)] looseD(3) [OF l(1)]] .
  show ?thesis
  proof (cases "s - nb < MIN_CHUNK_SIZE")
    case True
    then have eq: "s = nb" using dvd assms(5,6) by (auto simp: MIN_CHUNK_SIZE_def elim!: dvdE)
    obtain C' where C': "heap F e C' (set_inuse_and_pinuse v s s1)" "blocks F {} C' = (blocks F {} C)(v \<mapsto> s)"
      "undisturbed (blocks F {} C) s1 (set_inuse_and_pinuse v s s1)" using pick_whole [OF l(1) refl] by blast
    have "handed F e C nb st (chunk2mem v) (set_inuse_and_pinuse v s s1)"
      using handedI [OF C'(1) looseD(9) [OF l(1)] C'(2) undisturbed_trans [OF l(2) C'(3)]] eq by simp
    then show ?thesis using la s1(1) True eq by simp
  next
    case False
    define s2 where "s2 = set_size_and_pinuse_of_free_chunk (v + nb) (s - nb) (set_size_and_pinuse_of_inuse_chunk v nb s1)"
    have "nb + 32 \<le> s" using False by (simp add: MIN_CHUNK_SIZE_def)
    then obtain C' where C': "loose F e C' (v + nb) (s - nb) s2" "blocks F {} C' = (blocks F {} C)(v \<mapsto> nb)" "undisturbed (blocks F {} C) s1 s2"
      using pick_front [OF l(1) assms(4,5) _ s2_def] by blast
    have "dvsize s2 = dvsize st" using l(3) by (simp add: s2_def tag_writes)
    then obtain s3 where s3: "rest (v + nb) (s - nb) s2 = Inr s3" "heap F e C' s3" "undisturbed (blocks F {} C') s2 s3"
      using assms(7) False C'(1) by blast
    have "undisturbed (blocks F {} C) s2 s3"
      using s3(3) looseD(9) [OF l(1)] unfolding C'(2) undisturbed_def inside_def by (metis fun_upd_other option.distinct(1))
    then have "handed F e C nb st (chunk2mem v) s3"
      using handedI [OF s3(2) looseD(9) [OF l(1)] C'(2)] undisturbed_trans l(2) C'(3) by blast
    then show ?thesis using la s1(1) False s3(1) by (simp add: s2_def)
  qed
qed

text \<open>There is no chunk that could be handed out.\<close>

definition full :: "chunks \<Rightarrow> nat \<Rightarrow> nat \<Rightarrow> bool" where
  "full C t nb \<longleftrightarrow> (\<forall>p s v. C p = Some (s, False, v) \<longrightarrow> s \<le> nb \<and> (s = nb \<longrightarrow> p = t))"

lemma fullI:
  assumes "heap F e C st" "\<And>p s. binned C (top_chunk st) (dv st) p = Some s \<Longrightarrow> s < nb" "dvsize st < nb" "topsize st \<le> nb"
  shows "full C (top_chunk st) nb"
  unfolding full_def
proof (intro allI impI)
  fix p s v assume c: "C p = Some (s, False, v)"
  note hd = heapD [OF assms(1)]
  show "s \<le> nb \<and> (s = nb \<longrightarrow> p = top_chunk st)"
  proof (cases "p = top_chunk st \<or> p = dv st")
    case True
    then show ?thesis using c hd(3) midD(5) [OF hd(1)] assms(3,4) mid_tags(9) [OF hd(1) c] by auto
  next
    case False
    then have "binned C (top_chunk st) (dv st) p = Some s" using c binned_iff by blast
    then show ?thesis using assms(2) by fastforce
  qed
qed

lemma tmalloc_large_spec:
  assumes "heap F e C st" "256 \<le> nb" "32 dvd nb" "nb < 2 ^ 64"
  shows "\<exists>m st'. tmalloc_large nb st = Inr (m, st') \<and>
    (m = 0 \<and> st' = st \<and> ((\<forall>p s. binned C (top_chunk st) (dv st) p = Some s \<longrightarrow> s < nb) \<or> nb \<le> dvsize st) \<or> m \<noteq> 0 \<and> handed F e C nb st m st')"
proof -
  note hd = heapD [OF assms(1)]
  note md = midD [OF hd(1)]
  obtain v r where run: "tmalloc_large nb st =
      (if v \<noteq> 0 \<and> r < minus64 (dvsize st) nb then
        if v \<ge> least_addr st \<and> v < v + nb then
          res_bind (unlink_large_chunk v st) (\<lambda>s1.
          if r < MIN_CHUNK_SIZE then Inr (chunk2mem v, set_inuse_and_pinuse v (r + nb) s1)
          else
            res_bind (insert_chunk (v + nb) r
               (set_size_and_pinuse_of_free_chunk (v + nb) r (set_size_and_pinuse_of_inuse_chunk v nb s1))) (\<lambda>s2.
            Inr (chunk2mem v, s2)))
        else ABORT
      else Inr (0, st))"
    and vr: "v = 0 \<and> (\<forall>p s. binned C (top_chunk st) (dv st) p = Some s \<longrightarrow> s < nb) \<or>
      v \<noteq> 0 \<and> (\<exists>s. binned C (top_chunk st) (dv st) v = Some s \<and> 256 \<le> s \<and> nb \<le> s \<and> r = s - nb)"
    by (rule large_search [OF md(4) heap_sized [OF assms(1)] assms(2,4)])
  from vr show ?thesis
  proof (elim disjE conjE exE)
    fix s assume s: "v \<noteq> 0" "binned C (top_chunk st) (dv st) v = Some s" "256 \<le> s" "nb \<le> s" "r = s - nb"
    have s63: "s < 2 ^ 63" using apartD(5) [OF binsD(1) [OF md(4)] s(2)] by simp
    show ?thesis
    proof (cases "r < minus64 (dvsize st) nb")
      case True
      have ins: "\<forall>C' s1. loose F e C' (v + nb) (s - nb) s1 \<longrightarrow> dvsize s1 = dvsize st \<longrightarrow>
         (\<exists>s2. insert_chunk (v + nb) (s - nb) s1 = Inr s2 \<and> heap F e C' s2 \<and> undisturbed (blocks F {} C') s1 s2)"
        using loose_insert [OF _ refl] by blast
      have "32 \<le> nb" using assms(2) by simp
      note tp = tree_pick [where rest = insert_chunk, OF assms(1) s(2,3) this assms(3) s(4) disjI2 [OF ins]]
      have "v \<noteq> 0 \<and> r < minus64 (dvsize st) nb" using s(1) True by simp
      note run1 = run [unfolded if_P [OF this]]
      obtain st' where "tmalloc_large nb st = Inr (chunk2mem v, st')" "handed F e C nb st (chunk2mem v) st'"
        unfolding run1 using tp [folded s(5)] by blast
      moreover have "chunk2mem v \<noteq> 0" by (simp add: chunk2mem_def)
      ultimately show ?thesis by blast
    next
      case False
      have "nb \<le> dvsize st"
      proof (rule ccontr)
        assume "\<not> nb \<le> dvsize st"
        then have "minus64 (dvsize st) nb = dvsize st + 2 ^ 64 - nb" by (simp add: minus64_def)
        moreover have "s < dvsize st + 2 ^ 64" using s63 by simp
        then have "s - nb < dvsize st + 2 ^ 64 - nb" using s(4) by (rule diff_less_mono)
        ultimately show False using False s(5) by metis
      qed
      then show ?thesis using run False by simp
    qed
  qed (use run in simp)
qed

lemma tmalloc_small_spec:
  assumes "heap F e C st" "32 \<le> nb" "32 dvd nb" "nb \<le> 224" "treemap st \<noteq> 0" "dvsize st < nb"
  shows "\<exists>m st'. tmalloc_small nb st = Inr (m, st') \<and> m \<noteq> 0 \<and> handed F e C nb st m st'"
proof -
  note md = midD [OF heapD(1) [OF assms(1)]]
  have "nb \<le> 256" using assms(4) by simp
  obtain v s where run: "tmalloc_small nb st =
      (if v \<ge> least_addr st \<and> v < v + nb then
        res_bind (unlink_large_chunk v st) (\<lambda>s1.
        if s - nb < MIN_CHUNK_SIZE then Inr (chunk2mem v, set_inuse_and_pinuse v (s - nb + nb) s1)
        else
          res_bind (replace_dv (v + nb) (s - nb)
             (set_size_and_pinuse_of_free_chunk (v + nb) (s - nb) (set_size_and_pinuse_of_inuse_chunk v nb s1))) (\<lambda>s2.
          Inr (chunk2mem v, s2)))
      else ABORT)" and s: "binned C (top_chunk st) (dv st) v = Some s" "256 \<le> s"
    by (rule small_search [OF md(4) heap_sized [OF assms(1)] \<open>nb \<le> 256\<close> assms(5)])
  have "\<forall>C' s1. loose F e C' (v + nb) (s - nb) s1 \<longrightarrow> dvsize s1 = dvsize st \<longrightarrow>
       (\<exists>s2. replace_dv (v + nb) (s - nb) s1 = Inr s2 \<and> heap F e C' s2 \<and> undisturbed (blocks F {} C') s1 s2)"
  proof (intro allI impI)
    fix C' s1 assume "loose F e C' (v + nb) (s - nb) s1" "dvsize s1 = dvsize st"
    then show "\<exists>s2. replace_dv (v + nb) (s - nb) s1 = Inr s2 \<and> heap F e C' s2 \<and> undisturbed (blocks F {} C') s1 s2"
      using replace_dv_spec [of F e C' "v + nb" "s - nb" s1] assms(4,6) by auto
  qed
  note tp = tree_pick [where rest = replace_dv, OF assms(1) s assms(2,3) _ disjI2 [OF this]]
  then obtain st' where "tmalloc_small nb st = Inr (chunk2mem v, st')" "handed F e C nb st (chunk2mem v) st'"
    using s(2) assms(4) unfolding run by fastforce
  then show ?thesis by (auto simp: chunk2mem_def)
qed

end
