(* ===== verification/DlSpace.thy ===== *)
theory DlSpace
  imports DlAlloc
begin

text \<open>
  The interface of a space: creation, \<open>mspace_malloc\<close> and \<open>mspace_free\<close>.
\<close>

section \<open>malloc\<close>

lemma request_size:
  assumes "nb = request2size n"
  shows "32 \<le> nb" "32 dvd nb" "n + 8 \<le> nb" "nb \<le> n + 39" "n \<le> 216 \<Longrightarrow> nb \<le> 224" "216 < n \<Longrightarrow> nb = pad_request n \<and> 256 \<le> nb"
proof -
  have p: "32 dvd pad_request n" "n + 8 \<le> pad_request n" "pad_request n \<le> n + 39" unfolding pad_request_def by (simp, presburger, presburger)
  show "32 \<le> nb" "32 dvd nb" "n + 8 \<le> nb" "nb \<le> n + 39"
    using p assms by (auto simp: request2size_def MIN_REQUEST_def MIN_CHUNK_SIZE_def elim!: dvdE)
  show "n \<le> 216 \<Longrightarrow> nb \<le> 224"
    using p assms by (auto simp: request2size_def MIN_REQUEST_def MIN_CHUNK_SIZE_def elim!: dvdE)
  show "216 < n \<Longrightarrow> nb = pad_request n \<and> 256 \<le> nb"
    using p assms by (auto simp: request2size_def MIN_REQUEST_def MIN_CHUNK_SIZE_def elim!: dvdE)
qed

lemma small_bin_pick:
  assumes "heap F e C st" "i < 32" "bit (smallmap st) i" "p = fd st (smallbin_at st i)"
  obtains s1 where "unlink_first_small_chunk (smallbin_at st i) p i st = Inr s1" "loose F e C p (8 * i) s1"
    "undisturbed (blocks F {} C) st s1" "dvsize s1 = dvsize st" "32 dvd 8 * i"
proof -
  note md = midD [OF heapD(1) [OF assms(1)]]
  have fr: "binned C (top_chunk st) (dv st) p = Some (8 * i)"
    using small_first [OF md(4) assms(2,3)] assms(4) by (simp add: bin_addresses)
  have "8 * i < 256" "i = small_index (8 * i)" "fd st (hdr (maddr st) i) = p"
    using assms(2,4) by (simp_all add: small_index_def bin_addresses)
  then obtain s1 where s1: "unlink_first_small_chunk (smallbin_at st i) p i st = Inr s1"
    "bins s1 ((binned C (top_chunk st) (dv st))(p := None))" "kept (binned C (top_chunk st) (dv st)) st s1"
    using unlink_first_small_spec [OF md(4) fr] by blast
  note l = unlinked_loose [OF assms(1) fr s1(2,3)]
  have "32 dvd 8 * i" using shapeD(8) [OF looseD(7) [OF l(1)] looseD(3) [OF l(1)]] .
  then show ?thesis using that s1(1) l by blast
qed

lemma no_small:
  assumes "heap F e C st" "binned C (top_chunk st) (dv st) p = Some s" "nb \<le> s" "s < 256" "32 dvd nb" "drop_bit (small_index nb) (smallmap st) = 0"
  shows False
proof -
  note md = midD [OF heapD(1) [OF assms(1)]]
  obtain ch where ch: "small_ok (maddr st) (smallmap st) (words st) (binned C (top_chunk st) (dv st)) ch" using md(4) by (auto simp: bins_def)
  define i where "i = s div 8"
  have i: "s = 8 * i" "i < 32" using apartD(3) [OF binsD(1) [OF md(4)] assms(2)] assms(4) by (auto simp: i_def dvd_def)
  have "p \<in> set (ch i)" using small_okD(4) [OF ch i(2)] assms(2) i(1) by simp
  then have "bit (smallmap st) i" using small_okD(1) [OF ch i(2)] by (metis empty_iff empty_set)
  moreover have "small_index nb \<le> i" using assms(3) i(1) by (simp add: small_index_def)
  ultimately have "bit (drop_bit (small_index nb) (smallmap st)) (i - small_index nb)" by (simp add: bit_drop_bit_eq)
  then show False using assms(6) by simp
qed

lemma no_large:
  assumes "heap F e C st" "binned C (top_chunk st) (dv st) p = Some s" "256 \<le> s" "treemap st = 0"
  shows False
proof -
  note md = midD [OF heapD(1) [OF assms(1)]]
  note ap = binsD(1) [OF md(4)]
  obtain N cl lo lv where t: "tree_ok (maddr st) (treemap st) (words st) (binned C (top_chunk st) (dv st)) N cl lo lv"
    using md(4) by (auto simp: bins_def)
  obtain y where "y \<in> N" using tree_okD(3) [OF t assms(2,3)] by blast
  moreover from this have "words st (at y 56) < 32" by (rule nodeD [OF t ap])
  ultimately show False using under_root [OF t ap, of y] tree_okD(4) [OF t, of "words st (at y 56)"] assms(4) by auto
qed

lemma and_3: "x AND 3 \<noteq> 0 \<longleftrightarrow> bit x 0 \<or> bit x 1" for x :: u32
proof -
  have "x AND 3 = take_bit 2 x" by (simp add: take_bit_eq_mask mask_eq_exp_minus_1)
  moreover have "take_bit 2 x = 0 \<longleftrightarrow> (\<forall>j < 2. \<not> bit x j)" by (auto simp: bit_eq_iff bit_take_bit_iff dest: bit_imp_possible_bit)
  ultimately show ?thesis by (auto simp: less_2_cases_iff)
qed

lemma malloc_small_spec:
  assumes "heap F e C st" "32 \<le> nb" "32 dvd nb" "nb \<le> 224"
  shows "\<exists>m st'. malloc_small nb st = Inr (m, st') \<and> (m = 0 \<and> st' = st \<and> full C (top_chunk st) nb \<or> handed F e C nb st m st')"
proof -
  define idx sb where "idx = small_index nb" and "sb = drop_bit idx (smallmap st)"
  have idx: "nb = 8 * idx" "idx < 31" "4 dvd idx" using assms(2-4) by (auto simp: idx_def small_index_def elim!: dvdE)
  have odd: "\<not> bit (smallmap st) i" if "i < 32" "\<not> 4 dvd i" for i
  proof
    assume "bit (smallmap st) i"
    from small_bin_pick [OF assms(1) that(1) this refl] have "32 dvd 8 * i" by blast
    then show False using that(2) by (auto elim!: dvdE)
  qed
  have "\<not> bit (smallmap st) (idx + 1)" using odd [of "idx + 1"] idx(2,3) by (auto elim!: dvdE) presburger
  then have and3: "sb AND 3 \<noteq> 0 \<longleftrightarrow> bit (smallmap st) idx" by (simp add: and_3 sb_def bit_drop_bit_eq)
  show ?thesis
  proof (cases "bit (smallmap st) idx")
    case True
    have b0: "bit sb 0" using True by (simp add: sb_def bit_drop_bit_eq)
    define p where "p = fd st (smallbin_at st idx)"
    obtain s1 where s1: "unlink_first_small_chunk (smallbin_at st idx) p idx st = Inr s1" "loose F e C p (8 * idx) s1"
      "undisturbed (blocks F {} C) st s1" using small_bin_pick [OF assms(1) _ True p_def] idx(2) by auto
    obtain C' where C': "heap F e C' (set_inuse_and_pinuse p (8 * idx) s1)" "blocks F {} C' = (blocks F {} C)(p \<mapsto> 8 * idx)"
      "undisturbed (blocks F {} C) s1 (set_inuse_and_pinuse p (8 * idx) s1)" using pick_whole [OF s1(2) refl] by blast
    have "malloc_small nb st = Inr (chunk2mem p, set_inuse_and_pinuse p (8 * idx) s1)"
      using and3 True b0 s1(1) by (simp add: malloc_small_def Let_def small_index2size_def flip: idx_def sb_def p_def)
    moreover have "handed F e C nb st (chunk2mem p) (set_inuse_and_pinuse p (8 * idx) s1)"
      using handedI [OF C'(1) looseD(9) [OF s1(2)] C'(2) undisturbed_trans [OF s1(3) C'(3)]] idx(1) by simp
    ultimately show ?thesis by blast
  next
    case nobit: False
    define md where "md = malloc_dv_top nb st"
    obtain m st' where mdt: "malloc_dv_top nb st = (m, st')" by fastforce
    note dt = malloc_dv_top_spec [OF assms(1-3) mdt]
    show ?thesis
    proof (cases "dvsize st < nb")
      case False
      then have "malloc_small nb st = Inr (m, st')" using and3 nobit mdt by (simp add: malloc_small_def Let_def flip: idx_def sb_def)
      then show ?thesis using dt False by auto
    next
      case dv: True
      show ?thesis
      proof (cases "sb = 0")
        case False
        define lb where "lb = push_bit idx sb AND left_bits (idx2bit idx)"
        have lbit: "bit lb j \<longleftrightarrow> bit (smallmap st) j \<and> idx < j" if "j < 32" for j
          using that left_bits_bit [of idx j] idx(2) by (auto simp: lb_def sb_def bit_and_iff bit_push_bit_iff bit_drop_bit_eq)
        obtain k where k: "bit sb k" using False by (auto simp: bit_eq_iff)
        then have "bit (smallmap st) (idx + k)" "k \<noteq> 0" using nobit by (auto simp: sb_def bit_drop_bit_eq intro!: gr0I)
        then have "bit lb (idx + k)" using lbit [of "idx + k"] bit_imp_le_length by fastforce
        then have "lb \<noteq> 0" by auto
        define i where "i = compute_bit2idx (least_bit lb)"
        note fb = first_bit [OF \<open>lb \<noteq> 0\<close> i_def]
        have i: "bit (smallmap st) i" "idx < i" using lbit [OF fb(1)] fb(2) by auto
        define p where "p = fd st (smallbin_at st i)"
        obtain s1 where s1: "unlink_first_small_chunk (smallbin_at st i) p i st = Inr s1" "loose F e C p (8 * i) s1"
          "undisturbed (blocks F {} C) st s1" "dvsize s1 = dvsize st" "32 dvd 8 * i" by (rule small_bin_pick [OF assms(1) fb(1) i(1) p_def])
        have big: "nb + 32 \<le> 8 * i" using s1(5) assms(3) i(2) idx(1) by (auto elim!: dvdE)
        define s2 where "s2 = set_size_and_pinuse_of_free_chunk (p + nb) (8 * i - nb) (set_size_and_pinuse_of_inuse_chunk p nb s1)"
        obtain C' where C': "loose F e C' (p + nb) (8 * i - nb) s2" "blocks F {} C' = (blocks F {} C)(p \<mapsto> nb)" "undisturbed (blocks F {} C) s1 s2"
          using pick_front [OF s1(2) assms(2,3) big s2_def] by blast
        have "dvsize s2 < 256" using s1(4) dv assms(4) by (simp add: s2_def tag_writes)
        then obtain s3 where s3: "replace_dv (p + nb) (8 * i - nb) s2 = Inr s3" "heap F e C' s3" "undisturbed (blocks F {} C') s2 s3"
          using replace_dv_spec [OF C'(1)] by blast
        have "undisturbed (blocks F {} C) s2 s3"
          using s3(3) looseD(9) [OF s1(2)] unfolding C'(2) undisturbed_def inside_def by (metis fun_upd_other option.distinct(1))
        then have "handed F e C nb st (chunk2mem p) s3"
          using handedI [OF s3(2) looseD(9) [OF s1(2)] C'(2)] undisturbed_trans s1(3) C'(3) by blast
        moreover have "malloc_small nb st = Inr (chunk2mem p, s3)"
          using and3 nobit dv False s1(1) s3(1) big
          unfolding malloc_small_def Let_def idx_def [symmetric] sb_def [symmetric] lb_def [symmetric]
          unfolding i_def [symmetric] p_def [symmetric]
          by (simp add: small_index2size_def MIN_CHUNK_SIZE_def flip: s2_def)
        ultimately show ?thesis by blast
      next
        case sb0: True
        show ?thesis
        proof (cases "treemap st = 0")
          case True
          have run: "malloc_small nb st = Inr (m, st')"
            using and3 nobit dv sb0 True mdt by (simp add: malloc_small_def Let_def flip: idx_def sb_def)
          have "full C (top_chunk st) nb" if "topsize st \<le> nb"
          proof (rule fullI [OF assms(1) _ dv that])
            fix p s assume "binned C (top_chunk st) (dv st) p = Some s"
            then show "s < nb"
              using no_small [OF assms(1), of p s nb] no_large [OF assms(1), of p s] assms(3) sb0 True
              by (metis idx_def leI sb_def)
          qed
          then show ?thesis using run dt by blast
        next
          case False
          obtain m st' where "tmalloc_small nb st = Inr (m, st')" "m \<noteq> 0" "handed F e C nb st m st'"
            using tmalloc_small_spec [OF assms False dv] by blast
          then show ?thesis
            using and3 nobit dv sb0 False by (simp add: malloc_small_def Let_def flip: idx_def sb_def)
        qed
      qed
    qed
  qed
qed

lemma mspace_malloc_spec:
  assumes "heap F e C st" "n < 2 ^ 64" "nb = request2size n"
  shows "\<exists>m st'. mspace_malloc n st = Inr (m, st') \<and> (m = 0 \<and> st' = st \<and> full C (top_chunk st) nb \<or> handed F e C nb st m st')"
proof -
  note hd = heapD [OF assms(1)]
  note md = midD [OF hd(1)] and d = shapeD [OF midD(1) [OF hd(1)]]
  note rs = request_size [OF assms(3)]
  have small: "s < 2 ^ 40" if "C p = Some (s, u, v)" for p s u v using d(4) d(9,11) [OF that] by simp
  consider "n \<le> 216" | "216 < n" "n < MAX_REQUEST" | "MAX_REQUEST \<le> n" by linarith
  then show ?thesis
  proof cases
    case 1
    then show ?thesis
      using malloc_small_spec [OF assms(1) rs(1,2) rs(5)] by (simp add: mspace_malloc_def MAX_SMALL_REQUEST_def assms(3))
  next
    case 2
    have nb: "nb = pad_request n" "256 \<le> nb" "nb < 2 ^ 64" using rs(4,6) 2 by (auto simp: MAX_REQUEST_def)
    obtain m st' where mdt: "malloc_dv_top nb st = (m, st')" by fastforce
    note dt = malloc_dv_top_spec [OF assms(1) rs(1,2) mdt]
    show ?thesis
    proof (cases "treemap st = 0")
      case True
      then have run: "mspace_malloc n st = Inr (m, st')"
        using 2 mdt nb(1) by (simp add: mspace_malloc_def MAX_SMALL_REQUEST_def Let_def)
      have "full C (top_chunk st) nb" if "dvsize st < nb" "topsize st \<le> nb"
      proof (rule fullI [OF assms(1) _ that])
        fix p s assume "binned C (top_chunk st) (dv st) p = Some s"
        then show "s < nb" using no_large [OF assms(1), of p s] True nb(2) by (metis leI less_le_trans)
      qed
      then show ?thesis using run dt by blast
    next
      case False
      obtain m1 s1 where t: "tmalloc_large nb st = Inr (m1, s1)" "m1 = 0 \<and> s1 = st \<and> ((\<forall>p s. binned C (top_chunk st) (dv st) p = Some s \<longrightarrow> s < nb) \<or>
        nb \<le> dvsize st) \<or> m1 \<noteq> 0 \<and> handed F e C nb st m1 s1" using tmalloc_large_spec [OF assms(1) nb(2) rs(2) nb(3)] by blast
      have run: "mspace_malloc n st = (if m1 \<noteq> 0 then Inr (m1, s1) else Inr (malloc_dv_top nb s1))"
        using 2 False t(1) nb(1) by (simp add: mspace_malloc_def MAX_SMALL_REQUEST_def Let_def)
      show ?thesis
      proof (cases "m1 = 0")
        case True
        then have r2: "mspace_malloc n st = Inr (m, st')" using run t(2) mdt by auto
        have "full C (top_chunk st) nb" if "dvsize st < nb" "topsize st \<le> nb"
          using fullI [OF assms(1) _ that] t(2) True that(1) by auto
        then show ?thesis using r2 dt by blast
      qed (use run t(2) in auto)
    qed
  next
    case 3
    have big: "2 ^ 40 \<le> nb" using 3 rs(3) by (simp add: MAX_REQUEST_def)
    have dvs: "dvsize st < 2 ^ 40"
      using hd(3,4) small by (cases "dv st = 0") auto
    have "topsize st < 2 ^ 40" using small [OF md(5)] .
    then have "malloc_dv_top MAX_SIZE_T st = (0, st)" using dvs by (simp add: malloc_dv_top_def MAX_SIZE_T_def sys_alloc_def)
    then have "mspace_malloc n st = Inr (0, st)" using 3 by (simp add: mspace_malloc_def MAX_SMALL_REQUEST_def MAX_REQUEST_def)
    moreover have "full C (top_chunk st) nb" unfolding full_def using small big by (metis less_le_trans less_imp_le less_irrefl)
    ultimately show ?thesis by blast
  qed
qed

end
