(* ===== verification/DlResize.thy ===== *)
theory DlResize
  imports DlSpace
begin

text \<open>
  Blocks that change their size, aligned and cleared blocks: \<open>try_realloc_chunk\<close>, \<open>mspace_realloc\<close>, \<open>internal_memalign\<close>,
  \<open>mspace_memalign\<close> and \<open>mspace_calloc\<close>.
\<close>

section \<open>Writes to blocks\<close>

lemma heap_frame:
  assumes "heap F e C st" "st' = st\<lparr>words := words st'\<rparr>" "\<And>a. words st' a \<noteq> words st a \<Longrightarrow> inside (blocks F {} C) a"
  shows "heap F e C st'"
proof -
  note hd = heapD [OF assms(1)]
  note md = midD [OF hd(1)] and d = shapeD [OF midD(1) [OF hd(1)]]
  let ?fr = "binned C (top_chunk st) (dv st)"
  have f: "top_chunk st' = top_chunk st" "topsize st' = topsize st" "dv st' = dv st" "dvsize st' = dvsize st" "maddr st' = maddr st"
    "least_addr st' = least_addr st" "smallmap st' = smallmap st" "treemap st' = treemap st" by (subst assms(2), simp)+
  have fr: "\<exists>v. C q = Some (z, False, v)" if "?fr q = Some z" for q z using md(7) that by blast
  have "\<not> touch (F + 16) ?fr a" if "words st' a \<noteq> words st a" for a
    using not_touched(3) [OF md(1) fr, where X = "{}"] assms(3) [OF that] unfolding data_blocks by blast
  then have bins: "bins st' ?fr" by (intro bins_cong [OF md(4)]) (use md(3) f in metis)+
  have "tagged {} C (top_chunk st) (words st')"
    unfolding tagged_def
  proof (intro allI impI)
    fix q z u' v' assume q: "C q = Some (z, u', v')" "q \<notin> {}"
    have "words st' (at q 8) = words st (at q 8)"
    proof (rule ccontr)
      assume "words st' (at q 8) \<noteq> words st (at q 8)"
      from assms(3) [OF this] obtain p s u where p: "C p = Some (s, True, u)" "p + 16 \<le> at q 8" "at q 8 < p + s + 8" by (auto simp: inside_def blocks_iff)
      then show False using d(13) [OF p(1) q(1)] by (auto simp: at_def)
    qed
    moreover have "words st' (at (q + z) 0) = words st (at (q + z) 0)" if free: "\<not> u'" and nt: "q \<noteq> top_chunk st"
    proof (rule ccontr)
      assume "words st' (at (q + z) 0) \<noteq> words st (at (q + z) 0)"
      from assms(3) [OF this] obtain p s u where p: "C p = Some (s, True, u)" "p + 16 \<le> q + z" "q + z < p + s + 8"
        by (auto simp: inside_def blocks_iff at_def)
      obtain x y where n: "C (q + z) = Some (x, y, u')" using d(12) [OF q(1) nt] by blast
      have "p + s \<le> q + z" using d(13) [OF p(1) n] p(2) by simp
      moreover have "(p + s) mod 32 = 16" using d(10) [OF p(1)] d(8) [OF p(1)] by (auto elim!: dvdE)
      ultimately have "q + z = p + s" using aligned_close [OF d(10) [OF n]] p(3) by simp
      then have "q = p" by (rule shape_ends [OF md(1) q(1) p(1)])
      then show False using q(1) p(1) free by simp
    qed
    ultimately show "words st' (at q 8) = headword z u' v' \<and> (\<not> u' \<longrightarrow> q \<noteq> top_chunk st \<longrightarrow> words st' (at (q + z) 0) = z)"
      using taggedD [OF md(2) q] by auto
  qed
  then have "mid F e C {} ?fr st'" using md(1,3,5,6,7) bins unfolding mid_def f by simp
  then show ?thesis using hd(2-4) unfolding heap_def f by auto
qed

lemma heap_write:
  assumes "heap F e C st" "inside (blocks F {} C) a"
  shows "heap F e C (poke a v st)"
  by (rule heap_frame [OF assms(1)]) (use assms(2) in \<open>auto simp: poke_def split: if_splits\<close>)

section \<open>Used chunks are split and extended\<close>

lemma headword_any:
  assumes "32 dvd s"
  shows "(g AND 1) OR s OR 2 = headword s True (odd g)"
proof -
  have "headword 0 False (odd g) AND 1 = g AND 1" by (simp add: and_one_eq headword_def) presburger
  then show ?thesis using headword_keep [OF assms, of 0 False "odd g"] by simp
qed

lemma set_bit_0_odd: "odd (set_bit 0 (g::nat))"
  by (simp add: set_bit_0)

lemma undisturbed_inside:
  assumes "same_data F X C X' C' st st'" "\<And>a. inside B a \<Longrightarrow> inside (blocks F X C) a" "\<And>a. inside B a \<Longrightarrow> inside (blocks F X' C') a"
  shows "undisturbed B st st'"
  using assms unfolding undisturbed_def same_data_def data_blocks by blast

lemma mid_split_used:
  assumes "mid F e C {} fr st" "C p = Some (s, True, v)" "p \<noteq> F" "32 \<le> nb" "32 dvd nb" "nb + 32 \<le> s"
    "words st' = (words st)(at p 8 := headword nb True v, at (p + nb) 8 := headword (s - nb) True True)"
    "st' = st\<lparr>words := words st'\<rparr>" "C' = C(p \<mapsto> (nb, True, v), p + nb \<mapsto> (s - nb, True, True))"
  shows "mid F e C' {} fr st' \<and> same_data F {} C {} C' st st'"
proof -
  note md = midD [OF assms(1)] and d = shapeD [OF midD(1) [OF assms(1)]]
  have new: "C (p + nb) = None"
  proof (rule ccontr)
    assume "C (p + nb) \<noteq> None"
    then show False using d(13) [OF assms(2), of "p + nb"] assms(4,6) by auto
  qed
  have ne: "p + nb \<noteq> p" "p \<noteq> top_chunk st" "p + nb \<noteq> top_chunk st" "fr p = None" "fr (p + nb) = None"
    using assms(2,4) new md(5) mid_not_free(1,2) [OF assms(1)] by auto
  have f: "top_chunk st' = top_chunk st" "topsize st' = topsize st" "maddr st' = maddr st" "least_addr st' = least_addr st"
    "smallmap st' = smallmap st" "treemap st' = treemap st" by (subst assms(8), simp)+
  have sh: "shape F (top_chunk st') e C'" using shape_split [OF md(1) assms(2-6), of True] ne(2) by (simp add: assms(9) f)
  have C': "C' p = Some (nb, True, v)" "C' (p + nb) = Some (s - nb, True, True)" using assms(4) by (auto simp: assms(9))
  have tw: "tagword {p, p + nb} C' t (at p 8)" "tagword {p, p + nb} C' t (at (p + nb) 8)" for t
    using tagwordI(1) [of p _ C'] tagwordI(1) [of "p + nb" _ C'] C' by auto
  show ?thesis
  proof (rule retag [OF assms(1) sh, where H = "{p, p + nb}"])
    show "tagword {p, p + nb} C' (top_chunk st') a" if "words st' a \<noteq> words st a" for a
      using that tw unfolding assms(7) by (auto split: if_splits)
    have "tag_ok C' st' p" "tag_ok C' st' (p + nb)"
      using tag_okI(1) [of C' p nb v st'] tag_okI(1) [of C' "p + nb" "s - nb" True st'] C' ne unfolding assms(7) by (simp_all add: tag_inject)
    then show "tag_ok C' st' q" if "q \<in> {p, p + nb}" for q using that by blast
  qed (use ne md(5) f in \<open>auto simp: assms(9)\<close>)
qed

lemma mid_absorb:
  assumes "mid F e C {} fr st" "C p = Some (s, True, v)" "p \<noteq> F" "n = p + s" "C n = Some (z, False, True)" "n \<noteq> top_chunk st" "fr n = None"
    "C (n + z) = Some (s2, True, False)"
    "words st' = (words st)(at p 8 := headword (s + z) True v, at (n + z) 8 := headword s2 True True)"
    "st' = st\<lparr>words := words st'\<rparr>" "C' = C(p \<mapsto> (s + z, True, v), n := None, n + z \<mapsto> (s2, True, True))"
  shows "mid F e C' {} fr st' \<and> same_data F {} C {} C' st st'"
proof -
  note md = midD [OF assms(1)] and d = shapeD [OF midD(1) [OF assms(1)]]
  have pos: "32 \<le> s" "32 \<le> z" using d(7) [OF assms(2)] d(7) [OF assms(5)] by auto
  have ne: "n \<noteq> p" "p \<noteq> top_chunk st" "n + z \<noteq> top_chunk st" "n + z \<noteq> p" "n + z \<noteq> n" "fr p = None" "fr (n + z) = None" "p + (s + z) = n + z"
    using pos assms(2,4,8) md(5) mid_not_free(1,4) [OF assms(1)] by auto
  have f: "top_chunk st' = top_chunk st" "topsize st' = topsize st" "maddr st' = maddr st" "least_addr st' = least_addr st"
    "smallmap st' = smallmap st" "treemap st' = treemap st" by (subst assms(10), simp)+
  have sh: "shape F (top_chunk st') e C'"
  proof -
    let ?C1 = "C(p \<mapsto> (s + z, False, v), n := None)"
    have s1: "shape F (top_chunk st) e ?C1" using shape_merge [OF md(1) assms(2,3) ne(2), of z False True] assms(4-6) by simp
    have "?C1 p = Some (s + z, False, v)" "?C1 (p + (s + z)) = Some (s2, True, False)" unfolding ne(8) using ne(1,4,5) assms(8) by auto
    moreover have "?C1(p \<mapsto> (s + z, True, v), n + z \<mapsto> (s2, True, True)) = C'"
      unfolding assms(11) by (rule ext) (use ne(1) in auto)
    ultimately show ?thesis using shape_toggle [OF s1 _ ne(2) assms(3), of "s + z" False v s2 True True] unfolding f ne(8) by metis
  qed
  have C': "C' p = Some (s + z, True, v)" "C' n = None" "C' (n + z) = Some (s2, True, True)" using ne by (auto simp: assms(11))
  have tw: "tagword {p, n, n + z} C' t (at p 8)" "tagword {p, n, n + z} C' t (at (n + z) 8)" for t
    using tagwordI(1) [of p _ C'] tagwordI(1) [of "n + z" _ C'] C' by auto
  show ?thesis
  proof (rule retag [OF assms(1) sh, where H = "{p, n, n + z}"])
    show "tagword {p, n, n + z} C' (top_chunk st') a" if "words st' a \<noteq> words st a" for a
      using that tw unfolding assms(9) by (auto split: if_splits)
    have "tag_ok C' st' p" "tag_ok C' st' n" "tag_ok C' st' (n + z)"
      using tag_okI(1) [of C' p "s + z" v st'] tag_okI(3) [of C' n st'] tag_okI(1) [of C' "n + z" s2 True st'] C' ne
      unfolding assms(9) by (simp_all add: tag_inject)
    then show "tag_ok C' st' q" if "q \<in> {p, n, n + z}" for q using that by blast
  qed (use ne md(5) f assms(6,7) in \<open>auto simp: assms(11)\<close>)
qed

text \<open>A chunk grows into the top chunk or into the designated victim, of which the rest stays.\<close>

lemma grow_shape:
  assumes "shape F t e C" "C p = Some (s, True, v)" "p \<noteq> F" "p \<noteq> t" "C (p + s) = Some (z, False, True)" "32 \<le> nb" "32 dvd nb" "nb + 32 \<le> s + z" "s < nb"
  shows "shape F (if p + s = t then p + nb else t) e (C(p \<mapsto> (nb, True, v), p + s := None, p + nb \<mapsto> (s + z - nb, False, True)))"
proof -
  note d = shapeD [OF assms(1)]
  let ?C1 = "C(p \<mapsto> (s + z, False, v), p + s := None)"
  have sp: "32 \<le> s" using d(7) [OF assms(2)] .
  have s1: "shape F (if p + s = t then p else t) e ?C1" by (rule shape_merge [OF assms(1-5)])
  have "?C1 p = Some (s + z, False, v)" using sp by simp
  note sl = shape_split [OF s1 this assms(3,6-8), of True]
  have eq: "?C1(p \<mapsto> (nb, True, v)) = C(p \<mapsto> (nb, True, v), p + s := None)"
    by (rule ext) (use sp in \<open>simp add: fun_upd_apply\<close>)
  have tp: "(if p = (if p + s = t then p else t) then p + nb else if p + s = t then p else t) = (if p + s = t then p + nb else t)"
    using assms(4) by auto
  show ?thesis using sl unfolding eq tp .
qed

lemma mid_grow:
  assumes "mid F e C {} fr st" "C p = Some (s, True, v)" "p \<noteq> F" "n = p + s" "C n = Some (z, False, True)" "fr n = None"
    "32 \<le> nb" "32 dvd nb" "nb + 32 \<le> s + z" "s < nb" "r = s + z - nb"
    "if n = top_chunk st then words st' = (words st)(at p 8 := headword nb True v, at (p + nb) 8 := headword r False True) \<and>
         top_chunk st' = p + nb \<and> topsize st' = r
     else words st' = (words st)(at p 8 := headword nb True v, at (p + nb) 8 := headword r False True, at (p + nb + r) 0 := r) \<and>
         top_chunk st' = top_chunk st \<and> topsize st' = topsize st"
    "maddr st' = maddr st" "least_addr st' = least_addr st" "smallmap st' = smallmap st" "treemap st' = treemap st"
    "C' = C(p \<mapsto> (nb, True, v), n := None, p + nb \<mapsto> (r, False, True))"
  shows "mid F e C' {} fr st' \<and> same_data F {} C {} C' st st'"
proof -
  note md = midD [OF assms(1)] and d = shapeD [OF midD(1) [OF assms(1)]]
  have pos: "32 \<le> s" "32 \<le> z" using d(7) [OF assms(2)] d(7) [OF assms(5)] by auto
  have new: "C (p + nb) = None"
  proof (rule ccontr)
    assume "C (p + nb) \<noteq> None"
    then show False using d(13) [OF assms(5), of "p + nb"] assms(4,9,10) by auto
  qed
  have ne: "n \<noteq> p" "p \<noteq> top_chunk st" "p + nb \<noteq> p" "p + nb \<noteq> n" "p + nb \<noteq> top_chunk st" "fr p = None" "fr (p + nb) = None"
    using pos assms(2,4,10) new md(5) mid_not_free(1,2) [OF assms(1)] by auto
  have sh: "shape F (top_chunk st') e C'"
    using grow_shape [OF md(1) assms(2,3) ne(2) assms(5) [unfolded assms(4)] assms(7-10)] assms(12) unfolding assms(4,11,17)
    by (cases "p + s = top_chunk st") simp_all
  have C': "C' p = Some (nb, True, v)" "C' n = None" "C' (p + nb) = Some (r, False, True)" using ne by (auto simp: assms(17))
  have tops: "C' (top_chunk st') = Some (topsize st', False, True)"
    using C' assms(12) md(5) ne by (cases "n = top_chunk st") (auto simp: assms(17))
  have tt: "top_chunk st' = top_chunk st \<or> top_chunk st' \<in> {p, n, p + nb} \<and> top_chunk st \<in> {p, n, p + nb}" using assms(12) by (auto split: if_splits)
  have "32 dvd r" using d(8) [OF assms(2)] d(8) [OF assms(5)] assms(8,9,11) by simp
  then have al: "(p + nb) mod 32 = 16" "(p + nb + r) mod 32 = 16" using d(10) [OF assms(2)] assms(8) by (auto elim!: dvdE)
  have cells: "at p 8 \<noteq> at (p + nb + r) 0" "at (p + nb) 8 \<noteq> at (p + nb + r) 0"
    using tag_cells(1) [OF d(10) [OF assms(2)] al(2)] tag_cells(1) [OF al] by auto
  have tw: "tagword {p, n, p + nb} C' t (at p 8)" "tagword {p, n, p + nb} C' t (at (p + nb) 8)"
    "p + nb \<noteq> t \<Longrightarrow> tagword {p, n, p + nb} C' t (at (p + nb + r) 0)" for t
    using tagwordI(1) [of p _ C'] tagwordI(1) [of "p + nb" _ C'] tagwordI(2) [of "p + nb" _ C' r True t] C' by auto
  show ?thesis
  proof (rule retag [OF assms(1) sh tops _ _ tt])
    show "tagword {p, n, p + nb} C' (top_chunk st') a" if "words st' a \<noteq> words st a" for a
      using that tw assms(12) ne(5) by (cases "n = top_chunk st") (auto split: if_splits)
    have "tag_ok C' st' p" "tag_ok C' st' n" "tag_ok C' st' (p + nb)"
      using tag_okI(1) [of C' p nb v st'] tag_okI(3) [of C' n st'] tag_okI(2) [of C' "p + nb" r True st'] C' ne cells assms(12)
      by (cases "n = top_chunk st"; simp add: tag_inject)+
    then show "tag_ok C' st' q" if "q \<in> {p, n, p + nb}" for q using that by blast
  qed (use ne assms(6,13-16) in \<open>auto simp: assms(17)\<close>)
qed

section \<open>Sizes of blocks\<close>

lemma inside_upd: "inside (B(p \<mapsto> n)) a \<Longrightarrow> B p = Some s \<Longrightarrow> n \<le> s \<Longrightarrow> inside B a"
  unfolding inside_def by (auto split: if_splits) force+

lemma undisturbed_less: "undisturbed B st st' \<Longrightarrow> (\<And>a. inside B' a \<Longrightarrow> inside B a) \<Longrightarrow> undisturbed B' st st'"
  unfolding undisturbed_def by blast

lemma heap_block: "C p = Some (s, True, v) \<Longrightarrow> p \<noteq> F \<Longrightarrow> blocks F {} C p = Some s"
  unfolding blocks_iff by simp

lemma heap_dv: "heap F e C st \<Longrightarrow> dv st = 0 \<and> dvsize st = 0 \<or> dv st \<noteq> top_chunk st \<and> C (dv st) = Some (dvsize st, False, True)"
  by (simp add: heap_def)

lemma heap_zero: "heap F e C st \<Longrightarrow> C 0 = None"
  using shapeD(10) [OF midD(1) [OF heapD(1)], of F e C st 0] by (cases "C 0") auto

lemma set_inuse_words:
  assumes "32 dvd s" "0 < s"
  shows "words (set_inuse p s st) = (words st)(at p 8 := headword s True (odd (head st p)), at (p + s) 8 := set_bit 0 (head st (p + s)))"
    "set_inuse p s st = st\<lparr>words := words (set_inuse p s st)\<rparr>"
proof -
  show "words (set_inuse p s st) = (words st)(at p 8 := headword s True (odd (head st p)), at (p + s) 8 := set_bit 0 (head st (p + s)))"
    unfolding set_inuse_def set_pinuse_def headword_any [OF assms(1)] using assms(2) by (simp add: tag_inject)
qed (simp add: set_inuse_def set_pinuse_def poke_def)

lemma headword_odd [simp]: "32 dvd s \<Longrightarrow> odd (headword s u v) = v"
  using headword_simps(6) [of s u v] by (simp add: bit_0)

lemma heap_split:
  assumes "heap F e C st" "C p = Some (s, True, v)" "p \<noteq> F" "32 \<le> nb" "32 dvd nb" "nb + 32 \<le> s"
    "words st' = (words st)(at p 8 := headword nb True v, at (p + nb) 8 := headword (s - nb) True True)" "st' = st\<lparr>words := words st'\<rparr>"
    "C' = C(p \<mapsto> (nb, True, v), p + nb \<mapsto> (s - nb, True, True))"
  shows "heap F e C' st'" "blocks F {} C' = (blocks F {} C)(p \<mapsto> nb, p + nb \<mapsto> s - nb)" "undisturbed (blocks F {} C') st st'"
    "C' p = Some (nb, True, v)" "C' (p + nb) = Some (s - nb, True, True)" "p + nb \<noteq> F" "blocks F {} C (p + nb) = None"
proof -
  note hd = heapD [OF assms(1)]
  note d = shapeD [OF midD(1) [OF hd(1)]]
  note ms = mid_split_used [OF hd(1) assms(2-9)]
  have new: "C (p + nb) = None"
  proof (rule ccontr)
    assume "C (p + nb) \<noteq> None"
    then show False using d(13) [OF assms(2), of "p + nb"] assms(4,6) by auto
  qed
  show C': "C' p = Some (nb, True, v)" "C' (p + nb) = Some (s - nb, True, True)" "p + nb \<noteq> F" "blocks F {} C (p + nb) = None"
    using assms(4) new d(1) by (auto simp: assms(9) blocks_simps)
  have f: "top_chunk st' = top_chunk st" "dv st' = dv st" "dvsize st' = dvsize st" by (subst assms(8), simp)+
  show "heap F e C' st'"
  proof (rule heapI [OF conjunct1 [OF ms]])
    show "binned C (top_chunk st) (dv st) x = binned C' (top_chunk st') (dv st') x" for x
      unfolding f using assms(2) new by (auto simp: assms(9) binned_def)
    show "merged C'" using hd(2) by (auto simp: merged_def assms(9))
    show "dv st' = 0 \<and> dvsize st' = 0 \<or> dv st' \<noteq> top_chunk st' \<and> C' (dv st') = Some (dvsize st', False, True)"
      unfolding f using heap_dv [OF assms(1)] assms(2) new by (auto simp: assms(9))
  qed
  show bl: "blocks F {} C' = (blocks F {} C)(p \<mapsto> nb, p + nb \<mapsto> s - nb)"
  proof
    fix x show "blocks F {} C' x = ((blocks F {} C)(p \<mapsto> nb, p + nb \<mapsto> s - nb)) x"
      using heap_block [of C' p nb v F] heap_block [of C' "p + nb" "s - nb" True F] C' assms(3) blocks_other [of x "{}" "{}" C' C F]
      by (cases "x = p + nb"; cases "x = p") (simp_all add: assms(9))
  qed
  show "undisturbed (blocks F {} C') st st'"
  proof (rule undisturbed_inside [OF conjunct2 [OF ms]])
    fix a assume "inside (blocks F {} C') a"
    then obtain q z where q: "blocks F {} C' q = Some z" "q + 16 \<le> a" "a < q + z + 8" by (auto simp: inside_def)
    have b: "blocks F {} C p = Some s" using heap_block [of C p s v F] assms(2,3) by simp
    have "blocks F {} C q = Some z \<or> p \<le> q \<and> q + z \<le> p + s" using q(1) assms(6) unfolding bl by (auto split: if_splits)
    then show "inside (blocks F {} C) a"
    proof
      assume "p \<le> q \<and> q + z \<le> p + s"
      then show ?thesis using b q(2,3) unfolding inside_def by (intro exI [of _ p] exI [of _ s]) simp
    qed (use q in \<open>auto simp: inside_def\<close>)
  qed
qed

lemma resize_head:
  assumes "loose F e C n z st" "C p = Some (s, True, v)" "n = p + s"
  shows "head st p = headword s True v" "\<exists>s2. C (n + z) = Some (s2, True, False) \<and> head st (n + z) = headword s2 True False \<and> 32 dvd s2"
    "32 \<le> s" "32 dvd s" "32 \<le> z" "32 dvd z" "p mod 32 = 16"
proof -
  note l = looseD [OF assms(1)] and d = shapeD [OF looseD(7) [OF assms(1)]]
  show "head st p = headword s True v" using mid_tags(1) [OF l(1) assms(2)] by simp
  obtain s2 u2 where n2: "C (n + z) = Some (s2, u2, False)" using d(12) [OF l(3,4)] by blast
  then have "u2" using mergedD [OF l(2), of "n + z" s2 False] by (cases u2) auto
  then show "\<exists>s2. C (n + z) = Some (s2, True, False) \<and> head st (n + z) = headword s2 True False \<and> 32 dvd s2"
    using n2 mid_tags(1) [OF l(1) n2] d(8) [OF n2] by auto
  show "32 \<le> s" "32 dvd s" "32 \<le> z" "32 dvd z" "p mod 32 = 16" using d(7,8,10) [OF assms(2)] d(7,8) [OF l(3)] by auto
qed

lemma absorb_loose:
  assumes "loose F e C n z st" "C p = Some (s, True, v)" "p \<noteq> F" "n = p + s"
    "words st' = words (set_inuse p (s + z) st)" "st' = st\<lparr>words := words st'\<rparr>"
  shows "\<exists>C'. heap F e C' st' \<and> C' p = Some (s + z, True, v) \<and> blocks F {} C' = (blocks F {} C)(p \<mapsto> s + z) \<and> undisturbed (blocks F {} C) st st'"
proof -
  note l = looseD [OF assms(1)] and rh = resize_head [OF assms(1,2,4)]
  obtain s2 where s2: "C (n + z) = Some (s2, True, False)" "head st (n + z) = headword s2 True False" "32 dvd s2" using rh(2) by blast
  define C' where "C' = C(p \<mapsto> (s + z, True, v), n := None, n + z \<mapsto> (s2, True, True))"
  have eq: "p + (s + z) = n + z" "32 dvd s + z" "0 < s + z" using rh assms(4) by auto
  have w: "words st' = (words st)(at p 8 := headword (s + z) True v, at (n + z) 8 := headword s2 True True)"
    unfolding assms(5) set_inuse_words(1) [OF eq(2,3)] eq(1) rh(1) s2(2) using headword_simps(4) [OF s2(3)] rh(4) by simp
  have "((binned C (top_chunk st) (dv st))(n := None)) n = None" by simp
  note ma = mid_absorb [OF l(1) assms(2-4) l(3,4) this s2(1) w assms(6) C'_def]
  have ne: "n \<noteq> p" "n + z \<noteq> p" "n + z \<noteq> n" using rh(3,5) assms(4) by auto
  have f: "top_chunk st' = top_chunk st" "dv st' = dv st" "dvsize st' = dvsize st" by (subst assms(6), simp)+
  have "heap F e C' st'"
  proof (rule heapI [OF conjunct1 [OF ma]])
    show "((binned C (top_chunk st) (dv st))(n := None)) x = binned C' (top_chunk st') (dv st') x" for x
      unfolding f using assms(2) s2(1) ne by (auto simp: C'_def binned_def)
    show "merged C'" using l(2) by (auto simp: merged_def C'_def)
    show "dv st' = 0 \<and> dvsize st' = 0 \<or> dv st' \<noteq> top_chunk st' \<and> C' (dv st') = Some (dvsize st', False, True)"
      unfolding f using l(5,6) assms(2) s2(1) by (auto simp: C'_def)
  qed
  moreover have C'p: "C' p = Some (s + z, True, v)" using ne by (simp add: C'_def)
  moreover have bl: "blocks F {} C' = (blocks F {} C)(p \<mapsto> s + z)"
  proof
    fix x show "blocks F {} C' x = ((blocks F {} C)(p \<mapsto> s + z)) x"
    proof (cases "x = p")
      case True
      then show ?thesis using heap_block [of C' p "s + z" v F] C'p assms(3) by simp
    next
      case False
      then show ?thesis using ne l(3) s2(1) unfolding C'_def blocks_def by auto
    qed
  qed
  moreover have "undisturbed (blocks F {} C) st st'"
  proof (rule undisturbed_inside [OF conjunct2 [OF ma]])
    fix a assume "inside (blocks F {} C) a"
    then show "inside (blocks F {} C') a"
      unfolding bl using inside_upd [of "(blocks F {} C)(p \<mapsto> s + z)" p s a "s + z"] heap_block [of C p s v F] assms(2,3) by (simp add: fun_upd_idem)
  qed
  ultimately show ?thesis by blast
qed

lemma grow_loose:
  assumes "loose F e C n z st" "C p = Some (s, True, v)" "p \<noteq> F" "n = p + s" "32 \<le> nb" "32 dvd nb" "nb + 32 \<le> s + z" "s < nb" "r = s + z - nb"
    "st' = clear_pinuse (p + nb + r) (set_size_and_pinuse_of_free_chunk (p + nb) r (set_inuse p nb st))"
  shows "\<exists>C'. loose F e C' (p + nb) r st' \<and> blocks F {} C' = (blocks F {} C)(p \<mapsto> nb) \<and> undisturbed (blocks F {} C) st st'"
proof -
  note l = looseD [OF assms(1)] and rh = resize_head [OF assms(1,2,4)]
  note d = shapeD [OF l(7)]
  obtain s2 where s2: "C (n + z) = Some (s2, True, False)" "head st (n + z) = headword s2 True False" "32 dvd s2" using rh(2) by blast
  define C' where "C' = C(p \<mapsto> (nb, True, v), n := None, p + nb \<mapsto> (r, False, True))"
  have eq: "p + nb + r = n + z" "32 dvd r" "0 < nb" using rh assms(4-9) by auto
  have new: "C (p + nb) = None"
  proof (rule ccontr)
    assume "C (p + nb) \<noteq> None"
    then show False using d(13) [OF l(3), of "p + nb"] assms(4,7,8) by auto
  qed
  have ne: "n \<noteq> p" "p + nb \<noteq> p" "p + nb \<noteq> n" "n + z \<noteq> p" "n + z \<noteq> p + nb" "n + z \<noteq> n" "p + nb \<noteq> top_chunk st" "p + nb \<noteq> dv st" "p + nb \<noteq> F"
    using rh(3,5) assms(4,7,8) new midD(5) [OF l(1)] l(6) d(1) by auto
  have w: "words st' = (words st)(at p 8 := headword nb True v, at (p + nb) 8 := headword r False True, at (p + nb + r) 0 := r)"
  proof -
    have m: "n + z \<noteq> 0" "(n + z) mod 32 = 16" "(p + nb) mod 32 = 16" using d(10) [OF s2(1)] rh(7) assms(6) by (auto elim!: dvdE)
    show ?thesis
      unfolding assms(10) clear_pinuse_def set_size_and_pinuse_of_free_chunk_def set_foot_def eq(1) poke_simps(1) set_inuse_words(1) [OF assms(6) eq(3)] rh(1)
      using headword_simps(1) [OF eq(2)] headword_simps(5) [OF s2(3)] s2(2) rh(4) ne tag_cells [OF m(2,2)] tag_cells [OF m(3,2)] tag_cells [OF rh(7) m(2)]
      by (auto simp: tag_inject fun_eq_iff)
  qed
  have f: "top_chunk st' = top_chunk st" "topsize st' = topsize st" "dv st' = dv st" "dvsize st' = dvsize st"
    "maddr st' = maddr st" "least_addr st' = least_addr st" "smallmap st' = smallmap st" "treemap st' = treemap st"
    by (simp_all add: assms(10) tag_writes)
  have mg: "mid F e C' {} ((binned C (top_chunk st) (dv st))(n := None)) st' \<and> same_data F {} C {} C' st st'"
    by (rule mid_grow [OF l(1) assms(2-4) l(3) _ assms(5-9) _ f(5-8) C'_def]) (use l(4) w f in simp_all)
  have "(binned C' (top_chunk st') (dv st'))(p + nb := None) = (binned C (top_chunk st) (dv st))(n := None)"
    unfolding f by (rule ext) (use assms(2) new ne in \<open>auto simp: C'_def binned_def\<close>)
  moreover have "merged C'" using l(2) by (auto simp: merged_def C'_def)
  moreover have "dv st' = 0 \<and> dvsize st' = 0 \<or> dv st' \<noteq> top_chunk st' \<and> C' (dv st') = Some (dvsize st', False, True)"
    unfolding f using l(5,6) assms(2) ne(8) by (auto simp: C'_def)
  ultimately have "loose F e C' (p + nb) r st'" using mg ne(7,8) unfolding loose_def f by (auto simp: C'_def)
  moreover have bl: "blocks F {} C' = (blocks F {} C)(p \<mapsto> nb)"
    by (rule ext) (use assms(2,3) l(3) new ne in \<open>auto simp: C'_def blocks_def\<close>)
  moreover have "undisturbed (blocks F {} C) st st'"
  proof (rule undisturbed_inside [OF conjunct2 [OF mg]])
    fix a assume "inside (blocks F {} C) a"
    then show "inside (blocks F {} C') a"
      unfolding bl using inside_upd [of "(blocks F {} C)(p \<mapsto> nb)" p s a nb] heap_block [of C p s v F] assms(2,3,8) by (simp add: fun_upd_idem)
  qed
  ultimately show ?thesis by blast
qed

lemma grow_top:
  assumes "heap F e C st" "C p = Some (s, True, v)" "p \<noteq> F" "p + s = top_chunk st" "32 \<le> nb" "32 dvd nb" "nb < s + topsize st" "s < nb" "r = s + topsize st - nb"
    "st' = (poke (at (p + nb) 8) (r OR 1) (set_inuse p nb st))\<lparr>top_chunk := p + nb, topsize := r\<rparr>"
  shows "\<exists>C'. heap F e C' st' \<and> blocks F {} C' = (blocks F {} C)(p \<mapsto> nb) \<and> undisturbed (blocks F {} C) st st'"
proof -
  note hd = heapD [OF assms(1)]
  note md = midD [OF hd(1)] and d = shapeD [OF midD(1) [OF hd(1)]]
  note c = md(5) [folded assms(4)]
  define C' where "C' = C(p \<mapsto> (nb, True, v), p + s := None, p + nb \<mapsto> (r, False, True))"
  have "32 dvd s + topsize st" using d(8) [OF assms(2)] d(8) [OF c] by simp
  then have dd: "32 dvd r" "nb + 32 \<le> s + topsize st" "0 < nb" using assms(5-7,9) by (simp_all, presburger)
  have new: "C (p + nb) = None"
  proof (rule ccontr)
    assume "C (p + nb) \<noteq> None"
    then show False using d(13) [OF c, of "p + nb"] dd(2) assms(8) by auto
  qed
  have ne: "p + s \<noteq> p" "p + nb \<noteq> p" "p + nb \<noteq> p + s" "p + nb \<noteq> dv st \<or> dv st = 0" "dv st \<noteq> p + s" "p + nb \<noteq> 0"
    using d(7) [OF assms(2)] assms(4,5,8) new heap_dv [OF assms(1)] d(10) [OF assms(2)] c by auto
  have w: "words st' = (words st)(at p 8 := headword nb True v, at (p + nb) 8 := headword r False True)"
    unfolding assms(10) using set_inuse_words(1) [OF assms(6) dd(3), of p st] headword_simps(1) [OF dd(1)] mid_tags(1) [OF hd(1) assms(2)] d(8) [OF assms(2)] by simp
  have f: "top_chunk st' = p + nb" "topsize st' = r" "dv st' = dv st" "dvsize st' = dvsize st"
    "maddr st' = maddr st" "least_addr st' = least_addr st" "smallmap st' = smallmap st" "treemap st' = treemap st"
    by (simp_all add: assms(10) tag_writes)
  have mg: "mid F e C' {} (binned C (top_chunk st) (dv st)) st' \<and> same_data F {} C {} C' st st'"
    by (rule mid_grow [OF hd(1) assms(2,3) refl c _ assms(5,6) dd(2) assms(8,9) _ f(5-8) C'_def]) (use assms(4) w f in simp_all)
  have "heap F e C' st'"
  proof (rule heapI [OF conjunct1 [OF mg]])
    show "binned C (top_chunk st) (dv st) x = binned C' (top_chunk st') (dv st') x" for x
      unfolding f by (rule binned_eq) (use assms(2,4) new ne in \<open>auto simp: C'_def\<close>)
    show "merged C'" using hd(2) by (auto simp: merged_def C'_def)
    show "dv st' = 0 \<and> dvsize st' = 0 \<or> dv st' \<noteq> top_chunk st' \<and> C' (dv st') = Some (dvsize st', False, True)"
      unfolding f using heap_dv [OF assms(1)] assms(2) ne by (auto simp: C'_def)
  qed
  moreover have bl: "blocks F {} C' = (blocks F {} C)(p \<mapsto> nb)"
    by (rule ext) (use assms(2,3) c new ne in \<open>auto simp: C'_def blocks_def\<close>)
  moreover have "undisturbed (blocks F {} C) st st'"
  proof (rule undisturbed_inside [OF conjunct2 [OF mg]])
    fix a assume "inside (blocks F {} C) a"
    then show "inside (blocks F {} C') a"
      unfolding bl using inside_upd [of "(blocks F {} C)(p \<mapsto> nb)" p s a nb] heap_block [of C p s v F] assms(2,3,8) by (simp add: fun_upd_idem)
  qed
  ultimately show ?thesis by blast
qed

text \<open>The rest of a chunk that is split is given back.\<close>

lemma split_dispose:
  assumes "heap F e C st" "C p = Some (s, True, v)" "p \<noteq> F" "32 \<le> nb" "32 dvd nb" "nb + 32 \<le> s"
    "words st' = (words st)(at p 8 := headword nb True v, at (p + nb) 8 := headword (s - nb) True True)" "st' = st\<lparr>words := words st'\<rparr>"
  shows "\<exists>s1 C'. dispose_chunk (p + nb) (s - nb) st' = Inr s1 \<and> heap F e C' s1 \<and> blocks F {} C' = (blocks F {} C)(p \<mapsto> nb) \<and>
    undisturbed ((blocks F {} C)(p \<mapsto> nb)) st s1"
proof -
  define C1 where "C1 = C(p \<mapsto> (nb, True, v), p + nb \<mapsto> (s - nb, True, True))"
  note hs = heap_split [OF assms C1_def]
  have B: "(blocks F {} C)(p \<mapsto> nb) = (blocks F {} C1)(p + nb := None)"
    unfolding hs(2) by (rule ext) (use assms(4) hs(7) in auto)
  obtain s1 C' where s1: "dispose_chunk (p + nb) (s - nb) st' = Inr s1" "heap F e C' s1" "blocks F {} C' = (blocks F {} C)(p \<mapsto> nb)"
    "undisturbed ((blocks F {} C)(p \<mapsto> nb)) st' s1" using dispose_chunk_spec [OF hs(1,5,6) B] by blast
  have "undisturbed ((blocks F {} C)(p \<mapsto> nb)) st st'"
    by (rule undisturbed_less [OF hs(3)]) (auto simp: B inside_def split: if_splits)
  then show ?thesis using s1 undisturbed_trans by blast
qed

lemma set_inuse_split:
  assumes "32 dvd nb" "32 dvd r" "0 < nb" "0 < r" "odd (head st p) = v"
  shows "words (set_inuse (p + nb) r (set_inuse p nb st)) =
      (words st)(at p 8 := headword nb True v, at (p + nb) 8 := headword r True True, at (p + nb + r) 8 := set_bit 0 (head st (p + nb + r)))"
    "set_inuse (p + nb) r (set_inuse p nb st) = st\<lparr>words := words (set_inuse (p + nb) r (set_inuse p nb st))\<rparr>"
proof -
  show "words (set_inuse (p + nb) r (set_inuse p nb st)) =
      (words st)(at p 8 := headword nb True v, at (p + nb) 8 := headword r True True, at (p + nb + r) 8 := set_bit 0 (head st (p + nb + r)))"
    unfolding set_inuse_words(1) [OF assms(2,4)] set_inuse_words(1) [OF assms(1,3)] using assms(3,4,5) by (simp add: tag_inject set_bit_0_odd)
  show "set_inuse (p + nb) r (set_inuse p nb st) = st\<lparr>words := words (set_inuse (p + nb) r (set_inuse p nb st))\<rparr>"
    by (subst set_inuse_words(2) [OF assms(2,4)], subst (2) set_inuse_words(2) [OF assms(1,3)], simp)
qed

lemma split_back:
  assumes "heap F e C st" "C p = Some (s, True, v)" "p \<noteq> F" "32 \<le> nb" "32 dvd nb" "nb + 32 \<le> s"
  shows "\<exists>s1 C'. dispose_chunk (p + nb) (s - nb) (set_inuse (p + nb) (s - nb) (set_inuse p nb st)) = Inr s1 \<and> heap F e C' s1 \<and>
    blocks F {} C' = (blocks F {} C)(p \<mapsto> nb) \<and> undisturbed ((blocks F {} C)(p \<mapsto> nb)) st s1"
proof -
  note hd = heapD [OF assms(1)]
  note d = shapeD [OF midD(1) [OF hd(1)]]
  have pt: "p \<noteq> top_chunk st" using assms(2) midD(5) [OF hd(1)] by auto
  obtain z u where n: "C (p + s) = Some (z, u, True)" using d(12) [OF assms(2) pt] by blast
  have r: "32 dvd s - nb" "0 < nb" "0 < s - nb" "odd (head st p) = v" "p + nb + (s - nb) = p + s"
    using d(8) [OF assms(2)] assms(4-6) mid_tags(1) [OF hd(1) assms(2)] by auto
  note si = set_inuse_split [OF assms(5) r(1-4)]
  have "set_bit 0 (head st (p + s)) = head st (p + s)" using mid_tags(1) [OF hd(1) n] headword_simps(4) [OF d(8) [OF n]] by simp
  then have "words (set_inuse (p + nb) (s - nb) (set_inuse p nb st)) = (words st)(at p 8 := headword nb True v, at (p + nb) 8 := headword (s - nb) True True)"
    unfolding si(1) r(5) using assms(6) by (auto simp: tag_inject)
  from split_dispose [OF assms this si(2)] show ?thesis .
qed

lemma aligned_rest: "32 dvd nb \<Longrightarrow> 32 dvd t \<Longrightarrow> nb \<le> t \<Longrightarrow> t - nb < 32 \<Longrightarrow> t = (nb::nat)"
  by (auto elim!: dvdE)

lemma extend_dv:
  assumes "heap F e C st" "C p = Some (s, True, v)" "p \<noteq> F" "p + s = dv st" "dvsize st \<noteq> 0" "32 \<le> nb" "32 dvd nb" "nb \<le> s + dvsize st" "s < nb" "r = s + dvsize st - nb"
    "st' = (if 32 \<le> r then (clear_pinuse (p + nb + r) (set_size_and_pinuse_of_free_chunk (p + nb) r (set_inuse p nb st)))\<lparr>dvsize := r, dv := p + nb\<rparr>
       else (set_inuse p (s + dvsize st) st)\<lparr>dvsize := 0, dv := 0\<rparr>)"
  shows "\<exists>C'. heap F e C' st' \<and> blocks F {} C' = (blocks F {} C)(p \<mapsto> nb) \<and> undisturbed (blocks F {} C) st st'"
proof -
  define s0 where "s0 = st\<lparr>dvsize := 0, dv := 0\<rparr>"
  have l: "loose F e C (dv st) (dvsize st) s0" unfolding s0_def by (rule dv_loose [OF assms(1,5)])
  note rh = resize_head [OF l assms(2) assms(4) [symmetric]]
  have st0: "undisturbed B st s0" for B by (simp add: s0_def undisturbed_def)
  show ?thesis
  proof (cases "32 \<le> r")
    case True
    define s1 where "s1 = clear_pinuse (p + nb + r) (set_size_and_pinuse_of_free_chunk (p + nb) r (set_inuse p nb s0))"
    have "nb + 32 \<le> s + dvsize st" using True assms(10) by simp
    from grow_loose [OF l assms(2,3) assms(4) [symmetric] assms(6,7) this assms(9,10) s1_def] obtain C' where C': "loose F e C' (p + nb) r s1"
      "blocks F {} C' = (blocks F {} C)(p \<mapsto> nb)" "undisturbed (blocks F {} C) s0 s1" by blast
    have "dv s1 = 0" by (simp add: s1_def s0_def tag_writes)
    note ld = loose_dv [OF C'(1) this]
    have eq: "st' = s1\<lparr>dvsize := r, dv := p + nb\<rparr>" using True by (simp add: assms(11) s1_def s0_def tag_writes poke_def)
    have "undisturbed (blocks F {} C) s1 st'" by (simp add: eq undisturbed_def)
    then show ?thesis using ld C'(2,3) st0 undisturbed_trans unfolding eq by blast
  next
    case False
    have "32 dvd s + dvsize st" using rh(4,6) by simp
    then have nb: "s + dvsize st = nb" using aligned_rest [OF assms(7) _ assms(8)] False assms(10) by simp
    have eq: "st' = set_inuse p (s + dvsize st) s0" using False by (simp add: assms(11) s0_def tag_writes poke_def)
    have "st' = s0\<lparr>words := words st'\<rparr>" by (simp add: eq tag_writes poke_def)
    from absorb_loose [OF l assms(2,3) assms(4) [symmetric] _ this] obtain C' where "heap F e C' st'" "blocks F {} C' = (blocks F {} C)(p \<mapsto> s + dvsize st)"
      "undisturbed (blocks F {} C) s0 st'" using arg_cong [OF eq, of words] by blast
    then show ?thesis using st0 undisturbed_trans unfolding nb by blast
  qed
qed

lemma extend_next:
  assumes "heap F e C st" "C p = Some (s, True, v)" "p \<noteq> F" "n = p + s" "binned C (top_chunk st) (dv st) n = Some z" "32 \<le> nb" "32 dvd nb" "nb \<le> s + z" "s < nb" "r = s + z - nb"
  shows "\<exists>st' C'. res_bind (unlink_chunk n z st) (\<lambda>s1.
            if r < MIN_CHUNK_SIZE then Inr (p, set_inuse p (s + z) s1)
            else res_bind (dispose_chunk (p + nb) r (set_inuse (p + nb) r (set_inuse p nb s1))) (\<lambda>s2. Inr (p, s2))) = Inr (p, st') \<and>
      heap F e C' st' \<and> blocks F {} C' = (blocks F {} C)(p \<mapsto> nb) \<and> undisturbed (blocks F {} C) st st'"
proof -
  from mid_unlink [OF heapD(1) [OF assms(1)] assms(5)] obtain s1 where s1: "unlink_chunk n z st = Inr s1"
    "mid F e C {} ((binned C (top_chunk st) (dv st))(n := None)) s1" "kept (binned C (top_chunk st) (dv st)) st s1" by blast
  note ul = unlinked_loose [OF assms(1,5) midD(4) [OF s1(2)] s1(3)]
  note rh = resize_head [OF ul(1) assms(2,4)]
  define s2 where "s2 = set_inuse p (s + z) s1"
  have sz: "32 dvd s + z" "0 < s + z" "p + (s + z) = n + z" using rh(3,4,6) assms(4) by auto
  note siw = set_inuse_words [OF sz(1,2), of p s1, folded s2_def]
  obtain C1 where C1: "heap F e C1 s2" "C1 p = Some (s + z, True, v)" "blocks F {} C1 = (blocks F {} C)(p \<mapsto> s + z)" "undisturbed (blocks F {} C) s1 s2"
    using absorb_loose [OF ul(1) assms(2-4) _ siw(2)] by (auto simp: s2_def)
  have und: "undisturbed (blocks F {} C) st s2" using undisturbed_trans [OF ul(2) C1(4)] .
  show ?thesis
  proof (cases "r < 32")
    case True
    then have "s + z = nb" using aligned_rest [OF assms(7) sz(1) assms(8)] assms(10) by simp
    then show ?thesis using s1(1) True C1 und by (auto simp: MIN_CHUNK_SIZE_def s2_def)
  next
    case False
    have r: "32 dvd r" "0 < nb" "0 < r" "odd (head s1 p) = v" "p + nb + r = n + z" "nb + 32 \<le> s + z" "s + z - nb = r"
      using sz assms(4,6-8,10) False rh(1,4) by auto
    define s3 where "s3 = set_inuse (p + nb) r (set_inuse p nb s1)"
    note si = set_inuse_split [OF assms(7) r(1-4), folded s3_def]
    have w: "words s3 = (words s2)(at p 8 := headword nb True v, at (p + nb) 8 := headword (s + z - nb) True True)"
      unfolding si(1) siw(1) r(5,7) sz(3) rh(1) using r(5) sz(3) \<open>0 < r\<close> assms(4,6) by (auto simp: tag_inject fun_eq_iff)
    have "s3 = s2\<lparr>words := words s3\<rparr>" by (simp add: s3_def s2_def tag_writes poke_def)
    from split_dispose [OF C1(1,2) assms(3,6,7) r(6) w this] obtain s4 C' where s4: "dispose_chunk (p + nb) r s3 = Inr s4" "heap F e C' s4"
      "blocks F {} C' = (blocks F {} C)(p \<mapsto> nb)" "undisturbed ((blocks F {} C)(p \<mapsto> nb)) s2 s4" unfolding r(7) C1(3) fun_upd_upd by blast
    have "undisturbed (blocks F {} C) s2 s4"
    proof (rule undisturbed_less [OF s4(4)])
      fix a assume "inside (blocks F {} C) a"
      then show "inside ((blocks F {} C)(p \<mapsto> nb)) a"
        using inside_upd [of "(blocks F {} C)(p \<mapsto> nb)" p s a nb] heap_block [of C p s v F] assms(2,3,9) by (simp add: fun_upd_idem)
    qed
    then show ?thesis using s1(1) s4(1-3) False undisturbed_trans [OF und] by (auto simp: MIN_CHUNK_SIZE_def simp flip: s3_def)
  qed
qed

lemma try_realloc_spec:
  assumes "heap F e C st" "C p = Some (s, True, v)" "p \<noteq> F" "32 \<le> nb" "32 dvd nb"
  shows "\<exists>r st'. try_realloc_chunk p nb st = Inr (r, st') \<and> (r = 0 \<and> st' = st \<and> s < nb \<or>
     r = p \<and> (\<exists>C'. heap F e C' st' \<and> blocks F {} C' = (blocks F {} C)(p \<mapsto> nb) \<and> undisturbed ((blocks F {} C)(p \<mapsto> min s nb)) st st'))"
proof -
  note hd = heapD [OF assms(1)]
  note md = midD [OF hd(1)] and d = shapeD [OF midD(1) [OF hd(1)]]
  note tags = mid_tags [OF hd(1) assms(2), simplified]
  have pt: "p \<noteq> top_chunk st" using assms(2) md(5) by auto
  obtain z u where n: "C (p + s) = Some (z, u, True)" using d(12) [OF assms(2) pt] by blast
  note ntags = mid_tags [OF hd(1) n, simplified]
  have s32: "32 \<le> s" "32 dvd s" "32 dvd z" using d(7,8) [OF assms(2)] d(8) [OF n] by auto
  have bp: "blocks F {} C p = Some s" using heap_block [of C p s v F] assms(2,3) by simp
  have grown: "(blocks F {} C)(p \<mapsto> min s nb) = blocks F {} C" if "s < nb" using that bp by (simp add: fun_upd_idem)
  note checks = tags(2,5,6,8) [simplified] ntags(2,3,4)
  have pre: "least_addr st \<le> p" "is_inuse st p" "p < p + s" "pinuse st (p + s)" "\<not> is_mmapped st p" using tags(5,6,8) ntags(3) assms(3) s32 by auto
  consider "s = nb" | "nb + 32 \<le> s" | "s < nb" using s32(2) assms(5) by (auto elim!: dvdE) linarith
  then show ?thesis
  proof cases
    case 1
    then have "try_realloc_chunk p nb st = Inr (p, st)" using pre tags(2) by (simp add: try_realloc_chunk_def Let_def MIN_CHUNK_SIZE_def)
    then show ?thesis using 1 assms(1) bp by (auto simp: fun_upd_idem)
  next
    case 2
    from split_back [OF assms 2] obtain s1 C' where s1: "dispose_chunk (p + nb) (s - nb) (set_inuse (p + nb) (s - nb) (set_inuse p nb st)) = Inr s1"
      "heap F e C' s1" "blocks F {} C' = (blocks F {} C)(p \<mapsto> nb)" "undisturbed ((blocks F {} C)(p \<mapsto> nb)) st s1" by blast
    then have "try_realloc_chunk p nb st = Inr (p, s1)" using pre tags(2) 2 by (simp add: try_realloc_chunk_def Let_def MIN_CHUNK_SIZE_def)
    then show ?thesis using s1 2 by auto
  next
    case 3
    have run: "try_realloc_chunk p nb st = 
        (if p + s = top_chunk st then
          if s + topsize st > nb then
            let newtopsize = s + topsize st - nb in
            Inr (p, (poke (at (p + nb) 8) (newtopsize OR 1) (set_inuse p nb st))\<lparr>top_chunk := p + nb, topsize := newtopsize\<rparr>)
          else Inr (0, st)
        else if p + s = dv st then
          if s + dvsize st \<ge> nb then
            let dsize = s + dvsize st - nb in
            if dsize \<ge> MIN_CHUNK_SIZE then
              Inr (p, (clear_pinuse (p + nb + dsize) (set_size_and_pinuse_of_free_chunk (p + nb) dsize (set_inuse p nb st)))
                        \<lparr>dvsize := dsize, dv := p + nb\<rparr>)
            else Inr (p, (set_inuse p (s + dvsize st) st)\<lparr>dvsize := 0, dv := 0\<rparr>)
          else Inr (0, st)
        else if \<not> u then
          if s + z \<ge> nb then
            let rsize = s + z - nb in
            res_bind (unlink_chunk (p + s) z st) (\<lambda>s1.
            if rsize < MIN_CHUNK_SIZE then Inr (p, set_inuse p (s + z) s1)
            else res_bind (dispose_chunk (p + nb) rsize (set_inuse (p + nb) rsize (set_inuse p nb s1))) (\<lambda>s2. Inr (p, s2)))
          else Inr (0, st)
        else Inr (0, st))"
      using pre tags(2) ntags(2,4) 3 by (simp add: try_realloc_chunk_def Let_def)
    have cases: "\<exists>st'. try_realloc_chunk p nb st = Inr (p, st') \<and> (\<exists>C'. heap F e C' st' \<and> blocks F {} C' = (blocks F {} C)(p \<mapsto> nb) \<and>
        undisturbed (blocks F {} C) st st')" if "try_realloc_chunk p nb st \<noteq> Inr (0, st)"
    proof (cases "p + s = top_chunk st")
      case True
      then show ?thesis
        using run that grow_top [OF assms(1-3) True assms(4,5) _ 3 refl refl] by (simp add: Let_def split: if_splits)
    next
      case nt: False
      show ?thesis
      proof (cases "p + s = dv st")
        case True
        have "dvsize st \<noteq> 0" using True n heap_dv [OF assms(1)] d(7) [OF n] s32(1) by auto
        then show ?thesis
          using run that nt True extend_dv [OF assms(1-3) True _ assms(4,5) _ 3 refl refl] by (auto simp: Let_def MIN_CHUNK_SIZE_def split: if_splits)
      next
        case nd: False
        have "\<not> u" using run that nt nd by (simp split: if_splits)
        then have "binned C (top_chunk st) (dv st) (p + s) = Some z" using n nt nd by (simp add: binned_def)
        from extend_next [OF assms(1-3) refl this assms(4,5) _ 3 refl] show ?thesis
          using run that nt nd \<open>\<not> u\<close> unfolding Let_def by (simp split: if_splits)
      qed
    qed
    show ?thesis
    proof (cases "try_realloc_chunk p nb st = Inr (0, st)")
      case False
      then show ?thesis using cases unfolding grown [OF 3] by blast
    qed (use 3 in auto)
  qed
qed

section \<open>realloc and calloc\<close>

lemma memcpy_frame: "memcpy dst src n st = st\<lparr>words := words (memcpy dst src n st)\<rparr>"
    "words (memcpy dst src n st) a \<noteq> words st a \<Longrightarrow> dst \<le> a \<and> a < dst + n"
    "i + 8 \<le> n \<Longrightarrow> words (memcpy dst src n st) (dst + i) = words st (src + i)"
  by (auto simp: memcpy_def Let_def split: if_splits)

lemma memclear_frame: "memclear dst n st = st\<lparr>words := words (memclear dst n st)\<rparr>"
    "words (memclear dst n st) a \<noteq> words st a \<Longrightarrow> dst \<le> a \<and> a < dst + n"
    "i + 8 \<le> n \<Longrightarrow> words (memclear dst n st) (dst + i) = 0"
  by (auto simp: memclear_def Let_def split: if_splits)

lemma inside_block: "B q = Some z \<Longrightarrow> q + 16 \<le> a \<Longrightarrow> a < q + z + 8 \<Longrightarrow> inside B a"
  unfolding inside_def by blast

lemma block_cells:
  assumes "heap F e C st" "blocks F {} C x = Some z" "blocks F {} C q = Some y" "x \<noteq> q" "x + 16 \<le> a" "a < x + z + 8" "q + 16 \<le> a" "a < q + y + 8"
  shows False
proof -
  obtain vx vq where c: "C x = Some (z, True, vx)" "C q = Some (y, True, vq)" using assms(2,3) blocks_iff by metis
  note d = shapeD(13) [OF midD(1) [OF heapD(1) [OF assms(1)]]]
  show False using d [OF c] d [OF c(2,1)] assms(4-) by (cases x q rule: linorder_cases) auto
qed

text \<open>A block of \<open>nb\<close> bytes at \<open>q\<close> in place of the one at \<open>p\<close>, with what both have room for.\<close>

definition moved :: "nat \<Rightarrow> nat \<Rightarrow> chunks \<Rightarrow> nat \<Rightarrow> nat \<Rightarrow> nat \<Rightarrow> mstate \<Rightarrow> nat \<Rightarrow> mstate \<Rightarrow> bool" where
  "moved F e C p s n st m st' \<longleftrightarrow> (\<exists>q C'. m = chunk2mem q \<and> heap F e C' st' \<and> (q = p \<or> blocks F {} C q = None) \<and>
     blocks F {} C' = (blocks F {} C)(p := None, q \<mapsto> request2size n) \<and> undisturbed ((blocks F {} C)(p := None)) st st' \<and>
     (\<forall>i. i + 8 \<le> min (s - 8) n \<longrightarrow> words st' (m + i) = words st (chunk2mem p + i)))"

lemma copy_spec:
  assumes "heap F e C st" "C p = Some (s, True, v)" "p \<noteq> F" "handed F e C (request2size n) st m s2"
  shows "\<exists>st'. mspace_free (chunk2mem p) (memcpy m (chunk2mem p) (min (s - 8) n) s2) = Inr st' \<and> moved F e C p s n st m st' \<and>
    chunksize s2 p = s \<and> \<not> is_mmapped s2 p"
proof -
  let ?B = "blocks F {} C" and ?nb = "request2size n"
  obtain q C2 where h: "m = chunk2mem q" "heap F e C2 s2" "?B q = None" "blocks F {} C2 = ?B(q \<mapsto> ?nb)" "undisturbed ?B st s2"
    using assms(4) by (auto simp: handed_def)
  have bp: "?B p = Some s" using heap_block [of C p s v F] assms(2,3) by simp
  then have qp: "q \<noteq> p" using h(3) by auto
  have "blocks F {} C2 p = Some s" using bp qp h(4) by simp
  then obtain v2 where c2: "C2 p = Some (s, True, v2)" using blocks_iff by blast
  define s3 where "s3 = memcpy m (chunk2mem p) (min (s - 8) n) s2"
  have q16: "m = q + 16" "chunk2mem p = p + 16" using h(1) by (simp_all add: chunk2mem_def)
  have nb: "n + 8 \<le> ?nb" by (rule request_size(3)) simp
  have wr: "q + 16 \<le> a \<and> a < q + ?nb + 8" if "words s3 a \<noteq> words s2 a" for a
    using memcpy_frame(2) [of m "chunk2mem p" "min (s - 8) n" s2 a] that nb q16 by (auto simp: s3_def)
  have "heap F e C2 s3"
  proof (rule heap_frame [OF h(2)])
    show "s3 = s2\<lparr>words := words s3\<rparr>" unfolding s3_def by (rule memcpy_frame(1))
    show "inside (blocks F {} C2) a" if "words s3 a \<noteq> words s2 a" for a using wr [OF that] h(4) by (intro inside_block [of _ q ?nb]) auto
  qed
  from mspace_free_spec [OF this c2 assms(3) refl] obtain st' C' where f: "mspace_free (chunk2mem p) s3 = Inr st'" "heap F e C' st'"
    "blocks F {} C' = (blocks F {} C2)(p := None)" "undisturbed ((blocks F {} C2)(p := None)) s3 st'" by blast
  have B: "blocks F {} C' = ?B(p := None, q \<mapsto> ?nb)" using f(3) h(4) qp by (simp add: fun_upd_twist)
  have "undisturbed (?B(p := None)) st st'"
    unfolding undisturbed_def
  proof (intro allI impI)
    fix a assume "inside (?B(p := None)) a"
    then obtain x z where x: "?B x = Some z" "x \<noteq> p" "x + 16 \<le> a" "a < x + z + 8" by (auto simp: inside_def split: if_splits)
    have xq: "x \<noteq> q" using x(1) h(3) by auto
    have "words st' a = words s3 a"
      using f(4) x xq h(4) inside_block [of "(blocks F {} C2)(p := None)" x z a] by (simp add: undisturbed_def)
    moreover have "words s3 a = words s2 a"
    proof (rule ccontr)
      assume "words s3 a \<noteq> words s2 a"
      then have a: "q + 16 \<le> a" "a < q + ?nb + 8" using wr by auto
      have "blocks F {} C2 x = Some z" "blocks F {} C2 q = Some ?nb" using x(1) xq h(4) by auto
      then show False using block_cells [OF h(2) _ _ xq x(3,4) a] by blast
    qed
    moreover have "words s2 a = words st a" using h(5) x inside_block [of ?B x z a] by (simp add: undisturbed_def)
    ultimately show "words st' a = words st a" by simp
  qed
  moreover have "words st' (m + i) = words st (chunk2mem p + i)" if i: "i + 8 \<le> min (s - 8) n" for i
  proof -
    have i8: "8 + i < s" using i by auto
    have "words st' (m + i) = words s3 (m + i)"
      using f(4) qp h(4) i nb q16 inside_block [of "(blocks F {} C2)(p := None)" q ?nb "m + i"] by (simp add: undisturbed_def)
    also have "\<dots> = words s2 (chunk2mem p + i)" unfolding s3_def by (rule memcpy_frame(3) [OF i])
    also have "\<dots> = words st (chunk2mem p + i)" using h(5) bp i8 q16 inside_block [of ?B p s "chunk2mem p + i"] by (simp add: undisturbed_def)
    finally show ?thesis .
  qed
  ultimately have "moved F e C p s n st m st'" unfolding moved_def using h(1,3) f(2) B by blast
  then show ?thesis using f(1) mid_tags(2,6) [OF heapD(1) [OF h(2)] c2] by (simp add: s3_def)
qed

lemma mspace_realloc_spec:
  assumes "heap F e C st" "C p = Some (s, True, v)" "p \<noteq> F" "n < 2 ^ 64"
  shows "\<exists>m st'. mspace_realloc (chunk2mem p) n st = Inr (m, st') \<and> (m = 0 \<and> st' = st \<or> m \<noteq> 0 \<and> moved F e C p s n st m st')"
proof (cases "MAX_REQUEST \<le> n")
  case True
  then show ?thesis by (simp add: mspace_realloc_def chunk2mem_def)
next
  case False
  let ?nb = "request2size n"
  note rs = request_size [OF refl, of n]
  have p0: "p \<noteq> 0" using mid_tags(9) [OF heapD(1) [OF assms(1)] assms(2)] by simp
  obtain r s1 where r: "try_realloc_chunk p ?nb st = Inr (r, s1)" "r = 0 \<and> s1 = st \<and> s < ?nb \<or>
     r = p \<and> (\<exists>C'. heap F e C' s1 \<and> blocks F {} C' = (blocks F {} C)(p \<mapsto> ?nb) \<and> undisturbed ((blocks F {} C)(p \<mapsto> min s ?nb)) st s1)"
    using try_realloc_spec [OF assms(1-3) rs(1,2)] by blast
  from r(2) show ?thesis
  proof (elim disjE conjE)
    assume "r = p" "\<exists>C'. heap F e C' s1 \<and> blocks F {} C' = (blocks F {} C)(p \<mapsto> ?nb) \<and> undisturbed ((blocks F {} C)(p \<mapsto> min s ?nb)) st s1"
    then obtain C' where C': "heap F e C' s1" "blocks F {} C' = (blocks F {} C)(p \<mapsto> ?nb)" "undisturbed ((blocks F {} C)(p \<mapsto> min s ?nb)) st s1" by blast
    have "undisturbed ((blocks F {} C)(p := None)) st s1"
      by (rule undisturbed_less [OF C'(3)]) (auto simp: inside_def split: if_splits)
    moreover have "words s1 (chunk2mem p + i) = words st (chunk2mem p + i)" if "i + 8 \<le> min (s - 8) n" for i
    proof -
      have "8 + i < s" "8 + i < ?nb" using that rs(3) by auto
      then show ?thesis using C'(3) inside_block [of "(blocks F {} C)(p \<mapsto> min s ?nb)" p "min s ?nb" "chunk2mem p + i"] by (simp add: undisturbed_def chunk2mem_def)
    qed
    ultimately have "moved F e C p s n st (chunk2mem p) s1" unfolding moved_def using C' by (intro exI [of _ p] exI [of _ C']) simp
    moreover have "mspace_realloc (chunk2mem p) n st = Inr (chunk2mem p, s1)"
      using False r(1) \<open>r = p\<close> p0 by (simp add: mspace_realloc_def Let_def chunk2mem_def mem2chunk_def)
    ultimately show ?thesis by (simp add: chunk2mem_def)
  next
    assume z: "r = 0" "s1 = st" "s < ?nb"
    obtain m s2 where m: "mspace_malloc n st = Inr (m, s2)" "m = 0 \<and> s2 = st \<or> handed F e C ?nb st m s2"
      using mspace_malloc_spec [OF assms(1,4) refl] by blast
    from m(2) show ?thesis
    proof
      assume "handed F e C ?nb st m s2"
      from copy_spec [OF assms(1-3) this] obtain st' where c: "mspace_free (chunk2mem p) (memcpy m (chunk2mem p) (min (s - 8) n) s2) = Inr st'"
        "moved F e C p s n st m st'" "chunksize s2 p = s" "\<not> is_mmapped s2 p" by blast
      have m0: "m \<noteq> 0" using c(2) by (auto simp: moved_def chunk2mem_def)
      have "mspace_realloc (chunk2mem p) n st = Inr (m, st')"
        using False r(1) z m(1) m0 c by (cases "s - 8 < n") (simp_all add: mspace_realloc_def Let_def chunk2mem_def mem2chunk_def)
      then show ?thesis using c(2) m0 by blast
    qed (use False r(1) z m(1) in \<open>auto simp: mspace_realloc_def Let_def chunk2mem_def mem2chunk_def\<close>)
  qed
qed

lemma handed_bound: "handed F e C nb st m st' \<Longrightarrow> nb < 2 ^ 40 \<and> m \<noteq> 0"
proof -
  assume "handed F e C nb st m st'"
  then obtain p C' where h: "m = chunk2mem p" "heap F e C' st'" "blocks F {} C' = (blocks F {} C)(p \<mapsto> nb)" by (auto simp: handed_def)
  have "blocks F {} C' p = Some nb" using h(3) by simp
  then obtain v where c: "C' p = Some (nb, True, v)" using blocks_iff by blast
  note d = shapeD [OF midD(1) [OF heapD(1) [OF h(2)]]]
  show ?thesis using d(4) d(9,11) [OF c] h(1) by (simp add: chunk2mem_def)
qed

lemma or_less_exp:
  assumes "n OR k < (2 ^ j :: nat)"
  shows "n < 2 ^ j"
proof -
  have "take_bit j (n OR k) = n OR k" unfolding take_bit_nat_eq_self_iff by (rule assms)
  then have "i < j" if "bit n i" for i using that by (metis bit_or_iff bit_take_bit_iff)
  then have "take_bit j n = n" by (auto simp: bit_eq_iff bit_take_bit_iff)
  then show ?thesis by (simp add: take_bit_nat_eq_self_iff)
qed

lemma calloc_request_eq:
  assumes "n < 2 ^ 64" "k < 2 ^ 64"
  shows "calloc_request n k = (if n * k < 2 ^ 64 then n * k else MAX_SIZE_T)"
proof (cases "n * k < 2 ^ 64")
  case True
  then show ?thesis by (simp add: calloc_request_def Let_def)
next
  case False
  have "n \<noteq> 0" using False by (cases "n = 0") auto
  have "n * k mod 2 ^ 64 div n \<noteq> k"
  proof
    assume "n * k mod 2 ^ 64 div n = k"
    then have "n * k \<le> n * k mod 2 ^ 64" by (metis div_times_less_eq_dividend mult.commute)
    then show False using False mod_less_divisor [of "2 ^ 64" "n * k"] by simp
  qed
  moreover have "0x10000 \<le> n OR k"
  proof (rule ccontr)
    assume "\<not> 0x10000 \<le> n OR k"
    then have "n < 2 ^ 16" "k < 2 ^ 16" using or_less_exp [of n k 16] or_less_exp [of k n 16] by (auto simp: or.commute)
    then have "n * k < 2 ^ 16 * 2 ^ 16" by (intro mult_strict_mono) auto
    then show False using False by simp
  qed
  ultimately show ?thesis using False \<open>n \<noteq> 0\<close> by (simp add: calloc_request_def Let_def)
qed

lemma mspace_calloc_spec:
  assumes "heap F e C st" "n < 2 ^ 64" "k < 2 ^ 64"
  shows "\<exists>m st'. mspace_calloc n k st = Inr (m, st') \<and> (m = 0 \<and> st' = st \<or>
    n * k < 2 ^ 64 \<and> handed F e C (request2size (n * k)) st m st' \<and> (\<forall>i. i + 8 \<le> n * k \<longrightarrow> words st' (m + i) = 0))"
proof -
  let ?r = "calloc_request n k"
  have lt: "?r < 2 ^ 64" using calloc_request_eq [OF assms(2,3)] by (simp add: MAX_SIZE_T_def)
  have run: "mspace_calloc n k st = res_bind (mspace_malloc ?r st) (\<lambda>(mem, s1). Inr (if mem \<noteq> 0 then (mem, memclear mem ?r s1) else (mem, s1)))"
    unfolding mspace_calloc_def Let_def ..
  obtain m s1 where m: "mspace_malloc ?r st = Inr (m, s1)" "m = 0 \<and> s1 = st \<or> handed F e C (request2size ?r) st m s1"
    using mspace_malloc_spec [OF assms(1) lt refl] by blast
  from m(2) show ?thesis
  proof
    assume h: "handed F e C (request2size ?r) st m s1"
    note hb = handed_bound [OF h]
    have r: "?r + 8 \<le> request2size ?r" by (rule request_size(3)) simp
    then have eq: "n * k < 2 ^ 64" "?r = n * k" using hb calloc_request_eq [OF assms(2,3)] by (auto simp: MAX_SIZE_T_def split: if_splits)
    obtain q C' where q: "m = chunk2mem q" "heap F e C' s1" "blocks F {} C q = None" "blocks F {} C' = (blocks F {} C)(q \<mapsto> request2size ?r)"
      "undisturbed (blocks F {} C) st s1" using h by (auto simp: handed_def)
    define s2 where "s2 = memclear m ?r s1"
    have wr: "inside (blocks F {} C') a \<and> \<not> inside (blocks F {} C) a" if "words s2 a \<noteq> words s1 a" for a
    proof
      have a: "q + 16 \<le> a" "a < q + request2size ?r + 8"
        using memclear_frame(2) [of m ?r s1 a] that r q(1) by (auto simp: s2_def chunk2mem_def)
      then show "inside (blocks F {} C') a" using q(4) by (intro inside_block [of _ q "request2size ?r"]) auto
      show "\<not> inside (blocks F {} C) a"
      proof
        assume "inside (blocks F {} C) a"
        then obtain x z where x: "blocks F {} C x = Some z" "x + 16 \<le> a" "a < x + z + 8" by (auto simp: inside_def)
        then have "x \<noteq> q" using q(3) by auto
        then show False using block_cells [OF q(2), of x z q "request2size ?r" a] x a q(4) by simp
      qed
    qed
    have "heap F e C' s2" by (rule heap_frame [OF q(2)]) (use wr memclear_frame(1) in \<open>auto simp: s2_def\<close>)
    moreover have "undisturbed (blocks F {} C) st s2" using q(5) wr unfolding undisturbed_def by metis
    ultimately have "handed F e C (request2size ?r) st m s2" unfolding q(1) by (rule handedI [OF _ q(3,4)])
    moreover have "mspace_calloc n k st = Inr (m, s2)" using run m(1) hb by (simp add: s2_def)
    moreover have "words s2 (m + i) = 0" if "i + 8 \<le> n * k" for i unfolding s2_def by (rule memclear_frame(3)) (use that eq in simp)
    ultimately show ?thesis using eq by auto
  qed (use run m(1) in auto)
qed

section \<open>memalign\<close>

lemma round_alignment_spec:
  assumes "alignment \<le> 2 ^ 63" "j \<ge> 6" "j \<le> 63" "2 ^ j < 2 * alignment \<or> j = 6" "fuel + j \<ge> 65"
  shows "\<exists>i. round_alignment fuel (2 ^ j) alignment = Inr (2 ^ i) \<and> alignment \<le> 2 ^ i \<and> 6 \<le> i \<and> i \<le> 63"
  using assms
proof (induction fuel arbitrary: j)
  case (Suc fuel)
  show ?case
  proof (cases "(2::nat) ^ j < alignment")
    case True
    have "(2::nat) ^ j < 2 ^ 63" using True Suc.prems(1) by simp
    then have j: "j < 63" by (rule power_less_imp_less_exp [rotated]) simp
    have "2 * 2 ^ j mod 2 ^ 64 = (2::nat) ^ Suc j" using j power_strict_increasing [of "Suc j" 64 "2::nat"] by simp
    then show ?thesis using Suc.IH [of "Suc j"] Suc.prems j True by simp
  next
    case False
    then show ?thesis using Suc.prems by auto
  qed
qed simp

lemma power_two_test: "0 < x \<Longrightarrow> x AND (x - 1) = 0 \<Longrightarrow> \<exists>i. x = (2::nat) ^ i"
proof (induction x rule: less_induct)
  case (less x)
  show ?case
  proof (cases "even x")
    case True
    define y where "y = x div 2"
    have y: "x = 2 * y" "0 < y" "y < x" using True less.prems(1) by (auto simp: y_def)
    have "(x - 1) div 2 = y - 1" using y by simp
    then have "y AND (y - 1) = 0" using and_rec [of x "x - 1"] less.prems(2) y(1) by simp
    then obtain i where "y = 2 ^ i" using less.IH y by blast
    then show ?thesis using y(1) by (intro exI [of _ "Suc i"]) simp
  next
    case False
    then have "x div 2 = (x - 1) div 2" by (metis add_diff_cancel_right' dvd_mult_div_cancel nonzero_mult_div_cancel_left odd_two_times_div_two_succ zero_neq_numeral)
    then have "x div 2 = 0" using and_rec [of x "x - 1"] less.prems(2) False by simp
    then have "x = 2 ^ 0" using less.prems(1) by simp
    then show ?thesis by blast
  qed
qed

lemma alignment_power:
  assumes "32 < alignment" "alignment \<le> 2 ^ 63"
  shows "\<exists>i. (if alignment AND (alignment - 1) \<noteq> 0 then round_alignment 60 64 alignment else Inr alignment) = Inr (2 ^ i) \<and>
    alignment \<le> 2 ^ i \<and> 6 \<le> i \<and> i \<le> 63"
proof (cases "alignment AND (alignment - 1) = 0")
  case True
  then obtain i where i: "alignment = 2 ^ i" using power_two_test [of alignment] assms(1) by auto
  have "(2::nat) ^ 5 < 2 ^ i" "(2::nat) ^ i \<le> 2 ^ 63" using assms i by auto
  then have "5 < i" "i \<le> 63" using power_less_imp_less_exp [of "2::nat" 5 i] power_le_imp_le_exp [of "2::nat" i 63] by auto
  then show ?thesis using True i by auto
next
  case False
  then show ?thesis using round_alignment_spec [OF assms(2), of 6 60] by simp
qed

lemma align_front:
  assumes "heap F e C st" "C p = Some (s, True, v)" "p \<noteq> F" "32 \<le> ld" "32 dvd ld" "ld + 32 \<le> s"
  shows "\<exists>st' C'. dispose_chunk p ld (set_inuse p ld (set_inuse (p + ld) (s - ld) st)) = Inr st' \<and> heap F e C' st' \<and>
     blocks F {} C' = (blocks F {} C)(p := None, p + ld \<mapsto> s - ld) \<and> undisturbed ((blocks F {} C)(p := None)) st st' \<and>
     blocks F {} C (p + ld) = None \<and> p + ld \<noteq> F"
proof -
  note hd = heapD [OF assms(1)]
  note d = shapeD [OF midD(1) [OF hd(1)]]
  define s1 where "s1 = set_inuse p ld (set_inuse (p + ld) (s - ld) st)"
  have pt: "p \<noteq> top_chunk st" using assms(2) midD(5) [OF hd(1)] by auto
  obtain z u where n: "C (p + s) = Some (z, u, True)" using d(12) [OF assms(2) pt] by blast
  have r: "32 dvd s - ld" "0 < s - ld" "0 < ld" "p + ld + (s - ld) = p + s" using d(8) [OF assms(2)] assms(4-6) by auto
  have h: "head st p = headword s True v" "head st (p + s) = headword z u True" "32 dvd z" "32 dvd s"
    using mid_tags(1) [OF hd(1) assms(2)] mid_tags(1) [OF hd(1) n] d(8) [OF n] d(8) [OF assms(2)] by auto
  have w: "words s1 = (words st)(at p 8 := headword ld True v, at (p + ld) 8 := headword (s - ld) True True)"
    unfolding s1_def set_inuse_words(1) [OF assms(5) r(3)] set_inuse_words(1) [OF r(1,2)] r(4)
    using h assms(4,6) headword_simps(4) [OF r(1)] headword_simps(4) [OF h(3)] by (auto simp: tag_inject fun_eq_iff)
  have s1: "s1 = st\<lparr>words := words s1\<rparr>" by (simp add: s1_def tag_writes poke_def)
  define C1 where "C1 = C(p \<mapsto> (ld, True, v), p + ld \<mapsto> (s - ld, True, True))"
  note hs = heap_split [OF assms w s1 C1_def]
  have B: "(blocks F {} C)(p := None, p + ld \<mapsto> s - ld) = (blocks F {} C1)(p := None)"
    unfolding hs(2) by (rule ext) (use assms(4) in auto)
  obtain st' C' where st': "dispose_chunk p ld s1 = Inr st'" "heap F e C' st'" "blocks F {} C' = (blocks F {} C)(p := None, p + ld \<mapsto> s - ld)"
    "undisturbed ((blocks F {} C)(p := None, p + ld \<mapsto> s - ld)) s1 st'" using dispose_chunk_spec [OF hs(1,4) assms(3) B] by blast
  have in1: "inside ((blocks F {} C)(p := None, p + ld \<mapsto> s - ld)) a" if "inside ((blocks F {} C)(p := None)) a" for a
    using that hs(7) unfolding inside_def by (metis fun_upd_apply option.distinct(1))
  have "inside (blocks F {} C1) a" if "inside ((blocks F {} C)(p := None)) a" for a
    using in1 [OF that] unfolding B by (auto simp: inside_def split: if_splits)
  then have "undisturbed ((blocks F {} C)(p := None)) st s1" using undisturbed_less [OF hs(3)] by blast
  then have "undisturbed ((blocks F {} C)(p := None)) st st'" using undisturbed_trans undisturbed_less [OF st'(4) in1] by blast
  then show ?thesis using st'(1-3) hs(6,7) by (auto simp: s1_def)
qed

lemma align_back:
  assumes "heap F e C st" "C p = Some (s, True, v)" "p \<noteq> F" "32 \<le> nb" "32 dvd nb" "nb \<le> s"
  shows "\<exists>st' C' z. give_spare nb p st = Inr st' \<and> heap F e C' st' \<and> blocks F {} C' = (blocks F {} C)(p \<mapsto> z) \<and> nb \<le> z \<and> z \<le> nb + 32 \<and>
     undisturbed ((blocks F {} C)(p := None)) st st'"
proof -
  note hd = heapD [OF assms(1)]
  note d = shapeD [OF midD(1) [OF hd(1)]]
  note tags = mid_tags [OF hd(1) assms(2), simplified]
  have bp: "blocks F {} C p = Some s" using heap_block [of C p s v F] assms(2,3) by simp
  show ?thesis
  proof (cases "nb + 32 < s")
    case False
    then show ?thesis using assms(1,6) bp tags(2)
      by (intro exI [of _ st] exI [of _ C] exI [of _ s]) (simp add: give_spare_def MIN_CHUNK_SIZE_def fun_upd_idem)
  next
    case True
    from split_back [OF assms(1-5)] True obtain s2 C' where s2: "dispose_chunk (p + nb) (s - nb) (set_inuse (p + nb) (s - nb) (set_inuse p nb st)) = Inr s2"
      "heap F e C' s2" "blocks F {} C' = (blocks F {} C)(p \<mapsto> nb)" "undisturbed ((blocks F {} C)(p \<mapsto> nb)) st s2" by auto
    have "undisturbed ((blocks F {} C)(p := None)) st s2" by (rule undisturbed_less [OF s2(4)]) (auto simp: inside_def split: if_splits)
    then show ?thesis using s2 True tags(2,6)
      by (intro exI [of _ s2] exI [of _ C'] exI [of _ nb]) (simp add: give_spare_def MIN_CHUNK_SIZE_def Let_def)
  qed
qed

lemma align_up:
  assumes "mem mod 32 = (0::nat)" "mem mod A \<noteq> 0" "32 dvd A" "br = (mem + A - 1) div A * A" and A: "0 < A"
  shows "mem + 32 \<le> br" "32 dvd br - mem" "br < mem + A" "br mod A = 0"
proof -
  have eq: "br = mem div A * A + A"
  proof -
    have "0 < mem mod A" "mem mod A < A" using assms(2) A by auto
    then have "(mem mod A + A - 1) div A = 1" by (simp add: div_nat_eqI)
    moreover have "mem + A - 1 = (mem mod A + A - 1) + mem div A * A" using A div_mult_mod_eq [of mem A] by linarith
    ultimately have "(mem + A - 1) div A = mem div A + 1" using A by (simp only: div_mult_self1)
    then show ?thesis by (simp add: assms(4))
  qed
  have lt: "mem < br" "br < mem + A" unfolding eq using assms(2) A mod_less_divisor [OF A, of mem] div_mult_mod_eq [of mem A] by linarith+
  have "32 dvd br" unfolding eq using assms(3) by simp
  then show dv: "32 dvd br - mem" using assms(1) by (simp add: mod_eq_0_iff_dvd)
  then have "32 \<le> br - mem" using lt(1) by (intro dvd_imp_le) auto
  then show "mem + 32 \<le> br" by simp
  show "br < mem + A" by fact
  show "br mod A = 0" by (simp add: eq)
qed

text \<open>A block at a multiple of \<open>A\<close> is cut out of a larger one: what is before it and what is behind it are given back.\<close>

lemma aligned_cut:
  assumes "heap F e C st" "handed F e C s st m s1" "nb + A + 32 \<le> s" "32 \<le> nb" "32 dvd nb" "32 dvd A" "0 < A"
  shows "\<exists>q s2 s3 z. give_lead A m s1 = Inr (q, s2) \<and> give_spare nb q s2 = Inr s3 \<and> chunk2mem q mod A = 0 \<and> nb \<le> z \<and> z \<le> nb + 32 \<and>
    handed F e C z st (chunk2mem q) s3"
proof -
  let ?B = "blocks F {} C"
  obtain p C1 where m: "m = p + 16" "heap F e C1 s1" "?B p = None" "blocks F {} C1 = ?B(p \<mapsto> s)" "undisturbed ?B st s1"
    using assms(2) by (auto simp: handed_def chunk2mem_def)
  have mp: "mem2chunk m = p" using m(1) by (simp add: mem2chunk_def)
  have "blocks F {} C1 p = Some s" using m(4) by simp
  then obtain v where c: "C1 p = Some (s, True, v)" "p \<noteq> F" using blocks_iff by blast
  note tags = mid_tags [OF heapD(1) [OF m(2)] c(1), simplified]
  have m32: "m mod 32 = 0" using shapeD(10) [OF midD(1) [OF heapD(1) [OF m(2)]] c(1)] mod_add_eq [of p 32 16] m(1) by simp
  have B: "?B = (blocks F {} C1)(p := None)" unfolding m(4) using m(3) by (simp add: fun_upd_idem)
  have "\<exists>q s2 C2 z. give_lead A m s1 = Inr (q, s2) \<and> heap F e C2 s2 \<and> blocks F {} C2 = ?B(q \<mapsto> z) \<and> nb \<le> z \<and> undisturbed ?B st s2 \<and> (q + 16) mod A = 0 \<and> ?B q = None \<and> q \<noteq> F"
  proof (cases "m mod A = 0")
    case True
    then show ?thesis using m c(2) assms(3) mp by (intro exI [of _ p] exI [of _ s1] exI [of _ C1] exI [of _ s]) (auto simp: give_lead_def)
  next
    case False
    define br where "br = (m + A - 1) div A * A"
    note up = align_up [OF m32 False assms(6) br_def assms(7)]
    define ld where "ld = br - m"
    have ld: "32 \<le> ld" "32 dvd ld" "ld + 32 \<le> s" "nb \<le> s - ld" "mem2chunk br = p + ld" "p + ld + 16 = br"
      using up assms(3) m(1) by (auto simp: ld_def mem2chunk_def)
    from align_front [OF m(2) c ld(1-3)] obtain s2 C2 where f: "dispose_chunk p ld (set_inuse p ld (set_inuse (p + ld) (s - ld) s1)) = Inr s2"
      "heap F e C2 s2" "blocks F {} C2 = ?B(p + ld \<mapsto> s - ld)" "undisturbed ?B s1 s2" "blocks F {} C1 (p + ld) = None" "p + ld \<noteq> F"
      unfolding B by blast
    have "?B (p + ld) = None" using f(5) unfolding B by simp
    moreover have "give_lead A m s1 = Inr (p + ld, s2)"
      unfolding give_lead_def br_def [symmetric] Let_def ld(5) mp using False f(1) ld(1) tags(2,6) by (simp add: MIN_CHUNK_SIZE_def)
    ultimately show ?thesis using f(2-4,6) ld(4,6) up(4) undisturbed_trans [OF m(5) f(4)]
      by (intro exI [of _ "p + ld"] exI [of _ s2] exI [of _ C2] exI [of _ "s - ld"]) simp
  qed
  then obtain q s2 C2 z where q: "give_lead A m s1 = Inr (q, s2)" "heap F e C2 s2" "blocks F {} C2 = ?B(q \<mapsto> z)" "nb \<le> z" "undisturbed ?B st s2"
    "(q + 16) mod A = 0" "?B q = None" "q \<noteq> F" by (elim exE conjE)
  have "blocks F {} C2 q = Some z" using q(3) by simp
  then obtain v2 where c2: "C2 q = Some (z, True, v2)" using blocks_iff by blast
  from align_back [OF q(2) c2 q(8) assms(4,5) q(4)] obtain s3 C3 z' where b: "give_spare nb q s2 = Inr s3" "heap F e C3 s3"
    "blocks F {} C3 = ?B(q \<mapsto> z')" "nb \<le> z'" "z' \<le> nb + 32" "undisturbed (?B(q := None)) s2 s3" unfolding q(3) fun_upd_upd by blast
  have "undisturbed ?B s2 s3" using b(6) q(7) by (simp add: fun_upd_idem)
  then have "handed F e C z' st (chunk2mem q) s3" using handedI [OF b(2) q(7) b(3)] undisturbed_trans [OF q(5)] by blast
  then show ?thesis using q(1,6) b(1,4,5) by (intro exI [of _ q] exI [of _ s2] exI [of _ s3] exI [of _ z']) (simp add: chunk2mem_def)
qed

lemma handed_aligned:
  assumes "handed F e C nb st m st'"
  shows "m mod 32 = 0"
proof -
  obtain p C' where h: "m = p + 16" "heap F e C' st'" "blocks F {} C' p = Some nb" using assms by (auto simp: handed_def chunk2mem_def)
  obtain v where "C' p = Some (nb, True, v)" using h(3) blocks_iff by blast
  then have "p mod 32 = 16" using shapeD(10) [OF midD(1) [OF heapD(1) [OF h(2)]]] by blast
  then show ?thesis using mod_add_eq [of p 32 16] h(1) by simp
qed

lemma mspace_memalign_spec:
  assumes "heap F e C st" "alignment \<le> 2 ^ 63" "n < 2 ^ 64"
  shows "\<exists>m st'. mspace_memalign alignment n st = Inr (m, st') \<and> (m = 0 \<and> st' = st \<or>
     (\<exists>i z. alignment \<le> 2 ^ i \<and> m mod 2 ^ i = 0 \<and> request2size n \<le> z \<and> z \<le> request2size n + 32 \<and> handed F e C z st m st'))"
proof -
  let ?nb = "request2size n"
  note rs = request_size [OF refl, of n]
  show ?thesis
  proof (cases "alignment \<le> 32")
    case True
    obtain m st' where m: "mspace_malloc n st = Inr (m, st')" "m = 0 \<and> st' = st \<or> handed F e C ?nb st m st'"
      using mspace_malloc_spec [OF assms(1,3) refl] by blast
    have "m mod 2 ^ 5 = 0" if "handed F e C ?nb st m st'" using handed_aligned [OF that] by simp
    then have "\<exists>i z. alignment \<le> 2 ^ i \<and> m mod 2 ^ i = 0 \<and> ?nb \<le> z \<and> z \<le> ?nb + 32 \<and> handed F e C z st m st'" if "handed F e C ?nb st m st'"
      using True that by (intro exI [of _ 5] exI [of _ ?nb]) simp
    then show ?thesis using True m by (auto simp: mspace_memalign_def)
  next
    case False
    obtain i where i: "(if alignment AND (alignment - 1) \<noteq> 0 then round_alignment 60 64 alignment else Inr alignment) = Inr (2 ^ i)"
      "alignment \<le> 2 ^ i" "6 \<le> i" "i \<le> 63" using alignment_power [OF _ assms(2)] False by auto
    let ?A = "2 ^ i :: nat"
    have A: "32 dvd ?A" "0 < ?A" "?A \<le> 2 ^ 63" using i(3,4) le_imp_power_dvd [of 5 i "2::nat"] power_increasing [of i 63 "2::nat"] by auto
    have mx: "minus64 MAX_REQUEST ?A = MAX_REQUEST - ?A" using A(3) by (intro minus64_le) (auto simp: MAX_REQUEST_def)
    have al: "\<not> alignment < MIN_CHUNK_SIZE" using False by (simp add: MIN_CHUNK_SIZE_def)
    have run: "internal_memalign alignment n st = (if MAX_REQUEST - ?A \<le> n then Inr (0, st) else
        res_bind (mspace_malloc (?nb + ?A + MIN_CHUNK_SIZE - 8) st) (\<lambda>(mem, s1).
        if mem = 0 then Inr (0, s1)
        else res_bind (give_lead ?A mem s1) (\<lambda>(p, s2). res_bind (give_spare ?nb p s2) (\<lambda>s3. Inr (chunk2mem p, s3)))))"
      unfolding internal_memalign_def Let_def if_not_P [OF al] i(1) using mx by simp
    show ?thesis
    proof (cases "MAX_REQUEST - ?A \<le> n")
      case True
      then show ?thesis using False run by (simp add: mspace_memalign_def)
    next
      case lt: False
      define req where "req = ?nb + ?A + MIN_CHUNK_SIZE - 8"
      have req: "req < 2 ^ 64" "?nb + ?A + 32 \<le> request2size req"
        using lt A(3) rs(4) request_size(3) [OF refl, of req] by (auto simp: req_def MIN_CHUNK_SIZE_def MAX_REQUEST_def)
      obtain m s1 where m: "mspace_malloc req st = Inr (m, s1)" "m = 0 \<and> s1 = st \<or> handed F e C (request2size req) st m s1"
        using mspace_malloc_spec [OF assms(1) req(1) refl] by blast
      from m(2) show ?thesis
      proof
        assume h: "handed F e C (request2size req) st m s1"
        from aligned_cut [OF assms(1) h req(2) rs(1,2) A(1,2)] obtain q s2 s3 z where c: "give_lead ?A m s1 = Inr (q, s2)" "give_spare ?nb q s2 = Inr s3"
          "chunk2mem q mod ?A = 0" "?nb \<le> z" "z \<le> ?nb + 32" "handed F e C z st (chunk2mem q) s3" by (elim exE conjE)
        have "mspace_memalign alignment n st = Inr (chunk2mem q, s3)"
          using False lt m(1) c(1,2) handed_bound [OF h] run by (simp add: mspace_memalign_def flip: req_def)
        moreover have "\<exists>i z. alignment \<le> 2 ^ i \<and> chunk2mem q mod 2 ^ i = 0 \<and> ?nb \<le> z \<and> z \<le> ?nb + 32 \<and> handed F e C z st (chunk2mem q) s3"
          using c(3-6) i(2) by (intro exI [of _ i] exI [of _ z]) simp
        ultimately show ?thesis by auto
      qed (use False lt m(1) run in \<open>auto simp: mspace_memalign_def req_def\<close>)
    qed
  qed
qed

end
