(* ===== verification/DlClient.thy ===== *)
theory DlClient
  imports DlResize
begin

text \<open>
  The allocator from the outside: a new space, and what its users may do with it.
\<close>

section \<open>Creation\<close>

lemma align_offset_spec: "(a + align_offset a) mod 32 = 0" "align_offset a < 32"
proof -
  have "(a + align_offset a) mod 32 = 0"
  proof (cases "a mod 32 = 0")
    case False
    have "a + (32 - a mod 32) = a div 32 * 32 + 32"
      using mod_less_divisor [of 32 a] div_mult_mod_eq [of a 32] by linarith
    then show ?thesis using False by (simp add: align_offset_def)
  qed (simp add: align_offset_def)
  then show "(a + align_offset a) mod 32 = 0" "align_offset a < 32" by (auto simp: align_offset_def)
qed

lemma init_bins_words:
  "words (init_bins st) a = words st a \<or> maddr st + 88 \<le> a \<and> a < maddr st + 600"
  "\<exists>w. init_bins st = st\<lparr>words := w\<rparr>"
proof -
  let ?f = "\<lambda>i s. poke (at (smallbin_at st i) 16) (smallbin_at st i) (poke (at (smallbin_at st i) 24) (smallbin_at st i) s)"
  have *: "(words (fold ?f is s) a = words s a \<or> maddr st + 88 \<le> a \<and> a < maddr st + 600) \<and> (\<exists>w. fold ?f is s = s\<lparr>words := w\<rparr>)"
    if "\<forall>i \<in> set is. i < 32" for "is" s
    using that
  proof (induction "is" arbitrary: s)
    case (Cons i "is")
    have "words (?f i s) a = words s a \<or> maddr st + 88 \<le> a \<and> a < maddr st + 600"
      using Cons.prems by (auto simp: at_def smallbin_at_def)
    moreover obtain w where w: "?f i s = s\<lparr>words := w\<rparr>" by (auto simp: poke_def)
    moreover obtain w' where "fold ?f is (?f i s) = (?f i s)\<lparr>words := w'\<rparr>" using Cons.IH [of "?f i s"] Cons.prems by auto
    then have "fold ?f (i # is) s = s\<lparr>words := w'\<rparr>" using w by simp
    moreover have "words (fold ?f (i # is) s) a = words (?f i s) a \<or> maddr st + 88 \<le> a \<and> a < maddr st + 600"
      using Cons.IH [of "?f i s"] Cons.prems by simp
    ultimately show ?case by metis
  next
    case Nil
    have "s = s\<lparr>words := words s\<rparr>" by simp
    then show ?case by (metis fold_Nil id_apply)
  qed
  have "\<forall>i \<in> set [0..<32]. i < (32::nat)" by simp
  from * [OF this, of st]
  show "words (init_bins st) a = words st a \<or> maddr st + 88 \<le> a \<and> a < maddr st + 600"
    "\<exists>w. init_bins st = st\<lparr>words := w\<rparr>" unfolding init_bins_def by blast+
qed

lemma create_heap:
  assumes "create_mspace_with_base base capacity mem = Some st" "1136 \<le> capacity" "capacity < 2 ^ 40" "base + capacity < 2 ^ 63"
    "(base + capacity) mod 32 = 0" "F = base + align_offset (chunk2mem base)" "e = base + capacity - 112"
  shows "\<exists>C. heap F e C st \<and> blocks F {} C = (\<lambda>_. None)"
    "top_chunk st = F + 960" "topsize st = e - (F + 960)" "dvsize st = 0" "smallmap st = 0" "treemap st = 0"
proof -
  have F: "F mod 32 = 16" "base \<le> F" "F < base + 32"
  proof -
    have "(F + 16) mod 32 = 0" using align_offset_spec(1) [of "base + 16"] by (simp add: assms(6) chunk2mem_def ac_simps)
    then show "F mod 32 = 16" by presburger
    show "base \<le> F" "F < base + 32" using align_offset_spec(2) by (auto simp: assms(6))
  qed
  have msize: "msize = 960" by (simp add: msize_def pad_request_def state_size_def)
  define ts where "ts = e - (F + 960)"
  have ts: "F + 960 + ts = e" "32 \<le> ts" using F assms(2,7) by (auto simp: ts_def)
  have e: "e mod 32 = 16"
  proof -
    have "(e + 112) mod 32 = 0" using assms(2,5,7) by simp
    then show ?thesis by presburger
  qed
  have top: "(F + 960) mod 32 = 16" using F(1) mod_add_eq [of F 32 960] by simp
  have "F + 960 \<le> e" using ts(1) by simp
  then have "32 dvd ts" unfolding ts_def using e top mod_eq_dvd_iff_nat [of "F + 960" e 32] by simp
  define st0 where "st0 = \<lparr>smallmap = 0, treemap = 0, dvsize = 0, topsize = 0, least_addr = base, dv = 0, top_chunk = 0,
                 trim_check = 0, release_checks = MAX_SIZE_T, maddr = F + 16, words = mem\<rparr>"
  define st1 where "st1 = poke (at F 8) (msize OR 3) (memclear (F + 16) msize st0)"
  define st2 where "st2 = init_bins st1"
  have st1: "smallmap st1 = 0" "treemap st1 = 0" "dvsize st1 = 0" "dv st1 = 0" "least_addr st1 = base" "maddr st1 = F + 16"
    by (simp_all add: st1_def st0_def memclear_def)
  obtain w where w: "st2 = st1\<lparr>words := w\<rparr>" using init_bins_words(2) [of st1] by (auto simp: st2_def)
  have keep: "words st2 a = words st1 a" if "a < F + 104 \<or> F + 616 \<le> a" for a
    using init_bins_words(1) [of st1 a] that by (auto simp: st2_def st1(6))
  have head: "words st2 (at F 8) = headword 960 True True"
    using keep [of "at F 8"] by (simp add: at_def st1_def msize headword_def)
  then have size: "chunksize st2 F = 960" by (simp add: chunksize_def headword_def)
  have zero: "words st2 (tbin (F + 16) i) = 0" if "i < 32" for i
    using less_imp_le_nat [OF that] diff_le_mono2 [of "8 * i" 256 360] keep [of "tbin (F + 16) i"] that by (simp add: tbin_def st1_def at_def memclear_def msize Let_def)
  have off: "align_offset (chunk2mem (F + 960)) = 0" using top mod_add_eq [of "F + 960" 32 16] by (simp add: align_offset_def chunk2mem_def)
  have m1: "minus64 (minus64 (base + capacity) (F + 960)) TOP_FOOT_SIZE = ts" 
  proof -
    have "F + 960 \<le> base + capacity" "base + capacity < 2 ^ 64" using F assms(2,4) by auto
    then have "minus64 (base + capacity) (F + 960) = base + capacity - (F + 960)" by (rule minus64_le)
    moreover have "minus64 (base + capacity - (F + 960)) TOP_FOOT_SIZE = base + capacity - (F + 960) - 112"
      unfolding TOP_FOOT_SIZE_def using F assms(2,4) by (intro minus64_le) auto
    ultimately show ?thesis by (simp add: ts_def assms(7))
  qed
  have m2: "minus64 ts 0 = ts" "(F + 960 + ts) mod 2 ^ 64 = F + 960 + ts" using ts(1) assms(4,7) by (auto simp: minus64_def)
  have st: "st = (poke (at (F + 960 + ts) 8) TOP_FOOT_SIZE (poke (at (F + 960) 8) (ts OR 1) (st2\<lparr>top_chunk := F + 960, topsize := ts\<rparr>)))
      \<lparr>trim_check := 2 * 1024 * 1024\<rparr>"
  proof -
    have "st = init_user_mstate base capacity mem" using assms(1) by (auto simp: create_mspace_with_base_def split: if_splits)
    also have "\<dots> = init_top (F + 960) ts st2"
      unfolding init_user_mstate_def Let_def assms(6) [symmetric]
      using m1 size by (simp add: chunk2mem_def st2_def st1_def st0_def)
    finally show ?thesis by (simp only: init_top_def Let_def off m2 add_0_right)
  qed
  define C :: chunks where "C = [F \<mapsto> (960, True, True), F + 960 \<mapsto> (ts, False, True)]"
  have C: "C p = Some q \<longleftrightarrow> p = F \<and> q = (960, True, True) \<or> p = F + 960 \<and> q = (ts, False, True)" for p q by (auto simp: C_def)
  have sh: "shape F (F + 960) e C"
    unfolding shape_def using F e ts top \<open>32 dvd ts\<close> assms(3,4,7) by (auto simp: C)
  have f: "top_chunk st = F + 960" "topsize st = ts" "dv st = 0" "dvsize st = 0" "maddr st = F + 16" "smallmap st = 0" "treemap st = 0" "least_addr st = base"
    by (simp_all add: st w st1)
  have words: "words st = (words st2)(at (F + 960) 8 := headword ts False True, at (F + 960 + ts) 8 := TOP_FOOT_SIZE)"
    using headword_simps(1) [OF \<open>32 dvd ts\<close>] by (simp add: st)
  have tags: "tagged {} C (F + 960) (words st)"
    unfolding tagged_def words using head ts(2) by (auto simp: C tag_inject)
  have bins: "bins st (\<lambda>_. None)"
    unfolding bins_def
  proof (intro conjI)
    show "apart (maddr st) (\<lambda>_. None)" by (simp add: apart_def)
    show "least_addr st \<le> maddr st" using F by (simp add: f)
    have "small_ok (maddr st) (smallmap st) (words st) (\<lambda>_. None) (\<lambda>_. [])" by (simp add: small_ok_def f)
    then show "\<exists>ch. small_ok (maddr st) (smallmap st) (words st) (\<lambda>_. None) ch" by blast
    have "words st (tbin (F + 16) i) = 0" if "i < 32" for i using zero [OF that] that by (auto simp: words at_def tbin_def)
    then have "tree_ok (maddr st) (treemap st) (words st) (\<lambda>_. None) {} (\<lambda>_. []) (\<lambda>_. 0) (\<lambda>_. 0)" by (simp add: tree_ok_def f)
    then show "\<exists>N cl lo lv. tree_ok (maddr st) (treemap st) (words st) (\<lambda>_. None) N cl lo lv" by blast
  qed
  have "mid F e C {} (\<lambda>_. None) st"
    unfolding mid_def f using sh tags bins by (simp add: C)
  then have "heap F e C st"
  proof (rule heapI)
    have "binned C (top_chunk st) (dv st) p \<noteq> Some s" for p s by (simp add: binned_iff C f)
    then show "None = binned C (top_chunk st) (dv st) p" for p by (metis not_None_eq)
  qed (auto simp: merged_def C f)
  moreover have "blocks F {} C p \<noteq> Some s" for p s by (auto simp: blocks_iff C)
  then have "blocks F {} C p = None" for p by (metis not_None_eq)
  ultimately show "\<exists>C. heap F e C st \<and> blocks F {} C = (\<lambda>_. None)" by blast
  show "top_chunk st = F + 960" "topsize st = e - (F + 960)" "dvsize st = 0" "smallmap st = 0" "treemap st = 0"
    using f by (simp_all add: ts_def)
qed

section \<open>Users of an allocator\<close>

text \<open>
  What an allocator offers, and what its users do with it: they ask for blocks, cleared or aligned ones too, resize and give back blocks they have, and store words
  in their blocks. \<open>L\<close> gives for each address that was handed out and not given back the number of bytes asked for.
\<close>

record 's allocator =
  allocate :: "nat \<Rightarrow> 's \<Rightarrow> (nat \<times> 's) res"
  allocate_zero :: "nat \<Rightarrow> nat \<Rightarrow> 's \<Rightarrow> (nat \<times> 's) res"
  allocate_aligned :: "nat \<Rightarrow> nat \<Rightarrow> 's \<Rightarrow> (nat \<times> 's) res"
  reallocate :: "nat \<Rightarrow> nat \<Rightarrow> 's \<Rightarrow> (nat \<times> 's) res"
  deallocate :: "nat \<Rightarrow> 's \<Rightarrow> 's res"
  store_word :: "nat \<Rightarrow> nat \<Rightarrow> 's \<Rightarrow> 's"
  load_word :: "'s \<Rightarrow> nat \<Rightarrow> nat"

definition obtained :: "nat \<Rightarrow> nat \<Rightarrow> (nat \<rightharpoonup> nat) \<Rightarrow> nat \<rightharpoonup> nat" where
  "obtained m n L = (if m = 0 then L else L(m \<mapsto> n))"

inductive session :: "'s allocator \<Rightarrow> 's \<Rightarrow> 's \<Rightarrow> (nat \<rightharpoonup> nat) \<Rightarrow> bool" for A s0 where
  session_start: "session A s0 s0 (\<lambda>_. None)"
| session_alloc: "session A s0 st L \<Longrightarrow> n < 2 ^ 64 \<Longrightarrow> allocate A n st = Inr (m, st') \<Longrightarrow> session A s0 st' (obtained m n L)"
| session_zero: "session A s0 st L \<Longrightarrow> n < 2 ^ 64 \<Longrightarrow> k < 2 ^ 64 \<Longrightarrow> allocate_zero A n k st = Inr (m, st') \<Longrightarrow>
    session A s0 st' (obtained m (n * k) L)"
| session_aligned: "session A s0 st L \<Longrightarrow> al \<le> 2 ^ 63 \<Longrightarrow> n < 2 ^ 64 \<Longrightarrow> allocate_aligned A al n st = Inr (m, st') \<Longrightarrow>
    session A s0 st' (obtained m n L)"
| session_resize: "session A s0 st L \<Longrightarrow> L m = Some k \<Longrightarrow> n < 2 ^ 64 \<Longrightarrow> reallocate A m n st = Inr (m', st') \<Longrightarrow>
    session A s0 st' (if m' = 0 then L else L(m := None, m' \<mapsto> n))"
| session_release: "session A s0 st L \<Longrightarrow> L m = Some n \<Longrightarrow> deallocate A m st = Inr st' \<Longrightarrow> session A s0 st' (L(m := None))"
| session_store: "session A s0 st L \<Longrightarrow> L m = Some n \<Longrightarrow> m \<le> a \<Longrightarrow> a + 8 \<le> m + n \<Longrightarrow> session A s0 (store_word A a v st) L"

text \<open>The words of the blocks in \<open>L\<close> stay as they are; a new block is none of them.\<close>

definition intact :: "('s \<Rightarrow> nat \<Rightarrow> nat) \<Rightarrow> (nat \<rightharpoonup> nat) \<Rightarrow> 's \<Rightarrow> 's \<Rightarrow> bool" where
  "intact peek L st st' \<longleftrightarrow> (\<forall>m n a. L m = Some n \<longrightarrow> m \<le> a \<longrightarrow> a < m + n \<longrightarrow> peek st' a = peek st a)"

definition fresh :: "('s \<Rightarrow> nat \<Rightarrow> nat) \<Rightarrow> (nat \<rightharpoonup> nat) \<Rightarrow> 's \<Rightarrow> nat \<Rightarrow> 's \<Rightarrow> bool" where
  "fresh peek L st m st' \<longleftrightarrow> (if m = 0 then st' = st else L m = None \<and> intact peek L st st')"

definition kept_words :: "('s \<Rightarrow> nat \<Rightarrow> nat) \<Rightarrow> nat \<Rightarrow> nat \<Rightarrow> 's \<Rightarrow> nat \<Rightarrow> 's \<Rightarrow> bool" where
  "kept_words peek k m st m' st' \<longleftrightarrow> (\<forall>i. i + 8 \<le> k \<longrightarrow> peek st' (m' + i) = peek st (m + i))"

definition zeroed :: "('s \<Rightarrow> nat \<Rightarrow> nat) \<Rightarrow> nat \<Rightarrow> nat \<Rightarrow> 's \<Rightarrow> bool" where
  "zeroed peek m n st \<longleftrightarrow> (\<forall>i. i + 8 \<le> n \<longrightarrow> peek st (m + i) = 0)"

definition aligned_to :: "nat \<Rightarrow> nat \<Rightarrow> bool" where
  "aligned_to al m \<longleftrightarrow> (\<exists>i. al \<le> 2 ^ i \<and> m mod 2 ^ i = 0)"

text \<open>The basic contract: blocks are handed out and given back.\<close>

locale block_space =
  fixes A :: "'s allocator" and good :: "'s \<Rightarrow> (nat \<rightharpoonup> nat) \<Rightarrow> bool"
  assumes alloc_law: "good st L \<Longrightarrow> n < 2 ^ 64 \<Longrightarrow> \<exists>m st'. allocate A n st = Inr (m, st') \<and> good st' (obtained m n L) \<and> fresh (load_word A) L st m st'"
    and release_law: "good st L \<Longrightarrow> L m = Some n \<Longrightarrow> \<exists>st'. deallocate A m st = Inr st' \<and> good st' (L(m := None)) \<and> intact (load_word A) (L(m := None)) st st'"
    and store_law: "good st L \<Longrightarrow> L m = Some n \<Longrightarrow> m \<le> a \<Longrightarrow> a + 8 \<le> m + n \<Longrightarrow> good (store_word A a v st) L"
    and apart_law: "good st L \<Longrightarrow> L m = Some n \<Longrightarrow> L m' = Some n' \<Longrightarrow> m < m' \<Longrightarrow> m + n \<le> m'"
begin

lemma good_disjoint:
  assumes "good st L" "L m = Some n" "L m' = Some n'" "m \<noteq> m'"
  shows "m + n \<le> m' \<or> m' + n' \<le> m"
  using apart_law [OF assms(1)] assms(2-4) by (metis nat_neq_iff)

end

text \<open>The full contract: cleared, aligned and resized blocks.\<close>

locale full_space = block_space +
  assumes zero_law: "good st L \<Longrightarrow> n < 2 ^ 64 \<Longrightarrow> k < 2 ^ 64 \<Longrightarrow> \<exists>m st'. allocate_zero A n k st = Inr (m, st') \<and>
      good st' (obtained m (n * k) L) \<and> fresh (load_word A) L st m st' \<and> (m \<noteq> 0 \<longrightarrow> zeroed (load_word A) m (n * k) st')"
    and aligned_law: "good st L \<Longrightarrow> al \<le> 2 ^ 63 \<Longrightarrow> n < 2 ^ 64 \<Longrightarrow> \<exists>m st'. allocate_aligned A al n st = Inr (m, st') \<and>
      good st' (obtained m n L) \<and> fresh (load_word A) L st m st' \<and> aligned_to al m"
    and resize_law: "good st L \<Longrightarrow> L m = Some k \<Longrightarrow> n < 2 ^ 64 \<Longrightarrow> \<exists>m' st'. reallocate A m n st = Inr (m', st') \<and>
      (if m' = 0 then st' = st
       else (m' = m \<or> L m' = None) \<and> good st' (L(m := None, m' \<mapsto> n)) \<and> intact (load_word A) (L(m := None)) st st' \<and>
         kept_words (load_word A) (min k n) m st m' st')"
begin

lemma session_good:
  assumes "good s0 (\<lambda>_. None)"
  shows "session A s0 st L \<Longrightarrow> good st L"
proof (induction rule: session.induct)
  case (session_alloc st L n m st')
  then show ?case using alloc_law [OF session_alloc.IH session_alloc.hyps(2)] by auto
next
  case (session_zero st L n k m st')
  then show ?case using zero_law [OF session_zero.IH session_zero.hyps(2,3)] by auto
next
  case (session_aligned st L al n m st')
  then show ?case using aligned_law [OF session_aligned.IH session_aligned.hyps(2,3)] by auto
next
  case (session_resize st L m k n m' st')
  then show ?case using resize_law [OF session_resize.IH session_resize.hyps(2,3)] by (auto split: if_splits)
next
  case (session_release st L m n st')
  then show ?case using release_law [OF session_release.IH session_release.hyps(2)] by (metis sum.inject(2))
qed (use assms store_law in blast)+

text \<open>No call fails: each request is answered, and each block can be resized and given back.\<close>

lemma session_progress:
  assumes "good s0 (\<lambda>_. None)" "session A s0 st L"
  shows "n < 2 ^ 64 \<Longrightarrow> \<exists>m st'. allocate A n st = Inr (m, st') \<and> fresh (load_word A) L st m st'"
    "n < 2 ^ 64 \<Longrightarrow> k < 2 ^ 64 \<Longrightarrow> \<exists>m st'. allocate_zero A n k st = Inr (m, st') \<and> fresh (load_word A) L st m st' \<and> (m \<noteq> 0 \<longrightarrow> zeroed (load_word A) m (n * k) st')"
    "al \<le> 2 ^ 63 \<Longrightarrow> n < 2 ^ 64 \<Longrightarrow> \<exists>m st'. allocate_aligned A al n st = Inr (m, st') \<and> fresh (load_word A) L st m st' \<and> aligned_to al m"
    "L m = Some k \<Longrightarrow> n < 2 ^ 64 \<Longrightarrow> \<exists>m' st'. reallocate A m n st = Inr (m', st') \<and>
      (if m' = 0 then st' = st else (m' = m \<or> L m' = None) \<and> intact (load_word A) (L(m := None)) st st' \<and> kept_words (load_word A) (min k n) m st m' st')"
    "L m = Some k \<Longrightarrow> \<exists>st'. deallocate A m st = Inr st' \<and> intact (load_word A) (L(m := None)) st st'"
proof -
  note g = session_good [OF assms]
  show "n < 2 ^ 64 \<Longrightarrow> \<exists>m st'. allocate A n st = Inr (m, st') \<and> fresh (load_word A) L st m st'"
    "n < 2 ^ 64 \<Longrightarrow> k < 2 ^ 64 \<Longrightarrow> \<exists>m st'. allocate_zero A n k st = Inr (m, st') \<and> fresh (load_word A) L st m st' \<and> (m \<noteq> 0 \<longrightarrow> zeroed (load_word A) m (n * k) st')"
    "al \<le> 2 ^ 63 \<Longrightarrow> n < 2 ^ 64 \<Longrightarrow> \<exists>m st'. allocate_aligned A al n st = Inr (m, st') \<and> fresh (load_word A) L st m st' \<and> aligned_to al m"
    "L m = Some k \<Longrightarrow> \<exists>st'. deallocate A m st = Inr st' \<and> intact (load_word A) (L(m := None)) st st'"
    using alloc_law [OF g, of n] zero_law [OF g, of n k] aligned_law [OF g, of al n] release_law [OF g, of m k] by blast+
  show "L m = Some k \<Longrightarrow> n < 2 ^ 64 \<Longrightarrow> \<exists>m' st'. reallocate A m n st = Inr (m', st') \<and>
      (if m' = 0 then st' = st else (m' = m \<or> L m' = None) \<and> intact (load_word A) (L(m := None)) st st' \<and> kept_words (load_word A) (min k n) m st m' st')"
  proof -
    assume "L m = Some k" "n < 2 ^ 64"
    then obtain m' st' where r: "reallocate A m n st = Inr (m', st')" "if m' = 0 then st' = st
       else (m' = m \<or> L m' = None) \<and> good st' (L(m := None, m' \<mapsto> n)) \<and> intact (load_word A) (L(m := None)) st st' \<and>
         kept_words (load_word A) (min k n) m st m' st'" using resize_law [OF g] by blast
    show ?thesis by (intro exI conjI, rule r(1)) (use r(2) in \<open>simp split: if_splits\<close>)
  qed
qed

lemma session_disjoint:
  assumes "good s0 (\<lambda>_. None)" "session A s0 st L" "L m = Some n" "L m' = Some n'" "m \<noteq> m'"
  shows "m + n \<le> m' \<or> m' + n' \<le> m"
  by (rule good_disjoint [OF session_good [OF assms(1,2)] assms(3-5)])

end

section \<open>The allocator keeps the contract\<close>

definition holds :: "(nat \<rightharpoonup> nat) \<Rightarrow> (nat \<rightharpoonup> nat) \<Rightarrow> bool" where
  "holds L B \<longleftrightarrow> (\<forall>p. (L (p + 16) = None) = (B p = None)) \<and> (\<forall>p n s. L (p + 16) = Some n \<longrightarrow> B p = Some s \<longrightarrow> n + 8 \<le> s) \<and> (\<forall>m < 16. L m = None)"

definition space_ok :: "nat \<Rightarrow> nat \<Rightarrow> mstate \<Rightarrow> (nat \<rightharpoonup> nat) \<Rightarrow> bool" where
  "space_ok F e st L \<longleftrightarrow> (\<exists>C. heap F e C st \<and> holds L (blocks F {} C))"

lemma holdsD:
  assumes "holds L B" "L m = Some n"
  obtains p s where "m = p + 16" "B p = Some s" "n + 8 \<le> s"
proof -
  have "16 \<le> m" using assms by (metis holds_def not_le option.distinct(1))
  then obtain p where p: "m = p + 16" by (metis le_add_diff_inverse2)
  moreover obtain s where "B p = Some s" using assms p unfolding holds_def by (metis not_None_eq)
  ultimately show ?thesis using that assms unfolding holds_def by metis
qed

lemma intact_undisturbed:
  assumes "holds L B" "undisturbed B st st'"
  shows "intact words L st st'"
  unfolding intact_def
proof (intro allI impI)
  fix m n a assume a: "L m = Some n" "m \<le> a" "a < m + n"
  obtain p s where "m = p + 16" "B p = Some s" "n + 8 \<le> s" using holdsD [OF assms(1) a(1)] .
  then have "inside B a" using a(2,3) unfolding inside_def by (intro exI [of _ p] exI [of _ s]) simp
  then show "words st' a = words st a" using assms(2) by (simp add: undisturbed_def)
qed

lemma holds_add: "holds L B \<Longrightarrow> n + 8 \<le> s \<Longrightarrow> holds (L(p + 16 \<mapsto> n)) (B(p \<mapsto> s))"
  unfolding holds_def by auto

lemma holds_remove: "holds L B \<Longrightarrow> holds (L(p + 16 := None)) (B(p := None))"
  unfolding holds_def by auto

lemma space_blocks:
  assumes "space_ok F e st L" "L m = Some n"
  shows "m mod 32 = 0" "F + 960 + 16 \<le> m" "m + n \<le> e + 8"
proof -
  obtain C where C: "heap F e C st" "holds L (blocks F {} C)" using assms(1) by (auto simp: space_ok_def)
  obtain p s where p: "m = p + 16" "blocks F {} C p = Some s" "n + 8 \<le> s" using holdsD [OF C(2) assms(2)] .
  obtain v where c: "C p = Some (s, True, v)" "p \<noteq> F" using p(2) blocks_iff by blast
  note d = shapeD [OF midD(1) [OF heapD(1) [OF C(1)]]]
  show "m mod 32 = 0" using d(10) [OF c(1)] p(1) mod_add_eq [of p 32 16] by simp
  show "F + 960 + 16 \<le> m" using d(13) [OF d(1) c(1)] d(9) [OF c(1)] c(2) p(1) by simp
  show "m + n \<le> e + 8" using d(11) [OF c(1)] p by simp
qed

definition dlmalloc :: "mstate allocator" where
  "dlmalloc = \<lparr>allocate = mspace_malloc, allocate_zero = mspace_calloc, allocate_aligned = mspace_memalign,
     reallocate = mspace_realloc, deallocate = mspace_free, store_word = poke, load_word = words\<rparr>"

lemma dlmalloc_simps [simp]:
  "allocate dlmalloc = mspace_malloc" "allocate_zero dlmalloc = mspace_calloc" "allocate_aligned dlmalloc = mspace_memalign"
  "reallocate dlmalloc = mspace_realloc" "deallocate dlmalloc = mspace_free" "store_word dlmalloc = poke" "load_word dlmalloc = words"
  by (simp_all add: dlmalloc_def)

lemma space_okE:
  assumes "space_ok F e st L"
  obtains C where "heap F e C st" "holds L (blocks F {} C)"
  using assms by (auto simp: space_ok_def)

lemma space_ok_block:
  assumes "holds L (blocks F {} C)" "L m = Some n"
  obtains p s v where "m = chunk2mem p" "C p = Some (s, True, v)" "p \<noteq> F" "blocks F {} C p = Some s" "n + 8 \<le> s"
proof -
  obtain p s where p: "m = p + 16" "blocks F {} C p = Some s" "n + 8 \<le> s" using holdsD [OF assms] .
  moreover obtain v where "C p = Some (s, True, v)" "p \<noteq> F" using p(2) blocks_iff by blast
  ultimately show ?thesis using that by (simp add: chunk2mem_def)
qed

lemma handed_good:
  assumes "holds L (blocks F {} C)" "handed F e C z st m st'" "n + 8 \<le> z"
  shows "space_ok F e st' (obtained m n L) \<and> fresh words L st m st'"
proof -
  obtain p C' where h: "m = p + 16" "heap F e C' st'" "blocks F {} C p = None" "blocks F {} C' = (blocks F {} C)(p \<mapsto> z)"
    "undisturbed (blocks F {} C) st st'" using assms(2) by (auto simp: handed_def chunk2mem_def)
  have "L m = None" using assms(1) h(1,3) by (simp add: holds_def)
  moreover have "space_ok F e st' (L(m \<mapsto> n))"
    using h(2) holds_add [OF assms(1,3), of p] unfolding space_ok_def h(1) h(4) [symmetric] by blast
  ultimately show ?thesis using h(1) intact_undisturbed [OF assms(1) h(5)] by (simp add: obtained_def fresh_def)
qed

lemma refused_good: "space_ok F e st L \<Longrightarrow> space_ok F e st (obtained 0 n L) \<and> fresh words L st 0 st"
  by (simp add: obtained_def fresh_def)

lemma moved_good:
  assumes "holds L (blocks F {} C)" "L (chunk2mem p) = Some k" "blocks F {} C p = Some s" "moved F e C p s n st m' st'"
  shows "(m' = chunk2mem p \<or> L m' = None) \<and> space_ok F e st' (L(chunk2mem p := None, m' \<mapsto> n)) \<and>
    intact words (L(chunk2mem p := None)) st st' \<and> kept_words words (min k n) (chunk2mem p) st m' st'"
proof -
  let ?B = "blocks F {} C" and ?m = "chunk2mem p"
  obtain q C' where q: "m' = chunk2mem q" "heap F e C' st'" "q = p \<or> ?B q = None"
    "blocks F {} C' = ?B(p := None, q \<mapsto> request2size n)" "undisturbed (?B(p := None)) st st'"
    "\<And>i. i + 8 \<le> min (s - 8) n \<Longrightarrow> words st' (m' + i) = words st (?m + i)"
    using assms(4) by (auto simp: moved_def)
  have h: "holds (L(?m := None)) (?B(p := None))" using holds_remove [OF assms(1), of p] by (simp add: chunk2mem_def)
  have "holds (L(?m := None, m' \<mapsto> n)) (blocks F {} C')"
    using holds_add [OF h request_size(3) [OF refl], of q n] q(1,4) by (simp add: chunk2mem_def)
  moreover have "m' = ?m \<or> L m' = None" using q(1,3) assms(1) by (auto simp: holds_def chunk2mem_def)
  moreover have "k + 8 \<le> s" using assms(1-3) unfolding holds_def chunk2mem_def by blast
  then have "kept_words words (min k n) ?m st m' st'" unfolding kept_words_def using q(6) by auto
  ultimately show ?thesis using q(2) intact_undisturbed [OF h q(5)] unfolding space_ok_def by blast
qed

interpretation dl: full_space dlmalloc "space_ok F e" for F e
proof
  fix st L and n :: nat assume ok: "space_ok F e st L" and n: "n < 2 ^ 64"
  obtain C where C: "heap F e C st" "holds L (blocks F {} C)" using ok by (rule space_okE)
  obtain m st' where run: "mspace_malloc n st = Inr (m, st')" and or: "m = 0 \<and> st' = st \<or> handed F e C (request2size n) st m st'"
    using mspace_malloc_spec [OF C(1) n refl] by blast
  from or have "space_ok F e st' (obtained m n L) \<and> fresh words L st m st'"
    using refused_good [OF ok] handed_good [OF C(2) _ request_size(3) [OF refl]] by blast
  then show "\<exists>m st'. allocate dlmalloc n st = Inr (m, st') \<and> space_ok F e st' (obtained m n L) \<and> fresh (load_word dlmalloc) L st m st'"
    using run by simp
next
  fix st L m n assume "space_ok F e st L" and m: "L m = Some n"
  then obtain C where C: "heap F e C st" "holds L (blocks F {} C)" by (elim space_okE)
  obtain p s v where p: "m = chunk2mem p" "C p = Some (s, True, v)" "p \<noteq> F" using space_ok_block [OF C(2) m] by blast
  obtain st' C' where f: "mspace_free (chunk2mem p) st = Inr st'" "heap F e C' st'" "blocks F {} C' = (blocks F {} C)(p := None)"
    "undisturbed ((blocks F {} C)(p := None)) st st'" using mspace_free_spec [OF C(1) p(2,3) refl] by blast
  have h: "holds (L(m := None)) ((blocks F {} C)(p := None))" using holds_remove [OF C(2)] p(1) by (simp add: chunk2mem_def)
  have "space_ok F e st' (L(m := None))" using f(2,3) h unfolding space_ok_def by metis
  then show "\<exists>st'. deallocate dlmalloc m st = Inr st' \<and> space_ok F e st' (L(m := None)) \<and> intact (load_word dlmalloc) (L(m := None)) st st'"
    using f(1) intact_undisturbed [OF h f(4)] p(1) by simp
next
  fix st L m n a v assume "space_ok F e st L" and m: "L m = Some n" "m \<le> a" "a + 8 \<le> m + n"
  then obtain C where C: "heap F e C st" "holds L (blocks F {} C)" by (elim space_okE)
  obtain p s where p: "m = p + 16" "blocks F {} C p = Some s" "n + 8 \<le> s" using holdsD [OF C(2) m(1)] .
  have "inside (blocks F {} C) a" unfolding inside_def using p m by (intro exI [of _ p] exI [of _ s]) simp
  then show "space_ok F e (store_word dlmalloc a v st) L" using heap_write [OF C(1)] C(2) unfolding space_ok_def dlmalloc_simps by blast
next
  fix st L m n m' n' assume "space_ok F e st L" and m: "L m = Some n" "L m' = Some n'" "m < m'"
  then obtain C where C: "heap F e C st" "holds L (blocks F {} C)" by (elim space_okE)
  obtain p s v where p: "m = chunk2mem p" "C p = Some (s, True, v)" "n + 8 \<le> s" using space_ok_block [OF C(2) m(1)] by blast
  obtain p' s' v' where p': "m' = chunk2mem p'" "C p' = Some (s', True, v')" using space_ok_block [OF C(2) m(2)] by blast
  have "p + s \<le> p'"
    using shapeD(13) [OF midD(1) [OF heapD(1) [OF C(1)]] p(2) p'(2)] m(3) p(1) p'(1) by (simp add: chunk2mem_def)
  then show "m + n \<le> m'" using p p'(1) by (simp add: chunk2mem_def)
next
  fix st L and n k :: nat assume ok: "space_ok F e st L" and n: "n < 2 ^ 64" "k < 2 ^ 64"
  obtain C where C: "heap F e C st" "holds L (blocks F {} C)" using ok by (rule space_okE)
  obtain m st' where run: "mspace_calloc n k st = Inr (m, st')" and or: "m = 0 \<and> st' = st \<or>
      handed F e C (request2size (n * k)) st m st' \<and> zeroed words m (n * k) st'"
    using mspace_calloc_spec [OF C(1) n] unfolding zeroed_def by blast
  from or have "space_ok F e st' (obtained m (n * k) L) \<and> fresh words L st m st'" "m \<noteq> 0 \<longrightarrow> zeroed words m (n * k) st'"
    using refused_good [OF ok] handed_good [OF C(2) _ request_size(3) [OF refl]] by blast+
  then show "\<exists>m st'. allocate_zero dlmalloc n k st = Inr (m, st') \<and> space_ok F e st' (obtained m (n * k) L) \<and>
      fresh (load_word dlmalloc) L st m st' \<and> (m \<noteq> 0 \<longrightarrow> zeroed (load_word dlmalloc) m (n * k) st')"
    using run by simp
next
  fix st L and al n :: nat assume ok: "space_ok F e st L" and n: "al \<le> 2 ^ 63" "n < 2 ^ 64"
  obtain C where C: "heap F e C st" "holds L (blocks F {} C)" using ok by (rule space_okE)
  obtain m st' where run: "mspace_memalign al n st = Inr (m, st')" and or: "m = 0 \<and> st' = st \<or>
      (\<exists>i z. al \<le> 2 ^ i \<and> m mod 2 ^ i = 0 \<and> request2size n \<le> z \<and> z \<le> request2size n + 32 \<and> handed F e C z st m st')"
    using mspace_memalign_spec [OF C(1) n] by (elim exE conjE) (rule that)
  have r: "aligned_to al m \<and> space_ok F e st' (obtained m n L) \<and> fresh words L st m st'"
    using or
  proof
    assume "m = 0 \<and> st' = st"
    moreover have "aligned_to al 0" unfolding aligned_to_def using n(1) by (intro exI [of _ 63]) simp
    ultimately show ?thesis using refused_good [OF ok] by simp
  next
    assume "\<exists>i z. al \<le> 2 ^ i \<and> m mod 2 ^ i = 0 \<and> request2size n \<le> z \<and> z \<le> request2size n + 32 \<and> handed F e C z st m st'"
    then obtain i z where z: "al \<le> 2 ^ i" "m mod 2 ^ i = 0" "request2size n \<le> z" "handed F e C z st m st'" by (elim exE conjE) (rule that)
    have "n + 8 \<le> z" using request_size(3) [OF refl, of n] z(3) by linarith
    moreover have "aligned_to al m" unfolding aligned_to_def using z(1,2) by (intro exI [of _ i]) simp
    ultimately show ?thesis using handed_good [OF C(2) z(4)] by simp
  qed
  then show "\<exists>m st'. allocate_aligned dlmalloc al n st = Inr (m, st') \<and> space_ok F e st' (obtained m n L) \<and>
      fresh (load_word dlmalloc) L st m st' \<and> aligned_to al m"
    using run by simp
next
  fix st L m k and n :: nat assume "space_ok F e st L" and m: "L m = Some k" and n: "n < 2 ^ 64"
  then obtain C where C: "heap F e C st" "holds L (blocks F {} C)" by (elim space_okE)
  obtain p s v where p: "m = chunk2mem p" "C p = Some (s, True, v)" "p \<noteq> F" "blocks F {} C p = Some s" using space_ok_block [OF C(2) m] by blast
  obtain m' st' where run: "mspace_realloc m n st = Inr (m', st')" and or: "m' = 0 \<and> st' = st \<or> m' \<noteq> 0 \<and> moved F e C p s n st m' st'"
    using mspace_realloc_spec [OF C(1) p(2,3) n] p(1) by blast
  show "\<exists>m' st'. reallocate dlmalloc m n st = Inr (m', st') \<and>
      (if m' = 0 then st' = st
       else (m' = m \<or> L m' = None) \<and> space_ok F e st' (L(m := None, m' \<mapsto> n)) \<and> intact (load_word dlmalloc) (L(m := None)) st st' \<and>
         kept_words (load_word dlmalloc) (min k n) m st m' st')"
  proof (intro exI conjI)
    show "reallocate dlmalloc m n st = Inr (m', st')" using run by simp
    show "if m' = 0 then st' = st
       else (m' = m \<or> L m' = None) \<and> space_ok F e st' (L(m := None, m' \<mapsto> n)) \<and> intact (load_word dlmalloc) (L(m := None)) st st' \<and>
         kept_words (load_word dlmalloc) (min k n) m st m' st'"
    proof (cases "m' = 0")
      case False
      then have "moved F e C p s n st m' st'" using or by blast
      from moved_good [OF C(2) m [unfolded p(1)] p(4) this] show ?thesis
        using False unfolding p(1) [symmetric] dlmalloc_simps by simp
    qed (use or in simp)
  qed
qed

section \<open>Properties\<close>

lemma created_ok:
  assumes "create_mspace_with_base base capacity mem = Some s0" "1136 \<le> capacity" "capacity < 2 ^ 40" "base + capacity < 2 ^ 63"
    "(base + capacity) mod 32 = 0"
  shows "space_ok (base + align_offset (chunk2mem base)) (base + capacity - 112) s0 (\<lambda>_. None)"
proof -
  obtain C where "heap (base + align_offset (chunk2mem base)) (base + capacity - 112) C s0"
    "blocks (base + align_offset (chunk2mem base)) {} C = (\<lambda>_. None)" using create_heap(1) [OF assms refl refl] by blast
  then show ?thesis unfolding space_ok_def by (intro exI [of _ C]) (simp add: holds_def)
qed

text \<open>
  The space of the kernel, at 512 GiB and of 256 GiB, after one request for 100 bytes.
\<close>

definition kernel_space :: mstate where
  "kernel_space = the (create_mspace_with_base (512 * 2 ^ 30) (256 * 2 ^ 30) (\<lambda>_. 0))"

lemma kernel_space_created: "create_mspace_with_base (512 * 2 ^ 30) (256 * 2 ^ 30) (\<lambda>_. 0) = Some kernel_space"
  by (simp add: kernel_space_def create_mspace_with_base_def msize_def pad_request_def state_size_def TOP_FOOT_SIZE_def page_size_def)

lemma kernel_space_first:
  "\<exists>st. mspace_malloc 100 kernel_space = Inr (512 * 2 ^ 30 + 992, st)"
proof -
  have "chunk2mem (512 * 2 ^ 30) = 512 * 2 ^ 30 + 16" by (simp add: chunk2mem_def)
  then have F: "512 * 2 ^ 30 + 16 = 512 * 2 ^ 30 + align_offset (chunk2mem (512 * 2 ^ 30))" by (simp add: align_offset_def)
  note f = create_heap(2-) [OF kernel_space_created _ _ _ _ F refl]
  show ?thesis
    using f by (simp add: mspace_malloc_def MAX_SMALL_REQUEST_def request2size_def MIN_REQUEST_def pad_request_def malloc_small_def
      small_index_def malloc_dv_top_def Let_def chunk2mem_def)
qed

lemma kernel_space_session:
  "\<exists>st. session dlmalloc kernel_space st [512 * 2 ^ 30 + 992 \<mapsto> 100]"
proof -
  obtain st where "mspace_malloc 100 kernel_space = Inr (512 * 2 ^ 30 + 992, st)" using kernel_space_first by blast
  then have "session dlmalloc kernel_space st (obtained (512 * 2 ^ 30 + 992) 100 (\<lambda>_. None))"
    by (intro session_alloc [OF session_start]) simp_all
  then show ?thesis by (auto simp: obtained_def)
qed

text \<open>
  C2. Starting from a new space (of 1136 bytes to 1 TiB, ending at a multiple of 32 below 2^63; the kernel's has 256 GiB at 512 GiB), whatever its users do with the five operations and with stores into their blocks, no call aborts or fails to return:
  every request for a block is answered, with 0 and an unchanged state or with
  a block that is not in use and without a change to the contents of the blocks in use; every block in use can be resized and given back, without a change to the others.
  A block from \<open>mspace_calloc\<close> is zero, one from \<open>mspace_memalign\<close> lies at a multiple of a power of two that is not below the
  alignment asked for (at most 2^63: above it the loop that rounds it up does not end), and a block that \<open>mspace_realloc\<close> returns starts with the words of the old one, as far as both sizes reach.
\<close>

theorem heap_session_safe:
  assumes "create_mspace_with_base base capacity mem = Some s0" "1136 \<le> capacity" "capacity < 2 ^ 40" "base + capacity < 2 ^ 63"
    "(base + capacity) mod 32 = 0" "session dlmalloc s0 st L"
  shows "(\<forall>n < 2 ^ 64. \<exists>m st'. mspace_malloc n st = Inr (m, st') \<and> fresh words L st m st') \<and>
    (\<forall>n < 2 ^ 64. \<forall>k < 2 ^ 64. \<exists>m st'. mspace_calloc n k st = Inr (m, st') \<and> fresh words L st m st' \<and>
       (m \<noteq> 0 \<longrightarrow> zeroed words m (n * k) st')) \<and>
    (\<forall>al \<le> 2 ^ 63. \<forall>n < 2 ^ 64. \<exists>m st'. mspace_memalign al n st = Inr (m, st') \<and> fresh words L st m st' \<and> aligned_to al m) \<and>
    (\<forall>m k. L m = Some k \<longrightarrow> (\<forall>n < 2 ^ 64. \<exists>m' st'. mspace_realloc m n st = Inr (m', st') \<and>
       (if m' = 0 then st' = st
        else (m' = m \<or> L m' = None) \<and> intact words (L(m := None)) st st' \<and> kept_words words (min k n) m st m' st'))) \<and>
    (\<forall>m k. L m = Some k \<longrightarrow> (\<exists>st'. mspace_free m st = Inr st' \<and> intact words (L(m := None)) st st'))"
proof -
  note p = dl.session_progress [OF created_ok [OF assms(1-5)] assms(6), unfolded dlmalloc_simps]
  show ?thesis by (intro conjI allI impI, (rule p; assumption)+)
qed

theorem heap_session_safe_witness:
  "\<exists>st m' st'. session dlmalloc kernel_space st [512 * 2 ^ 30 + 992 \<mapsto> 100] \<and> mspace_realloc (512 * 2 ^ 30 + 992) 200 st = Inr (m', st') \<and>
     (m' \<noteq> 0 \<longrightarrow> words st' (m' + 80) = words st (512 * 2 ^ 30 + 992 + 80))"
proof -
  obtain st where s: "session dlmalloc kernel_space st [512 * 2 ^ 30 + 992 \<mapsto> 100]" using kernel_space_session by blast
  have h: "(1136::nat) \<le> 256 * 2 ^ 30" "256 * 2 ^ 30 < (2::nat) ^ 40" "512 * 2 ^ 30 + 256 * 2 ^ 30 < (2::nat) ^ 63" "(512 * 2 ^ 30 + 256 * 2 ^ 30) mod 32 = (0::nat)"
    "(200::nat) < 2 ^ 64" by simp_all
  have m: "[512 * 2 ^ 30 + 992 \<mapsto> 100] (512 * 2 ^ 30 + 992) = Some (100::nat)" by simp
  obtain m' st' where r: "mspace_realloc (512 * 2 ^ 30 + 992) 200 st = Inr (m', st')"
    "if m' = 0 then st' = st else (m' = 512 * 2 ^ 30 + 992 \<or> [512 * 2 ^ 30 + 992 \<mapsto> 100::nat] m' = None) \<and>
       intact words ([512 * 2 ^ 30 + 992 \<mapsto> 100](512 * 2 ^ 30 + 992 := None)) st st' \<and> kept_words words (min 100 200) (512 * 2 ^ 30 + 992) st m' st'"
    using conjunct1 [OF conjunct2 [OF conjunct2 [OF conjunct2 [OF heap_session_safe [OF kernel_space_created h(1-4) s]]]], rule_format, OF m h(5)]
    by (elim exE conjE) (rule that)
  have "m' \<noteq> 0 \<longrightarrow> words st' (m' + 80) = words st (512 * 2 ^ 30 + 992 + 80)"
    using r(2) unfolding kept_words_def by (auto dest: spec [of _ 80] split: if_splits)
  then show ?thesis using s r(1) by blast
qed

text \<open>
  C7. In a new space as before, the blocks in use at any time lie in the area of the space, at addresses that are multiples of 32, and do not overlap.
\<close>

theorem heap_session_blocks:
  assumes "create_mspace_with_base base capacity mem = Some s0" "1136 \<le> capacity" "capacity < 2 ^ 40" "base + capacity < 2 ^ 63"
    "(base + capacity) mod 32 = 0" "session dlmalloc s0 st L" "L m = Some n"
  shows "m mod 32 = 0 \<and> base \<le> m \<and> m + n \<le> base + capacity \<and> (\<forall>m' n'. L m' = Some n' \<longrightarrow> m' \<noteq> m \<longrightarrow> m + n \<le> m' \<or> m' + n' \<le> m)"
proof -
  note s0 = created_ok [OF assms(1-5)]
  note b = space_blocks [OF dl.session_good [OF s0 assms(6)] assms(7)]
  have "base \<le> m" "m + n \<le> base + capacity" using b(2,3) assms(2) by auto
  then show ?thesis using b(1) dl.session_disjoint [OF s0 assms(6,7)] by blast
qed

theorem heap_session_blocks_witness:
  "\<exists>st. session dlmalloc kernel_space st [512 * 2 ^ 30 + 992 \<mapsto> 100] \<and>
     (512 * 2 ^ 30 + 992 :: nat) mod 32 = 0 \<and> (512 * 2 ^ 30 + 992) + 100 \<le> (512 * 2 ^ 30 + 256 * 2 ^ 30 :: nat)"
proof -
  obtain st where s: "session dlmalloc kernel_space st [512 * 2 ^ 30 + 992 \<mapsto> 100]" using kernel_space_session by blast
  have m: "[512 * 2 ^ 30 + 992 \<mapsto> 100] (512 * 2 ^ 30 + 992) = Some (100::nat)" by simp
  have h: "(1136::nat) \<le> 256 * 2 ^ 30" "256 * 2 ^ 30 < (2::nat) ^ 40" "512 * 2 ^ 30 + 256 * 2 ^ 30 < (2::nat) ^ 63" "(512 * 2 ^ 30 + 256 * 2 ^ 30) mod 32 = (0::nat)" by simp_all
  note b = heap_session_blocks [OF kernel_space_created h s m]
  show ?thesis by (intro exI conjI, rule s, rule conjunct1 [OF b], rule conjunct1 [OF conjunct2 [OF conjunct2 [OF b]]])
qed

text \<open>
  C20. In a well-formed heap, a request fails only when no free chunk is large enough: every free chunk is smaller than the padded request, or it is the top chunk, which
  is never handed out as a whole.
\<close>

theorem malloc_fails_when_full:
  assumes "heap F e C st" "n < 2 ^ 64" "mspace_malloc n st = Inr (0, st')"
  shows "st' = st \<and> (\<forall>p s v. C p = Some (s, False, v) \<longrightarrow> s < request2size n \<or> p = top_chunk st \<and> s = request2size n)"
proof -
  have "st' = st \<and> full C (top_chunk st) (request2size n)"
    using mspace_malloc_spec [OF assms(1,2) refl] assms(3) by (auto simp: handed_def chunk2mem_def)
  then show ?thesis unfolding full_def by (metis le_neq_implies_less)
qed

theorem malloc_fails_when_full_witness:
  "\<exists>C. heap (512 * 2 ^ 30 + 16) (512 * 2 ^ 30 + 256 * 2 ^ 30 - 112) C kernel_space \<and>
    (\<forall>p s v. C p = Some (s, False, v) \<longrightarrow> s < request2size (2 ^ 60) \<or> p = top_chunk kernel_space \<and> s = request2size (2 ^ 60))"
proof -
  have "chunk2mem (512 * 2 ^ 30) = 512 * 2 ^ 30 + 16" by (simp add: chunk2mem_def)
  then have F: "512 * 2 ^ 30 + 16 = 512 * 2 ^ 30 + align_offset (chunk2mem (512 * 2 ^ 30))" by (simp add: align_offset_def)
  note f = create_heap [OF kernel_space_created _ _ _ _ F refl]
  obtain C where C: "heap (512 * 2 ^ 30 + 16) (512 * 2 ^ 30 + 256 * 2 ^ 30 - 112) C kernel_space" using f(1) by auto
  have "mspace_malloc (2 ^ 60) kernel_space = Inr (0, kernel_space)"
    using f(2-) by (simp add: mspace_malloc_def MAX_SMALL_REQUEST_def MAX_REQUEST_def pad_request_def malloc_dv_top_def sys_alloc_def Let_def)
  from malloc_fails_when_full [OF C _ this] show ?thesis using C by auto
qed

end
