(* ===== verification/Spec2Isabelle.thy ===== *)
theory Spec2Isabelle
  imports Multiboot Initrd Kernel Resources Console Ports Locks Natives AcpiNatives Wrappers Profiler InflateSafe DlClient
begin

text \<open>
  A verification library for the kernel of JsOS (a fork of runtime.js): a C++ kernel that boots on
  x86-64, manages memory and interrupts, and runs JavaScript threads on V8. The sources modelled are
  those of \<^verbatim>\<open>src/src/kernel\<close>, with the decompressor \<^verbatim>\<open>src/deps/miniz/tinfl.c\<close> and the formatter
  \<^verbatim>\<open>src/deps/printf/printf.cc\<close> it is linked with; the definitions keep their names.

  \<^bold>\<open>The program.\<close> The boot loader enters \<open>KernelMain\<close> with a Multiboot structure, which names the
  memory map and the initial ramdisk. The physical allocator takes the free 2 MiB pages from the map, the
  memory manager builds the page tables and from then on serves page faults. ACPI tables give the
  interrupt controllers, the timer and the other processors; every processor enters an \<open>Engine\<close>,
  whose \<open>ThreadManager\<close> schedules \<open>Thread\<close> objects. A thread runs its event loop \<open>Thread::Run\<close>:
  it takes the messages other threads, timers and interrupt handlers have put into its queue and
  enters JavaScript for each. Values move between threads as byte streams (\<open>TransportData\<close>);
  JavaScript drivers reach the hardware through resource objects.

  \<^bold>\<open>The theories\<close>, in the order of the imports:

  \<^item> \<open>Prelude\<close>: results with the errors of the kernel (\<open>res\<close>, \<open>rt_assert\<close> for \<open>RT_ASSERT\<close>), little-endian
    words in memory, lemmas on words and lists.
  \<^item> \<open>Utils\<close>: \<^verbatim>\<open>utils.h\<close> and \<^verbatim>\<open>constants.h\<close>. \<open>ToString\<close> prints the value, and in a base
    other than ten a negative value as its 64-bit two's complement.
  \<^item> \<open>PhysMem\<close>: the two stacks of free pages and \<open>PhysicalAllocator\<close> of \<^verbatim>\<open>mem-manager.h\<close>. A page has one
    owner; allocation is complete; a double free is caught. Locale \<open>page_provider\<close>.
  \<^item> \<open>Multiboot\<close>: the memory map enumerator and the constructor of the allocator: exactly the
    available pages from 32 MiB on are free after boot.
  \<^item> \<open>AddressSpace\<close>: the four-level page tables in memory and their allocator. \<open>MapPage\<close> implements a
    finite map from virtual pages to frames. Locale \<open>address_space\<close>.
  \<^item> \<open>MemManager\<close>: page faults, the virtual allocator, stacks with guard pages, \<open>malloc\<close> over
    an arbitrary heap implementation.
  \<^item> \<open>Dlmalloc\<close>, \<open>DlBins\<close>, \<open>DlTrees\<close>, \<open>DlOps\<close>, \<open>DlWalk\<close>, \<open>DlHeap\<close>, \<open>DlFree\<close>, \<open>DlAlloc\<close>, \<open>DlSpace\<close>, \<open>DlResize\<close>, \<open>DlClient\<close>: the heap
    allocator \<^verbatim>\<open>dlmalloc.cc\<close> on a memory of words. \<open>Dlmalloc\<close> holds the definitions. The bins are shown to be a set of free chunks: circular
    lists of small chunks (\<open>DlBins\<close>), tries of large ones (\<open>DlTrees\<close>), insertion and removal (\<open>DlOps\<close>), search (\<open>DlWalk\<close>). \<open>DlHeap\<close> divides
    the area into chunks, whose tags in memory agree with a map of the chunks; on it \<open>DlFree\<close>, \<open>DlAlloc\<close> and \<open>DlSpace\<close> specify
    \<open>mspace_free\<close>, the paths of \<open>mspace_malloc\<close> and the whole of it; \<open>DlResize\<close> adds \<open>mspace_calloc\<close>, \<open>mspace_realloc\<close> and \<open>mspace_memalign\<close>.
    \<open>DlClient\<close> states what its users rely on as the locales \<open>block_space\<close> and \<open>full_space\<close>, interpreted by the allocator: no call aborts, blocks in use
    do not overlap and keep their contents.
  \<^item> \<open>Transport\<close>: \<^verbatim>\<open>transport.cc\<close> and the function exports of \<^verbatim>\<open>thread.h\<close>: what is packed unpacks to the same
    value, and unpacking returns on every stream of bytes, inside the stream unless a string in it has a length that is negative as an \<open>int\<close>.
  \<^item> \<open>HuffTable\<close>, \<open>Inflate\<close>, \<open>Deflate\<close>, \<open>Zlib\<close>: the decompressor of the ramdisk. \<open>HuffTable\<close> models the
    construction of the decoding tables and shows that they decode the canonical code of RFC 1951 within their
    bounds; \<open>Inflate\<close> holds the rest of \<open>tinfl_decompress\<close>; \<open>Deflate\<close> states the format and shows for every
    step, on its fast and slow paths, that it consumes the bits of one construct and writes its contents;
    \<open>Zlib\<close> adds the header and the checksum: every zlib stream is unpacked to its contents.
  \<^item> \<open>InflateSafe\<close>: the decompressor on arbitrary bytes: it returns, and no access leaves the tables or the buffers,
    apart from the copy loop on the two reserved length symbols.
  \<^item> \<open>Crc32\<close>, \<open>Initrd\<close>: the checksum equals the polynomial division bit by bit; the ramdisk is read back
    as the files that were packed, and a corrupt file is refused.
  \<^item> \<open>Pools\<close>, \<open>Timeouts\<close>, \<open>EngineModel\<close>, \<open>ThreadModel\<close>: handle pools, thread local storage, the timeout heap
    with the algorithms of the bundled libc++, message queues, and the data of a thread with its reference
    count. Locales \<open>indexed_pool\<close> and \<open>timer_queue\<close>.
  \<^item> \<open>Scheduler\<close>: \<open>ThreadManager\<close>: round robin with priorities, delivery of timeouts, preemption.
  \<^item> \<open>EventLoop\<close>: interrupt bindings, the native calls on timers, and \<open>Thread::Run\<close> with all
    message types. The invariant on timer tokens holds in every state the loop reaches.
  \<^item> \<open>Interrupts\<close>: the interrupt descriptor table, the local APIC and the I/O APIC as traces of
    register accesses, which the lemmas replay.
  \<^item> \<open>Acpi\<close>: the parser of the ACPI tables and the HPET clock.
  \<^item> \<open>Kernel\<close>: the engines, ticks and sleeps, the start of the processors, V8's task queues, the
    interrupt entry points and the boot; an interrupt of number 1 or from 3 to 222 goes from the controller to the queues of the bound threads.
  \<^item> \<open>Resources\<close>: the resource objects of \<^verbatim>\<open>native-object.cc\<close>: whatever a program derives stays
    within what it was given; physical addresses of buffers.
  \<^item> \<open>Printf\<close>: the formatter: digits, flags, padding, and the printers into a string with their bounds.
  \<^item> \<open>Console\<close>: the text screen, the logger and its locks, the output files, printing through them.
  \<^item> \<open>Natives\<close>: the native functions on text, files, system and power and the heap snapshot stream: a
    script reads exactly the files of the archive.
  \<^item> \<open>AcpiNatives\<close>: the ACPI manager and the natives on ACPI devices; the interrupt routing table of a bridge is
    read back.
  \<^item> \<open>Wrappers\<close>: native objects, the JavaScript objects scripts hold for them, reference counts and the
    collector's callbacks as a step relation: a native function gets a live receiver of its own type or none.
  \<^item> \<open>Profiler\<close>: counters and the table of compiled code; an address is found in the code that covers it.
  \<^item> \<open>Ports\<close>: port and PCI access, the serial line and the hardware layer of ACPICA.
  \<^item> \<open>Locks\<close>: \<^verbatim>\<open>threadlib\<close> as step relations of any number of processors, one memory access a step.
    Locale \<open>exclusion\<close>, interpreted by the spinlock and the mutex. The condition variable is modelled by whole calls, split where a waiter sleeps.

  \<^bold>\<open>State and effects.\<close> A class is a record, a pointer to a kernel object an index into a store of the
  \<open>world\<close>, physical memory a function from addresses to bytes. Operations take and return their state; a
  failed assertion, an \<open>abort\<close>, a halt and an access outside an array are values of \<open>rt_error\<close>. Integers
  have the width of the source and wrap. Device registers are written as traces; what is read from a
  device or a clock is an argument, one value for each reading.

  \<^bold>\<open>Bounds and fuel.\<close> Loops that the source bounds are structural. Loops over foreign data (memory map,
  ACPI tables) and waits for a clock or a counter are partial functions into \<open>option\<close>, and the lemmas prove that
  they return when the data is well-formed or the clock advances; where they do not return there is a lemma that says
  so. \<open>Unpack\<close> recurses with the length of the stream as fuel, which is enough as every value
  takes at least one byte. The loops of the decompressor take the size of the output buffer as fuel, as each round
  writes at least one byte, and the loop over blocks the number of input bits, as each block takes three;
  \<open>InflateSafe.inflate_safe\<close> shows that this is enough for every input. The walks down a tree of the heap allocator take 65 or 66 steps, as each step halves an interval
  of at most 2^64 sizes. The loops over the nodes of a condition variable take the number of nodes. Pools are
  assumed to have fewer than 2^32 - 1 entries, and a recursive mutex to be taken fewer than 2^32 - 1 times.

  \<^bold>\<open>Arguments of the model.\<close> V8 decides which native calls an entry into JavaScript makes, and converts strings from and to UTF-8; what
  the ACPI interpreter reports, in \<open>MemManager\<close> the operations of the heap
  and the tasks of V8's platform are arguments. Nothing is assumed of them beyond what a lemma names.

  \<^bold>\<open>Not modelled.\<close> Third-party code (V8, musl, ACPICA, libc++ apart from its heap algorithms,
  json11, libsodium), the resumable use of the decompressor, the generated snapshot, assembly and single machine instructions, the templates of
  V8's global object, the \<open>Accessed\<close> and \<open>Dirty\<close> bits that processors set in page tables, the entry points of dlmalloc that the kernel does not call, natives that only return a number of V8 or a constant, the sampler and traces (stubs), printing of diagnostics apart from the console itself, and the JavaScript runtime. Locks that
  protect one operation of a component are not part of that component's state: its operations are
  atomic there, and \<open>Locks\<close> is where the locks themselves are shown to exclude.
\<close>

end
